(* ===== verification/Prelude.thy ===== *)
theory Prelude
  imports Main "HOL-Library.Word"
begin

text \<open>
  Shared vocabulary of the development: machine integers, error codes, byte order, and two
  interfaces that several components use.

  \<^item> \<open>u8\<close>, \<open>u16\<close>, \<open>u32\<close>, \<open>u64\<close> are C's fixed-width integers; \<open>size_t\<close> is 32 bits
    wide on the ESP32 target and is a natural number below \<open>size_mod\<close>, every addition
    written with its wrap-around.
  \<^item> \<open>errno\<close> names the error codes; a C \<open>int\<close> result is \<open>errno option\<close>, with \<open>None\<close>
    for \<open>0\<close>. The idiom \<open>err |= f()\<close> is \<open>err_or\<close>.
  \<^item> \<open>word_bytes\<close> is the memory image of an integer on the little-endian target; \<open>htons\<close>,
    \<open>htonl\<close> and their inverses swap it to network order.
  \<^item> The locale \<open>codec\<close> states what an encoder and its decoder promise each other; the
    locale \<open>machine\<close> states what an invariant of a handler-driven state machine promises
    for every reachable state.
\<close>

unbundle bit_operations_syntax

named_theorems defs_simps \<open>definitional equations of small accessors and helpers\<close>
named_theorems safe_intros \<open>invariant preservation facts of the components\<close>

type_synonym u8 = "8 word"
type_synonym u16 = "16 word"
type_synonym u32 = "32 word"
type_synonym u64 = "64 word"
type_synonym byte = "8 word"

section \<open>Error codes\<close>

text \<open>
  \<open>E_OR a b\<close> is the bitwise or of two codes, which the idiom \<open>err |= f()\<close> builds when
  two calls fail. \<open>errno_code\<close> gives the numbers of the target's C library.
\<close>

datatype errno =
    EINVAL | ENOMEM | ERANGE | EOVERFLOW | ENOENT | EBADMSG | EALREADY | EAGAIN
  | ETIMEDOUT | ENOSYS | EPROTO | ENOTSUP | ECONNABORTED | EAUTH | ENOSR | EAFNOSUPPORT | ENOTCONN
  | ECONNRESET | EPERM | ENODATA | EPROTONOSUPPORT | EADDRNOTAVAIL | EMSGSIZE | ENOSPC | EIO | ECONNREFUSED
  | E_OR errno errno

fun errno_code :: "errno \<Rightarrow> nat" where
  "errno_code EINVAL = 22"
| "errno_code ENOMEM = 12"
| "errno_code ERANGE = 34"
| "errno_code EOVERFLOW = 139"
| "errno_code ENOENT = 2"
| "errno_code EBADMSG = 77"
| "errno_code EALREADY = 120"
| "errno_code EAGAIN = 11"
| "errno_code ETIMEDOUT = 116"
| "errno_code ENOSYS = 88"
| "errno_code EPROTO = 71"
| "errno_code ENOTSUP = 134"
| "errno_code ECONNABORTED = 113"
| "errno_code EAUTH = 217"
| "errno_code ENOSR = 63"
| "errno_code EAFNOSUPPORT = 106"
| "errno_code ENOTCONN = 128"
| "errno_code ECONNRESET = 104"
| "errno_code EPERM = 1"
| "errno_code ENODATA = 61"
| "errno_code EPROTONOSUPPORT = 123"
| "errno_code EADDRNOTAVAIL = 125"
| "errno_code EMSGSIZE = 122"
| "errno_code ENOSPC = 28"
| "errno_code EIO = 5"
| "errno_code ECONNREFUSED = 111"
| "errno_code (E_OR a b) = or (errno_code a) (errno_code b)"

fun err_or :: "errno option \<Rightarrow> errno option \<Rightarrow> errno option" where
  "err_or None e = e"
| "err_or e None = e"
| "err_or (Some a) (Some b) = Some (E_OR a b)"

lemma err_or_None_iff [simp]: "err_or a b = None \<longleftrightarrow> a = None \<and> b = None"
  by (cases a; cases b) auto

lemma err_or_right [simp]: "err_or a None = a"
  by (cases a) auto

text \<open>No code is zero, so \<open>None\<close> really stands for \<open>0\<close>.\<close>

lemma errno_code_pos: "errno_code e \<noteq> 0"
  by (induction e) (auto simp: or_eq_0_iff)

section \<open>Sizes\<close>

definition size_mod :: nat where
  "size_mod = 2 ^ 32"

definition size_add :: "nat \<Rightarrow> nat \<Rightarrow> nat" where
  "size_add a b = (a + b) mod size_mod"

lemma size_add_no_wrap [simp]: "a + b < size_mod \<Longrightarrow> size_add a b = a + b"
  by (simp add: size_add_def)

lemma size_add_less [simp]: "size_add a b < size_mod"
  by (simp add: size_add_def size_mod_def)

text \<open>The value an arithmetic expression has when it is stored in a \<open>size_t\<close>.\<close>

definition size_wrap :: "int \<Rightarrow> nat" where
  "size_wrap k = nat (k mod int size_mod)"

section \<open>Memory images of integers\<close>

definition word_bytes :: "nat \<Rightarrow> 'a::len word \<Rightarrow> byte list" where
  "word_bytes n w = map (\<lambda>i. ucast (drop_bit (8 * i) w)) [0..<n]"

fun word_of_bytes :: "byte list \<Rightarrow> 'a::len word" where
  "word_of_bytes [] = 0"
| "word_of_bytes (b # bs) = ucast b OR push_bit 8 (word_of_bytes bs)"

lemma length_word_bytes [simp]: "length (word_bytes n w) = n"
  by (simp add: word_bytes_def)

lemma word_bytes_0: "word_bytes 0 w = []"
  by (simp add: word_bytes_def)

lemma word_bytes_Suc: "word_bytes (Suc n) w = ucast w # word_bytes n (drop_bit 8 w)"
  by (simp add: word_bytes_def upt_conv_Cons map_Suc_upt [symmetric] del: upt_Suc)
     (simp add: drop_bit_drop_bit add.commute)

lemma word_of_bytes_word_bytes_bit:
  fixes w :: "'a::len word"
  shows "bit (word_of_bytes (word_bytes n w) :: 'a word) k \<longleftrightarrow> k < 8 * n \<and> bit w k"
proof (induction n arbitrary: w k)
  case 0
  show ?case by (simp add: word_bytes_0)
next
  case (Suc n)
  show ?case
  proof (cases "k < LENGTH('a)")
    case True
    then show ?thesis
      by (cases "k < 8")
         (auto simp: word_bytes_Suc bit_or_iff bit_push_bit_iff bit_ucast_iff bit_drop_bit_eq Suc.IH)
  next
    case False
    then show ?thesis by (simp add: bit_word.rep_eq)
  qed
qed

lemma word_of_bytes_word_bytes:
  fixes w :: "'a::len word"
  assumes "LENGTH('a) \<le> 8 * n"
  shows "word_of_bytes (word_bytes n w) = w"
  by (rule bit_word_eqI) (use assms in \<open>simp add: word_of_bytes_word_bytes_bit\<close>)

lemma word_of_bytes_roundtrips [simp]:
  "word_of_bytes (word_bytes 2 w16) = (w16 :: u16)"
  "word_of_bytes (word_bytes 4 w32) = (w32 :: u32)"
  "word_of_bytes (word_bytes 8 w64) = (w64 :: u64)"
  "word_of_bytes (word_bytes 1 w8) = (w8 :: u8)"
  by (rule word_of_bytes_word_bytes; simp)+

text \<open>Host to network order on the little-endian target: the bytes reversed.\<close>

definition htons :: "u16 \<Rightarrow> u16" where
  "htons v = word_of_bytes (rev (word_bytes 2 v))"

definition htonl :: "u32 \<Rightarrow> u32" where
  "htonl v = word_of_bytes (rev (word_bytes 4 v))"

abbreviation ntohs :: "u16 \<Rightarrow> u16" where "ntohs \<equiv> htons"

abbreviation ntohl :: "u32 \<Rightarrow> u32" where "ntohl \<equiv> htonl"

lemma word_of_bytes_bit_less: "bit (word_of_bytes bs :: 'a::len word) k \<Longrightarrow> k < 8 * length bs"
proof (induction bs arbitrary: k)
  case (Cons c cs)
  from Cons.prems consider "k < 8" | "8 \<le> k" and "bit (word_of_bytes cs :: 'a word) (k - 8)"
    by (auto simp: bit_or_iff bit_push_bit_iff bit_ucast_iff dest: bit_imp_le_length)
  then show ?case
    by cases (auto dest!: Cons.IH)
qed simp

lemma word_bytes_word_of_bytes:
  assumes "8 * length bs \<le> LENGTH('a::len)"
  shows "word_bytes (length bs) (word_of_bytes bs :: 'a word) = bs"
  using assms
proof (induction bs)
  case Nil
  show ?case by (simp add: word_bytes_0)
next
  case (Cons b bs)
  have head: "ucast (word_of_bytes (b # bs) :: 'a word) = b"
    using Cons.prems
    by (intro bit_word_eqI) (auto simp: bit_ucast_iff bit_or_iff bit_push_bit_iff dest: bit_imp_le_length)
  have "\<not> bit b (k + 8)" for k
    by (simp add: bit_word.rep_eq)
  moreover have "n + 8 < LENGTH('a)" if "bit (word_of_bytes bs :: 'a word) n" for n
    using word_of_bytes_bit_less [OF that] Cons.prems by simp
  ultimately have tail: "drop_bit 8 (word_of_bytes (b # bs) :: 'a word) = word_of_bytes bs"
    by (intro bit_word_eqI)
       (auto simp: bit_drop_bit_eq bit_or_iff bit_push_bit_iff bit_ucast_iff add.commute)
  show ?case
    using Cons by (simp add: word_bytes_Suc head tail del: word_of_bytes.simps)
qed

lemma htons_bytes: "word_bytes 2 (htons v) = rev (word_bytes 2 v)"
  using word_bytes_word_of_bytes [of "rev (word_bytes 2 v)", where 'a = 16]
  by (simp add: htons_def)

lemma htonl_bytes: "word_bytes 4 (htonl v) = rev (word_bytes 4 v)"
  using word_bytes_word_of_bytes [of "rev (word_bytes 4 v)", where 'a = 32]
  by (simp add: htonl_def)

lemma ntohs_htons [simp]: "ntohs (htons v) = v"
  by (subst htons_def) (simp add: htons_bytes)

lemma ntohl_htonl [simp]: "ntohl (htonl v) = v"
  by (subst htonl_def) (simp add: htonl_bytes)

section \<open>Small words\<close>

lemma and_mask_small: "unat (w :: 'a::len word) < 2 ^ n \<Longrightarrow> w AND mask n = w"
  unfolding word_unat_eq_iff take_bit_eq_mask [symmetric] unsigned_take_bit_eq by (simp add: take_bit_nat_eq_self)

lemma drop_bit_small: "unat (w :: 'a::len word) < 2 ^ k \<Longrightarrow> drop_bit k w = 0"
  unfolding word_unat_eq_iff unat_drop_bit_eq by (simp add: drop_bit_eq_div)

lemma unat_drop_bit_div: "unat (drop_bit k (w :: 'a::len word)) = unat w div 2 ^ k"
  unfolding unat_drop_bit_eq by (rule drop_bit_eq_div)

lemma sint_32_small:
  assumes "- 0x80000000 \<le> k" and "k < 0x80000000"
  shows "sint (word_of_int k :: u32) = k"
proof -
  have "sint (word_of_int k :: u32) = signed_take_bit 31 k"
    by (simp add: sint_sbintrunc')
  also have "\<dots> = k" using assms by (intro signed_take_bit_int_eq_self) simp_all
  finally show ?thesis .
qed

section \<open>Lists\<close>

lemma option_eqI: "(\<And>x. a = Some x \<longleftrightarrow> b = Some x) \<Longrightarrow> a = b"
  by (cases a; cases b) auto

text \<open>A block \<open>bs\<close> copied over a buffer at offset \<open>p\<close>, as \<open>memcpy\<close> does.\<close>

definition splice :: "nat \<Rightarrow> 'a list \<Rightarrow> 'a list \<Rightarrow> 'a list" where
  "splice p bs xs = take p xs @ bs @ drop (p + length bs) xs"

lemma find_append: "find P (xs @ ys) = (case find P xs of None \<Rightarrow> find P ys | Some x \<Rightarrow> Some x)"
  by (induction xs) auto

lemma length_splice [simp]: "p + length bs \<le> length xs \<Longrightarrow> length (splice p bs xs) = length xs"
  by (simp add: splice_def)

lemma take_splice_before [simp]: "n \<le> p \<Longrightarrow> p \<le> length xs \<Longrightarrow> take n (splice p bs xs) = take n xs"
  by (simp add: splice_def min_def)

lemma take_splice_upto [simp]:
  "p \<le> length xs \<Longrightarrow> take (p + length bs) (splice p bs xs) = take p xs @ bs"
  by (simp add: splice_def)

lemma drop_splice_after [simp]:
  "p + length bs \<le> n \<Longrightarrow> p \<le> length xs \<Longrightarrow> drop n (splice p bs xs) = drop n xs"
  by (simp add: splice_def)

lemma splice_read_back [simp]:
  "p \<le> length xs \<Longrightarrow> take (length bs) (drop p (splice p bs xs)) = bs"
  by (simp add: splice_def)

section \<open>Encoders and decoders\<close>

text \<open>
  What a pair of an encoder and a decoder promises: the decoder reads back a well-formed
  value and leaves the bytes behind it alone. From that, encodings of different values are
  never a prefix of one another, and a sequence of values decodes element by element.
\<close>

fun decode_many :: "(byte list \<Rightarrow> ('a \<times> byte list) option) \<Rightarrow> nat \<Rightarrow> byte list \<Rightarrow> ('a list \<times> byte list) option" where
  "decode_many dec 0 bs = Some ([], bs)"
| "decode_many dec (Suc n) bs =
     (case dec bs of None \<Rightarrow> None
      | Some (a, r) \<Rightarrow> (case decode_many dec n r of None \<Rightarrow> None
                         | Some (xs, r') \<Rightarrow> Some (a # xs, r')))"

locale codec =
  fixes enc :: "'a \<Rightarrow> byte list"
    and dec :: "byte list \<Rightarrow> ('a \<times> byte list) option"
    and wf :: "'a \<Rightarrow> bool"
  assumes dec_enc: "wf a \<Longrightarrow> length (enc a) + length rest < size_mod \<Longrightarrow> dec (enc a @ rest) = Some (a, rest)"
begin

lemma enc_prefix_free:
  assumes "wf a" and "wf b" and "enc a @ r = enc b @ s" and "length (enc a @ r) < size_mod"
  shows "a = b \<and> r = s"
proof -
  have "Some (a, r) = Some (b, s)"
    using dec_enc [OF assms(1), of r] dec_enc [OF assms(2), of s] assms(3,4) by (metis length_append)
  then show ?thesis by simp
qed

lemma decode_many_concat:
  "\<forall>a \<in> set xs. wf a \<Longrightarrow> length (concat (map enc xs)) + length rest < size_mod \<Longrightarrow>
   decode_many dec (length xs) (concat (map enc xs) @ rest) = Some (xs, rest)"
  by (induction xs) (auto simp: dec_enc)

end

section \<open>State machines\<close>

text \<open>
  A machine is an initial condition and a step relation labelled by the event that was
  handled. An invariant that every step keeps holds in every reachable state and along
  every trace.
\<close>

inductive reachable :: "('s \<Rightarrow> bool) \<Rightarrow> ('s \<Rightarrow> 'e \<Rightarrow> 's \<Rightarrow> bool) \<Rightarrow> 's \<Rightarrow> bool"
  for init :: "'s \<Rightarrow> bool" and step :: "'s \<Rightarrow> 'e \<Rightarrow> 's \<Rightarrow> bool"
where
  reach_init: "init s \<Longrightarrow> reachable init step s"
| reach_step: "reachable init step s \<Longrightarrow> step s e t \<Longrightarrow> reachable init step t"

inductive trace :: "('s \<Rightarrow> 'e \<Rightarrow> 's \<Rightarrow> bool) \<Rightarrow> 's \<Rightarrow> 'e list \<Rightarrow> 's \<Rightarrow> bool"
  for step :: "'s \<Rightarrow> 'e \<Rightarrow> 's \<Rightarrow> bool"
where
  trace_nil: "trace step s [] s"
| trace_cons: "step s e t \<Longrightarrow> trace step t es u \<Longrightarrow> trace step s (e # es) u"

locale machine =
  fixes init :: "'s \<Rightarrow> bool"
    and step :: "'s \<Rightarrow> 'e \<Rightarrow> 's \<Rightarrow> bool"
    and inv :: "'s \<Rightarrow> bool"
  assumes init_inv: "init s \<Longrightarrow> inv s"
    and step_inv: "inv s \<Longrightarrow> step s e t \<Longrightarrow> inv t"
begin

lemma reachable_inv: "reachable init step s \<Longrightarrow> inv s"
  by (induction rule: reachable.induct) (auto intro: init_inv step_inv)

lemma trace_inv: "trace step s es t \<Longrightarrow> inv s \<Longrightarrow> inv t"
  by (induction rule: trace.induct) (auto intro: step_inv)

lemma trace_reachable: "trace step s es t \<Longrightarrow> reachable init step s \<Longrightarrow> reachable init step t"
  by (induction rule: trace.induct) (auto intro: reach_step)

end

end
