(* ===== verification/Mbuf.thy ===== *)
theory Mbuf
  imports Prelude
begin

text \<open>
  The memory buffer of \<open>re/src/mbuf/mbuf.c\<close> and \<open>re/include/re_mbuf.h\<close>: a growing block
  of bytes with a cursor \<open>mb_pos\<close> and an end \<open>mb_end\<close>. Every protocol encoder and decoder
  works on it.

  Two ghost fields record what C leaves implicit. \<open>mb_tick\<close> counts calls of the allocator,
  whose answers are the parameter \<open>al\<close>: \<open>al t n\<close> is the answer to the \<open>t\<close>-th request, of
  \<open>n\<close> bytes: \<open>None\<close> for a failure, or the contents of the fresh block. \<open>mb_ub\<close> is set
  by the first access outside the block (undefined behaviour in C) and stays set.

  A function here takes the buffer a non-NULL pointer refers to; \<open>on_mbuf\<close> is the guard
  \<open>if (!mb) return EINVAL;\<close> with which the entry points start. A block argument that the
  code compares with NULL is an option.

  The contract is the locale \<open>byte_cursor\<close>: a buffer is a sequence of bytes before the
  cursor and a sequence behind it; writing and reading move bytes between the two.
\<close>

type_synonym alloc = "nat \<Rightarrow> nat \<Rightarrow> (nat \<Rightarrow> byte) option"

record mbuf =
  mb_buf :: "byte list option"
  mb_size :: nat
  mb_pos :: nat
  mb_end :: nat
  mb_tick :: nat
  mb_ub :: bool

definition DEFAULT_SIZE :: nat where
  "DEFAULT_SIZE = 512"

definition on_mbuf :: "(mbuf \<Rightarrow> errno option \<times> mbuf) \<Rightarrow> mbuf option \<Rightarrow> errno option \<times> mbuf option" where
  "on_mbuf f p = (case p of None \<Rightarrow> (Some EINVAL, None) | Some mb \<Rightarrow> map_prod id Some (f mb))"

text \<open>The bytes of the block; NULL holds none.\<close>

definition mb_bytes :: "mbuf \<Rightarrow> byte list" where
  "mb_bytes mb = (case mb_buf mb of None \<Rightarrow> [] | Some bs \<Rightarrow> bs)"

section \<open>Allocation\<close>

text \<open>\<open>realloc\<close> keeps the old bytes that fit and leaves the rest as the allocator gives it.\<close>

definition realloc_bytes :: "byte list \<Rightarrow> (nat \<Rightarrow> byte) \<Rightarrow> nat \<Rightarrow> byte list" where
  "realloc_bytes old fresh n = take n old @ map fresh [length old..<n]"

definition mbuf_resize :: "alloc \<Rightarrow> mbuf \<Rightarrow> nat \<Rightarrow> errno option \<times> mbuf" where
  "mbuf_resize al mb n =
     (case al (mb_tick mb) n of
        None \<Rightarrow> (Some ENOMEM, mb\<lparr>mb_tick := Suc (mb_tick mb)\<rparr>)
      | Some fresh \<Rightarrow>
          (None, mb\<lparr>mb_tick := Suc (mb_tick mb),
                    mb_buf := Some (realloc_bytes (mb_bytes mb) fresh n), mb_size := n\<rparr>))"

definition mbuf_init :: "mbuf \<Rightarrow> mbuf" where
  "mbuf_init mb = mb\<lparr>mb_buf := None, mb_size := 0, mb_pos := 0, mb_end := 0\<rparr>"

definition mbuf_reset :: "mbuf \<Rightarrow> mbuf" where
  "mbuf_reset mb = mbuf_init (mb\<lparr>mb_buf := None\<rparr>)"

definition mbuf_zero :: mbuf where
  "mbuf_zero = \<lparr>mb_buf = None, mb_size = 0, mb_pos = 0, mb_end = 0, mb_tick = 0, mb_ub = False\<rparr>"

text \<open>\<open>sizeof(struct mbuf)\<close>: a pointer and three \<open>size_t\<close> of 4 bytes each.\<close>

definition sizeof_mbuf :: nat where
  "sizeof_mbuf = 16"

definition mbuf_alloc :: "alloc \<Rightarrow> nat \<Rightarrow> mbuf option" where
  "mbuf_alloc al n =
     (case al 0 sizeof_mbuf of
        None \<Rightarrow> None
      | Some _ \<Rightarrow>
          (case mbuf_resize al (mbuf_zero\<lparr>mb_tick := 1\<rparr>) (if n \<noteq> 0 then n else DEFAULT_SIZE) of
             (None, mb) \<Rightarrow> Some mb
           | (Some _, _) \<Rightarrow> None))"

section \<open>The cursor\<close>

definition mbuf_get_left :: "mbuf \<Rightarrow> nat" where
  "mbuf_get_left mb = (if mb_end mb > mb_pos mb then mb_end mb - mb_pos mb else 0)"

definition mbuf_get_space :: "mbuf \<Rightarrow> nat" where
  "mbuf_get_space mb = (if mb_size mb > mb_pos mb then mb_size mb - mb_pos mb else 0)"

text \<open>The setters store what they are given; the comparisons with \<open>end\<close> and \<open>size\<close> in
  \<open>re_mbuf.h\<close> only stop a debugger in builds with \<open>MBUF_DEBUG\<close> and are left out.\<close>

definition mbuf_set_pos :: "mbuf \<Rightarrow> nat \<Rightarrow> mbuf" where
  "mbuf_set_pos mb p = mb\<lparr>mb_pos := p\<rparr>"

definition mbuf_set_end :: "mbuf \<Rightarrow> nat \<Rightarrow> mbuf" where
  "mbuf_set_end mb e = mb\<lparr>mb_end := e\<rparr>"

definition mbuf_advance :: "mbuf \<Rightarrow> int \<Rightarrow> mbuf" where
  "mbuf_advance mb n = mb\<lparr>mb_pos := nat ((int (mb_pos mb) + n) mod int size_mod)\<rparr>"

definition mbuf_rewind :: "mbuf \<Rightarrow> mbuf" where
  "mbuf_rewind mb = mb\<lparr>mb_pos := 0, mb_end := 0\<rparr>"

definition mbuf_skip_to_end :: "mbuf \<Rightarrow> mbuf" where
  "mbuf_skip_to_end mb = mb\<lparr>mb_pos := mb_end mb\<rparr>"

definition mbuf_set_posend :: "mbuf \<Rightarrow> nat \<Rightarrow> nat \<Rightarrow> mbuf" where
  "mbuf_set_posend mb p e =
     (if p > e then mb
      else if e > mb_size mb then mb
      else mb\<lparr>mb_pos := p, mb_end := e\<rparr>)"

definition mbuf_trim :: "alloc \<Rightarrow> mbuf \<Rightarrow> mbuf" where
  "mbuf_trim al mb =
     (if mb_end mb = 0 \<or> mb_end mb = mb_size mb then mb
      else snd (mbuf_resize al mb (mb_end mb)))"

section \<open>Raw memory accesses\<close>

text \<open>\<open>memcpy\<close>, \<open>memset\<close> and \<open>memmove\<close> into the block at offset \<open>p\<close>, and a read of \<open>n\<close> bytes.\<close>

definition mem_store :: "mbuf \<Rightarrow> nat \<Rightarrow> byte list \<Rightarrow> mbuf" where
  "mem_store mb p bs =
     (if bs = [] then mb
      else if p + length bs \<le> length (mb_bytes mb)
      then mb\<lparr>mb_buf := Some (splice p bs (mb_bytes mb))\<rparr>
      else mb\<lparr>mb_ub := True\<rparr>)"

definition mem_load :: "mbuf \<Rightarrow> nat \<Rightarrow> nat \<Rightarrow> byte list \<times> mbuf" where
  "mem_load mb p n =
     (if n = 0 then ([], mb)
      else if p + n \<le> length (mb_bytes mb) then (take n (drop p (mb_bytes mb)), mb)
      else (replicate n 0, mb\<lparr>mb_ub := True\<rparr>))"

section \<open>Writing\<close>

text \<open>
  The common head of \<open>mbuf_write_mem\<close> and \<open>mbuf_fill\<close>: grow the block to at least \<open>rsize\<close>,
  and to twice its size when that is more.
\<close>

definition mbuf_grow :: "alloc \<Rightarrow> mbuf \<Rightarrow> nat \<Rightarrow> errno option \<times> mbuf" where
  "mbuf_grow al mb rsize =
     (if rsize > mb_size mb then
        let dsize = (if mb_size mb \<noteq> 0 then (mb_size mb * 2) mod size_mod else DEFAULT_SIZE)
        in mbuf_resize al mb (max rsize dsize)
      else (None, mb))"

text \<open>The common tail: store the bytes at the cursor and move it.\<close>

definition mbuf_put :: "mbuf \<Rightarrow> byte list \<Rightarrow> mbuf" where
  "mbuf_put mb bs =
     (let mb = mem_store mb (mb_pos mb) bs;
          p = size_add (mb_pos mb) (length bs)
      in mb\<lparr>mb_pos := p, mb_end := max (mb_end mb) p\<rparr>)"

definition mbuf_write_mem :: "alloc \<Rightarrow> mbuf \<Rightarrow> byte list option \<Rightarrow> errno option \<times> mbuf" where
  "mbuf_write_mem al mb src =
     (case src of
        None \<Rightarrow> (Some EINVAL, mb)
      | Some bs \<Rightarrow>
          (case mbuf_grow al mb (size_add (mb_pos mb) (length bs)) of
             (Some err, mb') \<Rightarrow> (Some err, mb')
           | (None, mb') \<Rightarrow> (None, mbuf_put mb' bs)))"

definition mbuf_write_ptr :: "alloc \<Rightarrow> mbuf \<Rightarrow> u32 \<Rightarrow> errno option \<times> mbuf" where
  "mbuf_write_ptr al mb v = mbuf_write_mem al mb (Some (word_bytes 4 v))"

definition mbuf_write_u8 :: "alloc \<Rightarrow> mbuf \<Rightarrow> u8 \<Rightarrow> errno option \<times> mbuf" where
  "mbuf_write_u8 al mb v = mbuf_write_mem al mb (Some (word_bytes 1 v))"

definition mbuf_write_u16 :: "alloc \<Rightarrow> mbuf \<Rightarrow> u16 \<Rightarrow> errno option \<times> mbuf" where
  "mbuf_write_u16 al mb v = mbuf_write_mem al mb (Some (word_bytes 2 v))"

definition mbuf_write_u32 :: "alloc \<Rightarrow> mbuf \<Rightarrow> u32 \<Rightarrow> errno option \<times> mbuf" where
  "mbuf_write_u32 al mb v = mbuf_write_mem al mb (Some (word_bytes 4 v))"

definition mbuf_write_u64 :: "alloc \<Rightarrow> mbuf \<Rightarrow> u64 \<Rightarrow> errno option \<times> mbuf" where
  "mbuf_write_u64 al mb v = mbuf_write_mem al mb (Some (word_bytes 8 v))"

text \<open>A C string is the bytes before its terminator.\<close>

definition mbuf_write_str :: "alloc \<Rightarrow> mbuf \<Rightarrow> byte list option \<Rightarrow> errno option \<times> mbuf" where
  "mbuf_write_str al mb str =
     (case str of None \<Rightarrow> (Some EINVAL, mb) | Some s \<Rightarrow> mbuf_write_mem al mb (Some s))"

text \<open>
  A pointer-length string; the outer option is the pointer to it, the inner one its
  \<open>p\<close>, NULL in a string that is not set.
\<close>

definition mbuf_write_pl :: "alloc \<Rightarrow> mbuf \<Rightarrow> byte list option option \<Rightarrow> errno option \<times> mbuf" where
  "mbuf_write_pl al mb pl =
     (case pl of None \<Rightarrow> (Some EINVAL, mb) | Some src \<Rightarrow> mbuf_write_mem al mb src)"

text \<open>
  Two pointer-length strings into the same text \<open>m\<close>: \<open>(p, l)\<close> without its section
  \<open>(sp, sl)\<close>.
\<close>

definition mbuf_write_pl_skip ::
  "alloc \<Rightarrow> mbuf \<Rightarrow> byte list \<Rightarrow> (nat \<times> nat) option \<Rightarrow> (nat \<times> nat) option \<Rightarrow> errno option \<times> mbuf" where
  "mbuf_write_pl_skip al mb m pl skip =
     (case (pl, skip) of
        (Some (p, l), Some (sp, sl)) \<Rightarrow>
          if p > sp \<or> sp + sl > p + l then (Some ERANGE, mb)
          else (case mbuf_write_mem al mb (Some (take (sp - p) (drop p m))) of
                  (Some err, mb') \<Rightarrow> (Some err, mb')
                | (None, mb') \<Rightarrow>
                    mbuf_write_mem al mb' (Some (take (p + l - (sp + sl)) (drop (sp + sl) m))))
      | _ \<Rightarrow> (Some EINVAL, mb))"

definition mbuf_fill :: "alloc \<Rightarrow> mbuf \<Rightarrow> byte \<Rightarrow> nat \<Rightarrow> errno option \<times> mbuf" where
  "mbuf_fill al mb c n =
     (if n = 0 then (Some EINVAL, mb)
      else (case mbuf_grow al mb (size_add (mb_pos mb) n) of
              (Some err, mb') \<Rightarrow> (Some err, mb')
            | (None, mb') \<Rightarrow> (None, mbuf_put mb' (replicate n c))))"

section \<open>Reading\<close>

definition mbuf_read_mem :: "mbuf \<Rightarrow> nat \<Rightarrow> errno option \<times> byte list \<times> mbuf" where
  "mbuf_read_mem mb n =
     (if n > mbuf_get_left mb then (Some EOVERFLOW, [], mb)
      else (case mem_load mb (mb_pos mb) n of
              (bs, mb') \<Rightarrow> (None, bs, mb'\<lparr>mb_pos := size_add (mb_pos mb') n\<rparr>)))"

definition mbuf_read_word :: "nat \<Rightarrow> mbuf \<Rightarrow> 'a::len word \<times> mbuf" where
  "mbuf_read_word n mb =
     (case mbuf_read_mem mb n of
        (None, bs, mb') \<Rightarrow> (word_of_bytes bs, mb')
      | (Some _, _, mb') \<Rightarrow> (0, mb'))"

definition mbuf_read_ptr :: "mbuf \<Rightarrow> u32 \<times> mbuf" where
  "mbuf_read_ptr mb = mbuf_read_word 4 mb"

definition mbuf_read_u8 :: "mbuf \<Rightarrow> u8 \<times> mbuf" where
  "mbuf_read_u8 mb = mbuf_read_word 1 mb"

definition mbuf_read_u16 :: "mbuf \<Rightarrow> u16 \<times> mbuf" where
  "mbuf_read_u16 mb = mbuf_read_word 2 mb"

definition mbuf_read_u32 :: "mbuf \<Rightarrow> u32 \<times> mbuf" where
  "mbuf_read_u32 mb = mbuf_read_word 4 mb"

definition mbuf_read_u64 :: "mbuf \<Rightarrow> u64 \<times> mbuf" where
  "mbuf_read_u64 mb = mbuf_read_word 8 mb"

text \<open>The bytes stored to \<open>str\<close>, at most \<open>n\<close>, up to and including a terminator.\<close>

fun mbuf_read_str :: "mbuf \<Rightarrow> nat \<Rightarrow> byte list \<times> mbuf" where
  "mbuf_read_str mb 0 = ([], mb)"
| "mbuf_read_str mb (Suc n) =
     (case mbuf_read_u8 mb of
        (c, mb') \<Rightarrow>
          if c = 0 then ([c], mb')
          else (case mbuf_read_str mb' n of (s, mb'') \<Rightarrow> (c # s, mb'')))"

definition mbuf_strdup :: "alloc \<Rightarrow> mbuf \<Rightarrow> nat \<Rightarrow> errno option \<times> byte list option \<times> mbuf" where
  "mbuf_strdup al mb len =
     (case al (mb_tick mb) (size_add len 1) of
        None \<Rightarrow> (Some ENOMEM, None, mb\<lparr>mb_tick := Suc (mb_tick mb)\<rparr>)
      | Some _ \<Rightarrow>
          (case mbuf_read_mem (mb\<lparr>mb_tick := Suc (mb_tick mb)\<rparr>) len of
             (Some err, _, mb') \<Rightarrow> (Some err, None, mb')
           | (None, bs, mb') \<Rightarrow> (None, Some (bs @ [0]), mb')))"

text \<open>\<open>mbuf_dup\<close>: a new block with the same bytes, cursor and end.\<close>

definition mbuf_dup :: "alloc \<Rightarrow> mbuf \<Rightarrow> mbuf option" where
  "mbuf_dup al mbd =
     (case mbuf_alloc al (mb_size mbd) of
        None \<Rightarrow> None
      | Some mb \<Rightarrow>
          (let (bs, src) = mem_load mbd 0 (mb_size mbd);
               mb = mem_store (mb\<lparr>mb_size := mb_size mbd, mb_pos := mb_pos mbd, mb_end := mb_end mbd\<rparr>) 0 bs
           in Some (mb\<lparr>mb_ub := (mb_ub mb \<or> mb_ub src)\<rparr>)))"

section \<open>Shifting\<close>

definition ssize :: "nat \<Rightarrow> int" where
  "ssize n = (if n < 2 ^ 31 then int n else int n - 2 ^ 32)"

text \<open>
  The tail of \<open>mbuf_shift\<close>: \<open>memmove\<close> the unread bytes by \<open>shift\<close> (it reads them all
  before it writes) and move cursor and end.
\<close>

definition mbuf_move :: "mbuf \<Rightarrow> int \<Rightarrow> mbuf" where
  "mbuf_move mb shift =
     (let (bs, mb1) = mem_load mb (mb_pos mb) (mbuf_get_left mb);
          mb2 = mem_store mb1 (nat (int (mb_pos mb) + shift)) bs
      in mb2\<lparr>mb_pos := nat ((int (mb_pos mb) + shift) mod int size_mod),
             mb_end := nat ((int (mb_end mb) + shift) mod int size_mod)\<rparr>)"

text \<open>The signed sums are undefined when they leave the range of \<open>ssize_t\<close>.\<close>

definition mbuf_shift :: "alloc \<Rightarrow> mbuf \<Rightarrow> int \<Rightarrow> errno option \<times> mbuf" where
  "mbuf_shift al mb shift =
     (if ssize (mb_pos mb) + shift \<ge> 2 ^ 31 \<or> ssize (mb_end mb) + shift \<ge> 2 ^ 31
      then (None, mb\<lparr>mb_ub := True\<rparr>)
      else if ssize (mb_pos mb) + shift < 0 \<or> ssize (mb_end mb) + shift < 0
      then (Some ERANGE, mb)
      else
        (let rsize = nat ((int (mb_end mb) + shift) mod int size_mod)
         in case (if rsize > mb_size mb then mbuf_resize al mb rsize else (None, mb)) of
              (Some err, mb') \<Rightarrow> (Some err, mb')
            | (None, mb') \<Rightarrow> (None, mbuf_move mb' shift)))"

section \<open>The contract: a cursor in a sequence of bytes\<close>

definition mbuf_ok :: "mbuf \<Rightarrow> bool" where
  "mbuf_ok mb \<longleftrightarrow> \<not> mb_ub mb \<and> mb_pos mb \<le> mb_end mb \<and> mb_end mb \<le> mb_size mb
     \<and> mb_size mb \<le> length (mb_bytes mb) \<and> length (mb_bytes mb) < size_mod"

definition mb_before :: "mbuf \<Rightarrow> byte list" where
  "mb_before mb = take (mb_pos mb) (mb_bytes mb)"

definition mb_after :: "mbuf \<Rightarrow> byte list" where
  "mb_after mb = take (mb_end mb - mb_pos mb) (drop (mb_pos mb) (mb_bytes mb))"

text \<open>
  \<open>err |= f(mb)\<close>, the line encoders are made of: the next write happens whether or not an
  earlier one failed. \<open>writer\<close> is the contract of a piece of an encoder that emits \<open>bs\<close>: if
  it reports success, the bytes are before the cursor; in any case it stays within bounds.
\<close>

definition also_err ::
  "errno option \<times> 's \<Rightarrow> ('s \<Rightarrow> errno option \<times> 's) \<Rightarrow> errno option \<times> 's" where
  "also_err s f = (case s of (err, mb) \<Rightarrow> (case f mb of (e, mb') \<Rightarrow> (err_or err e, mb')))"

definition writer ::
  "('s \<Rightarrow> bool) \<Rightarrow> ('s \<Rightarrow> byte list) \<Rightarrow> ('s \<Rightarrow> byte list) \<Rightarrow> ('s \<Rightarrow> errno option \<times> 's) \<Rightarrow> byte list \<Rightarrow> bool" where
  "writer ok before after f bs \<longleftrightarrow>
     (\<forall>s e t. ok s \<longrightarrow> length (before s) + length bs < size_mod \<longrightarrow> f s = (e, t) \<longrightarrow>
        ok t \<and> length (before t) \<le> length (before s) + length bs
        \<and> (e = None \<longrightarrow> before t = before s @ bs \<and> after t = drop (length bs) (after s)))"

lemma writerD:
  assumes "writer ok before after f bs" and "ok s" and "length (before s) + length bs < size_mod"
    and "f s = (e, t)"
  shows "ok t" and "length (before t) \<le> length (before s) + length bs"
    and "e = None \<Longrightarrow> before t = before s @ bs \<and> after t = drop (length bs) (after s)"
  using assms unfolding writer_def by blast+

text \<open>The other idiom, \<open>if (f(mb)) return err\<close>: the second piece runs only after success.\<close>

lemma writer_then:
  assumes f: "writer ok before after f bs" and g: "writer ok before after g cs"
  shows "writer ok before after (\<lambda>s. case f s of (None, t) \<Rightarrow> g t | (Some e, t) \<Rightarrow> (Some (h e), t)) (bs @ cs)"
  unfolding writer_def
proof (intro allI impI)
  fix s e t
  assume s: "ok s" "length (before s) + length (bs @ cs) < size_mod"
    and res: "(case f s of (None, t) \<Rightarrow> g t | (Some e, t) \<Rightarrow> (Some (h e), t)) = (e, t)"
  obtain e1 u where u: "f s = (e1, u)" by (cases "f s")
  note f = writerD [OF f s(1) _ u]
  show "ok t \<and> length (before t) \<le> length (before s) + length (bs @ cs)
      \<and> (e = None \<longrightarrow> before t = before s @ bs @ cs \<and> after t = drop (length (bs @ cs)) (after s))"
  proof (cases e1)
    case None
    with res u have v: "g u = (e, t)" by simp
    note g = writerD [OF g _ _ v]
    show ?thesis using f g s(2) None by (auto simp: add.commute)
  next
    case (Some x)
    with res u have "e = Some (h x)" "t = u" by auto
    with f s(2) show ?thesis by auto
  qed
qed

locale byte_cursor =
  fixes put :: "'s \<Rightarrow> byte list \<Rightarrow> errno option \<times> 's"
    and get :: "'s \<Rightarrow> nat \<Rightarrow> errno option \<times> byte list \<times> 's"
    and before :: "'s \<Rightarrow> byte list"
    and after :: "'s \<Rightarrow> byte list"
    and ok :: "'s \<Rightarrow> bool"
  assumes put_ok: "ok s \<Longrightarrow> length (before s) + length bs < size_mod \<Longrightarrow> put s bs = (e, t) \<Longrightarrow> ok t"
    and put_view: "ok s \<Longrightarrow> length (before s) + length bs < size_mod \<Longrightarrow> put s bs = (None, t) \<Longrightarrow>
      before t = before s @ bs \<and> after t = drop (length bs) (after s)"
    and put_err: "ok s \<Longrightarrow> length (before s) + length bs < size_mod \<Longrightarrow> put s bs = (Some err, t) \<Longrightarrow>
      before t = before s \<and> after t = after s"
    and get_short: "ok s \<Longrightarrow> length (after s) < n \<Longrightarrow> get s n = (Some EOVERFLOW, [], s)"
    and get_view: "ok s \<Longrightarrow> n \<le> length (after s) \<Longrightarrow>
      \<exists>t. get s n = (None, take n (after s), t) \<and> ok t
        \<and> before t = before s @ take n (after s) \<and> after t = drop n (after s)"
begin

lemma put_length: "ok s \<Longrightarrow> length (before s) + length bs < size_mod \<Longrightarrow> put s bs = (e, t) \<Longrightarrow>
    length (before t) \<le> length (before s) + length bs"
  using put_view [of s bs t] put_err [of s bs _ t] by (cases e) auto

lemma writer_put: "writer ok before after (\<lambda>s. put s bs) bs"
  unfolding writer_def
proof (intro allI impI)
  fix s e t
  assume *: "ok s" "length (before s) + length bs < size_mod" "put s bs = (e, t)"
  show "ok t \<and> length (before t) \<le> length (before s) + length bs
      \<and> (e = None \<longrightarrow> before t = before s @ bs \<and> after t = drop (length bs) (after s))"
    using put_ok [OF *] put_length [OF *] put_view [OF *(1,2), of t] *(3) by simp
qed

lemma writer_skip: "writer ok before after (\<lambda>s. (None, s)) []"
  by (simp add: writer_def)

lemma writer_also:
  assumes "writer ok before after f bs" and "writer ok before after g cs"
  shows "writer ok before after (\<lambda>s. also_err (f s) g) (bs @ cs)"
  unfolding writer_def
proof (intro allI impI)
  fix s e t
  assume s: "ok s" "length (before s) + length (bs @ cs) < size_mod" "also_err (f s) g = (e, t)"
  obtain e1 u where u: "f s = (e1, u)" by (cases "f s")
  obtain e2 where v: "g u = (e2, t)" and e: "e = err_or e1 e2"
    using s(3) u by (auto simp: also_err_def split: prod.splits)
  note f = writerD [OF assms(1) s(1) _ u]
  note g = writerD [OF assms(2) _ _ v]
  show "ok t \<and> length (before t) \<le> length (before s) + length (bs @ cs)
      \<and> (e = None \<longrightarrow> before t = before s @ bs @ cs \<and> after t = drop (length (bs @ cs)) (after s))"
    using f g s(2) e by (auto simp: add.commute)
qed

lemma writer_loop:
  assumes "\<And>x. x \<in> set xs \<Longrightarrow> writer ok before after (g x) (bs x)"
    and "writer ok before after f cs"
  shows "writer ok before after (\<lambda>s. foldl (\<lambda>r x. also_err r (g x)) (f s) xs) (cs @ concat (map bs xs))"
  using assms
proof (induction xs arbitrary: f cs)
  case (Cons x xs)
  have "writer ok before after (\<lambda>s. also_err (f s) (g x)) (cs @ bs x)"
    using Cons.prems by (intro writer_also) auto
  with Cons.IH [of _ "cs @ bs x"] Cons.prems(1) show ?case by auto
qed simp

text \<open>What was written is what is read once the cursor is back where it was.\<close>

lemma put_get:
  assumes "ok s" and "length (before s) + length bs < size_mod" and "put s bs = (None, t)"
    and "ok r" and "before r = before s" and "before r @ after r = before t @ after t"
  shows "\<exists>u. get r (length bs) = (None, bs, u)"
proof -
  from put_view [OF assms(1-3)] assms(5,6)
  have "after r = bs @ after t" by auto
  with get_view [OF assms(4), of "length bs"] show ?thesis by auto
qed

end

section \<open>The buffer keeps the contract\<close>

lemma mb_bytes_simps [simp]:
  "mb_bytes (mb\<lparr>mb_size := n\<rparr>) = mb_bytes mb"
  "mb_bytes (mb\<lparr>mb_pos := n\<rparr>) = mb_bytes mb"
  "mb_bytes (mb\<lparr>mb_end := n\<rparr>) = mb_bytes mb"
  "mb_bytes (mb\<lparr>mb_tick := n\<rparr>) = mb_bytes mb"
  "mb_bytes (mb\<lparr>mb_ub := b\<rparr>) = mb_bytes mb"
  "mb_bytes (mb\<lparr>mb_buf := Some bs\<rparr>) = bs"
  "mb_bytes (mb\<lparr>mb_buf := None\<rparr>) = []"
  by (simp_all add: mb_bytes_def)

lemma length_mb_after [simp]: "mbuf_ok mb \<Longrightarrow> length (mb_after mb) = mb_end mb - mb_pos mb"
  by (auto simp: mb_after_def mbuf_ok_def)

lemma length_mb_before [simp]: "mbuf_ok mb \<Longrightarrow> length (mb_before mb) = mb_pos mb"
  by (auto simp: mb_before_def mbuf_ok_def)

lemma mbuf_get_left_after: "mbuf_ok mb \<Longrightarrow> mbuf_get_left mb = length (mb_after mb)"
  by (simp add: mbuf_get_left_def)

text \<open>Growing keeps the used bytes and the cursor, whatever the allocator answers.\<close>

lemma mbuf_resize_cases:
  assumes "mbuf_ok mb" and "mb_end mb \<le> n" and "n < size_mod" and "mbuf_resize al mb n = (e, mb')"
  shows "mbuf_ok mb' \<and> mb_before mb' = mb_before mb \<and> mb_after mb' = mb_after mb
    \<and> mb_pos mb' = mb_pos mb \<and> mb_end mb' = mb_end mb
    \<and> (e = None \<longrightarrow> mb_size mb' = n \<and> length (mb_bytes mb') = n)"
proof (cases "al (mb_tick mb) n")
  case None
  with assms show ?thesis by (auto simp: mbuf_resize_def mbuf_ok_def mb_before_def mb_after_def)
next
  case (Some fresh)
  let ?new = "realloc_bytes (mb_bytes mb) fresh n"
  have len: "length ?new = n" by (simp add: realloc_bytes_def)
  have "take (mb_end mb) ?new = take (mb_end mb) (mb_bytes mb)"
    using assms(1,2) by (simp add: realloc_bytes_def mbuf_ok_def min_def)
  moreover have "mb_pos mb \<le> mb_end mb" using assms(1) by (simp add: mbuf_ok_def)
  ultimately have "take (mb_pos mb) ?new = take (mb_pos mb) (mb_bytes mb)"
    and "take (mb_end mb - mb_pos mb) (drop (mb_pos mb) ?new) =
         take (mb_end mb - mb_pos mb) (drop (mb_pos mb) (mb_bytes mb))"
    by (metis min.absorb1 take_take, metis drop_take)
  with Some assms len show ?thesis
    by (auto simp: mbuf_resize_def mbuf_ok_def mb_before_def mb_after_def)
qed

lemma mbuf_grow_cases:
  assumes "mbuf_ok mb" and "mb_pos mb \<le> rsize" and "rsize < size_mod" and "mbuf_grow al mb rsize = (e, mb')"
  shows "mbuf_ok mb' \<and> mb_before mb' = mb_before mb \<and> mb_after mb' = mb_after mb
    \<and> mb_pos mb' = mb_pos mb \<and> mb_end mb' = mb_end mb \<and> (e = None \<longrightarrow> rsize \<le> mb_size mb')"
proof (cases "rsize > mb_size mb")
  case True
  define n where "n = max rsize (if mb_size mb \<noteq> 0 then (mb_size mb * 2) mod size_mod else DEFAULT_SIZE)"
  have n: "n < size_mod" "rsize \<le> n"
    using assms(3) by (auto simp: n_def size_mod_def DEFAULT_SIZE_def)
  moreover have "mb_end mb \<le> n" using True assms(1) n(2) by (simp add: mbuf_ok_def)
  moreover have "mbuf_resize al mb n = (e, mb')"
    using True assms(4) by (simp add: mbuf_grow_def n_def)
  ultimately show ?thesis using mbuf_resize_cases [OF assms(1), of n al e mb'] by auto
next
  case False
  with assms show ?thesis by (simp add: mbuf_grow_def)
qed

lemma mbuf_put_view:
  assumes "mbuf_ok mb" and "mb_pos mb + length bs \<le> mb_size mb"
  shows "mbuf_ok (mbuf_put mb bs)"
    and "mb_before (mbuf_put mb bs) = mb_before mb @ bs"
    and "mb_after (mbuf_put mb bs) = drop (length bs) (mb_after mb)"
proof -
  let ?p = "mb_pos mb + length bs"
  have wrap: "size_add (mb_pos mb) (length bs) = ?p"
    using assms by (simp add: mbuf_ok_def)
  have bytes: "mb_bytes (mem_store mb (mb_pos mb) bs) = splice (mb_pos mb) bs (mb_bytes mb)"
    using assms by (auto simp: mem_store_def mbuf_ok_def splice_def)
  have frame: "mb_pos (mem_store mb (mb_pos mb) bs) = mb_pos mb"
    "mb_end (mem_store mb (mb_pos mb) bs) = mb_end mb"
    "mb_size (mem_store mb (mb_pos mb) bs) = mb_size mb"
    "mb_ub (mem_store mb (mb_pos mb) bs) = mb_ub mb"
    using assms by (auto simp: mem_store_def mbuf_ok_def)
  show "mbuf_ok (mbuf_put mb bs)"
    using assms by (auto simp: mbuf_put_def Let_def frame wrap bytes mbuf_ok_def)
  show "mb_before (mbuf_put mb bs) = mb_before mb @ bs"
    using assms by (simp add: mbuf_put_def Let_def frame wrap bytes mb_before_def mbuf_ok_def)
  show "mb_after (mbuf_put mb bs) = drop (length bs) (mb_after mb)"
    using assms
    by (auto simp: mbuf_put_def Let_def frame wrap bytes mb_after_def mbuf_ok_def drop_take max_def
        add.commute)
qed

lemma mbuf_write_mem_cases:
  assumes "mbuf_ok mb" and "mb_pos mb + length bs < size_mod"
    and "mbuf_write_mem al mb (Some bs) = (e, mb')"
  shows "mbuf_ok mb' \<and>
    (if e = None then mb_before mb' = mb_before mb @ bs \<and> mb_after mb' = drop (length bs) (mb_after mb)
     else mb_before mb' = mb_before mb \<and> mb_after mb' = mb_after mb)"
proof -
  obtain g mb1 where g: "mbuf_grow al mb (size_add (mb_pos mb) (length bs)) = (g, mb1)"
    by (cases "mbuf_grow al mb (size_add (mb_pos mb) (length bs))")
  with assms have *: "mbuf_ok mb1" "mb_before mb1 = mb_before mb" "mb_after mb1 = mb_after mb"
    "mb_pos mb1 = mb_pos mb" "g = None \<Longrightarrow> mb_pos mb + length bs \<le> mb_size mb1"
    using mbuf_grow_cases [OF assms(1), of "mb_pos mb + length bs" al g mb1] by auto
  show ?thesis
  proof (cases g)
    case None
    with g assms(3) have "e = None" "mb' = mbuf_put mb1 bs"
      by (auto simp: mbuf_write_mem_def)
    with mbuf_put_view [of mb1 bs] * None show ?thesis by simp
  next
    case (Some x)
    with g assms(3) * show ?thesis by (auto simp: mbuf_write_mem_def)
  qed
qed

lemma mbuf_read_mem_ok:
  assumes "mbuf_ok mb" and "n \<le> length (mb_after mb)"
  shows "mbuf_read_mem mb n = (None, take n (mb_after mb), mb\<lparr>mb_pos := mb_pos mb + n\<rparr>)"
  using assms by (auto simp: mbuf_read_mem_def mbuf_get_left_def mem_load_def mbuf_ok_def mb_after_def)

lemma mbuf_read_mem_short:
  "mbuf_ok mb \<Longrightarrow> length (mb_after mb) < n \<Longrightarrow> mbuf_read_mem mb n = (Some EOVERFLOW, [], mb)"
  by (auto simp: mbuf_read_mem_def mbuf_get_left_after)

lemma mbuf_ok_advance:
  "mbuf_ok mb \<Longrightarrow> n \<le> length (mb_after mb) \<Longrightarrow> mbuf_ok (mb\<lparr>mb_pos := mb_pos mb + n\<rparr>)"
  by (auto simp: mbuf_ok_def mb_after_def)

lemma mb_after_advance: "mb_after (mb\<lparr>mb_pos := mb_pos mb + n\<rparr>) = drop n (mb_after mb)"
  by (simp add: mb_after_def drop_take add.commute)

lemma mb_before_advance:
  "mbuf_ok mb \<Longrightarrow> n \<le> length (mb_after mb) \<Longrightarrow>
   mb_before (mb\<lparr>mb_pos := mb_pos mb + n\<rparr>) = mb_before mb @ take n (mb_after mb)"
  by (auto simp: mb_before_def mb_after_def take_add mbuf_ok_def)

interpretation mbcur: byte_cursor "\<lambda>mb bs. mbuf_write_mem al mb (Some bs)" mbuf_read_mem
    mb_before mb_after mbuf_ok for al
proof (unfold_locales, goal_cases)
  case (1 s bs e t)
  then show ?case using mbuf_write_mem_cases [of s bs al e t] by simp
next
  case (2 s bs t)
  then show ?case using mbuf_write_mem_cases [of s bs al None t] by simp
next
  case (3 s bs e t)
  then show ?case using mbuf_write_mem_cases [of s bs al "Some e" t] by simp
next
  case (4 s n)
  then show ?case by (rule mbuf_read_mem_short)
next
  case (5 s n)
  then show ?case
    using mbuf_read_mem_ok mbuf_ok_advance mb_after_advance mb_before_advance by blast
qed

lemma mbuf_fill_write:
  "n \<noteq> 0 \<Longrightarrow> mbuf_fill al mb c n = mbuf_write_mem al mb (Some (replicate n c))"
  by (simp add: mbuf_fill_def mbuf_write_mem_def)

lemma mbuf_read_word_ok:
  assumes "mbuf_ok mb" and "n \<le> length (mb_after mb)"
  shows "mbuf_read_word n mb = (word_of_bytes (take n (mb_after mb)), mb\<lparr>mb_pos := mb_pos mb + n\<rparr>)"
  using mbuf_read_mem_ok [OF assms] by (simp add: mbuf_read_word_def)

lemma mbuf_read_word_short:
  "mbuf_ok mb \<Longrightarrow> length (mb_after mb) < n \<Longrightarrow> mbuf_read_word n mb = (0, mb)"
  by (simp add: mbuf_read_word_def mbuf_read_mem_short)

lemma mbuf_read_word_safe [safe_intros]:
  assumes "mbuf_ok mb" shows "mbuf_ok (snd (mbuf_read_word n mb))"
proof (cases "n \<le> length (mb_after mb)")
  case True
  then show ?thesis using assms by (simp add: mbuf_read_word_ok mbuf_ok_advance del: length_mb_after)
next
  case False
  then show ?thesis using assms by (simp add: mbuf_read_word_short del: length_mb_after)
qed

lemmas mbuf_read_defs =
  mbuf_read_ptr_def mbuf_read_u8_def mbuf_read_u16_def mbuf_read_u32_def mbuf_read_u64_def
lemmas mbuf_write_defs =
  mbuf_write_ptr_def mbuf_write_u8_def mbuf_write_u16_def mbuf_write_u32_def mbuf_write_u64_def

lemma mbuf_read_str_safe [safe_intros]: "mbuf_ok mb \<Longrightarrow> mbuf_ok (snd (mbuf_read_str mb n))"
proof (induction n arbitrary: mb)
  case (Suc n)
  obtain c mb' where u: "mbuf_read_u8 mb = (c, mb')" by (cases "mbuf_read_u8 mb")
  with Suc.prems have "mbuf_ok mb'"
    using mbuf_read_word_safe [of mb 1, where 'a = 8] by (simp add: mbuf_read_defs)
  with Suc.IH [of mb'] u show ?case by (auto split: prod.splits)
qed simp

section \<open>Shifting keeps the unread bytes\<close>

lemma mbuf_move_view:
  assumes ok: "mbuf_ok mb" and lo: "0 \<le> int (mb_pos mb) + d" and hi: "int (mb_end mb) + d \<le> int (mb_size mb)"
  shows "mbuf_ok (mbuf_move mb d) \<and> mb_after (mbuf_move mb d) = mb_after mb
    \<and> int (mb_pos (mbuf_move mb d)) = int (mb_pos mb) + d"
proof -
  define p e where "p = nat (int (mb_pos mb) + d)" and "e = nat (int (mb_end mb) + d)"
  have pe: "p \<le> e" "e \<le> mb_size mb" "e - p = mb_end mb - mb_pos mb"
    using ok lo hi by (auto simp: p_def e_def mbuf_ok_def)
  then have small: "(int (mb_pos mb) + d) mod int size_mod = int p"
    "(int (mb_end mb) + d) mod int size_mod = int e"
    using ok lo hi by (auto simp: mbuf_ok_def p_def e_def)
  have fits: "p + length (mb_after mb) \<le> length (mb_bytes mb)"
    using ok pe length_mb_after [OF ok] unfolding mbuf_ok_def by linarith
  have load: "mem_load mb (mb_pos mb) (mbuf_get_left mb) = (mb_after mb, mb)"
    using ok by (auto simp: mem_load_def mbuf_get_left_def mb_after_def mbuf_ok_def)
  let ?m = "mem_store mb p (mb_after mb)"
  have m: "mbuf_move mb d = ?m\<lparr>mb_pos := p, mb_end := e\<rparr>"
    by (simp add: mbuf_move_def load small p_def [symmetric])
  have bytes: "mb_bytes ?m = splice p (mb_after mb) (mb_bytes mb)" and frame: "mb_size ?m = mb_size mb"
    "mb_ub ?m = mb_ub mb"
    using fits by (auto simp: mem_store_def splice_def)
  have "take (e - p) (drop p (mb_bytes ?m)) = mb_after mb"
    using splice_read_back [of p "mb_bytes mb" "mb_after mb"] fits pe(3) ok by (simp add: bytes)
  moreover have "int p = int (mb_pos mb) + d" using lo by (simp add: p_def)
  ultimately show ?thesis
    using pe ok fits
    by (auto simp: m mbuf_ok_def frame mb_after_def [of "?m\<lparr>mb_pos := p, mb_end := e\<rparr>"] bytes)
qed

lemma mbuf_shift_cases:
  assumes ok: "mbuf_ok mb" and e31: "mb_end mb < 2 ^ 31" and big: "int (mb_end mb) + d < 2 ^ 31"
    and sh: "mbuf_shift al mb d = (err, mb')"
  shows "mbuf_ok mb' \<and> mb_after mb' = mb_after mb
    \<and> (if int (mb_pos mb) + d < 0 then err = Some ERANGE \<and> mb' = mb
       else err = None \<longrightarrow> int (mb_pos mb') = int (mb_pos mb) + d)"
proof (cases "int (mb_pos mb) + d < 0")
  case neg: True
  have "mb_pos mb \<le> mb_end mb" using ok by (simp add: mbuf_ok_def)
  with e31 neg sh big ok show ?thesis
    by (auto simp: mbuf_shift_def ssize_def split: if_splits)
next
  case False
  have pe: "mb_pos mb \<le> mb_end mb" using ok by (simp add: mbuf_ok_def)
  define rsize where "rsize = nat (int (mb_end mb) + d)"
  have rs: "rsize < size_mod" and small: "nat ((int (mb_end mb) + d) mod int size_mod) = rsize"
    using False pe big by (auto simp: rsize_def size_mod_def)
  obtain e1 mb1 where r: "(if rsize > mb_size mb then mbuf_resize al mb rsize else (None, mb)) = (e1, mb1)"
    by (cases "if rsize > mb_size mb then mbuf_resize al mb rsize else (None, mb)")
  have sh': "(err, mb') = (case (e1, mb1) of (Some x, m) \<Rightarrow> (Some x, m) | (None, m) \<Rightarrow> (None, mbuf_move m d))"
    using sh False pe e31 big unfolding mbuf_shift_def small Let_def r [symmetric]
    by (simp add: ssize_def)
  have end_rsize: "mb_end mb \<le> rsize" if "rsize > mb_size mb"
    using that ok by (simp add: mbuf_ok_def)
  have mb1: "mbuf_ok mb1 \<and> mb_after mb1 = mb_after mb \<and> mb_pos mb1 = mb_pos mb \<and> mb_end mb1 = mb_end mb
      \<and> (e1 = None \<longrightarrow> rsize \<le> mb_size mb1)"
    using mbuf_resize_cases [OF ok end_rsize rs, of al e1 mb1] r ok by (auto split: if_splits)
  show ?thesis
  proof (cases e1)
    case (Some x)
    with sh' mb1 False show ?thesis by simp
  next
    case None
    with mb1 pe False have "int (mb_end mb1) + d \<le> int (mb_size mb1)"
      by (simp add: rsize_def nat_le_iff)
    with mbuf_move_view [of mb1 d] mb1 sh' None False show ?thesis by simp
  qed
qed

section \<open>Memory safety of every sequence of operations\<close>

lemma mbuf_zero_ok: "mbuf_ok (mbuf_zero\<lparr>mb_tick := t\<rparr>)"
  by (simp add: mbuf_ok_def mbuf_zero_def mb_bytes_def size_mod_def)

lemma mbuf_alloc_ok:
  assumes "mbuf_alloc al n = Some mb" and "n < size_mod"
  shows "mbuf_ok mb \<and> mb_before mb = [] \<and> mb_after mb = []
    \<and> mb_size mb = (if n \<noteq> 0 then n else DEFAULT_SIZE)"
proof -
  let ?n = "if n \<noteq> 0 then n else DEFAULT_SIZE"
  have "mbuf_resize al (mbuf_zero\<lparr>mb_tick := 1\<rparr>) ?n = (None, mb)"
    using assms(1) by (auto simp: mbuf_alloc_def split: option.splits prod.splits)
  from mbuf_resize_cases [OF mbuf_zero_ok _ _ this] assms(2) show ?thesis
    by (simp add: mbuf_zero_def DEFAULT_SIZE_def size_mod_def mb_before_def mb_after_def mb_bytes_def)
qed

datatype mbuf_op =
    Op_write "byte list option" | Op_fill byte nat | Op_read nat | Op_read_str nat | Op_strdup nat
  | Op_shift int | Op_trim | Op_resize nat | Op_set_posend nat nat | Op_rewind | Op_skip_to_end
  | Op_reset | Op_set_pos nat | Op_set_end nat | Op_advance int | Op_dup
  | Op_write_pl_skip "byte list" "(nat \<times> nat) option" "(nat \<times> nat) option"

text \<open>
  What the caller has to see to: sums that stay in the range of \<open>size_t\<close> and of \<open>ssize_t\<close>, no
  resize below the end of the data, a cursor set or moved to a place within the data and an end
  set between cursor and size, which the setters do not check, and a string with a skipped
  section that lies inside its text.
\<close>

fun mbuf_fits :: "mbuf \<Rightarrow> mbuf_op \<Rightarrow> bool" where
  "mbuf_fits mb (Op_write (Some bs)) = (mb_pos mb + length bs < size_mod)"
| "mbuf_fits mb (Op_fill c n) = (mb_pos mb + n < size_mod)"
| "mbuf_fits mb (Op_shift d) = (mb_end mb < 2 ^ 31 \<and> int (mb_end mb) + d < 2 ^ 31)"
| "mbuf_fits mb (Op_resize n) = (mb_end mb \<le> n \<and> n < size_mod)"
| "mbuf_fits mb (Op_set_pos p) = (p \<le> mb_end mb)"
| "mbuf_fits mb (Op_set_end e) = (mb_pos mb \<le> e \<and> e \<le> mb_size mb)"
| "mbuf_fits mb (Op_advance n) = (0 \<le> int (mb_pos mb) + n \<and> int (mb_pos mb) + n \<le> int (mb_end mb))"
| "mbuf_fits mb (Op_write_pl_skip m (Some (p, l)) skip) = (p + l \<le> length m \<and> mb_pos mb + l < size_mod)"
| "mbuf_fits mb _ = True"

fun mbuf_apply :: "alloc \<Rightarrow> mbuf \<Rightarrow> mbuf_op \<Rightarrow> mbuf" where
  "mbuf_apply al mb (Op_write src) = snd (mbuf_write_mem al mb src)"
| "mbuf_apply al mb (Op_fill c n) = snd (mbuf_fill al mb c n)"
| "mbuf_apply al mb (Op_read n) = snd (snd (mbuf_read_mem mb n))"
| "mbuf_apply al mb (Op_read_str n) = snd (mbuf_read_str mb n)"
| "mbuf_apply al mb (Op_strdup n) = snd (snd (mbuf_strdup al mb n))"
| "mbuf_apply al mb (Op_shift d) = snd (mbuf_shift al mb d)"
| "mbuf_apply al mb Op_trim = mbuf_trim al mb"
| "mbuf_apply al mb (Op_resize n) = snd (mbuf_resize al mb n)"
| "mbuf_apply al mb (Op_set_posend p e) = mbuf_set_posend mb p e"
| "mbuf_apply al mb Op_rewind = mbuf_rewind mb"
| "mbuf_apply al mb Op_skip_to_end = mbuf_skip_to_end mb"
| "mbuf_apply al mb Op_reset = mbuf_reset mb"
| "mbuf_apply al mb (Op_set_pos p) = mbuf_set_pos mb p"
| "mbuf_apply al mb (Op_set_end e) = mbuf_set_end mb e"
| "mbuf_apply al mb (Op_advance n) = mbuf_advance mb n"
| "mbuf_apply al mb Op_dup = (case mbuf_dup al mb of None \<Rightarrow> mb | Some mb' \<Rightarrow> mb')"
| "mbuf_apply al mb (Op_write_pl_skip m pl skip) = snd (mbuf_write_pl_skip al mb m pl skip)"

text \<open>Every operation runs with an allocator of its own, so that any of them may find memory short.
  After \<open>mbuf_dup\<close> the program goes on with the copy, or with the buffer it has when there is none.\<close>

inductive mbuf_step :: "mbuf \<Rightarrow> mbuf_op \<Rightarrow> mbuf \<Rightarrow> bool" where
  mbuf_step_op: "mbuf_fits mb op \<Longrightarrow> mbuf_step mb op (mbuf_apply al mb op)"

inductive_cases mbuf_stepE: "mbuf_step mb op mb'"

definition mbuf_fresh :: "mbuf \<Rightarrow> bool" where
  "mbuf_fresh mb \<longleftrightarrow> (\<exists>al. \<exists>n < size_mod. mbuf_alloc al n = Some mb)"

lemma mbuf_write_safe:
  "mbuf_ok mb \<Longrightarrow> mb_pos mb + length bs < size_mod \<Longrightarrow> mbuf_ok (snd (mbuf_write_mem al mb (Some bs)))"
  using mbuf_write_mem_cases [of mb bs al] by (metis prod.collapse)

lemma mbuf_read_mem_safe: "mbuf_ok mb \<Longrightarrow> mbuf_ok (snd (snd (mbuf_read_mem mb n)))"
  by (cases "n \<le> length (mb_after mb)")
     (simp_all add: mbuf_read_mem_ok mbuf_read_mem_short mbuf_ok_advance del: length_mb_after)

lemma mbuf_tick_ok: "mbuf_ok (mb\<lparr>mb_tick := t\<rparr>) = mbuf_ok mb"
  by (simp add: mbuf_ok_def)

lemma mbuf_strdup_safe: "mbuf_ok mb \<Longrightarrow> mbuf_ok (snd (snd (mbuf_strdup al mb n)))"
  using mbuf_read_mem_safe [of "mb\<lparr>mb_tick := Suc (mb_tick mb)\<rparr>" n]
  by (auto simp: mbuf_strdup_def mbuf_tick_ok split: option.splits prod.splits)

lemma mbuf_resize_safe:
  "mbuf_ok mb \<Longrightarrow> mb_end mb \<le> n \<Longrightarrow> n < size_mod \<Longrightarrow> mbuf_ok (snd (mbuf_resize al mb n))"
  using mbuf_resize_cases [of mb n al] by (metis prod.collapse)

lemma mbuf_trim_safe: "mbuf_ok mb \<Longrightarrow> mbuf_ok (mbuf_trim al mb)"
proof -
  assume ok: "mbuf_ok mb"
  then have "mb_end mb < size_mod" by (simp add: mbuf_ok_def)
  with ok show ?thesis by (simp add: mbuf_trim_def mbuf_resize_safe)
qed

lemma mbuf_dup_ok:
  assumes ok: "mbuf_ok mb" and d: "mbuf_dup al mb = Some mb'"
  shows "mbuf_ok mb'"
proof -
  from d obtain m where m: "mbuf_alloc al (mb_size mb) = Some m" by (auto simp: mbuf_dup_def split: option.splits)
  have s: "mb_size mb < size_mod" "mb_size mb \<le> length (mb_bytes mb)" using ok by (auto simp: mbuf_ok_def)
  from mbuf_alloc_ok [OF m s(1)] have m_ok: "mbuf_ok m" "mb_size mb \<le> mb_size m" by auto
  have "mem_load mb 0 (mb_size mb) = (take (mb_size mb) (mb_bytes mb), mb)"
    using s by (simp add: mem_load_def)
  with d m have "mb' = (mem_store (m\<lparr>mb_size := mb_size mb, mb_pos := mb_pos mb, mb_end := mb_end mb\<rparr>) 0
      (take (mb_size mb) (mb_bytes mb)))\<lparr>mb_ub := False\<rparr> \<and> mb_size mb \<le> length (mb_bytes m)"
    using ok m_ok s by (auto simp: mbuf_dup_def Let_def mbuf_ok_def mem_store_def)
  then show ?thesis
    using ok m_ok s by (auto simp: mbuf_ok_def mem_store_def splice_def mb_bytes_def)
qed

lemma mbuf_write_pl_skip_safe:
  assumes ok: "mbuf_ok mb" and fits: "mbuf_fits mb (Op_write_pl_skip m pl skip)"
  shows "mbuf_ok (snd (mbuf_write_pl_skip al mb m pl skip))"
proof (cases pl)
  case (Some pq)
  obtain p l where pl: "pq = (p, l)" by (cases pq)
  show ?thesis
  proof (cases skip)
    case sk: (Some sq)
    obtain sp sl where sq: "sq = (sp, sl)" by (cases sq)
    show ?thesis
    proof (cases "p > sp \<or> sp + sl > p + l")
      case False
      let ?a = "take (sp - p) (drop p m)" and ?b = "take (p + l - (sp + sl)) (drop (sp + sl) m)"
      obtain e1 mb1 where w: "mbuf_write_mem al mb (Some ?a) = (e1, mb1)" by (cases "mbuf_write_mem al mb (Some ?a)")
      have room: "mb_pos mb + length ?a + length ?b < size_mod"
        using fits False by (auto simp: Some pl)
      from mbuf_write_mem_cases [OF ok _ w] room have one: "mbuf_ok mb1" by auto
      have "mb_pos mb1 \<le> mb_pos mb + length ?a"
        using mbuf_write_mem_cases [OF ok _ w] room length_mb_before [OF ok] length_mb_before [OF one]
        by (cases e1) auto
      with room mbuf_write_safe [OF one, of ?b al] one False show ?thesis
        by (auto simp: mbuf_write_pl_skip_def Some pl sk sq w split: option.splits)
    qed (use ok in \<open>simp add: mbuf_write_pl_skip_def Some pl sk sq\<close>)
  qed (use ok in \<open>simp add: mbuf_write_pl_skip_def Some pl\<close>)
qed (use ok in \<open>simp add: mbuf_write_pl_skip_def\<close>)

lemma mbuf_fill_safe: "mbuf_ok mb \<Longrightarrow> mb_pos mb + n < size_mod \<Longrightarrow> mbuf_ok (snd (mbuf_fill al mb c n))"
  using mbuf_write_safe [of mb "replicate n c" al]
  by (cases "n = 0") (simp_all add: mbuf_fill_write, simp add: mbuf_fill_def)

lemma mbuf_shift_safe:
  "mbuf_ok mb \<Longrightarrow> mb_end mb < 2 ^ 31 \<Longrightarrow> int (mb_end mb) + d < 2 ^ 31 \<Longrightarrow> mbuf_ok (snd (mbuf_shift al mb d))"
  using mbuf_shift_cases [of mb d al] by (metis prod.collapse)

lemma mbuf_cursor_safe:
  "mbuf_ok mb \<Longrightarrow> p \<le> mb_end mb \<Longrightarrow> mbuf_ok (mbuf_set_pos mb p)"
  "mbuf_ok mb \<Longrightarrow> mb_pos mb \<le> e \<Longrightarrow> e \<le> mb_size mb \<Longrightarrow> mbuf_ok (mbuf_set_end mb e)"
  "mbuf_ok mb \<Longrightarrow> mbuf_ok (mbuf_set_posend mb p e)"
  "mbuf_ok mb \<Longrightarrow> mbuf_ok (mbuf_rewind mb)" "mbuf_ok mb \<Longrightarrow> mbuf_ok (mbuf_skip_to_end mb)"
  "mbuf_ok mb \<Longrightarrow> mbuf_ok (mbuf_reset mb)"
  by (auto simp: mbuf_ok_def mbuf_set_pos_def mbuf_set_end_def mbuf_set_posend_def mbuf_rewind_def
      mbuf_skip_to_end_def mbuf_reset_def mbuf_init_def mb_bytes_def size_mod_def)

lemma mbuf_advance_safe:
  assumes "mbuf_ok mb" and "0 \<le> int (mb_pos mb) + n" and "int (mb_pos mb) + n \<le> int (mb_end mb)"
  shows "mbuf_ok (mbuf_advance mb n)"
proof -
  have "(int (mb_pos mb) + n) mod int size_mod = int (mb_pos mb) + n"
    using assms by (intro mod_pos_pos_trivial) (auto simp: mbuf_ok_def)
  with assms show ?thesis by (auto simp: mbuf_advance_def mbuf_ok_def mb_bytes_def)
qed

lemma mbuf_apply_ok:
  assumes ok: "mbuf_ok mb" and fits: "mbuf_fits mb op"
  shows "mbuf_ok (mbuf_apply al mb op)"
proof (cases op)
  case (Op_write src)
  with assms show ?thesis by (cases src) (simp_all add: mbuf_write_safe, simp add: mbuf_write_mem_def)
next
  case Op_dup
  with ok show ?thesis by (auto split: option.splits intro: mbuf_dup_ok)
next
  case Op_write_pl_skip
  with assms show ?thesis by (simp add: mbuf_write_pl_skip_safe)
qed (use assms in \<open>simp_all add: mbuf_fill_safe mbuf_read_mem_safe mbuf_read_str_safe mbuf_strdup_safe mbuf_shift_safe
      mbuf_trim_safe mbuf_resize_safe mbuf_cursor_safe mbuf_advance_safe\<close>)

interpretation mbm: machine mbuf_fresh mbuf_step mbuf_ok
proof (unfold_locales, goal_cases)
  case (1 s)
  then show ?case using mbuf_alloc_ok by (auto simp: mbuf_fresh_def)
next
  case (2 s e t)
  then show ?case by (auto elim!: mbuf_stepE intro: mbuf_apply_ok)
qed

section \<open>Properties\<close>

text \<open>C30: Memory safety. Starting from a freshly allocated buffer, every sequence of writes, fills,
  reads, shifts, resizes, trims, duplications and cursor operations whose arguments the caller
  keeps in range stays inside the allocated block, whichever allocations fail; the cursor never
  passes the end of the data, nor the data the block. The range is: sizes whose sum with the
  cursor fits in \<open>size_t\<close>, shifts that fit in \<open>ssize_t\<close>, no resize below the end of the data,
  \<open>mbuf_set_pos\<close> and \<open>mbuf_advance\<close> to places within the data, \<open>mbuf_set_end\<close> between cursor and
  size, and a string with a skipped section inside its text.\<close>

theorem mbuf_memory_safe:
  assumes "reachable mbuf_fresh mbuf_step mb"
  shows "\<not> mb_ub mb \<and> mb_pos mb \<le> mb_end mb \<and> mb_end mb \<le> mb_size mb
    \<and> mb_size mb \<le> length (mb_bytes mb)"
  using mbm.reachable_inv [OF assms] by (simp add: mbuf_ok_def)

definition al_zero :: alloc where
  "al_zero t n = Some (\<lambda>_. 0)"

definition mb_example :: mbuf where
  "mb_example = \<lparr>mb_buf = Some [0, 0, 0, 0], mb_size = 4, mb_pos = 0, mb_end = 0, mb_tick = 2, mb_ub = False\<rparr>"

lemma mb_example_alloc: "mbuf_alloc al_zero 4 = Some mb_example"
  by (simp add: mbuf_alloc_def al_zero_def mbuf_resize_def realloc_bytes_def mbuf_zero_def mb_example_def
      mb_bytes_def upt_rec)

lemma mb_example_view: "mb_before mb_example = []" "mb_after mb_example = []" "mb_pos mb_example = 0"
  by (simp_all add: mb_example_def mb_before_def mb_after_def)

lemma mb_example_ok: "mbuf_ok mb_example"
  using mbuf_alloc_ok [OF mb_example_alloc] by (simp add: size_mod_def)

theorem mbuf_memory_safe_witness:
  "\<not> mb_ub (mbuf_apply al_zero mb_example (Op_write (Some [1, 2, 3, 4, 5])))
   \<and> \<not> mb_ub (mbuf_apply al_zero (mbuf_apply al_zero mb_example (Op_set_end 3)) (Op_advance 2))"
proof -
  have fresh: "mbuf_fresh mb_example"
    unfolding mbuf_fresh_def using mb_example_alloc by (intro exI [of _ al_zero] exI [of _ 4]) (simp add: size_mod_def)
  moreover have "mbuf_fits mb_example (Op_write (Some [1, 2, 3, 4, 5]))"
    by (simp add: mb_example_def size_mod_def)
  ultimately have "reachable mbuf_fresh mbuf_step (mbuf_apply al_zero mb_example (Op_write (Some [1, 2, 3, 4, 5])))"
    by (blast intro: reachable.intros mbuf_step.intros)
  moreover have "mbuf_fits mb_example (Op_set_end 3)" "mbuf_fits (mbuf_apply al_zero mb_example (Op_set_end 3)) (Op_advance 2)"
    by (simp_all add: mb_example_def mbuf_set_end_def)
  then have "reachable mbuf_fresh mbuf_step (mbuf_apply al_zero (mbuf_apply al_zero mb_example (Op_set_end 3)) (Op_advance 2))"
    using fresh by (blast intro: reachable.intros mbuf_step.intros)
  ultimately show ?thesis using mbuf_memory_safe by blast
qed

text \<open>A write moves the cursor behind the bytes it stored: they are appended to the bytes before
  the cursor and replace as many of the bytes behind it. A write that fails for lack of memory
  changes neither.\<close>

theorem mbuf_write_mem_refines:
  assumes "mbuf_ok mb" and "mb_pos mb + length bs < size_mod"
  shows "case mbuf_write_mem al mb (Some bs) of
      (None, mb') \<Rightarrow> mb_before mb' = mb_before mb @ bs \<and> mb_after mb' = drop (length bs) (mb_after mb)
    | (Some _, mb') \<Rightarrow> mb_before mb' = mb_before mb \<and> mb_after mb' = mb_after mb"
  using mbuf_write_mem_cases [OF assms, of al] by (auto split: prod.splits option.splits)

theorem mbuf_write_mem_refines_witness:
  "case mbuf_write_mem al_zero mb_example (Some [7, 8]) of
      (None, mb') \<Rightarrow> mb_before mb' = [7, 8] \<and> mb_after mb' = []
    | (Some _, mb') \<Rightarrow> mb_before mb' = [] \<and> mb_after mb' = []"
  using mbuf_write_mem_refines [OF mb_example_ok, of "[7, 8]" al_zero]
  by (simp add: mb_example_view size_mod_def split: prod.splits option.splits)

lemma mbuf_write_read_word:
  fixes w :: "'a::len word"
  assumes ok: "mbuf_ok mb" and fits: "mb_pos mb + n < size_mod" and n: "LENGTH('a) \<le> 8 * n"
    and wr: "mbuf_write_mem al mb (Some (word_bytes n w)) = (None, mb')"
  shows "mbuf_read_word n (mbuf_set_pos mb' (mb_pos mb)) = (w, mb')"
proof -
  from mbuf_write_mem_cases [OF ok _ wr] fits
  have ok': "mbuf_ok mb'" and bef: "mb_before mb' = mb_before mb @ word_bytes n w" by auto
  then have pos': "mb_pos mb' = mb_pos mb + n"
    using ok by (metis length_append length_mb_before length_word_bytes)
  let ?r = "mbuf_set_pos mb' (mb_pos mb)"
  have okr: "mbuf_ok ?r" using ok' pos' by (auto simp: mbuf_ok_def mbuf_set_pos_def)
  have "mb_end mb' \<ge> mb_pos mb + n" using ok' pos' by (simp add: mbuf_ok_def)
  then have len: "n \<le> length (mb_after ?r)" using okr by (simp add: mbuf_set_pos_def)
  have "take n (mb_after ?r) = take n (drop (mb_pos mb) (mb_bytes mb'))"
    using \<open>mb_end mb' \<ge> mb_pos mb + n\<close> by (simp add: mb_after_def mbuf_set_pos_def min_def)
  also have "\<dots> = drop (mb_pos mb) (take (mb_pos mb + n) (mb_bytes mb'))"
    by (simp add: take_drop add.commute)
  also have "take (mb_pos mb + n) (mb_bytes mb') = mb_before mb @ word_bytes n w"
    using bef pos' by (simp add: mb_before_def)
  also have "drop (mb_pos mb) \<dots> = word_bytes n w"
    using length_mb_before [OF ok] by simp
  finally have bytes: "take n (mb_after ?r) = word_bytes n w" .
  have "mb'\<lparr>mb_pos := mb_pos mb + n\<rparr> = mb'" using pos' by (cases mb') simp
  with bytes show ?thesis
    using mbuf_read_word_ok [OF okr len, where 'a = 'a] word_of_bytes_word_bytes [OF n, of w]
    by (simp add: mbuf_set_pos_def)
qed

text \<open>Integers survive the buffer: a value written with \<open>mbuf_write_u8\<close>, \<open>u16\<close>, \<open>u32\<close> or \<open>u64\<close> is
  what the matching read returns once the cursor is set back, and the read leaves the cursor
  where the write did.\<close>

theorem mbuf_integer_roundtrip:
  assumes "mbuf_ok mb" and "mb_pos mb + 8 < size_mod"
  shows "(mbuf_write_u8 al mb v8 = (None, mb1) \<longrightarrow> mbuf_read_u8 (mbuf_set_pos mb1 (mb_pos mb)) = (v8, mb1))
    \<and> (mbuf_write_u16 al mb v16 = (None, mb1) \<longrightarrow> mbuf_read_u16 (mbuf_set_pos mb1 (mb_pos mb)) = (v16, mb1))
    \<and> (mbuf_write_u32 al mb v32 = (None, mb1) \<longrightarrow> mbuf_read_u32 (mbuf_set_pos mb1 (mb_pos mb)) = (v32, mb1))
    \<and> (mbuf_write_u64 al mb v64 = (None, mb1) \<longrightarrow> mbuf_read_u64 (mbuf_set_pos mb1 (mb_pos mb)) = (v64, mb1))"
  using assms by (auto simp: mbuf_write_defs mbuf_read_defs intro!: mbuf_write_read_word)

lemma mb_example_write_u32:
  "mbuf_write_u32 al_zero mb_example v = (None, mb_example\<lparr>mb_buf := Some (word_bytes 4 v), mb_pos := 4, mb_end := 4\<rparr>)"
proof -
  have "mbuf_grow al_zero mb_example 4 = (None, mb_example)"
    by (simp add: mbuf_grow_def mb_example_def)
  then show ?thesis
    by (simp add: mbuf_write_u32_def mbuf_write_mem_def mb_example_def size_mod_def mbuf_put_def mem_store_def
        mb_bytes_def splice_def Let_def flip: length_0_conv)
qed

theorem mbuf_integer_roundtrip_witness:
  "fst (mbuf_read_u32 (mbuf_set_pos (snd (mbuf_write_u32 al_zero mb_example 0xCAFE0001)) 0)) = 0xCAFE0001"
  using mbuf_integer_roundtrip [OF mb_example_ok, of al_zero _ "snd (mbuf_write_u32 al_zero mb_example 0xCAFE0001)"
      _ "0xCAFE0001"] mb_example_write_u32 [of "0xCAFE0001"]
  by (simp add: mb_example_view size_mod_def)

text \<open>\<open>mbuf_shift\<close> moves the data without changing it: the bytes behind the cursor are the same after
  the call, for a shift in either direction and whether or not the block had to grow; a shift
  before the start of the block is refused with \<open>ERANGE\<close> and changes nothing.\<close>

theorem mbuf_shift_keeps_data:
  assumes "mbuf_ok mb" and "mb_end mb < 2 ^ 31" and "int (mb_end mb) + d < 2 ^ 31"
  shows "case mbuf_shift al mb d of (err, mb') \<Rightarrow>
      mbuf_ok mb' \<and> mb_after mb' = mb_after mb
      \<and> (if int (mb_pos mb) + d < 0 then err = Some ERANGE \<and> mb' = mb
         else err = None \<longrightarrow> int (mb_pos mb') = int (mb_pos mb) + d)"
  using mbuf_shift_cases [OF assms] by (simp split: prod.splits)

theorem mbuf_shift_keeps_data_witness:
  "case mbuf_shift al_zero (mb_example\<lparr>mb_end := 2\<rparr>) 3 of (err, mb') \<Rightarrow> mb_after mb' = [0, 0]"
proof -
  have "mbuf_ok (mb_example\<lparr>mb_end := 2\<rparr>)" by (simp add: mbuf_ok_def mb_example_def mb_bytes_def size_mod_def)
  moreover have "mb_after (mb_example\<lparr>mb_end := 2\<rparr>) = [0, 0]"
    by (simp add: mb_example_def mb_after_def mb_bytes_def)
  ultimately show ?thesis
    using mbuf_shift_keeps_data [of "mb_example\<lparr>mb_end := 2\<rparr>" 3 al_zero]
    by (auto simp: split: prod.splits)
qed

text \<open>\<open>mbuf_fill\<close> computes the new size with wrap-around and checks only the wrapped value: the
  call is free of out-of-bounds writes exactly when cursor plus count stays below \<open>2 ^ 32\<close>.\<close>

theorem mbuf_fill_overflow:
  assumes "mbuf_ok mb" and "0 < n" and "n < size_mod" and "mbuf_fill al mb c n = (None, mb')"
  shows "mb_ub mb' \<longleftrightarrow> size_mod \<le> mb_pos mb + n"
proof (cases "mb_pos mb + n < size_mod")
  case True
  with mbuf_write_mem_cases [OF assms(1), of "replicate n c" al None mb'] assms show ?thesis
    by (simp add: mbuf_fill_write mbuf_ok_def)
next
  case False
  let ?r = "size_add (mb_pos mb) n"
  have "mb_pos mb + n < 2 * size_mod" using assms(1,3) by (simp add: mbuf_ok_def)
  with False have r: "?r = mb_pos mb + n - size_mod"
    by (simp add: size_add_def le_mod_geq)
  then have "?r \<le> mb_size mb" using assms(1,3) by (auto simp: mbuf_ok_def)
  with assms have "mb' = mbuf_put mb (replicate n c)"
    by (auto simp: mbuf_fill_def mbuf_grow_def)
  with False assms show ?thesis
    by (auto simp: mbuf_put_def Let_def mem_store_def mbuf_ok_def)
qed

theorem mbuf_fill_overflow_witness:
  "mb_ub (snd (mbuf_fill al_zero (mb_example\<lparr>mb_pos := 1, mb_end := 1\<rparr>) 0 (2 ^ 32 - 1)))"
proof -
  let ?m = "mb_example\<lparr>mb_pos := 1, mb_end := 1\<rparr>"
  have "mbuf_ok ?m" by (simp add: mbuf_ok_def mb_example_def mb_bytes_def size_mod_def)
  moreover have "mbuf_fill al_zero ?m 0 (2 ^ 32 - 1) = (None, snd (mbuf_fill al_zero ?m 0 (2 ^ 32 - 1)))"
    by (simp add: mbuf_fill_def mbuf_grow_def size_add_def size_mod_def mb_example_def)
  ultimately show ?thesis
    using mbuf_fill_overflow [of ?m "2 ^ 32 - 1" al_zero 0] by (simp add: size_mod_def mb_example_def)
qed

end
