(* ===== verification/Linked_List.thy ===== *)
theory Linked_List
  imports Prelude "HOL-Library.Multiset"
begin

text \<open>
  The intrusive doubly linked list of \<open>re/src/list/list.c\<close>, on an explicit store: the
  fields of every element (\<open>struct le\<close>) and of every list head (\<open>struct list\<close>) are maps
  from addresses, so that aliasing and dangling links can be talked about. A possibly NULL
  pointer is an option. \<open>is_list h l xs\<close> says that in the store \<open>h\<close> the head \<open>l\<close> holds
  exactly the elements \<open>xs\<close>, in that order, linked consistently in both directions.

  Loops follow pointers and need not end on a damaged store; they are partial functions
  into \<open>option\<close>, and every result below includes that the loop returns.

  The locale \<open>linked_list\<close> is the contract other components use: an element is in at most
  one list, and each operation acts on the sequence of its list and on no other.
\<close>

type_synonym addr = nat

record store =
  le_prev :: "addr \<Rightarrow> addr option"
  le_next :: "addr \<Rightarrow> addr option"
  le_list :: "addr \<Rightarrow> addr option"
  le_data :: "addr \<Rightarrow> addr option"
  l_head :: "addr \<Rightarrow> addr option"
  l_tail :: "addr \<Rightarrow> addr option"
  l_cnt :: "addr \<Rightarrow> nat"

section \<open>Operations\<close>

fun list_init :: "store \<Rightarrow> addr option \<Rightarrow> store" where
  "list_init h None = h"
| "list_init h (Some l) =
     h\<lparr>l_head := (l_head h)(l := None), l_tail := (l_tail h)(l := None), l_cnt := (l_cnt h)(l := 0)\<rparr>"

text \<open>\<open>++list->cnt\<close> on a \<open>size_t\<close>.\<close>

definition cnt_inc :: "store \<Rightarrow> addr \<Rightarrow> store" where
  "cnt_inc h l = h\<lparr>l_cnt := (l_cnt h)(l := size_add (l_cnt h l) 1)\<rparr>"

fun list_append :: "store \<Rightarrow> addr option \<Rightarrow> addr option \<Rightarrow> addr option \<Rightarrow> store" where
  "list_append h (Some l) (Some le) data =
     (if le_list h le \<noteq> None then h
      else
       (let h = h\<lparr>le_prev := (le_prev h)(le := l_tail h l), le_next := (le_next h)(le := None),
                  le_list := (le_list h)(le := Some l), le_data := (le_data h)(le := data)\<rparr>;
            h = (if l_head h l = None then h\<lparr>l_head := (l_head h)(l := Some le)\<rparr> else h);
            h = (case l_tail h l of
                   None \<Rightarrow> h
                 | Some t \<Rightarrow> h\<lparr>le_next := (le_next h)(t := Some le)\<rparr>);
            h = h\<lparr>l_tail := (l_tail h)(l := Some le)\<rparr>
        in cnt_inc h l))"
| "list_append h _ _ data = h"

fun list_prepend :: "store \<Rightarrow> addr option \<Rightarrow> addr option \<Rightarrow> addr option \<Rightarrow> store" where
  "list_prepend h (Some l) (Some le) data =
     (if le_list h le \<noteq> None then h
      else
       (let h = h\<lparr>le_prev := (le_prev h)(le := None), le_next := (le_next h)(le := l_head h l),
                  le_list := (le_list h)(le := Some l), le_data := (le_data h)(le := data)\<rparr>;
            h = (case l_head h l of
                   None \<Rightarrow> h
                 | Some t \<Rightarrow> h\<lparr>le_prev := (le_prev h)(t := Some le)\<rparr>);
            h = (if l_tail h l = None then h\<lparr>l_tail := (l_tail h)(l := Some le)\<rparr> else h);
            h = h\<lparr>l_head := (l_head h)(l := Some le)\<rparr>
        in cnt_inc h l))"
| "list_prepend h _ _ data = h"

fun list_insert_before ::
  "store \<Rightarrow> addr option \<Rightarrow> addr option \<Rightarrow> addr option \<Rightarrow> addr option \<Rightarrow> store" where
  "list_insert_before h (Some l) (Some le) (Some ile) data =
     (if le_list h ile \<noteq> None then h
      else
       (let h = (case le_prev h le of
                   Some p \<Rightarrow> h\<lparr>le_next := (le_next h)(p := Some ile)\<rparr>
                 | None \<Rightarrow> if l_head h l = Some le then h\<lparr>l_head := (l_head h)(l := Some ile)\<rparr> else h);
            h = h\<lparr>le_prev := (le_prev h)(ile := le_prev h le), le_next := (le_next h)(ile := Some le),
                  le_list := (le_list h)(ile := Some l), le_data := (le_data h)(ile := data)\<rparr>;
            h = h\<lparr>le_prev := (le_prev h)(le := Some ile)\<rparr>
        in cnt_inc h l))"
| "list_insert_before h _ _ _ data = h"

fun list_insert_after ::
  "store \<Rightarrow> addr option \<Rightarrow> addr option \<Rightarrow> addr option \<Rightarrow> addr option \<Rightarrow> store" where
  "list_insert_after h (Some l) (Some le) (Some ile) data =
     (if le_list h ile \<noteq> None then h
      else
       (let h = (case le_next h le of
                   Some n \<Rightarrow> h\<lparr>le_prev := (le_prev h)(n := Some ile)\<rparr>
                 | None \<Rightarrow> if l_tail h l = Some le then h\<lparr>l_tail := (l_tail h)(l := Some ile)\<rparr> else h);
            h = h\<lparr>le_prev := (le_prev h)(ile := Some le), le_next := (le_next h)(ile := le_next h le),
                  le_list := (le_list h)(ile := Some l), le_data := (le_data h)(ile := data)\<rparr>;
            h = h\<lparr>le_next := (le_next h)(le := Some ile)\<rparr>
        in cnt_inc h l))"
| "list_insert_after h _ _ _ data = h"

fun list_unlink :: "store \<Rightarrow> addr option \<Rightarrow> store" where
  "list_unlink h None = h"
| "list_unlink h (Some le) =
     (case le_list h le of
        None \<Rightarrow> h
      | Some l \<Rightarrow>
          (let h = (case le_prev h le of
                      Some p \<Rightarrow> h\<lparr>le_next := (le_next h)(p := le_next h le)\<rparr>
                    | None \<Rightarrow> h\<lparr>l_head := (l_head h)(l := le_next h le)\<rparr>);
               h = (case le_next h le of
                      Some n \<Rightarrow> h\<lparr>le_prev := (le_prev h)(n := le_prev h le)\<rparr>
                    | None \<Rightarrow> h\<lparr>l_tail := (l_tail h)(l := le_prev h le)\<rparr>);
               h = h\<lparr>le_next := (le_next h)(le := None), le_prev := (le_prev h)(le := None),
                     le_list := (le_list h)(le := None)\<rparr>
           in if l_cnt h l \<noteq> 0 then h\<lparr>l_cnt := (l_cnt h)(l := l_cnt h l - 1)\<rparr> else h))"

text \<open>\<open>list_move\<close> of \<open>re_list.h\<close>.\<close>

definition list_move :: "store \<Rightarrow> addr \<Rightarrow> addr option \<Rightarrow> store" where
  "list_move h le l = (let h = list_unlink h (Some le) in list_append h l (Some le) (le_data h le))"

fun list_head :: "store \<Rightarrow> addr option \<Rightarrow> addr option" where
  "list_head h None = None"
| "list_head h (Some l) = l_head h l"

fun list_tail :: "store \<Rightarrow> addr option \<Rightarrow> addr option" where
  "list_tail h None = None"
| "list_tail h (Some l) = l_tail h l"

fun list_count :: "store \<Rightarrow> addr option \<Rightarrow> nat" where
  "list_count h None = 0"
| "list_count h (Some l) = l_cnt h l"

section \<open>Loops\<close>

text \<open>
  The search of \<open>list_insert_sorted\<close>: from the tail towards the head, the first element that
  the sort handler puts before \<open>ile\<close>; \<open>Some None\<close> when there is none.
\<close>

partial_function (option) sorted_place ::
  "store \<Rightarrow> (addr \<Rightarrow> addr \<Rightarrow> bool) \<Rightarrow> addr \<Rightarrow> addr option \<Rightarrow> addr option option" where
  "sorted_place h sh ile le =
     (if le = None then Some None
      else if sh (the le) ile then Some le
      else sorted_place h sh ile (le_prev h (the le)))"

definition list_insert_sorted ::
  "store \<Rightarrow> addr option \<Rightarrow> (addr \<Rightarrow> addr \<Rightarrow> bool) option \<Rightarrow> addr \<Rightarrow> addr option \<Rightarrow> store option" where
  "list_insert_sorted h list sh ile data =
     (case (list, sh) of
        (Some l, Some f) \<Rightarrow>
          (let le = l_tail h l; h = h\<lparr>le_data := (le_data h)(ile := data)\<rparr>
           in case sorted_place h f ile le of
                None \<Rightarrow> None
              | Some (Some x) \<Rightarrow> Some (list_insert_after h (Some l) (Some x) (Some ile) (le_data h ile))
              | Some None \<Rightarrow> Some (list_prepend h (Some l) (Some ile) (le_data h ile)))
      | _ \<Rightarrow> Some h)"

text \<open>One pass of \<open>list_sort\<close> from \<open>le\<close> on, and the \<open>retry\<close> loop around it.\<close>

partial_function (option) sort_pass ::
  "store \<Rightarrow> addr \<Rightarrow> (addr \<Rightarrow> addr \<Rightarrow> bool) \<Rightarrow> addr option \<Rightarrow> bool \<Rightarrow> (bool \<times> store) option" where
  "sort_pass h l sh le swapped =
     (if le = None \<or> le_next h (the le) = None then Some (swapped, h)
      else if sh (the le) (the (le_next h (the le))) then sort_pass h l sh (le_next h (the le)) swapped
      else
        (let tle = le_next h (the le);
             h1 = list_unlink h le;
             h2 = list_insert_after h1 (Some l) tle le (le_data h1 (the le))
         in sort_pass h2 l sh le True))"

partial_function (option) list_sort_loop :: "store \<Rightarrow> addr \<Rightarrow> (addr \<Rightarrow> addr \<Rightarrow> bool) \<Rightarrow> store option" where
  "list_sort_loop h l sh =
     (case sort_pass h l sh (l_head h l) False of
        None \<Rightarrow> None
      | Some (swapped, h') \<Rightarrow> if swapped then list_sort_loop h' l sh else Some h')"

definition list_sort :: "store \<Rightarrow> addr option \<Rightarrow> (addr \<Rightarrow> addr \<Rightarrow> bool) option \<Rightarrow> store option" where
  "list_sort h list sh =
     (case (list, sh) of (Some l, Some f) \<Rightarrow> list_sort_loop h l f | _ \<Rightarrow> Some h)"

text \<open>
  \<open>list_flush\<close>; the second result is the sequence of objects passed to \<open>mem_deref\<close>. The
  destructors they may run are not part of this store.
\<close>

partial_function (option) flush_loop :: "store \<Rightarrow> addr option \<Rightarrow> addr option list \<Rightarrow> (store \<times> addr option list) option" where
  "flush_loop h le out =
     (if le = None then Some (h, out)
      else
        (let next = le_next h (the le); data = le_data h (the le);
             h1 = list_unlink h le;
             h2 = h1\<lparr>le_data := (le_data h1)(the le := None)\<rparr>
         in flush_loop h2 next (out @ [data])))"

definition list_flush :: "store \<Rightarrow> addr option \<Rightarrow> (store \<times> addr option list) option" where
  "list_flush h list =
     (case list of
        None \<Rightarrow> Some (h, [])
      | Some l \<Rightarrow>
          (case flush_loop h (l_head h l) [] of
             None \<Rightarrow> None
           | Some (h', out) \<Rightarrow> Some (list_init h' (Some l), out)))"

partial_function (option) clear_loop :: "store \<Rightarrow> addr option \<Rightarrow> store option" where
  "clear_loop h le =
     (if le = None then Some h
      else
        (let x = the le in
         clear_loop (h\<lparr>le_list := (le_list h)(x := None), le_prev := (le_prev h)(x := None),
                       le_next := (le_next h)(x := None), le_data := (le_data h)(x := None)\<rparr>)
           (le_next h x)))"

definition list_clear :: "store \<Rightarrow> addr option \<Rightarrow> store option" where
  "list_clear h list =
     (case list of
        None \<Rightarrow> Some h
      | Some l \<Rightarrow>
          (case clear_loop h (l_head h l) of
             None \<Rightarrow> None | Some h' \<Rightarrow> Some (list_init h' (Some l))))"

text \<open>
  \<open>list_apply\<close>: the handler may change the store; the successor is read before it runs. The
  result is the element at which the handler returned true.
\<close>

partial_function (option) apply_loop ::
  "(store \<Rightarrow> addr \<Rightarrow> addr option) \<Rightarrow> (store \<Rightarrow> addr \<Rightarrow> bool \<times> store) \<Rightarrow> store \<Rightarrow> addr option
   \<Rightarrow> (addr option \<times> store) option" where
  "apply_loop succ ah h le =
     (if le = None then Some (None, h)
      else if fst (ah h (the le)) then Some (le, snd (ah h (the le)))
      else apply_loop succ ah (snd (ah h (the le))) (succ h (the le)))"

definition list_apply ::
  "store \<Rightarrow> addr option \<Rightarrow> bool \<Rightarrow> (store \<Rightarrow> addr \<Rightarrow> bool \<times> store) option \<Rightarrow> (addr option \<times> store) option" where
  "list_apply h list fwd ah =
     (case (list, ah) of
        (Some l, Some f) \<Rightarrow>
          if fwd then apply_loop le_next f h (l_head h l)
          else apply_loop le_prev f h (l_tail h l)
      | _ \<Rightarrow> Some (None, h))"

section \<open>Well-formed lists\<close>

definition first :: "addr list \<Rightarrow> addr option \<Rightarrow> addr option" where
  "first xs e = (case xs of [] \<Rightarrow> e | x # _ \<Rightarrow> Some x)"

text \<open>The field \<open>f\<close> leads from each element of \<open>xs\<close> to the next one and from the last to \<open>e\<close>.\<close>

fun links :: "(addr \<Rightarrow> addr option) \<Rightarrow> addr list \<Rightarrow> addr option \<Rightarrow> bool" where
  "links f [] e = True"
| "links f (x # xs) e = (f x = first xs e \<and> links f xs e)"

definition is_list :: "store \<Rightarrow> addr \<Rightarrow> addr list \<Rightarrow> bool" where
  "is_list h l xs \<longleftrightarrow> distinct xs \<and> l_head h l = first xs None \<and> l_tail h l = first (rev xs) None
     \<and> links (le_next h) xs None \<and> links (le_prev h) (rev xs) None
     \<and> l_cnt h l = length xs \<and> length xs < size_mod
     \<and> (\<forall>x. le_list h x = Some l \<longleftrightarrow> x \<in> set xs)"

lemma first_simps [simp]:
  "first [] e = e" "first (x # xs) e = Some x" "first (xs @ ys) e = first xs (first ys e)"
  by (simp_all add: first_def split: list.splits)

lemma links_append [simp]: "links f (xs @ ys) e \<longleftrightarrow> links f xs (first ys e) \<and> links f ys e"
  by (induction xs) auto

lemma links_upd [simp]: "u \<notin> set xs \<Longrightarrow> links (f(u := v)) xs e = links f xs e"
  by (induction xs) auto

lemma links_snoc_upd:
  "distinct (xs @ [z]) \<Longrightarrow> links f (xs @ [z]) e \<Longrightarrow> links (f(z := v)) (xs @ [z]) v"
  by simp

lemma first_None_iff [simp]: "first xs None = None \<longleftrightarrow> xs = []"
  by (cases xs) auto

lemma first_Some_ex [simp]: "\<exists>y. first xs (Some z) = Some y"
  by (cases xs) auto

lemma first_mem: "first xs None = Some x \<Longrightarrow> x \<in> set xs"
  by (cases xs) auto

lemma is_list_unique:
  assumes "is_list h l xs" and "is_list h l ys" shows "xs = ys"
proof -
  have "xs = ys" if "links f xs None" "links f ys None" "first xs None = first ys None" for f
    using that by (induction xs arbitrary: ys) (case_tac ys; force)+
  with assms show ?thesis by (auto simp: is_list_def)
qed

lemma is_list_member: "is_list h l xs \<Longrightarrow> x \<in> set xs \<longleftrightarrow> le_list h x = Some l"
  by (simp add: is_list_def)

lemma is_list_decomp:
  assumes "is_list h l xs" and "le_list h x = Some l"
  obtains as bs where "xs = as @ x # bs" and "x \<notin> set as" and "x \<notin> set bs" and "set as \<inter> set bs = {}"
  using assms by (auto simp: is_list_def dest!: split_list)

lemma links_cong: "(\<And>x. x \<in> set xs \<Longrightarrow> f x = g x) \<Longrightarrow> links f xs e = links g xs e"
  by (induction xs) auto

lemma is_list_frame:
  assumes "is_list h l xs"
    and "\<And>x. x \<in> set xs \<Longrightarrow> le_next h' x = le_next h x \<and> le_prev h' x = le_prev h x"
    and "l_head h' l = l_head h l" and "l_tail h' l = l_tail h l" and "l_cnt h' l = l_cnt h l"
    and "\<And>x. le_list h' x = Some l \<longleftrightarrow> le_list h x = Some l"
  shows "is_list h' l xs"
  using assms links_cong [of xs "le_next h'" "le_next h" None]
    links_cong [of "rev xs" "le_prev h'" "le_prev h" None]
  by (simp add: is_list_def)

text \<open>Elements that are in a list point to elements of the same list only.\<close>

lemma links_target: "links f xs None \<Longrightarrow> x \<in> set xs \<Longrightarrow> f x = Some y \<Longrightarrow> y \<in> set xs"
  by (induction xs) (auto dest: first_mem)

lemma is_list_next: "is_list h l xs \<Longrightarrow> x \<in> set xs \<Longrightarrow> le_next h x = Some y \<Longrightarrow> y \<in> set xs"
  by (auto simp: is_list_def dest: links_target)

lemma is_list_prev: "is_list h l xs \<Longrightarrow> x \<in> set xs \<Longrightarrow> le_prev h x = Some y \<Longrightarrow> y \<in> set xs"
  using links_target [of "le_prev h" "rev xs" x y] by (auto simp: is_list_def)

lemma is_list_disjoint: "is_list h l xs \<Longrightarrow> is_list h k ys \<Longrightarrow> l \<noteq> k \<Longrightarrow> x \<in> set xs \<Longrightarrow> x \<notin> set ys"
  using is_list_member [of h l xs x] is_list_member [of h k ys x] by auto

section \<open>The operations act on the sequence\<close>

lemma list_append_list:
  assumes "is_list h l xs" and "le_list h x = None" and "Suc (length xs) < size_mod"
  shows "is_list (list_append h (Some l) (Some x) d) l (xs @ [x])"
proof (cases xs rule: rev_cases)
  case Nil
  with assms show ?thesis by (auto simp: is_list_def cnt_inc_def Let_def)
next
  case (snoc ys z)
  have "x \<notin> set xs" using is_list_member [OF assms(1), of x] assms(2) by simp
  with snoc assms show ?thesis by (auto simp: is_list_def cnt_inc_def Let_def)
qed

lemma list_prepend_list:
  assumes "is_list h l xs" and "le_list h x = None" and "Suc (length xs) < size_mod"
  shows "is_list (list_prepend h (Some l) (Some x) d) l (x # xs)"
proof (cases xs)
  case Nil
  with assms show ?thesis by (auto simp: is_list_def cnt_inc_def Let_def)
next
  case (Cons z ys)
  have "x \<notin> set xs" using is_list_member [OF assms(1), of x] assms(2) by simp
  with Cons assms show ?thesis by (auto simp: is_list_def cnt_inc_def Let_def)
qed

lemma list_insert_after_list:
  assumes l: "is_list h l (as @ y # bs)" and x: "le_list h x = None"
    and n: "Suc (length (as @ y # bs)) < size_mod"
  shows "is_list (list_insert_after h (Some l) (Some y) (Some x) d) l (as @ y # x # bs)"
proof -
  have "x \<notin> set (as @ y # bs)" using is_list_member [OF l, of x] x by simp
  with assms show ?thesis
    by (cases bs) (auto simp: is_list_def cnt_inc_def Let_def)
qed

lemma list_insert_before_list:
  assumes l: "is_list h l (as @ y # bs)" and x: "le_list h x = None"
    and n: "Suc (length (as @ y # bs)) < size_mod"
  shows "is_list (list_insert_before h (Some l) (Some y) (Some x) d) l (as @ x # y # bs)"
proof -
  have "x \<notin> set (as @ y # bs)" using is_list_member [OF l, of x] x by simp
  with assms show ?thesis
    by (cases as rule: rev_cases) (auto simp: is_list_def cnt_inc_def Let_def)
qed

lemma list_unlink_owner:
  "le_list (list_unlink h (Some x)) = (le_list h)(x := None)"
  by (auto simp: Let_def fun_upd_idem split: option.splits)

lemma list_unlink_data [simp]: "le_data (list_unlink h (Some x)) = le_data h"
  by (auto simp: Let_def split: option.splits)

lemma list_unlink_list:
  assumes l: "is_list h l (as @ x # bs)"
  shows "is_list (list_unlink h (Some x)) l (as @ bs)"
proof -
  have own: "le_list h x = Some l" using is_list_member [OF l, of x] by simp
  have prev: "le_prev h x = first (rev as) None" and nxt: "le_next h x = first bs None"
    using l by (simp_all add: is_list_def)
  have d: "distinct (as @ x # bs)" using l by (simp add: is_list_def)
  have parts: "l_head h l = first (as @ x # bs) None" "l_tail h l = first (rev (as @ x # bs)) None"
    "links (le_next h) (as @ x # bs) None" "links (le_prev h) (rev (as @ x # bs)) None"
    "l_cnt h l = length (as @ x # bs)" "length (as @ x # bs) < size_mod"
    using l unfolding is_list_def by blast+
  have "le_list (list_unlink h (Some x)) y = Some l \<longleftrightarrow> y \<in> set (as @ bs)" for y
    using is_list_member [OF l, of y] d by (auto simp only: list_unlink_owner fun_upd_apply) auto
  moreover have "l_head (list_unlink h (Some x)) l = first (as @ bs) None
      \<and> l_tail (list_unlink h (Some x)) l = first (rev (as @ bs)) None
      \<and> l_cnt (list_unlink h (Some x)) l = length (as @ bs)"
    using parts d own prev nxt
    by (cases as rule: rev_cases; cases bs) (simp_all add: Let_def)
  moreover have "links (le_next (list_unlink h (Some x))) (as @ bs) None"
    using parts d own prev nxt
    by (cases as rule: rev_cases; cases bs) (simp_all add: Let_def)
  moreover have "links (le_prev (list_unlink h (Some x))) (rev (as @ bs)) None"
    using parts d own prev nxt
    by (cases as rule: rev_cases; cases bs) (simp_all add: Let_def)
  ultimately show ?thesis
    using parts d by (simp add: is_list_def)
qed

section \<open>The operations leave every other list alone\<close>

lemma list_append_other:
  assumes l: "is_list h l xs" and k: "is_list h k ys" and "l \<noteq> k" and x: "le_list h x = None"
  shows "is_list (list_append h (Some l) (Some x) d) k ys"
proof (rule is_list_frame [OF k])
  fix y assume y: "y \<in> set ys"
  have "y \<noteq> x" using is_list_member [OF k, of y] y x by auto
  moreover have "l_tail h l \<noteq> Some y"
    using l is_list_disjoint [OF l k \<open>l \<noteq> k\<close>, of y] y first_mem [of "rev xs" y] by (auto simp: is_list_def)
  ultimately show "le_next (list_append h (Some l) (Some x) d) y = le_next h y
      \<and> le_prev (list_append h (Some l) (Some x) d) y = le_prev h y"
    using x by (auto simp: Let_def cnt_inc_def split: option.splits)
qed (use x \<open>l \<noteq> k\<close> in \<open>auto simp: Let_def cnt_inc_def split: option.splits\<close>)

lemma list_insert_after_other:
  assumes l: "is_list h l (as @ y # bs)" and k: "is_list h k ys" and "l \<noteq> k" and x: "le_list h x = None"
  shows "is_list (list_insert_after h (Some l) (Some y) (Some x) d) k ys"
proof (rule is_list_frame [OF k])
  fix z assume z: "z \<in> set ys"
  have "z \<noteq> x" using is_list_member [OF k, of z] z x by auto
  moreover have "z \<noteq> y" using is_list_disjoint [OF l k \<open>l \<noteq> k\<close>, of z] z by auto
  moreover have "le_next h y \<noteq> Some z"
    using is_list_next [OF l, of y z] is_list_disjoint [OF l k \<open>l \<noteq> k\<close>, of z] z by auto
  ultimately show "le_next (list_insert_after h (Some l) (Some y) (Some x) d) z = le_next h z
      \<and> le_prev (list_insert_after h (Some l) (Some y) (Some x) d) z = le_prev h z"
    using x by (auto simp: Let_def cnt_inc_def split: option.splits)
qed (use x \<open>l \<noteq> k\<close> in \<open>auto simp: Let_def cnt_inc_def split: option.splits\<close>)

lemma list_prepend_other:
  assumes l: "is_list h l xs" and k: "is_list h k ys" and "l \<noteq> k" and x: "le_list h x = None"
  shows "is_list (list_prepend h (Some l) (Some x) d) k ys"
proof (rule is_list_frame [OF k])
  fix y assume y: "y \<in> set ys"
  have "y \<noteq> x" using is_list_member [OF k, of y] y x by auto
  moreover have "l_head h l \<noteq> Some y"
    using l is_list_disjoint [OF l k \<open>l \<noteq> k\<close>, of y] y first_mem [of xs y] by (auto simp: is_list_def)
  ultimately show "le_next (list_prepend h (Some l) (Some x) d) y = le_next h y
      \<and> le_prev (list_prepend h (Some l) (Some x) d) y = le_prev h y"
    using x by (auto simp: Let_def cnt_inc_def split: option.splits)
qed (use x \<open>l \<noteq> k\<close> in \<open>auto simp: Let_def cnt_inc_def split: option.splits\<close>)

lemma list_unlink_other:
  assumes l: "is_list h l xs" and k: "is_list h k ys" and "l \<noteq> k" and x: "x \<in> set xs"
  shows "is_list (list_unlink h (Some x)) k ys"
proof (rule is_list_frame [OF k])
  have own: "le_list h x = Some l" using is_list_member [OF l, of x] x by simp
  fix z assume z: "z \<in> set ys"
  have "z \<noteq> x" using is_list_disjoint [OF l k \<open>l \<noteq> k\<close>, of z] z x by auto
  moreover have "le_next h x \<noteq> Some z" "le_prev h x \<noteq> Some z"
    using is_list_next [OF l x, of z] is_list_prev [OF l x, of z]
      is_list_disjoint [OF l k \<open>l \<noteq> k\<close>, of z] z by auto
  ultimately show "le_next (list_unlink h (Some x)) z = le_next h z \<and> le_prev (list_unlink h (Some x)) z = le_prev h z"
    using own by (auto simp: Let_def split: option.splits)
next
  have own: "le_list h x = Some l" using is_list_member [OF l, of x] x by simp
  then show "l_head (list_unlink h (Some x)) k = l_head h k" "l_tail (list_unlink h (Some x)) k = l_tail h k"
    "l_cnt (list_unlink h (Some x)) k = l_cnt h k"
    using \<open>l \<noteq> k\<close> by (auto simp: Let_def split: option.splits)
  show "(le_list (list_unlink h (Some x)) z = Some k) = (le_list h z = Some k)" for z
    using own \<open>l \<noteq> k\<close> by (auto simp: list_unlink_owner simp del: list_unlink.simps)
qed

section \<open>The contract\<close>

locale linked_list =
  fixes repr :: "'h \<Rightarrow> 'l \<Rightarrow> 'e list \<Rightarrow> bool"
    and free :: "'h \<Rightarrow> 'e \<Rightarrow> bool"
    and append :: "'h \<Rightarrow> 'l \<Rightarrow> 'e \<Rightarrow> 'h"
    and prepend :: "'h \<Rightarrow> 'l \<Rightarrow> 'e \<Rightarrow> 'h"
    and insert_after :: "'h \<Rightarrow> 'l \<Rightarrow> 'e \<Rightarrow> 'e \<Rightarrow> 'h"
    and unlink :: "'h \<Rightarrow> 'e \<Rightarrow> 'h"
    and room :: nat
  assumes append_repr: "repr h l xs \<Longrightarrow> free h x \<Longrightarrow> Suc (length xs) < room \<Longrightarrow> repr (append h l x) l (xs @ [x])"
    and prepend_repr: "repr h l xs \<Longrightarrow> free h x \<Longrightarrow> Suc (length xs) < room \<Longrightarrow> repr (prepend h l x) l (x # xs)"
    and insert_after_repr: "repr h l (as @ y # bs) \<Longrightarrow> free h x \<Longrightarrow> Suc (length (as @ y # bs)) < room \<Longrightarrow>
      repr (insert_after h l y x) l (as @ y # x # bs)"
    and unlink_repr: "repr h l (as @ x # bs) \<Longrightarrow> repr (unlink h x) l (as @ bs)"
    and unlink_free: "repr h l xs \<Longrightarrow> x \<in> set xs \<Longrightarrow> free (unlink h x) x"
    and append_other: "repr h l xs \<Longrightarrow> repr h k ys \<Longrightarrow> l \<noteq> k \<Longrightarrow> free h x \<Longrightarrow> repr (append h l x) k ys"
    and unlink_other: "repr h l xs \<Longrightarrow> repr h k ys \<Longrightarrow> l \<noteq> k \<Longrightarrow> x \<in> set xs \<Longrightarrow> repr (unlink h x) k ys"
begin

text \<open>Moving an element: it leaves its list and becomes the last of the other one.\<close>

lemma move_repr:
  assumes "repr h l (as @ x # bs)" and "repr h k ys" and "l \<noteq> k" and "Suc (length ys) < room"
  shows "repr (append (unlink h x) k x) k (ys @ [x]) \<and> repr (append (unlink h x) k x) l (as @ bs)"
proof -
  have l: "repr (unlink h x) l (as @ bs)" by (rule unlink_repr [OF assms(1)])
  have f: "free (unlink h x) x" by (rule unlink_free [OF assms(1)]) simp
  have k: "repr (unlink h x) k ys" by (rule unlink_other [OF assms(1-3)]) simp
  show ?thesis
    using append_repr [OF k f assms(4)] append_other [OF k l _ f] assms(3) by auto
qed

text \<open>Exchanging neighbours, as a sort does: unlink one and insert it after the other.\<close>

lemma swap_repr:
  assumes "repr h l (as @ x # y # bs)" and "length (as @ x # y # bs) < room"
  shows "repr (insert_after (unlink h x) l y x) l (as @ y # x # bs)"
  using insert_after_repr [OF unlink_repr [OF assms(1)] unlink_free [OF assms(1)]] assms(2) by simp

end

interpretation ll: linked_list is_list "\<lambda>h x. le_list h x = None"
    "\<lambda>h l x. list_append h (Some l) (Some x) (le_data h x)"
    "\<lambda>h l x. list_prepend h (Some l) (Some x) (le_data h x)"
    "\<lambda>h l y x. list_insert_after h (Some l) (Some y) (Some x) (le_data h x)"
    "\<lambda>h x. list_unlink h (Some x)" size_mod
  by unfold_locales
    ((simp_all only: list_append_list list_prepend_list list_insert_after_list list_unlink_list
        list_unlink_owner fun_upd_same),
     (blast intro: list_append_other list_unlink_other)+)

section \<open>Sorting\<close>

text \<open>What one pass does to the sequence, and whether it exchanged anything.\<close>

fun bubble :: "('a \<Rightarrow> 'a \<Rightarrow> bool) \<Rightarrow> 'a list \<Rightarrow> 'a list" where
  "bubble sh (x # y # ys) = (if sh x y then x # bubble sh (y # ys) else y # bubble sh (x # ys))"
| "bubble sh xs = xs"

fun swaps :: "('a \<Rightarrow> 'a \<Rightarrow> bool) \<Rightarrow> 'a list \<Rightarrow> bool" where
  "swaps sh (x # y # ys) = (\<not> sh x y \<or> swaps sh (y # ys))"
| "swaps sh xs = False"

fun inversions :: "('a \<Rightarrow> 'a \<Rightarrow> bool) \<Rightarrow> 'a list \<Rightarrow> nat" where
  "inversions sh [] = 0"
| "inversions sh (x # xs) = length (filter (\<lambda>y. \<not> sh x y) xs) + inversions sh xs"

lemma mset_bubble [simp]: "mset (bubble sh xs) = mset xs"
  by (induction sh xs rule: bubble.induct) auto

lemma set_bubble [simp]: "set (bubble sh xs) = set xs"
  by (metis mset_bubble set_mset_mset)

lemma length_bubble [simp]: "length (bubble sh xs) = length xs"
  by (metis mset_bubble size_mset)

lemma filter_bubble [simp]: "length (filter P (bubble sh xs)) = length (filter P xs)"
  by (metis mset_bubble mset_filter size_mset)

lemma inversions_bubble:
  assumes "distinct xs" and "\<forall>a \<in> set xs. \<forall>b \<in> set xs. a \<noteq> b \<longrightarrow> sh a b \<or> sh b a"
  shows "inversions sh (bubble sh xs) + (if swaps sh xs then 1 else 0) \<le> inversions sh xs"
  using assms
proof (induction sh xs rule: bubble.induct)
  case (1 sh x y ys)
  show ?case
  proof (cases "sh x y")
    case True
    with 1 have "inversions sh (bubble sh (y # ys)) + (if swaps sh (y # ys) then 1 else 0)
        \<le> inversions sh (y # ys)"
      by auto
    moreover have "length (filter (\<lambda>z. \<not> sh x z) (bubble sh (y # ys))) = length (filter (\<lambda>z. \<not> sh x z) ys)"
      using True by (simp only: filter_bubble) simp
    ultimately show ?thesis using True by simp
  next
    case False
    with "1.prems" have yx: "sh y x" by auto
    from 1 False have "inversions sh (bubble sh (x # ys)) \<le> inversions sh (x # ys)"
      by auto
    moreover have "length (filter (\<lambda>z. \<not> sh y z) (bubble sh (x # ys))) = length (filter (\<lambda>z. \<not> sh y z) ys)"
      using yx by (simp only: filter_bubble) simp
    ultimately show ?thesis using False by simp
  qed
qed auto

lemma not_swaps: "\<not> swaps sh xs \<Longrightarrow> bubble sh xs = xs \<and> successively sh xs"
  by (induction sh xs rule: swaps.induct) auto

lemma list_insert_after_data: "le_data (list_insert_after h l y (Some x) (le_data h x)) = le_data h"
  by (cases l; cases y) (auto simp: Let_def cnt_inc_def split: option.splits)

lemma sort_pass_bubble:
  assumes "is_list h l (as @ x # bs)"
  shows "\<exists>h'. sort_pass h l sh (Some x) s = Some (s \<or> swaps sh (x # bs), h')
    \<and> is_list h' l (as @ bubble sh (x # bs)) \<and> le_data h' = le_data h"
  using assms
proof (induction bs arbitrary: h as x s)
  case Nil
  then have "le_next h x = None" by (simp add: is_list_def)
  with Nil show ?case by (subst sort_pass.simps) simp
next
  case (Cons y ys)
  from Cons.prems have nxt: "le_next h x = Some y" by (simp add: is_list_def)
  show ?case
  proof (cases "sh x y")
    case True
    from Cons.IH [of h "as @ [x]" y s] Cons.prems obtain h' where
      "sort_pass h l sh (Some y) s = Some (s \<or> swaps sh (y # ys), h')"
      "is_list h' l (as @ x # bubble sh (y # ys))" "le_data h' = le_data h"
      by auto
    with True nxt show ?thesis by (subst sort_pass.simps) simp
  next
    case False
    let ?h1 = "list_unlink h (Some x)"
    let ?h2 = "list_insert_after ?h1 (Some l) (Some y) (Some x) (le_data ?h1 x)"
    have "length (as @ x # y # ys) < size_mod" using Cons.prems by (simp add: is_list_def)
    with ll.swap_repr [OF Cons.prems] have "is_list ?h2 l ((as @ [y]) @ x # ys)" by simp
    from Cons.IH [OF this, of True] obtain h' where
      "sort_pass ?h2 l sh (Some x) True = Some (True, h')"
      "is_list h' l (as @ y # bubble sh (x # ys))" "le_data h' = le_data ?h2"
      by auto
    moreover have "le_data ?h2 = le_data h" 
      using list_insert_after_data [of ?h1 "Some l" "Some y" x] by (simp only: list_unlink_data)
    ultimately show ?thesis using False nxt
      by (subst sort_pass.simps) (simp del: list_unlink.simps list_insert_after.simps)
  qed
qed

lemma sort_pass_list:
  assumes "is_list h l xs"
  shows "\<exists>h'. sort_pass h l sh (l_head h l) False = Some (swaps sh xs, h')
    \<and> is_list h' l (bubble sh xs) \<and> le_data h' = le_data h"
proof (cases xs)
  case Nil
  with assms have "l_head h l = None" by (simp add: is_list_def)
  with Nil assms show ?thesis by (subst sort_pass.simps) simp
next
  case (Cons x bs)
  with assms have "l_head h l = Some x" by (simp add: is_list_def)
  with sort_pass_bubble [of h l "[]" x bs sh False] assms Cons show ?thesis by simp
qed

lemma list_sort_loop_sorts:
  assumes "is_list h l xs"
    and "\<forall>a \<in> set xs. \<forall>b \<in> set xs. a \<noteq> b \<longrightarrow> sh a b \<or> sh b a"
    and "\<forall>a \<in> set xs. \<forall>b \<in> set xs. \<forall>c \<in> set xs. sh a b \<longrightarrow> sh b c \<longrightarrow> sh a c"
  shows "\<exists>h' ys. list_sort_loop h l sh = Some h' \<and> is_list h' l ys \<and> mset ys = mset xs \<and> sorted_wrt sh ys
    \<and> le_data h' = le_data h"
  using assms
proof (induction "inversions sh xs" arbitrary: h xs rule: less_induct)
  case less
  from sort_pass_list [OF less.prems(1), of sh] obtain h' where
    h': "sort_pass h l sh (l_head h l) False = Some (swaps sh xs, h')"
      "is_list h' l (bubble sh xs)" "le_data h' = le_data h"
    by blast
  show ?case
  proof (cases "swaps sh xs")
    case True
    have "distinct xs" using less.prems(1) by (simp add: is_list_def)
    with inversions_bubble [of xs sh] less.prems(2) True
    have fewer: "inversions sh (bubble sh xs) < inversions sh xs" by simp
    have "\<forall>a \<in> set (bubble sh xs). \<forall>b \<in> set (bubble sh xs). a \<noteq> b \<longrightarrow> sh a b \<or> sh b a"
      "\<forall>a \<in> set (bubble sh xs). \<forall>b \<in> set (bubble sh xs). \<forall>c \<in> set (bubble sh xs).
         sh a b \<longrightarrow> sh b c \<longrightarrow> sh a c"
      using less.prems(2,3) by (simp_all only: set_bubble)
    from less.hyps [OF fewer h'(2) this] obtain h'' ys where
      "list_sort_loop h' l sh = Some h''" "is_list h'' l ys" "mset ys = mset (bubble sh xs)"
      "sorted_wrt sh ys" "le_data h'' = le_data h'"
      by blast
    moreover from this(1) h'(1) True have "list_sort_loop h l sh = Some h''"
      by (subst list_sort_loop.simps) simp
    ultimately show ?thesis using h'(3) by auto
  next
    case False
    with not_swaps [of sh xs] have same: "bubble sh xs = xs" and "successively sh xs" by auto
    moreover have "successively sh xs \<longleftrightarrow> sorted_wrt sh xs"
      by (rule successively_iff_sorted_wrt_strong) (use less.prems(3) in blast)
    ultimately have "sorted_wrt sh xs" by simp
    moreover have "list_sort_loop h l sh = Some h'"
      using h'(1) False by (subst list_sort_loop.simps) simp
    ultimately show ?thesis using h'(2,3) same by auto
  qed
qed

section \<open>Sorted insertion\<close>

lemma sorted_place_find:
  "links (le_prev h) ys None \<Longrightarrow> sorted_place h sh x (first ys None) = Some (find (\<lambda>y. sh y x) ys)"
proof (induction ys)
  case Nil
  show ?case by (subst sorted_place.simps) simp
next
  case (Cons y ys)
  then show ?case by (subst sorted_place.simps) simp
qed

text \<open>The last element with \<open>P\<close>, found from the back.\<close>

lemma find_rev_cases:
  obtains "find P (rev xs) = None" and "\<forall>y \<in> set xs. \<not> P y"
  | as y bs where "xs = as @ y # bs" and "P y" and "\<forall>b \<in> set bs. \<not> P b" and "find P (rev xs) = Some y"
proof (cases "find P (rev xs)")
  case None
  then show ?thesis using that(1) by (auto simp: find_None_iff)
next
  case (Some y)
  then obtain cs ds where "rev xs = cs @ y # ds" "P y" "\<forall>c \<in> set cs. \<not> P c"
    by (auto simp: find_Some_iff) (metis (no_types, lifting) id_take_nth_drop in_set_conv_nth
        length_take less_imp_le min.absorb2 nth_take length_rev)
  moreover from this(1) have "xs = rev ds @ y # rev cs"
    by (metis append.assoc append_Cons append_Nil rev.simps(2) rev_append rev_rev_ident)
  ultimately show ?thesis using that(2) [of "rev ds" y "rev cs"] Some by simp
qed

lemma is_list_data [simp]: "is_list (h\<lparr>le_data := f\<rparr>) l xs = is_list h l xs"
  by (simp add: is_list_def)

lemma list_insert_sorted_place:
  assumes l: "is_list h l xs" and x: "le_list h x = None" and n: "Suc (length xs) < size_mod"
  shows "\<exists>h' as bs. list_insert_sorted h (Some l) (Some sh) x d = Some h' \<and> xs = as @ bs
    \<and> is_list h' l (as @ x # bs) \<and> (as = [] \<or> sh (last as) x) \<and> (\<forall>b \<in> set bs. \<not> sh b x)"
proof -
  define h1 where "h1 = h\<lparr>le_data := (le_data h)(x := d)\<rparr>"
  have l1: "is_list h1 l xs" and x1: "le_list h1 x = None" using l x by (simp_all add: h1_def)
  have tail: "l_tail h l = first (rev xs) None" and lnk: "links (le_prev h1) (rev xs) None"
    using l l1 by (auto simp: is_list_def)
  have run: "list_insert_sorted h (Some l) (Some sh) x d =
      (case find (\<lambda>y. sh y x) (rev xs) of
         Some y \<Rightarrow> Some (list_insert_after h1 (Some l) (Some y) (Some x) (le_data h1 x))
       | None \<Rightarrow> Some (list_prepend h1 (Some l) (Some x) (le_data h1 x)))"
    using sorted_place_find [OF lnk, of sh x] tail
    by (simp add: list_insert_sorted_def Let_def h1_def split: option.splits)
  show ?thesis
  proof (cases rule: find_rev_cases [of "\<lambda>y. sh y x" xs])
    case 1
    with run list_prepend_list [OF l1 x1 n] show ?thesis
      by (intro exI [of _ "list_prepend h1 (Some l) (Some x) (le_data h1 x)"] exI [of _ "[]"] exI [of _ xs])
         (simp del: list_prepend.simps)
  next
    case (2 as y bs)
    with run list_insert_after_list [of h1 l as y bs x] l1 x1 n show ?thesis
      by (intro exI [of _ "list_insert_after h1 (Some l) (Some y) (Some x) (le_data h1 x)"]
           exI [of _ "as @ [y]"] exI [of _ bs])
         (simp del: list_insert_after.simps)
  qed
qed

section \<open>Flushing, clearing, traversing\<close>

lemma flush_loop_list:
  assumes "is_list h l xs"
  shows "\<exists>h'. flush_loop h (first xs None) out = Some (h', out @ map (le_data h) xs) \<and> is_list h' l []
    \<and> (\<forall>x \<in> set xs. le_list h' x = None \<and> le_data h' x = None)
    \<and> (\<forall>x. x \<notin> set xs \<longrightarrow> le_list h' x = le_list h x \<and> le_data h' x = le_data h x)"
  using assms
proof (induction xs arbitrary: h out)
  case Nil
  then show ?case by (subst flush_loop.simps) simp
next
  case (Cons x xs)
  let ?h1 = "list_unlink h (Some x)"
  let ?h2 = "?h1\<lparr>le_data := (le_data ?h1)(x := None)\<rparr>"
  have d: "x \<notin> set xs" and nxt: "le_next h x = first xs None" using Cons.prems by (auto simp: is_list_def)
  have "is_list ?h2 l xs"
    using list_unlink_list [of h l "[]" x xs] Cons.prems by (simp only: is_list_data append_Nil)
  from Cons.IH [OF this, of "out @ [le_data h x]"] obtain h' where h':
    "flush_loop ?h2 (first xs None) (out @ [le_data h x]) = Some (h', (out @ [le_data h x]) @ map (le_data ?h2) xs)"
    "is_list h' l []" "\<forall>y \<in> set xs. le_list h' y = None \<and> le_data h' y = None"
    "\<forall>y. y \<notin> set xs \<longrightarrow> le_list h' y = le_list ?h2 y \<and> le_data h' y = le_data ?h2 y"
    by blast
  have data: "le_data ?h2 = (le_data h)(x := None)" and own: "le_list ?h2 = (le_list h)(x := None)"
    using list_unlink_data [of h x] list_unlink_owner [of h x] by (simp_all del: list_unlink.simps)
  have "flush_loop h (first (x # xs) None) out = flush_loop ?h2 (first xs None) (out @ [le_data h x])"
    by (subst flush_loop.simps) (simp add: Let_def nxt del: list_unlink.simps)
  moreover have "map (le_data ?h2) xs = map (le_data h) xs" using d data by simp
  ultimately show ?case
    using h' d unfolding data own by (intro exI [of _ h']) auto
qed

lemma apply_loop_find:
  "links (succ h) xs None \<Longrightarrow> apply_loop succ (\<lambda>h x. (p x, h)) h (first xs None) = Some (find p xs, h)"
proof (induction xs)
  case Nil
  show ?case by (subst apply_loop.simps) simp
next
  case (Cons x xs)
  then show ?case by (subst apply_loop.simps) simp
qed

lemma clear_loop_list:
  assumes "links (le_next h) xs None" and "distinct xs"
  shows "\<exists>h'. clear_loop h (first xs None) = Some h'
    \<and> (\<forall>x. le_list h' x = (if x \<in> set xs then None else le_list h x))
    \<and> (\<forall>x. le_data h' x = (if x \<in> set xs then None else le_data h x))
    \<and> (\<forall>x. le_next h' x = (if x \<in> set xs then None else le_next h x))
    \<and> (\<forall>x. le_prev h' x = (if x \<in> set xs then None else le_prev h x))"
  using assms
proof (induction xs arbitrary: h)
  case Nil
  then show ?case by (subst clear_loop.simps) simp
next
  case (Cons x xs)
  let ?h1 = "h\<lparr>le_list := (le_list h)(x := None), le_prev := (le_prev h)(x := None),
               le_next := (le_next h)(x := None), le_data := (le_data h)(x := None)\<rparr>"
  have "links (le_next ?h1) xs None" "distinct xs" using Cons.prems by auto
  from Cons.IH [OF this] obtain h' where "clear_loop ?h1 (first xs None) = Some h'"
    and "\<forall>y. le_list h' y = (if y \<in> set xs then None else le_list ?h1 y)"
      "\<forall>y. le_data h' y = (if y \<in> set xs then None else le_data ?h1 y)"
      "\<forall>y. le_next h' y = (if y \<in> set xs then None else le_next ?h1 y)"
      "\<forall>y. le_prev h' y = (if y \<in> set xs then None else le_prev ?h1 y)"
    by blast
  moreover have "clear_loop h (first (x # xs) None) = clear_loop ?h1 (first xs None)"
    using Cons.prems by (subst clear_loop.simps) (simp add: Let_def)
  ultimately show ?case using Cons.prems by (intro exI [of _ h']) auto
qed

section \<open>The lists of a program\<close>

text \<open>
  What a program sees of its lists: the sequence of elements of every list head it uses, and
  the data pointer of every element. A store represents such a view when each of these
  sequences is linked consistently and no element is in a list the program does not know.
\<close>

type_synonym view = "(addr \<rightharpoonup> addr list) \<times> (addr \<Rightarrow> addr option)"

definition represents :: "store \<Rightarrow> view \<Rightarrow> bool" where
  "represents h S \<longleftrightarrow> le_data h = snd S \<and> (\<forall>l xs. fst S l = Some xs \<longrightarrow> is_list h l xs)
     \<and> (\<forall>x l. le_list h x = Some l \<longrightarrow> l \<in> dom (fst S))"

definition linked :: "view \<Rightarrow> addr \<Rightarrow> bool" where
  "linked S x \<longleftrightarrow> (\<exists>l xs. fst S l = Some xs \<and> x \<in> set xs)"

datatype list_op =
    L_append addr addr "addr option"
  | L_prepend addr addr "addr option"
  | L_after addr addr addr "addr option"
  | L_before addr addr addr "addr option"
  | L_unlink addr
  | L_move addr addr

fun list_step :: "store \<Rightarrow> list_op \<Rightarrow> store" where
  "list_step h (L_append l x d) = list_append h (Some l) (Some x) d"
| "list_step h (L_prepend l x d) = list_prepend h (Some l) (Some x) d"
| "list_step h (L_after l y x d) = list_insert_after h (Some l) (Some y) (Some x) d"
| "list_step h (L_before l y x d) = list_insert_before h (Some l) (Some y) (Some x) d"
| "list_step h (L_unlink x) = list_unlink h (Some x)"
| "list_step h (L_move x k) = list_move h x (Some k)"

fun ins_after :: "addr \<Rightarrow> addr \<Rightarrow> addr list \<Rightarrow> addr list" where
  "ins_after y x [] = []"
| "ins_after y x (z # zs) = (if z = y then z # x # zs else z # ins_after y x zs)"

fun ins_before :: "addr \<Rightarrow> addr \<Rightarrow> addr list \<Rightarrow> addr list" where
  "ins_before y x [] = []"
| "ins_before y x (z # zs) = (if z = y then x # z # zs else z # ins_before y x zs)"

text \<open>Linking changes the sequence of one list and the data of the element; an element that is
  in a list already stays where it is. Unlinking takes it out of whatever list holds it.\<close>

definition link_view :: "view \<Rightarrow> addr \<Rightarrow> addr \<Rightarrow> addr option \<Rightarrow> (addr list \<Rightarrow> addr list) \<Rightarrow> view" where
  "link_view S l x d f =
     (if linked S x then S else ((fst S)(l := map_option f (fst S l)), (snd S)(x := d)))"

definition unlink_view :: "view \<Rightarrow> addr \<Rightarrow> view" where
  "unlink_view S x = (\<lambda>l. map_option (remove1 x) (fst S l), snd S)"

fun view_step :: "view \<Rightarrow> list_op \<Rightarrow> view" where
  "view_step S (L_append l x d) = link_view S l x d (\<lambda>xs. xs @ [x])"
| "view_step S (L_prepend l x d) = link_view S l x d (\<lambda>xs. x # xs)"
| "view_step S (L_after l y x d) = link_view S l x d (ins_after y x)"
| "view_step S (L_before l y x d) = link_view S l x d (ins_before y x)"
| "view_step S (L_unlink x) = unlink_view S x"
| "view_step S (L_move x k) = link_view (unlink_view S x) k x (snd S x) (\<lambda>xs. xs @ [x])"

text \<open>What the caller has to see to: the list is one of its own and its count does not wrap, and
  the element next to which it inserts is in that list.\<close>

definition room_in :: "view \<Rightarrow> addr \<Rightarrow> bool" where
  "room_in S l \<longleftrightarrow> (case fst S l of None \<Rightarrow> False | Some xs \<Rightarrow> Suc (length xs) < size_mod)"

fun permitted :: "view \<Rightarrow> list_op \<Rightarrow> bool" where
  "permitted S (L_append l x d) = room_in S l"
| "permitted S (L_prepend l x d) = room_in S l"
| "permitted S (L_after l y x d) = (room_in S l \<and> y \<in> set (the (fst S l)))"
| "permitted S (L_before l y x d) = (room_in S l \<and> y \<in> set (the (fst S l)))"
| "permitted S (L_unlink x) = True"
| "permitted S (L_move x k) = room_in S k"

fun all_permitted :: "view \<Rightarrow> list_op list \<Rightarrow> bool" where
  "all_permitted S [] = True"
| "all_permitted S (p # ps) = (permitted S p \<and> all_permitted (view_step S p) ps)"

lemma list_insert_before_other:
  assumes l: "is_list h l (as @ y # bs)" and k: "is_list h k ys" and "l \<noteq> k" and x: "le_list h x = None"
  shows "is_list (list_insert_before h (Some l) (Some y) (Some x) d) k ys"
proof (rule is_list_frame [OF k])
  fix z assume z: "z \<in> set ys"
  have "z \<noteq> x" using is_list_member [OF k, of z] z x by auto
  moreover have "z \<noteq> y" using is_list_disjoint [OF l k \<open>l \<noteq> k\<close>, of z] z by auto
  moreover have "le_prev h y \<noteq> Some z"
    using is_list_prev [OF l, of y z] is_list_disjoint [OF l k \<open>l \<noteq> k\<close>, of z] z by auto
  ultimately show "le_next (list_insert_before h (Some l) (Some y) (Some x) d) z = le_next h z
      \<and> le_prev (list_insert_before h (Some l) (Some y) (Some x) d) z = le_prev h z"
    using x by (auto simp: Let_def cnt_inc_def split: option.splits)
qed (use x \<open>l \<noteq> k\<close> in \<open>auto simp: Let_def cnt_inc_def split: option.splits\<close>)

lemma link_owner_data:
  assumes "le_list h x = None"
  shows "le_list (list_append h (Some l) (Some x) d) = (le_list h)(x := Some l)"
    "le_data (list_append h (Some l) (Some x) d) = (le_data h)(x := d)"
    "le_list (list_prepend h (Some l) (Some x) d) = (le_list h)(x := Some l)"
    "le_data (list_prepend h (Some l) (Some x) d) = (le_data h)(x := d)"
    "le_list (list_insert_after h (Some l) (Some y) (Some x) d) = (le_list h)(x := Some l)"
    "le_data (list_insert_after h (Some l) (Some y) (Some x) d) = (le_data h)(x := d)"
    "le_list (list_insert_before h (Some l) (Some y) (Some x) d) = (le_list h)(x := Some l)"
    "le_data (list_insert_before h (Some l) (Some y) (Some x) d) = (le_data h)(x := d)"
  using assms by (auto simp: Let_def cnt_inc_def split: option.splits)

lemma represents_linked: "represents h S \<Longrightarrow> linked S x \<longleftrightarrow> le_list h x \<noteq> None"
  unfolding represents_def linked_def is_list_def by (metis domD not_None_eq)

lemma linked_no_change:
  assumes "le_list h x \<noteq> None"
  shows "list_append h (Some l) (Some x) d = h" "list_prepend h (Some l) (Some x) d = h"
    "list_insert_after h (Some l) (Some y) (Some x) d = h" "list_insert_before h (Some l) (Some y) (Some x) d = h"
  using assms by simp_all

text \<open>A linking operation refines its view when it acts on the sequence of its list, leaves the
  others alone and sets the owner and the data of the element.\<close>

lemma represents_link:
  assumes r: "represents h S" and l: "fst S l = Some xs"
    and same: "le_list h x \<noteq> None \<Longrightarrow> h' = h"
    and list: "le_list h x = None \<Longrightarrow> is_list h' l (f xs)"
    and other: "\<And>k ys. le_list h x = None \<Longrightarrow> is_list h k ys \<Longrightarrow> l \<noteq> k \<Longrightarrow> is_list h' k ys"
    and own: "le_list h x = None \<Longrightarrow> le_list h' = (le_list h)(x := Some l)"
    and dat: "le_list h x = None \<Longrightarrow> le_data h' = (le_data h)(x := d)"
  shows "represents h' (link_view S l x d f)"
proof (cases "linked S x")
  case True
  with r same show ?thesis by (simp add: link_view_def represents_linked)
next
  case False
  then have n: "le_list h x = None" using represents_linked [OF r] by blast
  have "is_list h' k ys" if "((fst S)(l := map_option f (fst S l))) k = Some ys" for k ys
    using that l r list [OF n] other [OF n, of k ys] by (cases "k = l") (auto simp: represents_def)
  moreover have "k \<in> dom ((fst S)(l := map_option f (fst S l)))" if "le_list h' y = Some k" for y k
    using that l r own [OF n] by (auto simp: represents_def split: if_splits)
  moreover have "le_data h' = (snd S)(x := d)" using r dat [OF n] by (simp add: represents_def)
  ultimately show ?thesis using False by (simp add: represents_def link_view_def)
qed

lemma ins_after_split: "y \<notin> set as \<Longrightarrow> ins_after y x (as @ y # bs) = as @ y # x # bs"
  by (induction as) auto

lemma ins_before_split: "y \<notin> set as \<Longrightarrow> ins_before y x (as @ y # bs) = as @ x # y # bs"
  by (induction as) auto

lemma represents_append:
  assumes "represents h S" and "room_in S l"
  shows "represents (list_append h (Some l) (Some x) d) (link_view S l x d (\<lambda>xs. xs @ [x]))"
proof -
  from assms obtain xs where xs: "fst S l = Some xs" "is_list h l xs" "Suc (length xs) < size_mod"
    by (auto simp: room_in_def represents_def split: option.splits)
  show ?thesis
    by (rule represents_link [OF assms(1) xs(1)])
      (blast intro: linked_no_change list_append_list [OF xs(2) _ xs(3)] list_append_other [OF xs(2)] link_owner_data)+
qed

lemma represents_prepend:
  assumes "represents h S" and "room_in S l"
  shows "represents (list_prepend h (Some l) (Some x) d) (link_view S l x d (\<lambda>xs. x # xs))"
proof -
  from assms obtain xs where xs: "fst S l = Some xs" "is_list h l xs" "Suc (length xs) < size_mod"
    by (auto simp: room_in_def represents_def split: option.splits)
  show ?thesis
    by (rule represents_link [OF assms(1) xs(1)])
      (blast intro: linked_no_change list_prepend_list [OF xs(2) _ xs(3)] list_prepend_other [OF xs(2)] link_owner_data)+
qed

lemma represents_beside:
  assumes "represents h S" and "room_in S l" and "y \<in> set (the (fst S l))"
  shows "represents (list_insert_after h (Some l) (Some y) (Some x) d) (link_view S l x d (ins_after y x))"
    and "represents (list_insert_before h (Some l) (Some y) (Some x) d) (link_view S l x d (ins_before y x))"
proof -
  from assms(1,2) obtain xs where xs: "fst S l = Some xs" "is_list h l xs" "Suc (length xs) < size_mod"
    by (auto simp: room_in_def represents_def split: option.splits)
  with assms(3) have "le_list h y = Some l" using is_list_member [OF xs(2), of y] by simp
  from is_list_decomp [OF xs(2) this] obtain as bs where sp: "xs = as @ y # bs" "y \<notin> set as" by metis
  note xs' = xs(2,3) [unfolded sp(1)]
  show "represents (list_insert_after h (Some l) (Some y) (Some x) d) (link_view S l x d (ins_after y x))"
    by (rule represents_link [OF assms(1) xs(1)])
      (simp_all only: linked_no_change sp ins_after_split [OF sp(2)] list_insert_after_list [OF xs'(1) _ xs'(2)]
        list_insert_after_other [OF xs'(1)] link_owner_data not_False_eq_True)
  show "represents (list_insert_before h (Some l) (Some y) (Some x) d) (link_view S l x d (ins_before y x))"
    by (rule represents_link [OF assms(1) xs(1)])
      (simp_all only: linked_no_change sp ins_before_split [OF sp(2)] list_insert_before_list [OF xs'(1) _ xs'(2)]
        list_insert_before_other [OF xs'(1)] link_owner_data not_False_eq_True)
qed

lemma represents_unlink:
  assumes r: "represents h S" shows "represents (list_unlink h (Some x)) (unlink_view S x)"
proof (cases "le_list h x")
  case None
  then have "remove1 x ys = ys" if "fst S k = Some ys" for k ys
    using r that is_list_member [of h k ys x] by (simp add: represents_def remove1_idem)
  then have "unlink_view S x = S"
    by (auto simp: unlink_view_def prod_eq_iff fun_eq_iff map_option_case split: option.splits)
  with None r show ?thesis by simp
next
  case (Some l)
  with r obtain xs where xs: "fst S l = Some xs" "is_list h l xs"
    unfolding represents_def by (metis domD)
  from is_list_decomp [OF xs(2) Some] obtain as bs where sp: "xs = as @ x # bs" "x \<notin> set as" by metis
  have "is_list (list_unlink h (Some x)) k (remove1 x ys)" if k: "fst S k = Some ys" for k ys
  proof (cases "k = l")
    case True
    with k xs sp(1) have "ys = as @ x # bs" by simp
    with True list_unlink_list [of h l as x bs] xs(2) sp show ?thesis
      by (simp add: remove1_append del: list_unlink.simps)
  next
    case False
    have ks: "is_list h k ys" using r k by (simp add: represents_def)
    then have "x \<notin> set ys" using is_list_member [OF ks, of x] Some False by simp
    with list_unlink_other [OF xs(2) ks, of x] False sp(1) show ?thesis
      by (simp add: remove1_idem del: list_unlink.simps)
  qed
  moreover have "\<exists>ys. fst S k = Some ys" if "le_list (list_unlink h (Some x)) y = Some k" for y k
    using that r by (auto simp: list_unlink_owner represents_def simp del: list_unlink.simps split: if_splits)
  ultimately show ?thesis
    using r by (auto simp: represents_def unlink_view_def simp del: list_unlink.simps)
qed

lemma represents_move:
  assumes r: "represents h S" and k: "room_in S k"
  shows "represents (list_move h x (Some k)) (link_view (unlink_view S x) k x (snd S x) (\<lambda>xs. xs @ [x]))"
proof -
  have "room_in (unlink_view S x) k"
    using k by (auto simp: room_in_def unlink_view_def length_remove1 split: option.splits)
  moreover have "le_data h x = snd S x" using r by (simp add: represents_def)
  ultimately show ?thesis
    using represents_append [OF represents_unlink [OF r, of x], of k x "le_data h x"]
    by (simp add: list_move_def Let_def del: list_unlink.simps list_append.simps)
qed

lemma represents_step: "represents h S \<Longrightarrow> permitted S p \<Longrightarrow> represents (list_step h p) (view_step S p)"
  by (cases p)
    (simp_all del: list_unlink.simps list_append.simps list_prepend.simps list_insert_after.simps list_insert_before.simps
      add: represents_append represents_prepend represents_beside represents_unlink represents_move)

section \<open>Properties\<close>

text \<open>A store with two lists: head 0 holds 3, 1, 2 and head 9 holds 7; element 5 is free.\<close>

definition store312 :: store where
  "store312 =
     \<lparr>le_prev = Map.empty(1 \<mapsto> 3, 2 \<mapsto> 1), le_next = Map.empty(3 \<mapsto> 1, 1 \<mapsto> 2),
      le_list = Map.empty(1 \<mapsto> 0, 2 \<mapsto> 0, 3 \<mapsto> 0, 7 \<mapsto> 9),
      le_data = Map.empty(1 \<mapsto> 11, 2 \<mapsto> 12, 3 \<mapsto> 13),
      l_head = Map.empty(0 \<mapsto> 3, 9 \<mapsto> 7), l_tail = Map.empty(0 \<mapsto> 2, 9 \<mapsto> 7),
      l_cnt = (\<lambda>_. 0)(0 := 3, 9 := 1)\<rparr>"

lemma store312_lists: "is_list store312 0 [3, 1, 2]" "is_list store312 9 [7]" "le_list store312 5 = None"
  by (auto simp: is_list_def store312_def size_mod_def)

text \<open>C31: Linking and unlinking refine the operations on sequences. The lists of a program, any number
  of them and empty ones included, are represented by a store; after any sequence of append,
  prepend, insert before, insert after, unlink and move, the store represents the view that the
  same operations on sequences give: the element is at the named place of the named list with
  the data pointer given, or was left alone because it was in a list already, every other list
  keeps its sequence and every other element its data. The caller uses lists it has
  initialised, inserts next to elements of that list, and does not wrap the count.\<close>

theorem list_link_refines:
  assumes "represents h S" and "all_permitted S ps"
  shows "represents (foldl list_step h ps) (foldl view_step S ps)"
  using assms by (induction ps arbitrary: h S) (simp_all add: represents_step)

lemma store312_represents:
  "represents store312 ([0 \<mapsto> [3, 1, 2], 9 \<mapsto> [7], 4 \<mapsto> []], le_data store312)"
  using store312_lists by (auto simp: represents_def is_list_def store312_def split: if_splits)

theorem list_link_refines_witness:
  "is_list (foldl list_step store312
     [L_append 4 5 (Some 8), L_after 0 1 6 None, L_unlink 3, L_before 0 1 3 None, L_move 7 4]) 4 [5, 7]
   \<and> is_list (foldl list_step store312
     [L_append 4 5 (Some 8), L_after 0 1 6 None, L_unlink 3, L_before 0 1 3 None, L_move 7 4]) 0 [3, 1, 6, 2]"
proof -
  let ?S = "([0 \<mapsto> [3, 1, 2], 9 \<mapsto> [7], 4 \<mapsto> []], le_data store312) :: view"
  let ?ps = "[L_append 4 5 (Some 8), L_after 0 1 6 None, L_unlink 3, L_before 0 1 3 None, L_move 7 4]"
  have ev: "all_permitted ?S ?ps" "fst (foldl view_step ?S ?ps) 4 = Some [5, 7]"
    "fst (foldl view_step ?S ?ps) 0 = Some [3, 1, 6, 2]"
    by (simp_all add: link_view_def unlink_view_def linked_def room_in_def size_mod_def)
  from list_link_refines [OF store312_represents ev(1)] ev(2,3) show ?thesis
    unfolding represents_def by blast
qed

text \<open>Moving. \<open>list_move\<close> takes an element out of its list, keeping the order of the others, and
  makes it the last of the other list.\<close>

theorem list_move_refines:
  assumes "is_list h l (as @ x # bs)" and "is_list h k ys" and "l \<noteq> k" and "Suc (length ys) < size_mod"
  shows "is_list (list_move h x (Some k)) k (ys @ [x]) \<and> is_list (list_move h x (Some k)) l (as @ bs)"
  using ll.move_repr [OF assms] by (simp only: list_move_def Let_def)

theorem list_move_refines_witness:
  "is_list (list_move store312 1 (Some 9)) 9 [7, 1] \<and> is_list (list_move store312 1 (Some 9)) 0 [3, 2]"
  using list_move_refines [of store312 0 "[3]" 1 "[2]" 9 "[7]"] store312_lists by (simp add: size_mod_def)

text \<open>Sorting. For every sort handler that orders any two elements of the list and is transitive,
  \<open>list_sort\<close> returns, the list then holds the same elements in an order the handler accepts,
  and no element's data changes.\<close>

theorem list_sort_correct:
  assumes "is_list h l xs"
    and "\<forall>a \<in> set xs. \<forall>b \<in> set xs. a \<noteq> b \<longrightarrow> sh a b \<or> sh b a"
    and "\<forall>a \<in> set xs. \<forall>b \<in> set xs. \<forall>c \<in> set xs. sh a b \<longrightarrow> sh b c \<longrightarrow> sh a c"
  shows "\<exists>h' ys. list_sort h (Some l) (Some sh) = Some h' \<and> is_list h' l ys \<and> mset ys = mset xs
    \<and> sorted_wrt sh ys \<and> le_data h' = le_data h"
  using list_sort_loop_sorts [OF assms] by (simp add: list_sort_def)

theorem list_sort_correct_witness:
  "\<exists>h' ys. list_sort store312 (Some 0) (Some (\<le>)) = Some h' \<and> is_list h' 0 ys \<and> mset ys = mset [3, 1, 2]
    \<and> sorted_wrt (\<le>) ys \<and> le_data h' = le_data store312"
  by (rule list_sort_correct [OF store312_lists(1)]) auto

text \<open>Sorted insertion. \<open>list_insert_sorted\<close> returns, and into a list the handler accepts as sorted it
  inserts the element so that the list stays sorted, behind the last element that may precede
  it.\<close>

theorem list_insert_sorted_correct:
  assumes "is_list h l xs" and "le_list h x = None" and "Suc (length xs) < size_mod"
    and "sorted_wrt sh xs"
    and "\<forall>a \<in> set xs. sh a x \<or> sh x a"
    and "\<forall>a \<in> set xs. \<forall>b \<in> set xs. sh a b \<longrightarrow> sh b x \<longrightarrow> sh a x"
  shows "\<exists>h' as bs. list_insert_sorted h (Some l) (Some sh) x d = Some h' \<and> xs = as @ bs
    \<and> is_list h' l (as @ x # bs) \<and> sorted_wrt sh (as @ x # bs) \<and> (\<forall>b \<in> set bs. \<not> sh b x)"
proof -
  from list_insert_sorted_place [OF assms(1-3), of sh d] obtain h' as bs where
    p: "list_insert_sorted h (Some l) (Some sh) x d = Some h'" "xs = as @ bs" "is_list h' l (as @ x # bs)"
      "as = [] \<or> sh (last as) x" "\<forall>b \<in> set bs. \<not> sh b x"
    by blast
  have "\<forall>a \<in> set as. sh a x"
  proof (cases as rule: rev_cases)
    case (snoc as' z)
    then show ?thesis using p(2,4) assms(4,6) by (auto simp: sorted_wrt_append)
  qed simp
  then have "sorted_wrt sh (as @ x # bs)"
    using p(2,5) assms(4,5) by (auto simp: sorted_wrt_append)
  with p show ?thesis by blast
qed

theorem list_insert_sorted_correct_witness:
  "\<exists>h' as bs. list_insert_sorted store312 (Some 9) (Some (\<le>)) 5 None = Some h' \<and> [7] = as @ bs
    \<and> is_list h' 9 (as @ 5 # bs) \<and> sorted_wrt (\<le>) (as @ 5 # bs) \<and> (\<forall>b \<in> set bs. \<not> b \<le> 5)"
  by (rule list_insert_sorted_correct) (auto simp: store312_lists size_mod_def)

text \<open>Flushing and clearing. \<open>list_flush\<close> returns with the list empty, every element unlinked and its
  data pointer cleared, and each element's data handed to \<open>mem_deref\<close> exactly once, in list
  order.\<close>

theorem list_flush_correct:
  assumes "is_list h l xs"
  shows "\<exists>h'. list_flush h (Some l) = Some (h', map (le_data h) xs) \<and> is_list h' l []
    \<and> (\<forall>x \<in> set xs. le_list h' x = None \<and> le_data h' x = None)"
proof -
  from flush_loop_list [OF assms, of "[]"] obtain h' where
    h': "flush_loop h (first xs None) [] = Some (h', map (le_data h) xs)" "is_list h' l []"
      "\<forall>x \<in> set xs. le_list h' x = None \<and> le_data h' x = None"
    by auto
  moreover have "l_head h l = first xs None" using assms by (simp add: is_list_def)
  moreover have "is_list (list_init h' (Some l)) l []" using h'(2) by (simp add: is_list_def)
  ultimately show ?thesis by (simp add: list_flush_def)
qed

theorem list_flush_correct_witness:
  "\<exists>h'. list_flush store312 (Some 0) = Some (h', [Some 13, Some 11, Some 12]) \<and> is_list h' 0 []
    \<and> (\<forall>x \<in> set [3, 1, 2]. le_list h' x = None \<and> le_data h' x = None)"
  using list_flush_correct [OF store312_lists(1)] by (simp add: store312_def)

lemma list_clear_correct:
  assumes "is_list h l xs"
  shows "\<exists>h'. list_clear h (Some l) = Some h' \<and> is_list h' l [] \<and> (\<forall>x \<in> set xs. le_list h' x = None)"
proof -
  have "links (le_next h) xs None" "distinct xs" "l_head h l = first xs None"
    using assms by (auto simp: is_list_def)
  with clear_loop_list [of h xs] obtain h' where
    "clear_loop h (l_head h l) = Some h'" "\<forall>x. le_list h' x = (if x \<in> set xs then None else le_list h x)"
    by auto
  moreover from this have "is_list (list_init h' (Some l)) l []"
    using is_list_member [OF assms] by (simp add: is_list_def size_mod_def)
  ultimately show ?thesis by (simp add: list_clear_def)
qed

lemma list_apply_find:
  assumes "is_list h l xs"
  shows "list_apply h (Some l) True (Some (\<lambda>h x. (p x, h))) = Some (find p xs, h)"
    and "list_apply h (Some l) False (Some (\<lambda>h x. (p x, h))) = Some (find p (rev xs), h)"
  using assms apply_loop_find [of le_next h xs p] apply_loop_find [of le_prev h "rev xs" p]
  by (simp_all add: list_apply_def is_list_def)

end
