(* ===== verification/Base64.thy ===== *)
theory Base64
  imports Prelude
begin

text \<open>
  Base-64 of \<open>re/src/base64/b64.c\<close>. Characters are bytes. A call takes the input block
  and the capacity \<open>*olen\<close> of the output block, each an option for a NULL argument, and
  returns the error code and the output block: the bytes stored inside the capacity, and a
  flag that is set when a store \<open>*out++ = \<dots>\<close> falls outside it, where the C code writes to memory
  it does not own.
\<close>

record outblk =
  ob_bytes :: "byte list"
  ob_ub :: bool

definition ob_empty :: outblk where
  "ob_empty = \<lparr>ob_bytes = [], ob_ub = False\<rparr>"

text \<open>One store through \<open>out\<close> into a block of capacity \<open>n\<close>, and the stores of a loop in order.\<close>

definition put_byte :: "nat \<Rightarrow> byte \<Rightarrow> outblk \<Rightarrow> outblk" where
  "put_byte n b ob =
     (if length (ob_bytes ob) < n then ob\<lparr>ob_bytes := ob_bytes ob @ [b]\<rparr> else ob\<lparr>ob_ub := True\<rparr>)"

definition store_block :: "nat \<Rightarrow> byte list \<Rightarrow> outblk" where
  "store_block n bs = fold (put_byte n) bs ob_empty"

definition chr :: "char \<Rightarrow> byte" where
  "chr c = of_char c"

definition b64_table :: "byte list" where
  "b64_table = map chr ''ABCDEFGHIJKLMNOPQRSTUVWXYZabcdefghijklmnopqrstuvwxyz0123456789+/''"

definition b64url_table :: "byte list" where
  "b64url_table = map chr ''ABCDEFGHIJKLMNOPQRSTUVWXYZabcdefghijklmnopqrstuvwxyz0123456789-_''"

text \<open>\<open>tbl[v >> k & 0x3f]\<close>.\<close>

definition sextet :: "u32 \<Rightarrow> nat \<Rightarrow> nat" where
  "sextet v k = unat (drop_bit k v AND 0x3f)"

section \<open>Encoding\<close>

text \<open>The 24 bits assembled from one, two or three input bytes.\<close>

definition triple :: "byte \<Rightarrow> byte \<Rightarrow> byte \<Rightarrow> u32" where
  "triple a b c = push_bit 16 (ucast a) OR push_bit 8 (ucast b) OR push_bit 0 (ucast c)"

definition quad :: "u32 \<Rightarrow> nat \<Rightarrow> byte list" where
  "quad v pad =
     [b64_table ! sextet v 18, b64_table ! sextet v 12,
      if pad \<ge> 2 then chr CHR ''='' else b64_table ! sextet v 6,
      if pad \<ge> 1 then chr CHR ''='' else b64_table ! sextet v 0]"

fun encode_loop :: "byte list \<Rightarrow> byte list" where
  "encode_loop [] = []"
| "encode_loop [a] = quad (push_bit 16 (ucast a)) 2"
| "encode_loop [a, b] = quad (push_bit 16 (ucast a) OR push_bit 8 (ucast b)) 1"
| "encode_loop (a # b # c # r) = quad (triple a b c) 0 @ encode_loop r"

definition enc_size :: "nat \<Rightarrow> nat" where
  "enc_size ilen = (4 * (size_add ilen 2 div 3)) mod size_mod"

definition base64_encode :: "byte list option \<Rightarrow> nat option \<Rightarrow> errno option \<times> outblk" where
  "base64_encode inp olen =
     (case (inp, olen) of
        (Some bs, Some n) \<Rightarrow>
          if n < enc_size (length bs) then (Some EOVERFLOW, ob_empty) else (None, store_block n (encode_loop bs))
      | _ \<Rightarrow> (Some EINVAL, ob_empty))"

definition quad_url :: "u32 \<Rightarrow> nat \<Rightarrow> byte list" where
  "quad_url v pad =
     [b64url_table ! sextet v 18, b64url_table ! sextet v 12]
     @ (if pad < 2 then [b64url_table ! sextet v 6] else [])
     @ (if pad < 1 then [b64url_table ! sextet v 0] else [])"

fun encode_url_loop :: "byte list \<Rightarrow> byte list" where
  "encode_url_loop [] = []"
| "encode_url_loop [a] = quad_url (push_bit 16 (ucast a)) 2"
| "encode_url_loop [a, b] = quad_url (push_bit 16 (ucast a) OR push_bit 8 (ucast b)) 1"
| "encode_url_loop (a # b # c # r) = quad_url (triple a b c) 0 @ encode_url_loop r"

definition base64url_encode :: "byte list option \<Rightarrow> nat option \<Rightarrow> errno option \<times> outblk" where
  "base64url_encode inp olen =
     (case (inp, olen) of
        (Some bs, Some n) \<Rightarrow>
          if n < enc_size (length bs) then (Some EOVERFLOW, ob_empty) else (None, store_block n (encode_url_loop bs))
      | _ \<Rightarrow> (Some EINVAL, ob_empty))"

text \<open>
  \<open>base64_print\<close>: blocks of \<open>3 * (sizeof(buf) / 4)\<close> bytes, each encoded into the local
  buffer of 256 bytes and passed to the print handler \<open>vph\<close> with its state; the first error
  ends the loop.
\<close>

function print_loop :: "('s \<Rightarrow> byte list \<Rightarrow> errno option \<times> 's) \<Rightarrow> 's \<Rightarrow> byte list \<Rightarrow> errno option \<times> 's" where
  "print_loop vph s bs =
     (if bs = [] then (None, s)
      else
        (let l = min (length bs) (3 * (256 div 4)) in
         case base64_encode (Some (take l bs)) (Some 256) of
           (Some err, _) \<Rightarrow> (Some err, s)
         | (None, buf) \<Rightarrow>
             (case vph s (ob_bytes buf) of
                (Some err, s') \<Rightarrow> (Some err, s')
              | (None, s') \<Rightarrow> print_loop vph s' (drop l bs))))"
  by pat_completeness auto
termination
  by (relation "measure (\<lambda>(vph, s, bs). length bs)") auto

definition base64_print ::
  "('s \<Rightarrow> byte list \<Rightarrow> errno option \<times> 's) option \<Rightarrow> 's \<Rightarrow> byte list option \<Rightarrow> errno option \<times> 's" where
  "base64_print pf s ptr =
     (case (pf, ptr) of (Some vph, Some bs) \<Rightarrow> print_loop vph s bs | _ \<Rightarrow> (Some EINVAL, s))"

section \<open>Decoding\<close>

definition b64val :: "byte \<Rightarrow> u32" where
  "b64val c =
     (if chr CHR ''A'' \<le> c \<and> c \<le> chr CHR ''Z'' then ucast (c - chr CHR ''A'' + 0)
      else if chr CHR ''a'' \<le> c \<and> c \<le> chr CHR ''z'' then ucast (c - chr CHR ''a'' + 26)
      else if chr CHR ''0'' \<le> c \<and> c \<le> chr CHR ''9'' then ucast (c - chr CHR ''0'' + 52)
      else if c = chr CHR ''+'' \<or> c = chr CHR ''-'' then 62
      else if c = chr CHR ''/'' \<or> c = chr CHR ''_'' then 63
      else if c = chr CHR ''='' then push_bit 24 1
      else 0)"

definition emit :: "u32 \<Rightarrow> byte list" where
  "emit v =
     [ucast (drop_bit 16 v)]
     @ (if v AND push_bit 30 1 = 0 then [ucast (drop_bit 8 v AND 0xff)] else [])
     @ (if v AND push_bit 24 1 = 0 then [ucast (drop_bit 0 v AND 0xff)] else [])"

fun decode_loop :: "byte list \<Rightarrow> byte list" where
  "decode_loop (c0 # c1 # c2 # c3 # r) =
     emit (push_bit 18 (b64val c0) OR push_bit 12 (b64val c1) OR push_bit 6 (b64val c2)
           OR push_bit 0 (b64val c3)) @ decode_loop r"
| "decode_loop [c0, c1, c2] =
     emit (push_bit 18 (b64val c0) OR push_bit 12 (b64val c1) OR push_bit 6 (b64val c2)
           OR push_bit 0 (push_bit 24 1))"
| "decode_loop [c0, c1] =
     emit (push_bit 18 (b64val c0) OR push_bit 12 (b64val c1) OR push_bit 6 (push_bit 24 1)
           OR push_bit 0 (push_bit 24 1))"
| "decode_loop _ = []"

definition base64_decode :: "byte list option \<Rightarrow> nat option \<Rightarrow> errno option \<times> outblk" where
  "base64_decode inp olen =
     (case (inp, olen) of
        (Some s, Some n) \<Rightarrow>
          if n < 3 * (length s div 4) then (Some EOVERFLOW, ob_empty) else (None, store_block n (decode_loop s))
      | _ \<Rightarrow> (Some EINVAL, ob_empty))"

section \<open>The alphabet\<close>

lemma all_less_64: "(\<forall>n < (64::nat). P n) \<longleftrightarrow> list_all P [0..<64]"
  by (auto simp: list_all_iff)

lemma b64val_table: "\<forall>n < 64. b64val (b64_table ! n) = of_nat n"
  unfolding all_less_64 by code_simp

lemma b64val_url_table: "\<forall>n < 64. b64val (b64url_table ! n) = of_nat n"
  unfolding all_less_64 by code_simp

lemma b64val_pad: "b64val (chr CHR ''='') = push_bit 24 1"
  by code_simp

section \<open>Bits of a group\<close>

lemma mask63: "(0x3f :: u32) = mask 6" by (simp add: mask_eq_exp_minus_1)
lemma mask255: "(0xff :: u32) = mask 8" by (simp add: mask_eq_exp_minus_1)

lemma sextet_less [simp]: "sextet v k < 64"
proof -
  have "drop_bit k v AND 0x3f \<le> (0x3f :: u32)" by (rule word_and_le1)
  then show ?thesis by (simp add: sextet_def word_le_nat_alt)
qed

lemma of_nat_sextet: "of_nat (sextet v k) = drop_bit k v AND mask 6"
  by (simp add: sextet_def mask63)

lemma join4:
  "push_bit 18 (drop_bit 18 v AND mask 6) OR push_bit 12 (drop_bit 12 v AND mask 6)
   OR push_bit 6 (drop_bit 6 v AND mask 6) OR (v AND mask 6) = (v AND mask 24 :: u32)"
proof (rule bit_word_eqI)
  fix n
  show "bit (push_bit 18 (drop_bit 18 v AND mask 6) OR push_bit 12 (drop_bit 12 v AND mask 6)
   OR push_bit 6 (drop_bit 6 v AND mask 6) OR (v AND mask 6)) n = bit (v AND mask 24) n"
    by (cases "n < 6"; cases "n < 12"; cases "n < 18") (auto simp: bit_simps)
qed

lemma emit_bits:
  "emit v = [ucast (drop_bit 16 v)] @ (if bit v 30 then [] else [ucast (drop_bit 8 v AND 0xff)])
     @ (if bit v 24 then [] else [ucast (v AND 0xff)])"
  unfolding emit_def bit_iff_and_push_bit_not_eq_0 by simp

lemma triple_bytes:
  "ucast (drop_bit 16 (triple a b c AND mask 24)) = a"
  "ucast (drop_bit 8 (triple a b c AND mask 24) AND 0xff) = b"
  "ucast ((triple a b c AND mask 24) AND 0xff) = c"
  by (rule bit_word_eqI, auto simp: triple_def mask255 bit_simps dest: bit_imp_le_length)+

text \<open>The padding marks are bits above the 24 data bits.\<close>

lemma emit_or_flags:
  assumes "\<And>n. n < 24 \<Longrightarrow> \<not> bit f n"
  shows "emit ((triple a b c AND mask 24) OR f) =
    [a] @ (if bit f 30 then [] else [b]) @ (if bit f 24 then [] else [c])"
proof -
  let ?u = "triple a b c AND mask 24"
  have "ucast (drop_bit 16 (?u OR f)) = (ucast (drop_bit 16 ?u) :: byte)"
    "ucast (drop_bit 8 (?u OR f) AND 0xff) = (ucast (drop_bit 8 ?u AND 0xff) :: byte)"
    "ucast ((?u OR f) AND 0xff) = (ucast (?u AND 0xff) :: byte)"
    by (rule bit_word_eqI, auto simp: bit_simps mask255 assms)+
  moreover have "bit (?u OR f) 30 = bit f 30" "bit (?u OR f) 24 = bit f 24"
    by (auto simp: bit_simps)
  ultimately show ?thesis unfolding emit_bits by (simp only: triple_bytes)
qed

lemma flag_bits:
  "n < 24 \<Longrightarrow> \<not> bit (push_bit 24 1 :: u32) n" "n < 24 \<Longrightarrow> \<not> bit (push_bit 6 (push_bit 24 1) OR push_bit 24 1 :: u32) n"
  "bit (push_bit 24 1 :: u32) 24" "\<not> bit (push_bit 24 1 :: u32) 30"
  "bit (push_bit 6 (push_bit 24 1) OR push_bit 24 1 :: u32) 24" "bit (push_bit 6 (push_bit 24 1) OR push_bit 24 1 :: u32) 30"
  by (simp_all only: bit_push_bit_iff bit_or_iff push_bit_push_bit) (auto simp: bit_1_iff)

lemma triple_no_c: "triple a b 0 = push_bit 16 (ucast a) OR push_bit 8 (ucast b)"
  "triple a 0 0 = push_bit 16 (ucast a)"
  by (simp_all add: triple_def)

lemma triple_low: "triple a b 0 AND mask 6 = 0" "drop_bit 6 (triple a 0 0) AND mask 6 = 0"
  by (rule bit_word_eqI, auto simp: triple_def bit_simps)+

lemma encode_length: "length (encode_loop bs) = 4 * ((length bs + 2) div 3)"
proof (induction bs rule: encode_loop.induct)
  case (4 a b c r)
  have "(length r + 5) div 3 = Suc ((length r + 2) div 3)" by presburger
  with 4 show ?case by (simp add: quad_def add.commute)
qed (simp_all add: quad_def)

lemma decode_quad:
  assumes "\<And>n. n < 64 \<Longrightarrow> b64val (tbl ! n) = of_nat n"
  shows "decode_loop (tbl ! sextet v 18 # tbl ! sextet v 12 # tbl ! sextet v 6 # tbl ! sextet v 0 # r)
    = emit (v AND mask 24) @ decode_loop r"
proof -
  have s: "b64val (tbl ! sextet v k) = drop_bit k v AND mask 6" for k
    using assms [of "sextet v k"] by (simp add: of_nat_sextet)
  have "push_bit 18 (b64val (tbl ! sextet v 18)) OR push_bit 12 (b64val (tbl ! sextet v 12))
    OR push_bit 6 (b64val (tbl ! sextet v 6)) OR push_bit 0 (b64val (tbl ! sextet v 0)) = v AND mask 24"
    unfolding s join4 [of v, symmetric] by simp
  then show ?thesis by (simp only: decode_loop.simps)
qed

definition good_table :: "byte list \<Rightarrow> bool" where
  "good_table tbl \<longleftrightarrow> (\<forall>n < 64. b64val (tbl ! n) = of_nat n)"

lemma good_tables: "good_table b64_table" "good_table b64url_table"
  using b64val_table b64val_url_table by (simp_all add: good_table_def)

lemma b64val_sextet: "good_table tbl \<Longrightarrow> b64val (tbl ! sextet v k) = drop_bit k v AND mask 6"
  by (simp add: good_table_def of_nat_sextet)

lemma decode_pad1:
  assumes "good_table tbl"
  shows "push_bit 18 (b64val (tbl ! sextet (triple a b 0) 18)) OR push_bit 12 (b64val (tbl ! sextet (triple a b 0) 12))
    OR push_bit 6 (b64val (tbl ! sextet (triple a b 0) 6)) OR push_bit 0 (push_bit 24 1)
    = (triple a b 0 AND mask 24) OR push_bit 24 1"
  unfolding b64val_sextet [OF assms] join4 [of "triple a b 0", symmetric] triple_low(1)
  by (simp add: or.assoc)

lemma decode_pad2:
  assumes "good_table tbl"
  shows "push_bit 18 (b64val (tbl ! sextet (triple a 0 0) 18)) OR push_bit 12 (b64val (tbl ! sextet (triple a 0 0) 12))
    OR push_bit 6 (push_bit 24 1) OR push_bit 0 (push_bit 24 1)
    = (triple a 0 0 AND mask 24) OR (push_bit 6 (push_bit 24 1) OR push_bit 24 1)"
  unfolding b64val_sextet [OF assms] join4 [of "triple a 0 0", symmetric] triple_low
  by (simp add: or.assoc)

lemma emit_pads:
  "emit (triple a b c AND mask 24) = [a, b, c]"
  "emit ((triple a b c AND mask 24) OR push_bit 24 1) = [a, b]"
  "emit ((triple a b c AND mask 24) OR (push_bit 6 (push_bit 24 1) OR push_bit 24 1)) = [a]"
  using emit_or_flags [of 0 a b c] emit_or_flags [OF flag_bits(1), of a b c]
    emit_or_flags [OF flag_bits(2), of a b c]
  by (simp_all only: flag_bits if_True if_False append_Cons append_Nil) simp

lemma decode_encode: "decode_loop (encode_loop bs) = bs"
proof (induction bs rule: encode_loop.induct)
  case (2 a)
  have "encode_loop [a] = [b64_table ! sextet (triple a 0 0) 18, b64_table ! sextet (triple a 0 0) 12,
      chr CHR ''='', chr CHR ''='']"
    by (simp add: triple_no_c quad_def)
  then show ?case
    by (simp only: decode_loop.simps b64val_pad decode_pad2 [OF good_tables(1)] emit_pads append_Nil2)
next
  case (3 a b)
  have "encode_loop [a, b] = [b64_table ! sextet (triple a b 0) 18, b64_table ! sextet (triple a b 0) 12,
      b64_table ! sextet (triple a b 0) 6, chr CHR ''='']"
    by (simp add: triple_no_c quad_def)
  then show ?case
    by (simp only: decode_loop.simps b64val_pad decode_pad1 [OF good_tables(1)] emit_pads append_Nil2)
next
  case (4 a b c r)
  then show ?case
    using decode_quad [of b64_table "triple a b c"] b64val_table
    by (simp add: quad_def emit_pads del: decode_loop.simps)
qed simp

lemma decode_encode_url: "decode_loop (encode_url_loop bs) = bs"
proof (induction bs rule: encode_url_loop.induct)
  case (2 a)
  have "encode_url_loop [a] = [b64url_table ! sextet (triple a 0 0) 18, b64url_table ! sextet (triple a 0 0) 12]"
    by (simp add: triple_no_c quad_url_def)
  then show ?case
    by (simp only: decode_loop.simps decode_pad2 [OF good_tables(2)] emit_pads append_Nil2)
next
  case (3 a b)
  have "encode_url_loop [a, b] = [b64url_table ! sextet (triple a b 0) 18, b64url_table ! sextet (triple a b 0) 12,
      b64url_table ! sextet (triple a b 0) 6]"
    by (simp add: triple_no_c quad_url_def)
  then show ?case
    by (simp only: decode_loop.simps decode_pad1 [OF good_tables(2)] emit_pads append_Nil2)
next
  case (4 a b c r)
  then show ?case
    using decode_quad [of b64url_table "triple a b c"] b64val_url_table
    by (simp add: quad_url_def emit_pads del: decode_loop.simps)
qed simp


section \<open>Sizes\<close>

lemma enc_size_no_wrap:
  assumes "4 * ((n + 2) div 3) < size_mod" shows "enc_size n = 4 * ((n + 2) div 3)"
proof -
  have "n + 2 < size_mod" using assms by (simp add: size_mod_def)
  then show ?thesis using assms by (simp add: enc_size_def)
qed

text \<open>The stores of a loop: what fits is stored, and the first byte that does not sets the flag.\<close>

lemma fold_put_byte:
  "length (ob_bytes ob) \<le> n \<Longrightarrow>
   fold (put_byte n) bs ob = \<lparr>ob_bytes = ob_bytes ob @ take (n - length (ob_bytes ob)) bs,
     ob_ub = (ob_ub ob \<or> n < length (ob_bytes ob) + length bs)\<rparr>"
proof (induction bs arbitrary: ob)
  case (Cons b bs)
  show ?case
  proof (cases "length (ob_bytes ob) < n")
    case True
    then have "length (ob_bytes (put_byte n b ob)) \<le> n" by (simp add: put_byte_def)
    from Cons.IH [OF this] True show ?thesis
      by (simp add: put_byte_def take_Cons' Suc_diff_Suc)
  next
    case False
    with Cons.prems have "length (ob_bytes (put_byte n b ob)) \<le> n" by (simp add: put_byte_def)
    from Cons.IH [OF this] Cons.prems False show ?thesis by (simp add: put_byte_def)
  qed
qed simp

lemma store_block_eq: "store_block n bs = \<lparr>ob_bytes = take n bs, ob_ub = (n < length bs)\<rparr>"
  by (simp add: store_block_def fold_put_byte ob_empty_def)

lemma encode_url_length: "length (encode_url_loop bs) \<le> 4 * ((length bs + 2) div 3)"
proof (induction bs rule: encode_url_loop.induct)
  case (4 a b c r)
  have "(length r + 5) div 3 = Suc ((length r + 2) div 3)" by presburger
  with 4 show ?case by (simp add: quad_url_def add.commute)
qed (simp_all add: quad_url_def)

text \<open>A group of four characters decodes to at most three bytes, an incomplete one to one or two.\<close>

lemma emit_length: "length (emit v) \<le> 3" "1 \<le> length (emit v)"
  by (simp_all add: emit_def)

lemma decode_length: "length (decode_loop s) \<le> 3 * (length s div 4) + (length s mod 4 - 1)"
proof (induction s rule: decode_loop.induct)
  case (1 c0 c1 c2 c3 r)
  let ?v = "push_bit 18 (b64val c0) OR push_bit 12 (b64val c1) OR push_bit 6 (b64val c2) OR push_bit 0 (b64val c3)"
  have "length (c0 # c1 # c2 # c3 # r) div 4 = Suc (length r div 4)"
    "length (c0 # c1 # c2 # c3 # r) mod 4 = length r mod 4"
    by simp_all
  moreover have "decode_loop (c0 # c1 # c2 # c3 # r) = emit ?v @ decode_loop r" by (simp only: decode_loop.simps)
  moreover have "length (emit ?v @ decode_loop r) \<le> 3 + (3 * (length r div 4) + (length r mod 4 - 1))"
    using 1 emit_length(1) [of ?v] by simp
  ultimately show ?case by (simp only: mult_Suc_right add.assoc)
next
  case (2 c0 c1 c2)
  let ?v = "push_bit 18 (b64val c0) OR push_bit 12 (b64val c1) OR push_bit 6 (b64val c2) OR push_bit 0 (push_bit 24 1)"
  have "bit ?v 24" using flag_bits(3) by (simp only: bit_or_iff push_bit_0_id id_def) simp
  then have "length (emit ?v) \<le> 2" unfolding emit_bits by simp
  then show ?case by (simp only: decode_loop.simps) simp
next
  case (3 c0 c1)
  let ?v = "push_bit 18 (b64val c0) OR push_bit 12 (b64val c1) OR push_bit 6 (push_bit 24 1) OR push_bit 0 (push_bit 24 1)"
  have "bit ?v 24" "bit ?v 30" using flag_bits(5,6) by (simp_all only: bit_or_iff push_bit_0_id id_def) auto
  then have "length (emit ?v) \<le> 1" unfolding emit_bits by simp
  then show ?case by (simp only: decode_loop.simps) simp
qed simp_all


section \<open>Properties\<close>

lemma encode_url_groups: "length (encode_url_loop bs) div 4 = length bs div 3"
proof (induction bs rule: encode_url_loop.induct)
  case (4 a b c r)
  have "(4 + length (encode_url_loop r)) div 4 = Suc (length (encode_url_loop r) div 4)"
    "Suc (Suc (Suc (length r))) div 3 = Suc (length r div 3)" by simp_all
  with 4 show ?case by (simp add: quad_url_def)
qed (simp_all add: quad_url_def)

lemma encoders_store:
  assumes "4 * ((length bs + 2) div 3) < size_mod"
  shows "base64_encode (Some bs) (Some n) =
      (if n < 4 * ((length bs + 2) div 3) then (Some EOVERFLOW, ob_empty)
       else (None, \<lparr>ob_bytes = encode_loop bs, ob_ub = False\<rparr>))"
    and "base64url_encode (Some bs) (Some n) =
      (if n < 4 * ((length bs + 2) div 3) then (Some EOVERFLOW, ob_empty)
       else (None, \<lparr>ob_bytes = encode_url_loop bs, ob_ub = False\<rparr>))"
  using enc_size_no_wrap [OF assms] encode_length [of bs] encode_url_length [of bs]
  by (simp_all add: base64_encode_def base64url_encode_def store_block_eq)

text \<open>C33: Round trip, for an input whose encoded size fits in \<open>size_t\<close>. The encoders of the
  standard and of the URL alphabet return EOVERFLOW when the block offered is smaller than four
  characters per started group of three bytes; otherwise they succeed inside it, and
  \<open>base64_decode\<close> of the characters into a block of capacity \<open>m\<close>, which it accepts when \<open>m\<close> is at
  least three bytes per complete group of four characters, gives back exactly the input when \<open>m\<close>
  has room for it. With padding an accepted capacity always has that room. The unpadded URL form
  is accepted with less: the bytes that do not fit are then stored outside the block.\<close>

theorem base64_roundtrip:
  assumes "4 * ((length bs + 2) div 3) < size_mod"
  shows "base64_encode (Some bs) (Some n) =
      (if n < 4 * ((length bs + 2) div 3) then (Some EOVERFLOW, ob_empty)
       else (None, \<lparr>ob_bytes = encode_loop bs, ob_ub = False\<rparr>))
    \<and> base64_decode (Some (encode_loop bs)) (Some m) =
      (if m < 3 * ((length bs + 2) div 3) then (Some EOVERFLOW, ob_empty)
       else (None, \<lparr>ob_bytes = bs, ob_ub = False\<rparr>))
    \<and> base64url_encode (Some bs) (Some n) =
      (if n < 4 * ((length bs + 2) div 3) then (Some EOVERFLOW, ob_empty)
       else (None, \<lparr>ob_bytes = encode_url_loop bs, ob_ub = False\<rparr>))
    \<and> base64_decode (Some (encode_url_loop bs)) (Some m) =
      (if m < 3 * (length bs div 3) then (Some EOVERFLOW, ob_empty)
       else if length bs \<le> m then (None, \<lparr>ob_bytes = bs, ob_ub = False\<rparr>)
       else (None, \<lparr>ob_bytes = take m bs, ob_ub = True\<rparr>))"
proof -
  have "length bs \<le> 3 * ((length bs + 2) div 3)" "3 * (length bs div 3) \<le> length bs" by presburger+
  then show ?thesis
    by (auto simp: encoders_store [OF assms] base64_decode_def decode_encode decode_encode_url
        store_block_eq encode_length encode_url_groups)
qed

theorem base64_roundtrip_witness:
  "base64_decode (Some (ob_bytes (snd (base64_encode (Some [1, 2, 250, 7]) (Some 8))))) (Some 6)
     = (None, \<lparr>ob_bytes = [1, 2, 250, 7], ob_ub = False\<rparr>)
   \<and> base64_decode (Some (ob_bytes (snd (base64url_encode (Some [1, 2, 250, 7]) (Some 8))))) (Some 4)
     = (None, \<lparr>ob_bytes = [1, 2, 250, 7], ob_ub = False\<rparr>)
   \<and> base64_decode (Some (ob_bytes (snd (base64url_encode (Some [1, 2, 250, 7]) (Some 8))))) (Some 3)
     = (None, \<lparr>ob_bytes = [1, 2, 250], ob_ub = True\<rparr>)"
  using base64_roundtrip [of "[1, 2, 250, 7]" 8 6] base64_roundtrip [of "[1, 2, 250, 7]" 8 4]
    base64_roundtrip [of "[1, 2, 250, 7]" 8 3]
  by (simp add: size_mod_def del: encode_loop.simps encode_url_loop.simps)

text \<open>\<open>base64_decode\<close> of any characters checks the capacity against three bytes per complete group
  of four. An input whose length is a multiple of four, or one more, is decoded inside the
  output block; only one with two or three characters after the last complete group can be
  accepted with a capacity that its bytes exceed, by at most two.\<close>

theorem base64_decode_bounds:
  "(length s mod 4 \<le> 1 \<longrightarrow> \<not> ob_ub (snd (base64_decode (Some s) (Some n))))
    \<and> (n < 3 * (length s div 4) \<longrightarrow> base64_decode (Some s) (Some n) = (Some EOVERFLOW, ob_empty))
    \<and> (3 * (length s div 4) + (length s mod 4 - 1) \<le> n \<longrightarrow>
        base64_decode (Some s) (Some n) = (None, \<lparr>ob_bytes = decode_loop s, ob_ub = False\<rparr>))"
  using decode_length [of s] by (auto simp: base64_decode_def store_block_eq ob_empty_def)

lemma encode_loop_append: "length xs mod 3 = 0 \<Longrightarrow> encode_loop (xs @ ys) = encode_loop xs @ encode_loop ys"
  by (induction xs rule: encode_loop.induct) auto

text \<open>Printing in blocks is the same as encoding at once: with a handler that collects its input,
  \<open>base64_print\<close> succeeds and hands out exactly the encoding of the whole block, however long.\<close>

theorem base64_print_encodes:
  "base64_print (Some (\<lambda>out buf. (None, out @ buf))) out (Some bs) = (None, out @ encode_loop bs)"
proof -
  have "print_loop (\<lambda>out buf. (None, out @ buf)) out bs = (None, out @ encode_loop bs)"
  proof (induction "length bs" arbitrary: bs out rule: less_induct)
    case less
    let ?l = "min (length bs) 192"
    have enc: "base64_encode (Some (take ?l bs)) (Some 256)
        = (None, \<lparr>ob_bytes = encode_loop (take ?l bs), ob_ub = False\<rparr>)"
    proof -
      have "4 * ((?l + 2) div 3) \<le> 256" by (simp add: min_def) presburger
      then show ?thesis
        using encoders_store(1) [of "take ?l bs" 256] by (simp add: size_mod_def)
    qed
    show ?case
    proof (cases "bs = []")
      case True
      then show ?thesis by (subst print_loop.simps) simp
    next
      case False
      have "print_loop (\<lambda>out buf. (None, out @ buf)) (out @ encode_loop (take ?l bs)) (drop ?l bs)
          = (None, (out @ encode_loop (take ?l bs)) @ encode_loop (drop ?l bs))"
        using False by (intro less.hyps) (simp add: min_def)
      moreover have "encode_loop (take ?l bs) @ encode_loop (drop ?l bs) = encode_loop bs"
      proof (cases "length bs \<le> 192")
        case False
        then show ?thesis using encode_loop_append [of "take 192 bs" "drop 192 bs"] by simp
      qed simp
      ultimately show ?thesis
        using False enc by (subst print_loop.simps) (simp add: Let_def del: print_loop.simps)
    qed
  qed
  then show ?thesis by (simp add: base64_print_def)
qed

end
