(* ===== verification/Srtp_Replay.thy ===== *)
theory Srtp_Replay
  imports Prelude
begin

text \<open>
  SRTP replay protection, \<open>re/src/srtp/replay.c\<close>: a 64-bit bitmap of the packet indices up
  to \<open>lix\<close>, the highest one accepted. The locale \<open>replay_guard\<close> is what the SRTP session
  relies on: an accepted index was never accepted before.
\<close>

record replay =
  bitmap :: u64
  lix :: u64

definition SRTP_WINDOW_SIZE :: nat where
  "SRTP_WINDOW_SIZE = 64"

definition srtp_replay_init :: "replay \<Rightarrow> replay" where
  "srtp_replay_init r = r\<lparr>bitmap := 0, lix := 0\<rparr>"

text \<open>True if the packet is permitted; a NULL state permits none.\<close>

fun srtp_replay_check :: "replay option \<Rightarrow> u64 \<Rightarrow> bool \<times> replay option" where
  "srtp_replay_check None ix = (False, None)"
| "srtp_replay_check (Some r) ix =
     (if ix > lix r then
        (let diff = ix - lix r;
             bm = (if unat diff < SRTP_WINDOW_SIZE then push_bit (unat diff) (bitmap r) OR 1 else 1)
         in (True, Some (r\<lparr>bitmap := bm, lix := ix\<rparr>)))
      else
        (let diff = lix r - ix
         in if unat diff \<ge> SRTP_WINDOW_SIZE then (False, Some r)
            else if bitmap r AND push_bit (unat diff) 1 \<noteq> 0 then (False, Some r)
            else (True, Some (r\<lparr>bitmap := bitmap r OR push_bit (unat diff) 1\<rparr>))))"

section \<open>The contract\<close>

text \<open>The indices accepted along a run of checks.\<close>

fun accepted :: "('s \<Rightarrow> 'i \<Rightarrow> bool \<times> 's) \<Rightarrow> 's \<Rightarrow> 'i list \<Rightarrow> 'i list" where
  "accepted check s [] = []"
| "accepted check s (x # xs) = (case check s x of (ok, t) \<Rightarrow> (if ok then [x] else []) @ accepted check t xs)"

locale replay_guard =
  fixes init :: 's
    and check :: "'s \<Rightarrow> 'i \<Rightarrow> bool \<times> 's"
    and rel :: "'s \<Rightarrow> 'i set \<Rightarrow> bool"
  assumes rel_init: "rel init {}"
    and accept: "rel s S \<Longrightarrow> check s i = (True, t) \<Longrightarrow> i \<notin> S \<and> rel t (insert i S)"
    and reject: "rel s S \<Longrightarrow> check s i = (False, t) \<Longrightarrow> rel t S"
begin

lemma accepted_fresh: "rel s S \<Longrightarrow> distinct (accepted check s xs) \<and> set (accepted check s xs) \<inter> S = {}"
proof (induction xs arbitrary: s S)
  case (Cons x xs)
  obtain ok t where c: "check s x = (ok, t)" by (cases "check s x")
  show ?case
  proof (cases ok)
    case True
    with accept [OF Cons.prems] c have "x \<notin> S" "rel t (insert x S)" by auto
    with Cons.IH [of t "insert x S"] c True show ?thesis by auto
  next
    case False
    with reject [OF Cons.prems] c have "rel t S" by auto
    with Cons.IH [of t S] c False show ?thesis by auto
  qed
qed simp

end

section \<open>The bitmap implements it\<close>

text \<open>Bit \<open>d\<close> stands for index \<open>lix - d\<close>; every accepted index is at most \<open>lix\<close>.\<close>

definition replay_rel :: "replay option \<Rightarrow> u64 set \<Rightarrow> bool" where
  "replay_rel p S \<longleftrightarrow>
     (\<exists>r. p = Some r \<and> (\<forall>i \<in> S. i \<le> lix r)
        \<and> (\<forall>d < 64. bit (bitmap r) d \<longleftrightarrow> d \<le> unat (lix r) \<and> lix r - of_nat d \<in> S))"

definition replay0 :: replay where
  "replay0 = \<lparr>bitmap = 0, lix = 0\<rparr>"

lemma replay_rel_init: "replay_rel (Some (srtp_replay_init r)) {}"
  by (simp add: replay_rel_def srtp_replay_init_def)

lemma unat_of_nat_64: "d < 64 \<Longrightarrow> unat (of_nat d :: u64) = d"
  by (simp add: unat_of_nat)

lemma index_sub:
  fixes i l :: u64
  assumes "i \<le> l" and "d < 64" and "d \<le> unat l"
  shows "l - of_nat d = i \<longleftrightarrow> unat (l - i) = d"
proof -
  have "unat (l - i) = unat l - unat i" using assms(1) by (simp add: unat_sub)
  moreover have "unat (l - of_nat d) = unat l - d"
    using assms(2,3) by (subst unat_sub) (simp_all add: word_le_nat_alt unat_of_nat_64)
  moreover have "unat i \<le> unat l" using assms(1) by (simp add: word_le_nat_alt)
  ultimately show ?thesis using assms(3) by (auto simp: word_unat_eq_iff)
qed

lemma replay_rel_accept_new:
  assumes rel: "replay_rel (Some r) S" and new: "ix > lix r"
  shows "ix \<notin> S \<and> replay_rel (snd (srtp_replay_check (Some r) ix)) (insert ix S)"
proof -
  let ?n = "unat (ix - lix r)"
  let ?bm = "if ?n < 64 then push_bit ?n (bitmap r) OR 1 else 1"
  have le: "\<forall>i \<in> S. i \<le> lix r" and bits: "\<And>d. d < 64 \<Longrightarrow> bit (bitmap r) d \<longleftrightarrow> d \<le> unat (lix r) \<and> lix r - of_nat d \<in> S"
    using rel by (auto simp: replay_rel_def)
  have "lix r \<le> ix" using new by simp
  then have n: "?n = unat ix - unat (lix r)" "unat (lix r) < unat ix" "0 < ?n"
    using new unat_sub [of "lix r" ix] by (auto simp: word_less_nat_alt)
  have "ix \<notin> S" using le new by auto
  moreover have "bit ?bm d \<longleftrightarrow> d \<le> unat ix \<and> ix - of_nat d \<in> insert ix S" if d: "d < 64" for d
  proof (cases "d = 0")
    case True
    then show ?thesis by (simp add: bit_simps)
  next
    case False
    have "(of_nat d :: u64) \<noteq> 0" using False d unat_of_nat_64 [OF d] by (metis unat_0)
    then have other: "ix - of_nat d \<in> insert ix S \<longleftrightarrow> ix - of_nat d \<in> S" by simp
    have bm: "bit ?bm d \<longleftrightarrow> ?n \<le> d \<and> bit (bitmap r) (d - ?n)"
      using False d by (auto simp: bit_simps)
    show ?thesis
    proof (cases "?n \<le> d")
      case True
      have "of_nat d = (of_nat (d - ?n) :: u64) + of_nat ?n"
        using True by (simp flip: of_nat_add)
      then have "of_nat d = (of_nat (d - ?n) :: u64) + (ix - lix r)" by simp
      then have same: "ix - of_nat d = lix r - of_nat (d - ?n)" by simp
      have "d - ?n \<le> unat (lix r) \<longleftrightarrow> d \<le> unat ix" using n True by linarith
      moreover have "d - ?n < 64" using d by simp
      ultimately have "bit ?bm d \<longleftrightarrow> d \<le> unat ix \<and> ix - of_nat d \<in> S"
        unfolding bm same using True bits [of "d - ?n"] by simp
      then show ?thesis by (simp only: other)
    next
      case False
      have "ix - of_nat d \<notin> S" if "d \<le> unat ix"
      proof -
        have "unat (ix - of_nat d) = unat ix - d"
          using d that by (subst unat_sub) (simp_all add: word_le_nat_alt unat_of_nat_64)
        then have "lix r < ix - of_nat d" using False n by (simp add: word_less_nat_alt)
        then show ?thesis using le by auto
      qed
      then show ?thesis unfolding bm other using False by blast
    qed
  qed
  moreover have "\<forall>i \<in> insert ix S. i \<le> ix" using le new by auto
  ultimately show ?thesis using new
    by (simp add: replay_rel_def SRTP_WINDOW_SIZE_def Let_def)
qed

lemma replay_rel_old:
  assumes rel: "replay_rel (Some r) S" and old: "\<not> ix > lix r" and win: "unat (lix r - ix) < 64"
  shows "(bitmap r AND push_bit (unat (lix r - ix)) 1 \<noteq> 0) = (ix \<in> S)"
    and "replay_rel (Some (r\<lparr>bitmap := bitmap r OR push_bit (unat (lix r - ix)) 1\<rparr>)) (insert ix S)"
proof -
  let ?n = "unat (lix r - ix)"
  have ix: "ix \<le> lix r" using old by simp
  have le: "\<forall>i \<in> S. i \<le> lix r" and bits: "\<And>d. d < 64 \<Longrightarrow> bit (bitmap r) d \<longleftrightarrow> d \<le> unat (lix r) \<and> lix r - of_nat d \<in> S"
    using rel by (auto simp: replay_rel_def)
  have n: "?n \<le> unat (lix r)" using ix by (simp add: unat_sub)
  with index_sub [OF ix win] have same: "lix r - of_nat ?n = ix" by simp
  have "(bitmap r AND push_bit ?n 1 \<noteq> 0) = bit (bitmap r) ?n"
    by (simp only: bit_iff_and_push_bit_not_eq_0)
  also have "\<dots> = (ix \<in> S)" using bits [OF win] n same by simp
  finally show "(bitmap r AND push_bit ?n 1 \<noteq> 0) = (ix \<in> S)" .
  have "bit (bitmap r OR push_bit ?n 1) d \<longleftrightarrow> d \<le> unat (lix r) \<and> lix r - of_nat d \<in> insert ix S"
    if d: "d < 64" for d
    using bits [OF d] index_sub [OF ix d] n d win by (auto simp: bit_simps)
  then show "replay_rel (Some (r\<lparr>bitmap := bitmap r OR push_bit ?n 1\<rparr>)) (insert ix S)"
    using le ix by (simp add: replay_rel_def)
qed

interpretation rg: replay_guard "Some replay0" srtp_replay_check replay_rel
proof (unfold_locales, goal_cases)
  case 1
  show ?case using replay_rel_init [of replay0] by (simp add: srtp_replay_init_def replay0_def)
next
  case (2 s S i t)
  then obtain r where r: "s = Some r" by (auto simp: replay_rel_def)
  show ?case
  proof (cases "i > lix r")
    case True
    with replay_rel_accept_new [of r S i] 2 r show ?thesis by (simp del: srtp_replay_check.simps)
  next
    case False
    with 2 r replay_rel_old [of r S i] show ?thesis
      by (auto simp: Let_def SRTP_WINDOW_SIZE_def split: if_splits)
  qed
next
  case (3 s S i t)
  then obtain r where "s = Some r" by (auto simp: replay_rel_def)
  with 3 show ?case by (auto simp: Let_def split: if_splits)
qed

section \<open>Properties\<close>

text \<open>C27: No replay. Over any sequence of packet indices presented to a fresh replay window, none is
  permitted twice.\<close>

theorem replay_never_accepts_twice:
  "distinct (accepted srtp_replay_check (Some (srtp_replay_init r)) ixs)"
  using rg.accepted_fresh [OF replay_rel_init] by blast

text \<open>No loss inside the window. In a state that has permitted exactly the indices \<open>S\<close>, an index
  above the highest is permitted, one of the last 64 is permitted exactly when it is new, and
  an older one is refused; refused packets leave the state unchanged.\<close>

theorem replay_check_exact:
  assumes "replay_rel (Some r) S"
  shows "case srtp_replay_check (Some r) ix of (ok, p) \<Rightarrow>
      (ok \<longleftrightarrow> (if ix > lix r then True else unat (lix r) - unat ix < 64 \<and> ix \<notin> S))
      \<and> (\<not> ok \<longrightarrow> p = Some r)"
proof -
  have "unat (lix r - ix) = unat (lix r) - unat ix" if "\<not> ix > lix r"
    using that by (simp add: unat_sub)
  then show ?thesis
    using replay_rel_old(1) [OF assms, of ix] by (auto simp: Let_def SRTP_WINDOW_SIZE_def)
qed

lemma replay_example: "replay_rel (Some \<lparr>bitmap = 5, lix = 7\<rparr>) {5, 7}"
proof -
  have "srtp_replay_check (Some replay0) 5 = (True, Some \<lparr>bitmap = 1, lix = 5\<rparr>)"
    by (simp add: replay0_def SRTP_WINDOW_SIZE_def)
  with rg.accept [OF rg.rel_init] have "replay_rel (Some \<lparr>bitmap = 1, lix = 5\<rparr>) {5}" by blast
  moreover have "srtp_replay_check (Some \<lparr>bitmap = 1, lix = 5\<rparr>) 7 = (True, Some \<lparr>bitmap = 5, lix = 7\<rparr>)"
    by (simp add: SRTP_WINDOW_SIZE_def)
  ultimately have "replay_rel (Some \<lparr>bitmap = 5, lix = 7\<rparr>) {7, 5}" using rg.accept by blast
  then show ?thesis by (simp add: insert_commute)
qed

theorem replay_check_exact_witness:
  "fst (srtp_replay_check (Some \<lparr>bitmap = 5, lix = 7\<rparr>) 6) \<and> \<not> fst (srtp_replay_check (Some \<lparr>bitmap = 5, lix = 7\<rparr>) 5)"
  using replay_check_exact [OF replay_example, of 6] replay_check_exact [OF replay_example, of 5]
  by (simp add: case_prod_beta del: srtp_replay_check.simps)

end
