(* ===== verification/Wire.thy ===== *)
theory Wire
  imports Mbuf "HOL-Library.While_Combinator"
begin

text \<open>
  Reading and writing packets with the buffer, as the RTP, RTCP and STUN code does it.

  \<^item> \<open>writes f bs\<close> says that the encoder piece \<open>f\<close> emits the bytes \<open>bs\<close>; \<open>writes_rules\<close> compose it
    along \<open>err |= ...\<close> and loops.
  \<^item> \<open>be16\<close>, \<open>be32\<close> are the bytes of \<open>htons(v)\<close>, \<open>htonl(v)\<close> in memory; \<open>read_be16\<close> and
    \<open>read_be32\<close> are \<open>ntohs(mbuf_read_u16(mb))\<close> and \<open>ntohl(mbuf_read_u32(mb))\<close>.
  \<^item> \<open>mb_adv\<close> is the buffer after \<open>n\<close> bytes were read. The rules \<open>reads_at\<close> evaluate a read
    from the bytes behind the cursor.
  \<^item> \<open>reads\<close> is the frame of a decoder: only the cursor moves, forwards, and the buffer stays
    within bounds.
\<close>

section \<open>Writing\<close>

abbreviation put :: "alloc \<Rightarrow> mbuf \<Rightarrow> byte list \<Rightarrow> errno option \<times> mbuf" where
  "put al \<equiv> \<lambda>mb bs. mbuf_write_mem al mb (Some bs)"

definition be16 :: "u16 \<Rightarrow> byte list" where
  "be16 v = rev (word_bytes 2 v)"

definition be32 :: "u32 \<Rightarrow> byte list" where
  "be32 v = rev (word_bytes 4 v)"

lemma length_be [simp]: "length (be16 v) = 2" "length (be32 w) = 4"
  by (simp_all add: be16_def be32_def)

lemma write_be:
  "mbuf_write_u16 al mb (htons v) = put al mb (be16 v)"
  "mbuf_write_u32 al mb (htonl w) = put al mb (be32 w)"
  by (simp_all add: mbuf_write_defs be16_def be32_def htons_bytes htonl_bytes)

lemma write_u8: "mbuf_write_u8 al mb v = put al mb [v]"
  using word_bytes_Suc [of 0 v] by (simp add: mbuf_write_u8_def word_bytes_0)

abbreviation writes :: "(mbuf \<Rightarrow> errno option \<times> mbuf) \<Rightarrow> byte list \<Rightarrow> bool" where
  "writes \<equiv> writer mbuf_ok mb_before mb_after"

lemma writes_prims:
  "writes (\<lambda>mb. put al mb bs) bs"
  "writes (\<lambda>mb. mbuf_write_u8 al mb b) [b]"
  "writes (\<lambda>mb. mbuf_write_u16 al mb (htons v)) (be16 v)"
  "writes (\<lambda>mb. mbuf_write_u32 al mb (htonl w)) (be32 w)"
  by (simp_all add: write_be write_u8 mbcur.writer_put)

lemmas writes_rules = writes_prims mbcur.writer_also mbcur.writer_skip mbcur.writer_loop

text \<open>A writer that finds enough room in the block needs no allocation and cannot fail.\<close>

definition inplace :: "(mbuf \<Rightarrow> errno option \<times> mbuf) \<Rightarrow> nat \<Rightarrow> bool" where
  "inplace f n \<longleftrightarrow>
     (\<forall>mb. mbuf_ok mb \<longrightarrow> mb_pos mb + n \<le> mb_size mb \<longrightarrow>
        (case f mb of (e, mb') \<Rightarrow> e = None \<and> mbuf_ok mb' \<and> mb_size mb' = mb_size mb \<and> mb_pos mb' = mb_pos mb + n))"

lemma inplace_put: "inplace (\<lambda>mb. put al mb bs) (length bs)"
  unfolding inplace_def
proof (intro allI impI)
  fix mb
  assume ok: "mbuf_ok mb" and fit: "mb_pos mb + length bs \<le> mb_size mb"
  then have wrap: "size_add (mb_pos mb) (length bs) = mb_pos mb + length bs"
    by (intro size_add_no_wrap) (auto simp: mbuf_ok_def)
  have "mb_size (mbuf_put mb bs) = mb_size mb" "mb_pos (mbuf_put mb bs) = mb_pos mb + length bs"
    using wrap by (auto simp: mbuf_put_def mem_store_def Let_def)
  then show "case put al mb bs of (e, mb') \<Rightarrow> e = None \<and> mbuf_ok mb' \<and> mb_size mb' = mb_size mb \<and> mb_pos mb' = mb_pos mb + length bs"
    using mbuf_put_view(1) [OF ok fit] fit wrap by (simp add: mbuf_write_mem_def mbuf_grow_def)
qed

lemma inplaceD: "inplace f n \<Longrightarrow> mbuf_ok mb \<Longrightarrow> mb_pos mb + n \<le> mb_size mb \<Longrightarrow> fst (f mb) = None"
  unfolding inplace_def by (cases "f mb") fastforce

lemma inplace_prims:
  "inplace (\<lambda>mb. mbuf_write_u8 al mb b) 1"
  "inplace (\<lambda>mb. mbuf_write_u16 al mb (htons v)) 2"
  "inplace (\<lambda>mb. mbuf_write_u32 al mb (htonl w)) 4"
  using inplace_put [of al "[b]"] inplace_put [of al "be16 v"] inplace_put [of al "be32 w"]
  by (simp_all add: write_be write_u8)

lemma inplace_also:
  assumes f: "inplace f m" and g: "inplace g n"
  shows "inplace (\<lambda>mb. also_err (f mb) g) (m + n)"
  unfolding inplace_def
proof (intro allI impI)
  fix mb
  assume mb: "mbuf_ok mb" "mb_pos mb + (m + n) \<le> mb_size mb"
  then obtain u where u: "f mb = (None, u)" "mbuf_ok u" "mb_size u = mb_size mb" "mb_pos u = mb_pos mb + m"
    using f unfolding inplace_def by (cases "f mb") fastforce
  then show "case also_err (f mb) g of (e, mb') \<Rightarrow>
      e = None \<and> mbuf_ok mb' \<and> mb_size mb' = mb_size mb \<and> mb_pos mb' = mb_pos mb + (m + n)"
    using g mb(2) unfolding inplace_def by (fastforce simp: also_err_def split: prod.split)
qed

lemma word_of_be [simp]:
  "word_of_bytes (rev (be16 v)) = v" "word_of_bytes (rev (be32 w)) = w"
  by (simp_all add: be16_def be32_def)

section \<open>Reading\<close>

definition read_be16 :: "mbuf \<Rightarrow> u16 \<times> mbuf" where
  "read_be16 mb = (case mbuf_read_u16 mb of (v, mb') \<Rightarrow> (ntohs v, mb'))"

definition read_be32 :: "mbuf \<Rightarrow> u32 \<times> mbuf" where
  "read_be32 mb = (case mbuf_read_u32 mb of (v, mb') \<Rightarrow> (ntohl v, mb'))"

definition mb_adv :: "mbuf \<Rightarrow> nat \<Rightarrow> mbuf" where
  "mb_adv mb n = mb\<lparr>mb_pos := mb_pos mb + n\<rparr>"

lemma mb_adv_simps [simp]:
  "mb_adv mb 0 = mb"
  "mb_adv (mb_adv mb m) n = mb_adv mb (m + n)"
  "mb_after (mb_adv mb n) = drop n (mb_after mb)"
  "mb_pos (mb_adv mb n) = mb_pos mb + n"
  "mb_end (mb_adv mb n) = mb_end mb"
  "mb_bytes (mb_adv mb n) = mb_bytes mb"
  "mb_tick (mb_adv mb n) = mb_tick mb"
  by (simp_all add: mb_adv_def mb_after_advance add.assoc)

lemma mbuf_ok_adv [simp]: "mbuf_ok mb \<Longrightarrow> n \<le> length (mb_after mb) \<Longrightarrow> mbuf_ok (mb_adv mb n)"
  by (simp add: mb_adv_def mbuf_ok_advance)

lemma ntoh_word_of_bytes:
  "length bs = 2 \<Longrightarrow> ntohs (word_of_bytes bs) = word_of_bytes (rev bs)"
  "length bs = 4 \<Longrightarrow> ntohl (word_of_bytes bs) = word_of_bytes (rev bs)"
  using word_bytes_word_of_bytes [of bs, where 'a = 16] word_bytes_word_of_bytes [of bs, where 'a = 32]
  by (simp_all add: htons_def htonl_def)

lemma reads_at:
  assumes "mbuf_ok mb"
  shows "n \<le> length (mb_after mb) \<Longrightarrow> mbuf_read_mem mb n = (None, take n (mb_after mb), mb_adv mb n)"
    and "1 \<le> length (mb_after mb) \<Longrightarrow> mbuf_read_u8 mb = (hd (mb_after mb), mb_adv mb 1)"
    and "2 \<le> length (mb_after mb) \<Longrightarrow> read_be16 mb = (word_of_bytes (rev (take 2 (mb_after mb))), mb_adv mb 2)"
    and "4 \<le> length (mb_after mb) \<Longrightarrow> read_be32 mb = (word_of_bytes (rev (take 4 (mb_after mb))), mb_adv mb 4)"
proof -
  show "n \<le> length (mb_after mb) \<Longrightarrow> mbuf_read_mem mb n = (None, take n (mb_after mb), mb_adv mb n)"
    using mbuf_read_mem_ok [OF assms] by (simp add: mb_adv_def)
  show "1 \<le> length (mb_after mb) \<Longrightarrow> mbuf_read_u8 mb = (hd (mb_after mb), mb_adv mb 1)"
    using mbuf_read_word_ok [OF assms, of 1, where 'a = 8]
    by (cases "mb_after mb") (simp_all add: mbuf_read_u8_def mb_adv_def)
  show "2 \<le> length (mb_after mb) \<Longrightarrow> read_be16 mb = (word_of_bytes (rev (take 2 (mb_after mb))), mb_adv mb 2)"
    using mbuf_read_word_ok [OF assms, of 2, where 'a = 16]
    by (simp add: read_be16_def mbuf_read_defs mb_adv_def ntoh_word_of_bytes)
  show "4 \<le> length (mb_after mb) \<Longrightarrow> read_be32 mb = (word_of_bytes (rev (take 4 (mb_after mb))), mb_adv mb 4)"
    using mbuf_read_word_ok [OF assms, of 4, where 'a = 32]
    by (simp add: read_be32_def mbuf_read_defs mb_adv_def ntoh_word_of_bytes)
qed

lemma htons_0: "htons 0 = 0" and htonl_0: "htonl 0 = 0"
  by code_simp+

lemma reads_short:
  assumes "mbuf_ok mb"
  shows "length (mb_after mb) < 1 \<Longrightarrow> mbuf_read_u8 mb = (0, mb)"
    and "length (mb_after mb) < 2 \<Longrightarrow> read_be16 mb = (0, mb)"
    and "length (mb_after mb) < 4 \<Longrightarrow> read_be32 mb = (0, mb)"
  using mbuf_read_word_short [OF assms, of 1, where 'a = 8] mbuf_read_word_short [OF assms, of 2, where 'a = 16]
    mbuf_read_word_short [OF assms, of 4, where 'a = 32]
  by (simp_all add: mbuf_read_defs read_be16_def read_be32_def htons_0 htonl_0)

section \<open>The frame of a decoder\<close>

definition reads :: "mbuf \<Rightarrow> mbuf \<Rightarrow> bool" where
  "reads mb mb' \<longleftrightarrow> mbuf_ok mb' \<and> mb_buf mb' = mb_buf mb \<and> mb_size mb' = mb_size mb
     \<and> mb_end mb' = mb_end mb \<and> mb_pos mb \<le> mb_pos mb'"

lemma reads_refl [simp]: "reads mb mb \<longleftrightarrow> mbuf_ok mb"
  by (auto simp: reads_def)

lemma reads_ok [dest]: "reads mb mb' \<Longrightarrow> mbuf_ok mb'"
  by (simp add: reads_def)

lemma reads_trans: "reads a b \<Longrightarrow> reads b c \<Longrightarrow> reads a c"
  by (auto simp: reads_def)

lemma reads_adv: "reads a mb \<Longrightarrow> n \<le> length (mb_after mb) \<Longrightarrow> reads a (mb_adv mb n)"
  by (auto simp: reads_def mb_adv_def mbuf_ok_def)

lemma reads_tick: "reads a mb \<Longrightarrow> reads a (mb\<lparr>mb_tick := t\<rparr>)"
  by (simp add: reads_def mbuf_tick_ok)

lemma reads_word:
  assumes "reads a mb"
  shows "reads a (snd (mbuf_read_word k mb :: 'w::len word \<times> mbuf))"
proof (cases "k \<le> length (mb_after mb)")
  case True
  then show ?thesis
    using reads_adv [OF assms True] mbuf_read_word_ok [OF reads_ok [OF assms] True, where 'a = 'w]
    by (simp add: mb_adv_def)
next
  case False
  then show ?thesis
    using assms mbuf_read_word_short [OF reads_ok [OF assms], of k, where 'a = 'w]
    by (simp del: length_mb_after)
qed

lemma reads_prims [safe_intros]:
  assumes "reads a mb"
  shows "reads a (snd (mbuf_read_u8 mb))" and "reads a (snd (read_be16 mb))"
    and "reads a (snd (read_be32 mb))" and "reads a (snd (snd (mbuf_read_mem mb n)))"
proof -
  note w = reads_word [OF assms]
  show "reads a (snd (mbuf_read_u8 mb))" "reads a (snd (read_be16 mb))" "reads a (snd (read_be32 mb))"
    using w by (simp_all add: mbuf_read_defs read_be16_def read_be32_def case_prod_beta)
  show "reads a (snd (snd (mbuf_read_mem mb n)))"
  proof (cases "n \<le> length (mb_after mb)")
    case True
    then show ?thesis using reads_adv [OF assms True] reads_at(1) [OF reads_ok [OF assms] True] by simp
  next
    case False
    then show ?thesis using assms mbuf_read_mem_short [OF reads_ok [OF assms]]
      by (simp del: length_mb_after)
  qed
qed

section \<open>Allocations and padding loops\<close>

text \<open>An allocation beside the buffer: it succeeds or not, in the order of the allocations of a run.\<close>

definition mem_alloc :: "alloc \<Rightarrow> nat \<Rightarrow> mbuf \<Rightarrow> bool \<times> mbuf" where
  "mem_alloc al n mb = (al (mb_tick mb) n \<noteq> None, mb\<lparr>mb_tick := Suc (mb_tick mb)\<rparr>)"

text \<open>
  \<open>while ((mb->end - start) & 0x3) err |= mbuf_write_u8(mb, c)\<close>, with \<open>field\<close> the end or the position.
  The condition does not look at the error, so the loop need not end: \<open>None\<close> is a loop that does
  not return.
\<close>

definition pad_loop ::
  "alloc \<Rightarrow> byte \<Rightarrow> (mbuf \<Rightarrow> nat) \<Rightarrow> nat \<Rightarrow> errno option \<times> mbuf \<Rightarrow> (errno option \<times> mbuf) option" where
  "pad_loop al c field start =
     while_option (\<lambda>(err, mb). (field mb + size_mod - start) mod 4 \<noteq> 0)
       (\<lambda>s. also_err s (\<lambda>mb. mbuf_write_u8 al mb c))"

text \<open>\<open>while ((mb->pos - start) & 0x3 && mbuf_get_left(mb)) ++mb->pos\<close>.\<close>

definition slurp_padding :: "nat \<Rightarrow> mbuf \<Rightarrow> mbuf option" where
  "slurp_padding start =
     while_option (\<lambda>mb. (mb_pos mb + size_mod - start) mod 4 \<noteq> 0 \<and> mbuf_get_left mb \<noteq> 0)
       (\<lambda>mb. mb\<lparr>mb_pos := size_add (mb_pos mb) 1\<rparr>)"

text \<open>Reading \<open>n\<close> elements into an array.\<close>

fun read_list :: "(mbuf \<Rightarrow> 'a \<times> mbuf) \<Rightarrow> nat \<Rightarrow> mbuf \<Rightarrow> 'a list \<times> mbuf" where
  "read_list f 0 mb = ([], mb)"
| "read_list f (Suc n) mb =
     (case f mb of (x, mb') \<Rightarrow> (case read_list f n mb' of (xs, mb'') \<Rightarrow> (x # xs, mb'')))"

section \<open>Encoding and decoding\<close>

text \<open>Once the cursor is set back, the bytes a writer emitted are behind it.\<close>

lemma writes_back:
  assumes "writes f bs" and ok: "mbuf_ok mb" and fits: "mb_pos mb + length bs < size_mod" and "f mb = (None, mb1)"
  shows "mbuf_ok (mbuf_set_pos mb1 (mb_pos mb))"
    and "mb_after (mbuf_set_pos mb1 (mb_pos mb)) = bs @ mb_after mb1"
    and "mb_adv (mbuf_set_pos mb1 (mb_pos mb)) (length bs) = mb1"
    and "mbuf_ok mb1" and "mb_pos mb1 = mb_pos mb + length bs"
proof -
  have ok1: "mbuf_ok mb1" and bef: "mb_before mb1 = mb_before mb @ bs"
    using writerD [OF assms(1) ok _ assms(4)] fits ok by simp_all
  show "mbuf_ok mb1" by fact
  have pos: "mb_pos mb1 = mb_pos mb + length bs"
    using bef ok ok1 by (metis length_append length_mb_before)
  then show "mb_pos mb1 = mb_pos mb + length bs" .
  let ?r = "mbuf_set_pos mb1 (mb_pos mb)"
  show "mbuf_ok ?r" using ok1 pos by (auto simp: mbuf_ok_def mbuf_set_pos_def)
  show "mb_adv ?r (length bs) = mb1"
    using pos by (cases mb1) (simp add: mb_adv_def mbuf_set_pos_def)
  have le: "mb_pos mb1 \<le> mb_end mb1" using ok1 by (simp add: mbuf_ok_def)
  have "take (length bs) (drop (mb_pos mb) (mb_bytes mb1)) = drop (mb_pos mb) (mb_before mb1)"
    by (simp add: mb_before_def pos take_drop add.commute)
  also have "\<dots> = bs" using bef length_mb_before [OF ok] by simp
  finally have "take (length bs) (drop (mb_pos mb) (mb_bytes mb1)) = bs" .
  moreover have "mb_after ?r = take (length bs + (mb_end mb1 - mb_pos mb1)) (drop (mb_pos mb) (mb_bytes mb1))"
    using pos le by (simp add: mb_after_def mbuf_set_pos_def)
  ultimately show "mb_after ?r = bs @ mb_after mb1"
    using pos by (simp add: take_add mb_after_def add.commute)
qed

text \<open>A received datagram, and a decoder run on it.\<close>

definition mbuf_of :: "byte list \<Rightarrow> mbuf" where
  "mbuf_of bs = \<lparr>mb_buf = Some bs, mb_size = length bs, mb_pos = 0, mb_end = length bs, mb_tick = 0, mb_ub = False\<rparr>"

definition run_decoder :: "(mbuf \<Rightarrow> errno option \<times> 'a \<times> mbuf) \<Rightarrow> byte list \<Rightarrow> ('a \<times> byte list) option" where
  "run_decoder f bs = (case f (mbuf_of bs) of (None, a, mb) \<Rightarrow> Some (a, mb_after mb) | _ \<Rightarrow> None)"

lemma mbuf_of_view: "length bs < size_mod \<Longrightarrow> mbuf_ok (mbuf_of bs)" "mb_after (mbuf_of bs) = bs"
  by (simp_all add: mbuf_of_def mbuf_ok_def mb_after_def mb_bytes_def)

section \<open>Decoders stay in the frame\<close>

lemma reads_mem_alloc [safe_intros]: "reads a mb \<Longrightarrow> reads a (snd (mem_alloc al n mb))"
  by (simp add: mem_alloc_def reads_tick)

lemma mbuf_advance_adv: "mbuf_ok mb \<Longrightarrow> n \<le> length (mb_after mb) \<Longrightarrow> mbuf_advance mb (int n) = mb_adv mb n"
proof -
  assume ok: "mbuf_ok mb" and n: "n \<le> length (mb_after mb)"
  then have "mb_pos mb + n < size_mod" by (auto simp: mbuf_ok_def mb_after_def)
  then have "(int (mb_pos mb) + int n) mod int size_mod = int (mb_pos mb + n)"
    by (metis mod_less of_nat_add of_nat_mod)
  then show ?thesis by (simp add: mbuf_advance_def mb_adv_def)
qed

lemma reads_advance [safe_intros]:
  "reads a mb \<Longrightarrow> n \<le> mbuf_get_left mb \<Longrightarrow> reads a (mbuf_advance mb (int n))"
  using mbuf_advance_adv [of mb n] reads_adv [of a mb n] reads_ok [of a mb]
  by (simp add: mbuf_get_left_after del: length_mb_after)

lemma reads_strdup [safe_intros]: "reads a mb \<Longrightarrow> reads a (snd (snd (mbuf_strdup al mb n)))"
proof -
  assume r: "reads a mb"
  note r' = reads_prims(4) [OF reads_tick [OF r, of "Suc (mb_tick mb)"], of n]
  show ?thesis
    by (cases "mbuf_read_mem (mb\<lparr>mb_tick := Suc (mb_tick mb)\<rparr>) n")
       (use r' reads_tick [OF r] in \<open>auto simp: mbuf_strdup_def split: option.split\<close>)
qed

text \<open>A reader of a fixed number of bytes, and an array of such elements.\<close>

definition fixed :: "(mbuf \<Rightarrow> 'a \<times> mbuf) \<Rightarrow> nat \<Rightarrow> bool" where
  "fixed f k \<longleftrightarrow> (\<forall>mb. mbuf_ok mb \<longrightarrow> k \<le> length (mb_after mb) \<longrightarrow> snd (f mb) = mb_adv mb k)"

lemma fixed_be32: "fixed read_be32 4"
  by (simp add: fixed_def reads_at del: length_mb_after)

lemma read_list_fixed:
  assumes f: "fixed f k"
  shows "mbuf_ok mb \<Longrightarrow> n * k \<le> length (mb_after mb) \<Longrightarrow> snd (read_list f n mb) = mb_adv mb (n * k)"
proof (induction n arbitrary: mb)
  case (Suc n)
  have "snd (f mb) = mb_adv mb k" using f Suc.prems by (simp add: fixed_def del: length_mb_after)
  moreover have "snd (read_list f n (mb_adv mb k)) = mb_adv (mb_adv mb k) (n * k)"
    using Suc.prems by (intro Suc.IH) (auto simp del: length_mb_after)
  ultimately show ?case by (simp add: case_prod_beta)
qed simp

lemma reads_read_list:
  assumes "fixed f k" and "reads a mb" and "n * k \<le> mbuf_get_left mb"
  shows "reads a (snd (read_list f n mb))"
proof -
  have "n * k \<le> length (mb_after mb)"
    using assms(2,3) reads_ok [OF assms(2)] by (simp add: mbuf_get_left_after del: length_mb_after)
  then show ?thesis
    using read_list_fixed [OF assms(1) reads_ok [OF assms(2)]] reads_adv [OF assms(2)] by simp
qed

lemma slurp_padding_returns:
  assumes "reads a mb"
  shows "\<exists>mb'. slurp_padding start mb = Some mb' \<and> reads a mb'"
proof -
  let ?b = "\<lambda>mb. (mb_pos mb + size_mod - start) mod 4 \<noteq> 0 \<and> mbuf_get_left mb \<noteq> 0"
  let ?c = "\<lambda>mb. mb\<lparr>mb_pos := size_add (mb_pos mb) 1\<rparr>"
  have step: "reads a (?c m) \<and> mbuf_get_left (?c m) < mbuf_get_left m" if "reads a m" "?b m" for m
  proof -
    have "mb_pos m < mb_end m" "mb_pos m + 1 < size_mod"
      using that reads_ok [OF that(1)] by (auto simp: mbuf_get_left_def mbuf_ok_def split: if_splits)
    then have "?c m = mb_adv m 1" by (simp add: mb_adv_def)
    moreover have "1 \<le> length (mb_after m)"
      using that reads_ok [OF that(1)] by (cases "mb_after m") (auto simp: mbuf_get_left_after simp del: length_mb_after)
    ultimately show ?thesis
      using reads_adv [OF that(1), of 1] \<open>mb_pos m < mb_end m\<close> by (auto simp: mbuf_get_left_def)
  qed
  then obtain mb' where w: "while_option ?b ?c mb = Some mb'"
    using measure_while_option_Some [of "reads a" ?b ?c mbuf_get_left mb] assms by blast
  moreover have "reads a mb'"
    using while_option_rule [where P = "reads a", OF _ w assms] step by blast
  ultimately show ?thesis by (simp add: slurp_padding_def)
qed

section \<open>Padding\<close>

definition pad_len :: "nat \<Rightarrow> nat" where
  "pad_len n = (4 - n mod 4) mod 4"

lemma pad_len_less: "pad_len n < 4"
  by (simp add: pad_len_def)

lemma pad_len_iff:
  assumes "k \<le> pad_len n"
  shows "(n + k) mod 4 = 0 \<longleftrightarrow> k = pad_len n"
proof -
  define r where "r = n mod 4"
  have "r < 4" "k < 4" using assms pad_len_less [of n] by (simp_all add: r_def)
  then have "r \<in> {0, 1, 2, 3}" "k \<in> {0, 1, 2, 3}" by auto
  then have "(r + k) mod 4 = 0 \<longleftrightarrow> k = (4 - r) mod 4" by (elim insertE emptyE) simp_all
  moreover have "(n + k) mod 4 = (r + k) mod 4" by (simp add: r_def mod_add_left_eq)
  moreover have "pad_len n = (4 - r) mod 4" by (simp add: pad_len_def r_def)
  ultimately show ?thesis by (simp only:)
qed

lemma pad_len_mod: "(n + k) mod 4 = 0 \<Longrightarrow> k \<le> pad_len n \<Longrightarrow> k = pad_len n"
  and pad_len_more: "(n + k) mod 4 \<noteq> 0 \<Longrightarrow> k \<le> pad_len n \<Longrightarrow> Suc k \<le> pad_len n"
  using pad_len_iff [of k n] by auto

lemma mod4_size: "start \<le> p \<Longrightarrow> (p + size_mod - start) mod 4 = (p - start) mod 4"
proof -
  assume "start \<le> p"
  then have "p + size_mod - start = (p - start) + 4 * 1073741824" by (simp add: size_mod_def)
  then show ?thesis by (simp only: mod_mult_self2)
qed

lemma pos_end: "mbuf_ok mb \<Longrightarrow> mb_after mb = [] \<Longrightarrow> mb_end mb = mb_pos mb"
  by (auto simp: mbuf_ok_def mb_after_def)

lemma pad_loop_ok:
  assumes ok: "mbuf_ok mb" and emp: "mb_after mb = []" and le: "start \<le> mb_pos mb" and fit: "mb_pos mb + 4 < size_mod"
    and field: "field = mb_pos \<or> field = mb_end" and res: "pad_loop al c field start (None, mb) = Some (None, mb')"
  shows "mbuf_ok mb' \<and> mb_after mb' = [] \<and> mb_before mb' = mb_before mb @ replicate (pad_len (mb_pos mb - start)) c"
proof -
  let ?n = "mb_pos mb - start"
  define inv where "inv s \<longleftrightarrow> (case s of (err, m) \<Rightarrow> err = None \<longrightarrow>
    (\<exists>k. k \<le> pad_len ?n \<and> mbuf_ok m \<and> mb_after m = [] \<and> mb_before m = mb_before mb @ replicate k c))" for s :: "errno option \<times> mbuf"
  let ?b = "\<lambda>(err, m). (field m + size_mod - start) mod 4 \<noteq> 0"
  let ?c = "\<lambda>s. also_err s (\<lambda>mb. mbuf_write_u8 al mb c)"
  have cond: "(field m + size_mod - start) mod 4 = (?n + k) mod 4"
    if "mbuf_ok m" "mb_after m = []" "mb_before m = mb_before mb @ replicate k c" for m k
  proof -
    have "mb_pos m = mb_pos mb + k" using that length_mb_before [of m] length_mb_before [OF ok] by simp
    moreover have "field m = mb_pos m" using field pos_end [OF that(1,2)] by auto
    ultimately show ?thesis using mod4_size [of start "mb_pos mb + k"] le by simp
  qed
  have step: "inv (?c s)" if "inv s" "?b s" for s
  proof -
    obtain err m where s: "s = (err, m)" by (cases s)
    obtain e m1 where w: "mbuf_write_u8 al m c = (e, m1)" by (cases "mbuf_write_u8 al m c")
    have "inv (err_or err e, m1)"
    proof (cases "err_or err e = None")
      case True
      then have none: "err = None" "e = None" by auto
      with that(1) s obtain k where k: "k \<le> pad_len ?n" "mbuf_ok m" "mb_after m = []" "mb_before m = mb_before mb @ replicate k c"
        by (auto simp: inv_def)
      have "Suc k \<le> pad_len ?n"
        using that(2) s cond [OF k(2-4)] k(1) by (intro pad_len_more) auto
      moreover have "length (mb_before m) + 1 < size_mod"
        using k(1,4) pad_len_less [of ?n] fit length_mb_before [OF ok] by simp
      ultimately show ?thesis
        using writerD [OF writes_prims(2) k(2) _ w] k none
        by (auto simp: inv_def replicate_append_same intro!: exI [of _ "Suc k"])
    qed (auto simp: inv_def)
    then show ?thesis using s w by (simp add: also_err_def)
  qed
  have start: "inv (None, mb)" using ok emp by (auto simp: inv_def intro!: exI [of _ 0])
  note w = res [unfolded pad_loop_def]
  have "inv (None, mb')" by (rule while_option_rule [where P = inv, OF _ w start]) (rule step)
  then obtain k where k: "k \<le> pad_len ?n" "mbuf_ok mb'" "mb_after mb' = []" "mb_before mb' = mb_before mb @ replicate k c"
    by (auto simp: inv_def)
  moreover have "k = pad_len ?n"
    using while_option_stop [OF w] cond [OF k(2-4)] k(1) by (intro pad_len_mod) auto
  ultimately show ?thesis by simp
qed

lemma slurp_aligned: "start \<le> mb_pos mb \<Longrightarrow> (mb_pos mb - start) mod 4 = 0 \<Longrightarrow> slurp_padding start mb = Some mb"
  unfolding slurp_padding_def by (subst while_option_unfold) (simp add: mod4_size)

text \<open>An allocator that never fails.\<close>

definition alloc_total :: "alloc \<Rightarrow> bool" where
  "alloc_total al \<longleftrightarrow> (\<forall>t n. al t n \<noteq> None)"

lemma al_zero_total: "alloc_total al_zero"
  by (simp add: alloc_total_def al_zero_def)

lemma mem_alloc_total: "alloc_total al \<Longrightarrow> mem_alloc al n mb = (True, mb\<lparr>mb_tick := Suc (mb_tick mb)\<rparr>)"
  by (simp add: mem_alloc_def alloc_total_def)

lemma resize_total: "alloc_total al \<Longrightarrow> fst (mbuf_resize al mb n) = None"
  unfolding mbuf_resize_def alloc_total_def by (cases "al (mb_tick mb) n") (simp_all, metis option.distinct(1))

lemma write_total: "alloc_total al \<Longrightarrow> fst (mbuf_write_mem al mb (Some bs)) = None"
proof -
  assume al: "alloc_total al"
  obtain e m where g: "mbuf_grow al mb (size_add (mb_pos mb) (length bs)) = (e, m)"
    by (cases "mbuf_grow al mb (size_add (mb_pos mb) (length bs))")
  moreover have "e = None" using g resize_total [OF al] by (auto simp: mbuf_grow_def Let_def split: if_splits) (metis fst_conv)+
  ultimately show ?thesis by (simp add: mbuf_write_mem_def)
qed

text \<open>The padding loop returns when memory does not run out.\<close>

lemma pad_loop_returns:
  assumes ok: "mbuf_ok mb" and emp: "mb_after mb = []" and le: "start \<le> mb_pos mb" and fit: "mb_pos mb + 4 < size_mod"
    and field: "field = mb_pos \<or> field = mb_end" and al: "alloc_total al"
  shows "\<exists>mb'. pad_loop al c field start (None, mb) = Some (None, mb')"
proof -
  let ?n = "mb_pos mb - start"
  define inv where "inv s \<longleftrightarrow> (case s of (err, m) \<Rightarrow> err = None \<and> mbuf_ok m \<and> mb_after m = [] \<and> mb_pos mb \<le> mb_pos m
    \<and> mb_pos m - mb_pos mb \<le> pad_len ?n)" for s :: "errno option \<times> mbuf"
  let ?b = "\<lambda>(err, m). (field m + size_mod - start) mod 4 \<noteq> 0"
  let ?c = "\<lambda>s. also_err s (\<lambda>mb. mbuf_write_u8 al mb c)"
  let ?m = "\<lambda>(err, m). mb_pos mb + 4 - mb_pos m"
  have step: "inv (?c s) \<and> ?m (?c s) < ?m s" if inv_s: "inv s" and b_s: "?b s" for s
  proof -
    obtain m where s: "s = (None, m)" and m: "mbuf_ok m" "mb_after m = []" "mb_pos mb \<le> mb_pos m"
      "mb_pos m - mb_pos mb \<le> pad_len ?n" using inv_s by (cases s) (auto simp: inv_def)
    obtain m1 where w: "mbuf_write_u8 al m c = (None, m1)"
      using write_total [OF al, of m "[c]"] by (cases "mbuf_write_u8 al m c") (simp add: write_u8)
    have "field m = mb_pos m" using field pos_end [OF m(1,2)] by auto
    then have "(?n + (mb_pos m - mb_pos mb)) mod 4 \<noteq> 0"
      using b_s s mod4_size [of start "mb_pos m"] le m(3) by simp
    from pad_len_more [OF this m(4)] have more: "Suc (mb_pos m - mb_pos mb) \<le> pad_len ?n" .
    then have lt: "mb_pos m + 1 < size_mod" "mb_pos m < mb_pos mb + 4" using fit pad_len_less [of ?n] m(3) by linarith+
    then have m1: "mbuf_ok m1" "mb_before m1 = mb_before m @ [c]" "mb_after m1 = []"
      using writerD [OF writes_prims(2) m(1) _ w] m length_mb_before [OF m(1)] by simp_all
    moreover have "mb_pos m1 = mb_pos m + 1"
      using length_mb_before [OF m1(1)] m1(2) length_mb_before [OF m(1)] by simp
    ultimately show ?thesis using s w more lt m(3) by (auto simp: also_err_def inv_def)
  qed
  have start: "inv (None, mb)" using ok emp by (simp add: inv_def)
  have "\<exists>t. while_option ?b ?c (None, mb) = Some t"
    by (rule measure_while_option_Some [where P = inv and f = ?m]) (fact step, fact start)
  then obtain t where w: "while_option ?b ?c (None, mb) = Some t" ..
  have "inv t" by (rule while_option_rule [where P = inv, OF _ w start]) (rule step [THEN conjunct1])
  then show ?thesis using w by (cases t) (auto simp: pad_loop_def inv_def)
qed

text \<open>It does not return when the block is full and the allocator has nothing left.\<close>

lemma pad_loop_diverges:
  assumes full: "mb_pos mb = mb_size mb" "mb_end mb = mb_size mb" "mb_size mb + 1 < size_mod" and le: "start \<le> mb_size mb"
    and odd: "(mb_size mb - start) mod 4 \<noteq> 0" and field: "field = mb_pos \<or> field = mb_end"
    and al: "\<And>t n. mb_tick mb \<le> t \<Longrightarrow> al t n = None"
  shows "pad_loop al c field start (err, mb) = None"
proof -
  define inv where "inv s \<longleftrightarrow> (case s of (e, m) \<Rightarrow> mb_size m = mb_size mb \<and> mb_pos m = mb_size mb
    \<and> mb_end m = mb_size mb \<and> mb_tick mb \<le> mb_tick m)" for s :: "errno option \<times> mbuf"
  let ?b = "\<lambda>(err, m). (field m + size_mod - start) mod 4 \<noteq> 0"
  let ?c = "\<lambda>s. also_err s (\<lambda>mb. mbuf_write_u8 al mb c)"
  have step: "inv (?c s)" if "inv s" for s
    using that full(3) al
    by (cases s) (auto simp: inv_def also_err_def write_u8 mbuf_write_mem_def mbuf_grow_def mbuf_resize_def Let_def
        split: option.splits prod.splits)
  have "inv ((?c ^^ k) (err, mb))" for k
    by (induction k) (use step in \<open>auto simp: inv_def full\<close>)
  then have "?b ((?c ^^ k) (err, mb))" for k
    using field odd le mod4_size [of start "mb_size mb"]
    by (cases "(?c ^^ k) (err, mb)") (metis (mono_tags, lifting) case_prod_conv inv_def)
  then show ?thesis by (simp add: pad_loop_def while_option_def)
qed

lemma tick_view [simp]:
  "mb_after (mb\<lparr>mb_tick := t\<rparr>) = mb_after mb" "mb_before (mb\<lparr>mb_tick := t\<rparr>) = mb_before mb"
  "mbuf_get_left (mb\<lparr>mb_tick := t\<rparr>) = mbuf_get_left mb"
  by (simp_all add: mb_after_def mb_before_def mb_bytes_def mbuf_get_left_def)

end
