(* ===== verification/Rtp.thy ===== *)
theory Rtp
  imports Wire
begin

text \<open>
  The RTP header and the sending side of an RTP socket, \<open>re/src/rtp/rtp.c\<close>.

  \<open>rtp_header\<close> is the struct of \<open>re_rtp.h\<close>; its array of 16 contributing sources is a list,
  and an index past the array sets the buffer's out-of-bounds flag. Decoders return the
  error code, the header as far as it was filled in, and the buffer. A call that leaves the
  component (the UDP socket, the RTCP statistics) is an element of the output list.
\<close>

record rtp_header =
  h_ver :: u8
  h_pad :: bool
  h_ext :: bool
  h_cc :: u8
  h_m :: bool
  h_pt :: u8
  h_seq :: u16
  h_ts :: u32
  h_ts_arrive :: u64
  h_ssrc :: u32
  h_csrc :: "u32 list"
  h_x_type :: u16
  h_x_len :: u16

definition RTP_VERSION :: u8 where "RTP_VERSION = 2"
definition RTP_HEADER_SIZE :: nat where "RTP_HEADER_SIZE = 12"

text \<open>The header after \<open>memset(hdr, 0, sizeof(*hdr))\<close>.\<close>

definition rtp_header_zero :: rtp_header where
  "rtp_header_zero = \<lparr>h_ver = 0, h_pad = False, h_ext = False, h_cc = 0, h_m = False, h_pt = 0, h_seq = 0,
     h_ts = 0, h_ts_arrive = 0, h_ssrc = 0, h_csrc = replicate 16 0, h_x_type = 0, h_x_len = 0\<rparr>"

section \<open>Encoding\<close>

definition rtp_byte0 :: "rtp_header \<Rightarrow> u8" where
  "rtp_byte0 hdr = push_bit 6 (h_ver hdr AND 0x02) OR push_bit 5 (of_bool (h_pad hdr) AND 0x01)
     OR push_bit 4 (of_bool (h_ext hdr) AND 0x01) OR (h_cc hdr AND 0x0f)"

definition rtp_byte1 :: "rtp_header \<Rightarrow> u8" where
  "rtp_byte1 hdr = push_bit 7 (of_bool (h_m hdr) AND 0x01) OR (h_pt hdr AND 0x7f)"

definition csrc_write :: "alloc \<Rightarrow> rtp_header \<Rightarrow> nat \<Rightarrow> mbuf \<Rightarrow> errno option \<times> mbuf" where
  "csrc_write al hdr i mb =
     (if i < length (h_csrc hdr) then mbuf_write_u32 al mb (htonl (h_csrc hdr ! i))
      else (case mbuf_write_u32 al mb 0 of (e, mb') \<Rightarrow> (e, mb'\<lparr>mb_ub := True\<rparr>)))"

definition rtp_hdr_encode :: "alloc \<Rightarrow> rtp_header \<Rightarrow> mbuf \<Rightarrow> errno option \<times> mbuf" where
  "rtp_hdr_encode al hdr mb =
     foldl (\<lambda>s i. also_err s (csrc_write al hdr i))
       (also_err
         (also_err
           (also_err (mbuf_write_mem al mb (Some [rtp_byte0 hdr, rtp_byte1 hdr]))
             (\<lambda>mb. mbuf_write_u16 al mb (htons (h_seq hdr))))
           (\<lambda>mb. mbuf_write_u32 al mb (htonl (h_ts hdr))))
         (\<lambda>mb. mbuf_write_u32 al mb (htonl (h_ssrc hdr))))
       [0..<unat (h_cc hdr)]"

section \<open>Decoding\<close>

definition rtp_set_bytes :: "rtp_header \<Rightarrow> u8 \<Rightarrow> u8 \<Rightarrow> rtp_header" where
  "rtp_set_bytes hdr b0 b1 = hdr\<lparr>
     h_ver := drop_bit 6 b0 AND 0x03,
     h_pad := drop_bit 5 b0 AND 0x01 \<noteq> 0,
     h_ext := drop_bit 4 b0 AND 0x01 \<noteq> 0,
     h_cc := b0 AND 0x0f,
     h_m := drop_bit 7 b1 AND 0x01 \<noteq> 0,
     h_pt := b1 AND 0x7f\<rparr>"

definition csrc_read :: "rtp_header \<times> mbuf \<Rightarrow> nat \<Rightarrow> rtp_header \<times> mbuf" where
  "csrc_read s i =
     (case s of (hdr, mb) \<Rightarrow>
        (case read_be32 mb of (v, mb') \<Rightarrow> (hdr\<lparr>h_csrc := (h_csrc hdr)[i := v]\<rparr>, mb')))"

definition rtp_read_ext :: "rtp_header \<Rightarrow> mbuf \<Rightarrow> errno option \<times> rtp_header \<times> mbuf" where
  "rtp_read_ext hdr mb =
     (if mbuf_get_left mb < 4 then (Some EBADMSG, hdr, mb)
      else
        (case read_be16 mb of (t, mb) \<Rightarrow>
         (case read_be16 mb of (l, mb) \<Rightarrow>
           (let hdr = hdr\<lparr>h_x_type := t, h_x_len := l\<rparr>
            in if mbuf_get_left mb < unat l * 4 then (Some EBADMSG, hdr, mb)
               else (None, hdr, mb\<lparr>mb_pos := size_add (mb_pos mb) (unat l * 4)\<rparr>)))))"

definition rtp_hdr_decode :: "rtp_header \<Rightarrow> mbuf \<Rightarrow> errno option \<times> rtp_header \<times> mbuf" where
  "rtp_hdr_decode hdr mb =
     (if mbuf_get_left mb < RTP_HEADER_SIZE then (Some EBADMSG, hdr, mb)
      else
        (case mbuf_read_mem mb 2 of (Some err, _, mb) \<Rightarrow> (Some err, hdr, mb) | (None, buf, mb) \<Rightarrow>
         (case read_be16 mb of (sq, mb) \<Rightarrow>
         (case read_be32 mb of (ts, mb) \<Rightarrow>
         (case read_be32 mb of (src, mb) \<Rightarrow>
           (let hdr = (rtp_set_bytes hdr (buf ! 0) (buf ! 1))\<lparr>h_seq := sq, h_ts := ts, h_ssrc := src\<rparr>
            in if mbuf_get_left mb < unat (h_cc hdr) * 4 then (Some EBADMSG, hdr, mb)
               else (case foldl csrc_read (hdr, mb) [0..<unat (h_cc hdr)] of (hdr, mb) \<Rightarrow>
                       if h_ext hdr then rtp_read_ext hdr mb else (None, hdr, mb))))))))"

section \<open>The socket\<close>

record rtp_sock =
  enc_seq :: u16
  enc_ssrc :: u32
  has_rtcp :: bool

datatype rtp_out = Tx_Rtp u32 u64 nat | Udp_Send "byte list"

definition rtp_pt_ok :: "u8 \<Rightarrow> bool" where
  "rtp_pt_ok p \<longleftrightarrow> p AND NOT 0x7f = 0"

definition rtp_mk_header :: "bool \<Rightarrow> bool \<Rightarrow> u8 \<Rightarrow> u16 \<Rightarrow> u32 \<Rightarrow> u32 \<Rightarrow> rtp_header" where
  "rtp_mk_header ext marker pt sq ts src = rtp_header_zero\<lparr>h_ver := RTP_VERSION, h_pad := False,
     h_ext := ext, h_cc := 0, h_m := marker, h_pt := pt, h_seq := sq, h_ts := ts, h_ssrc := src\<rparr>"

definition rtp_encode_seq ::
  "alloc \<Rightarrow> rtp_sock \<Rightarrow> u16 \<Rightarrow> bool \<Rightarrow> bool \<Rightarrow> u8 \<Rightarrow> u32 \<Rightarrow> mbuf \<Rightarrow> errno option \<times> mbuf" where
  "rtp_encode_seq al rs sq ext marker pt ts mb =
     (if \<not> rtp_pt_ok pt then (Some EINVAL, mb)
      else rtp_hdr_encode al (rtp_mk_header ext marker pt sq ts (enc_ssrc rs)) mb)"

definition rtp_encode ::
  "alloc \<Rightarrow> rtp_sock \<Rightarrow> bool \<Rightarrow> bool \<Rightarrow> u8 \<Rightarrow> u32 \<Rightarrow> mbuf \<Rightarrow> errno option \<times> rtp_sock \<times> mbuf" where
  "rtp_encode al rs ext marker pt ts mb =
     (if \<not> rtp_pt_ok pt then (Some EINVAL, rs, mb)
      else
        (let rs = rs\<lparr>enc_seq := enc_seq rs + 1\<rparr>
         in (case rtp_hdr_encode al (rtp_mk_header ext marker pt (enc_seq rs) ts (enc_ssrc rs)) mb of
               (err, mb') \<Rightarrow> (err, rs, mb'))))"

definition rtp_decode :: "rtp_sock \<Rightarrow> mbuf \<Rightarrow> errno option \<times> rtp_header \<times> mbuf" where
  "rtp_decode rs mb =
     (case rtp_hdr_decode rtp_header_zero mb of
        (Some err, hdr, mb') \<Rightarrow> (Some err, hdr, mb')
      | (None, hdr, mb') \<Rightarrow> if RTP_VERSION \<noteq> h_ver hdr then (Some EBADMSG, hdr, mb') else (None, hdr, mb'))"

text \<open>
  \<open>udp\<close> stands for \<open>re_udp_send\<close>: the bytes from the cursor to the end are the datagram.
\<close>

definition rtp_send ::
  "(byte list \<Rightarrow> errno option) \<Rightarrow> alloc \<Rightarrow> rtp_sock \<Rightarrow> bool \<Rightarrow> bool \<Rightarrow> u8 \<Rightarrow> u32 \<Rightarrow> u64 \<Rightarrow> mbuf
   \<Rightarrow> errno option \<times> rtp_sock \<times> mbuf \<times> rtp_out list" where
  "rtp_send udp al rs ext marker pt ts jfs_rt mb =
     (if mb_pos mb < RTP_HEADER_SIZE then (Some EBADMSG, rs, mb, [])
      else
        (let mb = mbuf_advance mb (- int RTP_HEADER_SIZE); pos = mb_pos mb
         in (case rtp_encode al rs ext marker pt ts mb of
               (Some err, rs, mb) \<Rightarrow> (Some err, rs, mb, [])
             | (None, rs, mb) \<Rightarrow>
                 (let stat = (if has_rtcp rs then [Tx_Rtp ts jfs_rt (mbuf_get_left mb)] else []);
                      mb = mb\<lparr>mb_pos := pos\<rparr>
                  in (udp (mb_after mb), rs, mb, stat @ [Udp_Send (mb_after mb)])))))"

definition rtp_resend ::
  "(byte list \<Rightarrow> errno option) \<Rightarrow> alloc \<Rightarrow> rtp_sock \<Rightarrow> u16 \<Rightarrow> bool \<Rightarrow> bool \<Rightarrow> u8 \<Rightarrow> u32 \<Rightarrow> mbuf
   \<Rightarrow> errno option \<times> mbuf \<times> rtp_out list" where
  "rtp_resend udp al rs sq ext marker pt ts mb =
     (if mb_pos mb < RTP_HEADER_SIZE then (Some EBADMSG, mb, [])
      else
        (let mb = mbuf_advance mb (- int RTP_HEADER_SIZE); pos = mb_pos mb
         in (case rtp_encode_seq al rs sq ext marker pt ts mb of
               (Some err, mb) \<Rightarrow> (Some err, mb, [])
             | (None, mb) \<Rightarrow>
                 (let mb = mb\<lparr>mb_pos := pos\<rparr>
                  in (udp (mb_after mb), mb, [Udp_Send (mb_after mb)])))))"

section \<open>What the encoder emits\<close>

definition rtp_hdr_bytes :: "rtp_header \<Rightarrow> byte list" where
  "rtp_hdr_bytes hdr = [rtp_byte0 hdr, rtp_byte1 hdr] @ be16 (h_seq hdr) @ be32 (h_ts hdr) @ be32 (h_ssrc hdr)
     @ concat (map be32 (take (unat (h_cc hdr)) (h_csrc hdr)))"

lemma map_nth_take: "n \<le> length xs \<Longrightarrow> map (\<lambda>i. xs ! i) [0..<n] = take n xs"
  by (rule nth_equalityI) auto

lemma rtp_hdr_encode_writes:
  assumes "unat (h_cc hdr) \<le> length (h_csrc hdr)"
  shows "writes (rtp_hdr_encode al hdr) (rtp_hdr_bytes hdr)"
proof -
  have "writes (csrc_write al hdr i) (be32 (h_csrc hdr ! i))" if "i \<in> set [0..<unat (h_cc hdr)]" for i
  proof -
    have "csrc_write al hdr i = (\<lambda>mb. mbuf_write_u32 al mb (htonl (h_csrc hdr ! i)))"
      using that assms by (auto simp: csrc_write_def fun_eq_iff)
    then show ?thesis by (simp only: writes_prims)
  qed
  then have "writes (rtp_hdr_encode al hdr)
      (((([rtp_byte0 hdr, rtp_byte1 hdr] @ be16 (h_seq hdr)) @ be32 (h_ts hdr)) @ be32 (h_ssrc hdr)) @
        concat (map (\<lambda>i. be32 (h_csrc hdr ! i)) [0..<unat (h_cc hdr)]))"
    unfolding rtp_hdr_encode_def [abs_def]
    by (rule mbcur.writer_loop) (assumption | rule mbcur.writer_also writes_prims)+
  moreover have "map (\<lambda>i. be32 (h_csrc hdr ! i)) [0..<unat (h_cc hdr)] = map be32 (take (unat (h_cc hdr)) (h_csrc hdr))"
    by (simp flip: map_nth_take [OF assms])
  ultimately show ?thesis by (simp add: rtp_hdr_bytes_def)
qed

section \<open>The decoder reads it back\<close>

lemma nibble:
  fixes w :: u8
  shows "w < 16 \<Longrightarrow> w AND 15 = w" "w < 128 \<Longrightarrow> w AND 127 = w"
    "w < 16 \<Longrightarrow> drop_bit 4 w = 0" "w < 16 \<Longrightarrow> drop_bit 5 w = 0" "w < 16 \<Longrightarrow> drop_bit 6 w = 0" "w < 128 \<Longrightarrow> drop_bit 7 w = 0"
  using and_mask_small [of w 4] and_mask_small [of w 7] drop_bit_small [of w]
  by (simp_all add: mask_eq_exp_minus_1 word_less_nat_alt)

lemma set_bytes:
  assumes "h_ver g = 2" "h_cc g < 16" "h_pt g < 128"
  shows "rtp_set_bytes hdr (rtp_byte0 g) (rtp_byte1 g) = hdr\<lparr>
     h_ver := 2, h_pad := h_pad g, h_ext := h_ext g, h_cc := h_cc g, h_m := h_m g, h_pt := h_pt g\<rparr>"
  using assms
  by (cases "h_pad g"; cases "h_ext g"; cases "h_m g")
    (simp_all add: rtp_set_bytes_def rtp_byte0_def rtp_byte1_def drop_bit_or drop_bit_and bit.conj_disj_distrib2
     nibble)

lemma csrc_read_loop:
  assumes "mbuf_ok mb" and "mb_after mb = concat (map be32 vs) @ r" and "length vs \<le> length (h_csrc hdr)"
  shows "foldl csrc_read (hdr, mb) [0..<length vs]
    = (hdr\<lparr>h_csrc := vs @ drop (length vs) (h_csrc hdr)\<rparr>, mb_adv mb (4 * length vs))"
  using assms
proof (induction vs arbitrary: r rule: rev_induct)
  case (snoc v vs)
  have len: "length (concat (map be32 vs)) = 4 * length vs"
    by (simp add: length_concat comp_def sum_list_triv)
  have IH: "foldl csrc_read (hdr, mb) [0..<length vs]
      = (hdr\<lparr>h_csrc := vs @ drop (length vs) (h_csrc hdr)\<rparr>, mb_adv mb (4 * length vs))"
    using snoc by (intro snoc.IH) auto
  let ?mb = "mb_adv mb (4 * length vs)"
  have after: "mb_after ?mb = be32 v @ r" using snoc.prems(2) len by simp
  have "length (mb_after mb) = 4 * length vs + 4 + length r" using snoc.prems(2) len by simp
  then have ok: "mbuf_ok ?mb" using snoc.prems(1) by simp
  have rd: "read_be32 ?mb = (v, mb_adv mb (4 * length (vs @ [v])))"
    using reads_at(4) [OF ok] after by (simp del: mb_adv_simps(3)) (simp add: add.commute)
  have upd: "(vs @ drop (length vs) (h_csrc hdr))[length vs := v] = (vs @ [v]) @ drop (length (vs @ [v])) (h_csrc hdr)"
    using snoc.prems(3) by (simp add: list_update_append Cons_nth_drop_Suc [symmetric])
  have "foldl csrc_read (hdr, mb) [0..<length (vs @ [v])]
      = csrc_read (hdr\<lparr>h_csrc := vs @ drop (length vs) (h_csrc hdr)\<rparr>, ?mb) (length vs)"
    using IH by simp
  also have "\<dots> = (hdr\<lparr>h_csrc := (vs @ [v]) @ drop (length (vs @ [v])) (h_csrc hdr)\<rparr>, mb_adv mb (4 * length (vs @ [v])))"
    using rd upd by (simp add: csrc_read_def del: append_assoc)
  finally show ?case .
qed simp

text \<open>The header the decoder leaves: the fields of \<open>hdr\<close>, the rest as it was in \<open>h0\<close>.\<close>

definition rtp_filled :: "rtp_header \<Rightarrow> rtp_header \<Rightarrow> rtp_header" where
  "rtp_filled h0 hdr = h0\<lparr>h_ver := h_ver hdr, h_pad := h_pad hdr, h_ext := h_ext hdr, h_cc := h_cc hdr,
     h_m := h_m hdr, h_pt := h_pt hdr, h_seq := h_seq hdr, h_ts := h_ts hdr, h_ssrc := h_ssrc hdr,
     h_csrc := take (unat (h_cc hdr)) (h_csrc hdr) @ drop (unat (h_cc hdr)) (h_csrc h0)\<rparr>"

definition rtp_header_ok :: "rtp_header \<Rightarrow> bool" where
  "rtp_header_ok hdr \<longleftrightarrow> h_ver hdr = RTP_VERSION \<and> h_cc hdr < 16 \<and> h_pt hdr < 128 \<and> length (h_csrc hdr) = 16"

lemma length_rtp_hdr_bytes:
  "rtp_header_ok hdr \<Longrightarrow> length (rtp_hdr_bytes hdr) = 12 + 4 * unat (h_cc hdr)"
  by (auto simp: rtp_hdr_bytes_def rtp_header_ok_def length_concat comp_def sum_list_triv min_def word_less_nat_alt)

lemma rtp_hdr_decode_bytes:
  assumes wf: "rtp_header_ok hdr" and ok: "mbuf_ok mb" and after: "mb_after mb = rtp_hdr_bytes hdr @ r"
    and h0: "length (h_csrc h0) = 16"
  shows "rtp_hdr_decode h0 mb =
    (let mb1 = mb_adv mb (length (rtp_hdr_bytes hdr))
     in if h_ext hdr then rtp_read_ext (rtp_filled h0 hdr) mb1 else (None, rtp_filled h0 hdr, mb1))"
proof -
  let ?vs = "take (unat (h_cc hdr)) (h_csrc hdr)"
  have cc: "unat (h_cc hdr) < 16" "length ?vs = unat (h_cc hdr)"
    using wf by (auto simp: rtp_header_ok_def word_less_nat_alt)
  let ?h = "h0\<lparr>h_ver := 2, h_pad := h_pad hdr, h_ext := h_ext hdr, h_cc := h_cc hdr, h_m := h_m hdr,
    h_pt := h_pt hdr, h_seq := h_seq hdr, h_ts := h_ts hdr, h_ssrc := h_ssrc hdr\<rparr>"
  have bytes: "mb_after mb = [rtp_byte0 hdr, rtp_byte1 hdr] @ be16 (h_seq hdr) @ be32 (h_ts hdr)
      @ be32 (h_ssrc hdr) @ concat (map be32 ?vs) @ r"
    using after by (simp add: rtp_hdr_bytes_def)
  have len: "length (mb_after mb) = 12 + 4 * unat (h_cc hdr) + length r"
    using after length_rtp_hdr_bytes [OF wf] by simp
  have ok12: "mbuf_ok (mb_adv mb 12)" using ok len by simp
  have "foldl csrc_read (?h, mb_adv mb 12) [0..<unat (h_cc hdr)]
      = (?h\<lparr>h_csrc := ?vs @ drop (length ?vs) (h_csrc ?h)\<rparr>, mb_adv (mb_adv mb 12) (4 * length ?vs))"
    using csrc_read_loop [OF ok12, of ?vs r ?h] bytes cc h0 by simp
  also have "\<dots> = (rtp_filled h0 hdr, mb_adv mb (length (rtp_hdr_bytes hdr)))"
    using wf cc by (simp add: rtp_filled_def length_rtp_hdr_bytes rtp_header_ok_def RTP_VERSION_def)
  finally have loop: "foldl csrc_read (?h, mb_adv mb 12) [0..<unat (h_cc hdr)]
      = (rtp_filled h0 hdr, mb_adv mb (length (rtp_hdr_bytes hdr)))" .
  have set: "rtp_set_bytes h0 (rtp_byte0 hdr) (rtp_byte1 hdr) = h0\<lparr>h_ver := 2, h_pad := h_pad hdr,
      h_ext := h_ext hdr, h_cc := h_cc hdr, h_m := h_m hdr, h_pt := h_pt hdr\<rparr>"
    using wf by (intro set_bytes) (simp_all add: rtp_header_ok_def RTP_VERSION_def)
  have steps: "mbuf_read_mem mb 2 = (None, [rtp_byte0 hdr, rtp_byte1 hdr], mb_adv mb 2)"
    "read_be16 (mb_adv mb 2) = (h_seq hdr, mb_adv mb 4)"
    "read_be32 (mb_adv mb 4) = (h_ts hdr, mb_adv mb 8)"
    "read_be32 (mb_adv mb 8) = (h_ssrc hdr, mb_adv mb 12)"
    using ok len bytes by (simp_all add: reads_at)
  have left: "\<not> mbuf_get_left mb < RTP_HEADER_SIZE" "\<not> mbuf_get_left (mb_adv mb 12) < unat (h_cc hdr) * 4"
    using ok ok12 len by (simp_all add: mbuf_get_left_after RTP_HEADER_SIZE_def del: length_mb_after)
  show ?thesis
    using left steps set loop by (simp add: rtp_hdr_decode_def Let_def rtp_filled_def)
qed

text \<open>Headers that the wire format represents completely.\<close>

definition rtp_plain :: "rtp_header \<Rightarrow> bool" where
  "rtp_plain hdr \<longleftrightarrow> rtp_header_ok hdr \<and> \<not> h_ext hdr \<and> rtp_filled rtp_header_zero hdr = hdr"

interpretation rtpc: codec rtp_hdr_bytes "run_decoder (rtp_hdr_decode rtp_header_zero)" rtp_plain
proof (unfold_locales, goal_cases)
  case (1 hdr rest)
  then have "rtp_header_ok hdr" and "\<not> h_ext hdr" and "rtp_filled rtp_header_zero hdr = hdr"
    by (simp_all add: rtp_plain_def)
  with 1(2) show ?case
    using rtp_hdr_decode_bytes [of hdr "mbuf_of (rtp_hdr_bytes hdr @ rest)" rest rtp_header_zero]
    by (simp add: run_decoder_def mbuf_of_view rtp_header_zero_def)
qed

section \<open>Decoding arbitrary packets\<close>

definition rtp_hdr_len :: "rtp_header \<Rightarrow> nat" where
  "rtp_hdr_len hdr = 12 + 4 * unat (h_cc hdr) + (if h_ext hdr then 4 + 4 * unat (h_x_len hdr) else 0)"

lemma csrc_loop_adv:
  assumes "mbuf_ok mb" and "4 * k \<le> length (mb_after mb)"
  shows "\<exists>c. foldl csrc_read (hdr, mb) [0..<k] = (hdr\<lparr>h_csrc := c\<rparr>, mb_adv mb (4 * k)) \<and> length c = length (h_csrc hdr)"
  using assms
proof (induction k)
  case (Suc k)
  then obtain c where c: "foldl csrc_read (hdr, mb) [0..<k] = (hdr\<lparr>h_csrc := c\<rparr>, mb_adv mb (4 * k))"
    "length c = length (h_csrc hdr)" by (auto simp del: length_mb_after)
  have "read_be32 (mb_adv mb (4 * k)) = (word_of_bytes (rev (take 4 (mb_after (mb_adv mb (4 * k))))), mb_adv mb (4 * Suc k))"
    using reads_at(4) [of "mb_adv mb (4 * k)"] Suc.prems by (simp add: add.commute del: length_mb_after)
  then obtain v where "csrc_read (hdr\<lparr>h_csrc := c\<rparr>, mb_adv mb (4 * k)) k = (hdr\<lparr>h_csrc := c[k := v]\<rparr>, mb_adv mb (4 * Suc k))"
    by (simp add: csrc_read_def)
  moreover have "foldl csrc_read (hdr, mb) [0..<Suc k] = csrc_read (hdr\<lparr>h_csrc := c\<rparr>, mb_adv mb (4 * k)) k"
    using c by simp
  ultimately show ?case using c(2) by (metis length_list_update)
qed (auto intro: exI [of _ "h_csrc hdr"])

lemma rtp_read_ext_cases:
  assumes ok: "mbuf_ok mb" and res: "rtp_read_ext hdr mb = (e, hdr', mb')"
  shows "(e = None \<or> e = Some EBADMSG) \<and> reads mb mb'
    \<and> (e = None \<longrightarrow> (\<exists>t l. hdr' = hdr\<lparr>h_x_type := t, h_x_len := l\<rparr> \<and> mb' = mb_adv mb (4 + 4 * unat l)))"
proof (cases "4 \<le> length (mb_after mb)")
  case True
  have rd: "read_be16 mb = (word_of_bytes (rev (take 2 (mb_after mb))), mb_adv mb 2)"
    "read_be16 (mb_adv mb 2) = (word_of_bytes (rev (take 2 (drop 2 (mb_after mb)))), mb_adv mb 4)"
    using True ok reads_at(3) [of mb] reads_at(3) [of "mb_adv mb 2"] by (simp_all del: length_mb_after)
  define l :: u16 where "l = word_of_bytes (rev (take 2 (drop 2 (mb_after mb))))"
  have ok4: "mbuf_ok (mb_adv mb 4)" and left: "mbuf_get_left (mb_adv mb 4) = length (mb_after mb) - 4"
    using True ok by (simp_all add: mbuf_get_left_after del: length_mb_after)
  have r4: "reads mb (mb_adv mb 4)" using reads_adv [of mb mb 4] True ok by simp
  show ?thesis
  proof (cases "length (mb_after mb) - 4 < unat l * 4")
    case True
    with res rd left show ?thesis
      using \<open>4 \<le> length (mb_after mb)\<close> ok r4
      by (auto simp: rtp_read_ext_def Let_def l_def mbuf_get_left_after simp del: length_mb_after)
  next
    case False
    then have fit: "4 + 4 * unat l \<le> length (mb_after mb)" using True by simp
    moreover have "mb_pos mb + length (mb_after mb) < size_mod"
      using ok by (auto simp: mbuf_ok_def mb_after_def)
    ultimately have "mb_pos mb + 4 + unat l * 4 < size_mod" by linarith
    then have "(mb_adv mb 4)\<lparr>mb_pos := size_add (mb_pos (mb_adv mb 4)) (unat l * 4)\<rparr> = mb_adv mb (4 + 4 * unat l)"
      by (simp add: mb_adv_def ac_simps)
    moreover have "\<not> mbuf_get_left mb < 4" "\<not> mbuf_get_left (mb_adv mb 4) < unat l * 4"
      using True False ok left by (simp_all add: mbuf_get_left_after del: length_mb_after)
    ultimately have "rtp_read_ext hdr mb = (None, hdr\<lparr>h_x_type := word_of_bytes (rev (take 2 (mb_after mb))), h_x_len := l\<rparr>,
        mb_adv mb (4 + 4 * unat l))"
      using rd by (simp add: rtp_read_ext_def Let_def l_def)
    with res show ?thesis using ok reads_adv [of mb mb, OF _ fit] by auto
  qed
next
  case False
  with res ok show ?thesis by (auto simp: rtp_read_ext_def mbuf_get_left_after simp del: length_mb_after)
qed

lemma rtp_hdr_decode_cases:
  assumes ok: "mbuf_ok mb" and res: "rtp_hdr_decode hdr mb = (e, hdr', mb')"
  shows "(e = None \<or> e = Some EBADMSG) \<and> reads mb mb' \<and> (e = None \<longrightarrow> mb' = mb_adv mb (rtp_hdr_len hdr'))"
proof (cases "12 \<le> length (mb_after mb)")
  case True
  define b0 b1 sq ts src where "b0 = mb_after mb ! 0" and "b1 = mb_after mb ! 1"
    and "sq = (word_of_bytes (rev (take 2 (drop 2 (mb_after mb)))) :: u16)"
    and "ts = (word_of_bytes (rev (take 4 (drop 4 (mb_after mb)))) :: u32)"
    and "src = (word_of_bytes (rev (take 4 (drop 8 (mb_after mb)))) :: u32)"
  define g where "g = (rtp_set_bytes hdr b0 b1)\<lparr>h_seq := sq, h_ts := ts, h_ssrc := src\<rparr>"
  have steps: "mbuf_read_mem mb 2 = (None, take 2 (mb_after mb), mb_adv mb 2)"
    "read_be16 (mb_adv mb 2) = (sq, mb_adv mb 4)" "read_be32 (mb_adv mb 4) = (ts, mb_adv mb 8)"
    "read_be32 (mb_adv mb 8) = (src, mb_adv mb 12)"
    using True ok by (simp_all add: reads_at sq_def ts_def src_def del: length_mb_after)
  have ok12: "mbuf_ok (mb_adv mb 12)" and r12: "reads mb (mb_adv mb 12)"
    using True ok reads_adv [of mb mb 12] by simp_all
  have dec: "rtp_hdr_decode hdr mb =
      (if mbuf_get_left (mb_adv mb 12) < unat (h_cc g) * 4 then (Some EBADMSG, g, mb_adv mb 12)
       else (case foldl csrc_read (g, mb_adv mb 12) [0..<unat (h_cc g)] of (hdr, mb) \<Rightarrow>
               if h_ext hdr then rtp_read_ext hdr mb else (None, hdr, mb)))"
    using True ok steps
    by (simp add: rtp_hdr_decode_def g_def b0_def b1_def mbuf_get_left_after RTP_HEADER_SIZE_def Let_def
        del: length_mb_after)
  show ?thesis
  proof (cases "mbuf_get_left (mb_adv mb 12) < unat (h_cc g) * 4")
    case True
    with dec res r12 show ?thesis by auto
  next
    case False
    then have fit: "4 * unat (h_cc g) \<le> length (mb_after (mb_adv mb 12))"
      using ok12 by (simp add: mbuf_get_left_after del: length_mb_after)
    then obtain c where c: "foldl csrc_read (g, mb_adv mb 12) [0..<unat (h_cc g)]
        = (g\<lparr>h_csrc := c\<rparr>, mb_adv (mb_adv mb 12) (4 * unat (h_cc g)))"
      using csrc_loop_adv [OF ok12] by blast
    let ?mb = "mb_adv mb (12 + 4 * unat (h_cc g))"
    have r: "reads mb ?mb" using reads_adv [OF r12 fit] by simp
    show ?thesis
    proof (cases "h_ext g")
      case True
      with dec False c res have "rtp_read_ext (g\<lparr>h_csrc := c\<rparr>) ?mb = (e, hdr', mb')" by simp
      from rtp_read_ext_cases [OF reads_ok [OF r] this] True show ?thesis
        using reads_trans [OF r] by (auto simp: rtp_hdr_len_def add.assoc)
    next
      case ext: False
      with dec False c res r show ?thesis by (auto simp: rtp_hdr_len_def)
    qed
  qed
next
  case False
  with res ok show ?thesis
    by (auto simp: rtp_hdr_decode_def mbuf_get_left_after RTP_HEADER_SIZE_def simp del: length_mb_after)
qed

section \<open>Sending\<close>

lemma rtp_mk_header_ok:
  "pt < 128 \<Longrightarrow> rtp_header_ok (rtp_mk_header ext marker pt sq ts src)"
  "rtp_filled rtp_header_zero (rtp_mk_header ext marker pt sq ts src) = rtp_mk_header ext marker pt sq ts src"
  "length (rtp_hdr_bytes (rtp_mk_header ext marker pt sq ts src)) = 12"
  by (simp_all add: rtp_mk_header_def rtp_header_ok_def rtp_header_zero_def rtp_filled_def RTP_VERSION_def
      rtp_hdr_bytes_def)

lemma rtp_mk_header_sel [simp]:
  "h_ext (rtp_mk_header ext marker pt sq ts src) = ext"
  "h_ver (rtp_mk_header ext marker pt sq ts src) = RTP_VERSION"
  "length (h_csrc rtp_header_zero) = 16"
  by (simp_all add: rtp_mk_header_def rtp_header_zero_def)

lemma rtp_pt_ok_iff: "rtp_pt_ok p \<longleftrightarrow> p < 128"
proof -
  have "list_all (\<lambda>n. rtp_pt_ok (of_nat n) = ((of_nat n :: u8) < 128)) [0..<256]" by code_simp
  then have "rtp_pt_ok (of_nat n) = ((of_nat n :: u8) < 128)" if "n < 256" for n
    using that by (simp add: list_all_iff)
  from this [of "unat p"] show ?thesis using unsigned_less [of p, where 'a = nat] by simp
qed

lemma rtp_mk_encode:
  assumes ok: "mbuf_ok mb" and room: "mb_pos mb + 12 \<le> mb_size mb"
  obtains mb1 where "rtp_hdr_encode al (rtp_mk_header ext marker pt sq ts src) mb = (None, mb1)"
proof -
  let ?h = "rtp_mk_header ext marker pt sq ts src"
  have "inplace (\<lambda>mb. also_err (also_err (also_err (put al mb [rtp_byte0 ?h, rtp_byte1 ?h])
      (\<lambda>mb. mbuf_write_u16 al mb (htons (h_seq ?h)))) (\<lambda>mb. mbuf_write_u32 al mb (htonl (h_ts ?h))))
      (\<lambda>mb. mbuf_write_u32 al mb (htonl (h_ssrc ?h)))) (length [rtp_byte0 ?h, rtp_byte1 ?h] + 2 + 4 + 4)"
    by (rule inplace_also inplace_put inplace_prims)+
  moreover have "h_cc ?h = 0" by (simp add: rtp_mk_header_def)
  ultimately have "inplace (rtp_hdr_encode al ?h) 12"
    by (simp add: rtp_hdr_encode_def [abs_def])
  with ok room that show ?thesis unfolding inplace_def by fastforce
qed

section \<open>Properties\<close>

text \<open>RTP header round trip. A version 2 header that was encoded without an error decodes to the same
  fields, with the cursor behind it; what the wire does not carry keeps its value. With the
  extension bit the decoder goes on with the extension that follows.\<close>

theorem rtp_hdr_roundtrip:
  assumes "rtp_header_ok hdr" and "mbuf_ok mb" and "mb_pos mb + 72 < size_mod" and "length (h_csrc h0) = 16"
    and "rtp_hdr_encode al hdr mb = (None, mb1)"
  shows "rtp_hdr_decode h0 (mbuf_set_pos mb1 (mb_pos mb)) =
    (if h_ext hdr then rtp_read_ext (rtp_filled h0 hdr) mb1 else (None, rtp_filled h0 hdr, mb1))"
proof -
  have cc: "unat (h_cc hdr) < 16" and "length (h_csrc hdr) = 16"
    using assms(1) by (auto simp: rtp_header_ok_def word_less_nat_alt)
  then have w: "writes (rtp_hdr_encode al hdr) (rtp_hdr_bytes hdr)" by (intro rtp_hdr_encode_writes) simp
  have "length (rtp_hdr_bytes hdr) \<le> 72" using length_rtp_hdr_bytes [OF assms(1)] cc by simp
  with assms(3) have "mb_pos mb + length (rtp_hdr_bytes hdr) < size_mod" by linarith
  from writes_back [OF w assms(2) this assms(5)] show ?thesis
    using rtp_hdr_decode_bytes [OF assms(1), of "mbuf_set_pos mb1 (mb_pos mb)" "mb_after mb1" h0] assms(4)
    by (simp add: Let_def)
qed

theorem rtp_hdr_roundtrip_witness:
  "\<exists>mb1. rtp_hdr_encode al_zero (rtp_mk_header False True 96 65535 160 1) (mbuf_of (replicate 12 0)) = (None, mb1)
     \<and> rtp_hdr_decode rtp_header_zero (mbuf_set_pos mb1 0) = (None, rtp_mk_header False True 96 65535 160 1, mb1)"
proof -
  let ?h = "rtp_mk_header False True 96 65535 160 1" and ?mb = "mbuf_of (replicate 12 0)"
  have ok: "mbuf_ok ?mb" by (simp add: mbuf_of_view size_mod_def)
  have pos: "mb_pos ?mb = 0" "mb_size ?mb = 12" by (simp_all add: mbuf_of_def)
  then obtain mb1 where e: "rtp_hdr_encode al_zero ?h ?mb = (None, mb1)"
    using rtp_mk_encode [OF ok, of al_zero] by (metis add_0 order_refl)
  from rtp_hdr_roundtrip [OF _ ok _ _ e, of rtp_header_zero] show ?thesis
    using e pos by (simp add: rtp_mk_header_ok size_mod_def)
qed

text \<open>C22: Decoding is safe on every packet. On arbitrary bytes the decoder stays inside the datagram, moves
  only the cursor, fails with \<open>EBADMSG\<close> only, and on success the cursor has moved by exactly
  the length of the header, its contributing sources and its extension.\<close>

theorem rtp_decode_safe:
  assumes "mbuf_ok mb"
  shows "case rtp_decode rs mb of (e, hdr, mb') \<Rightarrow>
      (e = None \<or> e = Some EBADMSG) \<and> reads mb mb'
      \<and> (e = None \<longrightarrow> h_ver hdr = RTP_VERSION \<and> mb' = mb_adv mb (rtp_hdr_len hdr))"
proof -
  obtain e hdr mb' where d: "rtp_hdr_decode rtp_header_zero mb = (e, hdr, mb')"
    by (cases "rtp_hdr_decode rtp_header_zero mb")
  from rtp_hdr_decode_cases [OF assms d] show ?thesis
    by (auto simp: rtp_decode_def d split: option.splits)
qed

theorem rtp_decode_safe_witness:
  "case rtp_decode \<lparr>enc_seq = 0, enc_ssrc = 0, has_rtcp = False\<rparr> (mbuf_of [0x80, 0, 0, 1, 0, 0, 0, 2, 0, 0, 0, 3, 4]) of (e, hdr, mb') \<Rightarrow>
      (e = None \<or> e = Some EBADMSG) \<and> reads (mbuf_of [0x80, 0, 0, 1, 0, 0, 0, 2, 0, 0, 0, 3, 4]) mb'"
proof -
  have "mbuf_ok (mbuf_of [0x80, 0, 0, 1, 0, 0, 0, 2, 0, 0, 0, 3, 4])" by (simp add: mbuf_of_view size_mod_def)
  from rtp_decode_safe [OF this, of "\<lparr>enc_seq = 0, enc_ssrc = 0, has_rtcp = False\<rparr>"] show ?thesis by auto
qed

text \<open>What \<open>rtp_send\<close> leaves in the buffer it hands to the socket.\<close>

lemma rtp_send_buffer:
  assumes ok: "mbuf_ok mb" and room: "RTP_HEADER_SIZE \<le> mb_pos mb" and pt: "pt < 128"
  shows "\<exists>m. rtp_send udp al rs False marker pt ts jfs mb =
      (udp (mb_after m), rs\<lparr>enc_seq := enc_seq rs + 1\<rparr>, m,
       (if has_rtcp rs then [Tx_Rtp ts jfs (length (mb_after mb))] else []) @ [Udp_Send (mb_after m)])
    \<and> mbuf_ok m \<and> mb_end m = mb_end mb
    \<and> mb_after m = rtp_hdr_bytes (rtp_mk_header False marker pt (enc_seq rs + 1) ts (enc_ssrc rs)) @ mb_after mb"
proof -
  let ?h = "rtp_mk_header False marker pt (enc_seq rs + 1) ts (enc_ssrc rs)"
  have pos: "12 \<le> mb_pos mb" and lt: "mb_pos mb < size_mod" and le: "mb_pos mb \<le> mb_end mb"
    using room ok by (auto simp: RTP_HEADER_SIZE_def mbuf_ok_def)
  define m0 where "m0 = mb\<lparr>mb_pos := mb_pos mb - 12\<rparr>"
  have adv: "mbuf_advance mb (- int RTP_HEADER_SIZE) = m0"
    using pos lt by (simp add: mbuf_advance_def m0_def RTP_HEADER_SIZE_def nat_diff_distrib flip: of_nat_diff)
  have ok0: "mbuf_ok m0" and room0: "mb_pos m0 + 12 \<le> mb_size m0"
    using ok pos by (auto simp: m0_def mbuf_ok_def)
  have skip: "mb_adv m0 12 = mb" using pos by (simp add: m0_def mb_adv_def)
  obtain m1 where enc: "rtp_hdr_encode al ?h m0 = (None, m1)" using rtp_mk_encode [OF ok0 room0] .
  have w: "writes (rtp_hdr_encode al ?h) (rtp_hdr_bytes ?h)"
    by (intro rtp_hdr_encode_writes) (simp add: rtp_mk_header_def)
  have fit: "mb_pos m0 + length (rtp_hdr_bytes ?h) < size_mod"
    using pos lt by (simp add: rtp_mk_header_ok m0_def)
  have after: "mb_after m1 = mb_after mb"
    using writerD(3) [OF w ok0 _ enc] fit ok0 skip by (simp add: rtp_mk_header_ok flip: mb_adv_simps(3))
  note setback = writes_back [OF w ok0 fit enc]
  define m where "m = m1\<lparr>mb_pos := mb_pos m0\<rparr>"
  have okm: "mbuf_ok m" and d: "mb_after m = rtp_hdr_bytes ?h @ mb_after mb"
    using setback(1,2) after by (simp_all add: mbuf_set_pos_def m_def)
  have left: "mbuf_get_left m1 = length (mb_after mb)"
    using mbuf_get_left_after [OF setback(4)] after by (simp del: length_mb_after)
  have "length (mb_after m) = 12 + (mb_end mb - mb_pos mb)" using d ok by (simp add: rtp_mk_header_ok)
  moreover have "length (mb_after m) = mb_end m - mb_pos m" "mb_pos m \<le> mb_end m" "mb_pos m = mb_pos mb - 12"
    using okm by (auto simp: mbuf_ok_def m_def m0_def)
  ultimately have "mb_end m = mb_end mb" using pos le by linarith
  moreover have "rtp_send udp al rs False marker pt ts jfs mb =
      (udp (mb_after m), rs\<lparr>enc_seq := enc_seq rs + 1\<rparr>, m,
       (if has_rtcp rs then [Tx_Rtp ts jfs (length (mb_after mb))] else []) @ [Udp_Send (mb_after m)])"
    using pos enc adv pt left
    by (simp add: rtp_send_def RTP_HEADER_SIZE_def rtp_encode_def rtp_pt_ok_iff Let_def m_def)
  ultimately show ?thesis using okm d by blast
qed

lemma rtp_mk_decode:
  assumes "mbuf_ok mb" and "pt < 128" and "mb_after mb = rtp_hdr_bytes (rtp_mk_header False marker pt sq ts src) @ P"
  shows "\<exists>mb'. rtp_decode rs mb = (None, rtp_mk_header False marker pt sq ts src, mb') \<and> mb_after mb' = P"
  using rtp_hdr_decode_bytes [OF rtp_mk_header_ok(1) [OF assms(2)] assms(1,3), of rtp_header_zero] assms
  by (simp add: rtp_decode_def rtp_mk_header_ok)

text \<open>C16: Sending delivers. For a packet without extension, with a payload type below 128 and with room
  for the header before the payload, \<open>rtp_send\<close> needs no memory and
  cannot fail before the socket: it uses the next sequence number, hands the socket one
  datagram, which the receiver decodes to that header and exactly the payload, and reports the
  payload's length to RTCP.\<close>

theorem rtp_send_delivers:
  assumes ok: "mbuf_ok mb" and room: "RTP_HEADER_SIZE \<le> mb_pos mb" and pt: "pt < 128"
  shows "\<exists>d mb'. rtp_send udp al rs False marker pt ts jfs mb =
      (udp d, rs\<lparr>enc_seq := enc_seq rs + 1\<rparr>, mb',
       (if has_rtcp rs then [Tx_Rtp ts jfs (length (mb_after mb))] else []) @ [Udp_Send d])
    \<and> run_decoder (rtp_decode rs') d = Some (rtp_mk_header False marker pt (enc_seq rs + 1) ts (enc_ssrc rs), mb_after mb)"
proof -
  let ?h = "rtp_mk_header False marker pt (enc_seq rs + 1) ts (enc_ssrc rs)"
  obtain m where m: "rtp_send udp al rs False marker pt ts jfs mb =
      (udp (mb_after m), rs\<lparr>enc_seq := enc_seq rs + 1\<rparr>, m,
       (if has_rtcp rs then [Tx_Rtp ts jfs (length (mb_after mb))] else []) @ [Udp_Send (mb_after m)])"
    "mbuf_ok m" "mb_after m = rtp_hdr_bytes ?h @ mb_after mb"
    using rtp_send_buffer [OF assms] by blast
  have "length (mb_after m) < size_mod" using m(2) by (auto simp: mbuf_ok_def)
  then have "run_decoder (rtp_decode rs') (mb_after m) = Some (?h, mb_after mb)"
    using rtp_mk_decode [OF mbuf_of_view(1) pt, of "mb_after m" marker "enc_seq rs + 1" ts "enc_ssrc rs" "mb_after mb" rs'] m(3)
    by (auto simp: run_decoder_def mbuf_of_view)
  with m(1) show ?thesis by blast
qed

theorem rtp_send_delivers_witness:
  "\<exists>d mb'. rtp_send (\<lambda>_. None) al_zero \<lparr>enc_seq = 7, enc_ssrc = 9, has_rtcp = True\<rparr> False True 8 160 0
      ((mbuf_of (replicate 12 0 @ [7, 8]))\<lparr>mb_pos := 12\<rparr>)
      = (None, \<lparr>enc_seq = 8, enc_ssrc = 9, has_rtcp = True\<rparr>, mb', [Tx_Rtp 160 0 2, Udp_Send d])
    \<and> run_decoder (rtp_decode \<lparr>enc_seq = 0, enc_ssrc = 0, has_rtcp = False\<rparr>) d
      = Some (rtp_mk_header False True 8 8 160 9, [7, 8])"
proof -
  let ?mb = "(mbuf_of (replicate 12 0 @ [7, 8]))\<lparr>mb_pos := 12\<rparr>"
  have ok: "mbuf_ok ?mb" and after: "mb_after ?mb = [7, 8]"
    by (simp_all add: mbuf_ok_def mbuf_of_def size_mod_def mb_after_def mb_bytes_def)
  from rtp_send_delivers [OF ok, of 8 "\<lambda>_. None" al_zero "\<lparr>enc_seq = 7, enc_ssrc = 9, has_rtcp = True\<rparr>" True 160 0
      "\<lparr>enc_seq = 0, enc_ssrc = 0, has_rtcp = False\<rparr>"] after
  show ?thesis by (simp add: RTP_HEADER_SIZE_def flip: numeral_2_eq_2)
qed

end
