(* ===== verification/Rtp_Source.thy ===== *)
theory Rtp_Source
  imports Prelude
begin

text \<open>
  Reception statistics of one RTP source, \<open>re/src/rtp/source.c\<close>, and the NTP time conversions
  of \<open>re/src/rtp/ntp.c\<close>.

  All arithmetic is 32-bit: an \<open>int\<close> is a word read with \<open>sint\<close>, and an expression that mixes
  \<open>int\<close> and \<open>uint32_t\<close> is unsigned, as in C. The \<open>uint16_t\<close> operands of a comparison are promoted to
  \<open>int\<close>, so \<open>seq == max_seq + 1\<close> does not wrap. Addresses of peers are opaque numbers; the
  wall clock (\<open>ntp_time_get\<close>) is a parameter of its callers.
\<close>

type_synonym sa = nat

record rtp_source =
  s_rtp_peer :: sa
  s_max_seq :: u16
  s_cycles :: u32
  s_base_seq :: u32
  s_bad_seq :: u32
  s_probation :: u32
  s_received :: u32
  s_expected_prior :: u32
  s_received_prior :: u32
  s_transit :: u32
  s_jitter :: u32
  s_rtp_rx_bytes :: u32
  s_sr_recv :: u64
  s_last_sr :: "u32 \<times> u32"
  s_rtp_ts :: u32
  s_last_rtp_ts :: u32
  s_psent :: u32
  s_osent :: u32

definition rtp_source_zero :: rtp_source where
  "rtp_source_zero = \<lparr>s_rtp_peer = 0, s_max_seq = 0, s_cycles = 0, s_base_seq = 0, s_bad_seq = 0, s_probation = 0,
     s_received = 0, s_expected_prior = 0, s_received_prior = 0, s_transit = 0, s_jitter = 0, s_rtp_rx_bytes = 0,
     s_sr_recv = 0, s_last_sr = (0, 0), s_rtp_ts = 0, s_last_rtp_ts = 0, s_psent = 0, s_osent = 0\<rparr>"

definition RTP_SEQ_MOD :: nat where "RTP_SEQ_MOD = 65536"
definition MAX_DROPOUT :: nat where "MAX_DROPOUT = 3000"
definition MAX_MISORDER :: nat where "MAX_MISORDER = 100"
definition MIN_SEQUENTIAL :: nat where "MIN_SEQUENTIAL = 2"

section \<open>Sequence numbers\<close>

definition rtp_source_init_seq :: "rtp_source \<Rightarrow> u16 \<Rightarrow> rtp_source" where
  "rtp_source_init_seq s sq = s\<lparr>s_base_seq := ucast sq, s_max_seq := sq, s_bad_seq := of_nat (RTP_SEQ_MOD + 1),
     s_cycles := 0, s_received := 0, s_received_prior := 0, s_expected_prior := 0\<rparr>"

definition rtp_source_update_seq :: "rtp_source \<Rightarrow> u16 \<Rightarrow> bool \<times> rtp_source" where
  "rtp_source_update_seq s sq =
     (let udelta = unat (sq - s_max_seq s) in
      if s_probation s \<noteq> 0 then
        (if unat sq = unat (s_max_seq s) + 1 then
           (let s = s\<lparr>s_probation := s_probation s - 1, s_max_seq := sq\<rparr> in
            if s_probation s = 0 then
              (let s = rtp_source_init_seq s sq in (True, s\<lparr>s_received := s_received s + 1\<rparr>))
            else (False, s))
         else (False, s\<lparr>s_probation := of_nat (MIN_SEQUENTIAL - 1), s_max_seq := sq\<rparr>))
      else if udelta < MAX_DROPOUT then
        (let s = (if sq < s_max_seq s then s\<lparr>s_cycles := s_cycles s + of_nat RTP_SEQ_MOD\<rparr> else s);
             s = s\<lparr>s_max_seq := sq\<rparr>
         in (True, s\<lparr>s_received := s_received s + 1\<rparr>))
      else if udelta \<le> RTP_SEQ_MOD - MAX_MISORDER then
        (if ucast sq = s_bad_seq s then
           (let s = rtp_source_init_seq s sq in (True, s\<lparr>s_received := s_received s + 1\<rparr>))
         else (False, s\<lparr>s_bad_seq := (ucast sq + 1) AND of_nat (RTP_SEQ_MOD - 1)\<rparr>))
      else (True, s\<lparr>s_received := s_received s + 1\<rparr>))"

section \<open>Jitter and loss\<close>

definition rtp_source_calc_jitter :: "rtp_source \<Rightarrow> u32 \<Rightarrow> u32 \<Rightarrow> rtp_source" where
  "rtp_source_calc_jitter s rtp_ts arrival =
     (let transit = arrival - rtp_ts;
          d = transit - s_transit s
      in if s_transit s = 0 then s\<lparr>s_transit := transit\<rparr>
         else
           (let d = (if sint d < 0 then - d else d)
            in s\<lparr>s_transit := transit, s_jitter := s_jitter s + (d - drop_bit 4 (s_jitter s + 8))\<rparr>))"

definition expected_pkts :: "rtp_source \<Rightarrow> u32" where
  "expected_pkts s = s_cycles s + ucast (s_max_seq s) - s_base_seq s + 1"

definition rtp_source_calc_lost :: "rtp_source \<Rightarrow> int" where
  "rtp_source_calc_lost s =
     (let lost = sint (expected_pkts s - s_received s)
      in if lost > 0x7fffff then 0x7fffff else if lost < - 0x7fffff then - 0x7fffff else lost)"

definition rtp_source_calc_fraction_lost :: "rtp_source \<Rightarrow> u8 \<times> rtp_source" where
  "rtp_source_calc_fraction_lost s =
     (let expected = expected_pkts s;
          expected_interval = expected - s_expected_prior s;
          received_interval = s_received s - s_received_prior s;
          lost_interval = expected_interval - received_interval;
          s' = s\<lparr>s_expected_prior := expected, s_received_prior := s_received s\<rparr>
      in if expected_interval = 0 \<or> sint lost_interval \<le> 0 then (0, s')
         else (of_int (sgn (sint (push_bit 8 lost_interval)) * sgn (sint expected_interval)
                 * (\<bar>sint (push_bit 8 lost_interval)\<bar> div \<bar>sint expected_interval\<bar>)), s'))"

section \<open>NTP time\<close>

definition ntp_compact :: "(u32 \<times> u32) option \<Rightarrow> u32" where
  "ntp_compact ntp =
     (case ntp of None \<Rightarrow> 0 | Some (hi, lo) \<Rightarrow> push_bit 16 (hi AND 0xffff) OR drop_bit 16 lo)"

definition ntp_compact2us :: "u32 \<Rightarrow> u64" where
  "ntp_compact2us ntpc =
     (let hi = drop_bit 16 ntpc AND 0xffff; lo = push_bit 16 (ntpc AND 0xffff)
      in 1000000 * ucast hi + drop_bit 32 (1000000 * ucast lo))"

section \<open>The extended sequence number\<close>

text \<open>The statistics count with \<open>cycles + max_seq\<close>; a step by \<open>d\<close> in the 16-bit number is a step by
  \<open>d\<close> there, because the wrap-around is what adds a cycle.\<close>

definition ext_seq :: "rtp_source \<Rightarrow> u32" where
  "ext_seq s = s_cycles s + ucast (s_max_seq s)"

lemma unat_ucast_16_32: "unat (ucast (w :: u16) :: u32) = unat w"
  by (simp add: unsigned_ucast_eq take_bit_nat_eq_self unsigned_less [of w, where 'a = nat, THEN less_le_trans])

lemma wrap_cycle:
  fixes a d :: u16
  shows "(ucast (a + d) :: u32) + (if a + d < a then 65536 else 0) = ucast a + ucast d"
proof -
  have ua: "unat a < 65536" and ud: "unat d < 65536"
    using unsigned_less [of a, where 'a = nat] unsigned_less [of d, where 'a = nat] by simp_all
  have sum: "unat (a + d) = (unat a + unat d) mod 65536" by (simp add: unat_word_ariths)
  have "a + d < a \<longleftrightarrow> 65536 \<le> unat a + unat d"
    using ua ud sum by (auto simp: word_less_nat_alt mod_if)
  moreover have "ucast (a + d) = (of_nat ((unat a + unat d) mod 65536) :: u32)"
    using sum by (metis of_nat_unat unat_ucast_16_32)
  moreover have "(ucast a :: u32) + ucast d = of_nat (unat a + unat d)"
    by (metis of_nat_add of_nat_unat unat_ucast_16_32)
  moreover have "of_nat ((unat a + unat d) mod 65536) + (if 65536 \<le> unat a + unat d then 65536 else 0)
      = (of_nat (unat a + unat d) :: u32)"
    using ua ud by (auto simp: mod_if of_nat_diff)
  ultimately show ?thesis by simp
qed

lemma update_seq_in_order:
  assumes "s_probation s = 0" and "unat (sq - s_max_seq s) < MAX_DROPOUT"
  shows "\<exists>s'. rtp_source_update_seq s sq = (True, s') \<and> ext_seq s' = ext_seq s + ucast (sq - s_max_seq s)
    \<and> s_max_seq s' = sq \<and> s_received s' = s_received s + 1 \<and> s_base_seq s' = s_base_seq s \<and> s_probation s' = 0"
proof -
  let ?s = "(if sq < s_max_seq s then s\<lparr>s_cycles := s_cycles s + of_nat RTP_SEQ_MOD\<rparr> else s)\<lparr>s_max_seq := sq,
    s_received := s_received s + 1\<rparr>"
  have "rtp_source_update_seq s sq = (True, ?s)"
    using assms by (simp add: rtp_source_update_seq_def Let_def)
  moreover have "ext_seq ?s = ext_seq s + ucast (sq - s_max_seq s)"
    using wrap_cycle [of "s_max_seq s" "sq - s_max_seq s"]
    by (auto simp: ext_seq_def RTP_SEQ_MOD_def algebra_simps)
  ultimately show ?thesis using assms by auto
qed

text \<open>Packets that arrive in order, by their extended numbers: gaps below \<open>MAX_DROPOUT\<close>, duplicates
  of the latest packet allowed.\<close>

fun in_order :: "nat \<Rightarrow> nat list \<Rightarrow> bool" where
  "in_order e [] = True"
| "in_order e (x # xs) = (e \<le> x \<and> x < e + MAX_DROPOUT \<and> in_order x xs)"

fun receive_all :: "rtp_source \<Rightarrow> u16 list \<Rightarrow> rtp_source" where
  "receive_all s [] = s"
| "receive_all s (q # qs) = receive_all (snd (rtp_source_update_seq s q)) qs"

lemma of_nat_step:
  assumes "x \<le> y" and "y < x + 65536"
  shows "unat ((of_nat y :: u16) - of_nat x) = y - x"
proof -
  obtain k where "y = x + k" "k < 65536" using assms by (metis le_iff_add nat_add_left_cancel_less)
  then show ?thesis by (simp add: unat_of_nat take_bit_nat_eq_self)
qed

lemma expected_ext: "expected_pkts s = ext_seq s - s_base_seq s + 1"
  by (simp add: expected_pkts_def ext_seq_def)

lemma receive_in_order:
  assumes "s_probation s = 0" and "s_max_seq s = of_nat e" and "in_order e xs"
  shows "ext_seq (receive_all s (map of_nat xs)) = ext_seq s + of_nat (last (e # xs) - e)
    \<and> s_received (receive_all s (map of_nat xs)) = s_received s + of_nat (length xs)
    \<and> s_base_seq (receive_all s (map of_nat xs)) = s_base_seq s \<and> e \<le> last (e # xs)"
  using assms
proof (induction xs arbitrary: s e)
  case (Cons x xs)
  have step: "unat (of_nat x - s_max_seq s) = x - e" and lt: "x - e < 3000"
    using Cons.prems of_nat_step [of e x] by (auto simp: MAX_DROPOUT_def)
  then obtain s' where s': "rtp_source_update_seq s (of_nat x) = (True, s')"
    "ext_seq s' = ext_seq s + ucast (of_nat x - s_max_seq s)" "s_max_seq s' = of_nat x"
    "s_received s' = s_received s + 1" "s_base_seq s' = s_base_seq s" "s_probation s' = 0"
    using update_seq_in_order [OF Cons.prems(1), of "of_nat x"] by (auto simp: MAX_DROPOUT_def)
  have "ucast (of_nat x - s_max_seq s) = (of_nat (x - e) :: u32)"
    using step by (metis of_nat_unat unat_ucast_16_32)
  with s'(2) have ext: "ext_seq s' = ext_seq s + of_nat (x - e)" by (simp only:)
  note IH = Cons.IH [OF s'(6,3)]
  have le: "e \<le> x" "x \<le> last (x # xs)" using Cons.prems(3) IH by auto
  then have "last (x # xs) - e = (x - e) + (last (x # xs) - x)" by linarith
  then have "ext_seq s + of_nat (x - e) + of_nat (last (x # xs) - x) = ext_seq s + of_nat (last (x # xs) - e)"
    by (simp only: of_nat_add add.assoc)
  moreover have "receive_all s (map of_nat (x # xs)) = receive_all s' (map of_nat xs)" using s'(1) by simp
  ultimately show ?case using IH Cons.prems(3) ext s'(4,5) le by (simp add: add.assoc)
qed simp

text \<open>In the range from the first to the last number, the numbers that never arrived and the arrivals
  beyond the first of a number account for the difference of expected and received.\<close>

lemma in_order_range: "in_order e xs \<Longrightarrow> set (e # xs) \<subseteq> {e..last (e # xs)} \<and> e \<le> last (e # xs)"
proof (induction xs arbitrary: e)
  case (Cons x xs)
  then have "set (x # xs) \<subseteq> {x..last (x # xs)}" "x \<le> last (x # xs)" "e \<le> x" by auto
  then show ?case by auto
qed simp

lemma missing_repeats:
  assumes "in_order e xs"
  shows "int (card ({e..last (e # xs)} - set (e # xs))) - int (length (e # xs) - card (set (e # xs)))
    = int (last (e # xs) - e) - int (length xs)"
proof -
  let ?S = "set (e # xs)" and ?R = "{e..last (e # xs)}"
  have sub: "?S \<subseteq> ?R" and le: "e \<le> last (e # xs)" using in_order_range [OF assms] by blast+
  have "card (?R - ?S) = card ?R - card ?S" by (rule card_Diff_subset) (use sub in simp_all)
  moreover have "card ?S \<le> card ?R" by (rule card_mono) (use sub in simp_all)
  moreover have "card ?R = Suc (last (e # xs)) - e" by simp
  moreover have "card ?S \<le> length (e # xs)" by (rule card_length)
  ultimately show ?thesis using le by (simp only: length_Cons)
qed

section \<open>Properties\<close>

text \<open>C36: Loss is counted exactly, up to the clamping to 24 bits. Packets are received in order from the
  first one, each number equal to the one before or less than \<open>MAX_DROPOUT\<close> ahead of it, over
  fewer than \<open>2\<^sup>3\<^sup>1\<close> sequence numbers (32767 wraps of the 16-bit number) and packets; the source is
  past its probation. The reported loss is then the number of sequence numbers that never arrived
  minus the number of repeated arrivals, cut off at \<open>0x7fffff\<close> in both directions; without
  repetitions it is the number of packets skipped.\<close>

theorem calc_lost_exact:
  assumes "s_probation s = 0" and "in_order e xs" and "last (e # xs) - e < 2 ^ 31" and "length xs < 2 ^ 31"
  shows "rtp_source_calc_lost (receive_all (rtp_source_init_seq s (of_nat e)) (map of_nat (e # xs)))
    = max (- 0x7fffff) (min 0x7fffff
        (int (card ({e..last (e # xs)} - set (e # xs))) - int (length (e # xs) - card (set (e # xs)))))"
proof -
  let ?s0 = "rtp_source_init_seq s (of_nat e)" and ?n = "last (e # xs) - e" and ?m = "length xs"
  let ?t = "receive_all ?s0 (map of_nat (e # xs))"
  have ord: "in_order e (e # xs)" using assms(2) by (simp add: MAX_DROPOUT_def)
  have p0: "s_probation ?s0 = 0" "s_max_seq ?s0 = of_nat e" using assms(1) by (simp_all add: rtp_source_init_seq_def)
  from receive_in_order [OF this ord]
  have t: "ext_seq ?t = ext_seq ?s0 + of_nat ?n" "s_received ?t = s_received ?s0 + of_nat (Suc ?m)"
    "s_base_seq ?t = s_base_seq ?s0" by simp_all
  have "expected_pkts ?t - s_received ?t = of_nat ?n - of_nat ?m"
    unfolding expected_ext t by (simp add: ext_seq_def rtp_source_init_seq_def)
  also have "\<dots> = word_of_int (int ?n - int ?m)" by simp
  finally have "sint (expected_pkts ?t - s_received ?t) = int ?n - int ?m"
    using assms(3,4) sint_32_small [of "int ?n - int ?m"] by simp
  then show ?thesis
    unfolding missing_repeats [OF assms(2)] rtp_source_calc_lost_def Let_def by simp
qed

theorem calc_lost_exact_witness:
  "rtp_source_calc_lost (receive_all (rtp_source_init_seq rtp_source_zero (of_nat 65534)) (map of_nat [65534, 65535, 65535, 65538])) = 1
   \<and> rtp_source_calc_lost (receive_all (rtp_source_init_seq rtp_source_zero (of_nat 65534)) (map of_nat [65534, 65535, 65538])) = 2"
proof -
  have "{65534..65538} - {65534, 65535, 65538} = {65536, 65537 :: nat}" by auto
  then show ?thesis
    using calc_lost_exact [of rtp_source_zero 65534 "[65535, 65535, 65538]"]
      calc_lost_exact [of rtp_source_zero 65534 "[65535, 65538]"]
    by (simp add: rtp_source_zero_def MAX_DROPOUT_def insert_commute)
qed

text \<open>The jitter estimate stays bounded. If the estimate is at most 16 times a bound \<open>B\<close> on the change of
  the transit time between packets, it still is after the next packet: the reported jitter,
  the estimate divided by 16, never exceeds the largest change.\<close>

theorem calc_jitter_bounded:
  assumes "unat (s_jitter s) \<le> 16 * B" and "\<bar>sint (arrival - rtp_ts - s_transit s)\<bar> \<le> int B" and "B < 0x7000000"
  shows "unat (s_jitter (rtp_source_calc_jitter s rtp_ts arrival)) \<le> 16 * B"
proof (cases "s_transit s = 0")
  case True
  then show ?thesis using assms(1) by (simp add: rtp_source_calc_jitter_def Let_def)
next
  case False
  define x where "x = arrival - rtp_ts - s_transit s"
  define d where "d = (if sint x < 0 then - x else x)"
  have "d = word_of_int \<bar>sint x\<bar>"
    by (simp add: d_def)
  then have "unat d = nat \<bar>sint x\<bar>"
    using assms(2,3) by (simp add: x_def unsigned_of_int take_bit_int_eq_self)
  then have d: "unat d \<le> B" using assms(2) by (simp add: x_def)
  let ?j = "unat (s_jitter s)"
  have "unat (s_jitter s + 8) = ?j + 8"
    using assms(1,3) by (subst unat_plus_if') simp
  then have sh: "unat (drop_bit 4 (s_jitter s + 8)) = (?j + 8) div 16"
    by (simp add: unat_drop_bit_div)
  have "s_jitter (rtp_source_calc_jitter s rtp_ts arrival) = s_jitter s + d - drop_bit 4 (s_jitter s + 8)"
    using False by (simp add: rtp_source_calc_jitter_def Let_def d_def x_def)
  moreover have "unat (s_jitter s + d) = ?j + unat d"
    using assms(1,3) d by (subst unat_plus_if') simp
  moreover have "(?j + 8) div 16 \<le> ?j" by simp
  ultimately have "unat (s_jitter (rtp_source_calc_jitter s rtp_ts arrival)) = ?j + unat d - (?j + 8) div 16"
    using sh by (simp add: unat_sub word_le_nat_alt)
  also have "\<dots> \<le> 16 * B"
  proof -
    have "?j < 16 * ((?j + 8) div 16) + 8" by linarith
    then show ?thesis using assms(1) d by (cases "unat d \<le> (?j + 8) div 16") linarith+
  qed
  finally show ?thesis .
qed

text \<open>The compact NTP time counts 1/65536 seconds; its conversion to microseconds is exact up to
  rounding down, for every value.\<close>

theorem ntp_compact2us_exact: "unat (ntp_compact2us c) = unat c * 1000000 div 65536"
proof -
  define n h l where "n = unat c" and "h = n div 65536" and "l = n mod 65536"
  have n: "n < 4294967296" using unsigned_less [of c, where 'a = nat] by (simp add: n_def)
  then have hl: "h < 65536" "l < 65536" "n = h * 65536 + l" by (auto simp: h_def l_def)
  have m: "(0xffff :: u32) = mask 16" by (simp add: mask_eq_exp_minus_1)
  have "unat (drop_bit 16 c) = h" by (simp add: unat_drop_bit_div h_def n_def)
  then have hi: "unat (drop_bit 16 c AND 0xffff) = h"
    using hl and_mask_small [of "drop_bit 16 c" 16] by (simp only: m) simp
  have "unat (c AND 0xffff) = l"
    unfolding m take_bit_eq_mask [symmetric] unsigned_take_bit_eq by (simp add: take_bit_eq_mod l_def n_def)
  then have lo: "unat (push_bit 16 (c AND 0xffff)) = l * 65536"
    using hl by (simp add: push_bit_eq_mult unat_word_ariths)
  have u1: "unat (1000000 * ucast (drop_bit 16 c AND 0xffff) :: u64) = 1000000 * h"
    using hi hl by (simp add: unat_word_ariths unsigned_ucast_eq take_bit_nat_eq_self)
  have "unat (1000000 * ucast (push_bit 16 (c AND 0xffff)) :: u64) = 1000000 * (l * 65536)"
    using lo hl by (simp add: unat_word_ariths unsigned_ucast_eq take_bit_nat_eq_self)
  then have u2: "unat (drop_bit 32 (1000000 * ucast (push_bit 16 (c AND 0xffff)) :: u64)) = 1000000 * l div 65536"
    by (simp add: unat_drop_bit_div)
  have "unat (ntp_compact2us c) = 1000000 * h + 1000000 * l div 65536"
    using u1 u2 hl by (simp add: ntp_compact2us_def Let_def unat_word_ariths)
  also have "\<dots> = n * 1000000 div 65536" using hl(3) by simp
  finally show ?thesis by (simp add: n_def)
qed

theorem calc_jitter_bounded_witness:
  "unat (s_jitter (rtp_source_calc_jitter (rtp_source_zero\<lparr>s_transit := 100, s_jitter := 160\<rparr>) 1000 1092)) \<le> 16 * 10"
proof -
  have "sint (-8 :: u32) = -8" using sint_32_small [of "-8"] by simp
  then show ?thesis
    using calc_jitter_bounded [of "rtp_source_zero\<lparr>s_transit := 100, s_jitter := 160\<rparr>" 10 1092 1000]
    by (simp add: rtp_source_zero_def)
qed

text \<open>The fraction lost of an interval is the number of lost packets in 1/256 of those expected, rounded
  down and reduced to 8 bits. When every packet of the interval was lost it is 256, which is
  stored as 0: total loss is reported as no loss.\<close>

theorem fraction_lost_value:
  assumes "0 < lost" and "lost \<le> expected" and "expected < 0x800000"
    and "expected_pkts s - s_expected_prior s = of_nat expected"
    and "s_received s - s_received_prior s = of_nat (expected - lost)"
  shows "unat (fst (rtp_source_calc_fraction_lost s)) = (256 * lost div expected) mod 256
    \<and> (lost = expected \<longrightarrow> fst (rtp_source_calc_fraction_lost s) = 0)"
proof -
  have L: "(of_nat expected :: u32) - of_nat (expected - lost) = of_nat lost"
    using assms(2) by (simp add: of_nat_diff)
  have sl: "sint (of_nat lost :: u32) = int lost" "sint (of_nat expected :: u32) = int expected"
    using assms(2,3) sint_32_small [of "int lost"] sint_32_small [of "int expected"] by simp_all
  have ne: "(of_nat expected :: u32) \<noteq> 0"
    using sl(2) assms(1,2) by (metis of_nat_0_less_iff less_irrefl order_less_le_trans signed_0)
  have "push_bit 8 (of_nat lost :: u32) = word_of_int (256 * int lost)"
    by (simp add: push_bit_eq_mult)
  then have sh: "sint (push_bit 8 (of_nat lost :: u32)) = 256 * int lost"
    using assms(2,3) by (simp only: sint_32_small)
  have "fst (rtp_source_calc_fraction_lost s) = of_int (256 * int lost div int expected)"
    using ne assms(1,2)
    unfolding rtp_source_calc_fraction_lost_def Let_def assms(4,5) L sl sh
    by (simp add: sgn_mult)
  also have "256 * int lost div int expected = int (256 * lost div expected)" by (simp add: zdiv_int)
  finally have v: "unat (fst (rtp_source_calc_fraction_lost s)) = (256 * lost div expected) mod 256"
    by (simp only: of_int_of_nat_eq unat_of_nat) simp
  moreover have "fst (rtp_source_calc_fraction_lost s) = 0" if "lost = expected"
    using v that assms(1) by (simp add: unat_eq_0)
  ultimately show ?thesis by blast
qed

theorem fraction_lost_value_witness:
  "fst (rtp_source_calc_fraction_lost (rtp_source_zero\<lparr>s_max_seq := 4\<rparr>)) = 0
   \<and> unat (fst (rtp_source_calc_fraction_lost (rtp_source_zero\<lparr>s_max_seq := 4, s_received := 4\<rparr>))) = 51"
  using fraction_lost_value [of 5 5 "rtp_source_zero\<lparr>s_max_seq := 4\<rparr>"]
    fraction_lost_value [of 1 5 "rtp_source_zero\<lparr>s_max_seq := 4, s_received := 4\<rparr>"]
  by (simp add: rtp_source_zero_def expected_pkts_def)

end
