(* ===== verification/Hash.thy ===== *)
theory Hash
  imports Prelude "HOL-Library.Multiset"
begin

text \<open>
  The hash table of \<open>re/src/hash/hash.c\<close>: an array of linked lists whose size is a power of two.

  A bucket is the list of its elements (theory \<open>Linked_List\<close> proves that the pointer lists behave
  so); an element is the record that embeds the list node. Apply handlers may change the
  element and a state of their own, as their C counterparts do through pointers. The
  locale \<open>table\<close> is what users that store one element per key rely on.
\<close>

record 'a hash =
  bucket :: "'a list list"
  bsize :: u32

text \<open>\<open>key & (h->bsize-1)\<close>.\<close>

definition bidx :: "'a hash \<Rightarrow> u32 \<Rightarrow> nat" where
  "bidx h key = unat (key AND (bsize h - 1))"

text \<open>\<open>mem1\<close> and \<open>mem2\<close> tell whether the two allocations succeed.\<close>

definition hash_alloc :: "bool \<Rightarrow> bool \<Rightarrow> u32 \<Rightarrow> errno + 'a hash" where
  "hash_alloc mem1 mem2 n =
     (if n = 0 then Inl EINVAL
      else if n AND (n - 1) \<noteq> 0 then Inl EINVAL
      else if \<not> mem1 then Inl ENOMEM
      else if \<not> mem2 then Inl ENOMEM
      else Inr \<lparr>bucket = replicate (unat n) [], bsize = n\<rparr>)"

definition hash_append :: "'a hash \<Rightarrow> u32 \<Rightarrow> 'a \<Rightarrow> 'a hash" where
  "hash_append h key x = h\<lparr>bucket := (bucket h)[bidx h key := bucket h ! bidx h key @ [x]]\<rparr>"

text \<open>\<open>list_unlink\<close> takes the element out of the bucket it is in.\<close>

definition hash_unlink :: "'a hash \<Rightarrow> 'a \<Rightarrow> 'a hash" where
  "hash_unlink h x = h\<lparr>bucket := map (remove1 x) (bucket h)\<rparr>"

definition hash_lookup :: "'a hash \<Rightarrow> u32 \<Rightarrow> ('a \<Rightarrow> bool) \<Rightarrow> 'a option" where
  "hash_lookup h key ah = find ah (bucket h ! bidx h key)"

text \<open>\<open>list_apply\<close> with a handler that changes the element and a state; the flag tells whether it stopped.\<close>

fun apply_list :: "('a \<Rightarrow> 's \<Rightarrow> bool \<times> 'a \<times> 's) \<Rightarrow> 'a list \<Rightarrow> 's \<Rightarrow> bool \<times> 'a list \<times> 's" where
  "apply_list ah [] s = (False, [], s)"
| "apply_list ah (x # xs) s =
     (case ah x s of (stop, x', s') \<Rightarrow>
        if stop then (True, x' # xs, s')
        else (case apply_list ah xs s' of (stop', xs', s'') \<Rightarrow> (stop', x' # xs', s'')))"

fun apply_buckets :: "('a \<Rightarrow> 's \<Rightarrow> bool \<times> 'a \<times> 's) \<Rightarrow> 'a list list \<Rightarrow> 's \<Rightarrow> bool \<times> 'a list list \<times> 's" where
  "apply_buckets ah [] s = (False, [], s)"
| "apply_buckets ah (b # bs) s =
     (case apply_list ah b s of (stop, b', s') \<Rightarrow>
        if stop then (True, b' # bs, s')
        else (case apply_buckets ah bs s' of (stop', bs', s'') \<Rightarrow> (stop', b' # bs', s'')))"

definition hash_apply :: "'a hash \<Rightarrow> ('a \<Rightarrow> 's \<Rightarrow> bool \<times> 'a \<times> 's) \<Rightarrow> 's \<Rightarrow> bool \<times> 'a hash \<times> 's" where
  "hash_apply h ah s =
     (case apply_buckets ah (bucket h) s of (stop, bs, s') \<Rightarrow> (stop, h\<lparr>bucket := bs\<rparr>, s'))"

definition hash_list_idx :: "'a hash \<Rightarrow> u32 \<Rightarrow> 'a list option" where
  "hash_list_idx h i = (if i \<ge> bsize h then None else Some (bucket h ! unat i))"

definition hash_list :: "'a hash \<Rightarrow> u32 \<Rightarrow> 'a list" where
  "hash_list h key = bucket h ! bidx h key"

definition hash_flush :: "'a hash \<Rightarrow> 'a hash \<times> 'a list" where
  "hash_flush h = (h\<lparr>bucket := map (\<lambda>_. []) (bucket h)\<rparr>, concat (bucket h))"

definition hash_clear :: "'a hash \<Rightarrow> 'a hash" where
  "hash_clear h = h\<lparr>bucket := map (\<lambda>_. []) (bucket h)\<rparr>"

function valid_size_loop :: "u32 \<Rightarrow> nat \<Rightarrow> nat" where
  "valid_size_loop n x = (if push_bit x 1 < n \<and> x < 31 then valid_size_loop n (Suc x) else x)"
  by auto
termination by (relation "measure (\<lambda>(n, x). 31 - x)") auto

declare valid_size_loop.simps [simp del]

definition hash_valid_size :: "u32 \<Rightarrow> u32" where
  "hash_valid_size n = push_bit (valid_size_loop n 0) 1"

section \<open>The contract of a table with one element per key\<close>

locale table =
  fixes ok :: "'t \<Rightarrow> bool"
    and items :: "'t \<Rightarrow> 'a multiset"
    and key :: "'a \<Rightarrow> u32"
    and look :: "'t \<Rightarrow> u32 \<Rightarrow> 'a option"
    and add :: "'t \<Rightarrow> 'a \<Rightarrow> 't"
    and del :: "'t \<Rightarrow> 'a \<Rightarrow> 't"
  assumes add_ok: "ok t \<Longrightarrow> look t (key x) = None \<Longrightarrow> ok (add t x)"
    and add_items: "ok t \<Longrightarrow> items (add t x) = add_mset x (items t)"
    and del_ok: "ok t \<Longrightarrow> ok (del t x)"
    and del_items: "ok t \<Longrightarrow> items (del t x) = items t - {#x#}"
    and look_Some: "ok t \<Longrightarrow> look t k = Some x \<Longrightarrow> x \<in># items t \<and> key x = k"
    and look_None: "ok t \<Longrightarrow> look t k = None \<Longrightarrow> k \<notin># image_mset key (items t)"
    and keys_distinct: "ok t \<Longrightarrow> count (image_mset key (items t)) k \<le> 1"
begin

lemma look_iff: "ok t \<Longrightarrow> look t k = Some x \<longleftrightarrow> x \<in># items t \<and> key x = k"
proof
  assume ok: "ok t" and x: "x \<in># items t \<and> key x = k"
  then obtain y where y: "look t k = Some y" using look_None [OF ok, of k] by (cases "look t k") auto
  with look_Some [OF ok] have "y \<in># items t" "key y = k" by auto
  moreover have "y = x"
  proof (rule ccontr)
    assume "y \<noteq> x"
    with x \<open>y \<in># items t\<close> obtain A where "items t = {#x, y#} + A"
      by (metis add_mset_add_single insert_DiffM2 insert_noteq_member multi_member_split union_mset_add_mset_left
          add.left_neutral union_mset_add_mset_right)
    then have "count (image_mset key (items t)) k \<ge> 2" using x \<open>key y = k\<close> by simp
    with keys_distinct [OF ok, of k] show False by simp
  qed
  ultimately show "look t k = Some x" using y by simp
qed (use look_Some in auto)

lemma look_add:
  assumes "ok t" and "look t (key x) = None"
  shows "look (add t x) k = (if k = key x then Some x else look t k)"
proof (rule option_eqI)
  fix y
  have "look (add t x) k = Some y \<longleftrightarrow> (y = x \<or> y \<in># items t) \<and> key y = k"
    using look_iff [OF add_ok [OF assms], of k y] add_items [OF assms(1)] by simp
  moreover have "y \<in># items t \<Longrightarrow> key y \<noteq> key x" using look_None [OF assms] by (metis image_eqI set_image_mset)
  ultimately show "look (add t x) k = Some y \<longleftrightarrow> (if k = key x then Some x else look t k) = Some y"
    using look_iff [OF assms(1), of k y] by auto
qed

lemma look_del:
  assumes "ok t" and "look t (key x) = Some x"
  shows "look (del t x) k = (if k = key x then None else look t k)"
proof (rule option_eqI)
  fix y
  have x: "x \<in># items t" using look_Some [OF assms] by simp
  have "look (del t x) k = Some y \<longleftrightarrow> y \<in># items t - {#x#} \<and> key y = k"
    using look_iff [OF del_ok [OF assms(1), of x], of k y] del_items [OF assms(1)] by simp
  moreover have "\<not> (y \<in># items t - {#x#} \<and> key y = key x)"
  proof
    assume y: "y \<in># items t - {#x#} \<and> key y = key x"
    obtain A where A: "items t = add_mset x A" using x by (rule multi_member_split [THEN exE])
    with y obtain B where "A = add_mset y B" using multi_member_split [of y A] by auto
    with A y have "count (image_mset key (items t)) (key x) \<ge> 2" by simp
    with keys_distinct [OF assms(1), of "key x"] show False by simp
  qed
  moreover have "y \<noteq> x \<Longrightarrow> y \<in># items t - {#x#} \<longleftrightarrow> y \<in># items t" by (simp add: in_diff_count count_eq_zero_iff [symmetric])
  ultimately show "look (del t x) k = Some y \<longleftrightarrow> (if k = key x then None else look t k) = Some y"
    using look_iff [OF assms(1), of k y] by auto
qed

text \<open>How many elements satisfy a condition, as users that keep such a counter do it.\<close>

lemma count_add: "ok t \<Longrightarrow> size (filter_mset P (items (add t x))) = size (filter_mset P (items t)) + of_bool (P x)"
  by (simp add: add_items)

lemma count_del:
  "ok t \<Longrightarrow> x \<in># items t \<Longrightarrow> size (filter_mset P (items t)) = size (filter_mset P (items (del t x))) + of_bool (P x)"
  by (auto simp: del_items dest: multi_member_split)

end

section \<open>The hash table keeps it\<close>

definition hash_items :: "'a hash \<Rightarrow> 'a multiset" where
  "hash_items h = mset (concat (bucket h))"

definition hash_ok :: "('a \<Rightarrow> u32) \<Rightarrow> 'a hash \<Rightarrow> bool" where
  "hash_ok key h \<longleftrightarrow> bsize h \<noteq> 0 \<and> length (bucket h) = unat (bsize h)
     \<and> (\<forall>i < length (bucket h). \<forall>x \<in> set (bucket h ! i). bidx h (key x) = i)
     \<and> distinct (map key (concat (bucket h)))"

lemma bidx_less: "hash_ok key h \<Longrightarrow> bidx h k < length (bucket h)"
proof -
  assume h: "hash_ok key h"
  have "k AND (bsize h - 1) \<le> bsize h - 1" by (rule word_and_le1)
  then have "unat (k AND (bsize h - 1)) \<le> unat (bsize h - 1)" by (simp add: word_le_nat_alt)
  also have "\<dots> = unat (bsize h) - 1" using h by (intro unat_minus_one) (simp add: hash_ok_def)
  also have "\<dots> < unat (bsize h)" using h by (simp add: hash_ok_def unat_gt_0)
  finally show ?thesis using h by (simp add: bidx_def hash_ok_def)
qed

lemma concat_split: "i < length bs \<Longrightarrow> concat bs = concat (take i bs) @ bs ! i @ concat (drop (Suc i) bs)"
  by (metis concat.simps(2) concat_append id_take_nth_drop)

lemma concat_update: "i < length bs \<Longrightarrow> concat (bs[i := b]) = concat (take i bs) @ b @ concat (drop (Suc i) bs)"
  by (simp add: upd_conv_take_nth_drop)

lemma concat_remove1:
  assumes "distinct (concat bs)"
  shows "mset (concat (map (remove1 x) bs)) = mset (concat bs) - {#x#}"
    and "set (concat (map (remove1 x) bs)) \<subseteq> set (concat bs)"
  using assms
proof (induction bs)
  case (Cons b bs)
  {
    case 1
    show ?case
    proof (cases "x \<in> set b")
      case True
      with 1 have "remove1 x c = c" if "c \<in> set bs" for c
        using that by (intro remove1_idem) auto
      then have "map (remove1 x) bs = bs" by (simp add: map_idI)
      with True show ?thesis by simp
    next
      case False
      then have "mset b + (mset (concat bs) - {#x#}) = mset b + mset (concat bs) - {#x#}"
        by (cases "x \<in># mset (concat bs)") (simp_all add: diff_single_trivial del: mset_concat)
      with False Cons.IH(1) 1 show ?thesis by (simp add: remove1_idem)
    qed
  next
    case 2
    with Cons.IH(2) show ?case by (auto dest: notin_set_remove1)
  }
qed simp_all

lemma distinct_remove1_all: "distinct (map f (concat bs)) \<Longrightarrow> distinct (map f (concat (map (remove1 x) bs)))"
proof (induction bs)
  case (Cons b bs)
  have "set (remove1 x b) \<subseteq> set b" by (rule set_remove1_subset)
  moreover have "set (concat (map (remove1 x) bs)) \<subseteq> set (concat bs)"
    using set_remove1_subset by fastforce
  moreover have "distinct (map f (remove1 x b))"
    using Cons.prems by (auto simp: distinct_map intro: inj_on_subset)
  ultimately show ?case using Cons by (simp del: set_concat) blast
qed simp

lemma bidx_frame [simp]: "bidx (h\<lparr>bucket := bs\<rparr>) k = bidx h k"
  by (simp add: bidx_def)

lemma hash_upd: "bucket (h\<lparr>bucket := bs\<rparr>) = bs" "bsize (h\<lparr>bucket := bs\<rparr>) = bsize h"
  by simp_all

lemma hash_append_ok:
  assumes ok: "hash_ok key h" and new: "hash_lookup h (key x) (\<lambda>y. key y = key x) = None"
  shows "hash_ok key (hash_append h (key x) x)"
proof -
  let ?i = "bidx h (key x)"
  have i: "?i < length (bucket h)" using bidx_less [OF ok] .
  have b: "\<forall>i < length (bucket h). \<forall>y \<in> set (bucket h ! i). bidx h (key y) = i"
    and d: "distinct (map key (concat (bucket h)))" using ok by (simp_all add: hash_ok_def)
  have "key x \<notin> key ` set (concat (bucket h))"
  proof
    assume "key x \<in> key ` set (concat (bucket h))"
    then obtain y j where "j < length (bucket h)" "y \<in> set (bucket h ! j)" "key y = key x"
      by (auto simp: in_set_conv_nth) metis
    with b have "y \<in> set (bucket h ! ?i)" by metis
    with new \<open>key y = key x\<close> show False by (auto simp: hash_lookup_def find_None_iff)
  qed
  then have new': "key x \<notin> set (map key (concat (bucket h)))" by simp
  define P Q where "P = concat (take ?i (bucket h))" and "Q = concat (drop (Suc ?i) (bucket h))"
  have c: "concat (bucket h) = P @ bucket h ! ?i @ Q" unfolding P_def Q_def by (rule concat_split [OF i])
  define B where "B = bucket h ! ?i"
  have "distinct (map key (P @ (B @ [x]) @ Q))" using d new' unfolding c B_def [symmetric] by auto
  then have dist: "distinct (map key (concat ((bucket h)[?i := bucket h ! ?i @ [x]])))"
    by (simp only: concat_update [OF i] P_def Q_def B_def)
  have place: "\<forall>i < length (bucket h). \<forall>y \<in> set ((bucket h)[?i := bucket h ! ?i @ [x]] ! i). bidx h (key y) = i"
    using b i by (auto simp: nth_list_update)
  have size: "bsize h \<noteq> 0" "length (bucket h) = unat (bsize h)" using ok by (simp_all add: hash_ok_def)
  show ?thesis
    unfolding hash_ok_def hash_append_def bidx_frame hash_upd length_list_update
    by (intro conjI size place dist)
qed

lemma hash_unlink_ok:
  assumes ok: "hash_ok key h"
  shows "hash_ok key (hash_unlink h x)"
proof -
  have "distinct (map key (concat (map (remove1 x) (bucket h))))"
    using ok by (intro distinct_remove1_all) (simp add: hash_ok_def)
  moreover have "\<forall>i < length (bucket h). \<forall>y \<in> set (map (remove1 x) (bucket h) ! i). bidx h (key y) = i"
    using ok by (auto simp: hash_ok_def dest!: set_remove1_subset [THEN subsetD])
  ultimately show ?thesis using ok by (simp add: hash_ok_def hash_unlink_def)
qed

interpretation ht: table "hash_ok key" hash_items key "\<lambda>h k. hash_lookup h k (\<lambda>x. key x = k)"
    "\<lambda>h x. hash_append h (key x) x" hash_unlink for key :: "'a \<Rightarrow> u32"
proof (unfold_locales, goal_cases)
  case (1 h x)
  then show ?case by (rule hash_append_ok)
next
  case (2 h x)
  then show ?case using bidx_less [OF 2, of "key x"]
    by (simp add: hash_items_def hash_append_def concat_update concat_split)
next
  case (3 h x)
  then show ?case by (rule hash_unlink_ok)
next
  case (4 h x)
  then have "distinct (concat (bucket h))" by (simp add: hash_ok_def distinct_map)
  then show ?case by (simp add: hash_items_def hash_unlink_def concat_remove1)
next
  case (5 h k x)
  then have "x \<in> set (bucket h ! bidx h k)" "key x = k"
    by (auto simp: hash_lookup_def find_Some_iff)
  then show ?case using bidx_less [OF 5(1), of k] by (auto simp: hash_items_def)
next
  case (6 h k)
  then have none: "k \<notin> key ` set (bucket h ! bidx h k)" by (auto simp: hash_lookup_def find_None_iff)
  show ?case
  proof
    assume "k \<in># image_mset key (hash_items h)"
    then obtain y j where "j < length (bucket h)" "y \<in> set (bucket h ! j)" "key y = k"
      by (auto simp: hash_items_def in_set_conv_nth) metis
    with 6(1) none show False by (auto simp: hash_ok_def)
  qed
next
  case (7 h k)
  then have "distinct (map key (concat (bucket h)))" by (simp add: hash_ok_def)
  then show ?case by (metis distinct_count_atmost_1 hash_items_def mset_map le_numeral_extra(4) zero_le)
qed

section \<open>Sizes\<close>

lemma valid_size_loop_spec:
  "x \<le> 31 \<Longrightarrow> x \<le> valid_size_loop n x \<and> valid_size_loop n x \<le> 31
     \<and> (\<forall>y. x \<le> y \<longrightarrow> y < valid_size_loop n x \<longrightarrow> push_bit y 1 < n)
     \<and> (valid_size_loop n x < 31 \<longrightarrow> n \<le> push_bit (valid_size_loop n x) 1)"
proof (induction n x rule: valid_size_loop.induct)
  case (1 n x)
  show ?case
  proof (cases "push_bit x 1 < n \<and> x < 31")
    case True
    with 1 have IH: "Suc x \<le> valid_size_loop n (Suc x)" "valid_size_loop n (Suc x) \<le> 31"
      "\<forall>y. Suc x \<le> y \<longrightarrow> y < valid_size_loop n (Suc x) \<longrightarrow> push_bit y 1 < n"
      "valid_size_loop n (Suc x) < 31 \<longrightarrow> n \<le> push_bit (valid_size_loop n (Suc x)) 1" by auto
    have "valid_size_loop n x = valid_size_loop n (Suc x)"
      using True by (subst valid_size_loop.simps) simp
    moreover have "push_bit y 1 < n" if "x \<le> y" "y < valid_size_loop n (Suc x)" for y
      using that True IH(3) by (cases "y = x") auto
    ultimately show ?thesis using IH by auto
  next
    case False
    then have "valid_size_loop n x = x" by (subst valid_size_loop.simps) auto
    with False 1(2) show ?thesis by (auto simp: not_less)
  qed
qed

lemma power_of_two_accepted: "r < 32 \<Longrightarrow> push_bit r (1 :: u32) AND (push_bit r 1 - 1) = 0 \<and> push_bit r (1 :: u32) \<noteq> 0"
proof -
  assume r: "r < 32"
  have m: "push_bit r (1 :: u32) - 1 = mask r" by (simp add: mask_eq_exp_minus_1 push_bit_eq_mult)
  have "push_bit r (1 :: u32) AND mask r = 0"
    by (rule bit_word_eqI) (auto simp: bit_simps)
  moreover have "bit (push_bit r (1 :: u32)) r" using r by (simp add: bit_simps)
  ultimately show ?thesis unfolding m using r by auto
qed

section \<open>Properties\<close>

text \<open>A computed table size works. For every request up to \<open>2^31\<close>, \<open>hash_valid_size\<close> returns a size that is
  large enough, less than twice the request, and accepted by \<open>hash_alloc\<close>, so that the only
  failure left is that of the allocator.\<close>

theorem hash_valid_size_works:
  assumes "n \<le> 0x80000000"
  shows "n \<le> hash_valid_size n \<and> (hash_valid_size n \<noteq> 1 \<longrightarrow> unat (hash_valid_size n) < 2 * unat n)
    \<and> hash_alloc True True (hash_valid_size n)
        = (Inr \<lparr>bucket = replicate (unat (hash_valid_size n)) [], bsize = hash_valid_size n\<rparr> :: errno + 'a hash)
    \<and> hash_alloc False m2 (hash_valid_size n) = (Inl ENOMEM :: errno + 'a hash)
    \<and> hash_alloc True False (hash_valid_size n) = (Inl ENOMEM :: errno + 'a hash)"
proof -
  define r where "r = valid_size_loop n 0"
  have r: "r \<le> 31" "\<forall>y. y < r \<longrightarrow> push_bit y 1 < n" "r < 31 \<longrightarrow> n \<le> push_bit r 1"
    using valid_size_loop_spec [of 0 n] by (auto simp: r_def)
  have p: "unat (push_bit k (1 :: u32)) = 2 ^ k" if "k < 32" for k
  proof -
    have "push_bit k (1 :: u32) = of_nat (2 ^ k)" by (simp add: push_bit_eq_mult)
    moreover have "(2 :: nat) ^ k < 2 ^ 32" using that by (intro power_strict_increasing) auto
    ultimately show ?thesis by (simp only: unat_of_nat) simp
  qed
  have ge: "n \<le> push_bit r 1"
    using r assms by (cases "r < 31") (auto simp: le_less push_bit_eq_mult)
  have lt: "unat (push_bit r (1 :: u32)) < 2 * unat n" if "push_bit r (1 :: u32) \<noteq> 1"
  proof -
    have "r \<noteq> 0" using that by (auto intro: ccontr)
    then obtain k where k: "r = Suc k" by (cases r) auto
    with r(2) have "push_bit k 1 < n" by auto
    with p [of k] p [of r] r(1) k show ?thesis by (simp add: word_less_nat_alt)
  qed
  have "push_bit r (1 :: u32) AND (push_bit r 1 - 1) = 0" "push_bit r (1 :: u32) \<noteq> 0"
    using power_of_two_accepted [of r] r(1) by auto
  then show ?thesis using ge lt by (simp add: hash_valid_size_def hash_alloc_def r_def [symmetric])
qed

theorem hash_valid_size_works_witness:
  "(100 :: u32) \<le> hash_valid_size 100 \<and> hash_alloc True False (hash_valid_size 100) = (Inl ENOMEM :: errno + nat hash)"
  using hash_valid_size_works [of 100 False, where 'a = nat] by simp

text \<open>The table is a map. In a table with one element per key, a lookup finds the element appended under
  the key and is not changed for other keys; after an unlink it finds nothing under the key of the
  element removed, and is not changed for other keys.\<close>

theorem hash_lookup_after:
  assumes "hash_ok key h"
  shows "(hash_lookup h (key x) (\<lambda>y. key y = key x) = None \<longrightarrow>
            hash_lookup (hash_append h (key x) x) k (\<lambda>y. key y = k)
              = (if k = key x then Some x else hash_lookup h k (\<lambda>y. key y = k)))
    \<and> (hash_lookup h (key x) (\<lambda>y. key y = key x) = Some x \<longrightarrow>
            hash_lookup (hash_unlink h x) k (\<lambda>y. key y = k)
              = (if k = key x then None else hash_lookup h k (\<lambda>y. key y = k)))"
  using ht.look_add [OF assms] ht.look_del [OF assms] by auto

theorem hash_lookup_after_witness:
  "hash_lookup (hash_append \<lparr>bucket = [[], []], bsize = 2\<rparr> 5 (5 :: u32)) 5 (\<lambda>y. y = 5) = Some 5"
proof -
  have "hash_ok id \<lparr>bucket = [[], []], bsize = 2\<rparr>"
    by (auto simp: hash_ok_def less_Suc_eq)
  moreover have "hash_lookup \<lparr>bucket = [[], []], bsize = 2\<rparr> 5 (\<lambda>y. y = (5 :: u32)) = None"
    by (simp add: hash_lookup_def bidx_def)
  ultimately show ?thesis using hash_lookup_after [of id "\<lparr>bucket = [[], []], bsize = 2\<rparr>" 5 5] by simp
qed

end
