(* ===== verification/Rtcp_Blocks.thy ===== *)
theory Rtcp_Blocks
  imports Wire
begin

text \<open>
  The blocks RTCP packets are made of: the common header (\<open>re/src/rtp/pkt.c\<close>), report blocks (\<open>rr.c\<close>),
  source descriptions (\<open>sdes.c\<close>) and feedback messages (\<open>fb.c\<close>).

  A 24-bit signed bit-field is a \<open>24 word\<close>. Vectors that the code allocates are lists; the
  allocations themselves are kept, with the sizes of the 32-bit target, since their failure is
  an error path. A buffer that shares the bytes of the packet (\<open>mbuf_alloc_ref\<close>) is a copy of its
  cursor: decoders do not write.
\<close>

definition RTCP_VERSION :: u8 where "RTCP_VERSION = 2"
definition RTCP_HDR_SIZE :: nat where "RTCP_HDR_SIZE = 4"
definition RTCP_SRC_SIZE :: nat where "RTCP_SRC_SIZE = 4"
definition RTCP_RR_SIZE :: nat where "RTCP_RR_SIZE = 24"
definition RTCP_SDES_END :: u8 where "RTCP_SDES_END = 0"
definition RTCP_SDES_MIN_SIZE :: nat where "RTCP_SDES_MIN_SIZE = 1"
definition RTCP_RTPFB_GNACK :: u8 where "RTCP_RTPFB_GNACK = 1"
definition RTCP_RTPFB_TWCC :: u8 where "RTCP_RTPFB_TWCC = 15"
definition RTCP_PSFB_PLI :: u8 where "RTCP_PSFB_PLI = 1"
definition RTCP_PSFB_SLI :: u8 where "RTCP_PSFB_SLI = 2"
definition RTCP_PSFB_FIR :: u8 where "RTCP_PSFB_FIR = 4"
definition RTCP_PSFB_AFB :: u8 where "RTCP_PSFB_AFB = 15"
definition GNACK_SIZE :: nat where "GNACK_SIZE = 4"
definition FIR_SIZE :: nat where "FIR_SIZE = 8"
definition SLI_SIZE :: nat where "SLI_SIZE = 4"

section \<open>The common header\<close>

record rtcp_hdr =
  hd_version :: u8
  hd_p :: bool
  hd_count :: u8
  hd_pt :: u8
  hd_length :: u16

definition rtcp_hdr_zero :: rtcp_hdr where
  "rtcp_hdr_zero = \<lparr>hd_version = 0, hd_p = False, hd_count = 0, hd_pt = 0, hd_length = 0\<rparr>"

definition rtcp_hdr_encode :: "alloc \<Rightarrow> u8 \<Rightarrow> u8 \<Rightarrow> u16 \<Rightarrow> mbuf \<Rightarrow> errno option \<times> mbuf" where
  "rtcp_hdr_encode al cnt type len mb =
     also_err
       (also_err (mbuf_write_u8 al mb (push_bit 6 RTCP_VERSION OR cnt))
         (\<lambda>mb. mbuf_write_u8 al mb type))
       (\<lambda>mb. mbuf_write_u16 al mb (htons len))"

definition rtcp_hdr_decode :: "rtcp_hdr \<Rightarrow> mbuf \<Rightarrow> errno option \<times> rtcp_hdr \<times> mbuf" where
  "rtcp_hdr_decode hdr mb =
     (if mbuf_get_left mb < RTCP_HDR_SIZE then (Some EBADMSG, hdr, mb)
      else
        (case mbuf_read_u8 mb of (b, mb) \<Rightarrow>
        (case mbuf_read_u8 mb of (pt, mb) \<Rightarrow>
        (case read_be16 mb of (len, mb) \<Rightarrow>
          (None, hdr\<lparr>hd_pt := pt, hd_length := len, hd_version := drop_bit 6 b AND 0x3,
             hd_p := drop_bit 5 b AND 0x1 \<noteq> 0, hd_count := b AND 0x1f\<rparr>, mb)))))"

section \<open>Report blocks\<close>

record rtcp_rr =
  rr_ssrc :: u32
  rr_fraction :: u8
  rr_lost :: "24 word"
  rr_last_seq :: u32
  rr_jitter :: u32
  rr_lsr :: u32
  rr_dlsr :: u32

definition rtcp_rr_alloc :: "alloc \<Rightarrow> nat \<Rightarrow> mbuf \<Rightarrow> errno option \<times> mbuf" where
  "rtcp_rr_alloc al n mb = (case mem_alloc al (n * 24) mb of (ok, mb) \<Rightarrow> (if ok then None else Some ENOMEM, mb))"

definition rr_word :: "rtcp_rr \<Rightarrow> u32" where
  "rr_word rr = push_bit 24 (ucast (rr_fraction rr)) OR (ucast (rr_lost rr) AND 0x00ffffff)"

definition rtcp_rr_encode :: "alloc \<Rightarrow> rtcp_rr \<Rightarrow> mbuf \<Rightarrow> errno option \<times> mbuf" where
  "rtcp_rr_encode al rr mb =
     also_err (also_err (also_err (also_err (also_err
       (mbuf_write_u32 al mb (htonl (rr_ssrc rr)))
       (\<lambda>mb. mbuf_write_u32 al mb (htonl (rr_word rr))))
       (\<lambda>mb. mbuf_write_u32 al mb (htonl (rr_last_seq rr))))
       (\<lambda>mb. mbuf_write_u32 al mb (htonl (rr_jitter rr))))
       (\<lambda>mb. mbuf_write_u32 al mb (htonl (rr_lsr rr))))
       (\<lambda>mb. mbuf_write_u32 al mb (htonl (rr_dlsr rr)))"

definition rtcp_rr_decode :: "mbuf \<Rightarrow> errno option \<times> rtcp_rr option \<times> mbuf" where
  "rtcp_rr_decode mb =
     (if mbuf_get_left mb < RTCP_RR_SIZE then (Some EBADMSG, None, mb)
      else
        (case read_be32 mb of (src, mb) \<Rightarrow>
        (case read_be32 mb of (w, mb) \<Rightarrow>
        (case read_be32 mb of (sq, mb) \<Rightarrow>
        (case read_be32 mb of (jit, mb) \<Rightarrow>
        (case read_be32 mb of (lsr, mb) \<Rightarrow>
        (case read_be32 mb of (dlsr, mb) \<Rightarrow>
          (None, Some \<lparr>rr_ssrc = src, rr_fraction = ucast (drop_bit 24 w), rr_lost = ucast (w AND 0x00ffffff),
             rr_last_seq = sq, rr_jitter = jit, rr_lsr = lsr, rr_dlsr = dlsr\<rparr>, mb))))))))"

text \<open>\<open>for (i=0; i<count && !err; i++) err = rtcp_rr_decode(mb, &rrv[i])\<close>.\<close>

fun rr_decode_loop :: "nat \<Rightarrow> mbuf \<Rightarrow> errno option \<times> rtcp_rr list \<times> mbuf" where
  "rr_decode_loop 0 mb = (None, [], mb)"
| "rr_decode_loop (Suc n) mb =
     (case rtcp_rr_decode mb of
        (None, Some rr, mb) \<Rightarrow> (case rr_decode_loop n mb of (err, rrs, mb) \<Rightarrow> (err, rr # rrs, mb))
      | (err, _, mb) \<Rightarrow> (err, [], mb))"

section \<open>Source descriptions\<close>

record sdes_item =
  si_type :: u8
  si_length :: u8
  si_data :: "byte list"

record rtcp_sdes =
  sd_src :: u32
  sd_itemv :: "sdes_item list"

text \<open>
  The items of \<open>rtcp_sdes_encode\<close>: type and string, which may be NULL. The flag tells that the loop
  was left by \<open>goto out\<close>.
\<close>

fun sdes_items :: "alloc \<Rightarrow> (u8 \<times> byte list option) list \<Rightarrow> errno option \<times> mbuf \<Rightarrow> bool \<times> errno option \<times> mbuf" where
  "sdes_items al [] (err, mb) = (False, err, mb)"
| "sdes_items al ((type, v) # r) (err, mb) =
     (if err \<noteq> None then (False, err, mb)
      else
        (case v of
           None \<Rightarrow> sdes_items al r (err, mb)
         | Some s \<Rightarrow>
             if length s > 255 then (True, Some EINVAL, mb)
             else sdes_items al r
                    (also_err (also_err (mbuf_write_u8 al mb type)
                      (\<lambda>mb. mbuf_write_u8 al mb (of_nat (length s))))
                      (\<lambda>mb. mbuf_write_mem al mb (Some s)))))"

definition rtcp_sdes_encode ::
  "alloc \<Rightarrow> u32 \<Rightarrow> (u8 \<times> byte list option) list \<Rightarrow> mbuf \<Rightarrow> (errno option \<times> mbuf) option" where
  "rtcp_sdes_encode al src items mb =
     (if items = [] then Some (Some EINVAL, mb)
      else
        (case sdes_items al items (mbuf_write_u32 al mb (htonl src)) of
           (True, err, mb') \<Rightarrow> Some (err, mb')
         | (False, s) \<Rightarrow>
             pad_loop al 0 mb_pos (mb_pos mb) (also_err s (\<lambda>mb. mbuf_write_u8 al mb RTCP_SDES_END))))"

text \<open>One turn of the loop of \<open>rtcp_sdes_decode\<close>; the flag tells whether to go on.\<close>

definition sdes_step ::
  "alloc \<Rightarrow> bool \<times> errno option \<times> rtcp_sdes \<times> mbuf \<Rightarrow> bool \<times> errno option \<times> rtcp_sdes \<times> mbuf" where
  "sdes_step al st =
     (case st of (_, _, sdes, mb) \<Rightarrow>
      (case mbuf_read_u8 mb of (type, mb) \<Rightarrow>
        if type = RTCP_SDES_END then (False, None, sdes, mb)
        else if mbuf_get_left mb < 1 then (False, Some EBADMSG, sdes, mb)
        else
          (case mem_alloc al ((length (sd_itemv sdes) + 1) * 12) mb of (ok, mb) \<Rightarrow>
            if \<not> ok then (False, Some ENOMEM, sdes, mb)
            else
              (case mbuf_read_u8 mb of (len, mb) \<Rightarrow>
                if mbuf_get_left mb < unat len then (False, Some EBADMSG, sdes, mb)
                else
                  (case mem_alloc al (unat len) mb of (ok, mb) \<Rightarrow>
                    if \<not> ok then (False, Some ENOMEM, sdes, mb)
                    else
                      (case mbuf_read_mem mb (unat len) of (_, dat, mb) \<Rightarrow>
                        (True, None,
                         sdes\<lparr>sd_itemv := sd_itemv sdes @ [\<lparr>si_type = type, si_length = len, si_data = dat\<rparr>]\<rparr>, mb)))))))"

definition rtcp_sdes_decode :: "alloc \<Rightarrow> mbuf \<Rightarrow> (errno option \<times> rtcp_sdes \<times> mbuf) option" where
  "rtcp_sdes_decode al mb =
     (if mbuf_get_left mb < RTCP_SRC_SIZE then Some (Some EBADMSG, \<lparr>sd_src = 0, sd_itemv = []\<rparr>, mb)
      else
        (case read_be32 mb of (src, mb1) \<Rightarrow>
        (case while_option (\<lambda>(go, _, _, mb). go \<and> mbuf_get_left mb \<ge> RTCP_SDES_MIN_SIZE) (sdes_step al)
                (True, None, \<lparr>sd_src = src, sd_itemv = []\<rparr>, mb1) of
           None \<Rightarrow> None
         | Some (_, Some err, sdes, mb2) \<Rightarrow> Some (Some err, sdes, mb2)
         | Some (_, None, sdes, mb2) \<Rightarrow>
             (case slurp_padding (mb_pos mb) mb2 of
                None \<Rightarrow> None
              | Some mb3 \<Rightarrow> Some (None, sdes, mb3)))))"

section \<open>Feedback\<close>

definition rtcp_rtpfb_gnack_encode :: "alloc \<Rightarrow> u16 \<Rightarrow> u16 \<Rightarrow> mbuf \<Rightarrow> errno option \<times> mbuf" where
  "rtcp_rtpfb_gnack_encode al pid blp mb =
     also_err (mbuf_write_u16 al mb (htons pid)) (\<lambda>mb. mbuf_write_u16 al mb (htons blp))"

record twcc =
  tw_seq :: u16
  tw_count :: u16
  tw_reftime :: u32
  tw_fbcount :: u8
  tw_chunks :: "mbuf option"
  tw_deltas :: "mbuf option"

definition twcc_zero :: twcc where
  "twcc_zero = \<lparr>tw_seq = 0, tw_count = 0, tw_reftime = 0, tw_fbcount = 0, tw_chunks = None, tw_deltas = None\<rparr>"

definition rtcp_rtpfb_twcc_encode :: "alloc \<Rightarrow> twcc \<Rightarrow> mbuf \<Rightarrow> errno option \<times> mbuf" where
  "rtcp_rtpfb_twcc_encode al tw mb =
     also_err (also_err (also_err (also_err
       (mbuf_write_u16 al mb (htons (tw_seq tw)))
       (\<lambda>mb. mbuf_write_u16 al mb (htons (tw_count tw))))
       (\<lambda>mb. mbuf_write_u32 al mb (htonl (ucast (tw_fbcount tw) OR push_bit 8 (tw_reftime tw)))))
       (\<lambda>mb. mbuf_write_mem al mb (map_option mb_after (tw_chunks tw))))
       (\<lambda>mb. mbuf_write_mem al mb (map_option mb_after (tw_deltas tw)))"

definition mbuf_alloc_ref :: "alloc \<Rightarrow> mbuf \<Rightarrow> mbuf option \<times> mbuf" where
  "mbuf_alloc_ref al mbr =
     (case mem_alloc al sizeof_mbuf mbr of (ok, mb) \<Rightarrow> (if ok then Some mbr else None, mb))"

text \<open>How many of the \<open>i\<close> remaining packets a chunk describes, and the size of their deltas.\<close>

definition twcc_chunk :: "u16 \<Rightarrow> nat \<Rightarrow> nat \<times> nat" where
  "twcc_chunk chunk i =
     (if chunk AND 0x8000 \<noteq> 0 then
        (if chunk AND 0x4000 \<noteq> 0 then
           (min i 7, sum_list (map (\<lambda>j. unat (drop_bit (2 * (7 - 1 - j)) chunk AND 0x03)) [0..<min i 7]))
         else
           (min i 14, sum_list (map (\<lambda>j. unat (drop_bit (14 - 1 - j) chunk AND 0x01)) [0..<min i 14])))
      else
        (let n = min i (unat (chunk AND 0x1fff))
         in (n, sum_list (map (\<lambda>j. unat (drop_bit 13 chunk AND 0x03)) [0..<n]))))"

text \<open>The state of the loop: whether to go on, the error, \<open>i\<close>, \<open>sz\<close>, the chunks and the buffer.\<close>

definition twcc_step ::
  "bool \<times> errno option \<times> nat \<times> nat \<times> mbuf \<times> mbuf \<Rightarrow> bool \<times> errno option \<times> nat \<times> nat \<times> mbuf \<times> mbuf" where
  "twcc_step st =
     (case st of (_, _, i, sz, chunks, mb) \<Rightarrow>
        if mbuf_get_left mb < 2 then (False, Some EBADMSG, i, sz, chunks, mb)
        else
          (case read_be16 mb of (chunk, mb) \<Rightarrow>
          (case twcc_chunk chunk i of (j, n) \<Rightarrow>
            (True, None, i - j, sz + n, chunks\<lparr>mb_end := mb_end chunks + 2\<rparr>, mb))))"

definition rtcp_rtpfb_twcc_decode :: "alloc \<Rightarrow> nat \<Rightarrow> mbuf \<Rightarrow> (errno option \<times> twcc \<times> mbuf) option" where
  "rtcp_rtpfb_twcc_decode al n mb =
     (if mbuf_get_left mb < 8 then Some (Some EBADMSG, twcc_zero, mb)
      else
        (case read_be16 mb of (sq, mb) \<Rightarrow>
        (case read_be16 mb of (cnt, mb) \<Rightarrow>
          (let msg = twcc_zero\<lparr>tw_seq := sq, tw_count := cnt\<rparr> in
           if cnt = 0 \<or> cnt > 32768 then Some (Some EBADMSG, msg, mb)
           else
             (case read_be32 mb of (ref, mb) \<Rightarrow>
             (let msg = msg\<lparr>tw_fbcount := ucast (ref AND 0xff), tw_reftime := drop_bit 8 ref\<rparr> in
             (case mbuf_alloc_ref al mb of
                (None, mb) \<Rightarrow> Some (Some ENOMEM, msg, mb)
              | (Some ch, mb) \<Rightarrow>
                  (case while_option (\<lambda>(go, _, i, _, _, _). go \<and> i > 0) twcc_step
                          (True, None, unat cnt, 0, ch\<lparr>mb_end := mb_pos ch\<rparr>, mb) of
                     None \<Rightarrow> None
                   | Some (_, Some err, _, _, ch, mb) \<Rightarrow> Some (Some err, msg\<lparr>tw_chunks := Some ch\<rparr>, mb)
                   | Some (_, None, _, sz, ch, mb) \<Rightarrow>
                       (let msg = msg\<lparr>tw_chunks := Some ch\<rparr> in
                        if mbuf_get_left mb < sz then Some (Some EBADMSG, msg, mb)
                        else
                          (case mbuf_alloc_ref al mb of
                             (None, mb) \<Rightarrow> Some (Some ENOMEM, msg, mb)
                           | (Some de, mb) \<Rightarrow>
                               (let msg = msg\<lparr>tw_deltas := Some (de\<lparr>mb_end := mb_pos de + sz\<rparr>)\<rparr>;
                                    rest = size_wrap (int (n * 4) - 8 - int (mbuf_get_left ch))
                                in if mbuf_get_left mb < rest then Some (Some EBADMSG, msg, mb)
                                   else Some (None, msg, mbuf_advance mb (int rest)))))))))))))"

datatype fci =
    F_None
  | F_GNACK "(u16 \<times> u16) list"
  | F_SLI "(u16 \<times> u16 \<times> u8) list"
  | F_FIR "(u32 \<times> u8) list"
  | F_TWCC twcc
  | F_AFB mbuf

definition read_gnack :: "mbuf \<Rightarrow> (u16 \<times> u16) \<times> mbuf" where
  "read_gnack mb =
     (case read_be16 mb of (pid, mb) \<Rightarrow> (case read_be16 mb of (blp, mb) \<Rightarrow> ((pid, blp), mb)))"

definition rtcp_rtpfb_decode :: "alloc \<Rightarrow> u8 \<Rightarrow> nat \<Rightarrow> mbuf \<Rightarrow> (errno option \<times> fci \<times> mbuf) option" where
  "rtcp_rtpfb_decode al fmt n mb =
     (if fmt = RTCP_RTPFB_GNACK then
        (case mem_alloc al (n * 4) mb of (ok, mb) \<Rightarrow>
           if \<not> ok then Some (Some ENOMEM, F_None, mb)
           else if mbuf_get_left mb < n * GNACK_SIZE then Some (Some EBADMSG, F_None, mb)
           else (case read_list read_gnack n mb of (v, mb) \<Rightarrow> Some (None, F_GNACK v, mb)))
      else if fmt = RTCP_RTPFB_TWCC then
        (if mbuf_get_left mb < 8 then Some (Some EBADMSG, F_None, mb)
         else
           (case mem_alloc al 20 mb of (ok, mb) \<Rightarrow>
              if \<not> ok then Some (Some ENOMEM, F_None, mb)
              else map_option (\<lambda>(err, tw, mb). (err, F_TWCC tw, mb)) (rtcp_rtpfb_twcc_decode al n mb)))
      else Some (None, F_None, mb))"

definition read_sli :: "mbuf \<Rightarrow> (u16 \<times> u16 \<times> u8) \<times> mbuf" where
  "read_sli mb =
     (case read_be32 mb of (v, mb) \<Rightarrow>
        ((ucast (drop_bit 19 v AND 0x1fff), ucast (drop_bit 6 v AND 0x1fff), ucast (v AND 0x003f)), mb))"

definition read_fir :: "mbuf \<Rightarrow> (u32 \<times> u8) \<times> mbuf" where
  "read_fir mb =
     (case read_be32 mb of (src, mb) \<Rightarrow> (case mbuf_read_u8 mb of (sq, mb) \<Rightarrow> ((src, sq), mbuf_advance mb 3)))"

text \<open>The number of entries is returned too: for FIR it is halved.\<close>

definition rtcp_psfb_decode :: "alloc \<Rightarrow> u8 \<Rightarrow> nat \<Rightarrow> mbuf \<Rightarrow> errno option \<times> nat \<times> fci \<times> mbuf" where
  "rtcp_psfb_decode al fmt n mb =
     (if fmt = RTCP_PSFB_PLI then (None, n, F_None, mb)
      else if fmt = RTCP_PSFB_SLI then
        (case mem_alloc al (n * 6) mb of (ok, mb) \<Rightarrow>
           if \<not> ok then (Some ENOMEM, n, F_None, mb)
           else if mbuf_get_left mb < n * SLI_SIZE then (Some EBADMSG, n, F_None, mb)
           else (case read_list read_sli n mb of (v, mb) \<Rightarrow> (None, n, F_SLI v, mb)))
      else if fmt = RTCP_PSFB_AFB then
        (let sz = n * 4 in
         if mbuf_get_left mb < sz then (Some EBADMSG, n, F_None, mb)
         else
           (case mbuf_alloc_ref al mb of
              (None, mb) \<Rightarrow> (Some ENOMEM, n, F_None, mb)
            | (Some afb, mb) \<Rightarrow> (None, n, F_AFB (afb\<lparr>mb_end := mb_pos afb + sz\<rparr>), mbuf_advance mb (int sz))))
      else if fmt = RTCP_PSFB_FIR then
        (let n = n div 2 in
         case mem_alloc al (n * 8) mb of (ok, mb) \<Rightarrow>
           if \<not> ok then (Some ENOMEM, n, F_None, mb)
           else if mbuf_get_left mb < n * FIR_SIZE then (Some EBADMSG, n, F_None, mb)
           else (case read_list read_fir n mb of (v, mb) \<Rightarrow> (None, n, F_FIR v, mb)))
      else (None, n, F_None, mb))"

section \<open>Decoding stays in the packet\<close>

lemma reads_hdr_decode: "reads a mb \<Longrightarrow> reads a (snd (snd (rtcp_hdr_decode hdr mb)))"
  by (simp add: rtcp_hdr_decode_def case_prod_beta reads_prims)

lemma rtcp_hdr_decode_adv:
  assumes "mbuf_ok mb" and "4 \<le> mbuf_get_left mb"
  shows "\<exists>hdr'. rtcp_hdr_decode hdr mb = (None, hdr', mb_adv mb 4)"
proof -
  have len: "4 \<le> length (mb_after mb)" using assms by (simp add: mbuf_get_left_after del: length_mb_after)
  have "mbuf_read_u8 mb = (hd (mb_after mb), mb_adv mb 1)"
    "mbuf_read_u8 (mb_adv mb 1) = (hd (mb_after (mb_adv mb 1)), mb_adv mb 2)"
    "read_be16 (mb_adv mb 2) = (word_of_bytes (rev (take 2 (mb_after (mb_adv mb 2)))), mb_adv mb 4)"
    using assms(1) len reads_at(2) [of mb] reads_at(2) [of "mb_adv mb 1"] reads_at(3) [of "mb_adv mb 2"]
    by (simp_all del: length_mb_after add: numeral_2_eq_2 [symmetric])
  then show ?thesis using assms(2) by (simp add: rtcp_hdr_decode_def RTCP_HDR_SIZE_def)
qed

lemma reads_rr_decode: "reads a mb \<Longrightarrow> reads a (snd (snd (rtcp_rr_decode mb)))"
  by (simp add: rtcp_rr_decode_def case_prod_beta reads_prims)

lemma reads_rr_loop: "reads a mb \<Longrightarrow> reads a (snd (snd (rr_decode_loop n mb)))"
proof (induction n arbitrary: mb)
  case (Suc n)
  obtain e rr mb' where d: "rtcp_rr_decode mb = (e, rr, mb')" by (cases "rtcp_rr_decode mb")
  with reads_rr_decode [OF Suc.prems] have "reads a mb'" by simp
  with Suc.IH [of mb'] d show ?case by (auto simp: case_prod_beta split: option.split)
qed simp

lemma reads_sdes_step:
  assumes "reads a mb"
  shows "reads a (snd (snd (snd (sdes_step al (go, e, sdes, mb)))))"
  using assms by (simp add: sdes_step_def case_prod_beta reads_prims reads_mem_alloc)

lemma left_read_u8:
  assumes "mbuf_ok mb" and "1 \<le> mbuf_get_left mb"
  shows "mbuf_get_left (snd (mbuf_read_u8 mb)) < mbuf_get_left mb"
  using assms reads_at(2) [OF assms(1)] by (auto simp: mbuf_get_left_after del: length_mb_after)

lemma left_reads: "reads a mb \<Longrightarrow> mbuf_ok a \<Longrightarrow> mbuf_get_left mb \<le> mbuf_get_left a"
  by (auto simp: reads_def mbuf_get_left_def)

lemma sdes_step_progress:
  assumes ok: "mbuf_ok mb" and left: "1 \<le> mbuf_get_left mb"
  shows "mbuf_get_left (snd (snd (snd (sdes_step al (go, e, sdes, mb))))) < mbuf_get_left mb"
proof -
  let ?mb = "snd (mbuf_read_u8 mb)"
  have r: "reads ?mb ?mb" using reads_prims(1) [of mb mb] ok by auto
  have "reads ?mb (snd (snd (snd (sdes_step al (go, e, sdes, mb)))))"
    using r by (simp add: sdes_step_def case_prod_beta reads_prims reads_mem_alloc)
  with left_reads r left_read_u8 [OF ok left] show ?thesis by (metis le_less_trans reads_refl)
qed

lemma sdes_decode_returns:
  assumes r: "reads a mb"
  shows "\<exists>e sdes mb'. rtcp_sdes_decode al mb = Some (e, sdes, mb') \<and> reads a mb'"
proof (cases "mbuf_get_left mb < RTCP_SRC_SIZE")
  case True
  with r show ?thesis by (simp add: rtcp_sdes_decode_def)
next
  case False
  let ?P = "\<lambda>(go, e, sdes, mb). reads a mb"
  let ?b = "\<lambda>(go, e, sdes, mb). go \<and> mbuf_get_left mb \<ge> RTCP_SDES_MIN_SIZE"
  let ?s = "(True, None, \<lparr>sd_src = fst (read_be32 mb), sd_itemv = []\<rparr>, snd (read_be32 mb))"
  have start: "?P ?s" using reads_prims(3) [OF r] by simp
  have step: "?P (sdes_step al s) \<and> mbuf_get_left (snd (snd (snd (sdes_step al s)))) < mbuf_get_left (snd (snd (snd s)))"
    if "?P s" "?b s" for s
  proof -
    obtain go e sdes m where s: "s = (go, e, sdes, m)" by (cases s)
    with that show ?thesis
      using reads_sdes_step [of a m al go e sdes] sdes_step_progress [of m al go e sdes] reads_ok [of a m]
      by (auto simp: RTCP_SDES_MIN_SIZE_def case_prod_beta)
  qed
  have "\<exists>t. while_option ?b (sdes_step al) ?s = Some t"
    by (rule measure_while_option_Some [where P = ?P and f = "\<lambda>s. mbuf_get_left (snd (snd (snd s)))"]) (fact step, fact start)
  then obtain t where w: "while_option ?b (sdes_step al) ?s = Some t" ..
  have "?P t" by (rule while_option_rule [where P = ?P, OF _ w start]) (rule step [THEN conjunct1])
  moreover obtain go e sdes m where t: "t = (go, e, sdes, m)" by (cases t)
  ultimately have m: "reads a m" by simp
  show ?thesis
    using False w t m slurp_padding_returns [OF m, of "mb_pos mb"]
    by (cases e) (auto simp: rtcp_sdes_decode_def case_prod_beta)
qed

lemma twcc_step_progress:
  assumes "reads a mb"
  shows "case twcc_step (go, e, i, sz, ch, mb) of (go', e', i', sz', ch', mb') \<Rightarrow>
    reads a mb' \<and> (go' \<longrightarrow> mbuf_get_left mb' < mbuf_get_left mb)"
proof (cases "mbuf_get_left mb < 2")
  case True
  with assms show ?thesis by (simp add: twcc_step_def)
next
  case False
  then have "2 \<le> length (mb_after mb)"
    using reads_ok [OF assms] by (simp add: mbuf_get_left_after del: length_mb_after)
  then have "mbuf_get_left (snd (read_be16 mb)) < mbuf_get_left mb"
    using reads_ok [OF assms] reads_at(3) [OF reads_ok [OF assms]]
    by (simp add: mbuf_get_left_after del: length_mb_after)
  with False reads_prims(2) [OF assms] show ?thesis by (simp add: twcc_step_def case_prod_beta)
qed

lemma twcc_loop_returns:
  assumes r: "reads a mb"
  shows "\<exists>go e i sz ch mb'. while_option (\<lambda>(go, _, i, _, _, _). go \<and> i > 0) twcc_step (True, None, n, 0, ch0, mb)
      = Some (go, e, i, sz, ch, mb') \<and> reads a mb'"
proof -
  let ?b = "\<lambda>(go :: bool, e :: errno option, i :: nat, sz :: nat, ch :: mbuf, mb :: mbuf). go \<and> i > 0"
  let ?P = "\<lambda>(go :: bool, e :: errno option, i :: nat, sz :: nat, ch :: mbuf, mb). reads a mb"
  let ?m = "\<lambda>(go, e :: errno option, i :: nat, sz :: nat, ch :: mbuf, mb). 2 * mbuf_get_left mb + of_bool go"
  let ?s = "(True, None, n, 0, ch0, mb)"
  have step: "?P (twcc_step s) \<and> ?m (twcc_step s) < ?m s" if "?P s" "?b s" for s
  proof -
    obtain go e i sz ch m where s: "s = (go, e, i, sz, ch, m)" by (cases s)
    obtain go' e' i' sz' ch' m' where s': "twcc_step s = (go', e', i', sz', ch', m')" by (cases "twcc_step s")
    have "reads a m'" "go' \<longrightarrow> mbuf_get_left m' < mbuf_get_left m"
      using twcc_step_progress [of a m go e i sz ch] that(1) s s' by auto
    moreover have "mbuf_get_left m' \<le> mbuf_get_left m"
      using twcc_step_progress [of m m go e i sz ch] that(1) s s' left_reads [of m m'] reads_ok [of a m] by auto
    ultimately show ?thesis using that(2) s s' by (auto split: if_splits)
  qed
  have start: "?P ?s" using r by simp
  have "\<exists>t. while_option ?b twcc_step ?s = Some t"
    by (rule measure_while_option_Some [where P = ?P and f = ?m]) (fact step, fact start)
  then obtain t where w: "while_option ?b twcc_step ?s = Some t" ..
  have "?P t" by (rule while_option_rule [where P = ?P, OF _ w start]) (rule step [THEN conjunct1])
  with w show ?thesis by (cases t) auto
qed

lemma reads_alloc_ref: "reads a mb \<Longrightarrow> reads a (snd (mbuf_alloc_ref al mb))"
  by (simp add: mbuf_alloc_ref_def case_prod_beta reads_mem_alloc)

lemma twcc_decode_returns:
  assumes "reads a mb"
  shows "\<exists>e tw mb'. rtcp_rtpfb_twcc_decode al n mb = Some (e, tw, mb') \<and> reads a mb'"
proof -
  obtain sq m1 where m1: "read_be16 mb = (sq, m1)" by (cases "read_be16 mb")
  obtain cnt m2 where m2: "read_be16 m1 = (cnt, m2)" by (cases "read_be16 m1")
  obtain ref m3 where m3: "read_be32 m2 = (ref, m3)" by (cases "read_be32 m2")
  obtain c m4 where m4: "mbuf_alloc_ref al m3 = (c, m4)" by (cases "mbuf_alloc_ref al m3")
  have r: "reads a m1" "reads a m2" "reads a m3" "reads a m4"
    using assms reads_prims(2) [of a mb] reads_prims(2) [of a m1] reads_prims(3) [of a m2] reads_alloc_ref [of a m3 al]
      m1 m2 m3 m4 by simp_all
  show ?thesis
  proof (cases "mbuf_get_left mb < 8 \<or> cnt = 0 \<or> cnt > 32768 \<or> c = None")
    case True
    with m1 m2 m3 m4 r assms show ?thesis by (auto simp: rtcp_rtpfb_twcc_decode_def Let_def)
  next
    case False
    then obtain ch where ch: "c = Some ch" by auto
    obtain go e i sz ch' m5 where w: "while_option (\<lambda>(go, _, i, _, _, _). go \<and> i > 0) twcc_step
        (True, None, unat cnt, 0, ch\<lparr>mb_end := mb_pos ch\<rparr>, m4) = Some (go, e, i, sz, ch', m5)" and m5: "reads a m5"
      using twcc_loop_returns [OF r(4)] by blast
    obtain d m6 where m6: "mbuf_alloc_ref al m5 = (d, m6)" by (cases "mbuf_alloc_ref al m5")
    with reads_alloc_ref [OF m5, of al] have "reads a m6" by simp
    then show ?thesis
      using False m1 m2 m3 m4 ch w m5 m6 reads_advance [of a m6]
      by (cases e; cases d) (auto simp: rtcp_rtpfb_twcc_decode_def Let_def not_less)
  qed
qed

lemma fixed_blocks: "fixed read_gnack 4" "fixed read_sli 4" "fixed read_fir 8"
proof -
  show "fixed read_gnack 4" "fixed read_sli 4"
    by (simp_all add: fixed_def read_gnack_def read_sli_def reads_at del: length_mb_after)
  show "fixed read_fir 8"
    using mbuf_advance_adv [of "mb_adv mb 5" 3 for mb]
    by (simp add: fixed_def read_fir_def reads_at del: length_mb_after)
qed

lemma rtpfb_decode_returns:
  assumes "reads a mb"
  shows "\<exists>e f mb'. rtcp_rtpfb_decode al fmt n mb = Some (e, f, mb') \<and> reads a mb'"
proof -
  have m: "reads a (snd (mem_alloc al k mb))" for k using assms by (rule reads_mem_alloc)
  show ?thesis
    using assms m reads_read_list [OF fixed_blocks(1) m, of n "n * 4"] twcc_decode_returns [OF m [of 20], of al n]
    by (auto simp: rtcp_rtpfb_decode_def case_prod_beta GNACK_SIZE_def not_less)
qed

lemma reads_psfb_decode:
  assumes "reads a mb"
  shows "reads a (snd (snd (snd (rtcp_psfb_decode al fmt n mb))))"
proof -
  have m: "reads a (snd (mem_alloc al k mb))" for k using assms by (rule reads_mem_alloc)
  have left: "mbuf_get_left (snd (mbuf_alloc_ref al mb)) = mbuf_get_left mb"
    by (simp add: mbuf_alloc_ref_def mem_alloc_def mbuf_get_left_def)
  obtain c m' where c: "mbuf_alloc_ref al mb = (c, m')" by (cases "mbuf_alloc_ref al mb")
  have "reads a m'" using reads_alloc_ref [OF assms, of al] c by simp
  then have "n * 4 \<le> mbuf_get_left mb \<Longrightarrow> reads a (mbuf_advance m' (int (n * 4)))"
    using left c by (intro reads_advance) auto
  with \<open>reads a m'\<close> show ?thesis
    using assms m reads_read_list [OF fixed_blocks(2) m, of n "n * 6"]
      reads_read_list [OF fixed_blocks(3) m, of "n div 2" "n div 2 * 8"] c
    by (cases c) (auto simp: rtcp_psfb_decode_def case_prod_beta SLI_SIZE_def FIR_SIZE_def Let_def not_less)
qed

section \<open>Report blocks read back\<close>

definition rr_bytes :: "rtcp_rr \<Rightarrow> byte list" where
  "rr_bytes rr = be32 (rr_ssrc rr) @ be32 (rr_word rr) @ be32 (rr_last_seq rr) @ be32 (rr_jitter rr)
     @ be32 (rr_lsr rr) @ be32 (rr_dlsr rr)"

lemma length_rr_bytes [simp]: "length (rr_bytes rr) = 24"
  by (simp add: rr_bytes_def)

lemma rr_word_fields:
  "ucast (drop_bit 24 (rr_word rr)) = rr_fraction rr" "ucast (rr_word rr AND 0x00ffffff) = rr_lost rr"
proof -
  have m: "(0x00ffffff :: u32) = mask 24" by (simp add: mask_eq_exp_minus_1)
  show "ucast (drop_bit 24 (rr_word rr)) = rr_fraction rr"
    by (rule bit_word_eqI) (auto simp: rr_word_def m bit_simps dest: bit_imp_le_length)
  show "ucast (rr_word rr AND 0x00ffffff) = rr_lost rr"
    by (rule bit_word_eqI) (auto simp: rr_word_def m bit_simps dest: bit_imp_le_length)
qed

lemma rr_encode_writes: "writes (rtcp_rr_encode al rr) (rr_bytes rr)"
proof -
  have "writes (rtcp_rr_encode al rr)
      (((((be32 (rr_ssrc rr) @ be32 (rr_word rr)) @ be32 (rr_last_seq rr)) @ be32 (rr_jitter rr)) @ be32 (rr_lsr rr))
        @ be32 (rr_dlsr rr))"
    unfolding rtcp_rr_encode_def [abs_def] by (rule mbcur.writer_also writes_prims)+
  then show ?thesis by (simp add: rr_bytes_def)
qed

lemma rr_decode_bytes:
  assumes ok: "mbuf_ok mb" and after: "mb_after mb = rr_bytes rr @ r"
  shows "rtcp_rr_decode mb = (None, Some rr, mb_adv mb 24)"
proof -
  have len: "length (mb_after mb) = 24 + length r" using after by simp
  have "read_be32 mb = (rr_ssrc rr, mb_adv mb 4)" "read_be32 (mb_adv mb 4) = (rr_word rr, mb_adv mb 8)"
    "read_be32 (mb_adv mb 8) = (rr_last_seq rr, mb_adv mb 12)" "read_be32 (mb_adv mb 12) = (rr_jitter rr, mb_adv mb 16)"
    "read_be32 (mb_adv mb 16) = (rr_lsr rr, mb_adv mb 20)" "read_be32 (mb_adv mb 20) = (rr_dlsr rr, mb_adv mb 24)"
    using ok len after by (simp_all add: reads_at rr_bytes_def)
  moreover have "\<not> mbuf_get_left mb < RTCP_RR_SIZE"
    using ok len by (simp add: mbuf_get_left_after RTCP_RR_SIZE_def del: length_mb_after)
  ultimately show ?thesis by (simp add: rtcp_rr_decode_def rr_word_fields)
qed

lemma rr_loop_bytes:
  assumes "mbuf_ok mb" and "mb_after mb = concat (map rr_bytes rrs) @ r"
  shows "rr_decode_loop (length rrs) mb = (None, rrs, mb_adv mb (24 * length rrs))"
  using assms
proof (induction rrs arbitrary: mb)
  case (Cons rr rrs)
  have len: "24 \<le> length (mb_after mb)" using Cons.prems(2) by simp
  have "rtcp_rr_decode mb = (None, Some rr, mb_adv mb 24)"
    using rr_decode_bytes [OF Cons.prems(1), of rr] Cons.prems(2) by simp
  moreover have "rr_decode_loop (length rrs) (mb_adv mb 24) = (None, rrs, mb_adv (mb_adv mb 24) (24 * length rrs))"
    using Cons.prems len by (intro Cons.IH) (auto simp del: length_mb_after)
  ultimately show ?case by simp
qed simp

interpretation rrc: codec rr_bytes "run_decoder (\<lambda>mb. case rtcp_rr_decode mb of (e, rr, mb') \<Rightarrow> (e, the rr, mb'))" "\<lambda>_. True"
proof (unfold_locales, goal_cases)
  case (1 rr rest)
  then show ?case
    using rr_decode_bytes [of "mbuf_of (rr_bytes rr @ rest)" rr rest] by (simp add: run_decoder_def mbuf_of_view)
qed

section \<open>Encoding the header and the padding\<close>

definition hdr_bytes :: "u8 \<Rightarrow> u8 \<Rightarrow> u16 \<Rightarrow> byte list" where
  "hdr_bytes cnt type len = [push_bit 6 RTCP_VERSION OR cnt, type] @ be16 len"

lemma hdr_encode_writes: "writes (rtcp_hdr_encode al cnt type len) (hdr_bytes cnt type len)"
proof -
  have "writes (rtcp_hdr_encode al cnt type len) (([push_bit 6 RTCP_VERSION OR cnt] @ [type]) @ be16 len)"
    unfolding rtcp_hdr_encode_def [abs_def] by (rule mbcur.writer_also writes_prims)+
  then show ?thesis by (simp add: hdr_bytes_def)
qed

lemma hdr_encode_inplace: "inplace (rtcp_hdr_encode al cnt type len) 4"
proof -
  have "inplace (rtcp_hdr_encode al cnt type len) (1 + 1 + 2)"
    unfolding rtcp_hdr_encode_def [abs_def] by (rule inplace_also inplace_prims)+
  then show ?thesis by (simp add: numeral_eq_Suc)
qed

lemma hdr_decode_bytes:
  assumes ok: "mbuf_ok mb" and after: "mb_after mb = hdr_bytes cnt type len @ r" and cnt: "cnt < 32"
  shows "rtcp_hdr_decode hdr mb =
    (None, hdr\<lparr>hd_pt := type, hd_length := len, hd_version := RTCP_VERSION, hd_p := False, hd_count := cnt\<rparr>, mb_adv mb 4)"
proof -
  have len4: "length (mb_after mb) = 4 + length r" using after by (simp add: hdr_bytes_def)
  have steps: "mbuf_read_u8 mb = (push_bit 6 RTCP_VERSION OR cnt, mb_adv mb 1)" "mbuf_read_u8 (mb_adv mb 1) = (type, mb_adv mb 2)"
    "read_be16 (mb_adv mb 2) = (len, mb_adv mb 4)"
    using ok len4 after reads_at(2) [of mb] reads_at(2) [of "mb_adv mb 1"] reads_at(3) [of "mb_adv mb 2"]
    by (simp_all add: hdr_bytes_def numeral_2_eq_2 [symmetric])
  have small: "cnt AND 31 = cnt" "drop_bit 5 cnt = 0" "drop_bit 6 cnt = 0"
    using cnt and_mask_small [of cnt 5] drop_bit_small [of cnt 5] drop_bit_small [of cnt 6]
    by (simp_all add: mask_eq_exp_minus_1 word_less_nat_alt)
  have left: "\<not> mbuf_get_left mb < RTCP_HDR_SIZE"
    using ok len4 by (simp add: mbuf_get_left_after RTCP_HDR_SIZE_def del: length_mb_after)
  have fields: "drop_bit 6 (push_bit 6 RTCP_VERSION OR cnt) AND 3 = RTCP_VERSION"
    "drop_bit 5 (push_bit 6 RTCP_VERSION OR cnt) AND 1 = 0" "(push_bit 6 RTCP_VERSION OR cnt) AND 31 = cnt"
    using small by (simp_all add: RTCP_VERSION_def drop_bit_or bit.conj_disj_distrib2)
  show ?thesis using left steps fields by (simp add: rtcp_hdr_decode_def)
qed

end
