(* ===== verification/Rtcp_Pkt.thy ===== *)
theory Rtcp_Pkt
  imports Rtcp_Blocks
begin

text \<open>
  RTCP packets, \<open>re/src/rtp/pkt.c\<close>: the encoder \<open>rtcp_vencode\<close>, whose variable arguments are the
  constructors of \<open>rtcp_args\<close>, and the decoder \<open>rtcp_decode\<close> for arbitrary datagrams. The
  result \<open>None\<close> is a call that does not return; the theorems show when calls return.
\<close>

definition RTCP_FIR :: u8 where "RTCP_FIR = 192"
definition RTCP_NACK :: u8 where "RTCP_NACK = 193"
definition RTCP_SR :: u8 where "RTCP_SR = 200"
definition RTCP_RR :: u8 where "RTCP_RR = 201"
definition RTCP_SDES :: u8 where "RTCP_SDES = 202"
definition RTCP_BYE :: u8 where "RTCP_BYE = 203"
definition RTCP_APP :: u8 where "RTCP_APP = 204"
definition RTCP_RTPFB :: u8 where "RTCP_RTPFB = 205"
definition RTCP_PSFB :: u8 where "RTCP_PSFB = 206"
definition RTCP_XR :: u8 where "RTCP_XR = 207"
definition RTCP_SR_SIZE :: nat where "RTCP_SR_SIZE = 20"
definition RTCP_APP_SIZE :: nat where "RTCP_APP_SIZE = 8"
definition RTCP_FIR_SIZE :: nat where "RTCP_FIR_SIZE = 4"
definition RTCP_NACK_SIZE :: nat where "RTCP_NACK_SIZE = 8"
definition RTCP_FB_SIZE :: nat where "RTCP_FB_SIZE = 8"
definition RTCP_HEADROOM :: nat where "RTCP_HEADROOM = 4"
definition RTCP_XR_RRTR :: u8 where "RTCP_XR_RRTR = 4"
definition RTCP_XR_DLRR :: u8 where "RTCP_XR_DLRR = 5"

section \<open>Encoding\<close>

text \<open>An encode handler writes report blocks, items or feedback after the fixed part; it may be NULL.
  The sources of a goodbye are an array of which \<open>count\<close> elements are read, the name of
  application data has four bytes, and \<open>A_Other\<close> is a type the switch does not know.\<close>

type_synonym rtcp_encode_h = "mbuf \<Rightarrow> errno option \<times> mbuf"

datatype rtcp_args =
    A_SR u32 u32 u32 u32 u32 u32 "rtcp_encode_h option"
  | A_RR u32 "rtcp_encode_h option"
  | A_SDES "rtcp_encode_h option"
  | A_BYE "u32 list" "byte list option"
  | A_APP u32 "byte list" "byte list option"
  | A_FIR u32
  | A_NACK u32 u32 u32
  | A_RTPFB u32 u32 "rtcp_encode_h option"
  | A_PSFB u32 u32 "rtcp_encode_h option"
  | A_XR u32 "rtcp_encode_h option"
  | A_Other u8

fun args_type :: "rtcp_args \<Rightarrow> u8" where
  "args_type (A_SR _ _ _ _ _ _ _) = RTCP_SR"
| "args_type (A_RR _ _) = RTCP_RR"
| "args_type (A_SDES _) = RTCP_SDES"
| "args_type (A_BYE _ _) = RTCP_BYE"
| "args_type (A_APP _ _ _) = RTCP_APP"
| "args_type (A_FIR _) = RTCP_FIR"
| "args_type (A_NACK _ _ _) = RTCP_NACK"
| "args_type (A_RTPFB _ _ _) = RTCP_RTPFB"
| "args_type (A_PSFB _ _ _) = RTCP_PSFB"
| "args_type (A_XR _ _) = RTCP_XR"
| "args_type (A_Other t) = t"

definition call_ench :: "errno option \<times> mbuf \<Rightarrow> rtcp_encode_h option \<Rightarrow> errno option \<times> mbuf" where
  "call_ench s ench = (case ench of None \<Rightarrow> s | Some f \<Rightarrow> also_err s f)"

text \<open>\<open>for (i=0; i<count && !err; i++) err = mbuf_write_u32(mb, htonl(srcv[i]))\<close>. The read of an
  element the array does not have is outside memory the caller gave.\<close>

fun bye_srcs :: "alloc \<Rightarrow> nat \<Rightarrow> u32 list \<Rightarrow> mbuf \<Rightarrow> errno option \<times> mbuf" where
  "bye_srcs al 0 ss mb = (None, mb)"
| "bye_srcs al (Suc n) [] mb = (None, mb\<lparr>mb_ub := True\<rparr>)"
| "bye_srcs al (Suc n) (s # ss) mb =
     (case mbuf_write_u32 al mb (htonl s) of
        (None, mb') \<Rightarrow> bye_srcs al n ss mb'
      | (Some err, mb') \<Rightarrow> (Some err, mb'))"

text \<open>
  The type-specific part, written behind the space of the header. The first component tells
  that the function returns at once, as it does for application data of a wrong length and for
  an unknown type.
\<close>

fun rtcp_body_encode :: "alloc \<Rightarrow> u32 \<Rightarrow> rtcp_args \<Rightarrow> mbuf \<Rightarrow> bool \<times> errno option \<times> mbuf" where
  "rtcp_body_encode al count (A_SR a b c d e f ench) mb =
     (False, call_ench
        (foldl (\<lambda>s v. also_err s (\<lambda>mb. mbuf_write_u32 al mb (htonl v))) (None, mb) [a, b, c, d, e, f]) ench)"
| "rtcp_body_encode al count (A_RR src ench) mb = (False, call_ench (mbuf_write_u32 al mb (htonl src)) ench)"
| "rtcp_body_encode al count (A_SDES ench) mb = (False, call_ench (None, mb) ench)"
| "rtcp_body_encode al count (A_BYE srcv reason) mb =
     (let s = bye_srcs al (unat count) srcv mb
      in (False, case reason of None \<Rightarrow> s
          | Some r \<Rightarrow> also_err (also_err s (\<lambda>mb. mbuf_write_u8 al mb (of_nat (length r))))
                        (\<lambda>mb. mbuf_write_str al mb (Some r))))"
| "rtcp_body_encode al count (A_APP src name dat) mb =
     (let s = also_err (mbuf_write_u32 al mb (htonl src)) (\<lambda>mb. mbuf_write_mem al mb (Some name))
      in (case dat of None \<Rightarrow> (False, s)
          | Some d \<Rightarrow> if length d mod 4 \<noteq> 0 then (True, Some EBADMSG, snd s)
                      else (False, also_err s (\<lambda>mb. mbuf_write_mem al mb (Some d)))))"
| "rtcp_body_encode al count (A_FIR src) mb = (False, mbuf_write_u32 al mb (htonl src))"
| "rtcp_body_encode al count (A_NACK src fsn blp) mb =
     (False, also_err (also_err (mbuf_write_u32 al mb (htonl src))
        (\<lambda>mb. mbuf_write_u16 al mb (htons (ucast fsn)))) (\<lambda>mb. mbuf_write_u16 al mb (htons (ucast blp))))"
| "rtcp_body_encode al count (A_RTPFB p m ench) mb =
     (False, call_ench (also_err (mbuf_write_u32 al mb (htonl p)) (\<lambda>mb. mbuf_write_u32 al mb (htonl m))) ench)"
| "rtcp_body_encode al count (A_PSFB p m ench) mb =
     (False, call_ench (also_err (mbuf_write_u32 al mb (htonl p)) (\<lambda>mb. mbuf_write_u32 al mb (htonl m))) ench)"
| "rtcp_body_encode al count (A_XR src ench) mb = (False, call_ench (mbuf_write_u32 al mb (htonl src)) ench)"
| "rtcp_body_encode al count (A_Other t) mb = (True, Some EINVAL, mb)"

definition rtcp_encode :: "alloc \<Rightarrow> u32 \<Rightarrow> rtcp_args \<Rightarrow> mbuf \<Rightarrow> (errno option \<times> mbuf) option" where
  "rtcp_encode al count args mb =
     (let pos = mb_pos mb; p = size_add pos RTCP_HDR_SIZE
      in (case rtcp_body_encode al count args (mb\<lparr>mb_pos := p, mb_end := p\<rparr>) of
            (True, s) \<Rightarrow> Some s
          | (False, Some err, mb) \<Rightarrow> Some (Some err, mb)
          | (False, None, mb) \<Rightarrow>
              (case pad_loop al 0 mb_end pos (None, mb) of
                 None \<Rightarrow> None
               | Some (Some err, mb) \<Rightarrow> Some (Some err, mb)
               | Some (None, mb) \<Rightarrow>
                   (let len = (mb_end mb + size_mod - pos - RTCP_HDR_SIZE) mod size_mod div 4
                    in (case rtcp_hdr_encode al (ucast count) (args_type args) (of_nat len) (mb\<lparr>mb_pos := pos\<rparr>) of
                          (Some err, mb) \<Rightarrow> Some (Some err, mb)
                        | (None, mb) \<Rightarrow> Some (None, mb\<lparr>mb_pos := mb_end mb\<rparr>))))))"

section \<open>Decoding\<close>

datatype xr_block = XR_RRTR u32 u32 | XR_DLRR u32 u32 u32 | XR_Other

datatype rtcp_body =
    B_SR u32 u32 u32 u32 u32 u32 "rtcp_rr list"
  | B_RR u32 "rtcp_rr list"
  | B_SDES "rtcp_sdes list"
  | B_BYE "u32 list" "byte list option"
  | B_APP u32 "byte list" "byte list option"
  | B_FIR u32
  | B_NACK u32 u16 u16
  | B_FB u32 u32 nat fci
  | B_XR u32 u8 u16 xr_block
  | B_None

record rtcp_msg =
  m_hdr :: rtcp_hdr
  m_r :: rtcp_body

type_synonym body_result = "errno option \<times> rtcp_body \<times> mbuf"

definition dec_sr :: "alloc \<Rightarrow> nat \<Rightarrow> mbuf \<Rightarrow> body_result" where
  "dec_sr al cnt mb =
     (if mbuf_get_left mb < RTCP_SRC_SIZE + RTCP_SR_SIZE then (Some EBADMSG, B_None, mb)
      else
        (case read_be32 mb of (src, mb) \<Rightarrow>
        (case read_be32 mb of (sec, mb) \<Rightarrow>
        (case read_be32 mb of (frac, mb) \<Rightarrow>
        (case read_be32 mb of (ts, mb) \<Rightarrow>
        (case read_be32 mb of (ps, mb) \<Rightarrow>
        (case read_be32 mb of (os, mb) \<Rightarrow>
        (case rtcp_rr_alloc al cnt mb of
           (Some err, mb) \<Rightarrow> (Some err, B_None, mb)
         | (None, mb) \<Rightarrow>
             (case rr_decode_loop cnt mb of (err, rrs, mb) \<Rightarrow> (err, B_SR src sec frac ts ps os rrs, mb))))))))))"

definition dec_rr :: "alloc \<Rightarrow> nat \<Rightarrow> mbuf \<Rightarrow> body_result" where
  "dec_rr al cnt mb =
     (if mbuf_get_left mb < RTCP_SRC_SIZE then (Some EBADMSG, B_None, mb)
      else
        (case read_be32 mb of (src, mb) \<Rightarrow>
        (case rtcp_rr_alloc al cnt mb of
           (Some err, mb) \<Rightarrow> (Some err, B_None, mb)
         | (None, mb) \<Rightarrow>
             (case rr_decode_loop cnt mb of (err, rrs, mb) \<Rightarrow> (err, B_RR src rrs, mb)))))"

text \<open>\<open>for (i=0; i<msg->hdr.count && !err; i++) err = rtcp_sdes_decode(mb, &msg->r.sdesv[i])\<close>.\<close>

fun sdes_decode_loop :: "alloc \<Rightarrow> nat \<Rightarrow> mbuf \<Rightarrow> (errno option \<times> rtcp_sdes list \<times> mbuf) option" where
  "sdes_decode_loop al 0 mb = Some (None, [], mb)"
| "sdes_decode_loop al (Suc n) mb =
     (case rtcp_sdes_decode al mb of
        None \<Rightarrow> None
      | Some (Some err, sd, mb) \<Rightarrow> Some (Some err, [sd], mb)
      | Some (None, sd, mb) \<Rightarrow>
          (case sdes_decode_loop al n mb of
             None \<Rightarrow> None
           | Some (err, sds, mb) \<Rightarrow> Some (err, sd # sds, mb)))"

definition dec_sdes :: "alloc \<Rightarrow> nat \<Rightarrow> mbuf \<Rightarrow> body_result option" where
  "dec_sdes al cnt mb =
     (if cnt = 0 then Some (None, B_None, mb)
      else
        (case mem_alloc al (cnt * 12) mb of (ok, mb) \<Rightarrow>
           if \<not> ok then Some (Some ENOMEM, B_None, mb)
           else map_option (\<lambda>(err, sds, mb). (err, B_SDES sds, mb)) (sdes_decode_loop al cnt mb)))"

definition dec_bye :: "alloc \<Rightarrow> nat \<Rightarrow> nat \<Rightarrow> mbuf \<Rightarrow> body_result" where
  "dec_bye al cnt rem mb =
     (case mem_alloc al (cnt * 4) mb of (ok, mb) \<Rightarrow>
        if \<not> ok then (Some ENOMEM, B_None, mb)
        else if mbuf_get_left mb < cnt * 4 then (Some EBADMSG, B_None, mb)
        else
          (case read_list read_be32 cnt mb of (srcv, mb) \<Rightarrow>
             if rem > cnt * 4 then
               (case mbuf_read_u8 mb of (len, mb) \<Rightarrow>
                  if mbuf_get_left mb < unat len then (Some EBADMSG, B_None, mb)
                  else (case mbuf_strdup al mb (unat len) of (err, reason, mb) \<Rightarrow> (err, B_BYE srcv reason, mb)))
             else (None, B_BYE srcv None, mb)))"

definition dec_app :: "alloc \<Rightarrow> nat \<Rightarrow> mbuf \<Rightarrow> body_result" where
  "dec_app al rem mb =
     (if mbuf_get_left mb < RTCP_APP_SIZE then (Some EBADMSG, B_None, mb)
      else
        (case read_be32 mb of (src, mb) \<Rightarrow>
        (case mbuf_read_mem mb 4 of (_, name, mb) \<Rightarrow>
          if rem > RTCP_APP_SIZE then
            (let len = rem - RTCP_APP_SIZE in
             case mem_alloc al len mb of (ok, mb) \<Rightarrow>
               if \<not> ok then (Some ENOMEM, B_None, mb)
               else if mbuf_get_left mb < len then (Some EBADMSG, B_None, mb)
               else (case mbuf_read_mem mb len of (_, dat, mb) \<Rightarrow> (None, B_APP src name (Some dat), mb)))
          else (None, B_APP src name None, mb))))"

definition dec_fir :: "mbuf \<Rightarrow> body_result" where
  "dec_fir mb =
     (if mbuf_get_left mb < RTCP_FIR_SIZE then (Some EBADMSG, B_None, mb)
      else (case read_be32 mb of (src, mb) \<Rightarrow> (None, B_FIR src, mb)))"

definition dec_nack :: "mbuf \<Rightarrow> body_result" where
  "dec_nack mb =
     (if mbuf_get_left mb < RTCP_NACK_SIZE then (Some EBADMSG, B_None, mb)
      else
        (case read_be32 mb of (src, mb) \<Rightarrow>
        (case read_be16 mb of (fsn, mb) \<Rightarrow>
        (case read_be16 mb of (blp, mb) \<Rightarrow> (None, B_NACK src fsn blp, mb)))))"

definition dec_rtpfb :: "alloc \<Rightarrow> u8 \<Rightarrow> nat \<Rightarrow> mbuf \<Rightarrow> body_result option" where
  "dec_rtpfb al fmt len mb =
     (if mbuf_get_left mb < RTCP_FB_SIZE then Some (Some EBADMSG, B_None, mb)
      else if len < 2 then Some (Some EBADMSG, B_None, mb)
      else
        (case read_be32 mb of (p, mb) \<Rightarrow>
        (case read_be32 mb of (m, mb) \<Rightarrow>
          map_option (\<lambda>(err, f, mb). (err, B_FB p m (len - 2) f, mb)) (rtcp_rtpfb_decode al fmt (len - 2) mb))))"

definition dec_psfb :: "alloc \<Rightarrow> u8 \<Rightarrow> nat \<Rightarrow> mbuf \<Rightarrow> body_result" where
  "dec_psfb al fmt len mb =
     (if mbuf_get_left mb < RTCP_FB_SIZE then (Some EBADMSG, B_None, mb)
      else if len < 2 then (Some EBADMSG, B_None, mb)
      else
        (case read_be32 mb of (p, mb) \<Rightarrow>
        (case read_be32 mb of (m, mb) \<Rightarrow>
        (case rtcp_psfb_decode al fmt (len - 2) mb of (err, n, f, mb) \<Rightarrow> (err, B_FB p m n f, mb)))))"

definition dec_xr :: "mbuf \<Rightarrow> body_result" where
  "dec_xr mb =
     (if mbuf_get_left mb < RTCP_HEADROOM then (Some EBADMSG, B_None, mb)
      else
        (case read_be32 mb of (src, mb) \<Rightarrow>
        (case mbuf_read_u8 mb of (bt, mb) \<Rightarrow>
        (case mbuf_read_u8 mb of (_, mb) \<Rightarrow>
        (case read_be16 mb of (blen, mb) \<Rightarrow>
          if bt = RTCP_XR_RRTR then
            (if blen \<noteq> 2 then (Some EBADMSG, B_None, mb)
             else
               (case read_be32 mb of (a, mb) \<Rightarrow>
               (case read_be32 mb of (b, mb) \<Rightarrow> (None, B_XR src bt blen (XR_RRTR a b), mb))))
          else if bt = RTCP_XR_DLRR then
            (if blen \<noteq> 3 then (Some EBADMSG, B_None, mb)
             else
               (case read_be32 mb of (a, mb) \<Rightarrow>
               (case read_be32 mb of (b, mb) \<Rightarrow>
               (case read_be32 mb of (c, mb) \<Rightarrow> (None, B_XR src bt blen (XR_DLRR a b c), mb)))))
          else (None, B_XR src bt blen XR_Other, mb))))))"

definition rtcp_body_decode :: "alloc \<Rightarrow> rtcp_hdr \<Rightarrow> nat \<Rightarrow> mbuf \<Rightarrow> body_result option" where
  "rtcp_body_decode al hdr rem mb =
     (let cnt = unat (hd_count hdr); len = unat (hd_length hdr); pt = hd_pt hdr in
      if pt = RTCP_SR then Some (dec_sr al cnt mb)
      else if pt = RTCP_RR then Some (dec_rr al cnt mb)
      else if pt = RTCP_SDES then dec_sdes al cnt mb
      else if pt = RTCP_BYE then Some (dec_bye al cnt rem mb)
      else if pt = RTCP_APP then Some (dec_app al rem mb)
      else if pt = RTCP_FIR then Some (dec_fir mb)
      else if pt = RTCP_NACK then Some (dec_nack mb)
      else if pt = RTCP_RTPFB then dec_rtpfb al (hd_count hdr) len mb
      else if pt = RTCP_PSFB then Some (dec_psfb al (hd_count hdr) len mb)
      else if pt = RTCP_XR then Some (dec_xr mb)
      else Some (None, B_None, mbuf_advance mb (int rem)))"

definition rtcp_decode :: "alloc \<Rightarrow> mbuf \<Rightarrow> (errno option \<times> rtcp_msg option \<times> mbuf) option" where
  "rtcp_decode al mb =
     (if mbuf_get_left mb < RTCP_HDR_SIZE then Some (Some EBADMSG, None, mb)
      else
        (let start = mb_pos mb in
         case mem_alloc al 32 mb of (ok, mb) \<Rightarrow>
           if \<not> ok then Some (Some ENOMEM, None, mb)
           else
             (case rtcp_hdr_decode rtcp_hdr_zero mb of
                (Some err, _, mb) \<Rightarrow> Some (Some err, None, mb)
              | (None, hdr, mb) \<Rightarrow>
                  if hd_version hdr \<noteq> RTCP_VERSION then Some (Some EBADMSG, None, mb)
                  else
                    (let rem = unat (hd_length hdr) * 4 in
                     if mbuf_get_left mb < rem then Some (Some EBADMSG, None, mb)
                     else
                       (case rtcp_body_decode al hdr rem mb of
                          None \<Rightarrow> None
                        | Some (Some err, _, mb) \<Rightarrow> Some (Some err, None, mb)
                        | Some (None, r, mb) \<Rightarrow>
                            (case slurp_padding start mb of
                               None \<Rightarrow> None
                             | Some mb \<Rightarrow> Some (None, Some \<lparr>m_hdr = hdr, m_r = r\<rparr>, mb)))))))"

section \<open>Decoding returns and stays in the packet\<close>

lemma reads_simple_bodies:
  assumes "reads a mb"
  shows "reads a (snd (snd (dec_sr al n mb)))" and "reads a (snd (snd (dec_rr al n mb)))"
    and "reads a (snd (snd (dec_fir mb)))" and "reads a (snd (snd (dec_nack mb)))"
    and "reads a (snd (snd (dec_xr mb)))" and "reads a (snd (snd (dec_app al k mb)))"
    and "reads a (snd (snd (dec_psfb al fmt k mb)))"
  using assms
  by (simp_all add: dec_sr_def dec_rr_def dec_fir_def dec_nack_def dec_xr_def dec_app_def dec_psfb_def rtcp_rr_alloc_def
      case_prod_beta Let_def reads_prims reads_mem_alloc reads_rr_loop reads_psfb_decode split: option.split)

lemma reads_dec_bye:
  assumes "reads a mb"
  shows "reads a (snd (snd (dec_bye al n k mb)))"
proof -
  let ?m = "snd (mem_alloc al (n * 4) mb)"
  have m: "reads a ?m" using assms by (rule reads_mem_alloc)
  show ?thesis
  proof (cases "mbuf_get_left ?m < n * 4")
    case True
    with m show ?thesis by (simp add: dec_bye_def case_prod_beta)
  next
    case False
    then have "reads a (snd (read_list read_be32 n ?m))"
      by (intro reads_read_list [OF fixed_be32 m]) simp
    with m False show ?thesis
      by (simp add: dec_bye_def case_prod_beta reads_prims reads_strdup)
  qed
qed

lemma sdes_loop_returns:
  assumes "reads a mb"
  shows "\<exists>e sds mb'. sdes_decode_loop al n mb = Some (e, sds, mb') \<and> reads a mb'"
  using assms
proof (induction n arbitrary: mb)
  case (Suc n)
  obtain e sd m where d: "rtcp_sdes_decode al mb = Some (e, sd, m)" "reads a m"
    using sdes_decode_returns [OF Suc.prems] by blast
  with Suc.IH [of m] show ?case by (cases e) auto
qed simp

lemma body_decode_returns:
  assumes r: "reads a mb" and len: "rem \<le> mbuf_get_left mb"
  shows "\<exists>e b mb'. rtcp_body_decode al hdr rem mb = Some (e, b, mb') \<and> reads a mb'"
proof -
  define good :: "body_result option \<Rightarrow> bool" where "good x \<longleftrightarrow> (\<exists>e b mb'. x = Some (e, b, mb') \<and> reads a mb')" for x
  have sdes: "good (dec_sdes al n mb)" for n
    using r sdes_loop_returns [OF reads_mem_alloc [OF r, of al "n * 12"], of al n]
      reads_mem_alloc [OF r, of al "n * 12"]
    by (auto simp: dec_sdes_def case_prod_beta good_def)
  have fb: "good (dec_rtpfb al fmt n mb)" for fmt n
    using r rtpfb_decode_returns [OF reads_prims(3) [OF reads_prims(3) [OF r]], of al fmt "n - 2"]
    by (auto simp: dec_rtpfb_def case_prod_beta good_def)
  have pair: "good (Some p)" if "reads a (snd (snd p))" for p
    using that by (cases p) (auto simp: good_def)
  have adv: "good (Some (None, B_None, mbuf_advance mb (int rem)))"
    using reads_advance [OF r len] by (intro pair) simp
  have ite: "good (if c then x else y)" if "good x" "good y" for c x y using that by simp
  have "good (rtcp_body_decode al hdr rem mb)"
    unfolding rtcp_body_decode_def Let_def
    by (intro ite sdes fb adv pair reads_simple_bodies reads_dec_bye r)
  then show ?thesis by (simp add: good_def)
qed

section \<open>Layout of an encoded packet\<close>

lemma skip_header:
  assumes ok: "mbuf_ok mb" and room: "mb_pos mb + 4 \<le> mb_size mb"
  obtains junk where "mbuf_ok (mb\<lparr>mb_pos := mb_pos mb + 4, mb_end := mb_pos mb + 4\<rparr>)"
    and "mb_before (mb\<lparr>mb_pos := mb_pos mb + 4, mb_end := mb_pos mb + 4\<rparr>) = mb_before mb @ junk" and "length junk = 4"
    and "mb_after (mb\<lparr>mb_pos := mb_pos mb + 4, mb_end := mb_pos mb + 4\<rparr>) = []"
proof
  let ?m = "mb\<lparr>mb_pos := mb_pos mb + 4, mb_end := mb_pos mb + 4\<rparr>"
  show "mbuf_ok ?m" using ok room by (auto simp: mbuf_ok_def)
  show "mb_before ?m = mb_before mb @ take 4 (drop (mb_pos mb) (mb_bytes mb))"
    by (simp add: mb_before_def take_add)
  show "length (take 4 (drop (mb_pos mb) (mb_bytes mb))) = 4" using ok room by (auto simp: mbuf_ok_def)
  show "mb_after ?m = []" by (simp add: mb_after_def)
qed

lemma set_back:
  assumes ok: "mbuf_ok m" and "mb_after m = []" and "mb_before m = xs @ ys"
  shows "mbuf_ok (m\<lparr>mb_pos := length xs\<rparr>)" and "mb_before (m\<lparr>mb_pos := length xs\<rparr>) = xs"
    and "mb_after (m\<lparr>mb_pos := length xs\<rparr>) = ys"
proof -
  have len: "mb_pos m = length xs + length ys" using length_mb_before [OF ok] assms(3) by simp
  have e: "mb_end m = mb_pos m" using pos_end [OF ok assms(2)] .
  have b: "take (length xs + length ys) (mb_bytes m) = xs @ ys" using assms(3) len by (simp add: mb_before_def)
  show "mbuf_ok (m\<lparr>mb_pos := length xs\<rparr>)" using ok len e by (auto simp: mbuf_ok_def)
  show "mb_before (m\<lparr>mb_pos := length xs\<rparr>) = xs"
    using arg_cong [OF b, of "take (length xs)"] by (simp add: mb_before_def min_def)
  show "mb_after (m\<lparr>mb_pos := length xs\<rparr>) = ys"
    using arg_cong [OF b, of "drop (length xs)"] len e by (simp add: mb_after_def take_drop add.commute)
qed

lemma rtcp_encode_view:
  assumes ok: "mbuf_ok mb" and room: "mb_pos mb + 4 \<le> mb_size mb"
    and body: "writes (\<lambda>m. snd (rtcp_body_encode al count args m)) bs" and early: "\<And>m. \<not> fst (rtcp_body_encode al count args m)"
    and fit: "mb_pos mb + length bs + 8 < size_mod" and res: "rtcp_encode al count args mb = Some (None, mb')"
  shows "mbuf_ok mb' \<and> mb_after mb' = [] \<and> mb_before mb' = mb_before mb
    @ hdr_bytes (ucast count) (args_type args) (of_nat ((length bs + pad_len (length bs)) div 4)) @ bs
    @ replicate (pad_len (length bs)) 0"
proof -
  let ?p = "pad_len (length bs)"
  define m0 where "m0 = mb\<lparr>mb_pos := mb_pos mb + 4, mb_end := mb_pos mb + 4\<rparr>"
  obtain junk where m0: "mbuf_ok m0" "mb_before m0 = mb_before mb @ junk" "length junk = 4" "mb_after m0 = []"
    unfolding m0_def using skip_header [OF ok room] .
  have pos0: "mb_pos m0 = mb_pos mb + 4" by (simp add: m0_def)
  have p: "size_add (mb_pos mb) RTCP_HDR_SIZE = mb_pos mb + 4" using fit by (simp add: RTCP_HDR_SIZE_def)
  obtain e1 m1 where b: "rtcp_body_encode al count args m0 = (False, e1, m1)"
    using early [of m0] by (cases "rtcp_body_encode al count args m0") auto
  have e1: "e1 = None" using res b p by (cases e1) (simp_all add: rtcp_encode_def m0_def Let_def)
  have "length (mb_before m0) + length bs < size_mod" using m0 fit length_mb_before [OF ok] by simp
  from writerD [OF body m0(1) this, of e1 m1] b e1 m0
  have m1: "mbuf_ok m1" "mb_before m1 = mb_before mb @ junk @ bs" "mb_after m1 = []" by simp_all
  have pos1: "mb_pos m1 = mb_pos mb + 4 + length bs"
    using length_mb_before [OF m1(1)] m1(2) m0(3) length_mb_before [OF ok] by simp
  obtain m2 where pl: "pad_loop al 0 mb_end (mb_pos mb) (None, m1) = Some (None, m2)"
    using res b e1 p
    by (simp add: rtcp_encode_def m0_def Let_def split: option.splits prod.splits)
  have "pad_len (4 + length bs) = ?p" by (simp add: pad_len_def)
  then have m2: "mbuf_ok m2" "mb_after m2 = []" "mb_before m2 = mb_before mb @ junk @ bs @ replicate ?p 0"
    using pad_loop_ok [OF m1(1,3) _ _ _ pl] pos1 fit m1(2) by (simp_all add: add.commute)
  have pos2: "mb_pos m2 = mb_pos mb + 4 + length bs + ?p" "mb_end m2 = mb_pos m2"
    using length_mb_before [OF m2(1)] m2(3) m0(3) length_mb_before [OF ok] pos_end [OF m2(1,2)] by simp_all
  define m3 where "m3 = m2\<lparr>mb_pos := mb_pos mb\<rparr>"
  have m3: "mbuf_ok m3" "mb_before m3 = mb_before mb" "mb_after m3 = junk @ bs @ replicate ?p 0"
    using set_back [OF m2(1,2), of "mb_before mb" "junk @ bs @ replicate ?p 0"] m2(3) length_mb_before [OF ok]
    by (simp_all add: m3_def)
  have lt: "mb_pos mb + 4 + length bs + ?p < size_mod" using m2(1) pos2 by (auto simp: mbuf_ok_def)
  have "mb_end m2 + size_mod - mb_pos mb - RTCP_HDR_SIZE = (length bs + ?p) + size_mod"
    using pos2 lt by (simp add: RTCP_HDR_SIZE_def)
  then have "(mb_end m2 + size_mod - mb_pos mb - RTCP_HDR_SIZE) mod size_mod = length bs + ?p" using lt by simp
  then obtain m4 where h: "rtcp_hdr_encode al (ucast count) (args_type args) (of_nat ((length bs + ?p) div 4)) m3 = (None, m4)"
    and mb': "mb' = m4\<lparr>mb_pos := mb_end m4\<rparr>"
    using res b e1 p pl by (auto simp: rtcp_encode_def m0_def m3_def Let_def split: option.splits prod.splits)
  let ?h = "hdr_bytes (ucast count) (args_type args) (of_nat ((length bs + ?p) div 4))"
  have lenh: "length ?h = 4" by (simp add: hdr_bytes_def)
  from writerD [OF hdr_encode_writes m3(1) _ h] m3 lt m0(3) lenh length_mb_before [OF ok]
  have m4: "mbuf_ok m4" "mb_before m4 = mb_before mb @ ?h" "mb_after m4 = bs @ replicate ?p 0" by simp_all
  have "mb' = mb_adv m4 (length (mb_after m4))" using mb' m4(1) by (auto simp: mb_adv_def mbuf_ok_def mb_after_def)
  then show ?thesis using m4 mb_before_advance [OF m4(1), of "length (mb_after m4)"]
    by (simp add: mb_adv_def [symmetric] del: length_mb_after)
qed

section \<open>The type-specific part\<close>

text \<open>The bytes of the type-specific part; \<open>hbs\<close> are those of the encode handler.\<close>

fun args_bytes :: "u32 \<Rightarrow> rtcp_args \<Rightarrow> byte list \<Rightarrow> byte list" where
  "args_bytes count (A_SR a b c d e f _) hbs = be32 a @ be32 b @ be32 c @ be32 d @ be32 e @ be32 f @ hbs"
| "args_bytes count (A_RR src _) hbs = be32 src @ hbs"
| "args_bytes count (A_SDES _) hbs = hbs"
| "args_bytes count (A_BYE srcv reason) hbs =
     concat (map be32 (take (unat count) srcv)) @ (case reason of None \<Rightarrow> [] | Some r \<Rightarrow> of_nat (length r) # r)"
| "args_bytes count (A_APP src name dat) hbs = be32 src @ name @ (case dat of None \<Rightarrow> [] | Some d \<Rightarrow> d)"
| "args_bytes count (A_FIR src) hbs = be32 src"
| "args_bytes count (A_NACK src fsn blp) hbs = be32 src @ be16 (ucast fsn) @ be16 (ucast blp)"
| "args_bytes count (A_RTPFB p m _) hbs = be32 p @ be32 m @ hbs"
| "args_bytes count (A_PSFB p m _) hbs = be32 p @ be32 m @ hbs"
| "args_bytes count (A_XR src _) hbs = be32 src @ hbs"
| "args_bytes count (A_Other _) hbs = []"

fun args_ench :: "rtcp_args \<Rightarrow> rtcp_encode_h option" where
  "args_ench (A_SR _ _ _ _ _ _ h) = h"
| "args_ench (A_RR _ h) = h"
| "args_ench (A_SDES h) = h"
| "args_ench (A_RTPFB _ _ h) = h"
| "args_ench (A_PSFB _ _ h) = h"
| "args_ench (A_XR _ h) = h"
| "args_ench _ = None"

text \<open>Arguments the encoder accepts: as many sources as the count says, application data of whole
  words, a known type.\<close>

fun args_ok :: "u32 \<Rightarrow> rtcp_args \<Rightarrow> bool" where
  "args_ok count (A_BYE srcv _) = (unat count \<le> length srcv)"
| "args_ok count (A_APP _ name dat) = (length name = 4 \<and> (case dat of None \<Rightarrow> True | Some d \<Rightarrow> length d mod 4 = 0))"
| "args_ok count (A_Other _) = False"
| "args_ok count _ = True"

text \<open>A piece of an encoder that writes \<open>bs\<close> and never fails.\<close>

definition gives :: "rtcp_encode_h \<Rightarrow> byte list \<Rightarrow> bool" where
  "gives f bs \<longleftrightarrow> writes f bs \<and> (\<forall>m. fst (f m) = None)"

definition ench_gives :: "rtcp_encode_h option \<Rightarrow> byte list \<Rightarrow> bool" where
  "ench_gives h hbs \<longleftrightarrow> (case h of None \<Rightarrow> hbs = [] | Some f \<Rightarrow> gives f hbs)"

lemma gives_prims:
  assumes "alloc_total al"
  shows "gives (\<lambda>m. mbuf_write_mem al m (Some bs)) bs" "gives (\<lambda>m. mbuf_write_u8 al m b) [b]"
    "gives (\<lambda>m. mbuf_write_u16 al m (htons v)) (be16 v)" "gives (\<lambda>m. mbuf_write_u32 al m (htonl w)) (be32 w)"
    "gives (\<lambda>m. mbuf_write_str al m (Some bs)) bs"
  using write_total [OF assms] writes_prims
  by (simp_all add: gives_def write_be write_u8 mbuf_write_str_def)

lemma gives_skip: "gives (\<lambda>m. (None, m)) []"
  by (simp add: gives_def mbcur.writer_skip)

lemma gives_also: "gives f bs \<Longrightarrow> gives g cs \<Longrightarrow> gives (\<lambda>m. also_err (f m) g) (bs @ cs)"
  using mbcur.writer_also [of f bs g cs] by (simp add: gives_def) (simp add: also_err_def case_prod_beta)

lemma gives_then:
  assumes f: "gives f bs" and g: "gives g cs"
  shows "gives (\<lambda>m. case f m of (None, t) \<Rightarrow> g t | (Some e, t) \<Rightarrow> (Some (h e), t)) (bs @ cs)"
proof -
  have "fst (case f m of (None, t) \<Rightarrow> g t | (Some e, t) \<Rightarrow> (Some (h e), t)) = None" for m
    using f g by (cases "f m") (auto simp: gives_def dest: spec [of _ m])
  with writer_then [of mbuf_ok mb_before mb_after f bs g cs h] f g show ?thesis by (simp add: gives_def)
qed

lemma gives_call: "gives f bs \<Longrightarrow> ench_gives h hbs \<Longrightarrow> gives (\<lambda>m. call_ench (f m) h) (bs @ hbs)"
  by (cases h) (simp_all add: ench_gives_def call_ench_def gives_also)

lemma gives_bye:
  "alloc_total al \<Longrightarrow> n \<le> length ss \<Longrightarrow> gives (bye_srcs al n ss) (concat (map be32 (take n ss)))"
proof (induction n arbitrary: ss)
  case 0
  show ?case using gives_skip by simp
next
  case (Suc n)
  then obtain s r where ss: "ss = s # r" by (cases ss) auto
  with Suc have "gives (bye_srcs al n r) (concat (map be32 (take n r)))" by simp
  from gives_then [OF gives_prims(4) [OF Suc.prems(1), of s] this, of "\<lambda>e. e"] show ?case
    by (simp add: ss)
qed

lemma body_gives:
  assumes al: "alloc_total al" and ok: "args_ok count args" and h: "ench_gives (args_ench args) hbs"
  shows "gives (\<lambda>m. snd (rtcp_body_encode al count args m)) (args_bytes count args hbs)"
    and "\<not> fst (rtcp_body_encode al count args m)"
proof -
  note p = gives_prims [OF al] and e = gives_also and c = gives_call [OF _ h]
  have six: "gives (\<lambda>m. foldl (\<lambda>s v. also_err s (\<lambda>mb. mbuf_write_u32 al mb (htonl v))) (None, m) [u, v, w, x, y, z])
      ([] @ be32 u @ be32 v @ be32 w @ be32 x @ be32 y @ be32 z)" for u v w x y z
    using e [OF e [OF e [OF e [OF e [OF e [OF gives_skip p(4)] p(4)] p(4)] p(4)] p(4)] p(4)] by simp
  show "\<not> fst (rtcp_body_encode al count args m)"
    using ok by (cases args) (auto simp: Let_def split: option.splits)
  show "gives (\<lambda>m. snd (rtcp_body_encode al count args m)) (args_bytes count args hbs)"
  proof (cases args)
    case (A_SR u v w x y z t)
    with c [OF six [of u v w x y z]] show ?thesis by simp
  next
    case (A_SDES x)
    with c [OF gives_skip] show ?thesis by simp
  next
    case (A_BYE srcv reason)
    with ok have b: "gives (bye_srcs al (unat count) srcv) (concat (map be32 (take (unat count) srcv)))"
      by (intro gives_bye [OF al]) simp
    show ?thesis
    proof (cases reason)
      case (Some r)
      with e [OF e [OF b p(2) [of "of_nat (length r)"]] p(5) [of r]] A_BYE show ?thesis by (simp add: Let_def)
    qed (use b A_BYE in \<open>simp add: Let_def\<close>)
  next
    case (A_APP src name dat)
    have b: "gives (\<lambda>m. also_err (mbuf_write_u32 al m (htonl src)) (\<lambda>m. mbuf_write_mem al m (Some name))) (be32 src @ name)"
      by (rule e [OF p(4) p(1)])
    show ?thesis
    proof (cases dat)
      case (Some d)
      with e [OF b p(1) [of d]] A_APP ok show ?thesis by (simp add: Let_def)
    qed (use b A_APP in \<open>simp add: Let_def\<close>)
  next
    case (A_NACK src fsn blp)
    with e [OF e [OF p(4) [of src] p(3) [of "ucast fsn"]] p(3) [of "ucast blp"]] show ?thesis by simp
  qed (use ok p(4) c [OF p(4)] c [OF e [OF p(4) p(4)]] in simp_all)
qed

section \<open>When encoding returns\<close>

lemma rtcp_encode_total:
  assumes ok: "mbuf_ok mb" and room: "mb_pos mb + 4 \<le> mb_size mb" and al: "alloc_total al"
    and body: "writes (\<lambda>m. snd (rtcp_body_encode al count args m)) bs"
    and fine: "\<And>m. \<exists>m'. rtcp_body_encode al count args m = (False, None, m')"
    and fit: "mb_pos mb + length bs + 8 < size_mod"
  shows "\<exists>mb'. rtcp_encode al count args mb = Some (None, mb')"
proof -
  define m0 where "m0 = mb\<lparr>mb_pos := mb_pos mb + 4, mb_end := mb_pos mb + 4\<rparr>"
  obtain junk where m0: "mbuf_ok m0" "mb_before m0 = mb_before mb @ junk" "length junk = 4" "mb_after m0 = []"
    unfolding m0_def using skip_header [OF ok room] .
  have p: "size_add (mb_pos mb) RTCP_HDR_SIZE = mb_pos mb + 4" using fit by (simp add: RTCP_HDR_SIZE_def)
  obtain m1 where b: "rtcp_body_encode al count args m0 = (False, None, m1)" using fine by blast
  have "length (mb_before m0) + length bs < size_mod" using m0 fit length_mb_before [OF ok] by simp
  from writerD [OF body m0(1) this, of None m1] b m0
  have m1: "mbuf_ok m1" "mb_before m1 = mb_before mb @ junk @ bs" "mb_after m1 = []" by simp_all
  have pos1: "mb_pos m1 = mb_pos mb + 4 + length bs"
    using length_mb_before [OF m1(1)] m1(2) m0(3) length_mb_before [OF ok] by simp
  obtain m2 where pl: "pad_loop al 0 mb_end (mb_pos mb) (None, m1) = Some (None, m2)"
    using pad_loop_returns [OF m1(1,3), of "mb_pos mb" mb_end al 0] pos1 fit al by auto
  have m2: "mbuf_ok m2" "mb_after m2 = []"
    "mb_before m2 = mb_before mb @ (junk @ bs @ replicate (pad_len (mb_pos m1 - mb_pos mb)) 0)"
    using pad_loop_ok [OF m1(1,3) _ _ _ pl] pos1 fit m1(2) by simp_all
  have m3: "mbuf_ok (m2\<lparr>mb_pos := mb_pos mb\<rparr>)"
    using set_back(1) [OF m2] length_mb_before [OF ok] by simp
  have "mb_pos mb + 4 \<le> mb_size m2"
    using length_mb_before [OF m2(1)] m2(1,3) m0(3) length_mb_before [OF ok] by (auto simp: mbuf_ok_def)
  then have "fst (rtcp_hdr_encode al cnt type len (m2\<lparr>mb_pos := mb_pos mb\<rparr>)) = None" for cnt type len
    using m3 by (intro inplaceD [OF hdr_encode_inplace]) simp_all
  then obtain m4 where "rtcp_hdr_encode al (ucast count) (args_type args)
      (of_nat ((mb_end m2 + size_mod - mb_pos mb - RTCP_HDR_SIZE) mod size_mod div 4)) (m2\<lparr>mb_pos := mb_pos mb\<rparr>) = (None, m4)"
    by (metis prod.exhaust_sel)
  then show ?thesis using b p pl by (auto simp: rtcp_encode_def m0_def Let_def)
qed

lemma rtcp_encode_gives:
  assumes ok: "mbuf_ok mb" and room: "mb_pos mb + 4 \<le> mb_size mb" and al: "alloc_total al"
    and args: "args_ok count args" "ench_gives (args_ench args) hbs" and bs: "bs = args_bytes count args hbs"
    and fit: "mb_pos mb + length bs + 8 < size_mod"
  shows "\<exists>mb'. rtcp_encode al count args mb = Some (None, mb') \<and> mbuf_ok mb' \<and> mb_after mb' = []
    \<and> mb_before mb' = mb_before mb
      @ hdr_bytes (ucast count) (args_type args) (of_nat ((length bs + pad_len (length bs)) div 4)) @ bs
      @ replicate (pad_len (length bs)) 0"
proof -
  note b = body_gives [OF al args, folded bs]
  then have w: "writes (\<lambda>m. snd (rtcp_body_encode al count args m)) bs" by (simp add: gives_def)
  have "\<exists>m'. rtcp_body_encode al count args m = (False, None, m')" for m
    using b unfolding gives_def by (cases "rtcp_body_encode al count args m") (metis (mono_tags) fst_conv prod.collapse snd_conv)
  from rtcp_encode_total [OF ok room al w this fit] obtain mb' where
    "rtcp_encode al count args mb = Some (None, mb')" by blast
  with rtcp_encode_view [OF ok room w b(2) fit this] show ?thesis by blast
qed

section \<open>Reports\<close>

lemma length_blocks: "length (concat (map rr_bytes rrs)) = 24 * length rrs"
  by (simp add: length_concat comp_def sum_list_triv)

text \<open>A packet whose body decodes to \<open>b\<close>, seen from the place where its header was written.\<close>

lemma packet_decoded:
  assumes ok: "mbuf_ok mb" "mbuf_ok mb'" and after: "mb_after mb' = []"
    and before: "mb_before mb' = mb_before mb @ hdr_bytes (of_nat n) pt (of_nat w) @ bs"
    and n: "n < 32" and w: "w < 65536" "length bs = 4 * w" and al: "alloc_total al"
    and hdr: "hdr = \<lparr>hd_version = RTCP_VERSION, hd_p = False, hd_count = of_nat n, hd_pt = pt, hd_length = of_nat w\<rparr>"
    and dec: "\<And>m. mbuf_ok m \<Longrightarrow> mb_after m = bs \<Longrightarrow>
      \<exists>m'. rtcp_body_decode al hdr (4 * w) m = Some (None, b, m') \<and> mb_pos m' = mb_pos m + 4 * w"
  shows "\<exists>mb''. rtcp_decode al (mbuf_set_pos mb' (mb_pos mb)) = Some (None, Some \<lparr>m_hdr = hdr, m_r = b\<rparr>, mb'')
    \<and> mb_pos mb'' = mb_pos mb'"
proof -
  let ?h = "hdr_bytes (of_nat n) pt (of_nat w)"
  define m where "m = mbuf_set_pos mb' (mb_pos mb)"
  have m: "mbuf_ok m" "mb_after m = ?h @ bs"
    using set_back [OF ok(2) after before] length_mb_before [OF ok(1)] by (simp_all add: m_def mbuf_set_pos_def)
  have len: "length (mb_after m) = 4 + 4 * w" using m(2) w by (simp add: hdr_bytes_def)
  have pos: "mb_pos m = mb_pos mb" "mb_pos mb' = mb_pos mb + 4 + 4 * w"
    using length_mb_before [OF ok(2)] before length_mb_before [OF ok(1)] w
    by (simp_all add: m_def mbuf_set_pos_def hdr_bytes_def)
  let ?m1 = "m\<lparr>mb_tick := Suc (mb_tick m)\<rparr>"
  have m1: "mbuf_ok ?m1" "mb_after ?m1 = ?h @ bs" using m by (simp_all add: mbuf_tick_ok)
  have un: "unat (of_nat n :: u8) = n" "unat (of_nat w :: u16) = w"
    using n w by (simp_all only: unat_of_nat) simp_all
  then have "(of_nat n :: u8) < 32" using n by (simp add: word_less_nat_alt)
  from hdr_decode_bytes [OF m1 this, of rtcp_hdr_zero]
  have h: "rtcp_hdr_decode rtcp_hdr_zero ?m1 = (None, hdr, mb_adv ?m1 4)" by (simp add: rtcp_hdr_zero_def hdr)
  have m2: "mbuf_ok (mb_adv ?m1 4)" "mb_after (mb_adv ?m1 4) = bs" using m1 len by (simp_all add: hdr_bytes_def)
  from dec [OF this] obtain m3 where
    m3: "rtcp_body_decode al hdr (4 * w) (mb_adv ?m1 4) = Some (None, b, m3)" "mb_pos m3 = mb_pos m + 4 + 4 * w" by auto
  have slurp: "slurp_padding (mb_pos m) m3 = Some m3" using m3(2) by (intro slurp_aligned) simp_all
  have left: "\<not> mbuf_get_left m < RTCP_HDR_SIZE" "\<not> mbuf_get_left (mb_adv ?m1 4) < 4 * w"
    using m(1) m2 len w by (simp_all add: mbuf_get_left_after RTCP_HDR_SIZE_def del: length_mb_after)
  have "rtcp_decode al m = Some (None, Some \<lparr>m_hdr = hdr, m_r = b\<rparr>, m3)"
    using left h m3(1) slurp un(2)
    by (simp add: rtcp_decode_def mem_alloc_total [OF al] Let_def hdr mult.commute del: mb_adv_simps)
  then show ?thesis using m3(2) pos by (auto simp: m_def)
qed

lemma dec_report_bytes:
  assumes ok: "mbuf_ok mb" and al: "alloc_total al"
  shows "mb_after mb = be32 a @ be32 b @ be32 c @ be32 d @ be32 e @ be32 f @ concat (map rr_bytes rrs) \<Longrightarrow>
      \<exists>mb'. dec_sr al (length rrs) mb = (None, B_SR a b c d e f rrs, mb') \<and> mb_pos mb' = mb_pos mb + 24 + 24 * length rrs"
    and "mb_after mb = be32 a @ concat (map rr_bytes rrs) \<Longrightarrow>
      \<exists>mb'. dec_rr al (length rrs) mb = (None, B_RR a rrs, mb') \<and> mb_pos mb' = mb_pos mb + 4 + 24 * length rrs"
proof -
  have blocks: "rr_decode_loop (length rrs) ((mb_adv mb k)\<lparr>mb_tick := Suc (mb_tick mb)\<rparr>)
      = (None, rrs, mb_adv ((mb_adv mb k)\<lparr>mb_tick := Suc (mb_tick mb)\<rparr>) (24 * length rrs))"
    if "k \<le> length (mb_after mb)" "drop k (mb_after mb) = concat (map rr_bytes rrs)" for k
    using that ok rr_loop_bytes [of "(mb_adv mb k)\<lparr>mb_tick := Suc (mb_tick mb)\<rparr>" rrs "[]"]
    by (simp add: mbuf_tick_ok)
  {
    assume after: "mb_after mb = be32 a @ be32 b @ be32 c @ be32 d @ be32 e @ be32 f @ concat (map rr_bytes rrs)"
    then have len: "length (mb_after mb) = 24 + 24 * length rrs" by (simp add: length_blocks)
    have left: "\<not> mbuf_get_left mb < RTCP_SRC_SIZE + RTCP_SR_SIZE"
      using ok len by (simp add: mbuf_get_left_after RTCP_SRC_SIZE_def RTCP_SR_SIZE_def del: length_mb_after)
    have steps: "read_be32 mb = (a, mb_adv mb 4)" "read_be32 (mb_adv mb 4) = (b, mb_adv mb 8)"
      "read_be32 (mb_adv mb 8) = (c, mb_adv mb 12)" "read_be32 (mb_adv mb 12) = (d, mb_adv mb 16)"
      "read_be32 (mb_adv mb 16) = (e, mb_adv mb 20)" "read_be32 (mb_adv mb 20) = (f, mb_adv mb 24)"
      using ok len after by (simp_all add: reads_at)
    from blocks [of 24] len after show
      "\<exists>mb'. dec_sr al (length rrs) mb = (None, B_SR a b c d e f rrs, mb') \<and> mb_pos mb' = mb_pos mb + 24 + 24 * length rrs"
      using left steps by (simp add: dec_sr_def rtcp_rr_alloc_def mem_alloc_total [OF al])
  }
  {
    assume after: "mb_after mb = be32 a @ concat (map rr_bytes rrs)"
    then have len: "length (mb_after mb) = 4 + 24 * length rrs" by (simp add: length_blocks)
    have left: "\<not> mbuf_get_left mb < RTCP_SRC_SIZE"
      using ok len by (simp add: mbuf_get_left_after RTCP_SRC_SIZE_def del: length_mb_after)
    have steps: "read_be32 mb = (a, mb_adv mb 4)" using ok len after by (simp_all add: reads_at)
    from blocks [of 4] len after show
      "\<exists>mb'. dec_rr al (length rrs) mb = (None, B_RR a rrs, mb') \<and> mb_pos mb' = mb_pos mb + 4 + 24 * length rrs"
      using left steps by (simp add: dec_rr_def rtcp_rr_alloc_def mem_alloc_total [OF al])
  }
qed

text \<open>A report, with or without the sender's part, and what it decodes to.\<close>

fun report_body :: "rtcp_args \<Rightarrow> rtcp_rr list \<Rightarrow> rtcp_body" where
  "report_body (A_SR a b c d e f _) rrs = B_SR a b c d e f rrs"
| "report_body (A_RR src _) rrs = B_RR src rrs"
| "report_body _ _ = B_None"

definition is_report :: "rtcp_args \<Rightarrow> bool" where
  "is_report args \<longleftrightarrow> (\<exists>a b c d e f h. args = A_SR a b c d e f h) \<or> (\<exists>src h. args = A_RR src h)"

definition report_words :: "rtcp_args \<Rightarrow> rtcp_rr list \<Rightarrow> nat" where
  "report_words args rrs = (if args_type args = RTCP_SR then 6 else 1) + 6 * length rrs"

lemma report_encoded_decodes:
  assumes args: "is_report args" and ok: "mbuf_ok mb" and room: "mb_pos mb + 4 \<le> mb_size mb"
    and fit: "mb_pos mb + 1024 < size_mod" and few: "length rrs < 32"
    and al: "alloc_total al" "alloc_total al2" and ench: "ench_gives (args_ench args) (concat (map rr_bytes rrs))"
  shows "\<exists>mb' mb''. rtcp_encode al (of_nat (length rrs)) args mb = Some (None, mb')
    \<and> rtcp_decode al2 (mbuf_set_pos mb' (mb_pos mb)) = Some (None, Some
      \<lparr>m_hdr = \<lparr>hd_version = RTCP_VERSION, hd_p = False, hd_count = of_nat (length rrs), hd_pt = args_type args,
                 hd_length = of_nat (report_words args rrs)\<rparr>, m_r = report_body args rrs\<rparr>, mb'')
    \<and> mb_pos mb'' = mb_pos mb'"
proof -
  let ?n = "length rrs" and ?w = "report_words args rrs"
  define bs where "bs = args_bytes (of_nat ?n) args (concat (map rr_bytes rrs))"
  have len: "length bs = 4 * ?w"
    using args by (auto simp: bs_def is_report_def report_words_def length_blocks RTCP_SR_def RTCP_RR_def)
  then have pad: "pad_len (length bs) = 0" by (simp add: pad_len_def)
  have w: "?w < 65536" "?w \<le> 198" using few by (simp_all add: report_words_def)
  have cnt: "ucast (of_nat ?n :: u32) = (of_nat ?n :: u8)" using few by (simp add: unsigned_of_nat take_bit_nat_eq_self)
  have "args_ok (of_nat ?n) args" using args by (auto simp: is_report_def)
  from rtcp_encode_gives [OF ok room al(1) this ench bs_def] fit len w pad cnt obtain mb' where
    e: "rtcp_encode al (of_nat ?n) args mb = Some (None, mb')" "mbuf_ok mb'" "mb_after mb' = []"
      "mb_before mb' = mb_before mb @ hdr_bytes (of_nat ?n) (args_type args) (of_nat ?w) @ bs"
    by auto
  let ?hdr = "\<lparr>hd_version = RTCP_VERSION, hd_p = False, hd_count = of_nat ?n, hd_pt = args_type args, hd_length = of_nat ?w\<rparr>"
  have un: "unat (of_nat ?n :: u8) = ?n" using few by (simp only: unat_of_nat) simp
  have "\<exists>m'. rtcp_body_decode al2 ?hdr (4 * ?w) m = Some (None, report_body args rrs, m') \<and> mb_pos m' = mb_pos m + 4 * ?w"
    if "mbuf_ok m" "mb_after m = bs" for m
  proof (cases "args_type args = RTCP_SR")
    case True
    with args obtain a b c d e f h where a: "args = A_SR a b c d e f h"
      by (auto simp: is_report_def RTCP_SR_def RTCP_RR_def)
    with dec_report_bytes(1) [OF that(1) al(2), of a b c d e f rrs] that(2) show ?thesis
      by (auto simp: bs_def rtcp_body_decode_def un report_words_def)
  next
    case False
    with args obtain src h where a: "args = A_RR src h" by (auto simp: is_report_def)
    with dec_report_bytes(2) [OF that(1) al(2), of src rrs] that(2) False show ?thesis
      by (auto simp: bs_def rtcp_body_decode_def un report_words_def RTCP_SR_def RTCP_RR_def)
  qed
  from packet_decoded [OF ok e(2-4) few w(1) len al(2) refl this] e(1) show ?thesis by blast
qed

section \<open>Properties\<close>

text \<open>C24: RTCP decoding is total and safe. For every datagram and every outcome of the allocations the decoder
  returns; it reads only inside the datagram and moves only the cursor, forwards; it returns a
  message exactly when it reports success, and that message has version 2 and a length that
  was in the datagram.\<close>

theorem rtcp_decode_safe:
  assumes "mbuf_ok mb"
  shows "\<exists>e msg mb'. rtcp_decode al mb = Some (e, msg, mb') \<and> reads mb mb'
    \<and> (e = None \<longleftrightarrow> msg \<noteq> None)
    \<and> (\<forall>m. msg = Some m \<longrightarrow> hd_version (m_hdr m) = RTCP_VERSION
          \<and> RTCP_HDR_SIZE + 4 * unat (hd_length (m_hdr m)) \<le> mbuf_get_left mb)"
proof (cases "mbuf_get_left mb < RTCP_HDR_SIZE \<or> \<not> fst (mem_alloc al 32 mb)")
  case True
  with assms reads_mem_alloc [of mb mb al 32] show ?thesis
    by (cases "mem_alloc al 32 mb") (auto simp: rtcp_decode_def Let_def)
next
  case False
  let ?m = "snd (mem_alloc al 32 mb)"
  have m: "reads mb ?m" using assms by (intro reads_mem_alloc) simp
  have left: "mbuf_get_left ?m = mbuf_get_left mb" by (simp add: mem_alloc_def mbuf_get_left_def)
  obtain hdr where h: "rtcp_hdr_decode rtcp_hdr_zero ?m = (None, hdr, mb_adv ?m 4)"
    using rtcp_hdr_decode_adv [OF reads_ok [OF m], of rtcp_hdr_zero] False left
    by (auto simp: RTCP_HDR_SIZE_def)
  have h4: "reads mb (mb_adv ?m 4)" and left4: "mbuf_get_left (mb_adv ?m 4) = mbuf_get_left mb - 4"
    using reads_hdr_decode [OF m, of rtcp_hdr_zero] h by (auto simp: mbuf_get_left_def mem_alloc_def)
  have ok: "fst (mem_alloc al 32 mb)" "\<not> mbuf_get_left mb < RTCP_HDR_SIZE" using False by auto
  have dec: "rtcp_decode al mb =
      (if hd_version hdr \<noteq> RTCP_VERSION then Some (Some EBADMSG, None, mb_adv ?m 4)
       else if mbuf_get_left (mb_adv ?m 4) < unat (hd_length hdr) * 4 then Some (Some EBADMSG, None, mb_adv ?m 4)
       else (case rtcp_body_decode al hdr (unat (hd_length hdr) * 4) (mb_adv ?m 4) of
               None \<Rightarrow> None
             | Some (Some err, _, mb) \<Rightarrow> Some (Some err, None, mb)
             | Some (None, r, m') \<Rightarrow>
                 (case slurp_padding (mb_pos mb) m' of
                    None \<Rightarrow> None
                  | Some mb \<Rightarrow> Some (None, Some \<lparr>m_hdr = hdr, m_r = r\<rparr>, mb))))"
    using ok h by (cases "mem_alloc al 32 mb") (simp add: rtcp_decode_def Let_def)
  show ?thesis
  proof (cases "hd_version hdr \<noteq> RTCP_VERSION \<or> mbuf_get_left (mb_adv ?m 4) < unat (hd_length hdr) * 4")
    case True
    with dec h4 show ?thesis by auto
  next
    case fits: False
    then obtain e r m' where b: "rtcp_body_decode al hdr (unat (hd_length hdr) * 4) (mb_adv ?m 4) = Some (e, r, m')"
      "reads mb m'" using body_decode_returns [OF h4, of "unat (hd_length hdr) * 4" al hdr] by auto
    obtain m'' where s: "slurp_padding (mb_pos mb) m' = Some m''" "reads mb m''"
      using slurp_padding_returns [OF b(2)] by blast
    show ?thesis
      using fits dec b s left4 ok(2) by (cases e) (auto simp: RTCP_HDR_SIZE_def)
  qed
qed

theorem rtcp_decode_safe_witness:
  "\<exists>e msg mb'. rtcp_decode al_zero (mbuf_of [0x80, 201, 0, 1, 0, 0, 0, 9]) = Some (e, msg, mb')
     \<and> reads (mbuf_of [0x80, 201, 0, 1, 0, 0, 0, 9]) mb'"
proof -
  have "mbuf_ok (mbuf_of [0x80, 201, 0, 1, 0, 0, 0, 9])" by (simp add: mbuf_of_view size_mod_def)
  from rtcp_decode_safe [OF this, of al_zero] show ?thesis by blast
qed

text \<open>C38: Encoding returns with the packet while memory lasts. If no allocation fails, \<open>rtcp_encode\<close> returns
  and succeeds for every known packet type: behind the data in the buffer are then the header
  with the count, the type and the length in words, the fields of that type in network order
  (for a goodbye the first \<open>count\<close> sources and the reason), what the encode handler wrote, and
  zeros up to a whole number of words. The buffer has room for the header at the cursor and the
  packet fits in \<open>size_t\<close>; a goodbye is given as many sources as it counts, application data are
  whole words, and the encode handler, where there is one, writes its bytes and does not fail.\<close>

theorem rtcp_encode_returns:
  assumes "mbuf_ok mb" and "mb_pos mb + 4 \<le> mb_size mb" and "alloc_total al"
    and "args_ok count args" and "ench_gives (args_ench args) hbs" and "bs = args_bytes count args hbs"
    and "mb_pos mb + length bs + 8 < size_mod"
  shows "\<exists>mb'. rtcp_encode al count args mb = Some (None, mb') \<and> mbuf_ok mb' \<and> mb_after mb' = []
    \<and> mb_before mb' = mb_before mb
      @ hdr_bytes (ucast count) (args_type args) (of_nat ((length bs + pad_len (length bs)) div 4)) @ bs
      @ replicate (pad_len (length bs)) 0"
  using assms by (rule rtcp_encode_gives)

lemma gives_rr_encode: "alloc_total al \<Longrightarrow> gives (rtcp_rr_encode al rr) (rr_bytes rr)"
  using write_total [of al] rr_encode_writes [of al rr]
  by (simp add: gives_def rtcp_rr_encode_def also_err_def write_be case_prod_beta)

text \<open>A goodbye from two of three sources with a reason, and a receiver report with one block written by
  \<open>rtcp_rr_encode\<close>.\<close>

definition rr_example :: rtcp_rr where
  "rr_example = \<lparr>rr_ssrc = 7, rr_fraction = 1, rr_lost = 2, rr_last_seq = 3, rr_jitter = 4, rr_lsr = 5, rr_dlsr = 6\<rparr>"

lemma al_zero_rr_example: "ench_gives (Some (rtcp_rr_encode al_zero rr_example)) (rr_bytes rr_example)"
  by (simp add: ench_gives_def gives_rr_encode [OF al_zero_total])

theorem rtcp_encode_returns_witness:
  "(\<exists>mb'. rtcp_encode al_zero 2 (A_BYE [1, 2, 3] (Some [65])) (mbuf_of (replicate 8 0)) = Some (None, mb')
      \<and> mb_before mb' = [0x82, 203, 0, 3, 0, 0, 0, 1, 0, 0, 0, 2, 1, 65, 0, 0])
   \<and> (\<exists>mb'. rtcp_encode al_zero 1 (A_RR 9 (Some (rtcp_rr_encode al_zero rr_example))) (mbuf_of (replicate 8 0)) = Some (None, mb')
      \<and> mb_before mb' = [0x81, 201, 0, 7, 0, 0, 0, 9] @ rr_bytes rr_example)"
proof -
  let ?mb = "mbuf_of (replicate 8 0)" and ?bye = "A_BYE [1, 2, 3] (Some [65])"
    and ?rr = "A_RR 9 (Some (rtcp_rr_encode al_zero rr_example))"
  have mb: "mbuf_ok ?mb" "mb_pos ?mb + 4 \<le> mb_size ?mb" "mb_before ?mb = []"
    by (simp_all add: mbuf_of_def mbuf_ok_def size_mod_def mb_bytes_def mb_before_def)
  have b: "args_bytes 2 ?bye [] = [0, 0, 0, 1, 0, 0, 0, 2, 1, 65]" "hdr_bytes 2 203 3 = [0x82, 203, 0, 3]"
    "hdr_bytes 1 201 7 = [0x81, 201, 0, 7]" "be32 9 = [0, 0, 0, 9]"
    by code_simp+
  have two: "replicate 2 (0 :: byte) = [0, 0]" by (simp add: numeral_2_eq_2)
  have "ench_gives (args_ench ?bye) []" by (simp add: ench_gives_def)
  from rtcp_encode_returns [OF mb(1,2) al_zero_total _ this b(1) [symmetric]] mb(3)
  have "\<exists>mb'. rtcp_encode al_zero 2 ?bye ?mb = Some (None, mb')
      \<and> mb_before mb' = hdr_bytes 2 203 3 @ [0, 0, 0, 1, 0, 0, 0, 2, 1, 65] @ [0, 0]"
    by (auto simp: size_mod_def mbuf_of_def pad_len_def RTCP_BYE_def two)
  moreover have "ench_gives (args_ench ?rr) (rr_bytes rr_example)" using al_zero_rr_example by simp
  from rtcp_encode_returns [OF mb(1,2) al_zero_total _ this refl, where count = 1] mb(3)
  have "\<exists>mb'. rtcp_encode al_zero 1 ?rr ?mb = Some (None, mb')
      \<and> mb_before mb' = hdr_bytes 1 201 7 @ be32 9 @ rr_bytes rr_example"
    by (auto simp: size_mod_def mbuf_of_def pad_len_def RTCP_RR_def)
  ultimately show ?thesis unfolding b by simp
qed

text \<open>The padding loop ignores the error of its write. When the type-specific part ends at the end of the
  block, off a 32-bit boundary, and no allocation succeeds any more, \<open>rtcp_encode\<close> does not report
  \<open>ENOMEM\<close>: it never returns.\<close>

theorem rtcp_encode_diverges:
  assumes "rtcp_body_encode al count args (mb\<lparr>mb_pos := mb_pos mb + 4, mb_end := mb_pos mb + 4\<rparr>) = (False, None, m)"
    and "mb_pos m = mb_size m" and "mb_end m = mb_size m" and "mb_size m + 1 < size_mod"
    and "mb_pos mb + 4 \<le> mb_size m" and "(mb_size m - mb_pos mb) mod 4 \<noteq> 0"
    and "\<And>t n. mb_tick m \<le> t \<Longrightarrow> al t n = None"
  shows "rtcp_encode al count args mb = None"
proof -
  have "size_add (mb_pos mb) RTCP_HDR_SIZE = mb_pos mb + 4" using assms(4,5) by (simp add: RTCP_HDR_SIZE_def)
  moreover have "pad_loop al 0 mb_end (mb_pos mb) (None, m) = None"
    using assms by (intro pad_loop_diverges) auto
  ultimately show ?thesis using assms(1) by (simp add: rtcp_encode_def Let_def)
qed

lemma be32_7: "be32 7 = [0, 0, 0, 7]" and replicate_10: "replicate 10 (0 :: byte) = [0, 0, 0, 0, 0, 0, 0, 0, 0, 0]"
  by code_simp+

theorem rtcp_encode_diverges_witness:
  "rtcp_encode (\<lambda>t n. None) 1 (A_BYE [7] (Some [65])) (mbuf_of (replicate 10 0)) = None"
proof (rule rtcp_encode_diverges)
  show "rtcp_body_encode (\<lambda>t n. None) 1 (A_BYE [7] (Some [65]))
      ((mbuf_of (replicate 10 0))\<lparr>mb_pos := mb_pos (mbuf_of (replicate 10 0)) + 4, mb_end := mb_pos (mbuf_of (replicate 10 0)) + 4\<rparr>)
    = (False, None, \<lparr>mb_buf = Some [0, 0, 0, 0, 0, 0, 0, 7, 1, 65], mb_size = 10, mb_pos = 10, mb_end = 10, mb_tick = 0, mb_ub = False\<rparr>)"
    by (simp add: write_be write_u8 be32_7 replicate_10 mbuf_write_str_def mbuf_write_mem_def mbuf_grow_def mbuf_put_def mem_store_def
        splice_def mb_bytes_def mbuf_of_def also_err_def size_mod_def Let_def)
qed (simp_all add: mbuf_of_def size_mod_def)

text \<open>Unknown feedback is not skipped. For a transport feedback message of an unknown format the decoder
  succeeds with the cursor behind the two sources, whatever the length in the header says; the
  message that is decoded next starts inside the feedback. (An unknown packet type is skipped
  by its length.)\<close>

theorem unknown_fb_not_skipped:
  assumes "mbuf_ok mb" and "8 \<le> mbuf_get_left mb" and "2 \<le> len" and "fmt \<noteq> RTCP_RTPFB_GNACK" and "fmt \<noteq> RTCP_RTPFB_TWCC"
  shows "\<exists>p m. dec_rtpfb al fmt len mb = Some (None, B_FB p m (len - 2) F_None, mb_adv mb 8)"
proof -
  have len: "8 \<le> length (mb_after mb)" using assms(1,2) by (simp add: mbuf_get_left_after del: length_mb_after)
  obtain p m where "read_be32 mb = (p, mb_adv mb 4)" "read_be32 (mb_adv mb 4) = (m, mb_adv mb 8)"
    using assms(1) len reads_at(4) [of mb] reads_at(4) [of "mb_adv mb 4"] by (simp del: length_mb_after)
  then show ?thesis using assms(2-5) by (simp add: dec_rtpfb_def rtcp_rtpfb_decode_def RTCP_FB_SIZE_def)
qed

theorem unknown_fb_not_skipped_witness:
  "\<exists>p m. dec_rtpfb al_zero 3 4 (mbuf_of (replicate 16 0)) = Some (None, B_FB p m 2 F_None, mb_adv (mbuf_of (replicate 16 0)) 8)"
proof -
  have "mbuf_ok (mbuf_of (replicate 16 0))" by (simp add: mbuf_of_view size_mod_def)
  from unknown_fb_not_skipped [OF this, of 4 3 al_zero] show ?thesis
    by (simp add: mbuf_get_left_def mbuf_of_def RTCP_RTPFB_GNACK_def RTCP_RTPFB_TWCC_def)
qed

end
