(* ===== verification/Rtcp_Sess.thy ===== *)
theory Rtcp_Sess
  imports Hash Rtp Rtp_Source Rtcp_Pkt
begin

text \<open>
  The RTCP session, \<open>re/src/rtp/sess.c\<close> and \<open>member.c\<close>: a table of at most eight members, found by their
  source identifier, with the reception statistics of those that send.

  Clocks and allocation outcomes are arguments: \<open>ntp\<close> and \<open>jfs\<close> are what \<open>ntp_time_get\<close> gives, \<open>now\<close> is
  \<open>tmr_jiffies()\<close>, \<open>mem\<close> tells whether a structure can be allocated. A member is changed through a
  pointer in the code; here \<open>member_put\<close> stores it back.

  The operations run one after the other here. In the code the lock protects the counters of
  packets sent and the clock rates, and the handlers of incoming packets; \<open>mk_sr\<close> takes a copy
  of the counters under it and releases it before it encodes the report and walks the member
  table, so that two threads may touch the table at once. Such interleavings are not modelled.
\<close>

record rtp_member =
  mbr_s :: "rtp_source option"
  mbr_src :: u32
  mbr_cum_lost :: int
  mbr_jit :: u32
  mbr_rtt :: u32

record txstat =
  tx_psent :: u32
  tx_osent :: u32
  tx_jfs_rt_ref :: u64
  tx_ts_ref :: u32
  tx_ts_synced :: bool

record rtcp_sess =
  se_ssrc :: u32
  se_members :: "rtp_member hash"
  se_tmr :: "u32 option"
  se_cname :: "byte list option"
  se_memberc :: u32
  se_senderc :: u32
  se_srate_tx :: u32
  se_srate_rx :: u32
  se_interval :: u32
  se_txstat :: txstat

definition RTCP_INTERVAL :: u32 where "RTCP_INTERVAL = 5000"
definition MAX_MEMBERS :: u32 where "MAX_MEMBERS = 8"
definition RTCP_SDES_CNAME :: u8 where "RTCP_SDES_CNAME = 1"

section \<open>Members\<close>

definition rtp_member_zero :: "u32 \<Rightarrow> rtp_member" where
  "rtp_member_zero src = \<lparr>mbr_s = None, mbr_src = src, mbr_cum_lost = 0, mbr_jit = 0, mbr_rtt = 0\<rparr>"

definition rtp_member_add :: "bool \<Rightarrow> rtp_member hash \<Rightarrow> u32 \<Rightarrow> (rtp_member \<times> rtp_member hash) option" where
  "rtp_member_add mem ht src =
     (if \<not> mem then None
      else Some (rtp_member_zero src, hash_append ht src (rtp_member_zero src)))"

definition rtp_member_find :: "rtp_member hash \<Rightarrow> u32 \<Rightarrow> rtp_member option" where
  "rtp_member_find ht src = hash_lookup ht src (\<lambda>mbr. mbr_src mbr = src)"

definition member_put :: "rtp_member hash \<Rightarrow> rtp_member \<Rightarrow> rtp_member hash" where
  "member_put ht mbr = ht\<lparr>bucket := map (map (\<lambda>m. if mbr_src m = mbr_src mbr then mbr else m)) (bucket ht)\<rparr>"

definition get_member :: "bool \<Rightarrow> rtcp_sess \<Rightarrow> u32 \<Rightarrow> rtp_member option \<times> rtcp_sess" where
  "get_member mem sess src =
     (case rtp_member_find (se_members sess) src of
        Some mbr \<Rightarrow> (Some mbr, sess)
      | None \<Rightarrow>
          if se_memberc sess \<ge> MAX_MEMBERS then (None, sess)
          else
            (case rtp_member_add mem (se_members sess) src of
               None \<Rightarrow> (None, sess)
             | Some (mbr, ht) \<Rightarrow> (Some mbr, sess\<lparr>se_members := ht, se_memberc := se_memberc sess + 1\<rparr>)))"

section \<open>Incoming RTCP\<close>

definition rtcp_calc_rtt :: "u32 \<times> u32 \<Rightarrow> u32 \<Rightarrow> u32 \<Rightarrow> u32" where
  "rtcp_calc_rtt ntp lsr dlsr =
     (let a_us = ntp_compact2us (ntp_compact (Some ntp));
          lsr_us = ntp_compact2us lsr;
          dlsr_us = 1000000 * ucast dlsr div 65536;
          rtt = (ucast (a_us - lsr_us - dlsr_us :: u64) :: u32)
      in if sint rtt > 0 then rtt else 0)"

definition handle_rr_block :: "u32 \<times> u32 \<Rightarrow> u32 \<Rightarrow> rtp_member \<Rightarrow> rtcp_rr \<Rightarrow> rtp_member" where
  "handle_rr_block ntp srate_tx mbr rr =
     (let mbr = mbr\<lparr>mbr_cum_lost := sint (rr_lost rr)\<rparr>;
          mbr = (if srate_tx \<noteq> 0 then mbr\<lparr>mbr_jit := 1000000 * rr_jitter rr div srate_tx\<rparr> else mbr)
      in if rr_lsr rr \<noteq> 0 \<and> rr_dlsr rr \<noteq> 0 then mbr\<lparr>mbr_rtt := rtcp_calc_rtt ntp (rr_lsr rr) (rr_dlsr rr)\<rparr> else mbr)"

definition handle_incoming_rr :: "bool \<Rightarrow> u32 \<times> u32 \<Rightarrow> rtcp_sess \<Rightarrow> u32 \<Rightarrow> rtcp_rr list \<Rightarrow> rtcp_sess" where
  "handle_incoming_rr mem ntp sess src rrs =
     (case get_member mem sess src of
        (None, sess) \<Rightarrow> sess
      | (Some mbr, sess) \<Rightarrow>
          sess\<lparr>se_members := member_put (se_members sess) (foldl (handle_rr_block ntp (se_srate_tx sess)) mbr rrs)\<rparr>)"

definition handle_incoming_sr ::
  "bool \<Rightarrow> u32 \<times> u32 \<Rightarrow> u64 \<Rightarrow> rtcp_sess \<Rightarrow> u32 \<Rightarrow> u32 \<Rightarrow> u32 \<Rightarrow> u32 \<Rightarrow> u32 \<Rightarrow> u32 \<Rightarrow> rtcp_rr list \<Rightarrow> rtcp_sess" where
  "handle_incoming_sr mem ntp now sess src sec frac ts ps os rrs =
     (case get_member mem sess src of
        (None, sess) \<Rightarrow> sess
      | (Some mbr, sess) \<Rightarrow>
          (let mbr = mbr\<lparr>mbr_s := map_option (\<lambda>s. s\<lparr>s_sr_recv := now, s_last_sr := (sec, frac), s_rtp_ts := ts,
                                                  s_psent := ps, s_osent := os\<rparr>) (mbr_s mbr)\<rparr>
           in sess\<lparr>se_members := member_put (se_members sess) (foldl (handle_rr_block ntp (se_srate_tx sess)) mbr rrs)\<rparr>))"

definition bye_one :: "rtcp_sess \<Rightarrow> u32 \<Rightarrow> rtcp_sess" where
  "bye_one sess src =
     (case rtp_member_find (se_members sess) src of
        None \<Rightarrow> sess
      | Some mbr \<Rightarrow>
          sess\<lparr>se_senderc := (if mbr_s mbr \<noteq> None then se_senderc sess - 1 else se_senderc sess),
               se_memberc := se_memberc sess - 1,
               se_members := hash_unlink (se_members sess) mbr\<rparr>)"

definition handle_incoming_bye :: "rtcp_sess \<Rightarrow> u32 list \<Rightarrow> rtcp_sess" where
  "handle_incoming_bye sess srcv = foldl bye_one sess srcv"

definition rtcp_handler :: "bool \<Rightarrow> u32 \<times> u32 \<Rightarrow> u64 \<Rightarrow> rtcp_sess \<Rightarrow> rtcp_msg \<Rightarrow> rtcp_sess" where
  "rtcp_handler mem ntp now sess msg =
     (case m_r msg of
        B_SR src sec frac ts ps os rrs \<Rightarrow> handle_incoming_sr mem ntp now sess src sec frac ts ps os rrs
      | B_RR src rrs \<Rightarrow> handle_incoming_rr mem ntp sess src rrs
      | B_BYE srcv _ \<Rightarrow> handle_incoming_bye sess srcv
      | _ \<Rightarrow> sess)"

section \<open>Setup\<close>

definition rtcp_sess_alloc :: "bool \<Rightarrow> bool \<Rightarrow> bool \<Rightarrow> bool \<Rightarrow> u32 \<Rightarrow> errno + rtcp_sess" where
  "rtcp_sess_alloc mem lock mem1 mem2 ssrc =
     (if \<not> mem then Inl ENOMEM
      else if \<not> lock then Inl ENOMEM
      else
        (case hash_alloc mem1 mem2 MAX_MEMBERS of
           Inl err \<Rightarrow> Inl err
         | Inr ht \<Rightarrow>
             Inr \<lparr>se_ssrc = ssrc, se_members = ht, se_tmr = None, se_cname = None, se_memberc = 0, se_senderc = 0,
                  se_srate_tx = 0, se_srate_rx = 0, se_interval = RTCP_INTERVAL,
                  se_txstat = \<lparr>tx_psent = 0, tx_osent = 0, tx_jfs_rt_ref = 0, tx_ts_ref = 0, tx_ts_synced = False\<rparr>\<rparr>))"

definition rtcp_set_interval :: "rtcp_sess \<Rightarrow> u32 \<Rightarrow> rtcp_sess" where
  "rtcp_set_interval sess n = sess\<lparr>se_interval := n\<rparr>"

definition rtcp_set_srate :: "rtcp_sess \<Rightarrow> u32 \<Rightarrow> u32 \<Rightarrow> rtcp_sess" where
  "rtcp_set_srate sess tx rx = sess\<lparr>se_srate_tx := tx, se_srate_rx := rx\<rparr>"

definition rtcp_set_srate_tx :: "rtcp_sess \<Rightarrow> u32 \<Rightarrow> rtcp_sess" where
  "rtcp_set_srate_tx sess tx = sess\<lparr>se_srate_tx := tx\<rparr>"

definition rtcp_set_srate_rx :: "rtcp_sess \<Rightarrow> u32 \<Rightarrow> rtcp_sess" where
  "rtcp_set_srate_rx sess rx = sess\<lparr>se_srate_rx := rx\<rparr>"

text \<open>\<open>tmr_start\<close>: the report timer fires after the interval.\<close>

definition schedule :: "rtcp_sess \<Rightarrow> rtcp_sess" where
  "schedule sess = sess\<lparr>se_tmr := Some (se_interval sess)\<rparr>"

text \<open>\<open>dup\<close> tells whether \<open>str_dup\<close> gets its memory; it fails with \<open>EINVAL\<close> for NULL.\<close>

definition rtcp_enable :: "bool \<Rightarrow> rtcp_sess \<Rightarrow> bool \<Rightarrow> byte list option \<Rightarrow> errno option \<times> rtcp_sess" where
  "rtcp_enable dup sess enabled cname =
     (let sess = sess\<lparr>se_cname := None\<rparr> in
      case cname of
        None \<Rightarrow> (Some EINVAL, sess)
      | Some c \<Rightarrow>
          if \<not> dup then (Some ENOMEM, sess)
          else
            (let sess = sess\<lparr>se_cname := Some c\<rparr>
             in (None, if enabled then schedule sess else sess\<lparr>se_tmr := None\<rparr>)))"

section \<open>Reports\<close>

definition calc_lsr :: "u32 \<times> u32 \<Rightarrow> u32" where
  "calc_lsr last_sr = (if fst last_sr \<noteq> 0 then ntp_compact (Some last_sr) else 0)"

definition calc_dlsr :: "u64 \<Rightarrow> u64 \<Rightarrow> u32" where
  "calc_dlsr now sr_recv = (if sr_recv \<noteq> 0 then ucast (65536 * (now - sr_recv) div 1000) else 0)"

text \<open>The report block of a member and the member after the interval counters were advanced.\<close>

definition mk_rr :: "u64 \<Rightarrow> rtp_member \<Rightarrow> rtp_source \<Rightarrow> rtcp_rr \<times> rtp_member" where
  "mk_rr now mbr s =
     (case rtp_source_calc_fraction_lost s of (fraction, s) \<Rightarrow>
        (\<lparr>rr_ssrc = mbr_src mbr, rr_fraction = fraction, rr_lost = of_int (rtp_source_calc_lost s),
          rr_last_seq = s_cycles s OR ucast (s_max_seq s), rr_jitter = drop_bit 4 (s_jitter s),
          rr_lsr = calc_lsr (s_last_sr s), rr_dlsr = calc_dlsr now (s_sr_recv s)\<rparr>,
         mbr\<lparr>mbr_s := Some s\<rparr>))"

definition sender_apply_handler :: "alloc \<Rightarrow> u64 \<Rightarrow> rtp_member \<Rightarrow> mbuf \<Rightarrow> bool \<times> rtp_member \<times> mbuf" where
  "sender_apply_handler al now mbr mb =
     (case mbr_s mbr of
        None \<Rightarrow> (False, mbr, mb)
      | Some s \<Rightarrow>
          (case mk_rr now mbr s of (rr, mbr) \<Rightarrow>
          (case rtcp_rr_encode al rr mb of (err, mb) \<Rightarrow> (err \<noteq> None, mbr, mb))))"

definition encode_handler :: "alloc \<Rightarrow> u64 \<Rightarrow> rtp_member hash \<Rightarrow> mbuf \<Rightarrow> (errno option \<times> mbuf) \<times> rtp_member hash" where
  "encode_handler al now members mb =
     (case hash_apply members (sender_apply_handler al now) mb of
        (stop, members, mb) \<Rightarrow> ((if stop then Some ENOMEM else None, mb), members))"

text \<open>The fixed part of the report: a sender report once a packet was sent, a receiver report before.\<close>

definition sr_fixed ::
  "u32 \<times> u32 \<Rightarrow> u64 \<Rightarrow> rtcp_sess \<Rightarrow> rtcp_encode_h option \<Rightarrow> rtcp_args" where
  "sr_fixed ntp jfs_rt sess ench =
     (let tx = se_txstat sess in
      if tx_jfs_rt_ref tx \<noteq> 0 then
        (let dur = jfs_rt - tx_jfs_rt_ref tx;
             rtp_ts = ucast (ucast (tx_ts_ref tx) + dur * ucast (se_srate_tx sess) div 1000000 :: u64)
         in A_SR (se_ssrc sess) (fst ntp) (snd ntp) rtp_ts (tx_psent tx) (tx_osent tx) ench)
      else A_RR (se_ssrc sess) ench)"

text \<open>
  The encode handler is called once, with the buffer as the fixed part leaves it; there it also
  advances the interval counters of the members.
\<close>

definition mk_sr ::
  "alloc \<Rightarrow> u32 \<times> u32 \<Rightarrow> u64 \<Rightarrow> u64 \<Rightarrow> rtcp_sess \<Rightarrow> mbuf \<Rightarrow> (errno option \<times> mbuf) option \<times> rtcp_sess" where
  "mk_sr al ntp jfs_rt now sess mb =
     (let h = (\<lambda>m. fst (encode_handler al now (se_members sess) m));
          p = size_add (mb_pos mb) RTCP_HDR_SIZE;
          at = snd (snd (rtcp_body_encode al (se_senderc sess) (sr_fixed ntp jfs_rt sess None) (mb\<lparr>mb_pos := p, mb_end := p\<rparr>)));
          members = snd (encode_handler al now (se_members sess) at);
          tx = se_txstat sess
      in (rtcp_encode al (se_senderc sess) (sr_fixed ntp jfs_rt sess (Some h)) mb,
          sess\<lparr>se_txstat := tx\<lparr>tx_ts_synced := False\<rparr>, se_members := members\<rparr>))"

text \<open>The handler for the description returns whenever its padding loop does.\<close>

definition sdes_encode_handler :: "alloc \<Rightarrow> rtcp_sess \<Rightarrow> mbuf \<Rightarrow> (errno option \<times> mbuf) option" where
  "sdes_encode_handler al sess mb = rtcp_sdes_encode al (se_ssrc sess) [(RTCP_SDES_CNAME, se_cname sess)] mb"

definition mk_sdes :: "alloc \<Rightarrow> rtcp_sess \<Rightarrow> mbuf \<Rightarrow> (errno option \<times> mbuf) option" where
  "mk_sdes al sess mb =
     (let p = size_add (mb_pos mb) RTCP_HDR_SIZE in
      case sdes_encode_handler al sess (mb\<lparr>mb_pos := p, mb_end := p\<rparr>) of
        None \<Rightarrow> None
      | Some _ \<Rightarrow> rtcp_encode al 1 (A_SDES (Some (\<lambda>m. the (sdes_encode_handler al sess m)))) mb)"

text \<open>\<open>err = first; err |= mk_sdes(sess, mb)\<close>, then the datagram from the headroom on; \<open>udp\<close> is \<open>rtcp_send\<close>.\<close>

definition send_compound ::
  "(byte list \<Rightarrow> errno option) \<Rightarrow> alloc \<Rightarrow> rtcp_sess \<Rightarrow> (errno option \<times> mbuf) option \<Rightarrow> (errno option \<times> byte list list) option" where
  "send_compound udp al sess r =
     (case r of
        None \<Rightarrow> None
      | Some (e1, mb) \<Rightarrow>
          (case mk_sdes al sess mb of
             None \<Rightarrow> None
           | Some (e2, mb) \<Rightarrow>
               (case err_or e1 e2 of
                  Some err \<Rightarrow> Some (Some err, [])
                | None \<Rightarrow>
                    (let d = mb_after (mb\<lparr>mb_pos := RTCP_HEADROOM\<rparr>) in Some (udp d, [d])))))"

definition send_rtcp_report ::
  "(byte list \<Rightarrow> errno option) \<Rightarrow> alloc \<Rightarrow> u32 \<times> u32 \<Rightarrow> u64 \<Rightarrow> u64 \<Rightarrow> rtcp_sess \<Rightarrow> (errno option \<times> byte list list) option \<times> rtcp_sess" where
  "send_rtcp_report udp al ntp jfs_rt now sess =
     (case mbuf_alloc al 512 of
        None \<Rightarrow> (Some (Some ENOMEM, []), sess)
      | Some mb \<Rightarrow>
          (case mk_sr al ntp jfs_rt now sess (mb\<lparr>mb_pos := RTCP_HEADROOM\<rparr>) of
             (r, sess) \<Rightarrow> (send_compound udp al sess r, sess)))"

definition rtcp_send_bye_packet ::
  "(byte list \<Rightarrow> errno option) \<Rightarrow> alloc \<Rightarrow> rtcp_sess \<Rightarrow> (errno option \<times> byte list list) option" where
  "rtcp_send_bye_packet udp al sess =
     (case mbuf_alloc al 512 of
        None \<Rightarrow> Some (Some ENOMEM, [])
      | Some mb \<Rightarrow>
          send_compound udp al sess
            (rtcp_encode al 1 (A_BYE [se_ssrc sess] (Some (map of_char ''Adjo''))) (mb\<lparr>mb_pos := RTCP_HEADROOM\<rparr>)))"

text \<open>The report timer: send, then start it again whatever the outcome.\<close>

definition timeout ::
  "(byte list \<Rightarrow> errno option) \<Rightarrow> alloc \<Rightarrow> u32 \<times> u32 \<Rightarrow> u64 \<Rightarrow> u64 \<Rightarrow> rtcp_sess \<Rightarrow> byte list list option \<times> rtcp_sess" where
  "timeout udp al ntp jfs_rt now sess =
     (case send_rtcp_report udp al ntp jfs_rt now sess of
        (None, sess) \<Rightarrow> (None, sess)
      | (Some (_, out), sess) \<Rightarrow> (Some out, schedule sess))"

section \<open>RTP traffic\<close>

definition rtcp_sess_tx_rtp :: "rtcp_sess \<Rightarrow> u32 \<Rightarrow> u64 \<Rightarrow> nat \<Rightarrow> rtcp_sess" where
  "rtcp_sess_tx_rtp sess ts jfs_rt payload_size =
     (let tx = se_txstat sess;
          tx = tx\<lparr>tx_osent := tx_osent tx + of_nat payload_size, tx_psent := tx_psent tx + 1\<rparr>;
          tx = (if \<not> tx_ts_synced tx then tx\<lparr>tx_jfs_rt_ref := jfs_rt, tx_ts_ref := ts, tx_ts_synced := True\<rparr> else tx)
      in sess\<lparr>se_txstat := tx\<rparr>)"

text \<open>The source of a member that sends for the first time; \<open>mem_s\<close> tells whether it can be allocated.\<close>

definition rx_source :: "bool \<Rightarrow> rtcp_sess \<Rightarrow> rtp_member \<Rightarrow> u16 \<Rightarrow> sa \<Rightarrow> (rtp_source \<times> rtcp_sess) option" where
  "rx_source mem_s sess mbr sq peer =
     (case mbr_s mbr of
        Some s \<Rightarrow> Some (s, sess)
      | None \<Rightarrow>
          if \<not> mem_s then None
          else Some ((rtp_source_init_seq rtp_source_zero sq)\<lparr>s_rtp_peer := peer\<rparr>,
                     sess\<lparr>se_senderc := se_senderc sess + 1\<rparr>))"

definition rtcp_sess_rx_rtp ::
  "bool \<Rightarrow> bool \<Rightarrow> u64 \<Rightarrow> rtcp_sess \<Rightarrow> rtp_header \<Rightarrow> nat \<Rightarrow> sa \<Rightarrow> rtcp_sess \<times> rtp_header" where
  "rtcp_sess_rx_rtp mem mem_s now sess hdr payload_size peer =
     (case get_member mem sess (h_ssrc hdr) of
        (None, sess) \<Rightarrow> (sess, hdr)
      | (Some mbr, sess) \<Rightarrow>
          (case rx_source mem_s sess mbr (h_seq hdr) peer of
             None \<Rightarrow> (sess, hdr)
           | Some (s, sess) \<Rightarrow>
               (let s = snd (rtp_source_update_seq s (h_seq hdr));
                    hdr = (if se_srate_rx sess \<noteq> 0
                           then hdr\<lparr>h_ts_arrive := now * ucast (se_srate_rx sess) div 1000\<rparr> else hdr);
                    s = (if se_srate_rx sess \<noteq> 0 \<and> h_ts hdr \<noteq> s_last_rtp_ts s
                         then rtp_source_calc_jitter s (h_ts hdr) (ucast (h_ts_arrive hdr)) else s);
                    s = s\<lparr>s_last_rtp_ts := h_ts hdr, s_rtp_rx_bytes := s_rtp_rx_bytes s + of_nat payload_size\<rparr>
                in (sess\<lparr>se_members := member_put (se_members sess) (mbr\<lparr>mbr_s := Some s\<rparr>)\<rparr>, hdr))))"

record rtcp_stats_s =
  st_tx_sent :: u32
  st_tx_lost :: int
  st_tx_jit :: u32
  st_rtt :: u32
  st_rx_sent :: u32
  st_rx_lost :: int
  st_rx_jit :: u32

definition rtcp_stats :: "rtcp_sess \<Rightarrow> u32 \<Rightarrow> errno + rtcp_stats_s" where
  "rtcp_stats sess ssrc =
     (case rtp_member_find (se_members sess) ssrc of
        None \<Rightarrow> Inl ENOENT
      | Some mbr \<Rightarrow>
          (case mbr_s mbr of
             None \<Rightarrow> Inr \<lparr>st_tx_sent = tx_psent (se_txstat sess), st_tx_lost = mbr_cum_lost mbr, st_tx_jit = mbr_jit mbr,
                          st_rtt = mbr_rtt mbr, st_rx_sent = 0, st_rx_lost = 0, st_rx_jit = 0\<rparr>
           | Some s \<Rightarrow> Inr \<lparr>st_tx_sent = tx_psent (se_txstat sess), st_tx_lost = mbr_cum_lost mbr, st_tx_jit = mbr_jit mbr,
                            st_rtt = mbr_rtt mbr, st_rx_sent = s_received s, st_rx_lost = rtp_source_calc_lost s,
                            st_rx_jit = (if se_srate_rx sess \<noteq> 0
                                         then 1000000 * drop_bit 4 (s_jitter s) div se_srate_rx sess else 0)\<rparr>))"

section \<open>The member table\<close>

definition is_sender :: "rtp_member \<Rightarrow> bool" where
  "is_sender mbr \<longleftrightarrow> mbr_s mbr \<noteq> None"

definition members_of :: "rtcp_sess \<Rightarrow> rtp_member multiset" where
  "members_of sess = hash_items (se_members sess)"

definition sess_ok :: "rtcp_sess \<Rightarrow> bool" where
  "sess_ok sess \<longleftrightarrow> hash_ok mbr_src (se_members sess)
     \<and> unat (se_memberc sess) = size (members_of sess)
     \<and> unat (se_senderc sess) = size (filter_mset is_sender (members_of sess))
     \<and> se_memberc sess \<le> MAX_MEMBERS"

text \<open>Changes of elements in place keep the table when they keep the keys.\<close>

lemma hash_ok_cong:
  assumes "hash_ok key h" and "map (map key) bs = map (map key) (bucket h)"
  shows "hash_ok key (h\<lparr>bucket := bs\<rparr>)"
proof -
  have len: "length bs = length (bucket h)" using assms(2) by (metis length_map)
  have keys: "map key (bs ! i) = map key (bucket h ! i)" if "i < length bs" for i
    using arg_cong [OF assms(2), of "\<lambda>xs. xs ! i"] that len by simp
  have "map key (concat bs) = map key (concat (bucket h))" using assms(2) by (simp add: map_concat)
  moreover have "bidx h (key x) = i" if "i < length bs" "x \<in> set (bs ! i)" for i x
  proof -
    have "key x \<in> set (map key (bucket h ! i))" using that keys [OF that(1)] by (metis image_eqI set_map)
    then show ?thesis using assms(1) that(1) len by (auto simp: hash_ok_def)
  qed
  ultimately show ?thesis using assms(1) len by (simp add: hash_ok_def)
qed

lemma size_filter_cong:
  assumes "map (map g) bs = map (map g) (bucket h)" and "\<And>x y. g x = g y \<Longrightarrow> P x = P y"
  shows "size (filter_mset P (hash_items (h\<lparr>bucket := bs\<rparr>))) = size (filter_mset P (hash_items h))"
proof -
  have eq: "map g (concat bs) = map g (concat (bucket h))" using assms(1) by (simp add: map_concat)
  have "length (filter P xs) = length (filter P ys)" if "map g xs = map g ys" for xs ys
    using that
  proof (induction xs arbitrary: ys)
    case (Cons x xs)
    then obtain y ys' where "ys = y # ys'" "g x = g y" "map g xs = map g ys'" by (cases ys) auto
    with Cons.IH [of ys'] assms(2) [of x y] show ?case by simp
  qed simp
  from this [OF eq] show ?thesis by (simp add: hash_items_def flip: mset_filter)
qed

lemma find_iff:
  "hash_ok mbr_src h \<Longrightarrow> rtp_member_find h k = Some m \<longleftrightarrow> m \<in># hash_items h \<and> mbr_src m = k"
  unfolding rtp_member_find_def by (rule ht.look_iff)

lemma member_put_items:
  assumes ok: "hash_ok mbr_src h" and m: "rtp_member_find h (mbr_src mbr) = Some m"
  shows "hash_items (member_put h mbr) = add_mset mbr (hash_items h - {#m#})" and "hash_ok mbr_src (member_put h mbr)"
proof -
  let ?f = "\<lambda>x. if mbr_src x = mbr_src mbr then mbr else x"
  have mem: "m \<in># hash_items h" "mbr_src m = mbr_src mbr" using find_iff [OF ok] m by auto
  then obtain A where A: "hash_items h = add_mset m A" using multi_member_split by metis
  have "mbr_src x \<noteq> mbr_src mbr" if "x \<in># A" for x
  proof
    assume "mbr_src x = mbr_src mbr"
    moreover obtain B where "A = add_mset x B" using \<open>x \<in># A\<close> multi_member_split by metis
    ultimately have "count (image_mset mbr_src (hash_items h)) (mbr_src mbr) \<ge> 2" using A mem by simp
    with ht.keys_distinct [OF ok, of "mbr_src mbr"] show False by simp
  qed
  then have "image_mset ?f A = image_mset (\<lambda>x. x) A" by (intro image_mset_cong) auto
  then have "image_mset ?f A = A" by simp
  moreover have "hash_items (member_put h mbr) = image_mset ?f (hash_items h)"
    by (simp add: hash_items_def member_put_def flip: map_concat)
  ultimately show "hash_items (member_put h mbr) = add_mset mbr (hash_items h - {#m#})"
    using A mem by simp
  show "hash_ok mbr_src (member_put h mbr)"
    unfolding member_put_def by (rule hash_ok_cong [OF ok]) (auto simp: comp_def)
qed

lemma sess_put:
  assumes ok: "sess_ok sess" and m: "rtp_member_find (se_members sess) (mbr_src mbr) = Some m"
    and c: "unat c = unat (se_senderc sess) + of_bool (is_sender mbr) - of_bool (is_sender m)"
  shows "sess_ok (sess\<lparr>se_senderc := c, se_members := member_put (se_members sess) mbr\<rparr>)"
proof -
  have h: "hash_ok mbr_src (se_members sess)" using ok by (simp add: sess_ok_def)
  obtain A where A: "members_of sess = add_mset m A"
    using find_iff [OF h] m multi_member_split unfolding members_of_def by metis
  show ?thesis
    using ok c member_put_items [OF h m] A by (auto simp: sess_ok_def members_of_def)
qed

lemma sess_put_same:
  assumes "sess_ok sess" and "rtp_member_find (se_members sess) (mbr_src mbr) = Some m" and "is_sender mbr = is_sender m"
  shows "sess_ok (sess\<lparr>se_members := member_put (se_members sess) mbr\<rparr>)"
proof -
  have "sess\<lparr>se_senderc := se_senderc sess, se_members := member_put (se_members sess) mbr\<rparr>
      = sess\<lparr>se_members := member_put (se_members sess) mbr\<rparr>" by (cases sess) simp
  with sess_put [OF assms(1,2), of "se_senderc sess"] assms(3) show ?thesis by simp
qed

lemma unat_inc: "(w :: u32) < 0xffffffff \<Longrightarrow> unat (w + 1) = unat w + 1"
  by (simp add: word_less_nat_alt unat_plus_if')

lemma get_member_ok:
  assumes ok: "sess_ok sess" and g: "get_member mem sess src = (r, sess')"
  shows "sess_ok sess' \<and> (\<forall>mbr. r = Some mbr \<longrightarrow> rtp_member_find (se_members sess') src = Some mbr)
    \<and> se_srate_rx sess' = se_srate_rx sess"
proof (cases "rtp_member_find (se_members sess) src")
  case (Some mbr)
  with ok g show ?thesis by (simp add: get_member_def)
next
  case None
  have h: "hash_ok mbr_src (se_members sess)" using ok by (simp add: sess_ok_def)
  let ?z = "rtp_member_zero src"
  let ?h = "hash_append (se_members sess) src ?z"
  have key: "mbr_src ?z = src" by (simp add: rtp_member_zero_def)
  have none: "hash_lookup (se_members sess) (mbr_src ?z) (\<lambda>y. mbr_src y = mbr_src ?z) = None"
    using None key by (simp add: rtp_member_find_def)
  have new: "hash_ok mbr_src ?h" "hash_items ?h = add_mset ?z (hash_items (se_members sess))"
    using ht.add_ok [OF h none] ht.add_items [OF h, of ?z] key by simp_all
  have look: "rtp_member_find ?h src = Some ?z"
    using ht.look_add [OF h none, of src] key by (simp add: rtp_member_find_def)
  show ?thesis
  proof (cases "se_memberc sess \<ge> MAX_MEMBERS \<or> \<not> mem")
    case True
    with ok g None show ?thesis by (auto simp: get_member_def rtp_member_add_def split: if_splits)
  next
    case False
    then have lt: "se_memberc sess < 8" by (auto simp: MAX_MEMBERS_def not_le)
    then have inc: "unat (se_memberc sess + 1) = unat (se_memberc sess) + 1"
      by (intro unat_inc) (simp add: word_less_nat_alt)
    then have "se_memberc sess + 1 \<le> MAX_MEMBERS" using lt by (simp add: MAX_MEMBERS_def word_le_nat_alt word_less_nat_alt)
    moreover have "r = Some ?z" "sess' = sess\<lparr>se_members := ?h, se_memberc := se_memberc sess + 1\<rparr>"
      using g None False by (auto simp: get_member_def rtp_member_add_def)
    ultimately show ?thesis using ok new look inc
      by (simp add: sess_ok_def members_of_def is_sender_def rtp_member_zero_def)
  qed
qed

lemma rr_blocks_frame:
  "mbr_src (foldl (handle_rr_block ntp rate) mbr rrs) = mbr_src mbr"
  "mbr_s (foldl (handle_rr_block ntp rate) mbr rrs) = mbr_s mbr"
  by (induction rrs arbitrary: mbr) (simp_all add: handle_rr_block_def Let_def)

lemma find_src: "rtp_member_find h src = Some m \<Longrightarrow> mbr_src m = src"
  by (auto simp: rtp_member_find_def hash_lookup_def find_Some_iff)

lemma handle_incoming_ok:
  assumes "sess_ok sess"
  shows "sess_ok (handle_incoming_rr mem ntp sess src rrs)"
    and "sess_ok (handle_incoming_sr mem ntp now sess src sec frac ts ps os rrs)"
proof -
  obtain r sess' where g: "get_member mem sess src = (r, sess')" by (cases "get_member mem sess src")
  note ok = get_member_ok [OF assms g]
  have "sess_ok (handle_incoming_rr mem ntp sess src rrs)
      \<and> sess_ok (handle_incoming_sr mem ntp now sess src sec frac ts ps os rrs)"
  proof (cases r)
    case None
    with g ok show ?thesis by (simp add: handle_incoming_rr_def handle_incoming_sr_def)
  next
    case (Some mbr)
    with ok have f: "rtp_member_find (se_members sess') src = Some mbr" and s: "sess_ok sess'" by auto
    have put: "sess_ok (sess'\<lparr>se_members := member_put (se_members sess') x\<rparr>)"
      if "mbr_src x = mbr_src mbr" "is_sender x = is_sender mbr" for x
      using sess_put_same [OF s, of x mbr] f find_src [OF f] that by simp
    show ?thesis using g Some
      by (simp add: handle_incoming_rr_def handle_incoming_sr_def Let_def put rr_blocks_frame is_sender_def)
  qed
  then show "sess_ok (handle_incoming_rr mem ntp sess src rrs)"
    "sess_ok (handle_incoming_sr mem ntp now sess src sec frac ts ps os rrs)" by auto
qed

lemma bye_one_ok:
  assumes ok: "sess_ok sess"
  shows "sess_ok (bye_one sess src)"
proof (cases "rtp_member_find (se_members sess) src")
  case None
  with ok show ?thesis by (simp add: bye_one_def)
next
  case (Some mbr)
  have h: "hash_ok mbr_src (se_members sess)" using ok by (simp add: sess_ok_def)
  obtain A where A: "members_of sess = add_mset mbr A"
    using find_iff [OF h] Some multi_member_split unfolding members_of_def by metis
  have new: "hash_ok mbr_src (hash_unlink (se_members sess) mbr)" "hash_items (hash_unlink (se_members sess) mbr) = A"
    using ht.del_ok [OF h] ht.del_items [OF h, of mbr] A by (simp_all add: members_of_def)
  have c: "unat (se_memberc sess) = Suc (size A)"
    "unat (se_senderc sess) = of_bool (is_sender mbr) + size (filter_mset is_sender A)"
    using ok A by (simp_all add: sess_ok_def)
  then have "se_memberc sess \<noteq> 0" by auto
  then have m: "unat (se_memberc sess - 1) = size A" using c(1) by (simp add: unat_minus_one)
  have s: "unat (if is_sender mbr then se_senderc sess - 1 else se_senderc sess) = size (filter_mset is_sender A)"
  proof (cases "is_sender mbr")
    case True
    with c(2) have "se_senderc sess \<noteq> 0" by auto
    with True c(2) show ?thesis by (simp add: unat_minus_one)
  qed (use c(2) in simp)
  have "se_memberc sess - 1 \<le> MAX_MEMBERS"
    using ok m c(1) by (simp add: sess_ok_def word_le_nat_alt)
  with Some new m s show ?thesis
    by (simp add: bye_one_def sess_ok_def members_of_def is_sender_def)
qed

lemma rtcp_handler_ok [safe_intros]: "sess_ok sess \<Longrightarrow> sess_ok (rtcp_handler mem ntp now sess msg)"
proof -
  assume ok: "sess_ok sess"
  have "sess_ok (foldl bye_one sess srcv)" for srcv
    using ok by (induction srcv arbitrary: sess) (simp_all add: bye_one_ok)
  then show ?thesis
    using handle_incoming_ok [OF ok] ok
    by (auto simp: rtcp_handler_def handle_incoming_bye_def split: rtcp_body.split)
qed

lemma rx_rtp_ok [safe_intros]:
  assumes "sess_ok sess"
  shows "sess_ok (fst (rtcp_sess_rx_rtp mem mem_s now sess hdr n peer))"
proof -
  obtain r sess' where g: "get_member mem sess (h_ssrc hdr) = (r, sess')" by (cases "get_member mem sess (h_ssrc hdr)")
  note ok = get_member_ok [OF assms g]
  show ?thesis
  proof (cases r)
    case None
    with g ok show ?thesis by (simp add: rtcp_sess_rx_rtp_def)
  next
    case (Some mbr)
    with ok have f: "rtp_member_find (se_members sess') (h_ssrc hdr) = Some mbr" and s: "sess_ok sess'" by auto
    have key: "rtp_member_find (se_members sess') (mbr_src mbr) = Some mbr" using f find_src [OF f] by simp
    show ?thesis
    proof (cases "mbr_s mbr")
      case src: (Some s0)
      then show ?thesis using g Some sess_put_same [OF s, of "mbr\<lparr>mbr_s := Some x\<rparr>" mbr for x] key
        by (simp add: rtcp_sess_rx_rtp_def rx_source_def Let_def is_sender_def)
    next
      case None
      have "size (filter_mset is_sender (members_of sess')) \<le> size (members_of sess')" by (simp add: size_filter_mset_lesseq)
      moreover have "unat (se_memberc sess') \<le> 8" using s by (simp add: sess_ok_def MAX_MEMBERS_def word_le_nat_alt)
      ultimately have "unat (se_senderc sess') \<le> 8" using s unfolding sess_ok_def by linarith
      then have "unat (se_senderc sess' + 1) = unat (se_senderc sess') + 1"
        by (intro unat_inc) (simp add: word_less_nat_alt)
      then show ?thesis using g Some s None sess_put [OF s, of "mbr\<lparr>mbr_s := Some x\<rparr>" mbr "se_senderc sess' + 1" for x] key
        by (simp add: rtcp_sess_rx_rtp_def rx_source_def Let_def is_sender_def)
    qed
  qed
qed

section \<open>Reports keep the table and describe it\<close>

lemma apply_list_frame:
  assumes "\<And>x s. g (fst (snd (ah x s))) = g x"
  shows "map g (fst (snd (apply_list ah xs s))) = map g xs"
proof (induction xs arbitrary: s)
  case (Cons x xs)
  obtain stop x' s' where a: "ah x s = (stop, x', s')" by (cases "ah x s")
  then have "g x' = g x" using assms [of x s] by simp
  with a Cons [of s'] show ?case by (simp add: case_prod_beta)
qed simp

lemma apply_buckets_frame:
  assumes "\<And>x s. g (fst (snd (ah x s))) = g x"
  shows "map (map g) (fst (snd (apply_buckets ah bs s))) = map (map g) bs"
proof (induction bs arbitrary: s)
  case (Cons b bs)
  obtain stop b' s' where a: "apply_list ah b s = (stop, b', s')" by (cases "apply_list ah b s")
  then have "map g b' = map g b" using apply_list_frame [of g ah b s, OF assms] by simp
  with a Cons [of s'] show ?case by (simp add: case_prod_beta)
qed simp

lemma encode_handler_table:
  "snd (encode_handler al now h mb) = h\<lparr>bucket := fst (snd (apply_buckets (sender_apply_handler al now) (bucket h) mb))\<rparr>"
  by (simp add: encode_handler_def hash_apply_def case_prod_beta)

lemma sender_apply_frame:
  "(mbr_src (fst (snd (sender_apply_handler al now m mb))), is_sender (fst (snd (sender_apply_handler al now m mb))))
   = (mbr_src m, is_sender m)"
  by (simp add: sender_apply_handler_def mk_rr_def is_sender_def case_prod_beta split: option.split)

lemma mk_sr_ok [safe_intros]:
  assumes "sess_ok sess"
  shows "sess_ok (snd (mk_sr al ntp jfs now sess mb))"
proof -
  let ?g = "\<lambda>m. (mbr_src m, is_sender m)"
  define h where "h = se_members sess"
  have "sess_ok (sess\<lparr>se_txstat := tx, se_members := snd (encode_handler al now h m)\<rparr>)" for tx m
  proof -
    let ?bs = "fst (snd (apply_buckets (sender_apply_handler al now) (bucket h) m))"
    have eq: "map (map ?g) ?bs = map (map ?g) (bucket h)"
      by (rule apply_buckets_frame) (rule sender_apply_frame)
    then have "map (map fst) (map (map ?g) ?bs) = map (map fst) (map (map ?g) (bucket h))" by (simp only:)
    then have "map (map mbr_src) ?bs = map (map mbr_src) (bucket h)" by (simp add: comp_def)
    from hash_ok_cong [OF _ this] assms have "hash_ok mbr_src (h\<lparr>bucket := ?bs\<rparr>)" by (simp add: sess_ok_def h_def)
    moreover have "size (filter_mset is_sender (hash_items (h\<lparr>bucket := ?bs\<rparr>))) = size (filter_mset is_sender (hash_items h))"
      by (rule size_filter_cong [OF eq]) simp
    moreover have "size (hash_items (h\<lparr>bucket := ?bs\<rparr>)) = size (hash_items h)"
      using size_filter_cong [OF eq, of "\<lambda>_. True"] by simp
    ultimately show ?thesis using assms by (simp add: sess_ok_def members_of_def encode_handler_table h_def)
  qed
  then show ?thesis by (simp add: mk_sr_def Let_def h_def)
qed

text \<open>The blocks of a report: one per sender, in the order of the table.\<close>

fun blocks_of :: "u64 \<Rightarrow> rtp_member list \<Rightarrow> rtcp_rr list" where
  "blocks_of now [] = []"
| "blocks_of now (m # ms) =
     (case mbr_s m of None \<Rightarrow> blocks_of now ms | Some s \<Rightarrow> fst (mk_rr now m s) # blocks_of now ms)"

lemma blocks_of_append: "blocks_of now (xs @ ys) = blocks_of now xs @ blocks_of now ys"
  by (induction xs) (auto split: option.split)

lemma length_blocks_of: "length (blocks_of now xs) = size (filter_mset is_sender (mset xs))"
  by (induction xs) (auto simp: is_sender_def split: option.split)

definition stop_result :: "bool \<times> 'a \<times> mbuf \<Rightarrow> errno option \<times> mbuf" where
  "stop_result r = (if fst r then Some ENOMEM else None, snd (snd r))"

lemma apply_list_gives:
  assumes al: "alloc_total al"
  shows "gives (\<lambda>m. stop_result (apply_list (sender_apply_handler al now) xs m)) (concat (map rr_bytes (blocks_of now xs)))"
proof (induction xs)
  case Nil
  show ?case by (simp add: stop_result_def gives_skip)
next
  case (Cons x xs)
  show ?case
  proof (cases "mbr_s x")
    case None
    then have "stop_result (apply_list (sender_apply_handler al now) (x # xs) m)
        = stop_result (apply_list (sender_apply_handler al now) xs m)" for m
      by (simp add: sender_apply_handler_def stop_result_def case_prod_beta)
    with Cons None show ?thesis by simp
  next
    case (Some s)
    let ?rr = "fst (mk_rr now x s)"
    have "stop_result (apply_list (sender_apply_handler al now) (x # xs) m) =
        (case rtcp_rr_encode al ?rr m of
           (None, t) \<Rightarrow> stop_result (apply_list (sender_apply_handler al now) xs t)
         | (Some e, t) \<Rightarrow> (Some ENOMEM, t))" for m
      using Some by (cases "rtcp_rr_encode al ?rr m"; cases "fst (rtcp_rr_encode al ?rr m)")
        (simp_all add: sender_apply_handler_def stop_result_def case_prod_beta)
    with gives_then [OF gives_rr_encode [OF al, of ?rr] Cons, of "\<lambda>_. ENOMEM"] Some show ?thesis by simp
  qed
qed

lemma apply_buckets_gives:
  assumes al: "alloc_total al"
  shows "gives (\<lambda>m. stop_result (apply_buckets (sender_apply_handler al now) bs m)) (concat (map rr_bytes (blocks_of now (concat bs))))"
proof (induction bs)
  case Nil
  show ?case by (simp add: stop_result_def gives_skip)
next
  case (Cons b bs)
  have "stop_result (apply_buckets (sender_apply_handler al now) (b # bs) m) =
      (case stop_result (apply_list (sender_apply_handler al now) b m) of
         (None, t) \<Rightarrow> stop_result (apply_buckets (sender_apply_handler al now) bs t)
       | (Some e, t) \<Rightarrow> (Some ENOMEM, t))" for m
    by (simp add: stop_result_def case_prod_beta)
  with gives_then [OF apply_list_gives [OF al, of now b] Cons, of "\<lambda>_. ENOMEM"] show ?case
    by (simp add: blocks_of_append)
qed

lemma encode_handler_gives:
  assumes "alloc_total al"
  shows "gives (\<lambda>m. fst (encode_handler al now h m)) (concat (map rr_bytes (blocks_of now (concat (bucket h)))))"
proof -
  have "fst (encode_handler al now h m) = stop_result (apply_buckets (sender_apply_handler al now) (bucket h) m)" for m
    by (simp add: encode_handler_def hash_apply_def stop_result_def case_prod_beta)
  with apply_buckets_gives [OF assms] show ?thesis by simp
qed

lemma mset_blocks_of:
  "mset (blocks_of now xs) = image_mset (\<lambda>m. fst (mk_rr now m (the (mbr_s m)))) (filter_mset is_sender (mset xs))"
  by (induction xs) (auto simp: is_sender_def split: option.split)

text \<open>The fixed part of a report is that of a sender report or of a receiver report.\<close>

lemma sr_fixed_report:
  "is_report (sr_fixed ntp jfs sess h)" "args_ench (sr_fixed ntp jfs sess h) = h"
  by (simp_all add: sr_fixed_def is_report_def Let_def)

section \<open>The session as a machine\<close>

datatype sess_ev =
    Ev_Rtcp bool "u32 \<times> u32" u64 rtcp_msg
  | Ev_Rx bool bool u64 rtp_header nat sa
  | Ev_Tx u32 u64 nat
  | Ev_Timeout "byte list \<Rightarrow> errno option" alloc "u32 \<times> u32" u64 u64
  | Ev_Make_Sr alloc "u32 \<times> u32" u64 u64 mbuf
  | Ev_Srate u32 u32
  | Ev_Interval u32
  | Ev_Enable bool bool "byte list option"

fun sess_apply :: "rtcp_sess \<Rightarrow> sess_ev \<Rightarrow> rtcp_sess" where
  "sess_apply sess (Ev_Rtcp mem ntp now msg) = rtcp_handler mem ntp now sess msg"
| "sess_apply sess (Ev_Rx mem mem_s now hdr n peer) = fst (rtcp_sess_rx_rtp mem mem_s now sess hdr n peer)"
| "sess_apply sess (Ev_Tx ts jfs n) = rtcp_sess_tx_rtp sess ts jfs n"
| "sess_apply sess (Ev_Timeout udp al ntp jfs now) = snd (timeout udp al ntp jfs now sess)"
| "sess_apply sess (Ev_Make_Sr al ntp jfs now mb) = snd (mk_sr al ntp jfs now sess mb)"
| "sess_apply sess (Ev_Srate tx rx) = rtcp_set_srate sess tx rx"
| "sess_apply sess (Ev_Interval n) = rtcp_set_interval sess n"
| "sess_apply sess (Ev_Enable dup en cname) = snd (rtcp_enable dup sess en cname)"

inductive sess_step :: "rtcp_sess \<Rightarrow> sess_ev \<Rightarrow> rtcp_sess \<Rightarrow> bool" where
  step: "sess_step sess ev (sess_apply sess ev)"

inductive_cases sess_stepE: "sess_step sess ev sess'"

definition sess_fresh :: "rtcp_sess \<Rightarrow> bool" where
  "sess_fresh sess \<longleftrightarrow> (\<exists>ssrc. rtcp_sess_alloc True True True True ssrc = Inr sess)"

lemma sess_fresh_ok: "sess_fresh sess \<Longrightarrow> sess_ok sess"
proof -
  assume "sess_fresh sess"
  then obtain ssrc where a: "rtcp_sess_alloc True True True True ssrc = Inr sess" by (auto simp: sess_fresh_def)
  let ?h = "\<lparr>bucket = replicate 8 [], bsize = 8\<rparr> :: rtp_member hash"
  have "(hash_alloc True True MAX_MEMBERS :: errno + rtp_member hash) = Inr ?h"
    by (simp add: hash_alloc_def MAX_MEMBERS_def)
  with a have "se_members sess = ?h" "se_memberc sess = 0" "se_senderc sess = 0"
    by (auto simp: rtcp_sess_alloc_def)
  moreover have "hash_ok mbr_src ?h" "hash_items ?h = {#}"
    by (simp_all add: hash_ok_def hash_items_def concat_replicate_trivial)
  ultimately show ?thesis by (simp add: sess_ok_def members_of_def)
qed

lemma sess_frame_ok:
  "sess_ok sess \<Longrightarrow> sess_ok (rtcp_sess_tx_rtp sess ts jfs n)"
  "sess_ok sess \<Longrightarrow> sess_ok (rtcp_set_srate sess tx rx)"
  "sess_ok sess \<Longrightarrow> sess_ok (rtcp_set_interval sess i)"
  "sess_ok sess \<Longrightarrow> sess_ok (schedule sess)"
  "sess_ok sess \<Longrightarrow> sess_ok (snd (rtcp_enable dup sess en cname))"
  by (auto simp: rtcp_sess_tx_rtp_def rtcp_set_srate_def rtcp_set_interval_def schedule_def rtcp_enable_def sess_ok_def
      members_of_def Let_def split: option.split)

lemma timeout_ok: "sess_ok sess \<Longrightarrow> sess_ok (snd (timeout udp al ntp jfs now sess))"
  using mk_sr_ok [of sess al ntp jfs now]
  by (auto simp: timeout_def send_rtcp_report_def case_prod_beta sess_frame_ok split: option.split)

interpretation sessm: machine sess_fresh sess_step sess_ok
proof (unfold_locales, goal_cases)
  case (1 s)
  then show ?case by (rule sess_fresh_ok)
next
  case (2 s ev t)
  then show ?case
    by (cases ev) (auto elim!: sess_stepE simp: rtcp_handler_ok rx_rtp_ok sess_frame_ok mk_sr_ok timeout_ok)
qed

section \<open>Properties\<close>

text \<open>C29: Reports arrive as made. In every state a session can reach, \<open>mk_sr\<close> with memory available returns and
  succeeds, and what it wrote behind the data of the buffer decodes to a report with the version,
  the type, the length and the count of its blocks in the header: a sender report with the
  session's identifier, the time given, the RTP time worked out from it and the packets and
  bytes sent, or a receiver report when nothing was sent yet; with exactly one block for each
  member that has sent, holding the values of \<open>mk_rr\<close> field by field. The cursor ends where the
  encoder left it. The buffer has room for the header at the cursor and the cursor is at least
  1024 below the range of \<open>size_t\<close>.\<close>

theorem rtcp_report_roundtrip:
  assumes "reachable sess_fresh sess_step sess" and "mbuf_ok mb" and "mb_pos mb + 4 \<le> mb_size mb"
    and "mb_pos mb + 1024 < size_mod" and "alloc_total al" and "alloc_total al2"
  shows "\<exists>mb' mb'' rrs. fst (mk_sr al ntp jfs now sess mb) = Some (None, mb')
    \<and> rtcp_decode al2 (mbuf_set_pos mb' (mb_pos mb)) = Some (None, Some
      \<lparr>m_hdr = \<lparr>hd_version = RTCP_VERSION, hd_p = False, hd_count = of_nat (length rrs),
                 hd_pt = (if tx_jfs_rt_ref (se_txstat sess) \<noteq> 0 then RTCP_SR else RTCP_RR),
                 hd_length = of_nat ((if tx_jfs_rt_ref (se_txstat sess) \<noteq> 0 then 6 else 1) + 6 * length rrs)\<rparr>,
       m_r = (if tx_jfs_rt_ref (se_txstat sess) \<noteq> 0
              then B_SR (se_ssrc sess) (fst ntp) (snd ntp)
                (ucast (ucast (tx_ts_ref (se_txstat sess))
                   + (jfs - tx_jfs_rt_ref (se_txstat sess)) * ucast (se_srate_tx sess) div 1000000 :: u64))
                (tx_psent (se_txstat sess)) (tx_osent (se_txstat sess)) rrs
              else B_RR (se_ssrc sess) rrs)\<rparr>, mb'')
    \<and> mb_pos mb'' = mb_pos mb'
    \<and> mset rrs = image_mset (\<lambda>m. fst (mk_rr now m (the (mbr_s m)))) (filter_mset is_sender (members_of sess))"
proof -
  let ?h = "\<lambda>m. fst (encode_handler al now (se_members sess) m)"
  define rrs where "rrs = blocks_of now (concat (bucket (se_members sess)))"
  have ok: "sess_ok sess" using assms(1) by (rule sessm.reachable_inv)
  have rrs: "mset rrs = image_mset (\<lambda>m. fst (mk_rr now m (the (mbr_s m)))) (filter_mset is_sender (members_of sess))"
    by (simp add: rrs_def mset_blocks_of members_of_def hash_items_def)
  have len: "unat (se_senderc sess) = length rrs" using ok arg_cong [OF rrs, of size] by (simp add: sess_ok_def)
  have le: "size (filter_mset is_sender (members_of sess)) \<le> size (members_of sess)" by (simp add: size_filter_mset_lesseq)
  have "size (members_of sess) \<le> 8" "length rrs = size (filter_mset is_sender (members_of sess))"
    using ok arg_cong [OF rrs, of size] by (simp_all add: sess_ok_def MAX_MEMBERS_def word_le_nat_alt)
  with le have few: "length rrs < 32" by linarith
  have cnt: "se_senderc sess = of_nat (length rrs)" using len by (metis of_nat_unat ucast_id)
  have e: "ench_gives (args_ench (sr_fixed ntp jfs sess (Some ?h))) (concat (map rr_bytes rrs))"
    using encode_handler_gives [OF assms(5), of now "se_members sess"]
    by (simp add: sr_fixed_report ench_gives_def rrs_def)
  from report_encoded_decodes [OF sr_fixed_report(1) assms(2-4) few assms(5,6) e]
  show ?thesis using rrs
    by (auto simp: mk_sr_def Let_def cnt sr_fixed_def report_words_def RTCP_SR_def RTCP_RR_def)
qed

text \<open>A session that received a packet from one source and sent one itself.\<close>

definition sess_one :: rtcp_sess where
  "sess_one = sess_apply (sess_apply (projr (rtcp_sess_alloc True True True True 1))
     (Ev_Rx True True 0 rtp_header_zero 0 0)) (Ev_Tx 160 5 20)"

lemma sess_one_reachable: "reachable sess_fresh sess_step sess_one"
proof -
  have "sess_fresh (projr (rtcp_sess_alloc True True True True 1))"
    by (auto simp: sess_fresh_def rtcp_sess_alloc_def hash_alloc_def MAX_MEMBERS_def)
  then show ?thesis
    unfolding sess_one_def by (meson reach_init reach_step sess_step.step)
qed

lemma sess_one_facts:
  "tx_jfs_rt_ref (se_txstat sess_one) = 5" "se_senderc sess_one = 1" "tx_psent (se_txstat sess_one) = 1" "se_ssrc sess_one = 1"
proof -
  define h where "h = (\<lparr>bucket = replicate 8 [], bsize = 8\<rparr> :: rtp_member hash)"
  have "rtp_member_find h 0 = None" by (simp add: h_def rtp_member_find_def hash_lookup_def bidx_def)
  then have "tx_jfs_rt_ref (se_txstat sess_one) = 5 \<and> se_senderc sess_one = 1
      \<and> tx_psent (se_txstat sess_one) = 1 \<and> se_ssrc sess_one = 1"
    by (simp add: sess_one_def rtcp_sess_alloc_def hash_alloc_def MAX_MEMBERS_def rtcp_sess_rx_rtp_def rtcp_sess_tx_rtp_def
        get_member_def rtp_member_add_def rtp_header_zero_def Let_def rx_source_def rtp_member_zero_def
        flip: h_def)
  then show "tx_jfs_rt_ref (se_txstat sess_one) = 5" "se_senderc sess_one = 1" "tx_psent (se_txstat sess_one) = 1"
    "se_ssrc sess_one = 1" by simp_all
qed

theorem rtcp_report_roundtrip_witness:
  "\<exists>mb' mb'' m rr ts. fst (mk_sr al_zero (8, 9) 7 3 sess_one (mbuf_of (replicate 8 0))) = Some (None, mb')
     \<and> rtcp_decode al_zero (mbuf_set_pos mb' 0) = Some (None, Some m, mb'')
     \<and> m_r m = B_SR 1 8 9 ts 1 (tx_osent (se_txstat sess_one)) [rr]"
proof -
  let ?mb = "mbuf_of (replicate 8 0)"
  have mb: "mbuf_ok ?mb" "mb_pos ?mb + 4 \<le> mb_size ?mb" "mb_pos ?mb + 1024 < size_mod" "mb_pos ?mb = 0"
    by (simp_all add: mbuf_of_def mbuf_ok_def size_mod_def mb_bytes_def)
  have "sess_ok sess_one" by (rule sessm.reachable_inv [OF sess_one_reachable])
  then have "size (filter_mset is_sender (members_of sess_one)) = 1"
    using sess_one_facts by (simp add: sess_ok_def)
  moreover have "\<exists>r. rrs = [r]" if "size (mset rrs) = 1" for rrs :: "rtcp_rr list"
    using that by (cases rrs) auto
  ultimately show ?thesis
    using rtcp_report_roundtrip [OF sess_one_reachable mb(1-3) al_zero_total al_zero_total, of "(8, 9)" 7 3]
    unfolding sess_one_facts mb(4) by (fastforce simp del: size_mset)
qed

text \<open>C8: The member table stays consistent. In every state a session can reach, by packets of any content in
  any order and with any allocation failing, there are at most eight members with different
  identifiers, \<open>memberc\<close> is their number and \<open>senderc\<close> the number of those that have sent.\<close>

theorem session_counts:
  assumes "reachable sess_fresh sess_step sess"
  shows "unat (se_memberc sess) = size (members_of sess) \<and> size (members_of sess) \<le> 8
    \<and> unat (se_senderc sess) = size (filter_mset is_sender (members_of sess))
    \<and> (\<forall>k. count (image_mset mbr_src (members_of sess)) k \<le> 1)"
proof -
  have ok: "sess_ok sess" using assms by (rule sessm.reachable_inv)
  then have "hash_ok mbr_src (se_members sess)" "unat (se_memberc sess) \<le> 8"
    by (auto simp: sess_ok_def MAX_MEMBERS_def word_le_nat_alt)
  with ok ht.keys_distinct [of mbr_src "se_members sess"] show ?thesis by (simp add: sess_ok_def members_of_def)
qed

definition sess_example :: rtcp_sess where
  "sess_example = sess_apply (projr (rtcp_sess_alloc True True True True 1)) (Ev_Rx True True 0 rtp_header_zero 0 0)"

lemma sess_example_reachable: "reachable sess_fresh sess_step sess_example"
proof -
  have "sess_fresh (projr (rtcp_sess_alloc True True True True 1))"
    by (auto simp: sess_fresh_def rtcp_sess_alloc_def hash_alloc_def MAX_MEMBERS_def)
  then show ?thesis
    unfolding sess_example_def by (meson reach_init reach_step sess_step.step)
qed

theorem session_counts_witness:
  "unat (se_memberc sess_example) = size (members_of sess_example) \<and> size (members_of sess_example) \<le> 8"
  using session_counts [OF sess_example_reachable] by simp

end
