(* ===== verification/Jbuf.thy ===== *)
theory Jbuf
  imports Rtp "HOL-Library.Multiset"
begin

text \<open>
  The adaptive jitter buffer, \<open>baresip/src/jbuf.c\<close>, built with its statistics (\<open>RELEASE\<close> not defined).

  The packets in the buffer are a list in the order of \<open>packetl\<close>; of the pool only the number of
  free cells matters, since a cell is overwritten when it is taken. \<open>mem\<close> pointers are
  identifiers; \<open>jb_refs\<close> counts the references the buffer has taken of each minus those it gave
  back. \<open>jb_ub\<close> is a ghost flag, set where the C code would overflow a signed integer, shift too
  far or convert an out-of-range float. The float divisions of \<open>calc_rdiff\<close> are the parameter \<open>fp\<close>:
  every theorem holds for all roundings. \<open>now\<close> is \<open>tmr_jiffies()\<close>, the lock makes each call
  one step, and \<open>None\<close> as the result of a call is a NULL dereference.
\<close>

datatype jbuf_type = JBUF_OFF | JBUF_FIXED | JBUF_ADAPTIVE

record packet =
  pk_hdr :: rtp_header
  pk_mem :: nat

abbreviation pk_seq :: "packet \<Rightarrow> u16" where "pk_seq p \<equiv> h_seq (pk_hdr p)"
abbreviation pk_ts :: "packet \<Rightarrow> u32" where "pk_ts p \<equiv> h_ts (pk_hdr p)"

record jbuf_stat =
  n_put :: u32
  n_get :: u32
  n_oos :: u32
  n_dups :: u32
  n_late :: u32
  n_lost :: u32
  n_overflow :: u32
  n_underflow :: u32
  n_flush :: u32

record jbuf =
  jb_gnack :: bool
  jb_pool :: nat
  jb_packetl :: "packet list"
  jb_n :: u32
  jb_nf :: u32
  jb_min :: u32
  jb_max :: u32
  jb_wish :: u32
  jb_seq_put :: u16
  jb_seq_get :: u16
  jb_ssrc :: u32
  jb_tr :: u64
  jb_pt :: int
  jb_running :: bool
  jb_rdiff :: int
  jb_tmr :: "u64 option"
  jb_type :: jbuf_type
  jb_stat :: jbuf_stat
  jb_refs :: "nat \<Rightarrow> int"
  jb_ub :: bool

record fp_ops =
  fp_max :: "u32 \<Rightarrow> u32 \<Rightarrow> u32 \<Rightarrow> u32"
  fp_wish :: "int \<Rightarrow> (u32 \<times> u32) option \<Rightarrow> u32"

definition JBUF_RDIFF_EMA_COEFF :: int where "JBUF_RDIFF_EMA_COEFF = 1024"
definition JBUF_RDIFF_UP_SPEED :: int where "JBUF_RDIFF_UP_SPEED = 512"
definition JBUF_PUT_TIMEOUT :: u64 where "JBUF_PUT_TIMEOUT = 400"

definition seq_less :: "u16 \<Rightarrow> u16 \<Rightarrow> bool" where
  "seq_less x y \<longleftrightarrow> sint (x - y) < 0"

section \<open>Cells and allocation\<close>

definition ref_add :: "nat \<Rightarrow> int \<Rightarrow> jbuf \<Rightarrow> jbuf" where
  "ref_add m d jb = jb\<lparr>jb_refs := (jb_refs jb)(m := jb_refs jb m + d)\<rparr>"

definition packet_alloc :: "jbuf \<Rightarrow> jbuf option" where
  "packet_alloc jb =
     (if jb_pool jb \<noteq> 0 then Some (jb\<lparr>jb_pool := jb_pool jb - 1, jb_n := jb_n jb + 1\<rparr>)
      else
        (case jb_packetl jb of
           [] \<Rightarrow> None
         | f0 # rest \<Rightarrow>
             (let stat = jb_stat jb;
                  jb = jb\<lparr>jb_stat := stat\<lparr>n_overflow := n_overflow stat + 1\<rparr>\<rparr>;
                  jb = (case rest of
                          f1 # _ \<Rightarrow> if pk_ts f1 \<noteq> pk_ts f0 then jb\<lparr>jb_nf := jb_nf jb - 1\<rparr> else jb
                        | [] \<Rightarrow> jb)
              in Some ((ref_add (pk_mem f0) (-1) jb)\<lparr>jb_packetl := rest\<rparr>))))"

text \<open>\<open>packet_deref\<close> of the cell in front of \<open>rest\<close>.\<close>

definition packet_deref :: "jbuf \<Rightarrow> packet \<Rightarrow> packet list \<Rightarrow> jbuf" where
  "packet_deref jb f rest =
     (ref_add (pk_mem f) (-1) jb)\<lparr>jb_packetl := rest, jb_pool := jb_pool jb + 1, jb_n := jb_n jb - 1\<rparr>"

definition jbuf_stat_zero :: jbuf_stat where
  "jbuf_stat_zero = \<lparr>n_put = 0, n_get = 0, n_oos = 0, n_dups = 0, n_late = 0, n_lost = 0, n_overflow = 0,
                     n_underflow = 0, n_flush = 0\<rparr>"

text \<open>\<open>mem\<close>, \<open>lock\<close> and \<open>cell i\<close> tell whether the buffer, its mutex and its \<open>i\<close>-th packet can be allocated.\<close>

definition jbuf_alloc :: "bool \<Rightarrow> bool \<Rightarrow> (nat \<Rightarrow> bool) \<Rightarrow> u32 \<Rightarrow> u32 \<Rightarrow> errno + jbuf" where
  "jbuf_alloc mem lock cell mn mx =
     (if mn > mx then Inl EINVAL
      else if \<not> seq_less 10 20 \<or> seq_less 20 10 \<or> \<not> seq_less 65535 0 then Inl ENOSYS
      else if \<not> mem then Inl ENOMEM
      else if \<not> lock then Inl ENOMEM
      else if list_all cell [0..<unat mx] then
        Inr \<lparr>jb_gnack = False, jb_pool = unat mx, jb_packetl = [], jb_n = 0, jb_nf = 0, jb_min = mn, jb_max = mx,
             jb_wish = mn, jb_seq_put = 0, jb_seq_get = 0, jb_ssrc = 0, jb_tr = 0, jb_pt = -1, jb_running = False,
             jb_rdiff = 0, jb_tmr = None, jb_type = JBUF_FIXED, jb_stat = jbuf_stat_zero, jb_refs = (\<lambda>_. 0),
             jb_ub = False\<rparr>
      else Inl ENOMEM)"

definition jbuf_set_type :: "jbuf \<Rightarrow> jbuf_type \<Rightarrow> jbuf" where
  "jbuf_set_type jb t = jb\<lparr>jb_type := t\<rparr>"

definition jbuf_set_gnack :: "jbuf \<Rightarrow> bool \<Rightarrow> jbuf" where
  "jbuf_set_gnack jb rtp = jb\<lparr>jb_gnack := rtp\<rparr>"

fun flush_cells :: "packet list \<Rightarrow> jbuf \<Rightarrow> jbuf" where
  "flush_cells [] jb = jb"
| "flush_cells (f # fs) jb = flush_cells fs (packet_deref jb f fs)"

definition jbuf_flush :: "jbuf \<Rightarrow> jbuf" where
  "jbuf_flush jb =
     (let jb = flush_cells (jb_packetl jb) jb
      in jb\<lparr>jb_n := 0, jb_nf := 0, jb_running := False, jb_seq_get := 0,
            jb_stat := jbuf_stat_zero\<lparr>n_flush := n_flush (jb_stat jb) + 1\<rparr>\<rparr>)"

section \<open>The adaptive size\<close>

text \<open>The timer fires: \<open>tmr_poll\<close> has stopped it before it calls the handler.\<close>

definition wish_down :: "jbuf \<Rightarrow> jbuf" where
  "wish_down jb =
     (let jb = jb\<lparr>jb_tmr := None\<rparr>
      in if jb_wish jb > jb_min jb then jb\<lparr>jb_wish := jb_wish jb - 1\<rparr> else jb)"

definition tmr_get_expire :: "u64 \<Rightarrow> u64 option \<Rightarrow> u64" where
  "tmr_get_expire now t = (case t of None \<Rightarrow> 0 | Some jfs \<Rightarrow> if jfs > now then jfs - now else 0)"

definition int32_ok :: "int \<Rightarrow> bool" where
  "int32_ok i \<longleftrightarrow> - (2 ^ 31) \<le> i \<and> i < 2 ^ 31"

text \<open>The moving average; the product is a signed 32-bit one.\<close>

definition ema :: "u32 \<Rightarrow> int \<Rightarrow> int \<Rightarrow> int \<times> bool" where
  "ema wish rdiff adiff =
     (let s = (if adiff > rdiff then JBUF_RDIFF_UP_SPEED else if wish > 2 then 1 else if wish > 1 then 2 else 3);
          p = (adiff - rdiff) * s;
          w = sint (of_int p :: u32)
      in (rdiff + (sgn w * (\<bar>w\<bar> div JBUF_RDIFF_EMA_COEFF)), int32_ok p))"

definition adapt_wish :: "u64 \<Rightarrow> u32 \<Rightarrow> jbuf \<Rightarrow> jbuf" where
  "adapt_wish now wish jb =
     (if wish > jb_wish jb then jb\<lparr>jb_wish := wish, jb_tmr := None\<rparr>
      else if wish < jb_wish jb then
        (let dt = (if wish + 1 = jb_wish jb then 6000 else 1000)
         in if jb_tmr jb = None \<or> tmr_get_expire now (jb_tmr jb) > dt
            then jb\<lparr>jb_tmr := Some (dt + now)\<rparr> else jb)
      else jb\<lparr>jb_tmr := None\<rparr>)"

definition calc_rdiff :: "fp_ops \<Rightarrow> u64 \<Rightarrow> jbuf \<Rightarrow> u16 \<Rightarrow> jbuf" where
  "calc_rdiff fp now jb sq =
     (if jb_type jb \<noteq> JBUF_ADAPTIVE then jb
      else if jb_seq_get jb = 0 then jb
      else
        (let mx = (if jb_nf jb \<noteq> 0 then fp_max fp (jb_max jb) (jb_n jb) (jb_nf jb) else jb_max jb);
             ratio = (if jb_nf jb \<noteq> 0 then Some (jb_n jb, jb_nf jb) else None);
             rdiff = sint (jb_seq_put jb + 1 - sq);
             adiff = \<bar>rdiff * JBUF_RDIFF_EMA_COEFF\<bar>;
             (avg, ok) = ema (jb_wish jb) (jb_rdiff jb) adiff;
             wish = fp_wish fp avg ratio;
             wish = (if wish < jb_min jb then jb_min jb else wish);
             wish = (if mx \<noteq> 0 \<and> wish \<ge> mx then mx - 1 else wish)
         in adapt_wish now wish
              (jb\<lparr>jb_rdiff := avg,
                  jb_ub := jb_ub jb \<or> \<not> ok \<or> avg < 0 \<or> (jb_nf jb \<noteq> 0 \<and> jb_n jb = 0)\<rparr>)))"

text \<open>The negative acknowledgement: the first missing number and a bit for each of the following.\<close>

fun blp_loop :: "nat \<Rightarrow> u16" where
  "blp_loop 0 = 0"
| "blp_loop (Suc i) = blp_loop i OR push_bit i 1"

definition send_gnack :: "jbuf \<Rightarrow> u16 \<Rightarrow> int \<Rightarrow> (u32 \<times> u16 \<times> u16) \<times> jbuf" where
  "send_gnack jb last_seq seq_diff =
     ((jb_ssrc jb, last_seq + 1, blp_loop (nat (seq_diff - 2))),
      jb\<lparr>jb_ub := jb_ub jb \<or> seq_diff - 3 \<ge> 31\<rparr>)"

section \<open>Putting and getting packets\<close>

text \<open>
  The search for the right position walks from the tail; the first argument is what is still
  to be looked at, last packet first. \<open>None\<close> is a duplicate.
\<close>

fun find_place :: "u16 \<Rightarrow> packet list \<Rightarrow> packet list \<Rightarrow> (packet list \<times> packet list) option" where
  "find_place sq [] after = Some ([], after)"
| "find_place sq (x # before) after =
     (if seq_less (pk_seq x) sq then Some (rev (x # before), after)
      else if sq = pk_seq x then None
      else find_place sq before (x # after))"

definition put_success :: "jbuf \<Rightarrow> rtp_header \<Rightarrow> nat \<Rightarrow> packet list \<Rightarrow> packet list \<Rightarrow> jbuf" where
  "put_success jb hdr mem before after =
     (let f = \<lparr>pk_hdr = hdr, pk_mem = mem\<rparr>;
          jb = (ref_add mem 1 jb)\<lparr>jb_packetl := before @ f # after, jb_running := True, jb_seq_put := h_seq hdr\<rparr>;
          eql = (before \<noteq> [] \<and> pk_ts (last before) = h_ts hdr);
          eql = (eql \<or> (after \<noteq> [] \<and> pk_ts (hd after) = h_ts hdr))
      in if \<not> eql then jb\<lparr>jb_nf := jb_nf jb + 1\<rparr> else jb)"

text \<open>The part after the late check: take a cell, find the place.\<close>

definition put_packet ::
  "jbuf \<Rightarrow> rtp_header \<Rightarrow> nat \<Rightarrow> ((errno option \<times> (u32 \<times> u16 \<times> u16) list) \<times> jbuf) option" where
  "put_packet jb hdr mem =
     (let sq = h_seq hdr;
          stat = jb_stat jb
      in case packet_alloc (jb\<lparr>jb_stat := stat\<lparr>n_put := n_put stat + 1\<rparr>\<rparr>) of
           None \<Rightarrow> None
         | Some jb \<Rightarrow>
             if jb_packetl jb = [] then Some ((None, []), put_success jb hdr mem [] [])
             else if seq_less (pk_seq (last (jb_packetl jb))) sq then
               (let last_seq = pk_seq (last (jb_packetl jb));
                    seq_diff = sint (sq - last_seq);
                    (out, jb) = (if jb_gnack jb \<and> seq_diff > 1
                                 then (case send_gnack jb last_seq seq_diff of (g, jb) \<Rightarrow> ([g], jb)) else ([], jb))
                in Some ((None, out), put_success jb hdr mem (jb_packetl jb) []))
             else
               (let stat = jb_stat jb
                in case find_place sq (rev (jb_packetl jb)) [] of
                     None \<Rightarrow>
                       Some ((Some EALREADY, []),
                             jb\<lparr>jb_stat := stat\<lparr>n_dups := n_dups stat + 1\<rparr>, jb_pool := jb_pool jb + 1,
                                jb_n := jb_n jb - 1\<rparr>)
                   | Some (before, after) \<Rightarrow>
                       Some ((None, []),
                             put_success (jb\<lparr>jb_stat := stat\<lparr>n_oos := n_oos stat + 1\<rparr>\<rparr>) hdr mem before after)))"

text \<open>The flushes at the start of \<open>jbuf_put\<close>: another source, or a talk spurt after a pause.\<close>

definition put_prologue :: "u64 \<Rightarrow> jbuf \<Rightarrow> rtp_header \<Rightarrow> jbuf" where
  "put_prologue now jb hdr =
     (let jb = (if jb_pt jb = -1 then jb\<lparr>jb_pt := int (unat (h_pt hdr))\<rparr> else jb);
          jb = (if jb_ssrc jb \<noteq> 0 \<and> jb_ssrc jb \<noteq> h_ssrc hdr then jbuf_flush jb else jb);
          jb = (if jb_tr jb \<noteq> 0 \<and> now - jb_tr jb > JBUF_PUT_TIMEOUT \<and> h_m hdr then jbuf_flush jb else jb)
      in jb\<lparr>jb_tr := now, jb_ssrc := h_ssrc hdr\<rparr>)"

definition jbuf_put ::
  "fp_ops \<Rightarrow> u64 \<Rightarrow> jbuf \<Rightarrow> rtp_header \<Rightarrow> nat \<Rightarrow> ((errno option \<times> (u32 \<times> u16 \<times> u16) list) \<times> jbuf) option" where
  "jbuf_put fp now jb hdr mem =
     (let jb = put_prologue now jb hdr;
          jb = (if jb_running jb \<and> jb_type jb = JBUF_ADAPTIVE then calc_rdiff fp now jb (h_seq hdr) else jb)
      in if jb_running jb \<and> jb_seq_get jb \<noteq> 0 \<and> seq_less (h_seq hdr) (jb_seq_get jb + 1) then
           (let stat = jb_stat jb
            in Some ((Some ETIMEDOUT, []), jb\<lparr>jb_stat := stat\<lparr>n_late := n_late stat + 1\<rparr>\<rparr>))
         else put_packet jb hdr mem)"

text \<open>What \<open>jbuf_get\<close> and \<open>jbuf_drain\<close> share: hand out the first packet.\<close>

definition take_head :: "jbuf \<Rightarrow> packet \<Rightarrow> packet list \<Rightarrow> jbuf" where
  "take_head jb f rest =
     (let jb = (ref_add (pk_mem f) 1 jb)\<lparr>jb_seq_get := pk_seq f\<rparr>;
          jb = (if rest = [] \<or> pk_ts f \<noteq> pk_ts (hd rest) then jb\<lparr>jb_nf := jb_nf jb - 1\<rparr> else jb)
      in packet_deref jb f rest)"

definition jbuf_get :: "jbuf \<Rightarrow> (errno option \<times> packet option) \<times> jbuf" where
  "jbuf_get jb =
     (let stat = jb_stat jb;
          jb = jb\<lparr>jb_stat := stat\<lparr>n_get := n_get stat + 1\<rparr>\<rparr>;
          stat = jb_stat jb
      in case jb_packetl jb of
           f # rest \<Rightarrow>
             if jb_nf jb \<le> jb_wish jb
             then ((Some ENOENT, None), jb\<lparr>jb_stat := stat\<lparr>n_underflow := n_underflow stat + 1\<rparr>\<rparr>)
             else
               (let jb = (if jb_seq_get jb \<noteq> 0 \<and> \<not> seq_less (pk_seq f) (jb_seq_get jb)
                             \<and> sint (pk_seq f - jb_seq_get jb) > 1
                          then jb\<lparr>jb_stat := stat\<lparr>n_lost := n_lost stat + 1\<rparr>\<rparr> else jb);
                    jb = take_head jb f rest
                in ((if jb_nf jb > jb_wish jb then Some EAGAIN else None, Some f), jb))
         | [] \<Rightarrow> ((Some ENOENT, None), jb\<lparr>jb_stat := stat\<lparr>n_underflow := n_underflow stat + 1\<rparr>\<rparr>))"

definition jbuf_drain :: "jbuf \<Rightarrow> (errno option \<times> packet option) \<times> jbuf" where
  "jbuf_drain jb =
     (case jb_packetl jb of
        f # rest \<Rightarrow> if jb_n jb = 0 then ((Some ENOENT, None), jb) else ((None, Some f), take_head jb f rest)
      | [] \<Rightarrow> ((Some ENOENT, None), jb))"

definition jbuf_packets :: "jbuf \<Rightarrow> u32" where "jbuf_packets jb = jb_n jb"
definition jbuf_frames :: "jbuf \<Rightarrow> u32" where "jbuf_frames jb = jb_nf jb"
definition jbuf_stats :: "jbuf \<Rightarrow> jbuf_stat" where "jbuf_stats jb = jb_stat jb"

section \<open>Sequence order and the search for the place\<close>

lemma seq_less_iff: "seq_less x y \<longleftrightarrow> 32768 \<le> unat (x - y)"
proof -
  have "bit w 15 \<longleftrightarrow> 32768 \<le> unat w" for w :: u16
  proof -
    have "unat w < 65536" using unsigned_less [of w, where ?'a = nat] by simp
    then have "unat w div 32768 = (if 32768 \<le> unat w then 1 else 0)" by auto
    moreover have "bit w 15 \<longleftrightarrow> bit (unat w) 15" by (simp add: bit_unsigned_iff)
    ultimately show ?thesis by (simp add: bit_iff_odd) 
  qed
  then show ?thesis using bit_last_iff [of "x - y"] by (simp add: seq_less_def)
qed
lemma unat_u16: "unat (x :: u16) < 65536" using unsigned_less [of x, where ?'a = nat] by simp

lemma unat_diff_swap: "x \<noteq> y \<Longrightarrow> unat (x - y) + unat (y - x) = 65536" for x y :: u16
  using unat_u16 [of x] unat_u16 [of y]
  by (auto simp: unat_sub_if' word_le_nat_alt word_unat_eq_iff not_le)

lemma seq_less_total: "\<not> seq_less y x \<Longrightarrow> x \<noteq> y \<Longrightarrow> seq_less x y"
  using unat_diff_swap [of x y] by (auto simp: seq_less_iff)

definition seq_ok :: "packet list \<Rightarrow> bool" where
  "seq_ok xs \<longleftrightarrow> successively seq_less (map pk_seq xs)"

lemma find_place_splits: "find_place sq xs ys = Some (b, a) \<Longrightarrow> b @ a = rev xs @ ys"
  by (induction sq xs ys rule: find_place.induct) (auto split: if_splits)

lemma find_place_seq:
  assumes "find_place sq xs ys = Some (b, a)" and "seq_ok (rev xs @ ys)"
    and "ys \<noteq> [] \<Longrightarrow> seq_less sq (pk_seq (hd ys))" and "pk_seq f = sq"
  shows "seq_ok (b @ f # a)"
  using assms
proof (induction sq xs ys rule: find_place.induct)
  case (1 sq ys)
  then show ?case by (cases ys) (auto simp: seq_ok_def)
next
  case (2 sq x before ys)
  show ?case
  proof (cases "seq_less (pk_seq x) sq")
    case True
    with 2 show ?thesis by (cases ys) (auto simp: seq_ok_def successively_append_iff)
  next
    case False
    with 2 seq_less_total [of "pk_seq x" sq] show ?thesis by (auto split: if_splits)
  qed
qed

section \<open>The invariant\<close>

definition cells :: "nat \<Rightarrow> nat multiset \<Rightarrow> jbuf \<Rightarrow> bool" where
  "cells k given jb \<longleftrightarrow>
     length (jb_packetl jb) + jb_pool jb + k = unat (jb_max jb)
     \<and> unat (jb_n jb) = length (jb_packetl jb) + k
     \<and> seq_ok (jb_packetl jb)
     \<and> jb_min jb \<le> jb_wish jb
     \<and> (\<forall>m. jb_refs jb m = int (count (mset (map pk_mem (jb_packetl jb)) + given) m))"

abbreviation jb_ok :: "nat multiset \<Rightarrow> jbuf \<Rightarrow> bool" where "jb_ok \<equiv> cells 0"

lemma packet_alloc_cells:
  assumes "jb_ok given jb"
  shows "(packet_alloc jb = None \<longleftrightarrow> jb_max jb = 0)
    \<and> (\<forall>jb'. packet_alloc jb = Some jb' \<longrightarrow> cells 1 given jb')"
proof (cases "jb_pool jb")
  case 0
  show ?thesis
  proof (cases "jb_packetl jb")
    case Nil
    with 0 assms show ?thesis by (auto simp: packet_alloc_def cells_def unat_eq_zero)
  next
    case (Cons f fs)
    with 0 assms show ?thesis
      by (cases fs) (auto simp: packet_alloc_def cells_def ref_add_def Let_def seq_ok_def)
  qed
next
  case (Suc p)
  then have "unat (jb_n jb) + 1 \<le> unat (jb_max jb)" using assms by (simp add: cells_def)
  then have "unat (jb_n jb + 1) = unat (jb_n jb) + 1"
    using unsigned_less [of "jb_max jb", where ?'a = nat] by (simp add: unat_plus_if')
  with Suc assms show ?thesis by (auto simp: packet_alloc_def cells_def)
qed

lemma put_success_ok:
  assumes "cells 1 given jb" and "before @ after = jb_packetl jb" and "seq_ok (before @ \<lparr>pk_hdr = hdr, pk_mem = mem\<rparr> # after)"
  shows "jb_ok given (put_success jb hdr mem before after)"
proof -
  have "length (jb_packetl jb) = length before + length after" "mset (map pk_mem (jb_packetl jb)) = mset (map pk_mem (before @ after))"
    using assms(2) by (metis length_append, simp)
  with assms(1,3) show ?thesis by (auto simp: put_success_def cells_def Let_def ref_add_def)
qed

text \<open>Fields the invariant does not read.\<close>

lemma cells_frame [simp]:
  "cells k given (jb\<lparr>jb_stat := st\<rparr>) = cells k given jb"
  "cells k given (jb\<lparr>jb_pt := i\<rparr>) = cells k given jb"
  "cells k given (jb\<lparr>jb_tr := t\<rparr>) = cells k given jb"
  "cells k given (jb\<lparr>jb_ssrc := s\<rparr>) = cells k given jb"
  "cells k given (jb\<lparr>jb_ub := u\<rparr>) = cells k given jb"
  "cells k given (jb\<lparr>jb_nf := nf\<rparr>) = cells k given jb"
  "cells k given (jb\<lparr>jb_seq_get := sg\<rparr>) = cells k given jb"
  "cells k given (jb\<lparr>jb_gnack := g\<rparr>) = cells k given jb"
  "cells k given (jb\<lparr>jb_type := ty\<rparr>) = cells k given jb"
  "cells k given (jb\<lparr>jb_tmr := tm\<rparr>) = cells k given jb"
  "cells k given (jb\<lparr>jb_rdiff := r\<rparr>) = cells k given jb"
  "cells k given (jb\<lparr>jb_running := b\<rparr>) = cells k given jb"
  by (simp_all add: cells_def)

lemma cells_wish: "cells k given jb \<Longrightarrow> jb_min jb \<le> w \<Longrightarrow> cells k given (jb\<lparr>jb_wish := w\<rparr>)"
  by (simp add: cells_def)

lemma packet_alloc_frame:
  "packet_alloc jb = Some jb' \<Longrightarrow> jb_max jb' = jb_max jb \<and> jb_seq_get jb' = jb_seq_get jb
    \<and> jb_packetl jb' = (if jb_pool jb = 0 then tl (jb_packetl jb) else jb_packetl jb)"
  by (auto simp: packet_alloc_def ref_add_def Let_def split: if_splits list.splits)

lemma put_packet_ok:
  assumes ok: "jb_ok given jb"
  shows "put_packet jb hdr mem = None \<longleftrightarrow> jb_max jb = 0"
    and "put_packet jb hdr mem = Some (r, jb') \<Longrightarrow> jb_ok given jb'"
proof -
  let ?st = "(jb_stat jb)\<lparr>n_put := n_put (jb_stat jb) + 1\<rparr>"
  have a: "packet_alloc (jb\<lparr>jb_stat := ?st\<rparr>) = None \<longleftrightarrow> jb_max jb = 0"
    "\<And>jb'. packet_alloc (jb\<lparr>jb_stat := ?st\<rparr>) = Some jb' \<Longrightarrow> cells 1 given jb'"
    using packet_alloc_cells [of given "jb\<lparr>jb_stat := ?st\<rparr>"] ok by auto
  then show "put_packet jb hdr mem = None \<longleftrightarrow> jb_max jb = 0"
    by (auto simp: put_packet_def Let_def split: option.split prod.split)
  assume put: "put_packet jb hdr mem = Some (r, jb')"
  then obtain j where j: "packet_alloc (jb\<lparr>jb_stat := ?st\<rparr>) = Some j"
    by (cases "packet_alloc (jb\<lparr>jb_stat := ?st\<rparr>)") (auto simp: put_packet_def Let_def)
  note c = a(2) [OF j]
  then have sorted: "seq_ok (jb_packetl j)" by (simp add: cells_def)
  let ?f = "\<lparr>pk_hdr = hdr, pk_mem = mem\<rparr>"
  show "jb_ok given jb'"
  proof (cases "jb_packetl j = [] \<or> seq_less (pk_seq (last (jb_packetl j))) (h_seq hdr)")
    case True
    then have "seq_ok (jb_packetl j @ [?f])" using sorted
      by (cases "jb_packetl j" rule: rev_cases) (auto simp: seq_ok_def successively_append_iff)
    then have ps: "jb_ok given (put_success (j\<lparr>jb_ub := u\<rparr>) hdr mem (jb_packetl j) [])" for u
      using put_success_ok [of given "j\<lparr>jb_ub := u\<rparr>"] c by simp
    from ps [of "jb_ub j"] have "jb_ok given (put_success j hdr mem (jb_packetl j) [])" by simp
    with ps put j True show ?thesis
      by (auto simp: put_packet_def Let_def send_gnack_def split: if_splits)
  next
    case False
    show ?thesis
    proof (cases "find_place (h_seq hdr) (rev (jb_packetl j)) []")
      case None
      have "unat (jb_n j) = Suc (length (jb_packetl j))" using c by (simp add: cells_def)
      then have "unat (jb_n j - 1) = length (jb_packetl j)" by (subst unat_minus_one) auto
      with False None put j c show ?thesis by (auto simp: put_packet_def Let_def cells_def)
    next
      case (Some ba)
      obtain b a where ba: "ba = (b, a)" by (cases ba)
      have fp: "find_place (h_seq hdr) (rev (jb_packetl j)) [] = Some (b, a)" using Some ba by simp
      from find_place_splits [OF fp] have "b @ a = jb_packetl j" by simp
      moreover have "seq_ok (b @ ?f # a)" using find_place_seq [OF fp, of ?f] sorted by simp
      ultimately show ?thesis
        using False fp put j c put_success_ok [of given "j\<lparr>jb_stat := st\<rparr>" b a hdr mem for st]
        by (auto simp: put_packet_def Let_def)
    qed
  qed
qed

lemma packet_deref_ok:
  assumes "jb_ok given jb" and "jb_packetl jb = f # rest"
  shows "jb_ok given (packet_deref jb f rest)"
proof -
  have "unat (jb_n jb) = Suc (length rest)" using assms by (simp add: cells_def)
  then have "unat (jb_n jb - 1) = length rest" by (subst unat_minus_one) auto
  with assms show ?thesis
    by (cases rest) (auto simp: packet_deref_def cells_def ref_add_def seq_ok_def)
qed

lemma flush_cells_ok:
  "jb_packetl jb = fs \<Longrightarrow> jb_ok given jb \<Longrightarrow> jb_ok given (flush_cells fs jb) \<and> jb_packetl (flush_cells fs jb) = []"
proof (induction fs arbitrary: jb)
  case (Cons f fs)
  have "jb_packetl (packet_deref jb f fs) = fs" by (simp add: packet_deref_def)
  from Cons.IH [OF this] packet_deref_ok [OF Cons.prems(2,1)] show ?case by simp
qed simp

lemma flush_cells_max: "jb_max (flush_cells fs jb) = jb_max jb"
  by (induction fs arbitrary: jb) (simp_all add: packet_deref_def ref_add_def)

lemma flush_max [simp]: "jb_max (jbuf_flush jb) = jb_max jb"
  by (simp add: jbuf_flush_def Let_def flush_cells_max)

lemma flush_ok [simp]: "jb_ok given jb \<Longrightarrow> jb_ok given (jbuf_flush jb)"
  using flush_cells_ok [of jb "jb_packetl jb" given] by (auto simp: jbuf_flush_def Let_def cells_def)

lemma flush_empty [simp]: "jb_packetl (jbuf_flush jb) = []"
proof -
  have "jb_packetl jb = fs \<Longrightarrow> jb_packetl (flush_cells fs jb) = []" for fs jb
    by (induction fs arbitrary: jb) (simp_all add: packet_deref_def)
  from this [OF refl] show ?thesis by (simp add: jbuf_flush_def Let_def)
qed

lemma adapt_wish_ok [simp]:
  "cells k given jb \<Longrightarrow> cells k given (adapt_wish now w jb)" "jb_max (adapt_wish now w jb) = jb_max jb"
  by (auto simp: adapt_wish_def Let_def cells_wish cells_def)

lemma calc_rdiff_ok [simp]:
  "cells k given jb \<Longrightarrow> cells k given (calc_rdiff fp now jb sq)" "jb_max (calc_rdiff fp now jb sq) = jb_max jb"
  by (simp_all add: calc_rdiff_def Let_def case_prod_beta)

lemma prologue_ok [simp]:
  "jb_ok given jb \<Longrightarrow> jb_ok given (put_prologue now jb hdr)" "jb_max (put_prologue now jb hdr) = jb_max jb"
  by (simp_all add: put_prologue_def Let_def)

lemma jbuf_put_ok:
  assumes "jb_ok given jb"
  shows "jb_max jb \<noteq> 0 \<Longrightarrow> jbuf_put fp now jb hdr mem \<noteq> None"
    and "jbuf_put fp now jb hdr mem = Some (r, jb') \<Longrightarrow> jb_ok given jb'"
proof -
  let ?j = "put_prologue now jb hdr"
  define j where "j = (if jb_running ?j \<and> jb_type ?j = JBUF_ADAPTIVE then calc_rdiff fp now ?j (h_seq hdr) else ?j)"
  have ok: "jb_ok given j" "jb_max j = jb_max jb"
    using assms by (simp_all add: j_def)
  show "jb_max jb \<noteq> 0 \<Longrightarrow> jbuf_put fp now jb hdr mem \<noteq> None"
    using put_packet_ok(1) [OF ok(1), of hdr mem] ok(2) by (auto simp: jbuf_put_def Let_def simp flip: j_def)
  show "jbuf_put fp now jb hdr mem = Some (r, jb') \<Longrightarrow> jb_ok given jb'"
    using put_packet_ok(2) [OF ok(1), of hdr mem r jb'] ok by (auto simp: jbuf_put_def Let_def simp flip: j_def split: if_splits)
qed

lemma take_head_ok:
  assumes "jb_ok given jb" and "jb_packetl jb = f # rest"
  shows "jb_ok (add_mset (pk_mem f) given) (take_head jb f rest)"
proof -
  have "jb_ok (add_mset (pk_mem f) given) (ref_add (pk_mem f) 1 jb)"
    using assms by (auto simp: cells_def ref_add_def)
  then show ?thesis
    using assms(2) packet_deref_ok [of "add_mset (pk_mem f) given" "jb'" f rest for jb']
    by (simp add: take_head_def Let_def ref_add_def)
qed

definition handed :: "packet option \<Rightarrow> nat multiset" where
  "handed p = (case p of None \<Rightarrow> {#} | Some f \<Rightarrow> {#pk_mem f#})"

lemma jbuf_get_ok:
  assumes "jb_ok given jb" and "jbuf_get jb = ((e, p), jb')"
  shows "jb_ok (handed p + given) jb'"
  using assms take_head_ok [of given "jb\<lparr>jb_stat := st\<rparr>" "hd (jb_packetl jb)" "tl (jb_packetl jb)" for st]
  by (auto simp: jbuf_get_def handed_def Let_def split: list.splits if_splits)

lemma jbuf_drain_ok:
  assumes "jb_ok given jb" and "jbuf_drain jb = ((e, p), jb')"
  shows "jb_ok (handed p + given) jb'"
  using assms take_head_ok [of given jb "hd (jb_packetl jb)" "tl (jb_packetl jb)"]
  by (auto simp: jbuf_drain_def handed_def split: list.splits if_splits)

section \<open>The buffer as a machine\<close>

text \<open>The second component collects the payloads handed to the player, which owns a reference to each.\<close>

datatype jb_ev = Put fp_ops u64 rtp_header nat | Get | Drain | Flush | Expire | Set_Type jbuf_type | Set_Gnack bool

inductive jb_step :: "jbuf \<times> nat multiset \<Rightarrow> jb_ev \<Rightarrow> jbuf \<times> nat multiset \<Rightarrow> bool" where
  put: "jbuf_put fp now jb hdr mem = Some (r, jb') \<Longrightarrow> jb_step (jb, g) (Put fp now hdr mem) (jb', g)"
| get: "jbuf_get jb = ((e, p), jb') \<Longrightarrow> jb_step (jb, g) Get (jb', handed p + g)"
| drain: "jbuf_drain jb = ((e, p), jb') \<Longrightarrow> jb_step (jb, g) Drain (jb', handed p + g)"
| flush: "jb_step (jb, g) Flush (jbuf_flush jb, g)"
| expire: "jb_tmr jb \<noteq> None \<Longrightarrow> jb_step (jb, g) Expire (wish_down jb, g)"
| set_type: "jb_step (jb, g) (Set_Type t) (jbuf_set_type jb t, g)"
| set_gnack: "jb_step (jb, g) (Set_Gnack b) (jbuf_set_gnack jb b, g)"

inductive_cases jb_stepE: "jb_step s e t"

definition jb_fresh :: "jbuf \<times> nat multiset \<Rightarrow> bool" where
  "jb_fresh s \<longleftrightarrow> (\<exists>mem lock cell mn mx. jbuf_alloc mem lock cell mn mx = Inr (fst s)) \<and> snd s = {#}"

definition jb_inv :: "jbuf \<times> nat multiset \<Rightarrow> bool" where
  "jb_inv s \<longleftrightarrow> jb_ok (snd s) (fst s)"

lemma wish_down_ok [simp]: "cells k given jb \<Longrightarrow> cells k given (wish_down jb)"
proof -
  have "jb_min jb \<le> jb_wish jb - 1" if "jb_min jb < jb_wish jb"
  proof -
    have "jb_wish jb \<noteq> 0" using that by auto
    then show ?thesis using that by (simp add: word_le_nat_alt word_less_nat_alt unat_minus_one)
  qed
  moreover assume "cells k given jb"
  ultimately show ?thesis by (simp add: wish_down_def Let_def cells_wish)
qed

lemma jb_fresh_ok: "jb_fresh s \<Longrightarrow> jb_inv s"
  by (cases s) (auto simp: jb_fresh_def jbuf_alloc_def jb_inv_def cells_def seq_ok_def split: if_splits)

interpretation jbm: machine jb_fresh jb_step jb_inv
proof (unfold_locales, goal_cases)
  case (1 s)
  then show ?case by (rule jb_fresh_ok)
next
  case (2 s e t)
  from 2(2) 2(1) show ?case
    by (cases rule: jb_step.cases)
      (auto simp: jb_inv_def jbuf_set_type_def jbuf_set_gnack_def intro: jbuf_put_ok(2) jbuf_get_ok jbuf_drain_ok)
qed

section \<open>Frames\<close>

text \<open>A frame is a maximal run of packets with one timestamp.\<close>

fun frames :: "packet list \<Rightarrow> nat" where
  "frames [] = 0"
| "frames [x] = 1"
| "frames (x # y # zs) = (if pk_ts x = pk_ts y then 0 else 1) + frames (y # zs)"

definition joined :: "packet list \<Rightarrow> packet list \<Rightarrow> bool" where
  "joined xs ys \<longleftrightarrow> xs \<noteq> [] \<and> ys \<noteq> [] \<and> pk_ts (last xs) = pk_ts (hd ys)"

definition contiguous :: "packet list \<Rightarrow> bool" where
  "contiguous xs \<longleftrightarrow>
     (\<forall>k<length xs. \<forall>j<k. \<forall>i<j. pk_ts (xs ! i) = pk_ts (xs ! k) \<longrightarrow> pk_ts (xs ! j) = pk_ts (xs ! i))"

lemma frames_append: "frames (xs @ ys) + of_bool (joined xs ys) = frames xs + frames ys"
proof (induction xs rule: frames.induct)
  case (2 x)
  then show ?case by (cases ys) (auto simp: joined_def)
next
  case (3 x y zs)
  then show ?case by (simp add: joined_def)
qed (simp add: joined_def)

lemma frames_insert:
  assumes "contiguous (b @ f # a)"
  shows "frames (b @ f # a) = frames (b @ a) + of_bool (\<not> (joined b [f] \<or> joined [f] a))"
proof -
  have f: "frames [f] = 1" by simp
  have "frames (b @ [f] @ a) + of_bool (joined b ([f] @ a)) = frames b + frames ([f] @ a)"
    "frames ([f] @ a) + of_bool (joined [f] a) = frames [f] + frames a"
    "frames (b @ a) + of_bool (joined b a) = frames b + frames a"
    by (rule frames_append)+
  moreover have "joined b ([f] @ a) = joined b [f]" by (simp add: joined_def)
  moreover have "joined b a \<Longrightarrow> joined b [f] \<and> joined [f] a"
  proof -
    assume j: "joined b a"
    then obtain b' x a' y where xs: "b = b' @ [x]" "a = y # a'" and ts: "pk_ts x = pk_ts y"
      by (cases b rule: rev_cases; cases a) (auto simp: joined_def)
    let ?n = "length b'" and ?xs = "b @ f # a"
    have nths: "?xs ! ?n = x" "?xs ! Suc ?n = f" "?xs ! Suc (Suc ?n) = y" "Suc (Suc ?n) < length ?xs"
      using xs by (simp_all add: nth_append)
    have "pk_ts (?xs ! ?n) = pk_ts (?xs ! Suc (Suc ?n)) \<longrightarrow> pk_ts (?xs ! Suc ?n) = pk_ts (?xs ! ?n)"
      using assms nths(4) unfolding contiguous_def by blast
    with nths ts xs show ?thesis by (simp add: joined_def)
  qed
  moreover have "\<not> joined b a \<Longrightarrow> \<not> (joined b [f] \<and> joined [f] a)" by (auto simp: joined_def)
  ultimately show ?thesis using f by (cases "joined b a") (auto split: if_splits)
qed

lemma frames_Cons: "frames (f # rest) = frames rest + of_bool (\<not> joined [f] rest)"
  by (cases rest) (auto simp: joined_def)

lemma frames_length: "frames xs \<le> length xs"
  by (induction xs rule: frames.induct) auto

definition nf_ok :: "jbuf \<Rightarrow> bool" where
  "nf_ok jb \<longleftrightarrow> unat (jb_nf jb) = frames (jb_packetl jb)"

lemma alloc_nf:
  assumes "nf_ok jb" and "jb_ok given jb" and "1 < jb_max jb" and "packet_alloc jb = Some jb'"
  shows "nf_ok jb'"
proof (cases "jb_pool jb")
  case (Suc p)
  with assms show ?thesis by (auto simp: packet_alloc_def nf_ok_def)
next
  case 0
  with assms obtain f0 f1 rest where xs: "jb_packetl jb = f0 # f1 # rest"
    by (cases "jb_packetl jb"; cases "tl (jb_packetl jb)")
      (auto simp: packet_alloc_def cells_def word_less_nat_alt)
  with assms(1) have "pk_ts f1 \<noteq> pk_ts f0 \<Longrightarrow> jb_nf jb \<noteq> 0" by (auto simp: nf_ok_def)
  with 0 xs assms show ?thesis
    by (auto simp: packet_alloc_def nf_ok_def ref_add_def Let_def unat_minus_one)
qed

lemma find_place_dup: "find_place sq xs ys = None \<Longrightarrow> sq \<in> pk_seq ` set xs"
  by (induction sq xs ys rule: find_place.induct) (auto split: if_splits)

lemma put_success_simps [simp]:
  "jb_packetl (put_success jb hdr mem b a) = b @ \<lparr>pk_hdr = hdr, pk_mem = mem\<rparr> # a"
  "jb_seq_get (put_success jb hdr mem b a) = jb_seq_get jb"
  "jb_max (put_success jb hdr mem b a) = jb_max jb"
  "jb_nf (put_success jb hdr mem b a) = jb_nf jb
     + of_bool (\<not> (joined b [\<lparr>pk_hdr = hdr, pk_mem = mem\<rparr>] \<or> joined [\<lparr>pk_hdr = hdr, pk_mem = mem\<rparr>] a))"
  by (auto simp: put_success_def Let_def ref_add_def joined_def)

text \<open>The two ways to put a packet: it is stored between its neighbours, or it was there already.\<close>

lemma put_packetE:
  assumes "put_packet jb hdr mem = Some ((e, out), jb')"
  defines "f \<equiv> \<lparr>pk_hdr = hdr, pk_mem = mem\<rparr>"
  obtains (stored) j b a where
      "packet_alloc (jb\<lparr>jb_stat := (jb_stat jb)\<lparr>n_put := n_put (jb_stat jb) + 1\<rparr>\<rparr>) = Some j"
      "b @ a = jb_packetl j" "jb_packetl jb' = b @ f # a" "e = None" "jb_seq_get jb' = jb_seq_get j"
      "jb_nf jb' = jb_nf j + of_bool (\<not> (joined b [f] \<or> joined [f] a))"
      "seq_ok (jb_packetl j) \<Longrightarrow> seq_ok (b @ f # a)" "jb_max jb' = jb_max j"
  | (dup) j where
      "packet_alloc (jb\<lparr>jb_stat := (jb_stat jb)\<lparr>n_put := n_put (jb_stat jb) + 1\<rparr>\<rparr>) = Some j"
      "jb_packetl jb' = jb_packetl j" "e = Some EALREADY" "jb_seq_get jb' = jb_seq_get j" "jb_nf jb' = jb_nf j"
      "h_seq hdr \<in> pk_seq ` set (jb_packetl j)" "jb_max jb' = jb_max j"
proof -
  let ?jb = "jb\<lparr>jb_stat := (jb_stat jb)\<lparr>n_put := n_put (jb_stat jb) + 1\<rparr>\<rparr>"
  from assms(1) obtain j where j: "packet_alloc ?jb = Some j"
    by (cases "packet_alloc ?jb") (auto simp: put_packet_def Let_def)
  show thesis
  proof (cases "jb_packetl j = [] \<or> seq_less (pk_seq (last (jb_packetl j))) (h_seq hdr)")
    case True
    have "seq_ok (jb_packetl j) \<Longrightarrow> seq_ok (jb_packetl j @ [f])"
      using True by (cases "jb_packetl j" rule: rev_cases) (auto simp: f_def seq_ok_def successively_append_iff)
    with True show thesis
      using assms(1) j by (intro stored [of j "jb_packetl j" "[]"])
        (auto simp: put_packet_def Let_def send_gnack_def f_def split: if_splits)
  next
    case False
    show thesis
    proof (cases "find_place (h_seq hdr) (rev (jb_packetl j)) []")
      case None
      with find_place_dup [OF None] False show thesis
        using assms(1) j by (intro dup [of j]) (auto simp: put_packet_def Let_def)
    next
      case (Some ba)
      obtain b a where fp: "find_place (h_seq hdr) (rev (jb_packetl j)) [] = Some (b, a)"
        using Some by (cases ba) auto
      have "seq_ok (jb_packetl j) \<Longrightarrow> seq_ok (b @ f # a)" using find_place_seq [OF fp, of f] by (simp add: f_def)
      with False fp find_place_splits [OF fp] show thesis
        using assms(1) j by (intro stored [of j b a]) (auto simp: put_packet_def Let_def f_def)
    qed
  qed
qed

lemma put_packet_nf:
  assumes "nf_ok jb" and "jb_ok given jb" and "1 < jb_max jb" and "put_packet jb hdr mem = Some (r, jb')"
    and "contiguous (jb_packetl jb')"
  shows "nf_ok jb'"
proof -
  obtain e out where r: "r = (e, out)" by (cases r)
  let ?jb = "jb\<lparr>jb_stat := (jb_stat jb)\<lparr>n_put := n_put (jb_stat jb) + 1\<rparr>\<rparr>"
  have alloc: "nf_ok j \<and> cells 1 given j" if "packet_alloc ?jb = Some j" for j
    using that alloc_nf [of ?jb given j] assms(1,2,3) packet_alloc_cells [of given ?jb] by (auto simp: nf_ok_def)
  from assms(4) [unfolded r] show ?thesis
  proof (cases rule: put_packetE)
    case (stored j b a)
    have "frames (b @ a) \<le> length (b @ a)" by (rule frames_length)
    then have "unat (jb_nf j) < unat (jb_max j)"
      using alloc [OF stored(1)] stored(2) by (simp add: nf_ok_def cells_def)
    then have "unat (jb_nf j + 1) = unat (jb_nf j) + 1"
      using unsigned_less [of "jb_max j", where ?'a = nat] by (simp add: unat_plus_if')
    with stored alloc [OF stored(1)] frames_insert [of b _ a] assms(5) show ?thesis
      by (auto simp: nf_ok_def)
  next
    case (dup j)
    with alloc [OF dup(1)] show ?thesis by (simp add: nf_ok_def)
  qed
qed

lemma take_head_simps [simp]:
  "jb_packetl (take_head jb f rest) = rest" "jb_seq_get (take_head jb f rest) = pk_seq f"
  "jb_max (take_head jb f rest) = jb_max jb"
  "jb_nf (take_head jb f rest) = jb_nf jb - of_bool (\<not> joined [f] rest)"
  by (auto simp: take_head_def packet_deref_def ref_add_def Let_def joined_def)

lemma take_head_nf:
  assumes "nf_ok jb" and "jb_packetl jb = f # rest"
  shows "nf_ok (take_head jb f rest)"
proof -
  have u: "unat (jb_nf jb) = frames rest + of_bool (\<not> joined [f] rest)"
    using assms by (simp add: nf_ok_def frames_Cons)
  then have "\<not> joined [f] rest \<Longrightarrow> jb_nf jb \<noteq> 0" by auto
  with u show ?thesis by (auto simp: nf_ok_def unat_minus_one)
qed

section \<open>Putting, seen from outside\<close>

definition ready :: "fp_ops \<Rightarrow> u64 \<Rightarrow> jbuf \<Rightarrow> rtp_header \<Rightarrow> jbuf" where
  "ready fp now jb hdr =
     (let jb = put_prologue now jb hdr
      in if jb_running jb \<and> jb_type jb = JBUF_ADAPTIVE then calc_rdiff fp now jb (h_seq hdr) else jb)"

definition too_late :: "jbuf \<Rightarrow> u16 \<Rightarrow> bool" where
  "too_late jb sq \<longleftrightarrow> jb_running jb \<and> jb_seq_get jb \<noteq> 0 \<and> seq_less sq (jb_seq_get jb + 1)"

lemma jbuf_put_ready:
  "jbuf_put fp now jb hdr mem =
     (let j = ready fp now jb hdr; stat = jb_stat j
      in if too_late j (h_seq hdr) then Some ((Some ETIMEDOUT, []), j\<lparr>jb_stat := stat\<lparr>n_late := n_late stat + 1\<rparr>\<rparr>)
         else put_packet j hdr mem)"
  by (simp add: jbuf_put_def ready_def too_late_def Let_def)

text \<open>A flush forgets everything the theorems below speak of.\<close>

definition core :: "jbuf \<Rightarrow> packet list \<times> u16 \<times> u32 \<times> bool" where
  "core jb = (jb_packetl jb, jb_seq_get jb, jb_nf jb, jb_running jb)"

lemma core_flush [simp]: "core (jbuf_flush jb) = ([], 0, 0, False)"
  using flush_empty [of jb] by (simp add: core_def jbuf_flush_def Let_def)

lemma core_frame [simp]:
  "core (jb\<lparr>jb_pt := i\<rparr>) = core jb" "core (jb\<lparr>jb_tr := t\<rparr>) = core jb" "core (jb\<lparr>jb_ssrc := s\<rparr>) = core jb"
  "core (jb\<lparr>jb_stat := st\<rparr>) = core jb" "core (jb\<lparr>jb_gnack := gn\<rparr>) = core jb" "core (jb\<lparr>jb_type := ty\<rparr>) = core jb"
  by (simp_all add: core_def)

lemma core_calc_rdiff [simp]: "core (calc_rdiff fp now jb sq) = core jb"
proof -
  have "core (adapt_wish now w j) = core j" for w j by (simp add: adapt_wish_def core_def Let_def)
  then show ?thesis by (simp add: calc_rdiff_def Let_def case_prod_beta) (simp add: core_def)
qed

lemma core_wish_down [simp]: "core (wish_down jb) = core jb"
  by (simp add: wish_down_def core_def Let_def)

lemma core_ready: "core (ready fp now jb hdr) = core jb \<or> core (ready fp now jb hdr) = ([], 0, 0, False)"
  by (simp add: ready_def put_prologue_def Let_def)

lemma ready_ok: "jb_ok given jb \<Longrightarrow> jb_ok given (ready fp now jb hdr)" "jb_max (ready fp now jb hdr) = jb_max jb"
  by (simp_all add: ready_def Let_def)

lemma nf_ok_core: "core j = core jb \<Longrightarrow> nf_ok j = nf_ok jb" "core j = ([], 0, 0, False) \<Longrightarrow> nf_ok j"
  by (simp_all add: core_def nf_ok_def)

definition jb_fstep :: "jbuf \<times> nat multiset \<Rightarrow> jb_ev \<Rightarrow> jbuf \<times> nat multiset \<Rightarrow> bool" where
  "jb_fstep s e t \<longleftrightarrow> jb_step s e t \<and> contiguous (jb_packetl (fst t))"

definition nf_inv :: "jbuf \<times> nat multiset \<Rightarrow> bool" where
  "nf_inv s \<longleftrightarrow> jb_inv s \<and> nf_ok (fst s) \<and> 1 < jb_max (fst s)"

lemma core_fresh: "jb_fresh s \<Longrightarrow> core (fst s) = ([], 0, 0, False)"
  by (cases s) (auto simp: jb_fresh_def jbuf_alloc_def core_def split: if_splits)

lemma put_max:
  assumes "jbuf_put fp now jb hdr mem = Some (r, jb')"
  shows "jb_max jb' = jb_max jb"
proof -
  have "jb_max j' = jb_max j" if "put_packet j hdr mem = Some ((e, out), j')" for j j' e out
    using that by (cases rule: put_packetE) (auto dest: packet_alloc_frame)
  with assms show ?thesis by (cases r) (auto simp: jbuf_put_ready Let_def ready_ok split: if_splits)
qed

lemma jb_max_frame: "jb_step s e t \<Longrightarrow> jb_max (fst t) = jb_max (fst s)"
  by (erule jb_stepE)
    (auto simp: put_max jbuf_get_def jbuf_drain_def Let_def jbuf_set_type_def jbuf_set_gnack_def wish_down_def
      split: list.splits if_splits)

lemma put_nf:
  assumes "nf_ok jb" and "jb_ok given jb" and "1 < jb_max jb" and "jbuf_put fp now jb hdr mem = Some (r, jb')"
    and "contiguous (jb_packetl jb')"
  shows "nf_ok jb'"
proof -
  let ?j = "ready fp now jb hdr"
  have "nf_ok ?j" using core_ready [of fp now jb hdr] nf_ok_core(1) [of ?j jb] nf_ok_core(2) [of ?j] assms(1) by auto
  moreover note put_packet_nf [of ?j given hdr mem r jb'] assms ready_ok(1) [of given jb fp now hdr] ready_ok(2) [of fp now jb hdr]
  ultimately show ?thesis by (auto simp: jbuf_put_ready Let_def nf_ok_def split: if_splits)
qed

lemma get_nf: "nf_ok jb \<Longrightarrow> jbuf_get jb = (r, jb') \<Longrightarrow> nf_ok jb'"
  using take_head_nf [of "jb\<lparr>jb_stat := st\<rparr>" "hd (jb_packetl jb)" "tl (jb_packetl jb)" for st]
  by (auto simp: jbuf_get_def Let_def nf_ok_def split: list.splits if_splits)

lemma drain_nf: "nf_ok jb \<Longrightarrow> jbuf_drain jb = (r, jb') \<Longrightarrow> nf_ok jb'"
  using take_head_nf [of jb "hd (jb_packetl jb)" "tl (jb_packetl jb)"]
  by (auto simp: jbuf_drain_def split: list.splits if_splits)

interpretation framem: machine "\<lambda>s. jb_fresh s \<and> 1 < jb_max (fst s)" jb_fstep nf_inv
proof (unfold_locales, goal_cases)
  case (1 s)
  then show ?case using jb_fresh_ok [of s] nf_ok_core(2) [OF core_fresh] by (auto simp: nf_inv_def)
next
  case (2 s e t)
  then have st: "jb_step s e t" and c: "contiguous (jb_packetl (fst t))" and i: "jb_inv s" "nf_ok (fst s)" "1 < jb_max (fst s)"
    by (auto simp: jb_fstep_def nf_inv_def)
  have "jb_inv t" "1 < jb_max (fst t)" using jbm.step_inv [OF i(1) st] jb_max_frame [OF st] i(3) by auto
  moreover from st i c have "nf_ok (fst t)"
    by (cases rule: jb_step.cases)
      (auto simp: jb_inv_def jbuf_set_type_def jbuf_set_gnack_def nf_ok_core(2) nf_ok_core(1) [OF core_wish_down]
        nf_ok_core(1) [OF core_frame(5)] nf_ok_core(1) [OF core_frame(6)] intro: put_nf get_nf drain_nf)
  ultimately show ?case by (simp add: nf_inv_def)
qed

section \<open>Order\<close>

text \<open>Numbers within half the space of a base \<open>b\<close> are ordered by their distance from it.\<close>

definition dist :: "u16 \<Rightarrow> u16 \<Rightarrow> nat" where
  "dist b s = unat (s - b)"

lemma seq_less_dist: "dist b x < 32768 \<Longrightarrow> dist b y < 32768 \<Longrightarrow> seq_less x y \<longleftrightarrow> dist b x < dist b y"
  using unat_sub_if' [of "x - b" "y - b"] by (auto simp: seq_less_iff dist_def split: if_splits)

lemma late_dist:
  assumes "dist b x < 32768" and "dist b y < 32768"
  shows "seq_less x (y + 1) \<longleftrightarrow> dist b x \<le> dist b y"
proof (cases "x = y")
  case True
  then show ?thesis by (simp add: seq_less_def)
next
  case False
  have "x - (y + 1) = (x - y) - 1" by simp
  moreover have "unat ((x - y) - 1) = unat (x - y) - 1" using False by (subst unat_minus_one) auto
  ultimately have "unat (x - (y + 1)) = unat (x - y) - 1" by metis
  moreover have "dist b x \<noteq> dist b y" using False by (simp add: dist_def word_unat_eq_iff [symmetric])
  ultimately show ?thesis
    using assms unat_sub_if' [of "x - b" "y - b"] by (auto simp: seq_less_iff dist_def split: if_splits)
qed


definition window :: "u16 \<Rightarrow> jbuf \<Rightarrow> bool" where
  "window b jb \<longleftrightarrow>
     (\<forall>p \<in> set (jb_packetl jb). dist b (pk_seq p) < 32768
        \<and> (jb_seq_get jb \<noteq> 0 \<longrightarrow> dist b (jb_seq_get jb) < dist b (pk_seq p)))
     \<and> (jb_seq_get jb \<noteq> 0 \<longrightarrow> dist b (jb_seq_get jb) < 32768)
     \<and> (jb_packetl jb \<noteq> [] \<or> jb_seq_get jb \<noteq> 0 \<longrightarrow> jb_running jb)"

lemma window_core: "core j = core jb \<Longrightarrow> window b j = window b jb" "core j = ([], 0, 0, False) \<Longrightarrow> window b j"
  by (auto simp: core_def window_def)

lemma window_sorted:
  assumes "\<forall>p \<in> set xs. dist b (pk_seq p) < 32768" and "seq_ok xs"
  shows "sorted_wrt (\<lambda>p q. dist b (pk_seq p) < dist b (pk_seq q)) xs"
proof -
  have "successively (\<lambda>p q. dist b (pk_seq p) < dist b (pk_seq q)) xs"
    using assms(2) unfolding seq_ok_def successively_map
    by (rule successively_mono) (use assms(1) seq_less_dist [of b] in blast)
  then show ?thesis by (subst (asm) successively_conv_sorted_wrt) (auto simp: transp_def)
qed

lemma insort_between:
  fixes k :: "'a \<Rightarrow> nat"
  assumes "sorted_wrt (\<lambda>p q. k p < k q) (xs @ f # ys)"
  shows "insort_key k f (xs @ ys) = xs @ f # ys"
  using assms
proof (induction xs)
  case Nil
  then have "\<forall>y \<in> set ys. k f \<le> k y" by auto
  then show ?case by (simp add: insort_is_Cons)
qed auto

lemma put_packet_window:
  assumes "put_packet jb hdr mem = Some ((e, out), jb')" and "jb_ok given jb" and "window b jb"
    and "dist b (h_seq hdr) < 32768" and "\<not> too_late jb (h_seq hdr)"
  shows "window b jb' \<and>
    (let ys = (if jb_pool jb = 0 then tl (jb_packetl jb) else jb_packetl jb);
         f = \<lparr>pk_hdr = hdr, pk_mem = mem\<rparr>
     in if h_seq hdr \<in> pk_seq ` set ys then e = Some EALREADY \<and> jb_packetl jb' = ys
        else e = None \<and> jb_packetl jb' = insort_key (\<lambda>p. dist b (pk_seq p)) f ys)"
proof -
  let ?jb = "jb\<lparr>jb_stat := (jb_stat jb)\<lparr>n_put := n_put (jb_stat jb) + 1\<rparr>\<rparr>"
  let ?f = "\<lparr>pk_hdr = hdr, pk_mem = mem\<rparr>"
  let ?ys = "if jb_pool jb = 0 then tl (jb_packetl jb) else jb_packetl jb"
  have run: "jb_running jb'" if "put_packet jb hdr mem = Some ((None, out), jb')"
    using that by (auto simp: put_packet_def put_success_def Let_def split: option.splits if_splits prod.splits)
  have run': "jb_running jb' = jb_running jb" if "put_packet jb hdr mem = Some ((Some x, out), jb')" for x
    using that by (auto simp: put_packet_def packet_alloc_def ref_add_def Let_def split: option.splits if_splits prod.splits list.splits)
  have a: "jb_packetl j = ?ys" "jb_seq_get j = jb_seq_get jb" "seq_ok ?ys" if "packet_alloc ?jb = Some j" for j
    using packet_alloc_frame [OF that] packet_alloc_cells [of given ?jb] assms(2) that by (auto simp: cells_def)
  have sub: "set ?ys \<subseteq> set (jb_packetl jb)" by (cases "jb_packetl jb") auto
  from assms(1) show ?thesis
  proof (cases rule: put_packetE)
    case (stored j b' a')
    have old: "set b' \<union> set a' \<subseteq> set (jb_packetl jb)" using a(1) [OF stored(1)] stored(2) sub by (metis set_append)
    have sorted: "sorted_wrt (\<lambda>p q. dist b (pk_seq p) < dist b (pk_seq q)) (b' @ ?f # a')"
    proof (rule window_sorted)
      show "\<forall>p \<in> set (b' @ ?f # a'). dist b (pk_seq p) < 32768"
        using old assms(3,4) by (auto simp: window_def)
      show "seq_ok (b' @ ?f # a')" using stored(7) a [OF stored(1)] by simp
    qed
    then have new: "h_seq hdr \<notin> pk_seq ` set (b' @ a')" by (auto simp: sorted_wrt_append)
    have early: "jb_seq_get jb \<noteq> 0 \<Longrightarrow> dist b (jb_seq_get jb) < dist b (h_seq hdr)"
      using assms(3-5) late_dist [of b "h_seq hdr" "jb_seq_get jb"] by (auto simp: too_late_def window_def)
    have "window b jb'"
    proof -
      have "jb_running jb'" using run assms(1) stored(4) by simp
      moreover have "jb_seq_get jb' = jb_seq_get jb" using stored(5) a(2) [OF stored(1)] by simp
      ultimately show ?thesis
        using stored(3) old assms(3,4) early by (auto simp: window_def)
    qed
    with new show ?thesis
      using stored(2,3,4) a(1) [OF stored(1)] insort_between [OF sorted] by (simp add: Let_def)
  next
    case (dup j)
    then show ?thesis
      using a [OF dup(1)] sub assms(1,3) run' by (auto simp: Let_def window_def)
  qed
qed

definition within :: "u16 \<Rightarrow> jb_ev \<Rightarrow> bool" where
  "within b ev \<longleftrightarrow> (case ev of Put fp now hdr mem \<Rightarrow> dist b (h_seq hdr) < 32768 | _ \<Rightarrow> True)"

definition jb_wstep :: "u16 \<Rightarrow> jbuf \<times> nat multiset \<Rightarrow> jb_ev \<Rightarrow> jbuf \<times> nat multiset \<Rightarrow> bool" where
  "jb_wstep b s e t \<longleftrightarrow> jb_step s e t \<and> within b e"

definition window_inv :: "u16 \<Rightarrow> jbuf \<times> nat multiset \<Rightarrow> bool" where
  "window_inv b s \<longleftrightarrow> jb_inv s \<and> window b (fst s)"

lemma put_window:
  assumes "jbuf_put fp now jb hdr mem = Some (r, jb')" and "jb_ok given jb" and "window b jb" and "dist b (h_seq hdr) < 32768"
  shows "window b jb'"
proof -
  let ?j = "ready fp now jb hdr"
  have "window b ?j" using core_ready [of fp now jb hdr] window_core(1) [of ?j jb b] window_core(2) [of ?j b] assms(3) by auto
  with assms show ?thesis
    using put_packet_window [of ?j hdr mem "fst r" "snd r" jb' given b] ready_ok(1) [of given jb fp now hdr]
    by (auto simp: jbuf_put_ready Let_def window_core(1) [OF core_frame(4)] split: if_splits)
qed

lemma take_head_window:
  assumes "window b jb" and "jb_ok given jb" and "jb_packetl jb = f # rest"
  shows "window b (take_head jb f rest) \<and> (\<forall>p \<in> set rest. dist b (pk_seq f) < dist b (pk_seq p))"
proof -
  have "sorted_wrt (\<lambda>p q. dist b (pk_seq p) < dist b (pk_seq q)) (f # rest)"
    using assms by (intro window_sorted) (auto simp: window_def cells_def)
  moreover have "jb_running (take_head jb f rest) = jb_running jb"
    by (simp add: take_head_def packet_deref_def ref_add_def Let_def)
  ultimately show ?thesis using assms by (auto simp: window_def)
qed

lemma get_window: "jbuf_get jb = (r, jb') \<Longrightarrow> window b jb \<Longrightarrow> jb_ok given jb \<Longrightarrow> window b jb'"
  using take_head_window [of b "jb\<lparr>jb_stat := st\<rparr>" given "hd (jb_packetl jb)" "tl (jb_packetl jb)" for st]
  by (auto simp: jbuf_get_def Let_def window_core(1) [OF core_frame(4)] split: list.splits if_splits)

lemma drain_window: "jbuf_drain jb = (r, jb') \<Longrightarrow> window b jb \<Longrightarrow> jb_ok given jb \<Longrightarrow> window b jb'"
  using take_head_window [of b jb given "hd (jb_packetl jb)" "tl (jb_packetl jb)"]
  by (auto simp: jbuf_drain_def split: list.splits if_splits)

interpretation orderm: machine jb_fresh "jb_wstep b" "window_inv b" for b
proof (unfold_locales, goal_cases)
  case (1 s)
  then show ?case using jb_fresh_ok [of s] window_core(2) [OF core_fresh] by (auto simp: window_inv_def)
next
  case (2 s e t)
  then have st: "jb_step s e t" and w: "within b e" and i: "jb_inv s" "window b (fst s)"
    by (auto simp: jb_wstep_def window_inv_def)
  from st i w have "window b (fst t)"
    by (cases rule: jb_step.cases)
      (auto simp: jb_inv_def within_def jbuf_set_type_def jbuf_set_gnack_def window_core(2) [OF core_flush]
        window_core(1) [OF core_wish_down] window_core(1) [OF core_frame(5)] window_core(1) [OF core_frame(6)]
        intro: put_window get_window drain_window)
  with jbm.step_inv [OF i(1) st] show ?case by (simp add: window_inv_def)
qed


section \<open>What goes wrong\<close>

text \<open>An empty pool and an empty buffer: \<open>packet_alloc\<close> follows a NULL pointer. A buffer made with \<open>max = 0\<close> is one.\<close>

lemma jbuf_put_crash:
  assumes "jbuf_alloc mem lock cell 0 0 = Inr jb"
  shows "jbuf_put fp now jb hdr m = None"
proof -
  have fresh: "jb_fresh (jb, {#})" unfolding jb_fresh_def using assms by (metis fst_conv snd_conv)
  have "jb_max jb = 0" using assms by (auto simp: jbuf_alloc_def split: if_splits)
  with jb_fresh_ok [OF fresh] core_fresh [OF fresh] have "put_packet (ready fp now jb hdr) hdr m = None" "\<not> too_late (ready fp now jb hdr) (h_seq hdr)"
    using put_packet_ok(1) [of "{#}" "ready fp now jb hdr" hdr m] ready_ok(1) [of "{#}" jb fp now hdr]
      ready_ok(2) [of fp now jb hdr] core_ready [of fp now jb hdr]
    by (auto simp: too_late_def core_def jb_inv_def)
  then show ?thesis by (simp add: jbuf_put_ready Let_def)
qed

text \<open>The moving average overflows exactly from a jump of 4096 sequence numbers above the average on.\<close>

lemma ema_overflow:
  assumes "0 \<le> rdiff" and "rdiff \<le> 2 ^ 25" and "0 \<le> adiff" and "adiff \<le> 2 ^ 25"
  shows "\<not> snd (ema wish rdiff adiff) \<longleftrightarrow> adiff - rdiff \<ge> 4096 * 1024"
  using assms by (auto simp: ema_def Let_def int32_ok_def JBUF_RDIFF_UP_SPEED_def)

section \<open>Properties\<close>

definition fp_example :: fp_ops where
  "fp_example = \<lparr>fp_max = (\<lambda>mx n nf. mx), fp_wish = (\<lambda>rdiff ratio. 0)\<rparr>"

definition hdr_example :: "u16 \<Rightarrow> u32 \<Rightarrow> rtp_header" where
  "hdr_example sq ts = rtp_header_zero\<lparr>h_seq := sq, h_ts := ts, h_ssrc := 9\<rparr>"

definition jb_new :: "u32 \<Rightarrow> jbuf" where
  "jb_new mx = projr (jbuf_alloc True True (\<lambda>_. True) 0 mx)"

definition jb_after :: "jbuf \<Rightarrow> u16 \<Rightarrow> u32 \<Rightarrow> nat \<Rightarrow> jbuf" where
  "jb_after jb sq ts mem = snd (the (jbuf_put fp_example 1 jb (hdr_example sq ts) mem))"

lemma seq_less_self_test: "seq_less 10 20" "\<not> seq_less 20 10" "seq_less 65535 0"
  by (simp_all add: seq_less_iff)

lemma jb_new_fresh: "jb_fresh (jb_new mx, {#})"
proof -
  have "jbuf_alloc True True (\<lambda>_. True) 0 mx = Inr (jb_new mx)"
    by (simp add: jb_new_def jbuf_alloc_def seq_less_self_test list_all_iff)
  then show ?thesis unfolding jb_fresh_def by (metis fst_conv snd_conv)
qed

lemma jb_new_max [simp]: "jb_max (jb_new mx) = mx"
  by (simp add: jb_new_def jbuf_alloc_def seq_less_self_test list_all_iff)

text \<open>C2: Whatever packets arrive and whatever the player does, the buffer holds at most \<open>max\<close> packets and
  \<open>n\<close> is their number, neighbouring packets are in increasing order of sequence number modulo the
  wrap, the wished size is at least the minimum, every payload is referenced exactly as often as it
  sits in the buffer or was handed out, and with a non-zero \<open>max\<close> \<open>jbuf_put\<close> never runs out of cells.\<close>

theorem jbuf_reachable_ok:
  assumes "reachable jb_fresh jb_step (jb, given)"
  shows "length (jb_packetl jb) \<le> unat (jb_max jb) \<and> unat (jbuf_packets jb) = length (jb_packetl jb)
    \<and> successively seq_less (map pk_seq (jb_packetl jb)) \<and> jb_min jb \<le> jb_wish jb
    \<and> (\<forall>m. jb_refs jb m = int (count (mset (map pk_mem (jb_packetl jb)) + given) m))
    \<and> (jb_max jb \<noteq> 0 \<longrightarrow> (\<forall>fp now hdr mem. jbuf_put fp now jb hdr mem \<noteq> None))"
proof -
  have ok: "jb_ok given jb" using jbm.reachable_inv [OF assms] by (simp add: jb_inv_def)
  then show ?thesis
    using jbuf_put_ok(1) [OF ok] by (simp add: cells_def seq_ok_def jbuf_packets_def)
qed

lemma jb_put_reachable:
  assumes "reachable jb_fresh (jb_wstep b) (jb, g)" and "jb_max jb \<noteq> 0" and "dist b sq < 32768"
  shows "reachable jb_fresh (jb_wstep b) (jb_after jb sq ts mem, g)"
proof -
  have "jb_ok g jb" using orderm.reachable_inv [OF assms(1)] by (simp add: window_inv_def jb_inv_def)
  from jbuf_put_ok(1) [OF this assms(2)] obtain r jb' where
    "jbuf_put fp_example 1 jb (hdr_example sq ts) mem = Some (r, jb')" by fastforce
  then have "jb_wstep b (jb, g) (Put fp_example 1 (hdr_example sq ts) mem) (jb_after jb sq ts mem, g)"
    using assms(3) by (auto simp: jb_wstep_def within_def jb_after_def hdr_example_def intro: jb_step.put)
  with assms(1) show ?thesis by (rule reach_step)
qed

lemma wstep_reachable: "reachable jb_fresh (jb_wstep b) s \<Longrightarrow> reachable jb_fresh jb_step s"
  by (induction rule: reachable.induct) (auto simp: jb_wstep_def intro: reach_init reach_step)

definition jb_example :: jbuf where
  "jb_example = jb_after (jb_new 4) 5 100 7"

lemma jb_example_reachable: "reachable jb_fresh (jb_wstep 1) (jb_example, {#})"
  unfolding jb_example_def
  by (rule jb_put_reachable) (simp_all add: reach_init [where init = jb_fresh] jb_new_fresh dist_def)

theorem jbuf_reachable_ok_witness:
  "length (jb_packetl jb_example) \<le> unat (jb_max jb_example)"
  using jbuf_reachable_ok [OF wstep_reachable [OF jb_example_reachable]] by simp


text \<open>The frame counter is exact. As long as the packets of a frame, those with one timestamp, are next to
  each other in the buffer, \<open>jbuf_frames\<close> is the number of frames in it, for every buffer with room for
  two packets.\<close>

theorem jbuf_frames_exact:
  assumes "reachable (\<lambda>s. jb_fresh s \<and> 1 < jb_max (fst s)) jb_fstep (jb, given)"
  shows "unat (jbuf_frames jb) = frames (jb_packetl jb)"
  using framem.reachable_inv [OF assms] by (simp add: nf_inv_def nf_ok_def jbuf_frames_def)

theorem jbuf_frames_exact_witness:
  "unat (jbuf_frames (jb_new 4)) = frames (jb_packetl (jb_new 4))"
proof (rule jbuf_frames_exact)
  show "reachable (\<lambda>s. jb_fresh s \<and> 1 < jb_max (fst s)) jb_fstep (jb_new 4, {#})"
    using jb_new_fresh [of 4] by (intro reach_init) simp
qed




text \<open>The abstract buffer: a list sorted by distance from the base.\<close>

definition put_spec ::
  "u16 \<Rightarrow> u16 \<Rightarrow> bool \<Rightarrow> packet \<Rightarrow> packet list \<Rightarrow> errno option \<times> packet list" where
  "put_spec b played full f xs =
     (if played \<noteq> 0 \<and> dist b (pk_seq f) \<le> dist b played then (Some ETIMEDOUT, xs)
      else
        (let ys = (if full then tl xs else xs)
         in if pk_seq f \<in> pk_seq ` set ys then (Some EALREADY, ys)
            else (None, insort_key (\<lambda>p. dist b (pk_seq p)) f ys)))"

text \<open>C5: \<open>jbuf_put\<close> refines insertion into a sorted list. Within half the number space, after the flush a new
  source or a new talk spurt may cause (\<open>ready\<close>), a packet not later than the last one played is refused,
  a full buffer drops its oldest packet, a duplicate is refused, and any other packet is inserted at its
  place.\<close>

theorem jbuf_put_refines:
  assumes "reachable jb_fresh (jb_wstep b) (jb, given)" and "jb_max jb \<noteq> 0" and "dist b (h_seq hdr) < 32768"
  shows "\<exists>e out jb'. jbuf_put fp now jb hdr mem = Some ((e, out), jb')
    \<and> (e, jb_packetl jb') =
        (let j = ready fp now jb hdr
         in put_spec b (jb_seq_get j) (jb_pool j = 0) \<lparr>pk_hdr = hdr, pk_mem = mem\<rparr> (jb_packetl j))"
proof -
  let ?j = "ready fp now jb hdr"
  have ok: "jb_ok given jb" "window b jb"
    using orderm.reachable_inv [OF assms(1)] by (auto simp: window_inv_def jb_inv_def)
  have j: "jb_ok given ?j" by (rule ready_ok(1)) (fact ok(1))
  have w: "window b ?j"
    using core_ready [of fp now jb hdr] window_core(1) [of ?j jb b] window_core(2) [of ?j b] ok(2) by auto
  then have late: "too_late ?j (h_seq hdr) \<longleftrightarrow> jb_seq_get ?j \<noteq> 0 \<and> dist b (h_seq hdr) \<le> dist b (jb_seq_get ?j)"
    using late_dist [of b "h_seq hdr" "jb_seq_get ?j"] assms(3) by (auto simp: too_late_def window_def)
  obtain e out jb' where put: "jbuf_put fp now jb hdr mem = Some ((e, out), jb')"
    using jbuf_put_ok(1) [OF ok(1) assms(2), of fp now hdr mem] by fastforce
  show ?thesis
  proof (cases "too_late ?j (h_seq hdr)")
    case True
    with put late show ?thesis by (auto simp: jbuf_put_ready Let_def put_spec_def)
  next
    case False
    with put have p: "put_packet ?j hdr mem = Some ((e, out), jb')" by (simp add: jbuf_put_ready Let_def)
    define ys where "ys = (if jb_pool ?j = 0 then tl (jb_packetl ?j) else jb_packetl ?j)"
    define f where "f = \<lparr>pk_hdr = hdr, pk_mem = mem\<rparr>"
    have sq: "pk_seq f = h_seq hdr" by (simp add: f_def)
    note r = put_packet_window [OF p j w assms(3) False, THEN conjunct2, unfolded Let_def, folded ys_def f_def]
    have "(e, jb_packetl jb') = put_spec b (jb_seq_get ?j) (jb_pool ?j = 0) f (jb_packetl ?j)"
      unfolding put_spec_def Let_def ys_def [symmetric] sq
      using late False r by (cases "h_seq hdr \<in> pk_seq ` set ys") simp_all
    then have "(e, jb_packetl jb') =
        put_spec b (jb_seq_get ?j) (jb_pool ?j = 0) \<lparr>pk_hdr = hdr, pk_mem = mem\<rparr> (jb_packetl ?j)"
      unfolding f_def .
    with put show ?thesis by (simp only: Let_def) blast
  qed
qed

theorem jbuf_put_refines_witness:
  "\<exists>e out jb'. jbuf_put fp_example 2 jb_example (hdr_example 6 200) 8 = Some ((e, out), jb')
    \<and> (e, jb_packetl jb') =
        (let j = ready fp_example 2 jb_example (hdr_example 6 200)
         in put_spec 1 (jb_seq_get j) (jb_pool j = 0) \<lparr>pk_hdr = hdr_example 6 200, pk_mem = 8\<rparr> (jb_packetl j))"
proof (rule jbuf_put_refines [OF jb_example_reachable])
  show "jb_max jb_example \<noteq> 0"
    by (simp add: jb_example_def jb_after_def jb_new_def jbuf_alloc_def seq_less_self_test list_all_iff
      jbuf_put_def put_prologue_def put_packet_def packet_alloc_def put_success_def ref_add_def Let_def hdr_example_def)
  show "dist 1 (h_seq (hdr_example 6 200)) < 32768" by (simp add: hdr_example_def dist_def)
qed


definition plain :: "nat \<Rightarrow> jbuf \<Rightarrow> bool" where
  "plain k jb \<longleftrightarrow> jb_type jb = JBUF_FIXED \<and> jb_pool jb = k \<and> jb_ssrc jb \<in> {0, 9} \<and> jb_tr jb \<in> {0, 1}
     \<and> jb_seq_get jb = 0 \<and> \<not> jb_gnack jb \<and> jb_wish jb = 0"

lemma plain_put [simp]:
  "plain k (put_success jb hdr m b a) = plain k jb" "jb_n (put_success jb hdr m b a) = jb_n jb"
  by (auto simp: plain_def put_success_def Let_def ref_add_def)

lemma jb_after_plain:
  fixes ts :: u32 and m :: nat
  assumes "plain (Suc k) jb" and "find_place sq (rev (jb_packetl jb)) [] = Some (b, a)"
  defines "f \<equiv> \<lparr>pk_hdr = hdr_example sq ts, pk_mem = m\<rparr>"
  shows "plain k (jb_after jb sq ts m)" and "jb_packetl (jb_after jb sq ts m) = b @ f # a"
    and "jb_nf (jb_after jb sq ts m) = jb_nf jb + of_bool (\<not> (joined b [f] \<or> joined [f] a))"
    and "jb_n (jb_after jb sq ts m) = jb_n jb + 1"
proof -
  have sq: "h_seq (hdr_example sq ts) = sq" "h_ssrc (hdr_example sq ts) = 9" "\<not> h_m (hdr_example sq ts)"
    by (simp_all add: hdr_example_def rtp_header_zero_def)
  define j where "j = put_prologue 1 jb (hdr_example sq ts)"
  have j: "plain (Suc k) j" "jb_packetl j = jb_packetl jb" "jb_nf j = jb_nf jb" "jb_n j = jb_n jb"
    using assms(1) sq by (auto simp: j_def put_prologue_def plain_def Let_def)
  have put: "jbuf_put fp_example 1 jb (hdr_example sq ts) m = put_packet j (hdr_example sq ts) m"
    using j(1) by (simp add: jbuf_put_def plain_def Let_def flip: j_def)
  obtain st where al: "packet_alloc (j\<lparr>jb_stat := (jb_stat j)\<lparr>n_put := n_put (jb_stat j) + 1\<rparr>\<rparr>)
      = Some (j\<lparr>jb_stat := st, jb_pool := k, jb_n := jb_n j + 1\<rparr>)"
    using j(1) by (simp add: packet_alloc_def plain_def)
  have "\<exists>st. put_packet j (hdr_example sq ts) m
      = Some ((None, []), put_success (j\<lparr>jb_stat := st, jb_pool := k, jb_n := jb_n j + 1\<rparr>) (hdr_example sq ts) m b a)"
  proof (cases "jb_packetl jb" rule: rev_cases)
    case Nil
    with assms(2) j(2) sq al show ?thesis by (auto simp: put_packet_def Let_def)
  next
    case (snoc xs x)
    then have l: "jb_packetl j \<noteq> []" "last (jb_packetl j) = x" using j(2) by simp_all
    have g: "\<not> jb_gnack j" using j(1) by (simp add: plain_def)
    show ?thesis
    proof (cases "seq_less (pk_seq x) sq")
      case True
      then have "b = jb_packetl j" "a = []" using snoc assms(2) j(2) by simp_all
      with True l g sq al show ?thesis by (simp add: put_packet_def Let_def) blast
    next
      case False
      with assms(2) j(2) have "find_place sq (rev (jb_packetl j)) [] = Some (b, a)" by simp
      with False l sq al show ?thesis
        by (simp add: put_packet_def Let_def) (rule exI [of _ "st\<lparr>n_oos := n_oos st + 1\<rparr>"],
            rule arg_cong [where f = "\<lambda>j. put_success j (hdr_example sq ts) m b a"], simp)
    qed
  qed
  then obtain st' where "jb_after jb sq ts m
      = put_success (j\<lparr>jb_stat := st', jb_pool := k, jb_n := jb_n j + 1\<rparr>) (hdr_example sq ts) m b a"
    by (auto simp: jb_after_def put)
  with j show "plain k (jb_after jb sq ts m)" and "jb_packetl (jb_after jb sq ts m) = b @ f # a"
    and "jb_nf (jb_after jb sq ts m) = jb_nf jb + of_bool (\<not> (joined b [f] \<or> joined [f] a))"
    and "jb_n (jb_after jb sq ts m) = jb_n jb + 1"
    by (simp_all add: f_def) (simp add: plain_def)
qed

lemma jbuf_drain_plain:
  "jb_packetl jb = f # rest \<Longrightarrow> jb_n jb \<noteq> 0 \<Longrightarrow> jbuf_drain jb = ((None, Some f), take_head jb f rest)"
  by (simp add: jbuf_drain_def)

lemma take_head_n: "jb_n (take_head jb f rest) = jb_n jb - 1"
  by (simp add: take_head_def packet_deref_def ref_add_def Let_def)

lemma seq_less_run: "seq_less 1 3" "\<not> seq_less 3 2" "seq_less 1 2" "\<not> seq_less 0 65535" "seq_less 65535 0"
  using seq_less_total [of 2 1] by (simp_all add: seq_less_iff)

lemma jb_new_eq:
  "jb_new mx = \<lparr>jb_gnack = False, jb_pool = unat mx, jb_packetl = [], jb_n = 0, jb_nf = 0, jb_min = 0, jb_max = mx,
     jb_wish = 0, jb_seq_put = 0, jb_seq_get = 0, jb_ssrc = 0, jb_tr = 0, jb_pt = -1, jb_running = False,
     jb_rdiff = 0, jb_tmr = None, jb_type = JBUF_FIXED, jb_stat = jbuf_stat_zero, jb_refs = (\<lambda>_. 0), jb_ub = False\<rparr>"
  by (simp add: jb_new_def jbuf_alloc_def seq_less_self_test list_all_iff)

text \<open>The frame counter can wrap below zero. Of three packets with the sequence numbers 1, 3 and 2, the outer
  two with one timestamp and the one in the middle with another, only two frames are counted, but each
  of the three removals takes one off: the empty buffer then claims 4294967295 frames.\<close>

theorem jbuf_frames_underflow:
  assumes "3 \<le> mx" and "ts \<noteq> ts'"
  shows "let jb = jb_after (jb_after (jb_after (jb_new mx) 1 ts m1) 3 ts m2) 2 ts' m3;
             jb = snd (jbuf_drain (snd (jbuf_drain (snd (jbuf_drain jb)))))
         in jb_packetl jb = [] \<and> jbuf_packets jb = 0 \<and> jbuf_frames jb = 4294967295"
proof -
  have "3 \<le> unat mx" using assms(1) by (simp add: word_le_nat_alt)
  then obtain k where "unat mx = 3 + k" using le_Suc_ex by blast
  then have k: "unat mx = Suc (Suc (Suc k))" by simp
  define p where "p = (\<lambda>sq t m. \<lparr>pk_hdr = hdr_example sq t, pk_mem = m\<rparr>)"
  have p: "pk_seq (p sq t m) = sq" "pk_ts (p sq t m) = t" for sq t m by (simp_all add: p_def hdr_example_def)
  have new: "plain (Suc (Suc (Suc k))) (jb_new mx)" "jb_packetl (jb_new mx) = []" "jb_nf (jb_new mx) = 0" "jb_n (jb_new mx) = 0"
    using k by (simp_all add: jb_new_eq plain_def)
  let ?j1 = "jb_after (jb_new mx) 1 ts m1"
  let ?j2 = "jb_after ?j1 3 ts m2"
  let ?j3 = "jb_after ?j2 2 ts' m3"
  have j1: "plain (Suc (Suc k)) ?j1" "jb_packetl ?j1 = [p 1 ts m1]" "jb_nf ?j1 = 1" "jb_n ?j1 = 1"
    using jb_after_plain [OF new(1), of 1 "[]" "[]" ts m1] new by (simp_all add: joined_def p_def)
  have j2: "plain (Suc k) ?j2" "jb_packetl ?j2 = [p 1 ts m1, p 3 ts m2]" "jb_nf ?j2 = 1" "jb_n ?j2 = 2"
    using jb_after_plain [OF j1(1), of 3 "[p 1 ts m1]" "[]" ts m2] j1
    by (simp_all add: joined_def p seq_less_run flip: p_def) (simp_all add: p_def hdr_example_def)
  have j3: "jb_packetl ?j3 = [p 1 ts m1, p 2 ts' m3, p 3 ts m2]" "jb_nf ?j3 = 2" "jb_n ?j3 = 3"
    using jb_after_plain [OF j2(1), of 2 "[p 1 ts m1]" "[p 3 ts m2]" ts' m3] j2 assms(2)
    by (simp_all add: joined_def p seq_less_run flip: p_def) (simp_all add: p_def hdr_example_def)
  show ?thesis
    using assms(2) by (simp add: Let_def jbuf_drain_plain [OF j3(1)] j3 jbuf_drain_plain take_head_n jbuf_packets_def jbuf_frames_def
        joined_def p)
qed

theorem jbuf_frames_underflow_witness:
  "jbuf_frames (snd (jbuf_drain (snd (jbuf_drain (snd (jbuf_drain
     (jb_after (jb_after (jb_after (jb_new 8) 1 100 1) 3 100 2) 2 200 3))))))) = 4294967295"
  using jbuf_frames_underflow [of 8 100 200 1 2 3] by (simp add: Let_def)

text \<open>
  The number 0 doubles as the mark for nothing played yet: after packet 0 was played, packet 65535 is
  taken and played after it.
\<close>

lemma jbuf_zero_reorders:
  assumes "2 \<le> mx"
  shows "let jb = snd (jbuf_get (jb_after (jb_new mx) 0 ts m1));
             jb' = jb_after jb 65535 ts' m2
         in jb_seq_get jb = 0 \<and> snd (fst (jbuf_drain jb')) = Some \<lparr>pk_hdr = hdr_example 65535 ts', pk_mem = m2\<rparr>"
proof -
  have "2 \<le> unat mx" using assms by (simp add: word_le_nat_alt)
  then obtain k where "unat mx = 2 + k" using le_Suc_ex by blast
  then have k: "unat mx = Suc (Suc k)" by simp
  define p where "p = (\<lambda>sq t m. \<lparr>pk_hdr = hdr_example sq t, pk_mem = m\<rparr>)"
  have new: "plain (Suc (Suc k)) (jb_new mx)" "jb_packetl (jb_new mx) = []" "jb_nf (jb_new mx) = 0"
    using k by (simp_all add: jb_new_eq plain_def)
  let ?j1 = "jb_after (jb_new mx) 0 ts m1"
  let ?j2 = "snd (jbuf_get ?j1)"
  have j1: "plain (Suc k) ?j1" "jb_packetl ?j1 = [p 0 ts m1]" "jb_nf ?j1 = 1"
    using jb_after_plain [OF new(1), of 0 "[]" "[]" ts m1] new by (simp_all add: joined_def p_def)
  then have j2: "plain (Suc (Suc k)) ?j2" "jb_packetl ?j2 = []" "jb_n ?j2 = jb_n ?j1 - 1"
    by (auto simp: jbuf_get_def Let_def plain_def take_head_def packet_deref_def ref_add_def p_def hdr_example_def)
  have j1n: "jb_n ?j1 = 1" using jb_after_plain(4) [OF new(1), of 0 "[]" "[]" ts m1] new by (simp add: jb_new_eq)
  have "jb_packetl (jb_after ?j2 65535 ts' m2) = [p 65535 ts' m2]" "jb_n (jb_after ?j2 65535 ts' m2) = 1"
    using jb_after_plain [OF j2(1), of 65535 "[]" "[]" ts' m2] j2 j1n by (simp_all add: p_def)
  with j2(1) show ?thesis by (simp add: Let_def jbuf_drain_plain plain_def p_def)
qed

end
