(* ===== verification/Mbuf_View.thy ===== *)
theory Mbuf_View
  imports Wire
begin

text \<open>
  A second view of the buffer, for code that moves cursor and end about and works in place: \<open>mbv mb p xs\<close>
  says that the buffer is within bounds, the cursor is at \<open>p\<close> and the bytes up to the end are \<open>xs\<close>.
  Each rule gives the view after one operation.
\<close>

definition mb_all :: "mbuf \<Rightarrow> byte list" where
  "mb_all mb = take (mb_end mb) (mb_bytes mb)"

definition mbv :: "mbuf \<Rightarrow> nat \<Rightarrow> byte list \<Rightarrow> bool" where
  "mbv mb p xs \<longleftrightarrow> mbuf_ok mb \<and> mb_pos mb = p \<and> mb_all mb = xs"

lemma mb_all_split: "mbuf_ok mb \<Longrightarrow> mb_all mb = mb_before mb @ mb_after mb"
  using take_add [of "mb_pos mb" "mb_end mb - mb_pos mb" "mb_bytes mb"]
  by (simp add: mb_all_def mb_before_def mb_after_def mbuf_ok_def)

lemma length_mb_all: "mbuf_ok mb \<Longrightarrow> length (mb_all mb) = mb_end mb"
  by (simp add: mb_all_def mbuf_ok_def)

lemma mbvI: "mbuf_ok mb \<Longrightarrow> mbv mb (mb_pos mb) (mb_before mb @ mb_after mb)"
  by (simp add: mbv_def mb_all_split)

lemma mbvD:
  assumes "mbv mb p xs"
  shows "mbuf_ok mb" and "mb_pos mb = p" and "mb_end mb = length xs" and "p \<le> length xs"
    and "mb_after mb = drop p xs" and "mb_before mb = take p xs" and "mbuf_get_left mb = length xs - p"
    and "length xs < size_mod"
proof -
  show ok: "mbuf_ok mb" and p: "mb_pos mb = p" using assms by (simp_all add: mbv_def)
  show e: "mb_end mb = length xs" using assms length_mb_all [OF ok] by (simp add: mbv_def)
  show le: "p \<le> length xs" using ok p e by (simp add: mbuf_ok_def)
  show "length xs < size_mod" using ok e by (auto simp: mbuf_ok_def)
  have xs: "xs = mb_before mb @ mb_after mb" using assms mb_all_split [OF ok] by (simp add: mbv_def)
  then show "mb_after mb = drop p xs" "mb_before mb = take p xs" using p ok by simp_all
  show "mbuf_get_left mb = length xs - p" using e p le by (simp add: mbuf_get_left_def)
qed

lemma mbvE:
  assumes "mbv mb p xs"
  obtains "\<not> mb_ub mb" "mb_pos mb = p" "p \<le> length xs" "mb_end mb = length xs" "length xs \<le> mb_size mb"
    "mb_size mb \<le> length (mb_bytes mb)" "length (mb_bytes mb) < size_mod" "take (length xs) (mb_bytes mb) = xs"
proof
  show "take (length xs) (mb_bytes mb) = xs"
    using assms mbvD(3) [OF assms] unfolding mbv_def mb_all_def by metis
qed (use mbvD(1-4) [OF assms] in \<open>simp_all add: mbuf_ok_def\<close>)

lemma mbv_set_pos:
  assumes "mbv mb p xs" and "q \<le> length xs"
  shows "mbv (mb\<lparr>mb_pos := q\<rparr>) q xs"
  using assms(1)
proof (rule mbvE)
qed (use assms(2) in \<open>simp add: mbv_def mbuf_ok_def mb_all_def\<close>)

lemma mbv_set_end:
  assumes "mbv mb p xs" and "p \<le> e" and "e \<le> length xs"
  shows "mbv (mb\<lparr>mb_end := e\<rparr>) p (take e xs)"
proof -
  from assms(1) have "take e (mb_bytes mb) = take e xs"
    by (rule mbvE) (metis assms(3) min.absorb1 take_take)
  moreover from assms(1) have "mbuf_ok (mb\<lparr>mb_end := e\<rparr>)"
    by (rule mbvE) (use assms(2,3) in \<open>simp add: mbuf_ok_def\<close>)
  ultimately show ?thesis using mbvD(2) [OF assms(1)] by (simp add: mbv_def mb_all_def)
qed

lemma mbv_set_posend: "mbv mb p xs \<Longrightarrow> q \<le> e \<Longrightarrow> e \<le> length xs \<Longrightarrow> mbv (mb\<lparr>mb_pos := q, mb_end := e\<rparr>) q (take e xs)"
  using mbv_set_end [OF mbv_set_pos [of mb p xs q], of e] by simp

lemma mbv_adv: "mbv mb p xs \<Longrightarrow> p + n \<le> length xs \<Longrightarrow> mbv (mb_adv mb n) (p + n) xs"
  using mbv_set_pos [of mb p xs "p + n"] by (simp add: mb_adv_def mbvD(2))

lemma mbv_writes:
  assumes "writes f bs" and v: "mbv mb p xs" and fits: "p + length bs < size_mod" and "f mb = (None, mb')"
  shows "mbv mb' (p + length bs) (take p xs @ bs @ drop (p + length bs) xs)"
proof -
  have l: "length (mb_before mb) = p" using mbvD [OF v] by simp
  have "mbuf_ok mb'" "mb_before mb' = mb_before mb @ bs" "mb_after mb' = drop (length bs) (mb_after mb)"
    using writerD [OF assms(1) mbvD(1) [OF v] _ assms(4)] fits l by simp_all
  moreover from this have "mb_pos mb' = p + length bs"
    using l by (metis length_append length_mb_before)
  ultimately show ?thesis using mbvI [of mb'] mbvD(5,6) [OF v] by (simp add: add.commute)
qed

lemma mbv_load:
  assumes "mbv mb p xs" and "q + n \<le> length xs"
  shows "mem_load mb q n = (take n (drop q xs), mb)"
  using assms(1)
proof (rule mbvE)
  assume "take (length xs) (mb_bytes mb) = xs" "length xs \<le> mb_size mb" "mb_size mb \<le> length (mb_bytes mb)"
  moreover from this have "take (q + n) xs = take (q + n) (mb_bytes mb)" by (metis assms(2) min.absorb1 take_take)
  then have "take n (drop q xs) = take n (drop q (mb_bytes mb))" by (simp add: take_drop add.commute)
  ultimately show ?thesis using assms(2) by (simp add: mem_load_def)
qed

lemma mbv_store:
  assumes v: "mbv mb p xs" and "q + length bs \<le> length xs"
  shows "mbv (mem_store mb q bs) p (splice q bs xs)"
proof (cases "bs = []")
  case True
  then show ?thesis using v assms(2) by (simp add: mem_store_def splice_def)
next
  case False
  have "length xs \<le> length (mb_bytes mb)" using mbvD(1,3) [OF v] by (simp add: mbuf_ok_def)
  then have fit: "q + length bs \<le> length (mb_bytes mb)" using assms(2) by simp
  then have st: "mem_store mb q bs = mb\<lparr>mb_buf := Some (splice q bs (mb_bytes mb))\<rparr>"
    using False by (simp add: mem_store_def)
  have "take (length xs) (splice q bs (mb_bytes mb)) = splice q bs (take (length xs) (mb_bytes mb))"
    using assms(2) fit by (simp add: splice_def drop_take)
  moreover from v have "take (length xs) (mb_bytes mb) = xs" by (rule mbvE)
  ultimately have all: "take (length xs) (splice q bs (mb_bytes mb)) = splice q bs xs" by simp
  from v show ?thesis
    by (rule mbvE) (use all fit in \<open>simp add: mbv_def st mb_all_def mbuf_ok_def\<close>)
qed

lemma mbv_read_mem:
  "mbv mb p xs \<Longrightarrow> p + n \<le> length xs \<Longrightarrow> mbuf_read_mem mb n = (None, take n (drop p xs), mb_adv mb n)"
  using mbvD [of mb p xs] reads_at(1) [of mb n] by simp

lemma mbv_read_be32:
  "mbv mb p xs \<Longrightarrow> p + 4 \<le> length xs \<Longrightarrow> read_be32 mb = (word_of_bytes (rev (take 4 (drop p xs))), mb_adv mb 4)"
  using mbvD [of mb p xs] reads_at(4) [of mb] by simp

text \<open>A write that stays within the bytes needs no memory and cannot fail.\<close>

lemma mbv_write_within:
  assumes "inplace f n" and "mbv mb p xs" and "p + n \<le> length xs"
  shows "fst (f mb) = None"
  by (rule inplaceD [OF assms(1)]) (use mbvD [OF assms(2)] assms(3) in \<open>auto simp: mbuf_ok_def\<close>)

lemma splice_append: "length bs = length ys \<Longrightarrow> splice (length xs) bs (xs @ ys @ zs) = xs @ bs @ zs"
  by (simp add: splice_def)

end
