(* ===== verification/Srtp.thy ===== *)
theory Srtp
  imports Rtp Srtp_Replay Mbuf_View
begin

text \<open>
  Secure RTP, \<open>re/src/srtp/srtp.c\<close>, \<open>stream.c\<close> and \<open>misc.c\<close>: a packet is encrypted and
  authenticated in place under an index made of its sequence number and a count of the wraps.

  The block cipher and the keyed hash are libraries; they are the parameter \<open>cr\<close>, with one field
  per function the code calls, on cipher contexts of any type. A Boolean argument of the cipher
  tells whether the output pointer is non-NULL (associated data has none). \<open>aes_run\<close> is a call that
  works in place on the buffer. The streams of a session are a list searched by source identifier;
  the code keeps a pointer to one, here \<open>stream_put\<close> stores it back.

  Out of the header, which the code leaves uninitialised before decoding, only decoded fields are
  used.
\<close>

datatype aes_mode = AES_MODE_CTR | AES_MODE_GCM

datatype srtp_suite =
    SRTP_AES_CM_128_HMAC_SHA1_32 | SRTP_AES_CM_128_HMAC_SHA1_80
  | SRTP_AES_256_CM_HMAC_SHA1_32 | SRTP_AES_256_CM_HMAC_SHA1_80
  | SRTP_AES_128_GCM | SRTP_AES_256_GCM

record 'a crypto =
  aes_alloc :: "aes_mode \<Rightarrow> byte list \<Rightarrow> nat \<Rightarrow> byte list option \<Rightarrow> errno + 'a"
  aes_set_iv :: "'a \<Rightarrow> byte list \<Rightarrow> 'a"
  aes_encr :: "'a \<Rightarrow> bool \<Rightarrow> byte list \<Rightarrow> errno option \<times> byte list \<times> 'a"
  aes_decr :: "'a \<Rightarrow> bool \<Rightarrow> byte list \<Rightarrow> errno option \<times> byte list \<times> 'a"
  aes_get_authtag :: "'a \<Rightarrow> nat \<Rightarrow> errno option \<times> byte list \<times> 'a"
  aes_authenticate :: "'a \<Rightarrow> byte list \<Rightarrow> errno option \<times> 'a"
  hmac_create :: "byte list \<Rightarrow> errno + byte list"
  hmac_digest :: "byte list \<Rightarrow> nat \<Rightarrow> byte list \<Rightarrow> errno option \<times> byte list"

record srtp_stream =
  ss_replay_rtp :: replay
  ss_replay_rtcp :: replay
  ss_ssrc :: u32
  ss_roc :: u32
  ss_s_l :: u16
  ss_s_l_set :: bool
  ss_rtcp_index :: u32

record 'a comp =
  c_aes :: "'a option"
  c_mode :: aes_mode
  c_hmac :: "byte list option"
  c_k_s :: "byte list"
  c_tag_len :: nat

record 'a srtp =
  sr_rtp :: "'a comp"
  sr_rtcp :: "'a comp"
  sr_streaml :: "srtp_stream list"

definition GCM_TAGLEN :: nat where "GCM_TAGLEN = 16"
definition MAX_KEYLEN :: nat where "MAX_KEYLEN = 32"
definition SHA_DIGEST_LENGTH :: nat where "SHA_DIGEST_LENGTH = 20"
definition AES_BLOCK_SIZE :: nat where "AES_BLOCK_SIZE = 16"
definition SRTP_MAX_STREAMS :: nat where "SRTP_MAX_STREAMS = 8"

section \<open>Index, key and vector computations\<close>

definition seq_diff :: "u16 \<Rightarrow> u16 \<Rightarrow> int" where
  "seq_diff x y = int (unat y) - int (unat x)"

text \<open>The wraps are kept in an \<open>int\<close> and sign-extended to 64 bits.\<close>

definition srtp_get_index :: "u32 \<Rightarrow> u16 \<Rightarrow> u16 \<Rightarrow> u64" where
  "srtp_get_index roc s_l sq =
     (let v = (if s_l < 32768
               then (if int (unat sq) - int (unat s_l) > 32768 then roc - 1 else roc)
               else (if int (unat s_l) - 32768 > int (unat sq) then roc + 1 else roc))
      in ucast sq + scast v * 65536)"

definition xor_bytes :: "byte list \<Rightarrow> byte list \<Rightarrow> byte list" where
  "xor_bytes a b = map2 (XOR) a b"

definition srtp_derive :: "'a crypto \<Rightarrow> nat \<Rightarrow> u8 \<Rightarrow> byte list \<Rightarrow> byte list \<Rightarrow> errno option \<times> byte list" where
  "srtp_derive cr out_len label master_key master_salt =
     (if out_len > 2 * AES_BLOCK_SIZE \<or> length master_salt > AES_BLOCK_SIZE then (Some EINVAL, [])
      else
        (let x = master_salt @ replicate (AES_BLOCK_SIZE - length master_salt) 0;
             x = x[7 := x ! 7 XOR label]
         in case aes_alloc cr AES_MODE_CTR master_key (length master_key * 8) (Some x) of
              Inl err \<Rightarrow> (Some err, [])
            | Inr aes \<Rightarrow>
                (case aes_encr cr aes True (replicate out_len 0) of (err, out, _) \<Rightarrow> (err, out))))"

definition srtp_iv_calc :: "byte list \<Rightarrow> u32 \<Rightarrow> u64 \<Rightarrow> byte list" where
  "srtp_iv_calc k_s ssrc ix =
     take 4 k_s
     @ xor_bytes (take 4 (drop 4 k_s)) (be32 ssrc)
     @ xor_bytes (take 4 (drop 8 k_s)) (be32 (ucast (drop_bit 16 ix)))
     @ xor_bytes (take 2 (drop 12 k_s)) (be16 (ucast ix))
     @ [0, 0]"

definition srtp_iv_calc_gcm :: "byte list \<Rightarrow> u32 \<Rightarrow> u64 \<Rightarrow> byte list" where
  "srtp_iv_calc_gcm k_s ssrc ix =
     take 2 k_s
     @ xor_bytes (take 2 (drop 2 k_s)) (be16 (ucast (drop_bit 16 ssrc)))
     @ xor_bytes (take 2 (drop 4 k_s)) (be16 (ucast (ssrc AND 0xffff)))
     @ xor_bytes (take 2 (drop 6 k_s)) (be16 (ucast (drop_bit 32 ix AND 0xffff)))
     @ xor_bytes (take 2 (drop 8 k_s)) (be16 (ucast (drop_bit 16 ix AND 0xffff)))
     @ xor_bytes (take 2 (drop 10 k_s)) (be16 (ucast (ix AND 0xffff)))"

definition srtp_suite_name :: "srtp_suite \<Rightarrow> string" where
  "srtp_suite_name suite =
     (case suite of
        SRTP_AES_CM_128_HMAC_SHA1_32 \<Rightarrow> ''AES_CM_128_HMAC_SHA1_32''
      | SRTP_AES_CM_128_HMAC_SHA1_80 \<Rightarrow> ''AES_CM_128_HMAC_SHA1_80''
      | SRTP_AES_256_CM_HMAC_SHA1_32 \<Rightarrow> ''AES_256_CM_HMAC_SHA1_32''
      | SRTP_AES_256_CM_HMAC_SHA1_80 \<Rightarrow> ''AES_256_CM_HMAC_SHA1_80''
      | SRTP_AES_128_GCM \<Rightarrow> ''AEAD_AES_128_GCM''
      | SRTP_AES_256_GCM \<Rightarrow> ''AEAD_AES_256_GCM'')"

section \<open>Streams\<close>

definition stream_find :: "'a srtp \<Rightarrow> u32 \<Rightarrow> srtp_stream option" where
  "stream_find srtp ssrc = find (\<lambda>s. ss_ssrc s = ssrc) (sr_streaml srtp)"

definition stream_zero :: "u32 \<Rightarrow> srtp_stream" where
  "stream_zero ssrc =
     \<lparr>ss_replay_rtp = srtp_replay_init replay0, ss_replay_rtcp = srtp_replay_init replay0, ss_ssrc = ssrc,
      ss_roc = 0, ss_s_l = 0, ss_s_l_set = False, ss_rtcp_index = 0\<rparr>"

definition stream_new :: "bool \<Rightarrow> 'a srtp \<Rightarrow> u32 \<Rightarrow> errno + srtp_stream \<times> 'a srtp" where
  "stream_new mem srtp ssrc =
     (if length (sr_streaml srtp) \<ge> SRTP_MAX_STREAMS then Inl ENOSR
      else if \<not> mem then Inl ENOMEM
      else Inr (stream_zero ssrc, srtp\<lparr>sr_streaml := sr_streaml srtp @ [stream_zero ssrc]\<rparr>))"

definition stream_get :: "bool \<Rightarrow> 'a srtp \<Rightarrow> u32 \<Rightarrow> errno + srtp_stream \<times> 'a srtp" where
  "stream_get mem srtp ssrc =
     (case stream_find srtp ssrc of
        Some strm \<Rightarrow> Inr (strm, srtp)
      | None \<Rightarrow> stream_new mem srtp ssrc)"

definition stream_put :: "'a srtp \<Rightarrow> srtp_stream \<Rightarrow> 'a srtp" where
  "stream_put srtp strm =
     srtp\<lparr>sr_streaml := map (\<lambda>s. if ss_ssrc s = ss_ssrc strm then strm else s) (sr_streaml srtp)\<rparr>"

definition stream_get_seq :: "bool \<Rightarrow> 'a srtp \<Rightarrow> u32 \<Rightarrow> u16 \<Rightarrow> errno + srtp_stream \<times> 'a srtp" where
  "stream_get_seq mem srtp ssrc sq =
     (case stream_get mem srtp ssrc of
        Inl err \<Rightarrow> Inl err
      | Inr (strm, srtp) \<Rightarrow>
          (let strm = (if \<not> ss_s_l_set strm then strm\<lparr>ss_s_l := sq, ss_s_l_set := True\<rparr> else strm)
           in Inr (strm, stream_put srtp strm)))"

section \<open>Setting up a session\<close>

definition comp_init ::
  "'a crypto \<Rightarrow> u8 \<Rightarrow> byte list \<Rightarrow> byte list \<Rightarrow> nat \<Rightarrow> bool \<Rightarrow> bool \<Rightarrow> aes_mode \<Rightarrow> errno + 'a comp" where
  "comp_init cr offs key s tag_len encrypted hash mode =
     (if length key > MAX_KEYLEN then Inl EINVAL
      else if tag_len > SHA_DIGEST_LENGTH then Inl EINVAL
      else
        (let (e1, k_e) = srtp_derive cr (length key) (0x00 + offs) key s;
             (e2, k_a) = srtp_derive cr SHA_DIGEST_LENGTH (0x01 + offs) key s;
             (e3, k_s) = srtp_derive cr 14 (0x02 + offs) key s;
             c = \<lparr>c_aes = None, c_mode = mode, c_hmac = None, c_k_s = k_s @ [0, 0], c_tag_len = tag_len\<rparr>
         in case err_or (err_or e1 e2) e3 of
              Some err \<Rightarrow> Inl err
            | None \<Rightarrow>
                (case (if encrypted then (case aes_alloc cr mode k_e (length key * 8) None of
                                            Inl err \<Rightarrow> Inl err | Inr aes \<Rightarrow> Inr (c\<lparr>c_aes := Some aes\<rparr>))
                       else Inr c) of
                   Inl err \<Rightarrow> Inl err
                 | Inr c \<Rightarrow>
                     (if hash then (case hmac_create cr k_a of Inl err \<Rightarrow> Inl err | Inr h \<Rightarrow> Inr (c\<lparr>c_hmac := Some h\<rparr>))
                      else Inr c))))"

text \<open>Mode, cipher key, salt and tag lengths, and whether the keyed hash is used.\<close>

definition suite_params :: "srtp_suite \<Rightarrow> aes_mode \<times> nat \<times> nat \<times> nat \<times> bool" where
  "suite_params suite =
     (case suite of
        SRTP_AES_CM_128_HMAC_SHA1_80 \<Rightarrow> (AES_MODE_CTR, 16, 14, 10, True)
      | SRTP_AES_CM_128_HMAC_SHA1_32 \<Rightarrow> (AES_MODE_CTR, 16, 14, 4, True)
      | SRTP_AES_256_CM_HMAC_SHA1_80 \<Rightarrow> (AES_MODE_CTR, 32, 14, 10, True)
      | SRTP_AES_256_CM_HMAC_SHA1_32 \<Rightarrow> (AES_MODE_CTR, 32, 14, 4, True)
      | SRTP_AES_128_GCM \<Rightarrow> (AES_MODE_GCM, 16, 12, 0, False)
      | SRTP_AES_256_GCM \<Rightarrow> (AES_MODE_GCM, 32, 12, 0, False))"

definition srtp_alloc :: "'a crypto \<Rightarrow> bool \<Rightarrow> srtp_suite \<Rightarrow> byte list \<Rightarrow> bool \<Rightarrow> errno + 'a srtp" where
  "srtp_alloc cr mem suite key unencrypted_srtcp =
     (case suite_params suite of (mode, cipher_bytes, salt_bytes, auth_bytes, hash) \<Rightarrow>
        if cipher_bytes + salt_bytes \<noteq> length key then Inl EINVAL
        else if \<not> mem then Inl ENOMEM
        else
          (let k = take cipher_bytes key; salt = drop cipher_bytes key
           in case (comp_init cr 0 k salt auth_bytes True hash mode,
                    comp_init cr 3 k salt auth_bytes (\<not> unencrypted_srtcp) hash mode) of
                (Inr rtp, Inr rtcp) \<Rightarrow> Inr \<lparr>sr_rtp = rtp, sr_rtcp = rtcp, sr_streaml = []\<rparr>
              | (Inl e, Inr _) \<Rightarrow> Inl e
              | (Inr _, Inl e) \<Rightarrow> Inl e
              | (Inl e, Inl e') \<Rightarrow> Inl (E_OR e e')))"

section \<open>Steps on a packet\<close>

text \<open>\<open>if (err) return err;\<close> after a step on the cipher state and the buffer.\<close>

definition and_then :: "errno option \<times> 's \<Rightarrow> ('s \<Rightarrow> errno option \<times> 's) \<Rightarrow> errno option \<times> 's" where
  "and_then r f = (case r of (Some err, s) \<Rightarrow> (Some err, s) | (None, s) \<Rightarrow> f s)"

text \<open>\<open>aes_encr(aes, p, p, n)\<close> with \<open>p\<close> at offset \<open>p\<close> of the block.\<close>

definition aes_run ::
  "('a \<Rightarrow> bool \<Rightarrow> byte list \<Rightarrow> errno option \<times> byte list \<times> 'a) \<Rightarrow> nat \<Rightarrow> nat \<Rightarrow> 'a \<times> mbuf \<Rightarrow> errno option \<times> 'a \<times> mbuf" where
  "aes_run f p n s =
     (case s of (aes, mb) \<Rightarrow>
        (case mem_load mb p n of (bs, mb) \<Rightarrow>
        (case f aes True bs of (err, out, aes) \<Rightarrow> (err, aes, mem_store mb p out))))"

text \<open>Associated data: the cipher reads \<open>bs\<close> and writes nothing.\<close>

definition aes_aad ::
  "('a \<Rightarrow> bool \<Rightarrow> byte list \<Rightarrow> errno option \<times> byte list \<times> 'a) \<Rightarrow> byte list \<Rightarrow> 'a \<times> mbuf \<Rightarrow> errno option \<times> 'a \<times> mbuf" where
  "aes_aad f bs s = (case s of (aes, mb) \<Rightarrow> (case f aes False bs of (err, _, aes) \<Rightarrow> (err, aes, mb)))"

text \<open>Associated data out of the block.\<close>

definition aes_aad_mem ::
  "('a \<Rightarrow> bool \<Rightarrow> byte list \<Rightarrow> errno option \<times> byte list \<times> 'a) \<Rightarrow> nat \<Rightarrow> nat \<Rightarrow> 'a \<times> mbuf \<Rightarrow> errno option \<times> 'a \<times> mbuf" where
  "aes_aad_mem f p n s =
     (case s of (aes, mb) \<Rightarrow> (case mem_load mb p n of (bs, mb) \<Rightarrow> aes_aad f bs (aes, mb)))"

definition put_authtag :: "'a crypto \<Rightarrow> alloc \<Rightarrow> 'a \<times> mbuf \<Rightarrow> errno option \<times> 'a \<times> mbuf" where
  "put_authtag cr al s =
     (case s of (aes, mb) \<Rightarrow>
        (case aes_get_authtag cr aes GCM_TAGLEN of (err, tag, aes) \<Rightarrow>
           and_then (err, aes, mb)
             (\<lambda>(aes, mb). case mbuf_write_mem al (mb\<lparr>mb_pos := mb_end mb\<rparr>) (Some tag) of (err, mb) \<Rightarrow> (err, aes, mb))))"

text \<open>Run the steps on the cipher of a component, if it has one.\<close>

definition with_aes ::
  "'a comp \<Rightarrow> mbuf \<Rightarrow> ('a \<Rightarrow> 'a \<times> mbuf \<Rightarrow> errno option \<times> 'a \<times> mbuf) \<Rightarrow> errno option \<times> 'a comp \<times> mbuf" where
  "with_aes c mb f =
     (case c_aes c of
        None \<Rightarrow> (None, c, mb)
      | Some aes \<Rightarrow> (case f aes (aes, mb) of (err, aes, mb) \<Rightarrow> (err, c\<lparr>c_aes := Some aes\<rparr>, mb)))"

section \<open>RTP\<close>

definition roc_update :: "srtp_stream \<Rightarrow> u16 \<Rightarrow> srtp_stream" where
  "roc_update strm sq =
     (if seq_diff (ss_s_l strm) sq \<le> -32768 then strm\<lparr>ss_roc := ss_roc strm + 1, ss_s_l := 0\<rparr> else strm)"

definition s_l_update :: "srtp_stream \<Rightarrow> u16 \<Rightarrow> srtp_stream" where
  "s_l_update strm sq = (if sq > ss_s_l strm then strm\<lparr>ss_s_l := sq\<rparr> else strm)"

definition rtp_encipher ::
  "'a crypto \<Rightarrow> alloc \<Rightarrow> nat \<Rightarrow> u32 \<Rightarrow> u64 \<Rightarrow> 'a comp \<times> mbuf \<Rightarrow> errno option \<times> 'a comp \<times> mbuf" where
  "rtp_encipher cr al start ssrc ix s =
     (case s of (c, mb) \<Rightarrow>
        with_aes c mb (\<lambda>_ (aes, mb).
          case c_mode c of
            AES_MODE_CTR \<Rightarrow>
              aes_run (aes_encr cr) (mb_pos mb) (mbuf_get_left mb) (aes_set_iv cr aes (srtp_iv_calc (c_k_s c) ssrc ix), mb)
          | AES_MODE_GCM \<Rightarrow>
              and_then
                (and_then
                  (aes_aad_mem (aes_encr cr) start (mb_pos mb - start)
                     (aes_set_iv cr aes (srtp_iv_calc_gcm (c_k_s c) ssrc ix), mb))
                  (aes_run (aes_encr cr) (mb_pos mb) (mbuf_get_left mb)))
                (put_authtag cr al)))"

definition rtp_sign ::
  "'a crypto \<Rightarrow> alloc \<Rightarrow> nat \<Rightarrow> u32 \<Rightarrow> 'a comp \<times> mbuf \<Rightarrow> errno option \<times> 'a comp \<times> mbuf" where
  "rtp_sign cr al start roc s =
     (case s of (c, mb) \<Rightarrow>
        (case c_hmac c of
           None \<Rightarrow> (None, c, mb)
         | Some k \<Rightarrow>
             (let tag_start = mb_end mb
              in case mbuf_write_u32 al (mb\<lparr>mb_pos := tag_start\<rparr>) (htonl roc) of
                   (Some err, mb) \<Rightarrow> (Some err, c, mb)
                 | (None, mb) \<Rightarrow>
                     (let mb = mb\<lparr>mb_pos := start\<rparr>
                      in case hmac_digest cr k SHA_DIGEST_LENGTH (mb_after mb) of
                           (Some err, _) \<Rightarrow> (Some err, c, mb)
                         | (None, tag) \<Rightarrow>
                             (case mbuf_write_mem al (mb\<lparr>mb_pos := tag_start, mb_end := tag_start\<rparr>)
                                     (Some (take (c_tag_len c) tag)) of
                                (err, mb) \<Rightarrow> (err, c, mb))))))"

definition srtp_encrypt :: "'a crypto \<Rightarrow> alloc \<Rightarrow> bool \<Rightarrow> 'a srtp \<Rightarrow> mbuf \<Rightarrow> errno option \<times> 'a srtp \<times> mbuf" where
  "srtp_encrypt cr al mem srtp mb =
     (let start = mb_pos mb
      in case rtp_hdr_decode rtp_header_zero mb of
           (Some err, _, mb) \<Rightarrow> (Some err, srtp, mb)
         | (None, hdr, mb) \<Rightarrow>
             (case stream_get_seq mem srtp (h_ssrc hdr) (h_seq hdr) of
                Inl err \<Rightarrow> (Some err, srtp, mb)
              | Inr (strm, srtp) \<Rightarrow>
                  (let strm = roc_update strm (h_seq hdr);
                       ix = 65536 * ucast (ss_roc strm) + ucast (h_seq hdr)
                   in case and_then (rtp_encipher cr al start (ss_ssrc strm) ix (sr_rtp srtp, mb))
                             (rtp_sign cr al start (ss_roc strm)) of
                        (Some err, c, mb) \<Rightarrow> (Some err, (stream_put srtp strm)\<lparr>sr_rtp := c\<rparr>, mb)
                      | (None, c, mb) \<Rightarrow>
                          (None, (stream_put srtp (s_l_update strm (h_seq hdr)))\<lparr>sr_rtp := c\<rparr>, mb\<lparr>mb_pos := start\<rparr>))))"

text \<open>Check the tag; the replay window is consulted only then, and changed by it.\<close>

definition rtp_verify ::
  "'a crypto \<Rightarrow> alloc \<Rightarrow> nat \<Rightarrow> u64 \<Rightarrow> 'a comp \<Rightarrow> srtp_stream \<times> mbuf \<Rightarrow> errno option \<times> srtp_stream \<times> mbuf" where
  "rtp_verify cr al start ix c s =
     (case s of (strm, mb) \<Rightarrow>
        (case c_hmac c of
           None \<Rightarrow> (None, strm, mb)
         | Some k \<Rightarrow>
             if mbuf_get_left mb < c_tag_len c then (Some EBADMSG, strm, mb)
             else
               (let pld_start = mb_pos mb; tag_start = mb_end mb - c_tag_len c
                in case mbuf_read_mem (mb\<lparr>mb_pos := tag_start\<rparr>) (c_tag_len c) of
                     (Some err, _, mb) \<Rightarrow> (Some err, strm, mb)
                   | (None, tag_pkt, mb) \<Rightarrow>
                       (case mbuf_write_u32 al (mb\<lparr>mb_pos := tag_start, mb_end := tag_start\<rparr>) (htonl (ss_roc strm)) of
                          (Some err, mb) \<Rightarrow> (Some err, strm, mb)
                        | (None, mb) \<Rightarrow>
                            (let mb = mb\<lparr>mb_pos := start\<rparr>
                             in case hmac_digest cr k SHA_DIGEST_LENGTH (mb_after mb) of
                                  (Some err, _) \<Rightarrow> (Some err, strm, mb)
                                | (None, tag_calc) \<Rightarrow>
                                    (let mb = mb\<lparr>mb_pos := pld_start, mb_end := tag_start\<rparr>
                                     in if take (c_tag_len c) tag_calc \<noteq> tag_pkt then (Some EAUTH, strm, mb)
                                        else
                                          (case srtp_replay_check (Some (ss_replay_rtp strm)) ix of
                                             (ok, r) \<Rightarrow>
                                               (let strm = strm\<lparr>ss_replay_rtp := the r\<rparr>
                                                in (if ok then None else Some EALREADY, strm, mb)))))))))"

text \<open>The tag of the authenticating mode is behind the text; \<open>authenticate\<close> checks it after decryption.\<close>

definition check_authtag :: "'a crypto \<Rightarrow> nat \<Rightarrow> 'a \<times> mbuf \<Rightarrow> errno option \<times> 'a \<times> mbuf" where
  "check_authtag cr tag_start s =
     (case s of (aes, mb) \<Rightarrow>
        (case mem_load mb tag_start GCM_TAGLEN of (tag, mb) \<Rightarrow>
        (case aes_authenticate cr aes tag of (err, aes) \<Rightarrow> (err, aes, mb))))"

definition gcm_open :: "'a crypto \<Rightarrow> 'a \<times> mbuf \<Rightarrow> errno option \<times> 'a \<times> mbuf" where
  "gcm_open cr s =
     (case s of (aes, mb) \<Rightarrow>
        if mbuf_get_left mb < GCM_TAGLEN then (Some EBADMSG, aes, mb)
        else
          (let tag_start = mb_end mb - GCM_TAGLEN
           in and_then (and_then (aes_run (aes_decr cr) (mb_pos mb) (tag_start - mb_pos mb) (aes, mb))
                          (check_authtag cr tag_start))
                (\<lambda>(aes, mb). (None, aes, mb\<lparr>mb_end := tag_start\<rparr>))))"

definition rtp_decipher ::
  "'a crypto \<Rightarrow> nat \<Rightarrow> u32 \<Rightarrow> u64 \<Rightarrow> 'a comp \<Rightarrow> mbuf \<Rightarrow> errno option \<times> 'a comp \<times> mbuf" where
  "rtp_decipher cr start ssrc ix c mb =
     with_aes c mb (\<lambda>_ (aes, mb).
       case c_mode c of
         AES_MODE_CTR \<Rightarrow>
           aes_run (aes_decr cr) (mb_pos mb) (mbuf_get_left mb) (aes_set_iv cr aes (srtp_iv_calc (c_k_s c) ssrc ix), mb)
       | AES_MODE_GCM \<Rightarrow>
           and_then
             (aes_aad_mem (aes_decr cr) start (mb_pos mb - start)
                (aes_set_iv cr aes (srtp_iv_calc_gcm (c_k_s c) ssrc ix), mb))
             (gcm_open cr))"

text \<open>In the authenticating mode the replay window is consulted after decryption.\<close>

definition gcm_replay :: "'a comp \<Rightarrow> u64 \<Rightarrow> srtp_stream \<Rightarrow> errno option \<times> srtp_stream" where
  "gcm_replay c ix strm =
     (if c_aes c \<noteq> None \<and> c_mode c = AES_MODE_GCM then
        (case srtp_replay_check (Some (ss_replay_rtp strm)) ix of
           (ok, r) \<Rightarrow> (if ok then None else Some EALREADY, strm\<lparr>ss_replay_rtp := the r\<rparr>))
      else (None, strm))"

definition srtp_decrypt :: "'a crypto \<Rightarrow> alloc \<Rightarrow> bool \<Rightarrow> 'a srtp \<Rightarrow> mbuf \<Rightarrow> errno option \<times> 'a srtp \<times> mbuf" where
  "srtp_decrypt cr al mem srtp mb =
     (let start = mb_pos mb
      in case rtp_hdr_decode rtp_header_zero mb of
           (Some err, _, mb) \<Rightarrow> (Some err, srtp, mb)
         | (None, hdr, mb) \<Rightarrow>
             (case stream_get_seq mem srtp (h_ssrc hdr) (h_seq hdr) of
                Inl err \<Rightarrow> (Some err, srtp, mb)
              | Inr (strm, srtp) \<Rightarrow>
                  if seq_diff (ss_s_l strm) (h_seq hdr) > 32768 then (Some ETIMEDOUT, srtp, mb)
                  else
                    (let strm = roc_update strm (h_seq hdr);
                         ix = srtp_get_index (ss_roc strm) (ss_s_l strm) (h_seq hdr);
                         c = sr_rtp srtp
                     in case rtp_verify cr al start ix c (strm, mb) of
                          (Some err, strm, mb) \<Rightarrow> (Some err, stream_put srtp strm, mb)
                        | (None, strm, mb) \<Rightarrow>
                            (case rtp_decipher cr start (ss_ssrc strm) ix c mb of
                               (Some err, c, mb) \<Rightarrow> (Some err, (stream_put srtp strm)\<lparr>sr_rtp := c\<rparr>, mb)
                             | (None, c, mb) \<Rightarrow>
                                 (case gcm_replay c ix strm of
                                    (Some err, strm) \<Rightarrow> (Some err, (stream_put srtp strm)\<lparr>sr_rtp := c\<rparr>, mb)
                                  | (None, strm) \<Rightarrow>
                                      (None, (stream_put srtp (s_l_update strm (h_seq hdr)))\<lparr>sr_rtp := c\<rparr>,
                                       mb\<lparr>mb_pos := start\<rparr>))))))"

section \<open>What is relied on from the libraries\<close>

text \<open>
  A cipher context has a key, which no call changes. Counter mode decrypts what was encrypted
  under the same key and vector and keeps the length; the authenticating mode does so after the
  same associated data, and accepts the tag it gave.
\<close>

definition aes_keys :: "'a crypto \<Rightarrow> ('a \<Rightarrow> 'k) \<Rightarrow> bool" where
  "aes_keys cr key \<longleftrightarrow>
     (\<forall>a iv. key (aes_set_iv cr a iv) = key a)
     \<and> (\<forall>a out x. key (snd (snd (aes_encr cr a out x))) = key a)
     \<and> (\<forall>a out x. key (snd (snd (aes_decr cr a out x))) = key a)
     \<and> (\<forall>a n. key (snd (snd (aes_get_authtag cr a n))) = key a)
     \<and> (\<forall>a t. key (snd (aes_authenticate cr a t)) = key a)"

definition ctr_inverts :: "'a crypto \<Rightarrow> ('a \<Rightarrow> 'k) \<Rightarrow> bool" where
  "ctr_inverts cr key \<longleftrightarrow>
     (\<forall>a b iv x y a'. key a = key b \<longrightarrow> aes_encr cr (aes_set_iv cr a iv) True x = (None, y, a') \<longrightarrow>
        length y = length x \<and> (\<exists>b'. aes_decr cr (aes_set_iv cr b iv) True y = (None, x, b')))"

fun feed_aad :: "('a \<Rightarrow> bool \<Rightarrow> byte list \<Rightarrow> errno option \<times> byte list \<times> 'a) \<Rightarrow> 'a \<Rightarrow> byte list list \<Rightarrow> 'a option" where
  "feed_aad f a [] = Some a"
| "feed_aad f a (h # hs) = (case f a False h of (None, _, a) \<Rightarrow> feed_aad f a hs | (Some _, _, _) \<Rightarrow> None)"

definition gcm_inverts :: "'a crypto \<Rightarrow> ('a \<Rightarrow> 'k) \<Rightarrow> bool" where
  "gcm_inverts cr key \<longleftrightarrow>
     (\<forall>a b iv hs a1 x y a2 tag a3. key a = key b \<longrightarrow>
        feed_aad (aes_encr cr) (aes_set_iv cr a iv) hs = Some a1 \<longrightarrow>
        aes_encr cr a1 True x = (None, y, a2) \<longrightarrow> aes_get_authtag cr a2 GCM_TAGLEN = (None, tag, a3) \<longrightarrow>
        length y = length x \<and> length tag = GCM_TAGLEN
        \<and> (\<exists>b1 b2 b3. feed_aad (aes_decr cr) (aes_set_iv cr b iv) hs = Some b1
             \<and> aes_decr cr b1 True y = (None, x, b2) \<and> aes_authenticate cr b2 tag = (None, b3)))"

definition hmac_length :: "'a crypto \<Rightarrow> bool" where
  "hmac_length cr \<longleftrightarrow> (\<forall>k n x t. hmac_digest cr k n x = (None, t) \<longrightarrow> length t = n)"

definition crypto_ok :: "'a crypto \<Rightarrow> ('a \<Rightarrow> 'k) \<Rightarrow> bool" where
  "crypto_ok cr key \<longleftrightarrow> aes_keys cr key \<and> ctr_inverts cr key \<and> gcm_inverts cr key \<and> hmac_length cr"

text \<open>Two components set up with the same keys.\<close>

definition same_keys :: "('a \<Rightarrow> 'k) \<Rightarrow> 'a comp \<Rightarrow> 'a comp \<Rightarrow> bool" where
  "same_keys key c d \<longleftrightarrow> map_option key (c_aes c) = map_option key (c_aes d) \<and> c_mode c = c_mode d
     \<and> c_hmac c = c_hmac d \<and> c_k_s c = c_k_s d \<and> c_tag_len c = c_tag_len d"

lemma same_keys_sym: "same_keys key c d \<Longrightarrow> same_keys key d c"
  by (auto simp: same_keys_def)

lemma same_keys_trans: "same_keys key c d \<Longrightarrow> same_keys key d e \<Longrightarrow> same_keys key c e"
  by (auto simp: same_keys_def)

section \<open>Following the index\<close>

definition ext_index :: "srtp_stream \<Rightarrow> nat" where
  "ext_index s = 65536 * unat (ss_roc s) + unat (ss_s_l s)"

text \<open>
  A receiver that is at most half the number space behind finds the number of wraps the sender
  used, and with it the index of the packet.
\<close>

lemma roc_follows:
  assumes e: "e = 65536 * R + unat sq" and R: "R < 2 ^ 31" and new: "ext_index s < e" and near: "e \<le> ext_index s + 32768"
  shows "seq_diff (ss_s_l s) sq \<le> 32768"
    and "unat (ss_roc (roc_update s sq)) = R"
    and "srtp_get_index (ss_roc (roc_update s sq)) (ss_s_l (roc_update s sq)) sq = of_nat e"
    and "ss_s_l (s_l_update (roc_update s sq) sq) = sq"
proof -
  have q: "unat sq < 65536" "unat (ss_s_l s) < 65536"
    using unsigned_less [of sq, where ?'a = nat] unsigned_less [of "ss_s_l s", where ?'a = nat] by auto
  let ?r = "unat (ss_roc s)"
  have ext: "ext_index s = 65536 * ?r + unat (ss_s_l s)" by (simp add: ext_index_def)
  have scast: "scast (of_nat R :: u32) = (of_nat R :: u64)"
  proof -
    have "sint (of_nat R :: u32) = int R"
      using sint_32_small [of "int R"] R by simp
    then show ?thesis by (simp add: scast_eq)
  qed
  have ix: "ucast sq + (of_nat R :: u64) * 65536 = of_nat e"
    using e by (simp add: of_nat_unat)
  have thr: "ss_s_l s < 32768 \<longleftrightarrow> unat (ss_s_l s) < 32768" by (simp add: word_less_nat_alt)
  have "R = ?r \<or> R = Suc ?r" using e new near ext q by linarith
  then have "seq_diff (ss_s_l s) sq \<le> 32768 \<and> unat (ss_roc (roc_update s sq)) = R
      \<and> srtp_get_index (ss_roc (roc_update s sq)) (ss_s_l (roc_update s sq)) sq = of_nat e
      \<and> ss_s_l (s_l_update (roc_update s sq) sq) = sq"
  proof
    assume same: "R = ?r"
    then have d: "unat (ss_s_l s) < unat sq" "unat sq \<le> unat (ss_s_l s) + 32768" using e new near ext by auto
    then have up: "roc_update s sq = s" by (simp add: roc_update_def seq_diff_def del: of_nat_unat)
    have sc: "scast (ss_roc s) = (of_nat R :: u64)" using scast same by (metis of_nat_unat ucast_id)
    have "srtp_get_index (ss_roc s) (ss_s_l s) sq = of_nat e"
      using d ix sc thr by (auto simp: srtp_get_index_def Let_def simp del: of_nat_unat)
    with up d same show ?thesis by (simp add: seq_diff_def s_l_update_def word_less_nat_alt del: of_nat_unat)
  next
    assume wrap: "R = Suc ?r"
    then have d: "unat sq + 32768 \<le> unat (ss_s_l s)" using e near ext by linarith
    then have up: "roc_update s sq = s\<lparr>ss_roc := ss_roc s + 1, ss_s_l := 0\<rparr>" by (simp add: roc_update_def seq_diff_def del: of_nat_unat)
    have "unat (ss_roc s + 1) = R" using wrap R by (simp add: unat_plus_if')
    moreover from this have "ss_roc s + 1 = of_nat R" by (metis of_nat_unat ucast_id)
    moreover have "sq \<noteq> 0 \<Longrightarrow> 0 < sq" using word_gt_0 by blast
    ultimately show ?thesis
      using d q ix scast up by (auto simp: seq_diff_def srtp_get_index_def s_l_update_def simp del: of_nat_unat)
  qed
  then show "seq_diff (ss_s_l s) sq \<le> 32768" "unat (ss_roc (roc_update s sq)) = R"
    "srtp_get_index (ss_roc (roc_update s sq)) (ss_s_l (roc_update s sq)) sq = of_nat e"
    "ss_s_l (s_l_update (roc_update s sq) sq) = sq"
    by auto
qed

section \<open>Sealing and opening\<close>

lemma and_then_None: "and_then r f = (None, t) \<longleftrightarrow> (\<exists>s. r = (None, s) \<and> f s = (None, t))"
  by (cases r; cases "fst r") (auto simp: and_then_def)

lemma key_kept:
  assumes "crypto_ok cr key"
  shows "key (aes_set_iv cr a iv) = key a"
    and "aes_encr cr a out x = (e, y, a') \<Longrightarrow> key a' = key a" and "aes_decr cr a out x = (e, y, a') \<Longrightarrow> key a' = key a"
    and "aes_get_authtag cr a n = (e, y, a') \<Longrightarrow> key a' = key a" and "aes_authenticate cr a t = (e, a') \<Longrightarrow> key a' = key a"
proof -
  have k: "aes_keys cr key" using assms by (simp add: crypto_ok_def)
  show "key (aes_set_iv cr a iv) = key a" using k by (simp add: aes_keys_def)
  show "aes_encr cr a out x = (e, y, a') \<Longrightarrow> key a' = key a" using k unfolding aes_keys_def by (metis snd_conv)
  show "aes_decr cr a out x = (e, y, a') \<Longrightarrow> key a' = key a" using k unfolding aes_keys_def by (metis snd_conv)
  show "aes_get_authtag cr a n = (e, y, a') \<Longrightarrow> key a' = key a" using k unfolding aes_keys_def by (metis snd_conv)
  show "aes_authenticate cr a t = (e, a') \<Longrightarrow> key a' = key a" using k unfolding aes_keys_def by (metis snd_conv)
qed

text \<open>An in-place cipher call on the bytes from the cursor to the end.\<close>

lemma aes_run_view:
  assumes v: "mbv mb (length pre) (pre @ P @ post)" and f: "f aes True P = (err, out, aes')" and "length out = length P"
  shows "\<exists>mb'. aes_run f (length pre) (length P) (aes, mb) = (err, aes', mb') \<and> mbv mb' (length pre) (pre @ out @ post)"
proof -
  have "mem_load mb (length pre) (length P) = (P, mb)" using mbv_load [OF v, of "length pre" "length P"] by simp
  moreover have "mbv (mem_store mb (length pre) out) (length pre) (pre @ out @ post)"
    using mbv_store [OF v, of "length pre" out] assms(3) splice_append [of out P pre post] by simp
  ultimately show ?thesis using f by (simp add: aes_run_def)
qed

lemma aes_aad_view:
  assumes v: "mbv mb p xs" and "q + n \<le> length xs" and f: "f aes False (take n (drop q xs)) = (err, out, aes')"
  shows "aes_aad_mem f q n (aes, mb) = (err, aes', mb)"
  using mbv_load [OF v assms(2)] f by (simp add: aes_aad_mem_def aes_aad_def)

lemma aes_run_inv:
  assumes "mbv mb (length pre) (pre @ P)" and "aes_run f (length pre) (length P) (aes, mb) = (None, aes', mb')"
  shows "\<exists>out. f aes True P = (None, out, aes') \<and> mb' = mem_store mb (length pre) out"
  using assms(2) mbv_load [OF assms(1), of "length pre" "length P"] by (auto simp: aes_run_def split: prod.splits)

lemma aes_aad_inv:
  assumes "mbv mb p xs" and "q + n \<le> length xs" and "aes_aad_mem f q n (aes, mb) = (None, aes', mb')"
  shows "mb' = mb \<and> (\<exists>out. f aes False (take n (drop q xs)) = (None, out, aes'))"
  using assms(3) mbv_load [OF assms(1,2)] by (auto simp: aes_aad_mem_def aes_aad_def split: prod.splits)

lemma same_keys_Some: "same_keys key c d \<Longrightarrow> c_aes c = Some a \<Longrightarrow> \<exists>b. c_aes d = Some b \<and> key a = key b"
  by (cases "c_aes d") (auto simp: same_keys_def)

text \<open>
  The text \<open>S\<close> behind a header \<open>hdb\<close> deciphers to \<open>P\<close> for every component with the keys of \<open>c\<close>, in any
  buffer and whatever precedes the header.
\<close>

definition opens :: "'a crypto \<Rightarrow> ('a \<Rightarrow> 'k) \<Rightarrow> u32 \<Rightarrow> u64 \<Rightarrow> 'a comp \<Rightarrow> byte list \<Rightarrow> byte list \<Rightarrow> byte list \<Rightarrow> bool" where
  "opens cr key ssrc ix c hdb S P \<longleftrightarrow>
    (\<forall>d m pre start. same_keys key c d \<longrightarrow> mbv m (length pre) (pre @ S) \<longrightarrow> start \<le> length pre \<longrightarrow> drop start pre = hdb \<longrightarrow>
       (\<exists>d' m'. rtp_decipher cr start ssrc ix d m = (None, d', m') \<and> mbv m' (length pre) (pre @ P) \<and> same_keys key d' d))"

lemma opensI:
  assumes "\<And>d m pre start. same_keys key c d \<Longrightarrow> mbv m (length pre) (pre @ S) \<Longrightarrow> start \<le> length pre \<Longrightarrow> drop start pre = hdb \<Longrightarrow>
      \<exists>d' m'. rtp_decipher cr start ssrc ix d m = (None, d', m') \<and> mbv m' (length pre) (pre @ P) \<and> same_keys key d' d"
  shows "opens cr key ssrc ix c hdb S P"
  using assms by (simp add: opens_def)

lemma opensD:
  assumes "opens cr key ssrc ix c (drop start pre) S P" and "same_keys key c d" and "mbv m (length pre) (pre @ S)" and "start \<le> length pre"
  shows "\<exists>d' m'. rtp_decipher cr start ssrc ix d m = (None, d', m') \<and> mbv m' (length pre) (pre @ P) \<and> same_keys key d' d"
  using assms by (simp add: opens_def)

lemma opens_ctr:
  assumes cr: "crypto_ok cr key" and c: "c_aes c = Some aes" "c_mode c = AES_MODE_CTR"
    and C: "aes_encr cr (aes_set_iv cr aes (srtp_iv_calc (c_k_s c) ssrc ix)) True P = (None, C, aes')"
  shows "length C = length P" and "opens cr key ssrc ix c hdb C P"
proof -
  let ?iv = "srtp_iv_calc (c_k_s c) ssrc ix"
  have inv: "length C = length P \<and> (\<exists>b'. aes_decr cr (aes_set_iv cr b ?iv) True C = (None, P, b'))" if "key aes = key b" for b
    using cr C that unfolding crypto_ok_def ctr_inverts_def by blast
  show len: "length C = length P" using inv [of aes] by simp
  show "opens cr key ssrc ix c hdb C P"
  proof (rule opensI)
    fix d :: "'a comp" and m pre start
    assume sk: "same_keys key c d" and vm: "mbv m (length pre) (pre @ C)"
    obtain b where b: "c_aes d = Some b" "key aes = key b" using same_keys_Some [OF sk c(1)] by auto
    then obtain b' where b': "aes_decr cr (aes_set_iv cr b ?iv) True C = (None, P, b')" using inv by blast
    obtain m' where m': "aes_run (aes_decr cr) (length pre) (length C) (aes_set_iv cr b ?iv, m) = (None, b', m')"
      "mbv m' (length pre) (pre @ P)"
      using aes_run_view [of m pre C "[]" "aes_decr cr" "aes_set_iv cr b ?iv" None P b'] vm b' len by auto
    have d: "c_mode d = AES_MODE_CTR" "c_k_s d = c_k_s c" using sk c(2) by (simp_all add: same_keys_def)
    have "rtp_decipher cr start ssrc ix d m = (None, d\<lparr>c_aes := Some b'\<rparr>, m')"
      using m'(1) b(1) d mbvD(2,7) [OF vm] by (simp add: rtp_decipher_def with_aes_def)
    moreover have "same_keys key (d\<lparr>c_aes := Some b'\<rparr>) d"
      using key_kept [OF cr] b' b(1) by (simp add: same_keys_def)
    ultimately show "\<exists>d' m'. rtp_decipher cr start ssrc ix d m = (None, d', m') \<and> mbv m' (length pre) (pre @ P) \<and> same_keys key d' d"
      using m'(2) by blast
  qed
qed

lemma gcm_open_view:
  assumes vm: "mbv m (length pre) (pre @ C @ T)" and len: "length P = length C" "length T = 16"
    and dec: "aes_decr cr b1 True C = (None, P, b2)" "aes_authenticate cr b2 T = (None, b3)"
  shows "\<exists>m'. gcm_open cr (b1, m) = (None, b3, m') \<and> mbv m' (length pre) (pre @ P)"
proof -
  obtain m' where m': "aes_run (aes_decr cr) (length pre) (length C) (b1, m) = (None, b2, m')"
    "mbv m' (length pre) (pre @ P @ T)"
    using aes_run_view [of m pre C T "aes_decr cr" b1 None P b2] vm dec(1) len by auto
  have "mem_load m' (length (pre @ P)) 16 = (T, m')"
    using mbv_load [OF m'(2), of "length (pre @ P)" 16] len by simp
  then have auth: "check_authtag cr (length pre + length C) (b2, m') = (None, b3, m')"
    using dec(2) len by (simp add: check_authtag_def GCM_TAGLEN_def)
  have "gcm_open cr (b1, m) = (None, b3, m'\<lparr>mb_end := length pre + length C\<rparr>)"
    using m'(1) auth mbvD(2,3,7) [OF vm] len by (simp add: gcm_open_def GCM_TAGLEN_def and_then_def)
  moreover have "mbv (m'\<lparr>mb_end := length pre + length C\<rparr>) (length pre) (pre @ P)"
    using mbv_set_end [OF m'(2), of "length pre + length C"] len by simp
  ultimately show ?thesis by blast
qed

lemma opens_gcm:
  assumes cr: "crypto_ok cr key" and c: "c_aes c = Some aes" "c_mode c = AES_MODE_GCM"
    and A1: "aes_encr cr (aes_set_iv cr aes (srtp_iv_calc_gcm (c_k_s c) ssrc ix)) False hdb = (None, o1, a1)"
    and C: "aes_encr cr a1 True P = (None, C, a2)" and T: "aes_get_authtag cr a2 GCM_TAGLEN = (None, T, a3)"
  shows "length C = length P" and "length T = 16" and "opens cr key ssrc ix c hdb (C @ T) P"
proof -
  let ?iv = "srtp_iv_calc_gcm (c_k_s c) ssrc ix"
  have "feed_aad (aes_encr cr) (aes_set_iv cr aes ?iv) [hdb] = Some a1" using A1 by simp
  then have inv: "length C = length P \<and> length T = 16 \<and> (\<exists>b1 b2 b3. feed_aad (aes_decr cr) (aes_set_iv cr b ?iv) [hdb] = Some b1
      \<and> aes_decr cr b1 True C = (None, P, b2) \<and> aes_authenticate cr b2 T = (None, b3))" if "key aes = key b" for b
    using cr C T that unfolding crypto_ok_def gcm_inverts_def GCM_TAGLEN_def by blast
  show len: "length C = length P" "length T = 16" using inv [of aes] by auto
  show "opens cr key ssrc ix c hdb (C @ T) P"
  proof (rule opensI)
    fix d :: "'a comp" and m pre start
    assume sk: "same_keys key c d" and vm: "mbv m (length pre) (pre @ C @ T)" and st: "start \<le> length pre" and hdb: "drop start pre = hdb"
    obtain b where b: "c_aes d = Some b" "key aes = key b" using same_keys_Some [OF sk c(1)] by auto
    obtain o2 b1 b2 b3 where dec: "aes_decr cr (aes_set_iv cr b ?iv) False hdb = (None, o2, b1)"
      "aes_decr cr b1 True C = (None, P, b2)" "aes_authenticate cr b2 T = (None, b3)"
      using inv [OF b(2)] by (auto split: prod.splits option.splits)
    have "aes_decr cr (aes_set_iv cr b ?iv) False (take (length pre - start) (drop start (pre @ C @ T))) = (None, o2, b1)"
      using st dec(1) hdb [symmetric] by simp
    from aes_aad_view [of m _ _ start "length pre - start" "aes_decr cr", OF vm _ this] have aad: "aes_aad_mem (aes_decr cr) start (length pre - start) (aes_set_iv cr b ?iv, m) = (None, b1, m)"
      using st by simp
    obtain m' where m': "gcm_open cr (b1, m) = (None, b3, m')" "mbv m' (length pre) (pre @ P)"
      using gcm_open_view [OF vm len(1) [symmetric] len(2) dec(2,3)] by auto
    have d: "c_mode d = AES_MODE_GCM" "c_k_s d = c_k_s c" using sk c(2) by (simp_all add: same_keys_def)
    then have "rtp_decipher cr start ssrc ix d m = (None, d\<lparr>c_aes := Some b3\<rparr>, m')"
      using m'(1) aad b(1) mbvD(2) [OF vm] by (simp add: rtp_decipher_def with_aes_def and_then_def)
    moreover have "same_keys key (d\<lparr>c_aes := Some b3\<rparr>) d"
      using b(1) key_kept(5) [OF cr dec(3)] key_kept(3) [OF cr dec(2)] key_kept(3) [OF cr dec(1)] key_kept(1) [OF cr]
      by (simp add: same_keys_def)
    ultimately show "\<exists>d' m'. rtp_decipher cr start ssrc ix d m = (None, d', m') \<and> mbv m' (length pre) (pre @ P) \<and> same_keys key d' d"
      using m'(2) by blast
  qed
qed

lemma encipher_ctr:
  assumes cr: "crypto_ok cr key" and v: "mbv mb (length pre) (pre @ P)" and c: "c_aes c = Some aes" "c_mode c = AES_MODE_CTR"
    and enc: "rtp_encipher cr al start ssrc ix (c, mb) = (None, c', mb')"
  shows "\<exists>S q. mbv mb' q (pre @ S) \<and> length S \<le> length P + 16 \<and> same_keys key c' c \<and> opens cr key ssrc ix c (drop start pre) S P"
proof -
  let ?iv = "srtp_iv_calc (c_k_s c) ssrc ix"
  obtain aes' where run: "aes_run (aes_encr cr) (length pre) (length P) (aes_set_iv cr aes ?iv, mb) = (None, aes', mb')"
    and c': "c' = c\<lparr>c_aes := Some aes'\<rparr>"
    using enc c mbvD(2,7) [OF v] by (auto simp: rtp_encipher_def with_aes_def split: prod.splits)
  then obtain C where C: "aes_encr cr (aes_set_iv cr aes ?iv) True P = (None, C, aes')"
    using aes_run_inv [OF v run] by auto
  note o = opens_ctr [OF cr c C]
  have "mbv mb' (length pre) (pre @ C)" using aes_run_view [of mb pre P "[]" "aes_encr cr", OF _ C] v o(1) run by simp
  moreover have "same_keys key c' c" using c c' key_kept [OF cr] C by (simp add: same_keys_def)
  ultimately show ?thesis using o by (intro exI [of _ C] exI [of _ "length pre"]) auto
qed

lemma encipher_gcm:
  assumes cr: "crypto_ok cr key" and v: "mbv mb (length pre) (pre @ P)" and st: "start \<le> length pre"
    and room: "length pre + length P + 16 < size_mod" and c: "c_aes c = Some aes" "c_mode c = AES_MODE_GCM"
    and enc: "rtp_encipher cr al start ssrc ix (c, mb) = (None, c', mb')"
  shows "\<exists>S q. mbv mb' q (pre @ S) \<and> length S \<le> length P + 16 \<and> same_keys key c' c \<and> opens cr key ssrc ix c (drop start pre) S P"
proof -
  let ?iv = "srtp_iv_calc_gcm (c_k_s c) ssrc ix" and ?h = "drop start pre"
  obtain a1 m1 a2 m2 a3 where
    aad: "aes_aad_mem (aes_encr cr) start (length pre - start) (aes_set_iv cr aes ?iv, mb) = (None, a1, m1)"
    and run: "aes_run (aes_encr cr) (length pre) (length P) (a1, m1) = (None, a2, m2)"
    and tag: "put_authtag cr al (a2, m2) = (None, a3, mb')" and c': "c' = c\<lparr>c_aes := Some a3\<rparr>"
    using enc c mbvD(2,7) [OF v] by (auto simp: rtp_encipher_def with_aes_def and_then_None split: prod.splits)
  have "start + (length pre - start) \<le> length (pre @ P)" using st by simp
  then obtain o1 where m1: "m1 = mb" and A1: "aes_encr cr (aes_set_iv cr aes ?iv) False ?h = (None, o1, a1)"
    using aes_aad_inv [OF v _ aad] st by auto
  obtain C where C: "aes_encr cr a1 True P = (None, C, a2)" using aes_run_inv [OF v run [unfolded m1]] by auto
  obtain T where T: "aes_get_authtag cr a2 GCM_TAGLEN = (None, T, a3)"
    and wr: "put al (m2\<lparr>mb_pos := mb_end m2\<rparr>) T = (None, mb')"
    using tag by (auto simp: put_authtag_def and_then_def split: prod.splits option.splits)
  note o = opens_gcm [OF cr c A1 C T]
  have m2: "mbv m2 (length pre) (pre @ C)" using aes_run_view [of mb pre P "[]" "aes_encr cr", OF _ C] v o(1) run m1 by simp
  have "mbv (m2\<lparr>mb_pos := mb_end m2\<rparr>) (length (pre @ C)) (pre @ C)"
    using mbv_set_pos [OF m2, of "length (pre @ C)"] mbvD(3) [OF m2] by simp
  from mbv_writes [OF writes_prims(1) this _ wr] have "mbv mb' (length (pre @ C) + 16) (pre @ C @ T)"
    using o(1,2) room by simp
  moreover have "same_keys key c' c"
    using c c' key_kept(4) [OF cr T] key_kept(2) [OF cr C] key_kept(2) [OF cr A1] key_kept(1) [OF cr]
    by (simp add: same_keys_def)
  ultimately show ?thesis using o by (intro exI [of _ "C @ T"] exI [of _ "length (pre @ C) + 16"]) auto
qed

text \<open>What encipherment leaves can be deciphered by a component with the same keys.\<close>

lemma encipher_decipher:
  assumes cr: "crypto_ok cr key" and v: "mbv mb (length pre) (pre @ P)" and st: "start \<le> length pre"
    and room: "length pre + length P + 16 < size_mod"
    and enc: "rtp_encipher cr al start ssrc ix (c, mb) = (None, c', mb')"
  shows "\<exists>S q. mbv mb' q (pre @ S) \<and> length S \<le> length P + 16 \<and> same_keys key c' c \<and> opens cr key ssrc ix c (drop start pre) S P"
proof (cases "c_aes c")
  case None
  have "mb' = mb" "c' = c" using enc None by (simp_all add: rtp_encipher_def with_aes_def)
  moreover have "opens cr key ssrc ix c (drop start pre) P P"
    using None by (auto simp: opens_def rtp_decipher_def with_aes_def same_keys_def)
  ultimately show ?thesis using v by (intro exI [of _ P] exI [of _ "length pre"]) (auto simp: same_keys_def)
next
  case (Some aes)
  then show ?thesis
    using encipher_ctr [OF cr v Some _ enc] encipher_gcm [OF cr v st room Some _ enc] by (cases "c_mode c") simp_all
qed

lemma sign_verify:
  assumes cr: "crypto_ok cr key" and v: "mbv mb q xs" and st: "start \<le> length xs" and room: "length xs + 20 < size_mod"
    and tl: "c_tag_len c \<le> 20" and sign: "rtp_sign cr al start roc (c, mb) = (None, c', mb')"
  shows "c' = c \<and> (\<exists>T q'. mbv mb' q' (xs @ T) \<and> length T \<le> 20 \<and>
    (\<forall>m p ys start' strm al' ix. mbv m p (ys @ T) \<longrightarrow> p \<le> length ys \<longrightarrow> start' \<le> p \<longrightarrow> drop start' ys = drop start xs \<longrightarrow>
       ss_roc strm = roc \<longrightarrow> (c_hmac c \<noteq> None \<longrightarrow> 4 \<le> c_tag_len c) \<longrightarrow>
       (\<exists>m'. mbv m' p ys \<and> rtp_verify cr al' start' ix c (strm, m) =
          (if c_hmac c = None then (None, strm, m')
           else (case srtp_replay_check (Some (ss_replay_rtp strm)) ix of
                   (ok, r) \<Rightarrow> (if ok then None else Some EALREADY, strm\<lparr>ss_replay_rtp := the r\<rparr>, m'))))))"
proof (cases "c_hmac c")
  case None
  then have "c' = c" "mb' = mb" using sign by (simp_all add: rtp_sign_def)
  with None v show ?thesis
    by (auto simp: rtp_verify_def intro!: exI [of _ "[]"] exI [of _ q])
next
  case (Some k)
  let ?n = "length xs"
  have end_: "mb_end mb = ?n" using mbvD(3) [OF v] .
  obtain m1 where w1: "mbuf_write_u32 al (mb\<lparr>mb_pos := ?n\<rparr>) (htonl roc) = (None, m1)"
    using sign Some end_ by (auto simp: rtp_sign_def Let_def split: prod.splits option.splits)
  have v1: "mbv m1 (?n + 4) (xs @ be32 roc)"
    using mbv_writes [OF writes_prims(4) mbv_set_pos [OF v order_refl] _ w1] room by simp
  then have v2: "mbv (m1\<lparr>mb_pos := start\<rparr>) start (xs @ be32 roc)" using mbv_set_pos [OF v1, of start] st by simp
  have dat: "mb_after (m1\<lparr>mb_pos := start\<rparr>) = drop start xs @ be32 roc" using mbvD(5) [OF v2] st by simp
  obtain tag where hm: "hmac_digest cr k SHA_DIGEST_LENGTH (drop start xs @ be32 roc) = (None, tag)"
    and w2: "put al (m1\<lparr>mb_pos := ?n, mb_end := ?n\<rparr>) (take (c_tag_len c) tag) = (None, mb')" and c': "c' = c"
    using sign Some end_ w1 dat by (auto simp: rtp_sign_def Let_def split: prod.splits option.splits)
  let ?T = "take (c_tag_len c) tag"
  have "length tag = 20" using cr hm by (auto simp: crypto_ok_def hmac_length_def SHA_DIGEST_LENGTH_def)
  then have len: "length ?T = c_tag_len c" using tl by simp
  have "mbv (m1\<lparr>mb_pos := ?n, mb_end := ?n\<rparr>) ?n xs" using mbv_set_posend [OF v1, of ?n ?n] by simp
  from mbv_writes [OF writes_prims(1) this _ w2] have "mbv mb' (?n + length ?T) (xs @ ?T)" using room len tl by simp
  moreover have "\<exists>m'. mbv m' p ys \<and> rtp_verify cr al' start' ix c (strm, m) =
      (case srtp_replay_check (Some (ss_replay_rtp strm)) ix of
         (ok, r) \<Rightarrow> (if ok then None else Some EALREADY, strm\<lparr>ss_replay_rtp := the r\<rparr>, m'))"
    if vm: "mbv m p (ys @ ?T)" and p: "p \<le> length ys" "start' \<le> p" and d: "drop start' ys = drop start xs"
      and roc: "ss_roc strm = roc" and four: "4 \<le> c_tag_len c" for m p ys start' strm al' ix
  proof -
    let ?t = "length ys"
    have bounds: "\<not> mbuf_get_left m < c_tag_len c" "mb_end m - c_tag_len c = ?t" "mb_pos m = p"
      using mbvD(2,3,7) [OF vm] len p by simp_all
    have vt: "mbv (m\<lparr>mb_pos := ?t\<rparr>) ?t (ys @ ?T)" using mbv_set_pos [OF vm, of ?t] by simp
    have rd: "mbuf_read_mem (m\<lparr>mb_pos := ?t\<rparr>) (c_tag_len c) = (None, ?T, mb_adv (m\<lparr>mb_pos := ?t\<rparr>) (c_tag_len c))"
      using mbv_read_mem [OF vt, of "c_tag_len c"] len by simp
    let ?m0 = "(mb_adv (m\<lparr>mb_pos := ?t\<rparr>) (c_tag_len c))\<lparr>mb_pos := ?t, mb_end := ?t\<rparr>"
    have v0: "mbv ?m0 ?t ys" using mbv_set_posend [OF mbv_adv [OF vt, of "c_tag_len c"], of ?t ?t] len by simp
    have size: "?t + 4 \<le> mb_size ?m0" using mbvD(1,3) [OF vm] len four by (simp add: mbuf_ok_def mb_adv_def)
    obtain e m1' where w: "mbuf_write_u32 al' ?m0 (htonl roc) = (e, m1')" by (cases "mbuf_write_u32 al' ?m0 (htonl roc)")
    moreover have "fst (mbuf_write_u32 al' ?m0 (htonl roc)) = None"
      by (rule inplaceD [OF inplace_prims(3)]) (use mbvD(1,2) [OF v0] size in simp_all)
    ultimately have w: "mbuf_write_u32 al' ?m0 (htonl roc) = (None, m1')" by simp
    have "length (ys @ ?T) < size_mod" using mbvD(8) [OF vm] .
    then have v1: "mbv m1' (?t + 4) (ys @ be32 roc)"
      using mbv_writes [OF writes_prims(4) v0 _ w] len four by simp
    have v2: "mbv (m1'\<lparr>mb_pos := start'\<rparr>) start' (ys @ be32 roc)" using mbv_set_pos [OF v1, of start'] p by simp
    have dat: "mb_after (m1'\<lparr>mb_pos := start'\<rparr>) = drop start xs @ be32 roc" using mbvD(5) [OF v2] p d by simp
    let ?m' = "m1'\<lparr>mb_pos := p, mb_end := ?t\<rparr>"
    have "mbv ?m' p ys" using mbv_set_posend [OF v1, of p ?t] p by simp
    moreover have "rtp_verify cr al' start' ix c (strm, m) = (case srtp_replay_check (Some (ss_replay_rtp strm)) ix of
        (ok, r) \<Rightarrow> (if ok then None else Some EALREADY, strm\<lparr>ss_replay_rtp := the r\<rparr>, ?m'))"
      using Some bounds rd w dat hm roc p by (simp add: rtp_verify_def Let_def del: srtp_replay_check.simps)
    ultimately show ?thesis by blast
  qed
  ultimately show ?thesis using c' Some len tl by (intro conjI exI [of _ ?T] exI [of _ "?n + length ?T"]) auto
qed

section \<open>Streams\<close>

lemma stream_find_Some: "stream_find srtp ssrc = Some s \<Longrightarrow> ss_ssrc s = ssrc \<and> s \<in> set (sr_streaml srtp)"
  by (auto simp: stream_find_def find_Some_iff)

lemma stream_find_put:
  assumes "\<exists>s. stream_find srtp (ss_ssrc strm) = Some s"
  shows "stream_find (stream_put srtp strm) ssrc = (if ssrc = ss_ssrc strm then Some strm else stream_find srtp ssrc)"
proof -
  have "find (\<lambda>s. ss_ssrc s = ssrc) (map (\<lambda>s. if ss_ssrc s = ss_ssrc strm then strm else s) xs)
      = (if ssrc = ss_ssrc strm \<and> find (\<lambda>s. ss_ssrc s = ssrc) xs \<noteq> None then Some strm
         else find (\<lambda>s. ss_ssrc s = ssrc) xs)" for xs
    by (induction xs) auto
  with assms show ?thesis by (auto simp: stream_find_def stream_put_def)
qed

lemma stream_put_rtp [simp]: "sr_rtp (stream_put srtp strm) = sr_rtp srtp" "sr_rtcp (stream_put srtp strm) = sr_rtcp srtp"
  by (simp_all add: stream_put_def)

lemma stream_get_found:
  assumes "stream_get mem srtp ssrc = Inr (strm, srtp')"
  shows "stream_find srtp' ssrc = Some strm" and "ss_ssrc strm = ssrc" and "sr_rtp srtp' = sr_rtp srtp"
    and "sr_rtcp srtp' = sr_rtcp srtp" and "strm = (case stream_find srtp ssrc of Some s \<Rightarrow> s | None \<Rightarrow> stream_zero ssrc)"
  using assms stream_find_Some [of srtp ssrc]
  by (auto simp: stream_get_def stream_new_def stream_find_def stream_zero_def find_append split: option.splits if_splits)

text \<open>The stream the packet functions work on, before the wraps are counted.\<close>

definition cur_stream :: "'a srtp \<Rightarrow> u32 \<Rightarrow> u16 \<Rightarrow> srtp_stream" where
  "cur_stream srtp ssrc sq =
     (let s = (case stream_find srtp ssrc of Some s \<Rightarrow> s | None \<Rightarrow> stream_zero ssrc)
      in if ss_s_l_set s then s else s\<lparr>ss_s_l := sq, ss_s_l_set := True\<rparr>)"

lemma stream_get_seq_found:
  assumes "stream_get_seq mem srtp ssrc sq = Inr (strm, srtp')"
  shows "strm = cur_stream srtp ssrc sq" and "stream_find srtp' ssrc = Some strm" and "ss_ssrc strm = ssrc"
    and "sr_rtp srtp' = sr_rtp srtp" and "sr_rtcp srtp' = sr_rtcp srtp"
proof -
  obtain s j where g: "stream_get mem srtp ssrc = Inr (s, j)"
    using assms by (cases "stream_get mem srtp ssrc") (auto simp: stream_get_seq_def)
  note f = stream_get_found [OF g]
  show cur: "strm = cur_stream srtp ssrc sq" using assms g f(5) by (auto simp: stream_get_seq_def cur_stream_def Let_def)
  have ssrc: "ss_ssrc (if ss_s_l_set s then s else s\<lparr>ss_s_l := sq, ss_s_l_set := True\<rparr>) = ssrc" using f(2) by simp
  show "ss_ssrc strm = ssrc" "sr_rtp srtp' = sr_rtp srtp" "sr_rtcp srtp' = sr_rtcp srtp"
    using assms g f by (auto simp: stream_get_seq_def Let_def)
  show "stream_find srtp' ssrc = Some strm"
    using assms g f stream_find_put [of j strm ssrc] ssrc by (auto simp: stream_get_seq_def Let_def split: if_splits)
qed

text \<open>The index a sender gives the next packet, and the receivers that will take it.\<close>

definition send_index :: "'a srtp \<Rightarrow> u32 \<Rightarrow> u16 \<Rightarrow> nat" where
  "send_index srtp ssrc sq = 65536 * unat (ss_roc (roc_update (cur_stream srtp ssrc sq) sq)) + unat sq"

definition ready_for :: "'a srtp \<Rightarrow> u32 \<Rightarrow> nat \<Rightarrow> bool" where
  "ready_for srtp ssrc e \<longleftrightarrow>
     (case stream_find srtp ssrc of
        Some s \<Rightarrow> ss_s_l_set s \<and> unat (lix (ss_replay_rtp s)) \<le> ext_index s
                  \<and> ext_index s < e \<and> e \<le> ext_index s + 32768
      | None \<Rightarrow> e < 65536 \<and> length (sr_streaml srtp) < SRTP_MAX_STREAMS)"

lemma roc_update_frame [simp]:
  "ss_ssrc (roc_update s sq) = ss_ssrc s" "ss_replay_rtp (roc_update s sq) = ss_replay_rtp s"
  "ss_s_l_set (roc_update s sq) = ss_s_l_set s"
  by (simp_all add: roc_update_def)

lemma s_l_update_frame [simp]:
  "ss_ssrc (s_l_update s sq) = ss_ssrc s" "ss_replay_rtp (s_l_update s sq) = ss_replay_rtp s"
  "ss_s_l_set (s_l_update s sq) = ss_s_l_set s" "ss_roc (s_l_update s sq) = ss_roc s"
  by (simp_all add: s_l_update_def)

text \<open>A receiver that is ready finds the sender's index, and its replay window takes it.\<close>

lemma ready_index:
  assumes r: "ready_for rx ssrc e" and e: "e = 65536 * R + unat sq" and R: "R < 2 ^ 31"
  defines "s \<equiv> cur_stream rx ssrc sq"
  shows "seq_diff (ss_s_l s) sq \<le> 32768"
    and "unat (ss_roc (roc_update s sq)) = R"
    and "srtp_get_index (ss_roc (roc_update s sq)) (ss_s_l (roc_update s sq)) sq = of_nat e"
    and "ss_s_l (s_l_update (roc_update s sq) sq) = sq" and "ss_s_l_set s"
    and "\<exists>w. srtp_replay_check (Some (ss_replay_rtp s)) (of_nat e) = (True, Some w) \<and> unat (lix w) = e"
proof -
  have q: "unat sq < 65536" using unsigned_less [of sq, where ?'a = nat] by simp
  have "R \<le> 2147483647" using R by simp
  then have "e < 2 ^ 64" using e q by simp
  then have ue: "unat (of_nat e :: u64) = e" by (simp add: unat_of_nat)
  show "ss_s_l_set s" using r by (auto simp: s_def cur_stream_def Let_def)
  have "seq_diff (ss_s_l s) sq \<le> 32768 \<and> unat (ss_roc (roc_update s sq)) = R
      \<and> srtp_get_index (ss_roc (roc_update s sq)) (ss_s_l (roc_update s sq)) sq = of_nat e
      \<and> ss_s_l (s_l_update (roc_update s sq) sq) = sq
      \<and> (\<exists>w. srtp_replay_check (Some (ss_replay_rtp s)) (of_nat e) = (True, Some w) \<and> unat (lix w) = e)"
  proof (cases "stream_find rx ssrc")
    case None
    then have s: "s = (stream_zero ssrc)\<lparr>ss_s_l := sq, ss_s_l_set := True\<rparr>"
      by (simp add: s_def cur_stream_def stream_zero_def)
    have "e < 65536" using r None by (simp add: ready_for_def)
    then have R0: "R = 0" "e = unat sq" using e by auto
    have up: "roc_update s sq = s" by (simp add: s roc_update_def seq_diff_def)
    have "srtp_get_index 0 sq sq = ucast sq" by (simp add: srtp_get_index_def Let_def)
    then have "srtp_get_index 0 sq sq = of_nat e" using R0 by (simp add: of_nat_unat)
    moreover have "ss_replay_rtp s = \<lparr>bitmap = 0, lix = 0\<rparr>"
      by (simp add: s stream_zero_def srtp_replay_init_def replay0_def)
    then have "\<exists>w. srtp_replay_check (Some (ss_replay_rtp s)) (of_nat e) = (True, Some w) \<and> unat (lix w) = e"
      using ue by (cases "e = 0") (auto simp: Let_def SRTP_WINDOW_SIZE_def word_less_nat_alt)
    ultimately show ?thesis using up R0 by (simp add: s stream_zero_def seq_diff_def s_l_update_def)
  next
    case (Some x)
    with r have x: "s = x" "unat (lix (ss_replay_rtp x)) \<le> ext_index x" "ext_index x < e" "e \<le> ext_index x + 32768"
      by (auto simp: ready_for_def s_def cur_stream_def)
    have "lix (ss_replay_rtp x) < of_nat e" using x ue by (simp add: word_less_nat_alt)
    then have "\<exists>w. srtp_replay_check (Some (ss_replay_rtp s)) (of_nat e) = (True, Some w) \<and> unat (lix w) = e"
      using ue x(1) by (simp add: Let_def)
    with roc_follows [OF e R x(3,4)] x(1) show ?thesis by simp
  qed
  then show "seq_diff (ss_s_l s) sq \<le> 32768" "unat (ss_roc (roc_update s sq)) = R"
    "srtp_get_index (ss_roc (roc_update s sq)) (ss_s_l (roc_update s sq)) sq = of_nat e"
    "ss_s_l (s_l_update (roc_update s sq) sq) = sq"
    "\<exists>w. srtp_replay_check (Some (ss_replay_rtp s)) (of_nat e) = (True, Some w) \<and> unat (lix w) = e" by auto
qed

lemma ready_lix: "ready_for rx ssrc e \<Longrightarrow> unat (lix (ss_replay_rtp (cur_stream rx ssrc sq))) \<le> e"
  by (auto simp: ready_for_def cur_stream_def stream_zero_def srtp_replay_init_def replay0_def split: option.splits)

section \<open>The round trip\<close>

definition comp_ok :: "'a comp \<Rightarrow> bool" where
  "comp_ok c \<longleftrightarrow> c_tag_len c \<le> 20 \<and> (c_hmac c = None \<longrightarrow> c_tag_len c = 0) \<and> (c_hmac c \<noteq> None \<longrightarrow> 4 \<le> c_tag_len c \<and> c_mode c = AES_MODE_CTR)"

lemma comp_init_ok:
  assumes "comp_init cr offs key s tag_len enc hash mode = Inr c" and "if hash then 4 \<le> tag_len \<and> mode = AES_MODE_CTR else tag_len = 0"
  shows "comp_ok c"
  using assms
  by (auto simp: comp_init_def comp_ok_def SHA_DIGEST_LENGTH_def Let_def split: if_splits prod.splits option.splits sum.splits)

lemma srtp_alloc_ok:
  assumes "srtp_alloc cr mem suite key fl = Inr srtp"
  shows "comp_ok (sr_rtp srtp)" and "comp_ok (sr_rtcp srtp)"
  using assms
  by (cases suite; auto simp: srtp_alloc_def suite_params_def Let_def intro: comp_init_ok split: if_splits sum.splits)+

lemma verify_cong:
  assumes "c_hmac c = c_hmac d" and "c_tag_len c = c_tag_len d"
  shows "rtp_verify cr al start ix c s = rtp_verify cr al start ix d s"
  unfolding rtp_verify_def assms ..

text \<open>A packet with a plain header, as encryption and decryption see it.\<close>

lemma decode_plain:
  assumes "rtp_plain hdr" and "mbuf_ok mb" and "mb_after mb = rtp_hdr_bytes hdr @ r"
  defines "pre \<equiv> mb_before mb"
  shows "rtp_hdr_decode rtp_header_zero mb = (None, hdr, mb_adv mb (length (rtp_hdr_bytes hdr)))"
    and "mb_pos mb = length pre" and "mbv mb (length pre) (pre @ rtp_hdr_bytes hdr @ r)"
    and "mbv (mb_adv mb (length (rtp_hdr_bytes hdr))) (length (pre @ rtp_hdr_bytes hdr)) ((pre @ rtp_hdr_bytes hdr) @ r)"
proof -
  have h: "rtp_header_ok hdr" "\<not> h_ext hdr" "rtp_filled rtp_header_zero hdr = hdr" using assms(1) by (simp_all add: rtp_plain_def)
  from rtp_hdr_decode_bytes [OF h(1) assms(2,3), of rtp_header_zero] h(2,3)
  show "rtp_hdr_decode rtp_header_zero mb = (None, hdr, mb_adv mb (length (rtp_hdr_bytes hdr)))"
    by (simp add: rtp_header_zero_def)
  show p: "mb_pos mb = length pre" using assms(2) by (simp add: pre_def)
  show v: "mbv mb (length pre) (pre @ rtp_hdr_bytes hdr @ r)" using mbvI [OF assms(2)] p assms(3) by (simp add: pre_def)
  show "mbv (mb_adv mb (length (rtp_hdr_bytes hdr))) (length (pre @ rtp_hdr_bytes hdr)) ((pre @ rtp_hdr_bytes hdr) @ r)"
    using mbv_adv [OF v, of "length (rtp_hdr_bytes hdr)"] by simp
qed

lemma stream_get_seq_ready:
  assumes "ready_for rx ssrc e" and "mem"
  shows "\<exists>rx1. stream_get_seq mem rx ssrc sq = Inr (cur_stream rx ssrc sq, rx1)"
proof -
  have "\<exists>s j. stream_get mem rx ssrc = Inr (s, j)"
    using assms by (auto simp: ready_for_def stream_get_def stream_new_def split: option.splits)
  then obtain s j where "stream_get_seq mem rx ssrc sq = Inr (s, j)" by (auto simp: stream_get_seq_def Let_def)
  with stream_get_seq_found(1) [OF this] show ?thesis by auto
qed

lemma encrypt_parts:
  assumes enc: "srtp_encrypt cr al mem tx mb = (None, tx', mb')" and plain: "rtp_plain hdr" and ok: "mbuf_ok mb"
    and after: "mb_after mb = rtp_hdr_bytes hdr @ P"
  defines "n \<equiv> length (rtp_hdr_bytes hdr)" and "strm \<equiv> roc_update (cur_stream tx (h_ssrc hdr) (h_seq hdr)) (h_seq hdr)"
  obtains c1 m1 m2 where
    "rtp_encipher cr al (mb_pos mb) (h_ssrc hdr) (of_nat (send_index tx (h_ssrc hdr) (h_seq hdr))) (sr_rtp tx, mb_adv mb n) = (None, c1, m1)"
    "rtp_sign cr al (mb_pos mb) (ss_roc strm) (c1, m1) = (None, sr_rtp tx', m2)" "mb' = m2\<lparr>mb_pos := mb_pos mb\<rparr>"
proof -
  obtain s tx1 where g: "stream_get_seq mem tx (h_ssrc hdr) (h_seq hdr) = Inr (s, tx1)"
    using enc decode_plain(1) [OF plain ok after]
    by (cases "stream_get_seq mem tx (h_ssrc hdr) (h_seq hdr)") (auto simp: srtp_encrypt_def Let_def)
  note f = stream_get_seq_found [OF g]
  have ix: "of_nat (send_index tx (h_ssrc hdr) (h_seq hdr)) = 65536 * ucast (ss_roc strm) + (ucast (h_seq hdr) :: u64)"
    by (simp add: send_index_def strm_def of_nat_unat)
  have strm: "roc_update s (h_seq hdr) = strm" "ss_ssrc strm = h_ssrc hdr" using f(1,3) by (simp_all add: strm_def)
  from enc decode_plain(1) [OF plain ok after] g strm f(4) ix show thesis
    by (auto simp: srtp_encrypt_def Let_def and_then_def n_def split: prod.splits option.splits intro: that)
qed

lemma srtp_open_sealed:
  assumes cr: "crypto_ok cr key" and keys: "same_keys key (sr_rtp tx) (sr_rtp rx)" and cok: "comp_ok (sr_rtp tx)"
    and plain: "rtp_plain hdr" and ok: "mbuf_ok mb" and after: "mb_after mb = rtp_hdr_bytes hdr @ P"
    and room: "mb_end mb + 40 < size_mod"
    and enc: "srtp_encrypt cr al mem tx mb = (None, tx', mb')"
    and rok: "mbuf_ok rmb" and dgram: "mb_after rmb = mb_after mb'"
    and e: "e = send_index tx (h_ssrc hdr) (h_seq hdr)" "e < 2 ^ 47" and ready: "ready_for rx (h_ssrc hdr) e"
  shows "\<exists>rx' rmb'. srtp_decrypt cr al' True rx rmb = (None, rx', rmb') \<and> mbuf_ok rmb'
    \<and> mb_after rmb' = rtp_hdr_bytes hdr @ P \<and> same_keys key (sr_rtp tx') (sr_rtp rx')
    \<and> (\<forall>e'. e < e' \<longrightarrow> e' \<le> e + 32768 \<longrightarrow> ready_for rx' (h_ssrc hdr) e')"
proof -
  let ?H = "rtp_hdr_bytes hdr" and ?ssrc = "h_ssrc hdr" and ?sq = "h_seq hdr"
  let ?n = "length ?H"
  let ?st = "roc_update (cur_stream tx ?ssrc ?sq) ?sq"
  define pre where "pre = mb_before mb"
  note d = decode_plain [OF plain ok after, folded pre_def]
  obtain c1 m1 m2 where p1: "rtp_encipher cr al (mb_pos mb) ?ssrc (of_nat e) (sr_rtp tx, mb_adv mb ?n) = (None, c1, m1)"
    and p2: "rtp_sign cr al (mb_pos mb) (ss_roc ?st) (c1, m1) = (None, sr_rtp tx', m2)" and mb': "mb' = m2\<lparr>mb_pos := mb_pos mb\<rparr>"
    unfolding e(1) by (rule encrypt_parts [OF enc plain ok after])
  have size: "length pre + ?n + length P + 40 < size_mod" using room mbvD(3) [OF d(3)] by simp
  obtain S q where v1: "mbv m1 q ((pre @ ?H) @ S)" and S: "length S \<le> length P + 16" and k1: "same_keys key c1 (sr_rtp tx)"
    and dec: "opens cr key ?ssrc (of_nat e) (sr_rtp tx) ?H S P"
    using encipher_decipher [OF cr d(4) _ _ p1] d(2) size by auto
  have ct: "c_tag_len c1 \<le> 20" "c_hmac c1 \<noteq> None \<Longrightarrow> 4 \<le> c_tag_len c1" "c_hmac c1 = c_hmac (sr_rtp rx)" "c_tag_len c1 = c_tag_len (sr_rtp rx)"
    "c_hmac c1 \<noteq> None \<Longrightarrow> c_mode (sr_rtp rx) = AES_MODE_CTR"
    using cok k1 keys by (auto simp: comp_ok_def same_keys_def)
  obtain T q' where tx'c: "sr_rtp tx' = c1" and v2: "mbv m2 q' (((pre @ ?H) @ S) @ T)"
    and ver: "\<And>m p ys start' strm ix. mbv m p (ys @ T) \<Longrightarrow> p \<le> length ys \<Longrightarrow> start' \<le> p \<Longrightarrow>
       drop start' ys = drop (length pre) ((pre @ ?H) @ S) \<Longrightarrow> ss_roc strm = ss_roc ?st \<Longrightarrow>
       \<exists>m'. mbv m' p ys \<and> rtp_verify cr al' start' ix c1 (strm, m) =
          (if c_hmac c1 = None then (None, strm, m')
           else (case srtp_replay_check (Some (ss_replay_rtp strm)) ix of
                   (ok, r) \<Rightarrow> (if ok then None else Some EALREADY, strm\<lparr>ss_replay_rtp := the r\<rparr>, m')))"
    using sign_verify [OF cr v1 _ _ ct(1) p2] d(2) size S ct(2) by auto
  have "mb_after mb' = ?H @ S @ T"
    using mbvD(5) [OF mbv_set_pos [OF v2, of "length pre"]] mb' d(2) by simp
  then have rafter: "mb_after rmb = ?H @ S @ T" using dgram by simp
  define pre' where "pre' = mb_before rmb"
  note r = decode_plain [OF plain rok rafter, folded pre'_def]
  obtain rx1 where g: "stream_get_seq True rx ?ssrc ?sq = Inr (cur_stream rx ?ssrc ?sq, rx1)"
    using stream_get_seq_ready [OF ready, of True] by auto
  note f = stream_get_seq_found [OF g]
  define R where "R = unat (ss_roc ?st)"
  have eR: "e = 65536 * R + unat ?sq" using e(1) by (simp add: send_index_def R_def)
  then have R: "R < 2 ^ 31" using e(2) by simp
  let ?s = "cur_stream rx ?ssrc ?sq"
  let ?s1 = "roc_update ?s ?sq"
  note i = ready_index [OF ready eR R]
  obtain w where w: "srtp_replay_check (Some (ss_replay_rtp ?s1)) (of_nat e) = (True, Some w)" "unat (lix w) = e"
    using i(6) by auto
  have roc: "ss_roc ?s1 = ss_roc ?st" using i(2) by (simp add: R_def word_unat_eq_iff)
  obtain m3 where v3: "mbv m3 (length (pre' @ ?H)) ((pre' @ ?H) @ S)" and ver1:
    "rtp_verify cr al' (length pre') (of_nat e) c1 (?s1, mb_adv rmb ?n)
      = (None, if c_hmac c1 = None then ?s1 else ?s1\<lparr>ss_replay_rtp := w\<rparr>, m3)"
    using ver [of "mb_adv rmb ?n" "length (pre' @ ?H)" "(pre' @ ?H) @ S" "length pre'" ?s1 "of_nat e"] r(4) roc w(1)
    by (auto simp del: srtp_replay_check.simps)
  let ?s2 = "if c_hmac c1 = None then ?s1 else ?s1\<lparr>ss_replay_rtp := w\<rparr>"
  obtain d' m4 where dec1: "rtp_decipher cr (length pre') ?ssrc (of_nat e) (sr_rtp rx) m3 = (None, d', m4)"
    and v4: "mbv m4 (length (pre' @ ?H)) ((pre' @ ?H) @ P)" and kd: "same_keys key d' (sr_rtp rx)"
    using opensD [of cr key ?ssrc "of_nat e" _ "length pre'" "pre' @ ?H" S P, OF _ keys v3] dec by auto
  obtain s3 where rep: "gcm_replay d' (of_nat e) ?s2 = (None, s3)"
    and s3: "ss_ssrc s3 = ?ssrc" "ss_roc s3 = ss_roc ?s1" "ss_s_l s3 = ss_s_l ?s1" "ss_s_l_set s3"
      "unat (lix (ss_replay_rtp s3)) \<le> e"
  proof -
    have "ss_ssrc ?s1 = ?ssrc" "ss_s_l_set ?s1" "unat (lix (ss_replay_rtp ?s1)) \<le> e"
      using f(3) i(5) ready_lix [OF ready] by simp_all
    moreover have "c_mode d' = AES_MODE_GCM \<Longrightarrow> c_hmac c1 = None" using ct(5) kd by (cases "c_hmac c1") (auto simp: same_keys_def)
    ultimately show thesis
      using w that by (cases "c_mode d'"; cases "c_hmac c1"; cases "c_aes d'") (auto simp: gcm_replay_def simp del: srtp_replay_check.simps)
  qed
  have "srtp_decrypt cr al' True rx rmb = (None, (stream_put rx1 (s_l_update s3 ?sq))\<lparr>sr_rtp := d'\<rparr>, m4\<lparr>mb_pos := length pre'\<rparr>)"
    using r(1,2) g i(1,3) ver1 dec1 rep f(3,4) verify_cong [OF ct(3,4)]
    by (cases "c_hmac c1") (simp_all add: srtp_decrypt_def Let_def del: srtp_replay_check.simps)
  moreover have "mbv (m4\<lparr>mb_pos := length pre'\<rparr>) (length pre') (pre' @ ?H @ P)"
    using mbv_set_pos [OF v4, of "length pre'"] by simp
  moreover have "same_keys key (sr_rtp tx') d'"
    using k1 keys kd tx'c same_keys_trans same_keys_sym by blast
  moreover have "ready_for ((stream_put rx1 (s_l_update s3 ?sq))\<lparr>sr_rtp := d'\<rparr>) ?ssrc e'" if "e < e'" "e' \<le> e + 32768" for e'
  proof -
    have "ext_index (s_l_update s3 ?sq) = e"
      using s3(2,3) i(2,4) eR by (auto simp: ext_index_def s_l_update_def split: if_splits)
    moreover have "stream_find (stream_put rx1 (s_l_update s3 ?sq)) ?ssrc = Some (s_l_update s3 ?sq)"
      using stream_find_put [of rx1 "s_l_update s3 ?sq"] f(2) s3(1) by simp
    ultimately show ?thesis using s3(4,5) that by (simp add: ready_for_def stream_find_def)
  qed
  ultimately show ?thesis using mbvD(1,5) [OF \<open>mbv (m4\<lparr>mb_pos := length pre'\<rparr>) (length pre') (pre' @ ?H @ P)\<close>] by auto
qed

section \<open>A session\<close>

text \<open>Run an operation on the packets in turn, until one fails.\<close>

primrec each_packet :: "('s \<Rightarrow> mbuf \<Rightarrow> errno option \<times> 's \<times> mbuf) \<Rightarrow> 's \<Rightarrow> mbuf list \<Rightarrow> mbuf list option" where
  "each_packet f s [] = Some []"
| "each_packet f s (m # ms) =
     (case f s m of
        (Some _, _, _) \<Rightarrow> None
      | (None, s, m) \<Rightarrow> map_option ((#) m) (each_packet f s ms))"

text \<open>Packets of one source with a plain header, numbered in turn.\<close>

definition rtp_packet :: "u32 \<Rightarrow> u16 \<Rightarrow> mbuf \<Rightarrow> bool" where
  "rtp_packet ssrc sq mb \<longleftrightarrow> mbuf_ok mb \<and> mb_end mb + 40 < size_mod
     \<and> (\<exists>hdr P. rtp_plain hdr \<and> h_ssrc hdr = ssrc \<and> h_seq hdr = sq \<and> mb_after mb = rtp_hdr_bytes hdr @ P)"

primrec numbered :: "u32 \<Rightarrow> u16 \<Rightarrow> mbuf list \<Rightarrow> bool" where
  "numbered ssrc sq [] \<longleftrightarrow> True"
| "numbered ssrc sq (m # ms) \<longleftrightarrow> rtp_packet ssrc sq m \<and> numbered ssrc (sq + 1) ms"

text \<open>
  The packets of a list that are not lost; and the losses a receiver can follow: the index of a
  packet that arrives is at most \<open>hi\<close>, which is half the number space after the last one that did.
\<close>

definition arrived :: "bool list \<Rightarrow> 'b list \<Rightarrow> 'b list" where
  "arrived lost xs = map snd (filter (\<lambda>(l, x). \<not> l) (zip lost xs))"

primrec losses_ok :: "nat \<Rightarrow> nat \<Rightarrow> bool list \<Rightarrow> bool" where
  "losses_ok hi e [] \<longleftrightarrow> True"
| "losses_ok hi e (l # ls) \<longleftrightarrow> (if l then losses_ok hi (e + 1) ls else e \<le> hi \<and> losses_ok (e + 32768) (e + 1) ls)"

lemma arrived_simps [simp]:
  "arrived [] xs = []" "arrived (l # ls) (x # xs) = (if l then arrived ls xs else x # arrived ls xs)"
  by (simp_all add: arrived_def)

definition in_turn :: "'a srtp \<Rightarrow> u32 \<Rightarrow> u16 \<Rightarrow> bool" where
  "in_turn tx ssrc sq \<longleftrightarrow> (case stream_find tx ssrc of None \<Rightarrow> True | Some s \<Rightarrow> ss_s_l_set s \<and> ss_s_l s + 1 = sq)"

lemma encrypt_stream:
  assumes enc: "srtp_encrypt cr al mem tx mb = (None, tx', mb')" and plain: "rtp_plain hdr" and ok: "mbuf_ok mb"
    and after: "mb_after mb = rtp_hdr_bytes hdr @ P"
  shows "stream_find tx' (h_ssrc hdr) = Some (s_l_update (roc_update (cur_stream tx (h_ssrc hdr) (h_seq hdr)) (h_seq hdr)) (h_seq hdr))"
proof -
  obtain s tx1 where g: "stream_get_seq mem tx (h_ssrc hdr) (h_seq hdr) = Inr (s, tx1)"
    using enc decode_plain(1) [OF plain ok after]
    by (cases "stream_get_seq mem tx (h_ssrc hdr) (h_seq hdr)") (auto simp: srtp_encrypt_def Let_def)
  note f = stream_get_seq_found [OF g]
  let ?s = "s_l_update (roc_update s (h_seq hdr)) (h_seq hdr)"
  obtain c where "tx' = (stream_put tx1 ?s)\<lparr>sr_rtp := c\<rparr>"
    using enc decode_plain(1) [OF plain ok after] g
    by (auto simp: srtp_encrypt_def Let_def split: prod.splits option.splits)
  moreover have "stream_find (stream_put tx1 ?s) (h_ssrc hdr) = Some ?s"
    using stream_find_put [of tx1 ?s] f(2,3) by simp
  ultimately show ?thesis using f(1) by (simp add: stream_find_def)
qed

lemma unat_u16_succ: "unat (x + 1 :: u16) = (if unat x = 65535 then 0 else unat x + 1)"
  using unsigned_less [of x, where ?'a = nat] by (simp add: unat_plus_if')

lemma encrypt_keys:
  assumes cr: "crypto_ok cr key" and enc: "srtp_encrypt cr al mem tx mb = (None, tx', mb')" and plain: "rtp_plain hdr" and ok: "mbuf_ok mb"
    and after: "mb_after mb = rtp_hdr_bytes hdr @ P" and room: "mb_end mb + 40 < size_mod" and cok: "comp_ok (sr_rtp tx)"
  shows "same_keys key (sr_rtp tx') (sr_rtp tx)" and "comp_ok (sr_rtp tx')" and "mbuf_ok mb'"
proof -
  note d = decode_plain [OF plain ok after]
  obtain c1 m1 m2 where p: "rtp_encipher cr al (mb_pos mb) (h_ssrc hdr) (of_nat (send_index tx (h_ssrc hdr) (h_seq hdr)))
        (sr_rtp tx, mb_adv mb (length (rtp_hdr_bytes hdr))) = (None, c1, m1)"
    "rtp_sign cr al (mb_pos mb) (ss_roc (roc_update (cur_stream tx (h_ssrc hdr) (h_seq hdr)) (h_seq hdr))) (c1, m1) = (None, sr_rtp tx', m2)"
    "mb' = m2\<lparr>mb_pos := mb_pos mb\<rparr>"
    by (rule encrypt_parts [OF enc plain ok after])
  have "length (mb_before mb) + length (rtp_hdr_bytes hdr) + length P + 40 < size_mod" using room mbvD(3) [OF d(3)] by simp
  then obtain S q where v: "mbv m1 q ((mb_before mb @ rtp_hdr_bytes hdr) @ S)" "length S \<le> length P + 16" and k: "same_keys key c1 (sr_rtp tx)"
    using encipher_decipher [OF cr d(4) _ _ p(1)] d(2) by auto
  have ct: "c_tag_len c1 \<le> 20" using k cok by (auto simp: same_keys_def comp_ok_def)
  obtain T q' where c1: "sr_rtp tx' = c1" and v2: "mbv m2 q' (((mb_before mb @ rtp_hdr_bytes hdr) @ S) @ T)"
    using sign_verify [OF cr v(1) _ _ ct p(2)] d(2) room v(2) mbvD(3) [OF d(3)] by auto
  show "mbuf_ok mb'" using mbvD(1) [OF mbv_set_pos [OF v2, of "mb_pos mb"]] p(3) d(2) by simp
  from c1 k cok show "same_keys key (sr_rtp tx') (sr_rtp tx)" "comp_ok (sr_rtp tx')" by (auto simp: same_keys_def comp_ok_def)
qed

lemma in_turn_next:
  assumes t: "in_turn tx ssrc sq" and e: "send_index tx ssrc sq = e" "e + 1 < 2 ^ 47"
    and found: "stream_find tx' ssrc = Some (s_l_update (roc_update (cur_stream tx ssrc sq) sq) sq)"
  shows "in_turn tx' ssrc (sq + 1)" and "send_index tx' ssrc (sq + 1) = e + 1"
proof -
  define s where "s = s_l_update (roc_update (cur_stream tx ssrc sq) sq) sq"
  have set: "ss_s_l_set s" by (simp add: s_def cur_stream_def Let_def)
  have sl: "ss_s_l s = sq"
  proof (cases "stream_find tx ssrc")
    case None
    then show ?thesis
      by (simp add: s_def cur_stream_def stream_zero_def s_l_update_def roc_update_def seq_diff_def)
  next
    case (Some x)
    with t have "cur_stream tx ssrc sq = x" "sq = ss_s_l x + 1" by (auto simp: in_turn_def cur_stream_def)
    moreover have "sq < ss_s_l x \<longleftrightarrow> unat (ss_s_l x) = 65535" "ss_s_l x < sq \<longleftrightarrow> unat (ss_s_l x) \<noteq> 65535"
      using unat_u16_succ [of "ss_s_l x"] \<open>sq = _\<close> by (auto simp: word_less_nat_alt)
    moreover have "unat (ss_s_l x) = 65535 \<Longrightarrow> sq = 0"
      using unat_u16_succ [of "ss_s_l x"] \<open>sq = _\<close> by (simp add: unat_eq_zero)
    ultimately show ?thesis
      using unat_u16_succ [of "ss_s_l x"]
      by (auto simp: s_def s_l_update_def roc_update_def seq_diff_def simp del: of_nat_unat)
  qed
  have roc: "65536 * unat (ss_roc s) + unat sq = e" using e(1) by (simp add: s_def send_index_def)
  show "in_turn tx' ssrc (sq + 1)" using found set sl by (simp add: in_turn_def s_def)
  have c: "cur_stream tx' ssrc (sq + 1) = s" using found set by (simp add: cur_stream_def s_def)
  have "unat (ss_roc s) + 1 < 2 ^ 32" using roc e(2) by simp
  then have "unat (ss_roc s + 1) = unat (ss_roc s) + 1" by (simp add: unat_plus_if')
  then show "send_index tx' ssrc (sq + 1) = e + 1"
    using roc sl unat_u16_succ [of sq] c
    by (auto simp: send_index_def roc_update_def seq_diff_def simp del: of_nat_unat)
qed

lemma session_step:
  assumes cr: "crypto_ok cr key" and sealed: "each_packet (srtp_encrypt cr al True) tx ms = Some cs"
    and "numbered ssrc sq ms" and "in_turn tx ssrc sq" and "send_index tx ssrc sq = e" and "e + length ms < 2 ^ 47"
    and "same_keys key (sr_rtp tx) (sr_rtp rx)" and "comp_ok (sr_rtp tx)"
    and "list_all2 (\<lambda>c r. mbuf_ok r \<and> mb_after r = mb_after c) cs rs"
    and "length lost = length ms" and "losses_ok hi e lost" and "\<forall>e'. e \<le> e' \<longrightarrow> e' \<le> hi \<longrightarrow> ready_for rx ssrc e'"
  shows "\<exists>os. each_packet (srtp_decrypt cr al' True) rx (arrived lost rs) = Some os \<and> map mb_after os = map mb_after (arrived lost ms)
    \<and> list_all mbuf_ok os"
  using assms(2-)
proof (induction ms arbitrary: tx rx sq e cs rs lost hi)
  case Nil
  then show ?case by simp
next
  case (Cons m ms)
  obtain tx' c cs' where enc: "srtp_encrypt cr al True tx m = (None, tx', c)" and cs: "cs = c # cs'"
    and rest: "each_packet (srtp_encrypt cr al True) tx' ms = Some cs'"
    using Cons.prems(1) by (auto split: prod.splits option.splits)
  obtain r rs' where rs: "rs = r # rs'" and r: "mbuf_ok r" "mb_after r = mb_after c"
    and rs': "list_all2 (\<lambda>c r. mbuf_ok r \<and> mb_after r = mb_after c) cs' rs'"
    using Cons.prems(8) cs by (auto simp: list_all2_Cons1)
  obtain l ls where lost: "lost = l # ls" "length ls = length ms" using Cons.prems(9) by (cases lost) auto
  obtain hdr P where plain: "rtp_plain hdr" and hdr: "h_ssrc hdr = ssrc" "h_seq hdr = sq" and ok: "mbuf_ok m"
    and after: "mb_after m = rtp_hdr_bytes hdr @ P" and room: "mb_end m + 40 < size_mod"
    using Cons.prems(2) by (auto simp: rtp_packet_def)
  have e: "e < 2 ^ 47" using Cons.prems(5) by simp
  note k = encrypt_keys [OF cr enc plain ok after room Cons.prems(7)]
  have turn: "in_turn tx' ssrc (sq + 1)" "send_index tx' ssrc (sq + 1) = e + 1"
    using in_turn_next [OF Cons.prems(3,4) _ encrypt_stream [OF enc plain ok after, unfolded hdr]] Cons.prems(5) by simp_all
  note IH = Cons.IH [OF rest _ turn _ _ k(2) rs' lost(2)]
  show ?case
  proof (cases l)
    case True
    then show ?thesis
      using IH [of rx hi] Cons.prems lost(1) rs same_keys_trans [OF k(1) Cons.prems(6)] by simp
  next
    case False
    obtain rx' r' where dec: "srtp_decrypt cr al' True rx r = (None, rx', r')" "mb_after r' = mb_after m" "mbuf_ok r'"
      and k': "same_keys key (sr_rtp tx') (sr_rtp rx')" and rdy: "\<forall>e'. e < e' \<longrightarrow> e' \<le> e + 32768 \<longrightarrow> ready_for rx' ssrc e'"
      using srtp_open_sealed [OF cr Cons.prems(6,7) plain ok after room enc r, of e al'] Cons.prems(4,10,11) hdr e after lost(1) False
      by auto
    then show ?thesis
      using IH [of rx' "e + 32768"] Cons.prems lost(1) rs False by (auto simp: Suc_le_eq)
  qed
qed

text \<open>
  A cipher that adds a byte computed from key and vector, and a hash that sums: enough to run the
  code on an input.
\<close>

definition xor_sum :: "byte list \<Rightarrow> byte" where "xor_sum bs = foldr (XOR) bs 0"

definition xor_crypto :: "(byte list \<times> byte list) crypto" where
  "xor_crypto =
     \<lparr>aes_alloc = (\<lambda>mode k bits iv. Inr (k, case iv of None \<Rightarrow> [] | Some v \<Rightarrow> v)),
      aes_set_iv = (\<lambda>a iv. (fst a, iv)),
      aes_encr = (\<lambda>a out x. (None, map ((XOR) (xor_sum (fst a @ snd a))) x, a)),
      aes_decr = (\<lambda>a out x. (None, map ((XOR) (xor_sum (fst a @ snd a))) x, a)),
      aes_get_authtag = (\<lambda>a n. (None, replicate n (xor_sum (fst a)), a)),
      aes_authenticate = (\<lambda>a t. (if t = replicate 16 (xor_sum (fst a)) then None else Some EAUTH, a)),
      hmac_create = Inr,
      hmac_digest = (\<lambda>k n x. (None, replicate n (xor_sum (k @ x))))\<rparr>"

lemma xor_crypto_ok: "crypto_ok xor_crypto fst"
proof -
  have "map ((XOR) b) (map ((XOR) b) x) = x" for b :: byte and x
    by (simp add: o_def flip: xor.assoc)
  moreover have "feed_aad (aes_encr xor_crypto) a hs = Some a" "feed_aad (aes_decr xor_crypto) a hs = Some a" for a hs
    by (induction hs) (simp_all add: xor_crypto_def)
  ultimately show ?thesis
    by (auto simp: crypto_ok_def aes_keys_def ctr_inverts_def gcm_inverts_def hmac_length_def xor_crypto_def GCM_TAGLEN_def)
qed

text \<open>When no library call and no allocation fails, sealing a packet succeeds.\<close>

definition crypto_total :: "'a crypto \<Rightarrow> bool" where
  "crypto_total cr \<longleftrightarrow> (\<forall>a out x. fst (aes_encr cr a out x) = None) \<and> (\<forall>a n. fst (aes_get_authtag cr a n) = None)
     \<and> (\<forall>k n x. fst (hmac_digest cr k n x) = None)"

lemma and_then_total: "fst r = None \<Longrightarrow> (\<And>s. fst (f s) = None) \<Longrightarrow> fst (and_then r f) = None"
  by (cases r) (simp add: and_then_def)

lemma put_authtag_total: "crypto_total cr \<Longrightarrow> alloc_total al \<Longrightarrow> fst (put_authtag cr al s) = None"
  using write_total by (simp add: put_authtag_def crypto_total_def and_then_def case_prod_beta)

lemma encipher_total:
  assumes "crypto_total cr" and "alloc_total al"
  shows "fst (rtp_encipher cr al start ssrc ix s) = None"
proof -
  have run: "fst (aes_run (aes_encr cr) p n t) = None" for p n t
    using assms(1) by (simp add: aes_run_def crypto_total_def case_prod_beta)
  have aad: "fst (aes_aad_mem (aes_encr cr) p n t) = None" for p n t
    using assms(1) by (simp add: aes_aad_mem_def aes_aad_def crypto_total_def case_prod_beta)
  show ?thesis
    using run and_then_total [OF and_then_total [OF aad run] put_authtag_total [OF assms]]
    by (cases s) (simp add: rtp_encipher_def with_aes_def case_prod_beta split: option.split aes_mode.split)
qed

lemma sign_total:
  assumes "crypto_total cr" and "alloc_total al"
  shows "fst (rtp_sign cr al start roc s) = None"
  using assms(1) write_total [OF assms(2)]
  by (cases s) (simp add: rtp_sign_def Let_def crypto_total_def write_be case_prod_beta split: option.split)

lemma encrypt_total:
  assumes t: "crypto_total cr" "alloc_total al" and "rtp_packet ssrc sq mb"
    and room: "stream_find tx ssrc \<noteq> None \<or> length (sr_streaml tx) < SRTP_MAX_STREAMS"
  shows "fst (srtp_encrypt cr al True tx mb) = None"
proof -
  obtain hdr P where plain: "rtp_plain hdr" and hdr: "h_ssrc hdr = ssrc" "h_seq hdr = sq" and ok: "mbuf_ok mb"
    and after: "mb_after mb = rtp_hdr_bytes hdr @ P"
    using assms(3) by (auto simp: rtp_packet_def)
  have "\<exists>s tx1. stream_get_seq True tx ssrc sq = Inr (s, tx1)"
    using room by (auto simp: stream_get_seq_def stream_get_def stream_new_def Let_def split: option.splits)
  moreover have "fst (and_then (rtp_encipher cr al st src ix c) (rtp_sign cr al st' roc)) = None" for st src ix c st' roc
    by (rule and_then_total [OF encipher_total [OF t] sign_total [OF t]])
  ultimately show ?thesis
    using decode_plain(1) [OF plain ok after] hdr
    by (auto simp: srtp_encrypt_def Let_def case_prod_beta split: option.split)
qed

lemma seal_total:
  assumes t: "crypto_total cr" "alloc_total al" and "numbered ssrc sq ms"
    and "stream_find tx ssrc \<noteq> None \<or> length (sr_streaml tx) < SRTP_MAX_STREAMS"
  shows "\<exists>cs. each_packet (srtp_encrypt cr al True) tx ms = Some cs"
  using assms(3,4)
proof (induction ms arbitrary: tx sq)
  case (Cons m ms)
  obtain tx' c where enc: "srtp_encrypt cr al True tx m = (None, tx', c)"
    using encrypt_total [OF t _ Cons.prems(2), of sq m] Cons.prems(1) by (cases "srtp_encrypt cr al True tx m") auto
  then have "stream_find tx' ssrc \<noteq> None"
    using encrypt_stream [OF enc] Cons.prems(1) by (auto simp: rtp_packet_def)
  with Cons show ?case using enc by auto
qed simp

lemma sealed_ok:
  assumes cr: "crypto_ok cr key" and "numbered ssrc sq ms" and "comp_ok (sr_rtp tx)"
    and "each_packet (srtp_encrypt cr al True) tx ms = Some cs"
  shows "list_all mbuf_ok cs"
  using assms(2-)
proof (induction ms arbitrary: tx sq cs)
  case (Cons m ms)
  then obtain tx' c cs' where enc: "srtp_encrypt cr al True tx m = (None, tx', c)" and cs: "cs = c # cs'"
    "each_packet (srtp_encrypt cr al True) tx' ms = Some cs'" by (auto split: prod.splits option.splits)
  obtain hdr P where h: "rtp_plain hdr" "mbuf_ok m" "mb_after m = rtp_hdr_bytes hdr @ P" "mb_end m + 40 < size_mod"
    using Cons.prems(1) by (auto simp: rtp_packet_def)
  show ?case using Cons encrypt_keys(2,3) [OF cr enc h] cs by auto
qed simp

lemma session_delivers:
  assumes "crypto_ok cr key" and "srtp_alloc cr True suite mk fl = Inr s0"
    and "numbered ssrc sq ms" and "unat sq + length ms < 2 ^ 47"
    and "each_packet (srtp_encrypt cr al True) s0 ms = Some cs"
    and "length lost = length ms" and "losses_ok 65535 (unat sq) lost"
    and "list_all2 (\<lambda>c r. mbuf_ok r \<and> mb_after r = mb_after c) cs rs"
  shows "\<exists>os. each_packet (srtp_decrypt cr al' True) s0 (arrived lost rs) = Some os
    \<and> map mb_after os = map mb_after (arrived lost ms) \<and> list_all mbuf_ok os"
proof -
  have nil: "sr_streaml s0 = []"
    using assms(2) by (auto simp: srtp_alloc_def Let_def split: prod.splits if_splits sum.splits)
  then have none: "stream_find s0 ssrc = None" by (simp add: stream_find_def)
  have "send_index s0 ssrc sq = unat sq"
    using none by (simp add: send_index_def cur_stream_def stream_zero_def roc_update_def seq_diff_def)
  moreover have "in_turn s0 ssrc sq" using none by (simp add: in_turn_def)
  moreover have "ready_for s0 ssrc e'" if "e' \<le> 65535" for e' using that none nil by (simp add: ready_for_def SRTP_MAX_STREAMS_def)
  moreover have "same_keys key (sr_rtp s0) (sr_rtp s0)" by (simp add: same_keys_def)
  ultimately show ?thesis
    using session_step [OF assms(1,5,3)] srtp_alloc_ok(1) [OF assms(2)] assms(4,6-8) by blast
qed

text \<open>C6:
  A sender and a receiver set up with one master key. The sender seals consecutively numbered
  packets, of which any may be lost as long as the one that arrives next is at most half the
  number space ahead (and the first is before the first wrap). Then the receiver, with its own
  count of the wraps and its replay window, accepts every packet that arrives and restores header
  and payload, over any number of wraps.
\<close>

theorem srtp_session_delivers:
  assumes "crypto_ok cr key" and "srtp_alloc cr True suite mk fl = Inr s0"
    and "numbered ssrc sq ms" and "unat sq + length ms < 2 ^ 47"
    and "each_packet (srtp_encrypt cr al True) s0 ms = Some cs"
    and "length lost = length ms" and "losses_ok 65535 (unat sq) lost"
    and "list_all2 (\<lambda>c r. mbuf_ok r \<and> mb_after r = mb_after c) cs rs"
  shows "\<exists>os. each_packet (srtp_decrypt cr al' True) s0 (arrived lost rs) = Some os
    \<and> map mb_after os = map mb_after (arrived lost ms)"
  using session_delivers [OF assms] by blast

definition demo_packet :: "u16 \<Rightarrow> mbuf" where
  "demo_packet sq = mbuf_of (rtp_hdr_bytes (rtp_mk_header False True 8 sq 160 9) @ [1, 2, 3])"

lemma demo_packet_numbered: "rtp_packet 9 sq (demo_packet sq)"
proof -
  have "rtp_plain (rtp_mk_header False True 8 sq 160 9)"
    by (simp add: rtp_plain_def rtp_header_ok_def rtp_filled_def rtp_mk_header_def rtp_header_zero_def)
  moreover have "length (rtp_hdr_bytes (rtp_mk_header False True 8 sq 160 9)) = 12"
    by (simp add: rtp_hdr_bytes_def rtp_mk_header_def rtp_header_zero_def)
  ultimately show ?thesis
    by (auto simp: rtp_packet_def demo_packet_def mbuf_of_def mbuf_ok_def size_mod_def mb_after_def mb_bytes_def
          simp flip: rtp_mk_header_def
          intro!: exI [of _ "rtp_mk_header False True 8 sq 160 9"])
      (simp_all add: rtp_mk_header_def)
qed

theorem srtp_session_delivers_witness:
  "\<exists>s0 cs os. srtp_alloc xor_crypto True SRTP_AES_CM_128_HMAC_SHA1_80 (replicate 30 7) False = Inr s0
     \<and> each_packet (srtp_encrypt xor_crypto al_zero True) s0 [demo_packet (- 1), demo_packet 0, demo_packet 1] = Some cs
     \<and> each_packet (srtp_decrypt xor_crypto al_zero True) s0 (arrived [False, True, False]  cs) = Some os
     \<and> map mb_after os = map mb_after [demo_packet (- 1), demo_packet 1]"
proof -
  let ?ms = "[demo_packet (- 1), demo_packet 0, demo_packet 1]"
  define s0 where "s0 = projr (srtp_alloc xor_crypto True SRTP_AES_CM_128_HMAC_SHA1_80 (replicate 30 7) False)"
  have a: "srtp_alloc xor_crypto True SRTP_AES_CM_128_HMAC_SHA1_80 (replicate 30 7) False = Inr s0"
    unfolding s0_def by code_simp
  have "sr_streaml s0 = []" unfolding s0_def by code_simp
  moreover have num: "numbered 9 (- 1) ?ms" using demo_packet_numbered [of "- 1"] demo_packet_numbered [of 0] demo_packet_numbered [of 1] by simp
  moreover have "crypto_total xor_crypto" "alloc_total al_zero"
    by (simp_all add: crypto_total_def xor_crypto_def alloc_total_def al_zero_def)
  ultimately obtain cs where cs: "each_packet (srtp_encrypt xor_crypto al_zero True) s0 ?ms = Some cs"
    using seal_total [of xor_crypto al_zero 9 "- 1" ?ms s0] by (auto simp: SRTP_MAX_STREAMS_def)
  have rs: "list_all2 (\<lambda>c r. mbuf_ok r \<and> mb_after r = mb_after c) cs cs"
    using sealed_ok [OF xor_crypto_ok num srtp_alloc_ok(1) [OF a] cs] by (simp add: list_all2_same list_all_iff)
  show ?thesis
    using srtp_session_delivers [OF xor_crypto_ok a num _ cs _ _ rs, of "[False, True, False]" al_zero] a cs unsigned_less [of "- 1 :: u16", where ?'a = nat] by auto
qed

section \<open>Initialisation vectors\<close>

lemma length_xor_bytes [simp]: "length (xor_bytes a b) = min (length a) (length b)"
  by (simp add: xor_bytes_def)

lemma xor_bytes_inject:
  "length b = length a \<Longrightarrow> length b' = length a \<Longrightarrow> xor_bytes a b = xor_bytes a b' \<longleftrightarrow> b = b'"
proof (induction a arbitrary: b b')
  case (Cons x a)
  have "x XOR y = x XOR z \<longleftrightarrow> y = z" for y z :: byte by (metis xor.assoc xor_self_eq xor.left_neutral)
  with Cons show ?case by (cases b; cases b') (auto simp: xor_bytes_def)
qed (simp add: xor_bytes_def)

lemma u64_low48:
  fixes ix ix' :: u64
  shows "take_bit 48 ix = take_bit 48 ix' \<longleftrightarrow> (ucast (drop_bit 16 ix) :: u32) = ucast (drop_bit 16 ix') \<and> (ucast ix :: u16) = ucast ix'"
proof -
  have "bit ix n = bit ix' n" if "(ucast (drop_bit 16 ix) :: u32) = ucast (drop_bit 16 ix')" "(ucast ix :: u16) = ucast ix'" "n < 48" for n
  proof (cases "n < 16")
    case True
    from that(2) have "bit (ucast ix :: u16) n = bit (ucast ix' :: u16) n" by simp
    with True show ?thesis by (simp add: bit_simps)
  next
    case False
    from that(1) have "bit (ucast (drop_bit 16 ix) :: u32) (n - 16) = bit (ucast (drop_bit 16 ix') :: u32) (n - 16)" by simp
    moreover have "n - 16 < 32" using that(3) by linarith
    ultimately show ?thesis using False by (simp add: bit_simps)
  qed
  moreover have "bit ix n = bit ix' n" if "take_bit 48 ix = take_bit 48 ix'" "n < 48" for n
    using that by (metis bit_take_bit_iff)
  ultimately show ?thesis
    by (intro iffI conjI bit_word_eqI) (auto simp: bit_simps)
qed

lemma u32_halves:
  fixes x y :: u32
  shows "x = y \<longleftrightarrow> (ucast (drop_bit 16 x) :: u16) = ucast (drop_bit 16 y) \<and> (ucast x :: u16) = ucast y"
proof -
  have "bit x n = bit y n" if "(ucast (drop_bit 16 x) :: u16) = ucast (drop_bit 16 y)" "(ucast x :: u16) = ucast y" "n < 32" for n
  proof (cases "n < 16")
    case True
    from that(2) have "bit (ucast x :: u16) n = bit (ucast y :: u16) n" by simp
    with True show ?thesis by (simp add: bit_simps)
  next
    case False
    from that(1) have "bit (ucast (drop_bit 16 x) :: u16) (n - 16) = bit (ucast (drop_bit 16 y) :: u16) (n - 16)" by simp
    moreover have "n - 16 < 16" using that(3) by linarith
    ultimately show ?thesis using False by (simp add: bit_simps)
  qed
  then show ?thesis by (auto intro: bit_word_eqI)
qed

lemma be_inject [simp]: "be16 x = be16 y \<longleftrightarrow> x = y" "be32 v = be32 w \<longleftrightarrow> v = w"
  by (metis word_of_be(1)) (metis word_of_be(2))

lemma low_masked: "(ucast (v AND 0xffff) :: u16) = ucast v" "(ucast (w AND 0xffff) :: u16) = ucast w" for v :: u32 and w :: u64
proof -
  have m: "(65535 :: u32) = mask 16" "(65535 :: u64) = mask 16" by (simp_all add: mask_eq_exp_minus_1)
  show "(ucast (v AND 0xffff) :: u16) = ucast v" "(ucast (w AND 0xffff) :: u16) = ucast w"
    unfolding m by (auto intro!: bit_word_eqI simp: bit_simps)
qed

lemma index_halves:
  "(ucast (drop_bit 16 (ucast (drop_bit 16 ix) :: u32)) :: u16) = ucast (drop_bit 32 ix)"
  "(ucast (ucast (drop_bit 16 ix) :: u32) :: u16) = ucast (drop_bit 16 ix)" for ix :: u64
  by (rule bit_word_eqI, auto simp: bit_simps)+

text \<open>C35:
  The initialisation vector tells packets apart: under one salt, two packets get the same vector, in
  counter mode or in the authenticating mode, exactly when they have the same source and agree in
  the 48 bits of the index.
\<close>

theorem srtp_iv_unique:
  assumes "length k_s = 16"
  shows "(srtp_iv_calc k_s ssrc ix = srtp_iv_calc k_s ssrc' ix' \<longleftrightarrow> ssrc = ssrc' \<and> take_bit 48 ix = take_bit 48 ix')
    \<and> (srtp_iv_calc_gcm k_s ssrc ix = srtp_iv_calc_gcm k_s ssrc' ix' \<longleftrightarrow> ssrc = ssrc' \<and> take_bit 48 ix = take_bit 48 ix')"
  using assms
  by (intro conjI) (auto simp: srtp_iv_calc_def srtp_iv_calc_gcm_def xor_bytes_inject u64_low48 low_masked index_halves u32_halves)

theorem srtp_iv_unique_witness:
  "srtp_iv_calc (replicate 16 5) 1 7 \<noteq> srtp_iv_calc (replicate 16 5) 1 65543
   \<and> srtp_iv_calc_gcm (replicate 16 5) 1 7 = srtp_iv_calc_gcm (replicate 16 5) 1 (2 ^ 48 + 7)"
proof -
  have "take_bit 48 (7 :: u64) \<noteq> take_bit 48 65543" "take_bit 48 (7 :: u64) = take_bit 48 (2 ^ 48 + 7)" by code_simp+
  then show ?thesis
    using srtp_iv_unique [of "replicate 16 5" 1 7 1 65543] srtp_iv_unique [of "replicate 16 5" 1 7 1 "2 ^ 48 + 7"] by simp
qed

section \<open>Replay\<close>

text \<open>The source and the index under which a datagram would be taken.\<close>

definition recv_index :: "'a srtp \<Rightarrow> mbuf \<Rightarrow> u32 \<times> u64" where
  "recv_index srtp mb =
     (case rtp_hdr_decode rtp_header_zero mb of (_, hdr, _) \<Rightarrow>
        (let s = roc_update (cur_stream srtp (h_ssrc hdr) (h_seq hdr)) (h_seq hdr)
         in (h_ssrc hdr, srtp_get_index (ss_roc s) (ss_s_l s) (h_seq hdr))))"

text \<open>What a session accepts out of any sequence of datagrams.\<close>

primrec taken :: "'a crypto \<Rightarrow> alloc \<Rightarrow> 'a srtp \<Rightarrow> (bool \<times> mbuf) list \<Rightarrow> (u32 \<times> u64) list" where
  "taken cr al srtp [] = []"
| "taken cr al srtp (d # ds) =
     (case srtp_decrypt cr al (fst d) srtp (snd d) of
        (err, srtp', _) \<Rightarrow> (if err = None then [recv_index srtp (snd d)] else []) @ taken cr al srtp' ds)"

text \<open>A component whose packets go through the replay window: any that a suite sets up.\<close>

definition guarded :: "'a comp \<Rightarrow> bool" where
  "guarded c \<longleftrightarrow> c_hmac c \<noteq> None \<or> c_aes c \<noteq> None \<and> c_mode c = AES_MODE_GCM"

text \<open>The windows of the streams have seen at least the indices taken.\<close>

definition seen :: "srtp_stream \<Rightarrow> u64 set \<Rightarrow> bool" where
  "seen s S \<longleftrightarrow> (\<exists>S'. S \<subseteq> S' \<and> replay_rel (Some (ss_replay_rtp s)) S')"

definition all_seen :: "'a srtp \<Rightarrow> (u32 \<times> u64) set \<Rightarrow> bool" where
  "all_seen srtp H \<longleftrightarrow>
     (\<forall>ssrc. case stream_find srtp ssrc of None \<Rightarrow> H `` {ssrc} = {} | Some s \<Rightarrow> seen s (H `` {ssrc}))"

lemma seen_mono: "seen s S \<Longrightarrow> T \<subseteq> S \<Longrightarrow> seen s T"
  unfolding seen_def by blast

lemma seen_frame [simp]: "seen (roc_update s sq) S = seen s S" "seen (s_l_update s sq) S = seen s S"
  by (simp_all add: seen_def)

lemma seen_check:
  assumes "seen s S" and "srtp_replay_check (Some (ss_replay_rtp s)) ix = (ok, r)"
  shows "seen (s\<lparr>ss_replay_rtp := the r\<rparr>) S" and "ok \<Longrightarrow> ix \<notin> S" and "ok \<Longrightarrow> seen (s\<lparr>ss_replay_rtp := the r\<rparr>) (insert ix S)"
proof -
  obtain S' where S': "S \<subseteq> S'" "replay_rel (Some (ss_replay_rtp s)) S'" using assms(1) by (auto simp: seen_def)
  have a: "ix \<notin> S' \<and> replay_rel r (insert ix S')" if ok using rg.accept [OF S'(2)] assms(2) that by auto
  have "replay_rel r S'" if "\<not> ok" using rg.reject [OF S'(2)] assms(2) that by auto
  with a S'(1) have "\<exists>S''. S \<subseteq> S'' \<and> replay_rel r S''" by (cases ok) (blast, blast)
  then show "seen (s\<lparr>ss_replay_rtp := the r\<rparr>) S" by (auto simp: seen_def replay_rel_def)
  show "ix \<notin> S" if ok using a [OF that] S'(1) by auto
  show "seen (s\<lparr>ss_replay_rtp := the r\<rparr>) (insert ix S)" if ok
    using a [OF that] S'(1) by (auto simp: seen_def replay_rel_def intro!: exI [of _ "insert ix S'"])
qed

lemma verify_seen:
  assumes "rtp_verify cr al start ix c (s, mb) = (err, s', mb')" and "seen s S"
  shows "seen s' S \<and> ss_ssrc s' = ss_ssrc s \<and> ss_roc s' = ss_roc s \<and> ss_s_l s' = ss_s_l s
    \<and> (err = None \<longrightarrow> c_hmac c \<noteq> None \<longrightarrow> ix \<notin> S \<and> seen s' (insert ix S))"
proof -
  obtain ok r where ck: "srtp_replay_check (Some (ss_replay_rtp s)) ix = (ok, r)" by (cases "srtp_replay_check (Some (ss_replay_rtp s)) ix")
  note c = seen_check [OF assms(2) ck]
  from assms(1) have "s' = s \<and> (err = None \<longrightarrow> c_hmac c = None)
      \<or> s' = s\<lparr>ss_replay_rtp := the r\<rparr> \<and> (err = None \<longrightarrow> ok)"
    using ck by (auto simp: rtp_verify_def Let_def simp del: srtp_replay_check.simps split: option.splits if_splits prod.splits)
  with c assms(2) show ?thesis by auto
qed

lemma gcm_replay_seen:
  assumes "gcm_replay c ix s = (err, s')" and "seen s S"
  shows "seen s' S \<and> ss_ssrc s' = ss_ssrc s \<and> (err = None \<longrightarrow> c_aes c \<noteq> None \<and> c_mode c = AES_MODE_GCM \<longrightarrow> ix \<notin> S \<and> seen s' (insert ix S))"
proof -
  obtain ok r where ck: "srtp_replay_check (Some (ss_replay_rtp s)) ix = (ok, r)" by (cases "srtp_replay_check (Some (ss_replay_rtp s)) ix")
  note c = seen_check [OF assms(2) ck]
  show ?thesis
    using assms ck c by (cases ok) (auto simp: gcm_replay_def simp del: srtp_replay_check.simps split: if_splits)
qed

lemma decipher_guarded: "rtp_decipher cr start ssrc ix c mb = (err, c', mb') \<Longrightarrow> c_hmac c' = c_hmac c \<and> c_mode c' = c_mode c \<and> (c_aes c' = None \<longleftrightarrow> c_aes c = None)"
  by (auto simp: rtp_decipher_def with_aes_def split: option.splits prod.splits)

lemma stream_find_rtp [simp]: "stream_find (srtp\<lparr>sr_rtp := c\<rparr>) ssrc = stream_find srtp ssrc"
  by (simp add: stream_find_def)

lemma all_seen_rtp [simp]: "all_seen (srtp\<lparr>sr_rtp := c\<rparr>) H = all_seen srtp H"
  by (simp add: all_seen_def)

lemma all_seenD: "all_seen srtp H \<Longrightarrow> (case stream_find srtp ssrc of None \<Rightarrow> H `` {ssrc} = {} | Some s \<Rightarrow> seen s (H `` {ssrc}))"
  by (simp add: all_seen_def)

lemma all_seen_put:
  assumes H: "all_seen srtp H" and f: "stream_find srtp (ss_ssrc s) = Some t" and s: "seen s (G `` {ss_ssrc s})"
    and same: "\<And>ssrc. ssrc \<noteq> ss_ssrc s \<Longrightarrow> G `` {ssrc} = H `` {ssrc}"
  shows "all_seen (stream_put srtp s) G"
  unfolding all_seen_def
proof
  fix ssrc
  show "case stream_find (stream_put srtp s) ssrc of None \<Rightarrow> G `` {ssrc} = {} | Some s \<Rightarrow> seen s (G `` {ssrc})"
    using all_seenD [OF H, of ssrc] s same [of ssrc] stream_find_put [of srtp s ssrc] f
    by (cases "ssrc = ss_ssrc s") (auto split: option.splits)
qed

lemma stream_get_seq_other:
  assumes "stream_get_seq mem srtp ssrc sq = Inr (strm, srtp')" and "x \<noteq> ssrc"
  shows "stream_find srtp' x = stream_find srtp x"
proof -
  obtain s j where g: "stream_get mem srtp ssrc = Inr (s, j)"
    using assms by (cases "stream_get mem srtp ssrc") (auto simp: stream_get_seq_def)
  have "stream_find j x = stream_find srtp x"
    using g assms(2) by (auto simp: stream_get_def stream_new_def stream_find_def stream_zero_def find_append split: option.splits if_splits)
  moreover have "srtp' = stream_put j strm" "ss_ssrc strm = ssrc"
    using assms(1) g stream_get_found(2) [OF g] by (auto simp: stream_get_seq_def Let_def)
  ultimately show ?thesis using stream_find_put [of j strm x] stream_get_found(1) [OF g] assms(2) by simp
qed

lemma stream_get_seq_seen:
  assumes H: "all_seen srtp H" and g: "stream_get_seq mem srtp ssrc sq = Inr (s, srtp')"
  shows "seen s (H `` {ssrc})" and "all_seen srtp' H"
proof -
  have "seen (stream_zero ssrc) {}" using replay_rel_init by (auto simp: seen_def stream_zero_def)
  then show s: "seen s (H `` {ssrc})"
    using all_seenD [OF H, of ssrc] stream_get_seq_found(1) [OF g]
    by (auto simp: cur_stream_def Let_def seen_def split: option.splits)
  show "all_seen srtp' H"
    unfolding all_seen_def
  proof
    fix x
    show "case stream_find srtp' x of None \<Rightarrow> H `` {x} = {} | Some s \<Rightarrow> seen s (H `` {x})"
      using s stream_get_seq_found(2) [OF g] stream_get_seq_other [OF g, of x] all_seenD [OF H, of x] by (cases "x = ssrc") auto
  qed
qed

lemma decrypt_seen:
  assumes H: "all_seen srtp H" and g: "guarded (sr_rtp srtp)" and dec: "srtp_decrypt cr al mem srtp mb = (err, srtp', mb')"
  shows "guarded (sr_rtp srtp') \<and> (err \<noteq> None \<longrightarrow> all_seen srtp' H)
    \<and> (err = None \<longrightarrow> recv_index srtp mb \<notin> H \<and> all_seen srtp' (insert (recv_index srtp mb) H))"
proof -
  obtain e0 hdr mb1 where d0: "rtp_hdr_decode rtp_header_zero mb = (e0, hdr, mb1)" by (cases "rtp_hdr_decode rtp_header_zero mb")
  show ?thesis
  proof (cases "e0 \<noteq> None \<or> (\<exists>e. stream_get_seq mem srtp (h_ssrc hdr) (h_seq hdr) = Inl e)")
    case True
    then show ?thesis using dec d0 H g by (cases e0) (auto simp: srtp_decrypt_def Let_def)
  next
    case False
    let ?q = "h_seq hdr" and ?src = "h_ssrc hdr"
    from False obtain s j where e0: "e0 = None" and gs: "stream_get_seq mem srtp ?src ?q = Inr (s, j)"
      by (cases "stream_get_seq mem srtp ?src ?q") auto
    note f = stream_get_seq_found [OF gs] and sn = stream_get_seq_seen [OF H gs]
    define ix where "ix = srtp_get_index (ss_roc (roc_update s ?q)) (ss_s_l (roc_update s ?q)) ?q"
    have ri: "recv_index srtp mb = (?src, ix)" using d0 f(1) by (simp add: recv_index_def ix_def Let_def)
    obtain e1 s1 m1 where v: "rtp_verify cr al (mb_pos mb) ix (sr_rtp j) (roc_update s ?q, mb1) = (e1, s1, m1)"
      by (cases "rtp_verify cr al (mb_pos mb) ix (sr_rtp j) (roc_update s ?q, mb1)")
    obtain e2 c2 m2 where dc: "rtp_decipher cr (mb_pos mb) (ss_ssrc s1) ix (sr_rtp j) m1 = (e2, c2, m2)"
      by (cases "rtp_decipher cr (mb_pos mb) (ss_ssrc s1) ix (sr_rtp j) m1")
    obtain e3 s3 where gr: "gcm_replay c2 ix s1 = (e3, s3)" by (cases "gcm_replay c2 ix s1")
    note v1 = verify_seen [OF v, of "H `` {?src}"] and g1 = gcm_replay_seen [OF gr, of "H `` {?src}"]
    have sn1: "seen s1 (H `` {?src})" "ss_ssrc s1 = ?src" "ss_ssrc s3 = ?src" "seen s3 (H `` {?src})"
      using v1 g1 sn(1) f(3) by auto
    have gd: "guarded c2" using decipher_guarded [OF dc] g f(4) by (simp add: guarded_def)
    have put: "all_seen (stream_put j s1) H" "all_seen (stream_put j s3) H"
      using all_seen_put [OF sn(2)] f(2) sn1 by simp_all
    have fresh: "ix \<notin> H `` {?src} \<and> seen s3 (insert ix (H `` {?src}))" if "e1 = None" "e3 = None"
    proof (cases "c_hmac (sr_rtp j) = None")
      case True
      then show ?thesis using g1 gd sn1(1) that decipher_guarded [OF dc] by (auto simp: guarded_def)
    next
      case False
      then show ?thesis using v1 sn(1) that gcm_replay_seen [OF gr, of "insert ix (H `` {?src})"] by auto
    qed
    have new: "all_seen (stream_put j (s_l_update s3 ?q)) (insert (?src, ix) H)" if "e1 = None" "e3 = None"
    proof (rule all_seen_put [OF sn(2)])
      have im: "insert (?src, ix) H `` {?src} = insert ix (H `` {?src})" by auto
      show "seen (s_l_update s3 ?q) (insert (?src, ix) H `` {ss_ssrc (s_l_update s3 ?q)})"
        using fresh [OF that] sn1(3) by (simp add: im)
    qed (use f(2) sn1(3) in auto)
    have "(err, srtp') = (if seq_diff (ss_s_l s) ?q > 32768 then (Some ETIMEDOUT, j)
        else if e1 \<noteq> None then (e1, stream_put j s1) else if e2 \<noteq> None then (e2, (stream_put j s1)\<lparr>sr_rtp := c2\<rparr>)
        else if e3 \<noteq> None then (e3, (stream_put j s3)\<lparr>sr_rtp := c2\<rparr>)
        else (None, (stream_put j (s_l_update s3 ?q))\<lparr>sr_rtp := c2\<rparr>))"
      using dec d0 e0 gs v dc gr
      by (cases e1; cases e2; cases e3) (simp_all add: srtp_decrypt_def Let_def ix_def [symmetric] split: if_splits)
    with put fresh new gd g f(4) sn(2) ri show ?thesis by (simp split: if_splits)
  qed
qed

lemma taken_fresh:
  assumes "all_seen srtp H" and "guarded (sr_rtp srtp)"
  shows "distinct (taken cr al srtp ds) \<and> set (taken cr al srtp ds) \<inter> H = {}"
  using assms
proof (induction ds arbitrary: srtp H)
  case (Cons d ds)
  obtain err srtp' mb' where dec: "srtp_decrypt cr al (fst d) srtp (snd d) = (err, srtp', mb')"
    by (cases "srtp_decrypt cr al (fst d) srtp (snd d)")
  note st = decrypt_seen [OF Cons.prems dec]
  show ?case
  proof (cases err)
    case None
    with Cons.IH [of srtp' "insert (recv_index srtp (snd d)) H"] st dec show ?thesis by auto
  next
    case (Some e)
    with Cons.IH [of srtp' H] st dec show ?thesis by auto
  qed
qed simp

lemma comp_init_parts:
  assumes "comp_init cr offs key s tag_len enc hash mode = Inr c"
  shows "c_hmac c \<noteq> None \<longleftrightarrow> hash" and "c_aes c \<noteq> None \<longleftrightarrow> enc" and "c_mode c = mode" and "c_tag_len c = tag_len"
  using assms by (auto simp: comp_init_def Let_def split: if_splits prod.splits option.splits sum.splits)

lemma srtp_alloc_parts:
  assumes "srtp_alloc cr mem suite mk fl = Inr s0" and "suite_params suite = (mode, cb, sb, ab, hash)"
  shows "sr_streaml s0 = []" and "c_hmac (sr_rtp s0) \<noteq> None \<longleftrightarrow> hash" and "c_aes (sr_rtp s0) \<noteq> None" and "c_mode (sr_rtp s0) = mode"
    and "c_hmac (sr_rtcp s0) \<noteq> None \<longleftrightarrow> hash" and "c_mode (sr_rtcp s0) = mode" and "c_tag_len (sr_rtcp s0) = ab"
proof -
  obtain c d where s0: "s0 = \<lparr>sr_rtp = c, sr_rtcp = d, sr_streaml = []\<rparr>"
    and c: "comp_init cr 0 (take cb mk) (drop cb mk) ab True hash mode = Inr c"
    and d: "comp_init cr 3 (take cb mk) (drop cb mk) ab (\<not> fl) hash mode = Inr d"
    using assms by (auto simp: srtp_alloc_def Let_def split: if_splits sum.splits)
  show "sr_streaml s0 = []" "c_hmac (sr_rtp s0) \<noteq> None \<longleftrightarrow> hash" "c_aes (sr_rtp s0) \<noteq> None" "c_mode (sr_rtp s0) = mode"
    "c_hmac (sr_rtcp s0) \<noteq> None \<longleftrightarrow> hash" "c_mode (sr_rtcp s0) = mode" "c_tag_len (sr_rtcp s0) = ab"
    using comp_init_parts [OF c] comp_init_parts [OF d] by (simp_all add: s0)
qed

text \<open>C17:
  No replay, whatever the network does. A fresh session of any suite is given any sequence of
  datagrams (replayed, reordered, forged, from any number of sources, with any result of the
  cipher and hash calls and of the allocations). No source and index is accepted twice.
\<close>

theorem srtp_no_replay:
  assumes "srtp_alloc cr mem suite mk fl = Inr s0"
  shows "distinct (taken cr al s0 ds)"
proof -
  obtain mode cb sb ab hash where p: "suite_params suite = (mode, cb, sb, ab, hash)" by (cases "suite_params suite")
  note a = srtp_alloc_parts [OF assms p]
  have "hash \<or> mode = AES_MODE_GCM" using p by (cases suite) (auto simp: suite_params_def)
  then have "guarded (sr_rtp s0)" using a by (auto simp: guarded_def)
  moreover have "all_seen s0 {}" using a(1) by (simp add: all_seen_def stream_find_def)
  ultimately show ?thesis using taken_fresh [of s0 "{}"] by blast
qed

theorem srtp_no_replay_witness:
  "\<exists>s0. srtp_alloc xor_crypto True SRTP_AES_128_GCM (replicate 28 7) False = Inr s0
     \<and> distinct (taken xor_crypto al_zero s0 [(True, demo_packet 1), (True, demo_packet 1)])"
proof -
  let ?a = "srtp_alloc xor_crypto True SRTP_AES_128_GCM (replicate 28 7) False"
  have "?a = Inr (projr ?a)" by code_simp
  with srtp_no_replay [OF this] show ?thesis by blast
qed

section \<open>Gaps\<close>

text \<open>The count of the wraps is changed before the tag is checked: one forged header, on a stream that has
  reached the upper half of the numbers, moves the receiver a whole wrap ahead of the sender.
\<close>

theorem srtp_roc_desync:
  assumes f: "stream_find rx (h_ssrc hdr) = Some s" "ss_s_l_set s" and far: "unat (h_seq hdr) + 32768 \<le> unat (ss_s_l s)"
    and plain: "rtp_plain hdr" and ok: "mbuf_ok mb" and after: "mb_after mb = rtp_hdr_bytes hdr @ T"
    and bad: "c_hmac (sr_rtp rx) = Some k" "length T < c_tag_len (sr_rtp rx)"
  shows "\<exists>rx' mb'. srtp_decrypt cr al mem rx mb = (Some EBADMSG, rx', mb')
    \<and> stream_find rx' (h_ssrc hdr) = Some (s\<lparr>ss_roc := ss_roc s + 1, ss_s_l := 0\<rparr>)"
proof -
  note d = decode_plain [OF plain ok after]
  let ?q = "h_seq hdr" and ?s = "s\<lparr>ss_roc := ss_roc s + 1, ss_s_l := 0\<rparr>"
  have g: "stream_get_seq mem rx (h_ssrc hdr) ?q = Inr (s, stream_put rx s)"
    using f by (simp add: stream_get_seq_def stream_get_def)
  have up: "roc_update s ?q = ?s" using far by (simp add: roc_update_def seq_diff_def del: of_nat_unat)
  have "\<not> seq_diff (ss_s_l s) ?q > 32768" using far by (simp add: seq_diff_def del: of_nat_unat)
  moreover have "mbuf_get_left (mb_adv mb (length (rtp_hdr_bytes hdr))) < c_tag_len (sr_rtp rx)"
    using mbvD(7) [OF d(4)] bad(2) by simp
  ultimately have "srtp_decrypt cr al mem rx mb = (Some EBADMSG, stream_put (stream_put rx s) ?s, mb_adv mb (length (rtp_hdr_bytes hdr)))"
    using d(1) g up bad(1) by (simp add: srtp_decrypt_def rtp_verify_def Let_def)
  moreover have "stream_find (stream_put (stream_put rx s) ?s) (h_ssrc hdr) = Some ?s"
    using f(1) stream_find_Some [OF f(1)] stream_find_put [of rx s] stream_find_put [of "stream_put rx s" ?s] by simp
  ultimately show ?thesis by blast
qed

theorem srtp_roc_desync_witness:
  "let hdr = rtp_mk_header False True 8 1 160 9;
       s = (stream_zero 9)\<lparr>ss_s_l := 40000, ss_s_l_set := True\<rparr>;
       c = \<lparr>c_aes = None, c_mode = AES_MODE_CTR, c_hmac = Some [], c_k_s = [], c_tag_len = 10\<rparr>
   in \<exists>rx' mb'. srtp_decrypt xor_crypto al_zero True \<lparr>sr_rtp = c, sr_rtcp = c, sr_streaml = [s]\<rparr> (mbuf_of (rtp_hdr_bytes hdr))
          = (Some EBADMSG, rx', mb')
        \<and> stream_find rx' 9 = Some (s\<lparr>ss_roc := 1, ss_s_l := 0\<rparr>)"
proof -
  let ?hdr = "rtp_mk_header False True 8 1 160 9"
  let ?s = "(stream_zero 9)\<lparr>ss_s_l := 40000, ss_s_l_set := True\<rparr>"
  let ?c = "\<lparr>c_aes = None, c_mode = AES_MODE_CTR, c_hmac = Some [], c_k_s = [], c_tag_len = 10\<rparr> :: (byte list \<times> byte list) comp"
  have "rtp_plain ?hdr"
    by (simp add: rtp_plain_def rtp_header_ok_def rtp_filled_def rtp_mk_header_def rtp_header_zero_def)
  moreover have "length (rtp_hdr_bytes ?hdr) = 12" by (simp add: rtp_hdr_bytes_def rtp_mk_header_def rtp_header_zero_def)
  ultimately show ?thesis
    using srtp_roc_desync [of "\<lparr>sr_rtp = ?c, sr_rtcp = ?c, sr_streaml = [?s]\<rparr>" ?hdr ?s "mbuf_of (rtp_hdr_bytes ?hdr)" "[]" "[]" xor_crypto al_zero True]
    by (simp add: mbuf_of_view size_mod_def stream_find_def stream_zero_def rtp_mk_header_def)
qed

end
