(* ===== verification/Srtcp.thy ===== *)
theory Srtcp
  imports Srtp
begin

text \<open>
  Secure RTCP, \<open>re/src/srtp/srtcp.c\<close>: a control packet is encrypted behind its first eight bytes; the
  index and the bit that says whether it is encrypted travel in a trailing word, before the tag.
\<close>

section \<open>RTCP\<close>

definition get_rtcp_ssrc :: "mbuf \<Rightarrow> errno option \<times> u32 \<times> mbuf" where
  "get_rtcp_ssrc mb =
     (if mbuf_get_left mb < 8 then (Some EBADMSG, 0, mb)
      else (case read_be32 (mbuf_advance mb 4) of (ssrc, mb) \<Rightarrow> (None, ssrc, mb)))"

definition rtcp_encipher ::
  "'a crypto \<Rightarrow> alloc \<Rightarrow> nat \<Rightarrow> u32 \<Rightarrow> u32 \<Rightarrow> 'a comp \<times> mbuf \<Rightarrow> errno option \<times> 'a comp \<times> mbuf" where
  "rtcp_encipher cr al start ssrc ix s =
     (case s of (c, mb) \<Rightarrow>
        with_aes c mb (\<lambda>_ (aes, mb).
          case c_mode c of
            AES_MODE_CTR \<Rightarrow>
              aes_run (aes_encr cr) (mb_pos mb) (mbuf_get_left mb) (aes_set_iv cr aes (srtp_iv_calc (c_k_s c) ssrc (ucast ix)), mb)
          | AES_MODE_GCM \<Rightarrow>
              and_then
                (and_then
                  (also_err
                    (aes_aad_mem (aes_encr cr) start (mb_pos mb - start)
                       (aes_set_iv cr aes (srtp_iv_calc_gcm (c_k_s c) ssrc (ucast ix)), mb))
                    (aes_aad (aes_encr cr) (be32 (push_bit 31 1 OR ix))))
                  (aes_run (aes_encr cr) (mb_pos mb) (mbuf_get_left mb)))
                (put_authtag cr al)))"

definition rtcp_sign :: "'a crypto \<Rightarrow> alloc \<Rightarrow> nat \<Rightarrow> 'a comp \<times> mbuf \<Rightarrow> errno option \<times> 'a comp \<times> mbuf" where
  "rtcp_sign cr al start s =
     (case s of (c, mb) \<Rightarrow>
        (case c_hmac c of
           None \<Rightarrow> (None, c, mb)
         | Some k \<Rightarrow>
             (let mb = mb\<lparr>mb_pos := start\<rparr>
              in case hmac_digest cr k SHA_DIGEST_LENGTH (mb_after mb) of
                   (Some err, _) \<Rightarrow> (Some err, c, mb)
                 | (None, tag) \<Rightarrow>
                     (case mbuf_write_mem al (mb\<lparr>mb_pos := mb_end mb\<rparr>) (Some (take (c_tag_len c) tag)) of
                        (err, mb) \<Rightarrow> (err, c, mb)))))"

definition srtcp_encrypt :: "'a crypto \<Rightarrow> alloc \<Rightarrow> bool \<Rightarrow> 'a srtp \<Rightarrow> mbuf \<Rightarrow> errno option \<times> 'a srtp \<times> mbuf" where
  "srtcp_encrypt cr al mem srtp mb =
     (let start = mb_pos mb
      in case get_rtcp_ssrc mb of
           (Some err, _, mb) \<Rightarrow> (Some err, srtp, mb)
         | (None, ssrc, mb) \<Rightarrow>
             (case stream_get mem srtp ssrc of
                Inl err \<Rightarrow> (Some err, srtp, mb)
              | Inr (strm, srtp) \<Rightarrow>
                  (let strm = strm\<lparr>ss_rtcp_index := (ss_rtcp_index strm + 1) AND 0x7fffffff\<rparr>;
                       ix = ss_rtcp_index strm;
                       ep = (if c_aes (sr_rtcp srtp) \<noteq> None then 1 else 0);
                       srtp = stream_put srtp strm
                   in case and_then
                             (and_then (rtcp_encipher cr al start ssrc ix (sr_rtcp srtp, mb))
                               (\<lambda>(c, mb). case mbuf_write_u32 al (mb\<lparr>mb_pos := mb_end mb\<rparr>) (htonl (push_bit 31 ep OR ix)) of
                                            (err, mb) \<Rightarrow> (err, c, mb)))
                             (rtcp_sign cr al start) of
                        (Some err, c, mb) \<Rightarrow> (Some err, srtp\<lparr>sr_rtcp := c\<rparr>, mb)
                      | (None, c, mb) \<Rightarrow> (None, srtp\<lparr>sr_rtcp := c\<rparr>, mb\<lparr>mb_pos := start\<rparr>))))"

definition rtcp_verify ::
  "'a crypto \<Rightarrow> nat \<Rightarrow> u32 \<Rightarrow> 'a comp \<Rightarrow> srtp_stream \<times> mbuf \<Rightarrow> errno option \<times> srtp_stream \<times> mbuf" where
  "rtcp_verify cr start ix c s =
     (case s of (strm, mb) \<Rightarrow>
        (case c_hmac c of
           None \<Rightarrow> (None, strm, mb)
         | Some k \<Rightarrow>
             if c_tag_len c > SHA_DIGEST_LENGTH then (Some ERANGE, strm, mb)
             else
               (let tag_start = mb_pos mb
                in case mbuf_read_mem mb (c_tag_len c) of
                     (Some err, _, mb) \<Rightarrow> (Some err, strm, mb)
                   | (None, tag_pkt, mb) \<Rightarrow>
                       (let mb = mb\<lparr>mb_pos := start, mb_end := tag_start\<rparr>
                        in case hmac_digest cr k SHA_DIGEST_LENGTH (mb_after mb) of
                             (Some err, _) \<Rightarrow> (Some err, strm, mb)
                           | (None, tag) \<Rightarrow>
                               if take (c_tag_len c) tag \<noteq> tag_pkt then (Some EAUTH, strm, mb)
                               else
                                 (case srtp_replay_check (Some (ss_replay_rtcp strm)) (ucast ix) of
                                    (ok, r) \<Rightarrow> (if ok then None else Some EALREADY, strm\<lparr>ss_replay_rtcp := the r\<rparr>, mb))))))"

definition rtcp_decipher ::
  "'a crypto \<Rightarrow> nat \<Rightarrow> nat \<Rightarrow> nat \<Rightarrow> bool \<Rightarrow> u32 \<Rightarrow> u32 \<Rightarrow> 'a comp \<Rightarrow> mbuf \<Rightarrow> errno option \<times> 'a comp \<times> mbuf" where
  "rtcp_decipher cr start pld_start eix_start ep ssrc ix c mb =
     (if \<not> ep then (None, c, mb)
      else
        with_aes c mb (\<lambda>_ (aes, mb).
          case c_mode c of
            AES_MODE_CTR \<Rightarrow>
              (let mb = mb\<lparr>mb_pos := pld_start\<rparr>
               in aes_run (aes_decr cr) (mb_pos mb) (mbuf_get_left mb)
                    (aes_set_iv cr aes (srtp_iv_calc (c_k_s c) ssrc (ucast ix)), mb))
          | AES_MODE_GCM \<Rightarrow>
              and_then
                (also_err
                  (aes_aad_mem (aes_decr cr) start (pld_start - start)
                     (aes_set_iv cr aes (srtp_iv_calc_gcm (c_k_s c) ssrc (ucast ix)), mb))
                  (aes_aad_mem (aes_decr cr) eix_start 4))
                (\<lambda>(aes, mb). gcm_open cr (aes, mb\<lparr>mb_pos := pld_start\<rparr>))))"

definition srtcp_decrypt :: "'a crypto \<Rightarrow> bool \<Rightarrow> 'a srtp \<Rightarrow> mbuf \<Rightarrow> errno option \<times> 'a srtp \<times> mbuf" where
  "srtcp_decrypt cr mem srtp mb =
     (let start = mb_pos mb
      in case get_rtcp_ssrc mb of
           (Some err, _, mb) \<Rightarrow> (Some err, srtp, mb)
         | (None, ssrc, mb) \<Rightarrow>
             (case stream_get mem srtp ssrc of
                Inl err \<Rightarrow> (Some err, srtp, mb)
              | Inr (strm, srtp) \<Rightarrow>
                  (let c = sr_rtcp srtp; pld_start = mb_pos mb
                   in if mbuf_get_left mb < 4 + c_tag_len c then (Some EBADMSG, srtp, mb)
                      else
                        (let eix_start = mb_end mb - (4 + c_tag_len c)
                         in case read_be32 (mb\<lparr>mb_pos := eix_start\<rparr>) of (v, mb) \<Rightarrow>
                              (let ep = (drop_bit 31 v AND 1 \<noteq> 0);
                                   ix = v AND 0x7fffffff
                               in case rtcp_verify cr start ix c (strm, mb) of
                                    (Some err, strm, mb) \<Rightarrow> (Some err, stream_put srtp strm, mb)
                                  | (None, strm, mb) \<Rightarrow>
                                      (let srtp = stream_put srtp strm
                                       in case rtcp_decipher cr start pld_start eix_start ep ssrc ix c
                                                 (mb\<lparr>mb_end := eix_start\<rparr>) of
                                            (Some err, c, mb) \<Rightarrow> (Some err, srtp\<lparr>sr_rtcp := c\<rparr>, mb)
                                          | (None, c, mb) \<Rightarrow> (None, srtp\<lparr>sr_rtcp := c\<rparr>, mb\<lparr>mb_pos := start\<rparr>)))))))"

lemma get_rtcp_ssrc_view:
  assumes v: "mbv mb (length pre) (pre @ h @ r)" and "length h = 8"
  shows "get_rtcp_ssrc mb = (None, word_of_bytes (rev (drop 4 h)), mb_adv mb 8)"
    and "mbv (mb_adv mb 8) (length pre + 8) (pre @ h @ r)"
proof -
  have adv: "mbuf_advance mb 4 = mb_adv mb 4"
    using mbuf_advance_adv [of mb 4] mbvD(1,5) [OF v] assms(2) by simp
  have "mbv (mb_adv mb 4) (length pre + 4) (pre @ h @ r)" using mbv_adv [OF v, of 4] assms(2) by simp
  from mbv_read_be32 [OF this] assms(2) have "read_be32 (mb_adv mb 4) = (word_of_bytes (rev (drop 4 h)), mb_adv mb 8)"
    by (simp add: mb_adv_def)
  then show "get_rtcp_ssrc mb = (None, word_of_bytes (rev (drop 4 h)), mb_adv mb 8)"
    using mbvD(7) [OF v] assms(2) adv by (simp add: get_rtcp_ssrc_def)
  show "mbv (mb_adv mb 8) (length pre + 8) (pre @ h @ r)" using mbv_adv [OF v, of 8] assms(2) by simp
qed

text \<open>C37:
  In a freshly allocated session of one of the authenticating suites a control packet is authenticated by the cipher alone, and only when
  it says so itself: with the E bit clear, any datagram of the size of the fixed part is accepted,
  and no control packet meets a replay window.
\<close>

theorem srtcp_gcm_forgery:
  assumes al: "srtp_alloc cr m suite mk fl = Inr s0" and suite: "suite = SRTP_AES_128_GCM \<or> suite = SRTP_AES_256_GCM"
    and ok: "mbuf_ok mb" and after: "mb_after mb = (h @ body) @ be32 v" and h: "length h = 8" and ebit: "\<not> bit v 31"
  shows "\<exists>rx' mb'. srtcp_decrypt cr True s0 mb = (None, rx', mb') \<and> mb_after mb' = h @ body"
proof -
  obtain cb sb where "suite_params suite = (AES_MODE_GCM, cb, sb, 0, False)" using suite by (auto simp: suite_params_def)
  note a = srtp_alloc_parts [OF al this]
  let ?p = "mb_before mb"
  have v: "mbv mb (length ?p) (?p @ h @ body @ be32 v)" using mbvI [OF ok] after ok by simp
  note g = get_rtcp_ssrc_view [OF v h]
  let ?ssrc = "word_of_bytes (rev (drop 4 h)) :: u32"
  define eix where "eix = length (?p @ h @ body)"
  have eix: "mb_end mb - 4 = eix" using mbvD(3) [OF v] by (simp add: eix_def)
  obtain strm j where sg: "stream_get True s0 ?ssrc = Inr (strm, j)"
    using a(1) by (auto simp: stream_get_def stream_new_def stream_find_def SRTP_MAX_STREAMS_def)
  have j: "sr_rtcp j = sr_rtcp s0" using stream_get_found(4) [OF sg] .
  let ?m1 = "(mb_adv mb 8)\<lparr>mb_pos := eix\<rparr>"
  have v1: "mbv ?m1 eix (?p @ h @ body @ be32 v)" using mbv_set_pos [OF g(2), of eix] by (simp add: eix_def)
  have rd: "read_be32 ?m1 = (v, mb_adv ?m1 4)" using mbv_read_be32 [OF v1] by (simp add: eix_def)
  have e: "drop_bit 31 v AND 1 = 0" using ebit by (simp add: and_one_eq bit_iff_odd_drop_bit flip: even_iff_mod_2_eq_zero)
  have dc: "rtcp_decipher cr st p x False ssrc ix c m = (None, c, m)" for st p x ssrc ix c m by (simp add: rtcp_decipher_def)
  have "srtcp_decrypt cr True s0 mb
      = (None, (stream_put j strm)\<lparr>sr_rtcp := sr_rtcp s0\<rparr>, (mb_adv ?m1 4)\<lparr>mb_end := eix, mb_pos := mb_pos mb\<rparr>)"
    using g(1) sg j a(5,7) mbvD(7) [OF g(2)] eix rd e
    by (simp add: srtcp_decrypt_def rtcp_verify_def dc Let_def h)
  moreover have "mbv ((mb_adv ?m1 4)\<lparr>mb_end := eix, mb_pos := mb_pos mb\<rparr>) (length ?p) (?p @ h @ body)"
    using mbv_set_pos [OF mbv_set_end [OF mbv_set_pos [OF v1, of eix], of eix], of "length ?p"] ok by (simp add: eix_def mb_adv_def)
  ultimately show ?thesis using mbvD(5) by fastforce
qed

theorem srtcp_gcm_forgery_witness:
  "\<exists>s0 rx' mb'. srtp_alloc xor_crypto True SRTP_AES_128_GCM (replicate 28 7) False = Inr s0
     \<and> srtcp_decrypt xor_crypto True s0 (mbuf_of [0x80, 200, 0, 1, 0, 0, 0, 9, 1, 2, 3, 4, 0, 0, 0, 1]) = (None, rx', mb')
     \<and> mb_after mb' = [0x80, 200, 0, 1, 0, 0, 0, 9, 1, 2, 3, 4]"
proof -
  let ?a = "srtp_alloc xor_crypto True SRTP_AES_128_GCM (replicate 28 7) False"
  let ?mb = "mbuf_of [0x80, 200, 0, 1, 0, 0, 0, 9, 1, 2, 3, 4, 0, 0, 0, 1]"
  have a: "?a = Inr (projr ?a)" by code_simp
  have "be32 1 = [0, 0, 0, 1]" by code_simp
  then have "mb_after ?mb = ([0x80, 200, 0, 1, 0, 0, 0, 9] @ [1, 2, 3, 4]) @ be32 1"
    by (simp add: mb_after_def mbuf_of_def mb_bytes_def)
  moreover have "mbuf_ok ?mb" by (simp add: mbuf_of_view size_mod_def)
  ultimately show ?thesis
    using srtcp_gcm_forgery [OF a, of ?mb "[0x80, 200, 0, 1, 0, 0, 0, 9]" "[1, 2, 3, 4]" 1] a by (auto simp: bit_1_iff)
qed

section \<open>Sealing and opening\<close>

lemma mbv_cut:
  assumes "mbv mb p xs" and "q \<le> e" and "e \<le> length xs"
  shows "mbv (mb\<lparr>mb_end := e, mb_pos := q\<rparr>) q (take e xs)"
proof -
  have "mb\<lparr>mb_end := e, mb_pos := q\<rparr> = mb\<lparr>mb_pos := q, mb_end := e\<rparr>" by (cases mb) simp
  then show ?thesis using mbv_set_posend [OF assms] by (simp only:)
qed

text \<open>The bytes between the end and the size of the block are still there.\<close>

lemma mbv_load_end:
  assumes "mbv mb p xs" and "q + n \<le> length xs"
  shows "mem_load (mb\<lparr>mb_end := e\<rparr>) q n = (take n (drop q xs), mb\<lparr>mb_end := e\<rparr>)"
  using assms(1)
proof (rule mbvE)
  assume "length xs \<le> mb_size mb" "mb_size mb \<le> length (mb_bytes mb)"
  then show ?thesis using mbv_load [OF assms] assms(2) by (auto simp: mem_load_def)
qed

text \<open>
  The text \<open>S\<close> between a header \<open>hdb\<close> and the trailing word \<open>w\<close> deciphers to \<open>P\<close> for every component with
  the keys of \<open>c\<close>.
\<close>

definition rtcp_opens ::
  "'a crypto \<Rightarrow> ('a \<Rightarrow> 'k) \<Rightarrow> u32 \<Rightarrow> u32 \<Rightarrow> 'a comp \<Rightarrow> byte list \<Rightarrow> byte list \<Rightarrow> byte list \<Rightarrow> byte list \<Rightarrow> bool" where
  "rtcp_opens cr key ssrc ix c hdb w S P \<longleftrightarrow>
    (\<forall>d m p pre start. same_keys key c d \<longrightarrow> mbv m p ((pre @ S) @ w) \<longrightarrow> start \<le> length pre \<longrightarrow> drop start pre = hdb \<longrightarrow>
       (\<exists>d' m'. rtcp_decipher cr start (length pre) (length (pre @ S)) (c_aes c \<noteq> None) ssrc ix d (m\<lparr>mb_end := length (pre @ S)\<rparr>)
            = (None, d', m')
          \<and> mbv (m'\<lparr>mb_pos := start\<rparr>) start (pre @ P) \<and> same_keys key d' d))"

lemma rtcp_opensI:
  assumes "\<And>d m p pre start. same_keys key c d \<Longrightarrow> mbv m p ((pre @ S) @ w) \<Longrightarrow> start \<le> length pre \<Longrightarrow> drop start pre = hdb \<Longrightarrow>
      \<exists>d' m' q. rtcp_decipher cr start (length pre) (length (pre @ S)) (c_aes c \<noteq> None) ssrc ix d (m\<lparr>mb_end := length (pre @ S)\<rparr>)
          = (None, d', m') \<and> mbv m' q (pre @ P) \<and> same_keys key d' d"
  shows "rtcp_opens cr key ssrc ix c hdb w S P"
  unfolding rtcp_opens_def
proof (intro allI impI)
  fix d m p pre start
  assume "same_keys key c d" "mbv m p ((pre @ S) @ w)" "start \<le> length pre" "drop start pre = hdb"
  moreover from assms [OF this] obtain d' m' q where
    "rtcp_decipher cr start (length pre) (length (pre @ S)) (c_aes c \<noteq> None) ssrc ix d (m\<lparr>mb_end := length (pre @ S)\<rparr>) = (None, d', m')"
    "mbv m' q (pre @ P)" "same_keys key d' d" by blast
  ultimately show "\<exists>d' m'. rtcp_decipher cr start (length pre) (length (pre @ S)) (c_aes c \<noteq> None) ssrc ix d (m\<lparr>mb_end := length (pre @ S)\<rparr>)
        = (None, d', m') \<and> mbv (m'\<lparr>mb_pos := start\<rparr>) start (pre @ P) \<and> same_keys key d' d"
    using mbv_set_pos [of m' q "pre @ P" start] by auto
qed

lemma rtcp_opensD:
  assumes "rtcp_opens cr key ssrc ix c (drop start pre) w S P" and "same_keys key c d" and "mbv m p ((pre @ S) @ w)" and "start \<le> length pre"
  shows "\<exists>d' m'. rtcp_decipher cr start (length pre) (length (pre @ S)) (c_aes c \<noteq> None) ssrc ix d (m\<lparr>mb_end := length (pre @ S)\<rparr>)
            = (None, d', m')
          \<and> mbv (m'\<lparr>mb_pos := start\<rparr>) start (pre @ P) \<and> same_keys key d' d"
  using assms unfolding rtcp_opens_def by blast

lemma rtcp_opens_ctr:
  assumes cr: "crypto_ok cr key" and c: "c_aes c = Some aes" "c_mode c = AES_MODE_CTR"
    and C: "aes_encr cr (aes_set_iv cr aes (srtp_iv_calc (c_k_s c) ssrc (ucast ix))) True P = (None, C, aes')"
  shows "length C = length P" and "rtcp_opens cr key ssrc ix c hdb w C P"
proof -
  let ?iv = "srtp_iv_calc (c_k_s c) ssrc (ucast ix)"
  have inv: "length C = length P \<and> (\<exists>b'. aes_decr cr (aes_set_iv cr b ?iv) True C = (None, P, b'))" if "key aes = key b" for b
    using cr C that unfolding crypto_ok_def ctr_inverts_def by blast
  show len: "length C = length P" using inv [of aes] by simp
  show "rtcp_opens cr key ssrc ix c hdb w C P"
  proof (rule rtcp_opensI)
    fix d :: "'a comp" and m p pre start
    assume sk: "same_keys key c d" and v: "mbv m p ((pre @ C) @ w)"
    let ?m = "m\<lparr>mb_end := length (pre @ C), mb_pos := length pre\<rparr>"
    have vm: "mbv ?m (length pre) (pre @ C)" using mbv_cut [OF v, of "length pre" "length (pre @ C)"] by simp
    obtain b where b: "c_aes d = Some b" "key aes = key b" using same_keys_Some [OF sk c(1)] by auto
    then obtain b' where b': "aes_decr cr (aes_set_iv cr b ?iv) True C = (None, P, b')" using inv by blast
    obtain m' where m': "aes_run (aes_decr cr) (length pre) (length C) (aes_set_iv cr b ?iv, ?m) = (None, b', m')"
      "mbv m' (length pre) (pre @ P)"
      using aes_run_view [of ?m pre C "[]" "aes_decr cr" "aes_set_iv cr b ?iv" None P b'] vm b' len unfolding append_Nil2 by metis
    have d: "c_mode d = AES_MODE_CTR" "c_k_s d = c_k_s c" using sk c(2) by (simp_all add: same_keys_def)
    have "rtcp_decipher cr start (length pre) (length (pre @ C)) (c_aes c \<noteq> None) ssrc ix d (m\<lparr>mb_end := length (pre @ C)\<rparr>)
        = (None, d\<lparr>c_aes := Some b'\<rparr>, m')"
      using m'(1) b(1) c(1) d mbvD(2,7) [OF vm] by (simp add: rtcp_decipher_def with_aes_def Let_def)
    moreover have "same_keys key (d\<lparr>c_aes := Some b'\<rparr>) d"
      using key_kept [OF cr] b' b(1) by (simp add: same_keys_def)
    ultimately show "\<exists>d' m' q. rtcp_decipher cr start (length pre) (length (pre @ C)) (c_aes c \<noteq> None) ssrc ix d (m\<lparr>mb_end := length (pre @ C)\<rparr>)
        = (None, d', m') \<and> mbv m' q (pre @ P) \<and> same_keys key d' d"
      using m'(2) by blast
  qed
qed

lemma rtcp_opens_gcm:
  assumes cr: "crypto_ok cr key" and c: "c_aes c = Some aes" "c_mode c = AES_MODE_GCM" and w: "length w = 4"
    and A: "feed_aad (aes_encr cr) (aes_set_iv cr aes (srtp_iv_calc_gcm (c_k_s c) ssrc (ucast ix))) [hdb, w] = Some a1"
    and C: "aes_encr cr a1 True P = (None, C, a2)" and T: "aes_get_authtag cr a2 GCM_TAGLEN = (None, T, a3)"
  shows "length C = length P" and "length T = 16" and "rtcp_opens cr key ssrc ix c hdb w (C @ T) P"
proof -
  let ?iv = "srtp_iv_calc_gcm (c_k_s c) ssrc (ucast ix)"
  have inv: "length C = length P \<and> length T = 16 \<and> (\<exists>b1 b2 b3. feed_aad (aes_decr cr) (aes_set_iv cr b ?iv) [hdb, w] = Some b1
      \<and> aes_decr cr b1 True C = (None, P, b2) \<and> aes_authenticate cr b2 T = (None, b3))" if "key aes = key b" for b
    using cr A C T that unfolding crypto_ok_def gcm_inverts_def GCM_TAGLEN_def by blast
  show len: "length C = length P" "length T = 16" using inv [of aes] by auto
  show "rtcp_opens cr key ssrc ix c hdb w (C @ T) P"
  proof (rule rtcp_opensI)
    fix d :: "'a comp" and m p pre start
    assume sk: "same_keys key c d" and v: "mbv m p ((pre @ C @ T) @ w)" and st: "start \<le> length pre" and hdb: "drop start pre = hdb"
    let ?e = "length (pre @ C @ T)"
    obtain b where b: "c_aes d = Some b" "key aes = key b" using same_keys_Some [OF sk c(1)] by auto
    obtain b0 b1 b2 b3 o1 o2 where dec: "aes_decr cr (aes_set_iv cr b ?iv) False hdb = (None, o1, b0)"
      "aes_decr cr b0 False w = (None, o2, b1)" "aes_decr cr b1 True C = (None, P, b2)" "aes_authenticate cr b2 T = (None, b3)"
      using inv [OF b(2)] by (auto split: prod.splits option.splits)
    have "aes_aad_mem (aes_decr cr) start (length pre - start) (aes_set_iv cr b ?iv, m\<lparr>mb_end := ?e\<rparr>) = (None, b0, m\<lparr>mb_end := ?e\<rparr>)"
      using mbv_load_end [OF v, of start "length pre - start" ?e] st dec(1) hdb [symmetric] by (simp add: aes_aad_mem_def aes_aad_def)
    moreover have "aes_aad_mem (aes_decr cr) ?e 4 (b0, m\<lparr>mb_end := ?e\<rparr>) = (None, b1, m\<lparr>mb_end := ?e\<rparr>)"
      using mbv_load_end [OF v, of ?e 4 ?e] w dec(2) by (simp add: aes_aad_mem_def aes_aad_def)
    moreover have vm: "mbv (m\<lparr>mb_end := ?e, mb_pos := length pre\<rparr>) (length pre) (pre @ C @ T)"
      using mbv_cut [OF v, of "length pre" ?e] by simp
    obtain m' where "gcm_open cr (b1, m\<lparr>mb_end := ?e, mb_pos := length pre\<rparr>) = (None, b3, m')" and m': "mbv m' (length pre) (pre @ P)"
      using gcm_open_view [OF vm len(1) [symmetric] len(2) dec(3,4)] by blast
    moreover have "c_mode d = AES_MODE_GCM" "c_k_s d = c_k_s c" using sk c(2) by (simp_all add: same_keys_def)
    ultimately have "rtcp_decipher cr start (length pre) ?e (c_aes c \<noteq> None) ssrc ix d (m\<lparr>mb_end := ?e\<rparr>) = (None, d\<lparr>c_aes := Some b3\<rparr>, m')"
      using b(1) c(1) by (simp add: rtcp_decipher_def with_aes_def and_then_def also_err_def)
    moreover have "same_keys key (d\<lparr>c_aes := Some b3\<rparr>) d"
      using b(1) key_kept(5) [OF cr dec(4)] key_kept(3) [OF cr dec(3)] key_kept(3) [OF cr dec(2)] key_kept(3) [OF cr dec(1)] key_kept(1) [OF cr]
      by (simp add: same_keys_def)
    ultimately show "\<exists>d' m' q. rtcp_decipher cr start (length pre) ?e (c_aes c \<noteq> None) ssrc ix d (m\<lparr>mb_end := ?e\<rparr>)
        = (None, d', m') \<and> mbv m' q (pre @ P) \<and> same_keys key d' d"
      using m' by blast
  qed
qed

definition eix_word :: "'a comp \<Rightarrow> u32 \<Rightarrow> u32" where
  "eix_word c ix = push_bit 31 (if c_aes c \<noteq> None then 1 else 0) OR ix"

lemma rtcp_encipher_ctr:
  assumes cr: "crypto_ok cr key" and v: "mbv mb (length pre) (pre @ P)" and c: "c_aes c = Some aes" "c_mode c = AES_MODE_CTR"
    and enc: "rtcp_encipher cr al start ssrc ix (c, mb) = (None, c', mb')"
  shows "\<exists>S q. mbv mb' q (pre @ S) \<and> length S \<le> length P + 16 \<and> same_keys key c' c \<and> rtcp_opens cr key ssrc ix c (drop start pre) w S P"
proof -
  let ?iv = "srtp_iv_calc (c_k_s c) ssrc (ucast ix)"
  obtain aes' where run: "aes_run (aes_encr cr) (length pre) (length P) (aes_set_iv cr aes ?iv, mb) = (None, aes', mb')"
    and c': "c' = c\<lparr>c_aes := Some aes'\<rparr>"
    using enc c mbvD(2,7) [OF v] by (auto simp: rtcp_encipher_def with_aes_def split: prod.splits)
  then obtain C where C: "aes_encr cr (aes_set_iv cr aes ?iv) True P = (None, C, aes')"
    using aes_run_inv [OF v run] by auto
  note o = rtcp_opens_ctr [OF cr c C]
  have "mbv mb' (length pre) (pre @ C)" using aes_run_view [of mb pre P "[]" "aes_encr cr", OF _ C] v o(1) run by simp
  moreover have "same_keys key c' c" using c c' key_kept [OF cr] C by (simp add: same_keys_def)
  ultimately show ?thesis using o by (intro exI [of _ C] exI [of _ "length pre"]) auto
qed

lemma rtcp_encipher_gcm:
  assumes cr: "crypto_ok cr key" and v: "mbv mb (length pre) (pre @ P)" and st: "start \<le> length pre"
    and room: "length pre + length P + 16 < size_mod" and c: "c_aes c = Some aes" "c_mode c = AES_MODE_GCM"
    and enc: "rtcp_encipher cr al start ssrc ix (c, mb) = (None, c', mb')"
  shows "\<exists>S q. mbv mb' q (pre @ S) \<and> length S \<le> length P + 16 \<and> same_keys key c' c
    \<and> rtcp_opens cr key ssrc ix c (drop start pre) (be32 (eix_word c ix)) S P"
proof -
  let ?iv = "srtp_iv_calc_gcm (c_k_s c) ssrc (ucast ix)" and ?h = "drop start pre" and ?w = "be32 (eix_word c ix)"
  have w: "be32 (push_bit 31 1 OR ix) = ?w" using c(1) by (simp add: eix_word_def)
  obtain a0 m0 a1 m1 a2 m2 a3 where
    aad: "aes_aad_mem (aes_encr cr) start (length pre - start) (aes_set_iv cr aes ?iv, mb) = (None, a0, m0)"
    and aad2: "aes_aad (aes_encr cr) ?w (a0, m0) = (None, a1, m1)"
    and run: "aes_run (aes_encr cr) (length pre) (length P) (a1, m1) = (None, a2, m2)"
    and tag: "put_authtag cr al (a2, m2) = (None, a3, mb')" and c': "c' = c\<lparr>c_aes := Some a3\<rparr>"
    using enc c mbvD(2,7) [OF v] unfolding w [symmetric]
    by (auto simp: rtcp_encipher_def with_aes_def and_then_None also_err_def split: prod.splits)
  have "start + (length pre - start) \<le> length (pre @ P)" using st by simp
  then obtain o0 where m0: "m0 = mb" and A0: "aes_encr cr (aes_set_iv cr aes ?iv) False ?h = (None, o0, a0)"
    using aes_aad_inv [OF v _ aad] st by auto
  obtain o1 where m1: "m1 = mb" and A1: "aes_encr cr a0 False ?w = (None, o1, a1)"
    using aad2 m0 by (auto simp: aes_aad_def split: prod.splits)
  have A: "feed_aad (aes_encr cr) (aes_set_iv cr aes ?iv) [?h, ?w] = Some a1" using A0 A1 by simp
  obtain C where C: "aes_encr cr a1 True P = (None, C, a2)" using aes_run_inv [OF v run [unfolded m1]] by auto
  obtain T where T: "aes_get_authtag cr a2 GCM_TAGLEN = (None, T, a3)"
    and wr: "put al (m2\<lparr>mb_pos := mb_end m2\<rparr>) T = (None, mb')"
    using tag by (auto simp: put_authtag_def and_then_def split: prod.splits option.splits)
  note o = rtcp_opens_gcm [OF cr c _ A C T]
  have m2: "mbv m2 (length pre) (pre @ C)" using aes_run_view [of mb pre P "[]" "aes_encr cr", OF _ C] v o(1) run m1 by simp
  have "mbv (m2\<lparr>mb_pos := mb_end m2\<rparr>) (length (pre @ C)) (pre @ C)"
    using mbv_set_pos [OF m2, of "length (pre @ C)"] mbvD(3) [OF m2] by simp
  from mbv_writes [OF writes_prims(1) this _ wr] have "mbv mb' (length (pre @ C) + 16) (pre @ C @ T)"
    using o(1,2) room by simp
  moreover have "same_keys key c' c"
    using c c' key_kept(4) [OF cr T] key_kept(2) [OF cr C] key_kept(2) [OF cr A1] key_kept(2) [OF cr A0] key_kept(1) [OF cr]
    by (simp add: same_keys_def)
  ultimately show ?thesis using o by (intro exI [of _ "C @ T"] exI [of _ "length (pre @ C) + 16"]) auto
qed

lemma rtcp_encipher_opens:
  assumes cr: "crypto_ok cr key" and v: "mbv mb (length pre) (pre @ P)" and st: "start \<le> length pre"
    and room: "length pre + length P + 16 < size_mod"
    and enc: "rtcp_encipher cr al start ssrc ix (c, mb) = (None, c', mb')"
  shows "\<exists>S q. mbv mb' q (pre @ S) \<and> length S \<le> length P + 16 \<and> same_keys key c' c
    \<and> rtcp_opens cr key ssrc ix c (drop start pre) (be32 (eix_word c ix)) S P"
proof (cases "c_aes c")
  case None
  have "mb' = mb" "c' = c" using enc None by (simp_all add: rtcp_encipher_def with_aes_def)
  moreover have "rtcp_opens cr key ssrc ix c (drop start pre) w P P" for w
  proof -
    have "mbv (m\<lparr>mb_end := length (xs @ P), mb_pos := n\<rparr>) n (xs @ P)" if "mbv m p ((xs @ P) @ w)" "n \<le> length xs" for m p xs n
      using mbv_cut [OF that(1), of n "length (xs @ P)"] that(2) by simp
    then show ?thesis using None by (auto simp: rtcp_opens_def rtcp_decipher_def same_keys_def)
  qed
  ultimately show ?thesis using v by (intro exI [of _ P] exI [of _ "length pre"]) (auto simp: same_keys_def)
next
  case (Some aes)
  then show ?thesis
    using rtcp_encipher_ctr [OF cr v Some _ enc] rtcp_encipher_gcm [OF cr v st room Some _ enc] by (cases "c_mode c") simp_all
qed

lemma rtcp_sign_verify:
  assumes cr: "crypto_ok cr key" and v: "mbv mb q xs" and st: "start \<le> length xs" and room: "length xs + 20 < size_mod"
    and c: "comp_ok c" and sign: "rtcp_sign cr al start (c, mb) = (None, c', mb')"
  shows "c' = c \<and> (\<exists>T q'. mbv mb' q' (xs @ T) \<and> length T = c_tag_len c \<and>
    (\<forall>m ys start' strm ix. mbv m (length ys) (ys @ T) \<longrightarrow> start' \<le> length ys \<longrightarrow> drop start' ys = drop start xs \<longrightarrow>
       (\<exists>m' p'. mbv m' p' ys \<and> rtcp_verify cr start' ix c (strm, m) =
          (if c_hmac c = None then (None, strm, m')
           else (case srtp_replay_check (Some (ss_replay_rtcp strm)) (ucast ix) of
                   (ok, r) \<Rightarrow> (if ok then None else Some EALREADY, strm\<lparr>ss_replay_rtcp := the r\<rparr>, m'))))))"
proof (cases "c_hmac c")
  case None
  then have "c' = c" "mb' = mb" using sign by (simp_all add: rtcp_sign_def)
  moreover have "c_tag_len c = 0" "rtcp_verify cr start' ix c (strm, m) = (None, strm, m)" for start' ix strm m
    using None c by (simp_all add: rtcp_verify_def comp_ok_def)
  ultimately show ?thesis using None v by (intro conjI exI [of _ "[]"] exI [of _ q]) auto
next
  case (Some k)
  have tl: "c_tag_len c \<le> 20" using c by (simp add: comp_ok_def)
  have v1: "mbv (mb\<lparr>mb_pos := start\<rparr>) start xs" using mbv_set_pos [OF v st] .
  have dat: "mb_after (mb\<lparr>mb_pos := start\<rparr>) = drop start xs" "mb_end mb = length xs" using mbvD(5) [OF v1] mbvD(3) [OF v] by simp_all
  obtain tag where hm: "hmac_digest cr k SHA_DIGEST_LENGTH (drop start xs) = (None, tag)"
    and w: "put al (mb\<lparr>mb_pos := length xs\<rparr>) (take (c_tag_len c) tag) = (None, mb')" and c': "c' = c"
    using sign Some dat by (auto simp: rtcp_sign_def Let_def split: prod.splits option.splits)
  let ?T = "take (c_tag_len c) tag"
  have "length tag = 20" using cr hm by (auto simp: crypto_ok_def hmac_length_def SHA_DIGEST_LENGTH_def)
  then have len: "length ?T = c_tag_len c" using tl by simp
  have "mbv (mb\<lparr>mb_pos := length xs\<rparr>) (length xs) xs" using mbv_set_pos [OF v order_refl] .
  from mbv_writes [OF writes_prims(1) this _ w] have "mbv mb' (length xs + length ?T) (xs @ ?T)" using room len tl by simp
  moreover have "\<exists>m' p'. mbv m' p' ys \<and> rtcp_verify cr start' ix c (strm, m) =
      (case srtp_replay_check (Some (ss_replay_rtcp strm)) (ucast ix) of
         (ok, r) \<Rightarrow> (if ok then None else Some EALREADY, strm\<lparr>ss_replay_rtcp := the r\<rparr>, m'))"
    if vm: "mbv m (length ys) (ys @ ?T)" and st': "start' \<le> length ys" and d: "drop start' ys = drop start xs" for m ys start' strm ix
  proof -
    let ?m1 = "mb_adv m (c_tag_len c)"
    let ?m2 = "?m1\<lparr>mb_pos := start', mb_end := length ys\<rparr>"
    have rd: "mbuf_read_mem m (c_tag_len c) = (None, ?T, ?m1)" using mbv_read_mem [OF vm, of "c_tag_len c"] len by simp
    have v2: "mbv ?m2 start' ys" using mbv_set_posend [OF mbv_adv [OF vm, of "c_tag_len c"] st'] len by simp
    then have dat: "mb_after ?m2 = drop start xs" using mbvD(5) d by metis
    have "rtcp_verify cr start' ix c (strm, m) = (case srtp_replay_check (Some (ss_replay_rtcp strm)) (ucast ix) of
        (ok, r) \<Rightarrow> (if ok then None else Some EALREADY, strm\<lparr>ss_replay_rtcp := the r\<rparr>, ?m2))"
      using Some tl rd hm dat mbvD(2) [OF vm] by (simp add: rtcp_verify_def Let_def SHA_DIGEST_LENGTH_def del: srtp_replay_check.simps)
    with v2 show ?thesis by blast
  qed
  ultimately show ?thesis using c' Some len by (intro conjI exI [of _ ?T] exI [of _ "length xs + length ?T"]) auto
qed

section \<open>The trailing word\<close>

lemma eix_word_parts:
  assumes "\<not> bit ix 31"
  shows "drop_bit 31 (eix_word c ix) AND 1 \<noteq> 0 \<longleftrightarrow> c_aes c \<noteq> None" and "eix_word c ix AND 0x7fffffff = ix"
proof -
  have b: "bit (eix_word c ix) n \<longleftrightarrow> n = 31 \<and> c_aes c \<noteq> None \<or> bit ix n" for n
    by (auto simp: eix_word_def bit_simps)
  have "drop_bit 31 (eix_word c ix) AND 1 \<noteq> 0 \<longleftrightarrow> bit (eix_word c ix) 31"
    by (simp add: and_one_eq bit_iff_odd_drop_bit mod_2_eq_odd)
  with b [of 31] assms show "drop_bit 31 (eix_word c ix) AND 1 \<noteq> 0 \<longleftrightarrow> c_aes c \<noteq> None" by simp
  have m: "(0x7fffffff :: u32) = mask 31" by (simp add: mask_eq_exp_minus_1)
  show "eix_word c ix AND 0x7fffffff = ix"
    unfolding m
  proof (rule bit_word_eqI)
    fix n :: nat
    assume n: "n < LENGTH(32)"
    show "bit (eix_word c ix AND mask 31) n = bit ix n"
      using assms b [of n] n by (cases "n = 31") (auto simp: bit_simps)
  qed
qed

lemma rtcp_index_bit: "\<not> bit (x AND 0x7fffffff :: u32) 31"
  by (simp add: bit_and_iff)

section \<open>One packet\<close>

definition rtcp_stream :: "'a srtp \<Rightarrow> u32 \<Rightarrow> srtp_stream" where
  "rtcp_stream srtp ssrc = (case stream_find srtp ssrc of Some s \<Rightarrow> s | None \<Rightarrow> stream_zero ssrc)"

text \<open>How many control packets a sender has sealed; and a receiver that has opened none after them.\<close>

definition sent :: "'a srtp \<Rightarrow> u32 \<Rightarrow> nat" where
  "sent srtp ssrc = unat (ss_rtcp_index (rtcp_stream srtp ssrc))"

definition rtcp_ready :: "'a srtp \<Rightarrow> u32 \<Rightarrow> nat \<Rightarrow> bool" where
  "rtcp_ready srtp ssrc n \<longleftrightarrow> unat (lix (ss_replay_rtcp (rtcp_stream srtp ssrc))) \<le> n
     \<and> (stream_find srtp ssrc \<noteq> None \<or> length (sr_streaml srtp) < SRTP_MAX_STREAMS)"

definition rtcp_packet :: "u32 \<Rightarrow> mbuf \<Rightarrow> bool" where
  "rtcp_packet ssrc mb \<longleftrightarrow> mbuf_ok mb \<and> mb_end mb + 40 < size_mod
     \<and> (\<exists>h P. length h = 4 \<and> mb_after mb = (h @ be32 ssrc) @ P)"

lemma next_index:
  assumes "unat i = n" and "n + 1 < 2 ^ 31"
  shows "unat ((i + 1) AND 0x7fffffff :: u32) = n + 1"
proof -
  have m: "(0x7fffffff :: u32) = mask 31" by (simp add: mask_eq_exp_minus_1)
  have "unat (i + 1) = n + 1" using assms by (simp add: unat_plus_if')
  then have "unat (take_bit 31 (i + 1)) = take_bit 31 (n + 1)" by (simp only: unsigned_take_bit_eq)
  then show ?thesis unfolding m using assms(2) by (simp add: take_bit_nat_eq_self flip: take_bit_eq_mask)
qed

lemma srtcp_encrypt_parts:
  assumes enc: "srtcp_encrypt cr al mem tx mb = (None, tx', mb')" and ok: "mbuf_ok mb"
    and after: "mb_after mb = (h @ be32 ssrc) @ P" and h: "length h = 4"
  defines "ix \<equiv> (ss_rtcp_index (rtcp_stream tx ssrc) + 1) AND 0x7fffffff"
  obtains c1 m1 m2 m3 where
    "rtcp_encipher cr al (mb_pos mb) ssrc ix (sr_rtcp tx, mb_adv mb 8) = (None, c1, m1)"
    "put al (m1\<lparr>mb_pos := mb_end m1\<rparr>) (be32 (eix_word (sr_rtcp tx) ix)) = (None, m2)"
    "rtcp_sign cr al (mb_pos mb) (c1, m2) = (None, sr_rtcp tx', m3)" "mb' = m3\<lparr>mb_pos := mb_pos mb\<rparr>"
    "stream_find tx' ssrc = Some ((rtcp_stream tx ssrc)\<lparr>ss_rtcp_index := ix\<rparr>)"
proof -
  have v: "mbv mb (length (mb_before mb)) (mb_before mb @ (h @ be32 ssrc) @ P)" using mbvI [OF ok] after ok by simp
  have g: "get_rtcp_ssrc mb = (None, ssrc, mb_adv mb 8)" using get_rtcp_ssrc_view(1) [OF v] h by simp
  obtain s j where sg: "stream_get mem tx ssrc = Inr (s, j)"
    using enc g by (cases "stream_get mem tx ssrc") (auto simp: srtcp_encrypt_def Let_def)
  note f = stream_get_found [OF sg]
  have s: "s = rtcp_stream tx ssrc" using f(5) by (simp add: rtcp_stream_def)
  let ?s = "s\<lparr>ss_rtcp_index := ix\<rparr>"
  have put: "stream_find (stream_put j ?s) ssrc = Some ?s" using stream_find_put [of j ?s] f(1,2) by simp
  have ix: "(ss_rtcp_index s + 1) AND 0x7fffffff = ix" by (simp add: ix_def s)
  obtain e1 c1 m1 where p1: "rtcp_encipher cr al (mb_pos mb) ssrc ix (sr_rtcp tx, mb_adv mb 8) = (e1, c1, m1)"
    by (cases "rtcp_encipher cr al (mb_pos mb) ssrc ix (sr_rtcp tx, mb_adv mb 8)")
  obtain e2 m2 where p2: "put al (m1\<lparr>mb_pos := mb_end m1\<rparr>) (be32 (eix_word (sr_rtcp tx) ix)) = (e2, m2)"
    by (cases "put al (m1\<lparr>mb_pos := mb_end m1\<rparr>) (be32 (eix_word (sr_rtcp tx) ix))")
  obtain e3 c3 m3 where p3: "rtcp_sign cr al (mb_pos mb) (c1, m2) = (e3, c3, m3)" by (cases "rtcp_sign cr al (mb_pos mb) (c1, m2)")
  have "e1 = None \<and> e2 = None \<and> e3 = None \<and> tx' = (stream_put j ?s)\<lparr>sr_rtcp := c3\<rparr> \<and> mb' = m3\<lparr>mb_pos := mb_pos mb\<rparr>"
    using enc g sg f(4) ix p1 p2 [unfolded eix_word_def] p3
    by (cases e1; cases e2; cases e3) (simp_all add: srtcp_encrypt_def Let_def and_then_def write_be)
  then show thesis using that p1 p2 p3 put by (simp add: stream_find_def s)
qed

text \<open>What the sender leaves in the buffer, and what a receiver makes of the pieces.\<close>

lemma srtcp_sealed:
  assumes cr: "crypto_ok cr key" and cok: "comp_ok (sr_rtcp tx)"
    and ok: "mbuf_ok mb" and after: "mb_after mb = (h @ be32 ssrc) @ P" and h: "length h = 4" and room: "mb_end mb + 40 < size_mod"
    and enc: "srtcp_encrypt cr al mem tx mb = (None, tx', mb')"
  defines "ix \<equiv> (ss_rtcp_index (rtcp_stream tx ssrc) + 1) AND 0x7fffffff"
  obtains S T where "mbuf_ok mb'" "mb_after mb' = (h @ be32 ssrc) @ S @ be32 (eix_word (sr_rtcp tx) ix) @ T"
    "length T = c_tag_len (sr_rtcp tx)" "same_keys key (sr_rtcp tx') (sr_rtcp tx)"
    "rtcp_opens cr key ssrc ix (sr_rtcp tx) (h @ be32 ssrc) (be32 (eix_word (sr_rtcp tx) ix)) S P"
    "\<And>m ys start strm ix'. mbv m (length ys) (ys @ T) \<Longrightarrow> start \<le> length ys \<Longrightarrow>
       drop start ys = (h @ be32 ssrc) @ S @ be32 (eix_word (sr_rtcp tx) ix) \<Longrightarrow>
       \<exists>m' p'. mbv m' p' ys \<and> rtcp_verify cr start ix' (sr_rtcp tx') (strm, m) =
          (if c_hmac (sr_rtcp tx') = None then (None, strm, m')
           else (case srtp_replay_check (Some (ss_replay_rtcp strm)) (ucast ix') of
                   (ok, r) \<Rightarrow> (if ok then None else Some EALREADY, strm\<lparr>ss_replay_rtcp := the r\<rparr>, m')))"
proof -
  let ?pre = "mb_before mb" and ?H = "h @ be32 ssrc" and ?w = "be32 (eix_word (sr_rtcp tx) ix)"
  have v: "mbv mb (length ?pre) (?pre @ ?H @ P)" and pos: "mb_pos mb = length ?pre" using mbvI [OF ok] after ok by simp_all
  have v0: "mbv (mb_adv mb 8) (length (?pre @ ?H)) ((?pre @ ?H) @ P)" using get_rtcp_ssrc_view(2) [OF v] h by simp
  have size: "length (?pre @ ?H) + length P + 40 < size_mod" using room mbvD(3) [OF v] by simp
  obtain c1 m1 m2 m3 where p1: "rtcp_encipher cr al (mb_pos mb) ssrc ix (sr_rtcp tx, mb_adv mb 8) = (None, c1, m1)"
    and p2: "put al (m1\<lparr>mb_pos := mb_end m1\<rparr>) ?w = (None, m2)"
    and p3: "rtcp_sign cr al (mb_pos mb) (c1, m2) = (None, sr_rtcp tx', m3)" and mb': "mb' = m3\<lparr>mb_pos := mb_pos mb\<rparr>"
    using srtcp_encrypt_parts [OF enc ok after h] unfolding ix_def by metis
  obtain S q where v1: "mbv m1 q ((?pre @ ?H) @ S)" and S: "length S \<le> length P + 16" and k1: "same_keys key c1 (sr_rtcp tx)"
    and op: "rtcp_opens cr key ssrc ix (sr_rtcp tx) ?H ?w S P"
    using rtcp_encipher_opens [OF cr v0 _ _ p1] size pos by auto
  let ?xs = "((?pre @ ?H) @ S) @ ?w"
  have "mbv (m1\<lparr>mb_pos := mb_end m1\<rparr>) (length ((?pre @ ?H) @ S)) ((?pre @ ?H) @ S)"
    using mbv_set_pos [OF v1 order_refl] mbvD(3) [OF v1] by simp
  from mbv_writes [OF writes_prims(1) this _ p2] S size have v2: "mbv m2 (length ?xs) ?xs" by (simp add: ac_simps)
  have c1: "comp_ok c1" "c_tag_len c1 = c_tag_len (sr_rtcp tx)" using k1 cok by (auto simp: same_keys_def comp_ok_def)
  obtain T q' where c1': "sr_rtcp tx' = c1" and v3: "mbv m3 q' (?xs @ T)" and T: "length T = c_tag_len c1"
    and ver: "\<forall>m ys start' strm ix. mbv m (length ys) (ys @ T) \<longrightarrow> start' \<le> length ys \<longrightarrow> drop start' ys = drop (mb_pos mb) ?xs \<longrightarrow>
       (\<exists>m' p'. mbv m' p' ys \<and> rtcp_verify cr start' ix c1 (strm, m) =
          (if c_hmac c1 = None then (None, strm, m')
           else (case srtp_replay_check (Some (ss_replay_rtcp strm)) (ucast ix) of
                   (ok, r) \<Rightarrow> (if ok then None else Some EALREADY, strm\<lparr>ss_replay_rtcp := the r\<rparr>, m'))))"
    using rtcp_sign_verify [OF cr v2 _ _ c1(1) p3] S size pos by auto
  have v4: "mbv mb' (length ?pre) (?xs @ T)" using mbv_set_pos [OF v3, of "length ?pre"] mb' pos by simp
  show thesis
  proof (rule that [OF mbvD(1) [OF v4]])
    show "mb_after mb' = ?H @ S @ ?w @ T" using mbvD(5) [OF v4] by simp
    show "drop start ys = ?H @ S @ ?w \<Longrightarrow> mbv m (length ys) (ys @ T) \<Longrightarrow> start \<le> length ys \<Longrightarrow>
       \<exists>m' p'. mbv m' p' ys \<and> rtcp_verify cr start ix' (sr_rtcp tx') (strm, m) =
          (if c_hmac (sr_rtcp tx') = None then (None, strm, m')
           else (case srtp_replay_check (Some (ss_replay_rtcp strm)) (ucast ix') of
                   (ok, r) \<Rightarrow> (if ok then None else Some EALREADY, strm\<lparr>ss_replay_rtcp := the r\<rparr>, m')))" for m ys start strm ix'
      using ver pos c1' by (simp del: srtp_replay_check.simps)
  qed (use T c1 c1' k1 op in simp_all)
qed

lemma replay_new:
  assumes "unat (lix r) < unat (ix :: u32)"
  shows "\<exists>w. srtp_replay_check (Some r) (ucast ix) = (True, Some w) \<and> unat (lix w) = unat ix"
proof -
  have "unat (ucast ix :: u64) = unat ix" 
    using unsigned_less [of ix, where ?'a = nat] by (simp add: unsigned_ucast_eq take_bit_nat_eq_self)
  then show ?thesis using assms by (simp add: Let_def word_less_nat_alt)
qed

lemma srtcp_open_sealed:
  assumes cr: "crypto_ok cr key" and keys: "same_keys key (sr_rtcp tx) (sr_rtcp rx)" and cok: "comp_ok (sr_rtcp tx)"
    and ok: "mbuf_ok mb" and after: "mb_after mb = (h @ be32 ssrc) @ P" and h: "length h = 4" and room: "mb_end mb + 40 < size_mod"
    and enc: "srtcp_encrypt cr al mem tx mb = (None, tx', mb')" and few: "sent tx ssrc + 1 < 2 ^ 31"
    and rok: "mbuf_ok rmb" and dgram: "mb_after rmb = mb_after mb'" and ready: "rtcp_ready rx ssrc (sent tx ssrc)"
  shows "\<exists>rx' rmb'. srtcp_decrypt cr True rx rmb = (None, rx', rmb') \<and> mb_after rmb' = mb_after mb
    \<and> same_keys key (sr_rtcp tx') (sr_rtcp rx') \<and> rtcp_ready rx' ssrc (sent tx ssrc + 1)"
proof -
  let ?n = "sent tx ssrc" and ?H = "h @ be32 ssrc" and ?c = "sr_rtcp tx"
  define ix where "ix = (ss_rtcp_index (rtcp_stream tx ssrc) + 1) AND 0x7fffffff"
  have ixn: "unat ix = ?n + 1" using next_index [OF _ few] by (simp add: ix_def sent_def)
  have ixb: "\<not> bit ix 31" unfolding ix_def by (rule rtcp_index_bit)
  let ?w = "be32 (eix_word ?c ix)"
  obtain S T where a': "mb_after mb' = ?H @ S @ ?w @ T" and T: "length T = c_tag_len ?c" and k1: "same_keys key (sr_rtcp tx') ?c"
    and op: "rtcp_opens cr key ssrc ix ?c ?H ?w S P"
    and ver: "\<And>m ys start strm ix'. mbv m (length ys) (ys @ T) \<Longrightarrow> start \<le> length ys \<Longrightarrow> drop start ys = ?H @ S @ ?w \<Longrightarrow>
       \<exists>m' p'. mbv m' p' ys \<and> rtcp_verify cr start ix' (sr_rtcp tx') (strm, m) =
          (if c_hmac (sr_rtcp tx') = None then (None, strm, m')
           else (case srtp_replay_check (Some (ss_replay_rtcp strm)) (ucast ix') of
                   (ok, r) \<Rightarrow> (if ok then None else Some EALREADY, strm\<lparr>ss_replay_rtcp := the r\<rparr>, m')))"
    by (rule srtcp_sealed [OF cr cok ok after h room enc]) (auto simp: ix_def)
  let ?pre = "mb_before rmb"
  let ?ys = "((?pre @ ?H) @ S) @ ?w"
  have v: "mbv rmb (length ?pre) (?pre @ ?H @ S @ ?w @ T)" and pos: "mb_pos rmb = length ?pre"
    using mbvI [OF rok] dgram a' rok by simp_all
  have g: "get_rtcp_ssrc rmb = (None, ssrc, mb_adv rmb 8)" using get_rtcp_ssrc_view(1) [OF v] h by simp
  have v0: "mbv (mb_adv rmb 8) (length (?pre @ ?H)) (?pre @ ?H @ S @ ?w @ T)" using get_rtcp_ssrc_view(2) [OF v] h by simp
  obtain s j where sg: "stream_get True rx ssrc = Inr (s, j)"
    using ready by (cases "stream_find rx ssrc") (auto simp: rtcp_ready_def stream_get_def stream_new_def)
  note f = stream_get_found [OF sg]
  have s: "s = rtcp_stream rx ssrc" using f(5) by (simp add: rtcp_stream_def)
  define eix where "eix = length ((?pre @ ?H) @ S)"
  let ?m1 = "(mb_adv rmb 8)\<lparr>mb_pos := eix\<rparr>"
  have v1: "mbv ?m1 eix (?ys @ T)" using mbv_set_pos [OF v0, of eix] by (simp add: eix_def)
  have rd: "read_be32 ?m1 = (eix_word ?c ix, mb_adv ?m1 4)" using mbv_read_be32 [OF v1] by (simp add: eix_def)
  have v2: "mbv (mb_adv ?m1 4) (length ?ys) (?ys @ T)" using mbv_adv [OF v1, of 4] by (simp add: eix_def ac_simps)
  obtain w where w: "srtp_replay_check (Some (ss_replay_rtcp s)) (ucast ix) = (True, Some w)" "unat (lix w) = ?n + 1"
    using replay_new [of "ss_replay_rtcp s" ix] ready ixn s by (auto simp: rtcp_ready_def)
  have kr: "same_keys key (sr_rtcp tx') (sr_rtcp rx)" using same_keys_trans [OF k1 keys] .
  have cong: "c_hmac (sr_rtcp rx) = c_hmac (sr_rtcp tx')" "c_tag_len (sr_rtcp rx) = c_tag_len (sr_rtcp tx')" "c_tag_len (sr_rtcp rx) = c_tag_len ?c"
    using kr keys by (simp_all add: same_keys_def)
  define s2 where "s2 = (if c_hmac (sr_rtcp tx') = None then s else s\<lparr>ss_replay_rtcp := w\<rparr>)"
  obtain m' p' where v3: "mbv m' p' ?ys" and vf: "rtcp_verify cr (length ?pre) ix (sr_rtcp rx) (s, mb_adv ?m1 4) = (None, s2, m')"
  proof -
    have "rtcp_verify cr st i (sr_rtcp rx) x = rtcp_verify cr st i (sr_rtcp tx') x" for st i x
      unfolding rtcp_verify_def cong ..
    moreover have "drop (length ?pre) ?ys = ?H @ S @ ?w" by simp
    ultimately show thesis
      using ver [OF v2, of "length ?pre" ix s] w(1) that by (auto simp: s2_def simp del: srtp_replay_check.simps)
  qed
  obtain d' m4 where dc: "rtcp_decipher cr (length ?pre) (length (?pre @ ?H)) eix (c_aes ?c \<noteq> None) ssrc ix (sr_rtcp rx) (m'\<lparr>mb_end := eix\<rparr>) = (None, d', m4)"
    and v4: "mbv (m4\<lparr>mb_pos := length ?pre\<rparr>) (length ?pre) ((?pre @ ?H) @ P)" and kd: "same_keys key d' (sr_rtcp rx)"
  proof -
    have "rtcp_opens cr key ssrc ix ?c (drop (length ?pre) (?pre @ ?H)) ?w S P" using op by simp
    from rtcp_opensD [OF this keys v3] show thesis using that unfolding eix_def by auto
  qed
  have "srtcp_decrypt cr True rx rmb = (None, (stream_put j s2)\<lparr>sr_rtcp := d'\<rparr>, m4\<lparr>mb_pos := length ?pre\<rparr>)"
  proof -
    have "\<not> mbuf_get_left (mb_adv rmb 8) < 4 + c_tag_len ?c" "mb_end rmb - (4 + c_tag_len ?c) = eix"
      using mbvD(3,7) [OF v0] T by (simp_all add: eix_def)
    then show ?thesis
      using g sg f(4) rd eix_word_parts [OF ixb, of ?c] vf dc cong(3) mbvD(2) [OF v0] pos
      by (simp add: srtcp_decrypt_def Let_def)
  qed
  moreover have "stream_find (stream_put j s2) ssrc = Some s2"
    using stream_find_put [of j s2] f(1,2) by (simp add: s2_def)
  then have "rtcp_ready ((stream_put j s2)\<lparr>sr_rtcp := d'\<rparr>) ssrc (?n + 1)"
    using w(2) ready s by (auto simp: rtcp_ready_def rtcp_stream_def stream_find_def s2_def)
  moreover have "same_keys key (sr_rtcp tx') d'" using kr kd same_keys_trans same_keys_sym by blast
  ultimately show ?thesis using mbvD(5) [OF v4] after by auto
qed

section \<open>A session\<close>

lemma srtcp_session_step:
  assumes cr: "crypto_ok cr key" and "each_packet (srtcp_encrypt cr al True) tx ms = Some cs"
    and "list_all (rtcp_packet ssrc) ms" and "sent tx ssrc + length ms < 2 ^ 31"
    and "same_keys key (sr_rtcp tx) (sr_rtcp rx)" and "comp_ok (sr_rtcp tx)"
    and "list_all2 (\<lambda>c r. mbuf_ok r \<and> mb_after r = mb_after c) cs rs"
    and "length lost = length ms" and "rtcp_ready rx ssrc (sent tx ssrc)"
  shows "\<exists>os. each_packet (srtcp_decrypt cr True) rx (arrived lost rs) = Some os \<and> map mb_after os = map mb_after (arrived lost ms)"
  using assms(2-)
proof (induction ms arbitrary: tx rx cs rs lost)
  case (Cons m ms)
  obtain tx' c cs' where enc: "srtcp_encrypt cr al True tx m = (None, tx', c)" and cs: "cs = c # cs'"
    and rest: "each_packet (srtcp_encrypt cr al True) tx' ms = Some cs'"
    using Cons.prems(1) by (auto split: prod.splits option.splits)
  obtain r rs' where rs: "rs = r # rs'" and r: "mbuf_ok r" "mb_after r = mb_after c"
    and rs': "list_all2 (\<lambda>c r. mbuf_ok r \<and> mb_after r = mb_after c) cs' rs'"
    using Cons.prems(6) cs by (auto simp: list_all2_Cons1)
  obtain l ls where lost: "lost = l # ls" "length ls = length ms" using Cons.prems(7) by (cases lost) auto
  obtain h P where h: "length h = 4" and ok: "mbuf_ok m" and after: "mb_after m = (h @ be32 ssrc) @ P" and room: "mb_end m + 40 < size_mod"
    using Cons.prems(2) by (auto simp: rtcp_packet_def)
  let ?n = "sent tx ssrc"
  have few: "?n + 1 < 2 ^ 31" "?n + 1 + length ms < 2 ^ 31" using Cons.prems(3) by simp_all
  have k: "same_keys key (sr_rtcp tx') (sr_rtcp tx)" by (rule srtcp_sealed [OF cr Cons.prems(5) ok after h room enc])
  then have k2: "comp_ok (sr_rtcp tx')" using Cons.prems(5) by (auto simp: same_keys_def comp_ok_def)
  have n: "sent tx' ssrc = ?n + 1"
  proof -
    have "stream_find tx' ssrc = Some ((rtcp_stream tx ssrc)\<lparr>ss_rtcp_index := (ss_rtcp_index (rtcp_stream tx ssrc) + 1) AND 0x7fffffff\<rparr>)"
      by (rule srtcp_encrypt_parts [OF enc ok after h])
    then show ?thesis using next_index [OF refl, of "ss_rtcp_index (rtcp_stream tx ssrc)"] few(1) by (simp add: sent_def rtcp_stream_def)
  qed
  note IH = Cons.IH [OF rest _ _ _ k2 rs' lost(2)]
  show ?case
  proof (cases l)
    case True
    have "rtcp_ready rx ssrc (?n + 1)" using Cons.prems(8) by (auto simp: rtcp_ready_def)
    then show ?thesis
      using IH [of rx] Cons.prems(2) few(2) n same_keys_trans [OF k Cons.prems(4)] lost(1) rs True by simp
  next
    case False
    obtain rx' r' where "srtcp_decrypt cr True rx r = (None, rx', r')" "mb_after r' = mb_after m"
      "same_keys key (sr_rtcp tx') (sr_rtcp rx')" "rtcp_ready rx' ssrc (?n + 1)"
      using srtcp_open_sealed [OF cr Cons.prems(4,5) ok after h room enc few(1) r Cons.prems(8)] by blast
    then show ?thesis using IH [of rx'] Cons.prems(2) few(2) n lost(1) rs False by auto
  qed
qed simp

text \<open>When no library call and no allocation fails, sealing succeeds and leaves a buffer in order.\<close>

lemma srtcp_encrypt_total:
  assumes t: "crypto_total cr" "alloc_total al" and "rtcp_packet ssrc mb"
    and room: "stream_find tx ssrc \<noteq> None \<or> length (sr_streaml tx) < SRTP_MAX_STREAMS"
  shows "fst (srtcp_encrypt cr al True tx mb) = None"
proof -
  obtain h P where h: "length h = 4" and ok: "mbuf_ok mb" and after: "mb_after mb = (h @ be32 ssrc) @ P"
    using assms(3) by (auto simp: rtcp_packet_def)
  have v: "mbv mb (length (mb_before mb)) (mb_before mb @ (h @ be32 ssrc) @ P)" using mbvI [OF ok] after ok by simp
  have g: "get_rtcp_ssrc mb = (None, ssrc, mb_adv mb 8)" using get_rtcp_ssrc_view(1) [OF v] h by simp
  have aad: "fst (aes_aad_mem (aes_encr cr) p n x) = None" "fst (aes_aad (aes_encr cr) bs x) = None" for p n x bs
    using t(1) by (simp_all add: aes_aad_mem_def aes_aad_def crypto_total_def case_prod_beta)
  have run: "fst (aes_run (aes_encr cr) p n x) = None" for p n x
    using t(1) by (simp add: aes_run_def crypto_total_def case_prod_beta)
  have both: "fst (also_err (aes_aad_mem (aes_encr cr) p n x) (aes_aad (aes_encr cr) bs)) = None" for p n x bs
    using aad by (simp add: also_err_def case_prod_beta)
  have enc: "fst (rtcp_encipher cr al start ssrc ix x) = None" for start ix x
    using run and_then_total [OF and_then_total [OF both run] put_authtag_total [OF t]]
    by (cases x) (simp add: rtcp_encipher_def with_aes_def case_prod_beta split: option.split aes_mode.split)
  have wr: "fst (case x of (c, mb) \<Rightarrow> case mbuf_write_u32 al (mb\<lparr>mb_pos := mb_end mb\<rparr>) (htonl w) of (err, mb) \<Rightarrow> (err, c, mb)) = None"
    for x :: "'a comp \<times> mbuf" and w
    using write_total [OF t(2)] by (cases x) (simp add: write_be case_prod_beta)
  have sign: "fst (rtcp_sign cr al start x) = None" for start x
    using t(1) write_total [OF t(2)] by (cases x) (simp add: rtcp_sign_def Let_def crypto_total_def case_prod_beta split: option.split)
  have all: "fst (and_then (and_then (rtcp_encipher cr al st ssrc ix x)
      (\<lambda>(c, mb). case mbuf_write_u32 al (mb\<lparr>mb_pos := mb_end mb\<rparr>) (htonl w) of (err, mb) \<Rightarrow> (err, c, mb))) (rtcp_sign cr al st)) = None"
    for st ix x w
    by (rule and_then_total [OF and_then_total [OF enc] sign]) (rule wr)
  have fc: "fst (case r of (Some err, c, m) \<Rightarrow> (Some err, f c m) | (None, c, m) \<Rightarrow> (None, k c m)) = fst r"
    for r :: "errno option \<times> 'a comp \<times> mbuf" and f k :: "'a comp \<Rightarrow> mbuf \<Rightarrow> 'a srtp \<times> mbuf"
    by (cases r; cases "fst r") auto
  obtain s j where "stream_get True tx ssrc = Inr (s, j)"
    using room by (cases "stream_find tx ssrc") (auto simp: stream_get_def stream_new_def)
  then show ?thesis using g unfolding srtcp_encrypt_def Let_def by (simp add: fc all del: push_bit_of_1)
qed

lemma srtcp_seal_total:
  assumes t: "crypto_total cr" "alloc_total al" and cr: "crypto_ok cr key" and "list_all (rtcp_packet ssrc) ms" and "comp_ok (sr_rtcp tx)"
    and "stream_find tx ssrc \<noteq> None \<or> length (sr_streaml tx) < SRTP_MAX_STREAMS"
  shows "\<exists>cs. each_packet (srtcp_encrypt cr al True) tx ms = Some cs \<and> list_all mbuf_ok cs"
  using assms(4-)
proof (induction ms arbitrary: tx)
  case (Cons m ms)
  obtain tx' c where enc: "srtcp_encrypt cr al True tx m = (None, tx', c)"
    using srtcp_encrypt_total [OF t _ Cons.prems(3), of m] Cons.prems(1) by (cases "srtcp_encrypt cr al True tx m") auto
  obtain h P where h: "length h = 4" and ok: "mbuf_ok m" and after: "mb_after m = (h @ be32 ssrc) @ P" and room: "mb_end m + 40 < size_mod"
    using Cons.prems(1) by (auto simp: rtcp_packet_def)
  have "stream_find tx' ssrc \<noteq> None" by (rule srtcp_encrypt_parts [OF enc ok after h]) simp
  moreover have "same_keys key (sr_rtcp tx') (sr_rtcp tx) \<and> mbuf_ok c"
    by (rule srtcp_sealed [OF cr Cons.prems(2) ok after h room enc]) simp
  then have "comp_ok (sr_rtcp tx')" "mbuf_ok c" using Cons.prems(2) by (auto simp: same_keys_def comp_ok_def)
  ultimately show ?case using Cons enc by fastforce
qed simp

text \<open>C28:
  Control packets of a source, sealed in a fresh session of any suite, are all opened by a peer with the
  same master key and give back header and body, whatever packets in between are lost, up to
  the \<open>2 ^ 31\<close> packets that have different indices.
\<close>

theorem srtcp_session_delivers:
  assumes "crypto_ok cr key" and "srtp_alloc cr True suite mk fl = Inr s0"
    and "list_all (rtcp_packet ssrc) ms" and "length ms < 2 ^ 31"
    and "each_packet (srtcp_encrypt cr al True) s0 ms = Some cs" and "length lost = length ms"
    and "list_all2 (\<lambda>c r. mbuf_ok r \<and> mb_after r = mb_after c) cs rs"
  shows "\<exists>os. each_packet (srtcp_decrypt cr True) s0 (arrived lost rs) = Some os
    \<and> map mb_after os = map mb_after (arrived lost ms)"
proof -
  obtain mode cb sb ab hash where "suite_params suite = (mode, cb, sb, ab, hash)" by (cases "suite_params suite")
  from srtp_alloc_parts(1) [OF assms(2) this] have nil: "stream_find s0 ssrc = None" "length (sr_streaml s0) = 0"
    by (simp_all add: stream_find_def)
  then have "sent s0 ssrc = 0" "rtcp_ready s0 ssrc 0"
    by (simp_all add: sent_def rtcp_ready_def rtcp_stream_def stream_zero_def srtp_replay_init_def replay0_def SRTP_MAX_STREAMS_def)
  moreover have "same_keys key (sr_rtcp s0) (sr_rtcp s0)" by (simp add: same_keys_def)
  ultimately show ?thesis
    using srtcp_session_step [OF assms(1,5,3)] srtp_alloc_ok(2) [OF assms(2)] assms(4,6,7) by simp
qed

definition demo_rtcp :: "byte \<Rightarrow> mbuf" where
  "demo_rtcp b = mbuf_of ([0x80, 200, 0, 2, 0, 0, 0, 9] @ [b, 1, 2, 3])"

lemma demo_rtcp_packet: "rtcp_packet 9 (demo_rtcp b)"
proof -
  have "be32 9 = [0, 0, 0, 9]" by code_simp
  then have "mb_after (demo_rtcp b) = ([0x80, 200, 0, 2] @ be32 9) @ [b, 1, 2, 3]"
    by (simp add: demo_rtcp_def mbuf_of_def mb_after_def mb_bytes_def)
  moreover have "mbuf_ok (demo_rtcp b) \<and> mb_end (demo_rtcp b) + 40 < size_mod"
    by (simp add: demo_rtcp_def mbuf_of_def mbuf_ok_def size_mod_def mb_bytes_def)
  ultimately show ?thesis
    unfolding rtcp_packet_def by (intro conjI exI [of _ "[0x80, 200, 0, 2]"] exI [of _ "[b, 1, 2, 3]"]) simp_all
qed

theorem srtcp_session_delivers_witness:
  "\<exists>s0 cs os. srtp_alloc xor_crypto True SRTP_AES_256_GCM (replicate 44 7) False = Inr s0
     \<and> each_packet (srtcp_encrypt xor_crypto al_zero True) s0 [demo_rtcp 5, demo_rtcp 6, demo_rtcp 7] = Some cs
     \<and> each_packet (srtcp_decrypt xor_crypto True) s0 (arrived [False, True, False] cs) = Some os
     \<and> map mb_after os = map mb_after [demo_rtcp 5, demo_rtcp 7]"
proof -
  let ?a = "srtp_alloc xor_crypto True SRTP_AES_256_GCM (replicate 44 7) False" and ?ms = "[demo_rtcp 5, demo_rtcp 6, demo_rtcp 7]"
  have a: "?a = Inr (projr ?a)" "sr_streaml (projr ?a) = []" by code_simp+
  have ms: "list_all (rtcp_packet 9) ?ms" using demo_rtcp_packet by simp
  have "crypto_total xor_crypto" "alloc_total al_zero"
    by (simp_all add: crypto_total_def xor_crypto_def alloc_total_def al_zero_def)
  from srtcp_seal_total [OF this xor_crypto_ok ms srtp_alloc_ok(2) [OF a(1)]] a(2)
  obtain cs where cs: "each_packet (srtcp_encrypt xor_crypto al_zero True) (projr ?a) ?ms = Some cs" "list_all mbuf_ok cs"
    by (auto simp: SRTP_MAX_STREAMS_def)
  have rs: "list_all2 (\<lambda>c r. mbuf_ok r \<and> mb_after r = mb_after c) cs cs" using cs(2) by (simp add: list_all2_same list_all_iff)
  from srtcp_session_delivers [OF xor_crypto_ok a(1) ms _ cs(1) _ rs, of "[False, True, False]"]
  obtain os where "each_packet (srtcp_decrypt xor_crypto True) (projr ?a) (arrived [False, True, False] cs) = Some os"
    "map mb_after os = map mb_after (arrived [False, True, False] ?ms)" by auto
  then show ?thesis using a(1) cs(1) by (intro exI [of _ "projr ?a"] exI [of _ cs] exI [of _ os]) simp
qed

end
