(* ===== verification/Endian.thy ===== *)
theory Endian
  imports Prelude
begin

text \<open>
  The byte order conversions of \<open>re/src/sys/endian.c\<close>, written as the code writes them: bytes of the
  memory image shifted into place, or bytes of the value stored one after the other. On the
  little-endian target the little-endian ones are identities and the 64-bit ones reverse the bytes.
\<close>

definition sys_htols :: "u16 \<Rightarrow> u16" where
  "sys_htols v = (let p = word_bytes 2 v in ucast (p ! 0) OR push_bit 8 (ucast (p ! 1)))"

definition sys_htoll :: "u32 \<Rightarrow> u32" where
  "sys_htoll v = (let p = word_bytes 4 v in
     ucast (p ! 0) OR push_bit 8 (ucast (p ! 1)) OR push_bit 16 (ucast (p ! 2)) OR push_bit 24 (ucast (p ! 3)))"

definition sys_ltohs :: "u16 \<Rightarrow> u16" where
  "sys_ltohs v = word_of_bytes [ucast v, ucast (drop_bit 8 v)]"

definition sys_ltohl :: "u32 \<Rightarrow> u32" where
  "sys_ltohl v = word_of_bytes [ucast v, ucast (drop_bit 8 v), ucast (drop_bit 16 v), ucast (drop_bit 24 v)]"

definition sys_htonll :: "u64 \<Rightarrow> u64" where
  "sys_htonll v = (let p = word_bytes 8 v in
     push_bit 56 (ucast (p ! 0)) OR push_bit 48 (ucast (p ! 1)) OR push_bit 40 (ucast (p ! 2))
     OR push_bit 32 (ucast (p ! 3)) OR push_bit 24 (ucast (p ! 4)) OR push_bit 16 (ucast (p ! 5))
     OR push_bit 8 (ucast (p ! 6)) OR ucast (p ! 7))"

definition sys_ntohll :: "u64 \<Rightarrow> u64" where
  "sys_ntohll v = word_of_bytes (map (\<lambda>k. ucast (drop_bit k v)) [56, 48, 40, 32, 24, 16, 8, 0])"

lemma word_bytes_list:
  "word_bytes 2 v = map (\<lambda>k. ucast (drop_bit k v)) [0, 8]"
  "word_bytes 4 v = map (\<lambda>k. ucast (drop_bit k v)) [0, 8, 16, 24]"
  "word_bytes 8 v = map (\<lambda>k. ucast (drop_bit k v)) [0, 8, 16, 24, 32, 40, 48, 56]"
  by (simp_all add: word_bytes_def upt_rec)

lemma sys_little: "sys_htols v = v" "sys_ltohs v = v" "sys_htoll w = w" "sys_ltohl w = w"
proof -
  show "sys_htols v = v" "sys_ltohs v = v"
    using word_of_bytes_roundtrips(1) [of v] unfolding word_bytes_list sys_htols_def sys_ltohs_def Let_def by simp_all
  show "sys_htoll w = w" "sys_ltohl w = w"
    using word_of_bytes_roundtrips(2) [of w] unfolding word_bytes_list sys_htoll_def sys_ltohl_def Let_def
    by (simp_all add: push_bit_or)
qed

lemma sys_htonll_rev: "sys_htonll v = word_of_bytes (rev (word_bytes 8 v))"
  unfolding sys_htonll_def word_bytes_list Let_def
  by (simp add: push_bit_or ac_simps)

lemma sys_ntohll_rev: "sys_ntohll v = word_of_bytes (rev (word_bytes 8 v))"
  by (simp add: sys_ntohll_def word_bytes_list)

lemma sys_htonll_bytes: "word_bytes 8 (sys_htonll v) = rev (word_bytes 8 v)"
  using word_bytes_word_of_bytes [of "rev (word_bytes 8 v)", where 'a = 64] by (simp add: sys_htonll_rev)

lemma sys_ntohll_htonll [simp]: "sys_ntohll (sys_htonll v) = v"
  using sys_htonll_bytes [of v] by (simp add: sys_ntohll_rev)

text \<open>The 64-bit conversions are inverse to each other, each reverses the bytes in memory, and the
  little-endian conversions are the identity on the target.
\<close>

theorem sys_endian_correct:
  "sys_ntohll (sys_htonll v) = v \<and> sys_htonll (sys_ntohll v) = v
   \<and> word_bytes 8 (sys_htonll v) = rev (word_bytes 8 v) \<and> sys_ltohl (sys_htoll w) = w \<and> sys_ltohs (sys_htols u) = u"
  using sys_htonll_bytes [of v] by (simp add: sys_little sys_ntohll_rev sys_htonll_rev del: sys_ntohll_htonll)

end
