(* ===== verification/Mbuf_Region.thy ===== *)
theory Mbuf_Region
  imports Wire Endian
begin

text \<open>
  A third view of the buffer, for encoders that leave a gap for a header, write behind it and come back,
  with a cursor that may stand beyond the end or even beyond the block. \<open>holds mb q bs\<close> says that the
  block has the bytes \<open>bs\<close> at offset \<open>q\<close>; a write changes what is held at its own place only. \<open>wrote\<close> is
  the effect of a piece of an encoder, \<open>emits\<close> its contract: success has the effect, and success is
  certain when memory does not run out. A piece may fail to return: its result is an option.
\<close>

definition region_ok :: "mbuf \<Rightarrow> bool" where
  "region_ok mb \<longleftrightarrow> \<not> mb_ub mb \<and> mb_end mb \<le> mb_size mb \<and> mb_size mb \<le> length (mb_bytes mb)
     \<and> length (mb_bytes mb) < size_mod"

definition holds :: "mbuf \<Rightarrow> nat \<Rightarrow> byte list \<Rightarrow> bool" where
  "holds mb q bs \<longleftrightarrow> bs = [] \<or> q + length bs \<le> mb_size mb \<and> take (length bs) (drop q (mb_bytes mb)) = bs"

definition apart :: "nat \<Rightarrow> nat \<Rightarrow> nat \<Rightarrow> nat \<Rightarrow> bool" where
  "apart p m q n \<longleftrightarrow> q + n \<le> p \<or> p + m \<le> q"

definition wrote :: "mbuf \<Rightarrow> nat \<Rightarrow> byte list \<Rightarrow> mbuf \<Rightarrow> bool" where
  "wrote mb p bs mb' \<longleftrightarrow> region_ok mb' \<and> mb_pos mb' = p + length bs
     \<and> (mb_end mb' = max (mb_end mb) (p + length bs) \<or> bs = [] \<and> mb_end mb' = mb_end mb)
     \<and> holds mb' p bs \<and> (\<forall>q cs. holds mb q cs \<longrightarrow> apart p (length bs) q (length cs) \<longrightarrow> holds mb' q cs)"

definition emits :: "alloc \<Rightarrow> (mbuf \<Rightarrow> (errno option \<times> mbuf) option) \<Rightarrow> byte list \<Rightarrow> bool" where
  "emits al f bs \<longleftrightarrow>
     (\<forall>mb. region_ok mb \<longrightarrow> mb_pos mb + length bs < size_mod \<longrightarrow>
        (alloc_total al \<longrightarrow> (\<exists>mb'. f mb = Some (None, mb')))
        \<and> (\<forall>mb'. f mb = Some (None, mb') \<longrightarrow> wrote mb (mb_pos mb) bs mb'))"

abbreviation emit :: "alloc \<Rightarrow> (mbuf \<Rightarrow> errno option \<times> mbuf) \<Rightarrow> byte list \<Rightarrow> bool" where
  "emit al f \<equiv> emits al (\<lambda>mb. Some (f mb))"

lemma emitsD:
  assumes "emits al f bs" and "region_ok mb" and "mb_pos mb + length bs < size_mod"
  shows "f mb = Some (None, mb') \<Longrightarrow> wrote mb (mb_pos mb) bs mb'"
    and "alloc_total al \<Longrightarrow> \<exists>mb'. f mb = Some (None, mb')"
  using assms by (auto simp: emits_def)

section \<open>What is held\<close>

lemma holds_Nil [simp]: "holds mb q []"
  by (simp add: holds_def)

lemma take_eq_append:
  "take (length xs + length ys) z = xs @ ys \<longleftrightarrow> take (length xs) z = xs \<and> take (length ys) (drop (length xs) z) = ys"
proof
  assume eq: "take (length xs + length ys) z = xs @ ys"
  have "take (length xs) (take (length xs + length ys) z) = take (length xs) z" by (simp add: min_def)
  moreover have "drop (length xs) (take (length xs + length ys) z) = take (length ys) (drop (length xs) z)"
    by (simp add: drop_take)
  ultimately show "take (length xs) z = xs \<and> take (length ys) (drop (length xs) z) = ys" unfolding eq by simp
qed (simp add: take_add)

lemma holds_append: "holds mb q (xs @ ys) \<longleftrightarrow> holds mb q xs \<and> holds mb (q + length xs) ys"
  using take_eq_append [of xs ys "drop q (mb_bytes mb)"] by (cases "xs = []"; cases "ys = []") (auto simp: holds_def add.commute [of _ q])

lemma holds_pos [simp]: "holds (mb\<lparr>mb_pos := p\<rparr>) q bs = holds mb q bs"
  by (simp add: holds_def)

lemma region_ok_pos [simp]: "region_ok (mb\<lparr>mb_pos := p\<rparr>) = region_ok mb"
  by (simp add: region_ok_def)

lemma region_ok_tick [simp]: "region_ok (mb\<lparr>mb_tick := p\<rparr>) = region_ok mb"
  by (simp add: region_ok_def)

lemma mbuf_ok_region: "mbuf_ok mb \<Longrightarrow> region_ok mb"
  by (simp add: mbuf_ok_def region_ok_def)

lemma wroteD:
  assumes "wrote mb p bs mb'"
  shows "region_ok mb'" and "mb_pos mb' = p + length bs" and "bs \<noteq> [] \<Longrightarrow> mb_end mb' = max (mb_end mb) (p + length bs)"
    and "holds mb' p bs" and "holds mb q cs \<Longrightarrow> apart p (length bs) q (length cs) \<Longrightarrow> holds mb' q cs"
  using assms by (auto simp: wrote_def)

text \<open>The bytes before the cursor are held; a region that is held and ends the buffer can be read.\<close>

lemma holds_view:
  assumes "region_ok mb" and "holds mb p bs" and "mb_end mb = p + length bs"
  shows "mbuf_ok (mb\<lparr>mb_pos := p\<rparr>)" and "mb_after (mb\<lparr>mb_pos := p\<rparr>) = bs"
  using assms by (auto simp: mbuf_ok_def region_ok_def mb_after_def holds_def)

section \<open>Writing\<close>

lemma grow_region:
  assumes ok: "region_ok mb" and "r < size_mod" and res: "mbuf_grow al mb r = (None, mb')"
  shows "region_ok mb' \<and> mb_pos mb' = mb_pos mb \<and> mb_end mb' = mb_end mb \<and> r \<le> mb_size mb'
    \<and> (\<forall>q cs. holds mb q cs \<longrightarrow> holds mb' q cs)"
proof (cases "r > mb_size mb")
  case True
  define n where "n = max r (if mb_size mb \<noteq> 0 then (mb_size mb * 2) mod size_mod else DEFAULT_SIZE)"
  have n: "mb_size mb < n" "r \<le> n" "n < size_mod"
    using True assms(2) by (auto simp: n_def size_mod_def DEFAULT_SIZE_def)
  obtain fresh where mb': "mb' = mb\<lparr>mb_tick := Suc (mb_tick mb), mb_buf := Some (realloc_bytes (mb_bytes mb) fresh n), mb_size := n\<rparr>"
    using res True by (auto simp: mbuf_grow_def mbuf_resize_def Let_def n_def split: option.splits)
  have len: "length (realloc_bytes (mb_bytes mb) fresh n) = n" by (simp add: realloc_bytes_def)
  have keep: "take m (drop q (realloc_bytes (mb_bytes mb) fresh n)) = take m (drop q (mb_bytes mb))"
    if "q + m \<le> mb_size mb" for q m
  proof -
    have "take (q + m) (realloc_bytes (mb_bytes mb) fresh n) = take (q + m) (mb_bytes mb)"
      using that n(1) ok by (simp add: realloc_bytes_def region_ok_def)
    then have "drop q (take (q + m) (realloc_bytes (mb_bytes mb) fresh n)) = drop q (take (q + m) (mb_bytes mb))"
      by simp
    then show ?thesis by (simp add: drop_take)
  qed
  show ?thesis using ok n len by (auto simp: mb' region_ok_def holds_def keep)
next
  case False
  with res ok show ?thesis by (auto simp: mbuf_grow_def)
qed

lemma put_wrote:
  assumes ok: "region_ok mb" and fit: "mb_pos mb + length bs \<le> mb_size mb"
  shows "wrote mb (mb_pos mb) bs (mbuf_put mb bs)"
proof -
  let ?p = "mb_pos mb"
  have lt: "?p + length bs < size_mod" and le: "?p + length bs \<le> length (mb_bytes mb)"
    using fit ok by (auto simp: region_ok_def)
  define b where "b = splice ?p bs (mb_bytes mb)"
  have b: "length b = length (mb_bytes mb)" using le by (simp add: b_def)
  have here: "take (length bs) (drop ?p b) = bs" using le by (simp add: b_def)
  have there: "take (length cs) (drop q b) = take (length cs) (drop q (mb_bytes mb))"
    if "apart ?p (length bs) q (length cs)" for q cs
  proof (cases "?p + length bs \<le> q")
    case True
    then show ?thesis using le by (simp add: b_def)
  next
    case False
    then have "q + length cs \<le> ?p" using that by (auto simp: apart_def)
    then have "take (q + length cs) b = take (q + length cs) (mb_bytes mb)" using le by (simp add: b_def)
    then have "drop q (take (q + length cs) b) = drop q (take (q + length cs) (mb_bytes mb))" by simp
    then show ?thesis by (simp add: drop_take)
  qed
  show ?thesis
  proof (cases "bs = []")
    case True
    then show ?thesis using ok fit lt
      by (auto simp: wrote_def mbuf_put_def mem_store_def Let_def region_ok_def holds_def)
  next
    case False
    then have "mbuf_put mb bs = mb\<lparr>mb_buf := Some b, mb_pos := ?p + length bs, mb_end := max (mb_end mb) (?p + length bs)\<rparr>"
      using le lt by (simp add: mbuf_put_def mem_store_def b_def Let_def)
    then show ?thesis using ok fit b here by (auto simp: wrote_def region_ok_def holds_def there)
  qed
qed

lemma wrote_mono: "wrote mb' p bs mb'' \<Longrightarrow> mb_end mb' = mb_end mb \<Longrightarrow> (\<forall>q cs. holds mb q cs \<longrightarrow> holds mb' q cs) \<Longrightarrow> wrote mb p bs mb''"
  by (auto simp: wrote_def)

lemma emits_put: "emit al (\<lambda>mb. put al mb bs) bs"
  unfolding emits_def
proof (intro allI impI conjI)
  fix mb :: mbuf
  assume ok: "region_ok mb" and fit: "mb_pos mb + length bs < size_mod"
  show "\<exists>mb'. Some (put al mb bs) = Some (None, mb')" if "alloc_total al"
    using write_total [OF that, of mb bs] by (cases "put al mb bs") simp
  fix mb'
  assume "Some (put al mb bs) = Some (None, mb')"
  then obtain m where g: "mbuf_grow al mb (mb_pos mb + length bs) = (None, m)" and m: "mb' = mbuf_put m bs"
    using fit by (auto simp: mbuf_write_mem_def split: prod.splits option.splits)
  note gr = grow_region [OF ok fit g]
  then show "wrote mb (mb_pos mb) bs mb'"
    using put_wrote [of m bs] wrote_mono [of m "mb_pos mb" bs mb' mb] m by auto
qed

lemma wrote_Nil: "region_ok mb \<Longrightarrow> wrote mb (mb_pos mb) [] mb"
  by (simp add: wrote_def)

lemma emits_skip: "emit al (\<lambda>mb. (None, mb)) []"
  by (simp add: emits_def wrote_Nil)

lemma wrote_append:
  assumes "wrote mb p bs m1" and "wrote m1 (p + length bs) cs m2"
  shows "wrote mb p (bs @ cs) m2"
proof -
  have "holds m2 p bs" using wroteD(5) [OF assms(2) wroteD(4) [OF assms(1)]] by (simp add: apart_def)
  moreover have "holds m2 q xs" if "holds mb q xs" "apart p (length (bs @ cs)) q (length xs)" for q xs
    using that wroteD(5) [OF assms(1) that(1)] wroteD(5) [OF assms(2), of q xs] by (auto simp: apart_def)
  ultimately show ?thesis
    using assms wroteD(4) [OF assms(2)] by (auto simp: wrote_def holds_append)
qed

lemma emits_also:
  assumes f: "emit al f bs" and g: "emit al g cs"
  shows "emit al (\<lambda>mb. also_err (f mb) g) (bs @ cs)"
  unfolding emits_def
proof (intro allI impI conjI)
  fix mb :: mbuf
  assume ok: "region_ok mb" and fit: "mb_pos mb + length (bs @ cs) < size_mod"
  obtain e m where fm: "f mb = (e, m)" by (cases "f mb")
  note wf = emitsD [OF f ok] and wg = emitsD [OF g]
  { assume "e = None"
    then have w: "wrote mb (mb_pos mb) bs m" using wf(1) [of m] fm fit by simp
    then have "region_ok m" "mb_pos m + length cs < size_mod" using fit by (simp_all add: wroteD)
    note this w }
  note m = this
  show "\<exists>mb'. Some (also_err (f mb) g) = Some (None, mb')" if "alloc_total al"
    using wf(2) that fit fm m wg(2) [of m] by (auto simp: also_err_def split: prod.splits)
  fix mb'
  assume "Some (also_err (f mb) g) = Some (None, mb')"
  then have "e = None" "g m = (None, mb')" using fm by (auto simp: also_err_def split: prod.splits)
  with m wg(1) [of m mb'] show "wrote mb (mb_pos mb) (bs @ cs) mb'"
    by (intro wrote_append [of _ _ _ m]) (simp_all add: wroteD)
qed

lemma wrote_pos [simp]: "wrote (mb\<lparr>mb_pos := q\<rparr>) p bs mb' = wrote mb p bs mb'"
  by (simp add: wrote_def)

text \<open>The header that is filled in later, in front of what was written behind the gap.\<close>

lemma wrote_gap:
  assumes body: "wrote mb (p + length hs) bs m1" and hdr: "wrote m1 p hs m2" and "hs \<noteq> []"
  shows "wrote mb p (hs @ bs) (m2\<lparr>mb_pos := p + length hs + length bs\<rparr>)"
proof -
  have "holds m2 (p + length hs) bs" using wroteD(5) [OF hdr wroteD(4) [OF body]] by (simp add: apart_def)
  moreover have "holds m2 q xs" if "holds mb q xs" "apart p (length (hs @ bs)) q (length xs)" for q xs
    using that wroteD(5) [OF body that(1)] wroteD(5) [OF hdr, of q xs] by (auto simp: apart_def)
  moreover have "mb_end m2 = max (mb_end mb) (p + length (hs @ bs))"
    using body wroteD(3) [OF hdr assms(3)] by (auto simp: wrote_def)
  ultimately show ?thesis
    using wroteD(1,4) [OF hdr] by (auto simp: wrote_def holds_append)
qed

section \<open>Pieces of encoders\<close>

definition be64 :: "u64 \<Rightarrow> byte list" where
  "be64 v = rev (word_bytes 8 v)"

lemma length_be64 [simp]: "length (be64 v) = 8"
  by (simp add: be64_def)

lemma word_of_be64 [simp]: "word_of_bytes (rev (be64 v)) = v"
  by (simp add: be64_def)

lemma write_u64: "mbuf_write_u64 al mb (sys_htonll v) = put al mb (be64 v)"
  by (simp add: mbuf_write_u64_def be64_def sys_htonll_bytes)

lemma write_u16_0: "mbuf_write_u16 al mb 0 = put al mb [0, 0]"
  by (simp add: mbuf_write_u16_def word_bytes_def upt_rec)

lemma emits_prims:
  "emit al (\<lambda>mb. mbuf_write_u8 al mb b) [b]"
  "emit al (\<lambda>mb. mbuf_write_u16 al mb (htons v)) (be16 v)"
  "emit al (\<lambda>mb. mbuf_write_u32 al mb (htonl w)) (be32 w)"
  "emit al (\<lambda>mb. mbuf_write_u64 al mb (sys_htonll x)) (be64 x)"
  "emit al (\<lambda>mb. mbuf_write_u16 al mb 0) [0, 0]"
  "emit al (\<lambda>mb. mbuf_write_mem al mb (Some bs)) bs"
  "emit al (\<lambda>mb. mbuf_write_str al mb (Some bs)) bs"
  by (simp_all add: write_be write_u8 write_u64 write_u16_0 mbuf_write_str_def emits_put)

lemma emits_loop:
  assumes "\<And>x. x \<in> set xs \<Longrightarrow> emit al (g x) (bs x)" and "emit al f cs"
  shows "emit al (\<lambda>mb. foldl (\<lambda>r x. also_err r (g x)) (f mb) xs) (cs @ concat (map bs xs))"
  using assms
proof (induction xs arbitrary: f cs)
  case (Cons x xs)
  have "emit al (\<lambda>mb. also_err (f mb) (g x)) (cs @ bs x)"
    using Cons.prems by (intro emits_also) auto
  with Cons.IH [of _ "cs @ bs x"] Cons.prems(1) show ?case by auto
qed simp

lemmas emits_rules = emits_prims emits_also emits_skip emits_loop

text \<open>The padding loop, run on the cursor.\<close>

lemma pad_region:
  assumes ok: "region_ok mb" and le: "start \<le> mb_pos mb" and fit: "mb_pos mb + pad_len (mb_pos mb - start) < size_mod"
    and res: "pad_loop al c mb_pos start (None, mb) = Some (None, mb')"
  shows "wrote mb (mb_pos mb) (replicate (pad_len (mb_pos mb - start)) c) mb'"
proof -
  let ?n = "mb_pos mb - start"
  define inv where "inv s \<longleftrightarrow> (case s of (err, m) \<Rightarrow> err = None \<longrightarrow>
    (\<exists>k. k \<le> pad_len ?n \<and> wrote mb (mb_pos mb) (replicate k c) m))" for s :: "errno option \<times> mbuf"
  let ?b = "\<lambda>(err, m). (mb_pos m + size_mod - start) mod 4 \<noteq> 0"
  let ?c = "\<lambda>s. also_err s (\<lambda>mb. mbuf_write_u8 al mb c)"
  have cond: "(mb_pos m + size_mod - start) mod 4 = (?n + k) mod 4"
    if "wrote mb (mb_pos mb) (replicate k c) m" for m k
    using wroteD(2) [OF that] mod4_size [of start "mb_pos m"] le by simp
  have step: "inv (?c s)" if "inv s" "?b s" for s
  proof -
    obtain err m where s: "s = (err, m)" by (cases s)
    obtain e m1 where w: "mbuf_write_u8 al m c = (e, m1)" by (cases "mbuf_write_u8 al m c")
    have "inv (err_or err e, m1)"
    proof (cases "err_or err e = None")
      case True
      then have none: "err = None" "e = None" by auto
      with that(1) s obtain k where k: "k \<le> pad_len ?n" "wrote mb (mb_pos mb) (replicate k c) m"
        by (auto simp: inv_def)
      have more: "Suc k \<le> pad_len ?n" using that(2) s cond [OF k(2)] k(1) by (intro pad_len_more) auto
      have pos: "mb_pos m = mb_pos mb + k" using wroteD(2) [OF k(2)] by simp
      have "wrote m (mb_pos m) [c] m1"
        using emitsD(1) [OF emits_prims(1) wroteD(1) [OF k(2)], of c al m1] w none more pad_len_less [of ?n] fit pos by simp
      then have "wrote mb (mb_pos mb) (replicate k c @ [c]) m1"
        using wrote_append [OF k(2), of "[c]" m1] pos by simp
      then show ?thesis using more by (auto simp: inv_def replicate_append_same intro!: exI [of _ "Suc k"])
    qed (auto simp: inv_def)
    then show ?thesis using s w by (simp add: also_err_def)
  qed
  have start: "inv (None, mb)" using ok by (auto simp: inv_def wrote_Nil intro!: exI [of _ 0])
  note w = res [unfolded pad_loop_def]
  have "inv (None, mb')" by (rule while_option_rule [where P = inv, OF _ w start]) (rule step)
  then obtain k where k: "k \<le> pad_len ?n" "wrote mb (mb_pos mb) (replicate k c) mb'" by (auto simp: inv_def)
  moreover have "k = pad_len ?n"
    using while_option_stop [OF w] cond [OF k(2)] k(1) by (intro pad_len_mod) auto
  ultimately show ?thesis by simp
qed

lemma pad_region_total:
  assumes ok: "region_ok mb" and le: "start \<le> mb_pos mb" and fit: "mb_pos mb + pad_len (mb_pos mb - start) < size_mod" and al: "alloc_total al"
  shows "\<exists>mb'. pad_loop al c mb_pos start (None, mb) = Some (None, mb')"
proof -
  let ?n = "mb_pos mb - start"
  define inv where "inv s \<longleftrightarrow> (case s of (err, m) \<Rightarrow> err = None \<and> region_ok m \<and> mb_pos mb \<le> mb_pos m
    \<and> mb_pos m - mb_pos mb \<le> pad_len ?n)" for s :: "errno option \<times> mbuf"
  let ?b = "\<lambda>(err, m). (mb_pos m + size_mod - start) mod 4 \<noteq> 0"
  let ?c = "\<lambda>s. also_err s (\<lambda>mb. mbuf_write_u8 al mb c)"
  let ?m = "\<lambda>(err, m). mb_pos mb + 4 - mb_pos m"
  have step: "inv (?c s) \<and> ?m (?c s) < ?m s" if inv_s: "inv s" and b_s: "?b s" for s
  proof -
    obtain m where s: "s = (None, m)" and m: "region_ok m" "mb_pos mb \<le> mb_pos m" "mb_pos m - mb_pos mb \<le> pad_len ?n"
      using inv_s by (cases s) (auto simp: inv_def)
    have "(?n + (mb_pos m - mb_pos mb)) mod 4 \<noteq> 0"
      using b_s s mod4_size [of start "mb_pos m"] le m(2) by simp
    from pad_len_more [OF this m(3)] have more: "Suc (mb_pos m - mb_pos mb) \<le> pad_len ?n" .
    then have lt: "mb_pos m + length [c] < size_mod" "mb_pos m < mb_pos mb + 4"
      using fit pad_len_less [of ?n] m(2) by simp_all
    note e = emitsD [OF emits_prims(1) m(1) lt(1), of al]
    from e(2) [OF al] obtain m1 where w: "mbuf_write_u8 al m c = (None, m1)" by auto
    with e(1) [of m1] have "wrote m (mb_pos m) [c] m1" by simp
    from wroteD(1,2) [OF this] s w more lt m(2) show ?thesis by (auto simp: also_err_def inv_def)
  qed
  have start: "inv (None, mb)" using ok by (simp add: inv_def)
  have "\<exists>t. while_option ?b ?c (None, mb) = Some t"
    by (rule measure_while_option_Some [where P = inv and f = ?m]) (fact step, fact start)
  then obtain t where w: "while_option ?b ?c (None, mb) = Some t" ..
  have "inv t" by (rule while_option_rule [where P = inv, OF _ w start]) (rule step [THEN conjunct1])
  then show ?thesis using w by (cases t) (auto simp: pad_loop_def inv_def)
qed

end
