(* ===== verification/Sa.thy ===== *)
theory Sa
  imports Prelude
begin

text \<open>
  Socket addresses, the binary part of \<open>re/src/sa/sa.c\<close>. The union of \<open>struct sa\<close> is a datatype with
  one constructor for each family, whose fields hold what the C structure holds in memory: address and
  port in network order. \<open>AF_UNIX\<close> is not built for the target. Text conversion (\<open>sa_pton\<close>, \<open>sa_ntop\<close>,
  \<open>sa_decode\<close>) rests on the C library and is not modelled.
\<close>

datatype af = AF_UNSPEC | AF_INET | AF_INET6

datatype sa =
    Sa_other
  | Sa_in (s_addr: u32) (sin_port: u16)
  | Sa_in6 (s6_addr: "byte list") (sin6_port: u16) (sin6_scope_id: u32)

text \<open>The flags \<open>SA_ADDR\<close> and \<open>SA_PORT\<close>; \<open>SA_ALL\<close> is both.\<close>

record sa_flag =
  SA_ADDR :: bool
  SA_PORT :: bool

definition SA_ALL :: sa_flag where
  "SA_ALL = \<lparr>SA_ADDR = True, SA_PORT = True\<rparr>"

section \<open>Operations\<close>

definition sa_init :: "af \<Rightarrow> sa" where
  "sa_init af = (case af of AF_UNSPEC \<Rightarrow> Sa_other | AF_INET \<Rightarrow> Sa_in 0 0 | AF_INET6 \<Rightarrow> Sa_in6 (replicate 16 0) 0 0)"

definition sa_set_in :: "u32 \<Rightarrow> u16 \<Rightarrow> sa" where
  "sa_set_in addr port = Sa_in (htonl addr) (htons port)"

definition sa_set_in6 :: "byte list \<Rightarrow> u16 \<Rightarrow> sa" where
  "sa_set_in6 addr port = Sa_in6 addr (htons port) 0"

fun sa_set_port :: "sa \<Rightarrow> u16 \<Rightarrow> sa" where
  "sa_set_port (Sa_in a _) port = Sa_in a (htons port)"
| "sa_set_port (Sa_in6 a _ s) port = Sa_in6 a (htons port) s"
| "sa_set_port Sa_other port = Sa_other"

fun sa_af :: "sa \<Rightarrow> af" where
  "sa_af Sa_other = AF_UNSPEC"
| "sa_af (Sa_in _ _) = AF_INET"
| "sa_af (Sa_in6 _ _ _) = AF_INET6"

text \<open>In the other families the bytes of \<open>sin_addr\<close> are the flow information, which is always zero.\<close>

fun sa_in :: "sa \<Rightarrow> u32" where
  "sa_in (Sa_in a _) = ntohl a"
| "sa_in (Sa_in6 _ _ _) = 0"
| "sa_in Sa_other = 0"

text \<open>The 16 bytes at \<open>sin6_addr\<close>; behind an IPv4 address there is only padding.\<close>

fun sa_in6 :: "sa \<Rightarrow> byte list" where
  "sa_in6 (Sa_in6 a _ _) = a"
| "sa_in6 (Sa_in _ _) = replicate 16 0"
| "sa_in6 Sa_other = replicate 16 0"

fun sa_port :: "sa \<Rightarrow> u16" where
  "sa_port (Sa_in _ p) = ntohs p"
| "sa_port (Sa_in6 _ p _) = ntohs p"
| "sa_port Sa_other = 0"

fun sa_isset :: "sa \<Rightarrow> sa_flag \<Rightarrow> bool" where
  "sa_isset (Sa_in a p) flag =
     (if SA_ADDR flag \<and> a = 0 then False else if SA_PORT flag \<and> p = 0 then False else True)"
| "sa_isset (Sa_in6 a p _) flag =
     (if SA_ADDR flag then False else if SA_PORT flag \<and> p = 0 then False else True)"
| "sa_isset Sa_other flag = False"

text \<open>The words \<open>a[0]\<close> to \<open>a[3]\<close> of an IPv6 address as the target loads them.\<close>

definition in6_word :: "byte list \<Rightarrow> nat \<Rightarrow> u32" where
  "in6_word a i = word_of_bytes (take 4 (drop (4 * i) a))"

fun sa_hash :: "sa \<Rightarrow> sa_flag \<Rightarrow> u32" where
  "sa_hash (Sa_in a p) flag =
     (if SA_ADDR flag then ntohl a else 0) + (if SA_PORT flag then ucast (ntohs p) else 0)"
| "sa_hash (Sa_in6 a p _) flag =
     (if SA_ADDR flag then in6_word a 0 XOR in6_word a 1 XOR in6_word a 2 XOR in6_word a 3 else 0)
     + (if SA_PORT flag then ucast (ntohs p) else 0)"
| "sa_hash Sa_other flag = 0"

text \<open>
  The comparison of two different objects. Two pointers to the same object always compare equal, which
  matters for a family without a case only; \<open>same\<close> tells that the pointers are equal.
\<close>

definition sa_cmp :: "bool \<Rightarrow> sa \<Rightarrow> sa \<Rightarrow> sa_flag \<Rightarrow> bool" where
  "sa_cmp same l r flag =
     (if same then True
      else if sa_af l \<noteq> sa_af r then False
      else
        (case (l, r) of
           (Sa_in la lp, Sa_in ra rp) \<Rightarrow>
             if SA_ADDR flag \<and> la \<noteq> ra then False else if SA_PORT flag \<and> lp \<noteq> rp then False else True
         | (Sa_in6 la lp _, Sa_in6 ra rp _) \<Rightarrow>
             if SA_ADDR flag \<and> la \<noteq> ra then False else if SA_PORT flag \<and> lp \<noteq> rp then False else True
         | _ \<Rightarrow> False))"

fun sa_is_linklocal :: "sa \<Rightarrow> bool" where
  "sa_is_linklocal (Sa_in a _) \<longleftrightarrow> a AND htonl 0xffff0000 = htonl 0xa9fe0000"
| "sa_is_linklocal (Sa_in6 _ _ _) \<longleftrightarrow> False"
| "sa_is_linklocal Sa_other \<longleftrightarrow> False"

fun sa_is_loopback :: "sa \<Rightarrow> bool" where
  "sa_is_loopback (Sa_in a _) \<longleftrightarrow> ntohl a AND 0xff000000 = 0x7f000000"
| "sa_is_loopback (Sa_in6 _ _ _) \<longleftrightarrow> False"
| "sa_is_loopback Sa_other \<longleftrightarrow> False"

fun sa_is_multicast :: "sa \<Rightarrow> bool" where
  "sa_is_multicast (Sa_in a _) \<longleftrightarrow> ntohl a AND 0xf0000000 = 0xe0000000"
| "sa_is_multicast (Sa_in6 a _ _) \<longleftrightarrow> a \<noteq> [] \<and> hd a = 0xff"
| "sa_is_multicast Sa_other \<longleftrightarrow> False"

fun sa_is_any :: "sa \<Rightarrow> bool" where
  "sa_is_any (Sa_in a _) \<longleftrightarrow> ntohl a = 0"
| "sa_is_any (Sa_in6 _ _ _) \<longleftrightarrow> False"
| "sa_is_any Sa_other \<longleftrightarrow> False"

fun sa_set_scopeid :: "sa \<Rightarrow> u32 \<Rightarrow> sa" where
  "sa_set_scopeid (Sa_in6 a p _) s = Sa_in6 a p s"
| "sa_set_scopeid (Sa_in a p) s = Sa_in a p"
| "sa_set_scopeid Sa_other s = Sa_other"

fun sa_scopeid :: "sa \<Rightarrow> u32" where
  "sa_scopeid (Sa_in6 _ _ s) = s"
| "sa_scopeid (Sa_in _ _) = 0"
| "sa_scopeid Sa_other = 0"

section \<open>Laws\<close>

text \<open>An address as the setters build it: an IPv6 address has 16 bytes.\<close>

fun sa_ok :: "sa \<Rightarrow> bool" where
  "sa_ok (Sa_in6 a _ _) \<longleftrightarrow> length a = 16"
| "sa_ok _ \<longleftrightarrow> True"

lemma sa_set_get [simp]:
  "sa_in (sa_set_in a p) = a" "sa_port (sa_set_in a p) = p" "sa_af (sa_set_in a p) = AF_INET"
  "sa_in6 (sa_set_in6 b p) = b" "sa_port (sa_set_in6 b p) = p" "sa_af (sa_set_in6 b p) = AF_INET6"
  by (simp_all add: sa_set_in_def sa_set_in6_def)

lemma sa_get_set:
  "sa_af a = AF_INET \<Longrightarrow> sa_set_in (sa_in a) (sa_port a) = a"
  "sa_af a = AF_INET6 \<Longrightarrow> sa_scopeid a = 0 \<Longrightarrow> sa_set_in6 (sa_in6 a) (sa_port a) = a"
  by (cases a; simp add: sa_set_in_def sa_set_in6_def)+

lemma sa_cmp_refl: "sa_af a \<noteq> AF_UNSPEC \<Longrightarrow> sa_cmp same a a flag"
  by (cases a) (simp_all add: sa_cmp_def)

lemma sa_cmp_sym: "sa_cmp same a b flag = sa_cmp same b a flag"
  by (cases a; cases b) (auto simp: sa_cmp_def)

lemma sa_cmp_trans: "sa_cmp False a b flag \<Longrightarrow> sa_cmp False b c flag \<Longrightarrow> sa_cmp False a c flag"
  by (cases a; cases b; cases c) (auto simp: sa_cmp_def split: if_splits)

text \<open>What a hash table needs of the pair: addresses that compare equal have the same hash.\<close>

lemma sa_cmp_hash: "sa_cmp False a b flag \<Longrightarrow> sa_hash a flag = sa_hash b flag"
  by (cases a; cases b) (auto simp: sa_cmp_def split: if_splits)

text \<open>An IPv6 address never counts as set, whatever it holds, once the address is asked for.\<close>

lemma sa_isset_in6: "\<not> sa_isset (sa_set_in6 a p) SA_ALL"
  by (simp add: sa_set_in6_def SA_ALL_def)

end
