(* ===== verification/Stun_Attr.thy ===== *)
theory Stun_Attr
  imports Mbuf_Region Sa
begin

text \<open>
  STUN headers, addresses and attributes: \<open>re/src/stun/hdr.c\<close>, \<open>addr.c\<close> and \<open>attr.c\<close>.

  The encoder gets its values as \<open>const void *\<close> and reads them by the type of the attribute: a value is
  a \<open>stun_val\<close> here, and a value of a constructor that does not fit the type sets \<open>mb_ub\<close>. The groups of case
  labels that the two switches share are the constructors of \<open>attr_kind\<close>. A C string is its memory block
  with the terminator. The array \<open>typev\<close> of unknown types with its counter is the list of the entries
  that count.
\<close>

section \<open>Constants\<close>

definition STUN_HEADER_SIZE :: nat where "STUN_HEADER_SIZE = 20"
definition STUN_TID_SIZE :: nat where "STUN_TID_SIZE = 12"
definition STUN_MAGIC_COOKIE :: u32 where "STUN_MAGIC_COOKIE = 0x2112a442"
definition STUN_AF_IPv4 :: u8 where "STUN_AF_IPv4 = 1"
definition STUN_AF_IPv6 :: u8 where "STUN_AF_IPv6 = 2"
definition STUN_METHOD_BINDING :: u16 where "STUN_METHOD_BINDING = 1"
definition STUN_METHOD_ALLOCATE :: u16 where "STUN_METHOD_ALLOCATE = 3"
definition STUN_METHOD_REFRESH :: u16 where "STUN_METHOD_REFRESH = 4"
definition STUN_METHOD_SEND :: u16 where "STUN_METHOD_SEND = 6"
definition STUN_METHOD_DATA :: u16 where "STUN_METHOD_DATA = 7"
definition STUN_METHOD_CREATEPERM :: u16 where "STUN_METHOD_CREATEPERM = 8"
definition STUN_METHOD_CHANBIND :: u16 where "STUN_METHOD_CHANBIND = 9"
definition STUN_CLASS_REQUEST :: u16 where "STUN_CLASS_REQUEST = 0"
definition STUN_CLASS_INDICATION :: u16 where "STUN_CLASS_INDICATION = 1"
definition STUN_CLASS_SUCCESS_RESP :: u16 where "STUN_CLASS_SUCCESS_RESP = 2"
definition STUN_CLASS_ERROR_RESP :: u16 where "STUN_CLASS_ERROR_RESP = 3"
definition STUN_ATTR_MAPPED_ADDR :: u16 where "STUN_ATTR_MAPPED_ADDR = 0x0001"
definition STUN_ATTR_CHANGE_REQ :: u16 where "STUN_ATTR_CHANGE_REQ = 0x0003"
definition STUN_ATTR_USERNAME :: u16 where "STUN_ATTR_USERNAME = 0x0006"
definition STUN_ATTR_MSG_INTEGRITY :: u16 where "STUN_ATTR_MSG_INTEGRITY = 0x0008"
definition STUN_ATTR_ERR_CODE :: u16 where "STUN_ATTR_ERR_CODE = 0x0009"
definition STUN_ATTR_UNKNOWN_ATTR :: u16 where "STUN_ATTR_UNKNOWN_ATTR = 0x000a"
definition STUN_ATTR_CHANNEL_NUMBER :: u16 where "STUN_ATTR_CHANNEL_NUMBER = 0x000c"
definition STUN_ATTR_LIFETIME :: u16 where "STUN_ATTR_LIFETIME = 0x000d"
definition STUN_ATTR_XOR_PEER_ADDR :: u16 where "STUN_ATTR_XOR_PEER_ADDR = 0x0012"
definition STUN_ATTR_DATA :: u16 where "STUN_ATTR_DATA = 0x0013"
definition STUN_ATTR_REALM :: u16 where "STUN_ATTR_REALM = 0x0014"
definition STUN_ATTR_NONCE :: u16 where "STUN_ATTR_NONCE = 0x0015"
definition STUN_ATTR_XOR_RELAY_ADDR :: u16 where "STUN_ATTR_XOR_RELAY_ADDR = 0x0016"
definition STUN_ATTR_REQ_ADDR_FAMILY :: u16 where "STUN_ATTR_REQ_ADDR_FAMILY = 0x0017"
definition STUN_ATTR_EVEN_PORT :: u16 where "STUN_ATTR_EVEN_PORT = 0x0018"
definition STUN_ATTR_REQ_TRANSPORT :: u16 where "STUN_ATTR_REQ_TRANSPORT = 0x0019"
definition STUN_ATTR_DONT_FRAGMENT :: u16 where "STUN_ATTR_DONT_FRAGMENT = 0x001a"
definition STUN_ATTR_XOR_MAPPED_ADDR :: u16 where "STUN_ATTR_XOR_MAPPED_ADDR = 0x0020"
definition STUN_ATTR_RSV_TOKEN :: u16 where "STUN_ATTR_RSV_TOKEN = 0x0022"
definition STUN_ATTR_PRIORITY :: u16 where "STUN_ATTR_PRIORITY = 0x0024"
definition STUN_ATTR_USE_CAND :: u16 where "STUN_ATTR_USE_CAND = 0x0025"
definition STUN_ATTR_PADDING :: u16 where "STUN_ATTR_PADDING = 0x0026"
definition STUN_ATTR_RESP_PORT :: u16 where "STUN_ATTR_RESP_PORT = 0x0027"
definition STUN_ATTR_SOFTWARE :: u16 where "STUN_ATTR_SOFTWARE = 0x8022"
definition STUN_ATTR_ALT_SERVER :: u16 where "STUN_ATTR_ALT_SERVER = 0x8023"
definition STUN_ATTR_FINGERPRINT :: u16 where "STUN_ATTR_FINGERPRINT = 0x8028"
definition STUN_ATTR_CONTROLLED :: u16 where "STUN_ATTR_CONTROLLED = 0x8029"
definition STUN_ATTR_CONTROLLING :: u16 where "STUN_ATTR_CONTROLLING = 0x802a"
definition STUN_ATTR_RESP_ORIGIN :: u16 where "STUN_ATTR_RESP_ORIGIN = 0x802b"
definition STUN_ATTR_OTHER_ADDR :: u16 where "STUN_ATTR_OTHER_ADDR = 0x802c"

section \<open>The header\<close>

definition STUN_TYPE :: "u16 \<Rightarrow> u16 \<Rightarrow> u16" where
  "STUN_TYPE method cls = push_bit 2 (method AND 0x0f80) OR push_bit 1 (method AND 0x0070) OR (method AND 0x000f)
     OR push_bit 7 (cls AND 0x2) OR push_bit 4 (cls AND 0x1)"

definition STUN_CLASS :: "u16 \<Rightarrow> u16" where
  "STUN_CLASS type = (drop_bit 7 type OR drop_bit 4 type) AND 0x3"

definition STUN_METHOD :: "u16 \<Rightarrow> u16" where
  "STUN_METHOD type = drop_bit 2 (type AND 0x3e00) OR drop_bit 1 (type AND 0x00e0) OR (type AND 0x000f)"

record stun_hdr =
  h_type :: u16
  h_len :: u16
  h_cookie :: u32
  h_tid :: "byte list"

definition stun_hdr_encode :: "alloc \<Rightarrow> stun_hdr \<Rightarrow> mbuf \<Rightarrow> errno option \<times> mbuf" where
  "stun_hdr_encode al hdr mb =
     also_err (also_err (also_err (mbuf_write_u16 al mb (htons (h_type hdr AND 0x3fff)))
       (\<lambda>mb. mbuf_write_u16 al mb (htons (h_len hdr))))
       (\<lambda>mb. mbuf_write_u32 al mb (htonl (h_cookie hdr))))
       (\<lambda>mb. mbuf_write_mem al mb (Some (h_tid hdr)))"

definition stun_hdr_decode :: "mbuf \<Rightarrow> (errno + stun_hdr) \<times> mbuf" where
  "stun_hdr_decode mb =
     (if mbuf_get_left mb < STUN_HEADER_SIZE then (Inl EBADMSG, mb)
      else
        (case read_be16 mb of (type, mb) \<Rightarrow>
          if type AND 0xc000 \<noteq> 0 then (Inl EBADMSG, mb)
          else
            (case read_be16 mb of (len, mb) \<Rightarrow>
              if len AND 0x3 \<noteq> 0 then (Inl EBADMSG, mb)
              else
                (case read_be32 mb of (cookie, mb) \<Rightarrow>
                (case mbuf_read_mem mb STUN_TID_SIZE of (_, tid, mb) \<Rightarrow>
                  if mbuf_get_left mb < unat len then (Inl EBADMSG, mb)
                  else (Inr \<lparr>h_type = type, h_len = len, h_cookie = cookie, h_tid = tid\<rparr>, mb))))))"

definition stun_class_name :: "u16 \<Rightarrow> string" where
  "stun_class_name cls =
     (if cls = STUN_CLASS_REQUEST then ''Request''
      else if cls = STUN_CLASS_INDICATION then ''Indication''
      else if cls = STUN_CLASS_SUCCESS_RESP then ''Success Response''
      else if cls = STUN_CLASS_ERROR_RESP then ''Error Response''
      else ''???'')"

definition stun_method_name :: "u16 \<Rightarrow> string" where
  "stun_method_name method =
     (if method = STUN_METHOD_BINDING then ''Binding''
      else if method = STUN_METHOD_ALLOCATE then ''Allocate''
      else if method = STUN_METHOD_REFRESH then ''Refresh''
      else if method = STUN_METHOD_SEND then ''Send''
      else if method = STUN_METHOD_DATA then ''Data''
      else if method = STUN_METHOD_CREATEPERM then ''CreatePermission''
      else if method = STUN_METHOD_CHANBIND then ''ChannelBind''
      else ''???'')"

section \<open>Addresses\<close>

definition in6_xor_tid :: "byte list \<Rightarrow> byte list \<Rightarrow> byte list" where
  "in6_xor_tid in6 tid = map2 (XOR) in6 ([0x21, 0x12, 0xa4, 0x42] @ tid)"

definition stun_addr_encode :: "alloc \<Rightarrow> sa \<Rightarrow> byte list option \<Rightarrow> mbuf \<Rightarrow> errno option \<times> mbuf" where
  "stun_addr_encode al addr tid mb =
     (let port = (if tid \<noteq> None then sa_port addr XOR ucast (drop_bit 16 STUN_MAGIC_COOKIE) else sa_port addr)
      in (case sa_af addr of
            AF_INET \<Rightarrow>
              let addr4 = (if tid \<noteq> None then sa_in addr XOR STUN_MAGIC_COOKIE else sa_in addr)
              in also_err (also_err (also_err (mbuf_write_u8 al mb 0)
                   (\<lambda>mb. mbuf_write_u8 al mb STUN_AF_IPv4))
                   (\<lambda>mb. mbuf_write_u16 al mb (htons port)))
                   (\<lambda>mb. mbuf_write_u32 al mb (htonl addr4))
          | AF_INET6 \<Rightarrow>
              let addr6 = (case tid of Some t \<Rightarrow> in6_xor_tid (sa_in6 addr) t | None \<Rightarrow> sa_in6 addr)
              in also_err (also_err (also_err (mbuf_write_u8 al mb 0)
                   (\<lambda>mb. mbuf_write_u8 al mb STUN_AF_IPv6))
                   (\<lambda>mb. mbuf_write_u16 al mb (htons port)))
                   (\<lambda>mb. mbuf_write_mem al mb (Some addr6))
          | AF_UNSPEC \<Rightarrow> (Some EAFNOSUPPORT, mb)))"

definition stun_addr_decode :: "byte list option \<Rightarrow> mbuf \<Rightarrow> (errno + sa) \<times> mbuf" where
  "stun_addr_decode tid mb =
     (if mbuf_get_left mb < 4 then (Inl EBADMSG, mb)
      else
        (case mbuf_read_u8 mb of (_, mb) \<Rightarrow>
        (case mbuf_read_u8 mb of (family, mb) \<Rightarrow>
        (case read_be16 mb of (port, mb) \<Rightarrow>
          (let port = (if tid \<noteq> None then port XOR ucast (drop_bit 16 STUN_MAGIC_COOKIE) else port) in
           if family = STUN_AF_IPv4 then
             if mbuf_get_left mb < 4 then (Inl EBADMSG, mb)
             else (case read_be32 mb of (addr4, mb) \<Rightarrow>
                     (Inr (sa_set_in (if tid \<noteq> None then addr4 XOR STUN_MAGIC_COOKIE else addr4) port), mb))
           else if family = STUN_AF_IPv6 then
             if mbuf_get_left mb < 16 then (Inl EBADMSG, mb)
             else (case mbuf_read_mem mb 16 of (_, addr6, mb) \<Rightarrow>
                     (Inr (sa_set_in6 (case tid of Some t \<Rightarrow> in6_xor_tid addr6 t | None \<Rightarrow> addr6) port), mb))
           else (Inl EAFNOSUPPORT, mb))))))"

section \<open>Attributes\<close>

datatype attr_kind =
    K_addr | K_xor_addr | K_change_req | K_str | K_msg_integrity | K_err_code | K_unknown_attr | K_uint16 | K_uint32
  | K_mb | K_uint8 | K_even_port | K_no_value | K_uint64 | K_default

definition attr_kind_of :: "u16 \<Rightarrow> attr_kind" where
  "attr_kind_of type =
     (if type \<in> {STUN_ATTR_MAPPED_ADDR, STUN_ATTR_ALT_SERVER, STUN_ATTR_RESP_ORIGIN, STUN_ATTR_OTHER_ADDR} then K_addr
      else if type \<in> {STUN_ATTR_XOR_PEER_ADDR, STUN_ATTR_XOR_RELAY_ADDR, STUN_ATTR_XOR_MAPPED_ADDR} then K_xor_addr
      else if type = STUN_ATTR_CHANGE_REQ then K_change_req
      else if type \<in> {STUN_ATTR_USERNAME, STUN_ATTR_REALM, STUN_ATTR_NONCE, STUN_ATTR_SOFTWARE} then K_str
      else if type = STUN_ATTR_MSG_INTEGRITY then K_msg_integrity
      else if type = STUN_ATTR_ERR_CODE then K_err_code
      else if type = STUN_ATTR_UNKNOWN_ATTR then K_unknown_attr
      else if type \<in> {STUN_ATTR_CHANNEL_NUMBER, STUN_ATTR_RESP_PORT} then K_uint16
      else if type \<in> {STUN_ATTR_LIFETIME, STUN_ATTR_PRIORITY, STUN_ATTR_FINGERPRINT} then K_uint32
      else if type \<in> {STUN_ATTR_DATA, STUN_ATTR_PADDING} then K_mb
      else if type \<in> {STUN_ATTR_REQ_ADDR_FAMILY, STUN_ATTR_REQ_TRANSPORT} then K_uint8
      else if type = STUN_ATTR_EVEN_PORT then K_even_port
      else if type \<in> {STUN_ATTR_DONT_FRAGMENT, STUN_ATTR_USE_CAND} then K_no_value
      else if type \<in> {STUN_ATTR_RSV_TOKEN, STUN_ATTR_CONTROLLED, STUN_ATTR_CONTROLLING} then K_uint64
      else K_default)"

text \<open>
  The union of \<open>struct stun_attr\<close>. \<open>V_self\<close> is a pointer to the buffer that is written: the data is already
  in place behind the header.
\<close>

datatype stun_val =
    V_sa sa
  | V_change_req bool bool
  | V_str "byte list"
  | V_msg_integrity "byte list"
  | V_err_code u16 "byte list option"
  | V_unknown_attr "u16 list"
  | V_uint16 u16
  | V_uint32 u32
  | V_mb mbuf
  | V_self
  | V_uint8 u8
  | V_even_port bool
  | V_none
  | V_uint64 u64

record stun_attr =
  a_type :: u16
  a_v :: stun_val

definition c_str :: "byte list \<Rightarrow> byte list" where
  "c_str s = takeWhile (\<lambda>b. b \<noteq> 0) s"

definition err_code_encode :: "alloc \<Rightarrow> u16 \<Rightarrow> byte list option \<Rightarrow> mbuf \<Rightarrow> errno option \<times> mbuf" where
  "err_code_encode al code reason mb =
     also_err (also_err (also_err (mbuf_write_u16 al mb 0)
       (\<lambda>mb. mbuf_write_u8 al mb (ucast (code div 100))))
       (\<lambda>mb. mbuf_write_u8 al mb (ucast (code mod 100))))
       (\<lambda>mb. mbuf_write_str al mb (map_option c_str reason))"

text \<open>Reading a value as something it is not.\<close>

definition misread :: "mbuf \<Rightarrow> errno option \<times> mbuf" where
  "misread mb = (None, mb\<lparr>mb_ub := True\<rparr>)"

definition stun_value_encode :: "alloc \<Rightarrow> attr_kind \<Rightarrow> stun_val \<Rightarrow> byte list option \<Rightarrow> mbuf \<Rightarrow> errno option \<times> mbuf" where
  "stun_value_encode al k v tid mb =
     (case k of
        K_addr \<Rightarrow> (case v of V_sa addr \<Rightarrow> stun_addr_encode al addr None mb | _ \<Rightarrow> misread mb)
      | K_xor_addr \<Rightarrow> (case v of V_sa addr \<Rightarrow> stun_addr_encode al addr tid mb | _ \<Rightarrow> misread mb)
      | K_change_req \<Rightarrow>
          (case v of
             V_change_req ip port \<Rightarrow> mbuf_write_u32 al mb (htonl (push_bit 2 (of_bool ip) OR push_bit 1 (of_bool port)))
           | _ \<Rightarrow> misread mb)
      | K_str \<Rightarrow> (case v of V_str s \<Rightarrow> mbuf_write_str al mb (Some (c_str s)) | _ \<Rightarrow> misread mb)
      | K_msg_integrity \<Rightarrow> (case v of V_msg_integrity mi \<Rightarrow> mbuf_write_mem al mb (Some (take 20 mi)) | _ \<Rightarrow> misread mb)
      | K_err_code \<Rightarrow> (case v of V_err_code code reason \<Rightarrow> err_code_encode al code reason mb | _ \<Rightarrow> misread mb)
      | K_unknown_attr \<Rightarrow>
          (case v of
             V_unknown_attr ts \<Rightarrow> foldl (\<lambda>s t. also_err s (\<lambda>mb. mbuf_write_u16 al mb (htons t))) (None, mb) ts
           | _ \<Rightarrow> misread mb)
      | K_uint16 \<Rightarrow>
          (case v of
             V_uint16 n \<Rightarrow> also_err (mbuf_write_u16 al mb (htons n)) (\<lambda>mb. mbuf_write_u16 al mb 0)
           | _ \<Rightarrow> misread mb)
      | K_uint32 \<Rightarrow> (case v of V_uint32 n \<Rightarrow> mbuf_write_u32 al mb (htonl n) | _ \<Rightarrow> misread mb)
      | K_mb \<Rightarrow>
          (case v of
             V_self \<Rightarrow> (None, mb\<lparr>mb_pos := mb_end mb\<rparr>)
           | V_mb mbd \<Rightarrow>
               (case mem_load mbd (mb_pos mbd) (mbuf_get_left mbd) of (bs, m) \<Rightarrow>
                  if mb_ub m \<noteq> mb_ub mbd then misread mb
                  else mbuf_write_mem al mb (if mb_buf mbd = None \<and> mb_pos mbd = 0 then None else Some bs))
           | _ \<Rightarrow> misread mb)
      | K_uint8 \<Rightarrow>
          (case v of
             V_uint8 n \<Rightarrow>
               also_err (also_err (mbuf_write_u8 al mb n) (\<lambda>mb. mbuf_write_u8 al mb 0)) (\<lambda>mb. mbuf_write_u16 al mb 0)
           | _ \<Rightarrow> misread mb)
      | K_even_port \<Rightarrow> (case v of V_even_port r \<Rightarrow> mbuf_write_u8 al mb (push_bit 7 (of_bool r)) | _ \<Rightarrow> misread mb)
      | K_no_value \<Rightarrow> (None, mb)
      | K_uint64 \<Rightarrow> (case v of V_uint64 n \<Rightarrow> mbuf_write_u64 al mb (sys_htonll n) | _ \<Rightarrow> misread mb)
      | K_default \<Rightarrow> (Some EINVAL, mb))"

definition stun_attr_encode ::
  "alloc \<Rightarrow> u16 \<Rightarrow> stun_val \<Rightarrow> byte list option \<Rightarrow> u8 \<Rightarrow> mbuf \<Rightarrow> (errno option \<times> mbuf) option" where
  "stun_attr_encode al type v tid padding mb =
     (let start = size_add (mb_pos mb) 4
      in (case stun_value_encode al (attr_kind_of type) v tid (mb\<lparr>mb_pos := start\<rparr>) of (err, mb) \<Rightarrow>
          (let len = (mb_pos mb + size_mod - start) mod size_mod
           in (case also_err (also_err (err, mb\<lparr>mb_pos := (start + size_mod - 4) mod size_mod\<rparr>)
                       (\<lambda>mb. mbuf_write_u16 al mb (htons type)))
                       (\<lambda>mb. mbuf_write_u16 al mb (htons (of_nat len))) of
                 (err, mb) \<Rightarrow> pad_loop al padding mb_pos start (err, mb\<lparr>mb_pos := size_add (mb_pos mb) len\<rparr>)))))"

definition str_decode :: "alloc \<Rightarrow> nat \<Rightarrow> mbuf \<Rightarrow> errno option \<times> byte list option \<times> mbuf" where
  "str_decode al len mb =
     (if mbuf_get_left mb < len then (Some EBADMSG, None, mb) else mbuf_strdup al mb len)"

text \<open>
  The switch of the decoder. The list \<open>ua\<close> of unknown types, if the caller wants it, has room for eight.
\<close>

type_synonym unknown_attr = "u16 list option"

definition note_unknown :: "u16 \<Rightarrow> unknown_attr \<Rightarrow> unknown_attr" where
  "note_unknown type ua =
     (if type \<ge> 0x8000 then ua
      else (case ua of None \<Rightarrow> None | Some ts \<Rightarrow> if length ts < 8 then Some (ts @ [type]) else Some ts))"

definition sum_fst :: "('a \<Rightarrow> 'b) \<Rightarrow> (errno + 'a) \<times> 'm \<Rightarrow> (errno + 'b) \<times> 'm" where
  "sum_fst f p = (case p of (Inl e, m) \<Rightarrow> (Inl e, m) | (Inr x, m) \<Rightarrow> (Inr (f x), m))"

definition stun_value_decode ::
  "alloc \<Rightarrow> attr_kind \<Rightarrow> nat \<Rightarrow> byte list option \<Rightarrow> mbuf \<Rightarrow> (errno + stun_val) \<times> mbuf" where
  "stun_value_decode al k len tid mb =
     (case k of
        K_addr \<Rightarrow> sum_fst V_sa (stun_addr_decode None mb)
      | K_xor_addr \<Rightarrow> sum_fst V_sa (stun_addr_decode tid mb)
      | K_change_req \<Rightarrow>
          if len \<noteq> 4 then (Inl EBADMSG, mb)
          else (case read_be32 mb of (n, mb) \<Rightarrow> (Inr (V_change_req (bit n 2) (bit n 1)), mb))
      | K_str \<Rightarrow>
          (case str_decode al len mb of
             (Some e, _, mb) \<Rightarrow> (Inl e, mb)
           | (None, s, mb) \<Rightarrow> (Inr (V_str (case s of Some t \<Rightarrow> t | None \<Rightarrow> [])), mb))
      | K_msg_integrity \<Rightarrow>
          if len \<noteq> 20 then (Inl EBADMSG, mb)
          else (case mbuf_read_mem mb 20 of
                  (Some e, _, mb) \<Rightarrow> (Inl e, mb)
                | (None, mi, mb) \<Rightarrow> (Inr (V_msg_integrity mi), mb))
      | K_err_code \<Rightarrow>
          if len < 4 then (Inl EBADMSG, mb)
          else
            (case mbuf_read_u8 (mb\<lparr>mb_pos := size_add (mb_pos mb) 2\<rparr>) of (c, mb) \<Rightarrow>
            (case mbuf_read_u8 mb of (n, mb) \<Rightarrow>
            (case str_decode al (len - 4) mb of
               (Some e, _, mb) \<Rightarrow> (Inl e, mb)
             | (None, s, mb) \<Rightarrow> (Inr (V_err_code (ucast (c AND 7) * 100 + ucast n) s), mb))))
      | K_unknown_attr \<Rightarrow>
          (case read_list read_be16 (len div 2) mb of (ts, mb) \<Rightarrow> (Inr (V_unknown_attr (take 8 ts)), mb))
      | K_uint16 \<Rightarrow>
          if len < 2 then (Inl EBADMSG, mb)
          else (case read_be16 mb of (n, mb) \<Rightarrow> (Inr (V_uint16 n), mb))
      | K_uint32 \<Rightarrow>
          if len \<noteq> 4 then (Inl EBADMSG, mb)
          else (case read_be32 mb of (n, mb) \<Rightarrow> (Inr (V_uint32 n), mb))
      | K_mb \<Rightarrow> (Inr (V_mb (mb\<lparr>mb_end := size_add (mb_pos mb) len\<rparr>)), mb\<lparr>mb_pos := size_add (mb_pos mb) len\<rparr>)
      | K_uint8 \<Rightarrow>
          if len < 1 then (Inl EBADMSG, mb)
          else (case mbuf_read_u8 mb of (n, mb) \<Rightarrow> (Inr (V_uint8 n), mb))
      | K_even_port \<Rightarrow>
          if len < 1 then (Inl EBADMSG, mb)
          else (case mbuf_read_u8 mb of (n, mb) \<Rightarrow> (Inr (V_even_port (bit n 7)), mb))
      | K_no_value \<Rightarrow> if len > 0 then (Inl EBADMSG, mb) else (Inr V_none, mb)
      | K_uint64 \<Rightarrow>
          if len \<noteq> 8 then (Inl EBADMSG, mb)
          else (case mbuf_read_u64 mb of (n, mb) \<Rightarrow> (Inr (V_uint64 (sys_ntohll n)), mb))
      | K_default \<Rightarrow> (Inr V_none, mb\<lparr>mb_pos := size_add (mb_pos mb) len\<rparr>))"

definition sizeof_attr :: nat where "sizeof_attr = 56"

definition stun_attr_decode ::
  "alloc \<Rightarrow> byte list \<Rightarrow> unknown_attr \<Rightarrow> mbuf \<Rightarrow> ((errno + stun_attr) \<times> unknown_attr \<times> mbuf) option" where
  "stun_attr_decode al tid ua mb =
     (if mbuf_get_left mb < 4 then Some (Inl EBADMSG, ua, mb)
      else
        (case mem_alloc al sizeof_attr mb of (ok, mb) \<Rightarrow>
          if \<not> ok then Some (Inl ENOMEM, ua, mb)
          else
            (case read_be16 mb of (type, mb) \<Rightarrow>
            (case read_be16 mb of (len, mb) \<Rightarrow>
              if mbuf_get_left mb < unat len then Some (Inl EBADMSG, ua, mb)
              else
                (case stun_value_decode al (attr_kind_of type) (unat len) (Some tid) mb of
                   (Inl e, mb') \<Rightarrow> Some (Inl e, ua, mb')
                 | (Inr v, mb') \<Rightarrow>
                     map_option
                       (\<lambda>m. (Inr \<lparr>a_type = type, a_v = v\<rparr>,
                             if attr_kind_of type = K_default then note_unknown type ua else ua, m))
                       (slurp_padding (mb_pos mb) mb'))))))"

definition stun_attr_name :: "u16 \<Rightarrow> string" where
  "stun_attr_name type =
     (if type = STUN_ATTR_MAPPED_ADDR then ''MAPPED-ADDRESS''
      else if type = STUN_ATTR_CHANGE_REQ then ''CHANGE-REQUEST''
      else if type = STUN_ATTR_USERNAME then ''USERNAME''
      else if type = STUN_ATTR_MSG_INTEGRITY then ''MESSAGE-INTEGRITY''
      else if type = STUN_ATTR_ERR_CODE then ''ERROR-CODE''
      else if type = STUN_ATTR_UNKNOWN_ATTR then ''UNKNOWN-ATTRIBUTE''
      else if type = STUN_ATTR_CHANNEL_NUMBER then ''CHANNEL-NUMBER''
      else if type = STUN_ATTR_LIFETIME then ''LIFETIME''
      else if type = STUN_ATTR_XOR_PEER_ADDR then ''XOR-PEER-ADDRESS''
      else if type = STUN_ATTR_DATA then ''DATA''
      else if type = STUN_ATTR_REALM then ''REALM''
      else if type = STUN_ATTR_NONCE then ''NONCE''
      else if type = STUN_ATTR_XOR_RELAY_ADDR then ''XOR-RELAYED-ADDRESS''
      else if type = STUN_ATTR_REQ_ADDR_FAMILY then ''REQUESTED-ADDRESS-FAMILY''
      else if type = STUN_ATTR_EVEN_PORT then ''EVEN_PORT''
      else if type = STUN_ATTR_REQ_TRANSPORT then ''REQUESTED-TRANSPORT''
      else if type = STUN_ATTR_DONT_FRAGMENT then ''DONT-FRAGMENT''
      else if type = STUN_ATTR_XOR_MAPPED_ADDR then ''XOR-MAPPED-ADDRESS''
      else if type = STUN_ATTR_RSV_TOKEN then ''RESERVATION-TOKEN''
      else if type = STUN_ATTR_PRIORITY then ''PRIORITY''
      else if type = STUN_ATTR_USE_CAND then ''USE-CANDIDATE''
      else if type = STUN_ATTR_PADDING then ''PADDING''
      else if type = STUN_ATTR_RESP_PORT then ''RESPONSE-PORT''
      else if type = STUN_ATTR_SOFTWARE then ''SOFTWARE''
      else if type = STUN_ATTR_ALT_SERVER then ''ALTERNATE-SERVER''
      else if type = STUN_ATTR_FINGERPRINT then ''FINGERPRINT''
      else if type = STUN_ATTR_CONTROLLING then ''ICE-CONTROLLING''
      else if type = STUN_ATTR_CONTROLLED then ''ICE-CONTROLLED''
      else if type = STUN_ATTR_RESP_ORIGIN then ''RESPONSE-ORIGIN''
      else if type = STUN_ATTR_OTHER_ADDR then ''OTHER-ADDR''
      else ''???'')"

section \<open>The bytes of an attribute\<close>

definition addr_bytes :: "sa \<Rightarrow> byte list option \<Rightarrow> byte list" where
  "addr_bytes a tid =
     (case sa_af a of
        AF_INET \<Rightarrow> [0, STUN_AF_IPv4] @ be16 (if tid \<noteq> None then sa_port a XOR 0x2112 else sa_port a)
          @ be32 (if tid \<noteq> None then sa_in a XOR STUN_MAGIC_COOKIE else sa_in a)
      | _ \<Rightarrow> [0, STUN_AF_IPv6] @ be16 (if tid \<noteq> None then sa_port a XOR 0x2112 else sa_port a)
          @ (case tid of Some t \<Rightarrow> in6_xor_tid (sa_in6 a) t | None \<Rightarrow> sa_in6 a))"

fun val_bytes :: "attr_kind \<Rightarrow> byte list \<Rightarrow> stun_val \<Rightarrow> byte list" where
  "val_bytes k tid (V_sa a) = addr_bytes a (if k = K_xor_addr then Some tid else None)"
| "val_bytes k tid (V_change_req ip port) = be32 (push_bit 2 (of_bool ip) OR push_bit 1 (of_bool port))"
| "val_bytes k tid (V_str s) = c_str s"
| "val_bytes k tid (V_msg_integrity mi) = mi"
| "val_bytes k tid (V_err_code code r) =
     [0, 0, ucast (code div 100), ucast (code mod 100)] @ (case r of Some s \<Rightarrow> c_str s | None \<Rightarrow> [])"
| "val_bytes k tid (V_unknown_attr ts) = concat (map be16 ts)"
| "val_bytes k tid (V_uint16 n) = be16 n @ [0, 0]"
| "val_bytes k tid (V_uint32 n) = be32 n"
| "val_bytes k tid (V_mb m) = mb_after m"
| "val_bytes k tid (V_uint8 n) = [n, 0, 0, 0]"
| "val_bytes k tid (V_even_port r) = [push_bit 7 (of_bool r)]"
| "val_bytes k tid (V_uint64 n) = be64 n"
| "val_bytes k tid V_self = []"
| "val_bytes k tid V_none = []"

text \<open>The values a type takes, as far as they can be carried: a string ends at its first zero.\<close>

definition c_string :: "byte list \<Rightarrow> bool" where
  "c_string s \<longleftrightarrow> (\<exists>t. s = t @ [0] \<and> 0 \<notin> set t)"

fun val_ok :: "attr_kind \<Rightarrow> stun_val \<Rightarrow> bool" where
  "val_ok k (V_sa a) \<longleftrightarrow> k \<in> {K_addr, K_xor_addr} \<and> sa_ok a \<and> sa_af a \<noteq> AF_UNSPEC \<and> sa_scopeid a = 0"
| "val_ok k (V_change_req ip port) \<longleftrightarrow> k = K_change_req"
| "val_ok k (V_str s) \<longleftrightarrow> k = K_str \<and> c_string s \<and> length s \<le> 65536"
| "val_ok k (V_msg_integrity mi) \<longleftrightarrow> k = K_msg_integrity \<and> length mi = 20"
| "val_ok k (V_err_code code r) \<longleftrightarrow> k = K_err_code \<and> code < 800 \<and> (\<exists>s. r = Some s \<and> c_string s \<and> length s \<le> 65532)"
| "val_ok k (V_unknown_attr ts) \<longleftrightarrow> k = K_unknown_attr \<and> length ts \<le> 8"
| "val_ok k (V_uint16 n) \<longleftrightarrow> k = K_uint16"
| "val_ok k (V_uint32 n) \<longleftrightarrow> k = K_uint32"
| "val_ok k (V_mb m) \<longleftrightarrow> k = K_mb \<and> mbuf_ok m \<and> mb_buf m \<noteq> None \<and> mbuf_get_left m < 65536"
| "val_ok k (V_uint8 n) \<longleftrightarrow> k = K_uint8"
| "val_ok k (V_even_port r) \<longleftrightarrow> k = K_even_port"
| "val_ok k V_none \<longleftrightarrow> k = K_no_value"
| "val_ok k (V_uint64 n) \<longleftrightarrow> k = K_uint64"
| "val_ok k V_self \<longleftrightarrow> False"

definition attr_bytes :: "byte list \<Rightarrow> u8 \<Rightarrow> u16 \<times> stun_val \<Rightarrow> byte list" where
  "attr_bytes tid c av = (case av of (type, v) \<Rightarrow>
     let bs = val_bytes (attr_kind_of type) tid v
     in be16 type @ be16 (of_nat (length bs)) @ bs @ replicate (pad_len (length bs)) c)"

definition attr_ok :: "u16 \<times> stun_val \<Rightarrow> bool" where
  "attr_ok av = (case av of (type, v) \<Rightarrow> val_ok (attr_kind_of type) v)"

lemma c_str_string: "c_string s \<Longrightarrow> s = c_str s @ [0] \<and> 0 \<notin> set (c_str s)"
proof -
  assume "c_string s"
  then obtain t where s: "s = t @ [0]" "0 \<notin> set t" by (auto simp: c_string_def)
  have "takeWhile (\<lambda>b. b \<noteq> 0) t = t" using s(2) by (subst takeWhile_eq_all_conv) metis
  then have "c_str s = t" using s by (auto simp: c_str_def takeWhile_append)
  with s show ?thesis by simp
qed

lemma length_c_str: "c_string s \<Longrightarrow> Suc (length (c_str s)) = length s"
  using c_str_string [of s] by (metis length_append_singleton)

lemma in6_xor_tid_twice:
  "length in6 = 16 \<Longrightarrow> length tid = 12 \<Longrightarrow> in6_xor_tid (in6_xor_tid in6 tid) tid = in6"
  by (auto simp: in6_xor_tid_def intro!: nth_equalityI) (simp add: xor.assoc)

lemma length_in6_xor_tid [simp]: "length in6 = 16 \<Longrightarrow> length tid = 12 \<Longrightarrow> length (in6_xor_tid in6 tid) = 16"
  by (simp add: in6_xor_tid_def)

lemma length_addr_bytes: "sa_ok a \<Longrightarrow> (\<And>t. tid = Some t \<Longrightarrow> length t = 12) \<Longrightarrow> length (addr_bytes a tid) \<le> 20"
  by (cases a; cases tid) (simp_all add: addr_bytes_def)

lemma length_val_bytes:
  assumes "val_ok k v" and "length tid = 12"
  shows "length (val_bytes k tid v) < 65536"
proof (cases v)
  case (V_sa a)
  then show ?thesis using assms length_addr_bytes [of a "if k = K_xor_addr then Some tid else None"] by auto
next
  case (V_str s)
  then show ?thesis using assms length_c_str [of s] by auto
next
  case (V_err_code c r)
  then obtain s where "r = Some s" "c_string s" "length s \<le> 65532" using assms by auto
  with V_err_code show ?thesis using length_c_str [of s] by simp
next
  case (V_unknown_attr ts)
  then show ?thesis using assms by (simp add: length_concat comp_def sum_list_triv)
qed (use assms in \<open>auto simp: mbuf_get_left_def split: if_splits\<close>)

section \<open>The encoder writes these bytes\<close>

lemma emits_cong: "emit al f bs \<Longrightarrow> (\<And>mb. g mb = f mb) \<Longrightarrow> cs = bs \<Longrightarrow> emit al g cs"
  by (simp add: emits_def)

lemma cookie_high: "ucast (drop_bit 16 STUN_MAGIC_COOKIE) = (0x2112 :: u16)"
  by (simp add: STUN_MAGIC_COOKIE_def)

lemma emits_addr:
  assumes "sa_af a \<noteq> AF_UNSPEC"
  shows "emit al (stun_addr_encode al a tid) (addr_bytes a tid)"
proof (cases "sa_af a")
  case AF_INET
  let ?port = "if tid \<noteq> None then sa_port a XOR 0x2112 else sa_port a"
  let ?addr = "if tid \<noteq> None then sa_in a XOR STUN_MAGIC_COOKIE else sa_in a"
  have "emit al (\<lambda>mb. also_err (also_err (also_err (mbuf_write_u8 al mb 0)
      (\<lambda>mb. mbuf_write_u8 al mb STUN_AF_IPv4)) (\<lambda>mb. mbuf_write_u16 al mb (htons ?port)))
      (\<lambda>mb. mbuf_write_u32 al mb (htonl ?addr))) ((([0] @ [STUN_AF_IPv4]) @ be16 ?port) @ be32 ?addr)"
    by (intro emits_also emits_prims)
  then show ?thesis
    by (rule emits_cong) (simp_all add: AF_INET stun_addr_encode_def addr_bytes_def cookie_high Let_def)
next
  case AF_INET6
  let ?port = "if tid \<noteq> None then sa_port a XOR 0x2112 else sa_port a"
  let ?addr = "case tid of Some t \<Rightarrow> in6_xor_tid (sa_in6 a) t | None \<Rightarrow> sa_in6 a"
  have "emit al (\<lambda>mb. also_err (also_err (also_err (mbuf_write_u8 al mb 0)
      (\<lambda>mb. mbuf_write_u8 al mb STUN_AF_IPv6)) (\<lambda>mb. mbuf_write_u16 al mb (htons ?port)))
      (\<lambda>mb. mbuf_write_mem al mb (Some ?addr))) ((([0] @ [STUN_AF_IPv6]) @ be16 ?port) @ ?addr)"
    by (intro emits_also emits_prims)
  then show ?thesis
    by (rule emits_cong) (simp_all add: AF_INET6 stun_addr_encode_def addr_bytes_def cookie_high Let_def)
qed (use assms in simp)

lemma emits_err_code:
  "emit al (err_code_encode al code (Some s)) ([0, 0, ucast (code div 100), ucast (code mod 100)] @ c_str s)"
proof -
  have "emit al (\<lambda>mb. also_err (also_err (also_err (mbuf_write_u16 al mb 0)
      (\<lambda>mb. mbuf_write_u8 al mb (ucast (code div 100)))) (\<lambda>mb. mbuf_write_u8 al mb (ucast (code mod 100))))
      (\<lambda>mb. mbuf_write_str al mb (Some (c_str s))))
    ((([0, 0] @ [ucast (code div 100)]) @ [ucast (code mod 100)]) @ c_str s)"
    by (intro emits_also emits_prims)
  then show ?thesis by (rule emits_cong) (simp_all add: err_code_encode_def)
qed

lemma mbuf_whole_load: "mbuf_ok m \<Longrightarrow> mem_load m (mb_pos m) (mbuf_get_left m) = (mb_after m, m)"
  by (auto simp: mem_load_def mbuf_ok_def mb_after_def mbuf_get_left_def)

lemma emits_value:
  assumes ok: "val_ok k v" and tid: "tidp = Some tid \<or> k \<noteq> K_xor_addr"
  shows "emit al (stun_value_encode al k v tidp) (val_bytes k tid v)"
proof (cases v)
  case (V_sa a)
  then show ?thesis using ok tid emits_addr [of a al None] emits_addr [of a al "Some tid"]
    by (auto simp: stun_value_encode_def)
next
  case (V_err_code c r)
  then show ?thesis using ok emits_err_code [of al c] by (auto simp: stun_value_encode_def)
next
  case (V_unknown_attr ts)
  then show ?thesis
    using ok emits_loop [of ts al "\<lambda>t mb. mbuf_write_u16 al mb (htons t)" be16, OF _ emits_skip] emits_prims(2)
    by (simp add: stun_value_encode_def)
next
  case (V_uint16 n)
  then show ?thesis using ok emits_also [OF emits_prims(2) emits_prims(5)] by (simp add: stun_value_encode_def)
next
  case (V_mb m)
  then show ?thesis using ok emits_put [of al "mb_after m"] by (auto simp: stun_value_encode_def mbuf_whole_load)
next
  case (V_uint8 n)
  then show ?thesis using ok emits_also [OF emits_also [OF emits_prims(1) emits_prims(1)] emits_prims(5), of al n 0]
    by (simp add: stun_value_encode_def)
qed (use ok emits_prims emits_skip in \<open>simp_all add: stun_value_encode_def\<close>)

lemma pad_loop_err: "err \<noteq> None \<Longrightarrow> pad_loop al c field start (err, mb) \<noteq> Some (None, mb')"
proof
  assume err: "err \<noteq> None" and "pad_loop al c field start (err, mb) = Some (None, mb')"
  then have w: "while_option (\<lambda>(err, mb). (field mb + size_mod - start) mod 4 \<noteq> 0)
       (\<lambda>s. also_err s (\<lambda>mb. mbuf_write_u8 al mb c)) (err, mb) = Some (None, mb')"
    by (simp add: pad_loop_def)
  have keep: "fst (also_err s f) \<noteq> None" if "fst s \<noteq> None" for s :: "errno option \<times> mbuf" and f
    using that by (cases s) (simp add: also_err_def case_prod_beta del: not_None_eq)
  have "fst (None :: errno option, mb') \<noteq> None"
    by (rule while_option_rule [where P = "\<lambda>s. fst s \<noteq> None", OF _ w]) (use err in \<open>simp_all only: keep fst_conv not_False_eq_True\<close>)
  then show False by simp
qed

lemma emits_attr:
  assumes ok: "attr_ok (type, v)" and len: "length tid = 12" and tid: "tidp = Some tid \<or> attr_kind_of type \<noteq> K_xor_addr"
  shows "emits al (stun_attr_encode al type v tidp c) (attr_bytes tid c (type, v))"
  unfolding emits_def
proof (intro allI impI conjI)
  fix mb :: mbuf
  define bs where "bs = val_bytes (attr_kind_of type) tid v"
  define hs where "hs = be16 type @ be16 (of_nat (length bs))"
  define p where "p = mb_pos mb"
  assume mb: "region_ok mb" and "mb_pos mb + length (attr_bytes tid c (type, v)) < size_mod"
  moreover have ab: "attr_bytes tid c (type, v) = hs @ bs @ replicate (pad_len (length bs)) c"
    by (simp add: attr_bytes_def bs_def hs_def Let_def)
  ultimately have fit: "p + 4 + length bs + pad_len (length bs) < size_mod"
    by (simp add: hs_def p_def)
  have h4: "length hs = 4" by (simp add: hs_def)
  have st: "size_add p 4 = p + 4" "(p + 4 + size_mod - 4) mod size_mod = p"
    using fit by (simp_all add: size_add_def size_mod_def)
  have val: "emit al (stun_value_encode al (attr_kind_of type) v tidp) bs"
    unfolding bs_def using ok tid by (intro emits_value) (simp_all add: attr_ok_def)
  have hdr: "emit al (\<lambda>mb. also_err (mbuf_write_u16 al mb (htons type)) (\<lambda>mb. mbuf_write_u16 al mb (htons (of_nat (length bs))))) hs"
    unfolding hs_def by (intro emits_rules)
  obtain e1 m1 where m1: "stun_value_encode al (attr_kind_of type) v tidp (mb\<lparr>mb_pos := p + 4\<rparr>) = (e1, m1)"
    by fastforce
  define n where "n = (mb_pos m1 + size_mod - (p + 4)) mod size_mod"
  obtain e2 m2 where m2: "also_err (also_err (e1, m1\<lparr>mb_pos := p\<rparr>) (\<lambda>mb. mbuf_write_u16 al mb (htons type)))
      (\<lambda>mb. mbuf_write_u16 al mb (htons (of_nat n))) = (e2, m2)" by fastforce
  have enc: "stun_attr_encode al type v tidp c mb =
      pad_loop al c mb_pos (p + 4) (e2, m2\<lparr>mb_pos := size_add (mb_pos m2) n\<rparr>)"
    using st m1 m2 by (simp add: stun_attr_encode_def p_def [symmetric] n_def Let_def)
  note v = emitsD [OF val, of "mb\<lparr>mb_pos := p + 4\<rparr>"]
  have v1: "wrote mb (p + 4) bs m1" if "e1 = None" using v(1) [of m1] mb fit m1 that by simp
  have n: "n = length bs" if "e1 = None" using wroteD(2) [OF v1 [OF that]] fit by (simp add: n_def)
  have m2': "also_err (mbuf_write_u16 al (m1\<lparr>mb_pos := p\<rparr>) (htons type))
      (\<lambda>mb. mbuf_write_u16 al mb (htons (of_nat (length bs)))) = (e2, m2)" if "e1 = None"
    using m2 n that by (simp add: also_err_def split: prod.splits)
  note h = emitsD [OF hdr, of "m1\<lparr>mb_pos := p\<rparr>"]
  have h1: "wrote m1 p hs m2" if "e2 = None" "e1 = None"
    using h(1) [of m2] fit m2' that h4 wroteD(1) [OF v1 [OF that(2)]] by simp
  have step: "wrote mb p (hs @ bs) (m2\<lparr>mb_pos := p + 4 + length bs\<rparr>)"
      "stun_attr_encode al type v tidp c mb = pad_loop al c mb_pos (p + 4) (None, m2\<lparr>mb_pos := p + 4 + length bs\<rparr>)"
    if none: "e1 = None" "e2 = None"
  proof -
    show "wrote mb p (hs @ bs) (m2\<lparr>mb_pos := p + 4 + length bs\<rparr>)"
      using wrote_gap [OF _ h1 [OF none(2,1)], of mb bs] v1 [OF none(1)] h4 by fastforce
    have "mb_pos m2 = p + 4" using wroteD(2) [OF h1 [OF none(2,1)]] h4 by simp
    then show "stun_attr_encode al type v tidp c mb = pad_loop al c mb_pos (p + 4) (None, m2\<lparr>mb_pos := p + 4 + length bs\<rparr>)"
      using enc none n fit by simp
  qed
  show "\<exists>mb'. stun_attr_encode al type v tidp c mb = Some (None, mb')" if al: "alloc_total al"
  proof -
    have e1: "e1 = None" using v(2) [OF _ _ al] mb fit m1 by simp
    then have "e2 = None" using h(2) [OF _ _ al] m2' fit h4 wroteD(1) [OF v1] by simp
    note s = step [OF e1 this]
    show ?thesis using pad_region_total [OF wroteD(1) [OF s(1)], of "p + 4" al c] s(2) fit al by simp
  qed
  show "wrote mb (mb_pos mb) (attr_bytes tid c (type, v)) mb'"
    if res: "stun_attr_encode al type v tidp c mb = Some (None, mb')" for mb'
  proof -
    have "e2 = None" using pad_loop_err [of e2] res enc by metis
    moreover from this have "e1 = None" using m2 by (auto simp: also_err_def split: prod.splits)
    ultimately have s: "wrote mb p (hs @ bs) (m2\<lparr>mb_pos := p + 4 + length bs\<rparr>)"
      "pad_loop al c mb_pos (p + 4) (None, m2\<lparr>mb_pos := p + 4 + length bs\<rparr>) = Some (None, mb')"
      using step res by simp_all
    from pad_region [OF wroteD(1) [OF s(1)] _ _ s(2)] fit
    have "wrote (m2\<lparr>mb_pos := p + 4 + length bs\<rparr>) (p + 4 + length bs) (replicate (pad_len (length bs)) c) mb'" by simp
    with wrote_append [OF s(1), of "replicate (pad_len (length bs)) c" mb'] h4
    show ?thesis by (simp add: ab p_def add.assoc)
  qed
qed

section \<open>The decoder reads them back\<close>

lemma reads_after: "reads mb mb' \<Longrightarrow> mb_after mb' = drop (mb_pos mb' - mb_pos mb) (mb_after mb)"
  by (auto simp: reads_def mb_after_def mb_bytes_def drop_take)

lemma pad_len_Suc: "pad_len n = Suc k \<Longrightarrow> pad_len (Suc n) = k"
proof -
  assume "pad_len n = Suc k"
  moreover have "n mod 4 < 4" by simp
  then have "n mod 4 \<in> {0, 1, 2, 3}" by auto
  ultimately show ?thesis by (auto simp: pad_len_def mod_Suc)
qed

lemma slurp_exact:
  assumes "mbuf_ok mb" and "start \<le> mb_pos mb" and "pad_len (mb_pos mb - start) \<le> length (mb_after mb)"
  shows "slurp_padding start mb = Some (mb_adv mb (pad_len (mb_pos mb - start)))"
  using assms
proof (induction "pad_len (mb_pos mb - start)" arbitrary: mb)
  case 0
  then have "(mb_pos mb - start) mod 4 = 0" using pad_len_iff [of 0 "mb_pos mb - start"] by simp
  with 0 show ?case using slurp_aligned [of start mb] by simp
next
  case (Suc k)
  let ?n = "mb_pos mb - start" and ?m = "mb_adv mb 1"
  have "?n mod 4 \<noteq> 0" using pad_len_iff [of 0 ?n] Suc.hyps(2) by simp
  moreover have left: "1 \<le> length (mb_after mb)" using Suc.prems(3) Suc.hyps(2) by simp
  moreover have "mb_pos mb + 1 < size_mod" using left Suc.prems(1) by (auto simp: mbuf_ok_def mb_after_def)
  ultimately have unf: "slurp_padding start mb = slurp_padding start ?m"
    unfolding slurp_padding_def using Suc.prems(1,2)
    by (subst while_option_unfold) (auto simp: mod4_size mb_adv_def mbuf_get_left_after simp del: length_mb_after)
  have k: "k = pad_len (mb_pos ?m - start)"
    using pad_len_Suc [of ?n k] Suc.hyps(2) Suc.prems(2) by (simp add: Suc_diff_le)
  have "slurp_padding start ?m = Some (mb_adv ?m (pad_len (mb_pos ?m - start)))"
    by (rule Suc.hyps(1) [OF k]) (use Suc.prems left Suc.hyps(2) k in \<open>simp_all del: length_mb_after\<close>)
  then show ?case using unf k [symmetric] Suc.hyps(2) [symmetric] by simp
qed

lemma strdup_total:
  assumes "alloc_total al" and ok: "mbuf_ok mb" and "n \<le> length (mb_after mb)"
  shows "mbuf_strdup al mb n = (None, Some (take n (mb_after mb) @ [0]), (mb_adv mb n)\<lparr>mb_tick := Suc (mb_tick mb)\<rparr>)"
proof -
  obtain f where "al (mb_tick mb) (size_add n 1) = Some f" using assms(1) by (auto simp: alloc_total_def)
  moreover have "mbuf_read_mem (mb\<lparr>mb_tick := Suc (mb_tick mb)\<rparr>) n =
      (None, take n (mb_after mb), mb_adv (mb\<lparr>mb_tick := Suc (mb_tick mb)\<rparr>) n)"
    using reads_at(1) [of "mb\<lparr>mb_tick := Suc (mb_tick mb)\<rparr>" n] assms(2,3) by (simp add: mbuf_tick_ok del: length_mb_after)
  ultimately show ?thesis by (simp add: mbuf_strdup_def mb_adv_def)
qed

definition same_val :: "stun_val \<Rightarrow> stun_val \<Rightarrow> bool" where
  "same_val v w \<longleftrightarrow> (case v of V_mb m \<Rightarrow> (\<exists>m'. w = V_mb m' \<and> mbuf_ok m' \<and> mb_after m' = mb_after m) | _ \<Rightarrow> w = v)"

definition reads_val :: "mbuf \<Rightarrow> stun_val \<Rightarrow> nat \<Rightarrow> (errno + stun_val) \<times> mbuf \<Rightarrow> bool" where
  "reads_val mb v n r \<longleftrightarrow>
     (\<exists>w mb' j. r = (Inr w, mb') \<and> same_val v w \<and> reads mb mb' \<and> mb_pos mb' = mb_pos mb + j
        \<and> j + pad_len j = n + pad_len n)"

lemma reads_valI:
  assumes "mbuf_ok mb" and "j \<le> length (mb_after mb)" and "r = (Inr w, (mb_adv mb j)\<lparr>mb_tick := t\<rparr>)"
    and "same_val v w" and "j + pad_len j = n + pad_len n"
  shows "reads_val mb v n r"
  unfolding reads_val_def using assms reads_tick [OF reads_adv [of mb mb j]]
  by (intro exI [of _ w] exI [of _ "(mb_adv mb j)\<lparr>mb_tick := t\<rparr>"] exI [of _ j]) (simp del: length_mb_after)

lemma addr_decode:
  assumes ok: "sa_ok a" "sa_af a \<noteq> AF_UNSPEC" "sa_scopeid a = 0" and tid: "\<And>t. tidp = Some t \<Longrightarrow> length t = 12"
    and mb: "mbuf_ok mb" "mb_after mb = addr_bytes a tidp @ rest"
  shows "stun_addr_decode tidp mb = (Inr a, mb_adv mb (length (addr_bytes a tidp)))"
proof (cases a)
  case (Sa_in x p)
  then show ?thesis using mb ok(1)
    by (auto simp: stun_addr_decode_def addr_bytes_def mbuf_get_left_after reads_at cookie_high STUN_AF_IPv4_def
        sa_set_in_def xor.assoc Let_def drop_Cons' simp del: length_mb_after)
next
  case (Sa_in6 x p s)
  then show ?thesis using mb ok tid
    by (cases tidp) (auto simp: stun_addr_decode_def addr_bytes_def mbuf_get_left_after reads_at cookie_high STUN_AF_IPv4_def
        STUN_AF_IPv6_def in6_xor_tid_twice sa_set_in6_def xor.assoc Let_def drop_Cons' simp del: length_mb_after)
qed (use ok in simp)

lemma read_u64_at:
  assumes "mbuf_ok mb" and "8 \<le> length (mb_after mb)"
  shows "mbuf_read_u64 mb = (word_of_bytes (take 8 (mb_after mb)), mb_adv mb 8)"
  using mbuf_read_word_ok [OF assms, where 'a = 64] by (simp add: mbuf_read_u64_def mb_adv_def)

lemma ntohll_be64: "sys_ntohll (word_of_bytes (be64 v)) = v"
  using sys_ntohll_htonll [of v] by (simp only: sys_htonll_rev be64_def)

lemma err_code_split:
  assumes "(code :: u16) < 800"
  shows "ucast ((ucast (code div 100) :: u8) AND 7) * 100 + ucast (ucast (code mod 100) :: u8) = code"
proof -
  define n where "n = unat code"
  have n: "n < 800" using assms by (simp add: n_def word_less_nat_alt)
  have hi: "unat (ucast (code div 100) :: u8) = n div 100"
    using n by (simp add: unsigned_ucast_eq unat_div_distrib n_def take_bit_eq_mod)
  have "unat ((ucast (code div 100) :: u8) AND 7) = n div 100"
    using and_mask_small [of "ucast (code div 100) :: u8" 3] hi n by (simp add: mask_eq_exp_minus_1)
  moreover have "unat (ucast (code mod 100) :: u8) = n mod 100"
    using n by (simp add: unsigned_ucast_eq unat_mod_distrib n_def take_bit_eq_mod)
  ultimately have "unat (ucast ((ucast (code div 100) :: u8) AND 7) * 100 + ucast (ucast (code mod 100) :: u8) :: u16)
      = (n div 100 * 100 + n mod 100) mod 65536"
    by (simp add: unat_word_ariths unsigned_ucast_eq take_bit_eq_mod mod_simps)
  then show ?thesis using n by (simp add: word_unat_eq_iff n_def)
qed

lemma read_types:
  "mbuf_ok mb \<Longrightarrow> mb_after mb = concat (map be16 ts) @ rest \<Longrightarrow>
   read_list read_be16 (length ts) mb = (ts, mb_adv mb (2 * length ts))"
proof (induction ts arbitrary: mb)
  case (Cons t ts)
  have r: "read_be16 mb = (t, mb_adv mb 2)"
    using reads_at(3) [OF Cons.prems(1)] Cons.prems(2) by (simp del: length_mb_after)
  have "read_list read_be16 (length ts) (mb_adv mb 2) = (ts, mb_adv (mb_adv mb 2) (2 * length ts))"
    using Cons.prems by (intro Cons.IH) (simp_all del: length_mb_after)
  with r show ?case by simp
qed simp

lemma skip_ahead:
  assumes "mbuf_ok mb" and "n \<le> length (mb_after mb)"
  shows "size_add (mb_pos mb) n = mb_pos mb + n" and "mb_pos mb + n \<le> mb_end mb"
proof -
  have "n \<le> mb_end mb - mb_pos mb" using assms by simp
  then show le: "mb_pos mb + n \<le> mb_end mb" using assms(1) unfolding mbuf_ok_def by linarith
  then show "size_add (mb_pos mb) n = mb_pos mb + n" using assms(1) unfolding mbuf_ok_def by (intro size_add_no_wrap) linarith
qed

lemma reads_val_at:
  assumes "mbuf_ok mb" and "j \<le> length (mb_after mb)" and "same_val v w" and "j + pad_len j = n + pad_len n"
  shows "reads_val mb v n (Inr w, mb_adv mb j)"
  using reads_valI [OF assms(1,2) refl assms(3,4), of "mb_tick mb"] by (cases mb) (simp add: mb_adv_def)

text \<open>Values of a fixed size.\<close>

lemma fixed_value_decode:
  assumes ok: "val_ok k v" and mb: "mbuf_ok mb" "mb_after mb = val_bytes k tid v @ rest"
    and k: "k \<in> {K_change_req, K_msg_integrity, K_uint16, K_uint32, K_uint8, K_even_port, K_no_value, K_uint64}"
  shows "reads_val mb v (length (val_bytes k tid v)) (stun_value_decode al k (length (val_bytes k tid v)) (Some tid) mb)"
proof -
  note at = reads_val_at [OF mb(1), where v = v]
  note rd = reads_at [OF mb(1)] read_u64_at [OF mb(1)]
  have chg: "bit (push_bit 2 (of_bool ip) OR push_bit 1 (of_bool port) :: u32) 2 = ip"
    "bit (push_bit 2 (of_bool ip) OR push_bit 1 (of_bool port) :: u32) 1 = port" for ip port
    by (auto simp: bit_or_iff bit_push_bit_iff bit_of_bool_iff)
  have r7: "bit (push_bit 7 (of_bool r) :: u8) 7 = r" for r by (simp add: bit_push_bit_iff bit_of_bool_iff)
  note defs = stun_value_decode_def same_val_def pad_len_def ntohll_be64 chg r7
  show ?thesis
  proof (cases v)
    case (V_change_req ip port)
    then show ?thesis using at [of 4 v 4] ok mb rd(4) by (cases ip; cases port) (simp_all add: defs del: length_mb_after)
  next
    case (V_msg_integrity mi)
    then show ?thesis using at [of 20 v] ok mb rd(1) [of 20] by (simp add: defs del: length_mb_after)
  next
    case (V_uint16 n)
    then show ?thesis using at [of 2 v] ok mb rd(3) by (simp add: defs del: length_mb_after)
  next
    case (V_uint32 n)
    then show ?thesis using at [of 4 v] ok mb rd(4) by (simp add: defs del: length_mb_after)
  next
    case (V_uint8 n)
    then show ?thesis using at [of 1 v] ok mb rd(2) by (simp add: defs del: length_mb_after)
  next
    case (V_even_port r)
    then show ?thesis using at [of 1 v] ok mb rd(2) by (simp add: defs del: length_mb_after)
  next
    case V_none
    then show ?thesis using at [of 0 v] ok mb by (simp add: defs del: length_mb_after)
  next
    case (V_uint64 n)
    then show ?thesis using at [of 8 v] ok mb rd(5) by (simp add: defs del: length_mb_after)
  qed (use ok k in auto)
qed

lemma err_code_decode:
  assumes ok: "val_ok K_err_code (V_err_code code r)" and al: "alloc_total al"
    and mb: "mbuf_ok mb" "mb_after mb = val_bytes K_err_code tid (V_err_code code r) @ rest"
  shows "reads_val mb (V_err_code code r) (length (val_bytes K_err_code tid (V_err_code code r)))
    (stun_value_decode al K_err_code (length (val_bytes K_err_code tid (V_err_code code r))) (Some tid) mb)"
proof -
  obtain s where s: "r = Some s" "c_string s" "code < 800" using ok by auto
  let ?c = "c_str s"
  have a: "mb_after mb = [0, 0, ucast (code div 100), ucast (code mod 100)] @ ?c @ rest" using mb(2) s(1) by simp
  have p2: "mb\<lparr>mb_pos := size_add (mb_pos mb) 2\<rparr> = mb_adv mb 2"
    using skip_ahead(1) [OF mb(1), of 2] a by (simp add: mb_adv_def del: length_mb_after)
  have ok4: "mbuf_ok (mb_adv mb 4)" "mbuf_ok (mb_adv mb 3)" "mbuf_ok (mb_adv mb 2)"
    using mb(1) a by (auto intro!: mbuf_ok_adv simp del: length_mb_after)
  have r: "mbuf_read_u8 (mb_adv mb 2) = (ucast (code div 100), mb_adv mb 3)"
    "mbuf_read_u8 (mb_adv mb 3) = (ucast (code mod 100), mb_adv mb 4)"
    using reads_at(2) [OF ok4(3)] reads_at(2) [OF ok4(2)] a by (simp_all del: length_mb_after)
  have len: "length ?c \<le> length (mb_after (mb_adv mb 4))" using a by (simp del: length_mb_after)
  have "str_decode al (length ?c) (mb_adv mb 4) = (None, Some (?c @ [0]), (mb_adv mb (4 + length ?c))\<lparr>mb_tick := Suc (mb_tick mb)\<rparr>)"
    using strdup_total [OF al ok4(1) len] len a
    by (simp add: str_decode_def mbuf_get_left_after [OF ok4(1)] del: length_mb_after)
  then have dec: "stun_value_decode al K_err_code (4 + length ?c) (Some tid) mb =
      (Inr (V_err_code code r), (mb_adv mb (4 + length ?c))\<lparr>mb_tick := Suc (mb_tick mb)\<rparr>)"
    using p2 r c_str_string [OF s(2)] s err_code_split [OF s(3)] by (simp add: stun_value_decode_def)
  have n: "length (val_bytes K_err_code tid (V_err_code code r)) = 4 + length ?c" using s(1) by simp
  have "4 + length ?c \<le> length (mb_after mb)" using a by simp
  from reads_valI [OF mb(1) this dec, of "V_err_code code r" "4 + length ?c"] show ?thesis
    unfolding n by (simp add: same_val_def)
qed

lemma mb_decode:
  assumes ok: "val_ok K_mb (V_mb m)" and mb: "mbuf_ok mb" "mb_after mb = mb_after m @ rest"
  shows "reads_val mb (V_mb m) (length (mb_after m)) (stun_value_decode al K_mb (length (mb_after m)) (Some tid) mb)"
proof -
  let ?n = "length (mb_after m)"
  have le: "?n \<le> length (mb_after mb)" using mb(2) by simp
  then have p: "size_add (mb_pos mb) ?n = mb_pos mb + ?n" "mb_pos mb + ?n \<le> mb_end mb"
    using skip_ahead [OF mb(1)] by blast+
  define w where "w = mb\<lparr>mb_end := mb_pos mb + ?n\<rparr>"
  have "mb_after w = take ?n (mb_after mb)" using p(2) by (simp add: w_def mb_after_def min_def)
  then have "same_val (V_mb m) (V_mb w)" "mbuf_ok w"
    using mb p(2) by (auto simp: same_val_def w_def mbuf_ok_def)
  then show ?thesis
    using reads_val_at [OF mb(1) le, of "V_mb m" "V_mb w" ?n] p(1)
    by (simp add: stun_value_decode_def w_def mb_adv_def del: length_mb_after)
qed

lemma value_decode:
  assumes ok: "val_ok k v" and tid: "length tid = 12" and al: "alloc_total al"
    and mb: "mbuf_ok mb" "mb_after mb = val_bytes k tid v @ rest"
  shows "reads_val mb v (length (val_bytes k tid v)) (stun_value_decode al k (length (val_bytes k tid v)) (Some tid) mb)"
proof -
  let ?n = "length (val_bytes k tid v)"
  have left: "mbuf_get_left mb = ?n + length rest" using mb by (simp add: mbuf_get_left_after del: length_mb_after)
  have le: "?n \<le> length (mb_after mb)" using mb(2) by simp
  note whole = reads_val_at [OF mb(1) le]
  show ?thesis
  proof (cases v)
    case (V_sa a)
    let ?t = "if k = K_xor_addr then Some tid else None"
    have "stun_addr_decode ?t mb = (Inr a, mb_adv mb (length (addr_bytes a ?t)))"
      using V_sa ok tid mb by (intro addr_decode) auto
    then show ?thesis
      using V_sa ok whole [of v v ?n] by (auto simp: stun_value_decode_def sum_fst_def same_val_def)
  next
    case (V_str s)
    then show ?thesis
      using ok strdup_total [OF al mb(1) le] left mb(2) c_str_string [of s]
      by (intro reads_valI [OF mb(1) le]) (auto simp: stun_value_decode_def str_decode_def same_val_def)
  next
    case (V_unknown_attr ts)
    then have n: "?n = 2 * length ts" by (simp add: length_concat comp_def sum_list_triv)
    then show ?thesis
      using V_unknown_attr ok read_types [OF mb(1), of ts rest] mb(2) whole [of v v ?n]
      by (simp add: stun_value_decode_def same_val_def del: length_mb_after)
  next
    case (V_err_code c r)
    then show ?thesis using err_code_decode [of c r al mb tid rest] ok al mb by auto
  next
    case (V_mb m)
    then show ?thesis using mb_decode [of m mb rest al tid] ok mb by (simp del: length_mb_after)
  qed (use fixed_value_decode [OF ok mb] ok in auto)
qed

text \<open>
  One attribute: it is decoded to the same type and an equal value, the cursor is behind its padding
  and the unknown types are as they were.
\<close>

lemma kind_ok_not_default: "val_ok k v \<Longrightarrow> k \<noteq> K_default"
  by (cases v) auto

lemma attr_decode:
  assumes ok: "attr_ok (type, v)" and tid: "length tid = 12" and al: "alloc_total al"
    and mb: "mbuf_ok mb" "mb_after mb = attr_bytes tid c (type, v) @ rest"
  shows "\<exists>w mb'. stun_attr_decode al tid ua mb = Some (Inr \<lparr>a_type = type, a_v = w\<rparr>, ua, mb')
    \<and> same_val v w \<and> reads mb mb' \<and> mb_after mb' = rest"
proof -
  let ?k = "attr_kind_of type"
  define bs where "bs = val_bytes ?k tid v"
  have vok: "val_ok ?k v" using ok by (simp add: attr_ok_def)
  then have len: "length bs < 65536" unfolding bs_def using tid by (rule length_val_bytes)
  then have un: "unat (of_nat (length bs) :: u16) = length bs" by (simp add: take_bit_nat_eq_self unsigned_of_nat)
  have a: "mb_after mb = be16 type @ be16 (of_nat (length bs)) @ bs @ replicate (pad_len (length bs)) c @ rest"
    using mb(2) by (simp add: attr_bytes_def bs_def Let_def)
  define m0 where "m0 = mb\<lparr>mb_tick := Suc (mb_tick mb)\<rparr>"
  have m0: "mbuf_ok m0" "mb_after m0 = mb_after mb" "reads mb m0"
    using mb(1) reads_tick [of mb mb] by (simp_all add: m0_def mbuf_tick_ok)
  define m1 where "m1 = mb_adv m0 4"
  have r1: "read_be16 m0 = (type, mb_adv m0 2)"
    using reads_at(3) [OF m0(1)] m0(2) a by (simp del: length_mb_after)
  have "mbuf_ok (mb_adv m0 2)" using m0 a by (intro mbuf_ok_adv) (simp_all del: length_mb_after)
  then have r2: "read_be16 (mb_adv m0 2) = (of_nat (length bs), m1)"
    using reads_at(3) [of "mb_adv m0 2"] m0(2) a by (simp add: m1_def del: length_mb_after)
  have m1: "mbuf_ok m1" "mb_after m1 = bs @ replicate (pad_len (length bs)) c @ rest" "reads mb m1"
    using m0 a reads_adv [OF m0(3), of 4] by (simp_all add: m1_def del: length_mb_after)
  obtain w m2 j where w: "stun_value_decode al ?k (length bs) (Some tid) m1 = (Inr w, m2)" "same_val v w" "reads m1 m2"
      "mb_pos m2 = mb_pos m1 + j" "j + pad_len j = length bs + pad_len (length bs)"
    using value_decode [OF vok tid al m1(1), of "replicate (pad_len (length bs)) c @ rest"] m1(2)
    unfolding bs_def [symmetric] reads_val_def by auto
  have after2: "mb_after m2 = drop j (mb_after m1)" using reads_after [OF w(3)] w(4) by simp
  have "slurp_padding (mb_pos m1) m2 = Some (mb_adv m2 (pad_len j))"
    using slurp_exact [of m2 "mb_pos m1"] reads_ok [OF w(3)] w(4,5) m1(2) by (simp add: after2 del: length_mb_after)
  moreover have "mb_after (mb_adv m2 (pad_len j)) = rest" using after2 w(5) m1(2) by (simp add: add.commute)
  moreover have "reads mb (mb_adv m2 (pad_len j))"
    using reads_adv [OF reads_trans [OF m1(3) w(3)], of "pad_len j"] after2 w(5) m1(2) by (simp del: length_mb_after)
  moreover have "mbuf_get_left mb \<ge> 4" "mbuf_get_left m1 \<ge> length bs"
    using mb(1) m1(1,2) a by (simp_all add: mbuf_get_left_after del: length_mb_after)
  ultimately show ?thesis
    using r1 r2 w(1,2) un kind_ok_not_default [OF vok]
    by (intro exI [of _ w] exI [of _ "mb_adv m2 (pad_len j)"])
       (simp add: stun_attr_decode_def mem_alloc_total [OF al] flip: m0_def)
qed

section \<open>Decoding arbitrary bytes\<close>

lemma fixed_be16: "fixed read_be16 2"
  by (simp add: fixed_def reads_at del: length_mb_after)

lemma reads_skip: "reads a mb \<Longrightarrow> n \<le> mbuf_get_left mb \<Longrightarrow> reads a (mb\<lparr>mb_pos := size_add (mb_pos mb) n\<rparr>)"
  using reads_adv [of a mb n] skip_ahead(1) [OF reads_ok [of a mb], of n] mbuf_get_left_after [OF reads_ok [of a mb]]
  by (simp add: mb_adv_def del: length_mb_after)

lemma reads_addr_decode: "reads a mb \<Longrightarrow> reads a (snd (stun_addr_decode tid mb))"
  by (simp add: stun_addr_decode_def case_prod_beta Let_def reads_prims)

lemma reads_str_decode: "reads a mb \<Longrightarrow> reads a (snd (snd (str_decode al n mb)))"
  by (simp add: str_decode_def reads_strdup)

lemma reads_read_u64: "reads a mb \<Longrightarrow> reads a (snd (mbuf_read_u64 mb))"
  using reads_word [of a mb 8] by (simp add: mbuf_read_u64_def)

lemma snd_sum_fst [simp]: "snd (sum_fst f p) = snd p"
  by (simp add: sum_fst_def split: prod.split sum.split)

lemma snd_err_case:
  "snd (case r of (Some e, _, mb) \<Rightarrow> (Inl e, mb) | (None, s, mb) \<Rightarrow> (Inr (f s), mb)) = snd (snd r)"
  by (simp split: prod.split option.split)

lemma reads_value_decode:
  assumes r: "reads a mb" and len: "n \<le> mbuf_get_left mb"
  shows "reads a (snd (stun_value_decode al k n tid mb))"
proof -
  have l: "reads a (snd (read_list read_be16 (n div 2) mb))"
    using len by (intro reads_read_list [OF fixed_be16 r]) simp
  have e: "reads a (mb\<lparr>mb_pos := size_add (mb_pos mb) 2\<rparr>)" if "\<not> n < 4"
    using that len by (intro reads_skip [OF r]) simp
  have err: "reads a (snd (stun_value_decode al K_err_code n tid mb))"
  proof (cases "n < 4")
    case False
    obtain c m1 where c: "mbuf_read_u8 (mb\<lparr>mb_pos := size_add (mb_pos mb) 2\<rparr>) = (c, m1)" by fastforce
    obtain d m2 where d: "mbuf_read_u8 m1 = (d, m2)" by fastforce
    have "reads a m2" using reads_prims(1) [OF reads_prims(1) [OF e [OF False]]] c d by simp
    then show ?thesis using False c d by (simp add: stun_value_decode_def snd_err_case reads_str_decode)
  qed (use r in \<open>simp add: stun_value_decode_def\<close>)
  have str: "reads a (snd (stun_value_decode al K_str n tid mb))" "reads a (snd (stun_value_decode al K_msg_integrity n tid mb))"
    using r by (simp_all add: stun_value_decode_def snd_err_case reads_str_decode reads_prims)
  show ?thesis
    by (cases k) (use r l err str in \<open>simp_all add: stun_value_decode_def case_prod_beta reads_prims reads_addr_decode
        reads_read_u64 reads_skip [OF r len]\<close>)
qed

text \<open>
  A decoded value has the constructor its type asks for, strings are terminated, arrays have their
  sizes and buffers lie within the datagram.
\<close>

definition terminated :: "byte list \<Rightarrow> bool" where
  "terminated s \<longleftrightarrow> s \<noteq> [] \<and> last s = 0"

fun val_typed :: "attr_kind \<Rightarrow> stun_val \<Rightarrow> bool" where
  "val_typed k (V_sa a) \<longleftrightarrow> k \<in> {K_addr, K_xor_addr} \<and> sa_ok a \<and> sa_af a \<noteq> AF_UNSPEC"
| "val_typed k (V_change_req ip port) \<longleftrightarrow> k = K_change_req"
| "val_typed k (V_str s) \<longleftrightarrow> k = K_str \<and> terminated s"
| "val_typed k (V_msg_integrity mi) \<longleftrightarrow> k = K_msg_integrity \<and> length mi = 20"
| "val_typed k (V_err_code code r) \<longleftrightarrow> k = K_err_code \<and> code < 1000 \<and> (\<exists>s. r = Some s \<and> terminated s)"
| "val_typed k (V_unknown_attr ts) \<longleftrightarrow> k = K_unknown_attr \<and> length ts \<le> 8"
| "val_typed k (V_uint16 n) \<longleftrightarrow> k = K_uint16"
| "val_typed k (V_uint32 n) \<longleftrightarrow> k = K_uint32"
| "val_typed k (V_mb m) \<longleftrightarrow> k = K_mb \<and> mbuf_ok m"
| "val_typed k (V_uint8 n) \<longleftrightarrow> k = K_uint8"
| "val_typed k (V_even_port r) \<longleftrightarrow> k = K_even_port"
| "val_typed k V_none \<longleftrightarrow> k \<in> {K_no_value, K_default}"
| "val_typed k (V_uint64 n) \<longleftrightarrow> k = K_uint64"
| "val_typed k V_self \<longleftrightarrow> False"

lemma addr_decode_typed:
  assumes "mbuf_ok mb" and "\<And>t. tid = Some t \<Longrightarrow> length t = 12" and "stun_addr_decode tid mb = (Inr a, mb')"
  shows "sa_ok a \<and> sa_af a \<noteq> AF_UNSPEC"
proof -
  have "sa_ok (sa_set_in6 (case tid of Some t \<Rightarrow> in6_xor_tid x t | None \<Rightarrow> x) p)" if "length x = 16" for x p
    using that assms(2) by (auto simp: sa_set_in6_def split: option.split)
  moreover have "length (fst (snd (mbuf_read_mem m 16))) = 16" if "reads mb m" "\<not> mbuf_get_left m < 16" for m
    using reads_at(1) [OF reads_ok [OF that(1)], of 16] that(2) mbuf_get_left_after [OF reads_ok [OF that(1)]]
    by (simp del: length_mb_after)
  ultimately show ?thesis
    using assms(1,3) reads_prims [of mb] reads_prims(1) [of mb "snd (mbuf_read_u8 mb)"]
      reads_prims(2) [of mb "snd (mbuf_read_u8 (snd (mbuf_read_u8 mb)))"]
    by (auto simp: stun_addr_decode_def case_prod_beta Let_def sa_set_in_def split: if_splits)
qed

lemma str_decode_typed: "str_decode al n mb = (None, s, mb') \<Longrightarrow> \<exists>t. s = Some t \<and> terminated t"
  by (auto simp: str_decode_def mbuf_strdup_def terminated_def split: if_splits option.splits prod.splits)

lemma err_code_bound: "ucast ((c :: u8) AND 7) * 100 + ucast (n :: u8) < (1000 :: u16)"
proof -
  have "(7 :: u8) = mask 3" by (simp add: mask_eq_exp_minus_1)
  then have "unat (c AND 7) = take_bit 3 (unat c)" by (simp only: take_bit_eq_mask [symmetric] unsigned_take_bit_eq)
  then have "unat (c AND 7) < 8" using take_bit_nat_less_exp [of 3 "unat c"] by simp
  then show ?thesis
    using unsigned_less [of n, where 'a = nat] by (simp add: word_less_nat_alt unat_word_ariths unsigned_ucast_eq take_bit_eq_mod)
qed

lemma value_decode_typed:
  assumes mb: "mbuf_ok mb" and len: "n \<le> mbuf_get_left mb" and tid: "length tid = 12"
    and res: "stun_value_decode al k n (Some tid) mb = (Inr v, mb')"
  shows "val_typed k v \<and> (k = K_msg_integrity \<longrightarrow> mb_pos mb' = mb_pos mb + 20) \<and> (k = K_uint32 \<longrightarrow> mb_pos mb' = mb_pos mb + 4)"
proof -
  have le: "n \<le> length (mb_after mb)" using len mb by (simp add: mbuf_get_left_after del: length_mb_after)
  note rd = reads_at [OF mb]
  show ?thesis
  proof (cases k)
    case K_addr
    then obtain a where "stun_addr_decode None mb = (Inr a, mb')" "v = V_sa a"
      using res by (auto simp: stun_value_decode_def sum_fst_def split: prod.splits sum.splits)
    then show ?thesis using addr_decode_typed [OF mb, of None] K_addr by auto
  next
    case K_xor_addr
    then obtain a where "stun_addr_decode (Some tid) mb = (Inr a, mb')" "v = V_sa a"
      using res by (auto simp: stun_value_decode_def sum_fst_def split: prod.splits sum.splits)
    then show ?thesis using addr_decode_typed [OF mb, of "Some tid"] K_xor_addr tid by auto
  next
    case K_str
    then show ?thesis using res str_decode_typed [of al n mb]
      by (auto simp: stun_value_decode_def split: prod.splits option.splits)
  next
    case K_msg_integrity
    then show ?thesis using res le rd(1) [of 20] by (auto simp: stun_value_decode_def split: if_splits simp del: length_mb_after)
  next
    case K_err_code
    then show ?thesis using res str_decode_typed [of al "n - 4"] err_code_bound
      by (fastforce simp: stun_value_decode_def split: if_splits prod.splits option.splits)
  next
    case K_uint32
    then show ?thesis using res le rd(4) by (auto simp: stun_value_decode_def split: if_splits simp del: length_mb_after)
  next
    case K_mb
    have "size_add (mb_pos mb) n = mb_pos mb + n" "mb_pos mb + n \<le> mb_end mb" using skip_ahead [OF mb le] by simp_all
    then have "mbuf_ok (mb\<lparr>mb_end := size_add (mb_pos mb) n\<rparr>)" using mb by (simp add: mbuf_ok_def)
    then show ?thesis using res K_mb by (auto simp: stun_value_decode_def)
  qed (use res in \<open>auto simp: stun_value_decode_def split: if_splits prod.splits\<close>)
qed

section \<open>One attribute of an arbitrary datagram\<close>

definition attr_typed :: "stun_attr \<Rightarrow> bool" where
  "attr_typed a \<longleftrightarrow> val_typed (attr_kind_of (a_type a)) (a_v a)"

text \<open>The least number of bytes an attribute takes.\<close>

definition attr_min :: "u16 \<Rightarrow> nat" where
  "attr_min type = (if type = STUN_ATTR_MSG_INTEGRITY then 24 else if type = STUN_ATTR_FINGERPRINT then 8 else 4)"

lemma kind_of_special:
  "attr_kind_of STUN_ATTR_MSG_INTEGRITY = K_msg_integrity" "attr_kind_of STUN_ATTR_FINGERPRINT = K_uint32"
  "attr_kind_of STUN_ATTR_ERR_CODE = K_err_code"
  by code_simp+

lemma attr_decode_returns:
  assumes r: "reads a mb" and tid: "length tid = 12"
  shows "\<exists>res ua' mb'. stun_attr_decode al tid ua mb = Some (res, ua', mb') \<and> reads a mb'
    \<and> (\<forall>x. res = Inr x \<longrightarrow> attr_typed x \<and> mb_pos mb + attr_min (a_type x) \<le> mb_pos mb')"
proof (cases "mbuf_get_left mb < 4")
  case False
  define m0 where "m0 = snd (mem_alloc al sizeof_attr mb)"
  have m0: "reads a m0" "mb_pos m0 = mb_pos mb" "mb_after m0 = mb_after mb" "mbuf_ok m0"
    using reads_mem_alloc [OF r, of al sizeof_attr] reads_ok by (auto simp: m0_def mem_alloc_def)
  have four: "4 \<le> length (mb_after m0)" using False reads_ok [OF r] m0(3) by (simp add: mbuf_get_left_after del: length_mb_after)
  obtain type m1 where m1: "read_be16 m0 = (type, m1)" by fastforce
  have m1': "m1 = mb_adv m0 2" "mbuf_ok m1" using reads_at(3) [OF m0(4)] four m0(4) m1 by (auto simp del: length_mb_after)
  obtain len m2 where m2: "read_be16 m1 = (len, m2)" by fastforce
  have m2': "m2 = mb_adv m0 4" "reads a m2"
    using reads_at(3) [OF m1'(2)] four m1' m2 reads_prims(2) [OF reads_prims(2) [OF m0(1)]] m1 by (auto simp del: length_mb_after)
  let ?k = "attr_kind_of type"
  show ?thesis
  proof (cases "fst (mem_alloc al sizeof_attr mb) \<and> \<not> mbuf_get_left m2 < unat len")
    case True
    obtain x m3 where v: "stun_value_decode al ?k (unat len) (Some tid) m2 = (x, m3)" by fastforce
    have m3: "reads a m3" using reads_value_decode [OF m2'(2), of "unat len" al ?k "Some tid"] True v by simp
    have mono: "mb_pos m2 \<le> mb_pos m3"
      using reads_value_decode [of m2 m2 "unat len" al ?k "Some tid"] reads_ok [OF m2'(2)] True v by (simp add: reads_def)
    obtain m4 where sl: "slurp_padding (mb_pos m2) m3 = Some m4" "reads m3 m4"
      using slurp_padding_returns [of m3 m3 "mb_pos m2"] m3 by auto
    have dec: "stun_attr_decode al tid ua mb =
        (case x of Inl e \<Rightarrow> Some (Inl e, ua, m3)
         | Inr v \<Rightarrow> Some (Inr \<lparr>a_type = type, a_v = v\<rparr>, if ?k = K_default then note_unknown type ua else ua, m4))"
      using False True m1 m2 v sl(1)
      by (cases x) (simp_all add: stun_attr_decode_def case_prod_beta m0_def [symmetric])
    show ?thesis
    proof (cases x)
      case (Inr w)
      note t = value_decode_typed [OF reads_ok [OF m2'(2)] _ tid v [unfolded Inr]]
      have "attr_typed \<lparr>a_type = type, a_v = w\<rparr>" using t True by (simp add: attr_typed_def)
      moreover have "mb_pos mb + attr_min type \<le> mb_pos m4"
        using t True mono sl(2) m2'(1) m0(2) by (auto simp: attr_min_def kind_of_special reads_def)
      ultimately show ?thesis using dec Inr reads_trans [OF m3 sl(2)] by simp
    qed (use dec m3 in simp)
  qed (use False m0(1) m1 m2 m2'(2) in \<open>auto simp: stun_attr_decode_def case_prod_beta m0_def [symmetric]\<close>)
qed (use r in \<open>simp add: stun_attr_decode_def\<close>)

section \<open>The message type\<close>

lemma word16_eqI:
  fixes a b :: u16
  assumes "\<And>k. k \<in> {0, 1, 2, 3, 4, 5, 6, 7, 8, 9, 10, 11, 12, 13, 14, 15} \<Longrightarrow> bit a k = bit b k"
  shows "a = b"
proof (rule bit_word_eqI)
  fix k
  assume "k < LENGTH(16)"
  then have "k \<in> {0, 1, 2, 3, 4, 5, 6, 7, 8, 9, 10, 11, 12, 13, 14, 15}" by (simp, presburger)
  then show "bit a k = bit b k" by (rule assms)
qed

lemmas type_bits = bit_or_iff bit_and_iff bit_push_bit_iff bit_drop_bit_eq

lemma small_bits:
  fixes w :: u16
  assumes "unat w < 2 ^ n" and "n \<le> k"
  shows "\<not> bit w k"
proof -
  have "\<not> bit (drop_bit n w) (k - n)" using drop_bit_small [OF assms(1)] by simp
  then show ?thesis using assms(2) by (simp add: bit_drop_bit_eq)
qed

lemma bit_twice: "bit (w * 2 :: u16) k \<longleftrightarrow> k < 16 \<and> 0 < k \<and> bit w (k - 1)"
  using bit_push_bit_iff [of 1 w k] by (auto simp: push_bit_eq_mult dest: bit_imp_le_length)

lemma stun_type_parts:
  assumes "unat method < 2 ^ 12" and "unat cls < 2 ^ 2"
  shows "STUN_METHOD (STUN_TYPE method cls) = method"
    and "STUN_TYPE method cls AND 0xc000 = 0"
    and "STUN_CLASS (STUN_TYPE method cls) = cls OR (if bit method 6 then 1 else 0) OR (if bit method 4 then 2 else 0)"
proof -
  note m = small_bits [OF assms(1)] and c = small_bits [OF assms(2)]
  show "STUN_METHOD (STUN_TYPE method cls) = method"
    by (rule word16_eqI, elim insertE emptyE) (simp_all add: STUN_METHOD_def STUN_TYPE_def type_bits bit_twice m)
  show "STUN_TYPE method cls AND 0xc000 = 0"
    by (rule word16_eqI, elim insertE emptyE) (simp_all add: STUN_TYPE_def type_bits)
  show "STUN_CLASS (STUN_TYPE method cls) = cls OR (if bit method 6 then 1 else 0) OR (if bit method 4 then 2 else 0)"
    by (rule word16_eqI, elim insertE emptyE) (simp_all add: STUN_CLASS_def STUN_TYPE_def type_bits bit_twice c)
qed

end
