(* ===== verification/Crc32.thy ===== *)
theory Crc32
  imports Prelude
begin

text \<open>
  The checksum of \<open>re/src/crc32/crc32.c\<close>, which the STUN fingerprint is made of: the table of
  feedback terms and the loop that consumes a byte per round. The reference is the shift register
  the table stands for, one bit per round. The theorems: the table-driven loop computes the
  register, checksums can be continued from block to block, and damage confined to one byte of a
  block is always noticed.
\<close>

section \<open>The code\<close>

definition crc32_tab :: "u32 list" where
  "crc32_tab = [
    0x00000000, 0x77073096, 0xee0e612c, 0x990951ba, 0x076dc419, 0x706af48f, 0xe963a535, 0x9e6495a3,
    0x0edb8832, 0x79dcb8a4, 0xe0d5e91e, 0x97d2d988, 0x09b64c2b, 0x7eb17cbd, 0xe7b82d07, 0x90bf1d91,
    0x1db71064, 0x6ab020f2, 0xf3b97148, 0x84be41de, 0x1adad47d, 0x6ddde4eb, 0xf4d4b551, 0x83d385c7,
    0x136c9856, 0x646ba8c0, 0xfd62f97a, 0x8a65c9ec, 0x14015c4f, 0x63066cd9, 0xfa0f3d63, 0x8d080df5,
    0x3b6e20c8, 0x4c69105e, 0xd56041e4, 0xa2677172, 0x3c03e4d1, 0x4b04d447, 0xd20d85fd, 0xa50ab56b,
    0x35b5a8fa, 0x42b2986c, 0xdbbbc9d6, 0xacbcf940, 0x32d86ce3, 0x45df5c75, 0xdcd60dcf, 0xabd13d59,
    0x26d930ac, 0x51de003a, 0xc8d75180, 0xbfd06116, 0x21b4f4b5, 0x56b3c423, 0xcfba9599, 0xb8bda50f,
    0x2802b89e, 0x5f058808, 0xc60cd9b2, 0xb10be924, 0x2f6f7c87, 0x58684c11, 0xc1611dab, 0xb6662d3d,
    0x76dc4190, 0x01db7106, 0x98d220bc, 0xefd5102a, 0x71b18589, 0x06b6b51f, 0x9fbfe4a5, 0xe8b8d433,
    0x7807c9a2, 0x0f00f934, 0x9609a88e, 0xe10e9818, 0x7f6a0dbb, 0x086d3d2d, 0x91646c97, 0xe6635c01,
    0x6b6b51f4, 0x1c6c6162, 0x856530d8, 0xf262004e, 0x6c0695ed, 0x1b01a57b, 0x8208f4c1, 0xf50fc457,
    0x65b0d9c6, 0x12b7e950, 0x8bbeb8ea, 0xfcb9887c, 0x62dd1ddf, 0x15da2d49, 0x8cd37cf3, 0xfbd44c65,
    0x4db26158, 0x3ab551ce, 0xa3bc0074, 0xd4bb30e2, 0x4adfa541, 0x3dd895d7, 0xa4d1c46d, 0xd3d6f4fb,
    0x4369e96a, 0x346ed9fc, 0xad678846, 0xda60b8d0, 0x44042d73, 0x33031de5, 0xaa0a4c5f, 0xdd0d7cc9,
    0x5005713c, 0x270241aa, 0xbe0b1010, 0xc90c2086, 0x5768b525, 0x206f85b3, 0xb966d409, 0xce61e49f,
    0x5edef90e, 0x29d9c998, 0xb0d09822, 0xc7d7a8b4, 0x59b33d17, 0x2eb40d81, 0xb7bd5c3b, 0xc0ba6cad,
    0xedb88320, 0x9abfb3b6, 0x03b6e20c, 0x74b1d29a, 0xead54739, 0x9dd277af, 0x04db2615, 0x73dc1683,
    0xe3630b12, 0x94643b84, 0x0d6d6a3e, 0x7a6a5aa8, 0xe40ecf0b, 0x9309ff9d, 0x0a00ae27, 0x7d079eb1,
    0xf00f9344, 0x8708a3d2, 0x1e01f268, 0x6906c2fe, 0xf762575d, 0x806567cb, 0x196c3671, 0x6e6b06e7,
    0xfed41b76, 0x89d32be0, 0x10da7a5a, 0x67dd4acc, 0xf9b9df6f, 0x8ebeeff9, 0x17b7be43, 0x60b08ed5,
    0xd6d6a3e8, 0xa1d1937e, 0x38d8c2c4, 0x4fdff252, 0xd1bb67f1, 0xa6bc5767, 0x3fb506dd, 0x48b2364b,
    0xd80d2bda, 0xaf0a1b4c, 0x36034af6, 0x41047a60, 0xdf60efc3, 0xa867df55, 0x316e8eef, 0x4669be79,
    0xcb61b38c, 0xbc66831a, 0x256fd2a0, 0x5268e236, 0xcc0c7795, 0xbb0b4703, 0x220216b9, 0x5505262f,
    0xc5ba3bbe, 0xb2bd0b28, 0x2bb45a92, 0x5cb36a04, 0xc2d7ffa7, 0xb5d0cf31, 0x2cd99e8b, 0x5bdeae1d,
    0x9b64c2b0, 0xec63f226, 0x756aa39c, 0x026d930a, 0x9c0906a9, 0xeb0e363f, 0x72076785, 0x05005713,
    0x95bf4a82, 0xe2b87a14, 0x7bb12bae, 0x0cb61b38, 0x92d28e9b, 0xe5d5be0d, 0x7cdcefb7, 0x0bdbdf21,
    0x86d3d2d4, 0xf1d4e242, 0x68ddb3f8, 0x1fda836e, 0x81be16cd, 0xf6b9265b, 0x6fb077e1, 0x18b74777,
    0x88085ae6, 0xff0f6a70, 0x66063bca, 0x11010b5c, 0x8f659eff, 0xf862ae69, 0x616bffd3, 0x166ccf45,
    0xa00ae278, 0xd70dd2ee, 0x4e048354, 0x3903b3c2, 0xa7672661, 0xd06016f7, 0x4969474d, 0x3e6e77db,
    0xaed16a4a, 0xd9d65adc, 0x40df0b66, 0x37d83bf0, 0xa9bcae53, 0xdebb9ec5, 0x47b2cf7f, 0x30b5ffe9,
    0xbdbdf21c, 0xcabac28a, 0x53b39330, 0x24b4a3a6, 0xbad03605, 0xcdd70693, 0x54de5729, 0x23d967bf,
    0xb3667a2e, 0xc4614ab8, 0x5d681b02, 0x2a6f2b94, 0xb40bbe37, 0xc30c8ea1, 0x5a05df1b, 0x2d02ef8d]"

text \<open>\<open>while (size--) crc = crc32_tab[(crc ^ *p++) & 0xff] ^ (crc >> 8)\<close>.\<close>

primrec crc32_loop :: "u32 \<Rightarrow> byte list \<Rightarrow> u32" where
  "crc32_loop crc [] = crc"
| "crc32_loop crc (b # bs) =
     crc32_loop (crc32_tab ! unat ((crc XOR ucast b) AND 0xff) XOR drop_bit 8 crc) bs"

definition re_crc32 :: "u32 \<Rightarrow> byte list \<Rightarrow> u32" where
  "re_crc32 crc buf = crc32_loop (NOT crc) buf XOR NOT 0"

section \<open>The shift register\<close>

text \<open>The polynomial with the highest power in the lowest bit; one round shifts one bit out.\<close>

definition crc_poly :: u32 where
  "crc_poly = 0xedb88320"

definition crc_bit :: "u32 \<Rightarrow> u32" where
  "crc_bit c = (if bit c 0 then drop_bit 1 c XOR crc_poly else drop_bit 1 c)"

definition crc_byte :: "u32 \<Rightarrow> byte \<Rightarrow> u32" where
  "crc_byte c b = (crc_bit ^^ 8) (c XOR ucast b)"

definition crc32_spec :: "byte list \<Rightarrow> u32" where
  "crc32_spec bs = NOT (foldl crc_byte (NOT 0) bs)"

section \<open>The table\<close>

lemma crc_bit_linear: "crc_bit (a XOR b) = crc_bit a XOR crc_bit b"
  by (rule bit_word_eqI) (auto simp: crc_bit_def bit_xor_iff bit_drop_bit_eq)

lemma crc_bits_linear: "(crc_bit ^^ n) (a XOR b) = (crc_bit ^^ n) a XOR (crc_bit ^^ n) b"
  by (induction n) (simp_all add: crc_bit_linear)

lemma crc_bits_shift: "(\<forall>k < n. \<not> bit c k) \<Longrightarrow> (crc_bit ^^ n) c = drop_bit n c"
proof (induction n arbitrary: c)
  case (Suc n)
  then have "crc_bit c = drop_bit 1 c" by (simp add: crc_bit_def)
  moreover have "(crc_bit ^^ n) (drop_bit 1 c) = drop_bit n (drop_bit 1 c)"
    using Suc.prems by (intro Suc.IH) (auto simp: bit_drop_bit_eq)
  ultimately show ?case by (simp add: funpow_Suc_right drop_bit_drop_bit del: funpow.simps(2))
qed simp

text \<open>The table is spanned by its entries at the powers of two.\<close>

definition tab_double :: "u32 list \<Rightarrow> u32 \<Rightarrow> u32 list" where
  "tab_double t v = t @ map ((XOR) v) t"

lemma funpow_8: "(f ^^ 8) x = f (f (f (f (f (f (f (f x)))))))"
  by (simp add: numeral_eq_Suc)

lemma crc_basis:
  "(crc_bit ^^ 8) 1 = 0x77073096" "(crc_bit ^^ 8) 2 = 0xee0e612c" "(crc_bit ^^ 8) 4 = 0x076dc419"
  "(crc_bit ^^ 8) 8 = 0x0edb8832" "(crc_bit ^^ 8) 16 = 0x1db71064" "(crc_bit ^^ 8) 32 = 0x3b6e20c8"
  "(crc_bit ^^ 8) 64 = 0x76dc4190" "(crc_bit ^^ 8) 128 = 0xedb88320"
  by (simp_all add: funpow_8 crc_bit_def crc_poly_def)

lemma crc32_tab_span:
  "crc32_tab = foldl tab_double [0] [0x77073096, 0xee0e612c, 0x076dc419,
    0x0edb8832, 0x1db71064, 0x3b6e20c8, 0x76dc4190, 0xedb88320]"
  by (simp add: crc32_tab_def tab_double_def)

definition tab_upto :: "nat \<Rightarrow> u32 list \<Rightarrow> bool" where
  "tab_upto k t \<longleftrightarrow> length t = 2 ^ k \<and> (\<forall>i < 2 ^ k. t ! i = (crc_bit ^^ 8) (of_nat i))"

lemma of_nat_xor_power:
  assumes "j < 2 ^ k"
  shows "(of_nat (2 ^ k + j) :: u32) = push_bit k 1 XOR of_nat j"
proof -
  have "\<not> bit j k" using assms by (simp add: bit_iff_odd)
  then have "push_bit k 1 AND j = 0" by (intro bit_eqI) (auto simp: bit_and_iff bit_push_bit_iff bit_exp_iff)
  then have "2 ^ k + j = push_bit k 1 XOR j"
    using disjunctive_add_eq_xor [of "push_bit k 1" j] by (simp add: push_bit_eq_mult)
  then show ?thesis by (simp add: of_nat_xor_eq push_bit_of_nat)
qed

lemma tab_double_upto:
  assumes t: "tab_upto k t" and v: "v = (crc_bit ^^ 8) (push_bit k 1)"
  shows "tab_upto (Suc k) (tab_double t v)"
  unfolding tab_upto_def
proof (intro conjI allI impI)
  have len: "length t = 2 ^ k" using t by (simp add: tab_upto_def)
  then show "length (tab_double t v) = 2 ^ Suc k" by (simp add: tab_double_def)
  fix i :: nat
  assume i: "i < 2 ^ Suc k"
  show "tab_double t v ! i = (crc_bit ^^ 8) (of_nat i)"
  proof (cases "i < 2 ^ k")
    case True
    then show ?thesis using t len by (simp add: tab_double_def nth_append tab_upto_def)
  next
    case False
    define j where "j = i - 2 ^ k"
    have j: "j < 2 ^ k" "i = 2 ^ k + j" using False i by (auto simp: j_def)
    have "tab_double t v ! i = v XOR t ! j" using j len by (simp add: tab_double_def nth_append)
    also have "\<dots> = (crc_bit ^^ 8) (push_bit k 1 XOR of_nat j)"
      using t j(1) v by (simp add: tab_upto_def crc_bits_linear)
    finally show ?thesis by (simp only: of_nat_xor_power [OF j(1)] j(2))
  qed
qed

lemma tab_span_upto:
  "tab_upto 0 t \<Longrightarrow> tab_upto n (foldl tab_double t (map (\<lambda>k. (crc_bit ^^ 8) (push_bit k 1)) [0..<n]))"
  by (induction n) (simp_all add: tab_double_upto)

lemma crc32_tab_nth:
  assumes "i < 256"
  shows "crc32_tab ! i = (crc_bit ^^ 8) (of_nat i)"
proof -
  have "crc_bit 0 = 0" by (simp add: crc_bit_def)
  then have "tab_upto 0 [0]" by (simp add: tab_upto_def funpow_8)
  from tab_span_upto [OF this, of 8] have "tab_upto 8 crc32_tab"
    unfolding crc32_tab_span by (simp add: upt_rec crc_basis)
  then show ?thesis using assms by (simp add: tab_upto_def)
qed

section \<open>The loop computes the register\<close>

lemma crc_byte_table: "crc32_tab ! unat ((c XOR ucast b) AND 0xff) XOR drop_bit 8 c = crc_byte c b"
proof -
  let ?x = "c XOR ucast b"
  let ?lo = "?x AND 0xff" and ?hi = "push_bit 8 (drop_bit 8 c)"
  have mask: "(0xff :: u32) = mask 8" by (simp add: mask_eq_exp_minus_1)
  have lo: "unat ?lo < 256"
    unfolding mask take_bit_eq_mask [symmetric] unsigned_take_bit_eq
    using take_bit_nat_less_exp [of 8 "unat ?x"] by simp
  have "?x = ?lo XOR ?hi"
    by (rule bit_word_eqI)
       (auto simp: mask bit_xor_iff bit_and_iff bit_mask_iff bit_push_bit_iff bit_drop_bit_eq bit_ucast_iff
          dest: bit_imp_le_length)
  then have "crc_byte c b = (crc_bit ^^ 8) (?lo XOR ?hi)" by (simp add: crc_byte_def)
  also have "\<dots> = (crc_bit ^^ 8) ?lo XOR drop_bit 8 ?hi"
    unfolding crc_bits_linear by (subst (2) crc_bits_shift) (auto simp: bit_push_bit_iff)
  also have "drop_bit 8 ?hi = drop_bit 8 c"
    by (rule bit_word_eqI) (auto simp: bit_drop_bit_eq bit_push_bit_iff dest: bit_imp_le_length)
  finally show ?thesis using crc32_tab_nth [OF lo] by simp
qed

lemma crc32_loop_bitwise: "crc32_loop c bs = foldl crc_byte c bs"
  by (induction bs arbitrary: c) (simp_all add: crc_byte_table)

lemma xor_ones: "(w :: u32) XOR NOT 0 = NOT w"
  by (rule bit_word_eqI) (auto simp: bit_xor_iff bit_not_iff)

lemma re_crc32_fold: "re_crc32 c bs = NOT (foldl crc_byte (NOT c) bs)"
  by (simp add: re_crc32_def xor_ones crc32_loop_bitwise)

text \<open>C34: the table-driven \<open>re_crc32\<close> computes the shift register of the polynomial: started at 0 it is
  the reference \<open>crc32_spec\<close>, and a checksum of one block is continued over the next by passing it on.
\<close>

theorem re_crc32_correct: "re_crc32 0 bs = crc32_spec bs \<and> re_crc32 (re_crc32 c xs) ys = re_crc32 c (xs @ ys)"
  by (simp add: re_crc32_fold crc32_spec_def)

text \<open>The check value of the CRC catalogue: the digits 1 to 9 as text.\<close>

lemma re_crc32_check: "re_crc32 0 [0x31, 0x32, 0x33, 0x34, 0x35, 0x36, 0x37, 0x38, 0x39] = 0xCBF43926"
  by (simp add: re_crc32_fold crc_byte_def funpow_8 crc_bit_def crc_poly_def)

section \<open>Damage is noticed\<close>

lemma xor_cancel:
  fixes x :: u32
  shows "a XOR x = b XOR x \<longleftrightarrow> a = b" and "x XOR a = x XOR b \<longleftrightarrow> a = b"
proof -
  have "(c XOR x) XOR x = c" for c by (simp add: xor.assoc)
  then show eq: "a XOR x = b XOR x \<longleftrightarrow> a = b" by metis
  show "x XOR a = x XOR b \<longleftrightarrow> a = b" by (simp only: xor.commute [of x] eq)
qed

lemma crc_bit_inj: "crc_bit a = crc_bit b \<Longrightarrow> a = b"
proof -
  assume eq: "crc_bit a = crc_bit b"
  have top: "bit (crc_bit c) 31 \<longleftrightarrow> bit c 0" for c
    using bit_imp_le_length [of c 32] by (auto simp: crc_bit_def crc_poly_def bit_xor_iff bit_drop_bit_eq)
  then have zero: "bit a 0 \<longleftrightarrow> bit b 0" using eq by metis
  then have "drop_bit 1 a = drop_bit 1 b"
    using eq by (simp add: crc_bit_def xor_cancel del: drop_bit_Suc bit_0 split: if_splits)
  then have "bit (drop_bit 1 a) k \<longleftrightarrow> bit (drop_bit 1 b) k" for k by simp
  then have suc: "bit a (Suc k) \<longleftrightarrow> bit b (Suc k)" for k by (simp add: bit_drop_bit_eq)
  show "a = b"
  proof (rule bit_word_eqI)
    show "bit a k \<longleftrightarrow> bit b k" for k using zero suc by (cases k) simp_all
  qed
qed

lemma crc_bits_inj: "(crc_bit ^^ n) a = (crc_bit ^^ n) b \<Longrightarrow> a = b"
  by (induction n) (auto dest: crc_bit_inj)

text \<open>Up to four bytes are absorbed like one word.\<close>

lemma crc_word:
  "length bs \<le> 4 \<Longrightarrow> foldl crc_byte c bs = (crc_bit ^^ (8 * length bs)) (c XOR word_of_bytes bs)"
proof (induction bs arbitrary: c)
  case (Cons b bs)
  let ?w = "word_of_bytes bs :: u32"
  have "drop_bit 8 (push_bit 8 ?w) = ?w"
    using word_of_bytes_bit_less [of bs, where 'a = 32] Cons.prems
    by (intro bit_word_eqI) (fastforce simp: bit_drop_bit_eq bit_push_bit_iff)
  moreover have "(crc_bit ^^ 8) (push_bit 8 ?w) = drop_bit 8 (push_bit 8 ?w)"
    by (rule crc_bits_shift) (simp add: bit_push_bit_iff)
  ultimately have shift: "(crc_bit ^^ 8) (push_bit 8 ?w) = ?w" by simp
  have or_xor: "word_of_bytes (b # bs) = (ucast b :: u32) XOR push_bit 8 ?w"
    by (intro bit_word_eqI) (auto simp: bit_or_iff bit_xor_iff bit_push_bit_iff bit_ucast_iff dest: bit_imp_le_length)
  have "foldl crc_byte c (b # bs) = (crc_bit ^^ (8 * length bs)) (crc_byte c b XOR ?w)"
    using Cons by simp
  also have "crc_byte c b XOR ?w = (crc_bit ^^ 8) (c XOR word_of_bytes (b # bs))"
    unfolding or_xor crc_byte_def xor.assoc [symmetric] by (subst (2) crc_bits_linear) (simp add: shift)
  finally show ?case by (simp add: funpow_add add.commute [of 8])
qed simp

lemma crc_fold_inj: "foldl crc_byte a bs = foldl crc_byte b bs \<Longrightarrow> a = b"
proof (induction bs arbitrary: a b)
  case (Cons x xs)
  then have "crc_byte a x = crc_byte b x" by simp
  then have "a XOR ucast x = b XOR ucast x" unfolding crc_byte_def by (rule crc_bits_inj)
  then show ?case by (simp only: xor_cancel)
qed simp

lemma word_of_bytes_inj:
  assumes "length bs = length cs" and "length bs \<le> 4" and "(word_of_bytes bs :: u32) = word_of_bytes cs"
  shows "bs = cs"
proof -
  have "word_bytes (length bs) (word_of_bytes bs :: u32) = bs" "word_bytes (length cs) (word_of_bytes cs :: u32) = cs"
    by (rule word_bytes_word_of_bytes; use assms(1,2) in simp)+
  then show ?thesis using assms(1,3) by metis
qed

text \<open>a change that is confined to four consecutive bytes of a block, whatever it is and wherever it is,
  changes the checksum.
\<close>

theorem re_crc32_detects_burst:
  assumes "length bs = length cs" and "length bs \<le> 4" and "bs \<noteq> cs"
  shows "re_crc32 c (pre @ bs @ post) \<noteq> re_crc32 c (pre @ cs @ post)"
proof
  let ?s = "foldl crc_byte (NOT c) pre"
  assume "re_crc32 c (pre @ bs @ post) = re_crc32 c (pre @ cs @ post)"
  then have "foldl crc_byte ?s bs = foldl crc_byte ?s cs"
    by (simp add: re_crc32_fold) (metis bit.double_compl crc_fold_inj)
  then have "?s XOR word_of_bytes bs = ?s XOR word_of_bytes cs"
    using assms(1,2) by (auto simp: crc_word dest: crc_bits_inj)
  then have "(word_of_bytes bs :: u32) = word_of_bytes cs" by (simp only: xor_cancel)
  from word_of_bytes_inj [OF assms(1,2) this] assms(3) show False by simp
qed

theorem re_crc32_detects_burst_witness:
  "re_crc32 0 ([1, 2] @ [0, 7, 0, 9] @ [3]) \<noteq> re_crc32 0 ([1, 2] @ [0, 6, 0, 8] @ [3])"
  by (rule re_crc32_detects_burst) simp_all

end
