(* ===== verification/Stun_Msg.thy ===== *)
theory Stun_Msg
  imports Stun_Attr Crc32 Mbuf_View
begin

text \<open>
  STUN messages, \<open>re/src/stun/msg.c\<close>.

  \<open>hmac_sha1\<close> is a function of the cryptographic library: it is the parameter \<open>hm\<close>, from key and data to
  the 20 bytes of the code. The variable arguments of the encoder are the list of type and value, with
  \<open>None\<close> for a NULL value. A message refers to the buffer it was decoded from; the checks write into it.
\<close>

type_synonym hmac = "byte list \<Rightarrow> byte list \<Rightarrow> byte list"

definition MI_SIZE :: nat where "MI_SIZE = 24"
definition FP_SIZE :: nat where "FP_SIZE = 8"
definition SHA_LENGTH :: nat where "SHA_LENGTH = 20"

record stun_msg =
  s_hdr :: stun_hdr
  s_attrl :: "stun_attr list"
  s_mb :: mbuf
  s_start :: nat

definition fingerprint :: "byte list \<Rightarrow> u32" where
  "fingerprint buf = re_crc32 0 buf XOR 0x5354554e"

section \<open>Decoding\<close>

text \<open>\<open>while (mbuf_get_left(mb) - extra >= 4)\<close>, the difference in \<open>size_t\<close>.\<close>

partial_function (option) attrs_loop ::
  "alloc \<Rightarrow> byte list \<Rightarrow> nat \<Rightarrow> unknown_attr \<Rightarrow> stun_attr list \<Rightarrow> mbuf
    \<Rightarrow> ((errno + stun_attr list) \<times> unknown_attr \<times> mbuf) option" where
  "attrs_loop al tid extra ua attrl mb =
     (if (mbuf_get_left mb + size_mod - extra) mod size_mod \<ge> 4 then
        (case stun_attr_decode al tid ua mb of
           None \<Rightarrow> None
         | Some (r, ua', mb') \<Rightarrow>
             (case r of
                Inl e \<Rightarrow> Some (Inl e, ua', mb')
              | Inr attr \<Rightarrow> attrs_loop al tid extra ua' (attrl @ [attr]) mb'))
      else Some (Inr attrl, ua, mb))"

definition sizeof_msg :: nat where "sizeof_msg = 44"

definition stun_msg_decode ::
  "alloc \<Rightarrow> unknown_attr \<Rightarrow> mbuf \<Rightarrow> ((errno + stun_msg) \<times> unknown_attr \<times> mbuf) option" where
  "stun_msg_decode al ua mb =
     (let start = mb_pos mb in
      case stun_hdr_decode mb of
        (Inl e, mb) \<Rightarrow> Some (Inl e, ua, mb\<lparr>mb_pos := start\<rparr>)
      | (Inr hdr, mb) \<Rightarrow>
          (case mem_alloc al sizeof_msg mb of (ok, mb) \<Rightarrow>
             if \<not> ok then Some (Inl ENOMEM, ua, mb\<lparr>mb_pos := start\<rparr>)
             else
               (let extra = (mbuf_get_left mb + size_mod - unat (h_len hdr)) mod size_mod in
                case attrs_loop al (h_tid hdr) extra (map_option (\<lambda>_. []) ua) [] mb of
                  None \<Rightarrow> None
                | Some (Inl e, ua, mb) \<Rightarrow> Some (Inl e, ua, mb\<lparr>mb_pos := start\<rparr>)
                | Some (Inr attrl, ua, mb) \<Rightarrow>
                    Some (Inr \<lparr>s_hdr = hdr, s_attrl = attrl, s_mb = mb\<lparr>mb_pos := start\<rparr>, s_start = start\<rparr>,
                          ua, mb\<lparr>mb_pos := start\<rparr>))))"

definition stun_msg_type :: "stun_msg option \<Rightarrow> u16" where
  "stun_msg_type msg = (case msg of Some m \<Rightarrow> h_type (s_hdr m) | None \<Rightarrow> 0)"

definition stun_msg_class :: "stun_msg option \<Rightarrow> u16" where
  "stun_msg_class msg = STUN_CLASS (stun_msg_type msg)"

definition stun_msg_method :: "stun_msg option \<Rightarrow> u16" where
  "stun_msg_method msg = STUN_METHOD (stun_msg_type msg)"

definition stun_msg_tid :: "stun_msg option \<Rightarrow> byte list option" where
  "stun_msg_tid msg = map_option (\<lambda>m. h_tid (s_hdr m)) msg"

definition stun_msg_mcookie :: "stun_msg option \<Rightarrow> bool" where
  "stun_msg_mcookie msg = (case msg of Some m \<Rightarrow> STUN_MAGIC_COOKIE = h_cookie (s_hdr m) | None \<Rightarrow> False)"

fun find_attr :: "u16 \<Rightarrow> stun_attr list \<Rightarrow> stun_attr option" where
  "find_attr type [] = None"
| "find_attr type (a # as) = (if a_type a = type then Some a else find_attr type as)"

definition stun_msg_attr :: "stun_msg option \<Rightarrow> u16 \<Rightarrow> stun_attr option" where
  "stun_msg_attr msg type = (case msg of Some m \<Rightarrow> find_attr type (s_attrl m) | None \<Rightarrow> None)"

text \<open>The handler of \<open>stun_msg_attr_apply\<close> may keep a state of its own behind \<open>arg\<close>.\<close>

fun attr_apply :: "(stun_attr \<Rightarrow> 's \<Rightarrow> bool \<times> 's) option \<Rightarrow> stun_attr list \<Rightarrow> 's \<Rightarrow> stun_attr option \<times> 's" where
  "attr_apply h [] s = (None, s)"
| "attr_apply h (a # as) s =
     (case h of
        None \<Rightarrow> attr_apply h as s
      | Some f \<Rightarrow> (case f a s of (True, s') \<Rightarrow> (Some a, s') | (False, s') \<Rightarrow> attr_apply h as s'))"

definition stun_msg_attr_apply ::
  "stun_msg option \<Rightarrow> (stun_attr \<Rightarrow> 's \<Rightarrow> bool \<times> 's) option \<Rightarrow> 's \<Rightarrow> stun_attr option \<times> 's" where
  "stun_msg_attr_apply msg h s = (case msg of Some m \<Rightarrow> attr_apply h (s_attrl m) s | None \<Rightarrow> (None, s))"

section \<open>Encoding\<close>

text \<open>\<open>err |= f(mb)\<close> for a call that may not return.\<close>

definition also_opt ::
  "(errno option \<times> mbuf) option \<Rightarrow> (mbuf \<Rightarrow> (errno option \<times> mbuf) option) \<Rightarrow> (errno option \<times> mbuf) option" where
  "also_opt s f =
     (case s of
        None \<Rightarrow> None
      | Some (err, mb) \<Rightarrow> (case f mb of None \<Rightarrow> None | Some (e, mb') \<Rightarrow> Some (err_or err e, mb')))"

fun encode_attrs ::
  "alloc \<Rightarrow> byte list \<Rightarrow> u8 \<Rightarrow> (u16 \<times> stun_val option) list \<Rightarrow> (errno option \<times> mbuf) option \<Rightarrow> (errno option \<times> mbuf) option" where
  "encode_attrs al tid padding [] s = s"
| "encode_attrs al tid padding ((type, v) # avs) s =
     encode_attrs al tid padding avs
       (case v of None \<Rightarrow> s | Some val \<Rightarrow> also_opt s (stun_attr_encode al type val (Some tid) padding))"

text \<open>The bytes from cursor to end, \<open>mbuf_buf(mb)\<close> and \<open>mbuf_get_left(mb)\<close>.\<close>

definition load_left :: "mbuf \<Rightarrow> byte list \<times> mbuf" where
  "load_left mb = mem_load mb (mb_pos mb) (mbuf_get_left mb)"

abbreviation msg_hdr :: "u16 \<Rightarrow> u16 \<Rightarrow> byte list \<Rightarrow> stun_hdr" where
  "msg_hdr type len tid \<equiv> \<lparr>h_type = type, h_len = len, h_cookie = STUN_MAGIC_COOKIE, h_tid = tid\<rparr>"

definition add_mi :: "alloc \<Rightarrow> hmac \<Rightarrow> byte list \<Rightarrow> u8 \<Rightarrow> nat \<Rightarrow> u16 \<Rightarrow> mbuf \<Rightarrow> (errno option \<times> mbuf) option" where
  "add_mi al hm key padding start len mb =
     (case load_left (mb\<lparr>mb_pos := start\<rparr>) of (bs, mb) \<Rightarrow>
        stun_attr_encode al STUN_ATTR_MSG_INTEGRITY (V_msg_integrity (hm key bs)) None padding
          (mb\<lparr>mb_pos := size_wrap (int start + int STUN_HEADER_SIZE + int (unat len) - int MI_SIZE)\<rparr>))"

definition add_fp ::
  "alloc \<Rightarrow> u16 \<Rightarrow> byte list \<Rightarrow> u8 \<Rightarrow> nat \<Rightarrow> errno option \<times> mbuf \<Rightarrow> (errno option \<times> mbuf) option" where
  "add_fp al type tid padding start s =
     (case s of (err, mb) \<Rightarrow>
        let len = of_nat (size_wrap (int (mb_pos mb) - int start - int STUN_HEADER_SIZE + int FP_SIZE))
        in (case also_err (err, mb\<lparr>mb_pos := start\<rparr>) (stun_hdr_encode al (msg_hdr type len tid)) of (err, mb) \<Rightarrow>
            (case load_left (mb\<lparr>mb_pos := start\<rparr>) of (bs, mb) \<Rightarrow>
               also_opt (Some (err, mb\<lparr>mb_pos := size_wrap (int start + int STUN_HEADER_SIZE + int (unat len) - int FP_SIZE)\<rparr>))
                 (stun_attr_encode al STUN_ATTR_FINGERPRINT (V_uint32 (fingerprint bs)) None padding))))"

definition stun_msg_vencode ::
  "alloc \<Rightarrow> hmac \<Rightarrow> u16 \<Rightarrow> u16 \<Rightarrow> byte list \<Rightarrow> (u16 \<times> byte list option) option \<Rightarrow> byte list option \<Rightarrow> bool \<Rightarrow> u8
    \<Rightarrow> (u16 \<times> stun_val option) list \<Rightarrow> mbuf \<Rightarrow> (errno option \<times> mbuf) option" where
  "stun_msg_vencode al hm met cls tid ec key fp padding avs mb =
     (let start = mb_pos mb;
          type = STUN_TYPE met cls;
          mi = (if key \<noteq> None then MI_SIZE else 0);
          mb = mb\<lparr>mb_pos := size_add start STUN_HEADER_SIZE\<rparr>;
          s = (case ec of
                 None \<Rightarrow> Some (None, mb)
               | Some (code, reason) \<Rightarrow> stun_attr_encode al STUN_ATTR_ERR_CODE (V_err_code code reason) None padding mb)
      in (case encode_attrs al tid padding avs s of
            None \<Rightarrow> None
          | Some (err, mb) \<Rightarrow>
              (let len = of_nat (size_wrap (int (mb_pos mb) - int start - int STUN_HEADER_SIZE + int mi)) in
               case also_err (err, mb\<lparr>mb_pos := start\<rparr>) (stun_hdr_encode al (msg_hdr type len tid)) of (err, mb) \<Rightarrow>
                 (let s = Some (err, mbuf_advance mb (int (unat len) - int mi));
                      s = (case key of
                             None \<Rightarrow> s
                           | Some k \<Rightarrow> also_opt s (add_mi al hm k padding start len))
                  in if fp then (case s of None \<Rightarrow> None | Some r \<Rightarrow> add_fp al type tid padding start r)
                     else s))))"

text \<open>\<open>stun_msg_encode\<close> collects its arguments and calls the function above.\<close>

definition stun_msg_encode where
  "stun_msg_encode = stun_msg_vencode"

section \<open>Checks\<close>

definition put_hdr :: "alloc \<Rightarrow> stun_msg \<Rightarrow> stun_msg" where
  "put_hdr al m =
     (case stun_hdr_encode al (s_hdr m) (s_mb m) of (_, mb) \<Rightarrow>
        m\<lparr>s_mb := mb\<lparr>mb_pos := (mb_pos mb + size_mod - STUN_HEADER_SIZE) mod size_mod\<rparr>\<rparr>)"

definition add_len :: "u16 \<Rightarrow> stun_msg \<Rightarrow> stun_msg" where
  "add_len d m = m\<lparr>s_hdr := (s_hdr m)\<lparr>h_len := h_len (s_hdr m) + d\<rparr>\<rparr>"

definition load_msg :: "nat \<Rightarrow> stun_msg \<Rightarrow> byte list \<times> stun_msg" where
  "load_msg k m =
     (case mem_load (s_mb m) (mb_pos (s_mb m)) (size_wrap (int STUN_HEADER_SIZE + int (unat (h_len (s_hdr m))) - int k)) of
        (bs, mb) \<Rightarrow> (bs, m\<lparr>s_mb := mb\<rparr>))"

definition stun_msg_chk_mi :: "alloc \<Rightarrow> hmac \<Rightarrow> stun_msg \<Rightarrow> byte list \<Rightarrow> errno option \<times> stun_msg" where
  "stun_msg_chk_mi al hm m key =
     (case find_attr STUN_ATTR_MSG_INTEGRITY (s_attrl m) of
        None \<Rightarrow> (Some EPROTO, m)
      | Some mi \<Rightarrow>
          (let m = m\<lparr>s_mb := (s_mb m)\<lparr>mb_pos := s_start m\<rparr>\<rparr>;
               fp = find_attr STUN_ATTR_FINGERPRINT (s_attrl m) \<noteq> None;
               m = (if fp then put_hdr al (add_len (- 8) m) else m)
           in (case load_msg MI_SIZE m of (bs, m) \<Rightarrow>
                 (let h = hm key bs;
                      m = (if fp then put_hdr al (add_len 8 m) else m)
                  in (case a_v mi of
                        V_msg_integrity x \<Rightarrow> if x \<noteq> take SHA_LENGTH h then (Some EBADMSG, m) else (None, m)
                      | _ \<Rightarrow> (None, m\<lparr>s_mb := (s_mb m)\<lparr>mb_ub := True\<rparr>\<rparr>))))))"

definition stun_msg_chk_fingerprint :: "stun_msg \<Rightarrow> errno option \<times> stun_msg" where
  "stun_msg_chk_fingerprint m =
     (case find_attr STUN_ATTR_FINGERPRINT (s_attrl m) of
        None \<Rightarrow> (Some EPROTO, m)
      | Some fp \<Rightarrow>
          (case load_msg FP_SIZE (m\<lparr>s_mb := (s_mb m)\<lparr>mb_pos := s_start m\<rparr>\<rparr>) of (bs, m) \<Rightarrow>
             (case a_v fp of
                V_uint32 x \<Rightarrow> if fingerprint bs \<noteq> x then (Some EBADMSG, m) else (None, m)
              | _ \<Rightarrow> (None, m\<lparr>s_mb := (s_mb m)\<lparr>mb_ub := True\<rparr>\<rparr>))))"

section \<open>The bytes of a message\<close>

definition hdr_of :: "stun_hdr \<Rightarrow> byte list" where
  "hdr_of h = be16 (h_type h AND 0x3fff) @ be16 (h_len h) @ be32 (h_cookie h) @ h_tid h"

definition hdr_bytes :: "u16 \<Rightarrow> nat \<Rightarrow> byte list \<Rightarrow> byte list" where
  "hdr_bytes type len tid = hdr_of (msg_hdr type (of_nat len) tid)"

definition given :: "(u16 \<times> stun_val option) list \<Rightarrow> (u16 \<times> stun_val) list" where
  "given avs = concat (map (\<lambda>(t, v). case v of None \<Rightarrow> [] | Some w \<Rightarrow> [(t, w)]) avs)"

definition msg_attrs :: "(u16 \<times> byte list option) option \<Rightarrow> (u16 \<times> stun_val option) list \<Rightarrow> (u16 \<times> stun_val) list" where
  "msg_attrs ec avs =
     (case ec of None \<Rightarrow> [] | Some (code, reason) \<Rightarrow> [(STUN_ATTR_ERR_CODE, V_err_code code reason)]) @ given avs"

definition body_bytes :: "byte list \<Rightarrow> u8 \<Rightarrow> (u16 \<times> stun_val) list \<Rightarrow> byte list" where
  "body_bytes tid c as = concat (map (attr_bytes tid c) as)"

definition mi_of :: "hmac \<Rightarrow> byte list \<Rightarrow> byte list \<Rightarrow> u16 \<times> stun_val" where
  "mi_of hm k bs = (STUN_ATTR_MSG_INTEGRITY, V_msg_integrity (hm k bs))"

definition fp_of :: "byte list \<Rightarrow> u16 \<times> stun_val" where
  "fp_of bs = (STUN_ATTR_FINGERPRINT, V_uint32 (fingerprint bs))"

lemma length_hdr_bytes: "length tid = 12 \<Longrightarrow> length (hdr_bytes type len tid) = 20"
  by (simp add: hdr_bytes_def hdr_of_def)

lemma length_hdr_of: "length (h_tid h) = 12 \<Longrightarrow> length (hdr_of h) = 20"
  by (simp add: hdr_of_def)

lemma length_mi_attr: "length (hm k bs) = 20 \<Longrightarrow> length (attr_bytes tid c (mi_of hm k bs)) = 24"
  by (simp add: attr_bytes_def mi_of_def Let_def pad_len_def)

lemma length_fp_attr: "length (attr_bytes tid c (fp_of bs)) = 8"
  by (simp add: attr_bytes_def fp_of_def Let_def pad_len_def)

section \<open>Stages of the encoder\<close>

definition built :: "alloc \<Rightarrow> mbuf \<Rightarrow> nat \<Rightarrow> byte list \<Rightarrow> (errno option \<times> mbuf) option \<Rightarrow> bool" where
  "built al mb p bs s \<longleftrightarrow> (alloc_total al \<longrightarrow> (\<exists>m. s = Some (None, m))) \<and> (\<forall>m. s = Some (None, m) \<longrightarrow> wrote mb p bs m)"

lemma builtD: "built al mb p bs (Some (e, m)) \<Longrightarrow> e = None \<Longrightarrow> wrote mb p bs m"
  and built_total: "built al mb p bs (Some (e, m)) \<Longrightarrow> alloc_total al \<Longrightarrow> e = None"
  by (auto simp: built_def)

lemma emits_hdr:
  "emit al (stun_hdr_encode al (msg_hdr type (of_nat len) tid)) (hdr_bytes type len tid)"
proof -
  let ?h = "msg_hdr type (of_nat len) tid"
  have "emit al (\<lambda>mb. also_err (also_err (also_err (mbuf_write_u16 al mb (htons (h_type ?h AND 0x3fff)))
       (\<lambda>mb. mbuf_write_u16 al mb (htons (h_len ?h)))) (\<lambda>mb. mbuf_write_u32 al mb (htonl (h_cookie ?h))))
       (\<lambda>mb. mbuf_write_mem al mb (Some (h_tid ?h))))
     (((be16 (h_type ?h AND 0x3fff) @ be16 (h_len ?h)) @ be32 (h_cookie ?h)) @ h_tid ?h)"
    by (intro emits_also emits_prims)
  then show ?thesis by (rule emits_cong) (simp_all add: stun_hdr_encode_def hdr_bytes_def hdr_of_def)
qed

lemma emits_then:
  assumes f: "emits al f bs" and g: "emits al g cs"
  shows "emits al (\<lambda>mb. also_opt (f mb) g) (bs @ cs)"
  unfolding emits_def
proof (intro allI impI conjI)
  fix mb :: mbuf
  assume ok: "region_ok mb" and fit: "mb_pos mb + length (bs @ cs) < size_mod"
  note wf = emitsD [OF f ok] and wg = emitsD [OF g]
  have next_ok: "region_ok m" "mb_pos m + length cs < size_mod" "mb_pos m = mb_pos mb + length bs" "wrote mb (mb_pos mb) bs m"
    if "f mb = Some (None, m)" for m
    using wf(1) [OF _ that] fit by (auto simp: wroteD)
  show "\<exists>mb'. also_opt (f mb) g = Some (None, mb')" if "alloc_total al"
    using wf(2) [OF _ that] fit next_ok wg(2) [OF _ _ that] by (fastforce simp: also_opt_def)
  fix mb'
  assume "also_opt (f mb) g = Some (None, mb')"
  then obtain m where "f mb = Some (None, m)" "g m = Some (None, mb')"
    by (auto simp: also_opt_def split: option.splits prod.splits)
  then show "wrote mb (mb_pos mb) (bs @ cs) mb'"
    using next_ok [of m] wg(1) [of m mb'] by (intro wrote_append [of _ _ _ m]) simp_all
qed

lemma emits_attrs:
  assumes "emits al f bs" and "\<forall>a \<in> set (given avs). attr_ok a" and "length tid = 12"
  shows "emits al (\<lambda>mb. encode_attrs al tid c avs (f mb)) (bs @ body_bytes tid c (given avs))"
  using assms
proof (induction avs arbitrary: f bs)
  case (Cons a avs)
  obtain t v where a: "a = (t, v)" by fastforce
  show ?case
  proof (cases v)
    case None
    then show ?thesis using Cons a by (simp add: given_def)
  next
    case (Some w)
    have "emits al (\<lambda>mb. also_opt (f mb) (stun_attr_encode al t w (Some tid) c)) (bs @ attr_bytes tid c (t, w))"
      using Cons.prems a Some by (intro emits_then emits_attr) (simp_all add: given_def)
    from Cons.IH [OF this] show ?thesis using Cons.prems a Some by (simp add: given_def body_bytes_def)
  qed
qed (simp add: given_def body_bytes_def)

lemma wrote_over:
  assumes "wrote mb p (hs @ bs) m" and "wrote m p hs' m'" and "length hs' = length hs" and "hs \<noteq> []"
  shows "wrote mb p (hs' @ bs) (m'\<lparr>mb_pos := p + length hs + length bs\<rparr>)"
proof -
  have h: "holds m (p + length hs) bs" using wroteD(4) [OF assms(1)] by (simp add: holds_append)
  then have "holds m' (p + length hs) bs" using wroteD(5) [OF assms(2) h] assms(3) by (simp add: apart_def)
  moreover have "holds m' q xs" if "holds mb q xs" "apart p (length (hs' @ bs)) q (length xs)" for q xs
    using that wroteD(5) [OF assms(1) that(1)] wroteD(5) [OF assms(2), of q xs] assms(3) by (auto simp: apart_def)
  moreover have "mb_end m' = max (mb_end mb) (p + length (hs' @ bs))"
    using wroteD(3) [OF assms(1)] wroteD(3) [OF assms(2)] assms(3,4) by (cases hs') auto
  ultimately show ?thesis using wroteD(1,4) [OF assms(2)] assms(3) by (auto simp: wrote_def holds_append)
qed

lemma load_left_wrote:
  assumes "wrote mb p bs m" and "bs \<noteq> []" and "mb_end mb \<le> p"
  shows "load_left (m\<lparr>mb_pos := p\<rparr>) = (bs, m\<lparr>mb_pos := p\<rparr>)"
proof -
  have e: "mb_end m = p + length bs" using wroteD(3) [OF assms(1,2)] assms(3) by simp
  note v = holds_view [OF wroteD(1,4) [OF assms(1)] e]
  show ?thesis using mbuf_whole_load [OF v(1)] v(2) by (simp add: load_left_def)
qed

lemma size_wrap_nat: "n < size_mod \<Longrightarrow> size_wrap (int n) = n"
  by (simp add: size_wrap_def nat_mod_as_int)

lemma unat_len16: "n < 65536 \<Longrightarrow> unat (of_nat n :: u16) = n"
  by (simp add: unsigned_of_nat take_bit_nat_eq_self)

lemma also_err_None:
  "also_err (e, m) f = (None, m') \<Longrightarrow> e = None \<and> f m = (None, m')"
  by (auto simp: also_err_def split: prod.splits)

lemma also_opt_None:
  "also_opt (Some (e, m)) f = Some (None, m') \<Longrightarrow> e = None \<and> f m = Some (None, m')"
  by (auto simp: also_opt_def split: option.splits prod.splits)

lemma hdr_stage:
  assumes b: "built al mb (p + 20) bs (Some (e, m))" and tid: "length tid = 12" and small: "length bs + mi < 65536"
    and fit: "p + 20 + length bs + mi < size_mod"
    and len: "len = of_nat (size_wrap (int (mb_pos m) - int p - int STUN_HEADER_SIZE + int mi))"
    and res: "also_err (e, m\<lparr>mb_pos := p\<rparr>) (stun_hdr_encode al (msg_hdr type len tid)) = (e', m')"
  shows "built al mb p (hdr_bytes type (length bs + mi) tid @ bs) (Some (e', mbuf_advance m' (int (unat len) - int mi)))"
    and "e = None \<Longrightarrow> len = of_nat (length bs + mi)"
proof -
  let ?h = "hdr_bytes type (length bs + mi) tid"
  note h20 = length_hdr_bytes [OF tid, of type "length bs + mi"]
  have pos: "mb_pos m = p + 20 + length bs" "region_ok m" if "e = None" using wroteD(1,2) [OF builtD [OF b that]] by simp_all
  show len': "len = of_nat (length bs + mi)" if "e = None"
  proof -
    have "int (mb_pos m) - int p - int STUN_HEADER_SIZE + int mi = int (length bs + mi)"
      using pos [OF that] by (simp add: STUN_HEADER_SIZE_def)
    then show ?thesis using size_wrap_nat [of "length bs + mi"] fit by (simp add: len)
  qed
  note em = emitsD [OF emits_hdr, of "m\<lparr>mb_pos := p\<rparr>" type "length bs + mi" tid al]
  have w: "wrote m p ?h m'" "e = None" if "e' = None"
    using also_err_None [of e "m\<lparr>mb_pos := p\<rparr>" "stun_hdr_encode al (msg_hdr type len tid)" m'] res that em(1) [of m'] pos len' fit h20
    by auto
  have adv: "mbuf_advance m' (int (unat len) - int mi) = m'\<lparr>mb_pos := p + 20 + length bs\<rparr>" if "e' = None"
  proof -
    have "int (mb_pos m') + (int (unat len) - int mi) = int (p + 20 + length bs)"
      using wroteD(2) [OF w(1) [OF that]] len' [OF w(2) [OF that]] h20 unat_len16 [OF small] by simp
    moreover have "int (p + 20 + length bs) mod int size_mod = int (p + 20 + length bs)" using fit by (simp flip: of_nat_mod)
    ultimately show ?thesis by (simp add: mbuf_advance_def del: of_nat_add)
  qed
  show "built al mb p (?h @ bs) (Some (e', mbuf_advance m' (int (unat len) - int mi)))"
    unfolding built_def
  proof (intro conjI impI allI)
    assume al: "alloc_total al"
    have "e = None" using built_total [OF b al] .
    then have "e' = None" using em(2) [OF _ _ al] res pos len' fit h20 by (auto simp: also_err_def)
    then show "\<exists>m. Some (e', mbuf_advance m' (int (unat len) - int mi)) = Some (None, m)" by simp
  next
    fix m2
    assume "Some (e', mbuf_advance m' (int (unat len) - int mi)) = Some (None, m2)"
    then have e: "e' = None" and m2: "m2 = m'\<lparr>mb_pos := p + 20 + length bs\<rparr>" using adv by auto
    have "?h \<noteq> []" using h20 by auto
    from wrote_gap [OF _ w(1) [OF e] this, of mb bs] builtD [OF b w(2) [OF e]] h20
    show "wrote mb p (?h @ bs) m2" unfolding m2 by simp
  qed
qed

text \<open>An attribute put behind what is there.\<close>

lemma attr_stage:
  assumes b: "built al mb p bs (Some (e, m))" and ok: "attr_ok (type, v)" and kind: "attr_kind_of type \<noteq> K_xor_addr"
    and tid: "length tid = 12" and fit: "p + length (bs @ attr_bytes tid c (type, v)) < size_mod"
    and f: "e = None \<Longrightarrow> f m = stun_attr_encode al type v None c (m\<lparr>mb_pos := p + length bs\<rparr>)"
  shows "built al mb p (bs @ attr_bytes tid c (type, v)) (also_opt (Some (e, m)) f)"
proof -
  note em = emitsD [OF emits_attr [OF ok tid, of None al c], of "m\<lparr>mb_pos := p + length bs\<rparr>"]
  have m: "region_ok m" if "e = None" using wroteD(1) [OF builtD [OF b that]] .
  show ?thesis
    unfolding built_def
  proof (intro conjI impI allI)
    assume al: "alloc_total al"
    have "e = None" using built_total [OF b al] .
    then show "\<exists>m'. also_opt (Some (e, m)) f = Some (None, m')"
      using em(2) [OF _ _ _ al] m f kind fit by (auto simp: also_opt_def)
  next
    fix m'
    assume "also_opt (Some (e, m)) f = Some (None, m')"
    from also_opt_None [OF this] have e: "e = None" and "f m = Some (None, m')" by simp_all
    then have "wrote m (p + length bs) (attr_bytes tid c (type, v)) m'"
      using em(1) [of m'] m f kind fit by simp
    then show "wrote mb p (bs @ attr_bytes tid c (type, v)) m'" by (rule wrote_append [OF builtD [OF b e]])
  qed
qed

lemma attr_ok_special: "length (hm k bs) = 20 \<Longrightarrow> attr_ok (mi_of hm k bs)" "attr_ok (fp_of bs)"
  by (simp_all add: attr_ok_def mi_of_def fp_of_def kind_of_special)

lemma mi_stage:
  assumes b: "built al mb p (h @ bs) (Some (e, m))" and h: "length h = 20" and tid: "length tid = 12" and e: "mb_end mb \<le> p"
    and hm: "length (hm k (h @ bs)) = 20" and len: "e = None \<Longrightarrow> len = of_nat (length bs + 24)"
    and small: "length bs + 24 < 65536" and fit: "p + 20 + length bs + 24 < size_mod"
  shows "built al mb p ((h @ bs) @ attr_bytes tid c (mi_of hm k (h @ bs))) (also_opt (Some (e, m)) (add_mi al hm k c p len))"
  unfolding mi_of_def
proof (rule attr_stage [OF b _ _ tid])
  show "attr_ok (STUN_ATTR_MSG_INTEGRITY, V_msg_integrity (hm k (h @ bs)))"
    using attr_ok_special(1) [of hm k "h @ bs"] hm by (simp add: mi_of_def)
  show "p + length ((h @ bs) @ attr_bytes tid c (STUN_ATTR_MSG_INTEGRITY, V_msg_integrity (hm k (h @ bs)))) < size_mod"
    using length_mi_attr [of hm k "h @ bs" tid c] hm h fit by (simp add: mi_of_def)
  assume "e = None"
  then have w: "wrote mb p (h @ bs) m" and l: "unat len = length bs + 24"
    using builtD [OF b] len unat_len16 [OF small] by simp_all
  have "int p + int STUN_HEADER_SIZE + int (unat len) - int MI_SIZE = int (p + length (h @ bs))"
    using l h by (simp add: STUN_HEADER_SIZE_def MI_SIZE_def)
  then have "size_wrap (int p + int STUN_HEADER_SIZE + int (unat len) - int MI_SIZE) = p + length (h @ bs)"
    using size_wrap_nat [of "p + length (h @ bs)"] h fit by (simp only: length_append)
  moreover have "load_left (m\<lparr>mb_pos := p\<rparr>) = (h @ bs, m\<lparr>mb_pos := p\<rparr>)"
    by (rule load_left_wrote [OF w _ e]) (use h in auto)
  ultimately show "add_mi al hm k c p len m =
      stun_attr_encode al STUN_ATTR_MSG_INTEGRITY (V_msg_integrity (hm k (h @ bs))) None c (m\<lparr>mb_pos := p + length (h @ bs)\<rparr>)"
    by (simp add: add_mi_def)
qed (simp add: kind_of_special)

text \<open>The header written again, with the length that counts the fingerprint.\<close>

lemma hdr_again:
  fixes type :: u16
  assumes b: "built al mb p (h @ bs) (Some (e, m))" and h: "length h = 20" and tid: "length tid = 12"
    and small: "length bs + 8 < 65536" and fit: "p + 20 + length bs + 8 < size_mod"
    and h'_def: "h' = hdr_bytes type (length bs + 8) tid"
    and len: "len = of_nat (size_wrap (int (mb_pos m) - int p - int STUN_HEADER_SIZE + int FP_SIZE))"
    and r: "also_err (e, m\<lparr>mb_pos := p\<rparr>) (stun_hdr_encode al (msg_hdr type len tid)) = (e1, m1)"
  shows "built al mb p (h' @ bs) (Some (e1, m1\<lparr>mb_pos := p + 20 + length bs\<rparr>))" and "e1 = None \<Longrightarrow> unat len = length bs + 8"
proof -
  have h': "length h' = 20" unfolding h'_def using tid by (rule length_hdr_bytes)
  have l: "len = of_nat (length bs + 8)" if "e = None"
  proof -
    have "int (mb_pos m) - int p - int STUN_HEADER_SIZE + int FP_SIZE = int (length bs + 8)"
      using wroteD(2) [OF builtD [OF b that]] h by (simp add: STUN_HEADER_SIZE_def FP_SIZE_def)
    then show ?thesis using size_wrap_nat [of "length bs + 8"] fit by (simp add: len)
  qed
  note em = emitsD [OF emits_hdr, of "m\<lparr>mb_pos := p\<rparr>" type "length bs + 8" tid al, folded h'_def]
  have m: "region_ok m" if "e = None" using wroteD(1) [OF builtD [OF b that]] .
  have w: "wrote m p h' m1" "e = None" if "e1 = None"
    using also_err_None [of e "m\<lparr>mb_pos := p\<rparr>" "stun_hdr_encode al (msg_hdr type len tid)" m1] r that em(1) [of m1] l m fit h'
    by auto
  show "unat len = length bs + 8" if "e1 = None" using l w(2) that unat_len16 [OF small] by simp
  have over: "wrote mb p (h' @ bs) (m1\<lparr>mb_pos := p + 20 + length bs\<rparr>)" if "e1 = None"
    using wrote_over [OF builtD [OF b w(2) [OF that]] w(1) [OF that]] h h' by fastforce
  show "built al mb p (h' @ bs) (Some (e1, m1\<lparr>mb_pos := p + 20 + length bs\<rparr>))"
    unfolding built_def
  proof (intro conjI impI allI)
    assume al: "alloc_total al"
    have "e = None" using built_total [OF b al] .
    then have "e1 = None" using em(2) [OF _ _ al] r l m fit h' by (auto simp: also_err_def)
    then show "\<exists>m. Some (e1, m1\<lparr>mb_pos := p + 20 + length bs\<rparr>) = Some (None, m)" by simp
  qed (use over in auto)
qed

lemma fp_stage:
  fixes type :: u16
  assumes b: "built al mb p (h @ bs) (Some (e, m))" and h: "length h = 20" and tid: "length tid = 12" and e: "mb_end mb \<le> p"
    and small: "length bs + 8 < 65536" and fit: "p + 20 + length bs + 8 < size_mod"
    and h'_def: "h' = hdr_bytes type (length bs + 8) tid"
  shows "built al mb p ((h' @ bs) @ attr_bytes tid c (fp_of (h' @ bs))) (add_fp al type tid c p (e, m))"
proof -
  define len :: u16 where "len = of_nat (size_wrap (int (mb_pos m) - int p - int STUN_HEADER_SIZE + int FP_SIZE))"
  define q where "q = p + 20 + length bs"
  have h': "length h' = 20" unfolding h'_def using tid by (rule length_hdr_bytes)
  obtain e1 m1 where r: "also_err (e, m\<lparr>mb_pos := p\<rparr>) (stun_hdr_encode al (msg_hdr type len tid)) = (e1, m1)" by fastforce
  note again = hdr_again [OF b h tid small fit h'_def len_def r, folded q_def]
  obtain bs' m2 where ld: "load_left (m1\<lparr>mb_pos := p\<rparr>) = (bs', m2)" by fastforce
  have ne: "h' @ bs \<noteq> []" using h' by auto
  have ld': "bs' = h' @ bs" "m2 = m1\<lparr>mb_pos := p\<rparr>" if "e1 = None"
    using load_left_wrote [OF builtD [OF again(1) that] ne e] ld by auto
  have q': "size_wrap (int p + int STUN_HEADER_SIZE + int (unat len) - int FP_SIZE) = q" if "e1 = None"
  proof -
    have "int p + int STUN_HEADER_SIZE + int (unat len) - int FP_SIZE = int q"
      using again(2) [OF that] by (simp add: STUN_HEADER_SIZE_def FP_SIZE_def q_def)
    then show ?thesis by (simp only:) (use fit in \<open>simp add: q_def size_wrap_nat del: of_nat_add\<close>)
  qed
  define f where "f m = stun_attr_encode al STUN_ATTR_FINGERPRINT (V_uint32 (fingerprint bs')) None c
    (m2\<lparr>mb_pos := size_wrap (int p + int STUN_HEADER_SIZE + int (unat len) - int FP_SIZE)\<rparr>)" for m :: mbuf
  have "built al mb p ((h' @ bs) @ attr_bytes tid c (fp_of (h' @ bs))) (also_opt (Some (e1, m1\<lparr>mb_pos := q\<rparr>)) f)"
    unfolding fp_of_def
  proof (rule attr_stage [OF again(1) _ _ tid])
    show "attr_ok (STUN_ATTR_FINGERPRINT, V_uint32 (fingerprint (h' @ bs)))"
      using attr_ok_special(2) by (simp add: fp_of_def)
    show "p + length ((h' @ bs) @ attr_bytes tid c (STUN_ATTR_FINGERPRINT, V_uint32 (fingerprint (h' @ bs)))) < size_mod"
      using length_fp_attr [of tid c "h' @ bs"] h' fit by (simp add: fp_of_def)
    assume "e1 = None"
    then show "f (m1\<lparr>mb_pos := q\<rparr>) = stun_attr_encode al STUN_ATTR_FINGERPRINT (V_uint32 (fingerprint (h' @ bs))) None c
        (m1\<lparr>mb_pos := q, mb_pos := p + length (h' @ bs)\<rparr>)"
      using ld' q' h' by (simp add: f_def q_def add.assoc)
  qed (simp add: kind_of_special)
  moreover have "also_opt (Some (e1, m1\<lparr>mb_pos := q\<rparr>)) f = add_fp al type tid c p (e, m)"
    using r ld by (simp add: add_fp_def also_opt_def f_def len_def Let_def)
  ultimately show ?thesis by simp
qed

definition full_attrs ::
  "hmac \<Rightarrow> u16 \<Rightarrow> byte list \<Rightarrow> byte list option \<Rightarrow> bool \<Rightarrow> u8 \<Rightarrow> (u16 \<times> stun_val) list \<Rightarrow> (u16 \<times> stun_val) list" where
  "full_attrs hm type tid key fp c as =
     (let as2 = as @ (case key of None \<Rightarrow> []
                      | Some k \<Rightarrow> [mi_of hm k (hdr_bytes type (length (body_bytes tid c as) + 24) tid @ body_bytes tid c as)])
      in as2 @ (if fp then [fp_of (hdr_bytes type (length (body_bytes tid c as2) + 8) tid @ body_bytes tid c as2)] else []))"

definition msg_bytes :: "u16 \<Rightarrow> byte list \<Rightarrow> u8 \<Rightarrow> (u16 \<times> stun_val) list \<Rightarrow> byte list" where
  "msg_bytes type tid c as = hdr_bytes type (length (body_bytes tid c as)) tid @ body_bytes tid c as"

lemma body_bytes_append [simp]: "body_bytes tid c (as @ bs) = body_bytes tid c as @ body_bytes tid c bs"
  by (simp add: body_bytes_def)

lemma body_bytes_Cons: "body_bytes tid c (a # as) = attr_bytes tid c a @ body_bytes tid c as"
  by (simp add: body_bytes_def)

lemma body_bytes_one [simp]: "body_bytes tid c [a] = attr_bytes tid c a" "body_bytes tid c [] = []"
  by (simp_all add: body_bytes_def)

lemma emits_msg_attrs:
  assumes ok: "\<forall>a \<in> set (msg_attrs ec avs). attr_ok a" and tid: "length tid = 12"
  shows "emits al (\<lambda>mb. encode_attrs al tid c avs
     (case ec of None \<Rightarrow> Some (None, mb)
      | Some (code, reason) \<Rightarrow> stun_attr_encode al STUN_ATTR_ERR_CODE (V_err_code code reason) None c mb))
    (body_bytes tid c (msg_attrs ec avs))"
proof (cases ec)
  case None
  then show ?thesis using emits_attrs [OF emits_skip, of avs tid al c] ok tid by (simp add: msg_attrs_def)
next
  case (Some cr)
  obtain code reason where cr: "cr = (code, reason)" by fastforce
  have "emits al (stun_attr_encode al STUN_ATTR_ERR_CODE (V_err_code code reason) None c)
      (attr_bytes tid c (STUN_ATTR_ERR_CODE, V_err_code code reason))"
    using ok tid Some cr by (intro emits_attr) (simp_all add: msg_attrs_def kind_of_special)
  from emits_attrs [OF this _ tid, of avs c] show ?thesis using ok Some cr by (simp add: msg_attrs_def body_bytes_Cons)
qed

lemma vencode_built:
  fixes met cls :: u16
  assumes mb: "region_ok mb" "mb_end mb \<le> mb_pos mb" and tid: "length tid = 12"
    and ok: "\<forall>a \<in> set (msg_attrs ec avs). attr_ok a" and hm: "\<And>k d. length (hm k d) = 20"
    and as: "as = full_attrs hm (STUN_TYPE met cls) tid key fp c (msg_attrs ec avs)"
    and small: "length (body_bytes tid c as) < 65536" and fit: "mb_pos mb + 20 + length (body_bytes tid c as) < size_mod"
  shows "built al mb (mb_pos mb) (msg_bytes (STUN_TYPE met cls) tid c as)
    (stun_msg_vencode al hm met cls tid ec key fp c avs mb)"
proof -
  let ?T = "STUN_TYPE met cls" and ?p = "mb_pos mb"
  define B where "B = body_bytes tid c (msg_attrs ec avs)"
  define mi where "mi = (if key \<noteq> None then MI_SIZE else 0)"
  define h where "h = hdr_bytes ?T (length B + mi) tid"
  define B2 where "B2 = B @ (case key of None \<Rightarrow> [] | Some k \<Rightarrow> attr_bytes tid c (mi_of hm k (h @ B)))"
  have h20: "length h = 20" unfolding h_def using tid by (rule length_hdr_bytes)
  have B2: "length B2 = length B + mi" using length_mi_attr [of hm _ "h @ B" tid c] hm by (auto simp: B2_def mi_def MI_SIZE_def split: option.split)
  define h' where "h' = hdr_bytes ?T (length B2 + 8) tid"
  have full: "body_bytes tid c as = (if fp then B2 @ attr_bytes tid c (fp_of (h' @ B2)) else B2)"
    by (cases key) (simp_all add: body_bytes_Cons as full_attrs_def B2_def B_def h_def h'_def mi_def MI_SIZE_def Let_def)
  then have lens: "length B2 + (if fp then 8 else 0) < 65536" "?p + 20 + length B2 + (if fp then 8 else 0) < size_mod"
    using small fit length_fp_attr [of tid c "h' @ B2"] by (auto split: if_splits)
  define s0 where "s0 = encode_attrs al tid c avs
     (case ec of None \<Rightarrow> Some (None, mb\<lparr>mb_pos := size_add ?p STUN_HEADER_SIZE\<rparr>)
      | Some (code, reason) \<Rightarrow> stun_attr_encode al STUN_ATTR_ERR_CODE (V_err_code code reason) None c (mb\<lparr>mb_pos := size_add ?p STUN_HEADER_SIZE\<rparr>))"
  have p20: "size_add ?p STUN_HEADER_SIZE = ?p + 20" using lens by (simp add: STUN_HEADER_SIZE_def)
  have s0: "built al mb (?p + 20) B s0"
    using emitsD [OF emits_msg_attrs [OF ok tid], of "mb\<lparr>mb_pos := ?p + 20\<rparr>" c al] mb lens B2
    unfolding s0_def p20 by (auto simp: built_def B_def split: if_splits)
  show ?thesis
  proof (cases s0)
    case None
    then show ?thesis using s0 by (auto simp: built_def stun_msg_vencode_def Let_def simp flip: s0_def)
  next
    case (Some em)
    obtain e m where em: "em = (e, m)" by fastforce
    define len :: u16 where "len = of_nat (size_wrap (int (mb_pos m) - int ?p - int STUN_HEADER_SIZE + int mi))"
    obtain e1 m1 where r1: "also_err (e, m\<lparr>mb_pos := ?p\<rparr>) (stun_hdr_encode al (msg_hdr ?T len tid)) = (e1, m1)" by fastforce
    have small1: "length B + mi < 65536" "?p + 20 + length B + mi < size_mod" using lens B2 by auto
    note st1 = hdr_stage [OF s0 [unfolded Some em] tid small1 len_def r1, folded h_def]
    have e1: "len = of_nat (length B + mi)" if "e1 = None"
      using st1(2) also_err_None [of e "m\<lparr>mb_pos := ?p\<rparr>"] r1 that by blast
    define s1 where "s1 = Some (e1, mbuf_advance m1 (int (unat len) - int mi))"
    define s2 where "s2 = (case key of None \<Rightarrow> s1 | Some k \<Rightarrow> also_opt s1 (add_mi al hm k c ?p len))"
    have s2: "built al mb ?p (h @ B2) s2"
    proof (cases key)
      case None
      then show ?thesis using st1(1) by (simp add: s2_def s1_def B2_def)
    next
      case (Some k)
      have "built al mb ?p ((h @ B) @ attr_bytes tid c (mi_of hm k (h @ B))) (also_opt s1 (add_mi al hm k c ?p len))"
        unfolding s1_def using st1(1) h20 tid mb(2) hm e1 small1 Some by (intro mi_stage) (auto simp: mi_def MI_SIZE_def)
      then show ?thesis using Some by (simp add: s2_def B2_def)
    qed
    have enc: "stun_msg_vencode al hm met cls tid ec key fp c avs mb =
        (if fp then (case s2 of None \<Rightarrow> None | Some r \<Rightarrow> add_fp al ?T tid c ?p r) else s2)"
      using Some em r1 unfolding s0_def s2_def s1_def stun_msg_vencode_def Let_def len_def mi_def by (simp only: option.case prod.case)
    show ?thesis
    proof (cases fp)
      case False
      then show ?thesis using s2 enc full B2 by (simp add: msg_bytes_def h_def)
    next
      case True
      have "built al mb ?p ((h' @ B2) @ attr_bytes tid c (fp_of (h' @ B2))) (case s2 of None \<Rightarrow> None | Some r \<Rightarrow> add_fp al ?T tid c ?p r)"
      proof (cases s2)
        case (Some r)
        obtain e2 m2 where "r = (e2, m2)" by fastforce
        then show ?thesis
          using fp_stage [OF _ h20 tid mb(2), of al B2 e2 m2 h' ?T c] s2 Some lens True h'_def by simp
      qed (use s2 in \<open>auto simp: built_def\<close>)
      then show ?thesis using enc full True length_fp_attr [of tid c "h' @ B2"] by (simp add: msg_bytes_def h'_def)
    qed
  qed
qed

section \<open>Decoding an encoded message\<close>

definition same_attr :: "u16 \<times> stun_val \<Rightarrow> stun_attr \<Rightarrow> bool" where
  "same_attr av a \<longleftrightarrow> a_type a = fst av \<and> same_val (snd av) (a_v a)"

lemma attr_bytes_size: "4 \<le> length (attr_bytes tid c a)" "length (attr_bytes tid c a) mod 4 = 0"
proof -
  obtain t v where a: "a = (t, v)" by fastforce
  let ?n = "length (val_bytes (attr_kind_of t) tid v)"
  have l: "length (attr_bytes tid c a) = 4 + (?n + pad_len ?n)" by (simp add: a attr_bytes_def Let_def)
  show "4 \<le> length (attr_bytes tid c a)" "length (attr_bytes tid c a) mod 4 = 0"
    using pad_len_iff [of "pad_len ?n" ?n] unfolding l by simp_all
qed

lemma body_mod4: "length (body_bytes tid c as) mod 4 = 0"
proof (induction as)
  case (Cons a as)
  then show ?case using attr_bytes_size(2) [of tid c a] by (simp add: body_bytes_Cons mod_add_eq [symmetric, of _ _ 4])
qed simp

lemma attrs_loop_body:
  assumes "\<forall>a \<in> set as. attr_ok a" and tid: "length tid = 12" and al: "alloc_total al"
    and "mbuf_ok mb" and "mb_after mb = body_bytes tid c as @ rest"
  shows "\<exists>l mb'. attrs_loop al tid (length rest) ua attrl mb = Some (Inr (attrl @ l), ua, mb')
    \<and> list_all2 same_attr as l \<and> reads mb mb' \<and> mb_after mb' = rest"
  using assms(1,4,5)
proof (induction as arbitrary: mb attrl)
  case Nil
  have "mbuf_get_left mb = length rest" using Nil.prems by (simp add: mbuf_get_left_after del: length_mb_after)
  then show ?case using Nil.prems by (subst attrs_loop.simps) simp
next
  case (Cons a as)
  obtain t v where a: "a = (t, v)" by fastforce
  have okt: "attr_ok (t, v)" "\<forall>a \<in> set as. attr_ok a" using Cons.prems(1) a by simp_all
  have aft: "mb_after mb = attr_bytes tid c (t, v) @ body_bytes tid c as @ rest"
    using Cons.prems(3) a by (simp add: body_bytes_Cons)
  obtain w m1 where d: "stun_attr_decode al tid ua mb = Some (Inr \<lparr>a_type = t, a_v = w\<rparr>, ua, m1)" "same_val v w"
      "reads mb m1" "mb_after m1 = body_bytes tid c as @ rest"
    using attr_decode [OF okt(1) tid al Cons.prems(2) aft, of ua] by blast
  have left: "mbuf_get_left mb = length (attr_bytes tid c (t, v)) + length (body_bytes tid c as) + length rest"
    using mbuf_get_left_after [OF Cons.prems(2)] aft by simp
  moreover have "mbuf_get_left mb < size_mod" using Cons.prems(2) by (auto simp: mbuf_ok_def mbuf_get_left_def)
  ultimately have go: "(mbuf_get_left mb + size_mod - length rest) mod size_mod \<ge> 4"
    using attr_bytes_size(1) [of tid c "(t, v)"] by (simp add: add.assoc [symmetric])
  obtain l mb' where ih: "attrs_loop al tid (length rest) ua ((attrl @ [\<lparr>a_type = t, a_v = w\<rparr>])) m1
      = Some (Inr ((attrl @ [\<lparr>a_type = t, a_v = w\<rparr>]) @ l), ua, mb')" "list_all2 same_attr as l" "reads m1 mb'" "mb_after mb' = rest"
    using Cons.IH [OF okt(2) reads_ok [OF d(3)] d(4)] by blast
  have "attrs_loop al tid (length rest) ua attrl mb = attrs_loop al tid (length rest) ua (attrl @ [\<lparr>a_type = t, a_v = w\<rparr>]) m1"
    by (subst attrs_loop.simps) (simp only: go d(1) if_True option.case prod.case sum.case)
  moreover have "same_attr a \<lparr>a_type = t, a_v = w\<rparr>" using d(2) a by (simp add: same_attr_def)
  ultimately show ?case using ih reads_trans [OF d(3) ih(3)]
    by (intro exI [of _ "\<lparr>a_type = t, a_v = w\<rparr> # l"] exI [of _ mb']) simp
qed

lemma type_low: "(type :: u16) AND 0xc000 = 0 \<Longrightarrow> type AND 0x3fff = type"
proof (rule word16_eqI)
  fix k :: nat
  assume type: "type AND 0xc000 = 0" and "k \<in> {0, 1, 2, 3, 4, 5, 6, 7, 8, 9, 10, 11, 12, 13, 14, 15}"
  moreover have z: "bit (type AND 0xc000) j = False" for j using type by simp
  have "\<not> bit type 14" "\<not> bit type 15" using z [of 14] z [of 15] by (simp_all add: bit_and_iff)
  ultimately show "bit (type AND 0x3fff) k = bit type k"
    by (elim insertE emptyE) (simp_all add: bit_and_iff)
qed

lemma hdr_decode:
  assumes mb: "mbuf_ok mb" "mb_after mb = hdr_bytes type n tid @ rest" and tid: "length tid = 12"
    and n: "n < 65536" "n mod 4 = 0" "n \<le> length rest" and type: "type AND 0xc000 = 0"
  shows "stun_hdr_decode mb = (Inr (msg_hdr type (of_nat n) tid), mb_adv mb 20)"
proof -
  have t: "type AND 0x3fff = type" using type by (rule type_low)
  have l3: "(of_nat n :: u16) AND 3 = 0"
  proof -
    have m: "(3 :: u16) = mask 2" by (simp add: mask_eq_exp_minus_1)
    have "unat ((of_nat n :: u16) AND 3) = n mod 4"
      unfolding m take_bit_eq_mask [symmetric] unsigned_take_bit_eq unat_len16 [OF n(1)] by (simp add: take_bit_eq_mod)
    then show ?thesis using n(2) by (simp add: unat_eq_zero)
  qed
  have a: "mb_after mb = be16 type @ be16 (of_nat n) @ be32 STUN_MAGIC_COOKIE @ tid @ rest"
    using mb(2) t by (simp add: hdr_bytes_def hdr_of_def)
  have len: "length (mb_after mb) = 20 + length rest" using a tid by simp
  have ok: "mbuf_ok (mb_adv mb k)" if "k \<le> 20" for k using mb(1) len that by (intro mbuf_ok_adv) simp_all
  have rd: "read_be16 mb = (type, mb_adv mb 2)" "read_be16 (mb_adv mb 2) = (of_nat n, mb_adv mb 4)"
    "read_be32 (mb_adv mb 4) = (STUN_MAGIC_COOKIE, mb_adv mb 8)" "mbuf_read_mem (mb_adv mb 8) 12 = (None, tid, mb_adv mb 20)"
    using reads_at(3) [OF ok [of 0]] reads_at(3) [OF ok [of 2]] reads_at(4) [OF ok [of 4]] reads_at(1) [OF ok [of 8], of 12] a tid
    by (simp_all del: length_mb_after)
  show ?thesis
    using rd type l3 len n(3) mbuf_get_left_after [OF mb(1)] mbuf_get_left_after [OF ok [of 20]] a tid unat_len16 [OF n(1)]
    by (simp add: stun_hdr_decode_def STUN_HEADER_SIZE_def STUN_TID_SIZE_def del: length_mb_after)
qed

lemma msg_decode:
  assumes ok: "\<forall>a \<in> set as. attr_ok a" and tid: "length tid = 12" and al: "alloc_total al"
    and mb: "mbuf_ok mb" "mb_after mb = msg_bytes type tid c as @ rest"
    and small: "length (body_bytes tid c as) < 65536" and type: "type AND 0xc000 = 0"
  shows "\<exists>l mb'. stun_msg_decode al ua mb =
      Some (Inr \<lparr>s_hdr = msg_hdr type (of_nat (length (body_bytes tid c as))) tid, s_attrl = l, s_mb = mb', s_start = mb_pos mb\<rparr>,
        map_option (\<lambda>_. []) ua, mb')
    \<and> list_all2 same_attr as l \<and> reads mb mb' \<and> mb_pos mb' = mb_pos mb"
proof -
  let ?B = "body_bytes tid c as"
  have hd: "stun_hdr_decode mb = (Inr (msg_hdr type (of_nat (length ?B)) tid), mb_adv mb 20)"
    using mb tid small type body_mod4 [of tid c as] by (intro hdr_decode [where rest = "?B @ rest"]) (simp_all add: msg_bytes_def)
  define m1 where "m1 = (mb_adv mb 20)\<lparr>mb_tick := Suc (mb_tick mb)\<rparr>"
  have al1: "mem_alloc al sizeof_msg (mb_adv mb 20) = (True, m1)" using mem_alloc_total [OF al] by (simp add: m1_def)
  have len: "length (mb_after mb) = 20 + length ?B + length rest" using mb(2) length_hdr_bytes [OF tid] by (simp add: msg_bytes_def)
  have m1: "reads mb m1" "mb_after m1 = ?B @ rest" "mbuf_ok m1"
    using reads_tick [OF reads_adv [of mb mb 20]] mb len length_hdr_bytes [OF tid] reads_ok
    by (auto simp: m1_def msg_bytes_def)
  have left: "mbuf_get_left m1 = length ?B + length rest" using mbuf_get_left_after [OF m1(3)] m1(2) by simp
  have "mbuf_get_left m1 < size_mod" using m1(3) by (auto simp: mbuf_ok_def mbuf_get_left_def)
  then have extra: "(mbuf_get_left m1 + size_mod - unat (of_nat (length ?B) :: u16)) mod size_mod = length rest"
    using left unat_len16 [OF small] by simp
  obtain l m2 where lp: "attrs_loop al tid (length rest) (map_option (\<lambda>_. []) ua) [] m1
      = Some (Inr l, map_option (\<lambda>_. []) ua, m2)" "list_all2 same_attr as l" "reads m1 m2"
    using attrs_loop_body [OF ok tid al m1(3,2), of "map_option (\<lambda>_. []) ua" "[]"] by auto
  have r: "reads mb (m2\<lparr>mb_pos := mb_pos mb\<rparr>)" using reads_trans [OF m1(1) lp(3)] by (auto simp: reads_def mbuf_ok_def)
  show ?thesis
    using hd al1 extra lp(1,2) r
    by (intro exI [of _ l] exI [of _ "m2\<lparr>mb_pos := mb_pos mb\<rparr>"]) (simp add: stun_msg_decode_def Let_def)
qed

section \<open>The checks on an intact message\<close>

lemma find_attr_same:
  assumes "list_all2 same_attr (xs @ (type, v) # ys) l" and "\<forall>a \<in> set xs. fst a \<noteq> type"
  shows "\<exists>a. find_attr type l = Some a \<and> a_type a = type \<and> same_val v (a_v a)"
  using assms
proof (induction xs arbitrary: l)
  case Nil
  then show ?case by (cases l) (auto simp: same_attr_def)
next
  case (Cons x xs)
  then show ?case by (cases l) (auto simp: same_attr_def)
qed

lemma find_attr_none: "list_all2 same_attr as l \<Longrightarrow> \<forall>a \<in> set as. fst a \<noteq> type \<Longrightarrow> find_attr type l = None"
  by (induction rule: list_all2_induct) (auto simp: same_attr_def)

lemma writes_hdr: "writes (stun_hdr_encode al hdr) (hdr_of hdr)"
proof -
  have "writes (\<lambda>mb. also_err (also_err (also_err (mbuf_write_u16 al mb (htons (h_type hdr AND 0x3fff)))
       (\<lambda>mb. mbuf_write_u16 al mb (htons (h_len hdr)))) (\<lambda>mb. mbuf_write_u32 al mb (htonl (h_cookie hdr))))
       (\<lambda>mb. mbuf_write_mem al mb (Some (h_tid hdr))))
     (((be16 (h_type hdr AND 0x3fff) @ be16 (h_len hdr)) @ be32 (h_cookie hdr)) @ h_tid hdr)"
    by (intro writes_rules)
  then show ?thesis by (simp add: stun_hdr_encode_def [abs_def] hdr_of_def)
qed

lemma inplace_hdr: "length (h_tid hdr) = 12 \<Longrightarrow> inplace (stun_hdr_encode al hdr) 20"
proof -
  assume "length (h_tid hdr) = 12"
  then have "inplace (\<lambda>mb. mbuf_write_mem al mb (Some (h_tid hdr))) 12" using inplace_put [of al "h_tid hdr"] by simp
  from inplace_also [OF inplace_also [OF inplace_also [OF inplace_prims(2) [of al "h_type hdr AND 0x3fff"]
        inplace_prims(2) [of al "h_len hdr"]] inplace_prims(3) [of al "h_cookie hdr"]] this]
  show ?thesis by (simp add: stun_hdr_encode_def [abs_def])
qed

text \<open>
  \<open>carries m pre hdr body\<close>: the buffer of \<open>m\<close> holds \<open>pre\<close>, the header \<open>hdr\<close> and \<open>body\<close>, the cursor is at the
  header and the decoded header says the same.
\<close>

definition carries :: "stun_msg \<Rightarrow> byte list \<Rightarrow> stun_hdr \<Rightarrow> byte list \<Rightarrow> bool" where
  "carries m pre hdr body \<longleftrightarrow> s_hdr m = hdr \<and> length (h_tid hdr) = 12 \<and> s_start m = length pre
     \<and> mbv (s_mb m) (length pre) (pre @ hdr_of hdr @ body)"

lemma put_hdr_carries:
  assumes c: "mbv (s_mb m) (length pre) (pre @ h @ body)" and h: "length h = 20" and hdr: "length (h_tid (s_hdr m)) = 12"
    and st: "s_start m = length pre"
  shows "carries (put_hdr al m) pre (s_hdr m) body" and "s_attrl (put_hdr al m) = s_attrl m"
proof -
  obtain e mb where w: "stun_hdr_encode al (s_hdr m) (s_mb m) = (e, mb)" by fastforce
  have e: "e = None"
    using mbv_write_within [OF inplace_hdr [OF hdr, of al] c] w h by simp
  have lt: "length pre + 20 < size_mod" using mbvD(8) [OF c] h by simp
  then have "mbv mb (length pre + 20) (pre @ hdr_of (s_hdr m) @ body)"
    using mbv_writes [OF writes_hdr [of al "s_hdr m"] c] w e length_hdr_of [OF hdr] h by simp
  then have v: "mbv (mb\<lparr>mb_pos := length pre\<rparr>) (length pre) (pre @ hdr_of (s_hdr m) @ body)" "mb_pos mb = length pre + 20"
    using mbv_set_pos [of mb _ _ "length pre"] mbvD(2) by fastforce+
  have "(length pre + 20 + size_mod - STUN_HEADER_SIZE) mod size_mod = length pre"
    using lt by (simp add: STUN_HEADER_SIZE_def)
  then show "carries (put_hdr al m) pre (s_hdr m) body" "s_attrl (put_hdr al m) = s_attrl m"
    using v w hdr st by (simp_all add: put_hdr_def carries_def)
qed

lemma load_msg_carries:
  assumes c: "carries m pre hdr body" and len: "k \<le> 20 + unat (h_len hdr)" "unat (h_len hdr) \<le> length body + k"
  shows "load_msg k m = (take (20 + unat (h_len hdr) - k) (hdr_of hdr @ body), m)"
proof -
  let ?n = "unat (h_len hdr)"
  have v: "mbv (s_mb m) (length pre) (pre @ hdr_of hdr @ body)" and h: "s_hdr m = hdr" "length (h_tid hdr) = 12"
    using c by (simp_all add: carries_def)
  have "int STUN_HEADER_SIZE + int ?n - int k = int (20 + ?n - k)" using len by (simp add: STUN_HEADER_SIZE_def)
  moreover have "?n < 65536" using unsigned_less [of "h_len hdr", where 'a = nat] by simp
  then have "20 + ?n - k < size_mod" by (simp add: size_mod_def)
  ultimately have n: "size_wrap (int STUN_HEADER_SIZE + int (unat (h_len (s_hdr m))) - int k) = 20 + ?n - k"
    using h by (simp only: size_wrap_nat)
  have "mem_load (s_mb m) (length pre) (20 + ?n - k) = (take (20 + ?n - k) (drop (length pre) (pre @ hdr_of hdr @ body)), s_mb m)"
    using len length_hdr_of [OF h(2)] by (intro mbv_load [OF v]) simp
  then show ?thesis using mbvD(2) [OF v] by (simp only: load_msg_def n) simp
qed

lemma carries_pos: "carries m pre hdr body \<Longrightarrow> m\<lparr>s_mb := (s_mb m)\<lparr>mb_pos := s_start m\<rparr>\<rparr> = m"
  using mbvD(2) [of "s_mb m" "length pre"] by (cases m; cases "s_mb m") (auto simp: carries_def)

text \<open>The effect of the length changed for the time of the check.\<close>

lemma add_len_carries:
  assumes c: "carries m pre hdr body"
  shows "carries (put_hdr al (add_len d m)) pre (hdr\<lparr>h_len := h_len hdr + d\<rparr>) body"
    and "s_attrl (put_hdr al (add_len d m)) = s_attrl m"
proof -
  have "mbv (s_mb (add_len d m)) (length pre) (pre @ hdr_of hdr @ body)" "length (hdr_of hdr) = 20"
    "s_hdr (add_len d m) = hdr\<lparr>h_len := h_len hdr + d\<rparr>" "length (h_tid (s_hdr (add_len d m))) = 12"
    "s_start (add_len d m) = length pre" "s_attrl (add_len d m) = s_attrl m"
    using c by (simp_all add: carries_def add_len_def length_hdr_of)
  from put_hdr_carries [OF this(1,2,4,5)] this(3,6)
  show "carries (put_hdr al (add_len d m)) pre (hdr\<lparr>h_len := h_len hdr + d\<rparr>) body" "s_attrl (put_hdr al (add_len d m)) = s_attrl m"
    by simp_all
qed

text \<open>
  The check of the integrity code: the code covers the header, with the length that counts the code but not the
  fingerprint, and the bytes before the code; the buffer is left as it was.
\<close>

lemma chk_mi_exact:
  assumes c: "carries m pre hdr body" and len: "unat (h_len hdr) = 24 + n + (if fp then 8 else 0)" "n \<le> length body"
    and mi: "find_attr STUN_ATTR_MSG_INTEGRITY (s_attrl m) = Some a" "a_v a = V_msg_integrity x"
    and fp: "find_attr STUN_ATTR_FINGERPRINT (s_attrl m) \<noteq> None \<longleftrightarrow> fp"
  shows "\<exists>m'. stun_msg_chk_mi al hm m k =
      (if x = take 20 (hm k (hdr_of (hdr\<lparr>h_len := of_nat (24 + n)\<rparr>) @ take n body)) then None else Some EBADMSG, m')
    \<and> carries m' pre hdr body"
proof -
  define h1 where "h1 = hdr\<lparr>h_len := of_nat (24 + n)\<rparr>"
  let ?m = "if fp then put_hdr al (add_len (- 8) m) else m"
  have un: "unat (of_nat (24 + n) :: u16) = 24 + n"
    using len unsigned_less [of "h_len hdr", where 'a = nat] by (intro unat_len16) auto
  have hl: "h_len hdr = of_nat (24 + n + (if fp then 8 else 0))" by (simp flip: len(1))
  have c1: "carries ?m pre h1 body"
  proof (cases fp)
    case True
    then show ?thesis using add_len_carries(1) [OF c, of al "- 8"] hl by (simp add: h1_def)
  next
    case False
    then have "h1 = hdr" using hl by (cases hdr) (simp add: h1_def)
    then show ?thesis using c False by simp
  qed
  have tid: "length (hdr_of h1) = 20" using c1 by (simp add: carries_def length_hdr_of)
  have "load_msg MI_SIZE ?m = (take (20 + n) (hdr_of h1 @ body), ?m)"
    using load_msg_carries [OF c1, of MI_SIZE] un len(2) by (simp add: h1_def MI_SIZE_def)
  then have ld: "load_msg MI_SIZE ?m = (hdr_of h1 @ take n body, ?m)" using tid by simp
  let ?m2 = "if fp then put_hdr al (add_len 8 ?m) else ?m"
  have "h1\<lparr>h_len := h_len h1 + (if fp then 8 else 0)\<rparr> = hdr" by (simp add: h1_def hl)
  then have c2: "carries ?m2 pre hdr body"
    using c1 add_len_carries(1) [OF c1, of al 8] by (cases fp) simp_all
  have "stun_msg_chk_mi al hm m k = (if x = take 20 (hm k (hdr_of h1 @ take n body)) then None else Some EBADMSG, ?m2)"
    unfolding stun_msg_chk_mi_def carries_pos [OF c] Let_def fp mi(1) option.case ld prod.case
    using mi(2) by (simp add: SHA_LENGTH_def)
  with c2 show ?thesis unfolding h1_def by blast
qed

lemma chk_fp_exact:
  assumes c: "carries m pre hdr body" and len: "unat (h_len hdr) = 8 + n" "n \<le> length body"
    and fp: "find_attr STUN_ATTR_FINGERPRINT (s_attrl m) = Some a" "a_v a = V_uint32 x"
  shows "stun_msg_chk_fingerprint m = (if fingerprint (hdr_of hdr @ take n body) = x then None else Some EBADMSG, m)"
proof -
  have "length (hdr_of hdr) = 20" using c by (simp add: carries_def length_hdr_of)
  then have ld: "load_msg FP_SIZE m = (hdr_of hdr @ take n body, m)"
    using load_msg_carries [OF c, of FP_SIZE] len by (simp add: FP_SIZE_def)
  show ?thesis
    unfolding stun_msg_chk_fingerprint_def carries_pos [OF c] fp(1) option.case ld prod.case fp(2) by simp
qed

lemma full_attrs_ok:
  assumes "\<forall>a \<in> set as. attr_ok a" and "\<And>k d. length (hm k d) = 20"
  shows "\<forall>a \<in> set (full_attrs hm type tid key fp c as). attr_ok a"
proof -
  have "attr_ok (mi_of hm k d)" for k d using assms(2) by (rule attr_ok_special(1))
  then show ?thesis using assms(1) attr_ok_special(2) by (auto simp: full_attrs_def Let_def split: option.splits)
qed

text \<open>What the checks find in a message decoded from the bytes of \<open>full_attrs\<close>.\<close>

lemma checks_ok:
  assumes fresh: "\<forall>a \<in> set A. fst a \<noteq> STUN_ATTR_MSG_INTEGRITY \<and> fst a \<noteq> STUN_ATTR_FINGERPRINT"
    and as: "as = full_attrs hm type tid key fp c A" and tid: "length tid = 12" and hm: "\<And>k d. length (hm k d) = 20"
    and small: "length (body_bytes tid c as) < 65536" and l: "list_all2 same_attr as (s_attrl m)"
    and m: "carries m pre (msg_hdr type (of_nat (length (body_bytes tid c as))) tid) (body_bytes tid c as)"
  shows "key = Some k \<Longrightarrow> fst (stun_msg_chk_mi al hm m k) = None" and "fp \<Longrightarrow> fst (stun_msg_chk_fingerprint m) = None"
proof -
  define B where "B = body_bytes tid c A"
  define d where "d = hdr_bytes type (length B + 24) tid @ B"
  have ne: "STUN_ATTR_MSG_INTEGRITY \<noteq> STUN_ATTR_FINGERPRINT" by (simp add: STUN_ATTR_MSG_INTEGRITY_def STUN_ATTR_FINGERPRINT_def)
  define A2 where "A2 = A @ (case key of None \<Rightarrow> [] | Some k \<Rightarrow> [mi_of hm k d])"
  define B2 where "B2 = body_bytes tid c A2"
  have as2: "as = A2 @ (if fp then [fp_of (hdr_bytes type (length B2 + 8) tid @ B2)] else [])"
    by (cases key) (simp_all add: as full_attrs_def A2_def B2_def d_def B_def Let_def)
  have fresh2: "\<forall>a \<in> set A2. fst a \<noteq> STUN_ATTR_FINGERPRINT"
    using fresh ne by (auto simp: A2_def mi_of_def split: option.splits)
  show "fst (stun_msg_chk_fingerprint m) = None" if fp
  proof -
    have bs: "body_bytes tid c as = B2 @ attr_bytes tid c (fp_of (hdr_bytes type (length B2 + 8) tid @ B2))" using that as2 by (simp add: B2_def)
    have len: "length (body_bytes tid c as) = length B2 + 8" by (simp add: bs length_fp_attr)
    have "as = A2 @ (STUN_ATTR_FINGERPRINT, V_uint32 (fingerprint (hdr_bytes type (length B2 + 8) tid @ B2))) # []"
      using as2 that by (simp add: fp_of_def)
    from find_attr_same [OF l [unfolded this] fresh2] obtain a where a: "find_attr STUN_ATTR_FINGERPRINT (s_attrl m) = Some a"
        "a_v a = V_uint32 (fingerprint (hdr_bytes type (length B2 + 8) tid @ B2))" by (auto simp: same_val_def)
    show ?thesis using chk_fp_exact [OF m _ _ a, of "length B2"] small len unat_len16 [of "length B2 + 8"] bs
      by (simp add: hdr_bytes_def)
  qed
  show "fst (stun_msg_chk_mi al hm m k) = None" if key: "key = Some k"
  proof -
    define tail where "tail = (if fp then [fp_of (hdr_bytes type (length B2 + 8) tid @ B2)] else [])"
    have A2k: "as = A @ (STUN_ATTR_MSG_INTEGRITY, V_msg_integrity (hm k d)) # tail"
      using as2 key by (simp add: A2_def mi_of_def tail_def)
    have bs: "body_bytes tid c as = B @ (attr_bytes tid c (mi_of hm k d) @ body_bytes tid c tail)"
      by (simp add: A2k B_def body_bytes_Cons mi_of_def)
    have len: "length (body_bytes tid c as) = length B + 24 + (if fp then 8 else 0)"
      using length_mi_attr [of hm k d tid c] hm by (simp add: bs tail_def length_fp_attr)
    obtain a where a: "find_attr STUN_ATTR_MSG_INTEGRITY (s_attrl m) = Some a" "a_v a = V_msg_integrity (hm k d)"
      using find_attr_same [OF l [unfolded A2k]] fresh by (auto simp: same_val_def)
    have "find_attr STUN_ATTR_FINGERPRINT (s_attrl m) \<noteq> None \<longleftrightarrow> fp"
    proof (cases fp)
      case True
      then have "as = A2 @ (STUN_ATTR_FINGERPRINT, V_uint32 (fingerprint (hdr_bytes type (length B2 + 8) tid @ B2))) # []"
        using as2 by (simp add: fp_of_def)
      from find_attr_same [OF l [unfolded this] fresh2] True show ?thesis by auto
    next
      case False
      then show ?thesis using find_attr_none [OF l] as2 fresh2 by simp
    qed
    moreover have "unat (h_len (msg_hdr type (of_nat (length (body_bytes tid c as))) tid)) = 24 + length B + (if fp then 8 else 0)"
      using unat_len16 [OF small] len by simp
    moreover have "length B \<le> length (body_bytes tid c as)" "take (length B) (body_bytes tid c as) = B" by (simp_all add: bs)
    moreover have "hdr_of ((msg_hdr type (of_nat (length (body_bytes tid c as))) tid)\<lparr>h_len := of_nat (24 + length B)\<rparr>) @ B = d"
      by (simp add: d_def hdr_bytes_def add.commute)
    ultimately show ?thesis using chk_mi_exact [OF m _ _ a, of "length B" fp al hm k] hm [of k d] by auto
  qed
qed

section \<open>The round trip\<close>

lemma msg_arrives:
  fixes met cls :: u16
  assumes tid: "length tid = 12" and type: "unat met < 2 ^ 12" "unat cls < 2 ^ 2"
    and attrs: "\<forall>a \<in> set (msg_attrs ec avs). attr_ok a \<and> fst a \<noteq> STUN_ATTR_MSG_INTEGRITY \<and> fst a \<noteq> STUN_ATTR_FINGERPRINT"
    and hm: "\<And>k d. length (hm k d) = 20" and al: "alloc_total al2"
    and as: "as = full_attrs hm (STUN_TYPE met cls) tid key fp c (msg_attrs ec avs)"
    and small: "length (body_bytes tid c as) < 65536"
    and mb: "mbuf_ok mb" "mb_after mb = msg_bytes (STUN_TYPE met cls) tid c as"
  shows "\<exists>msg mb2. stun_msg_decode al2 ua mb = Some (Inr msg, map_option (\<lambda>_. []) ua, mb2)
      \<and> stun_msg_method (Some msg) = met \<and> (\<not> bit met 4 \<and> \<not> bit met 6 \<longrightarrow> stun_msg_class (Some msg) = cls)
      \<and> stun_msg_tid (Some msg) = Some tid \<and> stun_msg_mcookie (Some msg)
      \<and> list_all2 same_attr as (s_attrl msg)
      \<and> (\<forall>k al3. key = Some k \<longrightarrow> fst (stun_msg_chk_mi al3 hm msg k) = None)
      \<and> (fp \<longrightarrow> fst (stun_msg_chk_fingerprint msg) = None)"
proof -
  let ?T = "STUN_TYPE met cls" and ?p = "mb_pos mb" and ?B = "body_bytes tid c as"
  note parts = stun_type_parts [OF type]
  have ok: "\<forall>a \<in> set (msg_attrs ec avs). attr_ok a"
    and fresh: "\<forall>a \<in> set (msg_attrs ec avs). fst a \<noteq> STUN_ATTR_MSG_INTEGRITY \<and> fst a \<noteq> STUN_ATTR_FINGERPRINT"
    using attrs by blast+
  have asok: "\<forall>a \<in> set as. attr_ok a" unfolding as using ok hm by (rule full_attrs_ok)
  obtain l mb2 where dec: "stun_msg_decode al2 ua mb =
      Some (Inr \<lparr>s_hdr = msg_hdr ?T (of_nat (length ?B)) tid, s_attrl = l, s_mb = mb2, s_start = ?p\<rparr>, map_option (\<lambda>_. []) ua, mb2)"
      and l: "list_all2 same_attr as l" and r: "reads mb mb2" "mb_pos mb2 = ?p"
    using msg_decode [OF asok tid al mb(1), of ?T c "[]" ua] mb(2) small parts(2) by auto
  define msg where "msg = \<lparr>s_hdr = msg_hdr ?T (of_nat (length ?B)) tid, s_attrl = l, s_mb = mb2, s_start = ?p\<rparr>"
  have "mbv mb2 ?p (mb_before mb2 @ msg_bytes ?T tid c as)"
    using mbvI [OF reads_ok [OF r(1)]] reads_after [OF r(1)] r(2) mb(2) by simp
  moreover have "length (mb_before mb2) = ?p" using length_mb_before [OF reads_ok [OF r(1)]] r(2) by simp
  ultimately have c: "carries msg (mb_before mb2) (msg_hdr ?T (of_nat (length ?B)) tid) ?B"
    using tid by (simp add: carries_def msg_def msg_bytes_def hdr_bytes_def)
  have "list_all2 same_attr as (s_attrl msg)" using l by (simp add: msg_def)
  note chk = checks_ok [OF fresh as tid hm small this c]
  show ?thesis
    by (intro exI [of _ msg] exI [of _ mb2] conjI)
       (use dec parts l chk in \<open>simp_all add: msg_def stun_msg_method_def stun_msg_class_def stun_msg_type_def stun_msg_tid_def stun_msg_mcookie_def\<close>)
qed

text \<open>C12: A STUN message is received as it was sent. When memory does not run out, the encoder succeeds on
  well-formed attributes (none of them an integrity or fingerprint attribute) whose body fits the
  16-bit length, for a 12-bit method, a 2-bit class and a transaction identifier of 12 bytes; the decoder,
  run on the bytes, gives back the method, the transaction identifier and all attributes in order, finds
  no unknown one, and the message integrity and the fingerprint that were asked for are accepted. The
  class comes back when bits 4 and 6 of the method are clear, as they are in every method the code
  defines: \<open>STUN_CLASS\<close> does not mask those bits of the method out.\<close>

theorem stun_msg_roundtrip:
  fixes met cls :: u16
  assumes buf: "region_ok mb" "mb_end mb \<le> mb_pos mb" and tid: "length tid = 12"
    and type: "unat met < 2 ^ 12" "unat cls < 2 ^ 2"
    and attrs: "\<forall>a \<in> set (msg_attrs ec avs). attr_ok a \<and> fst a \<noteq> STUN_ATTR_MSG_INTEGRITY \<and> fst a \<noteq> STUN_ATTR_FINGERPRINT"
    and hm: "\<And>k d. length (hm k d) = 20" and al: "alloc_total al" "alloc_total al2"
    and as: "as = full_attrs hm (STUN_TYPE met cls) tid key fp c (msg_attrs ec avs)"
    and small: "length (body_bytes tid c as) < 65536" and fit: "mb_pos mb + 20 + length (body_bytes tid c as) < size_mod"
  shows "\<exists>mb1 msg mb2.
      stun_msg_vencode al hm met cls tid ec key fp c avs mb = Some (None, mb1)
      \<and> stun_msg_decode al2 ua (mb1\<lparr>mb_pos := mb_pos mb\<rparr>) = Some (Inr msg, map_option (\<lambda>_. []) ua, mb2)
      \<and> stun_msg_method (Some msg) = met \<and> (\<not> bit met 4 \<and> \<not> bit met 6 \<longrightarrow> stun_msg_class (Some msg) = cls)
      \<and> stun_msg_tid (Some msg) = Some tid \<and> stun_msg_mcookie (Some msg)
      \<and> list_all2 same_attr as (s_attrl msg)
      \<and> (\<forall>k. key = Some k \<longrightarrow> fst (stun_msg_chk_mi al3 hm msg k) = None)
      \<and> (fp \<longrightarrow> fst (stun_msg_chk_fingerprint msg) = None)"
proof -
  let ?T = "STUN_TYPE met cls" and ?p = "mb_pos mb" and ?B = "body_bytes tid c as"
  have ok: "\<forall>a \<in> set (msg_attrs ec avs). attr_ok a" using attrs by blast
  obtain mb1 where enc: "stun_msg_vencode al hm met cls tid ec key fp c avs mb = Some (None, mb1)"
      and w: "wrote mb ?p (msg_bytes ?T tid c as) mb1"
    using vencode_built [OF buf tid ok hm as small fit] al(1) by (auto simp: built_def)
  have "msg_bytes ?T tid c as \<noteq> []" using length_hdr_bytes [OF tid, of ?T "length ?B"] by (auto simp: msg_bytes_def)
  from wroteD(3) [OF w this] buf(2) have e: "mb_end mb1 = ?p + length (msg_bytes ?T tid c as)" by simp
  note v = holds_view [OF wroteD(1,4) [OF w] e]
  from msg_arrives [OF tid type attrs hm al(2) as small v] enc show ?thesis by blast
qed

lemma full_body_length:
  assumes "\<And>k d. length (hm k d) = 20"
  shows "length (body_bytes tid c (full_attrs hm type tid key fp c as))
    = length (body_bytes tid c as) + (if key = None then 0 else 24) + (if fp then 8 else 0)"
  using length_mi_attr [of hm] assms by (cases key) (auto simp: full_attrs_def body_bytes_Cons length_fp_attr Let_def)

text \<open>A binding response with the mapped address, a name and an integrity code.\<close>

definition hm_example :: hmac where
  "hm_example key d = take 20 (key @ d @ replicate 20 0)"

definition avs_example :: "(u16 \<times> stun_val option) list" where
  "avs_example = [(STUN_ATTR_XOR_MAPPED_ADDR, Some (V_sa (sa_set_in 0xc0a80001 5060))), (STUN_ATTR_USERNAME, None),
     (STUN_ATTR_SOFTWARE, Some (V_str [0x72, 0x65, 0]))]"

lemma avs_example_ok:
  "\<forall>a \<in> set (msg_attrs None avs_example). attr_ok a \<and> fst a \<noteq> STUN_ATTR_MSG_INTEGRITY \<and> fst a \<noteq> STUN_ATTR_FINGERPRINT"
  by (auto simp: msg_attrs_def given_def avs_example_def attr_ok_def attr_kind_of_def c_string_def sa_set_in_def
      STUN_ATTR_XOR_MAPPED_ADDR_def STUN_ATTR_SOFTWARE_def STUN_ATTR_MSG_INTEGRITY_def STUN_ATTR_FINGERPRINT_def
      STUN_ATTR_MAPPED_ADDR_def STUN_ATTR_ALT_SERVER_def STUN_ATTR_RESP_ORIGIN_def STUN_ATTR_OTHER_ADDR_def
      STUN_ATTR_XOR_PEER_ADDR_def STUN_ATTR_XOR_RELAY_ADDR_def STUN_ATTR_CHANGE_REQ_def STUN_ATTR_USERNAME_def
      STUN_ATTR_REALM_def STUN_ATTR_NONCE_def intro: exI [of _ "[0x72, 0x65]"])

lemma avs_example_length: "length (body_bytes (replicate 12 7) 0 (msg_attrs None avs_example)) = 20"
  by code_simp

theorem stun_msg_roundtrip_witness:
  "\<exists>mb1 msg mb2.
      stun_msg_vencode al_zero hm_example STUN_METHOD_BINDING STUN_CLASS_SUCCESS_RESP (replicate 12 7) None (Some [1, 2, 3]) True 0
        avs_example mb_example = Some (None, mb1)
      \<and> stun_msg_decode al_zero (Some []) (mb1\<lparr>mb_pos := mb_pos mb_example\<rparr>) = Some (Inr msg, Some [], mb2)
      \<and> stun_msg_method (Some msg) = STUN_METHOD_BINDING \<and> stun_msg_class (Some msg) = STUN_CLASS_SUCCESS_RESP
      \<and> fst (stun_msg_chk_mi al_zero hm_example msg [1, 2, 3]) = None \<and> fst (stun_msg_chk_fingerprint msg) = None"
proof -
  have hm: "length (hm_example k d) = 20" for k d by (simp add: hm_example_def)
  define as where "as = full_attrs hm_example (STUN_TYPE STUN_METHOD_BINDING STUN_CLASS_SUCCESS_RESP) (replicate 12 7)
    (Some [1, 2, 3]) True 0 (msg_attrs None avs_example)"
  have len: "length (body_bytes (replicate 12 7) 0 as) = 52"
    using full_body_length [of hm_example "replicate 12 7" 0] hm avs_example_length by (simp add: as_def)
  have mb: "region_ok mb_example" "mb_end mb_example \<le> mb_pos mb_example"
    using mb_example_ok by (simp_all add: mbuf_ok_region mb_example_def)
  have t: "length (replicate 12 (7 :: byte)) = 12" "unat STUN_METHOD_BINDING < 2 ^ 12" "unat STUN_CLASS_SUCCESS_RESP < 2 ^ 2"
    "\<not> bit STUN_METHOD_BINDING 4" "\<not> bit STUN_METHOD_BINDING 6"
    by (simp_all add: STUN_METHOD_BINDING_def STUN_CLASS_SUCCESS_RESP_def)
  have sizes: "length (body_bytes (replicate 12 7) 0 as) < 65536"
      "mb_pos mb_example + 20 + length (body_bytes (replicate 12 7) 0 as) < size_mod"
    by (simp_all add: len mb_example_def size_mod_def)
  from stun_msg_roundtrip [OF mb t(1-3) avs_example_ok hm al_zero_total al_zero_total as_def sizes, of "Some []" al_zero] t(4,5)
  show ?thesis by (elim exE conjE) (intro exI conjI, assumption+, simp_all)
qed

section \<open>Arbitrary datagrams\<close>

definition attrs_size :: "stun_attr list \<Rightarrow> nat" where
  "attrs_size l = sum_list (map (\<lambda>a. attr_min (a_type a)) l)"

definition unknown_ok :: "unknown_attr \<Rightarrow> bool" where
  "unknown_ok ua \<longleftrightarrow> (case ua of None \<Rightarrow> True | Some ts \<Rightarrow> length ts \<le> 8)"

lemma note_unknown_ok: "unknown_ok ua \<Longrightarrow> unknown_ok (note_unknown t ua)"
  by (auto simp: unknown_ok_def note_unknown_def split: option.splits)

lemma attr_decode_unknown_ok:
  "stun_attr_decode al tid ua mb = Some (r, ua', mb') \<Longrightarrow> unknown_ok ua \<Longrightarrow> unknown_ok ua'"
  by (auto simp: stun_attr_decode_def note_unknown_ok split: if_splits prod.splits sum.splits)

lemma attrs_loop_returns:
  assumes "reads a mb" and "length tid = 12" and "unknown_ok ua"
  shows "\<exists>r ua' mb'. attrs_loop al tid extra ua attrl mb = Some (r, ua', mb') \<and> reads a mb' \<and> unknown_ok ua'
    \<and> (\<forall>l. r = Inr l \<longrightarrow> (\<exists>l'. l = attrl @ l' \<and> list_all attr_typed l' \<and> mb_pos mb + attrs_size l' \<le> mb_pos mb'
         \<and> (mbuf_get_left mb' + size_mod - extra) mod size_mod < 4))"
  using assms(1,3)
proof (induction "mbuf_get_left mb" arbitrary: mb ua attrl rule: less_induct)
  case less
  let ?go = "(mbuf_get_left mb + size_mod - extra) mod size_mod \<ge> 4"
  obtain r ua1 m1 where d: "stun_attr_decode al tid ua mb = Some (r, ua1, m1)" "reads a m1"
      and x: "\<And>x. r = Inr x \<Longrightarrow> attr_typed x \<and> mb_pos mb + attr_min (a_type x) \<le> mb_pos m1"
    using attr_decode_returns [OF less.prems(1) assms(2), of al ua] by blast
  have ua1: "unknown_ok ua1" using attr_decode_unknown_ok [OF d(1) less.prems(2)] .
  show ?case
  proof (cases ?go)
    case False
    then show ?thesis using less.prems
      by (subst attrs_loop.simps) (auto simp: attrs_size_def intro!: exI [of _ "[]"])
  next
    case go: True
    show ?thesis
    proof (cases r)
      case (Inl e)
      then show ?thesis using go d ua1 by (subst attrs_loop.simps) simp
    next
      case (Inr y)
      have step: "attrs_loop al tid extra ua attrl mb = attrs_loop al tid extra ua1 (attrl @ [y]) m1"
        by (subst attrs_loop.simps) (simp only: go d(1) Inr if_True option.case prod.case sum.case)
      have "mb_pos mb < mb_pos m1" "mb_end m1 = mb_end mb"
        using x [OF Inr] d(2) less.prems(1) by (auto simp: attr_min_def reads_def split: if_splits)
      moreover have "mb_pos m1 \<le> mb_end m1" using reads_ok [OF d(2)] by (simp add: mbuf_ok_def)
      ultimately have "mbuf_get_left m1 < mbuf_get_left mb" by (auto simp: mbuf_get_left_def)
      from less.hyps [OF this d(2) ua1, of "attrl @ [y]"] obtain r' ua' mb' where ih:
          "attrs_loop al tid extra ua1 (attrl @ [y]) m1 = Some (r', ua', mb')" "reads a mb'" "unknown_ok ua'"
          and l: "\<And>l. r' = Inr l \<Longrightarrow> \<exists>l'. l = (attrl @ [y]) @ l' \<and> list_all attr_typed l' \<and> mb_pos m1 + attrs_size l' \<le> mb_pos mb'
             \<and> (mbuf_get_left mb' + size_mod - extra) mod size_mod < 4"
        by blast
      have "\<exists>l'. l = attrl @ l' \<and> list_all attr_typed l' \<and> mb_pos mb + attrs_size l' \<le> mb_pos mb'
             \<and> (mbuf_get_left mb' + size_mod - extra) mod size_mod < 4" if "r' = Inr l" for l
      proof -
        from l [OF that] obtain l' where "l = (attrl @ [y]) @ l'" "list_all attr_typed l'" "mb_pos m1 + attrs_size l' \<le> mb_pos mb'"
          "(mbuf_get_left mb' + size_mod - extra) mod size_mod < 4" by blast
        with x [OF Inr] show ?thesis by (intro exI [of _ "y # l'"]) (simp add: attrs_size_def)
      qed
      with ih step show ?thesis by (intro exI [of _ r'] exI [of _ ua'] exI [of _ mb']) simp
    qed
  qed
qed

lemma be_of_bytes:
  "length bs = 2 \<Longrightarrow> be16 (word_of_bytes (rev bs)) = bs" "length bs = 4 \<Longrightarrow> be32 (word_of_bytes (rev bs)) = bs"
  using word_bytes_word_of_bytes [of "rev bs", where 'a = 16] word_bytes_word_of_bytes [of "rev bs", where 'a = 32]
  by (simp_all add: be16_def be32_def)

lemma hdr_decode_reads:
  assumes r: "reads a mb" and d: "stun_hdr_decode mb = (x, mb')"
  shows "reads a mb'" and "x = Inr hdr \<Longrightarrow> length (h_tid hdr) = 12 \<and> unat (h_len hdr) \<le> mbuf_get_left mb' \<and> mb_pos mb' = mb_pos mb + 20
      \<and> hdr_of hdr = take 20 (mb_after mb)"
proof -
  note rd = reads_prims(2) [OF r] reads_prims(2) [OF reads_prims(2) [OF r]]
  note rd' = reads_prims(3) [OF rd(2)] reads_prims(4) [OF reads_prims(3) [OF rd(2)], of 12]
  show "reads a mb'"
    using d r rd rd' by (auto simp: stun_hdr_decode_def case_prod_beta STUN_TID_SIZE_def split: if_splits)
  assume x: "x = Inr hdr"
  have ok: "mbuf_ok mb" and len: "20 \<le> length (mb_after mb)"
    using d x reads_ok [OF r] mbuf_get_left_after [OF reads_ok [OF r]]
    by (auto simp: stun_hdr_decode_def STUN_HEADER_SIZE_def split: if_splits simp del: length_mb_after)
  have ok': "mbuf_ok (mb_adv mb k)" if "k \<le> 20" for k using ok len that by (intro mbuf_ok_adv) simp_all
  let ?a = "mb_after mb"
  define t l :: u16 where "t = word_of_bytes (rev (take 2 ?a))" and "l = word_of_bytes (rev (take 2 (drop 2 ?a)))"
  define ck :: u32 where "ck = word_of_bytes (rev (take 4 (drop 4 ?a)))"
  have rd: "read_be16 mb = (t, mb_adv mb 2)" "read_be16 (mb_adv mb 2) = (l, mb_adv mb 4)"
    "read_be32 (mb_adv mb 4) = (ck, mb_adv mb 8)" "mbuf_read_mem (mb_adv mb 8) 12 = (None, take 12 (drop 8 ?a), mb_adv mb 20)"
    using reads_at(3) [OF ok' [of 0]] reads_at(3) [OF ok' [of 2]] reads_at(4) [OF ok' [of 4]] reads_at(1) [OF ok' [of 8], of 12] len
    by (simp_all add: t_def l_def ck_def del: length_mb_after)
  have hdr: "hdr = \<lparr>h_type = t, h_len = l, h_cookie = ck, h_tid = take 12 (drop 8 ?a)\<rparr>" "mb' = mb_adv mb 20"
    "t AND 0xc000 = 0" "unat l \<le> mbuf_get_left mb'"
    using d x rd by (auto simp: stun_hdr_decode_def STUN_TID_SIZE_def split: if_splits)
  have "take 20 ?a = take 2 ?a @ take 2 (drop 2 ?a) @ take 4 (drop 4 ?a) @ take 12 (drop 8 ?a)"
    using take_add [of 2 18 ?a] take_add [of 2 16 "drop 2 ?a"] take_add [of 4 12 "drop 4 ?a"] by simp
  then have "hdr_of hdr = take 20 ?a"
    using be_of_bytes(1) [of "take 2 ?a"] be_of_bytes(1) [of "take 2 (drop 2 ?a)"] be_of_bytes(2) [of "take 4 (drop 4 ?a)"] len
      type_low [OF hdr(3)] by (simp add: hdr_of_def hdr(1) t_def l_def ck_def del: length_mb_after)
  then show "length (h_tid hdr) = 12 \<and> unat (h_len hdr) \<le> mbuf_get_left mb' \<and> mb_pos mb' = mb_pos mb + 20 \<and> hdr_of hdr = take 20 ?a"
    using hdr len by (simp del: length_mb_after)
qed

lemma size_diff: "b \<le> a \<Longrightarrow> a < size_mod \<Longrightarrow> (a + size_mod - b) mod size_mod = a - b"
proof -
  assume "b \<le> a" and "a < size_mod"
  then have "a + size_mod - b = (a - b) + size_mod" "a - b < size_mod" by simp_all
  then show ?thesis by (simp only: mod_add_self2 mod_less)
qed

lemma exit_bound:
  assumes "left \<le> size_mod - 4" and "len \<le> left" and "left' \<le> left" and "(left' + size_mod - (left - len)) mod size_mod < 4"
  shows "left - left' \<le> len"
proof (rule ccontr)
  assume "\<not> left - left' \<le> len"
  then have lt: "left' < left - len" by simp
  then have "(left' + size_mod - (left - len)) mod size_mod = left' + size_mod - (left - len)"
    using assms(1) by (intro mod_less) (auto simp: size_mod_def)
  then show False using assms lt by (simp add: size_mod_def)
qed

text \<open>A decoded message: typed attributes, at most as many bytes as the header says, all within the buffer.\<close>

definition msg_ok :: "stun_msg \<Rightarrow> bool" where
  "msg_ok m \<longleftrightarrow> mbuf_ok (s_mb m) \<and> mb_pos (s_mb m) = s_start m \<and> length (h_tid (s_hdr m)) = 12
     \<and> s_start m + 20 + unat (h_len (s_hdr m)) \<le> mb_end (s_mb m)
     \<and> hdr_of (s_hdr m) = take 20 (mb_after (s_mb m))
     \<and> list_all attr_typed (s_attrl m) \<and> attrs_size (s_attrl m) \<le> unat (h_len (s_hdr m))"

lemma msg_decode_returns:
  assumes ok: "mbuf_ok mb"
  shows "\<exists>r ua' mb'. stun_msg_decode al ua mb = Some (r, ua', mb') \<and> mbuf_ok mb' \<and> mb_pos mb' = mb_pos mb
    \<and> mb_buf mb' = mb_buf mb \<and> mb_end mb' = mb_end mb \<and> (unknown_ok ua \<longrightarrow> unknown_ok ua')
    \<and> (\<forall>m. r = Inr m \<longrightarrow> msg_ok m \<and> s_mb m = mb')"
proof -
  have rew: "mbuf_ok (m\<lparr>mb_pos := mb_pos mb\<rparr>)" if "reads mb m" for m using that ok by (auto simp: reads_def mbuf_ok_def)
  obtain x m1 where h: "stun_hdr_decode mb = (x, m1)" by fastforce
  have r1: "reads mb m1" using hdr_decode_reads(1) [OF _ h, of mb] ok by simp
  show ?thesis
  proof (cases x)
    case (Inl e)
    then show ?thesis using h r1 rew [OF r1] by (auto simp: stun_msg_decode_def reads_def)
  next
    case (Inr hdr)
    obtain al_ok m2 where a: "mem_alloc al sizeof_msg m1 = (al_ok, m2)" by fastforce
    have r2: "reads mb m2" using reads_mem_alloc [OF r1, of al sizeof_msg] a by simp
    have m2: "mb_pos m2 = mb_pos m1" "mbuf_get_left m2 = mbuf_get_left m1" using a by (auto simp: mem_alloc_def)
    note hd = hdr_decode_reads(2) [OF _ h Inr, of mb, simplified, OF ok]
    define extra where "extra = (mbuf_get_left m2 + size_mod - unat (h_len hdr)) mod size_mod"
    let ?ua = "map_option (\<lambda>_. []) ua"
    have "unknown_ok ?ua" by (cases ua) (simp_all add: unknown_ok_def)
    then obtain r ua' m3 where lp: "attrs_loop al (h_tid hdr) extra ?ua [] m2 = Some (r, ua', m3)" "reads mb m3" "unknown_ok ua'"
        and fin: "\<And>l. r = Inr l \<Longrightarrow> list_all attr_typed l \<and> mb_pos m2 + attrs_size l \<le> mb_pos m3
          \<and> (mbuf_get_left m3 + size_mod - extra) mod size_mod < 4"
      using attrs_loop_returns [OF r2, of "h_tid hdr" ?ua al extra "[]"] hd by auto
    show ?thesis
    proof (cases al_ok)
      case False
      then show ?thesis using h Inr a r2 rew [OF r2] by (auto simp: stun_msg_decode_def reads_def Let_def)
    next
      case True
      define mb' where "mb' = m3\<lparr>mb_pos := mb_pos mb\<rparr>"
      have dec: "stun_msg_decode al ua mb = (case r of Inl e \<Rightarrow> Some (Inl e, ua', mb')
          | Inr l \<Rightarrow> Some (Inr \<lparr>s_hdr = hdr, s_attrl = l, s_mb = mb', s_start = mb_pos mb\<rparr>, ua', mb'))"
        using h Inr a True lp(1) by (cases r) (simp_all add: stun_msg_decode_def Let_def extra_def [symmetric] mb'_def)
      have mb': "mbuf_ok mb'" "mb_pos mb' = mb_pos mb" "mb_buf mb' = mb_buf mb" "mb_end mb' = mb_end mb"
        using rew [OF lp(2)] lp(2) by (simp_all add: mb'_def reads_def)
      have after: "mb_after mb' = mb_after mb" using mb' by (simp add: mb_after_def mb_bytes_def)
      have room: "mb_pos mb + 20 + unat (h_len hdr) \<le> mb_end mb"
        using hd r1 unfolding reads_def mbuf_ok_def mbuf_get_left_def by (auto split: if_splits)
      have "attrs_size l \<le> unat (h_len hdr)" if l: "r = Inr l" for l
      proof -
        have L: "mbuf_get_left m2 = mb_end mb - mb_pos m2" "mbuf_get_left m3 = mb_end mb - mb_pos m3" "mb_pos m3 \<le> mb_end mb"
          using r2 lp(2) by (auto simp: reads_def mbuf_ok_def mbuf_get_left_def)
        have lt: "mb_end mb < size_mod" using ok by (auto simp: mbuf_ok_def)
        have ex: "extra = mbuf_get_left m2 - unat (h_len hdr)"
          unfolding extra_def using hd m2 L(1) lt by (intro size_diff) auto
        have "mbuf_get_left m2 - mbuf_get_left m3 \<le> unat (h_len hdr)"
          by (rule exit_bound) (use fin [OF l] ex L lt hd m2 in \<open>auto simp: size_mod_def\<close>)
        then show ?thesis using fin [OF l] L by linarith
      qed
      then have "msg_ok \<lparr>s_hdr = hdr, s_attrl = l, s_mb = mb', s_start = mb_pos mb\<rparr>" if "r = Inr l" for l
        using that fin [OF that] mb' hd after room by (simp add: msg_ok_def)
      then show ?thesis using dec mb' lp(3) by (cases r) auto
    qed
  qed
qed

lemma find_attr_size: "find_attr t l = Some a \<Longrightarrow> attr_min t \<le> attrs_size l \<and> a \<in> set l \<and> a_type a = t"
  by (induction l) (auto simp: attrs_size_def split: if_splits)

lemma find_two_size:
  "find_attr t l = Some a \<Longrightarrow> find_attr u l = Some b \<Longrightarrow> t \<noteq> u \<Longrightarrow> attr_min t + attr_min u \<le> attrs_size l"
proof (induction l)
  case (Cons x l)
  then show ?case using find_attr_size [of t l a] find_attr_size [of u l b] by (auto simp: attrs_size_def split: if_splits)
qed simp

lemma msg_ok_carries:
  assumes "msg_ok m"
  obtains pre body where "carries m pre (s_hdr m) body" and "unat (h_len (s_hdr m)) \<le> length body"
    and "pre @ hdr_of (s_hdr m) @ body = mb_all (s_mb m)"
proof
  let ?mb = "s_mb m" and ?body = "drop 20 (mb_after (s_mb m))"
  have ok: "mbuf_ok ?mb" "mb_pos ?mb = s_start m" "length (h_tid (s_hdr m)) = 12" "hdr_of (s_hdr m) = take 20 (mb_after ?mb)"
    using assms by (simp_all add: msg_ok_def)
  have whole: "hdr_of (s_hdr m) @ ?body = mb_after ?mb" using ok(4) by simp
  then show "mb_before ?mb @ hdr_of (s_hdr m) @ ?body = mb_all ?mb" using mb_all_split [OF ok(1)] by simp
  show "carries m (mb_before ?mb) (s_hdr m) ?body"
    using mbvI [OF ok(1)] ok whole by (simp add: carries_def)
  show "unat (h_len (s_hdr m)) \<le> length ?body" using assms ok(1,2) by (auto simp: msg_ok_def)
qed

text \<open>On a decoded message both checks stay in the buffer, leave its bytes alone, and can be repeated.\<close>

lemma checks_safe:
  assumes ok: "msg_ok m"
  shows "mbuf_ok (s_mb (snd (stun_msg_chk_mi al hm m k))) \<and> mb_all (s_mb (snd (stun_msg_chk_mi al hm m k))) = mb_all (s_mb m)"
    and "mbuf_ok (s_mb (snd (stun_msg_chk_fingerprint m))) \<and> mb_all (s_mb (snd (stun_msg_chk_fingerprint m))) = mb_all (s_mb m)"
proof -
  have self: "mbuf_ok (s_mb m) \<and> mb_all (s_mb m) = mb_all (s_mb m)" using ok by (simp add: msg_ok_def)
  have size: "attrs_size (s_attrl m) \<le> unat (h_len (s_hdr m))" and typed: "list_all attr_typed (s_attrl m)"
    using ok by (simp_all add: msg_ok_def)
  obtain pre body where c: "carries m pre (s_hdr m) body" "unat (h_len (s_hdr m)) \<le> length body"
      "pre @ hdr_of (s_hdr m) @ body = mb_all (s_mb m)" using msg_ok_carries [OF ok] .
  have kept: "mbuf_ok (s_mb m') \<and> mb_all (s_mb m') = mb_all (s_mb m)" if "carries m' pre (s_hdr m) body" for m'
    using that c(3) by (simp add: carries_def mbv_def)
  have ne: "STUN_ATTR_MSG_INTEGRITY \<noteq> STUN_ATTR_FINGERPRINT" by (simp add: STUN_ATTR_MSG_INTEGRITY_def STUN_ATTR_FINGERPRINT_def)
  let ?fp = "find_attr STUN_ATTR_FINGERPRINT (s_attrl m)" and ?mi = "find_attr STUN_ATTR_MSG_INTEGRITY (s_attrl m)"
  have fpv: "\<exists>x. a_v a = V_uint32 x" if "?fp = Some a" for a
    using find_attr_size [OF that] typed by (cases "a_v a") (auto simp: list_all_iff attr_typed_def kind_of_special)
  show "mbuf_ok (s_mb (snd (stun_msg_chk_fingerprint m))) \<and> mb_all (s_mb (snd (stun_msg_chk_fingerprint m))) = mb_all (s_mb m)"
  proof (cases ?fp)
    case None
    then show ?thesis using self by (simp add: stun_msg_chk_fingerprint_def)
  next
    case (Some a)
    have "8 \<le> unat (h_len (s_hdr m))" using find_attr_size [OF Some] size ne by (simp add: attr_min_def)
    then show ?thesis
      using chk_fp_exact [OF c(1) _ _ Some, of "unat (h_len (s_hdr m)) - 8"] fpv [OF Some] c(2) self by auto
  qed
  show "mbuf_ok (s_mb (snd (stun_msg_chk_mi al hm m k))) \<and> mb_all (s_mb (snd (stun_msg_chk_mi al hm m k))) = mb_all (s_mb m)"
  proof (cases ?mi)
    case None
    then show ?thesis using self by (simp add: stun_msg_chk_mi_def)
  next
    case (Some a)
    obtain x where x: "a_v a = V_msg_integrity x"
      using find_attr_size [OF Some] typed by (cases "a_v a") (auto simp: list_all_iff attr_typed_def kind_of_special)
    define n where "n = unat (h_len (s_hdr m)) - 24 - (if ?fp \<noteq> None then 8 else 0)"
    have "24 + (if ?fp \<noteq> None then 8 else 0) \<le> unat (h_len (s_hdr m))"
      using find_attr_size [OF Some] find_two_size [OF Some _ ne] size ne by (cases ?fp) (auto simp: attr_min_def)
    then have "unat (h_len (s_hdr m)) = 24 + n + (if ?fp \<noteq> None then 8 else 0)" "n \<le> length body"
      using c(2) by (simp_all add: n_def)
    from chk_mi_exact [OF c(1) this Some x refl, of al hm k] show ?thesis using kept by auto
  qed
qed

text \<open>C23: the decoder is safe on every datagram. It returns, restores the cursor, leaves the bytes alone and notes
  at most eight unknown types; a message it accepts has attributes whose values have the form their types
  ask for, and the two checks read and write within the buffer and leave its bytes as they were.
\<close>

theorem stun_decode_safe:
  assumes "mbuf_ok mb" and "unknown_ok ua"
  shows "\<exists>r ua' mb'. stun_msg_decode al ua mb = Some (r, ua', mb') \<and> mbuf_ok mb' \<and> mb_pos mb' = mb_pos mb
    \<and> mb_all mb' = mb_all mb \<and> unknown_ok ua'
    \<and> (\<forall>m. r = Inr m \<longrightarrow> list_all attr_typed (s_attrl m) \<and> attrs_size (s_attrl m) \<le> unat (h_len (s_hdr m))
        \<and> (\<forall>al2 hm k. let m' = snd (stun_msg_chk_mi al2 hm m k) in mbuf_ok (s_mb m') \<and> mb_all (s_mb m') = mb_all mb)
        \<and> (let m' = snd (stun_msg_chk_fingerprint m) in mbuf_ok (s_mb m') \<and> mb_all (s_mb m') = mb_all mb))"
proof -
  obtain r ua' mb' where d: "stun_msg_decode al ua mb = Some (r, ua', mb')" "mbuf_ok mb'" "mb_pos mb' = mb_pos mb"
      "mb_buf mb' = mb_buf mb" "mb_end mb' = mb_end mb" "unknown_ok ua'"
      and m: "\<And>m. r = Inr m \<Longrightarrow> msg_ok m \<and> s_mb m = mb'"
    using msg_decode_returns [OF assms(1), of al ua] assms(2) by blast
  have same: "mb_all mb' = mb_all mb" using d(4,5) by (simp add: mb_all_def mb_bytes_def)
  have "list_all attr_typed (s_attrl x) \<and> attrs_size (s_attrl x) \<le> unat (h_len (s_hdr x))
      \<and> (\<forall>al2 hm k. let m' = snd (stun_msg_chk_mi al2 hm x k) in mbuf_ok (s_mb m') \<and> mb_all (s_mb m') = mb_all mb)
      \<and> (let m' = snd (stun_msg_chk_fingerprint x) in mbuf_ok (s_mb m') \<and> mb_all (s_mb m') = mb_all mb)" if "r = Inr x" for x
    using checks_safe [OF conjunct1 [OF m [OF that]]] m [OF that] same by (auto simp: msg_ok_def Let_def)
  with d same show ?thesis by (intro exI [of _ r] exI [of _ ua'] exI [of _ mb']) simp
qed

theorem stun_decode_safe_witness:
  "\<exists>r ua' mb'. stun_msg_decode al_zero (Some []) (mbuf_of [0, 1, 0, 4, 0x21, 0x12, 0xa4, 0x42, 1, 2, 3, 4, 5, 6, 7, 8, 9, 10, 11, 12, 0, 0x25, 0, 0])
      = Some (r, ua', mb') \<and> mbuf_ok mb' \<and> unknown_ok ua'"
  using stun_decode_safe [OF mbuf_of_view(1), of "[0, 1, 0, 4, 0x21, 0x12, 0xa4, 0x42, 1, 2, 3, 4, 5, 6, 7, 8, 9, 10, 11, 12, 0, 0x25, 0, 0]" "Some []" al_zero]
  by (auto simp: unknown_ok_def size_mod_def)

section \<open>Deviations\<close>

text \<open>
  Bits 4 and 6 of the met are bits 5 and 7 of the type, where \<open>STUN_CLASS\<close> looks too: a request of
  such a met is taken for a response.
\<close>

lemma stun_class_confused:
  "STUN_CLASS (STUN_TYPE 0x010 STUN_CLASS_REQUEST) = STUN_CLASS_SUCCESS_RESP"
  "STUN_CLASS (STUN_TYPE 0x040 STUN_CLASS_REQUEST) = STUN_CLASS_INDICATION"
  by code_simp+

text \<open>
  The decoder of a value does not look at the length for an address, and reads less than the length for
  a port or a transport that is longer than four bytes: the rest of such a value is parsed as the next attribute.
\<close>

lemma stun_attr_smuggled:
  assumes al: "alloc_total al" and mb: "mbuf_ok mb" "mb_after mb = be16 STUN_ATTR_REQ_TRANSPORT @ be16 n @ [v, x, y, z] @ rest"
    and n: "4 \<le> unat n" "unat n \<le> 4 + length rest"
  shows "\<exists>mb'. stun_attr_decode al tid ua mb = Some (Inr \<lparr>a_type = STUN_ATTR_REQ_TRANSPORT, a_v = V_uint8 v\<rparr>, ua, mb')
    \<and> mb_after mb' = rest"
proof -
  define m0 where "m0 = mb\<lparr>mb_tick := Suc (mb_tick mb)\<rparr>"
  have m0: "mbuf_ok m0" "mb_after m0 = mb_after mb" using mb(1) by (simp_all add: m0_def mbuf_tick_ok)
  have ok: "mbuf_ok (mb_adv m0 k)" if "k \<le> 8" for k using m0 mb(2) that by (intro mbuf_ok_adv) (simp_all del: length_mb_after)
  have kind: "attr_kind_of STUN_ATTR_REQ_TRANSPORT = K_uint8" by code_simp
  have rd: "read_be16 m0 = (STUN_ATTR_REQ_TRANSPORT, mb_adv m0 2)" "read_be16 (mb_adv m0 2) = (n, mb_adv m0 4)"
      "mbuf_read_u8 (mb_adv m0 4) = (v, mb_adv m0 5)"
    using reads_at(3) [OF ok [of 0]] reads_at(3) [OF ok [of 2]] reads_at(2) [OF ok [of 4]] m0(2) mb(2) by (simp_all del: length_mb_after)
  have left: "mbuf_get_left mb \<ge> 4" "\<not> mbuf_get_left (mb_adv m0 4) < unat n"
    using mbuf_get_left_after [OF mb(1)] mbuf_get_left_after [OF ok [of 4]] m0(2) mb(2) n(2) by (simp_all del: length_mb_after)
  have "slurp_padding (mb_pos (mb_adv m0 4)) (mb_adv m0 5) = Some (mb_adv m0 8)"
    using slurp_exact [OF ok [of 5], of "mb_pos (mb_adv m0 4)"] m0(2) mb(2) by (simp add: pad_len_def del: length_mb_after)
  then show ?thesis
    using rd left n(1) kind m0(2) mb(2)
    by (simp add: stun_attr_decode_def stun_value_decode_def mem_alloc_total [OF al] flip: m0_def)
qed

end
