(* ===== verification/Stun_Ctrans.thy ===== *)
theory Stun_Ctrans
  imports Stun_Msg
begin

text \<open>
  STUN client transactions, \<open>re/src/stun/ctrans.c\<close>, the instance of \<open>stun.c\<close> and the senders of \<open>req.c\<close>,
  \<open>rep.c\<close> and \<open>ind.c\<close>.

  A transaction is a record; the list of an instance holds them in order of creation. The serial number
  \<open>ct_id\<close> stands for the address of the structure and is never used twice. A timer is the time it
  expires at, \<open>None\<close> when it is stopped. Calls of handlers and datagrams are outputs. The sockets are the
  parameter \<open>net\<close>, what their calls answer and leave of the buffer; it may answer differently in every step.
  \<open>USE_DTLS\<close> is on.
\<close>

section \<open>Instance and transactions\<close>

record stun_conf =
  rto :: u32
  rc :: u32
  rm :: u32
  ti :: u32
  tos :: u8

definition STUN_DEFAULT_RTO :: u32 where "STUN_DEFAULT_RTO = 500"
definition STUN_DEFAULT_RC :: u32 where "STUN_DEFAULT_RC = 7"
definition STUN_DEFAULT_RM :: u32 where "STUN_DEFAULT_RM = 16"
definition STUN_DEFAULT_TI :: u32 where "STUN_DEFAULT_TI = 39500"

definition conf_default :: stun_conf where
  "conf_default = \<lparr>rto = STUN_DEFAULT_RTO, rc = STUN_DEFAULT_RC, rm = STUN_DEFAULT_RM, ti = STUN_DEFAULT_TI, tos = 0\<rparr>"

definition STUN_TRANSP_UDP :: int where "STUN_TRANSP_UDP = 17"
definition STUN_TRANSP_TCP :: int where "STUN_TRANSP_TCP = 6"
definition STUN_TRANSP_DTLS :: int where "STUN_TRANSP_DTLS = 7"

record ctrans =
  ct_id :: nat
  ct_tmr :: "u64 option"
  ct_dst :: sa
  ct_tid :: "byte list"
  ct_ctp :: bool
  ct_key :: "byte list option"
  ct_sock :: bool
  ct_mb :: mbuf
  ct_pos :: nat
  ct_resph :: bool
  ct_proto :: int
  ct_txc :: u32
  ct_ival :: u32
  ct_met :: u16

record stun =
  st_ctl :: "ctrans list"
  st_conf :: stun_conf
  st_indh :: bool
  st_next :: nat

text \<open>
  \<open>Begun\<close> and \<open>Dropped\<close> mark the start of a transaction and its release by the owner, \<open>Cleared\<close> is
  \<open>*ctp = NULL\<close>, \<open>Resp\<close> and \<open>Ind\<close> are calls of handlers.
\<close>

datatype stun_out =
    Begun nat bool
  | Sent nat "byte list"
  | Cleared nat
  | Resp nat "errno option" u16 "byte list option" "stun_msg option"
  | Dropped nat
  | Ind stun_msg

record net =
  n_udp_listen :: "errno option"
  n_udp_send :: "sa \<Rightarrow> mbuf \<Rightarrow> errno option \<times> mbuf"
  n_tcp_connect :: "sa option \<Rightarrow> errno option"
  n_tcp_send :: "mbuf \<Rightarrow> errno option \<times> mbuf"
  n_dtls_send :: "mbuf \<Rightarrow> errno option \<times> mbuf"

definition sizeof_stun :: nat where "sizeof_stun = 44"

definition stun_alloc :: "alloc \<Rightarrow> stun_conf option \<Rightarrow> bool \<Rightarrow> errno + stun" where
  "stun_alloc al conf indh =
     (case al 0 sizeof_stun of
        None \<Rightarrow> Inl ENOMEM
      | Some _ \<Rightarrow> Inr \<lparr>st_ctl = [], st_conf = (case conf of Some c \<Rightarrow> c | None \<Rightarrow> conf_default), st_indh = indh, st_next = 0\<rparr>)"

definition stun_send :: "net \<Rightarrow> int \<Rightarrow> bool \<Rightarrow> sa \<Rightarrow> mbuf \<Rightarrow> errno option \<times> mbuf" where
  "stun_send net proto sock dst mb =
     (if \<not> sock then (Some EINVAL, mb)
      else if proto = STUN_TRANSP_UDP then n_udp_send net dst mb
      else if proto = STUN_TRANSP_TCP then n_tcp_send net mb
      else if proto = STUN_TRANSP_DTLS then n_dtls_send net mb
      else (Some EPROTONOSUPPORT, mb))"

text \<open>A datagram leaves if the call succeeds: the bytes from the cursor to the end.\<close>

definition sent :: "nat \<Rightarrow> mbuf \<Rightarrow> errno option \<Rightarrow> stun_out list" where
  "sent k mb err = (if err = None then [Sent k (mb_after mb)] else [])"

section \<open>Completion and retransmission\<close>

definition ctl_remove :: "nat \<Rightarrow> stun \<Rightarrow> stun" where
  "ctl_remove k st = st\<lparr>st_ctl := filter (\<lambda>ct. ct_id ct \<noteq> k) (st_ctl st)\<rparr>"

definition ctl_put :: "ctrans \<Rightarrow> stun \<Rightarrow> stun" where
  "ctl_put ct st = st\<lparr>st_ctl := map (\<lambda>c. if ct_id c = ct_id ct then ct else c) (st_ctl st)\<rparr>"

definition completed ::
  "ctrans \<Rightarrow> errno option \<Rightarrow> u16 \<Rightarrow> byte list option \<Rightarrow> stun_msg option \<Rightarrow> stun \<Rightarrow> stun \<times> stun_out list" where
  "completed ct err scode reason msg st =
     (ctl_remove (ct_id ct) st,
      (if ct_ctp ct then [Cleared (ct_id ct)] else [])
        @ (if ct_resph ct then [Resp (ct_id ct) err scode reason msg] else []))"

definition timeout_handler :: "net \<Rightarrow> u64 \<Rightarrow> ctrans \<Rightarrow> stun \<Rightarrow> stun \<times> stun_out list" where
  "timeout_handler net now ct st =
     (let cfg = st_conf st;
          over = ct_txc ct \<ge> rc cfg;
          ct = ct\<lparr>ct_txc := ct_txc ct + 1\<rparr>
      in if over then completed ct (Some ETIMEDOUT) 0 None None st
         else
           (let mb = (ct_mb ct)\<lparr>mb_pos := ct_pos ct\<rparr> in
            case stun_send net (ct_proto ct) (ct_sock ct) (ct_dst ct) mb of
              (Some e, mb') \<Rightarrow> completed ct (Some e) 0 None None st
            | (None, mb') \<Rightarrow>
                (let ival = (if ct_txc ct \<ge> rc cfg then rto cfg * rm cfg else ct_ival ct * 2) in
                 (ctl_put (ct\<lparr>ct_mb := mb', ct_ival := ival, ct_tmr := Some (now + ucast ival)\<rparr>) st,
                  sent (ct_id ct) mb None))))"

text \<open>\<open>tmr_poll\<close> stops a timer that has expired and calls its handler.\<close>

definition ctrans_expire :: "net \<Rightarrow> u64 \<Rightarrow> nat \<Rightarrow> stun \<Rightarrow> stun \<times> stun_out list" where
  "ctrans_expire net now k st =
     (case find (\<lambda>ct. ct_id ct = k) (st_ctl st) of
        None \<Rightarrow> (st, [])
      | Some ct \<Rightarrow>
          (case ct_tmr ct of
             None \<Rightarrow> (st, [])
           | Some t \<Rightarrow> if now < t then (st, []) else timeout_handler net now (ct\<lparr>ct_tmr := None\<rparr>) st))"

definition tcp_estab_handler :: "net \<Rightarrow> ctrans \<Rightarrow> stun \<Rightarrow> stun \<times> stun_out list" where
  "tcp_estab_handler net ct st =
     (case n_tcp_send net (ct_mb ct) of
        (None, mb) \<Rightarrow> (ctl_put (ct\<lparr>ct_mb := mb\<rparr>) st, sent (ct_id ct) (ct_mb ct) None)
      | (Some e, mb) \<Rightarrow> completed ct (Some e) 0 None None st)"

definition tcp_close_handler :: "errno option \<Rightarrow> ctrans \<Rightarrow> stun \<Rightarrow> stun \<times> stun_out list" where
  "tcp_close_handler err ct st = completed ct err 0 None None st"

text \<open>The destructor, run when the owner releases the transaction.\<close>

definition ctrans_destructor :: "ctrans \<Rightarrow> stun \<Rightarrow> stun \<times> stun_out list" where
  "ctrans_destructor ct st = (ctl_remove (ct_id ct) st, [Dropped (ct_id ct)])"

fun close_loop :: "ctrans list \<Rightarrow> stun \<Rightarrow> stun \<times> stun_out list" where
  "close_loop [] st = (st, [])"
| "close_loop (ct # cts) st =
     (case completed ct (Some ECONNABORTED) 0 None None st of (st, out) \<Rightarrow>
        (case close_loop cts st of (st, out') \<Rightarrow> (st, out @ out')))"

definition stun_ctrans_close :: "stun \<Rightarrow> stun \<times> stun_out list" where
  "stun_ctrans_close st = close_loop (st_ctl st) st"

section \<open>Receiving\<close>

definition match_handler :: "stun_msg \<Rightarrow> ctrans \<Rightarrow> bool" where
  "match_handler msg ct \<longleftrightarrow> ct_met ct = stun_msg_method (Some msg) \<and> stun_msg_tid (Some msg) = Some (ct_tid ct)"

definition reason_ok :: "byte list" where "reason_ok = [0x4f, 0x4b, 0]"

definition err_code_of :: "stun_attr \<Rightarrow> u16 \<times> byte list option" where
  "err_code_of a = (case a_v a of V_err_code code reason \<Rightarrow> (code, reason) | _ \<Rightarrow> (0, None))"

text \<open>\<open>herr\<close> and \<open>ec\<close> from the error code attribute; an error response without one is a protocol error.\<close>

definition resp_code :: "stun_msg \<Rightarrow> errno option \<times> u16 \<times> byte list option" where
  "resp_code msg =
     (if stun_msg_class (Some msg) = STUN_CLASS_ERROR_RESP then
        (case stun_msg_attr (Some msg) STUN_ATTR_ERR_CODE of
           None \<Rightarrow> (Some EPROTO, 0, Some reason_ok)
         | Some errcode \<Rightarrow> (None, err_code_of errcode))
      else (None, 0, Some reason_ok))"

text \<open>The inner switch: the integrity is not asked of a challenge.\<close>

definition resp_check :: "alloc \<Rightarrow> hmac \<Rightarrow> u16 \<Rightarrow> ctrans \<Rightarrow> stun_msg \<Rightarrow> errno option \<times> stun_msg" where
  "resp_check al hm code ct msg =
     (if code = 401 \<or> code = 438 then (None, msg)
      else (case ct_key ct of None \<Rightarrow> (None, msg) | Some key \<Rightarrow> stun_msg_chk_mi al hm msg key))"

definition stun_ctrans_recv ::
  "alloc \<Rightarrow> hmac \<Rightarrow> stun \<Rightarrow> stun_msg \<Rightarrow> u16 list \<Rightarrow> errno option \<times> stun \<times> stun_out list" where
  "stun_ctrans_recv al hm st msg ua =
     (let cls = stun_msg_class (Some msg) in
      if cls \<noteq> STUN_CLASS_ERROR_RESP \<and> cls \<noteq> STUN_CLASS_SUCCESS_RESP then (None, st, [])
      else
        (case resp_code msg of (herr, code, reason) \<Rightarrow>
           (case find (match_handler msg) (st_ctl st) of
              None \<Rightarrow> (Some ENOENT, st, [])
            | Some ct \<Rightarrow>
                (case resp_check al hm code ct msg of (err, msg) \<Rightarrow>
                   if err \<noteq> None then (err, st, [])
                   else (None, completed ct (if herr = None \<and> ua \<noteq> [] then Some EPROTO else herr) code reason (Some msg) st)))))"

definition stun_recv :: "alloc \<Rightarrow> hmac \<Rightarrow> stun \<Rightarrow> mbuf \<Rightarrow> (errno option \<times> stun \<times> stun_out list) option" where
  "stun_recv al hm st mb =
     (case stun_msg_decode al (Some []) mb of
        None \<Rightarrow> None
      | Some (Inl e, ua, mb) \<Rightarrow> Some (Some e, st, [])
      | Some (Inr msg, ua, mb) \<Rightarrow>
          (let cls = stun_msg_class (Some msg); ua = (case ua of Some ts \<Rightarrow> ts | None \<Rightarrow> []) in
           if cls = STUN_CLASS_INDICATION then
             Some (None, st, if ua \<noteq> [] then [] else if st_indh st then [Ind msg] else [])
           else if cls = STUN_CLASS_ERROR_RESP \<or> cls = STUN_CLASS_SUCCESS_RESP then
             Some (stun_ctrans_recv al hm st msg ua)
           else Some (None, st, [])))"

text \<open>The receive handlers of the sockets a transaction opens by itself.\<close>

definition udp_recv_handler :: "alloc \<Rightarrow> hmac \<Rightarrow> sa \<Rightarrow> mbuf \<Rightarrow> stun \<Rightarrow> (stun \<times> stun_out list) option" where
  "udp_recv_handler al hm src mb st = map_option snd (stun_recv al hm st mb)"

definition tcp_recv_handler :: "alloc \<Rightarrow> hmac \<Rightarrow> mbuf \<Rightarrow> stun \<Rightarrow> (stun \<times> stun_out list) option" where
  "tcp_recv_handler al hm mb st = map_option snd (stun_recv al hm st mb)"

section \<open>Sending\<close>

definition sizeof_ctrans :: nat where "sizeof_ctrans = 148"

text \<open>The switch over the transport.\<close>

definition ctrans_start :: "net \<Rightarrow> u64 \<Rightarrow> stun_conf \<Rightarrow> bool \<Rightarrow> sa option \<Rightarrow> ctrans \<Rightarrow> errno option \<times> ctrans \<times> stun_out list" where
  "ctrans_start net now cfg sock dst ct =
     (if ct_proto ct = STUN_TRANSP_UDP then
        (case dst of
           None \<Rightarrow> (Some EINVAL, ct, [])
         | Some d \<Rightarrow>
             (let ct = ct\<lparr>ct_dst := d, ct_ival := rto cfg, ct_tmr := Some (now + ucast (rto cfg))\<rparr> in
              case (if sock then None else n_udp_listen net) of
                Some e \<Rightarrow> (Some e, ct, [])
              | None \<Rightarrow>
                  (case n_udp_send net d (ct_mb ct) of (err, mb) \<Rightarrow>
                     (err, ct\<lparr>ct_sock := True, ct_txc := 1, ct_mb := mb\<rparr>, sent (ct_id ct) (ct_mb ct) err))))
      else if ct_proto ct = STUN_TRANSP_TCP then
        (let ct = ct\<lparr>ct_txc := rc cfg, ct_tmr := Some (now + ucast (ti cfg))\<rparr> in
         if sock then
           (case n_tcp_send net (ct_mb ct) of (err, mb) \<Rightarrow> (err, ct\<lparr>ct_mb := mb\<rparr>, sent (ct_id ct) (ct_mb ct) err))
         else (n_tcp_connect net dst, ct\<lparr>ct_sock := True\<rparr>, []))
      else if ct_proto ct = STUN_TRANSP_DTLS then
        (if \<not> sock then (Some EINVAL, ct, [])
         else
           (let ct = ct\<lparr>ct_ival := rto cfg, ct_tmr := Some (now + ucast (rto cfg)), ct_txc := 1\<rparr> in
            case n_dtls_send net (ct_mb ct) of (err, mb) \<Rightarrow> (err, ct\<lparr>ct_mb := mb\<rparr>, sent (ct_id ct) (ct_mb ct) err)))
      else (Some EPROTONOSUPPORT, ct, []))"

definition ctrans_zero :: ctrans where
  "ctrans_zero = \<lparr>ct_id = 0, ct_tmr = None, ct_dst = sa_init AF_UNSPEC, ct_tid = replicate 12 0, ct_ctp = False, ct_key = None,
     ct_sock = False, ct_mb = mbuf_zero, ct_pos = 0, ct_resph = False, ct_proto = 0, ct_txc = 0, ct_ival = 0, ct_met = 0\<rparr>"

text \<open>
  The transaction is put into the list first and taken out again by the destructor when something
  fails; nothing looks at the list in between, so it is appended at the end here.
\<close>

definition stun_ctrans_request ::
  "alloc \<Rightarrow> net \<Rightarrow> u64 \<Rightarrow> stun \<Rightarrow> int \<Rightarrow> bool \<Rightarrow> sa option \<Rightarrow> mbuf \<Rightarrow> byte list \<Rightarrow> u16 \<Rightarrow> byte list option \<Rightarrow> bool \<Rightarrow> bool
    \<Rightarrow> errno option \<times> stun \<times> stun_out list" where
  "stun_ctrans_request al net now st proto sock dst mb tid met key resph ctp =
     (case mem_alloc al sizeof_ctrans mb of (ok, mb) \<Rightarrow>
        if \<not> ok then (Some ENOMEM, st, [])
        else
          (let ct = ctrans_zero\<lparr>ct_id := st_next st, ct_tid := tid, ct_proto := proto, ct_sock := sock, ct_mb := mb,
                 ct_pos := mb_pos mb, ct_met := met\<rparr>;
               (ok, mb) = (case key of None \<Rightarrow> (True, mb) | Some k \<Rightarrow> mem_alloc al (length k) mb)
           in if \<not> ok then (Some ENOMEM, st, [])
              else
                (case ctrans_start net now (st_conf st) sock dst (ct\<lparr>ct_key := key, ct_mb := mb\<rparr>) of (err, ct, out) \<Rightarrow>
                   if err \<noteq> None then (err, st, [])
                   else (None, st\<lparr>st_ctl := st_ctl st @ [ct\<lparr>ct_ctp := ctp, ct_resph := resph\<rparr>], st_next := Suc (st_next st)\<rparr>,
                         Begun (st_next st) resph # out))))"

definition stun_request ::
  "alloc \<Rightarrow> hmac \<Rightarrow> net \<Rightarrow> u64 \<Rightarrow> byte list \<Rightarrow> stun \<Rightarrow> int \<Rightarrow> bool \<Rightarrow> sa option \<Rightarrow> nat \<Rightarrow> u16 \<Rightarrow> byte list option \<Rightarrow> bool \<Rightarrow> bool \<Rightarrow> bool
    \<Rightarrow> (u16 \<times> stun_val option) list \<Rightarrow> (errno option \<times> stun \<times> stun_out list) option" where
  "stun_request al hm net now tid st proto sock dst presz met key fp resph ctp avs =
     (case mbuf_alloc al 512 of
        None \<Rightarrow> Some (Some ENOMEM, st, [])
      | Some mb \<Rightarrow>
          (case stun_msg_vencode al hm met STUN_CLASS_REQUEST tid None key fp 0 avs (mb\<lparr>mb_pos := presz\<rparr>) of
             None \<Rightarrow> None
           | Some (Some e, mb) \<Rightarrow> Some (Some e, st, [])
           | Some (None, mb) \<Rightarrow>
               Some (stun_ctrans_request al net now st proto sock dst (mb\<lparr>mb_pos := presz\<rparr>) tid met key resph ctp)))"

text \<open>A message that is sent once; the result holds the error and the bytes that left.\<close>

definition send_message ::
  "alloc \<Rightarrow> hmac \<Rightarrow> net \<Rightarrow> int \<Rightarrow> sa \<Rightarrow> nat \<Rightarrow> nat \<Rightarrow> u16 \<Rightarrow> u16 \<Rightarrow> byte list \<Rightarrow> (u16 \<times> byte list option) option \<Rightarrow> byte list option \<Rightarrow> bool
    \<Rightarrow> (u16 \<times> stun_val option) list \<Rightarrow> (errno option \<times> byte list option) option" where
  "send_message al hm net proto dst sz presz met cls tid ec key fp avs =
     (case mbuf_alloc al sz of
        None \<Rightarrow> Some (Some ENOMEM, None)
      | Some mb \<Rightarrow>
          (case stun_msg_vencode al hm met cls tid ec key fp 0 avs (mb\<lparr>mb_pos := presz\<rparr>) of
             None \<Rightarrow> None
           | Some (Some e, mb) \<Rightarrow> Some (Some e, None)
           | Some (None, mb) \<Rightarrow>
               (case stun_send net proto True dst (mb\<lparr>mb_pos := presz\<rparr>) of (err, _) \<Rightarrow>
                  Some (err, if err = None then Some (mb_after (mb\<lparr>mb_pos := presz\<rparr>)) else None))))"

definition stun_reply ::
  "alloc \<Rightarrow> hmac \<Rightarrow> net \<Rightarrow> int \<Rightarrow> bool \<Rightarrow> sa \<Rightarrow> nat \<Rightarrow> stun_msg option \<Rightarrow> byte list option \<Rightarrow> bool
    \<Rightarrow> (u16 \<times> stun_val option) list \<Rightarrow> (errno option \<times> byte list option) option" where
  "stun_reply al hm net proto sock dst presz req key fp avs =
     (case req of
        Some m \<Rightarrow>
          if \<not> sock then Some (Some EINVAL, None)
          else send_message al hm net proto dst 256 presz (stun_msg_method req) STUN_CLASS_SUCCESS_RESP (h_tid (s_hdr m)) None key fp avs
      | None \<Rightarrow> Some (Some EINVAL, None))"

definition stun_ereply ::
  "alloc \<Rightarrow> hmac \<Rightarrow> net \<Rightarrow> int \<Rightarrow> bool \<Rightarrow> sa \<Rightarrow> nat \<Rightarrow> stun_msg option \<Rightarrow> u16 \<Rightarrow> byte list option \<Rightarrow> byte list option \<Rightarrow> bool
    \<Rightarrow> (u16 \<times> stun_val option) list \<Rightarrow> (errno option \<times> byte list option) option" where
  "stun_ereply al hm net proto sock dst presz req scode reason key fp avs =
     (case req of
        Some m \<Rightarrow>
          if \<not> sock \<or> scode = 0 \<or> reason = None then Some (Some EINVAL, None)
          else send_message al hm net proto dst 256 presz (stun_msg_method req) STUN_CLASS_ERROR_RESP (h_tid (s_hdr m))
                 (Some (scode, reason)) key fp avs
      | None \<Rightarrow> Some (Some EINVAL, None))"

definition stun_indication ::
  "alloc \<Rightarrow> hmac \<Rightarrow> net \<Rightarrow> byte list \<Rightarrow> int \<Rightarrow> bool \<Rightarrow> sa \<Rightarrow> nat \<Rightarrow> u16 \<Rightarrow> byte list option \<Rightarrow> bool
    \<Rightarrow> (u16 \<times> stun_val option) list \<Rightarrow> (errno option \<times> byte list option) option" where
  "stun_indication al hm net tid proto sock dst presz met key fp avs =
     (if \<not> sock then Some (Some EINVAL, None)
      else send_message al hm net proto dst 2048 presz met STUN_CLASS_INDICATION tid None key fp avs)"

section \<open>The instance as a machine\<close>

text \<open>
  A step is a call of the user, a packet, an event of a socket or a timer that has run out. Memory,
  sockets and clock may behave differently in every step.
\<close>

inductive stun_step :: "stun \<Rightarrow> stun_out list \<Rightarrow> stun \<Rightarrow> bool" where
  request: "stun_request al hm net now tid st proto sock dst presz met key fp resph ctp avs = Some (err, st', out) \<Longrightarrow> stun_step st out st'"
| recv: "stun_recv al hm st mb = Some (err, st', out) \<Longrightarrow> stun_step st out st'"
| expire: "ctrans_expire net now k st = (st', out) \<Longrightarrow> stun_step st out st'"
| estab: "ct \<in> set (st_ctl st) \<Longrightarrow> tcp_estab_handler net ct st = (st', out) \<Longrightarrow> stun_step st out st'"
| closed: "ct \<in> set (st_ctl st) \<Longrightarrow> tcp_close_handler err ct st = (st', out) \<Longrightarrow> stun_step st out st'"
| release: "ct \<in> set (st_ctl st) \<Longrightarrow> ctrans_destructor ct st = (st', out) \<Longrightarrow> stun_step st out st'"
| close: "stun_ctrans_close st = (st', out) \<Longrightarrow> stun_step st out st'"

definition stun_init :: "stun \<times> stun_out list \<Rightarrow> bool" where
  "stun_init s \<longleftrightarrow> snd s = [] \<and> (\<exists>al conf indh. stun_alloc al conf indh = Inr (fst s))"

definition stun_next :: "stun \<times> stun_out list \<Rightarrow> stun_out list \<Rightarrow> stun \<times> stun_out list \<Rightarrow> bool" where
  "stun_next s out t \<longleftrightarrow> stun_step (fst s) out (fst t) \<and> snd t = snd s @ out"

text \<open>The states an instance reaches, with all outputs so far.\<close>

definition stun_run :: "stun \<Rightarrow> stun_out list \<Rightarrow> bool" where
  "stun_run st tr \<longleftrightarrow> reachable stun_init stun_next (st, tr)"

lemma run_start: "stun_alloc al conf indh = Inr st \<Longrightarrow> stun_run st []"
  unfolding stun_run_def by (rule reach_init) (simp add: stun_init_def, blast)

lemma run_more: "stun_run st tr \<Longrightarrow> stun_step st out st' \<Longrightarrow> stun_run st' (tr @ out)"
  unfolding stun_run_def by (erule reach_step) (simp add: stun_next_def)

abbreviation ids :: "stun \<Rightarrow> nat list" where
  "ids st \<equiv> map ct_id (st_ctl st)"

fun about :: "stun_out \<Rightarrow> nat option" where
  "about (Begun k r) = Some k"
| "about (Sent k bs) = Some k"
| "about (Cleared k) = Some k"
| "about (Resp k err scode reason msg) = Some k"
| "about (Dropped k) = Some k"
| "about (Ind m) = None"

fun ends :: "nat \<Rightarrow> stun_out \<Rightarrow> bool" where
  "ends k (Resp j err scode reason msg) \<longleftrightarrow> j = k"
| "ends k (Dropped j) \<longleftrightarrow> j = k"
| "ends k _ \<longleftrightarrow> False"

text \<open>Nothing about a transaction comes after its end.\<close>

fun final :: "stun_out list \<Rightarrow> bool" where
  "final [] \<longleftrightarrow> True"
| "final (e # es) \<longleftrightarrow> (\<forall>k. ends k e \<longrightarrow> (\<forall>e' \<in> set es. about e' \<noteq> Some k)) \<and> final es"

text \<open>What a step promises of the list and the outputs.\<close>

definition step_ok :: "stun \<Rightarrow> stun_out list \<Rightarrow> stun \<Rightarrow> bool" where
  "step_ok st out st' \<longleftrightarrow>
     distinct (ids st') \<and> st_next st \<le> st_next st' \<and> (\<forall>k \<in> set (ids st'). k < st_next st')
     \<and> set (ids st') \<subseteq> set (ids st) \<union> {st_next st..<st_next st'}
     \<and> (\<forall>e \<in> set out. \<forall>k. about e = Some k \<longrightarrow> k \<in> set (ids st) \<union> {st_next st..<st_next st'} \<and> (ends k e \<longrightarrow> k \<notin> set (ids st')))
     \<and> final out
     \<and> (\<forall>ct \<in> set (st_ctl st'). ct_tmr ct \<noteq> None)
     \<and> (\<forall>k. Begun k True \<in> set out \<longrightarrow> (\<exists>ct \<in> set (st_ctl st'). ct_id ct = k \<and> ct_resph ct))
     \<and> (\<forall>ct \<in> set (st_ctl st). ct_resph ct \<longrightarrow> (\<exists>ct' \<in> set (st_ctl st'). ct_id ct' = ct_id ct \<and> ct_resph ct') \<or> (\<exists>e \<in> set out. ends (ct_id ct) e))"

definition ctl_ok :: "stun \<Rightarrow> bool" where
  "ctl_ok st \<longleftrightarrow> distinct (ids st) \<and> (\<forall>k \<in> set (ids st). k < st_next st) \<and> (\<forall>ct \<in> set (st_ctl st). ct_tmr ct \<noteq> None)"

lemma step_okD:
  assumes "step_ok st out st'"
  shows "e \<in> set out \<Longrightarrow> about e = Some k \<Longrightarrow> k \<in> set (ids st) \<or> st_next st \<le> k \<and> k < st_next st'"
    and "e \<in> set out \<Longrightarrow> about e = Some k \<Longrightarrow> ends k e \<Longrightarrow> k \<notin> set (ids st')"
    and "k \<in> set (ids st') \<Longrightarrow> k \<in> set (ids st) \<or> st_next st \<le> k"
    and "Begun k True \<in> set out \<Longrightarrow> \<exists>ct \<in> set (st_ctl st'). ct_id ct = k \<and> ct_resph ct"
    and "ct \<in> set (st_ctl st) \<Longrightarrow> ct_resph ct \<Longrightarrow>
      (\<exists>ct' \<in> set (st_ctl st'). ct_id ct' = ct_id ct \<and> ct_resph ct') \<or> (\<exists>e \<in> set out. ends (ct_id ct) e)"
  using assms unfolding step_ok_def by (auto simp only: Un_iff atLeastLessThan_iff subset_iff)

lemma final_append:
  "final (xs @ ys) \<longleftrightarrow> final xs \<and> final ys \<and> (\<forall>e \<in> set xs. \<forall>k. ends k e \<longrightarrow> (\<forall>e' \<in> set ys. about e' \<noteq> Some k))"
  by (induction xs) auto

lemma ends_about: "ends k e \<Longrightarrow> about e = Some k"
  by (cases e) auto

lemma ids_remove [simp]: "ids (ctl_remove k st) = filter (\<lambda>j. j \<noteq> k) (ids st)" "st_next (ctl_remove k st) = st_next st"
  "st_ctl (ctl_remove k st) = filter (\<lambda>ct. ct_id ct \<noteq> k) (st_ctl st)" "st_conf (ctl_remove k st) = st_conf st"
  by (simp_all add: ctl_remove_def filter_map comp_def)

lemma ids_put [simp]: "ids (ctl_put ct st) = ids st" "st_next (ctl_put ct st) = st_next st" "st_conf (ctl_put ct st) = st_conf st"
  by (simp_all add: ctl_put_def)

lemma step_none: "ctl_ok st \<Longrightarrow> step_ok st [] st"
  by (auto simp: step_ok_def ctl_ok_def)

lemma step_ind: "ctl_ok st \<Longrightarrow> step_ok st [Ind m] st"
  by (auto simp: step_ok_def ctl_ok_def)

lemma ids_inj: "ctl_ok st \<Longrightarrow> ct \<in> set (st_ctl st) \<Longrightarrow> c \<in> set (st_ctl st) \<Longrightarrow> ct_id c = ct_id ct \<Longrightarrow> c = ct"
  unfolding ctl_ok_def by (metis distinct_map inj_onD)

lemma completed_out:
  assumes "completed ct err scode reason msg st = (st', out)"
  shows "st' = ctl_remove (ct_id ct) st" and "set out \<subseteq> {Cleared (ct_id ct), Resp (ct_id ct) err scode reason msg}" and "final out"
    and "ct_resph ct \<Longrightarrow> Resp (ct_id ct) err scode reason msg \<in> set out"
  using assms by (auto simp: completed_def split: if_splits)

lemma step_remove:
  assumes ok: "ctl_ok st" and c: "c \<in> set (st_ctl st)" and st': "st' = ctl_remove (ct_id c) st" and fin: "final out"
    and out: "\<forall>e \<in> set out. about e = Some (ct_id c) \<and> (\<forall>r. e \<noteq> Begun (ct_id c) r)"
    and gone: "ct_resph c \<Longrightarrow> \<exists>e \<in> set out. ends (ct_id c) e"
  shows "step_ok st out st'"
  unfolding step_ok_def
proof (intro conjI)
  show "\<forall>d \<in> set (st_ctl st). ct_resph d \<longrightarrow> (\<exists>d' \<in> set (st_ctl st'). ct_id d' = ct_id d \<and> ct_resph d') \<or> (\<exists>e \<in> set out. ends (ct_id d) e)"
  proof (intro ballI impI)
    fix d
    assume d: "d \<in> set (st_ctl st)" "ct_resph d"
    show "(\<exists>d' \<in> set (st_ctl st'). ct_id d' = ct_id d \<and> ct_resph d') \<or> (\<exists>e \<in> set out. ends (ct_id d) e)"
    proof (cases "ct_id d = ct_id c")
      case True
      then show ?thesis using ids_inj [OF ok c d(1)] gone d(2) by simp
    next
      case False
      then show ?thesis using d st' by auto
    qed
  qed
  show "\<forall>k. Begun k True \<in> set out \<longrightarrow> (\<exists>ct \<in> set (st_ctl st'). ct_id ct = k \<and> ct_resph ct)" using out by fastforce
  show "\<forall>e \<in> set out. \<forall>k. about e = Some k \<longrightarrow> k \<in> set (ids st) \<union> {st_next st..<st_next st'} \<and> (ends k e \<longrightarrow> k \<notin> set (ids st'))"
    using out c st' by auto
qed (use ok st' fin in \<open>auto simp: ctl_ok_def distinct_map inj_on_def\<close>)

lemma step_completed:
  assumes ok: "ctl_ok st" and c: "c \<in> set (st_ctl st)" and ct: "ct_id ct = ct_id c" "ct_resph ct = ct_resph c"
    and r: "completed ct err scode reason msg st = (st', out)"
  shows "step_ok st out st'"
  using completed_out [OF r] ct by (intro step_remove [OF ok c]) (auto intro: bexI [of _ "Resp (ct_id c) err scode reason msg"])

lemma step_put:
  assumes ok: "ctl_ok st" and c: "c \<in> set (st_ctl st)" and ct: "ct_id ct = ct_id c" "ct_resph ct = ct_resph c" "ct_tmr ct \<noteq> None"
  shows "step_ok st (sent (ct_id c) mb err) (ctl_put ct st)"
  unfolding step_ok_def
proof (intro conjI)
  have "\<exists>d' \<in> set (st_ctl (ctl_put ct st)). ct_id d' = ct_id d \<and> ct_resph d'" if d: "d \<in> set (st_ctl st)" "ct_resph d" for d
  proof (cases "ct_id d = ct_id c")
    case True
    then show ?thesis using ids_inj [OF ok c d(1)] d ct c by (auto simp: ctl_put_def)
  next
    case False
    then have "d \<in> set (st_ctl (ctl_put ct st))" using d(1) ct(1) by (auto simp: ctl_put_def)
    then show ?thesis using d(2) by blast
  qed
  then show "\<forall>d \<in> set (st_ctl st). ct_resph d \<longrightarrow> (\<exists>d' \<in> set (st_ctl (ctl_put ct st)). ct_id d' = ct_id d \<and> ct_resph d')
      \<or> (\<exists>e \<in> set (sent (ct_id c) mb err). ends (ct_id d) e)" by blast
  show "\<forall>d \<in> set (st_ctl (ctl_put ct st)). ct_tmr d \<noteq> None" using ok ct(3) by (auto simp: ctl_put_def ctl_ok_def)
qed (use ok c in \<open>simp_all only: ids_put\<close>, auto simp: ctl_ok_def sent_def)

lemma step_begin:
  assumes ok: "ctl_ok st" and ct: "ct_id ct = st_next st" "ct_tmr ct \<noteq> None" "ct_resph ct = resph"
    and out: "\<forall>e \<in> set out. \<exists>bs. e = Sent (st_next st) bs"
  shows "step_ok st (Begun (st_next st) resph # out) (st\<lparr>st_ctl := st_ctl st @ [ct], st_next := Suc (st_next st)\<rparr>)"
proof -
  have "final out" using out by (induction out) auto
  then show ?thesis using ok ct out by (fastforce simp: step_ok_def ctl_ok_def)
qed

lemma find_id: "find P l = Some x \<Longrightarrow> x \<in> set l \<and> P x"
  by (auto simp: find_Some_iff)

lemma step_timeout:
  assumes "ctl_ok st" and "c \<in> set (st_ctl st)" and "ct_id ct = ct_id c" "ct_resph ct = ct_resph c"
    and "timeout_handler net now ct st = (st', out)"
  shows "step_ok st out st'"
proof (cases "ct_txc ct \<ge> rc (st_conf st)")
  case True
  then show ?thesis using assms(5) by (intro step_completed [OF assms(1,2)]) (simp_all add: timeout_handler_def assms)
next
  case False
  obtain e mb' where "stun_send net (ct_proto ct) (ct_sock ct) (ct_dst ct) ((ct_mb ct)\<lparr>mb_pos := ct_pos ct\<rparr>) = (e, mb')" by fastforce
  with False assms show ?thesis
  proof (cases e)
    case None
    then show ?thesis
      using step_put [OF assms(1,2), of "ct\<lparr>ct_txc := ct_txc ct + 1, ct_mb := mb', ct_ival := i, ct_tmr := Some t\<rparr>" for i t]
        \<open>stun_send _ _ _ _ _ = _\<close> False assms(3-5) by (auto simp: timeout_handler_def Let_def)
  next
    case (Some x)
    then show ?thesis using \<open>stun_send _ _ _ _ _ = _\<close> False assms(3-5)
      by (intro step_completed [OF assms(1,2), of "ct\<lparr>ct_txc := ct_txc ct + 1\<rparr>"]) (auto simp: timeout_handler_def Let_def)
  qed
qed

lemma recv_cases:
  assumes "stun_ctrans_recv al hm st msg ua = (err, st', out)"
  obtains (Quiet) "st' = st" "out = []"
  | (Done) ct herr code reason msg' where "ct \<in> set (st_ctl st)" "match_handler msg ct" "resp_code msg = (herr, code, reason)"
      "resp_check al hm code ct msg = (None, msg')" "err = None"
      "completed ct (if herr = None \<and> ua \<noteq> [] then Some EPROTO else herr) code reason (Some msg') st = (st', out)"
      "stun_msg_class (Some msg) = STUN_CLASS_ERROR_RESP \<or> stun_msg_class (Some msg) = STUN_CLASS_SUCCESS_RESP"
proof -
  obtain herr code reason where rc: "resp_code msg = (herr, code, reason)" by (cases "resp_code msg")
  show thesis
  proof (cases "find (match_handler msg) (st_ctl st)")
    case None
    then show thesis using assms rc Quiet by (simp add: stun_ctrans_recv_def Let_def split: if_splits)
  next
    case (Some ct)
    obtain e m where ck: "resp_check al hm code ct msg = (e, m)" by fastforce
    then show thesis using assms rc Some Quiet Done [OF _ _ rc, of ct m] find_id [OF Some]
      by (cases e) (auto simp: stun_ctrans_recv_def Let_def split: if_splits)
  qed
qed

lemma step_recv:
  assumes ok: "ctl_ok st" and r: "stun_ctrans_recv al hm st msg ua = (err, st', out)"
  shows "step_ok st out st'"
  using r
proof (cases rule: recv_cases)
  case Quiet
  then show ?thesis using step_none [OF ok] by simp
next
  case Done
  then show ?thesis using step_completed [OF ok _ refl refl] by blast
qed

lemma close_loop_out:
  "close_loop cts st = (st', out) \<Longrightarrow>
     st_ctl st' = filter (\<lambda>ct. ct_id ct \<notin> ct_id ` set cts) (st_ctl st) \<and> st_next st' = st_next st \<and> st_conf st' = st_conf st
     \<and> (\<forall>e \<in> set out. \<exists>ct \<in> set cts. about e = Some (ct_id ct) \<and> (\<forall>k r. e \<noteq> Begun k r))
     \<and> (\<forall>ct \<in> set cts. ct_resph ct \<longrightarrow> (\<exists>e \<in> set out. ends (ct_id ct) e))
     \<and> (distinct (map ct_id cts) \<longrightarrow> final out)"
proof (induction cts arbitrary: st out)
  case (Cons c cts)
  obtain s o1 o2 where c: "completed c (Some ECONNABORTED) 0 None None st = (s, o1)" and l: "close_loop cts s = (st', o2)" and out: "out = o1 @ o2"
    using Cons.prems by (auto split: prod.splits)
  note o = completed_out [OF c] and ih = Cons.IH [OF l]
  have "final out" if "distinct (map ct_id (c # cts))"
    unfolding out final_append
  proof (intro conjI ballI allI impI)
    fix e e' k
    assume e: "e \<in> set o1" "ends k e" "e' \<in> set o2"
    then have "k = ct_id c" using o(2) by auto
    moreover obtain ct where "ct \<in> set cts" "about e' = Some (ct_id ct)" using ih e(3) by blast
    moreover have "ct_id c \<noteq> ct_id ct" using that imageI [OF \<open>ct \<in> set cts\<close>, of ct_id] by auto
    ultimately show "about e' \<noteq> Some k" by simp
  qed (use o(3) ih that in auto)
  moreover have "st_ctl st' = filter (\<lambda>ct. ct_id ct \<notin> ct_id ` set (c # cts)) (st_ctl st)"
    using ih o(1) by (auto simp: filter_filter intro!: filter_cong)
  moreover have "\<forall>e \<in> set out. \<exists>ct \<in> set (c # cts). about e = Some (ct_id ct) \<and> (\<forall>k r. e \<noteq> Begun k r)"
  proof
    fix e
    assume "e \<in> set out"
    then consider "e \<in> set o1" | "e \<in> set o2" by (auto simp: out)
    then show "\<exists>ct \<in> set (c # cts). about e = Some (ct_id ct) \<and> (\<forall>k r. e \<noteq> Begun k r)"
    proof cases
      case 1
      then show ?thesis using o(2) by auto
    next
      case 2
      then show ?thesis using ih by (meson list.set_intros(2))
    qed
  qed
  moreover have "\<exists>e \<in> set out. ends (ct_id c) e" if "ct_resph c" using o(4) [OF that] by (intro bexI [of _ "Resp (ct_id c) (Some ECONNABORTED) 0 None None"]) (simp_all add: out)
  ultimately show ?case using ih o(1) by (auto simp: out)
qed simp

lemma step_close:
  assumes ok: "ctl_ok st" and r: "stun_ctrans_close st = (st', out)"
  shows "step_ok st out st' \<and> st_ctl st' = []"
proof -
  note l = close_loop_out [OF r [unfolded stun_ctrans_close_def]]
  have "st_ctl st' = []" using l by (auto simp: filter_empty_conv)
  moreover have "\<forall>k. Begun k True \<notin> set out" using l by blast
  moreover have "k \<in> set (ids st)" if "e \<in> set out" "about e = Some k" for e k using l that by force
  ultimately show ?thesis using l ok by (simp add: step_ok_def ctl_ok_def)
qed

lemma start_out:
  assumes "ctrans_start net now cfg sock dst ct = (err, ct', out)"
  shows "ct_id ct' = ct_id ct" and "\<forall>e \<in> set out. \<exists>bs. e = Sent (ct_id ct) bs" and "err = None \<Longrightarrow> ct_tmr ct' \<noteq> None"
    and "ct_key ct' = ct_key ct" and "ct_tid ct' = ct_tid ct" and "ct_met ct' = ct_met ct"
  using assms by (auto simp: ctrans_start_def sent_def Let_def split: if_splits option.splits prod.splits)

lemma step_request:
  assumes ok: "ctl_ok st" and r: "stun_ctrans_request al net now st proto sock dst mb tid met key resph ctp = (err, st', out)"
  shows "step_ok st out st'"
proof (cases err)
  case None
  then obtain ct ct' out' where s: "ctrans_start net now (st_conf st) sock dst ct = (None, ct', out')" and ct: "ct_id ct = st_next st"
      and st': "st' = st\<lparr>st_ctl := st_ctl st @ [ct'\<lparr>ct_ctp := ctp, ct_resph := resph\<rparr>], st_next := Suc (st_next st)\<rparr>"
      and out: "out = Begun (st_next st) resph # out'"
    using r by (auto simp: stun_ctrans_request_def Let_def split: prod.splits if_splits option.splits)
  show ?thesis unfolding st' out using start_out(1-3) [OF s] ct by (intro step_begin [OF ok]) simp_all
next
  case (Some e)
  then show ?thesis using r step_none [OF ok]
    by (auto simp: stun_ctrans_request_def Let_def split: prod.splits if_splits option.splits)
qed

lemma step_all:
  assumes "stun_step st out st'" and "ctl_ok st"
  shows "step_ok st out st'"
  using assms
proof (cases rule: stun_step.cases)
  case (request al hm net now tid proto sock dst presz met key fp resph ctp avs err)
  then show ?thesis using step_none [OF assms(2)] step_request [OF assms(2)]
    by (auto simp: stun_request_def split: option.splits prod.splits)
next
  case (recv al hm mb err)
  then show ?thesis using step_none [OF assms(2)] step_ind [OF assms(2)] step_recv [OF assms(2)]
    by (auto simp: stun_recv_def Let_def split: option.splits prod.splits sum.splits if_splits)
next
  case (expire net now k)
  then show ?thesis using step_none [OF assms(2)] step_timeout [OF assms(2), of _ "c\<lparr>ct_tmr := None\<rparr>" for c] find_id
    by (fastforce simp: ctrans_expire_def split: option.splits if_splits)
next
  case (estab ct net)
  obtain t where "ct_tmr ct = Some t" using assms(2) estab(1) by (auto simp: ctl_ok_def)
  then show ?thesis using estab step_put [OF assms(2) estab(1), of "ct\<lparr>ct_mb := m\<rparr>" for m] step_completed [OF assms(2) estab(1) refl refl]
    by (auto simp: tcp_estab_handler_def split: option.splits prod.splits)
next
  case (closed ct err)
  then show ?thesis using step_completed [OF assms(2) closed(1) refl refl] by (simp add: tcp_close_handler_def)
next
  case (release ct)
  then show ?thesis using step_remove [OF assms(2) release(1)] by (auto simp: ctrans_destructor_def)
next
  case close
  then show ?thesis using step_close [OF assms(2)] by simp
qed

text \<open>Kept by every step: the list, and what the outputs so far say of it.\<close>

definition run_ok :: "stun \<Rightarrow> stun_out list \<Rightarrow> bool" where
  "run_ok st tr \<longleftrightarrow> ctl_ok st \<and> final tr \<and> (\<forall>e \<in> set tr. \<forall>k. about e = Some k \<longrightarrow> k < st_next st)
     \<and> (\<forall>e \<in> set tr. \<forall>k. ends k e \<longrightarrow> k \<notin> set (ids st))
     \<and> (\<forall>k. Begun k True \<in> set tr \<longrightarrow> (\<exists>ct \<in> set (st_ctl st). ct_id ct = k \<and> ct_resph ct) \<or> (\<exists>e \<in> set tr. ends k e))"

lemma run_step:
  assumes ok: "run_ok st tr" and step: "step_ok st out st'"
  shows "run_ok st' (tr @ out)"
  unfolding run_ok_def
proof (intro conjI)
  have c: "ctl_ok st" and mono: "st_next st \<le> st_next st'" and bound: "\<forall>k \<in> set (ids st). k < st_next st"
    using ok step by (auto simp: run_ok_def step_ok_def ctl_ok_def)
  show "ctl_ok st'" using step by (simp add: step_ok_def ctl_ok_def)
  show "final (tr @ out)"
    unfolding final_append
  proof (intro conjI ballI allI impI)
    fix e e' k
    assume e: "e \<in> set tr" "ends k e" "e' \<in> set out"
    have "k < st_next st" "k \<notin> set (ids st)" using ok e(1,2) ends_about [OF e(2)] by (auto simp: run_ok_def)
    then show "about e' \<noteq> Some k" using step_okD(1) [OF step e(3)] by fastforce
  qed (use ok step in \<open>auto simp: run_ok_def step_ok_def\<close>)
  have out: "k < st_next st'" if "e \<in> set out" "about e = Some k" for e k
  proof -
    from step_okD(1) [OF step that] show ?thesis using bound mono by fastforce
  qed
  show "\<forall>e \<in> set (tr @ out). \<forall>k. about e = Some k \<longrightarrow> k < st_next st'"
    using ok mono out unfolding run_ok_def by (metis Un_iff order_less_le_trans set_append)
  show "\<forall>e \<in> set (tr @ out). \<forall>k. ends k e \<longrightarrow> k \<notin> set (ids st')"
  proof (intro ballI allI impI)
    fix e k
    assume e: "e \<in> set (tr @ out)" "ends k e"
    show "k \<notin> set (ids st')"
    proof (cases "e \<in> set out")
      case True
      then show ?thesis using step_okD(2) [OF step] e(2) ends_about [OF e(2)] by blast
    next
      case False
      then have "k < st_next st" "k \<notin> set (ids st)" using ok e ends_about [OF e(2)] by (auto simp: run_ok_def)
      then show ?thesis using step_okD(3) [OF step] by fastforce
    qed
  qed
  show "\<forall>k. Begun k True \<in> set (tr @ out) \<longrightarrow>
      (\<exists>ct \<in> set (st_ctl st'). ct_id ct = k \<and> ct_resph ct) \<or> (\<exists>e \<in> set (tr @ out). ends k e)"
  proof (intro allI impI)
    fix k
    assume "Begun k True \<in> set (tr @ out)"
    then consider (new) "Begun k True \<in> set out" | (ended) e where "e \<in> set tr" "ends k e"
      | (pending) ct where "ct \<in> set (st_ctl st)" "ct_id ct = k" "ct_resph ct"
      using ok unfolding run_ok_def by (metis Un_iff set_append)
    then show "(\<exists>ct \<in> set (st_ctl st'). ct_id ct = k \<and> ct_resph ct) \<or> (\<exists>e \<in> set (tr @ out). ends k e)"
    proof cases
      case new
      then show ?thesis using step_okD(4) [OF step] by blast
    next
      case ended
      then show ?thesis by auto
    next
      case pending
      then show ?thesis using step_okD(5) [OF step] by fastforce
    qed
  qed
qed

lemma alloc_empty: "stun_alloc al conf indh = Inr st \<Longrightarrow> st_ctl st = []"
  by (auto simp: stun_alloc_def split: option.splits)

interpretation stun_m: machine stun_init stun_next "\<lambda>s. run_ok (fst s) (snd s)"
proof
  fix s
  assume "stun_init s"
  then have "st_ctl (fst s) = []" "snd s = []" by (auto simp: stun_init_def dest: alloc_empty)
  then show "run_ok (fst s) (snd s)" by (simp add: run_ok_def ctl_ok_def)
next
  fix s out t
  assume ok: "run_ok (fst s) (snd s)" and "stun_next s out t"
  then have step: "stun_step (fst s) out (fst t)" and t: "snd t = snd s @ out" by (simp_all add: stun_next_def)
  from ok have "ctl_ok (fst s)" by (simp add: run_ok_def)
  from run_step [OF ok step_all [OF step this]] show "run_ok (fst t) (snd t)" by (simp only: t)
qed

lemma run_invariant: "stun_run st tr \<Longrightarrow> run_ok st tr"
  using stun_m.reachable_inv [of "(st, tr)"] by (simp add: stun_run_def)

lemma final_split: "final (xs @ e # ys) \<Longrightarrow> ends k e \<Longrightarrow> e' \<in> set ys \<Longrightarrow> about e' \<noteq> Some k"
  by (simp add: final_append)

section \<open>Retransmission\<close>

text \<open>A transaction left to its timer: what happens at which time, for the next \<open>n\<close> expirations.\<close>

primrec fire :: "net \<Rightarrow> nat \<Rightarrow> nat \<Rightarrow> stun \<Rightarrow> (u64 \<times> stun_out) list" where
  "fire net 0 k st = []"
| "fire net (Suc n) k st =
     (case find (\<lambda>ct. ct_id ct = k) (st_ctl st) of
        None \<Rightarrow> []
      | Some ct \<Rightarrow>
          (case ct_tmr ct of
             None \<Rightarrow> []
           | Some t \<Rightarrow> (case ctrans_expire net t k st of (st', out) \<Rightarrow> map (Pair t) out @ fire net n k st')))"

text \<open>A UDP socket that sends and leaves the bytes of the buffer alone.\<close>

definition net_ok :: "net \<Rightarrow> bool" where
  "net_ok net \<longleftrightarrow> (\<forall>d m. fst (n_udp_send net d m) = None \<and> (snd (n_udp_send net d m))\<lparr>mb_pos := mb_pos m\<rparr> = m)"

lemma net_okD: "net_ok net \<Longrightarrow> \<exists>m'. n_udp_send net d m = (None, m') \<and> m'\<lparr>mb_pos := mb_pos m\<rparr> = m"
  unfolding net_ok_def by (metis prod.collapse)

text \<open>The list holds one transaction with the serial number, a UDP one that has sent \<open>j\<close> times.\<close>

definition pending :: "nat \<Rightarrow> byte list \<Rightarrow> bool \<Rightarrow> bool \<Rightarrow> nat \<Rightarrow> u32 \<Rightarrow> u64 \<Rightarrow> stun \<Rightarrow> bool" where
  "pending k bs ctp resph j i t st \<longleftrightarrow>
     (\<exists>ct. find (\<lambda>c. ct_id c = k) (st_ctl st) = Some ct \<and> ct_proto ct = STUN_TRANSP_UDP \<and> ct_sock ct
        \<and> mb_after ((ct_mb ct)\<lparr>mb_pos := ct_pos ct\<rparr>) = bs \<and> ct_ctp ct = ctp \<and> ct_resph ct = resph
        \<and> ct_txc ct = of_nat j \<and> ct_ival ct = i \<and> ct_tmr ct = Some t)"

definition completion :: "nat \<Rightarrow> bool \<Rightarrow> bool \<Rightarrow> errno option \<Rightarrow> stun_out list" where
  "completion k ctp resph err = (if ctp then [Cleared k] else []) @ (if resph then [Resp k err 0 None None] else [])"

lemma find_put:
  "find (\<lambda>c. ct_id c = k) l = Some c \<Longrightarrow> ct_id ct = k \<Longrightarrow>
    find (\<lambda>c. ct_id c = k) (map (\<lambda>c. if ct_id c = ct_id ct then ct else c) l) = Some ct"
  by (induction l) (auto split: if_splits)

lemma find_removed: "find (\<lambda>c. ct_id c = k) (filter (\<lambda>c. ct_id c \<noteq> k) l) = None"
  by (simp add: find_None_iff)

lemma unat_u32: "n < 2 ^ 32 \<Longrightarrow> unat (of_nat n :: u32) = n"
  by (simp add: unsigned_of_nat take_bit_nat_eq_self)

lemma fire_send:
  assumes net: "net_ok net" and p: "pending k bs ctp resph j i t st" and j: "j < unat (rc (st_conf st))"
    and i': "i' = (if Suc j \<ge> unat (rc (st_conf st)) then rto (st_conf st) * rm (st_conf st) else i * 2)"
  shows "\<exists>st'. fire net (Suc n) k st = (t, Sent k bs) # fire net n k st' \<and> pending k bs ctp resph (Suc j) i' (t + ucast i') st'
    \<and> st_conf st' = st_conf st"
proof -
  obtain ct where f: "find (\<lambda>c. ct_id c = k) (st_ctl st) = Some ct" and ct: "ct_proto ct = STUN_TRANSP_UDP" "ct_sock ct"
      "mb_after ((ct_mb ct)\<lparr>mb_pos := ct_pos ct\<rparr>) = bs" "ct_ctp ct = ctp" "ct_resph ct = resph"
      "ct_txc ct = of_nat j" "ct_ival ct = i" "ct_tmr ct = Some t"
    using p by (auto simp: pending_def)
  have k: "ct_id ct = k" using find_id [OF f] by simp
  let ?m = "(ct_mb ct)\<lparr>mb_pos := ct_pos ct\<rparr>"
  obtain m where m: "n_udp_send net (ct_dst ct) ?m = (None, m)" "m\<lparr>mb_pos := ct_pos ct\<rparr> = ?m"
    using net_okD [OF net, of "ct_dst ct" ?m] by auto
  have "Suc j < 2 ^ 32" using j unsigned_less [of "rc (st_conf st)", where ?'a = nat] by simp
  then have txc: "\<not> rc (st_conf st) \<le> of_nat j" "rc (st_conf st) \<le> of_nat j + 1 \<longleftrightarrow> unat (rc (st_conf st)) \<le> Suc j"
    using j unat_u32 [of j] unat_u32 [of "Suc j"] by (simp_all add: word_le_nat_alt add.commute)
  define ct' where "ct' = ct\<lparr>ct_txc := of_nat (Suc j), ct_mb := m, ct_ival := i', ct_tmr := Some (t + ucast i')\<rparr>"
  have "ctrans_expire net t k st = (ctl_put ct' st, [Sent k bs])"
    using f ct m txc k i' by (simp add: ctrans_expire_def timeout_handler_def stun_send_def Let_def sent_def ct'_def add.commute)
  then have "fire net (Suc n) k st = (t, Sent k bs) # fire net n k (ctl_put ct' st)" using f ct(8) by simp
  moreover have "pending k bs ctp resph (Suc j) i' (t + ucast i') (ctl_put ct' st)"
    unfolding pending_def
  proof (intro exI conjI)
    have id': "ct_id ct' = k" by (simp add: ct'_def k)
    show "find (\<lambda>c. ct_id c = k) (st_ctl (ctl_put ct' st)) = Some ct'" using find_put [OF f id'] id' by (simp add: ctl_put_def)
  qed (use ct m(2) in \<open>simp_all add: ct'_def\<close>)
  ultimately show ?thesis by (intro exI [of _ "ctl_put ct' st"]) simp
qed

lemma fire_none: "find (\<lambda>ct. ct_id ct = k) (st_ctl st) = None \<Longrightarrow> fire net n k st = []"
  by (cases n) simp_all

lemma fire_end:
  assumes p: "pending k bs ctp resph j i t st" and j: "j = unat (rc (st_conf st))"
  shows "fire net (Suc n) k st = map (Pair t) (completion k ctp resph (Some ETIMEDOUT))"
proof -
  obtain ct where f: "find (\<lambda>c. ct_id c = k) (st_ctl st) = Some ct" and ct: "ct_ctp ct = ctp" "ct_resph ct = resph"
      "ct_txc ct = of_nat j" "ct_tmr ct = Some t"
    using p by (auto simp: pending_def)
  have k: "ct_id ct = k" using find_id [OF f] by simp
  have "ctrans_expire net t k st = (ctl_remove k st, completion k ctp resph (Some ETIMEDOUT))"
    using f ct j k by (simp add: ctrans_expire_def timeout_handler_def completed_def completion_def)
  moreover have "fire net n k (ctl_remove k st) = []" by (rule fire_none) (simp add: find_removed)
  ultimately show ?thesis using f ct(4) by simp
qed

lemma ucast_of_nat: "n < 2 ^ 32 \<Longrightarrow> ucast (of_nat n :: u32) = (of_nat n :: u64)"
  by (simp add: unsigned_of_nat take_bit_nat_eq_self)

lemma fire_schedule:
  assumes net: "net_ok net" and cfg: "R = unat (rto (st_conf st))" "C = unat (rc (st_conf st))" "M = unat (rm (st_conf st))"
    and fits: "R * 2 ^ (C - 2) < 2 ^ 32" "R * M < 2 ^ 32"
    and p: "pending k bs ctp resph j (of_nat (R * 2 ^ (j - 1))) t st" and j: "1 \<le> j" "j < C" and n: "C - j < n"
  shows "fire net n k st = map (\<lambda>i. (t + of_nat (R * (2 ^ i - 2 ^ j)), Sent k bs)) [j..<C]
    @ map (Pair (t + of_nat (R * (2 ^ (C - 1) - 2 ^ j) + R * M))) (completion k ctp resph (Some ETIMEDOUT))"
  using p j n cfg fits
proof (induction "C - j" arbitrary: j t n st)
  case (Suc d)
  obtain n' where n': "n = Suc n'" using Suc.prems by (cases n) auto
  let ?i = "if Suc j \<ge> C then rto (st_conf st) * rm (st_conf st) else of_nat (R * 2 ^ (j - 1)) * 2"
  obtain st' where f: "fire net n k st = (t, Sent k bs) # fire net n' k st'"
      and p': "pending k bs ctp resph (Suc j) ?i (t + ucast ?i) st'" and same: "st_conf st' = st_conf st"
    using fire_send [OF net Suc.prems(1), of ?i n'] Suc.prems n' by auto
  have jC: "[j..<C] = j # [Suc j..<C]" using Suc.prems by (simp add: upt_conv_Cons)
  show ?case
  proof (cases "Suc j = C")
    case True
    have "?i = of_nat (R * M)" using True Suc.prems by simp
    then have u: "ucast ?i = (of_nat (R * M) :: u64)" using ucast_of_nat [of "R * M"] Suc.prems by simp
    obtain n2 where "n' = Suc n2" using Suc.prems(4) n' True by (cases n') auto
    then have "fire net n' k st' = map (Pair (t + of_nat (R * M))) (completion k ctp resph (Some ETIMEDOUT))"
      using fire_end [OF p', of net n2] u True same Suc.prems by simp
    moreover have "C - 1 = j" using True by simp
    ultimately show ?thesis using f jC True by simp
  next
    case False
    have pw: "2 ^ (j - 1) * 2 = (2 :: nat) ^ j" using Suc.prems(2) by (cases j) simp_all
    have "2 ^ j \<le> (2 :: nat) ^ (C - 2)" using False Suc.prems by (intro power_increasing) auto
    then have lt: "R * 2 ^ j < 2 ^ 32" using Suc.prems(8) by (meson mult_le_mono2 le_less_trans)
    have "of_nat (R * 2 ^ (j - 1)) * 2 = (of_nat (R * 2 ^ (j - 1) * 2) :: u32)" by simp
    then have i: "?i = of_nat (R * 2 ^ (Suc j - 1))" using False Suc.prems pw by (simp add: mult.assoc del: of_nat_mult of_nat_power)
    have u: "ucast (of_nat (R * 2 ^ (Suc j - 1)) :: u32) = (of_nat (R * 2 ^ j) :: u64)" using ucast_of_nat [OF lt] by simp
    have shift: "t + of_nat (R * 2 ^ j) + of_nat (R * (2 ^ l - 2 ^ Suc j) + c) = t + (of_nat (R * (2 ^ l - 2 ^ j) + c) :: u64)"
      if "j < l" for l c
    proof -
      have "2 ^ Suc j \<le> (2 :: nat) ^ l" using that by (intro power_increasing) auto
      then have "R * 2 ^ j + (R * (2 ^ l - 2 ^ Suc j) + c) = R * (2 ^ l - 2 ^ j) + c" by (simp flip: add.assoc distrib_left)
      then show ?thesis by (metis add.assoc of_nat_add)
    qed
    have "fire net n' k st' = map (\<lambda>l. (t + of_nat (R * 2 ^ j) + of_nat (R * (2 ^ l - 2 ^ Suc j)), Sent k bs)) [Suc j..<C]
      @ map (Pair (t + of_nat (R * 2 ^ j) + of_nat (R * (2 ^ (C - 1) - 2 ^ Suc j) + R * M))) (completion k ctp resph (Some ETIMEDOUT))"
      using Suc.hyps(2) Suc.prems False n' same by (intro Suc.hyps(1) p' [unfolded i u]) auto
    then show ?thesis using f jC shift [of "C - 1" "R * M"] shift [of _ 0] Suc.prems(3) False by simp
  qed
qed simp

lemma request_pending:
  assumes st: "ctl_ok st" and net: "net_ok net"
    and r: "stun_ctrans_request al net now st STUN_TRANSP_UDP sock (Some dst) mb tid met key resph ctp = (None, st', out)"
  shows "out = [Begun (st_next st) resph, Sent (st_next st) (mb_after mb)]" and "st_conf st' = st_conf st"
    and "pending (st_next st) (mb_after mb) ctp resph 1 (rto (st_conf st)) (now + ucast (rto (st_conf st))) st'"
proof -
  obtain ct where ct: "ct_id ct = st_next st" "ct_proto ct = STUN_TRANSP_UDP" "mb_after (ct_mb ct) = mb_after mb" "ct_pos ct = mb_pos (ct_mb ct)"
    and s: "(case ctrans_start net now (st_conf st) sock (Some dst) ct of (err, ct, out) \<Rightarrow>
        if err \<noteq> None then (err, st, [])
        else (None, st\<lparr>st_ctl := st_ctl st @ [ct\<lparr>ct_ctp := ctp, ct_resph := resph\<rparr>], st_next := Suc (st_next st)\<rparr>, Begun (st_next st) resph # out))
      = (None, st', out)"
  proof -
    define mb1 where "mb1 = (case key of None \<Rightarrow> mb\<lparr>mb_tick := Suc (mb_tick mb)\<rparr> | Some k \<Rightarrow> mb\<lparr>mb_tick := Suc (Suc (mb_tick mb))\<rparr>)"
    show thesis
      by (rule that [of "ctrans_zero\<lparr>ct_id := st_next st, ct_tid := tid, ct_proto := STUN_TRANSP_UDP, ct_sock := sock, ct_mb := mb1,
             ct_pos := mb_pos mb, ct_met := met, ct_key := key\<rparr>"])
         (use r in \<open>auto simp: mb1_def mb_after_def mb_bytes_def ctrans_zero_def stun_ctrans_request_def mem_alloc_def Let_def
            split: if_splits option.splits\<close>)
  qed
  obtain m where m: "n_udp_send net dst (ct_mb ct) = (None, m)" "m\<lparr>mb_pos := mb_pos (ct_mb ct)\<rparr> = ct_mb ct"
    using net_okD [OF net] by blast
  define ct' where "ct' = ct\<lparr>ct_dst := dst, ct_ival := rto (st_conf st), ct_tmr := Some (now + ucast (rto (st_conf st))), ct_sock := True,
    ct_txc := 1, ct_mb := m, ct_ctp := ctp, ct_resph := resph\<rparr>"
  have res: "st' = st\<lparr>st_ctl := st_ctl st @ [ct'], st_next := Suc (st_next st)\<rparr> \<and> out = [Begun (st_next st) resph, Sent (st_next st) (mb_after mb)]"
    using s ct m by (auto simp: ctrans_start_def ct'_def sent_def Let_def split: if_splits option.splits)
  then show "out = [Begun (st_next st) resph, Sent (st_next st) (mb_after mb)]" and "st_conf st' = st_conf st" by simp_all
  have "find (\<lambda>c. ct_id c = st_next st) (st_ctl st) = None" using st by (fastforce simp: find_None_iff ctl_ok_def)
  then show "pending (st_next st) (mb_after mb) ctp resph 1 (rto (st_conf st)) (now + ucast (rto (st_conf st))) st'"
    unfolding pending_def using res ct m(2) by (intro exI [of _ ct']) (simp add: find_append ct'_def)
qed

text \<open>C14: The retransmission schedule. With a configuration of at least two transmissions (\<open>rc \<ge> 2\<close>) whose
  longest interval and final wait, \<open>rto * 2 ^ (rc - 2)\<close> and \<open>rto * rm\<close>, fit in 32 bits, and a network that
  accepts every packet, a UDP request that gets no response is sent at once and again after \<open>2 ^ i - 1\<close> times
  \<open>rto\<close> for every \<open>i\<close> from 1 below \<open>rc\<close>, always with the same bytes; \<open>rto\<close> times \<open>rm\<close> after the last of these
  it is completed with \<open>ETIMEDOUT\<close>, once, and nothing more happens. (With \<open>rc = 1\<close> the code waits for one
  \<open>rto\<close> only.)\<close>

theorem ctrans_schedule:
  assumes run: "stun_run st tr" and net: "net_ok net"
    and cfg: "R = unat (rto (st_conf st))" "C = unat (rc (st_conf st))" "M = unat (rm (st_conf st))"
    and fits: "2 \<le> C" "R * 2 ^ (C - 2) < 2 ^ 32" "R * M < 2 ^ 32"
    and req: "stun_ctrans_request al net now st STUN_TRANSP_UDP sock (Some dst) mb tid met key True ctp = (None, st', out)"
    and k: "k = st_next st" and n: "C \<le> n"
  shows "out = [Begun k True, Sent k (mb_after mb)]
    \<and> fire net n k st' = map (\<lambda>i. (now + of_nat (R * (2 ^ i - 1)), Sent k (mb_after mb))) [1..<C]
        @ map (Pair (now + of_nat (R * (2 ^ (C - 1) - 1) + R * M))) ((if ctp then [Cleared k] else []) @ [Resp k (Some ETIMEDOUT) 0 None None])"
proof -
  have ok: "ctl_ok st" using run_invariant [OF run] by (simp add: run_ok_def)
  note p = request_pending [OF ok net req]
  have cfg': "R = unat (rto (st_conf st'))" "C = unat (rc (st_conf st'))" "M = unat (rm (st_conf st'))" by (simp_all only: cfg p(2))
  have R: "rto (st_conf st) = of_nat (R * 2 ^ (1 - 1))" using cfg by simp
  have "ucast (rto (st_conf st)) = (of_nat R :: u64)" using cfg(1) by (simp add: unsigned_ucast_eq)
  with p(3) R k have pend: "pending k (mb_after mb) ctp True 1 (of_nat (R * 2 ^ (1 - 1))) (now + of_nat R) st'" by (simp only:)
  have shift: "now + of_nat R + of_nat (R * (2 ^ l - 2 ^ 1) + c) = now + (of_nat (R * (2 ^ l - 1) + c) :: u64)" if "1 \<le> l" for l c
  proof -
    have "(2 :: nat) \<le> 2 ^ l" using power_increasing [OF that, of "2 :: nat"] by simp
    then obtain q where "2 ^ l = (2 + q :: nat)" by (auto simp: le_iff_add)
    then have "R + (R * (2 ^ l - 2 ^ 1) + c) = R * (2 ^ l - 1) + c" by (simp add: algebra_simps)
    then show ?thesis by (metis add.assoc of_nat_add)
  qed
  have "fire net n k st' = map (\<lambda>i. (now + of_nat R + of_nat (R * (2 ^ i - 2 ^ 1)), Sent k (mb_after mb))) [1..<C]
    @ map (Pair (now + of_nat R + of_nat (R * (2 ^ (C - 1) - 2 ^ 1) + R * M))) (completion k ctp True (Some ETIMEDOUT))"
    by (rule fire_schedule [OF net cfg' fits(2,3) pend]) (use fits(1) n in \<open>simp_all del: power.simps\<close>)
  then show ?thesis using p(1) k shift [of _ 0] shift [of "C - 1" "R * M"] fits(1) by (simp add: completion_def)
qed

text \<open>A network that takes everything, and a new instance.\<close>

definition net_example :: net where
  "net_example = \<lparr>n_udp_listen = None, n_udp_send = (\<lambda>d m. (None, m)), n_tcp_connect = (\<lambda>d. None), n_tcp_send = (\<lambda>m. (None, m)),
     n_dtls_send = (\<lambda>m. (None, m))\<rparr>"

definition stun_example :: stun where
  "stun_example = \<lparr>st_ctl = [], st_conf = conf_default, st_indh = False, st_next = 0\<rparr>"

lemma net_example_ok: "net_ok net_example"
  by (simp add: net_ok_def net_example_def)

lemma stun_example_run: "stun_run stun_example []"
  by (rule run_start [of al_zero None False]) (simp add: stun_alloc_def al_zero_def stun_example_def)

theorem ctrans_schedule_witness:
  "\<exists>st' out. stun_ctrans_request al_zero net_example 1000 stun_example STUN_TRANSP_UDP True (Some (sa_set_in 1 3478)) (mbuf_of [1, 2]) (replicate 12 7)
        STUN_METHOD_BINDING None True False = (None, st', out)
    \<and> out = [Begun 0 True, Sent 0 [1, 2]]
    \<and> fire net_example 7 0 st' = [(1500, Sent 0 [1, 2]), (2500, Sent 0 [1, 2]), (4500, Sent 0 [1, 2]), (8500, Sent 0 [1, 2]),
        (16500, Sent 0 [1, 2]), (32500, Sent 0 [1, 2]), (40500, Resp 0 (Some ETIMEDOUT) 0 None None)]"
proof -
  let ?req = "stun_ctrans_request al_zero net_example 1000 stun_example STUN_TRANSP_UDP True (Some (sa_set_in 1 3478)) (mbuf_of [1, 2]) (replicate 12 7)
        STUN_METHOD_BINDING None True False"
  obtain st' out where req: "?req = (None, st', out)"
    by (simp add: stun_ctrans_request_def mem_alloc_total [OF al_zero_total] ctrans_start_def ctrans_zero_def net_example_def Let_def)
  have cfg: "500 = unat (rto (st_conf stun_example))" "7 = unat (rc (st_conf stun_example))" "16 = unat (rm (st_conf stun_example))"
    by (simp_all add: stun_example_def conf_default_def STUN_DEFAULT_RTO_def STUN_DEFAULT_RC_def STUN_DEFAULT_RM_def)
  have k: "0 = st_next stun_example" by (simp add: stun_example_def)
  from ctrans_schedule [OF stun_example_run net_example_ok cfg _ _ _ req k, of 7] req mbuf_of_view(2) [of "[1, 2]"]
  show ?thesis by (simp add: upt_rec)
qed

end
