(* ===== verification/Stun_Session.thy ===== *)
theory Stun_Session
  imports Stun_Ctrans
begin

text \<open>
  What the transactions of \<open>Stun_Ctrans\<close> give their users, over the message codec of \<open>Stun_Msg\<close>: who can
  complete a transaction (\<open>ctrans_authentic\<close>), and a request, its reply and the completion end to end.
  It models no source of its own.
\<close>

section \<open>Authentication\<close>

text \<open>The bytes a message integrity code covers: header with the length up to the code, and \<open>n\<close> bytes of the body.\<close>

definition covered :: "stun_hdr \<Rightarrow> nat \<Rightarrow> byte list \<Rightarrow> byte list" where
  "covered hdr n bs = hdr_of (hdr\<lparr>h_len := of_nat (24 + n)\<rparr>) @ take n (drop 20 bs)"

lemma chk_mi_accepts:
  assumes ok: "msg_ok m" and chk: "stun_msg_chk_mi al hm m k = (None, m')"
  shows "\<exists>a n. find_attr STUN_ATTR_MSG_INTEGRITY (s_attrl m) = Some a \<and> 24 + n \<le> unat (h_len (s_hdr m))
    \<and> a_v a = V_msg_integrity (take 20 (hm k (covered (s_hdr m) n (mb_after (s_mb m)))))"
proof -
  let ?fp = "find_attr STUN_ATTR_FINGERPRINT (s_attrl m)"
  have ne: "STUN_ATTR_MSG_INTEGRITY \<noteq> STUN_ATTR_FINGERPRINT" by (simp add: STUN_ATTR_MSG_INTEGRITY_def STUN_ATTR_FINGERPRINT_def)
  have typed: "list_all attr_typed (s_attrl m)" and size: "attrs_size (s_attrl m) \<le> unat (h_len (s_hdr m))" using ok by (simp_all add: msg_ok_def)
  obtain pre body where c: "carries m pre (s_hdr m) body" "unat (h_len (s_hdr m)) \<le> length body"
    using msg_ok_carries [OF ok] by blast
  obtain a where a: "find_attr STUN_ATTR_MSG_INTEGRITY (s_attrl m) = Some a"
    using chk by (cases "find_attr STUN_ATTR_MSG_INTEGRITY (s_attrl m)") (auto simp: stun_msg_chk_mi_def)
  obtain x where x: "a_v a = V_msg_integrity x"
    using find_attr_size [OF a] typed by (cases "a_v a") (auto simp: list_all_iff attr_typed_def kind_of_special)
  define n where "n = unat (h_len (s_hdr m)) - 24 - (if ?fp \<noteq> None then 8 else 0)"
  have "24 + (if ?fp \<noteq> None then 8 else 0) \<le> unat (h_len (s_hdr m))"
    using find_attr_size [OF a] find_two_size [OF a _ ne] size ne by (cases ?fp) (auto simp: attr_min_def)
  then have n: "unat (h_len (s_hdr m)) = 24 + n + (if ?fp \<noteq> None then 8 else 0)" "n \<le> length body"
    using c(2) by (simp_all add: n_def)
  have "mb_after (s_mb m) = hdr_of (s_hdr m) @ body"
    using c(1) mbvD(5) [of "s_mb m" "length pre" "pre @ hdr_of (s_hdr m) @ body"] by (simp add: carries_def)
  moreover have "length (hdr_of (s_hdr m)) = 20" using c(1) by (simp add: carries_def length_hdr_of)
  ultimately have "drop 20 (mb_after (s_mb m)) = body" by simp
  moreover have "x = take 20 (hm k (hdr_of ((s_hdr m)\<lparr>h_len := of_nat (24 + n)\<rparr>) @ take n body))"
    using chk_mi_exact [OF c(1) n a x refl, of al hm k] chk by (auto split: if_splits)
  ultimately show ?thesis using a x n by (intro exI [of _ a] exI [of _ n]) (simp add: covered_def)
qed

text \<open>C21: only an authentic response completes a transaction that has a key. When a datagram leads to a call of the response
  handler, it decodes to a response whose method and transaction identifier are those of the transaction, which
  leaves the list; if the transaction has a key and the code is not that of a challenge (401, 438), the message
  carries the code that the key gives for its bytes.\<close>

theorem ctrans_authentic:
  assumes mb: "mbuf_ok mb" and recv: "stun_recv al hm st mb = Some (err, st', out)"
    and resp: "Resp k herr scode reason msg \<in> set out"
  shows "\<exists>ct m ua mb'. ct \<in> set (st_ctl st) \<and> ct_id ct = k \<and> k \<notin> set (ids st')
    \<and> stun_msg_decode al (Some []) mb = Some (Inr m, ua, mb')
    \<and> stun_msg_class (Some m) \<in> {STUN_CLASS_SUCCESS_RESP, STUN_CLASS_ERROR_RESP}
    \<and> stun_msg_method (Some m) = ct_met ct \<and> h_tid (s_hdr m) = ct_tid ct
    \<and> (\<forall>key. ct_key ct = Some key \<and> scode \<noteq> 401 \<and> scode \<noteq> 438 \<longrightarrow>
        (\<exists>a n. find_attr STUN_ATTR_MSG_INTEGRITY (s_attrl m) = Some a \<and> 24 + n \<le> unat (h_len (s_hdr m))
          \<and> a_v a = V_msg_integrity (take 20 (hm key (covered (s_hdr m) n (mb_after mb))))))"
proof -
  obtain r ua mb' where d: "stun_msg_decode al (Some []) mb = Some (r, ua, mb')" and mb': "mbuf_ok mb'" "mb_pos mb' = mb_pos mb"
      "mb_buf mb' = mb_buf mb" "mb_end mb' = mb_end mb" and ok: "\<And>m. r = Inr m \<Longrightarrow> msg_ok m \<and> s_mb m = mb'"
    using msg_decode_returns [OF mb, of al "Some []"] by blast
  obtain m where r: "r = Inr m" using recv resp d by (cases r) (auto simp: stun_recv_def)
  have after: "mb_after (s_mb m) = mb_after mb" using ok [OF r] mb' by (simp add: mb_after_def mb_bytes_def)
  have c: "stun_ctrans_recv al hm st m (case ua of Some ts \<Rightarrow> ts | None \<Rightarrow> []) = (err, st', out)"
    using recv resp d r by (auto simp: stun_recv_def Let_def split: if_splits)
  from c show ?thesis
  proof (cases rule: recv_cases)
    case Quiet
    then show ?thesis using resp by simp
  next
    case (Done ct herr' code reason' m')
    note o = completed_out [OF Done(6)]
    have "k = ct_id ct" "scode = code" using o(2) resp by auto
    moreover have "\<exists>a n. find_attr STUN_ATTR_MSG_INTEGRITY (s_attrl m) = Some a \<and> 24 + n \<le> unat (h_len (s_hdr m))
          \<and> a_v a = V_msg_integrity (take 20 (hm key (covered (s_hdr m) n (mb_after mb))))"
      if "ct_key ct = Some key" "code \<noteq> 401" "code \<noteq> 438" for key
      using chk_mi_accepts [of m al hm key m'] ok [OF r] Done(4) that after by (simp add: resp_check_def)
    moreover have "stun_msg_method (Some m) = ct_met ct" "h_tid (s_hdr m) = ct_tid ct"
      using Done(2) by (simp_all add: match_handler_def stun_msg_tid_def)
    ultimately show ?thesis using Done(1,7) o(1) d r by (intro exI [of _ ct] exI [of _ m] exI [of _ ua] exI [of _ mb']) auto
  qed
qed

section \<open>A request and its reply\<close>

lemma alloc_fresh:
  assumes "alloc_total al" and "sz < size_mod"
  obtains mb where "mbuf_alloc al sz = Some mb" and "region_ok mb" and "mb_end mb = 0"
proof -
  obtain f where "al 0 sizeof_mbuf = Some f" using assms(1) by (auto simp: alloc_total_def)
  moreover obtain mb where "mbuf_resize al (mbuf_zero\<lparr>mb_tick := 1\<rparr>) (if sz \<noteq> 0 then sz else DEFAULT_SIZE) = (None, mb)"
    using resize_total [OF assms(1)] by (metis prod.collapse)
  ultimately have a: "mbuf_alloc al sz = Some mb" by (simp add: mbuf_alloc_def)
  note ok = mbuf_alloc_ok [OF this assms(2)]
  then have "mb_end mb = mb_pos mb" "mb_pos mb = 0"
    using length_mb_after [of mb] length_mb_before [of mb] by (auto simp: mbuf_ok_def)
  with a ok that show thesis by (simp add: mbuf_ok_region)
qed

text \<open>A message encoded into a new buffer, behind a preamble of \<open>presz\<close> bytes.\<close>

lemma encode_fresh:
  fixes met cls :: u16
  assumes al: "alloc_total al" and mb: "region_ok mb" "mb_end mb = 0" and tid: "length tid = 12"
    and ok: "\<forall>a \<in> set (msg_attrs ec avs). attr_ok a" and hm: "\<And>k d. length (hm k d) = 20"
    and as: "as = full_attrs hm (STUN_TYPE met cls) tid key fp 0 (msg_attrs ec avs)"
    and small: "length (body_bytes tid 0 as) < 65536" and presz: "presz + 65556 < size_mod"
  obtains m where "stun_msg_vencode al hm met cls tid ec key fp 0 avs (mb\<lparr>mb_pos := presz\<rparr>) = Some (None, m)"
    and "mb_after (m\<lparr>mb_pos := presz\<rparr>) = msg_bytes (STUN_TYPE met cls) tid 0 as"
proof -
  let ?bs = "msg_bytes (STUN_TYPE met cls) tid 0 as"
  have "built al (mb\<lparr>mb_pos := presz\<rparr>) presz ?bs (stun_msg_vencode al hm met cls tid ec key fp 0 avs (mb\<lparr>mb_pos := presz\<rparr>))"
    using vencode_built [of "mb\<lparr>mb_pos := presz\<rparr>" tid ec avs hm as met cls key fp 0 al] assms by simp
  then obtain m where m: "stun_msg_vencode al hm met cls tid ec key fp 0 avs (mb\<lparr>mb_pos := presz\<rparr>) = Some (None, m)"
      and w: "wrote (mb\<lparr>mb_pos := presz\<rparr>) presz ?bs m"
    using al by (auto simp: built_def)
  have "?bs \<noteq> []" using length_hdr_bytes [OF tid, of "STUN_TYPE met cls" "length (body_bytes tid 0 as)"] by (auto simp only: msg_bytes_def append_is_Nil_conv list.size)
  from wroteD(3) [OF w this] mb(2) have "mb_end m = presz + length ?bs" by simp
  from holds_view(2) [OF wroteD(1,4) [OF w] this] m that show thesis by blast
qed

lemma chk_mi_attrs: "s_attrl (snd (stun_msg_chk_mi al hm m k)) = s_attrl m"
  by (auto simp: stun_msg_chk_mi_def put_hdr_def load_msg_def add_len_def Let_def split: option.splits prod.splits stun_val.splits)

lemma request_begins:
  assumes al: "alloc_total al" and net: "net_ok net" "sock \<or> n_udp_listen net = None"
  obtains ct where "stun_ctrans_request al net now st STUN_TRANSP_UDP sock (Some dst) mb tid met key resph ctp
      = (None, st\<lparr>st_ctl := st_ctl st @ [ct], st_next := Suc (st_next st)\<rparr>, [Begun (st_next st) resph, Sent (st_next st) (mb_after mb)])"
    and "ct_id ct = st_next st" and "ct_tid ct = tid" and "ct_met ct = met" and "ct_key ct = key" and "ct_ctp ct = ctp" and "ct_resph ct = resph"
proof -
  define mb1 where "mb1 = (case key of None \<Rightarrow> mb\<lparr>mb_tick := Suc (mb_tick mb)\<rparr> | Some k \<Rightarrow> mb\<lparr>mb_tick := Suc (Suc (mb_tick mb))\<rparr>)"
  have after: "mb_after mb1 = mb_after mb" by (simp add: mb1_def mb_after_def mb_bytes_def split: option.split)
  obtain m where m: "n_udp_send net dst mb1 = (None, m)" using net_okD [OF net(1)] by blast
  define ct where "ct = ctrans_zero\<lparr>ct_id := st_next st, ct_tid := tid, ct_proto := STUN_TRANSP_UDP, ct_pos := mb_pos mb, ct_met := met, ct_key := key,
    ct_dst := dst, ct_ival := rto (st_conf st), ct_tmr := Some (now + ucast (rto (st_conf st))), ct_sock := True, ct_txc := 1, ct_mb := m,
    ct_ctp := ctp, ct_resph := resph\<rparr>"
  show thesis
  proof (rule that [of ct])
    show "stun_ctrans_request al net now st STUN_TRANSP_UDP sock (Some dst) mb tid met key resph ctp
      = (None, st\<lparr>st_ctl := st_ctl st @ [ct], st_next := Suc (st_next st)\<rparr>, [Begun (st_next st) resph, Sent (st_next st) (mb_after mb)])"
      using net(2) m after
      by (cases key) (auto simp: stun_ctrans_request_def mem_alloc_total [OF al] ctrans_start_def Let_def sent_def mb1_def ct_def ctrans_zero_def)
  qed (simp_all add: ct_def)
qed

text \<open>The receiver of a reply to the transaction that was begun last.\<close>

lemma recv_completes:
  assumes dec: "stun_msg_decode al (Some []) mb = Some (Inr m, Some [], mb')"
    and m: "stun_msg_method (Some m) = met" "stun_msg_tid (Some m) = Some tid" "stun_msg_class (Some m) = STUN_CLASS_SUCCESS_RESP"
    and ct: "ct_id ct = k" "ct_tid ct = tid" "ct_met ct = met" "ct_resph ct"
    and chk: "\<And>key. ct_key ct = Some key \<Longrightarrow> fst (stun_msg_chk_mi al hm m key) = None"
    and fresh: "\<forall>c \<in> set (st_ctl st). ct_tid c \<noteq> tid \<or> ct_met c \<noteq> met" and new: "k \<notin> set (ids st)"
  shows "\<exists>m'. stun_recv al hm (st\<lparr>st_ctl := st_ctl st @ [ct], st_next := j\<rparr>) mb
      = Some (None, st\<lparr>st_next := j\<rparr>, (if ct_ctp ct then [Cleared k] else []) @ [Resp k None 0 (Some reason_ok) (Some m')])
    \<and> s_attrl m' = s_attrl m"
proof -
  let ?st = "st\<lparr>st_ctl := st_ctl st @ [ct], st_next := j\<rparr>"
  have "find (match_handler m) (st_ctl st) = None" using fresh m by (auto simp: find_None_iff match_handler_def)
  then have f: "find (match_handler m) (st_ctl ?st) = Some ct" using m ct by (simp add: find_append match_handler_def)
  obtain m' where ck: "resp_check al hm 0 ct m = (None, m')" and at: "s_attrl m' = s_attrl m"
  proof (cases "ct_key ct")
    case None
    then show thesis using that by (simp add: resp_check_def)
  next
    case (Some key)
    obtain e x where ex: "stun_msg_chk_mi al hm m key = (e, x)" by fastforce
    then have "e = None" using chk [OF Some] by simp
    then show thesis using that [of x] ex Some chk_mi_attrs [of al hm m key] by (simp add: resp_check_def)
  qed
  have rcode: "resp_code m = (None, 0, Some reason_ok)"
    using m by (simp add: resp_code_def STUN_CLASS_SUCCESS_RESP_def STUN_CLASS_ERROR_RESP_def)
  have "filter (\<lambda>c. ct_id c \<noteq> k) (st_ctl st) = st_ctl st" using new by (intro filter_True) force
  then have "ctl_remove k ?st = st\<lparr>st_next := j\<rparr>" using ct(1) by (simp add: ctl_remove_def)
  then have "stun_ctrans_recv al hm ?st m [] =
      (None, st\<lparr>st_next := j\<rparr>, (if ct_ctp ct then [Cleared k] else []) @ [Resp k None 0 (Some reason_ok) (Some m')])"
    using f ck rcode m ct by (simp add: stun_ctrans_recv_def completed_def)
  then show ?thesis using dec m at
    by (intro exI [of _ m']) (simp add: stun_recv_def STUN_CLASS_SUCCESS_RESP_def STUN_CLASS_INDICATION_def)
qed

text \<open>The attributes of a message and its authentication fit: well formed, none of the two the encoder adds, and small enough.\<close>

definition payload_ok ::
  "hmac \<Rightarrow> u16 \<Rightarrow> u16 \<Rightarrow> byte list \<Rightarrow> byte list option \<Rightarrow> bool \<Rightarrow> (u16 \<times> stun_val option) list \<Rightarrow> bool" where
  "payload_ok hm met cls tid key fp avs \<longleftrightarrow>
     (\<forall>a \<in> set (msg_attrs None avs). attr_ok a \<and> fst a \<noteq> STUN_ATTR_MSG_INTEGRITY \<and> fst a \<noteq> STUN_ATTR_FINGERPRINT)
     \<and> length (body_bytes tid 0 (full_attrs hm (STUN_TYPE met cls) tid key fp 0 (msg_attrs None avs))) < 65536"

text \<open>The attributes as they are on the wire, with integrity and fingerprint.\<close>

definition sent_attrs ::
  "hmac \<Rightarrow> u16 \<Rightarrow> u16 \<Rightarrow> byte list \<Rightarrow> byte list option \<Rightarrow> bool \<Rightarrow> (u16 \<times> stun_val option) list \<Rightarrow> (u16 \<times> stun_val) list" where
  "sent_attrs hm met cls tid key fp avs = full_attrs hm (STUN_TYPE met cls) tid key fp 0 (msg_attrs None avs)"

definition wire :: "hmac \<Rightarrow> u16 \<Rightarrow> u16 \<Rightarrow> byte list \<Rightarrow> byte list option \<Rightarrow> bool \<Rightarrow> (u16 \<times> stun_val option) list \<Rightarrow> byte list" where
  "wire hm met cls tid key fp avs = msg_bytes (STUN_TYPE met cls) tid 0 (sent_attrs hm met cls tid key fp avs)"

lemma wire_small: "payload_ok hm met cls tid key fp avs \<Longrightarrow> length tid = 12 \<Longrightarrow> length (wire hm met cls tid key fp avs) < size_mod"
  using length_hdr_bytes [of tid] by (simp add: payload_ok_def wire_def sent_attrs_def msg_bytes_def size_mod_def)

lemma wire_encode:
  fixes met cls :: u16
  assumes al: "alloc_total al" and sz: "sz < size_mod" and tid: "length tid = 12" and hm: "\<And>k d. length (hm k d) = 20"
    and pay: "payload_ok hm met cls tid key fp avs" and presz: "presz + 65556 < size_mod"
  obtains mb m where "mbuf_alloc al sz = Some mb" and "stun_msg_vencode al hm met cls tid None key fp 0 avs (mb\<lparr>mb_pos := presz\<rparr>) = Some (None, m)"
    and "mb_after (m\<lparr>mb_pos := presz\<rparr>) = wire hm met cls tid key fp avs"
proof -
  obtain mb where mb: "mbuf_alloc al sz = Some mb" "region_ok mb" "mb_end mb = 0" using alloc_fresh [OF al sz] .
  have "\<forall>a \<in> set (msg_attrs None avs). attr_ok a" and "length (body_bytes tid 0 (sent_attrs hm met cls tid key fp avs)) < 65536"
    using pay by (simp_all add: payload_ok_def sent_attrs_def)
  from encode_fresh [OF al mb(2,3) tid this(1) hm sent_attrs_def this(2) presz] mb(1) that show thesis
    unfolding wire_def by blast
qed

lemma wire_decode:
  fixes met cls :: u16
  assumes al: "alloc_total al" and tid: "length tid = 12" and hm: "\<And>k d. length (hm k d) = 20"
    and pay: "payload_ok hm met cls tid key fp avs" and met: "unat met < 2 ^ 12" "\<not> bit met 4" "\<not> bit met 6" and cls: "unat cls < 2 ^ 2"
  shows "\<exists>m mb'. stun_msg_decode al (Some []) (mbuf_of (wire hm met cls tid key fp avs)) = Some (Inr m, Some [], mb')
    \<and> stun_msg_method (Some m) = met \<and> stun_msg_class (Some m) = cls \<and> h_tid (s_hdr m) = tid
    \<and> list_all2 same_attr (sent_attrs hm met cls tid key fp avs) (s_attrl m)
    \<and> (\<forall>k al'. key = Some k \<longrightarrow> fst (stun_msg_chk_mi al' hm m k) = None) \<and> (fp \<longrightarrow> fst (stun_msg_chk_fingerprint m) = None)"
proof -
  let ?as = "sent_attrs hm met cls tid key fp avs" and ?mb = "mbuf_of (wire hm met cls tid key fp avs)"
  have attrs: "\<forall>a \<in> set (msg_attrs None avs). attr_ok a \<and> fst a \<noteq> STUN_ATTR_MSG_INTEGRITY \<and> fst a \<noteq> STUN_ATTR_FINGERPRINT"
    and small: "length (body_bytes tid 0 ?as) < 65536" using pay by (simp_all add: payload_ok_def sent_attrs_def)
  have v: "mbuf_ok ?mb" "mb_after ?mb = msg_bytes (STUN_TYPE met cls) tid 0 ?as"
    using mbuf_of_view(1) [OF wire_small [OF pay tid]] mbuf_of_view(2) by (simp_all add: wire_def)
  from msg_arrives [OF tid met(1) cls attrs hm al sent_attrs_def small v, of "Some []"] met(2,3)
  show ?thesis by (auto simp: stun_msg_tid_def)
qed

text \<open>C11: a request, its reply and the completion, from end to end. A binding of client and server over UDP that loses
  nothing, for a method with bits 4 and 6 clear, a transaction identifier that no pending request of this method has, and payloads that fit:
  \<open>stun_request\<close> sends a datagram, which the server decodes to the attributes of the request with an integrity
  code it accepts; \<open>stun_reply\<close> to this message sends a datagram, which \<open>stun_recv\<close> of the client turns into one call
  of the response handler with the attributes of the reply and no error, and the transaction is gone.\<close>

theorem stun_exchange:
  assumes run: "stun_run st tr" and k: "k = st_next st" and fresh: "\<forall>c \<in> set (st_ctl st). ct_tid c \<noteq> tid \<or> ct_met c \<noteq> met"
    and tid: "length tid = 12" and met: "unat met < 2 ^ 12" "\<not> bit met 4" "\<not> bit met 6"
    and hm: "\<And>k d. length (hm k d) = 20" and al: "alloc_total al" "alloc_total al2"
    and net: "net_ok net" "sock \<or> n_udp_listen net = None" "net_ok net2"
    and pay: "payload_ok hm met STUN_CLASS_REQUEST tid key fp avs" "payload_ok hm met STUN_CLASS_SUCCESS_RESP tid key fp2 avs2"
    and presz: "presz + 65556 < size_mod" "presz2 + 65556 < size_mod"
  shows "\<exists>st1 req m1 mb1 rep m2.
      stun_request al hm net now tid st STUN_TRANSP_UDP sock (Some dst) presz met key fp True ctp avs = Some (None, st1, [Begun k True, Sent k req])
    \<and> stun_msg_decode al2 (Some []) (mbuf_of req) = Some (Inr m1, Some [], mb1)
    \<and> list_all2 same_attr (sent_attrs hm met STUN_CLASS_REQUEST tid key fp avs) (s_attrl m1)
    \<and> (\<forall>x. key = Some x \<longrightarrow> fst (stun_msg_chk_mi al2 hm m1 x) = None)
    \<and> stun_reply al2 hm net2 STUN_TRANSP_UDP True src presz2 (Some m1) key fp2 avs2 = Some (None, Some rep)
    \<and> stun_recv al hm st1 (mbuf_of rep)
        = Some (None, st\<lparr>st_next := Suc k\<rparr>, (if ctp then [Cleared k] else []) @ [Resp k None 0 (Some reason_ok) (Some m2)])
    \<and> list_all2 same_attr (sent_attrs hm met STUN_CLASS_SUCCESS_RESP tid key fp2 avs2) (s_attrl m2)"
proof -
  have new: "k \<notin> set (ids st)" using run_invariant [OF run] by (fastforce simp: run_ok_def ctl_ok_def k)
  have cls: "unat STUN_CLASS_REQUEST < 2 ^ 2" "unat STUN_CLASS_SUCCESS_RESP < 2 ^ 2"
    by (simp_all add: STUN_CLASS_REQUEST_def STUN_CLASS_SUCCESS_RESP_def)
  obtain mb m where e1: "mbuf_alloc al 512 = Some mb" "stun_msg_vencode al hm met STUN_CLASS_REQUEST tid None key fp 0 avs (mb\<lparr>mb_pos := presz\<rparr>) = Some (None, m)"
      "mb_after (m\<lparr>mb_pos := presz\<rparr>) = wire hm met STUN_CLASS_REQUEST tid key fp avs"
    using wire_encode [OF al(1) _ tid hm pay(1) presz(1), of 512] by (auto simp: size_mod_def)
  obtain ct where req: "stun_ctrans_request al net now st STUN_TRANSP_UDP sock (Some dst) (m\<lparr>mb_pos := presz\<rparr>) tid met key True ctp
      = (None, st\<lparr>st_ctl := st_ctl st @ [ct], st_next := Suc k\<rparr>, [Begun k True, Sent k (wire hm met STUN_CLASS_REQUEST tid key fp avs)])"
      and ct: "ct_id ct = k" "ct_tid ct = tid" "ct_met ct = met" "ct_key ct = key" "ct_ctp ct = ctp" "ct_resph ct"
    using request_begins [OF al(1) net(1,2), of now st dst "m\<lparr>mb_pos := presz\<rparr>" tid met key True ctp] e1(3) k by auto
  obtain m1 mb1 where d1: "stun_msg_decode al2 (Some []) (mbuf_of (wire hm met STUN_CLASS_REQUEST tid key fp avs)) = Some (Inr m1, Some [], mb1)"
      and m1: "stun_msg_method (Some m1) = met" "h_tid (s_hdr m1) = tid"
        "list_all2 same_attr (sent_attrs hm met STUN_CLASS_REQUEST tid key fp avs) (s_attrl m1)"
        "\<forall>x. key = Some x \<longrightarrow> fst (stun_msg_chk_mi al2 hm m1 x) = None"
    using wire_decode [OF al(2) tid hm pay(1) met cls(1)] by blast
  obtain mb2 m' where e2: "mbuf_alloc al2 256 = Some mb2" "stun_msg_vencode al2 hm met STUN_CLASS_SUCCESS_RESP tid None key fp2 0 avs2 (mb2\<lparr>mb_pos := presz2\<rparr>) = Some (None, m')"
      "mb_after (m'\<lparr>mb_pos := presz2\<rparr>) = wire hm met STUN_CLASS_SUCCESS_RESP tid key fp2 avs2"
    using wire_encode [OF al(2) _ tid hm pay(2) presz(2), of 256] by (auto simp: size_mod_def)
  obtain m'' where "n_udp_send net2 src (m'\<lparr>mb_pos := presz2\<rparr>) = (None, m'')" using net_okD [OF net(3)] by blast
  then have rep: "stun_reply al2 hm net2 STUN_TRANSP_UDP True src presz2 (Some m1) key fp2 avs2 = Some (None, Some (wire hm met STUN_CLASS_SUCCESS_RESP tid key fp2 avs2))"
    using e2 m1 by (simp add: stun_reply_def send_message_def stun_send_def)
  obtain m2 mb' where d2: "stun_msg_decode al (Some []) (mbuf_of (wire hm met STUN_CLASS_SUCCESS_RESP tid key fp2 avs2)) = Some (Inr m2, Some [], mb')"
      and m2: "stun_msg_method (Some m2) = met" "stun_msg_class (Some m2) = STUN_CLASS_SUCCESS_RESP" "h_tid (s_hdr m2) = tid"
        "list_all2 same_attr (sent_attrs hm met STUN_CLASS_SUCCESS_RESP tid key fp2 avs2) (s_attrl m2)"
        "\<forall>x al'. key = Some x \<longrightarrow> fst (stun_msg_chk_mi al' hm m2 x) = None"
    using wire_decode [OF al(1) tid hm pay(2) met cls(2)] by blast
  have "stun_msg_tid (Some m2) = Some tid" using m2(3) by (simp add: stun_msg_tid_def)
  then obtain m3 where "stun_recv al hm (st\<lparr>st_ctl := st_ctl st @ [ct], st_next := Suc k\<rparr>) (mbuf_of (wire hm met STUN_CLASS_SUCCESS_RESP tid key fp2 avs2))
        = Some (None, st\<lparr>st_next := Suc k\<rparr>, (if ctp then [Cleared k] else []) @ [Resp k None 0 (Some reason_ok) (Some m3)])" "s_attrl m3 = s_attrl m2"
    using recv_completes [OF d2 m2(1) _ m2(2) ct(1,2,3,6) _ fresh new, of hm "Suc k"] m2(5) ct(4,5) by auto
  moreover have "stun_request al hm net now tid st STUN_TRANSP_UDP sock (Some dst) presz met key fp True ctp avs
      = Some (None, st\<lparr>st_ctl := st_ctl st @ [ct], st_next := Suc k\<rparr>, [Begun k True, Sent k (wire hm met STUN_CLASS_REQUEST tid key fp avs)])"
    using e1 req by (simp add: stun_request_def)
  ultimately show ?thesis using d1 m1 rep m2(4) by auto
qed

section \<open>Every request is answered once\<close>

text \<open>C7: every request is answered at most once and never forgotten. In every run of an instance nothing about a
  transaction happens after its response handler was called or its owner released it; a transaction that
  was begun with a response handler has had its end, or is in the list with a running timer and has not.\<close>

theorem ctrans_answered_once:
  assumes "stun_run st tr"
  shows "(\<forall>xs e ys k. tr = xs @ e # ys \<and> ends k e \<longrightarrow> (\<forall>e' \<in> set ys. about e' \<noteq> Some k))
    \<and> (\<forall>k. Begun k True \<in> set tr \<longrightarrow>
        ((\<exists>e \<in> set tr. ends k e) \<noteq> (\<exists>ct \<in> set (st_ctl st). ct_id ct = k \<and> ct_resph ct \<and> ct_tmr ct \<noteq> None)))"
proof (intro conjI allI impI)
  note inv = run_invariant [OF assms, unfolded run_ok_def ctl_ok_def]
  show "\<forall>e' \<in> set ys. about e' \<noteq> Some k" if "tr = xs @ e # ys \<and> ends k e" for xs e ys k
    using inv final_split that by blast
  show "(\<exists>e \<in> set tr. ends k e) \<noteq> (\<exists>ct \<in> set (st_ctl st). ct_id ct = k \<and> ct_resph ct \<and> ct_tmr ct \<noteq> None)"
    if "Begun k True \<in> set tr" for k
  proof -
    have "(\<exists>ct \<in> set (st_ctl st). ct_id ct = k \<and> ct_resph ct) \<or> (\<exists>e \<in> set tr. ends k e)" using inv that by blast
    moreover have "k \<notin> set (ids st)" if "e \<in> set tr" "ends k e" for e using inv that by blast
    ultimately show ?thesis using inv by force
  qed
qed

section \<open>Examples\<close>

lemma hm_example_length: "length (hm_example k d) = 20"
  by (simp add: hm_example_def)

lemma payload_example:
  "payload_ok hm_example STUN_METHOD_BINDING cls (replicate 12 7) key fp avs_example"
  "payload_ok hm_example STUN_METHOD_BINDING cls (replicate 12 7) key fp []"
  using avs_example_ok full_body_length [of hm_example, OF hm_example_length] avs_example_length
  by (simp_all add: payload_ok_def msg_attrs_def given_def)

lemma binding_bits: "unat STUN_METHOD_BINDING < 2 ^ 12" "\<not> bit STUN_METHOD_BINDING 4" "\<not> bit STUN_METHOD_BINDING 6"
  by (simp_all add: STUN_METHOD_BINDING_def)

theorem stun_exchange_witness:
  "\<exists>st1 req m1 mb1 rep m2.
      stun_request al_zero hm_example net_example 0 (replicate 12 7) stun_example STUN_TRANSP_UDP True (Some (sa_set_in 1 3478)) 0
        STUN_METHOD_BINDING (Some [1, 2, 3]) True True False [] = Some (None, st1, [Begun 0 True, Sent 0 req])
    \<and> stun_msg_decode al_zero (Some []) (mbuf_of req) = Some (Inr m1, Some [], mb1)
    \<and> stun_reply al_zero hm_example net_example STUN_TRANSP_UDP True (sa_set_in 2 5060) 0 (Some m1) (Some [1, 2, 3]) True avs_example = Some (None, Some rep)
    \<and> stun_recv al_zero hm_example st1 (mbuf_of rep)
        = Some (None, stun_example\<lparr>st_next := Suc 0\<rparr>, [Resp 0 None 0 (Some reason_ok) (Some m2)])"
proof -
  have net: "True \<or> n_udp_listen net_example = None" by simp
  have k: "0 = st_next stun_example" and fresh: "\<forall>c \<in> set (st_ctl stun_example). ct_tid c \<noteq> replicate 12 7 \<or> ct_met c \<noteq> STUN_METHOD_BINDING"
    by (simp_all add: stun_example_def)
  from stun_exchange [OF stun_example_run k fresh _ binding_bits hm_example_length al_zero_total al_zero_total net_example_ok net net_example_ok
      payload_example(2,1), of 0 0 0 "sa_set_in 1 3478" "Some [1, 2, 3]" True False "sa_set_in 2 5060" True]
  show ?thesis by (simp add: size_mod_def) blast
qed

theorem ctrans_answered_once_witness:
  "\<exists>st req. stun_run st [Begun 0 True, Sent 0 req, Resp 0 (Some ECONNABORTED) 0 None None] \<and> st_ctl st = []
    \<and> \<not> (\<exists>ct \<in> set (st_ctl st). ct_id ct = 0 \<and> ct_resph ct \<and> ct_tmr ct \<noteq> None)"
proof -
  obtain mb m where e: "mbuf_alloc al_zero 512 = Some mb"
      "stun_msg_vencode al_zero hm_example STUN_METHOD_BINDING STUN_CLASS_REQUEST (replicate 12 7) None None False 0 [] (mb\<lparr>mb_pos := 0\<rparr>) = Some (None, m)"
    by (rule wire_encode [OF al_zero_total _ _ hm_example_length payload_example(2), of 512 0 STUN_CLASS_REQUEST None False])
      (simp_all add: size_mod_def)
  obtain ct where req: "stun_ctrans_request al_zero net_example 0 stun_example STUN_TRANSP_UDP True (Some (sa_set_in 1 3478)) (m\<lparr>mb_pos := 0\<rparr>)
        (replicate 12 7) STUN_METHOD_BINDING None True False
      = (None, stun_example\<lparr>st_ctl := [ct], st_next := 1\<rparr>, [Begun 0 True, Sent 0 (mb_after (m\<lparr>mb_pos := 0\<rparr>))])"
      and ct: "ct_id ct = 0" "ct_ctp ct = False" "ct_resph ct"
    using request_begins [OF al_zero_total net_example_ok, of True 0 stun_example "sa_set_in 1 3478" "m\<lparr>mb_pos := 0\<rparr>" "replicate 12 7" STUN_METHOD_BINDING None True False]
    by (auto simp: stun_example_def)
  let ?req = "mb_after (m\<lparr>mb_pos := 0\<rparr>)" and ?st = "stun_example\<lparr>st_ctl := [ct], st_next := 1\<rparr>"
  have "stun_request al_zero hm_example net_example 0 (replicate 12 7) stun_example STUN_TRANSP_UDP True (Some (sa_set_in 1 3478)) 0
      STUN_METHOD_BINDING None False True False [] = Some (None, ?st, [Begun 0 True, Sent 0 ?req])"
    using e req by (simp add: stun_request_def)
  from run_more [OF stun_example_run stun_step.request [OF this]] have r1: "stun_run ?st [Begun 0 True, Sent 0 ?req]" by simp
  have "stun_ctrans_close ?st = (ctl_remove 0 ?st, [Resp 0 (Some ECONNABORTED) 0 None None])"
    using ct by (simp add: stun_ctrans_close_def completed_def)
  from run_more [OF r1 stun_step.close [OF this]]
  have r2: "stun_run (ctl_remove 0 ?st) [Begun 0 True, Sent 0 ?req, Resp 0 (Some ECONNABORTED) 0 None None]" by simp
  moreover have "st_ctl (ctl_remove 0 ?st) = []" using ct(1) by simp
  ultimately show ?thesis using ctrans_answered_once [OF r2] by (intro exI [of _ "ctl_remove 0 ?st"] exI [of _ ?req]) auto
qed

text \<open>A transaction with a key and the reply of an authenticated server.\<close>

definition ct_example :: ctrans where
  "ct_example = ctrans_zero\<lparr>ct_tid := replicate 12 7, ct_met := STUN_METHOD_BINDING, ct_key := Some [1, 2, 3], ct_resph := True, ct_tmr := Some 500\<rparr>"

theorem ctrans_authentic_witness:
  "\<exists>st' out m. stun_recv al_zero hm_example (stun_example\<lparr>st_ctl := [ct_example], st_next := 1\<rparr>)
        (mbuf_of (wire hm_example STUN_METHOD_BINDING STUN_CLASS_SUCCESS_RESP (replicate 12 7) (Some [1, 2, 3]) True avs_example)) = Some (None, st', out)
    \<and> Resp 0 None 0 (Some reason_ok) (Some m) \<in> set out \<and> 0 \<notin> set (ids st')
    \<and> (\<exists>(m :: stun_msg) a n. find_attr STUN_ATTR_MSG_INTEGRITY (s_attrl m) = Some a \<and> a_v a = V_msg_integrity (take 20 (hm_example [1, 2, 3] (covered (s_hdr m) n
        (wire hm_example STUN_METHOD_BINDING STUN_CLASS_SUCCESS_RESP (replicate 12 7) (Some [1, 2, 3]) True avs_example)))))"
proof -
  let ?w = "wire hm_example STUN_METHOD_BINDING STUN_CLASS_SUCCESS_RESP (replicate 12 7) (Some [1, 2, 3]) True avs_example"
  let ?st = "stun_example\<lparr>st_ctl := [ct_example], st_next := 1\<rparr>"
  have tid: "length (replicate 12 (7 :: byte)) = 12" and cls: "unat STUN_CLASS_SUCCESS_RESP < 2 ^ 2" by (simp_all add: STUN_CLASS_SUCCESS_RESP_def)
  obtain m mb' where d: "stun_msg_decode al_zero (Some []) (mbuf_of ?w) = Some (Inr m, Some [], mb')"
      and m: "stun_msg_method (Some m) = STUN_METHOD_BINDING" "stun_msg_class (Some m) = STUN_CLASS_SUCCESS_RESP" "h_tid (s_hdr m) = replicate 12 7"
        "\<forall>k al'. Some [1, 2, 3] = Some k \<longrightarrow> fst (stun_msg_chk_mi al' hm_example m k) = None"
    using wire_decode [OF al_zero_total tid hm_example_length payload_example(1) binding_bits cls] by blast
  have t: "stun_msg_tid (Some m) = Some (replicate 12 7)" using m(3) by (simp add: stun_msg_tid_def)
  have ct: "ct_id ct_example = 0" "ct_tid ct_example = replicate 12 7" "ct_met ct_example = STUN_METHOD_BINDING" "ct_resph ct_example"
    "ct_key ct_example = Some [1, 2, 3]" "ct_ctp ct_example = False" by (simp_all add: ct_example_def ctrans_zero_def)
  obtain m' where r: "stun_recv al_zero hm_example ?st (mbuf_of ?w) = Some (None, stun_example\<lparr>st_next := 1\<rparr>, [Resp 0 None 0 (Some reason_ok) (Some m')])"
    using recv_completes [OF d m(1) t m(2) ct(1-4), of hm_example stun_example 1] m(4) ct(5,6) by (auto simp: stun_example_def)
  have ok: "mbuf_ok (mbuf_of ?w)" "mb_after (mbuf_of ?w) = ?w"
    using mbuf_of_view(1) [OF wire_small [OF payload_example(1) tid]] mbuf_of_view(2) by simp_all
  obtain c :: ctrans and m2 :: stun_msg where "c \<in> set (st_ctl ?st)" "0 \<notin> set (ids (stun_example\<lparr>st_next := 1\<rparr>))"
    and mi: "\<forall>key. ct_key c = Some key \<and> (0 :: u16) \<noteq> 401 \<and> (0 :: u16) \<noteq> 438 \<longrightarrow>
      (\<exists>a n. find_attr STUN_ATTR_MSG_INTEGRITY (s_attrl m2) = Some a \<and> 24 + n \<le> unat (h_len (s_hdr m2))
        \<and> a_v a = V_msg_integrity (take 20 (hm_example key (covered (s_hdr m2) n ?w))))"
    using ctrans_authentic [OF ok(1) r list.set_intros(1)] unfolding ok(2) by blast
  moreover have "c = ct_example" using calculation(1) by simp
  ultimately obtain a n where "find_attr STUN_ATTR_MSG_INTEGRITY (s_attrl m2) = Some a"
      "a_v a = V_msg_integrity (take 20 (hm_example [1, 2, 3] (covered (s_hdr m2) n ?w)))" using ct(5) by auto
  then show ?thesis using r by (intro exI [of _ "stun_example\<lparr>st_next := 1\<rparr>"] exI [of _ "[Resp 0 None 0 (Some reason_ok) (Some m')]"] exI [of _ m'])
      (auto simp: stun_example_def)
qed

end
