(* ===== verification/Telev.thy ===== *)
theory Telev
  imports Mbuf_View "HOL-Library.Sublist"
begin

text \<open>
  Telephone events (keypad digits in RTP, RFC 4733), \<open>re/src/telev/telev.c\<close>.

  The state of both directions is one record, as in the code. The queue of pressed and released keys is a
  memory buffer of bytes; \<open>telev_poll\<close> is called once per packet time and turns it into packets.
  Shown: the digits of any interleaving of key presses and polls leave as complete bursts, and a receiver that
  gets at least one packet of the start and one of the end of every burst reports exactly these digits.
\<close>

section \<open>State and packets\<close>

definition TXC_DIGIT_MIN :: nat where "TXC_DIGIT_MIN = 9"
definition TXC_END :: nat where "TXC_END = 3"
definition EVENT_END :: u8 where "EVENT_END = 0xff"
definition PAYLOAD_SIZE :: nat where "PAYLOAD_SIZE = 4"
definition VOLUME :: u8 where "VOLUME = 10"
definition QUEUE_SIZE :: nat where "QUEUE_SIZE = 8192"

datatype tstate = IDLE | SENDING | ENDING

record telev_fmt =
  fmt_event :: u8
  fmt_end :: bool
  fmt_vol :: u8
  fmt_dur :: u16

record telev =
  te_mb :: mbuf
  te_ptime :: u32
  te_pdur :: u16
  te_state :: tstate
  te_event :: int
  te_dur :: u16
  te_txc :: u32
  te_rx_event :: int
  te_rx_end :: bool

definition payload_encode :: "alloc \<Rightarrow> int \<Rightarrow> bool \<Rightarrow> u16 \<Rightarrow> mbuf \<Rightarrow> errno option \<times> mbuf" where
  "payload_encode al event fin dur mb =
     (let pos = mb_pos mb in
      case also_err (also_err (mbuf_write_u8 al mb (of_int event))
             (\<lambda>mb. mbuf_write_u8 al mb ((if fin then 0x80 else 0) OR (VOLUME AND 0x3f))))
             (\<lambda>mb. mbuf_write_u16 al mb (htons dur)) of (err, mb) \<Rightarrow>
        (err, if err \<noteq> None then mb\<lparr>mb_pos := pos\<rparr> else mb))"

definition payload_decode :: "mbuf \<Rightarrow> (errno + telev_fmt) \<times> mbuf" where
  "payload_decode mb =
     (if mbuf_get_left mb < PAYLOAD_SIZE then (Inl ENOENT, mb)
      else
        (case mbuf_read_u8 mb of (event, mb) \<Rightarrow>
        (case mbuf_read_u8 mb of (b, mb) \<Rightarrow>
        (case read_be16 mb of (dur, mb) \<Rightarrow>
           (Inr \<lparr>fmt_event = event, fmt_end = (b AND 0x80 = 0x80), fmt_vol = b AND 0x3f, fmt_dur = dur\<rparr>, mb)))))"

definition sizeof_telev :: nat where "sizeof_telev = 36"

definition telev_alloc :: "alloc \<Rightarrow> u32 \<Rightarrow> errno + telev" where
  "telev_alloc al ptime =
     (if ptime = 0 then Inl EINVAL
      else if al 0 sizeof_telev = None then Inl ENOMEM
      else
        (case mbuf_alloc al 16 of
           None \<Rightarrow> Inl ENOMEM
         | Some mb \<Rightarrow> Inr \<lparr>te_mb = mb, te_ptime = ptime, te_pdur = ucast (ptime * 8), te_state = IDLE, te_event = 0, te_dur = 0,
             te_txc = 0, te_rx_event = - 1, te_rx_end = False\<rparr>))"

definition telev_set_srate :: "telev \<Rightarrow> u32 \<Rightarrow> errno option \<times> telev" where
  "telev_set_srate tel srate =
     (if srate = 0 then (Some EINVAL, tel) else (None, tel\<lparr>te_pdur := ucast (te_ptime tel * srate div 1000)\<rparr>))"

section \<open>Sending and receiving\<close>

definition telev_send :: "alloc \<Rightarrow> telev \<Rightarrow> int \<Rightarrow> bool \<Rightarrow> errno option \<times> telev" where
  "telev_send al tel event fin =
     (if mb_end (te_mb tel) \<ge> QUEUE_SIZE then (Some EOVERFLOW, tel)
      else
        (let pos = mb_pos (te_mb tel) in
         case mbuf_write_u8 al ((te_mb tel)\<lparr>mb_pos := mb_end (te_mb tel)\<rparr>) (if fin then EVENT_END else of_int event) of
           (err, mb) \<Rightarrow> (err, tel\<lparr>te_mb := mb\<lparr>mb_pos := pos\<rparr>\<rparr>)))"

definition telev_recv :: "telev \<Rightarrow> mbuf \<Rightarrow> (errno + int \<times> bool) \<times> telev \<times> mbuf" where
  "telev_recv tel mb =
     (case payload_decode mb of
        (Inl e, mb) \<Rightarrow> (Inl e, tel, mb)
      | (Inr fmt, mb) \<Rightarrow>
          if fmt_end fmt then
            if te_rx_end tel then (Inl EALREADY, tel, mb)
            else (Inr (uint (fmt_event fmt), True), tel\<lparr>te_rx_event := - 1, te_rx_end := True\<rparr>, mb)
          else if uint (fmt_event fmt) = te_rx_event tel then (Inl EALREADY, tel, mb)
          else (Inr (uint (fmt_event fmt), False), tel\<lparr>te_rx_event := uint (fmt_event fmt), te_rx_end := False\<rparr>, mb))"

text \<open>The three cases of \<open>telev_poll\<close>: error, marker, state and output buffer.\<close>

definition poll_idle :: "alloc \<Rightarrow> telev \<Rightarrow> mbuf \<Rightarrow> errno option \<times> bool \<times> telev \<times> mbuf" where
  "poll_idle al tel mb =
     (if mbuf_get_left (te_mb tel) = 0 then (Some ENOENT, False, tel, mb)
      else
        (case mbuf_read_u8 (te_mb tel) of (ev, q) \<Rightarrow>
           (let tel = tel\<lparr>te_mb := q, te_event := uint ev, te_dur := te_pdur tel, te_state := SENDING, te_txc := 1\<rparr> in
            case payload_encode al (te_event tel) False (te_dur tel) mb of (err, mb) \<Rightarrow> (err, True, tel, mb))))"

definition poll_sending :: "alloc \<Rightarrow> telev \<Rightarrow> mbuf \<Rightarrow> errno option \<times> bool \<times> telev \<times> mbuf" where
  "poll_sending al tel mb =
     (let tel = tel\<lparr>te_dur := te_dur tel + te_pdur tel, te_txc := te_txc tel + 1\<rparr> in
      case payload_encode al (te_event tel) False (te_dur tel) mb of (err, mb) \<Rightarrow>
        (if unat (te_txc tel) < TXC_DIGIT_MIN then (err, False, tel, mb)
         else if mbuf_get_left (te_mb tel) = 0 then (err, False, tel, mb)
         else
           (case mbuf_read_u8 (te_mb tel) of (b, q) \<Rightarrow>
              (err, False,
               tel\<lparr>te_mb := (if b \<noteq> EVENT_END then q\<lparr>mb_pos := (mb_pos q + size_mod - 1) mod size_mod\<rparr> else q),
                   te_state := ENDING, te_txc := 0\<rparr>, mb))))"

definition poll_ending :: "alloc \<Rightarrow> telev \<Rightarrow> mbuf \<Rightarrow> errno option \<times> bool \<times> telev \<times> mbuf" where
  "poll_ending al tel mb =
     (case payload_encode al (te_event tel) True (te_dur tel) mb of (err, mb) \<Rightarrow>
        (let tel = tel\<lparr>te_txc := te_txc tel + 1\<rparr> in
         if unat (te_txc tel) < TXC_END then (err, False, tel, mb)
         else
           (let tel = (if mbuf_get_left (te_mb tel) = 0 then tel\<lparr>te_mb := (te_mb tel)\<lparr>mb_pos := 0, mb_end := 0\<rparr>\<rparr> else tel)
            in (err, False, tel\<lparr>te_state := IDLE\<rparr>, mb))))"

text \<open>The marker is set for the caller only when no error is returned.\<close>

definition telev_poll :: "alloc \<Rightarrow> telev \<Rightarrow> mbuf \<Rightarrow> errno option \<times> bool option \<times> telev \<times> mbuf" where
  "telev_poll al tel mb =
     (case (case te_state tel of
              IDLE \<Rightarrow> poll_idle al tel mb
            | SENDING \<Rightarrow> poll_sending al tel mb
            | ENDING \<Rightarrow> poll_ending al tel mb) of
        (err, mrk, tel, mb) \<Rightarrow> (err, if err = None then Some mrk else None, tel, mb))"

definition telev_is_empty :: "telev \<Rightarrow> bool" where
  "telev_is_empty tel \<longleftrightarrow> te_state tel = IDLE \<and> mbuf_get_left (te_mb tel) = 0"

section \<open>Digits and codes\<close>

definition telev_digit2code :: "int \<Rightarrow> int" where
  "telev_digit2code digit =
     (if 48 \<le> digit \<and> digit \<le> 57 then digit - 48
      else if digit = 42 then 10
      else if digit = 35 then 11
      else if 97 \<le> digit \<and> digit \<le> 100 then digit - 97 + 12
      else if 65 \<le> digit \<and> digit \<le> 68 then digit - 65 + 12
      else - 1)"

definition telev_code2digit :: "int \<Rightarrow> int" where
  "telev_code2digit code = (if code < 0 \<or> code \<ge> 16 then - 1 else map int [48,49,50,51,52,53,54,55,56,57,42,35,65,66,67,68] ! nat code)"

lemma code_digit_code: "0 \<le> code \<Longrightarrow> code < 16 \<Longrightarrow> telev_digit2code (telev_code2digit code) = code"
proof -
  assume "0 \<le> code" "code < 16"
  then have "code \<in> set (map int [0..<16])" by (auto simp: image_iff intro: bexI [of _ "nat code"])
  moreover have "list_all (\<lambda>c. telev_digit2code (telev_code2digit c) = c) (map int [0..<16])" by code_simp
  ultimately show ?thesis by (auto simp: list_all_iff)
qed

section \<open>Packets as the receiver sees them\<close>

type_synonym event = "u8 \<times> bool \<times> u16"

definition event_bytes :: "event \<Rightarrow> byte list" where
  "event_bytes p = (case p of (ev, fin, dur) \<Rightarrow> [ev, (if fin then 0x80 else 0) OR (VOLUME AND 0x3f)] @ be16 dur)"

lemma length_event_bytes [simp]: "length (event_bytes p) = 4"
  by (simp add: event_bytes_def split: prod.split)

lemma encode_view:
  assumes ok: "mbuf_ok mb" "mb_pos mb + 4 < size_mod" and r: "payload_encode al ev fin dur mb = (None, mb')"
  shows "mbuf_ok mb'" and "mb_after (mb'\<lparr>mb_pos := mb_pos mb\<rparr>) = event_bytes (of_int ev, fin, dur) @ drop 4 (mb_after mb)"
proof -
  let ?f = "\<lambda>mb. also_err (also_err (mbuf_write_u8 al mb (of_int ev))
             (\<lambda>mb. mbuf_write_u8 al mb ((if fin then 0x80 else 0) OR (VOLUME AND 0x3f))))
             (\<lambda>mb. mbuf_write_u16 al mb (htons dur))" and ?b = "(if fin then 0x80 else 0) OR (VOLUME AND 0x3f)"
  have w: "writes ?f (([of_int ev] @ [?b]) @ be16 dur)" by (intro writes_rules)
  have f: "?f mb = (None, mb')" using r by (auto simp: payload_encode_def Let_def split: prod.splits if_splits)
  have fits: "mb_pos mb + length (([of_int ev] @ [?b]) @ be16 dur) < size_mod" using ok(2) by simp
  have "event_bytes (of_int ev, fin, dur) = ([of_int ev] @ [?b]) @ be16 dur" by (simp add: event_bytes_def)
  moreover have "mb_after mb' = drop 4 (mb_after mb)" using writerD [OF w ok(1) _ f] ok by (simp add: drop_Suc)
  ultimately show "mb_after (mb'\<lparr>mb_pos := mb_pos mb\<rparr>) = event_bytes (of_int ev, fin, dur) @ drop 4 (mb_after mb)" and "mbuf_ok mb'"
    using writes_back [OF w ok(1) fits f] by (simp_all add: mbuf_set_pos_def)
qed

lemma encode_total: "alloc_total al \<Longrightarrow> fst (payload_encode al ev fin dur mb) = None"
  using write_total [of al]
  by (simp add: payload_encode_def also_err_def Let_def mbuf_write_u8_def mbuf_write_u16_def split: prod.splits) (metis fst_conv)

lemma decode_packet:
  assumes "mbuf_ok mb" and "mb_after mb = event_bytes (ev, fin, dur) @ rest"
  shows "\<exists>mb'. payload_decode mb = (Inr \<lparr>fmt_event = ev, fmt_end = fin, fmt_vol = VOLUME, fmt_dur = dur\<rparr>, mb')"
proof -
  have "4 \<le> length (mb_after mb)" using assms(2) by (simp del: length_mb_after)
  then have ok: "mbuf_ok (mb_adv mb k)" if "k \<le> 4" for k using that assms(1) by (intro mbuf_ok_adv) simp_all
  have "mbuf_read_u8 mb = (ev, mb_adv mb 1)" using reads_at(2) [OF assms(1)] assms(2) by (simp add: event_bytes_def del: length_mb_after)
  moreover have "mbuf_read_u8 (mb_adv mb 1) = ((if fin then 0x80 else 0) OR (VOLUME AND 0x3f), mb_adv mb 2)"
    using reads_at(2) [OF ok [of 1]] assms(2) by (simp add: event_bytes_def numeral_2_eq_2 del: length_mb_after)
  moreover have "read_be16 (mb_adv mb 2) = (dur, mb_adv mb 4)"
    using reads_at(3) [OF ok [of 2]] assms(2) word_of_be by (simp add: event_bytes_def del: length_mb_after)
  moreover have "\<not> mbuf_get_left mb < PAYLOAD_SIZE"
    using mbuf_get_left_after [OF assms(1)] assms(2) by (simp add: PAYLOAD_SIZE_def del: length_mb_after)
  ultimately show ?thesis by (simp add: payload_decode_def VOLUME_def)
qed

section \<open>The sender\<close>

text \<open>
  Keys pressed and released and polls, in any order; each poll writes behind the bytes of the buffer \<open>out\<close>.
  The packets are listed with their marker.
\<close>

datatype tel_op = Tel_send int bool | Tel_poll

fun tel_run :: "alloc \<Rightarrow> mbuf \<Rightarrow> telev \<Rightarrow> tel_op list \<Rightarrow> (telev \<times> (bool \<times> byte list) list) option" where
  "tel_run al out tel [] = Some (tel, [])"
| "tel_run al out tel (Tel_send ev fin # ops) =
     (case telev_send al tel ev fin of (None, tel) \<Rightarrow> tel_run al out tel ops | (Some _, _) \<Rightarrow> None)"
| "tel_run al out tel (Tel_poll # ops) =
     (case telev_poll al tel out of (err, mrk, tel, mb) \<Rightarrow>
        map_option (apsnd (append (case mrk of None \<Rightarrow> [] | Some m \<Rightarrow> [(m, mb_after (mb\<lparr>mb_pos := mb_pos out\<rparr>))]))) (tel_run al out tel ops))"

fun sends :: "tel_op list \<Rightarrow> byte list" where
  "sends [] = []"
| "sends (Tel_send ev fin # ops) = (if fin then EVENT_END else of_int ev) # sends ops"
| "sends (Tel_poll # ops) = sends ops"

lemma sends_append: "sends (a @ b) = sends a @ sends b"
  by (induction a rule: sends.induct) simp_all

lemma sends_polls: "sends (replicate n Tel_poll) = []"
  by (induction n) simp_all

text \<open>A digit on the wire: \<open>n\<close> packets of growing duration, the first with the marker, and the end three times.\<close>

definition starts :: "u16 \<Rightarrow> u8 \<Rightarrow> nat \<Rightarrow> (bool \<times> event) list" where
  "starts pd d n = map (\<lambda>i. (i = 0, (d, False, of_nat (Suc i) * pd))) [0..<n]"

definition finishes :: "u16 \<Rightarrow> u8 \<Rightarrow> nat \<Rightarrow> nat \<Rightarrow> (bool \<times> event) list" where
  "finishes pd d n m = replicate m (False, (d, True, of_nat n * pd))"

definition burst :: "u16 \<Rightarrow> u8 \<times> nat \<Rightarrow> (bool \<times> event) list" where
  "burst pd b = (case b of (d, n) \<Rightarrow> starts pd d n @ finishes pd d n TXC_END)"

definition on_wire :: "(bool \<times> event) list \<Rightarrow> (bool \<times> byte list) list" where
  "on_wire ps = map (apsnd event_bytes) ps"

definition typed_keys :: "byte list \<Rightarrow> byte list" where
  "typed_keys ds = concat (map (\<lambda>d. [d, EVENT_END]) ds)"

lemma starts_Suc: "starts pd d (Suc n) = starts pd d n @ [(n = 0, (d, False, of_nat (Suc n) * pd))]"
  by (simp add: starts_def)

lemma finishes_Suc: "finishes pd d n (Suc m) = finishes pd d n m @ [(False, (d, True, of_nat n * pd))]"
  by (simp add: finishes_def replicate_append_same)

text \<open>Where the sender is: the bytes \<open>C\<close> it has consumed and the packets \<open>ps\<close> it has sent.\<close>

definition phase :: "telev \<Rightarrow> byte list \<Rightarrow> (bool \<times> event) list \<Rightarrow> bool" where
  "phase tel C ps \<longleftrightarrow>
     (\<exists>bs. (\<forall>b \<in> set bs. TXC_DIGIT_MIN \<le> snd b) \<and>
       (case te_state tel of
          IDLE \<Rightarrow> C = typed_keys (map fst bs) \<and> ps = concat (map (burst (te_pdur tel)) bs)
        | SENDING \<Rightarrow> (\<exists>d n. C = typed_keys (map fst bs) @ [d] \<and> te_event tel = uint d \<and> 1 \<le> n \<and> te_txc tel = of_nat n
            \<and> te_dur tel = of_nat n * te_pdur tel \<and> ps = concat (map (burst (te_pdur tel)) bs) @ starts (te_pdur tel) d n)
        | ENDING \<Rightarrow> (\<exists>d n m. C = typed_keys (map fst bs) @ [d, EVENT_END] \<and> te_event tel = uint d \<and> TXC_DIGIT_MIN \<le> n \<and> m < TXC_END
            \<and> te_txc tel = of_nat m \<and> te_dur tel = of_nat n * te_pdur tel
            \<and> ps = concat (map (burst (te_pdur tel)) bs) @ starts (te_pdur tel) d n @ finishes (te_pdur tel) d n m)))"

definition queue_ok :: "telev \<Rightarrow> byte list \<Rightarrow> bool" where
  "queue_ok tel q \<longleftrightarrow> mbuf_ok (te_mb tel) \<and> mb_after (te_mb tel) = q"

lemma queue_left: "queue_ok tel q \<Longrightarrow> mbuf_get_left (te_mb tel) = length q"
  unfolding queue_ok_def using mbuf_get_left_after by metis

lemma queue_read:
  assumes "queue_ok tel (b # q)"
  shows "mbuf_read_u8 (te_mb tel) = (b, mb_adv (te_mb tel) 1)" and "mbuf_ok (mb_adv (te_mb tel) 1)" and "mb_after (mb_adv (te_mb tel) 1) = q"
proof -
  have ok: "mbuf_ok (te_mb tel)" and q: "mb_after (te_mb tel) = b # q" using assms by (simp_all add: queue_ok_def)
  then have l: "1 \<le> length (mb_after (te_mb tel))" by (simp del: length_mb_after)
  show "mbuf_read_u8 (te_mb tel) = (b, mb_adv (te_mb tel) 1)" using reads_at(2) [OF ok l] q by simp
  show "mbuf_ok (mb_adv (te_mb tel) 1)" using mbuf_ok_adv [OF ok l] .
  show "mb_after (mb_adv (te_mb tel) 1) = q" using q by simp
qed

lemma send_queue:
  assumes q: "queue_ok tel q" and r: "telev_send al tel ev fin = (None, tel')"
  shows "queue_ok tel' (q @ [if fin then EVENT_END else of_int ev])" and "\<exists>mb. tel' = tel\<lparr>te_mb := mb\<rparr>"
    and "mb_end (te_mb tel') = Suc (mb_end (te_mb tel))"
proof -
  let ?b = "if fin then EVENT_END else of_int ev" and ?mb = "te_mb tel"
  have ok: "mbuf_ok ?mb" "mb_after ?mb = q" using q by (simp_all add: queue_ok_def)
  have small: "mb_end ?mb < QUEUE_SIZE" using r by (auto simp: telev_send_def split: if_splits)
  obtain m where w: "mbuf_write_u8 al (?mb\<lparr>mb_pos := mb_end ?mb\<rparr>) ?b = (None, m)" and tel': "tel' = tel\<lparr>te_mb := m\<lparr>mb_pos := mb_pos ?mb\<rparr>\<rparr>"
    using r small by (auto simp: telev_send_def Let_def split: prod.splits)
  have v: "mbv ?mb (mb_pos ?mb) (mb_before ?mb @ q)" using mbvI [OF ok(1)] ok(2) by simp
  have e: "mb_end ?mb = length (mb_before ?mb @ q)" using mbvD(3) [OF v] .
  have "mbv (?mb\<lparr>mb_pos := mb_end ?mb\<rparr>) (mb_end ?mb) (mb_before ?mb @ q)" using mbv_set_pos [OF v] e by simp
  from mbv_writes [OF writes_prims(2) this _ w] small e
  have "mbv m (mb_end ?mb + 1) ((mb_before ?mb @ q) @ [?b])" by (simp add: QUEUE_SIZE_def size_mod_def)
  from mbv_set_pos [OF this, of "mb_pos ?mb"] mbvD(4) [OF v] have "mbv (m\<lparr>mb_pos := mb_pos ?mb\<rparr>) (mb_pos ?mb) (mb_before ?mb @ q @ [?b])" by simp
  from mbvD(1,3,5) [OF this] show "queue_ok tel' (q @ [?b])" "mb_end (te_mb tel') = Suc (mb_end ?mb)"
    using length_mb_before [OF ok(1)] e by (simp_all add: queue_ok_def tel')
  show "\<exists>mb. tel' = tel\<lparr>te_mb := mb\<rparr>" using tel' by blast
qed

definition out_ok :: "mbuf \<Rightarrow> bool" where
  "out_ok out \<longleftrightarrow> mbuf_ok out \<and> mb_after out = [] \<and> mb_pos out + 4 < size_mod"

lemma encode_out:
  assumes "alloc_total al" and "out_ok out"
  obtains mb where "payload_encode al (uint d) fin dur out = (None, mb)" and "mb_after (mb\<lparr>mb_pos := mb_pos out\<rparr>) = event_bytes (d, fin, dur)"
proof -
  obtain mb where e: "payload_encode al (uint d) fin dur out = (None, mb)"
    using encode_total [OF assms(1)] by (metis prod.collapse)
  from encode_view(2) [OF _ _ this] assms(2) that [OF e] show thesis by (simp add: out_ok_def)
qed

text \<open>The polls it takes until everything is sent, when every key that was pressed has been released.\<close>

definition todo :: "telev \<Rightarrow> byte list \<Rightarrow> nat" where
  "todo tel q =
     (case te_state tel of
        IDLE \<Rightarrow> 6 * length q
      | SENDING \<Rightarrow> (if unat (te_txc tel) < 8 then 9 - unat (te_txc tel) else 1) + 3 + 6 * (length q - 1)
      | ENDING \<Rightarrow> 3 - unat (te_txc tel) + 6 * length q)"

definition released :: "telev \<Rightarrow> byte list \<Rightarrow> bool" where
  "released tel q \<longleftrightarrow> even (length q) = (te_state tel \<noteq> SENDING)"

text \<open>A poll sends one packet, or none when there is nothing to send, and stays in phase.\<close>

definition advances :: "alloc \<Rightarrow> mbuf \<Rightarrow> telev \<Rightarrow> byte list \<Rightarrow> byte list \<Rightarrow> (bool \<times> event) list \<Rightarrow> bool" where
  "advances al out tel C q ps \<longleftrightarrow>
     (\<exists>err mrk tel' mb C' q' new. telev_poll al tel out = (err, mrk, tel', mb) \<and> queue_ok tel' q' \<and> C' @ q' = C @ q
        \<and> phase tel' C' (ps @ new) \<and> te_pdur tel' = te_pdur tel \<and> length new \<le> 1
        \<and> (released tel q \<longrightarrow> released tel' q' \<and> todo tel' q' \<le> todo tel q - 1)
        \<and> (case mrk of None \<Rightarrow> [] | Some m \<Rightarrow> [(m, mb_after (mb\<lparr>mb_pos := mb_pos out\<rparr>))]) = on_wire new)"

lemma advancesI:
  assumes "telev_poll al tel out = (err, mrk, tel', mb)" and "queue_ok tel' q'" and "C' @ q' = C @ q" and "phase tel' C' (ps @ new)"
    and "te_pdur tel' = te_pdur tel" and "length new \<le> 1"
    and "released tel q \<Longrightarrow> released tel' q' \<and> todo tel' q' \<le> todo tel q - 1"
    and "(case mrk of None \<Rightarrow> [] | Some m \<Rightarrow> [(m, mb_after (mb\<lparr>mb_pos := mb_pos out\<rparr>))]) = on_wire new"
  shows "advances al out tel C q ps"
  using assms unfolding advances_def by blast

lemma poll_idle_advances:
  assumes al: "alloc_total al" and out: "out_ok out" and q: "queue_ok tel q" and ph: "phase tel C ps" and st: "te_state tel = IDLE"
  shows "advances al out tel C q ps"
proof (cases q)
  case Nil
  then show ?thesis using q ph st queue_left [OF q]
    by (intro advancesI [of al tel out "Some ENOENT" None tel out q C _ _ _ "[]"]) (simp_all add: telev_poll_def poll_idle_def on_wire_def todo_def)
next
  case (Cons d q')
  note r = queue_read [OF q [unfolded Cons]]
  obtain bs where bs: "\<forall>b \<in> set bs. TXC_DIGIT_MIN \<le> snd b" "C = typed_keys (map fst bs)" "ps = concat (map (burst (te_pdur tel)) bs)"
    using ph st by (auto simp: phase_def)
  let ?t = "tel\<lparr>te_mb := mb_adv (te_mb tel) 1, te_event := uint d, te_dur := te_pdur tel, te_state := SENDING, te_txc := 1\<rparr>"
  obtain mb where e: "payload_encode al (uint d) False (te_pdur tel) out = (None, mb)"
      "mb_after (mb\<lparr>mb_pos := mb_pos out\<rparr>) = event_bytes (d, False, te_pdur tel)"
    by (rule encode_out [OF al out])
  show ?thesis
  proof (rule advancesI)
    show "telev_poll al tel out = (None, Some True, ?t, mb)"
      using st r(1) e(1) queue_left [OF q] Cons by (simp add: telev_poll_def poll_idle_def Let_def)
    show "queue_ok ?t q'" using r(2,3) by (simp add: queue_ok_def)
    show "phase ?t (C @ [d]) (ps @ starts (te_pdur tel) d 1)"
      unfolding phase_def using bs by (intro exI [of _ bs]) (auto intro!: exI [of _ "1 :: nat"])
    show "(case Some True of None \<Rightarrow> [] | Some m \<Rightarrow> [(m, mb_after (mb\<lparr>mb_pos := mb_pos out\<rparr>))]) = on_wire (starts (te_pdur tel) d 1)"
      using e(2) by (simp add: on_wire_def starts_def)
    show "released ?t q' \<and> todo ?t q' \<le> todo tel q - 1" if "released tel q"
    proof -
      have "odd (length q')" using that st Cons by (simp add: released_def)
      then have "1 \<le> length q'" by (metis even_zero not_less_eq_eq le_zero_eq One_nat_def)
      then show ?thesis using st Cons \<open>odd (length q')\<close> by (simp add: released_def todo_def)
    qed
  qed (simp_all add: Cons starts_def)
qed

lemma unat_txc: "n < 2 ^ 32 \<Longrightarrow> unat (of_nat n :: u32) = n"
  by (simp add: unsigned_of_nat take_bit_nat_eq_self)

lemma phase_endingI:
  assumes "te_state tel = ENDING" and "\<forall>b \<in> set bs. TXC_DIGIT_MIN \<le> snd b" and "C = typed_keys (map fst bs) @ [d, EVENT_END]" and "te_event tel = uint d"
    and "TXC_DIGIT_MIN \<le> n" and "m < TXC_END" and "te_txc tel = of_nat m" and "te_dur tel = of_nat n * te_pdur tel"
    and "ps = concat (map (burst (te_pdur tel)) bs) @ starts (te_pdur tel) d n @ finishes (te_pdur tel) d n m"
  shows "phase tel C ps"
  unfolding phase_def by (rule exI [of _ bs], simp add: assms(1), intro conjI assms(2) exI [of _ d] exI [of _ n] exI [of _ m] assms(3-9))

lemma poll_sending_advances:
  assumes al: "alloc_total al" and out: "out_ok out" and q: "queue_ok tel q" and ph: "phase tel C ps" and st: "te_state tel = SENDING"
    and key: "q \<noteq> [] \<Longrightarrow> hd q = EVENT_END" and short: "Suc (length ps) < 2 ^ 32"
  shows "advances al out tel C q ps"
proof -
  obtain bs d n where bs: "\<forall>b \<in> set bs. TXC_DIGIT_MIN \<le> snd b" and C: "C = typed_keys (map fst bs) @ [d]" and ev: "te_event tel = uint d"
      and n: "1 \<le> n" "te_txc tel = of_nat n" "te_dur tel = of_nat n * te_pdur tel"
      and ps: "ps = concat (map (burst (te_pdur tel)) bs) @ starts (te_pdur tel) d n"
    using ph st by (auto simp: phase_def)
  have "n \<le> length ps" by (simp add: ps starts_def)
  then have txc: "unat (te_txc tel + 1) = Suc n" using short n(2) unat_txc [of "Suc n"] by (simp add: add.commute)
  have txc0: "unat (te_txc tel) = n" using \<open>n \<le> length ps\<close> short n(2) unat_txc [of n] by simp
  let ?dur = "of_nat (Suc n) * te_pdur tel" and ?new = "[(False, (d, False, of_nat (Suc n) * te_pdur tel))]"
  obtain mb where e: "payload_encode al (uint d) False ?dur out = (None, mb)"
      "mb_after (mb\<lparr>mb_pos := mb_pos out\<rparr>) = event_bytes (d, False, ?dur)"
    by (rule encode_out [OF al out])
  have dur: "te_dur tel + te_pdur tel = ?dur" using n(3) by (simp add: algebra_simps)
  have st': "ps @ ?new = concat (map (burst (te_pdur tel)) bs) @ starts (te_pdur tel) d (Suc n)" using n(1) by (simp add: ps starts_Suc)
  let ?t = "tel\<lparr>te_dur := ?dur, te_txc := te_txc tel + 1\<rparr>"
  show ?thesis
  proof (cases "Suc n < TXC_DIGIT_MIN \<or> q = []")
    case True
    show ?thesis
    proof (rule advancesI)
      show "telev_poll al tel out = (None, Some False, ?t, mb)"
        using True st e(1) ev dur txc queue_left [OF q] by (auto simp: telev_poll_def poll_sending_def Let_def)
      show "phase ?t C (ps @ ?new)"
        unfolding phase_def st' using st bs C ev n(2) by (intro exI [of _ bs]) (auto intro!: exI [of _ "Suc n"] simp: add.commute)
      show "released ?t q \<and> todo ?t q \<le> todo tel q - 1" if "released tel q"
      proof -
        have "q \<noteq> []" using that st by (auto simp: released_def)
        then show ?thesis using that st txc txc0 True by (auto simp: released_def todo_def TXC_DIGIT_MIN_def)
      qed
    qed (use q e(2) in \<open>simp_all add: queue_ok_def on_wire_def\<close>)
  next
    case False
    then obtain q' where q': "q = EVENT_END # q'" using key by (cases q) auto
    note r = queue_read [OF q [unfolded q']]
    let ?t' = "?t\<lparr>te_mb := mb_adv (te_mb tel) 1, te_state := ENDING, te_txc := 0\<rparr>"
    show ?thesis
    proof (rule advancesI)
      show "telev_poll al tel out = (None, Some False, ?t', mb)"
        using False st e(1) ev dur txc queue_left [OF q] r(1) q' by (auto simp: telev_poll_def poll_sending_def Let_def)
      show "queue_ok ?t' q'" using r(2,3) by (simp add: queue_ok_def)
      show "phase ?t' (C @ [EVENT_END]) (ps @ ?new)"
        unfolding st' using bs C ev False
        by (intro phase_endingI [of _ bs _ d "Suc n" 0]) (simp_all add: TXC_END_def finishes_def)
      show "released ?t' q' \<and> todo ?t' q' \<le> todo tel q - 1" if "released tel q"
        using that st txc0 False q' by (auto simp: released_def todo_def TXC_DIGIT_MIN_def)
    qed (use e(2) q' in \<open>simp_all add: on_wire_def\<close>)
  qed
qed

lemma poll_ending_advances:
  assumes al: "alloc_total al" and out: "out_ok out" and q: "queue_ok tel q" and ph: "phase tel C ps" and st: "te_state tel = ENDING"
  shows "advances al out tel C q ps"
proof -
  obtain bs d n m where bs: "\<forall>b \<in> set bs. TXC_DIGIT_MIN \<le> snd b" and C: "C = typed_keys (map fst bs) @ [d, EVENT_END]" and ev: "te_event tel = uint d"
      and n: "TXC_DIGIT_MIN \<le> n" "m < TXC_END" "te_txc tel = of_nat m" "te_dur tel = of_nat n * te_pdur tel"
      and ps: "ps = concat (map (burst (te_pdur tel)) bs) @ starts (te_pdur tel) d n @ finishes (te_pdur tel) d n m"
    using ph st by (auto simp: phase_def)
  have txc: "unat (te_txc tel + 1) = Suc m" using n(2,3) unat_txc [of "Suc m"] by (simp add: add.commute TXC_END_def)
  have txc0: "unat (te_txc tel) = m" using n(2,3) unat_txc [of m] by (simp add: TXC_END_def)
  let ?dur = "of_nat n * te_pdur tel" and ?new = "[(False, (d, True, of_nat n * te_pdur tel))]"
  obtain mb where e: "payload_encode al (uint d) True ?dur out = (None, mb)"
      "mb_after (mb\<lparr>mb_pos := mb_pos out\<rparr>) = event_bytes (d, True, ?dur)"
    by (rule encode_out [OF al out])
  have st': "ps @ ?new = concat (map (burst (te_pdur tel)) bs) @ starts (te_pdur tel) d n @ finishes (te_pdur tel) d n (Suc m)"
    by (simp add: ps finishes_Suc)
  let ?t = "tel\<lparr>te_txc := te_txc tel + 1\<rparr>"
  show ?thesis
  proof (cases "Suc m < TXC_END")
    case True
    show ?thesis
    proof (rule advancesI)
      show "telev_poll al tel out = (None, Some False, ?t, mb)"
        using True st e(1) ev n(4) txc by (simp add: telev_poll_def poll_ending_def)
      show "phase ?t C (ps @ ?new)"
        unfolding st' using st bs C ev n True by (intro phase_endingI [of _ bs _ d n "Suc m"]) (simp_all add: add.commute)
      show "released ?t q \<and> todo ?t q \<le> todo tel q - 1" if "released tel q"
        using that st txc txc0 True by (simp add: released_def todo_def TXC_END_def)
    qed (use q e(2) in \<open>simp_all add: queue_ok_def on_wire_def\<close>)
  next
    case False
    then have m: "Suc m = TXC_END" using n(2) by simp
    let ?t' = "(if q = [] then ?t\<lparr>te_mb := (te_mb tel)\<lparr>mb_pos := 0, mb_end := 0\<rparr>\<rparr> else ?t)\<lparr>te_state := IDLE\<rparr>"
    show ?thesis
    proof (rule advancesI)
      show "telev_poll al tel out = (None, Some False, ?t', mb)"
        using m st e(1) ev n(4) txc queue_left [OF q] by (simp add: telev_poll_def poll_ending_def)
      show "queue_ok ?t' q" using q by (simp add: queue_ok_def mbuf_ok_def mb_after_def)
      show "phase ?t' C (ps @ ?new)"
        unfolding phase_def st' using bs C n(1) m
        by (intro exI [of _ "bs @ [(d, n)]"]) (auto simp: typed_keys_def burst_def)
      show "released ?t' q \<and> todo ?t' q \<le> todo tel q - 1" if "released tel q"
        using that st txc0 m by (simp add: released_def todo_def TXC_END_def)
    qed (use e(2) in \<open>simp_all add: on_wire_def\<close>)
  qed
qed

lemma typed_keys_odd: "i < length (typed_keys ds) \<Longrightarrow> odd i \<Longrightarrow> typed_keys ds ! i = EVENT_END"
proof (induction ds arbitrary: i)
  case (Cons d ds)
  show ?case
  proof (cases "i = 1")
    case True
    then show ?thesis by (simp add: typed_keys_def)
  next
    case False
    then obtain j where "i = Suc (Suc j)" using Cons.prems(2) by (metis One_nat_def even_zero not0_implies_Suc)
    then show ?thesis using Cons.IH [of j] Cons.prems by (simp add: typed_keys_def)
  qed
qed (simp add: typed_keys_def)

lemma length_typed_keys: "length (typed_keys ds) = 2 * length ds"
  by (induction ds) (simp_all add: typed_keys_def)

lemma typed_keys_inj: "typed_keys as = typed_keys bs \<Longrightarrow> as = bs"
proof (induction as arbitrary: bs)
  case (Cons a as)
  then show ?case by (cases bs) (auto simp: typed_keys_def)
qed (auto simp: typed_keys_def)

text \<open>After a digit the next byte of the queue is the release.\<close>

lemma release_next:
  assumes "phase tel C ps" and "te_state tel = SENDING" and "C @ q @ rest = typed_keys ds" and "q \<noteq> []"
  shows "hd q = EVENT_END"
proof -
  have "odd (length C)" using assms(1,2) by (auto simp: phase_def length_typed_keys)
  moreover have "(C @ q @ rest) ! length C = hd q" using assms(4) by (simp add: nth_append hd_conv_nth)
  moreover have "length C < length (typed_keys ds)" using assms(3,4) by (metis length_append length_greater_0_conv less_add_same_cancel1 trans_less_add1)
  ultimately show ?thesis using typed_keys_odd assms(3) by metis
qed

lemma poll_advances:
  assumes "alloc_total al" and "out_ok out" and "queue_ok tel q" and "phase tel C ps" and "C @ q @ rest = typed_keys ds" and "Suc (length ps) < 2 ^ 32"
  shows "advances al out tel C q ps"
proof (cases "te_state tel")
  case IDLE
  then show ?thesis using poll_idle_advances assms by blast
next
  case SENDING
  have "hd q = EVENT_END" if "q \<noteq> []" using release_next [OF assms(4) SENDING assms(5) that] .
  then show ?thesis using poll_sending_advances SENDING assms by blast
next
  case ENDING
  then show ?thesis using poll_ending_advances assms by blast
qed

lemma run_phase:
  assumes "tel_run al out tel ops = Some (tel', pkts)" and "alloc_total al" and "out_ok out" and "queue_ok tel q" and "phase tel C ps"
    and "C @ q @ sends ops = typed_keys ds" and "length ps + length ops < 2 ^ 32"
  shows "\<exists>C' q' new. queue_ok tel' q' \<and> phase tel' C' (ps @ new) \<and> C' @ q' = typed_keys ds \<and> pkts = on_wire new \<and> te_pdur tel' = te_pdur tel
    \<and> length new \<le> length ops"
  using assms
proof (induction al out tel ops arbitrary: q C ps pkts rule: tel_run.induct)
  case (1 al out tel)
  then show ?case by (intro exI [of _ C] exI [of _ q] exI [of _ "[]"]) (simp add: on_wire_def)
next
  case (2 al out tel ev fin ops)
  obtain t where t: "telev_send al tel ev fin = (None, t)" and run: "tel_run al out t ops = Some (tel', pkts)"
    using "2.prems"(1) by (auto split: prod.splits option.splits)
  note s = send_queue [OF "2.prems"(4) t]
  then obtain mb where mb: "t = tel\<lparr>te_mb := mb\<rparr>" by blast
  have ph: "phase t C ps" using "2.prems"(5) by (cases "te_state tel") (simp_all add: phase_def mb)
  have "C @ (q @ [if fin then EVENT_END else of_int ev]) @ sends ops = typed_keys ds" "length ps + length ops < 2 ^ 32"
    using "2.prems"(6,7) by simp_all
  from "2.IH" [OF t [symmetric] refl run "2.prems"(2,3) s(1) ph this]
  obtain C' q' new where "queue_ok tel' q'" "phase tel' C' (ps @ new)" "C' @ q' = typed_keys ds" "pkts = on_wire new" "te_pdur tel' = te_pdur t"
      "length new \<le> length ops" by blast
  then show ?case using mb by (intro exI [of _ C'] exI [of _ q'] exI [of _ new]) simp
next
  case (3 al out tel ops)
  have "advances al out tel C q ps" using poll_advances "3.prems"(2-7) by auto
  then obtain err mrk t mb C' q' new where p: "telev_poll al tel out = (err, mrk, t, mb)" and a: "queue_ok t q'" "C' @ q' = C @ q"
      "phase t C' (ps @ new)" "te_pdur t = te_pdur tel" "length new \<le> 1"
      and "released tel q \<longrightarrow> released t q' \<and> todo t q' \<le> todo tel q - 1" and w: "(case mrk of None \<Rightarrow> [] | Some m \<Rightarrow> [(m, mb_after (mb\<lparr>mb_pos := mb_pos out\<rparr>))]) = on_wire new"
    unfolding advances_def by blast
  obtain more where run: "tel_run al out t ops = Some (tel', more)" and pkts: "pkts = on_wire new @ more"
    using "3.prems"(1) p w by auto
  have "C' @ q' @ sends ops = typed_keys ds" using a(2) "3.prems"(6) by (metis append.assoc sends.simps(3))
  moreover have "length (ps @ new) + length ops < 2 ^ 32" using a(5) "3.prems"(7) by simp
  ultimately obtain C2 q2 new2 where "queue_ok tel' q2" "phase tel' C2 ((ps @ new) @ new2)" "C2 @ q2 = typed_keys ds" "more = on_wire new2"
      "te_pdur tel' = te_pdur t" "length new2 \<le> length ops"
    using "3.IH" [OF p [symmetric] refl refl run "3.prems"(2,3) a(1,3)] by auto
  then show ?case using pkts a(4,5) by (intro exI [of _ C2] exI [of _ q2] exI [of _ "new @ new2"]) (simp add: on_wire_def)
qed

lemma tel_run_append:
  "tel_run al out tel (a @ b) =
     (case tel_run al out tel a of None \<Rightarrow> None | Some (t, p) \<Rightarrow> map_option (apsnd (append p)) (tel_run al out t b))"
proof (induction al out tel a rule: tel_run.induct)
  case (1 al out tel)
  show ?case by (cases "tel_run al out tel b") auto
next
  case (2 al out tel ev fin ops)
  then show ?case by (auto split: prod.splits option.splits)
next
  case (3 al out tel ops)
  obtain err mrk t mb where p: "telev_poll al tel out = (err, mrk, t, mb)" by (cases "telev_poll al tel out") auto
  show ?case
  proof (cases "tel_run al out t ops")
    case None
    then show ?thesis using "3.IH" [OF p [symmetric] refl refl] by (simp add: p)
  next
    case (Some r)
    obtain t' q where r: "r = (t', q)" by fastforce
    then show ?thesis using "3.IH" [OF p [symmetric] refl refl] Some by (cases "tel_run al out t' b") (auto simp: p)
  qed
qed

lemma todo_zero: "phase tel C ps \<Longrightarrow> queue_ok tel q \<Longrightarrow> todo tel q = 0 \<Longrightarrow> telev_is_empty tel"
proof -
  assume ph: "phase tel C ps" and q: "queue_ok tel q" and z: "todo tel q = 0"
  show ?thesis
  proof (cases "te_state tel")
    case IDLE
    then show ?thesis using z queue_left [OF q] by (simp add: telev_is_empty_def todo_def)
  next
    case SENDING
    then show ?thesis using z by (simp add: todo_def)
  next
    case ENDING
    then obtain m where "m < TXC_END" "te_txc tel = of_nat m" using ph by (auto simp: phase_def)
    then show ?thesis using z ENDING unat_txc [of m] by (simp add: todo_def TXC_END_def)
  qed
qed

lemma todo_typed:
  assumes "phase tel C ps" and "C @ q = typed_keys ds"
  shows "released tel q" and "todo tel q \<le> 12 * length ds"
proof -
  have l: "length C + length q = 2 * length ds" using arg_cong [OF assms(2), of length] by (simp add: length_typed_keys)
  obtain k where k: "length C = (case te_state tel of IDLE \<Rightarrow> 2 * k | SENDING \<Rightarrow> Suc (2 * k) | ENDING \<Rightarrow> 2 * Suc k)"
    using assms(1) by (cases "te_state tel") (auto simp: phase_def length_typed_keys)
  show "released tel q" using l k by (cases "te_state tel") (auto simp: released_def, presburger+)
  have "1 \<le> length q" if "te_state tel = SENDING" using l k that by (cases "length q") (simp, presburger, simp)
  then show "todo tel q \<le> 12 * length ds" using l k by (cases "te_state tel") (auto simp: todo_def)
qed

text \<open>Polling empties the queue.\<close>

lemma drain:
  assumes "alloc_total al" and "out_ok out" and "queue_ok tel q" and "phase tel C ps" and "C @ q = typed_keys ds" and "todo tel q \<le> n"
    and "length ps + n < 2 ^ 32"
  shows "\<exists>tel' pkts. tel_run al out tel (replicate n Tel_poll) = Some (tel', pkts) \<and> telev_is_empty tel'"
  using assms
proof (induction n arbitrary: tel q C ps)
  case 0
  then show ?case using todo_zero by auto
next
  case (Suc n)
  have "advances al out tel C q ps" using poll_advances [of al out tel q C ps "[]" ds] Suc.prems by simp
  then obtain err mrk t mb C' q' new where p: "telev_poll al tel out = (err, mrk, t, mb)" and a: "queue_ok t q'" "C' @ q' = C @ q"
      "phase t C' (ps @ new)" "length new \<le> 1" "released tel q \<longrightarrow> released t q' \<and> todo t q' \<le> todo tel q - 1"
    unfolding advances_def by blast
  have "todo t q' \<le> n" using a(5) todo_typed(1) [OF Suc.prems(4,5)] Suc.prems(6) by auto
  then obtain tel' pkts where "tel_run al out t (replicate n Tel_poll) = Some (tel', pkts)" "telev_is_empty tel'"
    using Suc.IH [OF Suc.prems(1,2) a(1,3)] a(2,4) Suc.prems(5,7) by auto
  then show ?case using p by auto
qed

section \<open>The receiver\<close>

fun tel_receive :: "telev \<Rightarrow> byte list list \<Rightarrow> (int \<times> bool) list" where
  "tel_receive tel [] = []"
| "tel_receive tel (p # ps) =
     (case telev_recv tel (mbuf_of p) of
        (Inr e, tel, _) \<Rightarrow> e # tel_receive tel ps
      | (Inl _, tel, _) \<Rightarrow> tel_receive tel ps)"

definition heard :: "(bool \<times> event) list \<Rightarrow> byte list list" where
  "heard ps = map (event_bytes \<circ> snd) ps"

lemma recv_packet:
  "\<exists>mb. telev_recv tel (mbuf_of (event_bytes (d, fin, dur))) =
     (if fin then if te_rx_end tel then (Inl EALREADY, tel, mb) else (Inr (uint d, True), tel\<lparr>te_rx_event := - 1, te_rx_end := True\<rparr>, mb)
      else if uint d = te_rx_event tel then (Inl EALREADY, tel, mb)
      else (Inr (uint d, False), tel\<lparr>te_rx_event := uint d, te_rx_end := False\<rparr>, mb))"
proof -
  have "mbuf_ok (mbuf_of (event_bytes (d, fin, dur)))" using mbuf_of_view(1) [of "event_bytes (d, fin, dur)"] by (simp add: size_mod_def)
  from decode_packet [OF this, of d fin dur "[]"] mbuf_of_view(2) obtain mb where
    "payload_decode (mbuf_of (event_bytes (d, fin, dur))) = (Inr \<lparr>fmt_event = d, fmt_end = fin, fmt_vol = VOLUME, fmt_dur = dur\<rparr>, mb)" by auto
  then show ?thesis by (intro exI [of _ mb]) (simp add: telev_recv_def)
qed

lemma receive_starts:
  assumes "\<forall>p \<in> set ps. \<exists>m dur. p = (m, (d, False, dur))"
  shows "tel_receive tel (heard ps @ rest) =
    (if ps = [] \<or> te_rx_event tel = uint d then tel_receive tel rest
     else (uint d, False) # tel_receive (tel\<lparr>te_rx_event := uint d, te_rx_end := False\<rparr>) rest)"
  using assms
proof (induction ps arbitrary: tel)
  case (Cons p ps)
  obtain m dur where p: "p = (m, (d, False, dur))" using Cons.prems by auto
  show ?case using Cons recv_packet [of tel d False dur] by (auto simp: p heard_def)
qed (simp add: heard_def)

lemma receive_finishes:
  assumes "\<forall>p \<in> set ps. \<exists>m dur. p = (m, (d, True, dur))"
  shows "tel_receive tel (heard ps @ rest) =
    (if ps = [] \<or> te_rx_end tel then tel_receive tel rest
     else (uint d, True) # tel_receive (tel\<lparr>te_rx_event := - 1, te_rx_end := True\<rparr>) rest)"
  using assms
proof (induction ps arbitrary: tel)
  case (Cons p ps)
  obtain m dur where p: "p = (m, (d, True, dur))" using Cons.prems by auto
  show ?case using Cons recv_packet [of tel d True dur] by (auto simp: p heard_def)
qed (simp add: heard_def)

text \<open>What may arrive of a burst: some of its packets in order, at least one before and one after the release.\<close>

definition enough :: "u16 \<Rightarrow> u8 \<times> nat \<Rightarrow> (bool \<times> event) list \<Rightarrow> bool" where
  "enough pd b g \<longleftrightarrow> subseq g (burst pd b) \<and> (\<exists>p \<in> set g. \<not> fst (snd (snd p))) \<and> (\<exists>p \<in> set g. fst (snd (snd p)))"

lemma subseq_subset: "subseq xs ys \<Longrightarrow> x \<in> set xs \<Longrightarrow> x \<in> set ys"
  by (induction rule: list_emb.induct) auto

lemma receive_burst:
  assumes "enough pd (d, n) g" and "te_rx_event tel = - 1"
  shows "\<exists>tel'. tel_receive tel (heard g @ rest) = (uint d, False) # (uint d, True) # tel_receive tel' rest \<and> te_rx_event tel' = - 1"
proof -
  have "subseq g (starts pd d n @ finishes pd d n TXC_END)" using assms(1) by (simp add: enough_def burst_def)
  then obtain g1 g2 where g: "g = g1 @ g2" and s1: "subseq g1 (starts pd d n)" and s2: "subseq g2 (finishes pd d n TXC_END)"
    by (rule subseq_appendE)
  have "set g1 \<subseteq> set (starts pd d n)" "set g2 \<subseteq> set (finishes pd d n TXC_END)"
    using s1 s2 by (auto dest: subseq_subset)
  then have a: "\<forall>p \<in> set g1. \<exists>m dur. p = (m, (d, False, dur))" and b: "\<forall>p \<in> set g2. \<exists>m dur. p = (m, (d, True, dur))"
    by (auto simp: starts_def finishes_def set_replicate_conv_if split: if_splits)
  have "g1 \<noteq> []" "g2 \<noteq> []" using assms(1) a b by (fastforce simp: enough_def g)+
  moreover have "heard g @ rest = heard g1 @ heard g2 @ rest" by (simp add: heard_def g)
  moreover have "uint d \<noteq> - 1" using unsigned_greater_eq [of d, where ?'a = int] by linarith
  ultimately show ?thesis using receive_starts [OF a, of tel "heard g2 @ rest"] receive_finishes [OF b] assms(2) by auto
qed

lemma receive_bursts:
  assumes "list_all2 (enough pd) bs gs" and "te_rx_event tel = - 1"
  shows "tel_receive tel (heard (concat gs)) = concat (map (\<lambda>b. [(uint (fst b), False), (uint (fst b), True)]) bs)"
  using assms
proof (induction arbitrary: tel rule: list_all2_induct)
  case (Cons b bs g gs)
  obtain d n where b: "b = (d, n)" by fastforce
  obtain t where "tel_receive tel (heard g @ heard (concat gs)) = (uint d, False) # (uint d, True) # tel_receive t (heard (concat gs))"
      "te_rx_event t = - 1"
    using receive_burst [of pd d n g tel "heard (concat gs)"] Cons b by auto
  then show ?case using Cons.IH [of t] by (simp add: b heard_def)
qed (simp add: heard_def)

section \<open>Digits are delivered\<close>

text \<open>C15: keypad digits arrive. Keys are pressed and released in turn, with polls anywhere in between; twelve more polls for
  each digit empty the queue. Then the packets are one burst per digit, in order: at least nine packets of growing
  duration, the first marked, and three that end the digit. A receiver to whom at least one packet of the start and one
  of the end of every burst come through reports each digit pressed and released, once and in order.\<close>

theorem telev_digits_delivered:
  assumes tel: "telev_alloc al0 ptime = Inr tel" and rx: "telev_alloc al1 ptime1 = Inr rx"
    and run: "tel_run al out tel ops = Some (tel1, pkts1)" and keys: "sends ops = typed_keys ds"
    and al: "alloc_total al" and out: "out_ok out" and n: "12 * length ds \<le> n" and short: "length ops + n < 2 ^ 32"
  shows "\<exists>tel' pkts bs. tel_run al out tel (ops @ replicate n Tel_poll) = Some (tel', pkts) \<and> telev_is_empty tel'
    \<and> map fst bs = ds \<and> (\<forall>b \<in> set bs. TXC_DIGIT_MIN \<le> snd b) \<and> pkts = on_wire (concat (map (burst (te_pdur tel)) bs))
    \<and> (\<forall>gs. list_all2 (enough (te_pdur tel)) bs gs \<longrightarrow>
        tel_receive rx (heard (concat gs)) = concat (map (\<lambda>d. [(uint d, False), (uint d, True)]) ds))"
proof -
  have "mbuf_ok (te_mb tel)" "mb_after (te_mb tel) = []" and idle: "te_state tel = IDLE"
    using tel mbuf_alloc_ok [of al0 16] by (auto simp: telev_alloc_def size_mod_def split: if_splits option.splits)
  then have q: "queue_ok tel []" by (simp add: queue_ok_def)
  have ph: "phase tel [] []" using idle by (auto simp: phase_def typed_keys_def intro!: exI [of _ "[]"])
  obtain C1 q1 new1 where r1: "queue_ok tel1 q1" "phase tel1 C1 new1" "C1 @ q1 = typed_keys ds" "pkts1 = on_wire new1" "length new1 \<le> length ops"
    using run_phase [OF run al out q ph, of ds] keys short by auto
  have "todo tel1 q1 \<le> n" using todo_typed(2) [OF r1(2,3)] n by simp
  then obtain tel' pkts2 where d: "tel_run al out tel1 (replicate n Tel_poll) = Some (tel', pkts2)" "telev_is_empty tel'"
    using drain [OF al out r1(1-3), of n] r1(5) short by auto
  let ?ops = "ops @ replicate n Tel_poll"
  have run2: "tel_run al out tel ?ops = Some (tel', pkts1 @ pkts2)" using run d(1) by (simp add: tel_run_append)
  have "sends ?ops = typed_keys ds" using keys by (simp add: sends_append sends_polls)
  then obtain C q' new where r: "queue_ok tel' q'" "phase tel' C new" "C @ q' = typed_keys ds" "pkts1 @ pkts2 = on_wire new" "te_pdur tel' = te_pdur tel"
    using run_phase [OF run2 al out q ph, of ds] short by auto
  have "te_state tel' = IDLE" "q' = []" using d(2) queue_left [OF r(1)] by (simp_all add: telev_is_empty_def)
  then obtain bs where bs: "\<forall>b \<in> set bs. TXC_DIGIT_MIN \<le> snd b" "typed_keys ds = typed_keys (map fst bs)" "new = concat (map (burst (te_pdur tel)) bs)"
    using r by (auto simp: phase_def)
  have ds: "ds = map fst bs" using bs(2) typed_keys_inj by metis
  have "te_rx_event rx = - 1" using rx by (auto simp: telev_alloc_def split: if_splits option.splits)
  then have "tel_receive rx (heard (concat gs)) = concat (map (\<lambda>d. [(uint d, False), (uint d, True)]) ds)"
    if "list_all2 (enough (te_pdur tel)) bs gs" for gs
    using receive_bursts [OF that] by (simp add: ds comp_def)
  then show ?thesis using run2 d(2) bs r(4) ds by (intro exI [of _ tel'] exI [of _ "pkts1 @ pkts2"] exI [of _ bs]) simp
qed

text \<open>The key 5, pressed and released before the first poll.\<close>

lemma burst_enough: "1 \<le> n \<Longrightarrow> enough pd (d, n) (burst pd (d, n))"
  by (auto simp: enough_def burst_def starts_def finishes_def TXC_END_def intro!: bexI [of _ "(False, d, True, of_nat n * pd)"] exI [of _ "0 :: nat"])

lemma send_total:
  assumes "alloc_total al" and "mb_end (te_mb tel) < QUEUE_SIZE"
  shows "fst (telev_send al tel ev fin) = None"
  using assms write_total [of al] by (simp add: telev_send_def Let_def mbuf_write_u8_def split: prod.splits) (metis fst_conv)

theorem telev_digits_delivered_witness:
  "\<exists>tel tel' pkts. telev_alloc al_zero 50 = Inr tel
    \<and> tel_run al_zero (mbuf_of []) tel ([Tel_send 5 False, Tel_send 5 True] @ replicate 12 Tel_poll) = Some (tel', pkts)
    \<and> telev_is_empty tel' \<and> tel_receive tel (map snd pkts) = [(5, False), (5, True)]"
proof -
  obtain tel where tel: "telev_alloc al_zero 50 = Inr tel" and mb: "mbuf_ok (te_mb tel)" "mb_end (te_mb tel) = 0"
  proof -
    obtain mb where a: "mbuf_alloc al_zero 16 = Some mb" by (auto simp: mbuf_alloc_def mbuf_resize_def al_zero_def)
    note ok = mbuf_alloc_ok [OF a]
    then have "mbuf_ok mb" "mb_end mb = 0" using length_mb_before [of mb] length_mb_after [of mb]
      by (auto simp: size_mod_def mbuf_ok_def simp del: length_mb_before length_mb_after)
    then show thesis using that a by (auto simp: telev_alloc_def al_zero_def)
  qed
  obtain t1 where s1: "telev_send al_zero tel 5 False = (None, t1)"
    using send_total [OF al_zero_total, of tel 5 False] mb by (metis QUEUE_SIZE_def prod.collapse zero_less_numeral)
  have q0: "queue_ok tel []" using mb by (simp add: queue_ok_def mb_after_def)
  note q1 = send_queue [OF q0 s1]
  obtain t2 where s2: "telev_send al_zero t1 5 True = (None, t2)"
    using send_total [OF al_zero_total, of t1 5 True] q1(3) mb by (metis QUEUE_SIZE_def prod.collapse Suc_less_eq one_less_numeral_iff semiring_norm(76) One_nat_def numeral_eq_Suc)
  let ?ops = "[Tel_send 5 False, Tel_send 5 True]"
  have run: "tel_run al_zero (mbuf_of []) tel ?ops = Some (t2, [])" using s1 s2 by simp
  have out: "out_ok (mbuf_of [])" using mbuf_of_view [of "[]"] by (simp add: out_ok_def mbuf_of_def size_mod_def)
  have keys: "sends ?ops = typed_keys [5]" by (simp add: typed_keys_def)
  have n12: "12 * length [5 :: u8] \<le> 12" "length ?ops + 12 < 2 ^ 32" by simp_all
  obtain tel' pkts bs where r: "tel_run al_zero (mbuf_of []) tel (?ops @ replicate 12 Tel_poll) = Some (tel', pkts)" "telev_is_empty tel'"
      and bs: "map fst bs = [5]" "\<forall>b \<in> set bs. TXC_DIGIT_MIN \<le> snd b" and pkts: "pkts = on_wire (concat (map (burst (te_pdur tel)) bs))"
      and rec: "\<forall>gs. list_all2 (enough (te_pdur tel)) bs gs \<longrightarrow> tel_receive tel (heard (concat gs)) = concat (map (\<lambda>d. [(uint d, False), (uint d, True)]) [5 :: u8])"
    using telev_digits_delivered [OF tel tel run keys al_zero_total out n12] by (elim exE conjE) (rule that, assumption+)
  obtain n where b: "bs = [(5, n)]" and n: "1 \<le> n" using bs by (auto simp: map_eq_Cons_conv TXC_DIGIT_MIN_def)
  have "heard (burst (te_pdur tel) (5, n)) = map snd pkts" by (simp add: pkts b on_wire_def heard_def)
  then have "tel_receive tel (map snd pkts) = [(5, False), (5, True)]"
    using spec [OF rec, of "[burst (te_pdur tel) (5, n)]"] burst_enough [OF n] by (simp add: b)
  then show ?thesis using tel r by blast
qed

end
