(* ===== verification/Tmr.thy ===== *)
theory Tmr
  imports Prelude
begin

text \<open>
  Timers, \<open>re/src/tmr/tmr.c\<close>: the list of a thread, ordered by expiry, and the functions on it.

  A timer is named by its address, a number; the structures are a map from addresses, the list holds the
  linked ones in order (the pointer list itself is \<open>Linked_List\<close>). A handler with its argument is a number.
  One thread is modelled: its lock is always free. The clock is an argument; of the allocation of a list,
  whether there is memory and what \<open>mutex_alloc\<close> returns are.
\<close>

section \<open>Model\<close>

record tmr =
  t_active :: bool
  t_th :: "nat option"
  t_jfs :: u64

record tmrl =
  tl_list :: "nat list"
  tl_tmr :: "nat \<Rightarrow> tmr"

definition tmr_zero :: tmr where
  "tmr_zero = \<lparr>t_active = False, t_th = None, t_jfs = 0\<rparr>"

definition tmrl_new :: tmrl where
  "tmrl_new = \<lparr>tl_list = [], tl_tmr = (\<lambda>_. tmr_zero)\<rparr>"

definition tmrl_alloc :: "bool \<Rightarrow> errno option \<Rightarrow> errno + tmrl" where
  "tmrl_alloc mem mutex = (if \<not> mem then Inl ENOMEM else case mutex of Some e \<Rightarrow> Inl e | None \<Rightarrow> Inr tmrl_new)"

definition tmrl_destructor :: "tmrl \<Rightarrow> tmrl" where
  "tmrl_destructor tq = tq\<lparr>tl_list := []\<rparr>"

abbreviation jfs :: "tmrl \<Rightarrow> nat \<Rightarrow> u64" where
  "jfs tq k \<equiv> t_jfs (tl_tmr tq k)"

definition tmr_upd :: "nat \<Rightarrow> (tmr \<Rightarrow> tmr) \<Rightarrow> tmrl \<Rightarrow> tmrl" where
  "tmr_upd k f tq = tq\<lparr>tl_tmr := (tl_tmr tq)(k := f (tl_tmr tq k))\<rparr>"

text \<open>\<open>tmr_init\<close> clears the structure and nothing else: a timer must not be in a list then.\<close>

definition tmr_init :: "nat \<Rightarrow> tmrl \<Rightarrow> tmrl" where
  "tmr_init k tq = tmr_upd k (\<lambda>_. tmr_zero) tq"

definition inspos_handler :: "tmrl \<Rightarrow> u64 \<Rightarrow> nat \<Rightarrow> bool" where
  "inspos_handler tq now k \<longleftrightarrow> jfs tq k \<le> now"

definition inspos_handler_0 :: "tmrl \<Rightarrow> u64 \<Rightarrow> nat \<Rightarrow> bool" where
  "inspos_handler_0 tq now k \<longleftrightarrow> jfs tq k > now"

text \<open>\<open>list_apply\<close> from the head with \<open>list_insert_before\<close>, and from the tail with \<open>list_insert_after\<close>.\<close>

definition insert_before_first :: "(nat \<Rightarrow> bool) \<Rightarrow> nat \<Rightarrow> nat list \<Rightarrow> nat list" where
  "insert_before_first P k ks = takeWhile (\<lambda>x. \<not> P x) ks @ k # dropWhile (\<lambda>x. \<not> P x) ks"

definition insert_after_last :: "(nat \<Rightarrow> bool) \<Rightarrow> nat \<Rightarrow> nat list \<Rightarrow> nat list" where
  "insert_after_last P k ks =
     rev (dropWhile (\<lambda>x. \<not> P x) (rev ks)) @ k # rev (takeWhile (\<lambda>x. \<not> P x) (rev ks))"

definition tmr_unlink :: "nat \<Rightarrow> tmrl \<Rightarrow> tmrl" where
  "tmr_unlink k tq = (if t_th (tl_tmr tq k) \<noteq> None then tq\<lparr>tl_list := filter (\<lambda>x. x \<noteq> k) (tl_list tq)\<rparr> else tq)"

definition tmr_link :: "u64 \<Rightarrow> nat \<Rightarrow> tmrl \<Rightarrow> tmrl" where
  "tmr_link delay k tq = tq\<lparr>tl_list :=
     (if delay = 0 then insert_before_first (inspos_handler_0 tq (jfs tq k)) k (tl_list tq)
      else insert_after_last (inspos_handler tq (jfs tq k)) k (tl_list tq))\<rparr>"

definition tmr_startcont_dbg :: "u64 \<Rightarrow> nat \<Rightarrow> u64 \<Rightarrow> bool \<Rightarrow> nat option \<Rightarrow> tmrl \<Rightarrow> tmrl" where
  "tmr_startcont_dbg now k delay syncnow th tq =
     (if \<not> t_active (tl_tmr tq k) \<and> th = None then tq
      else
        (let tq = tmr_upd k (\<lambda>t. t\<lparr>t_active := False\<rparr>) tq;
             tq = tmr_unlink k tq;
             tq = tmr_upd k (\<lambda>t. t\<lparr>t_th := th\<rparr>) tq
         in if th = None then tq
            else
              (let tq = tmr_upd k (\<lambda>t. t\<lparr>t_jfs := (if syncnow then now else t_jfs t) + delay\<rparr>) tq;
                   tq = tmr_link delay k tq
               in tmr_upd k (\<lambda>t. t\<lparr>t_active := True\<rparr>) tq)))"

definition tmr_start_dbg :: "u64 \<Rightarrow> nat \<Rightarrow> u64 \<Rightarrow> nat option \<Rightarrow> tmrl \<Rightarrow> tmrl" where
  "tmr_start_dbg now k delay th tq = tmr_startcont_dbg now k delay True th tq"

definition tmr_continue_dbg :: "u64 \<Rightarrow> nat \<Rightarrow> u64 \<Rightarrow> nat option \<Rightarrow> tmrl \<Rightarrow> tmrl" where
  "tmr_continue_dbg now k delay th tq = tmr_startcont_dbg now k delay False th tq"

definition tmr_cancel :: "u64 \<Rightarrow> nat \<Rightarrow> tmrl \<Rightarrow> tmrl" where
  "tmr_cancel now k tq = tmr_start_dbg now k 0 None tq"

text \<open>
  The loop of \<open>tmr_poll\<close>. A handler gets and returns the world and the timers; the handlers that were called
  are listed. \<open>None\<close> is a loop that does not end.
\<close>

definition tmr_fire :: "nat \<Rightarrow> tmrl \<Rightarrow> tmrl" where
  "tmr_fire k tq = (tmr_upd k (\<lambda>t. t\<lparr>t_th := None\<rparr>) tq)\<lparr>tl_list := tl (tl_list tq)\<rparr>"

partial_function (option) poll_loop ::
  "(nat \<Rightarrow> 'w \<times> tmrl \<Rightarrow> 'w \<times> tmrl) \<Rightarrow> u64 \<Rightarrow> nat list \<Rightarrow> 'w \<times> tmrl \<Rightarrow> (nat list \<times> 'w \<times> tmrl) option" where
  "poll_loop call now calls s =
     (case s of (w, tq) \<Rightarrow>
        (case tl_list tq of
           [] \<Rightarrow> Some (calls, w, tq)
         | k # ks \<Rightarrow>
             if jfs tq k > now then Some (calls, w, tq)
             else
               (case t_th (tl_tmr tq k) of
                  None \<Rightarrow> poll_loop call now calls (w, tmr_fire k tq)
                | Some h \<Rightarrow> poll_loop call now (calls @ [h]) (call h (w, tmr_fire k tq)))))"

definition tmr_poll :: "(nat \<Rightarrow> 'w \<times> tmrl \<Rightarrow> 'w \<times> tmrl) \<Rightarrow> u64 \<Rightarrow> 'w \<times> tmrl \<Rightarrow> (nat list \<times> 'w \<times> tmrl) option" where
  "tmr_poll call now s = poll_loop call now [] s"

definition tmr_jiffies :: "u64 \<Rightarrow> u64" where
  "tmr_jiffies usec = usec div 1000"

definition tmr_next_timeout :: "u64 \<Rightarrow> tmrl \<Rightarrow> u64" where
  "tmr_next_timeout jif tq =
     (case tl_list tq of [] \<Rightarrow> 0 | k # _ \<Rightarrow> if jfs tq k \<le> jif then 1 else jfs tq k - jif)"

definition tmr_expire :: "u64 \<Rightarrow> tmrl \<Rightarrow> nat \<Rightarrow> u64" where
  "tmr_expire now tq k = (if t_th (tl_tmr tq k) = None then 0 else if jfs tq k > now then jfs tq k - now else 0)"

definition tmrl_count :: "tmrl \<Rightarrow> u32" where
  "tmrl_count tq = of_nat (length (tl_list tq))"

text \<open>
  \<open>tmr_timespec_get\<close>: \<open>clock\<close> is what \<open>clock_gettime\<close> gives, seconds and nanoseconds or an error. The
  product with \<open>1000000\<close> is taken in 64 bits.
\<close>

function timespec_carry :: "int \<Rightarrow> int \<Rightarrow> int \<times> int" where
  "timespec_carry s ns = (if ns > 1000000000 then timespec_carry (s + 1) (ns - 1000000000) else (s, ns))"
  by pat_completeness auto
termination by (relation "measure (\<lambda>(s, ns). nat ns)") auto

declare timespec_carry.simps [simp del]

definition tmr_timespec_get :: "errno + (int \<times> int) \<Rightarrow> u64 \<Rightarrow> errno + (int \<times> int)" where
  "tmr_timespec_get clock offset =
     (case clock of
        Inl e \<Rightarrow> Inl e
      | Inr (s, ns) \<Rightarrow>
          if offset = 0 then Inr (s, ns)
          else Inr (timespec_carry (s + uint (offset div 1000)) (ns + uint (offset * 1000000 mod 1000000000))))"

section \<open>The list stays ordered\<close>

definition tl_ok :: "tmrl \<Rightarrow> bool" where
  "tl_ok tq \<longleftrightarrow> sorted_wrt (\<lambda>a b. jfs tq a \<le> jfs tq b) (tl_list tq) \<and> distinct (tl_list tq)
     \<and> (\<forall>k. k \<in> set (tl_list tq) \<longleftrightarrow> t_th (tl_tmr tq k) \<noteq> None) \<and> (\<forall>k. t_th (tl_tmr tq k) \<noteq> None \<longrightarrow> t_active (tl_tmr tq k))"

lemma sorted_split:
  fixes f :: "nat \<Rightarrow> u64"
  assumes "sorted_wrt (\<lambda>a b. f a \<le> f b) xs"
  shows "takeWhile (\<lambda>x. f x \<le> j) xs = filter (\<lambda>x. f x \<le> j) xs \<and> dropWhile (\<lambda>x. f x \<le> j) xs = filter (\<lambda>x. j < f x) xs"
  using assms
proof (induction xs)
  case (Cons x xs)
  have late: "filter (\<lambda>y. f y \<le> j) xs = []" "filter (\<lambda>y. j < f y) xs = xs" if "\<not> f x \<le> j"
    using Cons.prems that by (fastforce simp: filter_empty_conv, fastforce simp: filter_id_conv)
  then show ?case using Cons by auto
qed simp

lemma rev_split:
  fixes f :: "nat \<Rightarrow> u64"
  assumes "sorted_wrt (\<lambda>a b. f a \<le> f b) xs"
  shows "takeWhile (\<lambda>x. \<not> f x \<le> j) (rev xs) = rev (filter (\<lambda>x. j < f x) xs)
    \<and> dropWhile (\<lambda>x. \<not> f x \<le> j) (rev xs) = rev (filter (\<lambda>x. f x \<le> j) xs)"
  using assms
proof (induction xs rule: rev_induct)
  case (snoc x xs)
  have early: "filter (\<lambda>y. j < f y) xs = []" "filter (\<lambda>y. f y \<le> j) xs = xs" if "f x \<le> j"
    using snoc.prems that by (fastforce simp: sorted_wrt_append filter_empty_conv, fastforce simp: sorted_wrt_append filter_id_conv)
  then show ?case using snoc by (auto simp: sorted_wrt_append)
qed simp

text \<open>Both ways to insert give the same place in an ordered list: behind the timers that are not later.\<close>

lemma insert_place:
  assumes "sorted_wrt (\<lambda>a b. jfs tq a \<le> jfs tq b) ks"
  shows "insert_before_first (inspos_handler_0 tq j) k ks = filter (\<lambda>x. jfs tq x \<le> j) ks @ k # filter (\<lambda>x. j < jfs tq x) ks"
    and "insert_after_last (inspos_handler tq j) k ks = filter (\<lambda>x. jfs tq x \<le> j) ks @ k # filter (\<lambda>x. j < jfs tq x) ks"
  using sorted_split [OF assms] rev_split [OF assms]
  by (simp_all add: insert_before_first_def insert_after_last_def inspos_handler_def inspos_handler_0_def linorder_not_less)

definition tmr_put :: "nat \<Rightarrow> nat \<Rightarrow> u64 \<Rightarrow> tmrl \<Rightarrow> tmrl" where
  "tmr_put k h j tq = \<lparr>tl_list = filter (\<lambda>x. x \<noteq> k \<and> jfs tq x \<le> j) (tl_list tq) @ k # filter (\<lambda>x. x \<noteq> k \<and> j < jfs tq x) (tl_list tq),
     tl_tmr = (tl_tmr tq)(k := \<lparr>t_active = True, t_th = Some h, t_jfs = j\<rparr>)\<rparr>"

lemma unlinked: "tl_ok tq \<Longrightarrow> t_th (tl_tmr tq k) = None \<Longrightarrow> filter (\<lambda>x. x \<noteq> k) (tl_list tq) = tl_list tq"
  by (auto simp: tl_ok_def filter_id_conv)

lemma start_put:
  assumes ok: "tl_ok tq"
  shows "tmr_startcont_dbg now k delay syncnow (Some h) tq = tmr_put k h ((if syncnow then now else jfs tq k) + delay) tq"
proof -
  let ?j = "(if syncnow then now else jfs tq k) + delay" and ?ks = "filter (\<lambda>x. x \<noteq> k) (tl_list tq)"
  define t2 where "t2 = tq\<lparr>tl_list := ?ks, tl_tmr := (tl_tmr tq)(k := (tl_tmr tq k)\<lparr>t_active := False, t_th := Some h, t_jfs := ?j\<rparr>)\<rparr>"
  have "sorted_wrt (\<lambda>a b. jfs tq a \<le> jfs tq b) ?ks" using ok by (auto simp: tl_ok_def intro: sorted_wrt_filter)
  moreover have "jfs t2 x = jfs tq x" if "x \<in> set ?ks" for x using that by (auto simp: t2_def)
  ultimately have "sorted_wrt (\<lambda>a b. jfs t2 a \<le> jfs t2 b) ?ks" by (elim sorted_wrt_mono_rel [rotated]) simp
  then have srt: "sorted_wrt (\<lambda>a b. jfs t2 a \<le> jfs t2 b) (tl_list t2)" by (simp add: t2_def)
  have f: "filter (\<lambda>x. jfs t2 x \<le> ?j) (tl_list t2) = filter (\<lambda>x. x \<noteq> k \<and> jfs tq x \<le> ?j) (tl_list tq)"
      "filter (\<lambda>x. ?j < jfs t2 x) (tl_list t2) = filter (\<lambda>x. x \<noteq> k \<and> ?j < jfs tq x) (tl_list tq)"
    by (auto simp: t2_def intro!: filter_cong)
  have t2: "tmr_upd k (\<lambda>t. t\<lparr>t_jfs := (if syncnow then now else t_jfs t) + delay\<rparr>)
      (tmr_upd k (\<lambda>t. t\<lparr>t_th := Some h\<rparr>) (tmr_unlink k (tmr_upd k (\<lambda>t. t\<lparr>t_active := False\<rparr>) tq))) = t2"
    using unlinked [OF ok, of k] by (cases "t_th (tl_tmr tq k)"; cases tq) (simp_all add: tmr_upd_def tmr_unlink_def t2_def)
  have j: "jfs t2 k = ?j" by (simp add: t2_def)
  have "tmr_startcont_dbg now k delay syncnow (Some h) tq = tmr_upd k (\<lambda>t. t\<lparr>t_active := True\<rparr>) (tmr_link delay k t2)"
    unfolding tmr_startcont_dbg_def Let_def t2 by simp
  also have "\<dots> = t2\<lparr>tl_list := filter (\<lambda>x. jfs t2 x \<le> ?j) (tl_list t2) @ k # filter (\<lambda>x. ?j < jfs t2 x) (tl_list t2),
          tl_tmr := (tl_tmr t2)(k := (tl_tmr t2 k)\<lparr>t_active := True\<rparr>)\<rparr>"
    unfolding tmr_link_def insert_place [OF srt] j by (simp add: tmr_upd_def)
  also have "\<dots> = tmr_put k h ?j tq"
    unfolding f by (cases tq, cases "tl_tmr tq k") (simp add: tmr_put_def t2_def)
  finally show ?thesis .
qed

lemma put_ok:
  assumes ok: "tl_ok tq"
  shows "tl_ok (tmr_put k h j tq)"
proof -
  let ?t = "tmr_put k h j tq" and ?a = "filter (\<lambda>x. x \<noteq> k \<and> jfs tq x \<le> j) (tl_list tq)" and ?b = "filter (\<lambda>x. x \<noteq> k \<and> j < jfs tq x) (tl_list tq)"
  have same: "jfs ?t x = (if x = k then j else jfs tq x)" for x by (simp add: tmr_put_def)
  have part: "sorted_wrt (\<lambda>a b. jfs ?t a \<le> jfs ?t b) ?a" "sorted_wrt (\<lambda>a b. jfs ?t a \<le> jfs ?t b) ?b"
  proof -
    have "sorted_wrt (\<lambda>a b. jfs tq a \<le> jfs tq b) ?a" "sorted_wrt (\<lambda>a b. jfs tq a \<le> jfs tq b) ?b"
      using ok by (auto simp: tl_ok_def intro: sorted_wrt_filter)
    then show "sorted_wrt (\<lambda>a b. jfs ?t a \<le> jfs ?t b) ?a" "sorted_wrt (\<lambda>a b. jfs ?t a \<le> jfs ?t b) ?b"
      by (auto simp: same intro: sorted_wrt_mono_rel [rotated])
  qed
  then have "sorted_wrt (\<lambda>a b. jfs ?t a \<le> jfs ?t b) (?a @ k # ?b)" by (auto simp: sorted_wrt_append same)
  moreover have "tl_list ?t = ?a @ k # ?b" by (simp add: tmr_put_def)
  moreover have "distinct (?a @ k # ?b)" using ok by (auto simp: tl_ok_def)
  moreover have "x \<in> set (?a @ k # ?b) \<longleftrightarrow> x = k \<or> x \<in> set (tl_list tq)" for x by auto
  ultimately show ?thesis using ok by (auto simp: tl_ok_def tmr_put_def)
qed

lemma cancel_ok:
  assumes ok: "tl_ok tq"
  shows "tl_ok (tmr_startcont_dbg now k delay syncnow None tq)"
    and "tl_list (tmr_startcont_dbg now k delay syncnow None tq) = filter (\<lambda>x. x \<noteq> k) (tl_list tq)"
    and "x \<noteq> k \<Longrightarrow> tl_tmr (tmr_startcont_dbg now k delay syncnow None tq) x = tl_tmr tq x"
proof -
  let ?t = "tmr_startcont_dbg now k delay syncnow None tq" and ?ks = "filter (\<lambda>x. x \<noteq> k) (tl_list tq)"
  show tm: "tl_tmr ?t x = tl_tmr tq x" if "x \<noteq> k" for x using that by (simp add: tmr_startcont_dbg_def tmr_unlink_def tmr_upd_def Let_def)
  have "t_th (tl_tmr tq k) = None" if "\<not> t_active (tl_tmr tq k)" using ok that by (auto simp: tl_ok_def)
  then show l: "tl_list ?t = ?ks" using unlinked [OF ok, of k] by (auto simp: tmr_startcont_dbg_def tmr_unlink_def tmr_upd_def Let_def)
  have th: "t_th (tl_tmr ?t k) = None" using ok by (auto simp: tl_ok_def tmr_startcont_dbg_def tmr_unlink_def tmr_upd_def Let_def)
  have "sorted_wrt (\<lambda>a b. jfs tq a \<le> jfs tq b) ?ks" using ok by (auto simp: tl_ok_def intro: sorted_wrt_filter)
  then have "sorted_wrt (\<lambda>a b. jfs ?t a \<le> jfs ?t b) ?ks" by (rule sorted_wrt_mono_rel [rotated]) (auto simp: tm)
  moreover have "x \<in> set ?ks \<longleftrightarrow> t_th (tl_tmr ?t x) \<noteq> None" "t_th (tl_tmr ?t x) \<noteq> None \<longrightarrow> t_active (tl_tmr ?t x)" for x
    using ok tm [of x] th by (cases "x = k"; auto simp: tl_ok_def)+
  ultimately show "tl_ok ?t" using ok by (simp add: tl_ok_def l)
qed

lemma startcont_ok: "tl_ok tq \<Longrightarrow> tl_ok (tmr_startcont_dbg now k delay syncnow th tq)"
  by (cases th) (simp_all add: cancel_ok(1) start_put put_ok)

text \<open>
  The timers of a thread as a machine: a timer is initialised while it is not in the list, started,
  continued or cancelled at any time, and \<open>tmr_poll\<close> takes the due head off the list before it calls the handler.
\<close>

inductive tmr_step :: "tmrl \<Rightarrow> nat list \<Rightarrow> tmrl \<Rightarrow> bool" where
  step_init: "t_th (tl_tmr tq k) = None \<Longrightarrow> tmr_step tq [] (tmr_init k tq)"
| step_start: "tmr_step tq [] (tmr_startcont_dbg now k delay syncnow th tq)"
| step_fire: "tl_list tq = k # ks \<Longrightarrow> jfs tq k \<le> now \<Longrightarrow> tmr_step tq [k] (tmr_fire k tq)"

lemma init_ok:
  assumes "tl_ok tq" "t_th (tl_tmr tq k) = None"
  shows "tl_ok (tmr_init k tq)"
proof -
  have "k \<notin> set (tl_list tq)" using assms by (simp add: tl_ok_def)
  then have "jfs (tmr_init k tq) x = jfs tq x" if "x \<in> set (tl_list tq)" for x
    using that by (auto simp: tmr_init_def tmr_upd_def)
  then have "sorted_wrt (\<lambda>a b. jfs (tmr_init k tq) a \<le> jfs (tmr_init k tq) b) (tl_list tq)"
    using assms by (auto simp: tl_ok_def elim!: sorted_wrt_mono_rel [rotated])
  then show ?thesis using assms by (auto simp: tl_ok_def tmr_init_def tmr_upd_def tmr_zero_def)
qed

lemma fire_ok:
  assumes "tl_ok tq" "tl_list tq = k # ks"
  shows "tl_ok (tmr_fire k tq)"
proof -
  have same: "jfs (tmr_fire k tq) x = jfs tq x" for x by (simp add: tmr_fire_def tmr_upd_def)
  have "x \<in> set (tl_list tq) \<longleftrightarrow> x = k \<or> x \<in> set ks" for x using assms by simp
  then show ?thesis using assms unfolding tl_ok_def same by (auto simp: tmr_fire_def tmr_upd_def)
qed

interpretation tmr_m: machine "\<lambda>tq. tq = tmrl_new" tmr_step tl_ok
proof unfold_locales
  show "tl_ok tq" if "tq = tmrl_new" for tq using that by (simp add: tl_ok_def tmrl_new_def tmr_zero_def)
  show "tl_ok t" if "tl_ok tq" "tmr_step tq e t" for tq e t
    using that(2,1) by cases (auto intro: init_ok startcont_ok fire_ok)
qed

section \<open>A start is an insertion into a queue\<close>

definition agenda :: "tmrl \<Rightarrow> (u64 \<times> nat \<times> nat) list" where
  "agenda tq = map (\<lambda>k. (jfs tq k, k, the (t_th (tl_tmr tq k)))) (tl_list tq)"

fun enqueue :: "u64 \<times> nat \<times> nat \<Rightarrow> (u64 \<times> nat \<times> nat) list \<Rightarrow> (u64 \<times> nat \<times> nat) list" where
  "enqueue e [] = [e]"
| "enqueue e (a # as) = (if fst a \<le> fst e then a # enqueue e as else e # a # as)"

definition dequeue :: "nat \<Rightarrow> (u64 \<times> nat \<times> nat) list \<Rightarrow> (u64 \<times> nat \<times> nat) list" where
  "dequeue k as = filter (\<lambda>a. fst (snd a) \<noteq> k) as"

lemma enqueue_sorted:
  "sorted_wrt (\<lambda>a b. fst a \<le> fst b) as \<Longrightarrow> enqueue e as = filter (\<lambda>a. fst a \<le> fst e) as @ e # filter (\<lambda>a. fst e < fst a) as"
proof (induction as)
  case (Cons a as)
  have "filter (\<lambda>a. fst a \<le> fst e) as = [] \<and> filter (\<lambda>a. fst e < fst a) as = as" if "\<not> fst a \<le> fst e"
    using Cons.prems that by (fastforce simp: filter_empty_conv filter_id_conv)
  then show ?case using Cons by auto
qed simp

lemma agenda_sorted: "tl_ok tq \<Longrightarrow> sorted_wrt (\<lambda>a b. fst a \<le> fst b) (agenda tq)"
  by (simp add: tl_ok_def agenda_def sorted_wrt_map)

lemma put_agenda:
  "agenda (tmr_put k h j tq)
     = filter (\<lambda>a. fst a \<le> j) (dequeue k (agenda tq)) @ (j, k, h) # filter (\<lambda>a. j < fst a) (dequeue k (agenda tq))"
  by (auto simp: tmr_put_def agenda_def dequeue_def filter_map o_def conj_commute)

text \<open>C32:
  Starting or continuing a timer, in any state its operations can reach, is taking its old entry out of the
  queue and inserting the new one behind every entry that is not later. The insertion that searches from
  the head (no delay) and the one that searches from the tail give that same place, so timers of equal
  expiry fire in the order in which they were started; and the entries of the other timers stay.
\<close>

theorem tmr_start_refines_queue:
  assumes "reachable (\<lambda>tq. tq = tmrl_new) tmr_step tq"
  shows "agenda (tmr_startcont_dbg now k delay syncnow (Some h) tq)
    = enqueue ((if syncnow then now else jfs tq k) + delay, k, h) (dequeue k (agenda tq))"
proof -
  have ok: "tl_ok tq" using assms by (rule tmr_m.reachable_inv)
  have "sorted_wrt (\<lambda>a b. fst a \<le> fst b) (dequeue k (agenda tq))"
    unfolding dequeue_def by (intro sorted_wrt_filter agenda_sorted ok)
  then show ?thesis by (simp only: start_put [OF ok] put_agenda enqueue_sorted fst_conv)
qed

lemmas tmr_eval = tmr_startcont_dbg_def tmr_start_dbg_def tmr_upd_def tmr_unlink_def tmr_link_def Let_def insert_before_first_def
  insert_after_last_def inspos_handler_def inspos_handler_0_def tmrl_new_def tmr_zero_def

theorem tmr_start_refines_queue_witness:
  "agenda (tmr_startcont_dbg 110 3 0 True (Some 33)
      (tmr_startcont_dbg 105 2 5 True (Some 22) (tmr_startcont_dbg 100 1 10 True (Some 11) tmrl_new)))
    = [(110, 1, 11), (110, 2, 22), (110, 3, 33)]"
proof -
  have r: "reachable (\<lambda>tq. tq = tmrl_new) tmr_step
      (tmr_startcont_dbg 105 2 5 True (Some 22) (tmr_startcont_dbg 100 1 10 True (Some 11) tmrl_new))"
    by (rule reach_step, rule reach_step, rule reach_init, rule refl, rule step_start, rule step_start)
  show ?thesis unfolding tmr_start_refines_queue [OF r] by (simp add: agenda_def dequeue_def tmr_eval)
qed

section \<open>Polling\<close>

text \<open>The handlers that are due at a time, in the order of the list.\<close>

definition pending :: "u64 \<Rightarrow> tmrl \<Rightarrow> nat list" where
  "pending now tq = map (\<lambda>k. the (t_th (tl_tmr tq k))) (filter (\<lambda>k. jfs tq k \<le> now) (tl_list tq))"

text \<open>
  What the poll needs of the handlers, on the states \<open>good\<close> of the timers that they keep: a handler that
  is called, and so is not pending any more, leaves the list in order and the other due timers alone; what
  it starts expires later. That is the usual handler, which starts its own timer again with a delay.
\<close>

definition calm :: "(tmrl \<Rightarrow> bool) \<Rightarrow> (nat \<Rightarrow> 'w \<times> tmrl \<Rightarrow> 'w \<times> tmrl) \<Rightarrow> u64 \<Rightarrow> bool" where
  "calm good call now \<longleftrightarrow> (\<forall>tq. good tq \<longrightarrow> tl_ok tq) \<and> (\<forall>k ks tq. good tq \<and> tl_list tq = k # ks \<longrightarrow> good (tmr_fire k tq))
     \<and> (\<forall>h w tq. good tq \<and> h \<notin> set (pending now tq)
          \<longrightarrow> good (snd (call h (w, tq))) \<and> pending now (snd (call h (w, tq))) = pending now tq)"

lemma due_head:
  assumes "tl_ok tq" "pending now tq = h # hs"
  obtains k ks where "tl_list tq = k # ks" "jfs tq k \<le> now" "t_th (tl_tmr tq k) = Some h" "pending now (tmr_fire k tq) = hs"
proof -
  obtain k ks where l: "tl_list tq = k # ks" using assms(2) by (cases "tl_list tq") (auto simp: pending_def)
  have "filter (\<lambda>x. jfs tq x \<le> now) (k # ks) \<noteq> []" using assms(2) unfolding pending_def l by auto
  then have "\<exists>x \<in> set (k # ks). jfs tq x \<le> now" unfolding filter_empty_conv by blast
  then have due: "jfs tq k \<le> now" using assms(1) unfolding tl_ok_def l by fastforce
  have th: "t_th (tl_tmr tq k) \<noteq> None" and nk: "k \<notin> set ks" using assms(1) unfolding tl_ok_def l by auto
  have "jfs (tmr_fire k tq) x = jfs tq x" for x by (simp add: tmr_fire_def tmr_upd_def)
  then have "pending now (tmr_fire k tq) = map (\<lambda>x. the (t_th (tl_tmr tq x))) (filter (\<lambda>x. jfs tq x \<le> now) ks)"
    using nk by (auto simp: pending_def tmr_fire_def tmr_upd_def l)
  then show ?thesis using that l due th assms(2) by (auto simp: pending_def)
qed

lemma poll_loop_calls:
  assumes c: "calm good call now"
  shows "good tq \<Longrightarrow> pending now tq = hs \<Longrightarrow> distinct hs
    \<Longrightarrow> \<exists>w' tq'. poll_loop call now calls (w, tq) = Some (calls @ hs, w', tq') \<and> good tq' \<and> pending now tq' = []"
proof (induction hs arbitrary: calls w tq)
  case Nil
  then have "poll_loop call now calls (w, tq) = Some (calls, w, tq)"
    by (subst poll_loop.simps) (auto simp: pending_def split: list.splits if_splits)
  then show ?case using Nil by auto
next
  case (Cons h hs)
  have "tl_ok tq" using c Cons.prems by (auto simp: calm_def)
  then obtain k ks where k: "tl_list tq = k # ks" "jfs tq k \<le> now" "t_th (tl_tmr tq k) = Some h" "pending now (tmr_fire k tq) = hs"
    using due_head Cons.prems(2) by metis
  let ?s = "call h (w, tmr_fire k tq)"
  have "good (tmr_fire k tq)" "h \<notin> set (pending now (tmr_fire k tq))" using c Cons.prems k by (auto simp: calm_def)
  then have "good (snd ?s)" "pending now (snd ?s) = hs" using c k(4) unfolding calm_def by auto
  then obtain w' tq' where "poll_loop call now (calls @ [h]) (fst ?s, snd ?s) = Some ((calls @ [h]) @ hs, w', tq')"
      "good tq'" "pending now tq' = []"
    using Cons.IH Cons.prems(3) by (metis distinct.simps(2))
  moreover have "poll_loop call now calls (w, tq) = poll_loop call now (calls @ [h]) ?s"
    using k by (subst poll_loop.simps) auto
  ultimately show ?case by auto
qed

text \<open>C18:
  When the due timers are distinct and the handlers leave the other due timers alone and start only timers that expire later, \<open>tmr_poll\<close> returns; it
  has called exactly the handlers that were due, each once, in the order of their expiry and, among equal
  ones, of their start; the list is still in order, and nothing that is due is left.
\<close>

theorem tmr_poll_calls_due:
  assumes "calm good call now" "good tq" "distinct (pending now tq)"
  shows "\<exists>w' tq'. tmr_poll call now (w, tq) = Some (pending now tq, w', tq') \<and> good tq' \<and> tl_ok tq' \<and> pending now tq' = []"
proof -
  obtain w' tq' where "poll_loop call now [] (w, tq) = Some ([] @ pending now tq, w', tq')" "good tq'" "pending now tq' = []"
    using poll_loop_calls [OF assms(1,2) refl assms(3), of "[]" w] by blast
  then show ?thesis using assms(1) by (auto simp: tmr_poll_def calm_def)
qed

lemma put_pending:
  assumes "tl_ok tq" "now < j" "t_th (tl_tmr tq k) = None \<or> now < jfs tq k"
  shows "pending now (tmr_put k h j tq) = pending now tq"
proof -
  let ?t = "tmr_put k h j tq" and ?due = "filter (\<lambda>x. jfs tq x \<le> now) (tl_list tq)"
  have k: "k \<notin> set ?due" using assms(1,3) by (auto simp: tl_ok_def)
  have "filter (\<lambda>x. jfs ?t x \<le> now) (filter (\<lambda>x. x \<noteq> k \<and> jfs tq x \<le> j) (tl_list tq)) = ?due"
    using assms(2) k by (auto simp: tmr_put_def intro!: filter_cong)
  moreover have "filter (\<lambda>x. jfs ?t x \<le> now) (k # filter (\<lambda>x. x \<noteq> k \<and> j < jfs tq x) (tl_list tq)) = []"
    using assms(2) by (auto simp: tmr_put_def filter_empty_conv)
  ultimately have "filter (\<lambda>x. jfs ?t x \<le> now) (tl_list ?t) = ?due" by (simp add: tmr_put_def)
  moreover have "t_th (tl_tmr ?t x) = t_th (tl_tmr tq x)" if "x \<in> set ?due" for x using that k by (auto simp: tmr_put_def)
  ultimately show ?thesis unfolding pending_def by (auto intro!: map_cong)
qed

text \<open>Handlers that start their own timer again: the timer \<open>k\<close> has the handler \<open>k\<close>, which gives it 20 ms.\<close>

definition own :: "tmrl \<Rightarrow> bool" where
  "own tq \<longleftrightarrow> tl_ok tq \<and> (\<forall>k h. t_th (tl_tmr tq k) = Some h \<longrightarrow> h = k)"

lemma own_calm: "calm own (\<lambda>h (w, tq). (h # w, tmr_start_dbg 100 h 20 (Some h) tq)) 100"
  unfolding calm_def
proof (intro conjI allI impI; (elim conjE)?)
  show "own (tmr_fire k tq)" if "own tq" "tl_list tq = k # ks" for k ks tq
    using that fire_ok by (auto simp: own_def tmr_fire_def tmr_upd_def)
next
  fix h :: nat and w :: "nat list" and tq assume o: "own tq" and n: "h \<notin> set (pending 100 tq)"
  let ?t = "snd (case (w, tq) of (w, tq) \<Rightarrow> (h # w, tmr_start_dbg 100 h 20 (Some h) tq))"
  have t: "?t = tmr_put h h 120 tq" using o start_put [of tq 100 h 20 True h] by (simp add: own_def tmr_start_dbg_def)
  show "own ?t" unfolding t using o put_ok by (auto simp: own_def tmr_put_def)
  have "h \<in> set (pending 100 tq)" if "t_th (tl_tmr tq h) = Some y" "jfs tq h \<le> 100" for y
  proof -
    have "h \<in> set (tl_list tq)" "the (t_th (tl_tmr tq h)) = h" using that o by (auto simp: own_def tl_ok_def)
    then show ?thesis using that by (force simp: pending_def)
  qed
  then have "t_th (tl_tmr tq h) = None \<or> 100 < jfs tq h" using n by (cases "t_th (tl_tmr tq h)") (auto simp: linorder_not_le [symmetric])
  then show "pending 100 ?t = pending 100 tq" unfolding t using o by (intro put_pending) (simp_all add: own_def)
qed (simp add: own_def)

definition three_timers :: tmrl where
  "three_timers = tmr_start_dbg 60 3 50 (Some 3) (tmr_start_dbg 60 2 30 (Some 2) (tmr_start_dbg 60 1 40 (Some 1) tmrl_new))"

lemma own_three: "own three_timers"
proof -
  have "own tmrl_new" by (simp add: own_def tl_ok_def tmrl_new_def tmr_zero_def)
  moreover have "own (tmr_start_dbg now k d (Some k) tq)" if "own tq" for now k d tq
    using that put_ok [of tq] start_put [of tq now k d True k] by (auto simp: own_def tmr_start_dbg_def tmr_put_def)
  ultimately show ?thesis by (simp add: three_timers_def)
qed

theorem tmr_poll_calls_due_witness:
  "\<exists>w' tq'. tmr_poll (\<lambda>h (w, tq). (h # w, tmr_start_dbg 100 h 20 (Some h) tq)) 100 ([], three_timers) = Some ([2, 1], w', tq')
     \<and> own tq' \<and> tl_ok tq' \<and> pending 100 tq' = []"
proof -
  have p: "pending 100 three_timers = [2, 1]" by (simp add: pending_def three_timers_def tmr_eval)
  then show ?thesis using tmr_poll_calls_due [OF own_calm own_three, of "[]"] by simp
qed

section \<open>Sleeping\<close>

text \<open>The wait that \<open>tmr_next_timeout\<close> gives the main loop is exact: when timers run and none is due, something is due
  after that wait and nothing before.
\<close>

theorem tmr_next_timeout_exact:
  assumes "tl_ok tq" "tl_list tq \<noteq> []" "pending now tq = []"
  shows "pending (now + tmr_next_timeout now tq) tq \<noteq> []
    \<and> (\<forall>t. t < now + tmr_next_timeout now tq \<longrightarrow> pending t tq = [])"
proof -
  obtain k ks where l: "tl_list tq = k # ks" using assms(2) by (cases "tl_list tq") auto
  have "now < jfs tq k" using assms(3) by (auto simp: pending_def l split: if_splits)
  then have j: "now + tmr_next_timeout now tq = jfs tq k" by (auto simp: tmr_next_timeout_def l)
  have "jfs tq k \<le> jfs tq x" if "x \<in> set (tl_list tq)" for x using assms(1) that by (auto simp: tl_ok_def l)
  then have "pending t tq = []" if "t < jfs tq k" for t using that by (force simp: pending_def filter_empty_conv)
  then show ?thesis unfolding j by (simp add: pending_def l)
qed

theorem tmr_next_timeout_exact_witness:
  "pending 90 three_timers \<noteq> [] \<and> (\<forall>t. t < 90 \<longrightarrow> pending t three_timers = [])"
proof -
  have "tmr_next_timeout 70 three_timers = 20" "pending 70 three_timers = []" "tl_list three_timers \<noteq> []"
    by (simp_all add: tmr_next_timeout_def pending_def three_timers_def tmr_eval)
  moreover have "tl_ok three_timers" using own_three by (simp add: own_def)
  ultimately show ?thesis using tmr_next_timeout_exact [of three_timers 70] by simp
qed

section \<open>Absolute times\<close>

lemma timespec_carry_value: "timespec_carry s ns = (s', ns') \<Longrightarrow> s' * 1000000000 + ns' = s * 1000000000 + ns \<and> ns' \<le> 1000000000"
proof (induction s ns rule: timespec_carry.induct)
  case (1 s ns)
  then show ?case by (simp add: timespec_carry.simps [of s ns] split: if_splits)
qed

text \<open>
  The carry leaves a full second in the nanoseconds: half a second after half a second is no
  valid time, since \<open>tv_nsec\<close> must be below \<open>1000000000\<close>.
\<close>

lemma timespec_full_second: "tmr_timespec_get (Inr (7, 500000000)) 500 = Inr (7, 1000000000)"
  by (simp add: tmr_timespec_get_def timespec_carry.simps)

end
