(* ===== verification/Ledger.thy ===== *)
theory Ledger
  imports Prelude
begin

text \<open>
  The contract of a table of transactions with their users, shared by the SIP client and server transactions. It models
  no source of its own.

  A table is a list of entries with numbers below a counter, in the order of creation. The outputs about an
  entry are followed by an automaton, from \<open>fresh\<close> to \<open>gone\<close>; the state of the entry gives the state of the
  automaton. The locale says what the automaton must be like for the lemmas that relate one step of the table to it.
\<close>

fun track :: "('e \<Rightarrow> 'p \<Rightarrow> 'p option) \<Rightarrow> 'e list \<Rightarrow> 'p \<Rightarrow> 'p option" where
  "track f [] p = Some p"
| "track f (e # es) p = (case f e p of None \<Rightarrow> None | Some q \<Rightarrow> track f es q)"

lemma track_append: "track f (a @ b) p = (case track f a p of None \<Rightarrow> None | Some q \<Rightarrow> track f b q)"
  by (induction a arbitrary: p) (simp_all split: option.split)

definition put_entry :: "('c \<Rightarrow> nat) \<Rightarrow> 'c \<Rightarrow> 'c list \<Rightarrow> 'c list" where
  "put_entry ident x xs = map (\<lambda>y. if ident y = ident x then x else y) xs"

definition del_entry :: "('c \<Rightarrow> nat) \<Rightarrow> nat \<Rightarrow> 'c list \<Rightarrow> 'c list" where
  "del_entry ident k xs = filter (\<lambda>y. ident y \<noteq> k) xs"

abbreviation find_entry :: "('c \<Rightarrow> nat) \<Rightarrow> nat \<Rightarrow> 'c list \<Rightarrow> 'c option" where
  "find_entry ident k xs \<equiv> find (\<lambda>y. ident y = k) xs"

lemma find_entry_in: "distinct (map ident xs) \<Longrightarrow> x \<in> set xs \<Longrightarrow> find_entry ident (ident x) xs = Some x"
  by (induction xs) (auto simp: image_iff)

lemma find_put_entry:
  "find_entry ident k (put_entry ident x xs) = (if k = ident x then map_option (\<lambda>_. x) (find_entry ident k xs) else find_entry ident k xs)"
  by (induction xs) (auto simp: put_entry_def)

lemma find_del_entry: "find_entry ident k (del_entry ident j xs) = (if k = j then None else find_entry ident k xs)"
  by (induction xs) (auto simp: del_entry_def)

lemma map_put_entry [simp]: "map ident (put_entry ident x xs) = map ident xs"
  by (simp add: put_entry_def)

lemma set_put_entry: "y \<in> set (put_entry ident x xs) \<Longrightarrow> y = x \<or> y \<in> set xs"
  by (auto simp: put_entry_def split: if_splits)

lemma put_put_entry [simp]: "ident y = ident x \<Longrightarrow> put_entry ident y (put_entry ident x xs) = put_entry ident y xs"
  by (simp add: put_entry_def)

lemma find_put_match:
  "distinct (map ident xs) \<Longrightarrow> find P xs = Some x \<Longrightarrow> ident y = ident x \<Longrightarrow> P y \<Longrightarrow> find P (put_entry ident y xs) = Some y"
proof (induction xs)
  case (Cons z zs)
  show ?case
  proof (cases "P z")
    case True
    then show ?thesis using Cons.prems by (simp add: put_entry_def)
  next
    case False
    then have f: "find P zs = Some x" using Cons.prems(2) by simp
    then have "x \<in> set zs" by (auto simp: find_Some_iff)
    then have "ident z \<noteq> ident y" using Cons.prems(1,3) by force
    then show ?thesis using Cons.IH [OF _ f] Cons.prems False by (simp add: put_entry_def)
  qed
qed simp

definition table_ok :: "('c \<Rightarrow> nat) \<Rightarrow> ('c \<Rightarrow> bool) \<Rightarrow> 'c list \<Rightarrow> nat \<Rightarrow> bool" where
  "table_ok ident ok xs n \<longleftrightarrow> distinct (map ident xs) \<and> (\<forall>x \<in> set xs. ident x < n \<and> ok x)"

definition phase_at :: "('c \<Rightarrow> nat) \<Rightarrow> ('c \<Rightarrow> 'p) \<Rightarrow> 'p \<Rightarrow> 'p \<Rightarrow> 'c list \<Rightarrow> nat \<Rightarrow> nat \<Rightarrow> 'p" where
  "phase_at ident ph fresh gone xs n k =
     (if n \<le> k then fresh else case find_entry ident k xs of None \<Rightarrow> gone | Some x \<Rightarrow> ph x)"

locale ledger =
  fixes ident :: "'c \<Rightarrow> nat"
    and ok :: "'c \<Rightarrow> bool"
    and ph :: "'c \<Rightarrow> 'p"
    and fresh :: 'p
    and gone :: 'p
    and about :: "'e \<Rightarrow> nat option"
    and follow :: "nat \<Rightarrow> 'e \<Rightarrow> 'p \<Rightarrow> 'p option"
  assumes follow_other: "about e \<noteq> Some k \<Longrightarrow> follow k e p = Some p"
begin

definition sim :: "'c list \<Rightarrow> nat \<Rightarrow> 'e list \<Rightarrow> 'c list \<Rightarrow> nat \<Rightarrow> bool" where
  "sim xs n out xs' n' \<longleftrightarrow> table_ok ident ok xs' n'
     \<and> (\<forall>k. track (follow k) out (phase_at ident ph fresh gone xs n k) = Some (phase_at ident ph fresh gone xs' n' k))"

lemma track_other: "\<forall>e \<in> set out. about e \<noteq> Some k \<Longrightarrow> track (follow k) out p = Some p"
  by (induction out) (simp_all add: follow_other)

lemma track_quiet: "\<forall>e \<in> set out. about e = None \<Longrightarrow> track (follow k) (out @ es) p = track (follow k) es p"
  by (simp add: track_append track_other)

lemma phase_in: "table_ok ident ok xs n \<Longrightarrow> x \<in> set xs \<Longrightarrow> phase_at ident ph fresh gone xs n (ident x) = ph x"
  by (auto simp: phase_at_def table_ok_def find_entry_in)

lemma sim_put:
  assumes tab: "table_ok ident ok xs n" and x: "x \<in> set xs" "ident y = ident x" "ok y"
    and out: "\<forall>e \<in> set out. about e \<in> {None, Some (ident x)}" "track (follow (ident x)) out (ph x) = Some (ph y)"
  shows "sim xs n out (put_entry ident y xs) n"
  unfolding sim_def
proof (intro conjI allI)
  show "table_ok ident ok (put_entry ident y xs) n"
    using tab x set_put_entry [of _ ident y xs] unfolding table_ok_def by fastforce
  fix k
  have lt: "ident x < n" using tab x(1) by (simp add: table_ok_def)
  have found: "find_entry ident (ident x) xs = Some x" using tab x(1) by (simp add: table_ok_def find_entry_in)
  show "track (follow k) out (phase_at ident ph fresh gone xs n k) = Some (phase_at ident ph fresh gone (put_entry ident y xs) n k)"
  proof (cases "k = ident x")
    case True
    then show ?thesis using lt found x(2) out(2) by (simp add: phase_at_def find_put_entry)
  next
    case False
    then have "\<forall>e \<in> set out. about e \<noteq> Some k" using out(1) by auto
    then show ?thesis using False x(2) by (simp add: track_other phase_at_def find_put_entry)
  qed
qed

lemma sim_remove:
  assumes tab: "table_ok ident ok xs n" and x: "x \<in> set xs" "k = ident x"
    and out: "\<forall>e \<in> set out. about e \<in> {None, Some k}" "track (follow k) out (ph x) = Some gone"
  shows "sim xs n out (del_entry ident k xs) n"
  unfolding sim_def
proof (intro conjI allI)
  show "table_ok ident ok (del_entry ident k xs) n"
    using tab by (auto simp: table_ok_def del_entry_def distinct_map_filter)
  fix j
  have lt: "k < n" using tab x by (simp add: table_ok_def)
  show "track (follow j) out (phase_at ident ph fresh gone xs n j) = Some (phase_at ident ph fresh gone (del_entry ident k xs) n j)"
  proof (cases "j = k")
    case True
    then show ?thesis using lt phase_in [OF tab x(1)] x(2) out(2) by (simp add: phase_at_def find_del_entry)
  next
    case False
    then have "\<forall>e \<in> set out. about e \<noteq> Some j" using out(1) by auto
    then show ?thesis using False by (simp add: track_other phase_at_def find_del_entry)
  qed
qed

lemma sim_begin:
  assumes tab: "table_ok ident ok xs n" and x: "ident x = n" "ok x"
    and out: "\<forall>e \<in> set out. about e \<in> {None, Some n}" "track (follow n) out fresh = Some (ph x)"
  shows "sim xs n out (xs @ [x]) (Suc n)"
  unfolding sim_def
proof (intro conjI allI)
  show "table_ok ident ok (xs @ [x]) (Suc n)" using tab x by (auto simp: table_ok_def)
  fix k
  have none: "find_entry ident n xs = None" using tab by (auto simp: table_ok_def find_None_iff)
  show "track (follow k) out (phase_at ident ph fresh gone xs n k) = Some (phase_at ident ph fresh gone (xs @ [x]) (Suc n) k)"
  proof (cases "k = n")
    case True
    then show ?thesis using none x(1) out(2) by (simp add: phase_at_def find_append)
  next
    case False
    then have "\<forall>e \<in> set out. about e \<noteq> Some k" using out(1) by auto
    then show ?thesis using False x(1) by (auto simp: track_other phase_at_def find_append split: option.split)
  qed
qed

lemma sim_same: "table_ok ident ok xs n \<Longrightarrow> \<forall>e \<in> set out. about e = None \<Longrightarrow> sim xs n out xs n"
  by (simp add: sim_def track_other)

lemma sim_trans: "sim a n o1 b m \<Longrightarrow> sim b m o2 c l \<Longrightarrow> sim a n (o1 @ o2) c l"
  by (simp add: sim_def track_append)

lemma sim_ok: "sim a n out b m \<Longrightarrow> table_ok ident ok b m"
  by (simp add: sim_def)

end

end
