(* ===== verification/Sip_Ctrans.thy ===== *)
theory Sip_Ctrans
  imports Sa Ledger
begin

text \<open>
  SIP client transactions, \<open>re/src/sip/ctrans.c\<close>, with the parts of a SIP message they use (\<open>re_sip.h\<close>).

  A transaction is a record named by its number in the order of creation; the table of an instance holds the
  transactions in the order in which they were appended, which is the order in which a lookup by branch meets
  them. Pointer-length strings are strings, a message buffer is its text; a timer is its expiry time. A function
  returns the outputs it has: messages handed to the transport, calls of the response handler, and
  transactions that are freed. The transport, the decoder of messages and the memory for a new message are
  parameters, in the record \<open>env\<close>. Calls that a handler makes into the stack are later steps.
\<close>

section \<open>Messages and transports\<close>

datatype sip_transp = SIP_TRANSP_NONE | SIP_TRANSP_UDP | SIP_TRANSP_TCP | SIP_TRANSP_TLS | SIP_TRANSP_WS | SIP_TRANSP_WSS

definition sip_transp_reliable :: "sip_transp \<Rightarrow> bool" where
  "sip_transp_reliable tp =
     (case tp of
        SIP_TRANSP_UDP \<Rightarrow> False
      | SIP_TRANSP_TCP \<Rightarrow> True
      | SIP_TRANSP_TLS \<Rightarrow> True
      | SIP_TRANSP_WS \<Rightarrow> True
      | SIP_TRANSP_WSS \<Rightarrow> True
      | SIP_TRANSP_NONE \<Rightarrow> False)"

definition SIP_T1 :: u32 where "SIP_T1 = 500"
definition SIP_T2 :: u32 where "SIP_T2 = 4000"
definition SIP_T4 :: u32 where "SIP_T4 = 5000"
definition COMPLETE_WAIT :: u32 where "COMPLETE_WAIT = 32000"

record sip_via =
  via_sentby :: string
  via_branch :: string
  via_val :: string

record sip_taddr =
  ta_auri :: string
  ta_tag :: string
  ta_val :: string

record sip_cseq =
  cs_met :: string
  cs_num :: u32

text \<open>\<open>m_routes\<close> are the values of the Route headers, in their order.\<close>

record sip_msg =
  m_req :: bool
  m_met :: string
  m_ruri :: string
  m_scode :: u16
  m_routes :: "string list"
  m_via :: sip_via
  m_to :: sip_taddr
  m_from :: sip_taddr
  m_cseq :: sip_cseq
  m_callid :: string
  m_tag :: u64
  m_tp :: sip_transp

text \<open>
  The environment of a call: the result of handing a text to the transport, the text after the
  connected handler of the request has filled it in, whether there is memory for a new text of a given
  content, and \<open>sip_msg_decode\<close>.
\<close>

record env =
  e_send :: "sip_transp \<Rightarrow> sa \<Rightarrow> string \<Rightarrow> errno option"
  e_conn :: "sip_transp \<Rightarrow> sa \<Rightarrow> string \<Rightarrow> string"
  e_mem :: "string \<Rightarrow> errno option"
  e_decode :: "string \<Rightarrow> errno + sip_msg"

section \<open>Transactions\<close>

datatype cstate = TRYING | CALLING | PROCEEDING | COMPLETED

record sip_ctrans =
  c_id :: nat
  c_dst :: sa
  c_tmr :: "u64 option"
  c_tmre :: "u64 option"
  c_mb :: string
  c_mb_ack :: "string option"
  c_req :: "sip_msg option"
  c_met :: string
  c_branch :: string
  c_connh :: bool
  c_tp :: sip_transp
  c_state :: cstate
  c_txc :: u32
  c_invite :: bool

record sip_client =
  sc_ctrans :: "sip_ctrans list"
  sc_next :: nat
  sc_software :: "string option"

text \<open>
  Outputs: a message given to the transport, a call of the response handler of a transaction (error
  and message), the creation of a transaction, its end, and its release by the user.
\<close>

datatype sip_out =
    Tx sip_transp sa string
  | Resp nat "errno option" "sip_msg option"
  | Begun nat
  | Freed nat
  | Released nat

definition ct_put :: "sip_ctrans \<Rightarrow> sip_client \<Rightarrow> sip_client" where
  "ct_put ct sip = sip\<lparr>sc_ctrans := put_entry c_id ct (sc_ctrans sip)\<rparr>"

definition ct_remove :: "nat \<Rightarrow> sip_client \<Rightarrow> sip_client" where
  "ct_remove k sip = sip\<lparr>sc_ctrans := del_entry c_id k (sc_ctrans sip)\<rparr>"

text \<open>\<open>sip_transp_send\<close> as the transactions use it: error, text after the connected handler, output.\<close>

definition transp_send :: "env \<Rightarrow> bool \<Rightarrow> sip_transp \<Rightarrow> sa \<Rightarrow> string \<Rightarrow> errno option \<times> string \<times> sip_out list" where
  "transp_send env connh tp dst mb =
     (let mb = (if connh then e_conn env tp dst mb else mb); err = e_send env tp dst mb
      in (err, mb, if err = None then [Tx tp dst mb] else []))"

section \<open>Copies of the request\<close>

definition crlf :: string where
  "crlf = [CHR 0x0D, CHR 0x0A]"

fun print_nat :: "nat \<Rightarrow> string" where
  "print_nat n = (if n < 10 then [char_of (48 + n)] else print_nat (n div 10) @ [char_of (48 + n mod 10)])"

declare print_nat.simps [simp del]

definition route_handler :: "string \<Rightarrow> string" where
  "route_handler val = ''Route: '' @ val @ crlf"

definition copy_text :: "string option \<Rightarrow> string \<Rightarrow> sip_msg \<Rightarrow> sip_msg option \<Rightarrow> string" where
  "copy_text software met req resp =
     met @ '' '' @ m_ruri req @ '' SIP/2.0'' @ crlf
     @ ''Via: '' @ via_val (m_via req) @ crlf
     @ ''Max-Forwards: 70'' @ crlf
     @ concat (map route_handler (m_routes req))
     @ ''To: '' @ ta_val (case resp of Some r \<Rightarrow> m_to r | None \<Rightarrow> m_to req) @ crlf
     @ ''From: '' @ ta_val (m_from req) @ crlf
     @ ''Call-ID: '' @ m_callid req @ crlf
     @ ''CSeq: '' @ print_nat (unat (cs_num (m_cseq req))) @ '' '' @ met @ crlf
     @ (case software of Some s \<Rightarrow> ''User-Agent: '' @ s @ crlf | None \<Rightarrow> [])
     @ ''Content-Length: 0'' @ crlf @ crlf"

definition request_copy :: "env \<Rightarrow> string option \<Rightarrow> sip_ctrans \<Rightarrow> string \<Rightarrow> sip_msg option \<Rightarrow> (errno + string) \<times> sip_ctrans" where
  "request_copy env software ct met resp =
     (case (case c_req ct of Some req \<Rightarrow> Inr req | None \<Rightarrow> e_decode env (c_mb ct)) of
        Inl e \<Rightarrow> (Inl e, ct)
      | Inr req \<Rightarrow>
          (let ct = ct\<lparr>c_req := Some req\<rparr>; txt = copy_text software met req resp in
           case e_mem env txt of Some e \<Rightarrow> (Inl e, ct) | None \<Rightarrow> (Inr txt, ct)))"

section \<open>Handlers\<close>

definition cmp_handler :: "sip_msg \<Rightarrow> sip_ctrans \<Rightarrow> bool" where
  "cmp_handler msg ct \<longleftrightarrow> via_branch (m_via msg) = c_branch ct \<and> cs_met (m_cseq msg) = c_met ct"

definition terminate :: "sip_ctrans \<Rightarrow> errno option \<Rightarrow> sip_out list" where
  "terminate ct err =
     (case c_state ct of
        TRYING \<Rightarrow> [Resp (c_id ct) err None]
      | CALLING \<Rightarrow> [Resp (c_id ct) err None]
      | PROCEEDING \<Rightarrow> [Resp (c_id ct) err None]
      | COMPLETED \<Rightarrow> [])"

definition transport_handler :: "errno option \<Rightarrow> sip_ctrans \<Rightarrow> sip_client \<Rightarrow> sip_client \<times> sip_out list" where
  "transport_handler err ct sip = (ct_remove (c_id ct) sip, terminate ct err @ [Freed (c_id ct)])"

definition tmr_handler :: "sip_ctrans \<Rightarrow> sip_client \<Rightarrow> sip_client \<times> sip_out list" where
  "tmr_handler ct sip = (ct_remove (c_id ct) sip, terminate ct (Some ETIMEDOUT) @ [Freed (c_id ct)])"

text \<open>
  The interval of the next retransmission, \<open>None\<close> where the handler returns. \<open>SIP_T1<<txc\<close> is an \<open>int\<close>; it is in
  range for \<open>txc \<le> 22\<close>.
\<close>

definition retransmit_interval :: "cstate \<Rightarrow> u32 \<Rightarrow> u32 option" where
  "retransmit_interval s txc =
     (case s of
        TRYING \<Rightarrow> Some (min (push_bit (unat txc) SIP_T1) SIP_T2)
      | CALLING \<Rightarrow> Some (push_bit (unat txc) SIP_T1)
      | PROCEEDING \<Rightarrow> Some SIP_T2
      | COMPLETED \<Rightarrow> None)"

definition retransmit_handler :: "env \<Rightarrow> u64 \<Rightarrow> sip_ctrans \<Rightarrow> sip_client \<Rightarrow> sip_client \<times> sip_out list" where
  "retransmit_handler env now ct sip =
     (let ct = ct\<lparr>c_txc := c_txc ct + 1\<rparr> in
      case retransmit_interval (c_state ct) (c_txc ct) of
        None \<Rightarrow> (ct_put ct sip, [])
      | Some timeout \<Rightarrow>
          (let ct = ct\<lparr>c_tmre := Some (now + ucast timeout)\<rparr> in
           case transp_send env (c_connh ct) (c_tp ct) (c_dst ct) (c_mb ct) of (err, mb, out) \<Rightarrow>
             (let ct = ct\<lparr>c_mb := mb\<rparr> in
              if err \<noteq> None then (ct_remove (c_id ct) sip, out @ terminate ct err @ [Freed (c_id ct)])
              else (ct_put ct sip, out))))"

text \<open>\<open>sip_send\<close> of a text that may be missing: without one it fails and sends nothing.\<close>

definition send_ack :: "env \<Rightarrow> sip_ctrans \<Rightarrow> sip_out list" where
  "send_ack env ct =
     (case c_mb_ack ct of None \<Rightarrow> [] | Some mb \<Rightarrow> snd (snd (transp_send env False (c_tp ct) (c_dst ct) mb)))"

definition invite_final :: "env \<Rightarrow> u64 \<Rightarrow> sip_ctrans \<Rightarrow> sip_msg \<Rightarrow> sip_client \<Rightarrow> sip_client \<times> sip_out list" where
  "invite_final env now ct msg sip =
     (case request_copy env (sc_software sip) (ct\<lparr>c_state := COMPLETED\<rparr>) ''ACK'' (Some msg) of (r, ct) \<Rightarrow>
        (let ct = (case r of Inr txt \<Rightarrow> ct\<lparr>c_mb_ack := Some txt\<rparr> | Inl _ \<Rightarrow> ct);
             out = send_ack env ct @ [Resp (c_id ct) None (Some msg)]
         in if sip_transp_reliable (c_tp ct) then (ct_remove (c_id ct) sip, out @ [Freed (c_id ct)])
            else (ct_put (ct\<lparr>c_tmr := Some (now + ucast COMPLETE_WAIT)\<rparr>) sip, out)))"

definition invite_response :: "env \<Rightarrow> u64 \<Rightarrow> sip_ctrans \<Rightarrow> sip_msg \<Rightarrow> sip_client \<Rightarrow> sip_client \<times> sip_out list" where
  "invite_response env now ct msg sip =
     (let ct = (if c_state ct = CALLING then ct\<lparr>c_tmr := None, c_tmre := None\<rparr> else ct) in
      if c_state ct = CALLING \<or> c_state ct = PROCEEDING then
        if m_scode msg < 200 then (ct_put (ct\<lparr>c_state := PROCEEDING\<rparr>) sip, [Resp (c_id ct) None (Some msg)])
        else if m_scode msg < 300 then (ct_remove (c_id ct) sip, [Resp (c_id ct) None (Some msg), Freed (c_id ct)])
        else invite_final env now ct msg sip
      else if c_state ct = COMPLETED then
        if m_scode msg < 300 then (sip, []) else (sip, send_ack env ct)
      else (sip, []))"

definition response_handler :: "env \<Rightarrow> u64 \<Rightarrow> sip_msg \<Rightarrow> sip_client \<Rightarrow> bool \<times> sip_client \<times> sip_out list" where
  "response_handler env now msg sip =
     (case find (cmp_handler msg) (sc_ctrans sip) of
        None \<Rightarrow> (False, sip, [])
      | Some ct \<Rightarrow>
          if c_invite ct then (True, invite_response env now ct msg sip)
          else if c_state ct = TRYING \<or> c_state ct = PROCEEDING then
            if m_scode msg < 200 then
              (True, ct_put (ct\<lparr>c_state := PROCEEDING\<rparr>) sip, [Resp (c_id ct) None (Some msg)])
            else if sip_transp_reliable (c_tp ct) then
              (True, ct_remove (c_id ct) sip, [Resp (c_id ct) None (Some msg), Freed (c_id ct)])
            else
              (True, ct_put (ct\<lparr>c_state := COMPLETED, c_tmr := Some (now + ucast SIP_T4), c_tmre := None\<rparr>) sip,
               [Resp (c_id ct) None (Some msg)])
          else (True, sip, []))"

text \<open>\<open>mem\<close> says whether the structure can be allocated. The number of the new transaction is the result.\<close>

definition sip_ctrans_request ::
  "env \<Rightarrow> u64 \<Rightarrow> bool \<Rightarrow> sip_transp \<Rightarrow> sa \<Rightarrow> string \<Rightarrow> string \<Rightarrow> string \<Rightarrow> bool \<Rightarrow> sip_client
     \<Rightarrow> (errno + nat) \<times> sip_client \<times> sip_out list" where
  "sip_ctrans_request env now mem tp dst met branch mb connh sip =
     (if \<not> mem then (Inl ENOMEM, sip, [])
      else
        (let invite = (met = ''INVITE''); k = sc_next sip in
         case transp_send env connh tp dst mb of (err, mb, out) \<Rightarrow>
           (case err of
              Some e \<Rightarrow> (Inl e, sip, out)
            | None \<Rightarrow>
                (let ct = \<lparr>c_id = k, c_dst = dst, c_tmr = Some (now + ucast (64 * SIP_T1)),
                       c_tmre = (if \<not> sip_transp_reliable tp then Some (now + ucast SIP_T1) else None),
                       c_mb = mb, c_mb_ack = None, c_req = None, c_met = met, c_branch = branch, c_connh = connh, c_tp = tp,
                       c_state = (if invite then CALLING else TRYING), c_txc = 0, c_invite = invite\<rparr>
                 in (Inr k, sip\<lparr>sc_ctrans := sc_ctrans sip @ [ct], sc_next := Suc k\<rparr>, Begun k # out)))))"

definition sip_ctrans_cancel :: "env \<Rightarrow> u64 \<Rightarrow> bool \<Rightarrow> bool \<Rightarrow> sip_ctrans \<Rightarrow> sip_client \<Rightarrow> errno option \<times> sip_client \<times> sip_out list" where
  "sip_ctrans_cancel env now dup mem ct sip =
     (if \<not> c_invite ct then (None, sip, [])
      else if c_state ct \<noteq> PROCEEDING then (Some EPROTO, sip, [])
      else
        (let ct = ct\<lparr>c_tmr := Some (now + ucast (64 * SIP_T1))\<rparr>; sip = ct_put ct sip in
         if \<not> dup then (Some ENOMEM, sip, [])
         else
           (case request_copy env (sc_software sip) ct ''CANCEL'' None of
              (Inl e, ct) \<Rightarrow> (Some e, ct_put ct sip, [])
            | (Inr mb, ct) \<Rightarrow>
                (case sip_ctrans_request env now mem (c_tp ct) (c_dst ct) ''CANCEL'' (c_branch ct) mb False (ct_put ct sip) of
                   (Inl e, sip, out) \<Rightarrow> (Some e, sip, out)
                 | (Inr _, sip, out) \<Rightarrow> (None, sip, out)))))"

text \<open>\<open>mem_deref\<close> by the user.\<close>

definition ctrans_destructor :: "sip_ctrans \<Rightarrow> sip_client \<Rightarrow> sip_client \<times> sip_out list" where
  "ctrans_destructor ct sip = (ct_remove (c_id ct) sip, [Released (c_id ct)])"

text \<open>A timer that fires: \<open>tmr_poll\<close> has stopped it before it calls the handler.\<close>

definition ctrans_tmr :: "u64 \<Rightarrow> sip_ctrans \<Rightarrow> sip_client \<Rightarrow> sip_client \<times> sip_out list" where
  "ctrans_tmr now ct sip =
     (case c_tmr ct of
        Some t \<Rightarrow> if t \<le> now then tmr_handler (ct\<lparr>c_tmr := None\<rparr>) sip else (sip, [])
      | None \<Rightarrow> (sip, []))"

definition ctrans_tmre :: "env \<Rightarrow> u64 \<Rightarrow> sip_ctrans \<Rightarrow> sip_client \<Rightarrow> sip_client \<times> sip_out list" where
  "ctrans_tmre env now ct sip =
     (case c_tmre ct of
        Some t \<Rightarrow> if t \<le> now then retransmit_handler env now (ct\<lparr>c_tmre := None\<rparr>) sip else (sip, [])
      | None \<Rightarrow> (sip, []))"

section \<open>The transactions as a machine\<close>

inductive sip_step :: "sip_client \<Rightarrow> sip_out list \<Rightarrow> sip_client \<Rightarrow> bool" where
  request: "sip_ctrans_request env now mem tp dst met branch mb connh sip = (r, sip', out) \<Longrightarrow> sip_step sip out sip'"
| cancel: "ct \<in> set (sc_ctrans sip) \<Longrightarrow> sip_ctrans_cancel env now dup mem ct sip = (err, sip', out) \<Longrightarrow> sip_step sip out sip'"
| response: "response_handler env now msg sip = (b, sip', out) \<Longrightarrow> sip_step sip out sip'"
| timeout: "ct \<in> set (sc_ctrans sip) \<Longrightarrow> ctrans_tmr now ct sip = (sip', out) \<Longrightarrow> sip_step sip out sip'"
| retransmit: "ct \<in> set (sc_ctrans sip) \<Longrightarrow> ctrans_tmre env now ct sip = (sip', out) \<Longrightarrow> sip_step sip out sip'"
| transport: "ct \<in> set (sc_ctrans sip) \<Longrightarrow> transport_handler err ct sip = (sip', out) \<Longrightarrow> sip_step sip out sip'"
| release: "ct \<in> set (sc_ctrans sip) \<Longrightarrow> ctrans_destructor ct sip = (sip', out) \<Longrightarrow> sip_step sip out sip'"

text \<open>A run: the instance and everything it has put out so far.\<close>

definition sip_init :: "sip_client \<times> sip_out list \<Rightarrow> bool" where
  "sip_init s \<longleftrightarrow> sc_ctrans (fst s) = [] \<and> sc_next (fst s) = 0 \<and> snd s = []"

definition sip_next :: "sip_client \<times> sip_out list \<Rightarrow> sip_out list \<Rightarrow> sip_client \<times> sip_out list \<Rightarrow> bool" where
  "sip_next s out t \<longleftrightarrow> sip_step (fst s) out (fst t) \<and> snd t = snd s @ out"

section \<open>What a user is told\<close>

text \<open>
  The contract of a transaction with its user, as an automaton over the outputs about it: begun once, then
  any number of provisional responses, then one final response or error; after that nothing but the
  end. The user may release it at any time.
\<close>

datatype phase = Fresh | Opened | Told | Gone

definition provisional :: "errno option \<Rightarrow> sip_msg option \<Rightarrow> bool" where
  "provisional err msg \<longleftrightarrow> err = None \<and> (case msg of Some m \<Rightarrow> m_scode m < 200 | None \<Rightarrow> False)"

fun follow :: "nat \<Rightarrow> sip_out \<Rightarrow> phase \<Rightarrow> phase option" where
  "follow k (Begun j) p = (if j \<noteq> k then Some p else if p = Fresh then Some Opened else None)"
| "follow k (Resp j err msg) p =
     (if j \<noteq> k then Some p else if p \<noteq> Opened then None else if provisional err msg then Some Opened else Some Told)"
| "follow k (Freed j) p = (if j \<noteq> k then Some p else if p = Told then Some Gone else None)"
| "follow k (Released j) p = (if j \<noteq> k then Some p else if p = Opened \<or> p = Told then Some Gone else None)"
| "follow k (Tx tp dst mb) p = Some p"

definition ph :: "sip_ctrans \<Rightarrow> phase" where
  "ph ct = (if c_state ct = COMPLETED then Told else Opened)"

abbreviation phase_of :: "sip_client \<Rightarrow> nat \<Rightarrow> phase" where
  "phase_of sip k \<equiv> phase_at c_id ph Fresh Gone (sc_ctrans sip) (sc_next sip) k"

text \<open>
  A transaction always has the timer that ends it, but an INVITE that has a provisional response; over an
  unreliable transport it is sent again until there is a response (and a request that is not an INVITE after a provisional one too).
\<close>

definition ct_ok :: "sip_ctrans \<Rightarrow> bool" where
  "ct_ok ct \<longleftrightarrow> (c_invite ct \<longleftrightarrow> c_met ct = ''INVITE'') \<and> c_state ct \<noteq> (if c_invite ct then TRYING else CALLING)
     \<and> (c_tmr ct \<noteq> None \<or> c_invite ct \<and> c_state ct = PROCEEDING)
     \<and> (c_tmre ct \<noteq> None \<longleftrightarrow> \<not> sip_transp_reliable (c_tp ct) \<and> c_state ct \<noteq> COMPLETED \<and> \<not> (c_invite ct \<and> c_state ct = PROCEEDING))
     \<and> (c_state ct = COMPLETED \<longrightarrow> \<not> sip_transp_reliable (c_tp ct))"

abbreviation cl_ok :: "sip_client \<Rightarrow> bool" where
  "cl_ok sip \<equiv> table_ok c_id ct_ok (sc_ctrans sip) (sc_next sip)"

fun about :: "sip_out \<Rightarrow> nat option" where
  "about (Tx _ _ _) = None"
| "about (Resp k _ _) = Some k"
| "about (Begun k) = Some k"
| "about (Freed k) = Some k"
| "about (Released k) = Some k"

interpretation cl: ledger c_id ct_ok ph Fresh Gone about follow
proof
  show "follow k e p = Some p" if "about e \<noteq> Some k" for e k p using that by (cases e) auto
qed

abbreviation sim :: "sip_client \<Rightarrow> sip_out list \<Rightarrow> sip_client \<Rightarrow> bool" where
  "sim sip out sip' \<equiv> cl.sim (sc_ctrans sip) (sc_next sip) out (sc_ctrans sip') (sc_next sip')"

lemma ct_put_sim:
  assumes "cl_ok sip" "ct \<in> set (sc_ctrans sip)" "c_id ct' = c_id ct" "ct_ok ct'"
    "\<forall>e \<in> set out. about e \<in> {None, Some (c_id ct)}" "track (follow (c_id ct)) out (ph ct) = Some (ph ct')"
  shows "sim sip out (ct_put ct' sip)"
  using cl.sim_put [OF assms] by (simp add: ct_put_def)

lemma ct_remove_sim:
  assumes "cl_ok sip" "ct \<in> set (sc_ctrans sip)" "k = c_id ct"
    "\<forall>e \<in> set out. about e \<in> {None, Some k}" "track (follow k) out (ph ct) = Some Gone"
  shows "sim sip out (ct_remove k sip)"
  using cl.sim_remove [OF assms] by (simp add: ct_remove_def)

section \<open>Every step keeps the contract\<close>

lemma send_out: "transp_send env connh tp dst mb = (err, mb', out) \<Longrightarrow> \<forall>e \<in> set out. about e = None"
  by (auto simp: transp_send_def Let_def split: if_splits)

lemma ack_out: "\<forall>e \<in> set (send_ack env ct). about e = None"
  by (auto simp: send_ack_def transp_send_def Let_def split: option.split)

lemma copy_ct: "request_copy env sw ct met resp = (r, ct') \<Longrightarrow> \<exists>q. ct' = ct\<lparr>c_req := q\<rparr>"
  by (auto simp: request_copy_def Let_def split: option.splits sum.splits) (metis sip_ctrans.surjective sip_ctrans.update_convs(7))+

lemma terminate_ends:
  "track (follow (c_id ct)) (terminate ct err @ [Freed (c_id ct)]) (ph ct) = Some Gone"
  by (cases "c_state ct") (simp_all add: terminate_def ph_def provisional_def)

lemma terminate_about: "\<forall>e \<in> set (terminate ct err @ [Freed (c_id ct)]). about e \<in> {None, Some (c_id ct)}"
  by (simp add: terminate_def split: cstate.split)

lemma sim_terminate:
  assumes "cl_ok sip" "ct \<in> set (sc_ctrans sip)" "c_id ct' = c_id ct" "c_state ct' = c_state ct" "\<forall>e \<in> set out. about e = None"
  shows "sim sip (out @ terminate ct' err @ [Freed (c_id ct')]) (ct_remove (c_id ct') sip)"
proof (rule ct_remove_sim [OF assms(1,2,3)])
  have "ph ct = ph ct'" using assms(4) by (simp add: ph_def)
  then show "track (follow (c_id ct')) (out @ terminate ct' err @ [Freed (c_id ct')]) (ph ct) = Some Gone"
    using terminate_ends [of ct' err] by (simp add: cl.track_quiet [OF assms(5)])
  show "\<forall>e \<in> set (out @ terminate ct' err @ [Freed (c_id ct')]). about e \<in> {None, Some (c_id ct')}"
    using terminate_about [of ct' err] assms(5) by auto
qed

lemma sim_timeout:
  assumes ok: "cl_ok sip" and ct: "ct \<in> set (sc_ctrans sip)" and r: "ctrans_tmr now ct sip = (sip', out)"
  shows "sim sip out sip'"
  using r cl.sim_same [OF ok, of "[]"] sim_terminate [OF ok ct, of "ct\<lparr>c_tmr := None\<rparr>" "[]"]
  by (auto simp: ctrans_tmr_def tmr_handler_def split: option.splits if_splits)

lemma sim_retransmit:
  assumes ok: "cl_ok sip" and ct: "ct \<in> set (sc_ctrans sip)" and r: "ctrans_tmre env now ct sip = (sip', out)"
  shows "sim sip out sip'"
proof (cases "\<exists>t. c_tmre ct = Some t \<and> t \<le> now")
  case False
  then show ?thesis using r cl.sim_same [OF ok, of "[]"] by (auto simp: ctrans_tmre_def split: option.splits)
next
  case True
  let ?ct = "ct\<lparr>c_tmre := None\<rparr>"
  have okct: "ct_ok ct" using ok ct by (simp add: table_ok_def)
  then have ns: "c_state ct \<noteq> COMPLETED" using True by (auto simp: ct_ok_def)
  have h: "retransmit_handler env now ?ct sip = (sip', out)" using r True by (auto simp: ctrans_tmre_def)
  obtain tmo where i: "retransmit_interval (c_state ct) (c_txc ct + 1) = Some tmo"
    using ns by (cases "c_state ct") (auto simp: retransmit_interval_def)
  obtain err mb o1 where s: "transp_send env (c_connh ct) (c_tp ct) (c_dst ct) (c_mb ct) = (err, mb, o1)" by (metis prod_cases3)
  define ct' where "ct' = ct\<lparr>c_txc := c_txc ct + 1, c_tmre := Some (now + ucast tmo), c_mb := mb\<rparr>"
  have f: "c_id ct' = c_id ct" "c_state ct' = c_state ct" "ct_ok ct'" "ph ct' = ph ct"
    using okct True by (auto simp: ct'_def ct_ok_def ph_def)
  note o1 = send_out [OF s]
  have "(sip', out) = (if err \<noteq> None then (ct_remove (c_id ct') sip, o1 @ terminate ct' err @ [Freed (c_id ct')]) else (ct_put ct' sip, o1))"
    using h i s by (simp add: retransmit_handler_def ct'_def Let_def split: if_splits)
  then show ?thesis using sim_terminate [OF ok ct f(1,2) o1, of err] ct_put_sim [OF ok ct f(1,3), of o1] o1 f(4)
    by (auto simp: cl.track_other split: if_splits)
qed

lemma sim_request:
  assumes ok: "cl_ok sip" and r: "sip_ctrans_request env now mem tp dst met branch mb connh sip = (res, sip', out)"
  shows "sim sip out sip'"
proof (cases res)
  case (Inl e)
  then show ?thesis using r cl.sim_same [OF ok] send_out
    by (auto simp: sip_ctrans_request_def Let_def split: if_splits prod.splits option.splits)
next
  case (Inr k)
  obtain ct o1 where k: "k = sc_next sip" and ct: "c_id ct = k" "ct_ok ct" "ph ct = Opened"
      and sip': "sip' = sip\<lparr>sc_ctrans := sc_ctrans sip @ [ct], sc_next := Suc k\<rparr>" and out: "out = Begun k # o1" "\<forall>e \<in> set o1. about e = None"
  proof -
    obtain err mb' o1 where s: "transp_send env connh tp dst mb = (err, mb', o1)" by (metis prod_cases3)
    show thesis
      by (rule that [of "\<lparr>c_id = sc_next sip, c_dst = dst, c_tmr = Some (now + ucast (64 * SIP_T1)),
                       c_tmre = (if \<not> sip_transp_reliable tp then Some (now + ucast SIP_T1) else None),
                       c_mb = mb', c_mb_ack = None, c_req = None, c_met = met, c_branch = branch, c_connh = connh, c_tp = tp,
                       c_state = (if met = ''INVITE'' then CALLING else TRYING), c_txc = 0, c_invite = (met = ''INVITE'')\<rparr>" o1])
         (use r s Inr send_out [OF s] in \<open>auto simp: sip_ctrans_request_def Let_def ct_ok_def ph_def split: if_splits option.splits\<close>)
  qed
  show ?thesis using cl.sim_begin [OF ok, of ct out] ct out k by (simp add: sip' cl.track_other)
qed

lemma sim_invite_final:
  assumes ok: "cl_ok sip" and ct: "ct \<in> set (sc_ctrans sip)" "c_invite ct" "ph ct = Opened" "c_tmre ct' = None"
    and ct': "\<exists>a b. ct' = ct\<lparr>c_tmr := a, c_tmre := b\<rparr>" and msg: "\<not> m_scode msg < 200" and r: "invite_final env now ct' msg sip = (sip', out)"
  shows "sim sip out sip'"
proof -
  obtain res ct1 where c: "request_copy env (sc_software sip) (ct'\<lparr>c_state := COMPLETED\<rparr>) ''ACK'' (Some msg) = (res, ct1)" by (cases "request_copy env (sc_software sip) (ct'\<lparr>c_state := COMPLETED\<rparr>) ''ACK'' (Some msg)")
  define ct2 where "ct2 = (case res of Inr txt \<Rightarrow> ct1\<lparr>c_mb_ack := Some txt\<rparr> | Inl _ \<Rightarrow> ct1)"
  obtain q where ct1: "ct1 = ct'\<lparr>c_state := COMPLETED, c_req := q\<rparr>" using copy_ct [OF c] by auto
  have f: "c_id ct2 = c_id ct" "c_tp ct2 = c_tp ct" "c_state ct2 = COMPLETED" "c_invite ct2" "c_met ct2 = c_met ct" "c_tmre ct2 = None"
    using ct' ct(2,4) by (auto simp: ct2_def ct1 split: sum.split)
  let ?o = "send_ack env ct2 @ [Resp (c_id ct) None (Some msg)]"
  have res: "(sip', out) = (if sip_transp_reliable (c_tp ct) then (ct_remove (c_id ct) sip, ?o @ [Freed (c_id ct)])
      else (ct_put (ct2\<lparr>c_tmr := Some (now + ucast COMPLETE_WAIT)\<rparr>) sip, ?o))"
    using r f(1,2) by (simp add: invite_final_def c ct2_def [symmetric] Let_def split: if_splits)
  have told: "track (follow (c_id ct)) (?o @ es) (ph ct) = track (follow (c_id ct)) es Told" for es
    using ct(3) msg cl.track_quiet [OF ack_out] by (simp add: provisional_def)
  have about: "\<forall>e \<in> set (?o @ [Freed (c_id ct)]). about e \<in> {None, Some (c_id ct)}" using ack_out [of env ct2] by auto
  have "ct_ok ct" using ok ct(1) by (simp add: table_ok_def)
  then have "ct_ok (ct2\<lparr>c_tmr := Some t\<rparr>)" if "\<not> sip_transp_reliable (c_tp ct)" for t
    using f that ct(2) by (simp add: ct_ok_def)
  then show ?thesis
    using res ct_remove_sim [OF ok ct(1) refl about] ct_put_sim [OF ok ct(1), of "ct2\<lparr>c_tmr := Some (now + ucast COMPLETE_WAIT)\<rparr>" ?o]
      told [of "[Freed (c_id ct)]"] told [of "[]"] about f(1,3)
    by (auto simp: ph_def split: if_splits)
qed

lemma sim_invite:
  assumes ok: "cl_ok sip" and ct: "ct \<in> set (sc_ctrans sip)" "c_invite ct" and r: "invite_response env now ct msg sip = (sip', out)"
  shows "sim sip out sip'"
proof -
  define ct' where "ct' = (if c_state ct = CALLING then ct\<lparr>c_tmr := None, c_tmre := None\<rparr> else ct)"
  have okct: "ct_ok ct" using ok ct by (simp add: table_ok_def)
  have f: "c_id ct' = c_id ct" "c_state ct' = c_state ct" "c_tmre ct' = None" "c_invite ct'" "c_met ct' = c_met ct" "c_tp ct' = c_tp ct"
    using okct ct(2) by (cases "c_state ct"; auto simp: ct'_def ct_ok_def)+
  have ex: "\<exists>a b. ct' = ct\<lparr>c_tmr := a, c_tmre := b\<rparr>"
  proof (cases "c_state ct = CALLING")
    case False
    then show ?thesis by (intro exI [of _ "c_tmr ct"] exI [of _ "c_tmre ct"]) (simp add: ct'_def)
  qed (auto simp: ct'_def)
  consider (fin) "c_state ct = COMPLETED" | (run) "c_state ct = CALLING \<or> c_state ct = PROCEEDING" using okct ct(2) by (cases "c_state ct") (auto simp: ct_ok_def)
  then show ?thesis
  proof cases
    case fin
    then show ?thesis using r cl.sim_same [OF ok] ack_out by (auto simp: invite_response_def Let_def split: if_splits)
  next
    case run
    then have ph: "ph ct = Opened" by (auto simp: ph_def)
    have "ct_ok (ct'\<lparr>c_state := PROCEEDING\<rparr>)" using okct f ct(2) by (simp add: ct_ok_def)
    then have prov: "sim sip [Resp (c_id ct) None (Some msg)] (ct_put (ct'\<lparr>c_state := PROCEEDING\<rparr>) sip)" if "m_scode msg < 200"
      using f(1) ph that by (intro ct_put_sim [OF ok ct(1)]) (auto simp: provisional_def ph_def)
    have succ: "sim sip [Resp (c_id ct) None (Some msg), Freed (c_id ct)] (ct_remove (c_id ct) sip)" if "\<not> m_scode msg < 200"
      using ph that by (intro ct_remove_sim [OF ok ct(1)]) (auto simp: provisional_def)
    have "(sip', out) = (if m_scode msg < 200 then (ct_put (ct'\<lparr>c_state := PROCEEDING\<rparr>) sip, [Resp (c_id ct) None (Some msg)])
        else if m_scode msg < 300 then (ct_remove (c_id ct) sip, [Resp (c_id ct) None (Some msg), Freed (c_id ct)])
        else invite_final env now ct' msg sip)"
      using r run f(1,2) by (auto simp: invite_response_def ct'_def [symmetric] Let_def)
    then show ?thesis using prov succ sim_invite_final [OF ok ct ph f(3) ex, of msg env now sip' out] by (auto split: if_splits)
  qed
qed

lemma sim_response:
  assumes ok: "cl_ok sip" and r: "response_handler env now msg sip = (b, sip', out)"
  shows "sim sip out sip'"
proof (cases "find (cmp_handler msg) (sc_ctrans sip)")
  case None
  then show ?thesis using r cl.sim_same [OF ok, of "[]"] by (simp add: response_handler_def)
next
  case (Some ct)
  then have ct: "ct \<in> set (sc_ctrans sip)" by (auto simp: find_Some_iff)
  then have okct: "ct_ok ct" using ok by (simp add: table_ok_def)
  show ?thesis
  proof (cases "c_invite ct")
    case True
    then show ?thesis using sim_invite [OF ok ct True] r Some by (auto simp: response_handler_def)
  next
    case False
    have "ct_ok (ct\<lparr>c_state := PROCEEDING\<rparr>)" if "c_state ct \<noteq> COMPLETED" using okct that False by (auto simp: ct_ok_def)
    moreover have "ct_ok (ct\<lparr>c_state := COMPLETED, c_tmr := Some t, c_tmre := None\<rparr>)" if "\<not> sip_transp_reliable (c_tp ct)" for t
      using okct that False by (simp add: ct_ok_def)
    ultimately show ?thesis using r Some False cl.sim_same [OF ok, of "[]"]
      by (auto simp: response_handler_def provisional_def ph_def split: if_splits
            intro!: ct_put_sim [OF ok ct] ct_remove_sim [OF ok ct refl])
  qed
qed

lemma sim_cancel:
  assumes ok: "cl_ok sip" and ct: "ct \<in> set (sc_ctrans sip)" and r: "sip_ctrans_cancel env now dup mem ct sip = (err, sip', out)"
  shows "sim sip out sip'"
proof (cases "c_invite ct \<and> c_state ct = PROCEEDING")
  case False
  then show ?thesis using r cl.sim_same [OF ok, of "[]"] by (auto simp: sip_ctrans_cancel_def split: if_splits)
next
  case True
  let ?t = "Some (now + ucast (64 * SIP_T1))"
  have okct: "ct_ok ct" using ok ct by (simp add: table_ok_def)
  have put: "sim sip [] (ct_put (ct\<lparr>c_tmr := ?t, c_req := q\<rparr>) sip)" for q
    using okct True by (intro ct_put_sim [OF ok ct]) (auto simp: ct_ok_def ph_def)
  have "ct\<lparr>c_tmr := ?t, c_req := c_req ct\<rparr> = ct\<lparr>c_tmr := ?t\<rparr>" by simp
  then have put0: "sim sip [] (ct_put (ct\<lparr>c_tmr := ?t\<rparr>) sip)" using put [of "c_req ct"] by simp
  have twice: "ct_put (ct\<lparr>c_tmr := ?t, c_req := q\<rparr>) (ct_put (ct\<lparr>c_tmr := ?t\<rparr>) sip) = ct_put (ct\<lparr>c_tmr := ?t, c_req := q\<rparr>) sip" for q
    by (simp add: ct_put_def)
  obtain res ct1 where c: "request_copy env (sc_software (ct_put (ct\<lparr>c_tmr := ?t\<rparr>) sip)) (ct\<lparr>c_tmr := ?t\<rparr>) ''CANCEL'' None = (res, ct1)"
    by (cases "request_copy env (sc_software (ct_put (ct\<lparr>c_tmr := ?t\<rparr>) sip)) (ct\<lparr>c_tmr := ?t\<rparr>) ''CANCEL'' None")
  obtain q where ct1: "ct1 = ct\<lparr>c_tmr := ?t, c_req := q\<rparr>" using copy_ct [OF c] by auto
  have req: "sim sip out' s" if "sip_ctrans_request env now mem tp dst met br mb cn (ct_put ct1 sip) = (rr, s, out')" for rr s out' tp dst met br mb cn
  proof -
    have p: "sim sip [] (ct_put ct1 sip)" unfolding ct1 by (rule put)
    then have "cl_ok (ct_put ct1 sip)" by (rule cl.sim_ok)
    from cl.sim_trans [OF p sim_request [OF this that]] show ?thesis by simp
  qed
  show ?thesis
  proof (cases "dup")
    case False
    then show ?thesis using r True put0 by (simp add: sip_ctrans_cancel_def Let_def)
  next
    case dup: True
    show ?thesis
    proof (cases res)
      case (Inl e)
      then show ?thesis using r True dup c put by (auto simp: sip_ctrans_cancel_def Let_def ct1 twice)
    next
      case (Inr mb)
      then show ?thesis using r True dup c req
        by (auto simp: sip_ctrans_cancel_def Let_def twice ct1 split: prod.splits sum.splits)
    qed
  qed
qed

lemma sim_step:
  assumes "sip_step sip out sip'" and ok: "cl_ok sip"
  shows "sim sip out sip'"
  using assms(1)
proof cases
  case (transport ct err)
  then show ?thesis using sim_terminate [OF ok transport(1), of ct "[]"] by (auto simp: transport_handler_def)
next
  case (release ct)
  then show ?thesis using ct_remove_sim [OF ok release(1) refl] by (auto simp: ctrans_destructor_def ph_def)
qed (use ok in \<open>auto intro: sim_request sim_cancel sim_response sim_timeout sim_retransmit\<close>)

interpretation sip_m: machine sip_init sip_next "\<lambda>s. cl_ok (fst s) \<and> (\<forall>k. track (follow k) (snd s) Fresh = Some (phase_of (fst s) k))"
proof (unfold_locales, goal_cases)
  case (1 s)
  then show ?case by (simp add: sip_init_def table_ok_def phase_at_def)
next
  case (2 s out t)
  then have "sim (fst s) out (fst t)" "snd t = snd s @ out" by (auto simp: sip_next_def intro: sim_step)
  then show ?case using 2(1) by (simp add: cl.sim_def track_append)
qed

text \<open>C3:
  A user of a client transaction is told once. In every run of an instance, with any transport and any responses,
  the outputs about each transaction follow the contract: begun once, provisional responses, one final response or
  error, the end, and nothing out of this order; the state of the transaction says where it is. And no
  transaction is left behind: each one has the timer that ends it, but an INVITE with a
  provisional response, which waits for the called party.
\<close>

theorem sip_ctrans_refines:
  assumes "reachable sip_init sip_next (sip, tr)"
  shows "track (follow k) tr Fresh = Some (phase_of sip k)
    \<and> (\<forall>ct \<in> set (sc_ctrans sip). c_tmr ct \<noteq> None \<or> c_met ct = ''INVITE'' \<and> c_state ct = PROCEEDING)"
  using sip_m.reachable_inv [OF assms] by (auto simp: table_ok_def ct_ok_def)

definition demo_env :: env where
  "demo_env = \<lparr>e_send = (\<lambda>_ _ _. None), e_conn = (\<lambda>_ _ t. t), e_mem = (\<lambda>_. None), e_decode = (\<lambda>_. Inl EBADMSG)\<rparr>"

definition demo_msg :: "u16 \<Rightarrow> sip_msg" where
  "demo_msg sc = \<lparr>m_req = False, m_met = [], m_ruri = [], m_scode = sc, m_routes = [], m_via = \<lparr>via_sentby = [], via_branch = ''b'', via_val = []\<rparr>,
     m_to = \<lparr>ta_auri = ''sip:x'', ta_tag = [], ta_val = []\<rparr>, m_from = \<lparr>ta_auri = ''sip:x'', ta_tag = [], ta_val = []\<rparr>, m_cseq = \<lparr>cs_met = ''OPTIONS'', cs_num = 1\<rparr>,
     m_callid = ''c'', m_tag = 0, m_tp = SIP_TRANSP_UDP\<rparr>"

definition demo_start :: "sip_client \<times> sip_out list" where
  "demo_start = (case sip_ctrans_request demo_env 7 True SIP_TRANSP_UDP (sa_init AF_INET) ''OPTIONS'' ''b'' ''text'' False
     \<lparr>sc_ctrans = [], sc_next = 0, sc_software = None\<rparr> of (_, sip, out) \<Rightarrow> (sip, out))"

definition demo_answered :: "sip_client \<times> sip_out list" where
  "demo_answered = (case response_handler demo_env 9 (demo_msg 200) (fst demo_start) of (_, sip, out) \<Rightarrow> (sip, snd demo_start @ out))"

lemmas demo_defs = demo_start_def demo_answered_def sip_ctrans_request_def response_handler_def transp_send_def demo_env_def demo_msg_def
  cmp_handler_def ct_put_def put_entry_def sip_transp_reliable_def Let_def

theorem sip_ctrans_refines_witness:
  "track (follow 0) (snd demo_answered) Fresh = Some Told \<and> list_all (\<lambda>ct. c_tmr ct \<noteq> None) (sc_ctrans (fst demo_answered))"
proof -
  let ?s0 = "(\<lparr>sc_ctrans = [], sc_next = 0, sc_software = None\<rparr> :: sip_client, [] :: sip_out list)"
  have "sip_next ?s0 (snd demo_start) demo_start"
    by (auto simp: sip_next_def demo_start_def split: prod.split intro: request)
  moreover have "sip_next demo_start (drop 2 (snd demo_answered)) demo_answered"
    unfolding sip_next_def
    by (rule conjI, rule response [of demo_env 9 "demo_msg 200" _ True]) (simp_all add: demo_defs)
  moreover have "sip_init ?s0" by (simp add: sip_init_def)
  ultimately have "reachable sip_init sip_next demo_answered" by (metis reach_init reach_step)
  then have "track (follow 0) (snd demo_answered) Fresh = Some (phase_of (fst demo_answered) 0)
      \<and> (\<forall>ct \<in> set (sc_ctrans (fst demo_answered)). c_tmr ct \<noteq> None \<or> c_met ct = ''INVITE'' \<and> c_state ct = PROCEEDING)"
    using sip_ctrans_refines [of "fst demo_answered" "snd demo_answered" 0] by simp
  moreover have "phase_of (fst demo_answered) 0 = Told" "\<forall>ct \<in> set (sc_ctrans (fst demo_answered)). c_met ct \<noteq> ''INVITE''"
    by (simp_all add: demo_defs phase_at_def ph_def)
  ultimately show ?thesis by (auto simp: list_all_iff)
qed

section \<open>Retransmission\<close>

text \<open>
  A transaction with only its timers: the one that expires first fires, at its time, up to \<open>n\<close> times. Outputs are
  listed with that time.
\<close>

definition first_timer :: "sip_ctrans \<Rightarrow> (u64 \<times> bool) option" where
  "first_timer ct =
     (case (c_tmr ct, c_tmre ct) of
        (Some a, Some b) \<Rightarrow> Some (if b < a then (b, False) else (a, True))
      | (Some a, None) \<Rightarrow> Some (a, True)
      | (None, Some b) \<Rightarrow> Some (b, False)
      | (None, None) \<Rightarrow> None)"

fun alone :: "env \<Rightarrow> nat \<Rightarrow> nat \<Rightarrow> sip_client \<Rightarrow> (u64 \<times> sip_out) list" where
  "alone env 0 k sip = []"
| "alone env (Suc n) k sip =
     (case find (\<lambda>c. c_id c = k) (sc_ctrans sip) of
        None \<Rightarrow> []
      | Some ct \<Rightarrow>
          (case first_timer ct of
             None \<Rightarrow> []
           | Some (t, b) \<Rightarrow>
               (case (if b then ctrans_tmr t ct sip else ctrans_tmre env t ct sip) of (sip', out) \<Rightarrow>
                  map (Pair t) out @ alone env n k sip')))"

text \<open>Intervals that follow each other from a count of transmissions on, and the times they give.\<close>

fun intervals :: "cstate \<Rightarrow> u32 \<Rightarrow> u32 list \<Rightarrow> bool" where
  "intervals s i [] \<longleftrightarrow> True"
| "intervals s i (iv # ivs) \<longleftrightarrow> retransmit_interval s (i + 1) = Some iv \<and> intervals s (i + 1) ivs"

fun beats :: "u64 \<Rightarrow> u32 list \<Rightarrow> u64 list" where
  "beats a [] = []"
| "beats a (iv # ivs) = a # beats (a + ucast iv) ivs"

fun after_beats :: "u64 \<Rightarrow> u32 list \<Rightarrow> u64" where
  "after_beats a [] = a"
| "after_beats a (iv # ivs) = after_beats (a + ucast iv) ivs"

lemma alone_gone: "find (\<lambda>c. c_id c = k) (sc_ctrans sip) = None \<Longrightarrow> alone env n k sip = []"
  by (cases n) simp_all

lemma alone_beats:
  assumes send: "\<And>t. e_send env tp dst t = None" and conn: "(if connh then e_conn env tp dst txt else txt) = txt"
  shows "find (\<lambda>c. c_id c = k) (sc_ctrans sip) = Some ct \<Longrightarrow> c_id ct = k \<Longrightarrow> c_state ct = s \<Longrightarrow> s \<noteq> COMPLETED \<Longrightarrow> c_tp ct = tp \<Longrightarrow> c_dst ct = dst
    \<Longrightarrow> c_connh ct = connh \<Longrightarrow> c_mb ct = txt \<Longrightarrow> c_txc ct = i \<Longrightarrow> c_tmr ct = Some b \<Longrightarrow> c_tmre ct = Some a
    \<Longrightarrow> intervals s i ivs \<Longrightarrow> \<forall>t \<in> set (beats a ivs). t < b \<Longrightarrow> b \<le> after_beats a ivs \<Longrightarrow> length ivs < n
    \<Longrightarrow> alone env n k sip = map (\<lambda>t. (t, Tx tp dst txt)) (beats a ivs) @ [(b, Resp k (Some ETIMEDOUT) None), (b, Freed k)]"
proof (induction ivs arbitrary: n sip ct i a)
  case Nil
  obtain m where n: "n = Suc m" using Nil.prems(15) by (cases n) auto
  have f: "first_timer ct = Some (b, True)" using Nil.prems by (simp add: first_timer_def linorder_not_less [symmetric])
  have "ctrans_tmr b ct sip = (ct_remove k sip, [Resp k (Some ETIMEDOUT) None, Freed k])"
    using Nil.prems by (cases s) (auto simp: ctrans_tmr_def tmr_handler_def terminate_def)
  then show ?case using Nil.prems(1) f by (simp add: n alone_gone ct_remove_def find_del_entry)
next
  case (Cons iv ivs)
  obtain m where n: "n = Suc m" "length ivs < m" using Cons.prems(15) by (cases n) auto
  define ct' where "ct' = ct\<lparr>c_txc := i + 1, c_tmre := Some (a + ucast iv)\<rparr>"
  have f: "first_timer ct = Some (a, False)" using Cons.prems by (simp add: first_timer_def)
  have mb: "ct\<lparr>c_txc := i + 1, c_tmre := Some (a + ucast iv), c_mb := txt\<rparr> = ct'" using Cons.prems(8) by (simp add: ct'_def)
  have "transp_send env connh tp dst txt = (None, txt, [Tx tp dst txt])"
    using send conn by (simp add: transp_send_def Let_def)
  then have "ctrans_tmre env a ct sip = (ct_put ct' sip, [Tx tp dst txt])"
    using Cons.prems mb by (simp add: ctrans_tmre_def retransmit_handler_def Let_def)
  then have "alone env n k sip = (a, Tx tp dst txt) # alone env m k (ct_put ct' sip)"
    using Cons.prems(1) f by (simp add: n)
  moreover have "alone env m k (ct_put ct' sip)
      = map (\<lambda>t. (t, Tx tp dst txt)) (beats (a + ucast iv) ivs) @ [(b, Resp k (Some ETIMEDOUT) None), (b, Freed k)]"
    by (rule Cons.IH [of _ ct' "i + 1"]) (use Cons.prems n find_put_entry [of c_id k ct' "sc_ctrans sip"] in \<open>simp_all add: ct'_def ct_put_def\<close>)
  ultimately show ?case by simp
qed

lemma later:
  fixes now :: u64
  assumes "unat now + 100000 < 2 ^ 64" "d < e" "e \<le> 100000"
  shows "now + of_nat d < now + of_nat e"
proof -
  have "unat (now + of_nat x) = unat now + x" if "x \<le> 100000" for x
  proof -
    have "x < 2 ^ 64" using that by simp
    then have "unat (of_nat x :: u64) = x" by (simp add: unat_of_nat)
    then show ?thesis using assms(1) that by (subst unat_plus_simple [THEN iffD1]) (simp_all add: word_le_nat_alt unat_word_ariths)
  qed
  then show ?thesis using assms by (simp add: word_less_nat_alt)
qed

text \<open>The times after a request at which it is sent again, in milliseconds.\<close>

definition delays :: "bool \<Rightarrow> nat list" where
  "delays invite = (if invite then [500, 1500, 3500, 7500, 15500, 31500]
     else [500, 1500, 3500, 7500, 11500, 15500, 19500, 23500, 27500, 31500])"

definition backoff :: "bool \<Rightarrow> u32 list" where
  "backoff invite = (if invite then [1000, 2000, 4000, 8000, 16000, 32000] else [1000, 2000, 4000, 4000, 4000, 4000, 4000, 4000, 4000, 4000])"

lemma backoff_intervals: "intervals (if invite then CALLING else TRYING) 0 (backoff invite)"
proof (cases invite)
  case True
  have "intervals CALLING 0 (backoff True)" by code_simp
  then show ?thesis using True by simp
next
  case False
  have "intervals TRYING 0 (backoff False)" by code_simp
  then show ?thesis using False by simp
qed

lemma backoff_beats:
  "beats (now + 500) (backoff invite) = map (\<lambda>d. now + of_nat d) (delays invite)"
  "after_beats (now + 500) (backoff invite) = now + of_nat (if invite then 63500 else 35500)"
  by (simp_all add: backoff_def delays_def add.assoc)

text \<open>C13:
  A request that nobody answers. Over UDP it is sent at once and then 0.5, 1.5, 3.5 and 7.5 s after the start; an INVITE
  again 15.5 and 31.5 s after, any other request every four seconds, all with the text the connected handler
  gave it. After 32 s the user is told \<open>ETIMEDOUT\<close>, once, and the transaction is gone.
\<close>

theorem sip_retransmits:
  assumes "cl_ok sip" and "unat now + 100000 < 2 ^ 64" and send: "\<And>t. e_send env SIP_TRANSP_UDP dst t = None"
    and tx: "txt = (if connh then e_conn env SIP_TRANSP_UDP dst mb else mb)" "connh \<Longrightarrow> e_conn env SIP_TRANSP_UDP dst txt = txt"
    and req: "sip_ctrans_request env now True SIP_TRANSP_UDP dst met branch mb connh sip = (r, sip', out)" and n: "10 < n"
  shows "r = Inr (sc_next sip) \<and> out = [Begun (sc_next sip), Tx SIP_TRANSP_UDP dst txt]
    \<and> alone env n (sc_next sip) sip' = map (\<lambda>d. (now + of_nat d, Tx SIP_TRANSP_UDP dst txt)) (delays (met = ''INVITE''))
        @ [(now + 32000, Resp (sc_next sip) (Some ETIMEDOUT) None), (now + 32000, Freed (sc_next sip))]"
proof -
  let ?k = "sc_next sip" and ?inv = "met = ''INVITE''"
  define ct where "ct = \<lparr>c_id = ?k, c_dst = dst, c_tmr = Some (now + ucast (64 * SIP_T1)), c_tmre = Some (now + ucast SIP_T1),
                       c_mb = txt, c_mb_ack = None, c_req = None, c_met = met, c_branch = branch, c_connh = connh, c_tp = SIP_TRANSP_UDP,
                       c_state = (if ?inv then CALLING else TRYING), c_txc = 0, c_invite = ?inv\<rparr>"
  have "transp_send env connh SIP_TRANSP_UDP dst mb = (None, txt, [Tx SIP_TRANSP_UDP dst txt])"
    using send tx(1) by (simp add: transp_send_def Let_def)
  then have "(r, sip', out) = (Inr ?k, sip\<lparr>sc_ctrans := sc_ctrans sip @ [ct], sc_next := Suc ?k\<rparr>, [Begun ?k, Tx SIP_TRANSP_UDP dst txt])"
    using req by (simp add: sip_ctrans_request_def ct_def sip_transp_reliable_def Let_def)
  then have r: "r = Inr ?k" "out = [Begun ?k, Tx SIP_TRANSP_UDP dst txt]" and sip': "sc_ctrans sip' = sc_ctrans sip @ [ct]" by simp_all
  have fresh: "find (\<lambda>c. c_id c = ?k) (sc_ctrans sip) = None" using assms(1) by (auto simp: find_None_iff table_ok_def)
  have "find (\<lambda>c. c_id c = ?k) (sc_ctrans sip') = Some ct" using fresh by (simp add: sip' find_append ct_def)
  moreover have "\<forall>t \<in> set (beats (now + 500) (backoff ?inv)). t < now + 32000"
  proof -
    have "\<forall>d \<in> set (delays ?inv). d < 32000" by (simp add: delays_def)
    then show ?thesis using later [OF assms(2), of _ 32000] by (auto simp: backoff_beats)
  qed
  moreover have "now + 32000 \<le> after_beats (now + 500) (backoff ?inv)"
    using later [OF assms(2), of 32000 63500] later [OF assms(2), of 32000 35500] by (auto simp: backoff_beats)
  moreover have "length (backoff ?inv) < n" using n by (simp add: backoff_def)
  ultimately have "alone env n ?k sip' = map (\<lambda>t. (t, Tx SIP_TRANSP_UDP dst txt)) (beats (now + 500) (backoff ?inv))
      @ [(now + 32000, Resp ?k (Some ETIMEDOUT) None), (now + 32000, Freed ?k)]"
    using send tx(2) backoff_intervals [of ?inv] by (intro alone_beats [of env _ _ connh]) (auto simp: ct_def SIP_T1_def)
  then show ?thesis using r by (simp add: backoff_beats)
qed

theorem sip_retransmits_witness:
  "alone demo_env 11 0 (fst demo_start) = map (\<lambda>d. (7 + of_nat d, Tx SIP_TRANSP_UDP (sa_init AF_INET) ''text''))
      [500, 1500, 3500, 7500, 11500, 15500, 19500, 23500, 27500, 31500] @ [(32007, Resp 0 (Some ETIMEDOUT) None), (32007, Freed 0)]"
proof -
  let ?s = "\<lparr>sc_ctrans = [], sc_next = 0, sc_software = None\<rparr> :: sip_client"
  obtain r sip' out where q: "sip_ctrans_request demo_env 7 True SIP_TRANSP_UDP (sa_init AF_INET) ''OPTIONS'' ''b'' ''text'' False ?s = (r, sip', out)"
    by (metis prod_cases3)
  have "cl_ok ?s" by (simp add: table_ok_def)
  then have "alone demo_env 11 (sc_next ?s) sip' = map (\<lambda>d. (7 + of_nat d, Tx SIP_TRANSP_UDP (sa_init AF_INET) ''text'')) (delays (''OPTIONS'' = ''INVITE''))
      @ [(7 + 32000, Resp (sc_next ?s) (Some ETIMEDOUT) None), (7 + 32000, Freed (sc_next ?s))]"
    using sip_retransmits [OF _ _ _ _ _ q, of "''text''" 11] by (simp add: demo_env_def)
  then show ?thesis using q by (simp add: demo_start_def delays_def)
qed

end
