(* ===== verification/Sip_Strans.thy ===== *)
theory Sip_Strans
  imports Sip_Ctrans
begin

text \<open>
  SIP server transactions, \<open>re/src/sip/strans.c\<close>, in the manner of \<open>Sip_Ctrans\<close>. The tables \<open>ht_strans\<close> and
  \<open>ht_strans_mrg\<close> hold the same transactions in the same order, here one list. The stateless reply
  \<open>sip_reply\<close> is an output; a request that no transaction takes goes on to the user.
\<close>

section \<open>Transactions\<close>

datatype sstate = TRYING | PROCEEDING | ACCEPTED | COMPLETED | CONFIRMED

record sip_strans =
  sv_id :: nat
  sv_tmr :: "u64 option"
  sv_tmrg :: "u64 option"
  sv_dst :: sa
  sv_msg :: sip_msg
  sv_mb :: "string option"
  sv_state :: sstate
  sv_txc :: u32
  sv_invite :: bool

record sip_server =
  ss_strans :: "sip_strans list"
  ss_next :: nat

text \<open>
  Outputs: a transaction is created; the user replies through it (method INVITE or not, status code and
  text); the text is sent again; the cancel handler is called; it is freed, has failed, or is released by the user; and a
  stateless reply to a request. \<open>Acked\<close> notes the input that confirmed it.
\<close>

datatype srv_out =
    Begun nat
  | Reply nat bool u16 string
  | Again nat string
  | Acked nat
  | Cancelh nat
  | Freed nat
  | Failed nat
  | Released nat
  | Stateless sip_msg u16 string

definition st_put :: "sip_strans \<Rightarrow> sip_server \<Rightarrow> sip_server" where
  "st_put st sip = sip\<lparr>ss_strans := put_entry sv_id st (ss_strans sip)\<rparr>"

definition st_remove :: "nat \<Rightarrow> sip_server \<Rightarrow> sip_server" where
  "st_remove k sip = sip\<lparr>ss_strans := del_entry sv_id k (ss_strans sip)\<rparr>"

section \<open>Lookup\<close>

definition strans_cmp :: "sip_msg \<Rightarrow> sip_msg \<Rightarrow> bool" where
  "strans_cmp msg1 msg2 \<longleftrightarrow> via_branch (m_via msg1) = via_branch (m_via msg2) \<and> via_sentby (m_via msg1) = via_sentby (m_via msg2)"

definition cmp_handler :: "sip_msg \<Rightarrow> sip_strans \<Rightarrow> bool" where
  "cmp_handler msg st \<longleftrightarrow> strans_cmp (sv_msg st) msg \<and> cs_met (m_cseq (sv_msg st)) = cs_met (m_cseq msg)"

definition cmp_ack_handler :: "sip_msg \<Rightarrow> sip_strans \<Rightarrow> bool" where
  "cmp_ack_handler msg st \<longleftrightarrow> strans_cmp (sv_msg st) msg \<and> cs_met (m_cseq (sv_msg st)) = ''INVITE''"

definition cmp_cancel_handler :: "sip_msg \<Rightarrow> sip_strans \<Rightarrow> bool" where
  "cmp_cancel_handler msg st \<longleftrightarrow> strans_cmp (sv_msg st) msg \<and> cs_met (m_cseq (sv_msg st)) \<noteq> ''CANCEL''"

definition cmp_merge_handler :: "sip_msg \<Rightarrow> sip_strans \<Rightarrow> bool" where
  "cmp_merge_handler msg st \<longleftrightarrow> cs_met (m_cseq (sv_msg st)) = cs_met (m_cseq msg) \<and> cs_num (m_cseq (sv_msg st)) = cs_num (m_cseq msg)
     \<and> m_callid (sv_msg st) = m_callid msg \<and> ta_tag (m_from (sv_msg st)) = ta_tag (m_from msg) \<and> m_ruri (sv_msg st) = m_ruri msg"

section \<open>Handlers\<close>

text \<open>\<open>sip_send\<close> of the last text, if there is one; its error is ignored.\<close>

definition send_again :: "env \<Rightarrow> sip_strans \<Rightarrow> srv_out list" where
  "send_again env st =
     (case sv_mb st of
        None \<Rightarrow> []
      | Some mb \<Rightarrow> if e_send env (m_tp (sv_msg st)) (sv_dst st) mb = None then [Again (sv_id st) mb] else [])"

definition tmr_handler :: "sip_strans \<Rightarrow> sip_server \<Rightarrow> sip_server \<times> srv_out list" where
  "tmr_handler st sip = (st_remove (sv_id st) sip, [Freed (sv_id st)])"

definition retransmit_handler :: "env \<Rightarrow> u64 \<Rightarrow> sip_strans \<Rightarrow> sip_server \<Rightarrow> sip_server \<times> srv_out list" where
  "retransmit_handler env now st sip =
     (let out = send_again env st;
          st = st\<lparr>sv_txc := sv_txc st + 1\<rparr>;
          st = st\<lparr>sv_tmrg := Some (now + ucast (min (push_bit (unat (sv_txc st)) SIP_T1) SIP_T2))\<rparr>
      in (st_put st sip, out))"

definition ack_handler :: "u64 \<Rightarrow> sip_msg \<Rightarrow> sip_server \<Rightarrow> bool \<times> sip_server \<times> srv_out list" where
  "ack_handler now msg sip =
     (case find (cmp_ack_handler msg) (ss_strans sip) of
        None \<Rightarrow> (False, sip, [])
      | Some st \<Rightarrow>
          (case sv_state st of
             ACCEPTED \<Rightarrow> (False, sip, [])
           | COMPLETED \<Rightarrow>
               if sip_transp_reliable (m_tp (sv_msg st)) then (True, st_remove (sv_id st) sip, [Acked (sv_id st), Freed (sv_id st)])
               else (True, st_put (st\<lparr>sv_tmr := Some (now + ucast SIP_T4), sv_tmrg := None, sv_state := CONFIRMED\<rparr>) sip, [Acked (sv_id st)])
           | _ \<Rightarrow> (True, sip, [])))"

definition cancel_handler :: "sip_msg \<Rightarrow> sip_server \<Rightarrow> bool \<times> sip_server \<times> srv_out list" where
  "cancel_handler msg sip =
     (case find (cmp_cancel_handler msg) (ss_strans sip) of
        None \<Rightarrow> (False, sip, [])
      | Some st \<Rightarrow>
          (True, sip, Stateless (msg\<lparr>m_tag := m_tag (sv_msg st)\<rparr>) 200 ''OK''
             # (case sv_state st of TRYING \<Rightarrow> [Cancelh (sv_id st)] | PROCEEDING \<Rightarrow> [Cancelh (sv_id st)] | _ \<Rightarrow> [])))"

definition request_handler :: "env \<Rightarrow> u64 \<Rightarrow> sip_msg \<Rightarrow> sip_server \<Rightarrow> bool \<times> sip_server \<times> srv_out list" where
  "request_handler env now msg sip =
     (if m_met msg = ''ACK'' then ack_handler now msg sip
      else
        (case find (cmp_handler msg) (ss_strans sip) of
           Some st \<Rightarrow>
             (True, sip, case sv_state st of PROCEEDING \<Rightarrow> send_again env st | COMPLETED \<Rightarrow> send_again env st | _ \<Rightarrow> [])
         | None \<Rightarrow>
             if ta_tag (m_to msg) = [] \<and> find (cmp_merge_handler msg) (ss_strans sip) \<noteq> None
             then (True, sip, [Stateless msg 482 ''Loop Detected''])
             else if m_met msg = ''CANCEL'' then cancel_handler msg sip
             else (False, sip, [])))"

section \<open>Calls of the user\<close>

text \<open>\<open>mem\<close> says whether the structure can be allocated.\<close>

definition sip_strans_alloc :: "bool \<Rightarrow> sip_msg \<Rightarrow> sip_server \<Rightarrow> (errno + sip_strans) \<times> sip_server \<times> srv_out list" where
  "sip_strans_alloc mem msg sip =
     (if \<not> mem then (Inl ENOMEM, sip, [])
      else
        (let st = \<lparr>sv_id = ss_next sip, sv_tmr = None, sv_tmrg = None, sv_dst = sa_init AF_UNSPEC, sv_msg = msg, sv_mb = None,
               sv_state = TRYING, sv_txc = 0, sv_invite = (m_met msg = ''INVITE'')\<rparr>
         in (Inr st, sip\<lparr>ss_strans := ss_strans sip @ [st], ss_next := Suc (ss_next sip)\<rparr>, [Begun (sv_id st)])))"

text \<open>The state of a transaction after a reply that was sent; \<open>None\<close> when it is freed at once.\<close>

definition replied :: "u64 \<Rightarrow> u16 \<Rightarrow> sip_strans \<Rightarrow> sip_strans option" where
  "replied now scode st =
     (if sv_invite st then
        if scode < 200 then Some (st\<lparr>sv_state := PROCEEDING\<rparr>)
        else if scode < 300 then Some (st\<lparr>sv_tmr := Some (now + ucast (64 * SIP_T1)), sv_state := ACCEPTED\<rparr>)
        else
          (let st = st\<lparr>sv_tmr := Some (now + ucast (64 * SIP_T1)), sv_state := COMPLETED\<rparr> in
           Some (if \<not> sip_transp_reliable (m_tp (sv_msg st)) then st\<lparr>sv_tmrg := Some (now + ucast SIP_T1)\<rparr> else st))
      else
        if scode < 200 then Some (st\<lparr>sv_state := PROCEEDING\<rparr>)
        else if \<not> sip_transp_reliable (m_tp (sv_msg st))
        then Some (st\<lparr>sv_tmr := Some (now + ucast (64 * SIP_T1)), sv_state := COMPLETED\<rparr>)
        else None)"

text \<open>
  \<open>stp\<close> is \<open>None\<close> for a NULL pointer and otherwise what it points to, a transaction or nothing; it is returned
  with what is stored there. The message buffer and the destination are given.
\<close>

definition sip_strans_reply ::
  "env \<Rightarrow> u64 \<Rightarrow> bool \<Rightarrow> sip_strans option option \<Rightarrow> sip_msg \<Rightarrow> sa \<Rightarrow> u16 \<Rightarrow> string \<Rightarrow> sip_server
     \<Rightarrow> errno option \<times> nat option option \<times> sip_server \<times> srv_out list" where
  "sip_strans_reply env now mem stp msg dst scode mb sip =
     (if scode < 200 \<and> stp = None then (Some EINVAL, None, sip, [])
      else
        (case (case stp of Some (Some st) \<Rightarrow> (Inr st, sip, []) | _ \<Rightarrow> sip_strans_alloc mem msg sip) of
           (Inl e, sip, out) \<Rightarrow> (Some e, map_option (map_option sv_id) stp, sip, out)
         | (Inr st, sip, out) \<Rightarrow>
             (let st = st\<lparr>sv_mb := Some mb, sv_dst := dst\<rparr>;
                  err = e_send env (m_tp (sv_msg st)) dst mb;
                  ret = map_option (\<lambda>_. if err \<noteq> None \<or> scode \<ge> 200 then None else Some (sv_id st)) stp
              in if err \<noteq> None then (err, ret, st_remove (sv_id st) sip, out @ [Failed (sv_id st)])
                 else
                   (let out = out @ [Reply (sv_id st) (sv_invite st) scode mb] in
                    case replied now scode st of
                      Some st \<Rightarrow> (None, ret, st_put st sip, out)
                    | None \<Rightarrow> (None, ret, st_remove (sv_id st) sip, out @ [Freed (sv_id st)])))))"

definition strans_destructor :: "sip_strans \<Rightarrow> sip_server \<Rightarrow> sip_server \<times> srv_out list" where
  "strans_destructor st sip = (st_remove (sv_id st) sip, [Released (sv_id st)])"

definition strans_tmr :: "u64 \<Rightarrow> sip_strans \<Rightarrow> sip_server \<Rightarrow> sip_server \<times> srv_out list" where
  "strans_tmr now st sip =
     (case sv_tmr st of
        Some t \<Rightarrow> if t \<le> now then tmr_handler (st\<lparr>sv_tmr := None\<rparr>) sip else (sip, [])
      | None \<Rightarrow> (sip, []))"

definition strans_tmrg :: "env \<Rightarrow> u64 \<Rightarrow> sip_strans \<Rightarrow> sip_server \<Rightarrow> sip_server \<times> srv_out list" where
  "strans_tmrg env now st sip =
     (case sv_tmrg st of
        Some t \<Rightarrow> if t \<le> now then retransmit_handler env now (st\<lparr>sv_tmrg := None\<rparr>) sip else (sip, [])
      | None \<Rightarrow> (sip, []))"

section \<open>The transactions as a machine\<close>

text \<open>
  The user replies through, or releases, only transactions it still has a pointer to: those without a final
  reply, which \<open>held\<close> says. The definition of \<open>sip_strans_reply\<close> returns what the call leaves in \<open>*stp\<close>, nothing
  after a final reply or an error; the machine does not keep the user's pointers, so this value is not used by
  its steps, and that the user works with it, and not with a copy of an old pointer, is the assumption \<open>held\<close>.
\<close>

definition held :: "sip_strans \<Rightarrow> bool" where
  "held st \<longleftrightarrow> sv_state st = TRYING \<or> sv_state st = PROCEEDING"

inductive srv_step :: "sip_server \<Rightarrow> srv_out list \<Rightarrow> sip_server \<Rightarrow> bool" where
  request: "request_handler env now msg sip = (b, sip', out) \<Longrightarrow> srv_step sip out sip'"
| alloc: "sip_strans_alloc mem msg sip = (r, sip', out) \<Longrightarrow> srv_step sip out sip'"
| reply: "(\<forall>st. stp = Some (Some st) \<longrightarrow> st \<in> set (ss_strans sip) \<and> held st)
    \<Longrightarrow> sip_strans_reply env now mem stp msg dst scode mb sip = (err, ret, sip', out) \<Longrightarrow> srv_step sip out sip'"
| timeout: "st \<in> set (ss_strans sip) \<Longrightarrow> strans_tmr now st sip = (sip', out) \<Longrightarrow> srv_step sip out sip'"
| retransmit: "st \<in> set (ss_strans sip) \<Longrightarrow> strans_tmrg env now st sip = (sip', out) \<Longrightarrow> srv_step sip out sip'"
| release: "st \<in> set (ss_strans sip) \<Longrightarrow> held st \<Longrightarrow> strans_destructor st sip = (sip', out) \<Longrightarrow> srv_step sip out sip'"

definition srv_init :: "sip_server \<times> srv_out list \<Rightarrow> bool" where
  "srv_init s \<longleftrightarrow> ss_strans (fst s) = [] \<and> ss_next (fst s) = 0 \<and> snd s = []"

definition srv_next :: "sip_server \<times> srv_out list \<Rightarrow> srv_out list \<Rightarrow> sip_server \<times> srv_out list \<Rightarrow> bool" where
  "srv_next s out t \<longleftrightarrow> srv_step (fst s) out (fst t) \<and> snd t = snd s @ out"

section \<open>What the peer and the user see\<close>

text \<open>
  The contract of a server transaction as an automaton over the outputs about it: after its creation the user gives
  provisional replies and then one final reply. The text of the last reply may be sent again, nothing else. After an
  acceptance of an INVITE or the acknowledgement of a refusal, nothing is sent. The cancel handler is called only
  before the final reply.
\<close>

datatype sphase = Fresh | Pending "string option" | Answered string | Settled | Gone

fun follow :: "nat \<Rightarrow> srv_out \<Rightarrow> sphase \<Rightarrow> sphase option" where
  "follow k (Begun j) p = (if j \<noteq> k then Some p else if p = Fresh then Some (Pending None) else None)"
| "follow k (Reply j invite scode mb) p =
     (if j \<noteq> k then Some p
      else case p of
        Pending _ \<Rightarrow> if scode < 200 then Some (Pending (Some mb)) else if invite \<and> scode < 300 then Some Settled else Some (Answered mb)
      | _ \<Rightarrow> None)"
| "follow k (Again j mb) p =
     (if j \<noteq> k then Some p
      else case p of
        Pending (Some t) \<Rightarrow> if mb = t then Some p else None
      | Answered t \<Rightarrow> if mb = t then Some p else None
      | _ \<Rightarrow> None)"
| "follow k (Acked j) p = (if j \<noteq> k then Some p else case p of Answered t \<Rightarrow> Some Settled | _ \<Rightarrow> None)"
| "follow k (Cancelh j) p = (if j \<noteq> k then Some p else case p of Pending _ \<Rightarrow> Some p | _ \<Rightarrow> None)"
| "follow k (Freed j) p = (if j \<noteq> k then Some p else case p of Answered t \<Rightarrow> Some Gone | Settled \<Rightarrow> Some Gone | _ \<Rightarrow> None)"
| "follow k (Failed j) p = (if j \<noteq> k then Some p else case p of Pending _ \<Rightarrow> Some Gone | _ \<Rightarrow> None)"
| "follow k (Released j) p = (if j \<noteq> k then Some p else case p of Pending _ \<Rightarrow> Some Gone | _ \<Rightarrow> None)"
| "follow k (Stateless msg scode reason) p = Some p"

definition ph :: "sip_strans \<Rightarrow> sphase" where
  "ph st =
     (case sv_state st of
        TRYING \<Rightarrow> Pending None
      | PROCEEDING \<Rightarrow> Pending (sv_mb st)
      | ACCEPTED \<Rightarrow> Settled
      | COMPLETED \<Rightarrow> Answered (the (sv_mb st))
      | CONFIRMED \<Rightarrow> Settled)"

text \<open>A transaction with a final reply has the timer that ends it; a refusal of an INVITE over UDP is repeated.\<close>

definition st_ok :: "sip_strans \<Rightarrow> bool" where
  "st_ok st \<longleftrightarrow> (sv_state st \<noteq> TRYING \<longrightarrow> sv_mb st \<noteq> None) \<and> (sv_tmr st \<noteq> None \<longleftrightarrow> \<not> held st)
     \<and> (sv_tmrg st \<noteq> None \<longleftrightarrow> sv_state st = COMPLETED \<and> sv_invite st \<and> \<not> sip_transp_reliable (m_tp (sv_msg st)))"

fun about :: "srv_out \<Rightarrow> nat option" where
  "about (Begun k) = Some k"
| "about (Reply k _ _ _) = Some k"
| "about (Again k _) = Some k"
| "about (Acked k) = Some k"
| "about (Cancelh k) = Some k"
| "about (Freed k) = Some k"
| "about (Failed k) = Some k"
| "about (Released k) = Some k"
| "about (Stateless _ _ _) = None"

abbreviation sv_ok :: "sip_server \<Rightarrow> bool" where
  "sv_ok sip \<equiv> table_ok sv_id st_ok (ss_strans sip) (ss_next sip)"

abbreviation phase_of :: "sip_server \<Rightarrow> nat \<Rightarrow> sphase" where
  "phase_of sip k \<equiv> phase_at sv_id ph Fresh Gone (ss_strans sip) (ss_next sip) k"

interpretation sv: ledger sv_id st_ok ph Fresh Gone about follow
proof
  show "follow k e p = Some p" if "about e \<noteq> Some k" for e k p using that by (cases e) auto
qed

abbreviation sim :: "sip_server \<Rightarrow> srv_out list \<Rightarrow> sip_server \<Rightarrow> bool" where
  "sim sip out sip' \<equiv> sv.sim (ss_strans sip) (ss_next sip) out (ss_strans sip') (ss_next sip')"

lemma put_sim:
  assumes "sv_ok sip" "st \<in> set (ss_strans sip)" "sv_id st' = sv_id st" "st_ok st'"
    "\<forall>e \<in> set out. about e \<in> {None, Some (sv_id st)}" "track (follow (sv_id st)) out (ph st) = Some (ph st')"
  shows "sim sip out (st_put st' sip)"
  using sv.sim_put [OF assms] by (simp add: st_put_def)

lemma remove_sim:
  assumes "sv_ok sip" "st \<in> set (ss_strans sip)" "k = sv_id st"
    "\<forall>e \<in> set out. about e \<in> {None, Some k}" "track (follow k) out (ph st) = Some Gone"
  shows "sim sip out (st_remove k sip)"
  using sv.sim_remove [OF assms] by (simp add: st_remove_def)

lemma put_same: "table_ok sv_id st_ok xs n \<Longrightarrow> st \<in> set xs \<Longrightarrow> put_entry sv_id st xs = xs"
  unfolding put_entry_def by (rule map_idI) (metis find_entry_in option.inject table_ok_def)

section \<open>Every step keeps the contract\<close>

lemma again_out:
  "\<forall>e \<in> set (send_again env st). about e \<in> {None, Some (sv_id st)}"
  "st_ok st \<Longrightarrow> sv_state st = PROCEEDING \<or> sv_state st = COMPLETED \<Longrightarrow> track (follow (sv_id st)) (send_again env st) (ph st) = Some (ph st)"
  by (auto simp: send_again_def ph_def st_ok_def split: option.splits)

text \<open>A step that leaves the table as it is, with outputs about one entry.\<close>

lemma still_sim:
  assumes ok: "sv_ok sip" and st: "st \<in> set (ss_strans sip)"
    and out: "\<forall>e \<in> set out. about e \<in> {None, Some (sv_id st)}" "track (follow (sv_id st)) out (ph st) = Some (ph st)"
  shows "sim sip out sip"
proof -
  have "st_ok st" using ok st by (simp add: table_ok_def)
  from sv.sim_put [OF ok st refl this out] show ?thesis by (simp add: put_same [OF ok st])
qed

lemma ack_sim:
  assumes ok: "sv_ok sip" and r: "ack_handler now msg sip = (b, sip', out)"
  shows "sim sip out sip'"
proof (cases "find (cmp_ack_handler msg) (ss_strans sip)")
  case None
  then show ?thesis using r sv.sim_same [OF ok, of "[]"] by (simp add: ack_handler_def)
next
  case (Some st)
  then have st: "st \<in> set (ss_strans sip)" by (auto simp: find_Some_iff)
  then have okst: "st_ok st" using ok by (simp add: table_ok_def)
  show ?thesis
  proof (cases "sv_state st = COMPLETED")
    case True
    have "st_ok (st\<lparr>sv_tmr := Some t, sv_tmrg := None, sv_state := CONFIRMED\<rparr>)" for t
      using okst True by (auto simp: st_ok_def held_def)
    then show ?thesis using r Some True
      by (auto simp: ack_handler_def ph_def split: if_splits intro!: put_sim [OF ok st] remove_sim [OF ok st])
  next
    case False
    then show ?thesis using r Some sv.sim_same [OF ok, of "[]"] by (auto simp: ack_handler_def split: sstate.splits)
  qed
qed

lemma cancel_sim:
  assumes ok: "sv_ok sip" and r: "cancel_handler msg sip = (b, sip', out)"
  shows "sim sip out sip'"
proof (cases "find (cmp_cancel_handler msg) (ss_strans sip)")
  case None
  then show ?thesis using r sv.sim_same [OF ok, of "[]"] by (simp add: cancel_handler_def)
next
  case (Some st)
  then have st: "st \<in> set (ss_strans sip)" by (auto simp: find_Some_iff)
  have "sip' = sip" "\<forall>e \<in> set out. about e \<in> {None, Some (sv_id st)}" "track (follow (sv_id st)) out (ph st) = Some (ph st)"
    using r Some by (auto simp: cancel_handler_def ph_def split: sstate.splits)
  then show ?thesis using still_sim [OF ok st] by simp
qed

lemma request_sim:
  assumes ok: "sv_ok sip" and r: "request_handler env now msg sip = (b, sip', out)"
  shows "sim sip out sip'"
proof (cases "m_met msg \<noteq> ''ACK'' \<and> find (cmp_handler msg) (ss_strans sip) \<noteq> None")
  case True
  then obtain st where f: "find (cmp_handler msg) (ss_strans sip) = Some st" by blast
  then have st: "st \<in> set (ss_strans sip)" by (auto simp: find_Some_iff)
  then have "st_ok st" using ok by (simp add: table_ok_def)
  then have "sim sip (send_again env st) sip" if "sv_state st = PROCEEDING \<or> sv_state st = COMPLETED"
    using that by (intro still_sim [OF ok st] again_out)
  then show ?thesis using r True f sv.sim_same [OF ok, of "[]"] by (auto simp: request_handler_def split: sstate.splits)
next
  case False
  then show ?thesis using r ack_sim [OF ok] cancel_sim [OF ok] sv.sim_same [OF ok]
    by (auto simp: request_handler_def split: if_splits)
qed

lemma alloc_sim:
  assumes ok: "sv_ok sip" and r: "sip_strans_alloc mem msg sip = (res, sip', out)"
  shows "sim sip out sip'"
  using r sv.sim_same [OF ok, of "[]"] by (auto simp: sip_strans_alloc_def Let_def st_ok_def held_def ph_def split: if_splits intro!: sv.sim_begin [OF ok])

lemma timeout_sim:
  assumes ok: "sv_ok sip" and st: "st \<in> set (ss_strans sip)" and r: "strans_tmr now st sip = (sip', out)"
  shows "sim sip out sip'"
proof -
  have "st_ok st" using ok st by (simp add: table_ok_def)
  then have "\<not> held st" if "sv_tmr st \<noteq> None" using that by (simp add: st_ok_def)
  then show ?thesis using r sv.sim_same [OF ok, of "[]"]
    by (auto simp: strans_tmr_def tmr_handler_def held_def ph_def split: option.splits if_splits sstate.splits intro!: remove_sim [OF ok st])
qed

lemma retransmit_sim:
  assumes ok: "sv_ok sip" and st: "st \<in> set (ss_strans sip)" and r: "strans_tmrg env now st sip = (sip', out)"
  shows "sim sip out sip'"
proof (cases "\<exists>t. sv_tmrg st = Some t \<and> t \<le> now")
  case False
  then show ?thesis using r sv.sim_same [OF ok, of "[]"] by (auto simp: strans_tmrg_def split: option.splits)
next
  case True
  let ?t = "Some (now + ucast (min (push_bit (unat (sv_txc st + 1)) SIP_T1) SIP_T2))"
  have okst: "st_ok st" using ok st by (simp add: table_ok_def)
  then have c: "sv_state st = COMPLETED" using True by (auto simp: st_ok_def)
  define st' where "st' = st\<lparr>sv_txc := sv_txc st + 1, sv_tmrg := ?t\<rparr>"
  have "sip' = st_put st' sip" "out = send_again env st"
    using r True by (auto simp: strans_tmrg_def retransmit_handler_def send_again_def st'_def Let_def split: option.splits)
  moreover have "st_ok st'" "ph st' = ph st" "sv_id st' = sv_id st" using okst True by (auto simp: st_ok_def held_def st'_def ph_def split: sstate.split)
  ultimately show ?thesis using put_sim [OF ok st, of st'] again_out(1) [of env st] again_out(2) [of st env] okst c by simp
qed

lemma replied_ph:
  assumes st: "held st" "sv_mb st = Some mb" "sv_tmrg st = None" "sv_tmr st = None" "follow k (Reply k (sv_invite st) scode mb) (Pending p) = Some q"
  shows "case replied now scode st of Some st' \<Rightarrow> sv_id st' = sv_id st \<and> st_ok st' \<and> ph st' = q | None \<Rightarrow> follow k (Freed k) q = Some Gone"
  using st by (auto simp: replied_def st_ok_def held_def ph_def Let_def split: if_splits)

text \<open>A reply through an entry of the table that the user holds.\<close>

lemma reply_held:
  assumes ok: "sv_ok sip" and st: "st \<in> set (ss_strans sip)" "held st"
    and r: "sip_strans_reply env now mem (Some (Some st)) msg dst scode mb sip = (err, ret, sip', out)"
  shows "sim sip out sip'"
proof -
  define st1 where "st1 = st\<lparr>sv_mb := Some mb, sv_dst := dst\<rparr>"
  have okst: "st_ok st" using ok st(1) by (simp add: table_ok_def)
  obtain p where p: "ph st = Pending p" using st(2) by (auto simp: held_def ph_def)
  obtain q where q: "follow (sv_id st) (Reply (sv_id st) (sv_invite st) scode mb) (ph st) = Some q"
    by (cases "scode < 200"; cases "scode < 300"; cases "sv_invite st") (auto simp: p)
  have h: "held st1" "sv_mb st1 = Some mb" "sv_tmrg st1 = None" "sv_tmr st1 = None" "sv_id st1 = sv_id st" "sv_invite st1 = sv_invite st"
    using st(2) okst by (auto simp: st1_def held_def st_ok_def)
  have rep: "case replied now scode st1 of Some st' \<Rightarrow> sv_id st' = sv_id st \<and> st_ok st' \<and> ph st' = q
      | None \<Rightarrow> follow (sv_id st) (Freed (sv_id st)) q = Some Gone"
    using replied_ph [OF h(1-4), of "sv_id st" scode p q now] q h(5,6) by (simp add: p del: follow.simps split: option.splits)
  have t: "track (follow (sv_id st)) (Reply (sv_id st) (sv_invite st) scode mb # es) (ph st) = track (follow (sv_id st)) es q" for es
    using q by (simp del: follow.simps)
  consider (fail) "out = [Failed (sv_id st)]" "sip' = st_remove (sv_id st) sip"
    | (keep) st2 where "replied now scode st1 = Some st2" "out = [Reply (sv_id st) (sv_invite st) scode mb]" "sip' = st_put st2 sip"
    | (free) "replied now scode st1 = None" "out = [Reply (sv_id st) (sv_invite st) scode mb, Freed (sv_id st)]" "sip' = st_remove (sv_id st) sip"
    using r h(5,6) by (auto simp: sip_strans_reply_def Let_def st1_def [symmetric] split: if_splits option.splits)
  then show ?thesis
  proof cases
    case fail
    then show ?thesis using p by (auto intro!: remove_sim [OF ok st(1)])
  next
    case keep
    then show ?thesis using rep put_sim [OF ok st(1), of st2 out] t [of "[]"] by simp
  next
    case free
    then show ?thesis using rep remove_sim [OF ok st(1) refl, of out] t [of "[Freed (sv_id st)]"] by (simp del: follow.simps)
  qed
qed

lemma reply_sim:
  assumes ok: "sv_ok sip" and stp: "\<forall>st. stp = Some (Some st) \<longrightarrow> st \<in> set (ss_strans sip) \<and> held st"
    and r: "sip_strans_reply env now mem stp msg dst scode mb sip = (err, ret, sip', out)"
  shows "sim sip out sip'"
proof (cases "\<exists>st. stp = Some (Some st)")
  case True
  then show ?thesis using reply_held [OF ok] stp r by blast
next
  case False
  obtain res sip1 o1 where a: "sip_strans_alloc mem msg sip = (res, sip1, o1)" by (metis prod_cases3)
  note s1 = alloc_sim [OF ok a]
  consider (bad) "out = []" "sip' = sip" | (nomem) e where "res = Inl e" "out = o1" "sip' = sip1" "\<not> (scode < 200 \<and> stp = None)"
    | (new) st where "res = Inr st" "\<not> (scode < 200 \<and> stp = None)"
    using r False a by (cases res) (auto simp: sip_strans_reply_def split: if_splits option.splits)
  then show ?thesis
  proof cases
    case bad
    then show ?thesis using sv.sim_same [OF ok, of "[]"] by simp
  next
    case nomem
    then show ?thesis using s1 by simp
  next
    case new
    have st: "st \<in> set (ss_strans sip1)" "held st" using a new(1) by (auto simp: sip_strans_alloc_def held_def Let_def split: if_splits)
    obtain err2 ret2 s2 o2 where r2: "sip_strans_reply env now mem (Some (Some st)) msg dst scode mb sip1 = (err2, ret2, s2, o2)" by (metis prod_cases4)
    have "out = o1 @ o2" "sip' = s2"
      using r r2 new False a by (auto simp: sip_strans_reply_def Let_def split: if_splits option.splits)
    then show ?thesis using sv.sim_trans [OF s1 reply_held [OF sv.sim_ok [OF s1] st r2]] by simp
  qed
qed

lemma step_sim:
  assumes "srv_step sip out sip'" and ok: "sv_ok sip"
  shows "sim sip out sip'"
  using assms(1)
proof cases
  case (release st)
  then show ?thesis by (auto simp: strans_destructor_def held_def ph_def intro!: remove_sim [OF ok release(1)])
qed (use ok in \<open>auto intro: request_sim alloc_sim reply_sim timeout_sim retransmit_sim\<close>)

interpretation srv_m: machine srv_init srv_next "\<lambda>s. sv_ok (fst s) \<and> (\<forall>k. track (follow k) (snd s) Fresh = Some (phase_of (fst s) k))"
proof (unfold_locales, goal_cases)
  case (1 s)
  then show ?case by (simp add: srv_init_def table_ok_def phase_at_def)
next
  case (2 s out t)
  then have "sim (fst s) out (fst t)" "snd t = snd s @ out" by (auto simp: srv_next_def intro: step_sim)
  then show ?case using 2(1) by (simp add: sv.sim_def track_append)
qed

text \<open>C4:
  A server transaction keeps its contract with the peer and with the user. In every run, whatever requests arrive, the outputs
  about each transaction follow it: provisional replies and one final reply, each sent
  again only with the same text; nothing is sent after a call is accepted or its refusal acknowledged; the
  cancel handler is called only before the final reply. A transaction with a final reply has the timer that ends it.
  The user replies through and releases only transactions that have no final reply yet.
\<close>

theorem sip_strans_refines:
  assumes "reachable srv_init srv_next (sip, tr)"
  shows "track (follow k) tr Fresh = Some (phase_of sip k) \<and> (\<forall>st \<in> set (ss_strans sip). sv_tmr st = None \<longrightarrow> held st)"
  using srv_m.reachable_inv [OF assms] by (auto simp: table_ok_def st_ok_def)

definition demo_req :: "string \<Rightarrow> string \<Rightarrow> sip_msg" where
  "demo_req met cseq = (demo_msg 0)\<lparr>m_req := True, m_met := met, m_ruri := ''sip:b'', m_cseq := \<lparr>cs_met = cseq, cs_num = 1\<rparr>\<rparr>"

definition demo_busy :: "sip_server \<times> srv_out list" where
  "demo_busy = (case sip_strans_reply demo_env 5 True None (demo_req ''INVITE'' ''INVITE'') (sa_init AF_INET) 486 ''busy''
     \<lparr>ss_strans = [], ss_next = 0\<rparr> of (_, _, sip, out) \<Rightarrow> (sip, out))"

definition demo_acked :: "sip_server \<times> srv_out list" where
  "demo_acked = (case request_handler demo_env 9 (demo_req ''ACK'' ''ACK'') (fst demo_busy) of (_, sip, out) \<Rightarrow> (sip, snd demo_busy @ out))"

lemmas demo_srv = demo_busy_def demo_acked_def demo_req_def demo_msg_def demo_env_def sip_strans_reply_def sip_strans_alloc_def replied_def
  request_handler_def ack_handler_def cmp_ack_handler_def strans_cmp_def st_put_def put_entry_def sip_transp_reliable_def Let_def

theorem sip_strans_refines_witness:
  "snd demo_acked = [Begun 0, Reply 0 True 486 ''busy'', Acked 0] \<and> track (follow 0) (snd demo_acked) Fresh = Some Settled
     \<and> list_all (\<lambda>st. sv_tmr st = None \<longrightarrow> held st) (ss_strans (fst demo_acked))"
proof -
  let ?s0 = "(\<lparr>ss_strans = [], ss_next = 0\<rparr> :: sip_server, [] :: srv_out list)"
  have "srv_next ?s0 (snd demo_busy) demo_busy"
    by (auto simp: srv_next_def demo_busy_def split: prod.split intro: reply)
  moreover have "srv_next demo_busy [Acked 0] demo_acked"
    unfolding srv_next_def
    by (rule conjI, rule request [of demo_env 9 "demo_req ''ACK'' ''ACK''" _ True]) (simp_all add: demo_srv)
  moreover have "srv_init ?s0" by (simp add: srv_init_def)
  ultimately have "reachable srv_init srv_next demo_acked" by (metis reach_init reach_step)
  then have "track (follow 0) (snd demo_acked) Fresh = Some (phase_of (fst demo_acked) 0)
      \<and> (\<forall>st \<in> set (ss_strans (fst demo_acked)). sv_tmr st = None \<longrightarrow> held st)"
    using sip_strans_refines [of "fst demo_acked" "snd demo_acked" 0] by simp
  moreover have "phase_of (fst demo_acked) 0 = Settled" "snd demo_acked = [Begun 0, Reply 0 True 486 ''busy'', Acked 0]"
    by (simp_all add: demo_srv phase_at_def ph_def)
  ultimately show ?thesis by (simp add: list_all_iff)
qed

end
