(* ===== verification/Sip_Session.thy ===== *)
theory Sip_Session
  imports Sip_Strans
begin

text \<open>
  The client and server transactions of SIP together: a refused INVITE and its acknowledgement. Texts that arrive are decoded
  and dispatched as \<open>re/src/sip/transp.c\<close> does for a connection of one instance. No source of its own.
\<close>

section \<open>A refused call\<close>

lemma copy_known:
  assumes "case c_req ct of Some q \<Rightarrow> q = req | None \<Rightarrow> e_decode env (c_mb ct) = Inr req" "\<And>t. e_mem env t = None"
  shows "request_copy env sw ct met resp = (Inr (copy_text sw met req resp), ct\<lparr>c_req := Some req\<rparr>)"
  using assms by (auto simp: request_copy_def Let_def split: option.splits)

text \<open>The client side: the refusal is acknowledged and reported; a copy of it is acknowledged only.\<close>

lemma client_refused:
  assumes ok: "cl_ok sip" and ct: "find (Sip_Ctrans.cmp_handler r) (sc_ctrans sip) = Some ct" "c_invite ct"
      "c_state ct = CALLING \<or> c_state ct = Sip_Ctrans.PROCEEDING" "c_tp ct = SIP_TRANSP_UDP"
    and req: "case c_req ct of Some q \<Rightarrow> q = req | None \<Rightarrow> e_decode env (c_mb ct) = Inr req" "\<And>t. e_mem env t = None"
    and send: "\<And>d t. e_send env SIP_TRANSP_UDP d t = None" and r: "300 \<le> m_scode r" and ack: "ack = copy_text (sc_software sip) ''ACK'' req (Some r)"
  obtains ct' sip' where "response_handler env now r sip = (True, sip', [Tx SIP_TRANSP_UDP (c_dst ct) ack, Resp (c_id ct) None (Some r)])"
    and "sip' = ct_put ct' sip" and "c_id ct' = c_id ct" and "c_state ct' = Sip_Ctrans.COMPLETED" and "c_mb_ack ct' = Some ack" and "c_dst ct' = c_dst ct"
    and "c_tp ct' = SIP_TRANSP_UDP" and "c_invite ct'" and "c_met ct' = c_met ct" and "c_branch ct' = c_branch ct"
proof -
  define c1 where "c1 = (if c_state ct = CALLING then ct\<lparr>c_tmr := None, c_tmre := None\<rparr> else ct)"
  define ct' where "ct' = c1\<lparr>c_state := Sip_Ctrans.COMPLETED, c_req := Some req, c_mb_ack := Some ack, c_tmr := Some (now + ucast COMPLETE_WAIT)\<rparr>"
  have c1: "c_id c1 = c_id ct" "c_state c1 = c_state ct" "c_tp c1 = SIP_TRANSP_UDP" "c_dst c1 = c_dst ct" "c_req c1 = c_req ct" "c_mb c1 = c_mb ct"
      "c_invite c1" "c_met c1 = c_met ct" "c_branch c1 = c_branch ct"
    using ct by (simp_all add: c1_def)
  have "request_copy env (sc_software sip) (c1\<lparr>c_state := Sip_Ctrans.COMPLETED\<rparr>) ''ACK'' (Some r) = (Inr ack, c1\<lparr>c_state := Sip_Ctrans.COMPLETED, c_req := Some req\<rparr>)"
    unfolding ack
  proof (rule copy_known)
    have "c_mb (c1\<lparr>c_state := Sip_Ctrans.COMPLETED\<rparr>) = c_mb ct" using c1 by simp
    then show "case c_req (c1\<lparr>c_state := Sip_Ctrans.COMPLETED\<rparr>) of Some q \<Rightarrow> q = req
        | None \<Rightarrow> e_decode env (c_mb (c1\<lparr>c_state := Sip_Ctrans.COMPLETED\<rparr>)) = Inr req"
      using req(1) c1 by (auto split: option.splits)
  qed (rule req(2))
  then have fin: "invite_final env now c1 r sip = (ct_put ct' sip, [Tx SIP_TRANSP_UDP (c_dst ct) ack, Resp (c_id ct) None (Some r)])"
    using c1 send by (simp add: invite_final_def send_ack_def transp_send_def ct'_def sip_transp_reliable_def Let_def)
  have "\<not> m_scode r < 200" "\<not> m_scode r < 300" using r by unat_arith+
  then have "invite_response env now ct r sip = (ct_put ct' sip, [Tx SIP_TRANSP_UDP (c_dst ct) ack, Resp (c_id ct) None (Some r)])"
    using fin ct(3) c1(2) by (auto simp: invite_response_def c1_def [symmetric] Let_def)
  then have "response_handler env now r sip = (True, ct_put ct' sip, [Tx SIP_TRANSP_UDP (c_dst ct) ack, Resp (c_id ct) None (Some r)])"
    using ct by (simp add: response_handler_def)
  then show thesis using c1 by (intro that [of "ct_put ct' sip" ct']) (simp_all add: ct'_def)
qed

lemma client_again:
  assumes "find (Sip_Ctrans.cmp_handler r) (sc_ctrans sip) = Some ct" "c_invite ct" "c_state ct = Sip_Ctrans.COMPLETED" "c_tp ct = SIP_TRANSP_UDP"
    "c_mb_ack ct = Some ack" "300 \<le> m_scode r" "\<And>d t. e_send env SIP_TRANSP_UDP d t = None"
  shows "response_handler env now r sip = (True, sip, [Tx SIP_TRANSP_UDP (c_dst ct) ack])"
proof -
  have "\<not> m_scode r < 300" using assms(6) by unat_arith
  then show ?thesis using assms by (simp add: response_handler_def invite_response_def send_ack_def transp_send_def Let_def)
qed

text \<open>The server side: the acknowledgement settles the transaction; a copy of it changes nothing.\<close>

lemma server_acked:
  assumes ok: "sv_ok srv" and st: "find (cmp_ack_handler a) (ss_strans srv) = Some st" "sv_state st = COMPLETED" "m_tp (sv_msg st) = SIP_TRANSP_UDP"
    and a: "m_met a = ''ACK''"
  obtains srv' where "request_handler env now a srv = (True, srv', [Acked (sv_id st)])" and "sv_ok srv'" and "Sip_Strans.phase_of srv' (sv_id st) = Settled"
    and "\<And>env t. request_handler env t a srv' = (True, srv', [])"
    and "\<And>s. s \<in> set (ss_strans srv') \<Longrightarrow> sv_id s = sv_id st \<Longrightarrow> sv_tmrg s = None \<and> sv_tmr s = Some (now + 5000)"
proof -
  define st' where "st' = st\<lparr>sv_tmr := Some (now + ucast SIP_T4), sv_tmrg := None, sv_state := CONFIRMED\<rparr>"
  have mem: "st \<in> set (ss_strans srv)" using st(1) by (auto simp: find_Some_iff)
  have h: "request_handler env now a srv = (True, st_put st' srv, [Acked (sv_id st)])" for env
    using st a by (simp add: request_handler_def ack_handler_def st'_def sip_transp_reliable_def)
  have s: "Sip_Strans.sim srv [Acked (sv_id st)] (st_put st' srv)" using request_sim [OF ok h] .
  have p: "Sip_Strans.phase_of srv (sv_id st) = Answered (the (sv_mb st))" using sv.phase_in [OF ok mem] st(2) by (simp add: Sip_Strans.ph_def)
  have "track (Sip_Strans.follow (sv_id st)) [Acked (sv_id st)] (Sip_Strans.phase_of srv (sv_id st)) = Some (Sip_Strans.phase_of (st_put st' srv) (sv_id st))"
    using s by (simp only: sv.sim_def)
  then have settled: "Sip_Strans.phase_of (st_put st' srv) (sv_id st) = Settled" by (simp add: p)
  have "cmp_ack_handler a st'" using st(1) by (auto simp: find_Some_iff cmp_ack_handler_def st'_def)
  then have "find (cmp_ack_handler a) (ss_strans (st_put st' srv)) = Some st'"
    using ok st(1) by (auto simp: st_put_def table_ok_def st'_def intro!: find_put_match)
  then have again: "request_handler env t a (st_put st' srv) = (True, st_put st' srv, [])" for env t
    using a by (simp add: request_handler_def ack_handler_def st'_def)
  have only: "x = st'" if "x \<in> set (ss_strans (st_put st' srv))" "sv_id x = sv_id st" for x
    using that by (auto simp: st_put_def put_entry_def st'_def split: if_splits)
  show thesis
  proof (rule that [OF h sv.sim_ok [OF s] settled again])
    fix x
    assume "x \<in> set (ss_strans (st_put st' srv))" "sv_id x = sv_id st"
    then have "x = st'" by (rule only)
    then show "sv_tmrg x = None \<and> sv_tmr x = Some (now + 5000)" by (simp add: st'_def SIP_T4_def)
  qed
qed

text \<open>A text that arrives is decoded and given to the transactions.\<close>

definition arrive_response :: "env \<Rightarrow> u64 \<Rightarrow> string \<Rightarrow> sip_client \<Rightarrow> bool \<times> sip_client \<times> sip_out list" where
  "arrive_response env now txt sip = (case e_decode env txt of Inr msg \<Rightarrow> response_handler env now msg sip | Inl _ \<Rightarrow> (False, sip, []))"

definition arrive_request :: "env \<Rightarrow> u64 \<Rightarrow> string \<Rightarrow> sip_server \<Rightarrow> bool \<times> sip_server \<times> srv_out list" where
  "arrive_request env now txt sip = (case e_decode env txt of Inr msg \<Rightarrow> request_handler env now msg sip | Inl _ \<Rightarrow> (False, sip, []))"

text \<open>C10:
  A refused call over UDP, both sides. The refusal that the server sends and repeats reaches the client: its user is told, and the
  acknowledgement is sent, a copy of the INVITE in branch and sequence number. Each further copy of the refusal is
  answered with the same acknowledgement and told to nobody. When an acknowledgement reaches the server, the repetition
  stops, the transaction ends five seconds later, and further copies of it change nothing. Of the decoder it is
  used that it reads method and Via of the two messages.
\<close>

theorem sip_refusal_acknowledged:
  assumes cl: "cl_ok sip" "find (Sip_Ctrans.cmp_handler r) (sc_ctrans sip) = Some ct" "c_invite ct"
      "c_state ct = CALLING \<or> c_state ct = Sip_Ctrans.PROCEEDING" "c_tp ct = SIP_TRANSP_UDP"
    and sv: "sv_ok srv" "st \<in> set (ss_strans srv)" "sv_state st = COMPLETED" "m_tp (sv_msg st) = SIP_TRANSP_UDP" "cs_met (m_cseq (sv_msg st)) = ''INVITE''"
      "\<forall>s \<in> set (ss_strans srv). strans_cmp (sv_msg s) (sv_msg st) \<and> cs_met (m_cseq (sv_msg s)) = ''INVITE'' \<longrightarrow> s = st"
    and env: "\<And>d t. e_send env SIP_TRANSP_UDP d t = None" "\<And>t. e_mem env t = None"
    and busy: "sv_mb st = Some busy" "e_decode env busy = Inr r" "300 \<le> m_scode r"
    and dec: "case c_req ct of Some q \<Rightarrow> q = req | None \<Rightarrow> e_decode env (c_mb ct) = Inr req"
      "e_decode env (copy_text (sc_software sip) ''ACK'' req (Some r)) = Inr a" "m_met a = ''ACK''" "strans_cmp (sv_msg st) a"
  shows "\<exists>sip' srv' ack. ack = copy_text (sc_software sip) ''ACK'' req (Some r)
    \<and> arrive_response env now busy sip = (True, sip', [Tx SIP_TRANSP_UDP (c_dst ct) ack, Resp (c_id ct) None (Some r)])
    \<and> (\<forall>t. arrive_response env t busy sip' = (True, sip', [Tx SIP_TRANSP_UDP (c_dst ct) ack]))
    \<and> arrive_request env now' ack srv = (True, srv', [Acked (sv_id st)]) \<and> Sip_Strans.phase_of srv' (sv_id st) = Settled
    \<and> (\<forall>t. arrive_request env t ack srv' = (True, srv', []))
    \<and> (\<forall>s \<in> set (ss_strans srv'). sv_id s = sv_id st \<longrightarrow> sv_tmrg s = None \<and> sv_tmr s = Some (now' + 5000))"
proof -
  define ack where "ack = copy_text (sc_software sip) ''ACK'' req (Some r)"
  obtain ct' sip' where c: "response_handler env now r sip = (True, sip', [Tx SIP_TRANSP_UDP (c_dst ct) ack, Resp (c_id ct) None (Some r)])"
      "sip' = ct_put ct' sip" "c_id ct' = c_id ct" "c_state ct' = Sip_Ctrans.COMPLETED" "c_mb_ack ct' = Some ack" "c_dst ct' = c_dst ct"
      "c_tp ct' = SIP_TRANSP_UDP" "c_invite ct'" "c_met ct' = c_met ct" "c_branch ct' = c_branch ct"
    using client_refused [OF cl dec(1) env(2,1) busy(3) ack_def, of now] by blast
  have "Sip_Ctrans.cmp_handler r ct'" using cl(2) c(9,10) by (auto simp: find_Some_iff Sip_Ctrans.cmp_handler_def)
  then have "find (Sip_Ctrans.cmp_handler r) (sc_ctrans sip') = Some ct'"
    using cl(1,2) c(2,3) by (auto simp: ct_put_def table_ok_def intro!: find_put_match)
  then have again: "response_handler env t r sip' = (True, sip', [Tx SIP_TRANSP_UDP (c_dst ct) ack])" for t
    using client_again [OF _ c(8,4,7,5) busy(3) env(1)] c(6) by simp
  have "find (cmp_ack_handler a) (ss_strans srv) = Some st"
  proof -
    have st: "cmp_ack_handler a st" using dec(4) sv(5) by (simp add: cmp_ack_handler_def)
    then obtain s where s: "find (cmp_ack_handler a) (ss_strans srv) = Some s" using sv(2) by (cases "find (cmp_ack_handler a) (ss_strans srv)") (auto simp: find_None_iff)
    then have "s \<in> set (ss_strans srv)" "cmp_ack_handler a s" by (auto simp: find_Some_iff)
    moreover from this have "strans_cmp (sv_msg s) (sv_msg st)" using dec(4) by (simp add: cmp_ack_handler_def strans_cmp_def)
    ultimately have "s = st" using sv(6) by (simp add: cmp_ack_handler_def)
    then show ?thesis using s by simp
  qed
  from server_acked [OF sv(1) this sv(3,4) dec(3), of env now'] obtain srv' where
      s: "request_handler env now' a srv = (True, srv', [Acked (sv_id st)])" "Sip_Strans.phase_of srv' (sv_id st) = Settled"
      "\<And>t. request_handler env t a srv' = (True, srv', [])"
      "\<And>s. s \<in> set (ss_strans srv') \<Longrightarrow> sv_id s = sv_id st \<Longrightarrow> sv_tmrg s = None \<and> sv_tmr s = Some (now' + 5000)" by metis
  show ?thesis
    using c(1) again s busy(2) dec(2) by (intro exI [of _ sip'] exI [of _ srv'] exI [of _ ack]) (simp add: ack_def arrive_response_def arrive_request_def)
qed

definition demo_invite :: sip_msg where
  "demo_invite = demo_req ''INVITE'' ''INVITE''"

definition demo_refusal :: sip_msg where
  "demo_refusal = (demo_msg 486)\<lparr>m_cseq := \<lparr>cs_met = ''INVITE'', cs_num = 1\<rparr>\<rparr>"

definition demo_ack :: string where
  "demo_ack = copy_text None ''ACK'' demo_invite (Some demo_refusal)"

definition demo_env2 :: env where
  "demo_env2 = demo_env\<lparr>e_decode := (\<lambda>t. if t = ''invite'' then Inr demo_invite else if t = ''busy'' then Inr demo_refusal
     else if t = demo_ack then Inr (demo_req ''ACK'' ''ACK'') else Inl EBADMSG)\<rparr>"

definition demo_caller :: sip_client where
  "demo_caller = fst (snd (sip_ctrans_request demo_env2 3 True SIP_TRANSP_UDP (sa_init AF_INET) ''INVITE'' ''b'' ''invite'' False
     \<lparr>sc_ctrans = [], sc_next = 0, sc_software = None\<rparr>))"

theorem sip_refusal_acknowledged_witness:
  "\<exists>sip' srv'. arrive_response demo_env2 9 ''busy'' demo_caller = (True, sip', [Tx SIP_TRANSP_UDP (sa_init AF_INET) demo_ack, Resp 0 None (Some demo_refusal)])
    \<and> (\<forall>t. arrive_response demo_env2 t ''busy'' sip' = (True, sip', [Tx SIP_TRANSP_UDP (sa_init AF_INET) demo_ack]))
    \<and> arrive_request demo_env2 9 demo_ack (fst demo_busy) = (True, srv', [Acked 0])
    \<and> (\<forall>t. arrive_request demo_env2 t demo_ack srv' = (True, srv', []))"
proof -
  have ne: "demo_ack \<noteq> ''invite''" "demo_ack \<noteq> ''busy''" by (simp_all add: demo_ack_def copy_text_def)
  define ct where "ct = hd (sc_ctrans demo_caller)"
  have cl: "sc_ctrans demo_caller = [ct]" "sc_next demo_caller = 1" "sc_software demo_caller = None"
    and ct: "c_invite ct" "c_state ct = CALLING" "c_tp ct = SIP_TRANSP_UDP" "c_req ct = None" "c_mb ct = ''invite''" "c_id ct = 0" "c_dst ct = sa_init AF_INET"
      "c_branch ct = ''b''" "c_met ct = ''INVITE''" "c_tmr ct \<noteq> None" "c_tmre ct \<noteq> None"
    by (simp_all add: ct_def demo_caller_def sip_ctrans_request_def transp_send_def demo_env2_def demo_env_def sip_transp_reliable_def Let_def)
  define st where "st = hd (ss_strans (fst demo_busy))"
  have sv: "ss_strans (fst demo_busy) = [st]" "ss_next (fst demo_busy) = 1"
    and st: "sv_state st = COMPLETED" "sv_msg st = demo_invite" "sv_mb st = Some ''busy''" "sv_id st = 0" "sv_tmr st \<noteq> None" "sv_tmrg st \<noteq> None" "sv_invite st"
    by (simp_all add: st_def demo_srv demo_invite_def)
  have ok: "cl_ok demo_caller" "sv_ok (fst demo_busy)"
    using cl ct sv st by (simp_all add: table_ok_def ct_ok_def st_ok_def held_def sip_transp_reliable_def demo_invite_def demo_req_def demo_msg_def)
  have "find (Sip_Ctrans.cmp_handler demo_refusal) (sc_ctrans demo_caller) = Some ct"
    using cl ct by (simp add: Sip_Ctrans.cmp_handler_def demo_refusal_def demo_msg_def)
  note found = this
  have env: "\<And>d t. e_send demo_env2 SIP_TRANSP_UDP d t = None" "\<And>t. e_mem demo_env2 t = None" by (simp_all add: demo_env2_def demo_env_def)
  have busy: "e_decode demo_env2 ''busy'' = Inr demo_refusal" "300 \<le> m_scode demo_refusal"
    by (simp_all add: demo_env2_def demo_refusal_def demo_msg_def)
  have dec: "case c_req ct of Some q \<Rightarrow> q = demo_invite | None \<Rightarrow> e_decode demo_env2 (c_mb ct) = Inr demo_invite"
      "e_decode demo_env2 (copy_text (sc_software demo_caller) ''ACK'' demo_invite (Some demo_refusal)) = Inr (demo_req ''ACK'' ''ACK'')"
    unfolding cl(3) demo_ack_def [symmetric] using ct ne by (simp_all add: demo_env2_def)
  have msg: "m_met (demo_req ''ACK'' ''ACK'') = ''ACK''" "strans_cmp (sv_msg st) (demo_req ''ACK'' ''ACK'')" "m_tp (sv_msg st) = SIP_TRANSP_UDP"
      "cs_met (m_cseq (sv_msg st)) = ''INVITE''"
    by (simp_all add: st demo_invite_def demo_req_def demo_msg_def strans_cmp_def)
  have "\<exists>sip' srv' ack. ack = copy_text (sc_software demo_caller) ''ACK'' demo_invite (Some demo_refusal)
    \<and> arrive_response demo_env2 9 ''busy'' demo_caller = (True, sip', [Tx SIP_TRANSP_UDP (c_dst ct) ack, Resp (c_id ct) None (Some demo_refusal)])
    \<and> (\<forall>t. arrive_response demo_env2 t ''busy'' sip' = (True, sip', [Tx SIP_TRANSP_UDP (c_dst ct) ack]))
    \<and> arrive_request demo_env2 9 ack (fst demo_busy) = (True, srv', [Acked (sv_id st)]) \<and> Sip_Strans.phase_of srv' (sv_id st) = Settled
    \<and> (\<forall>t. arrive_request demo_env2 t ack srv' = (True, srv', []))
    \<and> (\<forall>s \<in> set (ss_strans srv'). sv_id s = sv_id st \<longrightarrow> sv_tmrg s = None \<and> sv_tmr s = Some (9 + 5000))"
    by (rule sip_refusal_acknowledged [OF ok(1) found ct(1) _ ct(3) ok(2) _ st(1) msg(3,4) _ env st(3) busy dec msg(1,2)])
       (simp_all add: ct(2) sv(1))
  then show ?thesis unfolding cl(3) ct(6,7) st(4) demo_ack_def [symmetric] by blast
qed

end
