(* ===== verification/Sip_Request.thy ===== *)
theory Sip_Request
  imports Sip_Ctrans
begin

text \<open>
  SIP requests above the client transactions, parts of \<open>re/src/sip/request.c\<close>: what a request does with the responses
  of its transaction, cancelling and closing, and the detection of request loops. The choice of the next
  address (\<open>request_next\<close>, which resolves names) is a parameter: it starts a new transaction or fails.
\<close>

section \<open>Requests\<close>

record sip_request =
  rq_ct :: "nat option"
  rq_reqp :: bool
  rq_linked :: bool
  rq_sendh :: bool
  rq_resph :: bool
  rq_more :: bool
  rq_canceled :: bool
  rq_provrecv :: bool

text \<open>Outputs: a call of the response handler of the user, the end of the request, and those of the transactions.\<close>

datatype rq_out = Tell "errno option" "sip_msg option" | Rfree | Ct sip_out

definition terminate :: "sip_request \<Rightarrow> errno option \<Rightarrow> sip_msg option \<Rightarrow> sip_request \<times> rq_out list" where
  "terminate req err msg =
     (req\<lparr>rq_reqp := False, rq_linked := False, rq_sendh := False, rq_resph := False\<rparr>, if rq_resph req then [Tell err msg] else [])"

text \<open>\<open>mem_deref\<close> of the transaction, if there is one.\<close>

definition drop_ct :: "nat option \<Rightarrow> sip_client \<Rightarrow> sip_client \<times> sip_out list" where
  "drop_ct k sip =
     (case Option.bind k (\<lambda>k. find_entry c_id k (sc_ctrans sip)) of
        None \<Rightarrow> (sip, [])
      | Some ct \<Rightarrow> ctrans_destructor ct sip)"

definition cancel_ct :: "env \<Rightarrow> u64 \<Rightarrow> bool \<Rightarrow> bool \<Rightarrow> nat option \<Rightarrow> sip_client \<Rightarrow> sip_client \<times> sip_out list" where
  "cancel_ct env now dup mem k sip =
     (case Option.bind k (\<lambda>k. find_entry c_id k (sc_ctrans sip)) of
        None \<Rightarrow> (sip, [])
      | Some ct \<Rightarrow> snd (sip_ctrans_cancel env now dup mem ct sip))"

definition close_handler :: "sip_request \<Rightarrow> sip_client \<Rightarrow> sip_request \<times> sip_client \<times> rq_out list" where
  "close_handler req sip =
     (case drop_ct (rq_ct req) sip of (sip, o1) \<Rightarrow>
        (case terminate (req\<lparr>rq_ct := None\<rparr>) (Some ECONNABORTED) None of (req, o2) \<Rightarrow>
           (req, sip, map Ct o1 @ o2 @ [Rfree])))"

text \<open>\<open>nxt\<close> is \<open>request_next\<close>.\<close>

definition response_handler ::
  "env \<Rightarrow> u64 \<Rightarrow> bool \<Rightarrow> bool \<Rightarrow> (sip_request \<Rightarrow> sip_client \<Rightarrow> errno option \<times> sip_request \<times> sip_client \<times> rq_out list)
     \<Rightarrow> errno option \<Rightarrow> sip_msg option \<Rightarrow> sip_request \<Rightarrow> sip_client \<Rightarrow> sip_request \<times> sip_client \<times> rq_out list" where
  "response_handler env now dup mem nxt err msg req sip =
     (if (case msg of Some m \<Rightarrow> m_scode m < 200 | None \<Rightarrow> False) then
        (case (if \<not> rq_provrecv req \<and> rq_canceled req then cancel_ct env now dup mem (rq_ct req) sip else (sip, [])) of (sip, o1) \<Rightarrow>
           (req\<lparr>rq_provrecv := True\<rparr>, sip, map Ct o1 @ (if rq_resph req then [Tell err msg] else [])))
      else
        (let req = req\<lparr>rq_ct := None\<rparr>;
             retry = (\<not> rq_canceled req \<and> (err \<noteq> None \<or> (case msg of Some m \<Rightarrow> m_scode m = 503 | None \<Rightarrow> False)) \<and> rq_more req)
         in case (if retry then nxt req sip else (err, req, sip, [])) of (err, req, sip, o1) \<Rightarrow>
              if retry \<and> err = None then (req, sip, o1)
              else (case terminate req err msg of (req, o2) \<Rightarrow> (req, sip, o1 @ o2 @ [Rfree]))))"

definition sip_request_cancel :: "env \<Rightarrow> u64 \<Rightarrow> bool \<Rightarrow> bool \<Rightarrow> sip_request \<Rightarrow> sip_client \<Rightarrow> sip_request \<times> sip_client \<times> sip_out list" where
  "sip_request_cancel env now dup mem req sip =
     (if rq_canceled req then (req, sip, [])
      else
        (let req = req\<lparr>rq_canceled := True\<rparr> in
         if \<not> rq_provrecv req then (req\<lparr>rq_ct := None\<rparr>, drop_ct (rq_ct req) sip)
         else (req, cancel_ct env now dup mem (rq_ct req) sip)))"

definition sip_request_provrecv :: "sip_request option \<Rightarrow> bool" where
  "sip_request_provrecv req = (case req of Some r \<Rightarrow> rq_provrecv r | None \<Rightarrow> False)"

section \<open>Loops of requests\<close>

record sip_loopstate =
  failc :: u32
  last_scode :: u16

definition sip_loopstate_reset :: sip_loopstate where
  "sip_loopstate_reset = \<lparr>failc = 0, last_scode = 0\<rparr>"

definition sip_request_loops :: "sip_loopstate \<Rightarrow> u16 \<Rightarrow> bool \<times> sip_loopstate" where
  "sip_request_loops ls scode =
     (if scode < 200 then (False, ls)
      else if scode < 300 then (False, ls\<lparr>failc := 0, last_scode := scode\<rparr>)
      else
        (let n = failc ls + 1 in
         (if scode < 400 then n \<ge> 16
          else scode \<noteq> 401 \<and> scode \<noteq> 407 \<and> scode \<noteq> 491 \<and> last_scode ls = scode \<or> n \<ge> 16,
          ls\<lparr>failc := n, last_scode := scode\<rparr>)))"

text \<open>A caller that tries again after every failure until a loop is reported: how often it tries.\<close>

fun attempts :: "sip_loopstate \<Rightarrow> u16 list \<Rightarrow> nat" where
  "attempts ls [] = 0"
| "attempts ls (sc # scs) = (case sip_request_loops ls sc of (lp, ls) \<Rightarrow> if lp then 1 else Suc (attempts ls scs))"

lemma attempts_bound:
  "unat (failc ls) < 16 \<Longrightarrow> \<forall>sc \<in> set scs. 300 \<le> sc \<Longrightarrow> unat (failc ls) + attempts ls scs \<le> 16"
proof (induction scs arbitrary: ls)
  case (Cons sc scs)
  obtain lp ls' where l: "sip_request_loops ls sc = (lp, ls')" by (cases "sip_request_loops ls sc")
  have sc: "\<not> sc < 200" "\<not> sc < 300" using Cons.prems(2) by (auto simp: linorder_not_less, unat_arith)
  have u: "unat (failc ls + 1) = unat (failc ls) + 1" using Cons.prems(1) by (simp add: unat_word_ariths)
  have f: "failc ls' = failc ls + 1" using l sc by (auto simp: sip_request_loops_def Let_def)
  show ?case
  proof (cases lp)
    case True
    then show ?thesis using l Cons.prems(1) by simp
  next
    case False
    then have "\<not> 16 \<le> failc ls + 1" using l sc by (auto simp: sip_request_loops_def Let_def split: if_splits)
    then have "unat (failc ls') < 16" unfolding f by unat_arith
    then have "unat (failc ls') + attempts ls' scs \<le> 16" using Cons by simp
    then show ?thesis using l False f u by simp
  qed
qed simp

text \<open>A request that keeps failing is not repeated for ever: from a reset state, whatever the failure codes, a loop is reported
  at the sixteenth at the latest.
\<close>

theorem sip_request_loops_bounded:
  assumes "\<forall>sc \<in> set scs. 300 \<le> sc"
  shows "attempts sip_loopstate_reset scs \<le> 16"
  using attempts_bound [OF _ assms, of sip_loopstate_reset] by (simp add: sip_loopstate_reset_def)

theorem sip_request_loops_bounded_witness: "attempts sip_loopstate_reset (replicate 40 302) \<le> 16"
  by (rule sip_request_loops_bounded) simp

section \<open>A call cancelled before it rings\<close>

text \<open>C40:
  A request that is cancelled before any provisional response: its transaction is dropped at once, with no message to the
  peer. No response that arrives afterwards, provisional or final, is taken, if it matches no other
  transaction, so the cancellation that
  \<open>response_handler\<close> holds for the first provisional response never happens, and the user is told nothing.
\<close>

theorem sip_cancel_early_lost:
  assumes ok: "cl_ok sip" and ct: "ct \<in> set (sc_ctrans sip)" "rq_ct req = Some (c_id ct)" "\<not> rq_provrecv req" "\<not> rq_canceled req"
    and only: "\<forall>c \<in> set (sc_ctrans sip). Sip_Ctrans.cmp_handler msg c \<longrightarrow> c = ct"
  shows "\<exists>sip'. sip_request_cancel env now dup mem req sip = (req\<lparr>rq_canceled := True, rq_ct := None\<rparr>, sip', [Released (c_id ct)])
    \<and> Sip_Ctrans.response_handler env' now' msg sip' = (False, sip', [])"
proof -
  let ?s = "ct_remove (c_id ct) sip"
  have "find_entry c_id (c_id ct) (sc_ctrans sip) = Some ct" using ok ct(1) by (simp add: table_ok_def find_entry_in)
  then have "sip_request_cancel env now dup mem req sip = (req\<lparr>rq_canceled := True, rq_ct := None\<rparr>, ?s, [Released (c_id ct)])"
    using ct by (simp add: sip_request_cancel_def drop_ct_def ctrans_destructor_def Let_def)
  moreover have "find (Sip_Ctrans.cmp_handler msg) (sc_ctrans ?s) = None"
    using only by (auto simp: find_None_iff ct_remove_def del_entry_def)
  ultimately show ?thesis by (simp add: Sip_Ctrans.response_handler_def)
qed

definition demo_request :: sip_request where
  "demo_request = \<lparr>rq_ct = Some 0, rq_reqp = True, rq_linked = True, rq_sendh = True, rq_resph = True, rq_more = False,
     rq_canceled = False, rq_provrecv = False\<rparr>"

theorem sip_cancel_early_lost_witness:
  "\<exists>sip'. sip_request_cancel demo_env 9 True True demo_request (fst demo_start)
      = (demo_request\<lparr>rq_canceled := True, rq_ct := None\<rparr>, sip', [Released 0])
    \<and> Sip_Ctrans.response_handler demo_env 20 (demo_msg 180) sip' = (False, sip', [])"
proof -
  define ct where "ct = hd (sc_ctrans (fst demo_start))"
  have s: "sc_ctrans (fst demo_start) = [ct]" "sc_next (fst demo_start) = 1" and ct: "c_id ct = 0" "ct_ok ct"
    by (simp_all add: ct_def demo_defs ct_ok_def)
  then have "cl_ok (fst demo_start)" by (simp add: table_ok_def)
  moreover have "ct \<in> set (sc_ctrans (fst demo_start))" "rq_ct demo_request = Some (c_id ct)" "\<not> rq_provrecv demo_request" "\<not> rq_canceled demo_request"
      "\<forall>c \<in> set (sc_ctrans (fst demo_start)). Sip_Ctrans.cmp_handler (demo_msg 180) c \<longrightarrow> c = ct"
    using s(1) ct(1) by (simp_all add: demo_request_def)
  ultimately show ?thesis unfolding ct(1) [symmetric] by (rule sip_cancel_early_lost)
qed

end
