(* ===== verification/Sip_Recv.thy ===== *)
theory Sip_Recv
  imports Sip_Strans Stun_Session
begin

text \<open>
  What becomes of a datagram at the SIP port, \<open>udp_recv_handler\<close> and \<open>sip_recv\<close> of \<open>re/src/sip/transp.c\<close>: STUN and SIP share
  the socket. The first listeners of an instance are those of the client and server transactions (\<open>sip_alloc\<close>); the others are
  the user's, here one function that tells whether a message was taken.
\<close>

section \<open>Dispatch of messages\<close>

definition have_essential_fields :: "sip_msg \<Rightarrow> bool" where
  "have_essential_fields msg \<longleftrightarrow> ta_auri (m_to msg) \<noteq> [] \<and> ta_auri (m_from msg) \<noteq> [] \<and> cs_met (m_cseq msg) \<noteq> []
     \<and> m_callid msg \<noteq> [] \<and> via_branch (m_via msg) \<noteq> []"

definition to_lower :: "char \<Rightarrow> char" where
  "to_lower c = (let n = of_char c :: nat in if 65 \<le> n \<and> n \<le> 90 then char_of (n + 32) else c)"

definition pl_casecmp :: "string \<Rightarrow> string \<Rightarrow> errno option" where
  "pl_casecmp a b = (if map to_lower a = map to_lower b then None else Some EINVAL)"

text \<open>Outputs of the client and the server transactions, and messages offered to the user.\<close>

datatype recv_out = Out_c sip_out | Out_s srv_out | User sip_msg

definition sip_recv ::
  "env \<Rightarrow> u64 \<Rightarrow> (sip_msg \<Rightarrow> bool) \<Rightarrow> sip_msg \<Rightarrow> sip_client \<times> sip_server \<Rightarrow> (sip_client \<times> sip_server) \<times> recv_out list" where
  "sip_recv env now user msg s =
     (case s of (cl, sv) \<Rightarrow>
        if m_req msg \<and> \<not> have_essential_fields msg then ((cl, sv), [Out_s (Stateless msg 400 ''Bad Request'')])
        else if m_req msg \<and> pl_casecmp (cs_met (m_cseq msg)) (m_met msg) \<noteq> None then ((cl, sv), [Out_s (Stateless msg 400 ''Bad Request'')])
        else if m_req msg then
          (case request_handler env now msg sv of (taken, sv, out) \<Rightarrow>
             ((cl, sv), map Out_s out @
                (if taken then []
                 else User msg #
                   (if user msg then []
                    else if m_met msg = ''CANCEL'' then [Out_s (Stateless msg 481 ''Transaction Does Not Exist'')]
                    else [Out_s (Stateless msg 501 ''Not Implemented'')]))))
        else
          (case response_handler env now msg cl of (taken, cl, out) \<Rightarrow>
             ((cl, sv), map Out_c out @ (if taken then [] else [User msg]))))"

section \<open>Datagrams\<close>

datatype dg_out = St stun_out | St_reply "errno option \<times> byte list option" | Sip recv_out

definition text_of :: "byte list \<Rightarrow> string" where
  "text_of bs = map (\<lambda>b. char_of (unat b)) bs"

text \<open>The way of a datagram that is no STUN message.\<close>

definition sip_branch :: "env \<Rightarrow> u64 \<Rightarrow> (sip_msg \<Rightarrow> bool) \<Rightarrow> byte list \<Rightarrow> stun \<times> sip_client \<times> sip_server \<Rightarrow> (stun \<times> sip_client \<times> sip_server) \<times> dg_out list" where
  "sip_branch env now user bs s =
     (case s of (st, cl, sv) \<Rightarrow>
        (case e_decode env (text_of bs) of
           Inl _ \<Rightarrow> (s, [])
         | Inr msg \<Rightarrow>
             (case sip_recv env now user (msg\<lparr>m_tp := SIP_TRANSP_UDP\<rparr>) (cl, sv) of ((cl, sv), out) \<Rightarrow> ((st, cl, sv), map Sip out))))"

text \<open>\<open>None\<close> is no return.\<close>

definition udp_recv_handler ::
  "alloc \<Rightarrow> hmac \<Rightarrow> net \<Rightarrow> env \<Rightarrow> u64 \<Rightarrow> (sip_msg \<Rightarrow> bool) \<Rightarrow> sa \<Rightarrow> mbuf \<Rightarrow> stun \<times> sip_client \<times> sip_server
     \<Rightarrow> ((stun \<times> sip_client \<times> sip_server) \<times> dg_out list) option" where
  "udp_recv_handler al hm net env now user src mb s =
     (case s of (st, cl, sv) \<Rightarrow>
        if mb_end mb \<le> 4 then Some (s, [])
        else
          (case stun_msg_decode al (Some []) mb of
             None \<Rightarrow> None
           | Some (Inr msg, ua, mb) \<Rightarrow>
               if stun_msg_method (Some msg) = STUN_METHOD_BINDING then
                 if stun_msg_class (Some msg) = STUN_CLASS_REQUEST then
                   (case stun_reply al hm net STUN_TRANSP_UDP True src 0 (Some msg) None False
                       [(STUN_ATTR_XOR_MAPPED_ADDR, Some (V_sa src)),
                        (STUN_ATTR_SOFTWARE, map_option (\<lambda>t. V_str (map (\<lambda>c. of_nat (of_char c)) t)) (sc_software cl))] of
                      None \<Rightarrow> None
                    | Some r \<Rightarrow> Some (s, [St_reply r]))
                 else
                   (case stun_ctrans_recv al hm st msg (case ua of Some ts \<Rightarrow> ts | None \<Rightarrow> []) of (err, st, out) \<Rightarrow>
                      Some ((st, cl, sv), map St out))
               else Some (s, [])
           | Some (Inl e, ua, mb) \<Rightarrow> Some (sip_branch env now user (mb_after mb) s)))"

section \<open>STUN and SIP do not mix\<close>

lemma high_bits:
  fixes b c :: byte
  assumes "b AND 0xC0 \<noteq> 0"
  shows "(word_of_bytes [c, b] :: u16) AND 0xc000 \<noteq> 0"
proof -
  obtain n where n: "bit (b AND 0xC0) n" using assms by (metis bit_0_eq bit_eqI bot_apply bot_bool_def)
  then have "n < 8" using bit_imp_le_length [OF n] by simp
  have c0: "bit (0xC0 :: u16) n"
  proof -
    have "bit (ucast (0xC0 :: byte) :: u16) n" unfolding bit_ucast_iff using n \<open>n < 8\<close> by (simp add: bit_and_iff)
    then show ?thesis by simp
  qed
  have "bit (push_bit 8 (0xC0 :: u16)) (n + 8)" unfolding bit_push_bit_iff using c0 \<open>n < 8\<close> by simp
  then have "bit (0xc000 :: u16) (n + 8)" by simp
  then have "bit ((word_of_bytes [c, b] :: u16) AND 0xc000) (n + 8)"
    using n \<open>n < 8\<close> by (simp add: bit_and_iff bit_or_iff bit_push_bit_iff bit_ucast_iff)
  then show ?thesis by auto
qed

lemma stun_refuses:
  assumes ok: "mbuf_ok mb" and b: "mb_after mb = b # rest" "b AND 0xC0 \<noteq> 0"
  shows "\<exists>mb'. stun_msg_decode al ua mb = Some (Inl EBADMSG, ua, mb') \<and> mb_after mb' = mb_after mb"
proof -
  obtain r ua' mb' where d: "stun_msg_decode al ua mb = Some (r, ua', mb')" and mb': "mb_pos mb' = mb_pos mb" "mb_buf mb' = mb_buf mb" "mb_end mb' = mb_end mb"
    using msg_decode_returns [OF ok] by blast
  have after: "mb_after mb' = mb_after mb" using mb' by (simp add: mb_after_def mb_bytes_def)
  have "\<exists>m. stun_hdr_decode mb = (Inl EBADMSG, m)"
  proof (cases "mbuf_get_left mb < STUN_HEADER_SIZE")
    case True
    then show ?thesis by (simp add: stun_hdr_decode_def)
  next
    case False
    then obtain c rest' where c: "mb_after mb = b # c # rest'"
      using b(1) mbuf_get_left_after [OF ok] by (cases rest) (auto simp: STUN_HEADER_SIZE_def)
    have "read_be16 mb = (word_of_bytes [c, b], mb_adv mb 2)" using reads_at(3) [OF ok] c by (simp del: length_mb_after)
    then show ?thesis using False high_bits [OF b(2), of c] by (simp add: stun_hdr_decode_def)
  qed
  then have "stun_msg_decode al ua mb = Some (Inl EBADMSG, ua, mb')"
    using d by (auto simp: stun_msg_decode_def)
  then show ?thesis using after by blast
qed

lemma sip_recv_ok:
  assumes "cl_ok cl" "sv_ok sv" "sip_recv env now user msg (cl, sv) = ((cl', sv'), out)"
  shows "cl_ok cl' \<and> sv_ok sv'"
  using assms cl.sim_ok [OF sim_response [OF assms(1)]] sv.sim_ok [OF request_sim [OF assms(2)]]
  by (auto simp: sip_recv_def split: if_splits prod.splits)

lemma stun_recv_ok: "ctl_ok st \<Longrightarrow> stun_ctrans_recv al hm st msg ua = (err, st', out) \<Longrightarrow> ctl_ok st'"
  using step_recv [of st] by (simp add: step_ok_def ctl_ok_def)

lemma demux_sip:
  assumes "mbuf_ok mb" "4 < mb_end mb" "mb_after mb = b # rest" "b AND 0xC0 \<noteq> 0"
  shows "udp_recv_handler al hm net env now user src mb s = Some (sip_branch env now user (mb_after mb) s)"
  using stun_refuses [OF assms(1,3,4), of al "Some []"] assms(2)
  by (cases s) (auto simp: udp_recv_handler_def)

lemma demux_stun:
  assumes "udp_recv_handler al hm net env now user src mb (st, cl, sv) = Some ((st', cl', sv'), out)"
    "stun_msg_decode al (Some []) mb = Some (Inr m, ua, mb')"
  shows "cl' = cl \<and> sv' = sv \<and> (\<forall>x. Sip x \<notin> set out)"
  using assms by (auto simp: udp_recv_handler_def split: if_splits option.splits prod.splits)

lemma demux_ok:
  assumes "udp_recv_handler al hm net env now user src mb (st, cl, sv) = Some ((st', cl', sv'), out)" "ctl_ok st" "cl_ok cl" "sv_ok sv"
  shows "ctl_ok st' \<and> cl_ok cl' \<and> sv_ok sv'"
  using assms stun_recv_ok [of st] sip_recv_ok [of cl sv]
  by (auto simp: udp_recv_handler_def sip_branch_def split: if_splits option.splits prod.splits sum.splits)

text \<open>C20:
  SIP and STUN share a port and do not mix. A datagram of more than 4 bytes whose first byte has one of its two high bits set, which every letter has, is
  given to the SIP decoder as it arrived, and nothing of STUN changes. A datagram that decodes as STUN changes no SIP transaction.
  And no datagram whatever takes the tables of either out of their invariants.
\<close>

theorem sip_stun_demux:
  assumes "mbuf_ok mb"
  shows "(4 < mb_end mb \<and> mb_after mb = b # rest \<and> b AND 0xC0 \<noteq> 0
        \<longrightarrow> udp_recv_handler al hm net env now user src mb (st, cl, sv) = Some (sip_branch env now user (mb_after mb) (st, cl, sv)))
    \<and> (udp_recv_handler al hm net env now user src mb (st, cl, sv) = Some ((st', cl', sv'), out)
        \<longrightarrow> ((\<exists>m ua mb'. stun_msg_decode al (Some []) mb = Some (Inr m, ua, mb')) \<longrightarrow> cl' = cl \<and> sv' = sv \<and> (\<forall>x. Sip x \<notin> set out))
          \<and> (ctl_ok st \<and> cl_ok cl \<and> sv_ok sv \<longrightarrow> ctl_ok st' \<and> cl_ok cl' \<and> sv_ok sv'))"
proof (intro conjI impI; (elim conjE exE)?)
  show "udp_recv_handler al hm net env now user src mb (st, cl, sv) = Some (sip_branch env now user (mb_after mb) (st, cl, sv))"
    if "4 < mb_end mb" "mb_after mb = b # rest" "b AND 0xC0 \<noteq> 0" using demux_sip [OF assms that] .
next
  assume r: "udp_recv_handler al hm net env now user src mb (st, cl, sv) = Some ((st', cl', sv'), out)"
  show "cl' = cl" "sv' = sv" "\<forall>x. Sip x \<notin> set out" if "stun_msg_decode al (Some []) mb = Some (Inr m, ua, mb')" for m ua mb'
    using demux_stun [OF r that] by simp_all
  show "ctl_ok st'" "cl_ok cl'" "sv_ok sv'" if "ctl_ok st" "cl_ok cl" "sv_ok sv" using demux_ok [OF r that] by simp_all
qed

definition demo_port :: "stun \<times> sip_client \<times> sip_server" where
  "demo_port = (\<lparr>st_ctl = [], st_conf = conf_default, st_indh = False, st_next = 0\<rparr>, fst demo_start, \<lparr>ss_strans = [], ss_next = 0\<rparr>)"

theorem sip_stun_demux_witness:
  "\<exists>st' cl' sv' out. udp_recv_handler al_zero (\<lambda>_ _. replicate 20 0) net_example (demo_env\<lparr>e_decode := (\<lambda>_. Inr (demo_msg 200))\<rparr>) 9 (\<lambda>_. False) (sa_init AF_INET)
      (mbuf_of (map (\<lambda>c. of_nat (of_char c)) ''SIP/2.0'')) demo_port = Some ((st', cl', sv'), out)
    \<and> out = [Sip (Out_c (sip_out.Resp 0 None (Some (demo_msg 200))))] \<and> ctl_ok st' \<and> cl_ok cl' \<and> sv_ok sv'"
proof -
  let ?env = "demo_env\<lparr>e_decode := (\<lambda>_. Inr (demo_msg 200))\<rparr>" and ?mb = "mbuf_of (map (\<lambda>c. of_nat (of_char c)) ''SIP/2.0'')"
  have mb: "mbuf_ok ?mb" "4 < mb_end ?mb" "mb_after ?mb = [83, 73, 80, 47, 50, 46, 48]"
    by (simp_all add: mbuf_of_def mbuf_ok_def mb_bytes_def mb_after_def size_mod_def)
  obtain st cl sv where p: "demo_port = (st, cl, sv)" by (cases demo_port)
  obtain st' cl' sv' out where b: "sip_branch ?env 9 (\<lambda>_. False) (mb_after ?mb) (st, cl, sv) = ((st', cl', sv'), out)"
    by (metis prod_cases3 prod.collapse)
  have "out = [Sip (Out_c (sip_out.Resp 0 None (Some (demo_msg 200))))]"
    using b p by (auto simp: sip_branch_def sip_recv_def demo_port_def demo_defs)
  moreover have "ctl_ok st" "cl_ok cl" "sv_ok sv"
    using p by (auto simp: demo_port_def ctl_ok_def table_ok_def ct_ok_def demo_defs)
  moreover have "udp_recv_handler al_zero (\<lambda>_ _. replicate 20 0) net_example ?env 9 (\<lambda>_. False) (sa_init AF_INET) ?mb (st, cl, sv) = Some ((st', cl', sv'), out)"
    using sip_stun_demux [OF mb(1), of 83 "[73, 80, 47, 50, 46, 48]"] mb b by simp
  ultimately show ?thesis using sip_stun_demux [OF mb(1)] unfolding p by blast
qed

end
