(* ===== verification/Dns_Name.thy ===== *)
theory Dns_Name
  imports Mbuf_View Hash
begin

text \<open>
  DNS domain names, \<open>re/src/dns/dname.c\<close>, and the hash function of names, \<open>re/src/hash/func.c\<close>, on the memory
  buffers of \<open>Mbuf\<close> and the hash table of \<open>Hash\<close>.

  A name is the bytes of a C string without its terminator; \<open>char\<close> is unsigned on the target. The table of
  names that were written, for compression, is \<open>None\<close> when the caller has none. The decoder loads bytes without
  going through the reading functions of the buffer and stores them in an array on the stack; an access outside
  the block or the array sets the ghost flag of the buffer.

  \<open>name_at\<close> says what name stands at an offset of a message, with the number of pointers followed and the
  offset behind it. The encoder establishes it and the decoder reads it, so names written one after the other
  with compression are read back, up to the case of letters.
\<close>

section \<open>The hash function\<close>

text \<open>\<open>tolower\<close> of the C locale.\<close>

definition lower :: "byte \<Rightarrow> byte" where
  "lower c = (if 65 \<le> c \<and> c \<le> 90 then c + 32 else c)"

definition joaat_add :: "u32 \<Rightarrow> byte \<Rightarrow> u32" where
  "joaat_add hash c =
     (let hash = hash + ucast c; hash = hash + push_bit 10 hash in hash XOR drop_bit 6 hash)"

definition joaat_end :: "u32 \<Rightarrow> u32" where
  "joaat_end hash =
     (let hash = hash + push_bit 3 hash; hash = hash XOR drop_bit 11 hash in hash + push_bit 15 hash)"

definition hash_joaat :: "byte list \<Rightarrow> u32" where
  "hash_joaat key = joaat_end (foldl joaat_add 0 key)"

definition hash_joaat_ci :: "byte list \<Rightarrow> u32" where
  "hash_joaat_ci str = joaat_end (foldl (\<lambda>hash c. joaat_add hash (lower c)) 0 str)"

text \<open>The loops over a C string stop at its terminator.\<close>

fun joaat_str :: "(byte \<Rightarrow> byte) \<Rightarrow> u32 \<Rightarrow> byte list \<Rightarrow> u32" where
  "joaat_str f hash [] = joaat_end hash"
| "joaat_str f hash (c # str) = joaat_str f (joaat_add hash (f c)) str"

definition hash_joaat_str :: "byte list \<Rightarrow> u32" where
  "hash_joaat_str str = joaat_str id 0 str"

definition hash_joaat_str_ci :: "byte list \<Rightarrow> u32" where
  "hash_joaat_str_ci str = joaat_str lower 0 str"

section \<open>Model\<close>

definition COMP_MASK :: u8 where "COMP_MASK = 0xc0"
definition OFFSET_MASK :: u16 where "OFFSET_MASK = 0x3fff"
definition COMP_LOOP :: nat where "COMP_LOOP = 255"

record dname =
  dn_name :: "byte list"
  dn_pos :: nat

type_synonym dnames = "dname hash option"

definition sizeof_dname :: nat where "sizeof_dname = 24"

definition str_casecmp_eq :: "byte list \<Rightarrow> byte list \<Rightarrow> bool" where
  "str_casecmp_eq a b \<longleftrightarrow> map lower a = map lower b"

definition dname_append :: "alloc \<Rightarrow> dnames \<Rightarrow> byte list \<Rightarrow> nat \<Rightarrow> mbuf \<Rightarrow> dnames \<times> mbuf" where
  "dname_append al ht name pos mb =
     (case ht of
        None \<Rightarrow> (None, mb)
      | Some h \<Rightarrow>
          if pos > unat OFFSET_MASK \<or> name = [] then (Some h, mb)
          else
            (case mem_alloc al sizeof_dname mb of (ok, mb) \<Rightarrow>
               if \<not> ok then (Some h, mb)
               else
                 (case mem_alloc al (length name + 1) mb of (ok, mb) \<Rightarrow>
                    if \<not> ok then (Some h, mb)
                    else (Some (hash_append h (hash_joaat_str_ci name) \<lparr>dn_name = name, dn_pos = pos\<rparr>), mb))))"

definition lookup_handler :: "byte list \<Rightarrow> dname \<Rightarrow> bool" where
  "lookup_handler name dn \<longleftrightarrow> str_casecmp_eq (dn_name dn) name"

definition dname_lookup :: "dnames \<Rightarrow> byte list \<Rightarrow> dname option" where
  "dname_lookup ht name =
     (case ht of None \<Rightarrow> None | Some h \<Rightarrow> hash_lookup h (hash_joaat_str_ci name) (lookup_handler name))"

definition dname_encode_pointer :: "alloc \<Rightarrow> mbuf \<Rightarrow> nat \<Rightarrow> errno option \<times> mbuf" where
  "dname_encode_pointer al mb pos = mbuf_write_u16 al mb (htons (of_nat pos OR push_bit 8 (ucast COMP_MASK)))"

definition size_sub :: "nat \<Rightarrow> nat \<Rightarrow> nat" where
  "size_sub a b = size_wrap (int a - int b)"

text \<open>The loop over the rest of the name; \<open>pos\<close> is where the length of the current label goes.\<close>

fun dname_encode_loop ::
  "alloc \<Rightarrow> nat \<Rightarrow> bool \<Rightarrow> nat \<Rightarrow> byte list \<Rightarrow> dnames \<Rightarrow> mbuf \<Rightarrow> errno option \<times> dnames \<times> mbuf" where
  "dname_encode_loop al start cmpr pos [] ht mb =
     (let lablen = size_sub (mb_pos mb) (pos + 1) in
      if lablen = 0 then (None, ht, mb)
      else
        (case mbuf_write_u8 al (mem_store mb pos [of_nat lablen]) 0 of (err, mb) \<Rightarrow> (err, ht, mb)))"
| "dname_encode_loop al start cmpr pos (c # name) ht mb =
     (let lablen = size_sub (mb_pos mb) (pos + 1) in
      if c = 46 then
        if lablen = 0 then (Some EINVAL, ht, mb)
        else
          (let mb = mem_store mb pos [of_nat lablen]; dn = dname_lookup ht name in
           if dn \<noteq> None \<and> cmpr then (case dname_encode_pointer al mb (dn_pos (the dn)) of (err, mb) \<Rightarrow> (err, ht, mb))
           else
             (let pos = mb_pos mb in
              case (if dn = None then dname_append al ht name (size_sub pos start) mb else (ht, mb)) of (ht, mb) \<Rightarrow>
                (case mbuf_write_u8 al mb 0 of (err, mb) \<Rightarrow>
                   if err \<noteq> None then (err, ht, mb) else dname_encode_loop al start cmpr pos name ht mb)))
      else
        (case mbuf_write_u8 al mb c of (err, mb) \<Rightarrow>
           if err \<noteq> None then (err, ht, mb) else dname_encode_loop al start cmpr pos name ht mb))"

definition dns_dname_encode ::
  "alloc \<Rightarrow> mbuf \<Rightarrow> byte list \<Rightarrow> dnames \<Rightarrow> nat \<Rightarrow> bool \<Rightarrow> errno option \<times> dnames \<times> mbuf" where
  "dns_dname_encode al mb name ht start cmpr =
     (let dn = dname_lookup ht name in
      if dn \<noteq> None \<and> cmpr then (case dname_encode_pointer al mb (dn_pos (the dn)) of (err, mb) \<Rightarrow> (err, ht, mb))
      else
        (let pos = mb_pos mb in
         case (if dn = None then dname_append al ht name (size_sub pos start) mb else (ht, mb)) of (ht, mb) \<Rightarrow>
           (case mbuf_write_u8 al mb 0 of (err, mb) \<Rightarrow>
              if name = [46] then (err, ht, mb)
              else if err \<noteq> None then (err, ht, mb)
              else dname_encode_loop al start cmpr pos name ht mb)))"

text \<open>Storing bytes in the array \<open>buf\<close> of 256 bytes, behind those it has.\<close>

definition buf_put :: "byte list \<Rightarrow> byte list \<Rightarrow> mbuf \<Rightarrow> byte list \<times> mbuf" where
  "buf_put buf bs mb = (buf @ bs, if length buf + length bs \<le> 256 then mb else mb\<lparr>mb_ub := True\<rparr>)"

lemma load_frame [simp]:
  "mb_pos (snd (mem_load mb p n)) = mb_pos mb" "mb_end (snd (mem_load mb p n)) = mb_end mb"
  "mb_bytes (snd (mem_load mb p n)) = mb_bytes mb" "mb_tick (snd (mem_load mb p n)) = mb_tick mb"
  "mb_pos (snd (buf_put buf bs mb)) = mb_pos mb" "mb_end (snd (buf_put buf bs mb)) = mb_end mb"
  "mb_bytes (snd (buf_put buf bs mb)) = mb_bytes mb" "mb_tick (snd (buf_put buf bs mb)) = mb_tick mb"
  by (simp_all add: mem_load_def buf_put_def mb_bytes_def)

text \<open>
  The loop of the decoder: how often a pointer was followed (\<open>loopc\<close>), the cursor behind the first pointer
  (\<open>saved\<close>, which is \<open>comp\<close> and \<open>pos\<close>), and the first \<open>i\<close> bytes of \<open>buf\<close>. It ends since a pointer is followed at
  most 256 times and every label moves the cursor on.
\<close>

function dname_decode_loop ::
  "alloc \<Rightarrow> nat \<Rightarrow> nat \<Rightarrow> nat option \<Rightarrow> byte list \<Rightarrow> mbuf \<Rightarrow> (errno + byte list) \<times> mbuf" where
  "dname_decode_loop al start loopc saved buf mb =
     (if \<not> mb_pos mb < mb_end mb then (Inl EINVAL, mb)
      else
        (let len = hd (fst (mem_load mb (mb_pos mb) 1));
             mb1 = (snd (mem_load mb (mb_pos mb) 1))\<lparr>mb_pos := mb_pos mb + 1\<rparr>
         in if len = 0 then
              (let mb2 = (case saved of Some pos \<Rightarrow> mb1\<lparr>mb_pos := pos\<rparr> | None \<Rightarrow> mb1) in
               case buf_put buf [0] mb2 of (buf, mb3) \<Rightarrow>
                 (case mem_alloc al (length buf) mb3 of (ok, mb4) \<Rightarrow>
                    (if ok then Inr (takeWhile (\<lambda>b. b \<noteq> 0) buf) else Inl ENOMEM, mb4)))
            else if len AND COMP_MASK = COMP_MASK then
              if loopc > COMP_LOOP then (Inl EINVAL, mb1)
              else
                (let mb2 = mb1\<lparr>mb_pos := mb_pos mb\<rparr> in
                 if mbuf_get_left mb2 < 2 then (Inl EINVAL, mb2)
                 else
                   (case read_be16 mb2 of (v, mb3) \<Rightarrow>
                      dname_decode_loop al start (Suc loopc) (case saved of None \<Rightarrow> Some (mb_pos mb3) | Some p \<Rightarrow> Some p)
                        buf (mb3\<lparr>mb_pos := size_add (unat (v AND OFFSET_MASK)) start\<rparr>)))
            else if unat len > mbuf_get_left mb1 then (Inl EINVAL, mb1)
            else if unat len + length buf + 2 > 256 then (Inl EINVAL, mb1)
            else
              (let dot = (if length buf > 0 then [46] else []);
                   mb2 = snd (mem_load mb1 (mb_pos mb1) (unat len));
                   put = buf_put buf (dot @ fst (mem_load mb1 (mb_pos mb1) (unat len))) mb2
               in dname_decode_loop al start loopc saved (fst put) ((snd put)\<lparr>mb_pos := mb_pos mb1 + unat len\<rparr>))))"
  by pat_completeness auto
termination
proof (relation "measures [\<lambda>(al, start, loopc, saved, buf, mb). 256 - loopc,
    \<lambda>(al, start, loopc, saved, buf, mb). mb_end mb - mb_pos mb]", goal_cases)
  case 1
  then show ?case by simp
next
  case (2 al start loopc saved buf mb)
  then have "256 - Suc loopc < 256 - loopc" by (simp add: COMP_LOOP_def)
  then show ?case by simp
next
  case (3 al start loopc saved buf mb)
  then show ?case by (auto simp: mbuf_get_left_def split: if_splits)
qed

declare dname_decode_loop.simps [simp del]

definition dns_dname_decode :: "alloc \<Rightarrow> mbuf \<Rightarrow> nat \<Rightarrow> (errno + byte list) \<times> mbuf" where
  "dns_dname_decode al mb start = dname_decode_loop al start 0 None [] mb"

section \<open>The decoder stays in bounds\<close>

text \<open>The contents of a buffer, wherever its cursor is.\<close>

definition blk :: "mbuf \<Rightarrow> byte list \<Rightarrow> bool" where
  "blk mb xs \<longleftrightarrow> mbv (mb\<lparr>mb_pos := 0\<rparr>) 0 xs"

lemma blk_pos [simp]: "blk (mb\<lparr>mb_pos := q\<rparr>) xs = blk mb xs"
  by (simp add: blk_def)

lemma blk_tick [simp]: "blk (mb\<lparr>mb_tick := t\<rparr>) xs = blk mb xs"
  by (simp add: blk_def mbv_def mbuf_ok_def mb_all_def mb_bytes_def)

lemma blk_mbv: "blk mb xs \<Longrightarrow> mb_pos mb \<le> length xs \<Longrightarrow> mbv mb (mb_pos mb) xs"
  using mbv_set_pos [of "mb\<lparr>mb_pos := 0\<rparr>" 0 xs "mb_pos mb"] by (simp add: blk_def)

lemma mbv_blk: "mbv mb p xs \<Longrightarrow> blk mb xs"
  using mbv_set_pos [of mb p xs 0] by (simp add: blk_def)

lemma blk_end: "blk mb xs \<Longrightarrow> mb_end mb = length xs" "blk mb xs \<Longrightarrow> \<not> mb_ub mb" "blk mb xs \<Longrightarrow> length xs < size_mod"
  using mbvD(1,3,8) [of "mb\<lparr>mb_pos := 0\<rparr>" 0 xs] by (simp_all add: blk_def mbuf_ok_def)

text \<open>One round of the loop, over the bytes.\<close>

lemma decode_end: "blk mb xs \<Longrightarrow> length xs \<le> mb_pos mb \<Longrightarrow> dname_decode_loop al start loopc saved buf mb = (Inl EINVAL, mb)"
  using blk_end(1) [of mb xs] by (subst dname_decode_loop.simps) simp

definition decoded :: "alloc \<Rightarrow> byte list \<Rightarrow> mbuf \<Rightarrow> (errno + byte list) \<times> mbuf" where
  "decoded al buf mb =
     (if al (mb_tick mb) (length buf + 1) \<noteq> None then Inr (takeWhile (\<lambda>b. b \<noteq> 0) buf) else Inl ENOMEM,
      mb\<lparr>mb_tick := Suc (mb_tick mb)\<rparr>)"

lemma takeWhile_snoc: "\<not> P x \<Longrightarrow> takeWhile P (xs @ [x]) = takeWhile P xs"
  by (induction xs) auto

lemma decode_step:
  assumes v: "blk mb xs" and p: "mb_pos mb = p" "p < length xs" and buf: "length buf \<le> 255"
  shows "dname_decode_loop al start loopc saved buf mb =
    (if xs ! p = 0 then decoded al buf (mb\<lparr>mb_pos := (case saved of None \<Rightarrow> p + 1 | Some q \<Rightarrow> q)\<rparr>)
     else if xs ! p AND COMP_MASK = COMP_MASK then
       if loopc > COMP_LOOP then (Inl EINVAL, mb\<lparr>mb_pos := p + 1\<rparr>)
       else if length xs < p + 2 then (Inl EINVAL, mb)
       else dname_decode_loop al start (Suc loopc) (case saved of None \<Rightarrow> Some (p + 2) | Some q \<Rightarrow> Some q) buf
         (mb\<lparr>mb_pos := size_add (unat (word_of_bytes (rev (take 2 (drop p xs))) AND OFFSET_MASK)) start\<rparr>)
     else if length xs < p + 1 + unat (xs ! p) \<or> unat (xs ! p) + length buf > 254 then (Inl EINVAL, mb\<lparr>mb_pos := p + 1\<rparr>)
     else dname_decode_loop al start loopc saved
         (buf @ (if buf = [] then [] else [46]) @ take (unat (xs ! p)) (drop (p + 1) xs)) (mb\<lparr>mb_pos := p + 1 + unat (xs ! p)\<rparr>))"
proof -
  have m: "mbv mb p xs" using blk_mbv [OF v] p by simp
  have l: "mem_load mb p 1 = ([xs ! p], mb)" using mbv_load [OF m, of p 1] p(2) by (simp add: take_Suc hd_drop_conv_nth)
  have self: "mb\<lparr>mb_pos := p\<rparr> = mb" using p(1) by simp
  have e: "mb_end mb = length xs" by (rule blk_end [OF v])
  have r: "read_be16 mb = (word_of_bytes (rev (take 2 (drop p xs))), mb\<lparr>mb_pos := p + 2\<rparr>)" if "p + 2 \<le> length xs"
    using reads_at(3) [OF mbvD(1) [OF m]] mbvD(5) [OF m] that p by (simp add: mb_adv_def)
  have w: "mem_load (mb\<lparr>mb_pos := p + 1\<rparr>) (p + 1) n = (take n (drop (p + 1) xs), mb\<lparr>mb_pos := p + 1\<rparr>)" if "p + 1 + n \<le> length xs" for n
    by (rule mbv_load [OF mbv_set_pos [OF m]]) (use that p(2) in auto)
  have left: "mbuf_get_left mb = length xs - p" "mbuf_get_left (mb\<lparr>mb_pos := p + 1\<rparr>) = length xs - (p + 1)"
    using e p by (auto simp: mbuf_get_left_def)
  show ?thesis
  proof (cases "xs ! p = 0")
    case True
    then show ?thesis using p e l self buf
      by (subst dname_decode_loop.simps)
        (cases saved; simp add: Let_def decoded_def buf_put_def mem_alloc_def takeWhile_snoc)
  next
    case False
    show ?thesis
    proof (cases "xs ! p AND COMP_MASK = COMP_MASK")
      case True
      then show ?thesis using p e l self False r left
        by (subst dname_decode_loop.simps) (cases saved; auto simp: Let_def)
    next
      case nc: False
      then show ?thesis using p e l self False left w [of "unat (xs ! p)"]
        by (subst dname_decode_loop.simps) (auto simp: Let_def buf_put_def)
    qed
  qed
qed

text \<open>What a call of the decoder may do: \<open>lo\<close> is where the name began.\<close>

definition decode_ok :: "nat \<Rightarrow> byte list \<Rightarrow> mbuf \<Rightarrow> (errno + byte list) \<times> mbuf \<Rightarrow> bool" where
  "decode_ok lo xs mb res \<longleftrightarrow>
     (\<exists>q t. snd res = mb\<lparr>mb_pos := q, mb_tick := t\<rparr> \<and>
        (case fst res of Inl e \<Rightarrow> e = EINVAL \<or> e = ENOMEM | Inr name \<Rightarrow> length name \<le> 255 \<and> lo < q \<and> q \<le> length xs))"

lemma decode_okI:
  "decode_ok lo xs mb (Inl EINVAL, mb)" "decode_ok lo xs mb (Inl EINVAL, mb\<lparr>mb_pos := q\<rparr>)"
  "decode_ok lo xs (mb\<lparr>mb_pos := q\<rparr>) res = decode_ok lo xs mb res"
proof -
  show "decode_ok lo xs mb (Inl EINVAL, mb)"
    unfolding decode_ok_def by (rule exI [of _ "mb_pos mb"], rule exI [of _ "mb_tick mb"]) simp
  show "decode_ok lo xs mb (Inl EINVAL, mb\<lparr>mb_pos := q\<rparr>)"
    unfolding decode_ok_def by (rule exI [of _ q], rule exI [of _ "mb_tick mb"]) simp
qed (simp add: decode_ok_def)

lemma decode_ok_decoded:
  assumes "length buf \<le> 255" and "lo < q" and "q \<le> length xs"
  shows "decode_ok lo xs mb (decoded al buf (mb\<lparr>mb_pos := q\<rparr>))"
  unfolding decode_ok_def decoded_def
  by (rule exI [of _ q], rule exI [of _ "Suc (mb_tick mb)"])
    (use assms length_takeWhile_le [of "\<lambda>b. b \<noteq> 0" buf] in \<open>auto intro: le_trans\<close>)

lemma decode_loop_safe:
  assumes "blk mb xs" and "length buf \<le> 255" and "case saved of None \<Rightarrow> lo \<le> mb_pos mb | Some q \<Rightarrow> lo < q \<and> q \<le> length xs"
  shows "decode_ok lo xs mb (dname_decode_loop al start loopc saved buf mb)"
  using assms
proof (induction "(257 - loopc) * (length xs + 1) + (length xs - mb_pos mb)" arbitrary: loopc saved buf mb rule: less_induct)
  case less
  note IH = less.hyps and v = less.prems(1)
  show ?case
  proof (cases "mb_pos mb < length xs")
    case False
    then show ?thesis using decode_end [OF v] by (simp add: decode_okI)
  next
    case True
    let ?p = "mb_pos mb" and ?b = "xs ! mb_pos mb"
    let ?off = "size_add (unat (word_of_bytes (rev (take 2 (drop ?p xs))) AND OFFSET_MASK)) start"
    note step = decode_step [OF v refl True less.prems(2), of al start loopc saved]
    have nz: "?b \<noteq> 0 \<Longrightarrow> 0 < unat ?b" by (simp add: unat_gt_0)
    consider (root) "?b = 0" | (ptr) "?b \<noteq> 0" "?b AND COMP_MASK = COMP_MASK" | (lab) "?b \<noteq> 0" "?b AND COMP_MASK \<noteq> COMP_MASK"
      by blast
    then show ?thesis
    proof cases
      case root
      then show ?thesis using step True less.prems(2,3) by (auto intro!: decode_ok_decoded split: option.splits)
    next
      case ptr
      have "decode_ok lo xs (mb\<lparr>mb_pos := ?off\<rparr>) (dname_decode_loop al start (Suc loopc)
          (case saved of None \<Rightarrow> Some (?p + 2) | Some q \<Rightarrow> Some q) buf (mb\<lparr>mb_pos := ?off\<rparr>))"
        if "loopc \<le> COMP_LOOP" "?p + 2 \<le> length xs"
      proof (rule IH)
        have "257 - loopc = Suc (257 - Suc loopc)" using that(1) by (simp add: COMP_LOOP_def)
        then show "(257 - Suc loopc) * (length xs + 1) + (length xs - mb_pos (mb\<lparr>mb_pos := ?off\<rparr>))
          < (257 - loopc) * (length xs + 1) + (length xs - ?p)" by (simp add: le_imp_less_Suc)
      qed (use v less.prems(2,3) that(2) in \<open>auto split: option.splits\<close>)
      then show ?thesis using step ptr by (auto simp: decode_okI)
    next
      case lab
      have "decode_ok lo xs (mb\<lparr>mb_pos := ?p + 1 + unat ?b\<rparr>) (dname_decode_loop al start loopc saved
          (buf @ (if buf = [] then [] else [46]) @ take (unat ?b) (drop (?p + 1) xs)) (mb\<lparr>mb_pos := ?p + 1 + unat ?b\<rparr>))"
        if "?p + 1 + unat ?b \<le> length xs" "unat ?b + length buf \<le> 254"
        by (rule IH) (use v less.prems(3) that nz [OF lab(1)] True in \<open>auto split: option.splits\<close>)
      then show ?thesis using step lab by (auto simp: decode_okI)
    qed
  qed
qed

section \<open>The name at an offset\<close>

definition glue :: "byte list \<Rightarrow> byte list \<Rightarrow> byte list" where
  "glue a b = (if a = [] then b else if b = [] then a else a @ 46 # b)"

lemma glue_assoc: "glue (glue a b) c = glue a (glue b c)"
  by (simp add: glue_def)

lemma glue_Nil [simp]: "glue [] b = b" "glue a [] = a"
  by (simp_all add: glue_def)

text \<open>
  At offset \<open>p\<close> of the message stands the name \<open>t\<close>, which ends before offset \<open>e\<close>; \<open>j\<close> pointers are followed to read it,
  and no byte of \<open>H\<close> is used: these are the bytes the writer of the message still changes.
\<close>

inductive name_at :: "nat set \<Rightarrow> byte list \<Rightarrow> nat \<Rightarrow> nat \<Rightarrow> nat \<Rightarrow> nat \<Rightarrow> byte list \<Rightarrow> bool" for H xs start where
  root: "p < length xs \<Longrightarrow> xs ! p = 0 \<Longrightarrow> p \<notin> H \<Longrightarrow> name_at H xs start p (p + 1) 0 []"
| lab: "p + 1 + length l \<le> length xs \<Longrightarrow> xs ! p = of_nat (length l) \<Longrightarrow> 0 < length l \<Longrightarrow> length l \<le> 63 \<Longrightarrow>
    take (length l) (drop (p + 1) xs) = l \<Longrightarrow> 0 \<notin> set l \<Longrightarrow> {p..p + length l} \<inter> H = {} \<Longrightarrow> name_at H xs start (p + 1 + length l) e j t \<Longrightarrow>
    name_at H xs start p e j (glue l t)"
| ptr: "p + 2 \<le> length xs \<Longrightarrow> take 2 (drop p xs) = be16 (of_nat off OR 0xc000) \<Longrightarrow> off \<le> 0x3fff \<Longrightarrow>
    {p, p + 1} \<inter> H = {} \<Longrightarrow> name_at H xs start (off + start) e j t \<Longrightarrow> name_at H xs start p (p + 2) (Suc j) t"

lemma name_at_bound: "name_at H xs start p e j t \<Longrightarrow> p < length xs \<and> e \<le> length xs \<and> 0 \<notin> set t"
  by (induction rule: name_at.induct) (auto simp: glue_def)

lemma name_at_cong:
  assumes "name_at H xs start p e j t" and "length xs \<le> length xs'" and "\<And>i. i < length xs \<Longrightarrow> i \<notin> H \<Longrightarrow> xs' ! i = xs ! i"
    and "H' \<subseteq> H \<union> {length xs..}"
  shows "name_at H' xs' start p e j t"
  using assms(1)
proof (induction rule: name_at.induct)
  case (root p)
  then have "name_at H' xs' start p (p + 1) 0 []" using assms(2-4) by (intro name_at.root) force+
  then show ?case by simp
next
  case (lab p l e j t)
  have "take (length l) (drop (p + 1) xs') = take (length l) (drop (p + 1) xs)"
  proof (rule nth_equalityI)
    fix i
    assume "i < length (take (length l) (drop (p + 1) xs'))"
    then have "p + 1 + i \<in> {p..p + length l}" "p + 1 + i < length xs" using lab.hyps(1) by auto
    then show "take (length l) (drop (p + 1) xs') ! i = take (length l) (drop (p + 1) xs) ! i"
      using lab.hyps(1,7) assms(2,3) by (auto simp: disjoint_iff)
  qed (use lab.hyps(1) assms(2) in simp)
  moreover have "p \<in> {p..p + length l}" by simp
  then have "p \<notin> H" using lab.hyps(7) by blast
  then have "xs' ! p = xs ! p" using lab.hyps(1) assms(3) by simp
  moreover have "x \<notin> H'" if "x \<in> {p..p + length l}" for x
    using that lab.hyps(1,7) assms(4) by fastforce
  then have "{p..p + length l} \<inter> H' = {}" by blast
  ultimately show ?case using lab assms(2) by (intro name_at.lab) auto
next
  case (ptr p off e j t)
  have "take 2 (drop p xs') = take 2 (drop p xs)"
    by (rule nth_equalityI) (use ptr.hyps(1,4) assms(2,3) in \<open>auto simp: less_2_cases_iff\<close>)
  moreover have "{p, p + 1} \<inter> H' = {}" using ptr.hyps assms(4) by auto
  ultimately show ?case using ptr assms(2) by (intro name_at.ptr [of p _ off]) auto
qed

lemma name_at_append: "name_at H xs start p e j t \<Longrightarrow> name_at H (xs @ ys) start p e j t"
  by (rule name_at_cong) (auto simp: nth_append)

lemma label_byte:
  assumes "0 < n" and "n \<le> 63"
  shows "unat (of_nat n :: byte) = n" and "(of_nat n :: byte) \<noteq> 0" and "(of_nat n :: byte) AND COMP_MASK \<noteq> COMP_MASK"
proof -
  show u: "unat (of_nat n :: byte) = n" using assms by (simp add: unat_of_nat)
  then show "(of_nat n :: byte) \<noteq> 0" using assms by (metis unat_0 neq0_conv)
  have "list_all (\<lambda>n. (of_nat n :: byte) AND 0xc0 = 0) [0..<64]" by code_simp
  then have "(of_nat n :: byte) AND 0xc0 = 0" using assms by (simp add: list_all_iff)
  then show "(of_nat n :: byte) AND COMP_MASK \<noteq> COMP_MASK" by (simp add: COMP_MASK_def)
qed

lemma pointer_bytes:
  assumes "off \<le> 0x3fff"
  shows "hd (be16 (of_nat off OR 0xc000)) AND COMP_MASK = COMP_MASK" and "hd (be16 (of_nat off OR 0xc000)) \<noteq> 0"
    and "unat ((of_nat off OR 0xc000) AND OFFSET_MASK) = off"
proof -
  let ?w = "of_nat off :: u16"
  have masks: "(0xc000 :: u16) = NOT (mask 14)" "(0xc0 :: u8) = NOT (mask 6)" "(0x3fff :: u16) = mask 14" by code_simp+
  have h: "hd (be16 v) = ucast (drop_bit 8 v)" for v by (simp add: be16_def word_bytes_def numeral_2_eq_2)
  show "hd (be16 (?w OR 0xc000)) AND COMP_MASK = COMP_MASK"
    unfolding h masks COMP_MASK_def by (rule bit_word_eqI) (auto simp: bit_simps)
  then show "hd (be16 (?w OR 0xc000)) \<noteq> 0" by (auto simp: COMP_MASK_def)
  have "unat ?w = off" using assms by (simp add: unat_of_nat)
  moreover from this have "take_bit 14 ?w = ?w" using assms by (simp add: take_bit_eq_mod unat_mod_distrib word_unat_eq_iff)
  moreover have "(?w OR 0xc000) AND OFFSET_MASK = take_bit 14 ?w"
    unfolding OFFSET_MASK_def masks by (rule bit_word_eqI) (auto simp: bit_simps)
  ultimately show "unat ((?w OR 0xc000) AND OFFSET_MASK) = off" by simp
qed

lemma decode_name_at:
  assumes "name_at H xs start p e j t" and "blk mb xs" and "mb_pos mb = p" and "loopc + j \<le> 256" and "length (glue buf t) \<le> 254"
    and "0 \<notin> set buf" and "alloc_total al" and "start + 0x3fff < size_mod"
  shows "\<exists>mb'. dname_decode_loop al start loopc saved buf mb = (Inr (glue buf t), mb') \<and> blk mb' xs
    \<and> mb_pos mb' = (case saved of None \<Rightarrow> e | Some q \<Rightarrow> q)"
  using assms
proof (induction arbitrary: mb loopc saved buf rule: name_at.induct)
  case (root p)
  then have "length buf \<le> 255" by simp
  moreover have "takeWhile (\<lambda>b. b \<noteq> 0) buf = buf" unfolding takeWhile_eq_all_conv using root.prems(5) by metis
  ultimately show ?case using root decode_step [OF root.prems(1,2) root.hyps(1), of buf al start loopc saved]
    by (simp add: decoded_def alloc_total_def split: option.splits)
next
  case (lab p l e j t)
  note u = label_byte [OF lab.hyps(3,4)]
  let ?buf = "buf @ (if buf = [] then [] else [46]) @ l"
  have g: "glue ?buf t = glue buf (glue l t)" using lab.hyps(3) by (auto simp: glue_def)
  have len: "length l + length buf \<le> 254" using lab.prems(4) by (auto simp: glue_def split: if_splits)
  have "\<exists>mb'. dname_decode_loop al start loopc saved ?buf (mb\<lparr>mb_pos := p + 1 + length l\<rparr>) = (Inr (glue ?buf t), mb') \<and> blk mb' xs
      \<and> mb_pos mb' = (case saved of None \<Rightarrow> e | Some q \<Rightarrow> q)"
    by (rule lab.IH) (use lab.prems lab.hyps g in auto)
  then show ?case
    using decode_step [OF lab.prems(1,2), of buf al start loopc saved] lab.hyps lab.prems u len g by simp
next
  case (ptr p off e j t)
  have "hd (take 2 (drop p xs)) = xs ! p" using ptr.hyps(1) by (simp add: hd_take hd_drop_conv_nth)
  then have hd: "xs ! p = hd (be16 (of_nat off OR 0xc000))" using ptr.hyps(2) by simp
  have so: "size_add off start = off + start" using ptr.prems(7) ptr.hyps(3) by simp
  have "\<exists>mb'. dname_decode_loop al start (Suc loopc) (case saved of None \<Rightarrow> Some (p + 2) | Some q \<Rightarrow> Some q) buf (mb\<lparr>mb_pos := off + start\<rparr>)
      = (Inr (glue buf t), mb') \<and> blk mb' xs \<and> mb_pos mb' = (case (case saved of None \<Rightarrow> Some (p + 2) | Some q \<Rightarrow> Some q) of None \<Rightarrow> e | Some q \<Rightarrow> q)"
    by (rule ptr.IH) (use ptr.prems in auto)
  moreover have "length buf \<le> 255" using ptr.prems(4) by (auto simp: glue_def split: if_splits)
  ultimately show ?case
    using decode_step [OF ptr.prems(1,2), of buf al start loopc saved] ptr.hyps ptr.prems pointer_bytes [OF ptr.hyps(3)] hd so
    by (auto simp: COMP_LOOP_def split: option.splits)
qed

section \<open>The table of names\<close>

definition entries :: "dnames \<Rightarrow> dname set" where
  "entries ht = (case ht of None \<Rightarrow> {} | Some h \<Rightarrow> \<Union> (set ` set (bucket h)))"

definition dnames_ok :: "dnames \<Rightarrow> bool" where
  "dnames_ok ht \<longleftrightarrow> (case ht of None \<Rightarrow> True | Some h \<Rightarrow> bsize h \<noteq> 0 \<and> length (bucket h) = unat (bsize h))"

lemma dnames_bidx:
  assumes "dnames_ok (Some h)"
  shows "bidx h k < length (bucket h)"
proof -
  have "unat (k AND (bsize h - 1)) \<le> unat (bsize h - 1)" by (metis word_and_le1 word_le_nat_alt)
  also have "\<dots> < unat (bsize h)"
    using assms unat_gt_0 [of "bsize h"] by (simp add: dnames_ok_def unat_minus_one)
  finally show ?thesis using assms by (simp add: bidx_def dnames_ok_def)
qed

lemma casecmp_refl [simp]: "str_casecmp_eq a a"
  and casecmp_trans: "str_casecmp_eq a b \<Longrightarrow> str_casecmp_eq b c \<Longrightarrow> str_casecmp_eq a c"
  and casecmp_length: "str_casecmp_eq a b \<Longrightarrow> length a = length b"
  and casecmp_append: "str_casecmp_eq a b \<Longrightarrow> str_casecmp_eq (l @ ch # a) (l @ ch # b)"
proof -
  show "str_casecmp_eq a b \<Longrightarrow> length a = length b" unfolding str_casecmp_eq_def by (rule map_eq_imp_length_eq)
qed (simp_all add: str_casecmp_eq_def)

lemma lookup_entry:
  assumes "dnames_ok ht" and "dname_lookup ht name = Some dn"
  shows "dn \<in> entries ht" and "str_casecmp_eq (dn_name dn) name"
proof -
  obtain h where h: "ht = Some h" and f: "find (lookup_handler name) (bucket h ! bidx h (hash_joaat_str_ci name)) = Some dn"
    using assms(2) by (auto simp: dname_lookup_def hash_lookup_def split: option.splits)
  from f have "dn \<in> set (bucket h ! bidx h (hash_joaat_str_ci name))" "lookup_handler name dn"
    by (auto simp: find_Some_iff in_set_conv_nth)
  then show "dn \<in> entries ht" "str_casecmp_eq (dn_name dn) name"
    using dnames_bidx [of h "hash_joaat_str_ci name"] assms(1) h by (auto simp: entries_def lookup_handler_def intro: nth_mem)
qed

lemma append_entry:
  assumes "dname_append al ht name pos mb = (ht', mb')" and "dnames_ok ht"
  shows "dnames_ok ht'" and "\<exists>t. mb' = mb\<lparr>mb_tick := t\<rparr>"
    and "dn \<in> entries ht' \<Longrightarrow> dn \<in> entries ht \<or> dn = \<lparr>dn_name = name, dn_pos = pos\<rparr> \<and> pos \<le> 0x3fff \<and> name \<noteq> []"
proof -
  have "\<exists>t. mb = mb\<lparr>mb_tick := t\<rparr>" by (rule exI [of _ "mb_tick mb"]) simp
  then show "\<exists>t. mb' = mb\<lparr>mb_tick := t\<rparr>"
    using assms(1) by (auto simp: dname_append_def mem_alloc_def split: option.splits if_splits)
  show "dnames_ok ht'"
    using assms by (auto simp: dname_append_def mem_alloc_def dnames_ok_def hash_append_def split: option.splits if_splits)
  assume "dn \<in> entries ht'"
  then show "dn \<in> entries ht \<or> dn = \<lparr>dn_name = name, dn_pos = pos\<rparr> \<and> pos \<le> 0x3fff \<and> name \<noteq> []"
    using assms dnames_bidx
    by (auto simp: dname_append_def mem_alloc_def entries_def hash_append_def OFFSET_MASK_def split: option.splits if_splits
        dest!: subsetD [OF set_update_subset_insert])
qed

text \<open>
  The hash of a string is the hash of its bytes, so a key computed from a C string finds what was stored under the bytes; and a
  name is found whatever the case of its letters.
\<close>

lemma joaat_str_bytes: "hash_joaat_str s = hash_joaat s" "hash_joaat_str_ci s = hash_joaat_ci s"
proof -
  have "joaat_str f h s = joaat_end (foldl (\<lambda>h c. joaat_add h (f c)) h s)" for f h
    by (induction s arbitrary: h) auto
  then show "hash_joaat_str s = hash_joaat s" "hash_joaat_str_ci s = hash_joaat_ci s"
    by (simp_all add: hash_joaat_str_def hash_joaat_def hash_joaat_str_ci_def hash_joaat_ci_def id_def)
qed

lemma joaat_ci_lower: "str_casecmp_eq a b \<Longrightarrow> hash_joaat_str_ci a = hash_joaat_str_ci b"
proof -
  have "hash_joaat_ci s = hash_joaat (map lower s)" for s by (simp add: hash_joaat_ci_def hash_joaat_def foldl_map)
  then show "str_casecmp_eq a b \<Longrightarrow> hash_joaat_str_ci a = hash_joaat_str_ci b"
    by (simp add: joaat_str_bytes str_casecmp_eq_def)
qed

lemma append_found:
  assumes "dnames_ok (Some h)" and "alloc_total al" and "pos \<le> 0x3fff" and "name \<noteq> []" and "str_casecmp_eq name name'"
  shows "dname_lookup (fst (dname_append al (Some h) name pos mb)) name' \<noteq> None"
proof -
  let ?dn = "\<lparr>dn_name = name, dn_pos = pos\<rparr>" and ?k = "hash_joaat_str_ci name"
  have "fst (dname_append al (Some h) name pos mb) = Some (hash_append h ?k ?dn)"
    using assms(2-4) by (simp add: dname_append_def mem_alloc_total OFFSET_MASK_def)
  moreover have "?dn \<in> set (bucket (hash_append h ?k ?dn) ! bidx h ?k)"
    using dnames_bidx [OF assms(1)] by (simp add: hash_append_def)
  moreover have "lookup_handler name' ?dn" using assms(5) by (simp add: lookup_handler_def)
  moreover have "bidx (hash_append h ?k ?dn) ?k = bidx h ?k" by (simp add: hash_append_def)
  ultimately show ?thesis
    using joaat_ci_lower [OF assms(5)] by (auto simp: dname_lookup_def hash_lookup_def find_None_iff)
qed

text \<open>An entry of the table whose name stands where it says.\<close>

definition good :: "nat set \<Rightarrow> byte list \<Rightarrow> nat \<Rightarrow> dname \<Rightarrow> bool" where
  "good H xs start dn \<longleftrightarrow> dn_pos dn \<le> 0x3fff \<and>
     (\<exists>e j t. name_at H xs start (dn_pos dn + start) e j t \<and> str_casecmp_eq t (dn_name dn) \<and> j < length t)"

lemma good_append: "good H xs start dn \<Longrightarrow> good H (xs @ ys) start dn"
  unfolding good_def using name_at_append by blast

section \<open>The encoder\<close>

text \<open>
  The names whose labels have 1 to 63 bytes, without the final dot; \<open>n\<close> bytes of the current label are behind.
\<close>

fun labels_ok :: "nat \<Rightarrow> byte list \<Rightarrow> bool" where
  "labels_ok n [] \<longleftrightarrow> 0 < n \<and> n \<le> 63"
| "labels_ok n (c # cs) \<longleftrightarrow> (if c = 46 then 0 < n \<and> n \<le> 63 \<and> labels_ok 0 cs else c \<noteq> 0 \<and> labels_ok (Suc n) cs)"

definition name_ok :: "byte list \<Rightarrow> bool" where
  "name_ok name \<longleftrightarrow> length name \<le> 254 \<and> (name = [] \<or> labels_ok 0 name)"

lemma size_sub_le: "b \<le> a \<Longrightarrow> a < size_mod \<Longrightarrow> size_sub a b = a - b"
  by (simp add: size_sub_def size_wrap_def nat_minus_as_int [symmetric] flip: of_nat_diff)

lemma write_end:
  assumes "mbv mb (length xs) xs" and "length xs + length bs < size_mod" and "writes f bs" and "f mb = (None, mb')"
  shows "mbv mb' (length (xs @ bs)) (xs @ bs)"
  using mbv_writes [OF assms(3,1,2,4)] by simp

lemma mbv_tick: "mbv mb p xs \<Longrightarrow> mbv (mb\<lparr>mb_tick := t\<rparr>) p xs"
  by (simp add: mbv_def mbuf_ok_def mb_all_def mb_bytes_def)

lemma pointer_writes: "writes (\<lambda>mb. dname_encode_pointer al mb pos) (be16 (of_nat pos OR 0xc000))"
  using writes_prims(3) [of al "of_nat pos OR 0xc000"] by (simp add: dname_encode_pointer_def COMP_MASK_def)

text \<open>A pointer to an entry that stands where the table says.\<close>

lemma pointer_at:
  assumes "mbv mb (length xs) xs" and "length xs + 2 < size_mod" and "dname_encode_pointer al mb (dn_pos dn) = (None, mb')"
    and "good H xs start dn" and H: "H \<subseteq> {..<length xs}"
  shows "\<exists>zs j t. length zs = 2 \<and> mbv mb' (length (xs @ zs)) (xs @ zs) \<and> name_at H (xs @ zs) start (length xs) (length (xs @ zs)) j t
    \<and> str_casecmp_eq t (dn_name dn) \<and> 0 < j \<and> j \<le> length t"
proof -
  let ?zs = "be16 (of_nat (dn_pos dn) OR 0xc000)"
  obtain e j t where n: "name_at H xs start (dn_pos dn + start) e j t" "str_casecmp_eq t (dn_name dn)" "j < length t"
    and p: "dn_pos dn \<le> 0x3fff" using assms(4) by (auto simp: good_def)
  have "name_at H (xs @ ?zs) start (length xs) (length xs + 2) (Suc j) t"
    by (rule name_at.ptr [of _ _ "dn_pos dn"]) (use p name_at_append [OF n(1)] H in auto)
  then show ?thesis using write_end [OF assms(1) _ pointer_writes assms(3)] assms(2) n
    by (intro exI [of _ ?zs] exI [of _ "Suc j"] exI [of _ t]) auto
qed

text \<open>
  What the encoder has written behind \<open>ys\<close>: a name equal to \<open>name\<close> up to case, with \<open>k\<close> pointers more than it has bytes at
  most, and entries that stand where the table says, but for those of \<open>old\<close>.
\<close>

definition written :: "nat set \<Rightarrow> nat \<Rightarrow> bool \<Rightarrow> nat \<Rightarrow> byte list \<Rightarrow> byte list \<Rightarrow> dname set \<Rightarrow> dnames \<Rightarrow> mbuf \<Rightarrow> bool" where
  "written H start cmpr k ys name old ht mb \<longleftrightarrow>
     (\<exists>zs j t. mbv mb (length (ys @ zs)) (ys @ zs) \<and> length zs \<le> length name + 2 \<and>
        name_at H (ys @ zs) start (length ys) (length (ys @ zs)) j t \<and> str_casecmp_eq t name \<and> (\<not> cmpr \<longrightarrow> t = name) \<and>
        j < length t + k \<and> dnames_ok ht \<and> (\<forall>dn \<in> entries ht. good H (ys @ zs) start dn \<or> dn \<in> old))"

lemma writtenI:
  assumes "mbv mb (length (ys @ zs)) (ys @ zs)" and "length zs \<le> length name + 2"
    and "name_at H (ys @ zs) start (length ys) (length (ys @ zs)) j t" and "str_casecmp_eq t name" and "\<not> cmpr \<Longrightarrow> t = name"
    and "j < length t + k" and "dnames_ok ht" and "\<And>dn. dn \<in> entries ht \<Longrightarrow> good H (ys @ zs) start dn \<or> dn \<in> old"
  shows "written H start cmpr k ys name old ht mb"
  unfolding written_def using assms by blast

text \<open>A label in front of a name that was written.\<close>

lemma written_label:
  assumes l: "0 < length l" "length l \<le> 63" "0 \<notin> set l" and w: "written H start cmpr k (ys @ of_nat (length l) # l) name old ht mb"
    and "name \<noteq> []" and k: "k \<le> 1" and H: "H \<subseteq> {..<length ys}"
  shows "written H start cmpr 0 ys (l @ 46 # name) old ht mb"
proof -
  let ?h = "of_nat (length l) # l"
  obtain zs j t where z: "mbv mb (length (ys @ ?h @ zs)) (ys @ ?h @ zs)" "length zs \<le> length name + 2"
      "name_at H (ys @ ?h @ zs) start (length ys + 1 + length l) (length (ys @ ?h @ zs)) j t" "str_casecmp_eq t name" "\<not> cmpr \<longrightarrow> t = name"
      "j < length t + k" "dnames_ok ht" "\<forall>dn \<in> entries ht. good H (ys @ ?h @ zs) start dn \<or> dn \<in> old"
    using w by (auto simp: written_def)
  have "t \<noteq> []" using casecmp_length [OF z(4)] assms(5) by auto
  then have g: "glue l t = l @ 46 # t" using l(1) by (simp add: glue_def)
  have "name_at H (ys @ ?h @ zs) start (length ys) (length (ys @ ?h @ zs)) j (l @ 46 # t)"
    unfolding g [symmetric] by (rule name_at.lab) (use l z(3) H in auto)
  from writtenI [OF z(1) _ this casecmp_append [OF z(4)]] show ?thesis using z k by auto
qed

lemma label_stored:
  assumes "mbv mb (length ys + 1 + length l) (ys @ 0 # l)"
  shows "mbv (mem_store mb (length ys) [of_nat (length l)]) (length (ys @ of_nat (length l) # l)) (ys @ of_nat (length l) # l)"
  using mbv_store [OF assms, of "length ys" "[of_nat (length l)]"] splice_append [of "[of_nat (length l)]" "[0]" ys l] by simp

text \<open>The entry of a name is made before its bytes are written, and is right once they are.\<close>

definition pending :: "nat \<Rightarrow> byte list \<Rightarrow> byte list \<Rightarrow> dname \<Rightarrow> bool" where
  "pending start ys name dn \<longleftrightarrow> dn_name dn = name \<and> dn_pos dn + start = length ys \<and> dn_pos dn \<le> 0x3fff"

lemma written_pending:
  assumes "written H start cmpr 0 ys name (old \<union> new) ht mb" and "\<forall>dn \<in> new. pending start ys name dn"
  shows "written H start cmpr 0 ys name old ht mb"
proof -
  obtain zs j t where z: "mbv mb (length (ys @ zs)) (ys @ zs)" "length zs \<le> length name + 2"
      "name_at H (ys @ zs) start (length ys) (length (ys @ zs)) j t" "str_casecmp_eq t name" "\<not> cmpr \<longrightarrow> t = name"
      "j < length t + 0" "dnames_ok ht" "\<forall>dn \<in> entries ht. good H (ys @ zs) start dn \<or> dn \<in> old \<union> new"
    using assms(1) unfolding written_def by blast
  have "good H (ys @ zs) start dn" if "pending start ys name dn" for dn
    using that z(3,4,6) unfolding good_def pending_def by auto
  with z assms(2) show ?thesis by (intro writtenI [OF z(1-4)]) auto
qed

lemma begin_name:
  assumes v: "mbv mb (length ys) ys" and "length ys + 1 < size_mod" and "start \<le> length ys" and "dnames_ok ht"
    and a: "(if new then dname_append al ht name (size_sub (mb_pos mb) start) mb else (ht, mb)) = (ht1, mb1)"
    and w: "mbuf_write_u8 al mb1 0 = (None, mb2)"
  shows "mbv mb2 (length ys + 1) (ys @ [0])" and "dnames_ok ht1" and "\<forall>dn \<in> entries ht1 - entries ht. pending start ys name dn"
proof -
  have p: "size_sub (mb_pos mb) start = length ys - start" using assms(2,3) mbvD(2) [OF v] by (simp add: size_sub_le)
  have "\<exists>t. mb1 = mb\<lparr>mb_tick := t\<rparr>" if new using append_entry(2) [OF _ assms(4)] a that by simp
  then have "mbv mb1 (length ys) ys" using v a mbv_tick by (cases new) auto
  from write_end [OF this _ writes_prims(2) w] show "mbv mb2 (length ys + 1) (ys @ [0])" using assms(2) by simp
  show "dnames_ok ht1" using a append_entry(1) assms(4) by (cases new) auto
  show "\<forall>dn \<in> entries ht1 - entries ht. pending start ys name dn"
    using a append_entry(3) [of al ht name] assms(3,4) p by (cases new) (fastforce simp: pending_def)+
qed

lemma encode_loop_written:
  assumes "mbv mb (length ys + 1 + length l) (ys @ 0 # l)" and "0 \<notin> set l" and "labels_ok (length l) rest"
    and "length ys + length l + length rest + 3 < size_mod" and "start \<le> length ys" and "dnames_ok ht"
    and "\<forall>dn \<in> entries ht. good H ys start dn \<or> dn \<in> old \<and> length rest \<le> length (dn_name dn)"
    and "dname_encode_loop al start cmpr (length ys) rest ht mb = (None, ht', mb')" and "H \<subseteq> {..<length ys}"
  shows "written H start cmpr 0 ys (l @ rest) old ht' mb'"
  using assms
proof (induction rest arbitrary: ys l ht mb old)
  case Nil
  let ?h = "of_nat (length l) # l"
  have l: "0 < length l" "length l \<le> 63" using Nil.prems(3) by auto
  note st = label_stored [OF Nil.prems(1)]
  have pos: "size_sub (mb_pos mb) (length ys + 1) = length l" using Nil.prems(4) mbvD(2) [OF Nil.prems(1)] by (simp add: size_sub_le)
  then have w: "mbuf_write_u8 al (mem_store mb (length ys) [of_nat (length l)]) 0 = (None, mb')" and ht: "ht' = ht"
    using Nil.prems(8) l by (auto split: prod.splits)
  have v: "mbv mb' (length ((ys @ ?h) @ [0])) ((ys @ ?h) @ [0])"
    by (rule write_end [OF st _ writes_prims(2) w]) (use Nil.prems(4) in simp)
  have "name_at H (ys @ ?h @ [0]) start (length ys + 1 + length l) (length ys + 1 + length l + 1) 0 []"
    by (rule name_at.root) (use Nil.prems(9) in \<open>auto simp: nth_append\<close>)
  then have "name_at H (ys @ ?h @ [0]) start (length ys) (length ys + 1 + length l + 1) 0 (glue l [])"
    by (intro name_at.lab) (use l Nil.prems(2,9) in auto)
  then show ?case using v ht l Nil.prems(6,7) good_append by (intro writtenI [of mb' ys "?h @ [0]"]) auto
next
  case (Cons c rest)
  show ?case
  proof (cases "c = 46")
    case False
    then obtain mb1 where w: "mbuf_write_u8 al mb c = (None, mb1)"
      and r: "dname_encode_loop al start cmpr (length ys) rest ht mb1 = (None, ht', mb')"
      using Cons.prems(8) by (auto simp: Let_def split: prod.splits if_splits)
    have "mbv mb1 (length ((ys @ 0 # l) @ [c])) ((ys @ 0 # l) @ [c])"
      by (rule write_end [OF _ _ writes_prims(2) w]) (use Cons.prems(1,4) in simp_all)
    then have v: "mbv mb1 (length ys + 1 + length (l @ [c])) (ys @ 0 # (l @ [c]))" by simp
    have "written H start cmpr 0 ys ((l @ [c]) @ rest) old ht' mb'"
      by (rule Cons.IH [OF v _ _ _ Cons.prems(5,6) _ r]) (use Cons.prems False in auto)
    then show ?thesis by simp
  next
    case True
    have l: "0 < length l" "length l \<le> 63" "labels_ok 0 rest" using Cons.prems(3) True by auto
    then have ne: "rest \<noteq> []" by auto
    let ?ys = "ys @ of_nat (length l) # l" and ?mb = "mem_store mb (length ys) [of_nat (length l)]"
    note st = label_stored [OF Cons.prems(1)]
    have pos: "size_sub (mb_pos mb) (length ys + 1) = length l" using Cons.prems(4) mbvD(2) [OF Cons.prems(1)] by (simp add: size_sub_le)
    have cap: "length ?ys + length rest + 3 < size_mod" "start \<le> length ?ys" and H: "H \<subseteq> {..<length ?ys}"
      using Cons.prems(4,5,9) by auto
    have old: "good H ?ys start dn \<or> dn \<in> old \<and> Suc (length rest) \<le> length (dn_name dn)" if "dn \<in> entries ht" for dn
      using Cons.prems(7) that good_append by fastforce
    have "\<exists>k \<le> 1. written H start cmpr k ?ys rest old ht' mb'"
    proof (cases "dname_lookup ht rest \<noteq> None \<and> cmpr")
      case cached: True
      then obtain dn where dn: "dname_lookup ht rest = Some dn" cmpr by auto
      note e = lookup_entry [OF Cons.prems(6) dn(1)]
      have g: "good H ?ys start dn" using old [OF e(1)] casecmp_length [OF e(2)] by auto
      have p: "dname_encode_pointer al ?mb (dn_pos dn) = (None, mb')" and ht: "ht' = ht"
        using Cons.prems(8) True pos l(1) dn by (auto simp: Let_def split: prod.splits)
      obtain zs j t where z: "length zs = 2" "mbv mb' (length (?ys @ zs)) (?ys @ zs)" "name_at H (?ys @ zs) start (length ?ys) (length (?ys @ zs)) j t"
          "str_casecmp_eq t (dn_name dn)" "j \<le> length t"
        using pointer_at [OF st _ p g H] cap(1) by auto
      have "written H start cmpr 1 ?ys rest old ht' mb'"
        by (rule writtenI [OF z(2) _ z(3) casecmp_trans [OF z(4) e(2)]])
          (use z(1,5) dn(2) ht Cons.prems(6) old good_append [of H ?ys start _ zs] in auto)
      then show ?thesis by auto
    next
      case fresh: False
      obtain ht1 mb1 mb2 where a: "(if dname_lookup ht rest = None then dname_append al ht rest (size_sub (mb_pos ?mb) start) ?mb else (ht, ?mb)) = (ht1, mb1)"
        and w: "mbuf_write_u8 al mb1 0 = (None, mb2)"
        and r: "dname_encode_loop al start cmpr (length ?ys) rest ht1 mb2 = (None, ht', mb')"
        using Cons.prems(8) True pos l(1) fresh mbvD(2) [OF st] by (fastforce simp: Let_def split: prod.splits if_splits)
      note b = begin_name [OF st _ cap(2) Cons.prems(6) a w]
      have new: "good H ?ys start dn \<or> dn \<in> old \<union> (entries ht1 - entries ht) \<and> length rest \<le> length (dn_name dn)" if "dn \<in> entries ht1" for dn
        using old [of dn] b(3) that cap(1) by (cases "dn \<in> entries ht") (auto simp: pending_def)
      have "written H start cmpr 0 ?ys ([] @ rest) (old \<union> (entries ht1 - entries ht)) ht' mb'"
        by (rule Cons.IH [OF _ _ _ _ cap(2) _ _ r]) (use b cap(1) l(3) new H in auto)
      then have "written H start cmpr 0 ?ys rest old ht' mb'" using written_pending b(3) cap(1) by simp
      then show ?thesis by auto
    qed
    then show ?thesis using written_label [OF l(1,2) Cons.prems(2) _ ne _ Cons.prems(9)] True by blast
  qed
qed

lemma encode_written:
  assumes v: "mbv mb (length xs) xs" and cap: "length xs + length name + 3 < size_mod" and "start \<le> length xs" and "dnames_ok ht"
    and g: "\<forall>dn \<in> entries ht. good H xs start dn" and "name_ok name" and e: "dns_dname_encode al mb name ht start cmpr = (None, ht', mb')"
    and H: "H \<subseteq> {..<length xs}"
  shows "written H start cmpr 1 xs name {} ht' mb'"
proof (cases "dname_lookup ht name \<noteq> None \<and> cmpr")
  case True
  then obtain dn where dn: "dname_lookup ht name = Some dn" cmpr by auto
  note d = lookup_entry [OF assms(4) dn(1)]
  have p: "dname_encode_pointer al mb (dn_pos dn) = (None, mb')" and ht: "ht' = ht"
    using e dn by (auto simp: dns_dname_encode_def Let_def split: prod.splits)
  obtain zs j t where z: "length zs = 2" "mbv mb' (length (xs @ zs)) (xs @ zs)" "name_at H (xs @ zs) start (length xs) (length (xs @ zs)) j t"
      "str_casecmp_eq t (dn_name dn)" "j \<le> length t"
    using pointer_at [OF v _ p bspec [OF g d(1)]] cap H by auto
  show ?thesis
    by (rule writtenI [OF z(2) _ z(3) casecmp_trans [OF z(4) d(2)]]) (use z(1,5) dn(2) ht assms(4) g good_append in auto)
next
  case False
  obtain ht1 mb1 mb2 where a: "(if dname_lookup ht name = None then dname_append al ht name (size_sub (mb_pos mb) start) mb else (ht, mb)) = (ht1, mb1)"
    and w: "mbuf_write_u8 al mb1 0 = (None, mb2)"
    and r: "name \<noteq> [46] \<longrightarrow> dname_encode_loop al start cmpr (length xs) name ht1 mb2 = (None, ht', mb')"
    using e False mbvD(2) [OF v] by (fastforce simp: dns_dname_encode_def Let_def split: prod.splits if_splits)
  have ne: "name \<noteq> [46]" using \<open>name_ok name\<close> by (auto simp: name_ok_def)
  note b = begin_name [OF v _ assms(3,4) a w]
  show ?thesis
  proof (cases "name = []")
    case True
    have pos: "size_sub (mb_pos mb2) (length xs + 1) = 0" using b(1) cap mbvD(2) by (simp add: size_sub_le)
    then have "mb' = mb2" "ht' = ht1" using r True ne by (auto split: prod.splits)
    moreover have "name_at H (xs @ [0]) start (length xs) (length xs + 1) 0 []" by (rule name_at.root) (use H in auto)
    moreover have "ht1 = ht" using a True by (auto simp: dname_append_def split: option.splits if_splits)
    ultimately show ?thesis using b cap g good_append True by (intro writtenI [of mb' xs "[0]"]) auto
  next
    case nonempty: False
    have "written H start cmpr 0 xs ([] @ name) ({} \<union> (entries ht1 - entries ht)) ht' mb'"
      by (rule encode_loop_written) (use b cap g r ne nonempty H assms(3) \<open>name_ok name\<close> in \<open>auto simp: pending_def name_ok_def\<close>)
    then have "written H start cmpr 0 xs name {} ht' mb'" using written_pending b(3) cap by simp
    then show ?thesis unfolding written_def by fastforce
  qed
qed

text \<open>With memory, a name that is well formed is written.\<close>

lemma write_pos:
  assumes "alloc_total al"
  obtains mb' where "put al mb bs = (None, mb')" "mb_pos mb' = size_add (mb_pos mb) (length bs)"
proof -
  obtain e m where g: "mbuf_grow al mb (size_add (mb_pos mb) (length bs)) = (e, m)" by fastforce
  have "mb_pos (snd (mbuf_resize al mb k)) = mb_pos mb" for k by (simp add: mbuf_resize_def split: option.split)
  then have "mb_pos (snd (mbuf_grow al mb k)) = mb_pos mb" for k by (simp add: mbuf_grow_def Let_def)
  then have "mb_pos m = mb_pos mb" using g by (metis snd_conv)
  moreover have "e = None" using write_total [OF assms, of mb bs] g by (cases e) (simp_all add: mbuf_write_mem_def)
  ultimately show ?thesis using that [of "mbuf_put m bs"] g by (simp add: mbuf_write_mem_def mbuf_put_def mem_store_def Let_def)
qed

lemma append_pos: "mb_pos (snd (dname_append al ht name pos mb)) = mb_pos mb"
  by (auto simp: dname_append_def mem_alloc_def split: option.split)

lemma encode_loop_total:
  assumes "alloc_total al" and "labels_ok n rest" and "mb_pos mb = pos + 1 + n" and "pos + n + length rest + 3 < size_mod"
  shows "fst (dname_encode_loop al start cmpr pos rest ht mb) = None"
  using assms
proof (induction rest arbitrary: n pos ht mb)
  case Nil
  then show ?case using write_total [OF assms(1)] by (simp add: Let_def write_u8 case_prod_beta)
next
  case (Cons c rest)
  have l: "size_sub (mb_pos mb) (pos + 1) = n" using Cons.prems(3,4) by (simp add: size_sub_le)
  show ?case
  proof (cases "c = 46")
    case False
    obtain mb1 where w: "put al mb [c] = (None, mb1)" "mb_pos mb1 = size_add (mb_pos mb) 1"
      using write_pos [OF assms(1), of mb "[c]"] by auto
    have "fst (dname_encode_loop al start cmpr pos rest ht mb1) = None"
      by (rule Cons.IH [OF assms(1), of "Suc n"]) (use w(2) Cons.prems(2-4) False in auto)
    then show ?thesis using False w(1) by (simp add: Let_def write_u8)
  next
    case True
    let ?mb = "mem_store mb pos [of_nat n]"
    have st: "mb_pos ?mb = mb_pos mb" by (simp add: mem_store_def)
    have n: "0 < n" "labels_ok 0 rest" using Cons.prems(2) True by auto
    obtain ht1 mb1 where a: "(if dname_lookup ht rest = None then dname_append al ht rest (size_sub (mb_pos ?mb) start) ?mb else (ht, ?mb)) = (ht1, mb1)"
      by fastforce
    then have p1: "mb_pos mb1 = mb_pos mb" using append_pos [of al ht rest "size_sub (mb_pos ?mb) start" ?mb] st by (auto split: if_splits)
    obtain mb2 where w: "put al mb1 [0] = (None, mb2)" "mb_pos mb2 = size_add (mb_pos mb1) 1"
      using write_pos [OF assms(1), of mb1 "[0]"] by auto
    have "fst (dname_encode_loop al start cmpr (mb_pos mb) rest ht1 mb2) = None"
      by (rule Cons.IH [OF assms(1) n(2)]) (use w(2) p1 Cons.prems(3,4) in auto)
    moreover have "fst (dname_encode_pointer al ?mb p) = None" for p
      using write_total [OF assms(1)] by (simp add: dname_encode_pointer_def write_be)
    ultimately show ?thesis using True l n(1) a w(1) st by (auto simp: Let_def write_u8 case_prod_beta)
  qed
qed

lemma name_encode_total:
  assumes al: "alloc_total al" and "name_ok name" and "mb_pos mb + length name + 3 < size_mod"
  shows "fst (dns_dname_encode al mb name ht start cmpr) = None"
proof -
  obtain ht1 mb1 where a: "(if dname_lookup ht name = None then dname_append al ht name (size_sub (mb_pos mb) start) mb else (ht, mb)) = (ht1, mb1)"
    by fastforce
  then have p1: "mb_pos mb1 = mb_pos mb" using append_pos [of al ht name "size_sub (mb_pos mb) start" mb] by (auto split: if_splits)
  obtain mb2 where w: "put al mb1 [0] = (None, mb2)" "mb_pos mb2 = size_add (mb_pos mb1) 1"
    using write_pos [OF al, of mb1 "[0]"] by auto
  have "fst (dname_encode_loop al start cmpr (mb_pos mb) name ht1 mb2) = None"
  proof (cases "name = []")
    case True
    then show ?thesis using w(2) p1 assms(3) by (simp add: size_sub_le)
  next
    case False
    then show ?thesis using encode_loop_total [OF al, of 0 name mb2 "mb_pos mb"] w(2) p1 assms(2,3) by (simp add: name_ok_def)
  qed
  moreover have "fst (dname_encode_pointer al mb p) = None" for p
    using write_total [OF al] by (simp add: dname_encode_pointer_def write_be)
  ultimately show ?thesis using a w(1) by (auto simp: dns_dname_encode_def Let_def write_u8 case_prod_beta)
qed

section \<open>Names of a message\<close>

fun encode_names :: "alloc \<Rightarrow> nat \<Rightarrow> bool \<Rightarrow> byte list list \<Rightarrow> dnames \<Rightarrow> mbuf \<Rightarrow> errno option \<times> dnames \<times> mbuf" where
  "encode_names al start cmpr [] ht mb = (None, ht, mb)"
| "encode_names al start cmpr (name # names) ht mb =
     (case dns_dname_encode al mb name ht start cmpr of
        (Some err, ht, mb) \<Rightarrow> (Some err, ht, mb)
      | (None, ht, mb) \<Rightarrow> encode_names al start cmpr names ht mb)"

fun decode_names :: "alloc \<Rightarrow> nat \<Rightarrow> nat \<Rightarrow> mbuf \<Rightarrow> (errno + byte list list) \<times> mbuf" where
  "decode_names al start 0 mb = (Inr [], mb)"
| "decode_names al start (Suc n) mb =
     (case dns_dname_decode al mb start of
        (Inl err, mb) \<Rightarrow> (Inl err, mb)
      | (Inr name, mb) \<Rightarrow>
          (case decode_names al start n mb of (Inl err, mb) \<Rightarrow> (Inl err, mb) | (Inr names, mb) \<Rightarrow> (Inr (name # names), mb)))"

text \<open>The names that stand one after the other from \<open>p\<close> to the end.\<close>

fun names_at :: "nat set \<Rightarrow> byte list \<Rightarrow> nat \<Rightarrow> nat \<Rightarrow> byte list list \<Rightarrow> bool" where
  "names_at H xs start p [] \<longleftrightarrow> p = length xs"
| "names_at H xs start p (t # ts) \<longleftrightarrow> (\<exists>e j. name_at H xs start p e j t \<and> j \<le> 256 \<and> length t \<le> 254 \<and> names_at H xs start e ts)"

lemma decode_names_at:
  assumes "names_at H xs start p ts" and "blk mb xs" and "mb_pos mb = p" and "alloc_total al" and "start + 0x3fff < size_mod"
  shows "\<exists>mb'. decode_names al start (length ts) mb = (Inr ts, mb') \<and> mb_pos mb' = length xs"
  using assms
proof (induction ts arbitrary: p mb)
  case Nil
  then show ?case by simp
next
  case (Cons t ts)
  then obtain e j where n: "name_at H xs start p e j t" "j \<le> 256" "length t \<le> 254" "names_at H xs start e ts" by auto
  obtain mb1 where d: "dns_dname_decode al mb start = (Inr t, mb1)" "blk mb1 xs" "mb_pos mb1 = e"
    using decode_name_at [OF n(1) Cons.prems(2,3), of 0 "[]" al None] n Cons.prems by (auto simp: dns_dname_decode_def)
  then show ?case using Cons.IH [OF n(4) d(2,3) Cons.prems(4,5)] by auto
qed

lemma encode_names_at:
  assumes "mbv mb (length xs) xs" and "length xs + sum_list (map (\<lambda>n. length n + 3) names) < size_mod" and "start \<le> length xs"
    and "dnames_ok ht" and "\<forall>dn \<in> entries ht. good H xs start dn" and "list_all name_ok names"
    and "H \<subseteq> {..<length xs}" and al: "alloc_total al"
  shows "\<exists>ht' mb' zs ts. encode_names al start cmpr names ht mb = (None, ht', mb') \<and> mbv mb' (length (xs @ zs)) (xs @ zs) \<and>
    names_at H (xs @ zs) start (length xs) ts \<and> list_all2 str_casecmp_eq ts names \<and> (\<not> cmpr \<longrightarrow> ts = names)"
  using assms(1-7)
proof (induction names arbitrary: xs ht mb)
  case Nil
  then show ?case by (auto intro!: exI [of _ "[]"])
next
  case (Cons name names)
  have ok: "name_ok name" "length name \<le> 254" using Cons.prems(6) by (auto simp: name_ok_def)
  have "fst (dns_dname_encode al mb name ht start cmpr) = None"
    by (rule name_encode_total [OF al ok(1)]) (use Cons.prems(2) mbvD(2) [OF Cons.prems(1)] in simp)
  then obtain ht1 mb1 where e: "dns_dname_encode al mb name ht start cmpr = (None, ht1, mb1)"
    by (cases "dns_dname_encode al mb name ht start cmpr") auto
  have "written H start cmpr 1 xs name {} ht1 mb1"
    by (rule encode_written [OF Cons.prems(1) _ Cons.prems(3-5) ok(1) e _]) (use Cons.prems(2,7) in simp_all)
  then obtain ys j t where y: "mbv mb1 (length (xs @ ys)) (xs @ ys)" "length ys \<le> length name + 2"
      "name_at H (xs @ ys) start (length xs) (length (xs @ ys)) j t" "str_casecmp_eq t name" "\<not> cmpr \<longrightarrow> t = name" "j < length t + 1"
      "dnames_ok ht1" "\<forall>dn \<in> entries ht1. good H (xs @ ys) start dn"
    unfolding written_def by blast
  have H: "H \<subseteq> {..<length (xs @ ys)}" using Cons.prems(7) by auto
  obtain ht' mb' zs ts where z: "encode_names al start cmpr names ht1 mb1 = (None, ht', mb')" "mbv mb' (length ((xs @ ys) @ zs)) ((xs @ ys) @ zs)"
      "names_at H ((xs @ ys) @ zs) start (length (xs @ ys)) ts" "list_all2 str_casecmp_eq ts names" "\<not> cmpr \<longrightarrow> ts = names"
    using Cons.IH [OF y(1) _ _ y(7,8) _ H] Cons.prems(2,3,6) y(2) by auto
  have "names_at H (xs @ ys @ zs) start (length xs) (t # ts)"
    unfolding names_at.simps
    by (rule exI [of _ "length (xs @ ys)"], rule exI [of _ j])
      (use name_at_append [OF y(3), of zs] z(3) y(6) casecmp_length [OF y(4)] ok(2) in auto)
  then show ?case using z y e
    by (intro exI [of _ ht'] exI [of _ mb'] exI [of _ "ys @ zs"] exI [of _ "t # ts"]) auto
qed

lemma fresh_table:
  assumes "hash_alloc m1 m2 n = Inr h"
  shows "dnames_ok (Some h)" and "entries (Some h) = {}"
  using assms by (auto simp: hash_alloc_def dnames_ok_def entries_def split: if_splits)

text \<open>C25:
  Names with labels of 1 to 63 bytes and at most 254 bytes in all, without zero byte and without a dot at the end, are written one
  after the other behind the bytes of a buffer, with a fresh table: with memory, and while they fit in \<open>size_t\<close>, this never fails, and
  whatever pointers the encoder put in, the decoder reads the same names back, up to the case of letters, and stops where the last one ends; without
  compression the names come back exactly. Pointers never point to a name that is not there yet, and the limit on
  the number of pointers is never met.
\<close>

theorem dns_names_roundtrip:
  assumes "mbuf_ok mb" and "mb_after mb = []" and "start \<le> mb_pos mb" and "start + 0x3fff < size_mod"
    and "mb_pos mb + sum_list (map (\<lambda>n. length n + 3) names) < size_mod" and "list_all name_ok names"
    and "hash_alloc m1 m2 n = Inr h" and "alloc_total al" and "alloc_total al2"
  shows "\<exists>ht mb1 names' mb2. encode_names al start cmpr names (Some h) mb = (None, ht, mb1)
    \<and> decode_names al2 start (length names) (mbuf_set_pos mb1 (mb_pos mb)) = (Inr names', mb2)
    \<and> list_all2 str_casecmp_eq names' names \<and> mb_pos mb2 = mb_end mb1 \<and> (\<not> cmpr \<longrightarrow> names' = names)"
proof -
  let ?xs = "mb_before mb"
  have l: "length ?xs = mb_pos mb" using assms(1) by simp
  have v: "mbv mb (length ?xs) ?xs" using mbvI [OF assms(1)] assms(2) l by simp
  obtain ht mb1 zs ts where z: "encode_names al start cmpr names (Some h) mb = (None, ht, mb1)" "mbv mb1 (length (?xs @ zs)) (?xs @ zs)"
      "names_at {} (?xs @ zs) start (length ?xs) ts" "list_all2 str_casecmp_eq ts names" "\<not> cmpr \<longrightarrow> ts = names"
    using encode_names_at [OF v _ _ fresh_table(1) [OF assms(7)] _ assms(6) _ assms(8), of start "{}" cmpr] fresh_table(2) [OF assms(7)] assms(3,5) l
    by auto
  have "blk (mbuf_set_pos mb1 (mb_pos mb)) (?xs @ zs)" using mbv_blk [OF z(2)] by (simp add: mbuf_set_pos_def)
  from decode_names_at [OF z(3) this _ assms(9,4)] show ?thesis
    using z l mbvD(3) [OF z(2)] list_all2_lengthD [OF z(4)] by (auto simp: mbuf_set_pos_def)
qed

text \<open>The names \<open>a.b\<close> and \<open>c.A.B\<close>; the second is written as a label and a pointer to the first.\<close>

definition demo_names :: "byte list list" where
  "demo_names = [[97, 46, 98], [99, 46, 65, 46, 66]]"

definition demo_table :: "dname hash" where
  "demo_table = \<lparr>bucket = [[]], bsize = 1\<rparr>"

definition demo_mb :: mbuf where
  "demo_mb = \<lparr>mb_buf = Some (replicate 12 0), mb_size = 12, mb_pos = 0, mb_end = 0, mb_tick = 0, mb_ub = False\<rparr>"

lemma demo_pointer: "word_bytes 2 (htons 0xc000) = [0xc0, 0]"
  by code_simp

lemma demo_encoded:
  "case encode_names al_zero 0 True demo_names (Some demo_table) demo_mb of
     (err, ht, mb) \<Rightarrow> mb_all mb = [1, 97, 1, 98, 0, 1, 99, 0xc0, 0]"
  by (simp add: demo_names_def demo_table_def demo_mb_def dns_dname_encode_def dname_lookup_def hash_lookup_def bidx_def
      lookup_handler_def str_casecmp_eq_def lower_def dname_append_def mem_alloc_def al_zero_def hash_append_def write_u8
      mbuf_write_mem_def mbuf_grow_def mbuf_put_def mem_store_def splice_def mb_bytes_def size_sub_def size_wrap_def size_add_def
      size_mod_def dname_encode_pointer_def mbuf_write_u16_def OFFSET_MASK_def COMP_MASK_def mb_all_def Let_def demo_pointer)

lemma demo_ok:
  "mbuf_ok demo_mb" "mb_after demo_mb = []" "mb_pos demo_mb = 0" "hash_alloc True True 1 = Inr demo_table"
  by (simp_all add: demo_mb_def mbuf_ok_def mb_after_def mb_bytes_def size_mod_def hash_alloc_def demo_table_def)

theorem dns_names_roundtrip_witness:
  "\<exists>ht mb names' mb2. encode_names al_zero 0 True demo_names (Some demo_table) demo_mb = (None, ht, mb)
     \<and> mb_all mb = [1, 97, 1, 98, 0, 1, 99, 0xc0, 0]
     \<and> decode_names al_zero 0 2 (mbuf_set_pos mb 0) = (Inr names', mb2) \<and> list_all2 str_casecmp_eq names' demo_names"
proof -
  have "list_all name_ok demo_names" by code_simp
  moreover have "length demo_names = 2" by (simp add: demo_names_def)
  moreover have "sum_list (map (\<lambda>n. length n + 3) demo_names) < size_mod" by (simp add: demo_names_def size_mod_def)
  moreover have "(0x3fff :: nat) < size_mod" by (simp add: size_mod_def)
  ultimately obtain ht mb names' mb2 where r: "encode_names al_zero 0 True demo_names (Some demo_table) demo_mb = (None, ht, mb)"
      "decode_names al_zero 0 2 (mbuf_set_pos mb 0) = (Inr names', mb2)" "list_all2 str_casecmp_eq names' demo_names"
    using dns_names_roundtrip [OF demo_ok(1,2) _ _ _ _ demo_ok(4) al_zero_total al_zero_total, of 0 demo_names True]
    unfolding demo_ok(3) by auto
  moreover have "mb_all mb = [1, 97, 1, 98, 0, 1, 99, 0xc0, 0]" using demo_encoded unfolding r(1) by simp
  ultimately show ?thesis by blast
qed

text \<open>
  The decoder on any buffer: it always returns, it loads no byte outside the block and stores none outside its array of 256
  bytes, it changes nothing but the cursor, and a name it gives has at most 255 bytes and ends behind the place where it began and
  within the buffer. Its only errors are \<open>EINVAL\<close> and \<open>ENOMEM\<close>.
\<close>

lemma decode_frame:
  assumes "mbuf_ok mb"
  shows "case dns_dname_decode al mb start of
      (Inl err, mb') \<Rightarrow> (err = EINVAL \<or> err = ENOMEM) \<and> (\<exists>q t. mb' = mb\<lparr>mb_pos := q, mb_tick := t\<rparr>)
    | (Inr name, mb') \<Rightarrow> length name \<le> 255 \<and> reads mb mb' \<and> mb_pos mb < mb_pos mb'"
proof -
  have b: "blk mb (mb_all mb)" "length (mb_all mb) = mb_end mb"
    using mbv_blk [OF mbvI [OF assms]] mb_all_split [OF assms] length_mb_all [OF assms] by simp_all
  have "decode_ok (mb_pos mb) (mb_all mb) mb (dns_dname_decode al mb start)"
    unfolding dns_dname_decode_def by (rule decode_loop_safe [OF b(1)]) simp_all
  then obtain r q t where d: "dns_dname_decode al mb start = (r, mb\<lparr>mb_pos := q, mb_tick := t\<rparr>)"
      "case r of Inl e \<Rightarrow> e = EINVAL \<or> e = ENOMEM | Inr name \<Rightarrow> length name \<le> 255 \<and> mb_pos mb < q \<and> q \<le> length (mb_all mb)"
    by (cases "dns_dname_decode al mb start") (auto simp: decode_ok_def)
  then show ?thesis using assms b(2)
    by (cases r) (auto simp: reads_def mbuf_ok_def mb_bytes_def)
qed

text \<open>
  The encoder does not check the length of labels. One of 256 bytes is written without an error, with the length byte 0, and
  the decoder takes it for the empty name.
\<close>

lemma encode_long:
  assumes "mbv mb (length ys + 1 + length l) (ys @ 0 # l)" and "46 \<notin> set rest" and "0 < length l + length rest"
    and "length ys + length l + length rest + 2 < size_mod" and "alloc_total al"
  shows "\<exists>mb'. dname_encode_loop al start cmpr (length ys) rest None mb = (None, None, mb') \<and>
    blk mb' (ys @ of_nat (length (l @ rest)) # (l @ rest) @ [0])"
  using assms
proof (induction rest arbitrary: l mb)
  case Nil
  let ?mb = "mem_store mb (length ys) [of_nat (length l)]"
  note st = label_stored [OF Nil.prems(1)]
  obtain mb' where w: "mbuf_write_u8 al ?mb 0 = (None, mb')"
    using write_total [OF Nil.prems(5), of ?mb "[0]"] by (cases "mbuf_write_u8 al ?mb 0") (simp add: write_u8)
  from write_end [OF st _ writes_prims(2) w] Nil.prems(4) have "blk mb' ((ys @ of_nat (length l) # l) @ [0])"
    by (intro mbv_blk) simp
  moreover have "size_sub (mb_pos mb) (length ys + 1) = length l" using Nil.prems(4) mbvD(2) [OF Nil.prems(1)] by (simp add: size_sub_le)
  ultimately show ?case using w Nil.prems(3) by simp
next
  case (Cons c rest)
  obtain mb1 where w: "mbuf_write_u8 al mb c = (None, mb1)"
    using write_total [OF Cons.prems(5), of mb "[c]"] by (cases "mbuf_write_u8 al mb c") (simp add: write_u8)
  have "mbv mb1 (length ((ys @ 0 # l) @ [c])) ((ys @ 0 # l) @ [c])"
    by (rule write_end [OF _ _ writes_prims(2) w]) (use Cons.prems(1,4) in simp_all)
  then have v: "mbv mb1 (length ys + 1 + length (l @ [c])) (ys @ 0 # (l @ [c]))" by simp
  have "\<exists>mb'. dname_encode_loop al start cmpr (length ys) rest None mb1 = (None, None, mb') \<and>
      blk mb' (ys @ of_nat (length ((l @ [c]) @ rest)) # ((l @ [c]) @ rest) @ [0])"
    by (rule Cons.IH [OF v]) (use Cons.prems in auto)
  then show ?case using w Cons.prems(2) by (auto simp: Let_def)
qed

text \<open>
  A domain name of one label of 256 bytes is accepted by the encoder, which has no limit of 63 bytes for a label: the
  length byte becomes 0 and the decoder reads the empty name, with the label left over behind it.
\<close>

theorem dns_long_label:
  assumes "length name = 256" and "46 \<notin> set name" and "alloc_total al"
  shows "\<exists>mb. dns_dname_encode al (mbuf_of []) name None 0 cmpr = (None, None, mb) \<and>
    (\<exists>mb'. dns_dname_decode al (mbuf_set_pos mb 0) 0 = (Inr [], mb') \<and> mb_pos mb' = 1 \<and> mb_end mb' = 258)"
proof -
  have v: "mbv (mbuf_of []) (length []) []" by (simp add: mbv_def mbuf_of_def mbuf_ok_def mb_all_def mb_bytes_def size_mod_def)
  obtain mb1 where w: "mbuf_write_u8 al (mbuf_of []) 0 = (None, mb1)"
    using write_total [OF assms(3), of "mbuf_of []" "[0]"] by (cases "mbuf_write_u8 al (mbuf_of []) 0") (simp add: write_u8)
  from write_end [OF v _ writes_prims(2) w] have "mbv mb1 (length [] + 1 + length []) ([] @ 0 # [])" by (simp add: size_mod_def)
  from encode_long [OF this assms(2) _ _ assms(3), of 0 cmpr] obtain mb
    where e: "dname_encode_loop al 0 cmpr 0 name None mb1 = (None, None, mb)" and "blk mb (of_nat (length name) # name @ [0])"
    using assms(1) by (auto simp: size_mod_def)
  moreover have "(of_nat (length name) :: byte) = 0" unfolding assms(1) by code_simp
  ultimately have b: "blk mb (0 # name @ [0])" by simp
  have "name \<noteq> [46]" using assms(1) by auto
  then have enc: "dns_dname_encode al (mbuf_of []) name None 0 cmpr = (None, None, mb)"
    using w e by (simp add: dns_dname_encode_def dname_lookup_def dname_append_def mbuf_of_def)
  have "blk (mbuf_set_pos mb 0) (0 # name @ [0])" using b by (simp add: mbuf_set_pos_def)
  from decode_step [OF this, of 0 "[]" al 0 0 None] have "dns_dname_decode al (mbuf_set_pos mb 0) 0 = decoded al [] (mb\<lparr>mb_pos := 1\<rparr>)"
    by (simp add: dns_dname_decode_def mbuf_set_pos_def)
  then show ?thesis using enc blk_end(1) [OF b] assms by (auto simp: decoded_def alloc_total_def)
qed

theorem dns_long_label_witness:
  "\<exists>mb. dns_dname_encode al_zero (mbuf_of []) (replicate 256 97) None 0 True = (None, None, mb) \<and>
    (\<exists>mb'. dns_dname_decode al_zero (mbuf_set_pos mb 0) 0 = (Inr [], mb') \<and> mb_pos mb' = 1 \<and> mb_end mb' = 258)"
  by (rule dns_long_label) (simp_all add: al_zero_total)

end
