(* ===== verification/Dns_Rr.thy ===== *)
theory Dns_Rr
  imports Dns_Name
begin

text \<open>
  DNS headers, character strings and resource records, \<open>re/src/dns/hdr.c\<close>, \<open>cstr.c\<close> and \<open>rr.c\<close>.

  The union \<open>rdata\<close> and the field \<open>type\<close> that selects its member are one datatype; \<open>R_other\<close> is a type the code does
  not know. Strings are not NULL. The encoder of text records need not return: its result is an option.

  \<open>field\<close> lists the pieces of a record, fixed bytes and names. The encoder is shown to write them one after the other, and the
  decoder to read them back.
\<close>

section \<open>Header\<close>

record dnshdr =
  hdr_id :: u16
  hdr_qr :: bool
  hdr_opcode :: u8
  hdr_aa :: bool
  hdr_tc :: bool
  hdr_rd :: bool
  hdr_ra :: bool
  hdr_z :: u8
  hdr_rcode :: u8
  hdr_nq :: u16
  hdr_nans :: u16
  hdr_nauth :: u16
  hdr_nadd :: u16

definition DNS_HEADER_SIZE :: nat where "DNS_HEADER_SIZE = 12"

definition hdr_flags :: "dnshdr \<Rightarrow> u16" where
  "hdr_flags hdr =
     push_bit 15 (of_bool (hdr_qr hdr)) OR push_bit 11 (ucast (hdr_opcode hdr)) OR push_bit 10 (of_bool (hdr_aa hdr)) OR
     push_bit 9 (of_bool (hdr_tc hdr)) OR push_bit 8 (of_bool (hdr_rd hdr)) OR push_bit 7 (of_bool (hdr_ra hdr)) OR
     push_bit 4 (ucast (hdr_z hdr)) OR ucast (hdr_rcode hdr)"

definition dns_hdr_encode :: "alloc \<Rightarrow> mbuf \<Rightarrow> dnshdr \<Rightarrow> errno option \<times> mbuf" where
  "dns_hdr_encode al mb hdr =
     also_err (also_err (also_err (also_err (also_err
       (mbuf_write_u16 al mb (htons (hdr_id hdr)))
       (\<lambda>mb. mbuf_write_u16 al mb (htons (hdr_flags hdr))))
       (\<lambda>mb. mbuf_write_u16 al mb (htons (hdr_nq hdr))))
       (\<lambda>mb. mbuf_write_u16 al mb (htons (hdr_nans hdr))))
       (\<lambda>mb. mbuf_write_u16 al mb (htons (hdr_nauth hdr))))
       (\<lambda>mb. mbuf_write_u16 al mb (htons (hdr_nadd hdr)))"

definition dns_hdr_decode :: "mbuf \<Rightarrow> (errno + dnshdr) \<times> mbuf" where
  "dns_hdr_decode mb =
     (if mbuf_get_left mb < DNS_HEADER_SIZE then (Inl EINVAL, mb)
      else
        (let (i, mb) = read_be16 mb; (flags, mb) = read_be16 mb; (nq, mb) = read_be16 mb; (nans, mb) = read_be16 mb;
             (nauth, mb) = read_be16 mb; (nadd, mb) = read_be16 mb
         in (Inr \<lparr>hdr_id = i, hdr_qr = bit flags 15, hdr_opcode = 0xf AND ucast (drop_bit 11 flags), hdr_aa = bit flags 10,
               hdr_tc = bit flags 9, hdr_rd = bit flags 8, hdr_ra = bit flags 7, hdr_z = 0x7 AND ucast (drop_bit 4 flags),
               hdr_rcode = 0xf AND ucast flags, hdr_nq = nq, hdr_nans = nans, hdr_nauth = nauth, hdr_nadd = nadd\<rparr>, mb)))"

section \<open>Character strings\<close>

definition dns_cstr_encode :: "alloc \<Rightarrow> mbuf \<Rightarrow> byte list \<Rightarrow> errno option \<times> mbuf" where
  "dns_cstr_encode al mb str =
     (let len = of_nat (length str) :: u8 in
      also_err (mbuf_write_u8 al mb len) (\<lambda>mb. mbuf_write_mem al mb (Some (take (unat len) str))))"

definition cstring :: "byte list \<Rightarrow> byte list" where
  "cstring bs = takeWhile (\<lambda>b. b \<noteq> 0) bs"

definition dns_cstr_decode :: "alloc \<Rightarrow> mbuf \<Rightarrow> (errno + byte list) \<times> mbuf" where
  "dns_cstr_decode al mb =
     (if mbuf_get_left mb < 1 then (Inl EINVAL, mb)
      else
        (case mbuf_read_u8 mb of (len, mb) \<Rightarrow>
           if mbuf_get_left mb < unat len then (Inl EBADMSG, mb)
           else
             (case mbuf_strdup al mb (unat len) of
                (Some err, _, mb) \<Rightarrow> (Inl err, mb)
              | (None, str, mb) \<Rightarrow> (Inr (cstring (the str)), mb))))"

section \<open>Resource records\<close>

datatype rdata =
    R_A u32
  | R_NS "byte list"
  | R_CNAME "byte list"
  | R_SOA "byte list" "byte list" u32 u32 u32 u32 u32
  | R_PTR "byte list"
  | R_MX u16 "byte list"
  | R_TXT "byte list"
  | R_AAAA "byte list"
  | R_SRV u16 u16 u16 "byte list"
  | R_NAPTR u16 u16 "byte list" "byte list" "byte list" "byte list"
  | R_other u16

fun rd_type :: "rdata \<Rightarrow> u16" where
  "rd_type (R_A _) = 0x0001"
| "rd_type (R_NS _) = 0x0002"
| "rd_type (R_CNAME _) = 0x0005"
| "rd_type (R_SOA _ _ _ _ _ _ _) = 0x0006"
| "rd_type (R_PTR _) = 0x000c"
| "rd_type (R_MX _ _) = 0x000f"
| "rd_type (R_TXT _) = 0x0010"
| "rd_type (R_AAAA _) = 0x001c"
| "rd_type (R_SRV _ _ _ _) = 0x0021"
| "rd_type (R_NAPTR _ _ _ _ _ _) = 0x0023"
| "rd_type (R_other t) = t"

record dnsrr =
  rr_name :: "byte list"
  rr_dnsclass :: u16
  rr_ttl :: int
  rr_rdlen :: u16
  rr_rdata :: rdata

abbreviation rr_type :: "dnsrr \<Rightarrow> u16" where "rr_type rr \<equiv> rd_type (rr_rdata rr)"

text \<open>\<open>err |= f(mb)\<close> and \<open>err |= dns_dname_encode(mb, ..., ht_dname, ...)\<close>.\<close>

type_synonym enc = "errno option \<times> dnames \<times> mbuf"

definition then_mb :: "enc \<Rightarrow> (mbuf \<Rightarrow> errno option \<times> mbuf) \<Rightarrow> enc" where
  "then_mb r f = (case r of (err, ht, mb) \<Rightarrow> (case f mb of (e, mb') \<Rightarrow> (err_or err e, ht, mb')))"

definition then_dn :: "enc \<Rightarrow> (dnames \<Rightarrow> mbuf \<Rightarrow> enc) \<Rightarrow> enc" where
  "then_dn r f = (case r of (err, ht, mb) \<Rightarrow> (case f ht mb of (e, ht', mb') \<Rightarrow> (err_or err e, ht', mb')))"

text \<open>The loop over the text: the error, what is left of the text (\<open>ptr\<close> and \<open>dlen\<close>) and the buffer.\<close>

definition txt_step :: "alloc \<Rightarrow> errno option \<times> byte list \<times> mbuf \<Rightarrow> errno option \<times> byte list \<times> mbuf" where
  "txt_step al s =
     (case s of (err, data, mb) \<Rightarrow>
        let slen = min (of_nat (length data)) (0xff :: u8);
            (err1, mb) = mbuf_write_u8 al mb slen;
            (err2, mb) = mbuf_write_mem al mb (Some (take (unat slen) data))
        in (err_or (err_or err err1) err2, drop (unat slen) data, mb))"

definition txt_encode :: "alloc \<Rightarrow> byte list \<Rightarrow> enc \<Rightarrow> enc option" where
  "txt_encode al data r =
     (case r of (err, ht, mb) \<Rightarrow>
        map_option (\<lambda>(err, _, mb). (err, ht, mb))
          (while_option (\<lambda>(err, data, mb). length data > 0) (txt_step al) (txt_step al (err, data, mb))))"

fun rdata_encode :: "alloc \<Rightarrow> nat \<Rightarrow> rdata \<Rightarrow> enc \<Rightarrow> enc option" where
  "rdata_encode al start (R_A addr) r = Some (then_mb r (\<lambda>mb. mbuf_write_u32 al mb (htonl addr)))"
| "rdata_encode al start (R_NS nsdname) r = Some (then_dn r (\<lambda>ht mb. dns_dname_encode al mb nsdname ht start True))"
| "rdata_encode al start (R_CNAME cname) r = Some (then_dn r (\<lambda>ht mb. dns_dname_encode al mb cname ht start True))"
| "rdata_encode al start (R_SOA mname rname serial refresh retry expire ttlmin) r =
     (let r = then_dn r (\<lambda>ht mb. dns_dname_encode al mb mname ht start True);
          r = then_dn r (\<lambda>ht mb. dns_dname_encode al mb rname ht start True);
          r = then_mb r (\<lambda>mb. mbuf_write_u32 al mb (htonl serial));
          r = then_mb r (\<lambda>mb. mbuf_write_u32 al mb (htonl refresh));
          r = then_mb r (\<lambda>mb. mbuf_write_u32 al mb (htonl retry));
          r = then_mb r (\<lambda>mb. mbuf_write_u32 al mb (htonl expire))
      in Some (then_mb r (\<lambda>mb. mbuf_write_u32 al mb (htonl ttlmin))))"
| "rdata_encode al start (R_PTR ptrdname) r = Some (then_dn r (\<lambda>ht mb. dns_dname_encode al mb ptrdname ht start True))"
| "rdata_encode al start (R_MX pref exchange) r =
     (let r = then_mb r (\<lambda>mb. mbuf_write_u16 al mb (htons pref))
      in Some (then_dn r (\<lambda>ht mb. dns_dname_encode al mb exchange ht start True)))"
| "rdata_encode al start (R_TXT data) r = txt_encode al data r"
| "rdata_encode al start (R_AAAA addr) r = Some (then_mb r (\<lambda>mb. mbuf_write_mem al mb (Some addr)))"
| "rdata_encode al start (R_SRV pri weight port target) r =
     (let r = then_mb r (\<lambda>mb. mbuf_write_u16 al mb (htons pri));
          r = then_mb r (\<lambda>mb. mbuf_write_u16 al mb (htons weight));
          r = then_mb r (\<lambda>mb. mbuf_write_u16 al mb (htons port))
      in Some (then_dn r (\<lambda>ht mb. dns_dname_encode al mb target ht start False)))"
| "rdata_encode al start (R_NAPTR order pref flags services regexp replace) r =
     (let r = then_mb r (\<lambda>mb. mbuf_write_u16 al mb (htons order));
          r = then_mb r (\<lambda>mb. mbuf_write_u16 al mb (htons pref));
          r = then_mb r (\<lambda>mb. dns_cstr_encode al mb flags);
          r = then_mb r (\<lambda>mb. dns_cstr_encode al mb services);
          r = then_mb r (\<lambda>mb. dns_cstr_encode al mb regexp)
      in Some (then_dn r (\<lambda>ht mb. dns_dname_encode al mb replace ht start False)))"
| "rdata_encode al start (R_other t) r = Some (case r of (err, ht, mb) \<Rightarrow> (Some EINVAL, ht, mb))"

definition dns_rr_encode :: "alloc \<Rightarrow> mbuf \<Rightarrow> dnsrr \<Rightarrow> int \<Rightarrow> dnames \<Rightarrow> nat \<Rightarrow> enc option" where
  "dns_rr_encode al mb rr ttl_offs ht start =
     (let ttl = word_of_int (if rr_ttl rr > ttl_offs then rr_ttl rr - ttl_offs else 0) :: u32;
          r = then_dn (None, ht, mb) (\<lambda>ht mb. dns_dname_encode al mb (rr_name rr) ht start True);
          r = then_mb r (\<lambda>mb. mbuf_write_u16 al mb (htons (rr_type rr)));
          r = then_mb r (\<lambda>mb. mbuf_write_u16 al mb (htons (rr_dnsclass rr)));
          r = then_mb r (\<lambda>mb. mbuf_write_u32 al mb (htonl ttl));
          r = then_mb r (\<lambda>mb. mbuf_write_u16 al mb (htons (rr_rdlen rr)));
          start_rdata = mb_pos (snd (snd r))
      in case rdata_encode al start (rr_rdata rr) r of
           None \<Rightarrow> None
         | Some (err, ht, mb) \<Rightarrow>
             (let len = size_sub (mb_pos mb) start_rdata in
              if len > 0xffff then Some (Some EOVERFLOW, ht, mb)
              else
                (case mbuf_write_u16 al (mb\<lparr>mb_pos := size_sub start_rdata 2\<rparr>) (htons (of_nat len)) of
                   (e, mb) \<Rightarrow> Some (err_or err e, ht, mb\<lparr>mb_pos := size_add (mb_pos mb) len\<rparr>))))"

text \<open>A step of the decoder that may go to one of the error labels.\<close>

definition then_r :: "(errno + 'a) \<times> mbuf \<Rightarrow> ('a \<Rightarrow> mbuf \<Rightarrow> (errno + 'b) \<times> mbuf) \<Rightarrow> (errno + 'b) \<times> mbuf" where
  "then_r r f = (case r of (Inl err, mb) \<Rightarrow> (Inl err, mb) | (Inr a, mb) \<Rightarrow> f a mb)"

text \<open>The text is collected in an array of \<open>cap = rdlen + 1\<close> bytes; \<open>data\<close> is what stands before \<open>ptr\<close>.
  A store that would end behind the array sets the flag for accesses out of bounds.\<close>

definition txt_room :: "nat \<Rightarrow> nat \<Rightarrow> mbuf \<Rightarrow> mbuf" where
  "txt_room cap n mb = (if n \<le> cap then mb else mb\<lparr>mb_ub := True\<rparr>)"

function txt_decode_loop :: "nat \<Rightarrow> nat \<Rightarrow> byte list \<Rightarrow> mbuf \<Rightarrow> (errno + byte list) \<times> mbuf" where
  "txt_decode_loop cap rdlen data mb =
     (if rdlen > 0 then
        (case mbuf_read_u8 mb of (len, mb) \<Rightarrow>
           if unat len > rdlen - 1 then (Inl EINVAL, mb)
           else
             (case mbuf_read_mem mb (unat len) of
                (Some err, _, mb) \<Rightarrow> (Inl err, mb)
              | (None, bs, mb) \<Rightarrow>
                  txt_decode_loop cap (rdlen - 1 - unat len) (data @ bs) (txt_room cap (length data + length bs) mb)))
      else (Inr data, txt_room cap (length data + 1) mb))"
  by pat_completeness auto
termination by (relation "measure (\<lambda>(cap, rdlen, data, mb). rdlen)") auto

declare txt_decode_loop.simps [simp del]

definition rdata_decode :: "alloc \<Rightarrow> nat \<Rightarrow> u16 \<Rightarrow> u16 \<Rightarrow> mbuf \<Rightarrow> (errno + rdata) \<times> mbuf" where
  "rdata_decode al start ty rdlen mb =
     (if ty = 0x0001 then
        if rdlen \<noteq> 4 then (Inl EINVAL, mb)
        else (case read_be32 mb of (addr, mb) \<Rightarrow> (Inr (R_A addr), mb))
      else if ty = 0x0002 then then_r (dns_dname_decode al mb start) (\<lambda>n mb. (Inr (R_NS n), mb))
      else if ty = 0x0005 then then_r (dns_dname_decode al mb start) (\<lambda>n mb. (Inr (R_CNAME n), mb))
      else if ty = 0x0006 then
        then_r (dns_dname_decode al mb start) (\<lambda>mname mb.
        then_r (dns_dname_decode al mb start) (\<lambda>rname mb.
          if mbuf_get_left mb < 20 then (Inl EINVAL, mb)
          else
            (let (serial, mb) = read_be32 mb; (refresh, mb) = read_be32 mb; (retry, mb) = read_be32 mb;
                 (expire, mb) = read_be32 mb; (ttlmin, mb) = read_be32 mb
             in (Inr (R_SOA mname rname serial refresh retry expire ttlmin), mb))))
      else if ty = 0x000c then then_r (dns_dname_decode al mb start) (\<lambda>n mb. (Inr (R_PTR n), mb))
      else if ty = 0x000f then
        if mbuf_get_left mb < 2 then (Inl EINVAL, mb)
        else (case read_be16 mb of (pref, mb) \<Rightarrow> then_r (dns_dname_decode al mb start) (\<lambda>n mb. (Inr (R_MX pref n), mb)))
      else if ty = 0x0010 then
        (case mem_alloc al (unat rdlen + 1) mb of (ok, mb) \<Rightarrow>
           if \<not> ok then (Inl ENOMEM, mb)
           else then_r (txt_decode_loop (unat rdlen + 1) (unat rdlen) [] mb) (\<lambda>data mb. (Inr (R_TXT (cstring data)), mb)))
      else if ty = 0x001c then
        if rdlen \<noteq> 16 then (Inl EINVAL, mb)
        else (case mbuf_read_mem mb 16 of (Some err, _, mb) \<Rightarrow> (Inl err, mb) | (None, addr, mb) \<Rightarrow> (Inr (R_AAAA addr), mb))
      else if ty = 0x0021 then
        if mbuf_get_left mb < 6 then (Inl EINVAL, mb)
        else
          (let (pri, mb) = read_be16 mb; (weight, mb) = read_be16 mb; (port, mb) = read_be16 mb
           in then_r (dns_dname_decode al mb start) (\<lambda>n mb. (Inr (R_SRV pri weight port n), mb)))
      else if ty = 0x0023 then
        if mbuf_get_left mb < 4 then (Inl EINVAL, mb)
        else
          (let (order, mb) = read_be16 mb; (pref, mb) = read_be16 mb
           in then_r (dns_cstr_decode al mb) (\<lambda>flags mb.
              then_r (dns_cstr_decode al mb) (\<lambda>services mb.
              then_r (dns_cstr_decode al mb) (\<lambda>regexp mb.
              then_r (dns_dname_decode al mb start) (\<lambda>n mb. (Inr (R_NAPTR order pref flags services regexp n), mb))))))
      else (Inr (R_other ty), mb\<lparr>mb_pos := size_add (mb_pos mb) (unat rdlen)\<rparr>))"

definition sizeof_dnsrr :: nat where "sizeof_dnsrr = 80"

definition dns_rr_decode :: "alloc \<Rightarrow> mbuf \<Rightarrow> nat \<Rightarrow> (errno + dnsrr) \<times> mbuf" where
  "dns_rr_decode al mb start =
     (case mem_alloc al sizeof_dnsrr mb of (ok, mb) \<Rightarrow>
        if \<not> ok then (Inl ENOMEM, mb)
        else
          then_r (dns_dname_decode al mb start) (\<lambda>name mb.
            if mbuf_get_left mb < 10 then (Inl EINVAL, mb)
            else
              (let (ty, mb) = read_be16 mb; (dnsclass, mb) = read_be16 mb; (ttl, mb) = read_be32 mb; (rdlen, mb) = read_be16 mb
               in if mbuf_get_left mb < unat rdlen then (Inl EINVAL, mb)
                  else
                    then_r (rdata_decode al start ty rdlen mb) (\<lambda>rdata mb.
                      (Inr \<lparr>rr_name = name, rr_dnsclass = dnsclass, rr_ttl = uint ttl, rr_rdlen = rdlen, rr_rdata = rdata\<rparr>, mb)))))"

text \<open>The members are compared once the types are equal; \<open>same\<close> tells whether the two pointers are equal.\<close>

definition rdata_cmp :: "rdata \<Rightarrow> rdata \<Rightarrow> bool" where
  "rdata_cmp x y =
     (case x of
        R_A a \<Rightarrow> (case y of R_A b \<Rightarrow> a = b | _ \<Rightarrow> False)
      | R_NS a \<Rightarrow> (case y of R_NS b \<Rightarrow> str_casecmp_eq a b | _ \<Rightarrow> False)
      | R_CNAME a \<Rightarrow> (case y of R_CNAME b \<Rightarrow> str_casecmp_eq a b | _ \<Rightarrow> False)
      | R_SOA m r s f y1 x1 t \<Rightarrow>
          (case y of
             R_SOA m' r' s' f' y1' x1' t' \<Rightarrow>
               str_casecmp_eq m m' \<and> str_casecmp_eq r r' \<and> s = s' \<and> f = f' \<and> y1 = y1' \<and> x1 = x1' \<and> t = t'
           | _ \<Rightarrow> False)
      | R_PTR a \<Rightarrow> (case y of R_PTR b \<Rightarrow> str_casecmp_eq a b | _ \<Rightarrow> False)
      | R_MX p a \<Rightarrow> (case y of R_MX q b \<Rightarrow> p = q \<and> str_casecmp_eq a b | _ \<Rightarrow> False)
      | R_TXT a \<Rightarrow> (case y of R_TXT b \<Rightarrow> str_casecmp_eq a b | _ \<Rightarrow> False)
      | R_AAAA a \<Rightarrow> (case y of R_AAAA b \<Rightarrow> a = b | _ \<Rightarrow> False)
      | R_SRV p w t a \<Rightarrow>
          (case y of R_SRV p' w' t' b \<Rightarrow> p = p' \<and> w = w' \<and> t = t' \<and> str_casecmp_eq a b | _ \<Rightarrow> False)
      | R_NAPTR k p f s r a \<Rightarrow>
          (case y of
             R_NAPTR k' p' f' s' r' b \<Rightarrow>
               k = k' \<and> p = p' \<and> str_casecmp_eq f f' \<and> str_casecmp_eq s s' \<and> str_casecmp_eq r r' \<and> str_casecmp_eq a b
           | _ \<Rightarrow> False)
      | R_other _ \<Rightarrow> False)"

definition dns_rr_cmp :: "bool \<Rightarrow> dnsrr \<Rightarrow> dnsrr \<Rightarrow> bool \<Rightarrow> bool" where
  "dns_rr_cmp same rr1 rr2 rdata \<longleftrightarrow>
     (if same then True
      else if rr_type rr1 \<noteq> rr_type rr2 then False
      else if rr_dnsclass rr1 \<noteq> rr_dnsclass rr2 then False
      else if \<not> str_casecmp_eq (rr_name rr1) (rr_name rr2) then False
      else if \<not> rdata then True
      else rdata_cmp (rr_rdata rr1) (rr_rdata rr2))"

section \<open>Records as pieces\<close>

datatype field = Fixed "byte list" | Name bool "byte list"

fun room :: "field list \<Rightarrow> nat" where
  "room [] = 0"
| "room (Fixed bs # fs) = length bs + room fs"
| "room (Name c n # fs) = length n + 3 + room fs"

lemma room_append [simp]: "room (fs @ gs) = room fs + room gs"
  by (induction fs rule: room.induct) auto

text \<open>The pieces stand in the message from \<open>p\<close> to \<open>e\<close>, with names \<open>ts\<close> that differ in case at most.\<close>

fun fields_at :: "nat set \<Rightarrow> byte list \<Rightarrow> nat \<Rightarrow> nat \<Rightarrow> field list \<Rightarrow> nat \<Rightarrow> bool" where
  "fields_at H xs start p [] e \<longleftrightarrow> e = p"
| "fields_at H xs start p (Fixed bs # fs) e \<longleftrightarrow>
     p + length bs \<le> length xs \<and> take (length bs) (drop p xs) = bs \<and> {p..<p + length bs} \<inter> H = {} \<and>
     fields_at H xs start (p + length bs) fs e"
| "fields_at H xs start p (Name c n # fs) e \<longleftrightarrow>
     (\<exists>t m j. name_at H xs start p m j t \<and> j \<le> 256 \<and> length t \<le> 254 \<and> str_casecmp_eq t n \<and> fields_at H xs start m fs e)"

lemma fields_at_NameE:
  assumes "fields_at H xs start p (Name c n # fs) e"
  obtains t m j where "name_at H xs start p m j t" "j \<le> 256" "length t \<le> 254" "str_casecmp_eq t n" "fields_at H xs start m fs e"
  using assms by auto

lemma fields_at_append:
  "fields_at H xs start p (fs @ gs) e \<longleftrightarrow> (\<exists>m. fields_at H xs start p fs m \<and> fields_at H xs start m gs e)"
  by (induction H xs start p fs e rule: fields_at.induct) auto

lemma fields_at_cong:
  assumes "fields_at H xs start p fs e" and "length xs \<le> length xs'" and "\<And>i. i < length xs \<Longrightarrow> i \<notin> H \<Longrightarrow> xs' ! i = xs ! i"
    and "H' \<subseteq> H \<union> {length xs..}"
  shows "fields_at H' xs' start p fs e"
  using assms(1)
proof (induction fs arbitrary: p)
  case (Cons f fs)
  show ?case
  proof (cases f)
    case (Fixed bs)
    have "take (length bs) (drop p xs') = take (length bs) (drop p xs)"
    proof (rule nth_equalityI)
      fix i
      assume "i < length (take (length bs) (drop p xs'))"
      then have i: "i < length bs" "p + i \<in> {p..<p + length bs}" "p + i < length xs" using Cons.prems Fixed by auto
      moreover have "{p..<p + length bs} \<inter> H = {}" using Cons.prems Fixed by simp
      then have "p + i \<notin> H" using i(2) by blast
      ultimately show "take (length bs) (drop p xs') ! i = take (length bs) (drop p xs) ! i"
        using assms(2,3) by simp
    qed (use Cons.prems Fixed assms(2) in auto)
    moreover have "x \<notin> H'" if "x \<in> {p..<p + length bs}" for x
      using that Cons.prems Fixed assms(4) by fastforce
    then have "{p..<p + length bs} \<inter> H' = {}" by blast
    ultimately show ?thesis using Cons Fixed assms(2) by auto
  next
    case (Name c n)
    then show ?thesis using Cons name_at_cong [OF _ assms(2-4)] by fastforce
  qed
qed simp

lemma good_cong:
  assumes "good H xs start dn" and "length xs \<le> length xs'" and "\<And>i. i < length xs \<Longrightarrow> i \<notin> H \<Longrightarrow> xs' ! i = xs ! i"
    and "H' \<subseteq> H \<union> {length xs..}"
  shows "good H' xs' start dn"
  using assms(1) name_at_cong [OF _ assms(2-4)] unfolding good_def by blast

text \<open>A message that is being written: the cursor at the end, and a table that is right.\<close>

definition msg_ok :: "nat set \<Rightarrow> nat \<Rightarrow> byte list \<Rightarrow> dnames \<Rightarrow> mbuf \<Rightarrow> bool" where
  "msg_ok H start xs ht mb \<longleftrightarrow> mbv mb (length xs) xs \<and> start \<le> length xs \<and> dnames_ok ht \<and> (\<forall>dn \<in> entries ht. good H xs start dn)
     \<and> H \<subseteq> {..<length xs}"

definition encodes :: "nat \<Rightarrow> (enc \<Rightarrow> enc) \<Rightarrow> field list \<Rightarrow> bool" where
  "encodes start g fs \<longleftrightarrow>
     (\<forall>err ht mb ht' mb'. g (err, ht, mb) = (None, ht', mb') \<longrightarrow> err = None \<and>
        (\<forall>H xs. msg_ok H start xs ht mb \<longrightarrow> length xs + room fs < size_mod \<longrightarrow>
           (\<exists>zs. length zs \<le> room fs \<and> msg_ok H start (xs @ zs) ht' mb' \<and> fields_at H (xs @ zs) start (length xs) fs (length (xs @ zs)))))"

lemma encodesD:
  assumes "encodes start g fs" and "g (err, ht, mb) = (None, ht', mb')" and "msg_ok H start xs ht mb" and "length xs + room fs < size_mod"
  obtains zs where "err = None" "length zs \<le> room fs" "msg_ok H start (xs @ zs) ht' mb'" "fields_at H (xs @ zs) start (length xs) fs (length (xs @ zs))"
  using assms unfolding encodes_def by metis

lemma then_None:
  "then_mb r f = (None, ht, mb') \<longleftrightarrow> (\<exists>mb. r = (None, ht, mb) \<and> f mb = (None, mb'))"
  "then_dn r h = (None, ht', mb') \<longleftrightarrow> (\<exists>ht mb. r = (None, ht, mb) \<and> h ht mb = (None, ht', mb'))"
  by (auto simp: then_mb_def then_dn_def split: prod.splits)

lemma encodes_id: "encodes start (\<lambda>r. r) []"
  unfolding encodes_def by (auto intro!: exI [of _ "[]"])

lemma msg_ok_write:
  assumes m: "msg_ok H start xs ht mb" and "writes f bs" and "length xs + length bs < size_mod" and "f mb = (None, mb')"
    and H: "H' \<subseteq> H \<union> {length xs..<length xs + length bs}"
  shows "msg_ok H' start (xs @ bs) ht mb'"
proof -
  have "good H' (xs @ bs) start dn" if "dn \<in> entries ht" for dn
    by (rule good_cong [where xs = xs and H = H]) (use m that H in \<open>auto simp: msg_ok_def nth_append\<close>)
  then show ?thesis
    using write_end [OF _ assms(3,2,4)] m H unfolding msg_ok_def by fastforce
qed

lemma encodes_mb:
  assumes g: "encodes start g fs" and f: "writes f bs"
  shows "encodes start (\<lambda>r. then_mb (g r) f) (fs @ [Fixed bs])"
  unfolding encodes_def
proof (intro allI impI)
  fix err ht mb ht' mb'
  assume "then_mb (g (err, ht, mb)) f = (None, ht', mb')"
  then obtain mb1 where r: "g (err, ht, mb) = (None, ht', mb1)" "f mb1 = (None, mb')" by (auto simp: then_None)
  show "err = None \<and> (\<forall>H xs. msg_ok H start xs ht mb \<longrightarrow> length xs + room (fs @ [Fixed bs]) < size_mod \<longrightarrow>
      (\<exists>zs. length zs \<le> room (fs @ [Fixed bs]) \<and> msg_ok H start (xs @ zs) ht' mb' \<and>
        fields_at H (xs @ zs) start (length xs) (fs @ [Fixed bs]) (length (xs @ zs))))"
  proof (intro conjI allI impI)
    show "err = None" using g r(1) unfolding encodes_def by blast
    fix H xs
    assume m: "msg_ok H start xs ht mb" and c: "length xs + room (fs @ [Fixed bs]) < size_mod"
    obtain zs where z: "length zs \<le> room fs" "msg_ok H start (xs @ zs) ht' mb1" "fields_at H (xs @ zs) start (length xs) fs (length (xs @ zs))"
      using encodesD [OF g r(1) m] c by auto
    have "msg_ok H start ((xs @ zs) @ bs) ht' mb'" by (rule msg_ok_write [OF z(2) f _ r(2)]) (use z(1) c in auto)
    moreover have "fields_at H ((xs @ zs) @ bs) start (length xs) fs (length (xs @ zs))"
      by (rule fields_at_cong [OF z(3)]) (auto simp: nth_append)
    moreover have "H \<subseteq> {..<length (xs @ zs)}" using z(2) by (simp add: msg_ok_def)
    ultimately show "\<exists>zs. length zs \<le> room (fs @ [Fixed bs]) \<and> msg_ok H start (xs @ zs) ht' mb' \<and>
        fields_at H (xs @ zs) start (length xs) (fs @ [Fixed bs]) (length (xs @ zs))"
      using z(1) by (intro exI [of _ "zs @ bs"]) (auto simp: fields_at_append)
  qed
qed

lemma encodes_dn:
  assumes g: "encodes start g fs" and n: "name_ok n"
  shows "encodes start (\<lambda>r. then_dn (g r) (\<lambda>ht mb. dns_dname_encode al mb n ht start c)) (fs @ [Name c n])"
  unfolding encodes_def
proof (intro allI impI)
  fix err ht mb ht' mb'
  assume "then_dn (g (err, ht, mb)) (\<lambda>ht mb. dns_dname_encode al mb n ht start c) = (None, ht', mb')"
  then obtain ht1 mb1 where r: "g (err, ht, mb) = (None, ht1, mb1)" "dns_dname_encode al mb1 n ht1 start c = (None, ht', mb')"
    by (auto simp: then_None)
  show "err = None \<and> (\<forall>H xs. msg_ok H start xs ht mb \<longrightarrow> length xs + room (fs @ [Name c n]) < size_mod \<longrightarrow>
      (\<exists>zs. length zs \<le> room (fs @ [Name c n]) \<and> msg_ok H start (xs @ zs) ht' mb' \<and>
        fields_at H (xs @ zs) start (length xs) (fs @ [Name c n]) (length (xs @ zs))))"
  proof (intro conjI allI impI)
    show "err = None" using g r(1) unfolding encodes_def by blast
    fix H xs
    assume m: "msg_ok H start xs ht mb" and cap: "length xs + room (fs @ [Name c n]) < size_mod"
    obtain zs where z: "length zs \<le> room fs" "msg_ok H start (xs @ zs) ht1 mb1" "fields_at H (xs @ zs) start (length xs) fs (length (xs @ zs))"
      using encodesD [OF g r(1) m] cap by auto
    have "written H start c 1 (xs @ zs) n {} ht' mb'"
      by (rule encode_written [OF _ _ _ _ _ n r(2)]) (use z(1,2) cap in \<open>auto simp: msg_ok_def\<close>)
    then obtain ys j t where y: "mbv mb' (length ((xs @ zs) @ ys)) ((xs @ zs) @ ys)" "length ys \<le> length n + 2"
        "name_at H ((xs @ zs) @ ys) start (length (xs @ zs)) (length ((xs @ zs) @ ys)) j t" "str_casecmp_eq t n" "j < length t + 1"
        "dnames_ok ht'" "\<forall>dn \<in> entries ht'. good H ((xs @ zs) @ ys) start dn"
      unfolding written_def by blast
    have "length t \<le> 254" using casecmp_length [OF y(4)] n by (simp add: name_ok_def)
    then have "fields_at H ((xs @ zs) @ ys) start (length (xs @ zs)) [Name c n] (length ((xs @ zs) @ ys))"
      using y(3-5) unfolding fields_at.simps by (intro exI [of _ t] exI [of _ "length ((xs @ zs) @ ys)"] exI [of _ j]) auto
    moreover have "fields_at H ((xs @ zs) @ ys) start (length xs) fs (length (xs @ zs))"
      by (rule fields_at_cong [OF z(3)]) (auto simp: nth_append)
    moreover have "msg_ok H start ((xs @ zs) @ ys) ht' mb'" using y z(2) by (auto simp: msg_ok_def)
    ultimately show "\<exists>zs. length zs \<le> room (fs @ [Name c n]) \<and> msg_ok H start (xs @ zs) ht' mb' \<and>
        fields_at H (xs @ zs) start (length xs) (fs @ [Name c n]) (length (xs @ zs))"
      using z(1) y(2) unfolding fields_at_append append_assoc
      by (intro exI [of _ "zs @ ys"]) (auto simp del: fields_at.simps)
  qed
qed

text \<open>With memory, the pieces are written.\<close>

definition total :: "nat \<Rightarrow> (enc \<Rightarrow> enc) \<Rightarrow> field list \<Rightarrow> bool" where
  "total start g fs \<longleftrightarrow> encodes start g fs \<and>
     (\<forall>ht mb H xs. msg_ok H start xs ht mb \<longrightarrow> length xs + room fs < size_mod \<longrightarrow> fst (g (None, ht, mb)) = None)"

lemma total_encodes: "total start g fs \<Longrightarrow> encodes start g fs"
  by (simp add: total_def)

lemma total_id: "total start (\<lambda>r. r) []"
  by (simp add: total_def encodes_id)

lemma total_mb:
  assumes g: "total start g fs" and f: "writes f bs" "\<And>mb. fst (f mb) = None"
  shows "total start (\<lambda>r. then_mb (g r) f) (fs @ [Fixed bs])"
  unfolding total_def
proof (intro conjI allI impI)
  show "encodes start (\<lambda>r. then_mb (g r) f) (fs @ [Fixed bs])" using g f(1) by (simp add: total_def encodes_mb)
  fix ht mb H xs
  assume "msg_ok H start xs ht mb" "length xs + room (fs @ [Fixed bs]) < size_mod"
  then have "fst (g (None, ht, mb)) = None" using g unfolding total_def by fastforce
  then show "fst (then_mb (g (None, ht, mb)) f) = None" using f(2) by (simp add: then_mb_def case_prod_beta)
qed

lemma total_dn:
  assumes g: "total start g fs" and n: "name_ok n" and al: "alloc_total al"
  shows "total start (\<lambda>r. then_dn (g r) (\<lambda>ht mb. dns_dname_encode al mb n ht start c)) (fs @ [Name c n])"
  unfolding total_def
proof (intro conjI allI impI)
  show "encodes start (\<lambda>r. then_dn (g r) (\<lambda>ht mb. dns_dname_encode al mb n ht start c)) (fs @ [Name c n])"
    using g n by (simp add: total_def encodes_dn)
  fix ht mb H xs
  assume m: "msg_ok H start xs ht mb" "length xs + room (fs @ [Name c n]) < size_mod"
  then have "fst (g (None, ht, mb)) = None" using g unfolding total_def by fastforce
  then obtain ht1 mb1 where r: "g (None, ht, mb) = (None, ht1, mb1)" by (cases "g (None, ht, mb)") auto
  obtain zs where z: "length zs \<le> room fs" "msg_ok H start (xs @ zs) ht1 mb1"
    using m(2) by (auto intro: encodesD [OF total_encodes [OF g] r m(1)])
  then have "mb_pos mb1 = length (xs @ zs)" using mbvD(2) by (fastforce simp: msg_ok_def)
  then have "fst (dns_dname_encode al mb1 n ht1 start c) = None"
    by (intro name_encode_total [OF al n]) (use m(2) z(1) in simp)
  then show "fst (then_dn (g (None, ht, mb)) (\<lambda>ht mb. dns_dname_encode al mb n ht start c)) = None"
    using r by (simp add: then_dn_def case_prod_beta)
qed

definition str_ok :: "byte list \<Rightarrow> bool" where
  "str_ok s \<longleftrightarrow> length s \<le> 255 \<and> 0 \<notin> set s"

fun rdata_ok :: "rdata \<Rightarrow> bool" where
  "rdata_ok (R_A _) \<longleftrightarrow> True"
| "rdata_ok (R_NS n) \<longleftrightarrow> name_ok n"
| "rdata_ok (R_CNAME n) \<longleftrightarrow> name_ok n"
| "rdata_ok (R_SOA m n _ _ _ _ _) \<longleftrightarrow> name_ok m \<and> name_ok n"
| "rdata_ok (R_PTR n) \<longleftrightarrow> name_ok n"
| "rdata_ok (R_MX _ n) \<longleftrightarrow> name_ok n"
| "rdata_ok (R_TXT s) \<longleftrightarrow> str_ok s"
| "rdata_ok (R_AAAA a) \<longleftrightarrow> length a = 16"
| "rdata_ok (R_SRV _ _ _ n) \<longleftrightarrow> name_ok n"
| "rdata_ok (R_NAPTR _ _ f s r n) \<longleftrightarrow> str_ok f \<and> str_ok s \<and> str_ok r \<and> name_ok n"
| "rdata_ok (R_other _) \<longleftrightarrow> False"

definition cstr :: "byte list \<Rightarrow> byte list" where
  "cstr s = of_nat (length s) # s"

fun rdata_fields :: "rdata \<Rightarrow> field list" where
  "rdata_fields (R_A a) = [Fixed (be32 a)]"
| "rdata_fields (R_NS n) = [Name True n]"
| "rdata_fields (R_CNAME n) = [Name True n]"
| "rdata_fields (R_SOA m n a b c d e) = [Name True m, Name True n, Fixed (be32 a), Fixed (be32 b), Fixed (be32 c), Fixed (be32 d), Fixed (be32 e)]"
| "rdata_fields (R_PTR n) = [Name True n]"
| "rdata_fields (R_MX p n) = [Fixed (be16 p), Name True n]"
| "rdata_fields (R_TXT s) = [Fixed [of_nat (length s)], Fixed s]"
| "rdata_fields (R_AAAA a) = [Fixed a]"
| "rdata_fields (R_SRV p w t n) = [Fixed (be16 p), Fixed (be16 w), Fixed (be16 t), Name False n]"
| "rdata_fields (R_NAPTR k p f s r n) = [Fixed (be16 k), Fixed (be16 p), Fixed (cstr f), Fixed (cstr s), Fixed (cstr r), Name False n]"
| "rdata_fields (R_other _) = []"

lemma str_len: "str_ok s \<Longrightarrow> unat (of_nat (length s) :: u8) = length s"
  by (simp add: str_ok_def unat_of_nat)

lemma cstr_writes: "str_ok s \<Longrightarrow> writes (\<lambda>mb. dns_cstr_encode al mb s) (cstr s)"
  using mbcur.writer_also [OF writes_prims(2) [of al "of_nat (length s)"] writes_prims(1) [of al s]]
  by (simp add: dns_cstr_encode_def cstr_def str_len)

lemma txt_encode_short:
  assumes "str_ok s"
  shows "txt_encode al s r = Some (then_mb (then_mb r (\<lambda>mb. mbuf_write_u8 al mb (of_nat (length s)))) (\<lambda>mb. put al mb s))"
proof -
  obtain err ht mb where r: "r = (err, ht, mb)" by (cases r)
  have m: "min (of_nat (length s)) (0xff :: u8) = of_nat (length s)"
  proof -
    have "(of_nat (length s) :: u8) \<le> 0xff" using str_len [OF assms] assms by (simp add: word_le_nat_alt str_ok_def)
    then show ?thesis by simp
  qed
  obtain e1 mb1 where w: "mbuf_write_u8 al mb (of_nat (length s)) = (e1, mb1)" by fastforce
  obtain e2 mb2 where v: "mbuf_write_mem al mb1 (Some s) = (e2, mb2)" by fastforce
  have "txt_step al (err, s, mb) = (err_or (err_or err e1) e2, [], mb2)"
    using m w v str_len [OF assms] by (simp add: txt_step_def Let_def)
  then show ?thesis using r w v by (simp add: txt_encode_def while_option_unfold then_mb_def)
qed

lemma totalI: "total start g fs \<Longrightarrow> (\<And>r. f r = Some (g r)) \<Longrightarrow> \<exists>g. f = (\<lambda>r. Some (g r)) \<and> total start g fs"
  by blast

lemma writes_total:
  assumes "alloc_total al"
  shows "fst (put al mb bs) = None" "fst (mbuf_write_u8 al mb b) = None" "fst (mbuf_write_u16 al mb (htons v)) = None"
    "fst (mbuf_write_u32 al mb (htonl w)) = None" "fst (dns_cstr_encode al mb s) = None"
  using write_total [OF assms] by (simp_all add: write_u8 write_be dns_cstr_encode_def also_err_def Let_def case_prod_beta)

lemma rdata_encodes:
  assumes "rdata_ok rd" and al: "alloc_total al"
  shows "\<exists>g. rdata_encode al start rd = (\<lambda>r. Some (g r)) \<and> total start g (rdata_fields rd)"
proof (cases rd)
  note w = writes_prims(3,4) [of al] and start = total_id [of start] and t = writes_total [OF al]
  note dn = total_dn [where start = start and al = al, OF _ _ al] and u16 = total_mb [OF _ w(1) t(3)] and u32 = total_mb [OF _ w(2) t(4)]
  note str = total_mb [OF _ cstr_writes [of _ al] t(5)]
  show ?thesis if "rd = R_A a" for a
    using that u32 [OF start, of a] by (intro totalI) auto
  show ?thesis if "rd = R_NS n" for n
    using that assms dn [OF start, of n True] by (intro totalI) auto
  show ?thesis if "rd = R_CNAME n" for n
    using that assms dn [OF start, of n True] by (intro totalI) auto
  show ?thesis if "rd = R_PTR n" for n
    using that assms dn [OF start, of n True] by (intro totalI) auto
  show ?thesis if "rd = R_SOA m n a b c d e" for m n a b c d e
    using that assms u32 [OF u32 [OF u32 [OF u32 [OF u32 [OF dn [OF dn [OF start, of m True], of n True]]]]], of a b c d e]
    by (intro totalI) (auto simp: Let_def)
  show ?thesis if "rd = R_MX p n" for p n
    using that assms dn [OF u16 [OF start, of p], of n True] by (intro totalI) (auto simp: Let_def)
  show ?thesis if "rd = R_TXT s" for s
    using that assms total_mb [OF total_mb [OF start writes_prims(2) t(2)] writes_prims(1) t(1), of "of_nat (length s)" s] txt_encode_short [of s al]
    by (intro totalI) auto
  show ?thesis if "rd = R_AAAA a" for a
    using that total_mb [OF start writes_prims(1) [of al a] t(1)] by (intro totalI) auto
  show ?thesis if "rd = R_SRV p v t n" for p v t n
    using that assms dn [OF u16 [OF u16 [OF u16 [OF start, of p], of v], of t], of n False] by (intro totalI) (auto simp: Let_def)
  show ?thesis if "rd = R_NAPTR k p f v x n" for k p f v x n
    using that assms dn [OF str [OF str [OF str [OF u16 [OF u16 [OF start, of k], of p], of f], of v], of x], of n False]
    by (intro totalI) (auto simp: Let_def)
  show ?thesis if "rd = R_other t" for t
    using that assms by simp
qed

lemma rdata_room: "rdata_ok rd \<Longrightarrow> room (rdata_fields rd) \<le> 0xffff"
  by (cases rd) (auto simp: name_ok_def str_ok_def cstr_def)

section \<open>The encoder of records\<close>

definition rr_ttl_sent :: "dnsrr \<Rightarrow> int \<Rightarrow> u32" where
  "rr_ttl_sent rr offs = word_of_int (if rr_ttl rr > offs then rr_ttl rr - offs else 0)"

definition rr_head :: "dnsrr \<Rightarrow> int \<Rightarrow> field list" where
  "rr_head rr offs = [Name True (rr_name rr), Fixed (be16 (rr_type rr)), Fixed (be16 (rr_dnsclass rr)), Fixed (be32 (rr_ttl_sent rr offs))]"

definition rr_ok :: "dnsrr \<Rightarrow> bool" where
  "rr_ok rr \<longleftrightarrow> name_ok (rr_name rr) \<and> rdata_ok (rr_rdata rr)"

definition rr_room :: "dnsrr \<Rightarrow> nat" where
  "rr_room rr = length (rr_name rr) + 13 + room (rdata_fields (rr_rdata rr))"

text \<open>A record stands in the message from \<open>p\<close> to \<open>e\<close>, with the length of its data.\<close>

definition rr_at :: "byte list \<Rightarrow> nat \<Rightarrow> nat \<Rightarrow> dnsrr \<Rightarrow> int \<Rightarrow> nat \<Rightarrow> bool" where
  "rr_at xs start p rr offs e \<longleftrightarrow>
     (\<exists>q. fields_at {} xs start p (rr_head rr offs @ [Fixed (be16 (of_nat (e - q)))]) q \<and>
        fields_at {} xs start q (rdata_fields (rr_rdata rr)) e \<and> e - q \<le> 0xffff)"

lemma rr_at_append: "rr_at xs start p rr offs e \<Longrightarrow> rr_at (xs @ ys) start p rr offs e"
proof -
  have "fields_at {} (xs @ ys) start p fs e" if "fields_at {} xs start p fs e" for p fs e
    by (rule fields_at_cong [OF that]) (auto simp: nth_append)
  then show "rr_at xs start p rr offs e \<Longrightarrow> rr_at (xs @ ys) start p rr offs e" unfolding rr_at_def by blast
qed

text \<open>The length of the data is written over once it is known; no name uses these two bytes.\<close>

lemma patch:
  assumes m: "msg_ok {length xs..<length xs + 2} start (xs @ bs @ zs) ht mb" and l: "length bs = 2"
    and w: "mbuf_write_u16 al (mb\<lparr>mb_pos := length xs\<rparr>) (htons v) = (None, mb')"
  shows "msg_ok {} start (xs @ be16 v @ zs) ht (mb'\<lparr>mb_pos := size_add (mb_pos mb') (length zs)\<rparr>)"
    and "fields_at {length xs..<length xs + 2} (xs @ bs @ zs) start p fs e \<Longrightarrow> fields_at {} (xs @ be16 v @ zs) start p fs e"
proof -
  have v: "mbv mb (length (xs @ bs @ zs)) (xs @ bs @ zs)" using m by (simp add: msg_ok_def)
  then have c: "length (xs @ bs @ zs) < size_mod" by (rule mbvD)
  have "mbv mb' (length xs + length (be16 v)) (take (length xs) (xs @ bs @ zs) @ be16 v @ drop (length xs + length (be16 v)) (xs @ bs @ zs))"
    by (rule mbv_writes [OF writes_prims(3) mbv_set_pos [OF v] _ w]) (use c l in auto)
  then have w: "mbv mb' (length xs + 2) (xs @ be16 v @ zs)" using l by simp
  have eq: "(xs @ be16 v @ zs) ! i = (xs @ bs @ zs) ! i" if "i \<notin> {length xs..<length xs + 2}" for i
    using that l by (auto simp: nth_append not_le not_less)
  show "fields_at {length xs..<length xs + 2} (xs @ bs @ zs) start p fs e \<Longrightarrow> fields_at {} (xs @ be16 v @ zs) start p fs e"
    by (erule fields_at_cong) (use eq l in auto)
  have "good {} (xs @ be16 v @ zs) start dn" if "dn \<in> entries ht" for dn
    by (rule good_cong [where xs = "xs @ bs @ zs" and H = "{length xs..<length xs + 2}"]) (use m eq l that in \<open>auto simp: msg_ok_def\<close>)
  moreover have "mbv (mb'\<lparr>mb_pos := size_add (mb_pos mb') (length zs)\<rparr>) (length (xs @ be16 v @ zs)) (xs @ be16 v @ zs)"
    using mbv_set_pos [OF w, of "length (xs @ be16 v @ zs)"] mbvD(2) [OF w] c l by (simp add: add.assoc)
  ultimately show "msg_ok {} start (xs @ be16 v @ zs) ht (mb'\<lparr>mb_pos := size_add (mb_pos mb') (length zs)\<rparr>)"
    using m l by (simp add: msg_ok_def)
qed

lemma rr_encode_at:
  assumes m: "msg_ok {} start xs ht mb" and ok: "rr_ok rr" and cap: "length xs + rr_room rr < size_mod" and al: "alloc_total al"
  shows "\<exists>ht' mb' zs. dns_rr_encode al mb rr offs ht start = Some (None, ht', mb') \<and> length zs \<le> rr_room rr \<and>
    msg_ok {} start (xs @ zs) ht' mb' \<and> rr_at (xs @ zs) start (length xs) rr offs (length (xs @ zs))"
proof -
  let ?w = "\<lambda>v mb. mbuf_write_u16 al mb (htons v)" and ?rd = "rdata_fields (rr_rdata rr)"
  note t = writes_total [OF al]
  define h where "h r = then_mb (then_mb (then_mb (then_dn r (\<lambda>ht mb. dns_dname_encode al mb (rr_name rr) ht start True)) (?w (rr_type rr)))
    (?w (rr_dnsclass rr))) (\<lambda>mb. mbuf_write_u32 al mb (htonl (rr_ttl_sent rr offs)))" for r
  have h: "total start h (rr_head rr offs)"
    using total_mb [OF total_mb [OF total_mb [OF total_dn [OF total_id _ al, of "rr_name rr" start True] writes_prims(3) t(3), of "rr_type rr"]
        writes_prims(3) t(3), of "rr_dnsclass rr"] writes_prims(4) t(4), of "rr_ttl_sent rr offs"] ok
    by (simp add: h_def [abs_def] rr_head_def rr_ok_def)
  obtain g where g: "rdata_encode al start (rr_rdata rr) = (\<lambda>r. Some (g r))" "total start g ?rd"
    using rdata_encodes [OF _ al] ok unfolding rr_ok_def by blast
  have room: "room (rr_head rr offs) = length (rr_name rr) + 11" by (simp add: rr_head_def)
  have "fst (h (None, ht, mb)) = None" using h m cap room unfolding total_def rr_room_def by fastforce
  then obtain ht1 mb1 where r1: "h (None, ht, mb) = (None, ht1, mb1)" by (cases "h (None, ht, mb)") auto
  obtain z1 where z1: "length z1 \<le> room (rr_head rr offs)" "msg_ok {} start (xs @ z1) ht1 mb1"
      "fields_at {} (xs @ z1) start (length xs) (rr_head rr offs) (length (xs @ z1))"
    using encodesD [OF total_encodes [OF h] r1 m] cap room by (auto simp: rr_room_def)
  define ws where "ws = xs @ z1"
  let ?bs = "be16 (rr_rdlen rr)" and ?H = "{length ws..<length ws + 2}"
  have capw: "length ws + 2 + room ?rd < size_mod" using z1(1) cap room by (simp add: ws_def rr_room_def)
  obtain mb2 where r2: "?w (rr_rdlen rr) mb1 = (None, mb2)" using t(3) [of mb1 "rr_rdlen rr"] by (cases "?w (rr_rdlen rr) mb1") auto
  have m2: "msg_ok ?H start (ws @ ?bs) ht1 mb2"
    unfolding ws_def by (rule msg_ok_write [OF z1(2) writes_prims(3) _ r2]) (use capw in \<open>auto simp: ws_def\<close>)
  then have sr: "mb_pos mb2 = length ws + 2" using mbvD(2) by (fastforce simp: msg_ok_def)
  have "fst (g (None, ht1, mb2)) = None" using g(2) m2 capw unfolding total_def by fastforce
  then obtain ht3 mb3 where r3: "g (None, ht1, mb2) = (None, ht3, mb3)" by (cases "g (None, ht1, mb2)") auto
  obtain z2 where z2: "length z2 \<le> room ?rd" "msg_ok ?H start (ws @ ?bs @ z2) ht3 mb3"
      "fields_at ?H (ws @ ?bs @ z2) start (length ws + 2) ?rd (length ws + 2 + length z2)"
    using encodesD [OF total_encodes [OF g(2)] r3 m2] capw by (auto simp: add.assoc)
  have pos: "mb_pos mb3 = length ws + 2 + length z2" "length ws + 2 + length z2 < size_mod"
    using z2(2) mbvD(2,8) by (fastforce simp: msg_ok_def)+
  then have len: "size_sub (mb_pos mb3) (mb_pos mb2) = length z2" "size_sub (mb_pos mb2) 2 = length ws" using sr by (simp_all add: size_sub_le)
  have short: "length z2 \<le> 0xffff" using z2(1) rdata_room [of "rr_rdata rr"] ok by (simp add: rr_ok_def)
  obtain mb4 where r4: "?w (of_nat (length z2)) (mb3\<lparr>mb_pos := length ws\<rparr>) = (None, mb4)"
    using t(3) [of "mb3\<lparr>mb_pos := length ws\<rparr>" "of_nat (length z2)"] by (cases "?w (of_nat (length z2)) (mb3\<lparr>mb_pos := length ws\<rparr>)") auto
  let ?mb = "mb4\<lparr>mb_pos := size_add (mb_pos mb4) (length z2)\<rparr>"
  have "then_mb (h (None, ht, mb)) (?w (rr_rdlen rr)) = (None, ht1, mb2)" using r1 r2 by (simp add: then_mb_def)
  then have enc: "dns_rr_encode al mb rr offs ht start = Some (None, ht3, ?mb)"
    using r3 r4 len short
    by (simp add: dns_rr_encode_def Let_def g(1) h_def [symmetric] rr_ttl_sent_def [symmetric])
  note p = patch [OF z2(2) length_be(1) r4]
  let ?ys = "ws @ be16 (of_nat (length z2)) @ z2"
  have "fields_at ?H (ws @ ?bs @ z2) start (length xs) (rr_head rr offs) (length ws)"
    by (rule fields_at_cong [OF z1(3) [folded ws_def]]) (auto simp: nth_append)
  from p(2) [OF this] p(2) [OF z2(3)]
  have "fields_at {} ?ys start (length xs) (rr_head rr offs @ [Fixed (be16 (of_nat (length z2)))]) (length ws + 2)"
    and "fields_at {} ?ys start (length ws + 2) ?rd (length ?ys)"
    by (auto simp: fields_at_append)
  then have "rr_at ?ys start (length xs) rr offs (length ?ys)"
    unfolding rr_at_def by (intro exI [of _ "length ws + 2"]) (use short in auto)
  then show ?thesis
    using enc p(1) z1(1) z2(1) room
    by (intro exI [of _ ht3] exI [of _ ?mb] exI [of _ "z1 @ be16 (of_nat (length z2)) @ z2"]) (auto simp: ws_def rr_room_def)
qed

section \<open>The decoder of records\<close>

lemma blk_reads:
  assumes v: "blk mb xs" and p: "mb_pos mb = p"
  shows "p \<le> length xs \<Longrightarrow> mbuf_get_left mb = length xs - p"
    and "p + 1 \<le> length xs \<Longrightarrow> take 1 (drop p xs) = [c] \<Longrightarrow> mbuf_read_u8 mb = (c, mb\<lparr>mb_pos := p + 1\<rparr>)"
    and "p + 2 \<le> length xs \<Longrightarrow> take 2 (drop p xs) = be16 a \<Longrightarrow> read_be16 mb = (a, mb\<lparr>mb_pos := p + 2\<rparr>)"
    and "p + 4 \<le> length xs \<Longrightarrow> take 4 (drop p xs) = be32 b \<Longrightarrow> read_be32 mb = (b, mb\<lparr>mb_pos := p + 4\<rparr>)"
    and "p + n \<le> length xs \<Longrightarrow> mbuf_read_mem mb n = (None, take n (drop p xs), mb\<lparr>mb_pos := p + n\<rparr>)"
proof -
  have m: "mbuf_ok mb" "mb_after mb = drop p xs" "mbuf_get_left mb = length xs - p" if "p \<le> length xs"
    using mbvD [OF blk_mbv [OF v]] that p by auto
  note r = reads_at [OF m(1)]
  show "p \<le> length xs \<Longrightarrow> mbuf_get_left mb = length xs - p" by (rule m(3))
  show "p + 1 \<le> length xs \<Longrightarrow> take 1 (drop p xs) = [c] \<Longrightarrow> mbuf_read_u8 mb = (c, mb\<lparr>mb_pos := p + 1\<rparr>)"
    using r(2) m(2) p by (cases "drop p xs") (auto simp: mb_adv_def)
  show "p + 2 \<le> length xs \<Longrightarrow> take 2 (drop p xs) = be16 a \<Longrightarrow> read_be16 mb = (a, mb\<lparr>mb_pos := p + 2\<rparr>)"
    using r(3) m(2) p by (simp add: mb_adv_def)
  show "p + 4 \<le> length xs \<Longrightarrow> take 4 (drop p xs) = be32 b \<Longrightarrow> read_be32 mb = (b, mb\<lparr>mb_pos := p + 4\<rparr>)"
    using r(4) m(2) p by (simp add: mb_adv_def)
  show "p + n \<le> length xs \<Longrightarrow> mbuf_read_mem mb n = (None, take n (drop p xs), mb\<lparr>mb_pos := p + n\<rparr>)"
    using r(1) [of n] m(2) p by (simp add: mb_adv_def)
qed

lemma name_decode_at:
  assumes "name_at H xs start p m j t" and "j \<le> 256" and "length t \<le> 254" and "blk mb xs" and "mb_pos mb = p"
    and "alloc_total al" and "start + 0x3fff < size_mod"
  obtains mb' where "dns_dname_decode al mb start = (Inr t, mb')" "blk mb' xs" "mb_pos mb' = m"
  using decode_name_at [OF assms(1,4,5), of 0 "[]" al None] assms by (auto simp: dns_dname_decode_def)

lemma take_Suc_drop:
  assumes "take (Suc n) (drop p xs) = c # s"
  shows "take 1 (drop p xs) = [c]" and "take n (drop (p + 1) xs) = s"
proof -
  obtain l where l: "drop p xs = c # l" "take n l = s" using assms by (cases "drop p xs") auto
  then show "take 1 (drop p xs) = [c]" by simp
  have "drop (p + 1) xs = tl (drop p xs)" by (simp add: drop_Suc tl_drop)
  then show "take n (drop (p + 1) xs) = s" using l by simp
qed

lemma cstr_decode_at:
  assumes "take (length (cstr s)) (drop p xs) = cstr s" and "p + length (cstr s) \<le> length xs" and "str_ok s" and v: "blk mb xs"
    and p: "mb_pos mb = p" and "alloc_total al"
  obtains mb' where "dns_cstr_decode al mb = (Inr s, mb')" "blk mb' xs" "mb_pos mb' = p + length (cstr s)"
proof -
  have l: "unat (of_nat (length s) :: u8) = length s" "p + 1 + length s \<le> length xs" using str_len [OF assms(3)] assms(2) by (auto simp: cstr_def)
  have t: "take 1 (drop p xs) = [of_nat (length s)]" "take (length s) (drop (p + 1) xs) = s"
    using take_Suc_drop [of "length s" p xs "of_nat (length s)" s] assms(1,2) by (auto simp: cstr_def)
  have u: "mbuf_read_u8 mb = (of_nat (length s), mb\<lparr>mb_pos := p + 1\<rparr>)" by (rule blk_reads(2) [OF v p]) (use t l in auto)
  let ?mb = "mb\<lparr>mb_pos := p + 1, mb_tick := Suc (mb_tick mb)\<rparr>"
  have b: "blk ?mb xs" using v blk_tick [where mb = "mb\<lparr>mb_pos := p + 1\<rparr>"] by simp
  have "mbuf_read_mem ?mb (length s) = (None, s, ?mb\<lparr>mb_pos := p + 1 + length s\<rparr>)"
    using blk_reads(5) [OF b _ l(2)] t(2) by simp
  then have "mbuf_strdup al (mb\<lparr>mb_pos := p + 1\<rparr>) (length s) = (None, Some (s @ [0]), ?mb\<lparr>mb_pos := p + 1 + length s\<rparr>)"
    using assms(6) by (auto simp: mbuf_strdup_def alloc_total_def split: option.split)
  moreover have "mbuf_get_left mb = length xs - p" "mbuf_get_left (mb\<lparr>mb_pos := p + 1\<rparr>) = length xs - (p + 1)"
    using blk_reads(1) [OF v p] blk_reads(1) [of "mb\<lparr>mb_pos := p + 1\<rparr>" xs] v l by auto
  moreover have "cstring (s @ [0]) = s" unfolding cstring_def takeWhile_snoc using assms(3) 
    by (subst takeWhile_snoc) (auto simp: str_ok_def takeWhile_eq_all_conv)
  ultimately have "dns_cstr_decode al mb = (Inr s, ?mb\<lparr>mb_pos := p + 1 + length s\<rparr>)"
    using u l by (simp add: dns_cstr_decode_def)
  moreover have "blk (?mb\<lparr>mb_pos := p + 1 + length s\<rparr>) xs" using b blk_pos by blast
  ultimately show ?thesis using that by (auto simp: cstr_def)
qed

lemma txt_decode_at:
  assumes "take (length s) (drop (p + 1) xs) = s" "take 1 (drop p xs) = [of_nat (length s)]" and "p + 1 + length s \<le> length xs"
    and "str_ok s" and v: "blk mb xs" and p: "mb_pos mb = p"
  shows "txt_decode_loop (length s + 1 + 1) (length s + 1) [] mb = (Inr s, mb\<lparr>mb_pos := p + 1 + length s\<rparr>)"
proof -
  have "mbuf_read_u8 mb = (of_nat (length s), mb\<lparr>mb_pos := p + 1\<rparr>)" by (rule blk_reads(2) [OF v p]) (use assms in auto)
  moreover have "mbuf_read_mem (mb\<lparr>mb_pos := p + 1\<rparr>) (length s) = (None, s, mb\<lparr>mb_pos := p + 1 + length s\<rparr>)"
    using blk_reads(5) [of "mb\<lparr>mb_pos := p + 1\<rparr>" xs "p + 1" "length s"] assms by simp
  ultimately show ?thesis using str_len [OF assms(4)]
    by (subst txt_decode_loop.simps) (simp add: txt_decode_loop.simps [of _ 0] txt_room_def)
qed

text \<open>What the decoder gives for data that stand from \<open>p\<close> to \<open>e\<close>.\<close>

definition rdata_read :: "byte list \<Rightarrow> rdata \<Rightarrow> nat \<Rightarrow> (errno + rdata) \<times> mbuf \<Rightarrow> bool" where
  "rdata_read xs rd e res \<longleftrightarrow> (\<exists>rd' mb'. res = (Inr rd', mb') \<and> rdata_cmp rd' rd \<and> rd_type rd' = rd_type rd \<and> blk mb' xs \<and> mb_pos mb' = e)"

lemma rdata_readI: "rdata_cmp rd' rd \<Longrightarrow> rd_type rd' = rd_type rd \<Longrightarrow> blk mb' xs \<Longrightarrow> mb_pos mb' = e \<Longrightarrow> rdata_read xs rd e (Inr rd', mb')"
  by (simp add: rdata_read_def)

lemma rdata_decode_at:
  assumes f: "fields_at {} xs start p (rdata_fields rd) e" and ok: "rdata_ok rd" and v: "blk mb xs" and p: "mb_pos mb = p"
    and l: "e - p \<le> 0xffff" "p \<le> length xs" and al: "alloc_total al" "start + 0x3fff < size_mod"
  shows "rdata_read xs rd e (rdata_decode al start (rd_type rd) (of_nat (e - p)) mb)"
proof (cases rd)
  note name = name_decode_at [OF _ _ _ _ _ al] and r = blk_reads [where xs = xs]
  have one: "\<exists>t mb'. dns_dname_decode al mb start = (Inr t, mb') \<and> blk mb' xs \<and> mb_pos mb' = e \<and> str_casecmp_eq t n"
    if "fields_at {} xs start q [Name c n] e" "blk mb xs" "mb_pos mb = q" for mb q c n
    using that name by (auto simp: intro: exI) (metis name)
  show ?thesis if rd: "rd = R_A a" for a
  proof -
    have "e = p + 4" "read_be32 mb = (a, mb\<lparr>mb_pos := p + 4\<rparr>)" using f rd r(4) [OF v p, of a] by auto
    then show ?thesis using rd v by (auto simp: rdata_decode_def rdata_cmp_def intro!: rdata_readI)
  qed
  show ?thesis if rd: "rd = R_NS n" for n
    using one [OF _ v p, of True n] f rd by (auto simp: rdata_decode_def then_r_def rdata_cmp_def intro!: rdata_readI)
  show ?thesis if rd: "rd = R_CNAME n" for n
    using one [OF _ v p, of True n] f rd by (auto simp: rdata_decode_def then_r_def rdata_cmp_def intro!: rdata_readI)
  show ?thesis if rd: "rd = R_PTR n" for n
    using one [OF _ v p, of True n] f rd by (auto simp: rdata_decode_def then_r_def rdata_cmp_def intro!: rdata_readI)
  show ?thesis if rd: "rd = R_AAAA a" for a
  proof -
    have "e = p + 16" "take 16 (drop p xs) = a" "p + 16 \<le> length xs" using f rd ok by auto
    then show ?thesis using rd v r(5) [OF v p, of 16] by (auto simp: rdata_decode_def rdata_cmp_def intro!: rdata_readI)
  qed
  show ?thesis if rd: "rd = R_MX q n" for q n
  proof -
    have m: "fields_at {} xs start (p + 2) [Name True n] e" "p + 2 \<le> length xs" "read_be16 mb = (q, mb\<lparr>mb_pos := p + 2\<rparr>)"
      using f rd r(3) [OF v p, of q] by auto
    then show ?thesis using one [of "p + 2" True n "mb\<lparr>mb_pos := p + 2\<rparr>"] v rd r(1) [OF v p]
      by (auto simp: rdata_decode_def then_r_def rdata_cmp_def intro!: rdata_readI)
  qed
  show ?thesis if rd: "rd = R_TXT s" for s
  proof -
    have t: "take (length s) (drop (p + 1) xs) = s" "take 1 (drop p xs) = [of_nat (length s)]" "p + 1 + length s \<le> length xs" "str_ok s" "e = p + 1 + length s"
      using f rd ok by auto
    let ?mb = "mb\<lparr>mb_tick := Suc (mb_tick mb)\<rparr>"
    have "txt_decode_loop (length s + 1 + 1) (length s + 1) [] ?mb = (Inr s, ?mb\<lparr>mb_pos := p + 1 + length s\<rparr>)"
      by (rule txt_decode_at [OF t(1-4)]) (use v p in auto)
    moreover have "unat (of_nat (e - p) :: u16) = length s + 1" using t(5) l(1) unat_of_nat [of "e - p", where 'a = 16] by simp
    moreover have "cstring s = s" using t(4) by (auto simp: cstring_def str_ok_def takeWhile_eq_all_conv)
    moreover have "blk (?mb\<lparr>mb_pos := p + 1 + length s\<rparr>) xs" using v by (simp only: blk_pos blk_tick)
    ultimately show ?thesis using rd t(5) mem_alloc_total [OF al(1)]
      by (auto simp: rdata_decode_def then_r_def rdata_cmp_def intro!: rdata_readI)
  qed
  show ?thesis if rd: "rd = R_SRV a b c n" for a b c n
  proof -
    have m: "fields_at {} xs start (p + 6) [Name False n] e" "p + 6 \<le> length xs" "read_be16 mb = (a, mb\<lparr>mb_pos := p + 2\<rparr>)"
        "read_be16 (mb\<lparr>mb_pos := p + 2\<rparr>) = (b, mb\<lparr>mb_pos := p + 4\<rparr>)" "read_be16 (mb\<lparr>mb_pos := p + 4\<rparr>) = (c, mb\<lparr>mb_pos := p + 6\<rparr>)"
      using f rd r(3) [OF v p, of a] r(3) [of "mb\<lparr>mb_pos := p + 2\<rparr>" "p + 2" b] r(3) [of "mb\<lparr>mb_pos := p + 4\<rparr>" "p + 4" c] v
      by (auto simp: add.assoc simp del: add_2_eq_Suc')
    then show ?thesis using one [of "p + 6" False n "mb\<lparr>mb_pos := p + 6\<rparr>"] v rd r(1) [OF v p]
      by (auto simp: rdata_decode_def then_r_def rdata_cmp_def intro!: rdata_readI)
  qed
  show ?thesis if rd: "rd = R_SOA m n a b c d g" for m n a b c d g
  proof -
    obtain t1 e1 j1 where n1: "name_at {} xs start p e1 j1 t1" "j1 \<le> 256" "length t1 \<le> 254" "str_casecmp_eq t1 m"
      and f1: "fields_at {} xs start e1 (tl (rdata_fields rd)) e"
      using f unfolding rd rdata_fields.simps list.sel by (rule fields_at_NameE)
    obtain t2 q j2 where n2: "name_at {} xs start e1 q j2 t2" "j2 \<le> 256" "length t2 \<le> 254" "str_casecmp_eq t2 n"
      and f2: "fields_at {} xs start q (tl (tl (rdata_fields rd))) e"
      using f1 unfolding rd rdata_fields.simps list.sel by (rule fields_at_NameE)
    obtain mb1 where d1: "dns_dname_decode al mb start = (Inr t1, mb1)" "blk mb1 xs" "mb_pos mb1 = e1"
      using name [OF n1(1-3) v p] .
    obtain mb2 where d2: "dns_dname_decode al mb1 start = (Inr t2, mb2)" "blk mb2 xs" "mb_pos mb2 = q"
      using name [OF n2(1-3) d1(2,3)] .
    have x: "q + 20 \<le> length xs" "e = q + 20" using f2 rd by auto
    have w: "read_be32 mb2 = (a, mb2\<lparr>mb_pos := q + 4\<rparr>)" "read_be32 (mb2\<lparr>mb_pos := q + 4\<rparr>) = (b, mb2\<lparr>mb_pos := q + 8\<rparr>)"
        "read_be32 (mb2\<lparr>mb_pos := q + 8\<rparr>) = (c, mb2\<lparr>mb_pos := q + 12\<rparr>)"
        "read_be32 (mb2\<lparr>mb_pos := q + 12\<rparr>) = (d, mb2\<lparr>mb_pos := q + 16\<rparr>)"
        "read_be32 (mb2\<lparr>mb_pos := q + 16\<rparr>) = (g, mb2\<lparr>mb_pos := q + 20\<rparr>)"
      using f2 rd d2(2) r(4) [OF d2(2,3), of a] r(4) [of "mb2\<lparr>mb_pos := q + 4\<rparr>" "q + 4" b] r(4) [of "mb2\<lparr>mb_pos := q + 8\<rparr>" "q + 8" c]
        r(4) [of "mb2\<lparr>mb_pos := q + 12\<rparr>" "q + 12" d] r(4) [of "mb2\<lparr>mb_pos := q + 16\<rparr>" "q + 16" g] by (auto simp: add.assoc simp del: add_2_eq_Suc')
    show ?thesis using rd n1(4) n2(4) d1(1) d2 w x r(1) [OF d2(2,3)]
      by (auto simp: rdata_decode_def then_r_def rdata_cmp_def intro!: rdata_readI)
  qed
  show ?thesis if rd: "rd = R_NAPTR a b s1 s2 s3 n" for a b s1 s2 s3 n
  proof -
    let ?p1 = "p + 4 + length (cstr s1)" let ?p2 = "?p1 + length (cstr s2)" let ?p3 = "?p2 + length (cstr s3)"
    have m: "fields_at {} xs start ?p3 [Name False n] e" "p + 4 \<le> length xs" "read_be16 mb = (a, mb\<lparr>mb_pos := p + 2\<rparr>)"
        "read_be16 (mb\<lparr>mb_pos := p + 2\<rparr>) = (b, mb\<lparr>mb_pos := p + 4\<rparr>)"
        "take (length (cstr s1)) (drop (p + 4) xs) = cstr s1" "take (length (cstr s2)) (drop ?p1 xs) = cstr s2"
        "take (length (cstr s3)) (drop ?p2 xs) = cstr s3" "?p1 \<le> length xs" "?p2 \<le> length xs" "?p3 \<le> length xs"
      using f rd r(3) [OF v p, of a] r(3) [of "mb\<lparr>mb_pos := p + 2\<rparr>" "p + 2" b] v by (auto simp: add.assoc simp del: add_2_eq_Suc')
    have s: "str_ok s1" "str_ok s2" "str_ok s3" using ok rd by auto
    obtain mb1 where d1: "dns_cstr_decode al (mb\<lparr>mb_pos := p + 4\<rparr>) = (Inr s1, mb1)" "blk mb1 xs" "mb_pos mb1 = ?p1"
      using cstr_decode_at [OF m(5,8) s(1) _ _ al(1), of "mb\<lparr>mb_pos := p + 4\<rparr>"] v by auto
    obtain mb2 where d2: "dns_cstr_decode al mb1 = (Inr s2, mb2)" "blk mb2 xs" "mb_pos mb2 = ?p2"
      using cstr_decode_at [OF m(6,9) s(2) d1(2,3) al(1)] .
    obtain mb3 where d3: "dns_cstr_decode al mb2 = (Inr s3, mb3)" "blk mb3 xs" "mb_pos mb3 = ?p3"
      using cstr_decode_at [OF m(7,10) s(3) d2(2,3) al(1)] .
    show ?thesis using one [OF m(1) d3(2,3)] m(2-4) d1(1) d2(1) d3(1) rd r(1) [OF v p]
      by (auto simp: rdata_decode_def then_r_def rdata_cmp_def intro!: rdata_readI)
  qed
  show ?thesis if "rd = R_other t" for t using that ok by simp
qed

lemma name_at_less: "name_at H xs start p e j t \<Longrightarrow> p < e"
  by (induction rule: name_at.induct) auto

lemma fields_at_bound: "fields_at H xs start p fs e \<Longrightarrow> p \<le> length xs \<Longrightarrow> p \<le> e \<and> e \<le> length xs"
proof (induction H xs start p fs e rule: fields_at.induct)
  case (3 H xs start p c n fs e)
  then obtain t m j where "name_at H xs start p m j t" "fields_at H xs start m fs e" by auto
  then show ?case using 3(1) [of m] name_at_less [of H xs start p m j t] name_at_bound [of H xs start p m j t] by auto
qed auto

text \<open>The record read back: equal for \<open>dns_rr_cmp\<close>, with the time to live that is left.\<close>

definition rr_same :: "int \<Rightarrow> dnsrr \<Rightarrow> dnsrr \<Rightarrow> bool" where
  "rr_same offs rr' rr \<longleftrightarrow> dns_rr_cmp False rr' rr True \<and> rr_ttl rr' = uint (rr_ttl_sent rr offs)"

lemma rr_decode_at:
  assumes f: "rr_at xs start p rr offs e" and ok: "rr_ok rr" and v: "blk mb xs" and p: "mb_pos mb = p" "p \<le> length xs"
    and al: "alloc_total al" "start + 0x3fff < size_mod"
  shows "\<exists>rr' mb'. dns_rr_decode al mb start = (Inr rr', mb') \<and> rr_same offs rr' rr \<and> blk mb' xs \<and> mb_pos mb' = e"
proof -
  obtain q where q: "fields_at {} xs start p (rr_head rr offs @ [Fixed (be16 (of_nat (e - q)))]) q"
      "fields_at {} xs start q (rdata_fields (rr_rdata rr)) e" "e - q \<le> 0xffff" using f by (auto simp: rr_at_def)
  obtain t k j where n: "name_at {} xs start p k j t" "j \<le> 256" "length t \<le> 254" "str_casecmp_eq t (rr_name rr)"
      and h: "fields_at {} xs start k (tl (rr_head rr offs @ [Fixed (be16 (of_nat (e - q)))])) q"
    using q(1) unfolding rr_head_def append.simps list.sel by (rule fields_at_NameE)
  let ?mb = "mb\<lparr>mb_tick := Suc (mb_tick mb)\<rparr>"
  have b: "blk ?mb xs" "mb_pos ?mb = p" using v p by simp_all
  obtain mb1 where d: "dns_dname_decode al ?mb start = (Inr t, mb1)" "blk mb1 xs" "mb_pos mb1 = k"
    using name_decode_at [OF n(1-3) b al] .
  have x: "q = k + 10" "k + 10 \<le> length xs" using h by (auto simp: rr_head_def)
  let ?at = "\<lambda>i. mb1\<lparr>mb_pos := k + i\<rparr>"
  have at: "blk (?at i) xs" for i using d(2) by simp
  have w: "read_be16 mb1 = (rr_type rr, ?at 2)" "read_be16 (?at 2) = (rr_dnsclass rr, ?at 4)" "read_be32 (?at 4) = (rr_ttl_sent rr offs, ?at 8)"
      "read_be16 (?at 8) = (of_nat (e - q), ?at 10)"
    using h blk_reads(3) [OF d(2,3), of "rr_type rr"] blk_reads(3) [OF at, of 2 "k + 2" "rr_dnsclass rr"]
      blk_reads(4) [OF at, of 4 "k + 4" "rr_ttl_sent rr offs"] blk_reads(3) [OF at, of 8 "k + 8" "of_nat (e - q)"]
    by (auto simp: rr_head_def add.assoc simp del: add_2_eq_Suc')
  obtain rd mb2 where r: "rdata_decode al start (rr_type rr) (of_nat (e - q)) (?at 10) = (Inr rd, mb2)" "rdata_cmp rd (rr_rdata rr)"
      "rd_type rd = rr_type rr" "blk mb2 xs" "mb_pos mb2 = e"
    using rdata_decode_at [OF q(2) _ at [of 10] _ q(3) _ al] ok x by (auto simp: rdata_read_def rr_ok_def)
  have u: "unat (of_nat (e - q) :: u16) = e - q" using q(3) unat_of_nat [of "e - q", where 'a = 16] by simp
  have "e \<le> length xs" using fields_at_bound [OF q(2)] x by simp
  then show ?thesis using d w r n(4) u x blk_reads(1) [OF d(2,3)] blk_reads(1) [OF at [of 10]] mem_alloc_total [OF al(1)]
    by (auto simp: dns_rr_decode_def then_r_def rr_same_def dns_rr_cmp_def)
qed

section \<open>Records of a message\<close>

fun encode_rrs :: "alloc \<Rightarrow> nat \<Rightarrow> int \<Rightarrow> dnsrr list \<Rightarrow> dnames \<Rightarrow> mbuf \<Rightarrow> enc option" where
  "encode_rrs al start offs [] ht mb = Some (None, ht, mb)"
| "encode_rrs al start offs (rr # rrs) ht mb =
     (case dns_rr_encode al mb rr offs ht start of
        None \<Rightarrow> None
      | Some (Some err, ht, mb) \<Rightarrow> Some (Some err, ht, mb)
      | Some (None, ht, mb) \<Rightarrow> encode_rrs al start offs rrs ht mb)"

fun decode_rrs :: "alloc \<Rightarrow> nat \<Rightarrow> nat \<Rightarrow> mbuf \<Rightarrow> (errno + dnsrr list) \<times> mbuf" where
  "decode_rrs al start 0 mb = (Inr [], mb)"
| "decode_rrs al start (Suc n) mb =
     then_r (dns_rr_decode al mb start) (\<lambda>rr mb. then_r (decode_rrs al start n mb) (\<lambda>rrs mb. (Inr (rr # rrs), mb)))"

fun rrs_at :: "byte list \<Rightarrow> nat \<Rightarrow> nat \<Rightarrow> int \<Rightarrow> dnsrr list \<Rightarrow> bool" where
  "rrs_at xs start p offs [] \<longleftrightarrow> p = length xs"
| "rrs_at xs start p offs (rr # rrs) \<longleftrightarrow> (\<exists>e. rr_at xs start p rr offs e \<and> e \<le> length xs \<and> rrs_at xs start e offs rrs)"

lemma decode_rrs_at:
  assumes "rrs_at xs start p offs rrs" and "list_all rr_ok rrs" and "blk mb xs" and "mb_pos mb = p" and "p \<le> length xs"
    and al: "alloc_total al" "start + 0x3fff < size_mod"
  shows "\<exists>rrs' mb'. decode_rrs al start (length rrs) mb = (Inr rrs', mb') \<and> list_all2 (rr_same offs) rrs' rrs \<and> mb_pos mb' = length xs"
  using assms(1-5)
proof (induction rrs arbitrary: p mb)
  case Nil
  then show ?case by simp
next
  case (Cons rr rrs)
  then obtain e where e: "rr_at xs start p rr offs e" "e \<le> length xs" "rrs_at xs start e offs rrs" by auto
  obtain rr' mb1 where d: "dns_rr_decode al mb start = (Inr rr', mb1)" "rr_same offs rr' rr" "blk mb1 xs" "mb_pos mb1 = e"
    using rr_decode_at [OF e(1) _ Cons.prems(3-5) al] Cons.prems(2) by auto
  obtain rrs' mb2 where "decode_rrs al start (length rrs) mb1 = (Inr rrs', mb2)" "list_all2 (rr_same offs) rrs' rrs" "mb_pos mb2 = length xs"
    using Cons.IH [OF e(3) _ d(3,4) e(2)] Cons.prems(2) by auto
  then show ?case using d by (auto simp: then_r_def)
qed

lemma encode_rrs_at:
  assumes "msg_ok {} start xs ht mb" and "list_all rr_ok rrs" and "length xs + sum_list (map rr_room rrs) < size_mod" and al: "alloc_total al"
  shows "\<exists>ht' mb' zs. encode_rrs al start offs rrs ht mb = Some (None, ht', mb') \<and> msg_ok {} start (xs @ zs) ht' mb' \<and>
    rrs_at (xs @ zs) start (length xs) offs rrs"
  using assms(1-3)
proof (induction rrs arbitrary: xs ht mb)
  case Nil
  then show ?case by (auto intro!: exI [of _ "[]"])
next
  case (Cons rr rrs)
  obtain ht1 mb1 ys where y: "dns_rr_encode al mb rr offs ht start = Some (None, ht1, mb1)" "length ys \<le> rr_room rr"
      "msg_ok {} start (xs @ ys) ht1 mb1" "rr_at (xs @ ys) start (length xs) rr offs (length (xs @ ys))"
    using rr_encode_at [OF Cons.prems(1) _ _ al, of rr offs] Cons.prems(2,3) by auto
  obtain ht' mb' zs where z: "encode_rrs al start offs rrs ht1 mb1 = Some (None, ht', mb')" "msg_ok {} start ((xs @ ys) @ zs) ht' mb'"
      "rrs_at ((xs @ ys) @ zs) start (length (xs @ ys)) offs rrs"
    using Cons.IH [OF y(3)] Cons.prems(2,3) y(2) by auto
  have "rrs_at (xs @ ys @ zs) start (length xs) offs (rr # rrs)"
    unfolding rrs_at.simps by (rule exI [of _ "length (xs @ ys)"]) (use rr_at_append [OF y(4), of zs] z(3) in auto)
  then show ?case using z(1,2) y(1) by (intro exI [of _ ht'] exI [of _ mb'] exI [of _ "ys @ zs"]) auto
qed

text \<open>C19: Resource records of the types the encoder knows (A, NS, CNAME, SOA, PTR, MX, TXT, AAAA, SRV, NAPTR), whose names have
  labels of 1 to 63 bytes and at most 254 bytes in all, without a zero byte and without a dot at the end, and whose texts have at most 255
  bytes and no zero byte, are written one after the other at the end of a message, with a fresh table of names; with memory, and while the message fits in
  \<open>size_t\<close>, this returns and succeeds. Read back, they are the same for \<open>dns_rr_cmp\<close>, data included, their time to live is the one that was
  sent, and the cursor ends where the last record ends: the length of the data, which is written over afterwards, is
  right. (A longer text keeps the encoder from returning and another type is refused.)\<close>

theorem dns_rr_roundtrip:
  assumes "mbuf_ok mb" and "mb_after mb = []" and "start \<le> mb_pos mb" and "start + 0x3fff < size_mod"
    and "mb_pos mb + sum_list (map rr_room rrs) < size_mod" and "list_all rr_ok rrs" and "hash_alloc m1 m2 n = Inr h"
    and "alloc_total al" and "alloc_total al2"
  shows "\<exists>ht mb1 rrs' mb2. encode_rrs al start offs rrs (Some h) mb = Some (None, ht, mb1)
    \<and> decode_rrs al2 start (length rrs) (mbuf_set_pos mb1 (mb_pos mb)) = (Inr rrs', mb2)
    \<and> list_all2 (rr_same offs) rrs' rrs \<and> mb_pos mb2 = mb_end mb1"
proof -
  let ?xs = "mb_before mb"
  have l: "length ?xs = mb_pos mb" using assms(1) by simp
  have "msg_ok {} start ?xs (Some h) mb"
    using mbvI [OF assms(1)] assms(2,3) l fresh_table [OF assms(7)] by (simp add: msg_ok_def)
  then obtain ht mb1 zs where z: "encode_rrs al start offs rrs (Some h) mb = Some (None, ht, mb1)" "msg_ok {} start (?xs @ zs) ht mb1"
      "rrs_at (?xs @ zs) start (length ?xs) offs rrs"
    using encode_rrs_at [OF _ assms(6) _ assms(8), of start ?xs "Some h" mb offs] assms(5) l by auto
  then have v: "mbv mb1 (length (?xs @ zs)) (?xs @ zs)" by (simp add: msg_ok_def)
  have "blk (mbuf_set_pos mb1 (mb_pos mb)) (?xs @ zs)" using mbv_blk [OF v] by (simp add: mbuf_set_pos_def)
  from decode_rrs_at [OF z(3) assms(6) this _ _ assms(9,4)] show ?thesis
    using z(1) l mbvD(3) [OF v] by (auto simp: mbuf_set_pos_def)
qed

text \<open>An address and a name server; the second record repeats the name of the first.\<close>

definition demo_rrs :: "dnsrr list" where
  "demo_rrs =
     [\<lparr>rr_name = [97], rr_dnsclass = 1, rr_ttl = 70, rr_rdlen = 0, rr_rdata = R_A 0x0a000001\<rparr>,
      \<lparr>rr_name = [65], rr_dnsclass = 1, rr_ttl = 5, rr_rdlen = 0, rr_rdata = R_NS [98, 46, 97]\<rparr>]"

theorem dns_rr_roundtrip_witness:
  "\<exists>ht mb rrs' mb2. encode_rrs al_zero 0 10 demo_rrs (Some demo_table) demo_mb = Some (None, ht, mb) \<and>
     decode_rrs al_zero 0 2 (mbuf_set_pos mb 0) = (Inr rrs', mb2) \<and> list_all2 (rr_same 10) rrs' demo_rrs"
proof -
  have "list_all rr_ok demo_rrs" by (simp add: demo_rrs_def rr_ok_def name_ok_def)
  moreover have "length demo_rrs = 2" by (simp add: demo_rrs_def)
  moreover have "sum_list (map rr_room demo_rrs) < size_mod" by (simp add: demo_rrs_def rr_room_def size_mod_def)
  moreover have "(0x3fff :: nat) < size_mod" by (simp add: size_mod_def)
  ultimately show ?thesis
    using dns_rr_roundtrip [OF demo_ok(1,2) _ _ _ _ demo_ok(4) al_zero_total al_zero_total, of 0 demo_rrs 10] unfolding demo_ok(3) by auto
qed

section \<open>Long texts\<close>

lemma txt_rest: "\<exists>err' mb'. txt_step al (err, data, mb) = (err', drop (length data mod 256) data, mb')"
proof -
  have "unat (of_nat (length data) :: u8) = length data mod 256" by (simp add: unat_of_nat)
  moreover from this have "(of_nat (length data) :: u8) \<le> 0xff" by (simp add: word_le_nat_alt)
  then have "min (of_nat (length data)) (0xff :: u8) = of_nat (length data)" by simp
  ultimately show ?thesis by (simp add: txt_step_def Let_def split: prod.splits)
qed

definition txt_stuck :: "errno option \<times> byte list \<times> mbuf \<Rightarrow> bool" where
  "txt_stuck s \<longleftrightarrow> (case s of (err, data, mb) \<Rightarrow> 0 < length data \<and> length data mod 256 = 0)"

lemma txt_stays_stuck:
  assumes "256 \<le> length data"
  shows "txt_stuck (txt_step al (err, data, mb))"
proof -
  obtain err' mb' where "txt_step al (err, data, mb) = (err', drop (length data mod 256) data, mb')" using txt_rest by blast
  moreover have "length data mod 256 < 256" by simp
  then have "0 < length data - length data mod 256" using assms by linarith
  moreover have "(length data - length data mod 256) mod 256 = 0" by (simp add: minus_mod_eq_mult_div)
  ultimately show ?thesis by (simp add: txt_stuck_def)
qed

lemma txt_encode_diverges:
  assumes "256 \<le> length data"
  shows "txt_encode al data r = None"
proof -
  obtain err ht mb where r: "r = (err, ht, mb)" by (cases r)
  let ?s = "txt_step al (err, data, mb)"
  have "txt_stuck ((txt_step al ^^ k) ?s)" for k
  proof (induction k)
    case 0
    then show ?case using txt_stays_stuck [OF assms] by simp
  next
    case (Suc k)
    obtain e d m where s: "(txt_step al ^^ k) ?s = (e, d, m)" by (cases "(txt_step al ^^ k) ?s") auto
    with Suc have "256 \<le> length d" by (auto simp: txt_stuck_def mod_eq_0_iff_dvd dest!: dvd_imp_le)
    then show ?case using s txt_stays_stuck by simp
  qed
  then have "case (txt_step al ^^ k) ?s of (err, data, mb) \<Rightarrow> length data > 0" for k
    by (cases "(txt_step al ^^ k) ?s") (metis (mono_tags, lifting) case_prod_conv txt_stuck_def)
  then have "while_option (\<lambda>(err, data, mb). length data > 0) (txt_step al) ?s = None"
    unfolding while_option_def by (simp add: case_prod_beta)
  then show ?thesis using r by (simp add: txt_encode_def)
qed

text \<open>C39:
  The loop over the text of a TXT record does not return when the text has 256 bytes or more: the length of a piece is the length that is
  left reduced to 8 bits, not the minimum of it and 255, so that after the first piece it is 0 for ever.
\<close>

theorem dns_txt_diverges:
  assumes "rr_rdata rr = R_TXT data" and "256 \<le> length data"
  shows "dns_rr_encode al mb rr offs ht start = None"
  using assms txt_encode_diverges [OF assms(2)] by (simp add: dns_rr_encode_def Let_def)

theorem dns_txt_diverges_witness:
  "dns_rr_encode al_zero (mbuf_of []) \<lparr>rr_name = [97], rr_dnsclass = 1, rr_ttl = 60, rr_rdlen = 0, rr_rdata = R_TXT (replicate 300 97)\<rparr> 0 None 0 = None"
  by (rule dns_txt_diverges [where data = "replicate 300 97"]) simp_all

section \<open>The decoder of records stays in bounds\<close>

text \<open>Only the cursor moves: forwards and within the buffer when the step succeeds, anywhere when it fails.\<close>

definition frame :: "mbuf \<Rightarrow> mbuf \<Rightarrow> bool" where
  "frame mb mb' \<longleftrightarrow> \<not> mb_ub mb' \<and> mb_buf mb' = mb_buf mb \<and> mb_size mb' = mb_size mb \<and> mb_end mb' = mb_end mb"

definition safe_r :: "mbuf \<Rightarrow> (errno + 'a) \<times> mbuf \<Rightarrow> bool" where
  "safe_r mb res \<longleftrightarrow> (case res of (Inl _, mb') \<Rightarrow> frame mb mb' | (Inr _, mb') \<Rightarrow> reads mb mb')"

lemma reads_frame: "reads a mb \<Longrightarrow> frame a mb"
  by (simp add: reads_def frame_def mbuf_ok_def)

lemma safe_rI: "reads a mb \<Longrightarrow> safe_r a (Inl e, mb)" "reads a mb \<Longrightarrow> safe_r a (Inr x, mb)"
  by (simp_all add: safe_r_def reads_frame)

lemma safe_then: "safe_r a r \<Longrightarrow> (\<And>x mb. reads a mb \<Longrightarrow> safe_r a (f x mb)) \<Longrightarrow> safe_r a (then_r r f)"
  by (cases r; cases "fst r") (auto simp: safe_r_def then_r_def)

lemma safe_name:
  assumes "reads a mb"
  shows "safe_r a (dns_dname_decode al mb start)"
  using decode_frame [of mb al start] reads_ok [OF assms] assms
  by (cases "dns_dname_decode al mb start") (auto simp: safe_r_def frame_def reads_def mbuf_ok_def split: sum.splits)

lemma safe_cstr:
  assumes "reads a mb"
  shows "safe_r a (dns_cstr_decode al mb)"
proof -
  obtain c mb1 where c: "mbuf_read_u8 mb = (c, mb1)" by fastforce
  then have r1: "reads a mb1" using reads_prims(1) [OF assms] by simp
  obtain e s mb2 where d: "mbuf_strdup al mb1 (unat c) = (e, s, mb2)" by (cases "mbuf_strdup al mb1 (unat c)") auto
  then have "reads a mb2" using reads_strdup [OF r1, of al "unat c"] by simp
  then show ?thesis using c d r1 assms by (auto simp: dns_cstr_decode_def intro: safe_rI split: option.split)
qed

lemma read_mem_length: "mbuf_read_mem mb n = (None, bs, mb') \<Longrightarrow> length bs = n"
  by (auto simp: mbuf_read_mem_def mem_load_def split: if_splits prod.splits)

lemma safe_txt: "reads a mb \<Longrightarrow> length data + n < cap \<Longrightarrow> safe_r a (txt_decode_loop cap n data mb)"
proof (induction n arbitrary: data mb rule: less_induct)
  case (less n)
  obtain c mb1 where c: "mbuf_read_u8 mb = (c, mb1)" by fastforce
  then have r1: "reads a mb1" using reads_prims(1) [OF less.prems(1)] by simp
  obtain e bs mb2 where d: "mbuf_read_mem mb1 (unat c) = (e, bs, mb2)" by (cases "mbuf_read_mem mb1 (unat c)") auto
  then have r2: "reads a mb2" using reads_prims(4) [OF r1, of "unat c"] by simp
  have len: "e = None \<Longrightarrow> length bs = unat c" using d read_mem_length by simp
  show ?case
  proof (cases "n > 0 \<and> unat c \<le> n - 1 \<and> e = None")
    case True
    with less.prems(2) len have room: "length (data @ bs) + (n - 1 - unat c) < cap" by auto
    then have "txt_room cap (length data + length bs) mb2 = mb2" by (simp add: txt_room_def)
    with less.IH [OF _ r2 room] True c d show ?thesis
      by (subst txt_decode_loop.simps) simp
  next
    case False
    with less.prems c d r1 r2 show ?thesis
      by (subst txt_decode_loop.simps) (auto simp: txt_room_def intro: safe_rI split: option.split)
  qed
qed

lemma reads_skip_data:
  assumes "reads a mb" and "n \<le> mbuf_get_left mb"
  shows "reads a (mb\<lparr>mb_pos := size_add (mb_pos mb) n\<rparr>)"
proof -
  have ok: "mbuf_ok mb" using assms(1) by auto
  then have "n \<le> length (mb_after mb)" using assms(2) by (simp add: mbuf_get_left_after del: length_mb_after)
  moreover have "mb_pos mb + n < size_mod" using ok calculation length_mb_after [OF ok] unfolding mbuf_ok_def by linarith
  ultimately show ?thesis using reads_adv [OF assms(1)] by (simp add: mb_adv_def)
qed

lemma safe_rdata:
  assumes r: "reads a mb" and left: "unat rdlen \<le> mbuf_get_left mb"
  shows "safe_r a (rdata_decode al start ty rdlen mb)"
proof -
  note p = reads_prims and ok = safe_rI
  have mem: "safe_r a (case mbuf_read_mem mb 16 of (Some err, _, mb) \<Rightarrow> (Inl err, mb) | (None, addr, mb) \<Rightarrow> (Inr (R_AAAA addr), mb))"
    using p(4) [OF r, of 16] by (cases "mbuf_read_mem mb 16") (auto intro: ok split: option.split)
  have tx: "safe_r a (case mem_alloc al (unat rdlen + 1) mb of (ok, mb) \<Rightarrow>
           if \<not> ok then (Inl ENOMEM, mb) else then_r (txt_decode_loop (unat rdlen + 1) (unat rdlen) [] mb) (\<lambda>data mb. (Inr (R_TXT (cstring data)), mb)))"
    using reads_tick [OF r] by (auto simp: mem_alloc_def intro!: ok safe_then safe_txt)
  show ?thesis
    unfolding rdata_decode_def Let_def
    using r left mem tx
    by (auto simp: case_prod_beta intro!: safe_then safe_name safe_cstr ok p reads_skip_data)
qed

text \<open>C26:
  The decoder of a resource record on any buffer: it returns, loads no byte outside the block, and changes nothing but the cursor; when it gives
  a record, the cursor has moved forwards and is still within the buffer. So the loop over the records of a message ends.
\<close>

theorem dns_rr_decode_safe:
  assumes "mbuf_ok mb"
  shows "case dns_rr_decode al mb start of
      (Inl err, mb') \<Rightarrow> frame mb mb'
    | (Inr rr, mb') \<Rightarrow> reads mb mb' \<and> mb_pos mb < mb_pos mb' \<and> length (rr_name rr) \<le> 255"
proof (cases "al (mb_tick mb) sizeof_dnsrr = None")
  case True
  then show ?thesis using assms by (simp add: dns_rr_decode_def mem_alloc_def frame_def mbuf_ok_def)
next
  case False
  let ?mb = "mb\<lparr>mb_tick := Suc (mb_tick mb)\<rparr>"
  let ?rest = "\<lambda>name mb. if mbuf_get_left mb < 10 then (Inl EINVAL, mb)
      else (let (ty, mb) = read_be16 mb; (dnsclass, mb) = read_be16 mb; (ttl, mb) = read_be32 mb; (rdlen, mb) = read_be16 mb
         in if mbuf_get_left mb < unat rdlen then (Inl EINVAL, mb)
            else then_r (rdata_decode al start ty rdlen mb) (\<lambda>rdata mb.
              (Inr \<lparr>rr_name = name, rr_dnsclass = dnsclass, rr_ttl = uint ttl, rr_rdlen = rdlen, rr_rdata = rdata\<rparr>, mb)))"
  have ok: "mbuf_ok ?mb" using assms by (simp add: mbuf_tick_ok)
  obtain r mb1 where d: "dns_dname_decode al ?mb start = (r, mb1)" by fastforce
  have enc: "dns_rr_decode al mb start = then_r (r, mb1) ?rest" using False d by (simp add: dns_rr_decode_def mem_alloc_def)
  show ?thesis
  proof (cases r)
    case (Inl e)
    then have "frame mb mb1" using decode_frame [OF ok, of al start] d assms by (auto simp: frame_def mbuf_ok_def)
    then show ?thesis using enc Inl by (simp add: then_r_def)
  next
    case (Inr name)
    have m1: "reads ?mb mb1" "mb_pos mb < mb_pos mb1" "length name \<le> 255" using decode_frame [OF ok, of al start] d Inr by auto
    have "safe_r mb1 (?rest name mb1)"
      using m1 by (auto simp: Let_def case_prod_beta intro!: safe_then safe_rdata safe_rI reads_prims)
    moreover have "rr_name rr = name" if "?rest name mb1 = (Inr rr, mb')" for rr mb'
      using that by (auto simp: Let_def then_r_def split: if_splits prod.splits sum.splits)
    ultimately show ?thesis using enc Inr m1
      by (cases "?rest name mb1") (auto simp: then_r_def safe_r_def frame_def reads_def split: sum.splits)
  qed
qed

theorem dns_rr_decode_safe_witness:
  "case dns_rr_decode al_zero (mbuf_of [0, 0, 16, 0, 1, 0, 0, 0, 9, 0, 2, 1, 97]) 0 of
      (Inl err, mb') \<Rightarrow> frame (mbuf_of [0, 0, 16, 0, 1, 0, 0, 0, 9, 0, 2, 1, 97]) mb'
    | (Inr rr, mb') \<Rightarrow> reads (mbuf_of [0, 0, 16, 0, 1, 0, 0, 0, 9, 0, 2, 1, 97]) mb'
        \<and> mb_pos (mbuf_of [0, 0, 16, 0, 1, 0, 0, 0, 9, 0, 2, 1, 97]) < mb_pos mb' \<and> length (rr_name rr) \<le> 255"
  by (rule dns_rr_decode_safe) (simp add: mbuf_of_view size_mod_def)

section \<open>Headers\<close>

definition hdr_ok :: "dnshdr \<Rightarrow> bool" where
  "hdr_ok hdr \<longleftrightarrow> hdr_opcode hdr < 16 \<and> hdr_z hdr < 8 \<and> hdr_rcode hdr < 16"

definition hdr_bytes :: "dnshdr \<Rightarrow> byte list" where
  "hdr_bytes hdr = be16 (hdr_id hdr) @ be16 (hdr_flags hdr) @ be16 (hdr_nq hdr) @ be16 (hdr_nans hdr) @ be16 (hdr_nauth hdr) @ be16 (hdr_nadd hdr)"

lemma hdr_writes: "writes (\<lambda>mb. dns_hdr_encode al mb hdr) (hdr_bytes hdr)"
proof -
  note w = writes_prims(3) [of al] and a = mbcur.writer_also
  show ?thesis
    using a [OF a [OF a [OF a [OF a [OF w [of "hdr_id hdr"] w [of "hdr_flags hdr"]] w [of "hdr_nq hdr"]] w [of "hdr_nans hdr"]]
        w [of "hdr_nauth hdr"]] w [of "hdr_nadd hdr"]]
    by (simp add: dns_hdr_encode_def hdr_bytes_def)
qed

lemma small_bit: "(w :: u8) < 2 ^ k \<Longrightarrow> k \<le> n \<Longrightarrow> \<not> bit w n"
  by (metis bit_take_bit_iff less_mask_eq not_le take_bit_eq_mask word_less_nat_alt)

lemma hdr_flags_fields:
  assumes "hdr_ok hdr"
  shows "bit (hdr_flags hdr) 15 = hdr_qr hdr" and "0xf AND ucast (drop_bit 11 (hdr_flags hdr)) = hdr_opcode hdr"
    and "bit (hdr_flags hdr) 10 = hdr_aa hdr" and "bit (hdr_flags hdr) 9 = hdr_tc hdr" and "bit (hdr_flags hdr) 8 = hdr_rd hdr"
    and "bit (hdr_flags hdr) 7 = hdr_ra hdr" and "0x7 AND ucast (drop_bit 4 (hdr_flags hdr)) = hdr_z hdr"
    and "0xf AND ucast (hdr_flags hdr) = hdr_rcode hdr"
proof -
  have lt: "hdr_opcode hdr < 2 ^ 4" "hdr_z hdr < 2 ^ 3" "hdr_rcode hdr < 2 ^ 4" using assms by (simp_all add: hdr_ok_def)
  note small = small_bit [OF lt(1)] small_bit [OF lt(2)] small_bit [OF lt(3)]
  have masks: "(0xf :: u8) = mask 4" "(0x7 :: u8) = mask 3" by code_simp+
  note bits = hdr_flags_def bit_or_iff bit_push_bit_iff bit_of_bool_iff bit_unsigned_iff
  show "bit (hdr_flags hdr) 15 = hdr_qr hdr" "bit (hdr_flags hdr) 10 = hdr_aa hdr" "bit (hdr_flags hdr) 9 = hdr_tc hdr"
    "bit (hdr_flags hdr) 8 = hdr_rd hdr" "bit (hdr_flags hdr) 7 = hdr_ra hdr"
    using small by (simp_all add: bits)
  show "0xf AND ucast (drop_bit 11 (hdr_flags hdr)) = hdr_opcode hdr"
    unfolding masks
  proof (rule bit_word_eqI)
    fix n
    assume "n < LENGTH(8)"
    then show "bit (mask 4 AND ucast (drop_bit 11 (hdr_flags hdr)) :: u8) n = bit (hdr_opcode hdr) n"
      using small by (cases "n < 4") (auto simp: bits bit_and_iff bit_mask_iff bit_drop_bit_eq)
  qed
  show "0x7 AND ucast (drop_bit 4 (hdr_flags hdr)) = hdr_z hdr"
    unfolding masks
  proof (rule bit_word_eqI)
    fix n
    assume "n < LENGTH(8)"
    then show "bit (mask 3 AND ucast (drop_bit 4 (hdr_flags hdr)) :: u8) n = bit (hdr_z hdr) n"
      using small by (cases "n < 3") (auto simp: bits bit_and_iff bit_mask_iff bit_drop_bit_eq)
  qed
  show "0xf AND ucast (hdr_flags hdr) = hdr_rcode hdr"
    unfolding masks
  proof (rule bit_word_eqI)
    fix n
    assume "n < LENGTH(8)"
    then show "bit (mask 4 AND ucast (hdr_flags hdr) :: u8) n = bit (hdr_rcode hdr) n"
      using small by (cases "n < 4") (auto simp: bits bit_and_iff bit_mask_iff)
  qed
qed

lemma hdr_decode_at:
  assumes "hdr_ok hdr" and ok: "mbuf_ok mb" and a: "mb_after mb = hdr_bytes hdr @ rest"
  shows "dns_hdr_decode mb = (Inr hdr, mb_adv mb 12)"
proof -
  have l: "12 \<le> length (mb_after mb)" unfolding a by (simp add: hdr_bytes_def)
  have w: "read_be16 (mb_adv mb i) = (v, mb_adv mb (i + 2))" if "take 2 (drop i (hdr_bytes hdr)) = be16 v" "i \<le> 10" for i v
  proof -
    have "take 2 (mb_after (mb_adv mb i)) = be16 v" using that a by (simp add: hdr_bytes_def)
    then show ?thesis using reads_at(3) [of "mb_adv mb i"] ok l that(2) by (simp del: length_mb_after)
  qed
  have r: "read_be16 mb = (hdr_id hdr, mb_adv mb 2)" "read_be16 (mb_adv mb 2) = (hdr_flags hdr, mb_adv mb 4)"
      "read_be16 (mb_adv mb 4) = (hdr_nq hdr, mb_adv mb 6)" "read_be16 (mb_adv mb 6) = (hdr_nans hdr, mb_adv mb 8)"
      "read_be16 (mb_adv mb 8) = (hdr_nauth hdr, mb_adv mb 10)" "read_be16 (mb_adv mb 10) = (hdr_nadd hdr, mb_adv mb 12)"
    using w [of 0 "hdr_id hdr"] w [of 2 "hdr_flags hdr"] w [of 4 "hdr_nq hdr"] w [of 6 "hdr_nans hdr"] w [of 8 "hdr_nauth hdr"]
      w [of 10 "hdr_nadd hdr"] by (simp_all add: hdr_bytes_def numeral_2_eq_2 [symmetric])
  have "\<not> mbuf_get_left mb < 12" using l mbuf_get_left_after [OF ok] by (simp del: length_mb_after)
  then show ?thesis using r hdr_flags_fields [OF assms(1)] by (simp add: dns_hdr_decode_def DNS_HEADER_SIZE_def)
qed

text \<open>
  A DNS header whose fields have their widths is written and read back unchanged, with the cursor behind its twelve bytes.
\<close>

theorem dns_hdr_roundtrip:
  assumes "hdr_ok hdr" and "mbuf_ok mb" and "mb_pos mb + 12 < size_mod" and "alloc_total al"
  shows "\<exists>mb1. dns_hdr_encode al mb hdr = (None, mb1) \<and> dns_hdr_decode (mbuf_set_pos mb1 (mb_pos mb)) = (Inr hdr, mb1)"
proof -
  have "fst (dns_hdr_encode al mb hdr) = None"
    using writes_total(3) [OF assms(4)] by (simp add: dns_hdr_encode_def also_err_def case_prod_beta)
  then obtain mb1 where e: "dns_hdr_encode al mb hdr = (None, mb1)" by (cases "dns_hdr_encode al mb hdr") auto
  have l: "length (hdr_bytes hdr) = 12" by (simp add: hdr_bytes_def)
  note b = writes_back [OF hdr_writes assms(2) _ e, unfolded l, OF assms(3)]
  show ?thesis using e hdr_decode_at [OF assms(1) b(1,2)] b(3) by simp
qed

theorem dns_hdr_roundtrip_witness:
  "\<exists>mb1. dns_hdr_encode al_zero demo_mb \<lparr>hdr_id = 7, hdr_qr = True, hdr_opcode = 4, hdr_aa = False, hdr_tc = True, hdr_rd = True,
       hdr_ra = False, hdr_z = 5, hdr_rcode = 3, hdr_nq = 1, hdr_nans = 2, hdr_nauth = 0, hdr_nadd = 9\<rparr> = (None, mb1)
     \<and> dns_hdr_decode (mbuf_set_pos mb1 0) = (Inr \<lparr>hdr_id = 7, hdr_qr = True, hdr_opcode = 4, hdr_aa = False, hdr_tc = True, hdr_rd = True,
       hdr_ra = False, hdr_z = 5, hdr_rcode = 3, hdr_nq = 1, hdr_nans = 2, hdr_nauth = 0, hdr_nadd = 9\<rparr>, mb1)"
  using dns_hdr_roundtrip [OF _ demo_ok(1) _ al_zero_total] unfolding demo_ok(3) by (simp add: hdr_ok_def size_mod_def)

end
