(* ===== verification/Spec2Isabelle.thy ===== *)
theory Spec2Isabelle
  imports Mbuf Linked_List Base64 Srtp_Replay Rtp Rtp_Source Hash Rtcp_Pkt Rtcp_Sess Jbuf Srtcp Stun_Session Telev Tmr Sip_Session Sip_Request Sip_Recv Dns_Rr
begin

text \<open>
  The media path of a SIP telephone for the ESP32 and the protocol machines around it: the real-time stack, SIP
  transactions, STUN, telephone events and timers of \<open>components/re\<close> and the jitter buffer of \<open>components/baresip\<close>, with the
  containers they stand on.

  \<^bold>\<open>How the parts work together.\<close> A sender builds a packet in a memory buffer (\<open>re/src/mbuf\<close>), puts an
  RTP header in front (\<open>re/src/rtp/rtp.c\<close>), encrypts and authenticates it (\<open>re/src/srtp\<close>) and hands
  it to the socket. A receiver decrypts, decodes the header, keeps reception statistics
  (\<open>rtp/source.c\<close>) per member in a hash table (\<open>re/src/hash\<close>, \<open>re/src/list\<close>) and reorders the
  packets in a jitter buffer (\<open>baresip/src/jbuf.c\<close>). The statistics go out in RTCP reports
  (\<open>rtp/pkt.c\<close>, \<open>rr.c\<close>, \<open>sdes.c\<close>, \<open>fb.c\<close>) under the session control of \<open>rtp/sess.c\<close>. Keypad digits travel in
  the same packets (\<open>re/src/telev\<close>). The public address of the media port is asked for by STUN requests
  (\<open>re/src/stun\<close>), whose messages are built from attributes with socket addresses (\<open>re/src/sa\<close>), protected by
  a keyed hash and a CRC-32 (\<open>re/src/crc32\<close>) and retransmitted by timers (\<open>re/src/tmr\<close>). Calls are set up by SIP
  requests, each carried by a client transaction on one side and a server transaction on the other
  (\<open>re/src/sip/request.c\<close>, \<open>ctrans.c\<close>, \<open>strans.c\<close>); STUN and SIP share a socket (\<open>transp.c\<close>). Where a request goes is
  looked up in the DNS (\<open>re/src/dns\<close>).

  \<^bold>\<open>Theories and sources.\<close>
  \<^item> Prelude: error numbers as the datatype \<open>errno\<close>, the word types, little-endian bytes of a word and
    the shared automation.
  \<^item> Mbuf: \<open>re/src/mbuf/mbuf.c\<close> and \<open>re_mbuf.h\<close>. A buffer is a block of bytes with cursor, end and
    size as 32-bit \<open>size_t\<close>; every load and store goes through a bounds check that sets the ghost flag
    \<open>mb_ub\<close> where the C code would leave the block. The allocator is a parameter of the operations that
    grow a buffer. Shown: no operation leaves the block while the caller keeps its arguments in range, writes
    refine an abstract byte string with a cursor, integers are read back as written, and the one function that can
    overflow (\<open>mbuf_fill\<close>).
  \<^item> Linked_List: \<open>re/src/list/list.c\<close> on an explicit heap of cells; every operation refines one on
    lists of cell addresses and leaves the other lists alone, sorting gives a sorted permutation, all loops end.
  \<^item> Base64: \<open>re/src/base64/b64.c\<close> with the output block and its capacity: round trip, lengths, and when the
    decoder stores outside the block.
  \<^item> Srtp_Replay: \<open>re/src/srtp/replay.c\<close>: the window accepts an index at most once and loses none inside
    the window. The locale \<open>replay_guard\<close> is the contract Srtp relies on.
  \<^item> Wire and Mbuf_View: no source of their own; the contracts of encoders and decoders (locales
    \<open>writer\<close>, \<open>codec\<close>), network byte order, and the view of a buffer as its bytes with a cursor.
  \<^item> Rtp: \<open>re/src/rtp/rtp.c\<close>: header codec, sending and resending. Rtp_Source: \<open>source.c\<close>, \<open>ntp.c\<close>.
  \<^item> Hash: \<open>re/src/hash/hash.c\<close> over the list contract.
  \<^item> Rtcp_Blocks, Rtcp_Pkt: \<open>hdr.c\<close>, \<open>rr.c\<close>, \<open>sdes.c\<close>, \<open>fb.c\<close>, \<open>pkt.c\<close>: encoder and decoder of every
    packet type; the encoder writes the layout of each type, the decoder never reads outside a datagram.
    Rtcp_Sess: \<open>sess.c\<close>, \<open>member.c\<close>: membership, the counters of members and senders, reports and statistics;
    the report of a session decodes to its counters and one block for each sender.
  \<^item> Jbuf: \<open>baresip/src/jbuf.c\<close> as a transition system over its five operations, with the packet pool,
    payload references, adaptive size and timers. It refines insertion into a sorted list and
    hands packets out in order while their numbers stay within half the number space of a base.
  \<^item> Srtp, Srtcp: \<open>srtp.c\<close>, \<open>stream.c\<close>, \<open>misc.c\<close> and \<open>srtcp.c\<close>: sessions, key derivation, index
    estimation, encryption, authentication, replay. The theorems compose Mbuf, Rtp and Srtp_Replay: a session
    delivers what was sealed, across wraps and bounded losses, and takes no packet twice.
  \<^item> Crc32: \<open>re/src/crc32\<close>: the table routine is the bitwise checksum and finds every short burst of
    errors. Sa: \<open>re/src/sa/sa.c\<close>: addresses and ports as the attributes carry them. Endian and Mbuf_Region: no source
    of their own beyond the byte swaps; reading and writing inside a region of a buffer.
  \<^item> Stun_Attr, Stun_Msg: \<open>stun/addr.c\<close>, \<open>attr.c\<close>, \<open>hdr.c\<close>, \<open>msg.c\<close>: encoder and decoder of every attribute and of
    whole messages, with integrity and fingerprint. The decoder stays inside every datagram and gives
    each attribute the member of the union its type asks for; what the encoder builds comes back, the class
    for methods with bits 4 and 6 clear.
  \<^item> Stun_Ctrans, Stun_Session: \<open>stun/ctrans.c\<close>, \<open>stun.c\<close>, \<open>req.c\<close>, \<open>rep.c\<close>, \<open>ind.c\<close> as a transition system whose
    outputs are datagrams and calls of handlers: the schedule of retransmissions, one answer for every transaction,
    authentication of the response, and a whole exchange with a server.
  \<^item> Telev: \<open>re/src/telev/telev.c\<close>: the digits pressed are the digits reported, under loss of all but one
    packet of each start and end.
  \<^item> Tmr: \<open>re/src/tmr/tmr.c\<close>: starting a timer refines insertion into an ordered queue; a poll returns,
    calls what is due in order and leaves nothing due; the wait given to the main loop is exact.
  \<^item> Ledger: no source of its own; the locale \<open>ledger\<close> relates a table of transactions to an automaton over their
    outputs, the contract with their users. Sip_Ctrans, Sip_Strans: \<open>sip/ctrans.c\<close> and \<open>strans.c\<close> as transition systems that
    refine such contracts; the schedule of retransmissions. Sip_Session: both sides of a refused call. Sip_Request: parts
    of \<open>request.c\<close>: cancelling and loop detection. Sip_Recv: the dispatch of datagrams in \<open>transp.c\<close>, over
    Stun_Ctrans and the transactions.
  \<^item> Dns_Name: \<open>dns/dname.c\<close> and the hash of names in \<open>hash/func.c\<close>: names with compression come back, up to the case of
    letters; the decoder stays inside the message and its array on the stack, and ends. Dns_Rr: \<open>hdr.c\<close>, \<open>cstr.c\<close>, \<open>rr.c\<close>: header and
    records of the known types with valid names and short texts come back; the decoder stays in bounds; the encoder of long texts does not return.

  \<^bold>\<open>State, errors, loops.\<close> Structures are records, a function that changes one returns it; pointers into
  shared cells (lists, hash table) are addresses into a heap. A returned error number is \<open>Some\<close> of
  type \<open>errno\<close>, success is \<open>None\<close>. Arguments are non-NULL unless an option type says otherwise. A loop is
  structural recursion where it walks a list the model holds, a function with a measure where it
  counts, and \<open>while_option\<close> or a partial function where the C loop may not end; there \<open>None\<close> is
  no return or a NULL dereference, and theorems that the code returns are stated as such. No fuel is
  used. Machine integers are words; \<open>size_t\<close> is 32 bits as on the ESP32 (\<open>size_mod\<close>).

  \<^bold>\<open>Parameters.\<close> The allocator, the clocks, the socket, the AES and HMAC libraries
  (record \<open>crypto\<close>, laws \<open>crypto_ok\<close>, which \<open>xor_crypto\<close> satisfies; \<open>hm\<close> for the HMAC of STUN, of which only
  the length of its result matters), the handlers of timers, the transport and the message decoder of SIP (record
  \<open>env\<close>) and float division in the jitter estimate are arguments of the definitions that use them.

  \<^bold>\<open>Not modelled.\<close> Sockets, threads, main loop and TLS are input and output or bindings; operations run one
  after the other, also where the code releases a lock in between (\<open>rtp/sess.c\<close>). The parsing and printing of
  SIP messages, SIP dialogs, SDP, ICE, TURN, the DNS client, the text formatting and the call control of baresip are not
  covered: they work on formatted text and on callbacks across many files. Audio and video devices, codecs and the vendored signal
  processing are outside.
\<close>

section \<open>The media path\<close>

text \<open>
  A frame of media with its marker, payload type and timestamp, in a buffer with room for the
  header. The sender numbers and frames it with \<open>rtp_send\<close>; the buffer goes through \<open>srtp_encrypt\<close> on its
  way to the socket, as the SRTP module does in its UDP helper.
\<close>

type_synonym frame = "bool \<times> u8 \<times> u32 \<times> mbuf"

primrec media_send :: "'a crypto \<Rightarrow> alloc \<Rightarrow> rtp_sock \<Rightarrow> 'a srtp \<Rightarrow> frame list \<Rightarrow> mbuf list option" where
  "media_send cr al rs tx [] = Some []"
| "media_send cr al rs tx (f # fs) =
     (case f of (marker, pt, ts, mb) \<Rightarrow>
        (case rtp_send (\<lambda>_. None) al rs False marker pt ts 0 mb of
           (Some _, _, _, _) \<Rightarrow> None
         | (None, rs, mb, _) \<Rightarrow>
             (case srtp_encrypt cr al True tx mb of
                (Some _, _, _) \<Rightarrow> None
              | (None, tx, mb) \<Rightarrow> map_option ((#) mb) (media_send cr al rs tx fs))))"

primrec media_recv :: "'a crypto \<Rightarrow> alloc \<Rightarrow> rtp_sock \<Rightarrow> 'a srtp \<Rightarrow> mbuf list \<Rightarrow> (rtp_header \<times> byte list) list option" where
  "media_recv cr al rs rx [] = Some []"
| "media_recv cr al rs rx (d # ds) =
     (case srtp_decrypt cr al True rx d of
        (Some _, _, _) \<Rightarrow> None
      | (None, rx, mb) \<Rightarrow>
          (case rtp_decode rs mb of
             (Some _, _, _) \<Rightarrow> None
           | (None, hdr, mb) \<Rightarrow> map_option ((#) (hdr, mb_after mb)) (media_recv cr al rs rx ds)))"

definition frame_ok :: "frame \<Rightarrow> bool" where
  "frame_ok f = (case f of (marker, pt, ts, mb) \<Rightarrow>
     pt < 128 \<and> mbuf_ok mb \<and> RTP_HEADER_SIZE \<le> mb_pos mb \<and> mb_end mb + 40 < size_mod)"

text \<open>What should arrive: consecutive numbers, the source, and the frames unchanged.\<close>

primrec media_spec :: "u32 \<Rightarrow> u16 \<Rightarrow> frame list \<Rightarrow> (rtp_header \<times> byte list) list" where
  "media_spec src sq [] = []"
| "media_spec src sq (f # fs) =
     (case f of (marker, pt, ts, mb) \<Rightarrow> (rtp_mk_header False marker pt sq ts src, mb_after mb) # media_spec src (sq + 1) fs)"

abbreviation packet_bytes :: "rtp_header \<times> byte list \<Rightarrow> byte list" where
  "packet_bytes p \<equiv> rtp_hdr_bytes (fst p) @ snd p"

lemma rtp_mk_header_plain: "pt < 128 \<Longrightarrow> rtp_plain (rtp_mk_header False marker pt sq ts src)"
  using rtp_mk_header_ok by (simp add: rtp_plain_def rtp_mk_header_def rtp_header_zero_def)

lemma media_send_packets:
  assumes "media_send cr al rs tx fs = Some cs" and "list_all frame_ok fs"
  shows "\<exists>ms. each_packet (srtp_encrypt cr al True) tx ms = Some cs \<and> numbered (enc_ssrc rs) (enc_seq rs + 1) ms
    \<and> map mb_after ms = map packet_bytes (media_spec (enc_ssrc rs) (enc_seq rs + 1) fs)"
  using assms
proof (induction fs arbitrary: rs tx cs)
  case Nil
  then show ?case by (intro exI [of _ "[]"]) simp
next
  case (Cons f fs)
  obtain marker pt ts mb where f: "f = (marker, pt, ts, mb)" by (cases f)
  let ?h = "rtp_mk_header False marker pt (enc_seq rs + 1) ts (enc_ssrc rs)" and ?rs = "rs\<lparr>enc_seq := enc_seq rs + 1\<rparr>"
  have ok: "mbuf_ok mb" "RTP_HEADER_SIZE \<le> mb_pos mb" "pt < 128" "mb_end mb + 40 < size_mod"
    using Cons.prems(2) f by (simp_all add: frame_ok_def)
  obtain m out where send: "rtp_send (\<lambda>_. None) al rs False marker pt ts 0 mb = (None, ?rs, m, out)"
    and m: "mbuf_ok m" "mb_end m = mb_end mb" "mb_after m = rtp_hdr_bytes ?h @ mb_after mb"
    using rtp_send_buffer [OF ok(1-3), of "\<lambda>_. None" al rs marker ts 0] by blast
  obtain tx' c cs' where enc: "srtp_encrypt cr al True tx m = (None, tx', c)" and cs: "cs = c # cs'"
    and rest: "media_send cr al ?rs tx' fs = Some cs'"
    using Cons.prems(1) f send by (auto split: prod.splits option.splits)
  obtain ms where ms: "each_packet (srtp_encrypt cr al True) tx' ms = Some cs'" "numbered (enc_ssrc rs) (enc_seq rs + 1 + 1) ms"
    "map mb_after ms = map packet_bytes (media_spec (enc_ssrc rs) (enc_seq rs + 1 + 1) fs)"
    using Cons.IH [OF rest] Cons.prems(2) by auto
  have "rtp_packet (enc_ssrc rs) (enc_seq rs + 1) m"
    unfolding rtp_packet_def
  proof (intro conjI exI)
    show "mb_after m = rtp_hdr_bytes ?h @ mb_after mb" using m(3) .
  qed (use m ok rtp_mk_header_plain [OF ok(3)] in \<open>simp_all add: rtp_mk_header_def\<close>)
  then show ?case using ms enc cs m(3) f by (intro exI [of _ "m # ms"]) simp
qed

lemma media_recv_packets:
  assumes "each_packet (srtp_decrypt cr al True) rx ds = Some os" and "map mb_after os = map packet_bytes ps" and "list_all mbuf_ok os"
    and "\<forall>p \<in> set ps. \<exists>marker pt sq ts src. pt < 128 \<and> fst p = rtp_mk_header False marker pt sq ts src"
  shows "media_recv cr al rs rx ds = Some ps"
  using assms
proof (induction ds arbitrary: rx os ps)
  case (Cons d ds)
  obtain rx' m os' where dec: "srtp_decrypt cr al True rx d = (None, rx', m)" and os: "os = m # os'"
    and rest: "each_packet (srtp_decrypt cr al True) rx' ds = Some os'"
    using Cons.prems(1) by (auto split: prod.splits option.splits)
  obtain p ps' where ps: "ps = p # ps'" "mb_after m = packet_bytes p" "map mb_after os' = map packet_bytes ps'"
    using Cons.prems(2) os by (cases ps) auto
  obtain marker pt sq ts src where p: "pt < 128" "fst p = rtp_mk_header False marker pt sq ts src" using Cons.prems(4) ps(1) by auto
  obtain mb' where "rtp_decode rs m = (None, fst p, mb')" "mb_after mb' = snd p"
    using rtp_mk_decode [OF _ p(1), of m marker sq ts src "snd p" rs] Cons.prems(3) os ps(2) p(2) by auto
  then show ?case using Cons.IH [OF rest ps(3)] Cons.prems(3,4) os ps(1) dec by auto
qed auto

lemma media_spec_headers:
  "list_all frame_ok fs \<Longrightarrow> \<forall>p \<in> set (media_spec src sq fs). \<exists>marker pt sq ts src. pt < 128 \<and> fst p = rtp_mk_header False marker pt sq ts src"
proof (induction fs arbitrary: sq)
  case (Cons f fs)
  obtain marker pt ts mb where "f = (marker, pt, ts, mb)" by (cases f)
  with Cons.IH [of "sq + 1"] Cons.prems show ?case by (auto simp: frame_ok_def; blast)
qed simp

lemma length_media_spec [simp]: "length (media_spec src sq fs) = length fs"
  by (induction fs arbitrary: sq) (auto split: prod.split)

lemma arrived_map: "arrived lost (map f xs) = map f (arrived lost xs)"
  by (induction lost xs rule: list_induct2') (simp_all add: arrived_def)

lemma arrived_subset: "set (arrived lost xs) \<subseteq> set xs"
  by (auto simp: arrived_def dest: set_zip_rightD)

section \<open>Properties\<close>

text \<open>C1: From frame to frame. A sender numbers and frames media with \<open>rtp_send\<close> and seals every packet; a
  receiver with the same master key opens those that arrive and decodes them. It gets exactly the
  frames that were not lost, in order, each under the header the sender gave it, over any number of
  wraps of the sequence number, as long as the losses are bounded: the first packet that arrives
  comes before the sequence number wraps for the first time, and every later one is at most 32768
  packets after the one that arrived before it. (Across a longer gap the receiver estimates the wrong
  rollover count and refuses the packet.) Both sides start fresh sessions, every packet is sealed
  without an error by a cipher library that opens what it sealed, the payload types are below
  128, the frames have headroom for the header, and the packets are fewer than \<open>2 ^ 46\<close>.\<close>

theorem media_path_delivers:
  assumes "crypto_ok cr key" and "srtp_alloc cr True suite mk fl = Inr s0" and "list_all frame_ok fs" and "length fs < 2 ^ 46"
    and "media_send cr al rs s0 fs = Some cs" and "length lost = length fs" and "losses_ok 65535 (unat (enc_seq rs + 1)) lost"
    and "list_all2 (\<lambda>c r. mbuf_ok r \<and> mb_after r = mb_after c) cs ds"
  shows "media_recv cr al' rs' s0 (arrived lost ds) = Some (arrived lost (media_spec (enc_ssrc rs) (enc_seq rs + 1) fs))"
proof -
  let ?ps = "media_spec (enc_ssrc rs) (enc_seq rs + 1) fs"
  obtain ms where ms: "each_packet (srtp_encrypt cr al True) s0 ms = Some cs" "numbered (enc_ssrc rs) (enc_seq rs + 1) ms"
    "map mb_after ms = map packet_bytes ?ps"
    using media_send_packets [OF assms(5,3)] by blast
  have len: "length ms = length fs" using arg_cong [OF ms(3), of length] by simp
  have "unat (enc_seq rs + 1) < 65536" using unsigned_less [of "enc_seq rs + 1", where ?'a = nat] by simp
  then obtain os where os: "each_packet (srtp_decrypt cr al' True) s0 (arrived lost ds) = Some os"
    "map mb_after os = map mb_after (arrived lost ms)" "list_all mbuf_ok os"
    using session_delivers [OF assms(1,2) ms(2) _ ms(1) _ assms(7,8), of al'] assms(4,6) len by auto
  have "map mb_after os = map packet_bytes (arrived lost ?ps)"
    using os(2) ms(3) by (simp flip: arrived_map)
  then show ?thesis
    using media_recv_packets [OF os(1) _ os(3)] media_spec_headers [OF assms(3)] arrived_subset [of lost ?ps] by blast
qed

lemma media_send_total:
  assumes t: "crypto_total cr" "alloc_total al" and "list_all frame_ok fs"
    and "stream_find tx (enc_ssrc rs) \<noteq> None \<or> length (sr_streaml tx) < SRTP_MAX_STREAMS"
  shows "\<exists>cs. media_send cr al rs tx fs = Some cs"
  using assms(3,4)
proof (induction fs arbitrary: tx rs)
  case (Cons f fs)
  obtain marker pt ts mb where f: "f = (marker, pt, ts, mb)" by (cases f)
  let ?h = "rtp_mk_header False marker pt (enc_seq rs + 1) ts (enc_ssrc rs)" and ?rs = "rs\<lparr>enc_seq := enc_seq rs + 1\<rparr>"
  have ok: "mbuf_ok mb" "RTP_HEADER_SIZE \<le> mb_pos mb" "pt < 128" "mb_end mb + 40 < size_mod"
    using Cons.prems(1) f by (simp_all add: frame_ok_def)
  obtain m out where send: "rtp_send (\<lambda>_. None) al rs False marker pt ts 0 mb = (None, ?rs, m, out)"
    and m: "mbuf_ok m" "mb_end m = mb_end mb" "mb_after m = rtp_hdr_bytes ?h @ mb_after mb"
    using rtp_send_buffer [OF ok(1-3), of "\<lambda>_. None" al rs marker ts 0] by blast
  have h: "rtp_plain ?h" "h_ssrc ?h = enc_ssrc rs" "h_seq ?h = enc_seq rs + 1"
    using rtp_mk_header_plain [OF ok(3)] by (simp_all add: rtp_mk_header_def)
  then have "rtp_packet (enc_ssrc rs) (enc_seq rs + 1) m" using m ok(4) unfolding rtp_packet_def by metis
  then obtain tx' c where enc: "srtp_encrypt cr al True tx m = (None, tx', c)"
    using encrypt_total [OF t _ Cons.prems(2)] by (cases "srtp_encrypt cr al True tx m") fastforce
  have "stream_find tx' (enc_ssrc rs) \<noteq> None" using encrypt_stream [OF enc h(1) m(1,3)] h(2) by simp
  then show ?case using Cons.IH [of tx' ?rs] Cons.prems(1) f send enc by auto
qed simp

definition demo_frame :: "byte \<Rightarrow> frame" where
  "demo_frame b = (True, 8, 160, (mbuf_of (replicate 12 0 @ [b, 8]))\<lparr>mb_pos := 12\<rparr>)"

theorem media_path_delivers_witness:
  "let rs = \<lparr>enc_seq = 65534, enc_ssrc = 9, has_rtcp = True\<rparr> in
   \<exists>s0 cs. srtp_alloc xor_crypto True SRTP_AES_CM_128_HMAC_SHA1_32 (replicate 30 7) False = Inr s0
     \<and> media_send xor_crypto al_zero rs s0 [demo_frame 1, demo_frame 2, demo_frame 3] = Some cs
     \<and> media_recv xor_crypto al_zero rs s0 (arrived [False, True, False] cs)
         = Some [(rtp_mk_header False True 8 65535 160 9, [1, 8]), (rtp_mk_header False True 8 1 160 9, [3, 8])]"
proof -
  let ?rs = "\<lparr>enc_seq = 65534, enc_ssrc = 9, has_rtcp = True\<rparr>" and ?fs = "[demo_frame 1, demo_frame 2, demo_frame 3]"
  let ?a = "srtp_alloc xor_crypto True SRTP_AES_CM_128_HMAC_SHA1_32 (replicate 30 7) False"
  have a: "?a = Inr (projr ?a)" "sr_streaml (projr ?a) = []" by code_simp+
  have fr: "list_all frame_ok ?fs" "mb_after (snd (snd (snd (demo_frame b)))) = [b, 8]" for b
    by (simp_all add: frame_ok_def demo_frame_def mbuf_of_def mbuf_ok_def mb_bytes_def mb_after_def size_mod_def RTP_HEADER_SIZE_def)
  have "crypto_total xor_crypto" "alloc_total al_zero"
    by (simp_all add: crypto_total_def xor_crypto_def alloc_total_def al_zero_def)
  from media_send_total [OF this fr(1), of "projr ?a" ?rs] a(2)
  obtain cs where cs: "media_send xor_crypto al_zero ?rs (projr ?a) ?fs = Some cs" by (auto simp: SRTP_MAX_STREAMS_def)
  obtain ms where ms: "each_packet (srtp_encrypt xor_crypto al_zero True) (projr ?a) ms = Some cs" "numbered 9 (65534 + 1) ms"
    using media_send_packets [OF cs fr(1)] by auto
  have rs: "list_all2 (\<lambda>c r. mbuf_ok r \<and> mb_after r = mb_after c) cs cs"
    using sealed_ok [OF xor_crypto_ok ms(2) srtp_alloc_ok(1) [OF a(1)] ms(1)] by (simp add: list_all2_same list_all_iff)
  have "media_recv xor_crypto al_zero ?rs (projr ?a) (arrived [False, True, False] cs)
      = Some (arrived [False, True, False] (media_spec 9 (65534 + 1) ?fs))"
    using media_path_delivers [OF xor_crypto_ok a(1) fr(1) _ cs _ _ rs, of "[False, True, False]" al_zero ?rs] by simp
  moreover have "arrived [False, True, False] (media_spec 9 (65534 + 1) ?fs)
      = [(rtp_mk_header False True 8 65535 160 9, [1, 8]), (rtp_mk_header False True 8 1 160 9, [3, 8])]"
    using fr(2) by (simp add: demo_frame_def rtp_mk_header_def rtp_header_zero_def)
  ultimately show ?thesis
    unfolding Let_def using a(1) cs by (intro exI [of _ "projr ?a"] exI [of _ cs] conjI) (simp_all only:)
qed

end
